(* ===== verification/GoPrelude.thy ===== *)
theory GoPrelude
  imports Main "HOL-Library.Word" "HOL-Library.Monad_Syntax" "HOL-Library.Multiset"
begin

text \<open>
  Shared vocabulary of the development: Go's machine integers, slices, panics and loops, and the
  generic lemmas the component theories use.

  \<^item> Integers. \<open>uint8\<close> to \<open>uint64\<close> are words of the same width, so that \<open>+\<close>, \<open>*\<close> and the
    bitwise operations wrap exactly as in Go; \<open>int64\<close> and \<open>float64\<close> values that are only stored,
    moved and compared for equality are 64-bit words too (the two's-complement pattern and the
    IEEE-754 bit pattern). Go's \<open>int\<close> used as a length or an index is \<open>nat\<close>, or \<open>int\<close> where the
    source tests it for being negative.
  \<^item> Slices are lists. An index expression panics out of range, so a function in which that can
    happen has the result type \<^typ>\<open>'a option\<close> with \<^term>\<open>None\<close> for the panic
    (\<open>slice_at\<close>, \<open>slice_set\<close>).
  \<^item> A \<open>for\<close> loop whose body may panic is a fold in the option monad (\<open>fold_opt\<close>).
\<close>

unbundle bit_operations_syntax

section \<open>Types\<close>

type_synonym u8 = "8 word"
type_synonym u16 = "16 word"
type_synonym u32 = "32 word"
type_synonym u64 = "64 word"
type_synonym i64 = "64 word"
type_synonym f64 = "64 word"
type_synonym NodeID = u32
type_synonym PropertyKey = u32

named_theorems go_loop "facts about loops in the option monad"
named_theorems wf_intro "introduction rules of the components' invariants"

section \<open>Slices\<close>

definition slice_at :: "'a list \<Rightarrow> nat \<Rightarrow> 'a option" where
  "slice_at xs i = (if i < length xs then Some (xs ! i) else None)"

definition slice_set :: "'a list \<Rightarrow> nat \<Rightarrow> 'a \<Rightarrow> 'a list option" where
  "slice_set xs i v = (if i < length xs then Some (xs[i := v]) else None)"

lemma slice_at_simps [simp]:
  "i < length xs \<Longrightarrow> slice_at xs i = Some (xs ! i)"
  "\<not> i < length xs \<Longrightarrow> slice_at xs i = None"
  by (simp_all add: slice_at_def)

lemma slice_at_eq_Some: "slice_at xs i = Some v \<longleftrightarrow> i < length xs \<and> v = xs ! i"
  by (auto simp: slice_at_def)

lemma slice_set_simps [simp]:
  "i < length xs \<Longrightarrow> slice_set xs i v = Some (xs[i := v])"
  "\<not> i < length xs \<Longrightarrow> slice_set xs i v = None"
  by (simp_all add: slice_set_def)

lemma slice_set_eq_Some: "slice_set xs i v = Some ys \<longleftrightarrow> i < length xs \<and> ys = xs[i := v]"
  by (auto simp: slice_set_def)

section \<open>Loops that may panic\<close>

fun fold_opt :: "('a \<Rightarrow> 's \<Rightarrow> 's option) \<Rightarrow> 'a list \<Rightarrow> 's \<Rightarrow> 's option" where
  "fold_opt f [] s = Some s"
| "fold_opt f (x # xs) s = (case f x s of None \<Rightarrow> None | Some s' \<Rightarrow> fold_opt f xs s')"

lemma fold_opt_append [go_loop]:
  "fold_opt f (xs @ ys) s = (case fold_opt f xs s of None \<Rightarrow> None | Some s' \<Rightarrow> fold_opt f ys s')"
  by (induction xs arbitrary: s) (auto split: option.splits)

lemma fold_opt_Some [go_loop]: "fold_opt (\<lambda>x s. Some (f x s)) xs s = Some (fold f xs s)"
  by (induction xs arbitrary: s) auto

lemma fold_opt_cong [fundef_cong]:
  "xs = ys \<Longrightarrow> s = t \<Longrightarrow> (\<And>x u. x \<in> set ys \<Longrightarrow> f x u = g x u)
    \<Longrightarrow> fold_opt f xs s = fold_opt g ys t"
  by (induction xs arbitrary: s t ys) (force split: option.splits)+

text \<open>The loop rule: an invariant indexed by the iterations done, kept by a body that returns.\<close>

lemma fold_opt_rule:
  assumes "P 0 s"
    and "\<And>k u. k < length xs \<Longrightarrow> P k u \<Longrightarrow> \<exists>u'. f (xs ! k) u = Some u' \<and> P (Suc k) u'"
  shows "\<exists>t. fold_opt f xs s = Some t \<and> P (length xs) t"
  using assms
proof (induction xs arbitrary: P s)
  case Nil
  then show ?case by simp
next
  case (Cons x xs)
  from Cons.prems(2) [of 0 s] Cons.prems(1) obtain s' where s': "f x s = Some s'" "P (Suc 0) s'"
    by auto
  have "\<exists>t. fold_opt f xs s' = Some t \<and> P (Suc (length xs)) t"
    using Cons.IH [of "\<lambda>k. P (Suc k)" s'] s'(2) Cons.prems(2) by fastforce
  with s' show ?case by auto
qed

lemma fold_rule:
  assumes "P 0 s" and "\<And>k u. k < length xs \<Longrightarrow> P k u \<Longrightarrow> P (Suc k) (f (xs ! k) u)"
  shows "P (length xs) (fold f xs s)"
  using fold_opt_rule [of P s xs "\<lambda>x s. Some (f x s)"] assms by (simp add: go_loop)

section \<open>Bits of words\<close>

text \<open>\<open>w & (1 << k) != 0\<close> is the bit test; \<open>1 << k\<close> is \<open>2 ^ k\<close> on words.\<close>

lemma and_exp_nonzero: "(w AND 2 ^ k \<noteq> 0) \<longleftrightarrow> bit w k" for w :: "'a::len word"
  using bit_iff_and_push_bit_not_eq_0 [of w k] by simp

lemma and_exp_zero [simp]: "(w AND 2 ^ k = 0) \<longleftrightarrow> \<not> bit w k" for w :: "'a::len word"
  using and_exp_nonzero [of w k] by blast

lemma bit_or_exp [simp]: "k < LENGTH('a) \<Longrightarrow> bit (w OR 2 ^ k) j \<longleftrightarrow> bit w j \<or> j = k"
  for w :: "'a::len word"
  by (auto simp: bit_or_iff bit_exp_iff)

lemma bit_andnot_exp [simp]: "bit (w AND NOT (2 ^ k)) j \<longleftrightarrow> bit w j \<and> j \<noteq> k"
  for w :: "'a::len word"
  by (auto simp: bit_and_iff bit_not_iff bit_exp_iff dest: bit_imp_le_length)

text \<open>Conversions between widths.\<close>

lemma unat_ucast_down: "unat (ucast (a :: 'a::len word) :: 'b::len word) = unat a mod 2 ^ LENGTH('b)"
  unfolding unsigned_ucast_eq unsigned_take_bit_eq take_bit_eq_mod ..

lemma unat_ucast_up [simp]: "LENGTH('a::len) \<le> LENGTH('b::len) \<Longrightarrow> unat (ucast (a :: 'a word) :: 'b word) = unat a"
proof -
  assume "LENGTH('a) \<le> LENGTH('b)"
  then have "(2::nat) ^ LENGTH('a) \<le> 2 ^ LENGTH('b)" by simp
  then have "unat a < 2 ^ LENGTH('b)" using unsigned_less [of a, where ?'a = nat] by linarith
  then show ?thesis by (simp add: unat_ucast_down)
qed

lemma ucast_ucast_id [simp]: "LENGTH('a) \<le> LENGTH('b) \<Longrightarrow> ucast (ucast (a :: 'a::len word) :: 'b::len word) = a"
  by (rule unsigned_word_eqI [where ?'a = nat]) (simp add: unat_ucast_down [where 'b = 'a])
text \<open>Signed reading of 64-bit words.\<close>

lemma mod_once: "0 \<le> x \<Longrightarrow> x < 2 * m \<Longrightarrow> x mod m = (if m \<le> x then x - m else x)" for x m :: int
  using mod_pos_pos_trivial [of "x - m" m] minus_mod_self2 [of x m] by (auto simp: mod_pos_pos_trivial)

lemma uint64_range: "0 \<le> uint w" "uint w < 2 ^ 64" for w :: u64
  using uint_bounded [of w] by simp_all

lemma sint64_range: "- (2 ^ 63) \<le> sint w" "sint w < 2 ^ 63" for w :: u64
  using sint_ge [of w] sint_lt [of w] by simp_all

text \<open>Reading a word as signed subtracts \<open>2^64\<close> when the sign bit is set.\<close>

lemma sint_uint: "sint w = uint w - (if 2 ^ 63 \<le> uint w then 2 ^ 64 else 0)" for w :: u64
proof -
  have "sint w = (uint w + 2 ^ 63) mod 2 ^ 64 - 2 ^ 63"
    using int_word_sint [of "uint w", where 'a = 64] by simp
  moreover have "(uint w + 2 ^ 63) mod 2 ^ 64 = uint w + 2 ^ 63 - (if 2 ^ 63 \<le> uint w then 2 ^ 64 else 0)"
    using uint64_range [of w] by (subst mod_once) auto
  ultimately show ?thesis by simp
qed

lemma sint_neg: "sint w < 0 \<longleftrightarrow> 2 ^ 63 \<le> uint w" for w :: u64
  using uint64_range [of w] unfolding sint_uint by simp

lemma sint_val: "sint w < 0 \<Longrightarrow> uint w = sint w + 2 ^ 64" "\<not> sint w < 0 \<Longrightarrow> uint w = sint w" for w :: u64
  unfolding sint_neg by (simp_all add: sint_uint)

lemma sint_mod: "sint w mod 2 ^ 64 = uint w" for w :: u64
  using uint64_range [of w] by (simp add: sint_uint mod_pos_pos_trivial)

lemma uint_diff_sint: "sint a \<le> sint b \<Longrightarrow> uint (b - a) = sint b - sint a" for a b :: u64
proof -
  assume le: "sint a \<le> sint b"
  have "uint (b - a) = (uint b - uint a) mod 2 ^ 64" by (simp add: uint_word_ariths)
  also have "\<dots> = (sint b - sint a) mod 2 ^ 64" 
    using mod_diff_eq [of "sint b" "2 ^ 64" "sint a"] unfolding sint_mod .
  also have "\<dots> = sint b - sint a" using le sint64_range [of a] sint64_range [of b] by (intro mod_pos_pos_trivial) simp_all
  finally show ?thesis .
qed

lemma unat_of_nat_less [simp]: "n < 2 ^ LENGTH('a) \<Longrightarrow> unat (of_nat n :: 'a::len word) = n"
  by (simp add: unsigned_of_nat take_bit_nat_eq_self)

lemma unat_u32: "unat (w :: u32) < 2 ^ 32"
  using unsigned_less [of w, where ?'a = nat] by simp

section \<open>Lists\<close>

lemma length_filter_nat_upt_less:
  "length (filter P [a..<b]) = card {i. a \<le> i \<and> i < b \<and> P i}"
proof -
  have "distinct (filter P [a..<b])" by simp
  then have "length (filter P [a..<b]) = card (set (filter P [a..<b]))"
    by (rule distinct_card [symmetric])
  moreover have "set (filter P [a..<b]) = {i. a \<le> i \<and> i < b \<and> P i}" by auto
  ultimately show ?thesis by simp
qed

text \<open>\<open>count_in P a b\<close> counts the positions of \<open>[a, b)\<close> that satisfy \<open>P\<close>.\<close>

definition count_in :: "(nat \<Rightarrow> bool) \<Rightarrow> nat \<Rightarrow> nat \<Rightarrow> nat" where
  "count_in P a b = length (filter P [a..<b])"

lemma count_in_card: "count_in P a b = card {i. a \<le> i \<and> i < b \<and> P i}"
  by (simp add: count_in_def length_filter_nat_upt_less)

lemma count_in_empty [simp]: "b \<le> a \<Longrightarrow> count_in P a b = 0"
  by (simp add: count_in_def)

lemma count_in_le: "count_in P a b \<le> b - a"
  using length_filter_le [of P "[a..<b]"] by (simp add: count_in_def)

lemma count_in_split: "a \<le> m \<Longrightarrow> m \<le> b \<Longrightarrow> count_in P a b = count_in P a m + count_in P m b"
  using upt_add_eq_append [of a m "b - m"] by (simp add: count_in_def)

lemma count_in_Suc: "a \<le> b \<Longrightarrow> count_in P a (Suc b) = count_in P a b + (if P b then 1 else 0)"
  by (simp add: count_in_def)

lemma upt_shift: "[k + a..<k + b] = map ((+) k) [a..<b]"
  by (induction b) auto

lemma count_in_shift: "count_in P (k + a) (k + b) = count_in (\<lambda>j. P (k + j)) a b"
  by (simp add: count_in_def upt_shift filter_map o_def)

lemma count_in_cong: "(\<And>i. a \<le> i \<Longrightarrow> i < b \<Longrightarrow> P i = Q i) \<Longrightarrow> count_in P a b = count_in Q a b"
  unfolding count_in_def by (intro arg_cong [where f = length] filter_cong) auto

lemma fold_plus_sum_list: "fold (\<lambda>x c. c + f x) xs (c::nat) = c + sum_list (map f xs)"
  by (induction xs arbitrary: c) auto

lemma find_append: "find P (xs @ ys) = (case find P xs of None \<Rightarrow> find P ys | Some x \<Rightarrow> Some x)"
  by (induction xs) auto

lemma option_eqI: "(\<And>t. a = Some t \<longleftrightarrow> b = Some t) \<Longrightarrow> a = b"
  by (cases a; cases b) auto

lemma length_filter_update:
  assumes "i < length xs"
  shows "length (filter P (xs[i := v])) + (if P (xs ! i) then 1 else 0)
    = length (filter P xs) + (if P v then 1 else 0)"
proof -
  have "filter P xs = filter P (take i xs) @ filter P (xs ! i # drop (Suc i) xs)"
    using id_take_nth_drop [OF assms] by (metis filter_append)
  moreover have "filter P (xs[i := v]) = filter P (take i xs) @ filter P (v # drop (Suc i) xs)"
    using assms by (simp add: upd_conv_take_nth_drop)
  ultimately show ?thesis by simp
qed

section \<open>Binary search\<close>

text \<open>\<open>sort.Search(n, f)\<close> of the standard library, which \<open>sparseSlot\<close> also spells out: the loop over
  the half-open interval \<open>[i, j)\<close>.\<close>

function search_loop :: "(nat \<Rightarrow> bool) \<Rightarrow> nat \<Rightarrow> nat \<Rightarrow> nat" where
  "search_loop f i j =
     (if i < j then let h = (i + j) div 2 in if \<not> f h then search_loop f (h + 1) j else search_loop f i h
      else i)"
  by pat_completeness auto
termination
  by (relation "measure (\<lambda>(f, i, j). j - i)") auto

declare search_loop.simps [simp del]

definition Search :: "nat \<Rightarrow> (nat \<Rightarrow> bool) \<Rightarrow> nat" where
  "Search n f = search_loop f 0 n"

text \<open>On a monotone predicate the search returns the boundary between false and true.\<close>

lemma search_loop_least:
  assumes mono: "\<And>a b. a \<le> b \<Longrightarrow> b < n \<Longrightarrow> f a \<Longrightarrow> f b"
    and "i \<le> j" "j \<le> n" "\<And>a. a < i \<Longrightarrow> \<not> f a" "\<And>a. j \<le> a \<Longrightarrow> a < n \<Longrightarrow> f a"
  shows "search_loop f i j \<le> n \<and> (\<forall>a < search_loop f i j. \<not> f a)
    \<and> (\<forall>a < n. search_loop f i j \<le> a \<longrightarrow> f a)"
  using assms(2-)
proof (induction "j - i" arbitrary: i j rule: less_induct)
  case less
  show ?case
  proof (cases "i < j")
    case False
    then have "search_loop f i j = i" by (simp add: search_loop.simps)
    then show ?thesis using less.prems False by auto
  next
    case True
    obtain h where hd: "(i + j) div 2 = h" and h: "i \<le> h" "h < j" "h < n"
      using True less.prems(2) that [OF refl] by auto
    show ?thesis
    proof (cases "f h")
      case fh: True
      have "search_loop f i j = search_loop f i h" using True fh hd by (subst search_loop.simps) (simp add: Let_def)
      moreover have "f a" if "h \<le> a" "a < n" for a using mono [OF that fh] .
      moreover have "h - i < j - i" "h \<le> n" using h by auto
      ultimately show ?thesis using less.hyps [OF _ h(1)] less.prems(3) by metis
    next
      case fh: False
      have "search_loop f i j = search_loop f (h + 1) j" using True fh hd by (subst search_loop.simps) (simp add: Let_def)
      moreover have "\<not> f a" if "a < h + 1" for a using mono [of a h] h fh that by auto
      moreover have "j - (h + 1) < j - i" "h + 1 \<le> j" using h by auto
      ultimately show ?thesis using less.hyps less.prems(2,4) by metis
    qed
  qed
qed

lemma Search_least:
  assumes "\<And>a b. a \<le> b \<Longrightarrow> b < n \<Longrightarrow> f a \<Longrightarrow> f b"
  shows "Search n f \<le> n" "a < Search n f \<Longrightarrow> \<not> f a" "a < n \<Longrightarrow> Search n f \<le> a \<Longrightarrow> f a"
  using search_loop_least [of n f 0 n] assms by (auto simp: Search_def)

lemma Search_eqI:
  assumes "\<And>a b. a \<le> b \<Longrightarrow> b < n \<Longrightarrow> f a \<Longrightarrow> f b" "k \<le> n" "\<And>a. a < k \<Longrightarrow> \<not> f a" "k < n \<Longrightarrow> f k"
  shows "Search n f = k"
proof -
  have s: "Search n f \<le> n" "\<And>a. a < Search n f \<Longrightarrow> \<not> f a" "\<And>a. a < n \<Longrightarrow> Search n f \<le> a \<Longrightarrow> f a"
    using Search_least [where n = n and f = f] assms(1) by blast+
  have "\<not> Search n f < k" using s(3) [of "Search n f"] assms(2,3) by auto
  moreover have "\<not> k < Search n f" using s(1) s(2) [of k] assms(4) by auto
  ultimately show ?thesis by simp
qed

section \<open>Iterators that may panic\<close>

fun map_opt :: "('a \<Rightarrow> 'b option) \<Rightarrow> 'a list \<Rightarrow> 'b list option" where
  "map_opt f [] = Some []"
| "map_opt f (x # xs) = (case f x of None \<Rightarrow> None | Some y \<Rightarrow> map_option (Cons y) (map_opt f xs))"

lemma map_opt_Some:
  assumes "\<And>x. x \<in> set xs \<Longrightarrow> f x = Some (g x)"
  shows "map_opt f xs = Some (map g xs)"
  using assms by (induction xs) simp_all

lemma map_opt_cong [fundef_cong]: "xs = ys \<Longrightarrow> (\<And>x. x \<in> set ys \<Longrightarrow> f x = g x) \<Longrightarrow> map_opt f xs = map_opt g ys"
  by (induction xs arbitrary: ys) (auto split: option.splits)

section \<open>Positions\<close>

lemma filter_upt_index:
  assumes "P p" "p < n"
  shows "count_in P 0 p < length (filter P [0..<n])" "filter P [0..<n] ! count_in P 0 p = p"
proof -
  have "[0..<n] = [0..<p] @ p # [Suc p..<n]" 
    using upt_add_eq_append [of 0 p "n - p"] assms(2) by (simp add: upt_conv_Cons)
  then have "filter P [0..<n] = filter P [0..<p] @ p # filter P [Suc p..<n]" using assms(1) by simp
  then show "count_in P 0 p < length (filter P [0..<n])" "filter P [0..<n] ! count_in P 0 p = p"
    by (simp_all add: count_in_def)
qed

text \<open>\<open>u32_list\<close> converts positions; it keeps them ascending while they are below \<open>2^32\<close>.\<close>

lemma sorted_map_of_nat:
  assumes "sorted_wrt (<) xs" "\<And>x. x \<in> set xs \<Longrightarrow> x < 2 ^ 32"
  shows "sorted_wrt (<) (map (of_nat :: nat \<Rightarrow> u32) xs)"
  using assms by (induction xs) (auto simp: word_less_nat_alt unat_of_nat_less)

lemma of_nat_unat_mem: "(\<And>x. x \<in> set xs \<Longrightarrow> x < 2 ^ 32) \<Longrightarrow> p \<in> set (map of_nat xs) \<longleftrightarrow> unat (p :: u32) \<in> set xs"
  by (auto simp: image_iff unat_of_nat_less) (metis of_nat_unat ucast_id)

lemma sorted_wrt_less_distinct: "sorted_wrt (<) xs \<Longrightarrow> distinct (xs :: 'a::order list)"
  by (induction xs) auto

lemma sorted_assoc_unique:
  assumes "sorted_wrt (<) (map fst xs)" "sorted_wrt (<) (map fst ys)" "map_of xs = map_of (ys :: ('a::linorder \<times> 'b) list)"
  shows "xs = ys"
proof -
  have d: "distinct (map fst xs)" "distinct (map fst ys)" using assms(1,2) by (simp_all add: sorted_wrt_less_distinct)
  have "set xs = set ys" using assms(3) d by (metis map_of_eq_Some_iff subrelI subset_antisym surj_pair subsetI)
  moreover have "inj_on fst (set xs)" using d(1) by (simp add: distinct_map)
  moreover have "sorted (map fst xs)" "sorted (map fst ys)" using assms(1,2) by (simp_all add: strict_sorted_imp_sorted)
  ultimately show ?thesis using d by (intro map_sorted_distinct_set_unique [of fst]) auto
qed

lemma All_less_numeral: "(\<forall>u < numeral k. P u) \<longleftrightarrow> P (pred_numeral k) \<and> (\<forall>u < pred_numeral k. P u)"
  by (simp add: numeral_eq_Suc All_less_Suc conj_commute)

section \<open>Iterators\<close>

text \<open>A range-over-func iterator over a list: the consumer returns whether to go on, and its state.\<close>

fun yield_all :: "('a \<Rightarrow> 's \<Rightarrow> bool \<times> 's) \<Rightarrow> 'a list \<Rightarrow> 's \<Rightarrow> bool \<times> 's" where
  "yield_all yield [] s = (True, s)"
| "yield_all yield (x # xs) s = (case yield x s of (go, s') \<Rightarrow> if go then yield_all yield xs s' else (False, s'))"

lemma yield_all_append: "yield_all y (xs @ zs) s = (case yield_all y xs s of (go, s') \<Rightarrow> if go then yield_all y zs s' else (False, s'))"
  by (induction xs arbitrary: s) (auto split: prod.split)

end
