(* ===== verification/Bitset.thy ===== *)
theory Bitset
  imports GoPrelude
begin

text \<open>
  The bit vector of \<open>internal/bitset/bitset.go\<close>: the storage of dense bool columns and of the
  presence bitmaps behind rank/select columns.
\<close>

section \<open>Model\<close>

text \<open>\<open>bits.OnesCount64\<close> and \<open>bits.TrailingZeros64\<close> of the Go standard library.\<close>

definition OnesCount64 :: "u64 \<Rightarrow> nat" where
  "OnesCount64 w = length (filter (bit w) [0..<64])"

definition TrailingZeros64 :: "u64 \<Rightarrow> nat" where
  "TrailingZeros64 w = length (takeWhile (\<lambda>i. \<not> bit w i) [0..<64])"

record bits =
  words :: "u64 list"
  nbits :: nat

definition New :: "nat \<Rightarrow> bits" where
  "New n = \<lparr>words = replicate ((n + 63) div 64) 0, nbits = n\<rparr>"

definition set_word :: "bits \<Rightarrow> nat \<Rightarrow> (u64 \<Rightarrow> u64) \<Rightarrow> bits option" where
  "set_word b i f =
     (case slice_at (words b) i of
        None \<Rightarrow> None
      | Some w \<Rightarrow> Some (b\<lparr>words := (words b)[i := f w]\<rparr>))"

definition FromPackedLSB :: "u8 list \<Rightarrow> nat \<Rightarrow> bits option" where
  "FromPackedLSB packed n =
     fold_opt (\<lambda>i b. case slice_at packed (i div 8) of
         None \<Rightarrow> None
       | Some p \<Rightarrow>
           if p AND push_bit (i mod 8) 1 \<noteq> 0
           then set_word b (i div 64) (\<lambda>w. w OR push_bit (i mod 64) 1)
           else Some b)
       [0..<n] (New n)"

definition Len :: "bits \<Rightarrow> nat" where
  "Len b = nbits b"

definition Get :: "bits \<Rightarrow> int \<Rightarrow> bool option" where
  "Get b i =
     (if i < 0 \<or> i \<ge> int (nbits b) then Some False
      else map_option (\<lambda>w. w AND push_bit (nat i mod 64) 1 \<noteq> 0) (slice_at (words b) (nat i div 64)))"

definition Set_bit :: "bits \<Rightarrow> nat \<Rightarrow> bool \<Rightarrow> bits option" where
  "Set_bit b i v =
     (if v then set_word b (i div 64) (\<lambda>w. w OR push_bit (i mod 64) 1)
      else set_word b (i div 64) (\<lambda>w. w AND NOT (push_bit (i mod 64) 1)))"

definition ToPackedLSB :: "bits \<Rightarrow> u8 list option" where
  "ToPackedLSB b =
     fold_opt (\<lambda>i out. case Get b (int i) of
         None \<Rightarrow> None
       | Some True \<Rightarrow>
           (case slice_at out (i div 8) of
              None \<Rightarrow> None
            | Some o8 \<Rightarrow> Some (out[i div 8 := o8 OR push_bit (i mod 8) 1]))
       | Some False \<Rightarrow> Some out)
       [0..<nbits b] (replicate ((nbits b + 7) div 8) 0)"

definition Count :: "bits \<Rightarrow> nat" where
  "Count b = fold (\<lambda>w c. c + OnesCount64 w) (words b) 0"

definition CountRange :: "bits \<Rightarrow> int \<Rightarrow> int \<Rightarrow> nat option" where
  "CountRange b lo0 hi0 =
     (let lo = max lo0 0; hi = min hi0 (int (nbits b)) in
      if lo \<ge> hi then Some 0
      else
        let l = nat lo; h = nat hi;
            loW = l div 64; hiW = (h - 1) div 64;
            loMask = push_bit (l mod 64) (NOT 0) :: u64;
            hiMask = drop_bit (63 - (h - 1) mod 64) (NOT 0) :: u64
        in if loW = hiW
           then map_option (\<lambda>w. OnesCount64 (w AND loMask AND hiMask)) (slice_at (words b) loW)
           else do {
             w0 \<leftarrow> slice_at (words b) loW;
             c \<leftarrow> fold_opt (\<lambda>w c. map_option (\<lambda>x. c + OnesCount64 x) (slice_at (words b) w))
                    [loW + 1..<hiW] (OnesCount64 (w0 AND loMask));
             w1 \<leftarrow> slice_at (words b) hiW;
             Some (c + OnesCount64 (w1 AND hiMask))
           })"

text \<open>
  \<open>Ones\<close> yields positions; the model is the list of them. \<open>ones_word\<close> is the inner loop over one
  word, which also reports whether the iterator returned because a position reached \<open>n\<close>. It
  terminates because \<open>w & (w - 1)\<close> is smaller than \<open>w\<close>.
\<close>

lemma TrailingZeros64_bit:
  assumes "w \<noteq> 0"
  shows "TrailingZeros64 w < 64" "bit w (TrailingZeros64 w)" "j < TrailingZeros64 w \<Longrightarrow> \<not> bit w j"
proof -
  let ?P = "\<lambda>i. \<not> bit w i"
  let ?l = "length (takeWhile ?P [0..<64])"
  from assms obtain k where k: "bit w k" by (auto simp: bit_eq_iff)
  then have "k < 64" using bit_imp_le_length [of w k] by simp
  have lt: "?l < 64"
  proof (rule ccontr)
    assume "\<not> ?l < 64"
    then have "takeWhile ?P [0..<64] = [0..<64]"
      using length_takeWhile_le [of ?P "[0..<64]"] takeWhile_eq_take [of ?P "[0..<64]"] by simp
    then have "\<forall>i \<in> set [0..<64]. ?P i" by (metis set_takeWhileD)
    with k \<open>k < 64\<close> show False by auto
  qed
  then show "TrailingZeros64 w < 64" by (simp add: TrailingZeros64_def)
  from lt have "\<not> ?P ([0..<64] ! ?l)" using nth_length_takeWhile [of ?P "[0..<64]"] by simp
  with lt show "bit w (TrailingZeros64 w)" by (simp add: TrailingZeros64_def)
  assume "j < TrailingZeros64 w"
  then have j: "j < ?l" by (simp add: TrailingZeros64_def)
  with lt have "takeWhile ?P [0..<64] ! j = j" by (simp add: takeWhile_nth)
  with j show "\<not> bit w j" using set_takeWhileD [of j ?P "[0..<64]"] nth_mem [OF j] by metis
qed

text \<open>\<open>w & (w - 1)\<close> clears the lowest set bit and nothing else.\<close>

lemma bit_clear_lowest:
  fixes w :: u64
  assumes "w \<noteq> 0"
  shows "bit (w AND (w - 1)) j \<longleftrightarrow> bit w j \<and> j \<noteq> TrailingZeros64 w"
proof -
  let ?t = "TrailingZeros64 w"
  note t = TrailingZeros64_bit [OF assms]
  let ?h = "w AND NOT (2 ^ ?t)"
  have "?h AND 2 ^ ?t = 0" by simp
  then have "?h + 2 ^ ?t = ?h OR 2 ^ ?t" by (rule disjunctive_add_eq_or)
  also have "\<dots> = w"
  proof (rule bit_eqI)
    fix j
    show "bit (?h OR 2 ^ ?t) j = bit w j" using t(1,2) by (cases "j = ?t") simp_all
  qed
  finally have w: "w - 1 = ?h + (2 ^ ?t - 1)" by (simp add: algebra_simps)
  have "bit ?h i \<Longrightarrow> i \<ge> ?t" for i using t(3) [of i] by (force simp: bit_simps)
  then have "\<not> bit (?h AND mask ?t) i" for i by (auto simp: bit_and_iff bit_mask_iff linorder_not_less)
  then have "?h AND mask ?t = 0" by (intro bit_eqI) simp
  then have "w - 1 = ?h OR mask ?t"
    unfolding w mask_eq_exp_minus_1 [symmetric] by (rule disjunctive_add_eq_or)
  then show ?thesis using t(3) [of j] bit_imp_le_length [of w j] by (auto simp: bit_simps)
qed

lemma clear_lowest_less:
  fixes w :: u64
  assumes "w \<noteq> 0"
  shows "unat (w AND (w - 1)) < unat w"
proof -
  have "w AND (w - 1) \<noteq> w"
    using bit_clear_lowest [OF assms, of "TrailingZeros64 w"] TrailingZeros64_bit(2) [OF assms] by auto
  then show ?thesis using word_and_le2 [of w "w - 1"] by (simp add: word_less_nat_alt [symmetric])
qed

function ones_word :: "nat \<Rightarrow> nat \<Rightarrow> u64 \<Rightarrow> nat list \<times> bool" where
  "ones_word n wi w =
     (if w = 0 then ([], False)
      else let i = wi * 64 + TrailingZeros64 w in
        if i \<ge> n then ([], True)
        else (case ones_word n wi (w AND (w - 1)) of (r, stop) \<Rightarrow> (i # r, stop)))"
  by pat_completeness auto
termination
  by (relation "measure (\<lambda>(n, wi, w). unat w)") (auto simp: clear_lowest_less)

fun ones_from :: "nat \<Rightarrow> nat \<Rightarrow> u64 list \<Rightarrow> nat list" where
  "ones_from n wi [] = []"
| "ones_from n wi (w # ws) =
     (case ones_word n wi w of (r, stop) \<Rightarrow> if stop then r else r @ ones_from n (Suc wi) ws)"

definition Ones :: "bits \<Rightarrow> nat list" where
  "Ones b = ones_from (nbits b) 0 (words b)"

section \<open>Abstraction and invariant\<close>

text \<open>
  \<open>bit_at b i\<close> is the abstract bit vector; the invariant fixes the number of words and says that
  the padding bits of the last word are clear, which every operation keeps.
\<close>

definition raw_bit :: "bits \<Rightarrow> nat \<Rightarrow> bool" where
  "raw_bit b i \<longleftrightarrow> i div 64 < length (words b) \<and> bit (words b ! (i div 64)) (i mod 64)"

definition bit_at :: "bits \<Rightarrow> nat \<Rightarrow> bool" where
  "bit_at b i \<longleftrightarrow> i < nbits b \<and> raw_bit b i"

definition wf_bits :: "bits \<Rightarrow> bool" where
  "wf_bits b \<longleftrightarrow> length (words b) = (nbits b + 63) div 64 \<and> (\<forall>i. raw_bit b i \<longrightarrow> i < nbits b)"

lemma wf_bits_len: "wf_bits b \<Longrightarrow> length (words b) = (nbits b + 63) div 64"
  by (simp add: wf_bits_def)

lemma wf_bits_raw: "wf_bits b \<Longrightarrow> raw_bit b i \<longleftrightarrow> bit_at b i"
  by (auto simp: wf_bits_def bit_at_def)

lemma word_index:
  fixes n :: nat
  assumes "i < n"
  shows "i div 64 < (n + 63) div 64"
proof -
  have "Suc (i div 64) = (i + 64) div 64" by (simp add: div_add_self2)
  also have "\<dots> \<le> (n + 63) div 64" using assms by (intro div_le_mono) simp
  finally show ?thesis by (rule Suc_le_lessD)
qed

lemma bits_eqI:
  assumes "wf_bits a" "wf_bits b" "nbits a = nbits b" "\<And>i. i < nbits a \<Longrightarrow> bit_at a i = bit_at b i"
  shows "a = b"
proof -
  have len: "length (words a) = length (words b)" using assms by (simp add: wf_bits_def)
  have "words a ! k = words b ! k" if k: "k < length (words a)" for k
  proof (rule bit_eqI)
    fix n assume "possible_bit TYPE(64 word) n"
    then have n: "n < 64" by (simp add: possible_bit_word)
    have "raw_bit a (k * 64 + n) = raw_bit b (k * 64 + n)"
      unfolding wf_bits_raw [OF assms(1)] wf_bits_raw [OF assms(2)]
      using assms(3) assms(4) [of "k * 64 + n"] by (cases "k * 64 + n < nbits a") (simp_all add: bit_at_def)
    then show "bit (words a ! k) n = bit (words b ! k) n" using k len n by (simp add: raw_bit_def)
  qed
  then show ?thesis using assms(3) len by (cases a; cases b) (auto intro: nth_equalityI)
qed

lemma New_wf [simp]: "wf_bits (New n)" "nbits (New n) = n" "\<not> bit_at (New n) i"
  by (auto simp: wf_bits_def New_def raw_bit_def bit_at_def)

lemma set_word_raw:
  assumes "i div 64 < length (words b)"
  shows "\<exists>b'. set_word b (i div 64) f = Some b' \<and> nbits b' = nbits b \<and> length (words b') = length (words b)
    \<and> (\<forall>j. raw_bit b' j \<longleftrightarrow>
          (if j div 64 = i div 64 then bit (f (words b ! (i div 64))) (j mod 64) else raw_bit b j))"
  using assms by (auto simp: set_word_def raw_bit_def nth_list_update)

lemma div_mod_64_eq: "i div 64 = j div 64 \<Longrightarrow> i mod 64 = j mod 64 \<longleftrightarrow> i = (j::nat)"
  by (metis div_mult_mod_eq)

lemma Set_bit_raw:
  assumes "i div 64 < length (words b)"
  shows "\<exists>b'. Set_bit b i v = Some b' \<and> nbits b' = nbits b \<and> length (words b') = length (words b)
    \<and> (\<forall>j. raw_bit b' j \<longleftrightarrow> (if j = i then v else raw_bit b j))"
proof -
  let ?f = "\<lambda>w::u64. if v then w OR push_bit (i mod 64) 1 else w AND NOT (push_bit (i mod 64) 1)"
  have "Set_bit b i v = set_word b (i div 64) ?f" by (simp add: Set_bit_def)
  moreover obtain b' where b': "set_word b (i div 64) ?f = Some b'" "nbits b' = nbits b"
      "length (words b') = length (words b)"
      "\<And>j. raw_bit b' j \<longleftrightarrow>
        (if j div 64 = i div 64 then bit (?f (words b ! (i div 64))) (j mod 64) else raw_bit b j)"
    using set_word_raw [OF assms, of ?f] by blast
  moreover have "raw_bit b' j \<longleftrightarrow> (if j = i then v else raw_bit b j)" for j
  proof (cases "j div 64 = i div 64")
    case True
    have "bit (?f x) (j mod 64) \<longleftrightarrow> (if j mod 64 = i mod 64 then v else bit x (j mod 64))" for x
      by simp
    moreover have "raw_bit b j \<longleftrightarrow> bit (words b ! (i div 64)) (j mod 64)"
      using True assms by (simp add: raw_bit_def)
    ultimately show ?thesis by (simp add: b'(4) True div_mod_64_eq [OF True] del: push_bit_of_1)
  next
    case False
    then show ?thesis by (auto simp: b'(4))
  qed
  ultimately show ?thesis by auto
qed


section \<open>Reading and writing bits\<close>

lemma Set_bit_ok:
  assumes "wf_bits b" "i < nbits b"
  shows "\<exists>b'. Set_bit b i v = Some b' \<and> wf_bits b' \<and> nbits b' = nbits b
    \<and> (\<forall>j. bit_at b' j \<longleftrightarrow> (if j = i then v else bit_at b j))"
proof -
  have "i div 64 < length (words b)" using assms by (simp add: wf_bits_len word_index)
  then obtain b' where b': "Set_bit b i v = Some b'" "nbits b' = nbits b"
      "length (words b') = length (words b)" "\<And>j. raw_bit b' j \<longleftrightarrow> (if j = i then v else raw_bit b j)"
    using Set_bit_raw [of i b v] by blast
  have "wf_bits b'" using assms b' by (auto simp: wf_bits_def split: if_splits)
  with b' assms show ?thesis by (auto simp: bit_at_def split: if_splits)
qed

lemma Get_ok:
  assumes "wf_bits b"
  shows "Get b i = Some (0 \<le> i \<and> bit_at b (nat i))"
proof (cases "i < 0 \<or> i \<ge> int (nbits b)")
  case True
  then show ?thesis by (auto simp: Get_def bit_at_def)
next
  case False
  then have "nat i < nbits b" by linarith
  then have "nat i div 64 < length (words b)" using assms by (simp add: wf_bits_len word_index)
  with False \<open>nat i < nbits b\<close> show ?thesis by (simp add: Get_def bit_at_def raw_bit_def)
qed

lemma Get_nat [simp]: "wf_bits b \<Longrightarrow> Get b (int i) = Some (bit_at b i)"
  by (simp add: Get_ok)

text \<open>The packed on-disk layout: bit \<open>i\<close> is bit \<open>i mod 8\<close> of byte \<open>i div 8\<close>.\<close>

lemma FromPackedLSB_ok:
  assumes "n \<le> 8 * length packed"
  shows "\<exists>b. FromPackedLSB packed n = Some b \<and> wf_bits b \<and> nbits b = n
    \<and> (\<forall>i < n. bit_at b i = bit (packed ! (i div 8)) (i mod 8))"
proof -
  let ?f = "\<lambda>i b. case slice_at packed (i div 8) of None \<Rightarrow> None
     | Some p \<Rightarrow> if p AND push_bit (i mod 8) 1 \<noteq> 0
         then set_word b (i div 64) (\<lambda>w. w OR push_bit (i mod 64) 1) else Some b"
  let ?P = "\<lambda>k b. wf_bits b \<and> nbits b = n \<and>
     (\<forall>i. bit_at b i \<longleftrightarrow> i < k \<and> bit (packed ! (i div 8)) (i mod 8))"
  have "\<exists>t. fold_opt ?f [0..<n] (New n) = Some t \<and> ?P (length [0..<n]) t"
  proof (rule fold_opt_rule [where P = ?P])
    show "?P 0 (New n)" by simp
  next
    fix k b assume k: "k < length [0..<n]" and P: "?P k b"
    then have len: "k div 8 < length packed" using assms by (simp add: less_mult_imp_div_less)
    show "\<exists>b'. ?f ([0..<n] ! k) b = Some b' \<and> ?P (Suc k) b'"
    proof (cases "bit (packed ! (k div 8)) (k mod 8)")
      case True
      obtain b' where "Set_bit b k True = Some b'" "wf_bits b'" "nbits b' = nbits b"
          "\<And>j. bit_at b' j \<longleftrightarrow> (if j = k then True else bit_at b j)"
        using Set_bit_ok [of b k True] k P by auto
      with True k P len show ?thesis by (auto simp: Set_bit_def less_Suc_eq)
    next
      case False
      with k P len show ?thesis by (auto simp: less_Suc_eq)
    qed
  qed
  then show ?thesis by (auto simp: FromPackedLSB_def)
qed

lemma ToPackedLSB_ok:
  assumes "wf_bits b"
  shows "\<exists>out. ToPackedLSB b = Some out \<and> length out = (nbits b + 7) div 8
    \<and> (\<forall>i < 8 * length out. bit (out ! (i div 8)) (i mod 8) \<longleftrightarrow> bit_at b i)"
proof -
  let ?n = "nbits b" and ?m = "(nbits b + 7) div 8"
  let ?f = "\<lambda>i out. case Get b (int i) of None \<Rightarrow> None
       | Some True \<Rightarrow> (case slice_at out (i div 8) of None \<Rightarrow> None
            | Some o8 \<Rightarrow> Some (out[i div 8 := o8 OR push_bit (i mod 8) 1]))
       | Some False \<Rightarrow> Some out"
  let ?P = "\<lambda>k (out :: u8 list). length out = ?m \<and>
     (\<forall>i < 8 * ?m. bit (out ! (i div 8)) (i mod 8) \<longleftrightarrow> i < k \<and> bit_at b i)"
  have "\<exists>t. fold_opt ?f [0..<?n] (replicate ?m 0) = Some t \<and> ?P (length [0..<?n]) t"
  proof (rule fold_opt_rule [where P = ?P])
    show "?P 0 (replicate ?m 0)" by (simp add: less_mult_imp_div_less)
  next
    fix k and out :: "u8 list" assume k: "k < length [0..<?n]" and P: "?P k out"
    have "Suc (k div 8) = (k + 8) div 8" by (simp add: div_add_self2)
    also have "\<dots> \<le> ?m" using k by (intro div_le_mono) simp
    finally have len: "k div 8 < ?m" by (rule Suc_le_lessD)
    show "\<exists>out'. ?f ([0..<?n] ! k) out = Some out' \<and> ?P (Suc k) out'"
    proof (cases "bit_at b k")
      case True
      let ?out = "out[k div 8 := out ! (k div 8) OR push_bit (k mod 8) 1]"
      have "?f ([0..<?n] ! k) out = Some ?out" using True k P len assms by simp
      moreover have "bit (?out ! (i div 8)) (i mod 8) \<longleftrightarrow> i < Suc k \<and> bit_at b i" if i: "i < 8 * ?m" for i
      proof -
        have IH: "bit (out ! (i div 8)) (i mod 8) \<longleftrightarrow> i < k \<and> bit_at b i" using P i by blast
        show ?thesis
        proof (cases "i div 8 = k div 8")
          case div: True
          have "i = k \<longleftrightarrow> i mod 8 = k mod 8" using div by (metis div_mult_mod_eq)
          with div IH True P len show ?thesis by (auto simp: less_Suc_eq)
        next
          case False
          then have "i \<noteq> k" by blast
          with False IH show ?thesis by (simp add: less_Suc_eq)
        qed
      qed
      ultimately show ?thesis using P by simp
    next
      case False
      then show ?thesis using k P assms by (auto simp: less_Suc_eq)
    qed
  qed
  then obtain t where t: "ToPackedLSB b = Some t" "?P ?n t" by (auto simp: ToPackedLSB_def)
  moreover have "bit_at b i \<Longrightarrow> i < ?n" for i by (simp add: bit_at_def)
  ultimately show ?thesis by auto
qed

lemma ceil8: "n \<le> 8 * ((n + 7) div (8::nat))"
  using div_mult_mod_eq [of "n + 7" 8] mod_less_divisor [of 8 "n + 7"] by linarith

section \<open>Counting\<close>

lemma OnesCount64_count: "OnesCount64 w = count_in (bit w) 0 64"
  by (simp add: OnesCount64_def count_in_def)

lemma OnesCount64_masked:
  assumes "\<And>j. j < 64 \<Longrightarrow> bit m j \<longleftrightarrow> a \<le> j \<and> j < c" "a \<le> c" "c \<le> 64"
  shows "OnesCount64 (w AND m) = count_in (bit w) a c"
proof -
  have "OnesCount64 (w AND m) = count_in (\<lambda>j. bit w j \<and> a \<le> j \<and> j < c) 0 64"
    unfolding OnesCount64_count using assms(1) by (intro count_in_cong) (simp add: bit_and_iff)
  also have "\<dots> = count_in (bit w) a c"
    unfolding count_in_card using assms(2,3) by (intro arg_cong [where f = card]) auto
  finally show ?thesis .
qed

lemma count_raw_word:
  assumes "k < length (words b)" "c \<le> 64"
  shows "count_in (raw_bit b) (k * 64 + a) (k * 64 + c) = count_in (bit (words b ! k)) a c"
  unfolding count_in_shift using assms by (intro count_in_cong) (simp add: raw_bit_def)

lemma count_raw_words:
  "m \<le> length (words b) \<Longrightarrow>
   count_in (raw_bit b) 0 (m * 64) = sum_list (map OnesCount64 (take m (words b)))"
proof (induction m)
  case (Suc m)
  then have m: "m < length (words b)" by simp
  have "count_in (raw_bit b) 0 (Suc m * 64) =
      count_in (raw_bit b) 0 (m * 64) + count_in (raw_bit b) (m * 64 + 0) (m * 64 + 64)"
    using count_in_split [of 0 "m * 64" "m * 64 + 64"] by (simp add: add.commute)
  then show ?case
    unfolding count_raw_word [OF m order_refl] using Suc.IH m
    by (simp add: take_Suc_conv_app_nth OnesCount64_count)
qed simp

lemma wf_bits_cap:
  assumes "wf_bits b"
  shows "nbits b \<le> length (words b) * 64"
proof (rule ccontr)
  let ?m = "length (words b)"
  assume "\<not> nbits b \<le> ?m * 64"
  then have "?m * 64 div 64 < ?m" using word_index [of "?m * 64" "nbits b"] assms by (simp add: wf_bits_len)
  then show False by simp
qed

lemma Count_eq:
  assumes "wf_bits b"
  shows "Count b = count_in (bit_at b) 0 (nbits b)"
proof -
  let ?m = "length (words b)"
  have "Count b = count_in (raw_bit b) 0 (?m * 64)"
    by (simp add: Count_def fold_plus_sum_list count_raw_words)
  also have "\<dots> = count_in (raw_bit b) 0 (nbits b) + count_in (raw_bit b) (nbits b) (?m * 64)"
    using wf_bits_cap [OF assms] by (intro count_in_split) auto
  also have "count_in (raw_bit b) (nbits b) (?m * 64) = 0"
    using assms by (auto simp: count_in_def wf_bits_def filter_empty_conv)
  also have "count_in (raw_bit b) 0 (nbits b) = count_in (bit_at b) 0 (nbits b)"
    using assms by (intro count_in_cong) (simp add: wf_bits_raw)
  finally show ?thesis by simp
qed

lemma bit_loMask: "bit (push_bit a (NOT 0) :: u64) j \<longleftrightarrow> a \<le> j \<and> j < 64"
  by (auto simp: bit_simps)

lemma bit_hiMask: "c < 64 \<Longrightarrow> bit (drop_bit (63 - c) (NOT 0) :: u64) j \<longleftrightarrow> j < Suc c"
  by (auto simp: bit_simps)

text \<open>The partial words at both ends of a range and the full words between them.\<close>

lemma count_full_words:
  assumes "lo \<le> hi" "hi \<le> length (words b)" "l \<le> lo * 64"
  shows "fold_opt (\<lambda>w c. map_option (\<lambda>x. c + OnesCount64 x) (slice_at (words b) w)) [lo..<hi]
      (count_in (raw_bit b) l (lo * 64)) = Some (count_in (raw_bit b) l (hi * 64))"
  using assms(1,2)
proof (induction hi rule: dec_induct)
  case (step k)
  then have k: "k < length (words b)" by simp
  have "count_in (raw_bit b) l (Suc k * 64) =
      count_in (raw_bit b) l (k * 64) + count_in (raw_bit b) (k * 64 + 0) (k * 64 + 64)"
    using count_in_split [of l "k * 64" "k * 64 + 64"] assms(3) step.hyps(1)
    by (simp add: add.commute le_trans [of l "lo * 64" "k * 64"])
  then have "count_in (raw_bit b) l (Suc k * 64) = count_in (raw_bit b) l (k * 64) + OnesCount64 (words b ! k)"
    unfolding count_raw_word [OF k order_refl] OnesCount64_count .
  then show ?case using step k by (simp add: go_loop)
qed simp

lemma CountRange_words:
  assumes "l < h" "(h - 1) div 64 < length (words b)" "h \<le> nbits b"
  shows "CountRange b (int l) (int h) = Some (count_in (raw_bit b) l h)"
proof -
  obtain loW a where l: "l = loW * 64 + a" "a < 64" "l div 64 = loW" "l mod 64 = a"
    using that [of "l div 64" "l mod 64"] by simp
  obtain hiW c where h: "h = hiW * 64 + Suc c" "c < 64" "(h - 1) div 64 = hiW" "(h - 1) mod 64 = c"
  proof -
    have "(h - 1) div 64 * 64 + Suc ((h - 1) mod 64) = Suc ((h - 1) div 64 * 64 + (h - 1) mod 64)"
      by (rule add_Suc_right)
    also have "\<dots> = Suc (h - 1)" by (simp only: div_mult_mod_eq)
    also have "\<dots> = h" by (rule Suc_diff_1) (use assms(1) in linarith)
    finally have eq: "h = (h - 1) div 64 * 64 + Suc ((h - 1) mod 64)" ..
    show ?thesis by (rule that [OF eq mod_less_divisor [OF zero_less_numeral] refl refl])
  qed
  have hi_in: "hiW < length (words b)" using assms(2) h by simp
  have c: "Suc c \<le> 64" using h by simp
  let ?lo = "push_bit a (NOT 0) :: u64" and ?hi = "drop_bit (63 - c) (NOT 0) :: u64"
  have hi: "bit ?hi j \<longleftrightarrow> j < Suc c" for j using h(2) by (rule bit_hiMask)
  have guard: "\<not> int h \<le> int l" "min (int h) (int (nbits b)) = int h" "max (int l) 0 = int l"
    using assms(1,3) by simp_all
  note range = CountRange_def Let_def guard nat_int if_False l(3,4) h(3,4)
  show ?thesis
  proof (cases "loW = hiW")
    case eq: True
    have ac: "a \<le> Suc c" using l(1) h(1) assms(1) eq by linarith
    have m: "bit (?lo AND ?hi) j \<longleftrightarrow> a \<le> j \<and> j < Suc c" if "j < 64" for j
      unfolding bit_and_iff bit_loMask hi using that by blast
    have "OnesCount64 (w AND ?lo AND ?hi) = count_in (bit w) a (Suc c)" for w
      unfolding and.assoc by (rule OnesCount64_masked [OF m ac c])
    moreover have "count_in (raw_bit b) l h = count_in (bit (words b ! hiW)) a (Suc c)"
      unfolding l(1) h(1) eq by (rule count_raw_word [OF hi_in c])
    ultimately show ?thesis by (simp only: range eq slice_at_simps(1) [OF hi_in] simp_thms if_True option.map)
  next
    case False
    have "loW \<le> hiW" using l(1,2) h(1,2) assms(1) by linarith
    with False have lt: "loW < hiW" by simp
    then have lo_in: "loW < length (words b)" using hi_in by simp
    have w0: "OnesCount64 (w AND ?lo) = count_in (bit w) a 64" for w
      using l(2) by (intro OnesCount64_masked) (simp_all only: bit_loMask order_refl less_imp_le)
    have w1: "OnesCount64 (w AND ?hi) = count_in (bit w) 0 (Suc c)" for w
      using c by (intro OnesCount64_masked) (simp_all only: hi le0 simp_thms)
    have fold: "fold_opt (\<lambda>w c. map_option (\<lambda>x. c + OnesCount64 x) (slice_at (words b) w))
        [loW + 1..<hiW] (OnesCount64 (words b ! loW AND ?lo)) = Some (count_in (raw_bit b) l (hiW * 64))"
    proof -
      have c0: "OnesCount64 (words b ! loW AND ?lo) = count_in (raw_bit b) l ((loW + 1) * 64)"
        unfolding w0 l(1) using count_raw_word [OF lo_in order_refl, of a] by (simp add: add.commute)
      show ?thesis unfolding c0 using lt hi_in l by (intro count_full_words) auto
    qed
    have "count_in (raw_bit b) l h = count_in (raw_bit b) l (hiW * 64)
        + count_in (raw_bit b) (hiW * 64 + 0) (hiW * 64 + Suc c)"
      using count_in_split [of l "hiW * 64" h] l(1,2) h(1) lt by simp
    then have "count_in (raw_bit b) l h = count_in (raw_bit b) l (hiW * 64) + OnesCount64 (words b ! hiW AND ?hi)"
      unfolding count_raw_word [OF hi_in c] w1 .
    then show ?thesis by (simp only: range False slice_at_simps(1) [OF hi_in] slice_at_simps(1) [OF lo_in] if_False fold Option.bind.simps)
  qed
qed

lemma CountRange_empty: "min hi (int (nbits b)) \<le> max lo 0 \<Longrightarrow> CountRange b lo hi = Some 0"
  by (simp add: CountRange_def Let_def)

lemma CountRange_ok:
  assumes "wf_bits b"
  shows "CountRange b lo hi = Some (count_in (bit_at b) (nat lo) (nat hi))"
proof -
  let ?l = "nat lo" and ?h = "min (nat hi) (nbits b)"
  have clamp: "CountRange b lo hi = CountRange b (int ?l) (int ?h)"
  proof (cases "max lo 0 < min hi (int (nbits b))")
    case True
    then have "max lo 0 = int ?l" "min hi (int (nbits b)) = int ?h" by linarith+
    then show ?thesis unfolding CountRange_def by simp
  next
    case False
    then have "min hi (int (nbits b)) \<le> max lo 0" "min (int ?h) (int (nbits b)) \<le> max (int ?l) 0"
      by linarith+
    then show ?thesis by (simp only: CountRange_empty)
  qed
  have cut: "count_in (bit_at b) ?l (nat hi) = count_in (raw_bit b) ?l ?h"
    unfolding count_in_card using assms by (intro arg_cong [where f = card]) (auto simp: bit_at_def wf_bits_def)
  show ?thesis
  proof (cases "?l < ?h")
    case True
    then have "?h - 1 < nbits b" by linarith
    then have "(?h - 1) div 64 < length (words b)" using assms by (simp add: wf_bits_len word_index)
    then show ?thesis unfolding clamp cut using True by (intro CountRange_words) auto
  next
    case False
    then show ?thesis unfolding clamp cut by (subst CountRange_empty) auto
  qed
qed

section \<open>Iteration\<close>

lemma upt_filter_Cons_least:
  assumes "a \<le> t" "t < b" "P t" "\<And>j. a \<le> j \<Longrightarrow> j < t \<Longrightarrow> \<not> P j"
  shows "filter P [a..<b] = t # filter (\<lambda>j. P j \<and> j \<noteq> t) [a..<b]"
proof -
  have u: "[a..<b] = [a..<t] @ t # [Suc t..<b]" using assms(1,2) upt_add_eq_append [of a t "b - t"]
    by (simp add: upt_conv_Cons)
  have "filter P [a..<t] = []" "filter (\<lambda>j. P j \<and> j \<noteq> t) [a..<t] = []"
    using assms(4) by (auto simp: filter_empty_conv)
  moreover have "filter P [Suc t..<b] = filter (\<lambda>j. P j \<and> j \<noteq> t) [Suc t..<b]"
    by (intro filter_cong) auto
  ultimately show ?thesis unfolding u using assms(3) by simp
qed

text \<open>A word none of whose bits reaches \<open>n\<close> yields its positions in ascending order.\<close>

lemma ones_word_eq:
  "(\<And>j. bit w j \<Longrightarrow> wi * 64 + j < n) \<Longrightarrow>
   ones_word n wi w = (map ((+) (wi * 64)) (filter (bit w) [0..<64]), False)"
proof (induction n wi w rule: ones_word.induct)
  case (1 n wi w)
  show ?case
  proof (cases "w = 0")
    case True
    then show ?thesis by (subst ones_word.simps) simp
  next
    case False
    let ?t = "TrailingZeros64 w" and ?w = "w AND (w - 1)"
    note t = TrailingZeros64_bit [OF False]
    have lt: "\<not> n \<le> wi * 64 + ?t" using "1.prems" [OF t(2)] by simp
    have IH: "ones_word n wi ?w = (map ((+) (wi * 64)) (filter (bit ?w) [0..<64]), False)"
      by (rule "1.IH" [OF False refl lt]) (use "1.prems" in \<open>simp add: bit_clear_lowest [OF False]\<close>)
    have "filter (bit w) [0..<64] = ?t # filter (\<lambda>j. bit w j \<and> j \<noteq> ?t) [0..<64]"
      using t by (intro upt_filter_Cons_least) auto
    moreover have "filter (bit ?w) [0..<64] = filter (\<lambda>j. bit w j \<and> j \<noteq> ?t) [0..<64]"
      by (rule filter_cong [OF refl]) (rule bit_clear_lowest [OF False])
    ultimately show ?thesis using False lt IH by (simp add: ones_word.simps [of n wi w] Let_def del: ones_word.simps)
  qed
qed

lemma ones_from_eq:
  assumes "\<And>k j. k < length ws \<Longrightarrow> bit (ws ! k) j \<Longrightarrow> (wi + k) * 64 + j < n"
  shows "ones_from n wi ws =
    filter (\<lambda>i. bit (ws ! (i div 64 - wi)) (i mod 64)) [wi * 64..<(wi + length ws) * 64]"
  using assms
proof (induction ws arbitrary: wi)
  case (Cons w ws)
  let ?Q = "\<lambda>i. bit ((w # ws) ! (i div 64 - wi)) (i mod 64)"
  have w: "ones_word n wi w = (map ((+) (wi * 64)) (filter (bit w) [0..<64]), False)"
    using Cons.prems [of 0] by (intro ones_word_eq) simp
  have m: "map ((+) (wi * 64)) (filter (bit w) [0..<64]) = filter ?Q [wi * 64..<wi * 64 + 64]"
  proof -
    have "[wi * 64..<wi * 64 + 64] = map ((+) (wi * 64)) [0..<64]"
      using upt_shift [of "wi * 64" 0 64] by simp
    moreover have "filter (?Q \<circ> (+) (wi * 64)) [0..<64] = filter (bit w) [0..<64]"
      by (intro filter_cong) auto
    ultimately show ?thesis by (simp only: filter_map)
  qed
  have rest: "ones_from n (Suc wi) ws = filter ?Q [Suc wi * 64..<(Suc wi + length ws) * 64]"
  proof -
    have "ones_from n (Suc wi) ws =
        filter (\<lambda>i. bit (ws ! (i div 64 - Suc wi)) (i mod 64)) [Suc wi * 64..<(Suc wi + length ws) * 64]"
      using Cons.prems [of "Suc _"] by (intro Cons.IH) fastforce
    also have "\<dots> = filter ?Q [Suc wi * 64..<(Suc wi + length ws) * 64]"
    proof (intro filter_cong refl)
      fix i assume "i \<in> set [Suc wi * 64..<(Suc wi + length ws) * 64]"
      then have "Suc wi \<le> i div 64" by (simp add: less_eq_div_iff_mult_less_eq)
      then have "i div 64 - wi = Suc (i div 64 - Suc wi)" by simp
      then show "bit (ws ! (i div 64 - Suc wi)) (i mod 64) = ?Q i" by simp
    qed
    finally show ?thesis .
  qed
  have "[wi * 64..<(wi + length (w # ws)) * 64] =
      [wi * 64..<wi * 64 + 64] @ [Suc wi * 64..<(Suc wi + length ws) * 64]"
    using upt_add_eq_append [of "wi * 64" "wi * 64 + 64" "length ws * 64"] by (simp add: algebra_simps)
  then show ?case using w m rest by simp
qed simp

lemma Ones_eq:
  assumes "wf_bits b"
  shows "Ones b = filter (bit_at b) [0..<nbits b]"
proof -
  let ?m = "length (words b)"
  have "k * 64 + j < nbits b" if "k < ?m" "bit (words b ! k) j" for k j
  proof -
    have "j < 64" using bit_imp_le_length [OF that(2)] by simp
    then have "raw_bit b (k * 64 + j)" using that by (simp add: raw_bit_def)
    then show ?thesis using assms by (simp add: wf_bits_def)
  qed
  then have "Ones b = filter (\<lambda>i. bit (words b ! (i div 64)) (i mod 64)) [0..<?m * 64]"
    unfolding Ones_def by (subst ones_from_eq) auto
  also have "\<dots> = filter (bit_at b) [0..<?m * 64]"
    using assms by (intro filter_cong refl)
      (auto simp: wf_bits_raw [OF assms, symmetric] raw_bit_def less_mult_imp_div_less mult.commute)
  also have "[0..<?m * 64] = [0..<nbits b] @ [nbits b..<?m * 64]"
    using assms upt_add_eq_append [of 0 "nbits b" "?m * 64 - nbits b"] by (simp add: wf_bits_cap)
  also have "filter (bit_at b) ([0..<nbits b] @ [nbits b..<?m * 64]) = filter (bit_at b) [0..<nbits b]"
    by (auto simp: filter_empty_conv bit_at_def)
  finally show ?thesis .
qed

section \<open>Properties\<close>

text \<open>
  C38: \<open>CountRange\<close>, the popcount behind every rank query, never panics on a well-formed vector and
  returns exactly the number of set bits in \<open>[lo, hi)\<close>, whatever the bounds (negative, reversed or
  past the end).
\<close>

theorem CountRange_correct:
  assumes "wf_bits b"
  shows "CountRange b lo hi = Some (card {i. nat lo \<le> i \<and> i < nat hi \<and> bit_at b i})"
  using CountRange_ok [OF assms, of lo hi] by (simp add: count_in_card)

theorem CountRange_correct_witness:
  "wf_bits (New 70) \<and> CountRange (New 70) 3 100
     = Some (card {i. nat 3 \<le> i \<and> i < nat 100 \<and> bit_at (New 70) i})"
  using CountRange_correct [OF New_wf(1), of 70 3 100] by simp

text \<open>
  The packed on-disk form round-trips: unpacking what \<open>ToPackedLSB\<close> wrote gives the same vector
  back, and neither direction panics.
\<close>

lemma packed_roundtrip:
  assumes "wf_bits b"
  shows "\<exists>packed. ToPackedLSB b = Some packed \<and> length packed = (nbits b + 7) div 8
    \<and> FromPackedLSB packed (nbits b) = Some b"
proof -
  obtain out where out: "ToPackedLSB b = Some out" "length out = (nbits b + 7) div 8"
      "\<And>i. i < 8 * length out \<Longrightarrow> bit (out ! (i div 8)) (i mod 8) \<longleftrightarrow> bit_at b i"
    using ToPackedLSB_ok [OF assms] by blast
  have le: "nbits b \<le> 8 * length out" unfolding out(2) by (rule ceil8)
  obtain c where c: "FromPackedLSB out (nbits b) = Some c" "wf_bits c" "nbits c = nbits b"
      "\<And>i. i < nbits b \<Longrightarrow> bit_at c i = bit (out ! (i div 8)) (i mod 8)"
    using FromPackedLSB_ok [OF le] by blast
  have "c = b" using c assms out(3) le by (intro bits_eqI) auto
  with out c show ?thesis by blast
qed

text \<open>
  \<open>Ones\<close> terminates and yields exactly the set positions, each once, in ascending order, and
  \<open>Count\<close> is their number.
\<close>

lemma Ones_correct:
  assumes "wf_bits b"
  shows "sorted_wrt (<) (Ones b) \<and> set (Ones b) = {i. bit_at b i} \<and> Count b = length (Ones b)"
proof -
  have "sorted_wrt (<) (filter (bit_at b) [0..<nbits b])" by (simp add: sorted_wrt_filter)
  moreover have "set (filter (bit_at b) [0..<nbits b]) = {i. bit_at b i}" by (auto simp: bit_at_def)
  ultimately show ?thesis using assms by (simp add: Ones_eq Count_eq count_in_def)
qed

end
