(* ===== verification/OpenAddressing.thy ===== *)
theory OpenAddressing
  imports GoPrelude
begin

text \<open>
  The linear-probing discipline that all five flat tables of package \<open>flatset\<close> share: a
  power-of-two slot array, a home slot \<open>hash & mask\<close>, and a forward scan \<open>i = (i + 1) & mask\<close> that
  ends at an empty slot or at the key. The interface is a locale over the slot's key reading and
  the hash; the tables of \<open>flatset.go\<close> and \<open>flatset_bytes.go\<close> interpret it.
\<close>

section \<open>The probe loop\<close>

text \<open>
  \<open>for !stop(slots[i]) { i = (i + 1) & mask }\<close>, returning the final \<open>i\<close>. The loop need not end on
  a table with no stopping slot, so it is a partial function: \<^term>\<open>None\<close> stands for never
  returning, and for the index panic of a mask wider than the array.
\<close>

partial_function (option) probe :: "('s \<Rightarrow> bool) \<Rightarrow> 's list \<Rightarrow> u32 \<Rightarrow> u32 \<Rightarrow> u32 option" where
  "probe stop slots msk i =
     (case slice_at slots (unat i) of
        None \<Rightarrow> None
      | Some s \<Rightarrow> if stop s then Some i else probe stop slots msk ((i + 1) AND msk))"

declare probe.simps [code]

text \<open>The rehash loop of the \<open>grow\<close> methods: every filled slot of the old array moves to the first
  empty slot from its home in the new one.\<close>

definition rehash :: "('s \<Rightarrow> bool) \<Rightarrow> ('s \<Rightarrow> u32) \<Rightarrow> u32 \<Rightarrow> 's list \<Rightarrow> 's list \<Rightarrow> 's list option" where
  "rehash vacant hash msk old new =
     fold_opt (\<lambda>s slots. if vacant s then Some slots
        else (case probe vacant slots msk (hash s AND msk) of
                None \<Rightarrow> None
              | Some i \<Rightarrow> slice_set slots (unat i) s)) old new"

text \<open>\<open>uint32(len - 1)\<close>, the mask of a table with \<open>len\<close> slots.\<close>

definition mask_for :: "nat \<Rightarrow> u32" where
  "mask_for n = of_nat (n - 1)"

definition pow2_size :: "nat \<Rightarrow> bool" where
  "pow2_size m \<longleftrightarrow> (\<exists>p \<le> 32. m = 2 ^ p)"

lemma probe_stops:
  assumes "probe stop slots msk i = Some j"
  shows "unat j < length slots \<and> stop (slots ! unat j)"
proof (rule probe.raw_induct [where P = "\<lambda>st sl _ _ j. unat j < length sl \<and> st (sl ! unat j)",
      OF _ assms])
  fix f :: "('a \<Rightarrow> bool) \<Rightarrow> 'a list \<Rightarrow> u32 \<Rightarrow> u32 \<Rightarrow> u32 option"
    and st :: "'a \<Rightarrow> bool" and sl msk i j
  assume "\<And>st sl msk i j. f st sl msk i = Some j \<Longrightarrow> unat j < length sl \<and> st (sl ! unat j)"
    and "(case slice_at sl (unat i) of None \<Rightarrow> None
      | Some s \<Rightarrow> if st s then Some i else f st sl msk ((i + 1) AND msk)) = Some j"
  then show "unat j < length sl \<and> st (sl ! unat j)"
    by (fastforce simp: slice_at_eq_Some split: option.splits if_splits)
qed

text \<open>A table without a stopping slot never ends the scan.\<close>

lemma probe_none: "(\<And>s. s \<in> set slots \<Longrightarrow> \<not> stop s) \<Longrightarrow> probe stop slots msk i = None"
  using probe_stops [of stop slots msk i] by (cases "probe stop slots msk i") auto

lemma probe_cong:
  assumes "\<And>s. s \<in> set slots \<Longrightarrow> st s \<longleftrightarrow> st' s"
  shows "probe st slots msk i = probe st' slots msk i"
proof (rule option_eqI)
  have one: "probe b slots msk i = Some j"
    if eq: "\<And>s. s \<in> set slots \<Longrightarrow> a s \<longleftrightarrow> b s" and ret: "probe a slots msk i = Some j"
    for a b :: "'a \<Rightarrow> bool" and j
  proof -
    have "slots = slots \<longrightarrow> a = a \<longrightarrow> probe b slots msk i = Some j"
    proof (rule probe.raw_induct [where P = "\<lambda>st sl msk i j. sl = slots \<longrightarrow> st = a \<longrightarrow> probe b sl msk i = Some j",
          OF _ ret], intro impI)
      fix f :: "('a \<Rightarrow> bool) \<Rightarrow> 'a list \<Rightarrow> u32 \<Rightarrow> u32 \<Rightarrow> u32 option" and st sl msk i j
      assume IH: "\<And>st sl msk i j. f st sl msk i = Some j \<Longrightarrow> sl = slots \<longrightarrow> st = a \<longrightarrow> probe b sl msk i = Some j"
        and step: "(case slice_at sl (unat i) of None \<Rightarrow> None
          | Some s \<Rightarrow> if st s then Some i else f st sl msk ((i + 1) AND msk)) = Some j"
        and sl: "sl = slots" "st = a"
      from step sl have lt: "unat i < length slots" by (auto simp: slice_at_def split: if_splits)
      with step sl eq [of "slots ! unat i"] IH show "probe b sl msk i = Some j"
        by (subst probe.simps) (auto split: if_splits)
    qed
    then show ?thesis by blast
  qed
  show "probe st slots msk i = Some j \<longleftrightarrow> probe st' slots msk i = Some j" for j
    using one [of st st' j] one [of st' st j] assms by blast
qed

lemma pow2_pos: "pow2_size m \<Longrightarrow> 0 < m"
  by (auto simp: pow2_size_def)

lemma pow2_dvd: "pow2_size m \<Longrightarrow> m dvd 2 ^ 32"
  unfolding pow2_size_def by (elim exE conjE, simp only:, rule le_imp_power_dvd)

lemma unat_and_mask: "pow2_size m \<Longrightarrow> unat (x AND mask_for m) = unat x mod m"
proof -
  assume "pow2_size m"
  then obtain p where p: "p \<le> 32" "m = 2 ^ p" by (auto simp: pow2_size_def)
  have "mask_for m = mask p"
    by (simp add: mask_for_def p(2) mask_eq_exp_minus_1)
  then have "unat (x AND mask_for m) = unat (take_bit p x)" by (simp add: take_bit_eq_mask)
  also have "\<dots> = take_bit p (unat x)" by (rule unsigned_take_bit_eq)
  also have "\<dots> = unat x mod m" by (simp only: take_bit_eq_mod p(2))
  finally show ?thesis .
qed

lemma unat_probe_next:
  assumes "pow2_size m"
  shows "unat ((i + 1) AND mask_for m) = (unat i + 1) mod m"
proof -
  have "unat (i + 1) = (unat i + 1) mod 2 ^ 32" by (simp add: unat_word_ariths)
  then show ?thesis using assms by (simp only: unat_and_mask mod_mod_cancel [OF pow2_dvd])
qed

text \<open>The scan returns the first stopping slot at or after \<open>i\<close>, cyclically.\<close>

lemma probe_first:
  assumes "pow2_size (length slots)"
    and "unat i < length slots" "stop (slots ! ((unat i + d) mod length slots))"
    and "\<And>e. e < d \<Longrightarrow> \<not> stop (slots ! ((unat i + e) mod length slots))"
  shows "\<exists>j. probe stop slots (mask_for (length slots)) i = Some j \<and> unat j = (unat i + d) mod length slots"
  using assms(2-)
proof (induction d arbitrary: i)
  case 0
  then show ?case by (subst probe.simps) simp
next
  case (Suc d)
  let ?m = "length slots" and ?i = "(i + 1) AND mask_for (length slots)"
  have i': "unat ?i = (unat i + 1) mod ?m" using assms(1) by (rule unat_probe_next)
  have shift: "(unat ?i + e) mod ?m = (unat i + Suc e) mod ?m" for e
    unfolding i' by (simp add: mod_add_left_eq)
  have "unat ?i < ?m" unfolding i' using pow2_pos [OF assms(1)] by simp
  then obtain j where "probe stop slots (mask_for ?m) ?i = Some j" "unat j = (unat ?i + d) mod ?m"
    using Suc.IH [of ?i] Suc.prems(2,3) unfolding shift by (metis Suc_mono)
  moreover have "\<not> stop (slots ! unat i)" using Suc.prems(1) Suc.prems(3) [of 0] by simp
  ultimately show ?case using Suc.prems(1) shift by (subst probe.simps) simp
qed

section \<open>Table invariant and abstraction\<close>

text \<open>
  \<open>tbl_map key_of slots\<close> is the abstract content: the slot holding a key, if any. The invariant
  \<open>tbl_ok\<close> says that a key occupies one slot, and that from its home slot to that slot the scan
  meets no empty slot.
\<close>

definition home :: "('k \<Rightarrow> u32) \<Rightarrow> 's list \<Rightarrow> 'k \<Rightarrow> nat" where
  "home hash slots k = unat (hash k) mod length slots"

definition tbl_map :: "('s \<Rightarrow> 'k option) \<Rightarrow> 's list \<Rightarrow> 'k \<Rightarrow> 's option" where
  "tbl_map key_of slots k = find (\<lambda>s. key_of s = Some k) slots"

definition tbl_ok :: "('s \<Rightarrow> 'k option) \<Rightarrow> ('k \<Rightarrow> u32) \<Rightarrow> 's list \<Rightarrow> bool" where
  "tbl_ok key_of hash slots \<longleftrightarrow> pow2_size (length slots)
    \<and> (\<forall>i < length slots. \<forall>j < length slots. \<forall>k. key_of (slots ! i) = Some k \<longrightarrow> key_of (slots ! j) = Some k \<longrightarrow> i = j)
    \<and> (\<forall>j < length slots. \<forall>k. key_of (slots ! j) = Some k \<longrightarrow>
        (\<exists>d < length slots. j = (home hash slots k + d) mod length slots \<and>
          (\<forall>e < d. key_of (slots ! ((home hash slots k + e) mod length slots)) \<noteq> None)))"

definition used_count :: "('s \<Rightarrow> 'k option) \<Rightarrow> 's list \<Rightarrow> nat" where
  "used_count key_of slots = length (filter (\<lambda>s. key_of s \<noteq> None) slots)"

lemma load_step:
  assumes "pow2_size L" "16 \<le> L" "4 * c < 3 * L"
  shows "4 * Suc c \<le> 3 * L"
proof -
  from assms(1) obtain p where p: "L = 2 ^ p" by (auto simp: pow2_size_def)
  have "(2::nat) ^ 4 \<le> 2 ^ p" using assms(2) p by simp
  then have "4 \<le> p" by (rule power_le_imp_le_exp [rotated]) simp
  then have "(2::nat) ^ 2 dvd 2 ^ p" by (intro le_imp_power_dvd) simp
  then obtain q where "L = 4 * q" using p by (auto simp: dvd_def)
  with assms(3) show ?thesis by simp
qed

lemma tbl_map_Nil [simp]: "tbl_map key_of [] = Map.empty"
  by (auto simp: tbl_map_def)

text \<open>
  The state invariant of a built table: the mask and the count agree with the slot array, and the
  load factor is at most three quarters.
\<close>

definition table_inv :: "('s \<Rightarrow> 'k option) \<Rightarrow> ('k \<Rightarrow> u32) \<Rightarrow> 's list \<Rightarrow> u32 \<Rightarrow> nat \<Rightarrow> bool" where
  "table_inv key_of hash slots msk cnt \<longleftrightarrow> tbl_ok key_of hash slots \<and> msk = mask_for (length slots)
    \<and> cnt = used_count key_of slots \<and> 16 \<le> length slots \<and> 4 * cnt \<le> 3 * length slots"

lemma pow2_size_double:
  assumes "pow2_size m" "2 * m \<le> 2 ^ c" "c \<le> 32"
  obtains p where "m = 2 ^ p" "Suc p \<le> c" "pow2_size (m * 2)"
proof -
  from assms(1) obtain p where p: "m = 2 ^ p" by (auto simp: pow2_size_def)
  have "(2::nat) ^ Suc p \<le> 2 ^ c" using assms(2) p by simp
  then have "Suc p \<le> c" by (rule power_le_imp_le_exp [rotated]) simp
  moreover have "m * 2 = 2 ^ Suc p" using p by simp
  ultimately show ?thesis using that [OF p] assms(3) unfolding pow2_size_def by (metis le_trans)
qed

lemma pow2_size_16: "pow2_size 16"
  unfolding pow2_size_def by (intro exI [of _ 4]) simp

locale open_table =
  fixes key_of :: "'s \<Rightarrow> 'k option" and hash :: "'k \<Rightarrow> u32" and blank :: 's
  assumes key_of_blank: "key_of blank = None"
begin

lemma ok_size: "tbl_ok key_of hash slots \<Longrightarrow> pow2_size (length slots)"
  by (simp add: tbl_ok_def)

lemma ok_unique:
  "tbl_ok key_of hash slots \<Longrightarrow> i < length slots \<Longrightarrow> j < length slots \<Longrightarrow>
   key_of (slots ! i) = Some k \<Longrightarrow> key_of (slots ! j) = Some k \<Longrightarrow> i = j"
  by (auto simp: tbl_ok_def)

lemma ok_chain:
  assumes "tbl_ok key_of hash slots" "j < length slots" "key_of (slots ! j) = Some k"
  obtains d where "d < length slots" "j = (home hash slots k + d) mod length slots"
    "\<And>e. e < d \<Longrightarrow> key_of (slots ! ((home hash slots k + e) mod length slots)) \<noteq> None"
  using assms unfolding tbl_ok_def by blast

lemma tbl_map_None: "tbl_map key_of slots k = None \<longleftrightarrow> (\<forall>s \<in> set slots. key_of s \<noteq> Some k)"
  by (auto simp: tbl_map_def find_None_iff)

lemma tbl_map_Some:
  assumes "tbl_ok key_of hash slots"
  shows "tbl_map key_of slots k = Some s \<longleftrightarrow> (\<exists>j < length slots. slots ! j = s \<and> key_of s = Some k)"
proof
  assume "tbl_map key_of slots k = Some s"
  then show "\<exists>j < length slots. slots ! j = s \<and> key_of s = Some k"
    by (auto simp: tbl_map_def find_Some_iff)
next
  assume "\<exists>j < length slots. slots ! j = s \<and> key_of s = Some k"
  then obtain j where j: "j < length slots" "slots ! j = s" "key_of s = Some k" by blast
  then have "\<not> i < j \<or> key_of (slots ! i) \<noteq> Some k" for i
    using ok_unique [OF assms, of i j k] by (metis less_trans nat_neq_iff)
  with j show "tbl_map key_of slots k = Some s" by (auto simp: tbl_map_def find_Some_iff)
qed

lemma mod_inj_below: "d < m \<Longrightarrow> e < d \<Longrightarrow> (h + e) mod m \<noteq> (h + d) mod (m::nat)"
proof
  assume "d < m" "e < d" and "(h + e) mod m = (h + d) mod m"
  then have "m dvd (h + d) - (h + e)" by (intro mod_eq_dvd_iff_nat [THEN iffD1]) auto
  then have "m dvd d - e" by simp
  then have "m \<le> d - e" using \<open>e < d\<close> by (intro dvd_imp_le) auto
  with \<open>d < m\<close> show False by simp
qed

text \<open>A present key is found in its slot.\<close>

lemma probe_hit:
  assumes ok: "tbl_ok key_of hash slots" and j: "j < length slots" "key_of (slots ! j) = Some k"
  shows "\<exists>i. probe (\<lambda>s. key_of s = None \<or> key_of s = Some k) slots (mask_for (length slots))
      (hash k AND mask_for (length slots)) = Some i \<and> unat i = j"
proof -
  let ?m = "length slots" and ?i = "hash k AND mask_for (length slots)"
  have hm: "unat ?i = home hash slots k" by (simp add: home_def unat_and_mask [OF ok_size [OF ok]])
  obtain d where d: "d < ?m" "j = (home hash slots k + d) mod ?m"
      "\<And>e. e < d \<Longrightarrow> key_of (slots ! ((home hash slots k + e) mod ?m)) \<noteq> None"
    using ok_chain [OF ok j] by blast
  have "key_of (slots ! ((home hash slots k + e) mod ?m)) \<noteq> Some k" if "e < d" for e
  proof
    assume e: "key_of (slots ! ((home hash slots k + e) mod ?m)) = Some k"
    have "(home hash slots k + e) mod ?m < ?m" using j by (intro mod_less_divisor) auto
    then have "(home hash slots k + e) mod ?m = j" using ok_unique [OF ok _ j(1) e j(2)] by blast
    then show False using mod_inj_below [OF d(1) that] d(2) by metis
  qed
  then have skip: "\<not> (key_of (slots ! ((unat ?i + e) mod ?m)) = None
      \<or> key_of (slots ! ((unat ?i + e) mod ?m)) = Some k)" if "e < d" for e
    unfolding hm using d(3) that by blast
  have "unat ?i < ?m" unfolding hm home_def using j(1) by (intro mod_less_divisor) auto
  moreover have "key_of (slots ! ((unat ?i + d) mod ?m)) = None \<or> key_of (slots ! ((unat ?i + d) mod ?m)) = Some k"
    unfolding hm d(2) [symmetric] using j(2) by blast
  ultimately show ?thesis unfolding d(2) hm [symmetric]
    using skip by (rule probe_first [OF ok_size [OF ok]])
qed

text \<open>An absent key ends at the first empty slot after its home.\<close>

lemma probe_miss:
  assumes ok: "tbl_ok key_of hash slots" and free: "f < length slots" "key_of (slots ! f) = None"
    and stop: "\<And>s. s \<in> set slots \<Longrightarrow> stop s \<longleftrightarrow> key_of s = None"
  shows "\<exists>i d. probe stop slots (mask_for (length slots)) (hash k AND mask_for (length slots)) = Some i
    \<and> d < length slots \<and> unat i = (home hash slots k + d) mod length slots \<and> key_of (slots ! unat i) = None
    \<and> (\<forall>e < d. key_of (slots ! ((home hash slots k + e) mod length slots)) \<noteq> None)"
proof -
  let ?m = "length slots" and ?i = "hash k AND mask_for (length slots)" and ?h = "home hash slots k"
  let ?E = "\<lambda>d. key_of (slots ! ((?h + d) mod ?m)) = None"
  have hm: "unat ?i = ?h" by (simp add: home_def unat_and_mask [OF ok_size [OF ok]])
  have m: "0 < ?m" using free by auto
  have "?h < ?m" using m by (simp add: home_def)
  then have "?h + (?m - ?h + f) = f + ?m" by simp
  then have E: "?E (?m - ?h + f)" using free by simp
  define d where "d = (LEAST d. ?E d)"
  have d: "?E d" "\<And>e. e < d \<Longrightarrow> \<not> ?E e" unfolding d_def using LeastI [of ?E, OF E] not_less_Least by blast+
  have dm: "d < ?m"
  proof (rule ccontr)
    assume "\<not> d < ?m"
    then have "(?h + (d - ?m)) mod ?m = (?h + d) mod ?m" by (metis add.assoc le_add_diff_inverse2 mod_add_self2 not_less)
    moreover have "d - ?m < d" using m \<open>\<not> d < ?m\<close> by linarith
    ultimately show False using d(1) d(2) [of "d - ?m"] by simp
  qed
  have mem: "slots ! ((?h + e) mod ?m) \<in> set slots" for e using m by simp
  have "\<exists>j. probe stop slots (mask_for ?m) ?i = Some j \<and> unat j = (unat ?i + d) mod ?m"
    using d \<open>?h < ?m\<close> by (intro probe_first [OF ok_size [OF ok]]) (auto simp: hm stop [OF mem])
  then obtain j where j: "probe stop slots (mask_for ?m) ?i = Some j" "unat j = (?h + d) mod ?m"
    unfolding hm by blast
  show ?thesis
  proof (intro exI conjI allI impI)
    show "probe stop slots (mask_for ?m) ?i = Some j" by (rule j(1))
    show "d < ?m" by (rule dm)
    show "unat j = (?h + d) mod ?m" by (rule j(2))
    show "key_of (slots ! unat j) = None" unfolding j(2) by (rule d(1))
  qed (rule d(2))
qed

text \<open>Filling the slot that a missing key's scan ended at.\<close>

lemma insert_ok:
  assumes ok: "tbl_ok key_of hash slots" and new: "tbl_map key_of slots k = None"
    and s: "key_of s = Some k" and i: "d < length slots" "i = (home hash slots k + d) mod length slots"
      "key_of (slots ! i) = None"
      "\<forall>e < d. key_of (slots ! ((home hash slots k + e) mod length slots)) \<noteq> None"
  shows "tbl_ok key_of hash (slots[i := s])" "tbl_map key_of (slots[i := s]) = (tbl_map key_of slots)(k \<mapsto> s)"
proof -
  let ?m = "length slots" and ?n = "slots[i := s]"
  have im: "i < ?m" using i(1,2) by (metis mod_less_divisor gr_implies_not0 not_gr_zero)
  have absent: "key_of (slots ! j) \<noteq> Some k" if "j < ?m" for j using new that by (auto simp: tbl_map_None)
  have home: "home hash ?n = home hash slots" by (auto simp: home_def)
  have upd: "key_of (?n ! j) = (if j = i then Some k else key_of (slots ! j))" if "j < ?m" for j
    using that s im by (simp add: nth_list_update)
  have used: "key_of (?n ! j) \<noteq> None" if "j < ?m" "key_of (slots ! j) \<noteq> None" for j
    using that upd by auto
  show okn: "tbl_ok key_of hash ?n" unfolding tbl_ok_def length_list_update home
  proof (intro conjI allI impI)
    show "pow2_size ?m" by (rule ok_size [OF ok])
  next
    fix a b x assume "a < ?m" "b < ?m" "key_of (?n ! a) = Some x" "key_of (?n ! b) = Some x"
    then show "a = b" using upd absent ok_unique [OF ok] by (metis option.inject)
  next
    fix j x assume j: "j < ?m" "key_of (?n ! j) = Some x"
    have wrap: "y mod ?m < ?m" for y using im by (intro mod_less_divisor) auto
    show "\<exists>d < ?m. j = (home hash slots x + d) mod ?m \<and> (\<forall>e < d. key_of (?n ! ((home hash slots x + e) mod ?m)) \<noteq> None)"
    proof (cases "j = i")
      case True
      then have x: "x = k" using j upd [OF im] by simp
      show ?thesis unfolding x
      proof (intro exI conjI allI impI)
        show "d < ?m" by (rule i(1))
        show "j = (home hash slots k + d) mod ?m" using True i(2) by simp
      qed (use i(4) used wrap in blast)
    next
      case False
      then have "key_of (slots ! j) = Some x" using j upd by simp
      then obtain d where "d < ?m" "j = (home hash slots x + d) mod ?m"
          "\<And>e. e < d \<Longrightarrow> key_of (slots ! ((home hash slots x + e) mod ?m)) \<noteq> None"
        using ok_chain [OF ok j(1)] by blast
      then show ?thesis using wrap used by (intro exI [of _ d]) blast
    qed
  qed
  show "tbl_map key_of ?n = (tbl_map key_of slots)(k \<mapsto> s)"
  proof
    fix x
    have iff: "tbl_map key_of ?n x = Some t \<longleftrightarrow> ((tbl_map key_of slots)(k \<mapsto> s)) x = Some t" for t
    proof (cases "x = k")
      case True
      have "tbl_map key_of ?n k = Some s" unfolding tbl_map_Some [OF okn] using im s by (auto intro!: exI [of _ i])
      with True show ?thesis by auto
    next
      case False
      then have "key_of s \<noteq> Some x" using s by simp
      then have "(\<exists>j < ?m. ?n ! j = t \<and> key_of t = Some x) \<longleftrightarrow> (\<exists>j < ?m. slots ! j = t \<and> key_of t = Some x)"
        using im i(3) by (metis nth_list_update option.distinct(1))
      with False show ?thesis by (simp add: tbl_map_Some [OF ok] tbl_map_Some [OF okn])
    qed
    show "tbl_map key_of ?n x = ((tbl_map key_of slots)(k \<mapsto> s)) x" by (rule option_eqI) (rule iff)
  qed
qed

text \<open>Overwriting the slot of a present key.\<close>

lemma replace_ok:
  assumes ok: "tbl_ok key_of hash slots" and i: "i < length slots" "key_of (slots ! i) = Some k"
    and s: "key_of s = Some k"
  shows "tbl_ok key_of hash (slots[i := s])" "tbl_map key_of (slots[i := s]) = (tbl_map key_of slots)(k \<mapsto> s)"
proof -
  let ?m = "length slots" and ?n = "slots[i := s]"
  have same: "key_of (?n ! j) = key_of (slots ! j)" if "j < ?m" for j
    using that i s by (cases "j = i") simp_all
  have home: "home hash ?n = home hash slots" by (auto simp: home_def)
  have wrap: "y mod ?m < ?m" for y using i(1) by (intro mod_less_divisor) auto
  show okn: "tbl_ok key_of hash ?n"
    using ok unfolding tbl_ok_def length_list_update home by (simp add: same wrap)
  show "tbl_map key_of ?n = (tbl_map key_of slots)(k \<mapsto> s)"
  proof (rule ext, rule option_eqI)
    fix x t
    show "tbl_map key_of ?n x = Some t \<longleftrightarrow> ((tbl_map key_of slots)(k \<mapsto> s)) x = Some t"
    proof (cases "x = k")
      case True
      have "tbl_map key_of ?n k = Some s" unfolding tbl_map_Some [OF okn] using i s by (auto intro!: exI [of _ i])
      with True show ?thesis by auto
    next
      case False
      then have "key_of s \<noteq> Some x" "key_of (slots ! i) \<noteq> Some x" using s i by simp_all
      then have "?n ! j = t \<and> key_of t = Some x \<longleftrightarrow> slots ! j = t \<and> key_of t = Some x" if "j < ?m" for j
        using that by (cases "j = i") auto
      then have "(\<exists>j < ?m. ?n ! j = t \<and> key_of t = Some x) \<longleftrightarrow> (\<exists>j < ?m. slots ! j = t \<and> key_of t = Some x)"
        by blast
      with False show ?thesis by (simp add: tbl_map_Some [OF ok] tbl_map_Some [OF okn])
    qed
  qed
qed

section \<open>Counting, the empty table and rehashing\<close>

lemma used_card: "used_count key_of slots = card {i. i < length slots \<and> key_of (slots ! i) \<noteq> None}"
  by (simp add: used_count_def length_filter_conv_card)

lemma card_dom_tbl_map:
  assumes "tbl_ok key_of hash slots"
  shows "card (dom (tbl_map key_of slots)) = used_count key_of slots" "finite (dom (tbl_map key_of slots))"
proof -
  let ?I = "{i. i < length slots \<and> key_of (slots ! i) \<noteq> None}"
  have inj: "inj_on (\<lambda>i. the (key_of (slots ! i))) ?I"
    by (rule inj_onI) (use ok_unique [OF assms] in auto)
  have "dom (tbl_map key_of slots) = (\<lambda>i. the (key_of (slots ! i))) ` ?I"
    by (auto simp: dom_def tbl_map_Some [OF assms] image_iff) (metis option.sel)
  then show "card (dom (tbl_map key_of slots)) = used_count key_of slots" "finite (dom (tbl_map key_of slots))"
    using card_image [OF inj] by (simp_all add: used_card)
qed

lemma free_slot:
  assumes "used_count key_of slots < length slots"
  obtains f where "f < length slots" "key_of (slots ! f) = None"
proof -
  have "\<not> (\<forall>i < length slots. key_of (slots ! i) \<noteq> None)"
  proof
    assume "\<forall>i < length slots. key_of (slots ! i) \<noteq> None"
    then have "{i. i < length slots \<and> key_of (slots ! i) \<noteq> None} = {..<length slots}" by auto
    with assms show False unfolding used_card by simp
  qed
  with that show ?thesis by blast
qed

lemma used_insert:
  "i < length slots \<Longrightarrow> key_of (slots ! i) = None \<Longrightarrow> key_of s = Some k \<Longrightarrow>
   used_count key_of (slots[i := s]) = Suc (used_count key_of slots)"
  using length_filter_update [of i slots "\<lambda>s. key_of s \<noteq> None" s] by (simp add: used_count_def)

lemma used_replace:
  "i < length slots \<Longrightarrow> key_of (slots ! i) = Some k \<Longrightarrow> key_of s = Some k \<Longrightarrow>
   used_count key_of (slots[i := s]) = used_count key_of slots"
  using length_filter_update [of i slots "\<lambda>s. key_of s \<noteq> None" s] by (simp add: used_count_def)

lemma blank_ok:
  assumes "pow2_size n"
  shows "tbl_ok key_of hash (replicate n blank)" "tbl_map key_of (replicate n blank) = Map.empty"
    "used_count key_of (replicate n blank) = 0"
  using assms key_of_blank by (auto simp: tbl_ok_def tbl_map_def used_count_def find_None_iff)

lemma used_snoc: "used_count key_of (xs @ [s]) = used_count key_of xs + (if key_of s = None then 0 else 1)"
  by (simp add: used_count_def)

lemma tbl_map_snoc:
  "tbl_map key_of xs k = None \<Longrightarrow> key_of s = Some k \<Longrightarrow>
   tbl_map key_of (xs @ [s]) = (tbl_map key_of xs)(k \<mapsto> s)"
  by (rule ext) (auto simp: tbl_map_def find_append split: option.splits)

lemma tbl_map_snoc_empty: "key_of s = None \<Longrightarrow> tbl_map key_of (xs @ [s]) = tbl_map key_of xs"
  by (rule ext) (auto simp: tbl_map_def find_append split: option.splits)

text \<open>
  Rehashing ends, and moves the whole content, when the new array is empty and has room for all.
  The home slot may be computed from the slot itself, as long as it is the hash of its key.
\<close>

lemma rehash_ok:
  assumes old: "tbl_ok key_of hash old"
    and new: "pow2_size n" "used_count key_of old < n"
    and vac: "\<And>s. s \<in> set old \<or> s = blank \<Longrightarrow> vacant s \<longleftrightarrow> key_of s = None"
    and hash: "\<And>s k. s \<in> set old \<Longrightarrow> key_of s = Some k \<Longrightarrow> slot_hash s = hash k"
  shows "\<exists>slots. rehash vacant slot_hash (mask_for n) old (replicate n blank) = Some slots
    \<and> length slots = n \<and> set slots \<subseteq> insert blank (set old) \<and> tbl_ok key_of hash slots
    \<and> tbl_map key_of slots = tbl_map key_of old \<and> used_count key_of slots = used_count key_of old"
proof -
  let ?f = "\<lambda>s slots. if vacant s then Some slots
        else (case probe vacant slots (mask_for n) (slot_hash s AND mask_for n) of
                None \<Rightarrow> None | Some i \<Rightarrow> slice_set slots (unat i) s)"
  let ?P = "\<lambda>k slots. length slots = n \<and> set slots \<subseteq> insert blank (set old) \<and> tbl_ok key_of hash slots
    \<and> tbl_map key_of slots = tbl_map key_of (take k old) \<and> used_count key_of slots = used_count key_of (take k old)"
  have "\<exists>t. fold_opt ?f old (replicate n blank) = Some t \<and> ?P (length old) t"
  proof (rule fold_opt_rule [where P = ?P])
    show "?P 0 (replicate n blank)"
      using blank_ok [OF new(1)] by (auto simp: tbl_map_def used_count_def)
  next
    fix k slots assume k: "k < length old" and P: "?P k slots"
    let ?s = "old ! k"
    have take: "take (Suc k) old = take k old @ [?s]" using k by (rule take_Suc_conv_app_nth)
    have vs: "vacant ?s \<longleftrightarrow> key_of ?s = None" using vac k by simp
    show "\<exists>slots'. ?f ?s slots = Some slots' \<and> ?P (Suc k) slots'"
    proof (cases "key_of ?s")
      case None
      then show ?thesis using P vs unfolding take by (simp add: tbl_map_snoc_empty used_count_def)
    next
      case (Some x)
      have "used_count key_of old = used_count key_of (take (Suc k) old) + used_count key_of (drop (Suc k) old)"
        unfolding used_count_def by (metis append_take_drop_id filter_append length_append)
      then have "used_count key_of slots < n" using P new(2) Some unfolding take by (simp add: used_count_def)
      then obtain f where f: "f < length slots" "key_of (slots ! f) = None" using free_slot P by blast
      have v: "vacant s \<longleftrightarrow> key_of s = None" if "s \<in> set slots" for s using vac P that by blast
      obtain i d where i: "probe vacant slots (mask_for n) (hash x AND mask_for n) = Some i" "d < n"
          "unat i = (home hash slots x + d) mod n" "key_of (slots ! unat i) = None"
          "\<forall>e < d. key_of (slots ! ((home hash slots x + e) mod n)) \<noteq> None"
        using probe_miss [of slots f vacant x, OF _ f v] P by blast
      have un: "unat i < n" using i(1) probe_stops P by blast
      have hs: "slot_hash ?s = hash x" using hash k Some by simp
      have fresh: "tbl_map key_of (take k old) x = None"
        unfolding tbl_map_None
      proof
        fix s assume "s \<in> set (take k old)"
        then obtain j where "j < k" "s = old ! j" by (auto simp: in_set_conv_nth)
        then show "key_of s \<noteq> Some x" using ok_unique [OF old, of j k x] k Some by auto
      qed
      have ins: "tbl_ok key_of hash (slots[unat i := ?s])"
          "tbl_map key_of (slots[unat i := ?s]) = (tbl_map key_of slots)(x \<mapsto> ?s)"
        using insert_ok [of slots x ?s d "unat i"] P fresh Some i by simp_all
      have "?f ?s slots = Some (slots[unat i := ?s])" using Some vs hs i(1) un P by simp
      moreover have "?P (Suc k) (slots[unat i := ?s])"
        unfolding take using ins P un i(4) Some fresh k
        by (auto simp: tbl_map_snoc used_insert used_snoc dest!: set_update_subset_insert [THEN subsetD])
      ultimately show ?thesis by blast
    qed
  qed
  then show ?thesis by (auto simp: rehash_def)
qed

section \<open>The scan as a client sees it\<close>

text \<open>
  With a free slot left, the scan for a key ends: at the key's slot when the key is present, and
  otherwise at an empty slot that may be filled with it.
\<close>

lemma probe_key:
  assumes ok: "tbl_ok key_of hash slots" and room: "used_count key_of slots < length slots"
    and stop: "\<And>s. s \<in> set slots \<Longrightarrow> stop s \<longleftrightarrow> key_of s = None \<or> key_of s = Some k"
  obtains i where "probe stop slots (mask_for (length slots)) (hash k AND mask_for (length slots)) = Some i"
    "unat i < length slots"
    "\<And>s. tbl_map key_of slots k = Some s \<Longrightarrow> slots ! unat i = s \<and> key_of s = Some k"
    "tbl_map key_of slots k = None \<Longrightarrow> key_of (slots ! unat i) = None"
    "\<And>s. tbl_map key_of slots k = None \<Longrightarrow> key_of s = Some k \<Longrightarrow>
       tbl_ok key_of hash (slots[unat i := s]) \<and> tbl_map key_of (slots[unat i := s]) = (tbl_map key_of slots)(k \<mapsto> s)
       \<and> used_count key_of (slots[unat i := s]) = Suc (used_count key_of slots)"
proof (cases "tbl_map key_of slots k")
  case (Some s)
  then obtain j where j: "j < length slots" "slots ! j = s" "key_of s = Some k" by (auto simp: tbl_map_Some [OF ok])
  let ?i = "hash k AND mask_for (length slots)"
  have "probe stop slots (mask_for (length slots)) ?i =
      probe (\<lambda>s. key_of s = None \<or> key_of s = Some k) slots (mask_for (length slots)) ?i"
    by (rule probe_cong) (rule stop)
  with probe_hit [OF ok, of j k] j that Some show ?thesis by auto
next
  case None
  obtain f where f: "f < length slots" "key_of (slots ! f) = None" using free_slot [OF room] by blast
  have "stop s \<longleftrightarrow> key_of s = None" if "s \<in> set slots" for s
    using stop [OF that] None that by (auto simp: tbl_map_None)
  from probe_miss [OF ok f this, of k] obtain i d where i:
      "probe stop slots (mask_for (length slots)) (hash k AND mask_for (length slots)) = Some i"
      "d < length slots" "unat i = (home hash slots k + d) mod length slots" "key_of (slots ! unat i) = None"
      "\<forall>e < d. key_of (slots ! ((home hash slots k + e) mod length slots)) \<noteq> None"
    by blast
  have lt: "unat i < length slots" using probe_stops [OF i(1)] by blast
  show ?thesis
  proof (rule that [OF i(1) lt])
    fix s assume "key_of s = Some k"
    then show "tbl_ok key_of hash (slots[unat i := s]) \<and> tbl_map key_of (slots[unat i := s]) = (tbl_map key_of slots)(k \<mapsto> s)
       \<and> used_count key_of (slots[unat i := s]) = Suc (used_count key_of slots)"
      using insert_ok [OF ok None _ i(2,3,4,5)] used_insert [OF lt i(4)] by blast
  qed (use None i(4) in auto)
qed

text \<open>An overfull rehash never returns: each moved slot uses up an empty one.\<close>

lemma rehash_used:
  assumes "rehash vacant slot_hash msk old new = Some slots"
    and "\<And>s. vacant s \<longleftrightarrow> key_of s = None"
  shows "used_count key_of slots = used_count key_of new + used_count key_of old \<and> length slots = length new"
  using assms(1) unfolding rehash_def
proof (induction old arbitrary: new)
  case Nil
  then show ?case by (simp add: used_count_def)
next
  case (Cons s old)
  show ?case
  proof (cases "key_of s")
    case None
    then show ?thesis using Cons assms(2) by (simp add: used_count_def)
  next
    case (Some k)
    with Cons.prems assms(2) obtain i where i: "probe vacant new msk (slot_hash s AND msk) = Some i"
      by (auto split: option.splits)
    from probe_stops [OF i] assms(2) have lt: "unat i < length new" "key_of (new ! unat i) = None" by auto
    with Cons i Some assms(2) have "used_count key_of slots = used_count key_of (new[unat i := s]) + used_count key_of old
        \<and> length slots = length (new[unat i := s])"
      by (simp add: used_count_def)
    then show ?thesis using used_insert [OF lt Some] Some by (simp add: used_count_def)
  qed
qed

lemma rehash_overfull:
  assumes "\<And>s. vacant s \<longleftrightarrow> key_of s = None" "length new < used_count key_of old"
  shows "rehash vacant slot_hash msk old new = None"
proof (cases "rehash vacant slot_hash msk old new")
  case (Some slots)
  have "used_count key_of slots \<le> length slots" by (simp add: used_count_def)
  with rehash_used [OF Some assms(1)] assms(2) show ?thesis by simp
qed

section \<open>Built tables\<close>

lemma inv_card: "table_inv key_of hash slots msk cnt \<Longrightarrow> cnt = card (dom (tbl_map key_of slots))"
  using card_dom_tbl_map [of slots] by (simp add: table_inv_def)

lemma inv_fresh: "table_inv key_of hash (replicate 16 blank) 15 0"
  using blank_ok [OF pow2_size_16] by (simp add: table_inv_def mask_for_def)

lemma inv_clear:
  "table_inv key_of hash slots msk cnt \<Longrightarrow> table_inv key_of hash (replicate (length slots) blank) msk 0"
  using blank_ok [of "length slots"] ok_size [of slots] by (simp add: table_inv_def)

lemma inv_grow:
  assumes inv: "table_inv key_of hash slots msk cnt" and room: "2 * length slots \<le> 2 ^ 32"
    and vac: "\<And>s. s \<in> set slots \<or> s = blank \<Longrightarrow> vacant s \<longleftrightarrow> key_of s = None"
    and hash: "\<And>s k. s \<in> set slots \<Longrightarrow> key_of s = Some k \<Longrightarrow> slot_hash s = hash k"
  obtains slots' where
    "rehash vacant slot_hash (mask_for (length slots * 2)) slots (replicate (length slots * 2) blank) = Some slots'"
    "table_inv key_of hash slots' (mask_for (length slots * 2)) cnt" "length slots' = length slots * 2"
    "4 * cnt < 3 * length slots'" "tbl_map key_of slots' = tbl_map key_of slots"
    "set slots' \<subseteq> insert blank (set slots)"
proof -
  have ok: "tbl_ok key_of hash slots" using inv by (simp add: table_inv_def)
  obtain p where p: "length slots = 2 ^ p" "Suc p \<le> 32" "pow2_size (length slots * 2)"
    by (rule pow2_size_double [OF ok_size [OF ok] room order_refl])
  have used: "used_count key_of slots < length slots * 2" using inv by (simp add: table_inv_def)
  obtain slots' where "rehash vacant slot_hash (mask_for (length slots * 2)) slots (replicate (length slots * 2) blank) = Some slots'"
      "length slots' = length slots * 2" "set slots' \<subseteq> insert blank (set slots)" "tbl_ok key_of hash slots'"
      "tbl_map key_of slots' = tbl_map key_of slots" "used_count key_of slots' = used_count key_of slots"
    using rehash_ok [OF ok p(3) used, of vacant slot_hash] vac hash by blast
  then show ?thesis using inv that [of slots'] by (simp add: table_inv_def)
qed

lemma inv_probe:
  assumes inv: "table_inv key_of hash slots msk cnt" and room: "4 * cnt < 3 * length slots"
    and stop: "\<And>s. s \<in> set slots \<Longrightarrow> stop s \<longleftrightarrow> key_of s = None \<or> key_of s = Some k"
  obtains i where "probe stop slots msk (hash k AND msk) = Some i" "unat i < length slots"
    "key_of (slots ! unat i) = None \<longleftrightarrow> tbl_map key_of slots k = None"
    "\<And>s. tbl_map key_of slots k = Some s \<Longrightarrow> slots ! unat i = s \<and> key_of s = Some k"
    "\<And>s. tbl_map key_of slots k = None \<Longrightarrow> key_of s = Some k \<Longrightarrow>
       table_inv key_of hash (slots[unat i := s]) msk (Suc cnt)
       \<and> tbl_map key_of (slots[unat i := s]) = (tbl_map key_of slots)(k \<mapsto> s)"
    "\<And>s t. tbl_map key_of slots k = Some t \<Longrightarrow> key_of s = Some k \<Longrightarrow>
       table_inv key_of hash (slots[unat i := s]) msk cnt
       \<and> tbl_map key_of (slots[unat i := s]) = (tbl_map key_of slots)(k \<mapsto> s)"
proof -
  have ok: "tbl_ok key_of hash slots" and msk: "msk = mask_for (length slots)"
    and free: "used_count key_of slots < length slots"
    using inv room by (auto simp: table_inv_def)
  show ?thesis
  proof (rule probe_key [OF ok free, of stop k, OF stop])
    fix i assume i: "probe stop slots (mask_for (length slots)) (hash k AND mask_for (length slots)) = Some i"
        "unat i < length slots"
        "\<And>s. tbl_map key_of slots k = Some s \<Longrightarrow> slots ! unat i = s \<and> key_of s = Some k"
        "tbl_map key_of slots k = None \<Longrightarrow> key_of (slots ! unat i) = None"
        "\<And>s. tbl_map key_of slots k = None \<Longrightarrow> key_of s = Some k \<Longrightarrow>
           tbl_ok key_of hash (slots[unat i := s]) \<and> tbl_map key_of (slots[unat i := s]) = (tbl_map key_of slots)(k \<mapsto> s)
           \<and> used_count key_of (slots[unat i := s]) = Suc (used_count key_of slots)"
    have none: "key_of (slots ! unat i) = None \<longleftrightarrow> tbl_map key_of slots k = None"
      using i(3,4) by (cases "tbl_map key_of slots k") auto
    show ?thesis
    proof (rule that [OF i(1) [folded msk] i(2) none i(3)])
      fix s assume "tbl_map key_of slots k = None" "key_of s = Some k"
      with i(5) [of s] inv room load_step [OF ok_size [OF ok], of cnt]
      show "table_inv key_of hash (slots[unat i := s]) msk (Suc cnt)
        \<and> tbl_map key_of (slots[unat i := s]) = (tbl_map key_of slots)(k \<mapsto> s)"
        by (simp add: table_inv_def)
    next
      fix s t assume t: "tbl_map key_of slots k = Some t" and s: "key_of s = Some k"
      have "key_of (slots ! unat i) = Some k" using i(3) [OF t] by simp
      with replace_ok [OF ok i(2) _ s] used_replace [OF i(2) _ s] inv
      show "table_inv key_of hash (slots[unat i := s]) msk cnt
        \<and> tbl_map key_of (slots[unat i := s]) = (tbl_map key_of slots)(k \<mapsto> s)"
        by (simp add: table_inv_def)
    qed
  qed
qed

end

end
