(* ===== verification/Flatset.thy ===== *)
theory Flatset
  imports OpenAddressing
begin

text \<open>
  The integer-keyed flat tables of \<open>flatset/flatset.go\<close>: \<open>U32Set\<close> with its slot-array recycler and
  the recycler bank, \<open>U64Set\<close>, and \<open>U64Map\<close>. A nil slice is the empty list (no operation makes an
  empty non-nil slot array). Methods are functions from the old to the new state; those that run a
  probe loop return \<^typ>\<open>'a option\<close>, \<^term>\<open>None\<close> meaning that the loop never ends. A recycler is
  shared by pointer between sets, so it is an extra argument and result.
\<close>

section \<open>Recycle\<close>

record recycle =
  byLog :: "u32 list list list"
  held :: int

text \<open>The zero value \<open>&Recycle{}\<close>.\<close>

definition new_recycle :: recycle where
  "new_recycle = \<lparr>byLog = replicate 26 [], held = 0\<rparr>"

fun logOf_loop :: "nat \<Rightarrow> nat \<Rightarrow> nat" where
  "logOf_loop n lg = (if n > 1 then logOf_loop (n div 2) (lg + 1) else lg)"

declare logOf_loop.simps [simp del]

definition logOf :: "nat \<Rightarrow> nat" where
  "logOf n = (let lg = logOf_loop n 0 in if lg \<ge> 26 then 25 else lg)"

definition HeldBytes :: "recycle \<Rightarrow> int" where
  "HeldBytes r = held r"

text \<open>\<open>r == nil\<close> is \<^term>\<open>None\<close>; a nil result is \<open>[]\<close>.\<close>

definition Recycle_take :: "recycle option \<Rightarrow> nat \<Rightarrow> u32 list \<times> recycle option" where
  "Recycle_take ro n =
     (case ro of
        None \<Rightarrow> ([], None)
      | Some r \<Rightarrow>
          let lg = logOf n; free = byLog r ! lg in
          if free = [] then ([], Some r)
          else let a = last free in
            (replicate (length a) 0,
             Some (r\<lparr>byLog := (byLog r)[lg := butlast free], held := held r - 4 * int (length a)\<rparr>)))"

definition Recycle_put :: "recycle option \<Rightarrow> u32 list \<Rightarrow> recycle option" where
  "Recycle_put ro a =
     (case ro of
        None \<Rightarrow> None
      | Some r \<Rightarrow>
          if length a = 0 then Some r
          else let lg = logOf (length a) in
            Some (r\<lparr>byLog := (byLog r)[lg := byLog r ! lg @ [a]], held := held r + 4 * int (length a)\<rparr>))"

section \<open>U32Set\<close>

record u32set =
  slots32 :: "u32 list"
  mask32 :: u32
  count32 :: nat

definition empty_u32set :: u32set where
  "empty_u32set = \<lparr>slots32 = [], mask32 = 0, count32 = 0\<rparr>"

definition u32_hash :: "u32 \<Rightarrow> u32" where
  "u32_hash n = n * 2654435761"

text \<open>The common idiom \<open>if s.slots = s.Rec.take(n); s.slots == nil { s.slots = make(n) }\<close>.\<close>

definition take_or_make :: "recycle option \<Rightarrow> nat \<Rightarrow> u32 list \<times> recycle option" where
  "take_or_make rec n =
     (case Recycle_take rec n of (a, rec') \<Rightarrow> if a = [] then (replicate n 0, rec') else (a, rec'))"

definition U32Set_grow :: "recycle option \<Rightarrow> u32set \<Rightarrow> (recycle option \<times> u32set) option" where
  "U32Set_grow rec s =
     (let old = slots32 s in
      case take_or_make rec (length old * 2) of (a, rec1) \<Rightarrow>
        let msk = mask_for (length a) in
        (case rehash (\<lambda>k. k = 0) (\<lambda>k. u32_hash (k - 1)) msk old a of
           None \<Rightarrow> None
         | Some slots' \<Rightarrow> Some (Recycle_put rec1 old, s\<lparr>slots32 := slots', mask32 := msk\<rparr>)))"

definition U32Set_Add :: "recycle option \<Rightarrow> u32set \<Rightarrow> u32 \<Rightarrow> (bool \<times> recycle option \<times> u32set) option" where
  "U32Set_Add rec0 s0 n =
     (case (if slots32 s0 = []
            then (case take_or_make rec0 16 of (a, rec') \<Rightarrow> (rec', s0\<lparr>slots32 := a, mask32 := 15\<rparr>))
            else (rec0, s0)) of (rec1, s1) \<Rightarrow>
      do {
        (rec, s) \<leftarrow> (if count32 s1 * 4 \<ge> length (slots32 s1) * 3 then U32Set_grow rec1 s1 else Some (rec1, s1));
        i \<leftarrow> probe (\<lambda>x. x = 0 \<or> x = n + 1) (slots32 s) (mask32 s) (u32_hash n AND mask32 s);
        if slots32 s ! unat i \<noteq> 0 then Some (False, rec, s)
        else Some (True, rec, s\<lparr>slots32 := (slots32 s)[unat i := n + 1], count32 := count32 s + 1\<rparr>)
      })"

definition U32Set_Has :: "u32set \<Rightarrow> u32 \<Rightarrow> bool option" where
  "U32Set_Has s n =
     (if slots32 s = [] then Some False
      else map_option (\<lambda>i. slots32 s ! unat i \<noteq> 0)
        (probe (\<lambda>x. x = 0 \<or> x = n + 1) (slots32 s) (mask32 s) (u32_hash n AND mask32 s)))"

definition U32Set_Release :: "recycle option \<Rightarrow> u32set \<Rightarrow> recycle option \<times> u32set" where
  "U32Set_Release rec s =
     (Recycle_put rec (slots32 s), s\<lparr>slots32 := [], mask32 := 0, count32 := 0\<rparr>)"

definition U32Set_Presize :: "recycle option \<Rightarrow> u32set \<Rightarrow> nat \<Rightarrow> recycle option \<times> u32set" where
  "U32Set_Presize rec s n =
     (if slots32 s \<noteq> [] \<or> n \<le> 16 then (rec, s)
      else (case take_or_make rec n of (a, rec') \<Rightarrow> (rec', s\<lparr>slots32 := a, mask32 := mask_for n\<rparr>)))"

definition U32Set_Len :: "u32set \<Rightarrow> nat" where
  "U32Set_Len s = count32 s"

definition U32Set_Reset :: "u32set \<Rightarrow> u32set" where
  "U32Set_Reset s = s\<lparr>slots32 := replicate (length (slots32 s)) 0, count32 := 0\<rparr>"

definition U32Set_Built :: "u32set \<Rightarrow> bool" where
  "U32Set_Built s \<longleftrightarrow> slots32 s \<noteq> []"

section \<open>RecycleBank\<close>

record recycle_bank =
  bank_free :: "recycle list"
  keep :: int
  maxHeld :: int

definition NewRecycleBank :: "int \<Rightarrow> int \<Rightarrow> recycle_bank" where
  "NewRecycleBank k m = \<lparr>bank_free = [], keep = k, maxHeld = m\<rparr>"

definition Checkout :: "recycle_bank \<Rightarrow> recycle \<times> recycle_bank" where
  "Checkout b =
     (if length (bank_free b) > 0 then (last (bank_free b), b\<lparr>bank_free := butlast (bank_free b)\<rparr>)
      else (new_recycle, b))"

definition Checkin :: "recycle_bank \<Rightarrow> recycle option \<Rightarrow> recycle_bank" where
  "Checkin b ro =
     (case ro of
        None \<Rightarrow> b
      | Some r \<Rightarrow>
          if held r > maxHeld b then b
          else if int (length (bank_free b)) < keep b then b\<lparr>bank_free := bank_free b @ [r]\<rparr>
          else b)"

section \<open>U64Set\<close>

definition u64Hash :: "u64 \<Rightarrow> u32" where
  "u64Hash key = ucast (drop_bit 32 (key * 0x9E3779B97F4A7C15))"

record u64set =
  slots64 :: "u64 list"
  mask64 :: u32
  count64 :: nat

definition U64Set_grow :: "u64set \<Rightarrow> u64set option" where
  "U64Set_grow s =
     (let old = slots64 s; msk = mask_for (length old * 2) in
      map_option (\<lambda>slots'. s\<lparr>slots64 := slots', mask64 := msk\<rparr>)
        (rehash (\<lambda>k. k = 0) (\<lambda>k. u64Hash (k - 1)) msk old (replicate (length old * 2) 0)))"

definition U64Set_Add :: "u64set \<Rightarrow> u64 \<Rightarrow> (bool \<times> u64set) option" where
  "U64Set_Add s0 key =
     (let s1 = (if slots64 s0 = [] then s0\<lparr>slots64 := replicate 16 0, mask64 := 15\<rparr> else s0) in
      do {
        s \<leftarrow> (if count64 s1 * 4 \<ge> length (slots64 s1) * 3 then U64Set_grow s1 else Some s1);
        i \<leftarrow> probe (\<lambda>x. x = 0 \<or> x = key + 1) (slots64 s) (mask64 s) (u64Hash key AND mask64 s);
        if slots64 s ! unat i \<noteq> 0 then Some (False, s)
        else Some (True, s\<lparr>slots64 := (slots64 s)[unat i := key + 1], count64 := count64 s + 1\<rparr>)
      })"

definition U64Set_Has :: "u64set \<Rightarrow> u64 \<Rightarrow> bool option" where
  "U64Set_Has s key =
     (if slots64 s = [] then Some False
      else map_option (\<lambda>i. slots64 s ! unat i \<noteq> 0)
        (probe (\<lambda>x. x = 0 \<or> x = key + 1) (slots64 s) (mask64 s) (u64Hash key AND mask64 s)))"

definition U64Set_Len :: "u64set \<Rightarrow> nat" where
  "U64Set_Len s = count64 s"

definition U64Set_Reset :: "u64set \<Rightarrow> u64set" where
  "U64Set_Reset s = s\<lparr>slots64 := replicate (length (slots64 s)) 0, count64 := 0\<rparr>"

section \<open>U64Map\<close>

text \<open>The stored value is an \<open>int32\<close>; \<open>int\<close> values are 64-bit words, truncated on store and
  sign-extended on load. \<open>create\<close> is a callback with its own state.\<close>

record u64Slot =
  skey :: u64
  sval :: u32
  sused :: bool

definition zero_u64Slot :: u64Slot where
  "zero_u64Slot = \<lparr>skey = 0, sval = 0, sused = False\<rparr>"

record u64map =
  slotsM :: "u64Slot list"
  maskM :: u32
  countM :: nat

definition U64Map_grow :: "u64map \<Rightarrow> u64map option" where
  "U64Map_grow m =
     (let old = slotsM m; msk = mask_for (length old * 2) in
      map_option (\<lambda>slots'. m\<lparr>slotsM := slots', maskM := msk\<rparr>)
        (rehash (\<lambda>s. \<not> sused s) (\<lambda>s. u64Hash (skey s)) msk old (replicate (length old * 2) zero_u64Slot)))"

text \<open>The shared entry of \<open>GetOrCreate\<close> and \<open>Inc\<close>: first allocation and growth.\<close>

definition U64Map_prepare :: "u64map \<Rightarrow> u64map option" where
  "U64Map_prepare m0 =
     (let m1 = (if slotsM m0 = [] then m0\<lparr>slotsM := replicate 16 zero_u64Slot, maskM := 15\<rparr> else m0) in
      if countM m1 * 4 \<ge> length (slotsM m1) * 3 then U64Map_grow m1 else Some m1)"

definition U64Map_GetOrCreate ::
  "u64map \<Rightarrow> u64 \<Rightarrow> ('st \<Rightarrow> i64 \<times> 'st) \<Rightarrow> 'st \<Rightarrow> (i64 \<times> u64map \<times> 'st) option" where
  "U64Map_GetOrCreate m0 key create st =
     do {
       m \<leftarrow> U64Map_prepare m0;
       i \<leftarrow> probe (\<lambda>s. \<not> sused s \<or> skey s = key) (slotsM m) (maskM m) (u64Hash key AND maskM m);
       if sused (slotsM m ! unat i) then Some (scast (sval (slotsM m ! unat i)), m, st)
       else (case create st of (v, st') \<Rightarrow>
         Some (v, m\<lparr>slotsM := (slotsM m)[unat i := \<lparr>skey = key, sval = ucast v, sused = True\<rparr>],
                    countM := countM m + 1\<rparr>, st'))
     }"

definition U64Map_Get :: "u64map \<Rightarrow> u64 \<Rightarrow> (i64 \<times> bool) option" where
  "U64Map_Get m key =
     (if slotsM m = [] then Some (0, False)
      else map_option (\<lambda>i. if sused (slotsM m ! unat i) then (scast (sval (slotsM m ! unat i)), True) else (0, False))
        (probe (\<lambda>s. \<not> sused s \<or> skey s = key) (slotsM m) (maskM m) (u64Hash key AND maskM m)))"

text \<open>The pairs \<open>ForEach\<close> visits, in table order.\<close>

definition U64Map_ForEach :: "u64map \<Rightarrow> (u64 \<times> i64) list" where
  "U64Map_ForEach m = map (\<lambda>s. (skey s, scast (sval s))) (filter sused (slotsM m))"

definition U64Map_Len :: "u64map \<Rightarrow> nat" where
  "U64Map_Len m = countM m"

definition U64Map_Reset :: "u64map \<Rightarrow> u64map" where
  "U64Map_Reset m = m\<lparr>slotsM := replicate (length (slotsM m)) zero_u64Slot, countM := 0\<rparr>"

definition U64Map_Inc :: "u64map \<Rightarrow> u64 \<Rightarrow> u64map option" where
  "U64Map_Inc m0 key =
     do {
       m \<leftarrow> U64Map_prepare m0;
       i \<leftarrow> probe (\<lambda>s. \<not> sused s \<or> skey s = key) (slotsM m) (maskM m) (u64Hash key AND maskM m);
       let s = slotsM m ! unat i in
       if sused s then Some (m\<lparr>slotsM := (slotsM m)[unat i := s\<lparr>sval := sval s + 1\<rparr>]\<rparr>)
       else Some (m\<lparr>slotsM := (slotsM m)[unat i := \<lparr>skey = key, sval = 1, sused = True\<rparr>],
                    countM := countM m + 1\<rparr>)
     }"

definition U64Map_At :: "u64map \<Rightarrow> u64 \<Rightarrow> i64 option" where
  "U64Map_At m key = map_option fst (U64Map_Get m key)"

section \<open>Interpretations of the probing interface\<close>

definition u32_key :: "u32 \<Rightarrow> u32 option" where
  "u32_key k = (if k = 0 then None else Some (k - 1))"

definition u64_key :: "u64 \<Rightarrow> u64 option" where
  "u64_key k = (if k = 0 then None else Some (k - 1))"

definition u64Slot_key :: "u64Slot \<Rightarrow> u64 option" where
  "u64Slot_key s = (if sused s then Some (skey s) else None)"

interpretation t32: open_table u32_key u32_hash 0
  by unfold_locales (simp add: u32_key_def)

interpretation t64: open_table u64_key u64Hash 0
  by unfold_locales (simp add: u64_key_def)

interpretation tmap: open_table u64Slot_key u64Hash zero_u64Slot
  by unfold_locales (simp add: u64Slot_key_def zero_u64Slot_def)

lemma u32_key_None: "u32_key k = None \<longleftrightarrow> k = 0"
  by (simp add: u32_key_def)

lemma u32_key_Some: "n + 1 \<noteq> 0 \<Longrightarrow> u32_key k = Some n \<longleftrightarrow> k = n + 1"
  by (auto simp: u32_key_def)

lemma u32_key_hash: "u32_key k = Some n \<Longrightarrow> u32_hash (k - 1) = u32_hash n"
  by (auto simp: u32_key_def split: if_splits)

lemma u64_key_hash: "u64_key k = Some n \<Longrightarrow> u64Hash (k - 1) = u64Hash n"
  by (auto simp: u64_key_def split: if_splits)

lemma u64_key_None: "u64_key k = None \<longleftrightarrow> k = 0"
  by (simp add: u64_key_def)

lemma u64_key_Some: "n + 1 \<noteq> 0 \<Longrightarrow> u64_key k = Some n \<longleftrightarrow> k = n + 1"
  by (auto simp: u64_key_def)

lemma u64Slot_key_None: "u64Slot_key s = None \<longleftrightarrow> \<not> sused s"
  by (simp add: u64Slot_key_def)

lemma u64Slot_key_Some: "u64Slot_key s = Some n \<longleftrightarrow> sused s \<and> skey s = n"
  by (simp add: u64Slot_key_def)

section \<open>The recycler\<close>

lemma logOf_loop_pow2: "logOf_loop (2 ^ p) lg = lg + p"
proof (induction p arbitrary: lg)
  case 0
  then show ?case by (subst logOf_loop.simps) simp
next
  case (Suc p)
  have "1 < (2::nat) ^ Suc p" by (rule one_less_power) simp_all
  with Suc show ?case by (subst logOf_loop.simps) simp
qed

lemma logOf_pow2: "logOf (2 ^ p) = min p 25"
  by (simp add: logOf_def logOf_loop_pow2 Let_def)

text \<open>
  The recycler's invariant: every filed array has its class's size and \<open>held\<close> is their total size
  in bytes. It holds as long as no array of more than \<open>2^25\<close> slots is filed.
\<close>

definition rec_inv :: "recycle \<Rightarrow> bool" where
  "rec_inv r \<longleftrightarrow> length (byLog r) = 26
    \<and> (\<forall>c < 26. \<forall>a \<in> set (byLog r ! c). length a = 2 ^ c)
    \<and> held r = 4 * int (sum_list (map (sum_list \<circ> map length) (byLog r)))"

lemma new_recycle_inv: "rec_inv new_recycle"
  by (simp add: rec_inv_def new_recycle_def)

lemma sum_list_update_nat: "i < length xs \<Longrightarrow> sum_list (map f (xs[i := v])) + f (xs ! i) = sum_list (map f xs) + (f v :: nat)"
  by (induction xs arbitrary: i) (auto split: nat.splits)

lemma Recycle_take_ok:
  assumes "rec_inv r" "p \<le> 25"
  shows "\<exists>a r'. Recycle_take (Some r) (2 ^ p) = (a, Some r') \<and> rec_inv r' \<and> (a = [] \<or> a = replicate (2 ^ p) 0)"
proof (cases "byLog r ! p = []")
  case True
  then show ?thesis using assms by (simp add: Recycle_take_def logOf_pow2 Let_def min_def)
next
  case False
  then obtain fs a where fr: "byLog r ! p = fs @ [a]" by (metis rev_exhaust)
  have p: "p < length (byLog r)" using assms by (simp add: rec_inv_def)
  have len: "length a = 2 ^ p" using assms fr p by (simp add: rec_inv_def)
  let ?r = "r\<lparr>byLog := (byLog r)[p := fs], held := held r - 4 * int (length a)\<rparr>"
  have "sum_list (map (sum_list \<circ> map length) ((byLog r)[p := fs])) + length a
      = sum_list (map (sum_list \<circ> map length) (byLog r))"
    using sum_list_update_nat [OF p, of "sum_list \<circ> map length" fs] fr by simp
  then have "held ?r = 4 * int (sum_list (map (sum_list \<circ> map length) (byLog ?r)))"
    using assms(1) by (simp add: rec_inv_def)
  moreover have "length x = 2 ^ c" if "c < 26" "x \<in> set (byLog ?r ! c)" for c x
    using assms(1) p fr that by (cases "c = p") (auto simp: rec_inv_def)
  ultimately have "rec_inv ?r" using assms(1) by (simp add: rec_inv_def)
  moreover have "Recycle_take (Some r) (2 ^ p) = (replicate (2 ^ p) 0, Some ?r)"
    using assms fr len by (simp add: Recycle_take_def logOf_pow2 Let_def min_def)
  ultimately show ?thesis by blast
qed

lemma Recycle_put_ok:
  assumes "rec_inv r" "p \<le> 25" "length a = 2 ^ p"
  shows "\<exists>r'. Recycle_put (Some r) a = Some r' \<and> rec_inv r'"
proof -
  have p: "p < length (byLog r)" using assms by (simp add: rec_inv_def)
  let ?r = "r\<lparr>byLog := (byLog r)[p := byLog r ! p @ [a]], held := held r + 4 * int (length a)\<rparr>"
  have "sum_list (map (sum_list \<circ> map length) ((byLog r)[p := byLog r ! p @ [a]]))
      = sum_list (map (sum_list \<circ> map length) (byLog r)) + length a"
    using sum_list_update_nat [OF p, of "sum_list \<circ> map length" "byLog r ! p @ [a]"] by simp
  then have "held ?r = 4 * int (sum_list (map (sum_list \<circ> map length) (byLog ?r)))"
    using assms(1) by (simp add: rec_inv_def)
  moreover have "length x = 2 ^ c" if "c < 26" "x \<in> set (byLog ?r ! c)" for c x
    using assms p that by (cases "c = p") (auto simp: rec_inv_def)
  ultimately have "rec_inv ?r" using assms(1) by (simp add: rec_inv_def)
  moreover have "Recycle_put (Some r) a = Some ?r"
    using assms by (simp add: Recycle_put_def logOf_pow2 Let_def min_def)
  ultimately show ?thesis by blast
qed

text \<open>\<open>rec_opt_inv\<close> and \<open>size_cap\<close> cover both the recycled and the plain set: without a recycler a
  table may have any 32-bit-maskable size.\<close>

definition rec_opt_inv :: "recycle option \<Rightarrow> bool" where
  "rec_opt_inv ro \<longleftrightarrow> (case ro of None \<Rightarrow> True | Some r \<Rightarrow> rec_inv r)"

definition size_cap :: "recycle option \<Rightarrow> nat" where
  "size_cap ro = (case ro of None \<Rightarrow> 32 | Some _ \<Rightarrow> 25)"

lemma take_or_make_ok:
  assumes "rec_opt_inv rec" "p \<le> size_cap rec"
  shows "\<exists>rec'. take_or_make rec (2 ^ p) = (replicate (2 ^ p) 0, rec') \<and> rec_opt_inv rec'
    \<and> size_cap rec' = size_cap rec"
proof (cases rec)
  case None
  then show ?thesis by (simp add: take_or_make_def Recycle_take_def rec_opt_inv_def)
next
  case (Some r)
  with assms obtain a r' where "Recycle_take (Some r) (2 ^ p) = (a, Some r')" "rec_inv r'"
      "a = [] \<or> a = replicate (2 ^ p) 0"
    using Recycle_take_ok [of r p] by (auto simp: rec_opt_inv_def size_cap_def)
  then show ?thesis using Some by (auto simp: take_or_make_def rec_opt_inv_def size_cap_def)
qed

lemma Recycle_put_opt:
  assumes "rec_opt_inv rec" "p \<le> size_cap rec" "length a = 2 ^ p"
  shows "rec_opt_inv (Recycle_put rec a) \<and> size_cap (Recycle_put rec a) = size_cap rec"
  using assms Recycle_put_ok [of _ p a]
  by (cases rec) (fastforce simp: rec_opt_inv_def size_cap_def Recycle_put_def [of None])+

section \<open>U32Set: invariant and operations\<close>

definition u32_elems :: "u32set \<Rightarrow> u32 set" where
  "u32_elems s = dom (tbl_map u32_key (slots32 s))"

definition built32 :: "u32set \<Rightarrow> bool" where
  "built32 s \<longleftrightarrow> table_inv u32_key u32_hash (slots32 s) (mask32 s) (count32 s)"

definition u32_inv :: "u32set \<Rightarrow> bool" where
  "u32_inv s \<longleftrightarrow> (slots32 s = [] \<and> count32 s = 0) \<or> built32 s"

text \<open>A set may still double its table while it stays within the size the recycler (or a 32-bit
  mask) can handle.\<close>

definition may_grow :: "recycle option \<Rightarrow> u32set \<Rightarrow> bool" where
  "may_grow rec s \<longleftrightarrow> 2 * length (slots32 s) \<le> 2 ^ size_cap rec"

lemma size_cap_le: "size_cap rec \<le> 32"
  by (simp add: size_cap_def split: option.split)

lemma U32Set_grow_ok:
  assumes inv: "built32 s" and rec: "rec_opt_inv rec" and room: "may_grow rec s"
  shows "\<exists>rec' s'. U32Set_grow rec s = Some (rec', s') \<and> rec_opt_inv rec' \<and> size_cap rec' = size_cap rec
    \<and> built32 s' \<and> 4 * count32 s' < 3 * length (slots32 s') \<and> u32_elems s' = u32_elems s"
proof -
  let ?old = "slots32 s"
  have ti: "table_inv u32_key u32_hash ?old (mask32 s) (count32 s)" using inv by (simp add: built32_def)
  then have sz: "pow2_size (length ?old)" using t32.ok_size [of ?old] by (simp add: table_inv_def)
  obtain p where p: "length ?old = 2 ^ p" "Suc p \<le> size_cap rec"
    using pow2_size_double [OF sz _ size_cap_le] room by (auto simp: may_grow_def)
  have "2 * length ?old \<le> 2 ^ 32" using p size_cap_le [of rec] power_increasing [of "Suc p" 32 "2::nat"] by simp
  with ti obtain slots' where sl: "rehash (\<lambda>k. k = 0) (\<lambda>k. u32_hash (k - 1)) (mask_for (length ?old * 2)) ?old
        (replicate (length ?old * 2) 0) = Some slots'"
      "table_inv u32_key u32_hash slots' (mask_for (length ?old * 2)) (count32 s)"
      "4 * count32 s < 3 * length slots'" "tbl_map u32_key slots' = tbl_map u32_key ?old"
    by (rule t32.inv_grow [of ?old _ _ "\<lambda>k. k = 0" "\<lambda>k. u32_hash (k - 1)"])
      (auto simp: u32_key_None u32_key_hash)
  obtain rec1 where take: "take_or_make rec (length ?old * 2) = (replicate (length ?old * 2) 0, rec1)"
      "rec_opt_inv rec1" "size_cap rec1 = size_cap rec"
    using take_or_make_ok [OF rec p(2)] p(1) by (auto simp: mult.commute)
  have "rec_opt_inv (Recycle_put rec1 ?old) \<and> size_cap (Recycle_put rec1 ?old) = size_cap rec1"
    using Recycle_put_opt [OF take(2) _ p(1)] p(2) take(3) by simp
  then show ?thesis using take sl by (simp add: U32Set_grow_def built32_def u32_elems_def Let_def)
qed

lemma u32_stop: "n + 1 \<noteq> 0 \<Longrightarrow> (x = 0 \<or> x = n + 1) \<longleftrightarrow> u32_key x = None \<or> u32_key x = Some n"
  by (simp add: u32_key_None u32_key_Some)

text \<open>The allocation and growth steps at the head of \<open>Add\<close>.\<close>

definition grown32 :: "recycle option \<Rightarrow> u32set \<Rightarrow> (recycle option \<times> u32set) option" where
  "grown32 rec0 s0 =
     (case (if slots32 s0 = []
            then (case take_or_make rec0 16 of (a, rec') \<Rightarrow> (rec', s0\<lparr>slots32 := a, mask32 := 15\<rparr>))
            else (rec0, s0)) of (rec1, s1) \<Rightarrow>
      if count32 s1 * 4 \<ge> length (slots32 s1) * 3 then U32Set_grow rec1 s1 else Some (rec1, s1))"

lemma U32Set_Add_unfold:
  "U32Set_Add rec0 s0 n =
     do {
        (rec, s) \<leftarrow> grown32 rec0 s0;
        i \<leftarrow> probe (\<lambda>x. x = 0 \<or> x = n + 1) (slots32 s) (mask32 s) (u32_hash n AND mask32 s);
        if slots32 s ! unat i \<noteq> 0 then Some (False, rec, s)
        else Some (True, rec, s\<lparr>slots32 := (slots32 s)[unat i := n + 1], count32 := count32 s + 1\<rparr>)
     }"
  by (simp add: U32Set_Add_def grown32_def split: prod.split)

lemma grown32_ok:
  assumes inv: "u32_inv s" and rec: "rec_opt_inv rec" and room: "may_grow rec s"
  shows "\<exists>rec' s'. grown32 rec s = Some (rec', s') \<and> rec_opt_inv rec' \<and> size_cap rec' = size_cap rec
    \<and> built32 s' \<and> 4 * count32 s' < 3 * length (slots32 s') \<and> u32_elems s' = u32_elems s"
proof (cases "slots32 s = []")
  case True
  then have c: "count32 s = 0" using inv by (auto simp: u32_inv_def built32_def table_inv_def)
  have "(4::nat) \<le> size_cap rec" by (simp add: size_cap_def split: option.split)
  then obtain rec' where "take_or_make rec 16 = (replicate 16 0, rec')" "rec_opt_inv rec'" "size_cap rec' = size_cap rec"
    using take_or_make_ok [OF rec, of 4] by auto
  moreover have "built32 (s\<lparr>slots32 := replicate 16 0, mask32 := 15\<rparr>)"
    using t32.inv_fresh c by (simp add: built32_def)
  moreover have "tbl_map u32_key (replicate 16 0) = tbl_map u32_key []"
    using t32.blank_ok(2) [OF pow2_size_16] by simp
  ultimately show ?thesis using True c by (simp add: grown32_def u32_elems_def)
next
  case False
  then have b: "built32 s" using inv by (auto simp: u32_inv_def)
  with U32Set_grow_ok [OF b rec room] False rec show ?thesis
    by (cases "count32 s * 4 \<ge> length (slots32 s) * 3") (auto simp: grown32_def)
qed

lemma U32Set_Add_ok:
  assumes inv: "u32_inv s" and rec: "rec_opt_inv rec" and room: "may_grow rec s" and n: "n \<noteq> - 1"
  shows "\<exists>rec' s'. U32Set_Add rec s n = Some (n \<notin> u32_elems s, rec', s')
    \<and> u32_inv s' \<and> rec_opt_inv rec' \<and> u32_elems s' = insert n (u32_elems s)"
proof -
  have n1: "n + 1 \<noteq> 0" using n by (simp add: eq_neg_iff_add_eq_0)
  have key: "u32_key (n + 1) = Some n" using n1 by (simp add: u32_key_def)
  obtain rec' s' where g: "grown32 rec s = Some (rec', s')" "rec_opt_inv rec'" "built32 s'"
      "4 * count32 s' < 3 * length (slots32 s')" "u32_elems s' = u32_elems s"
    using grown32_ok [OF inv rec room] by blast
  show ?thesis
  proof (rule t32.inv_probe [OF g(3) [unfolded built32_def] g(4) u32_stop [OF n1]])
    fix i assume i: "probe (\<lambda>x. x = 0 \<or> x = n + 1) (slots32 s') (mask32 s') (u32_hash n AND mask32 s') = Some i"
      "u32_key (slots32 s' ! unat i) = None \<longleftrightarrow> tbl_map u32_key (slots32 s') n = None"
      "\<And>x. tbl_map u32_key (slots32 s') n = None \<Longrightarrow> u32_key x = Some n \<Longrightarrow>
         table_inv u32_key u32_hash ((slots32 s')[unat i := x]) (mask32 s') (Suc (count32 s'))
         \<and> tbl_map u32_key ((slots32 s')[unat i := x]) = (tbl_map u32_key (slots32 s'))(n \<mapsto> x)"
    show ?thesis
    proof (cases "n \<in> u32_elems s'")
      case True
      with g i show ?thesis by (auto simp: U32Set_Add_unfold u32_inv_def u32_key_None u32_elems_def)
    next
      case False
      then have "tbl_map u32_key (slots32 s') n = None" by (auto simp: u32_elems_def)
      with g i(1,2) i(3) [OF _ key] show ?thesis
        by (auto simp: U32Set_Add_unfold u32_inv_def built32_def u32_key_None u32_elems_def)
    qed
  qed
qed

lemma U32Set_Has_ok:
  assumes inv: "u32_inv s" and n: "n \<noteq> - 1"
  shows "U32Set_Has s n = Some (n \<in> u32_elems s)"
proof (cases "slots32 s = []")
  case True
  then show ?thesis by (simp add: U32Set_Has_def u32_elems_def)
next
  case False
  then have b: "table_inv u32_key u32_hash (slots32 s) (mask32 s) (count32 s)"
    using inv by (auto simp: u32_inv_def built32_def)
  have n1: "n + 1 \<noteq> 0" using n by (simp add: eq_neg_iff_add_eq_0)
  have ok: "tbl_ok u32_key u32_hash (slots32 s)" and free: "used_count u32_key (slots32 s) < length (slots32 s)"
    and msk: "mask32 s = mask_for (length (slots32 s))"
    using b by (auto simp: table_inv_def)
  show ?thesis
    by (rule t32.probe_key [OF ok free u32_stop [OF n1]], unfold msk [symmetric])
      (use False in \<open>cases "tbl_map u32_key (slots32 s) n"; auto simp: U32Set_Has_def u32_elems_def u32_key_def split: if_splits\<close>)
qed

lemma U32Set_Len_ok: "u32_inv s \<Longrightarrow> U32Set_Len s = card (u32_elems s) \<and> finite (u32_elems s)"
  using t32.card_dom_tbl_map [of "slots32 s"]
  by (auto simp: u32_inv_def built32_def table_inv_def U32Set_Len_def u32_elems_def)

lemma U32Set_Release_ok:
  assumes "u32_inv s" "rec_opt_inv rec" "length (slots32 s) \<le> 2 ^ size_cap rec"
  shows "case U32Set_Release rec s of (rec', s') \<Rightarrow> rec_opt_inv rec' \<and> u32_inv s' \<and> u32_elems s' = {}"
proof (cases "slots32 s = []")
  case True
  then have "Recycle_put rec (slots32 s) = rec" by (simp add: Recycle_put_def split: option.split)
  with assms show ?thesis by (simp add: U32Set_Release_def u32_inv_def u32_elems_def)
next
  case False
  then have "tbl_ok u32_key u32_hash (slots32 s)" using assms(1) by (auto simp: u32_inv_def built32_def table_inv_def)
  then obtain p where p: "length (slots32 s) = 2 ^ p" using t32.ok_size by (auto simp: pow2_size_def)
  with assms(3) have "p \<le> size_cap rec" by (simp add: power_increasing_iff)
  from Recycle_put_opt [OF assms(2) this p] show ?thesis by (simp add: U32Set_Release_def u32_inv_def u32_elems_def)
qed

lemma U32Set_Presize_ok:
  assumes "u32_inv s" "rec_opt_inv rec" "p \<le> size_cap rec"
  shows "case U32Set_Presize rec s (2 ^ p) of (rec', s') \<Rightarrow> rec_opt_inv rec' \<and> u32_inv s' \<and> u32_elems s' = u32_elems s"
proof (cases "slots32 s \<noteq> [] \<or> 2 ^ p \<le> (16::nat)")
  case True
  then show ?thesis using assms by (simp add: U32Set_Presize_def)
next
  case False
  then have c: "count32 s = 0" using assms(1) by (auto simp: u32_inv_def built32_def table_inv_def)
  obtain rec' where t: "take_or_make rec (2 ^ p) = (replicate (2 ^ p) 0, rec')" "rec_opt_inv rec'"
    using take_or_make_ok [OF assms(2,3)] by blast
  have "pow2_size (2 ^ p)" using assms(3) size_cap_le [of rec] by (auto simp: pow2_size_def)
  from t32.blank_ok [OF this] t False c show ?thesis
    by (auto simp: U32Set_Presize_def u32_inv_def built32_def table_inv_def u32_elems_def)
qed

lemma U32Set_Reset_ok: "u32_inv s \<Longrightarrow> u32_inv (U32Set_Reset s) \<and> u32_elems (U32Set_Reset s) = {}"
  using t32.inv_clear [of "slots32 s" "mask32 s" "count32 s"] t32.blank_ok(2) [of "length (slots32 s)"]
    t32.ok_size [of "slots32 s"]
  by (auto simp: u32_inv_def built32_def U32Set_Reset_def u32_elems_def table_inv_def)

section \<open>U64Set\<close>

definition u64_elems :: "u64set \<Rightarrow> u64 set" where
  "u64_elems s = dom (tbl_map u64_key (slots64 s))"

definition u64_inv :: "u64set \<Rightarrow> bool" where
  "u64_inv s \<longleftrightarrow> (slots64 s = [] \<and> count64 s = 0) \<or> table_inv u64_key u64Hash (slots64 s) (mask64 s) (count64 s)"

lemma u64_stop: "n + 1 \<noteq> 0 \<Longrightarrow> (x = 0 \<or> x = n + 1) \<longleftrightarrow> u64_key x = None \<or> u64_key x = Some n"
  by (simp add: u64_key_None u64_key_Some)

definition grown64 :: "u64set \<Rightarrow> u64set option" where
  "grown64 s0 =
     (let s1 = (if slots64 s0 = [] then s0\<lparr>slots64 := replicate 16 0, mask64 := 15\<rparr> else s0) in
      if count64 s1 * 4 \<ge> length (slots64 s1) * 3 then U64Set_grow s1 else Some s1)"

lemma grown64_ok:
  assumes inv: "u64_inv s" and room: "2 * length (slots64 s) \<le> 2 ^ 32"
  obtains s' where "grown64 s = Some s'" "table_inv u64_key u64Hash (slots64 s') (mask64 s') (count64 s')"
    "4 * count64 s' < 3 * length (slots64 s')" "u64_elems s' = u64_elems s"
proof (cases "slots64 s = []")
  case True
  then have "count64 s = 0" using inv by (auto simp: u64_inv_def table_inv_def)
  with True t64.inv_fresh t64.blank_ok(2) [OF pow2_size_16] that [of "s\<lparr>slots64 := replicate 16 0, mask64 := 15\<rparr>"]
  show ?thesis by (simp add: grown64_def u64_elems_def)
next
  case False
  then have b: "table_inv u64_key u64Hash (slots64 s) (mask64 s) (count64 s)" using inv by (auto simp: u64_inv_def)
  show ?thesis
  proof (cases "count64 s * 4 \<ge> length (slots64 s) * 3")
    case True
    show ?thesis
    proof (rule t64.inv_grow [OF b room, of "\<lambda>k. k = 0" "\<lambda>k. u64Hash (k - 1)", OF u64_key_None [symmetric] u64_key_hash])
      fix sl assume "rehash (\<lambda>k. k = 0) (\<lambda>k. u64Hash (k - 1)) (mask_for (length (slots64 s) * 2)) (slots64 s)
            (replicate (length (slots64 s) * 2) 0) = Some sl"
          "table_inv u64_key u64Hash sl (mask_for (length (slots64 s) * 2)) (count64 s)"
          "4 * count64 s < 3 * length sl" "tbl_map u64_key sl = tbl_map u64_key (slots64 s)"
      with True False that [of "s\<lparr>slots64 := sl, mask64 := mask_for (length (slots64 s) * 2)\<rparr>"]
      show ?thesis by (simp add: grown64_def U64Set_grow_def u64_elems_def Let_def)
    qed
  next
    case False': False
    with False b that [of s] show ?thesis by (simp add: grown64_def)
  qed
qed

lemma U64Set_Add_ok:
  assumes inv: "u64_inv s" and room: "2 * length (slots64 s) \<le> 2 ^ 32" and n: "n \<noteq> - 1"
  shows "\<exists>s'. U64Set_Add s n = Some (n \<notin> u64_elems s, s') \<and> u64_inv s' \<and> u64_elems s' = insert n (u64_elems s)"
proof -
  have n1: "n + 1 \<noteq> 0" using n by (simp add: eq_neg_iff_add_eq_0)
  have key: "u64_key (n + 1) = Some n" using n1 by (simp add: u64_key_def)
  obtain s' where g: "grown64 s = Some s'" "table_inv u64_key u64Hash (slots64 s') (mask64 s') (count64 s')"
    "4 * count64 s' < 3 * length (slots64 s')" "u64_elems s' = u64_elems s"
    using grown64_ok [OF inv room] by blast
  have add: "U64Set_Add s n = do {
        i \<leftarrow> probe (\<lambda>x. x = 0 \<or> x = n + 1) (slots64 s') (mask64 s') (u64Hash n AND mask64 s');
        if slots64 s' ! unat i \<noteq> 0 then Some (False, s')
        else Some (True, s'\<lparr>slots64 := (slots64 s')[unat i := n + 1], count64 := count64 s' + 1\<rparr>) }"
    using g(1) by (simp add: U64Set_Add_def grown64_def Let_def)
  show ?thesis
  proof (rule t64.inv_probe [OF g(2,3) u64_stop [OF n1]])
    fix i assume i: "probe (\<lambda>x. x = 0 \<or> x = n + 1) (slots64 s') (mask64 s') (u64Hash n AND mask64 s') = Some i"
      "u64_key (slots64 s' ! unat i) = None \<longleftrightarrow> tbl_map u64_key (slots64 s') n = None"
      "\<And>x. tbl_map u64_key (slots64 s') n = None \<Longrightarrow> u64_key x = Some n \<Longrightarrow>
         table_inv u64_key u64Hash ((slots64 s')[unat i := x]) (mask64 s') (Suc (count64 s'))
         \<and> tbl_map u64_key ((slots64 s')[unat i := x]) = (tbl_map u64_key (slots64 s'))(n \<mapsto> x)"
    show ?thesis
    proof (cases "n \<in> u64_elems s'")
      case True
      with g i show ?thesis by (auto simp: add u64_inv_def u64_key_None u64_elems_def)
    next
      case False
      then have "tbl_map u64_key (slots64 s') n = None" by (auto simp: u64_elems_def)
      with g i(1,2) i(3) [OF _ key] show ?thesis by (auto simp: add u64_inv_def u64_key_None u64_elems_def)
    qed
  qed
qed

lemma U64Set_Has_ok:
  assumes inv: "u64_inv s" and n: "n \<noteq> - 1"
  shows "U64Set_Has s n = Some (n \<in> u64_elems s)"
proof (cases "slots64 s = []")
  case True
  then show ?thesis by (simp add: U64Set_Has_def u64_elems_def)
next
  case False
  have n1: "n + 1 \<noteq> 0" using n by (simp add: eq_neg_iff_add_eq_0)
  have ok: "tbl_ok u64_key u64Hash (slots64 s)" and free: "used_count u64_key (slots64 s) < length (slots64 s)"
    and msk: "mask64 s = mask_for (length (slots64 s))"
    using inv False by (auto simp: u64_inv_def table_inv_def)
  show ?thesis
    by (rule t64.probe_key [OF ok free u64_stop [OF n1]], unfold msk [symmetric])
      (use False in \<open>cases "tbl_map u64_key (slots64 s) n"; auto simp: U64Set_Has_def u64_elems_def u64_key_def split: if_splits\<close>)
qed

section \<open>U64Map\<close>

text \<open>The abstract content of a map: key to stored \<open>int32\<close>.\<close>

definition umap_abs :: "u64map \<Rightarrow> u64 \<Rightarrow> u32 option" where
  "umap_abs m k = map_option sval (tbl_map u64Slot_key (slotsM m) k)"

definition umap_inv :: "u64map \<Rightarrow> bool" where
  "umap_inv m \<longleftrightarrow> (slotsM m = [] \<and> countM m = 0) \<or> table_inv u64Slot_key u64Hash (slotsM m) (maskM m) (countM m)"

lemma umap_stop: "(\<not> sused s \<or> skey s = k) \<longleftrightarrow> u64Slot_key s = None \<or> u64Slot_key s = Some k"
  by (auto simp: u64Slot_key_def)

lemma U64Map_prepare_ok:
  assumes inv: "umap_inv m" and room: "2 * length (slotsM m) \<le> 2 ^ 32"
  obtains m' where "U64Map_prepare m = Some m'" "table_inv u64Slot_key u64Hash (slotsM m') (maskM m') (countM m')"
    "4 * countM m' < 3 * length (slotsM m')" "umap_abs m' = umap_abs m"
proof (cases "slotsM m = []")
  case True
  then have "countM m = 0" using inv by (auto simp: umap_inv_def table_inv_def)
  with True tmap.inv_fresh tmap.blank_ok(2) [OF pow2_size_16] that [of "m\<lparr>slotsM := replicate 16 zero_u64Slot, maskM := 15\<rparr>"]
  show ?thesis by (simp add: U64Map_prepare_def umap_abs_def fun_eq_iff)
next
  case False
  then have b: "table_inv u64Slot_key u64Hash (slotsM m) (maskM m) (countM m)" using inv by (auto simp: umap_inv_def)
  show ?thesis
  proof (cases "countM m * 4 \<ge> length (slotsM m) * 3")
    case True
    have hash: "u64Slot_key s = Some k \<Longrightarrow> u64Hash (skey s) = u64Hash k" for s k by (simp add: u64Slot_key_Some)
    show ?thesis
    proof (rule tmap.inv_grow [OF b room, of "\<lambda>s. \<not> sused s" "\<lambda>s. u64Hash (skey s)", OF u64Slot_key_None [symmetric] hash])
      fix sl assume "rehash (\<lambda>s. \<not> sused s) (\<lambda>s. u64Hash (skey s)) (mask_for (length (slotsM m) * 2)) (slotsM m)
            (replicate (length (slotsM m) * 2) zero_u64Slot) = Some sl"
          "table_inv u64Slot_key u64Hash sl (mask_for (length (slotsM m) * 2)) (countM m)"
          "4 * countM m < 3 * length sl" "tbl_map u64Slot_key sl = tbl_map u64Slot_key (slotsM m)"
      with True False that [of "m\<lparr>slotsM := sl, maskM := mask_for (length (slotsM m) * 2)\<rparr>"]
      show ?thesis by (simp add: U64Map_prepare_def U64Map_grow_def umap_abs_def fun_eq_iff Let_def)
    qed
  next
    case False': False
    with False b that [of m] show ?thesis by (simp add: U64Map_prepare_def)
  qed
qed

lemma umap_abs_upd:
  "tbl_map u64Slot_key sl = (tbl_map u64Slot_key (slotsM m))(k \<mapsto> s) \<Longrightarrow> slotsM m' = sl \<Longrightarrow>
   umap_abs m' = (umap_abs m)(k \<mapsto> sval s)"
  by (auto simp: umap_abs_def fun_eq_iff)

lemma U64Map_GetOrCreate_ok:
  assumes inv: "umap_inv m" and room: "2 * length (slotsM m) \<le> 2 ^ 32"
  shows "case umap_abs m k of
      Some v \<Rightarrow> \<exists>m'. U64Map_GetOrCreate m k create st = Some (scast v, m', st) \<and> umap_inv m' \<and> umap_abs m' = umap_abs m
    | None \<Rightarrow> \<exists>m'. U64Map_GetOrCreate m k create st = Some (fst (create st), m', snd (create st)) \<and> umap_inv m'
        \<and> umap_abs m' = (umap_abs m)(k \<mapsto> ucast (fst (create st)))"
proof -
  obtain m' where g: "U64Map_prepare m = Some m'" "table_inv u64Slot_key u64Hash (slotsM m') (maskM m') (countM m')"
    "4 * countM m' < 3 * length (slotsM m')" "umap_abs m' = umap_abs m"
    using U64Map_prepare_ok [OF inv room] by blast
  show ?thesis
  proof (rule tmap.inv_probe [OF g(2,3) umap_stop, of k])
    fix i assume i: "probe (\<lambda>s. \<not> sused s \<or> skey s = k) (slotsM m') (maskM m') (u64Hash k AND maskM m') = Some i"
      "u64Slot_key (slotsM m' ! unat i) = None \<longleftrightarrow> tbl_map u64Slot_key (slotsM m') k = None"
      "\<And>s. tbl_map u64Slot_key (slotsM m') k = Some s \<Longrightarrow> slotsM m' ! unat i = s \<and> u64Slot_key s = Some k"
      "\<And>s. tbl_map u64Slot_key (slotsM m') k = None \<Longrightarrow> u64Slot_key s = Some k \<Longrightarrow>
         table_inv u64Slot_key u64Hash ((slotsM m')[unat i := s]) (maskM m') (Suc (countM m'))
         \<and> tbl_map u64Slot_key ((slotsM m')[unat i := s]) = (tbl_map u64Slot_key (slotsM m'))(k \<mapsto> s)"
    show ?thesis
    proof (cases "tbl_map u64Slot_key (slotsM m') k")
      case (Some s)
      then have a: "umap_abs m k = Some (sval s)" unfolding g(4) [symmetric] by (simp add: umap_abs_def)
      from i(3) [OF Some] have "sused (slotsM m' ! unat i)" "slotsM m' ! unat i = s" by (auto simp: u64Slot_key_Some)
      with a g i(1) show ?thesis by (simp add: U64Map_GetOrCreate_def umap_inv_def)
    next
      case None
      then have a: "umap_abs m k = None" unfolding g(4) [symmetric] by (simp add: umap_abs_def)
      let ?s = "\<lparr>skey = k, sval = ucast (fst (create st)), sused = True\<rparr>"
      have upd: "table_inv u64Slot_key u64Hash ((slotsM m')[unat i := ?s]) (maskM m') (Suc (countM m'))"
        "tbl_map u64Slot_key ((slotsM m')[unat i := ?s]) = (tbl_map u64Slot_key (slotsM m'))(k \<mapsto> ?s)"
        using i(4) [OF None, of ?s] by (auto simp: u64Slot_key_Some)
      have "\<not> sused (slotsM m' ! unat i)" using i(2) None by (simp add: u64Slot_key_None)
      with a g i(1) upd(1) umap_abs_upd [OF upd(2)] show ?thesis
        by (auto simp: U64Map_GetOrCreate_def umap_inv_def split_beta)
    qed
  qed
qed

lemma U64Map_Get_ok:
  assumes inv: "umap_inv m"
  shows "U64Map_Get m k = Some (case umap_abs m k of None \<Rightarrow> (0, False) | Some v \<Rightarrow> (scast v, True))"
proof (cases "slotsM m = []")
  case True
  then show ?thesis by (simp add: U64Map_Get_def umap_abs_def)
next
  case False
  have ok: "tbl_ok u64Slot_key u64Hash (slotsM m)" and free: "used_count u64Slot_key (slotsM m) < length (slotsM m)"
    and msk: "maskM m = mask_for (length (slotsM m))"
    using inv False by (auto simp: umap_inv_def table_inv_def)
  show ?thesis
    by (rule tmap.probe_key [OF ok free umap_stop, of k], unfold msk [symmetric])
      (use False in \<open>cases "tbl_map u64Slot_key (slotsM m) k";
        auto simp: U64Map_Get_def umap_abs_def u64Slot_key_def split: if_splits\<close>)
qed

lemma U64Map_Inc_ok:
  assumes inv: "umap_inv m" and room: "2 * length (slotsM m) \<le> 2 ^ 32"
  shows "\<exists>m'. U64Map_Inc m k = Some m' \<and> umap_inv m'
    \<and> umap_abs m' = (umap_abs m)(k \<mapsto> (case umap_abs m k of None \<Rightarrow> 1 | Some v \<Rightarrow> v + 1))"
proof -
  obtain m' where g: "U64Map_prepare m = Some m'" "table_inv u64Slot_key u64Hash (slotsM m') (maskM m') (countM m')"
    "4 * countM m' < 3 * length (slotsM m')" "umap_abs m' = umap_abs m"
    using U64Map_prepare_ok [OF inv room] by blast
  show ?thesis
  proof (rule tmap.inv_probe [OF g(2,3) umap_stop, of k])
    fix i assume i: "probe (\<lambda>s. \<not> sused s \<or> skey s = k) (slotsM m') (maskM m') (u64Hash k AND maskM m') = Some i"
      "u64Slot_key (slotsM m' ! unat i) = None \<longleftrightarrow> tbl_map u64Slot_key (slotsM m') k = None"
      "\<And>s. tbl_map u64Slot_key (slotsM m') k = Some s \<Longrightarrow> slotsM m' ! unat i = s \<and> u64Slot_key s = Some k"
      "\<And>s. tbl_map u64Slot_key (slotsM m') k = None \<Longrightarrow> u64Slot_key s = Some k \<Longrightarrow>
         table_inv u64Slot_key u64Hash ((slotsM m')[unat i := s]) (maskM m') (Suc (countM m'))
         \<and> tbl_map u64Slot_key ((slotsM m')[unat i := s]) = (tbl_map u64Slot_key (slotsM m'))(k \<mapsto> s)"
      "\<And>s t. tbl_map u64Slot_key (slotsM m') k = Some t \<Longrightarrow> u64Slot_key s = Some k \<Longrightarrow>
         table_inv u64Slot_key u64Hash ((slotsM m')[unat i := s]) (maskM m') (countM m')
         \<and> tbl_map u64Slot_key ((slotsM m')[unat i := s]) = (tbl_map u64Slot_key (slotsM m'))(k \<mapsto> s)"
    show ?thesis
    proof (cases "tbl_map u64Slot_key (slotsM m') k")
      case (Some s)
      then have a: "umap_abs m k = Some (sval s)" unfolding g(4) [symmetric] by (simp add: umap_abs_def)
      let ?s = "s\<lparr>sval := sval s + 1\<rparr>"
      from i(3) [OF Some] have s: "sused s" "slotsM m' ! unat i = s" "skey s = k" by (auto simp: u64Slot_key_Some)
      have upd: "table_inv u64Slot_key u64Hash ((slotsM m')[unat i := ?s]) (maskM m') (countM m')"
        "tbl_map u64Slot_key ((slotsM m')[unat i := ?s]) = (tbl_map u64Slot_key (slotsM m'))(k \<mapsto> ?s)"
        using i(5) [OF Some, of ?s] s by (auto simp: u64Slot_key_Some)
      with a g s i(1) upd(1) umap_abs_upd [OF upd(2)] show ?thesis
        by (auto simp: U64Map_Inc_def umap_inv_def Let_def)
    next
      case None
      then have a: "umap_abs m k = None" unfolding g(4) [symmetric] by (simp add: umap_abs_def)
      let ?s = "\<lparr>skey = k, sval = 1, sused = True\<rparr>"
      have upd: "table_inv u64Slot_key u64Hash ((slotsM m')[unat i := ?s]) (maskM m') (Suc (countM m'))"
        "tbl_map u64Slot_key ((slotsM m')[unat i := ?s]) = (tbl_map u64Slot_key (slotsM m'))(k \<mapsto> ?s)"
        using i(4) [OF None, of ?s] by (auto simp: u64Slot_key_Some)
      have "\<not> sused (slotsM m' ! unat i)" using i(2) None by (simp add: u64Slot_key_None)
      with a g i(1) upd(1) umap_abs_upd [OF upd(2)] show ?thesis
        by (auto simp: U64Map_Inc_def umap_inv_def Let_def)
    qed
  qed
qed

section \<open>RecycleBank\<close>

definition bank_inv :: "recycle_bank \<Rightarrow> bool" where
  "bank_inv b \<longleftrightarrow> int (length (bank_free b)) \<le> max 0 (keep b) \<and> (\<forall>r \<in> set (bank_free b). held r \<le> maxHeld b)"

lemma NewRecycleBank_inv: "bank_inv (NewRecycleBank k m)"
  by (simp add: bank_inv_def NewRecycleBank_def)

lemma Checkin_inv: "bank_inv b \<Longrightarrow> bank_inv (Checkin b ro)"
  by (auto simp: bank_inv_def Checkin_def split: option.splits)

lemma Checkout_inv: "bank_inv b \<Longrightarrow> bank_inv (snd (Checkout b))"
  by (auto simp: bank_inv_def Checkout_def dest: in_set_butlastD)

section \<open>Properties\<close>

text \<open>
  C39: \<open>U32Set\<close> implements a set of ids. While the table is small enough to double, \<open>Add\<close> ends, says
  whether the id is new, adds exactly that id, keeps the set's and the recycler's invariants; \<open>Has\<close>
  then reports membership and \<open>Len\<close> the number of distinct ids. The excluded id is the all-ones id
  that slots cannot represent.
\<close>

theorem U32Set_Add_correct:
  assumes "u32_inv s" "rec_opt_inv rec" "may_grow rec s" "n \<noteq> - 1"
  shows "\<exists>rec' s'. U32Set_Add rec s n = Some (n \<notin> u32_elems s, rec', s')
    \<and> u32_inv s' \<and> rec_opt_inv rec' \<and> u32_elems s' = insert n (u32_elems s)
    \<and> U32Set_Len s' = card (insert n (u32_elems s))
    \<and> (\<forall>k. k \<noteq> - 1 \<longrightarrow> U32Set_Has s' k = Some (k = n \<or> k \<in> u32_elems s))"
proof -
  obtain rec' s' where a: "U32Set_Add rec s n = Some (n \<notin> u32_elems s, rec', s')"
    "u32_inv s'" "rec_opt_inv rec'" "u32_elems s' = insert n (u32_elems s)"
    using U32Set_Add_ok [OF assms] by blast
  with U32Set_Len_ok [OF a(2)] U32Set_Has_ok [OF a(2)] show ?thesis by auto
qed

lemma empty_u32set_inv: "u32_inv empty_u32set" "rec_opt_inv (Some new_recycle)" "may_grow (Some new_recycle) empty_u32set"
  by (simp_all add: u32_inv_def empty_u32set_def rec_opt_inv_def new_recycle_inv may_grow_def)

theorem U32Set_Add_correct_witness:
  "\<exists>rec' s'. U32Set_Add (Some new_recycle) empty_u32set 7 = Some (7 \<notin> u32_elems empty_u32set, rec', s')
    \<and> u32_inv s' \<and> rec_opt_inv rec' \<and> u32_elems s' = insert 7 (u32_elems empty_u32set)
    \<and> U32Set_Len s' = card (insert 7 (u32_elems empty_u32set))
    \<and> (\<forall>k. k \<noteq> - 1 \<longrightarrow> U32Set_Has s' k = Some (k = 7 \<or> k \<in> u32_elems empty_u32set))"
  using U32Set_Add_correct [OF empty_u32set_inv, of 7] by simp

text \<open>
  C40: the size-class clamp of \<open>logOf\<close> breaks the recycler's contract for large sets. A set of
  \<open>2^26\<close> slots at its growth threshold, whose recycler's top class holds the \<open>2^25\<close>-slot array that
  its own previous doubling filed there, draws that short array for the doubled table; its ids do
  not fit, and \<open>Add\<close> never returns.
\<close>

theorem U32Set_Add_recycler_hang:
  assumes "length (slots32 s) = 2 ^ 26" "count32 s = 3 * 2 ^ 24" "used_count u32_key (slots32 s) = count32 s"
    and "length (byLog r) = 26" "byLog r ! 25 = fs @ [a]" "length a = 2 ^ 25"
  shows "U32Set_Add (Some r) s n = None"
proof -
  let ?old = "slots32 s"
  have lg: "logOf (length ?old * 2) = 25"
    using logOf_pow2 [of 27] assms(1) by (simp add: power_add [of _ 26 1, simplified, symmetric])
  have "a \<noteq> []" using assms(6) by auto
  then have "\<exists>rec'. take_or_make (Some r) (length ?old * 2) = (replicate (length a) 0, rec')"
    using assms(5) by (simp add: take_or_make_def Recycle_take_def lg Let_def)
  then obtain rec' where "take_or_make (Some r) (length ?old * 2) = (replicate (length a) 0, rec')" ..
  moreover have "length (replicate (length a) (0::u32)) < used_count u32_key ?old" using assms by simp
  then have "rehash (\<lambda>k. k = 0) (\<lambda>k. u32_hash (k - 1)) msk ?old (replicate (length a) 0) = None" for msk
    by (rule t32.rehash_overfull [OF u32_key_None [symmetric]])
  ultimately have "U32Set_grow (Some r) s = None" by (simp add: U32Set_grow_def Let_def)
  moreover have "?old \<noteq> []" using assms(1) by auto
  ultimately show ?thesis using assms(1,2) by (simp add: U32Set_Add_unfold grown32_def)
qed

text \<open>The array the previous doubling left behind is filed in the class the next one draws from.\<close>

lemma Recycle_put_clamps:
  assumes "length (byLog r) = 26" "length a = 2 ^ 25"
  shows "\<exists>r'. Recycle_put (Some r) a = Some r' \<and> byLog r' ! 25 = byLog r ! 25 @ [a] \<and> logOf (2 ^ 27) = 25"
  using assms by (auto simp: Recycle_put_def logOf_pow2 [of 25] logOf_pow2 [of 27] Let_def
      simp del: power_numeral)

theorem U32Set_Add_recycler_hang_witness:
  "U32Set_Add (Some (new_recycle\<lparr>byLog := (replicate 26 [])[25 := [] @ [replicate (2 ^ 25) 0]]\<rparr>))
     \<lparr>slots32 = replicate (3 * 2 ^ 24) 1 @ replicate (2 ^ 24) 0, mask32 = mask_for (2 ^ 26), count32 = 3 * 2 ^ 24\<rparr> 5
   = None"
  by (rule U32Set_Add_recycler_hang [where fs = "[]" and a = "replicate (2 ^ 25) 0"])
    (simp_all add: used_count_def u32_key_def)

text \<open>
  \<open>U64Map\<close> implements a finite map to \<open>int32\<close>: \<open>Inc\<close> adds one to the key's counter (with the
  \<open>int32\<close> wrap-around), minting it at one, and changes no other key, and \<open>Get\<close> and \<open>At\<close> read the
  counters back, absent keys as zero.
\<close>

lemma U64Map_Inc_correct:
  assumes "umap_inv m" "2 * length (slotsM m) \<le> 2 ^ 32"
  shows "\<exists>m'. U64Map_Inc m k = Some m' \<and> umap_inv m'
    \<and> (\<forall>j. umap_abs m' j = (if j = k then Some (case umap_abs m k of None \<Rightarrow> 1 | Some v \<Rightarrow> v + 1) else umap_abs m j))
    \<and> (\<forall>j. U64Map_At m' j = Some (case umap_abs m' j of None \<Rightarrow> 0 | Some v \<Rightarrow> scast v))"
proof -
  obtain m' where m': "U64Map_Inc m k = Some m'" "umap_inv m'"
    "umap_abs m' = (umap_abs m)(k \<mapsto> (case umap_abs m k of None \<Rightarrow> 1 | Some v \<Rightarrow> v + 1))"
    using U64Map_Inc_ok [OF assms] by blast
  have "U64Map_At m' j = Some (case umap_abs m' j of None \<Rightarrow> 0 | Some v \<Rightarrow> scast v)" for j
    by (simp add: U64Map_At_def U64Map_Get_ok [OF m'(2)] split: option.split)
  with m' show ?thesis by simp
qed

definition empty_u64map :: u64map where
  "empty_u64map = \<lparr>slotsM = [], maskM = 0, countM = 0\<rparr>"

end
