(* ===== verification/Acc128.thy ===== *)
theory Acc128
  imports GoPrelude
begin

text \<open>
  The two-word sum accumulator of \<open>int128.go\<close>, and its twin in \<open>gql/internal/exec/int128.go\<close>. The
  lemmas show that it is exact integer arithmetic: the total, and the verdict whether it fits an
  \<open>int64\<close>, depend on the numbers added and not on how they were split over workers.
\<close>

record acc128 =
  lo :: u64
  hi :: u64

definition zero_acc :: acc128 where
  "zero_acc = \<lparr>lo = 0, hi = 0\<rparr>"

text \<open>\<open>math/bits.Add64\<close>: the sum and the carry out.\<close>

definition Add64 :: "u64 \<Rightarrow> u64 \<Rightarrow> u64 \<Rightarrow> u64 \<times> u64" where
  "Add64 x y carry = (x + y + carry, if uint x + uint y + uint carry \<ge> 2 ^ 64 then 1 else 0)"

text \<open>\<open>v >> 63\<close> on an \<open>int64\<close> is the arithmetic shift.\<close>

definition acc_add :: "acc128 \<Rightarrow> i64 \<Rightarrow> acc128" where
  "acc_add a v =
     (case Add64 (lo a) v 0 of (l, carry) \<Rightarrow>
       a\<lparr>lo := l, hi := hi a + (signed_drop_bit 63 v + carry)\<rparr>)"

definition acc_merge :: "acc128 \<Rightarrow> acc128 \<Rightarrow> acc128" where
  "acc_merge a b =
     (case Add64 (lo a) (lo b) 0 of (l, carry) \<Rightarrow> a\<lparr>lo := l, hi := hi a + (hi b + carry)\<rparr>)"

definition acc_int64 :: "acc128 \<Rightarrow> i64 \<times> bool" where
  "acc_int64 a = (let v = lo a in (v, hi a = signed_drop_bit 63 v))"

text \<open>The accumulator of package \<open>exec\<close> has the same \<open>add\<close> and \<open>int64\<close> and no \<open>merge\<close>.\<close>

definition exec_acc_add :: "acc128 \<Rightarrow> i64 \<Rightarrow> acc128" where
  "exec_acc_add a v =
     (case Add64 (lo a) v 0 of (l, carry) \<Rightarrow>
       a\<lparr>lo := l, hi := hi a + (signed_drop_bit 63 v + carry)\<rparr>)"

definition exec_acc_int64 :: "acc128 \<Rightarrow> i64 \<times> bool" where
  "exec_acc_int64 a = (let v = lo a in (v, hi a = signed_drop_bit 63 v))"

section \<open>Exactness\<close>

definition acc_val :: "acc128 \<Rightarrow> int" where
  "acc_val a = sint (hi a) * 2 ^ 64 + uint (lo a)"

lemma acc_val_range: "- (2 ^ 127) \<le> acc_val a" "acc_val a < 2 ^ 127"
  using sint64_range [of "hi a"] uint64_range [of "lo a"] unfolding acc_val_def
  by (simp_all, linarith+)

lemma div_eq_neg: "x < 0 \<Longrightarrow> - m \<le> x \<Longrightarrow> x div m = - 1" for x m :: int
  by (rule int_div_pos_eq [where r = "x + m"]) auto

lemma sign_word: "signed_drop_bit 63 v = (if sint v < 0 then - 1 else (0 :: u64))"
proof -
  have "sint (signed_drop_bit 63 v :: u64) = sint v div 2 ^ 63"
    by (simp only: sint_signed_drop_bit_eq drop_bit_eq_div)
  also have "\<dots> = (if sint v < 0 then - 1 else 0)"
    using sint64_range [of v] by (auto simp: div_pos_pos_trivial div_pos_neg_trivial intro!: div_eq_neg)
  finally show ?thesis by (auto intro!: signed_word_eqI split: if_splits)
qed

lemma sint_add_wrap:
  fixes x y :: u64
  obtains k where "sint (x + y) = sint x + sint y + k * 2 ^ 64"
proof -
  have "uint (x + y) = (uint x + uint y) mod 2 ^ 64" by (simp add: uint_word_ariths)
  then have u: "uint (x + y) = uint x + uint y - (uint x + uint y) div 2 ^ 64 * 2 ^ 64"
    by (simp only: minus_div_mult_eq_mod)
  show ?thesis
    by (rule that [of "(if 2 ^ 63 \<le> uint x then 1 else 0) + (if 2 ^ 63 \<le> uint y then 1 else 0)
          - (if 2 ^ 63 \<le> uint (x + y) then 1 else 0) - (uint x + uint y) div 2 ^ 64"])
      (simp only: sint_uint u, simp add: algebra_simps)
qed

text \<open>Both \<open>add\<close> and \<open>merge\<close> add \<open>(h, l)\<close> to the two words with a carry between them.\<close>

definition acc_plus :: "acc128 \<Rightarrow> u64 \<Rightarrow> u64 \<Rightarrow> acc128" where
  "acc_plus a h l = \<lparr>lo = lo a + l, hi = hi a + (h + (if 2 ^ 64 \<le> uint (lo a) + uint l then 1 else 0))\<rparr>"

lemma acc_plus_val:
  assumes "- (2 ^ 127) \<le> acc_val a + (sint h * 2 ^ 64 + uint l)" "acc_val a + (sint h * 2 ^ 64 + uint l) < 2 ^ 127"
  shows "acc_val (acc_plus a h l) = acc_val a + (sint h * 2 ^ 64 + uint l)"
proof -
  let ?c = "(if 2 ^ 64 \<le> uint (lo a) + uint l then 1 else 0)"
  have c: "sint (?c :: u64) = ?c" by simp
  have "uint (lo a + l) = (uint (lo a) + uint l) mod 2 ^ 64" by (simp add: uint_word_ariths)
  then have l: "uint (lo a + l) = uint (lo a) + uint l - ?c * 2 ^ 64"
    using uint64_range [of "lo a"] uint64_range [of l] by (subst (asm) mod_once) auto
  obtain j where j: "sint (h + ?c) = sint h + sint (?c :: u64) + j * 2 ^ 64" by (rule sint_add_wrap)
  obtain k where k: "sint (hi a + (h + ?c)) = sint (hi a) + sint (h + ?c) + k * 2 ^ 64" by (rule sint_add_wrap)
  have eq: "acc_val (acc_plus a h l) = acc_val a + (sint h * 2 ^ 64 + uint l) + (j + k) * 2 ^ 128"
    by (simp only: acc_val_def acc_plus_def acc128.select_convs k j l c) (simp add: algebra_simps)
  have "j + k = 0"
    using acc_val_range [of "acc_plus a h l"] assms unfolding eq by simp
  then show ?thesis by (simp add: eq)
qed

lemma acc_add_plus: "acc_add a v = acc_plus a (if sint v < 0 then - 1 else 0) v"
  by (simp add: acc_add_def acc_plus_def Add64_def sign_word)

lemma acc_merge_plus: "acc_merge a b = acc_plus a (hi b) (lo b)"
  by (simp add: acc_merge_def acc_plus_def Add64_def)

lemma acc_add_val:
  "- (2 ^ 127) \<le> acc_val a + sint v \<Longrightarrow> acc_val a + sint v < 2 ^ 127 \<Longrightarrow>
   acc_val (acc_add a v) = acc_val a + sint v"
  using acc_plus_val [of a "if sint v < 0 then - 1 else 0" v] unfolding acc_add_plus
  by (cases "sint v < 0") (simp_all add: sint_val)

lemma acc_merge_val:
  "- (2 ^ 127) \<le> acc_val a + acc_val b \<Longrightarrow> acc_val a + acc_val b < 2 ^ 127 \<Longrightarrow>
   acc_val (acc_merge a b) = acc_val a + acc_val b"
  using acc_plus_val [of a "hi b" "lo b"] unfolding acc_merge_plus by (simp add: acc_val_def)

lemma acc_val_sign: "acc_val \<lparr>lo = v, hi = (if sint v < 0 then - 1 else 0)\<rparr> = sint v"
  by (simp add: acc_val_def sint_val)

lemma acc_val_inj: "acc_val a = acc_val b \<Longrightarrow> a = b"
proof -
  assume eq: "acc_val a = acc_val b"
  have d: "uint (lo c) = acc_val c mod 2 ^ 64" "sint (hi c) = acc_val c div 2 ^ 64" for c :: acc128
    using uint64_range [of "lo c"] by (simp_all add: acc_val_def mod_pos_pos_trivial div_pos_pos_trivial)
  have "uint (lo a) = uint (lo b)" "sint (hi a) = sint (hi b)" by (simp_all only: d eq)
  then have "lo a = lo b" "hi a = hi b" by (blast intro: unsigned_word_eqI signed_word_eqI)+
  then show "a = b" by simp
qed

lemma acc_int64_ok:
  "acc_int64 a = (v, fits) \<Longrightarrow>
   (fits \<longleftrightarrow> - (2 ^ 63) \<le> acc_val a \<and> acc_val a < 2 ^ 63) \<and> (fits \<longrightarrow> sint v = acc_val a)"
proof -
  assume a: "acc_int64 a = (v, fits)"
  then have v: "v = lo a" "fits \<longleftrightarrow> hi a = (if sint v < 0 then - 1 else 0)"
    by (auto simp: acc_int64_def Let_def sign_word)
  have fit: "acc_val a = sint v" if fits
    using acc_val_sign [of v] v that by (cases a) simp
  moreover have fits if r: "- (2 ^ 63) \<le> acc_val a" "acc_val a < 2 ^ 63"
  proof -
    define w :: u64 where "w = word_of_int (acc_val a)"
    have w: "sint w = acc_val a" using r by (simp add: w_def int_word_sint mod_pos_pos_trivial)
    have eq: "a = \<lparr>lo = w, hi = (if sint w < 0 then - 1 else 0)\<rparr>"
      using acc_val_sign [of w] w by (intro acc_val_inj) simp
    show ?thesis using v arg_cong [OF eq, of lo] arg_cong [OF eq, of hi] by simp
  qed
  ultimately show ?thesis using sint64_range [of v] by auto
qed

text \<open>A worker's partial total, and the totals of several workers merged.\<close>

lemma sint_sum_bound:
  "- (int (length vs) * 2 ^ 63) \<le> sum_list (map sint vs) \<and> sum_list (map sint vs) \<le> int (length vs) * 2 ^ 63"
  for vs :: "i64 list"
proof (induction vs)
  case (Cons v vs)
  then show ?case using sint64_range [of v] by (simp add: algebra_simps)
qed simp

lemma fold_acc_add:
  assumes "- (2 ^ 127) \<le> acc_val a - int (length vs) * 2 ^ 63" "acc_val a + int (length vs) * 2 ^ 63 < 2 ^ 127"
  shows "acc_val (fold (\<lambda>v a. acc_add a v) vs a) = acc_val a + sum_list (map sint vs)"
  using assms
proof (induction vs arbitrary: a)
  case (Cons v vs)
  have "acc_val (acc_add a v) = acc_val a + sint v"
    using Cons.prems sint64_range [of v] by (intro acc_add_val) (simp_all add: algebra_simps)
  with Cons show ?case using sint64_range [of v] by (simp add: algebra_simps)
qed simp

definition acc_total :: "i64 list \<Rightarrow> acc128" where
  "acc_total vs = fold (\<lambda>v a. acc_add a v) vs zero_acc"

lemma acc_val_zero [simp]: "acc_val zero_acc = 0"
  by (simp add: zero_acc_def acc_val_def)

lemma acc_total_val: "int (length vs) < 2 ^ 63 \<Longrightarrow> acc_val (acc_total vs) = sum_list (map sint vs)"
  using fold_acc_add [of zero_acc vs] by (simp add: acc_total_def)

lemma fold_acc_merge:
  assumes "- (2 ^ 127) \<le> acc_val a - int (length (concat parts)) * 2 ^ 63"
    "acc_val a + int (length (concat parts)) * 2 ^ 63 < 2 ^ 127" "int (length (concat parts)) < 2 ^ 63"
  shows "acc_val (fold (\<lambda>p a. acc_merge a (acc_total p)) parts a) = acc_val a + sum_list (map sint (concat parts))"
  using assms
proof (induction parts arbitrary: a)
  case (Cons p parts)
  have p: "acc_val (acc_total p) = sum_list (map sint p)" using Cons.prems by (intro acc_total_val) simp
  note b = sint_sum_bound [of p]
  have "acc_val (acc_merge a (acc_total p)) = acc_val a + sum_list (map sint p)"
    unfolding p [symmetric] using Cons.prems b unfolding p [symmetric]
    by (intro acc_merge_val) (simp_all add: algebra_simps)
  with Cons show ?case using b by (simp add: algebra_simps)
qed simp

text \<open>The twin of package \<open>exec\<close> has the same behaviour.\<close>

lemma exec_acc_eq: "exec_acc_add = acc_add" "exec_acc_int64 = acc_int64"
  by (simp_all add: fun_eq_iff exec_acc_add_def acc_add_def exec_acc_int64_def acc_int64_def)

section \<open>Properties\<close>

text \<open>
  C37: a sum of fewer than \<open>2^63\<close> values is exact however the values were partitioned over workers:
  the merged partial totals report "fits" exactly when the mathematical sum is an \<open>int64\<close>, and then
  return that sum; a transient excursion past the \<open>int64\<close> range changes nothing.
\<close>

theorem acc128_partition_exact:
  assumes "int (length (concat parts)) < 2 ^ 63"
  shows "case acc_int64 (fold (\<lambda>p a. acc_merge a (fold (\<lambda>v b. acc_add b v) p zero_acc)) parts zero_acc) of
    (v, fits) \<Rightarrow>
      (fits \<longleftrightarrow> - (2 ^ 63) \<le> sum_list (map sint (concat parts)) \<and> sum_list (map sint (concat parts)) < 2 ^ 63)
      \<and> (fits \<longrightarrow> sint v = sum_list (map sint (concat parts)))"
proof -
  let ?a = "fold (\<lambda>p a. acc_merge a (acc_total p)) parts zero_acc"
  have "acc_val ?a = sum_list (map sint (concat parts))"
    using assms by (subst fold_acc_merge) simp_all
  then show ?thesis using acc_int64_ok [of ?a] unfolding acc_total_def by (auto split: prod.split)
qed

theorem acc128_partition_exact_witness:
  "case acc_int64 (fold (\<lambda>p a. acc_merge a (fold (\<lambda>v b. acc_add b v) p zero_acc))
      [[2 ^ 63 - 1, 7], [], [- 8]] zero_acc) of
    (v, fits) \<Rightarrow>
      (fits \<longleftrightarrow> - (2 ^ 63) \<le> sum_list (map sint (concat [[2 ^ 63 - 1, 7], [], [- 8 :: i64]]))
        \<and> sum_list (map sint (concat [[2 ^ 63 - 1, 7], [], [- 8 :: i64]])) < 2 ^ 63)
      \<and> (fits \<longrightarrow> sint v = sum_list (map sint (concat [[2 ^ 63 - 1, 7], [], [- 8 :: i64]])))"
  by (rule acc128_partition_exact) simp

end
