(* ===== verification/Values.thy ===== *)
theory Values
  imports GoPrelude
begin

text \<open>
  The scalar types of the engine: \<open>types.go\<close> (directions) and \<open>value.go\<close> (the tagged property
  value). Labels, relationship types and property keys are interned-string ids, that is \<open>uint32\<close>.
\<close>

type_synonym Label = u32
type_synonym RelType = u32

section \<open>Directions\<close>

datatype Direction = Outgoing | Incoming | Both

fun Reverse :: "Direction \<Rightarrow> Direction" where
  "Reverse Outgoing = Incoming"
| "Reverse Incoming = Outgoing"
| "Reverse Both = Both"

fun Direction_String :: "Direction \<Rightarrow> string" where
  "Direction_String Outgoing = ''outgoing''"
| "Direction_String Incoming = ''incoming''"
| "Direction_String Both = ''both''"

lemma Reverse_Reverse [simp]: "Reverse (Reverse d) = d"
  by (cases d) simp_all

lemma Reverse_inj: "Reverse d = Reverse e \<longleftrightarrow> d = e"
  by (cases d; cases e) simp_all

section \<open>Values\<close>

datatype ValueKind = KindStr | KindI64 | KindF64 | KindBool

record Value =
  vkind :: ValueKind
  vbits :: u64

text \<open>The zero value \<open>Value{}\<close>: kind 0 is \<open>KindStr\<close>.\<close>

definition zero_Value :: Value where
  "zero_Value = \<lparr>vkind = KindStr, vbits = 0\<rparr>"

definition StrValue :: "u32 \<Rightarrow> Value" where
  "StrValue atom = \<lparr>vkind = KindStr, vbits = ucast atom\<rparr>"

definition I64Value :: "i64 \<Rightarrow> Value" where
  "I64Value v = \<lparr>vkind = KindI64, vbits = v\<rparr>"

definition F64Value :: "f64 \<Rightarrow> Value" where
  "F64Value v = \<lparr>vkind = KindF64, vbits = v\<rparr>"

definition BoolValue :: "bool \<Rightarrow> Value" where
  "BoolValue v = \<lparr>vkind = KindBool, vbits = (if v then 1 else 0)\<rparr>"

definition Value_Kind :: "Value \<Rightarrow> ValueKind" where
  "Value_Kind v = vkind v"

definition Value_StrID :: "Value \<Rightarrow> u32 \<times> bool" where
  "Value_StrID v = (ucast (vbits v), vkind v = KindStr)"

definition Value_I64 :: "Value \<Rightarrow> i64 \<times> bool" where
  "Value_I64 v = (vbits v, vkind v = KindI64)"

definition Value_F64 :: "Value \<Rightarrow> f64 \<times> bool" where
  "Value_F64 v = (vbits v, vkind v = KindF64)"

definition Value_Bool :: "Value \<Rightarrow> bool \<times> bool" where
  "Value_Bool v = (vbits v \<noteq> 0, vkind v = KindBool)"

lemma Value_read_back [simp]:
  "Value_StrID (StrValue a) = (a, True)" "Value_I64 (I64Value i) = (i, True)"
  "Value_F64 (F64Value f) = (f, True)" "Value_Bool (BoolValue b) = (b, True)"
  by (simp_all add: Value_StrID_def StrValue_def Value_I64_def I64Value_def Value_F64_def F64Value_def
      Value_Bool_def BoolValue_def)

lemma Value_kinds [simp]:
  "vkind (StrValue a) = KindStr" "vkind (I64Value i) = KindI64"
  "vkind (F64Value f) = KindF64" "vkind (BoolValue b) = KindBool"
  by (simp_all add: StrValue_def I64Value_def F64Value_def BoolValue_def)

lemma Value_inject [simp]:
  "StrValue a = StrValue a' \<longleftrightarrow> a = a'" "I64Value i = I64Value i' \<longleftrightarrow> i = i'"
  "F64Value f = F64Value f' \<longleftrightarrow> f = f'" "BoolValue b = BoolValue b' \<longleftrightarrow> b = b'"
  by (metis Value_read_back prod.inject)+

lemma Value_distinct [simp]:
  "StrValue a \<noteq> I64Value i" "StrValue a \<noteq> F64Value f" "StrValue a \<noteq> BoolValue b"
  "I64Value i \<noteq> F64Value f" "I64Value i \<noteq> BoolValue b" "F64Value f \<noteq> BoolValue b"
  by (metis Value_kinds ValueKind.distinct)+

text \<open>A value that a constructor made: the payload is in the range of its kind.\<close>

definition wf_Value :: "Value \<Rightarrow> bool" where
  "wf_Value v \<longleftrightarrow> (case vkind v of
      KindStr \<Rightarrow> unat (vbits v) < 2 ^ 32
    | KindBool \<Rightarrow> vbits v = 0 \<or> vbits v = 1
    | _ \<Rightarrow> True)"

lemma wf_Value_made [simp]:
  "wf_Value (StrValue a)" "wf_Value (I64Value i)" "wf_Value (F64Value f)" "wf_Value (BoolValue b)"
  using unat_u32 [of a] by (simp_all add: wf_Value_def StrValue_def I64Value_def F64Value_def BoolValue_def)

text \<open>Reading a well-formed value by its kind and rebuilding it gives the same value.\<close>

lemma wf_Value_rebuild:
  assumes "wf_Value v"
  shows "v = (case vkind v of
      KindStr \<Rightarrow> StrValue (fst (Value_StrID v)) | KindI64 \<Rightarrow> I64Value (fst (Value_I64 v))
    | KindF64 \<Rightarrow> F64Value (fst (Value_F64 v)) | KindBool \<Rightarrow> BoolValue (fst (Value_Bool v)))"
  using assms
  by (cases v) (auto simp: wf_Value_def StrValue_def I64Value_def F64Value_def BoolValue_def Value_StrID_def
      Value_I64_def Value_F64_def Value_Bool_def word_unat_eq_iff unat_ucast_down
      split: ValueKind.splits)

end
