(* ===== verification/RelTypes.thy ===== *)
theory RelTypes
  imports Values
begin

text \<open>
  The per-position relationship-type vector and the type filters that run over it: \<open>reltypes.go\<close> and
  the matcher of \<open>traverse.go\<close>. A vector is either wide or a byte-indexed palette; a filter's
  per-position test is specialised to the representation. An iterator callback \<open>yield\<close> is a function
  on the consumer's state that also says whether to go on.
\<close>

section \<open>The vector\<close>

text \<open>\<open>rt_wide\<close> is \<^term>\<open>None\<close> for the nil slice of the palette form.\<close>

record relTypes =
  rt_wide :: "RelType list option"
  rt_palette :: "RelType list"
  rt_idx :: "u8 list"

definition relTypePaletteMax :: nat where
  "relTypePaletteMax = 256"

definition denseTypeBound :: u32 where
  "denseTypeBound = 65536"

definition relTypes_At :: "relTypes \<Rightarrow> u32 \<Rightarrow> RelType option" where
  "relTypes_At r pos =
     (case rt_wide r of
        Some w \<Rightarrow> slice_at w (unat pos)
      | None \<Rightarrow> do { i \<leftarrow> slice_at (rt_idx r) (unat pos); slice_at (rt_palette r) (unat i) })"

definition relTypes_Len :: "relTypes \<Rightarrow> nat" where
  "relTypes_Len r = (case rt_wide r of Some w \<Rightarrow> length w | None \<Rightarrow> length (rt_idx r))"

definition reader :: "relTypes \<Rightarrow> u32 \<Rightarrow> RelType option" where
  "reader r =
     (case rt_wide r of
        Some w \<Rightarrow> (\<lambda>pos. slice_at w (unat pos))
      | None \<Rightarrow> (\<lambda>pos. do { i \<leftarrow> slice_at (rt_idx r) (unat pos); slice_at (rt_palette r) (unat i) }))"

definition max_type :: "u32 list \<Rightarrow> u32" where
  "max_type ts = fold (\<lambda>t m. if t > m then t else m) ts 0"

text \<open>
  The palette pass. \<open>lut\<close> holds \<open>int16\<close> values between -1 and 255; it has \<open>maxT + 1\<close> entries, so
  every type indexes it. \<open>idx[pos] = ...\<close> fills the result left to right. \<^term>\<open>None\<close> is the early
  return on a palette overflow.
\<close>

fun palette_loop :: "u32 list \<Rightarrow> int list \<Rightarrow> RelType list \<Rightarrow> u8 list \<Rightarrow> (RelType list \<times> u8 list) option" where
  "palette_loop [] lut palette idx = Some (palette, idx)"
| "palette_loop (t # ts) lut palette idx =
     (let pi = lut ! unat t in
      if pi < 0 then
        if length palette \<ge> relTypePaletteMax then None
        else let pi' = int (length palette) in
          palette_loop ts (lut[unat t := pi']) (palette @ [t]) (idx @ [of_int pi'])
      else palette_loop ts lut palette (idx @ [of_int pi]))"

definition compressRelTypes :: "RelType list \<Rightarrow> relTypes" where
  "compressRelTypes ts =
     (let maxT = max_type ts in
      if maxT \<ge> denseTypeBound then \<lparr>rt_wide = Some ts, rt_palette = [], rt_idx = []\<rparr>
      else case palette_loop ts (replicate (unat maxT + 1) (- 1)) [] [] of
             None \<Rightarrow> \<lparr>rt_wide = Some ts, rt_palette = [], rt_idx = []\<rparr>
           | Some (palette, idx) \<Rightarrow> \<lparr>rt_wide = None, rt_palette = palette, rt_idx = idx\<rparr>)"

text \<open>The loader's variant differs in copying the wide form out of the \<open>uint32\<close> slice.\<close>

definition compressRelTypesU32 :: "u32 list \<Rightarrow> relTypes" where
  "compressRelTypesU32 ts =
     (let maxT = max_type ts;
          wideOut = \<lparr>rt_wide = Some (map (\<lambda>t. t) ts), rt_palette = [], rt_idx = []\<rparr> in
      if maxT \<ge> denseTypeBound then wideOut
      else case palette_loop ts (replicate (unat maxT + 1) (- 1)) [] [] of
             None \<Rightarrow> wideOut
           | Some (palette, idx) \<Rightarrow> \<lparr>rt_wide = None, rt_palette = palette, rt_idx = idx\<rparr>)"

fun index_of :: "RelType list \<Rightarrow> RelType \<Rightarrow> int \<Rightarrow> int" where
  "index_of [] t i = - 1"
| "index_of (pt # pts) t i = (if pt = t then i else index_of pts t (i + 1))"

definition paletteIndexOf :: "relTypes \<Rightarrow> RelType \<Rightarrow> int" where
  "paletteIndexOf r t = (if rt_wide r \<noteq> None then - 1 else index_of (rt_palette r) t 0)"

section \<open>Matchers\<close>

text \<open>
  The holder \<open>typedPair\<close> carries the type and its palette indexes; its lazily built views are pure
  functions of the snapshot and are computed where they are read (theory TypedAdj).
\<close>

record typedPair =
  tp_type :: RelType
  outPal :: int
  inPal :: int

record RelMatch =
  rm_kind :: u8
  rm_one :: RelType
  rm_many :: "RelType list"
  rm_tp :: "typedPair option"

definition MatchAll :: RelMatch where
  "MatchAll = \<lparr>rm_kind = 0, rm_one = 0, rm_many = [], rm_tp = None\<rparr>"

definition MatchType :: "RelType \<Rightarrow> RelMatch" where
  "MatchType t = \<lparr>rm_kind = 1, rm_one = t, rm_many = [], rm_tp = None\<rparr>"

definition MatchNone :: RelMatch where
  "MatchNone = \<lparr>rm_kind = 2, rm_one = 0, rm_many = [], rm_tp = None\<rparr>"

definition RelMatch_matches :: "RelMatch \<Rightarrow> RelType \<Rightarrow> bool" where
  "RelMatch_matches m t =
     (if rm_kind m = 0 then True
      else if rm_kind m = 1 then rm_one m = t
      else t \<in> set (rm_many m))"

definition palIndex :: "RelMatch \<Rightarrow> relTypes \<Rightarrow> bool \<Rightarrow> int" where
  "palIndex m r out =
     (case rm_tp m of
        Some p \<Rightarrow> if out then outPal p else inPal p
      | None \<Rightarrow> paletteIndexOf r (rm_one m))"

text \<open>The 256-bit membership words of the sought palette indexes: the two nested loops.\<close>

definition many_mask :: "RelType list \<Rightarrow> RelType list \<Rightarrow> u64 list \<times> bool" where
  "many_mask palette many =
     fold (\<lambda>(i, pt) st. fold (\<lambda>t (msk, some).
         if pt = t then (msk[i div 64 := msk ! (i div 64) OR push_bit (i mod 64) 1], True) else (msk, some)) many st)
       (enumerate 0 palette) (replicate 4 0, False)"

definition typeTest :: "RelMatch \<Rightarrow> relTypes \<Rightarrow> bool \<Rightarrow> u32 \<Rightarrow> bool option" where
  "typeTest m r out =
     (if rm_kind m = 0 then (\<lambda>_. Some True)
      else if rm_kind m = 1 then
        (case rt_wide r of
           Some w \<Rightarrow> (\<lambda>pos. map_option (\<lambda>t. t = rm_one m) (slice_at w (unat pos)))
         | None \<Rightarrow>
             let ti = palIndex m r out in
             if ti < 0 then (\<lambda>_. Some False)
             else let b = of_int ti :: u8 in (\<lambda>pos. map_option (\<lambda>x. x = b) (slice_at (rt_idx r) (unat pos))))
      else if length (rm_many m) = 0 then (\<lambda>_. Some False)
      else
        (case rt_wide r of
           None \<Rightarrow>
             (case many_mask (rt_palette r) (rm_many m) of (msk, some) \<Rightarrow>
               if \<not> some then (\<lambda>_. Some False)
               else (\<lambda>pos. map_option (\<lambda>b. msk ! (unat (drop_bit 6 b)) AND push_bit (unat (b AND 63)) 1 \<noteq> 0)
                       (slice_at (rt_idx r) (unat pos))))
         | Some w \<Rightarrow> (\<lambda>pos. map_option (\<lambda>t. \<exists>mt \<in> set (rm_many m). mt = t) (slice_at w (unat pos)))))"

text \<open>\<open>for k := lo; k < hi; k++ { if test(k) { dst = append(dst, nbrs[k]) } }\<close>.\<close>

definition append_loop :: "(nat \<Rightarrow> bool option) \<Rightarrow> NodeID list \<Rightarrow> nat \<Rightarrow> nat \<Rightarrow> NodeID list \<Rightarrow> NodeID list option" where
  "append_loop test nbrs lo hi dst =
     fold_opt (\<lambda>k dst. do {
         keep \<leftarrow> test k;
         if keep then map_option (\<lambda>n. dst @ [n]) (slice_at nbrs k) else Some dst
       }) [lo..<hi] dst"

definition appendNbrsTyped ::
  "NodeID list \<Rightarrow> NodeID list \<Rightarrow> relTypes \<Rightarrow> RelMatch \<Rightarrow> bool \<Rightarrow> nat \<Rightarrow> nat \<Rightarrow> NodeID list option" where
  "appendNbrsTyped dst nbrs r m out lo hi =
     (if rm_kind m = 0 then
        (if lo \<le> hi \<and> hi \<le> length nbrs then Some (dst @ take (hi - lo) (drop lo nbrs)) else None)
      else if rm_kind m = 1 then
        (case rt_wide r of
           Some w \<Rightarrow> append_loop (\<lambda>k. map_option (\<lambda>t. t = rm_one m) (slice_at w k)) nbrs lo hi dst
         | None \<Rightarrow>
             let ti = palIndex m r out in
             if ti < 0 then Some dst
             else let b = of_int ti :: u8 in
               append_loop (\<lambda>k. map_option (\<lambda>x. x = b) (slice_at (rt_idx r) k)) nbrs lo hi dst)
      else append_loop (\<lambda>k. typeTest m r out (of_nat k)) nbrs lo hi dst)"

text \<open>The early-stop loop; the result says whether the iteration ran to its end.\<close>

fun yield_loop :: "(nat \<Rightarrow> bool option) \<Rightarrow> NodeID list \<Rightarrow> (NodeID \<Rightarrow> 's \<Rightarrow> bool \<times> 's) \<Rightarrow> nat list \<Rightarrow> 's \<Rightarrow> (bool \<times> 's) option" where
  "yield_loop test nbrs yield [] s = Some (True, s)"
| "yield_loop test nbrs yield (k # ks) s =
     do {
       keep \<leftarrow> test k;
       if \<not> keep then yield_loop test nbrs yield ks s
       else do {
         n \<leftarrow> slice_at nbrs k;
         (case yield n s of (go, s') \<Rightarrow> if \<not> go then Some (False, s') else yield_loop test nbrs yield ks s')
       }
     }"

definition yieldNbrsTyped ::
  "NodeID list \<Rightarrow> relTypes \<Rightarrow> RelMatch \<Rightarrow> bool \<Rightarrow> nat \<Rightarrow> nat \<Rightarrow> (NodeID \<Rightarrow> 's \<Rightarrow> bool \<times> 's) \<Rightarrow> 's \<Rightarrow> (bool \<times> 's) option" where
  "yieldNbrsTyped nbrs r m out lo hi yield s =
     (if rm_kind m = 0 then yield_loop (\<lambda>_. Some True) nbrs yield [lo..<hi] s
      else if rm_kind m = 1 then
        (case rt_wide r of
           Some w \<Rightarrow> yield_loop (\<lambda>k. map_option (\<lambda>t. t = rm_one m) (slice_at w k)) nbrs yield [lo..<hi] s
         | None \<Rightarrow>
             let ti = palIndex m r out in
             if ti < 0 then Some (True, s)
             else let b = of_int ti :: u8 in
               yield_loop (\<lambda>k. map_option (\<lambda>x. x = b) (slice_at (rt_idx r) k)) nbrs yield [lo..<hi] s)
      else yield_loop (\<lambda>k. typeTest m r out (of_nat k)) nbrs yield [lo..<hi] s)"

section \<open>Lossless compression\<close>

definition rt_wf :: "relTypes \<Rightarrow> bool" where
  "rt_wf r \<longleftrightarrow> (case rt_wide r of
      Some w \<Rightarrow> True
    | None \<Rightarrow> distinct (rt_palette r) \<and> length (rt_palette r) \<le> 256 \<and> (\<forall>i \<in> set (rt_idx r). unat i < length (rt_palette r)))"

text \<open>The types a vector stands for.\<close>

definition rt_list :: "relTypes \<Rightarrow> RelType list" where
  "rt_list r = (case rt_wide r of Some w \<Rightarrow> w | None \<Rightarrow> map (\<lambda>i. rt_palette r ! unat i) (rt_idx r))"

lemma length_rt_list [simp]: "length (rt_list r) = relTypes_Len r"
  by (simp add: rt_list_def relTypes_Len_def split: option.split)

lemma relTypes_At_ok: "rt_wf r \<Longrightarrow> relTypes_At r pos = slice_at (rt_list r) (unat pos)"
  by (auto simp: rt_wf_def relTypes_At_def rt_list_def slice_at_def split: option.splits)

lemma reader_At: "reader r = relTypes_At r"
  by (auto simp: reader_def relTypes_At_def fun_eq_iff split: option.splits)

lemma max_type_ge: "t \<in> set ts \<Longrightarrow> t \<le> max_type ts"
proof -
  have "m \<le> fold (\<lambda>t m. if t > m then t else m) ts m \<and> (\<forall>t \<in> set ts. t \<le> fold (\<lambda>t m. if t > m then t else m) ts m)" for m
  proof (induction ts arbitrary: m)
    case (Cons a ts)
    show ?case using Cons [of "if a > m then a else m"] by (auto split: if_splits)
  qed simp
  then show "t \<in> set ts \<Longrightarrow> t \<le> max_type ts" by (auto simp: max_type_def)
qed

text \<open>The invariant of the palette pass: the table maps exactly the palette's types to their index.\<close>

definition lut_ok :: "int list \<Rightarrow> RelType list \<Rightarrow> bool" where
  "lut_ok lut palette \<longleftrightarrow> distinct palette \<and> length palette \<le> 256 \<and>
    (\<forall>i < length lut. \<forall>j. lut ! i = int j \<longleftrightarrow> j < length palette \<and> palette ! j = of_nat i) \<and> (\<forall>i < length lut. lut ! i \<ge> - 1)"

lemma lut_ok_extend:
  assumes ok: "lut_ok lut palette" and len: "length lut \<le> 2 ^ 32" "unat t < length lut"
    and new: "t \<notin> set palette" "length palette < 256"
  shows "lut_ok (lut[unat t := int (length palette)]) (palette @ [t])"
proof -
  have "(lut[unat t := int (length palette)] ! k = int j) \<longleftrightarrow> j < length (palette @ [t]) \<and> (palette @ [t]) ! j = of_nat k"
    if k: "k < length lut" for k j
  proof (cases "k = unat t")
    case True
    have "(palette @ [t]) ! j = t \<longleftrightarrow> j = length palette" if "j \<le> length palette"
      using new(1) that by (auto simp: nth_append)
    then show ?thesis using True len(2) by (auto simp: less_Suc_eq_le)
  next
    case False
    have "unat (of_nat k :: u32) = k" using k len(1) by (intro unat_of_nat_less) simp
    then have "of_nat k \<noteq> t" using False by auto
    then show ?thesis using False k ok by (auto simp: lut_ok_def nth_append less_Suc_eq)
  qed
  moreover have "lut[unat t := int (length palette)] ! k \<ge> - 1" if "k < length lut" for k
    using ok that by (cases "k = unat t") (auto simp: lut_ok_def)
  ultimately show ?thesis using ok new by (simp add: lut_ok_def)
qed

lemma palette_loop_ok:
  assumes "lut_ok lut palette" "\<forall>t \<in> set ts. unat t < length lut" "length lut \<le> 2 ^ 32"
    "\<forall>i \<in> set idx. unat i < length palette" "palette_loop ts lut palette idx = Some (pal', idx')"
  shows "distinct pal' \<and> length pal' \<le> 256 \<and> (\<forall>i \<in> set idx'. unat i < length pal')
    \<and> map (\<lambda>i. pal' ! unat i) idx' = map (\<lambda>i. palette ! unat i) idx @ ts"
  using assms
proof (induction ts arbitrary: lut palette idx)
  case Nil
  then show ?case by (auto simp: lut_ok_def)
next
  case (Cons t ts)
  let ?i = "unat t"
  have i: "?i < length lut" "(of_nat ?i :: u32) = t" using Cons.prems(2) by auto
  show ?case
  proof (cases "lut ! ?i < 0")
    case True
    then have len: "length palette < 256" and rec: "palette_loop ts (lut[?i := int (length palette)]) (palette @ [t]) (idx @ [of_int (int (length palette))]) = Some (pal', idx')"
      using Cons.prems(5) by (auto simp: Let_def relTypePaletteMax_def split: if_splits)
    have new: "t \<notin> set palette"
    proof
      assume "t \<in> set palette"
      then obtain j where "j < length palette" "palette ! j = t" by (auto simp: in_set_conv_nth)
      then have "lut ! ?i = int j" using Cons.prems(1) i by (auto simp: lut_ok_def)
      with True show False by simp
    qed
    have un: "unat (of_int (int (length palette)) :: u8) = length palette"
      using len unat_of_nat_less [of "length palette", where 'a = 8] by simp
    have lut: "lut_ok (lut[?i := int (length palette)]) (palette @ [t])"
      using Cons.prems(1,3) i(1) new len by (rule lut_ok_extend)
    have old: "map (\<lambda>i. (palette @ [t]) ! unat i) idx = map (\<lambda>i. palette ! unat i) idx"
      using Cons.prems(4) by (auto simp: nth_append)
    show ?thesis using Cons.IH [OF lut _ _ _ rec] Cons.prems(2,3,4) un old by (auto simp: less_SucI)
  next
    case False
    then obtain j where j: "lut ! ?i = int j" by (metis nonneg_int_cases not_less)
    then have jp: "j < length palette" "palette ! j = t" using Cons.prems(1) i by (auto simp: lut_ok_def)
    have "unat (of_int (int j) :: u8) = j"
      using jp Cons.prems(1) unat_of_nat_less [of j, where 'a = 8] by (simp add: lut_ok_def)
    moreover have "palette_loop ts lut palette (idx @ [of_int (int j)]) = Some (pal', idx')"
      using Cons.prems(5) False j by (simp add: Let_def)
    ultimately show ?thesis using Cons.IH [OF Cons.prems(1) _ Cons.prems(3), of "idx @ [of_int (int j)]"] Cons.prems(2,4) jp
      by auto
  qed
qed

lemma lut_ok_init: "n \<le> 2 ^ 32 \<Longrightarrow> lut_ok (replicate n (- 1)) []"
  by (simp add: lut_ok_def)

lemma compress_ok: "rt_wf (compressRelTypes ts) \<and> rt_list (compressRelTypes ts) = ts"
proof -
  let ?n = "unat (max_type ts) + 1"
  have n: "?n \<le> 2 ^ 32" using unat_u32 [of "max_type ts"] by simp
  have mem: "\<forall>t \<in> set ts. unat t < ?n" using max_type_ge by (auto simp: word_le_nat_alt less_Suc_eq_le)
  show ?thesis
  proof (cases "max_type ts \<ge> denseTypeBound")
    case True
    then show ?thesis by (simp add: compressRelTypes_def Let_def rt_wf_def rt_list_def)
  next
    case False
    show ?thesis
    proof (cases "palette_loop ts (replicate ?n (- 1)) [] []")
      case None
      then show ?thesis using False by (simp add: compressRelTypes_def Let_def rt_wf_def rt_list_def)
    next
      case (Some pi)
      then obtain pal idx where pi: "palette_loop ts (replicate ?n (- 1)) [] [] = Some (pal, idx)" by (cases pi) auto
      from palette_loop_ok [OF lut_ok_init [OF n] _ _ _ this] mem n
      show ?thesis using False pi by (simp add: compressRelTypes_def Let_def rt_wf_def rt_list_def)
    qed
  qed
qed

lemma compressU32: "compressRelTypesU32 ts = compressRelTypes ts"
  by (simp add: compressRelTypesU32_def compressRelTypes_def Let_def)

section \<open>The specialised tests are the matcher\<close>

lemma index_of_ok:
  "(index_of pts t i < i \<longleftrightarrow> t \<notin> set pts) \<and> (t \<notin> set pts \<longrightarrow> index_of pts t i = - 1)
   \<and> (t \<in> set pts \<longrightarrow> (\<exists>j < length pts. index_of pts t i = i + int j \<and> pts ! j = t))" if "i \<ge> 0"
  using that
proof (induction pts arbitrary: i)
  case (Cons a pts)
  show ?case
  proof (cases "a = t")
    case False
    have "(\<exists>j < length (a # pts). index_of (a # pts) t i = i + int j \<and> (a # pts) ! j = t)" if t: "t \<in> set pts"
    proof -
      obtain j where "j < length pts" "index_of pts t (i + 1) = i + 1 + int j" "pts ! j = t"
        using Cons.IH [of "i + 1"] Cons.prems t by auto
      then show ?thesis using False by (intro exI [of _ "Suc j"]) simp
    qed
    then show ?thesis using Cons.IH [of "i + 1"] Cons.prems False by auto
  qed auto
qed simp

text \<open>A matcher whose holder, if any, carries the palette indexes of its own type.\<close>

definition match_ok :: "RelMatch \<Rightarrow> relTypes \<Rightarrow> bool \<Rightarrow> bool" where
  "match_ok m r out \<longleftrightarrow> (case rm_tp m of None \<Rightarrow> True
     | Some p \<Rightarrow> (if out then outPal p else inPal p) = paletteIndexOf r (rm_one m))"

lemma palIndex_ok:
  assumes "match_ok m r out" "rt_wide r = None"
  shows "palIndex m r out = index_of (rt_palette r) (rm_one m) 0"
  using assms by (auto simp: match_ok_def palIndex_def paletteIndexOf_def split: option.splits if_splits)

lemma palette_test:
  assumes wf: "rt_wf r" "rt_wide r = None" and m: "match_ok m r out"
  shows "palIndex m r out < 0 \<Longrightarrow> t \<in> set (rt_list r) \<Longrightarrow> t \<noteq> rm_one m"
    "\<not> palIndex m r out < 0 \<Longrightarrow> k < relTypes_Len r \<Longrightarrow> (rt_idx r ! k = of_int (palIndex m r out)) \<longleftrightarrow> rt_list r ! k = rm_one m"
proof -
  note io = index_of_ok [of 0 "rt_palette r" "rm_one m"]
  have pal: "palIndex m r out = index_of (rt_palette r) (rm_one m) 0" using palIndex_ok [OF m wf(2)] .
  { assume "palIndex m r out < 0" "t \<in> set (rt_list r)"
    then have "rm_one m \<notin> set (rt_palette r)" "t \<in> set (rt_palette r)"
      using io pal wf by (auto simp: rt_list_def rt_wf_def)
    then show "t \<noteq> rm_one m" by auto }
  assume "\<not> palIndex m r out < 0" and k: "k < relTypes_Len r"
  then obtain j where j: "j < length (rt_palette r)" "palIndex m r out = int j" "rt_palette r ! j = rm_one m"
    using io pal by auto
  have "j < 256" using j(1) wf by (simp add: rt_wf_def)
  then have un: "unat (of_int (int j) :: u8) = j" using unat_of_nat_less [of j, where 'a = 8] by simp
  have ki: "k < length (rt_idx r)" using k wf(2) by (simp add: relTypes_Len_def)
  then have "unat (rt_idx r ! k) < length (rt_palette r)" using wf by (simp add: rt_wf_def)
  then have "rt_palette r ! unat (rt_idx r ! k) = rt_palette r ! j \<longleftrightarrow> unat (rt_idx r ! k) = j"
    using j(1) wf by (simp add: rt_wf_def nth_eq_iff_index_eq)
  moreover have "rt_idx r ! k = of_int (int j) \<longleftrightarrow> unat (rt_idx r ! k) = j" using un by (metis word_unat_eq_iff)
  ultimately show "(rt_idx r ! k = of_int (palIndex m r out)) \<longleftrightarrow> rt_list r ! k = rm_one m"
    using j ki wf(2) by (simp add: rt_list_def)
qed

text \<open>The mask has a bit for each palette entry that is sought.\<close>

definition mask_bit :: "u64 list \<Rightarrow> nat \<Rightarrow> bool" where
  "mask_bit msk i \<longleftrightarrow> bit (msk ! (i div 64)) (i mod 64)"

lemma mask_bit_set:
  assumes "length msk = 4" "i < 256" "j < 256"
  shows "mask_bit (msk[i div 64 := msk ! (i div 64) OR push_bit (i mod 64) 1]) j \<longleftrightarrow> j = i \<or> mask_bit msk j"
proof (cases "j div 64 = i div 64")
  case True
  have "i div 64 < 4" using assms(2) by auto
  moreover have "j mod 64 = i mod 64 \<longleftrightarrow> j = i" using True by (metis div_mult_mod_eq)
  ultimately show ?thesis using True assms(1) by (auto simp: mask_bit_def)
next
  case False
  then show ?thesis by (auto simp: mask_bit_def)
qed

lemma bex_nth: "(\<exists>x \<in> set xs. P x) \<longleftrightarrow> (\<exists>j < length xs. P (xs ! j))"
  by (metis in_set_conv_nth)

lemma many_mask_ok:
  assumes "length palette \<le> 256" "many_mask palette many = (msk, some)"
  shows "length msk = 4" "j < 256 \<Longrightarrow> mask_bit msk j \<longleftrightarrow> j < length palette \<and> palette ! j \<in> set many"
    "some \<longleftrightarrow> (\<exists>pt \<in> set palette. pt \<in> set many)"
proof -
  let ?g = "\<lambda>i pt t (msk, some). if pt = t then (msk[i div 64 := msk ! (i div 64) OR push_bit (i mod 64) (1 :: u64)], True) else (msk, some)"
  let ?f = "\<lambda>(i, pt) st. fold (?g i pt) many st"
  have inner: "case fold (?g i pt) ms (m0, s0) of (m1, s1) \<Rightarrow> length m1 = 4
      \<and> (\<forall>j < 256. mask_bit m1 j \<longleftrightarrow> mask_bit m0 j \<or> (j = i \<and> pt \<in> set ms)) \<and> (s1 \<longleftrightarrow> s0 \<or> pt \<in> set ms)"
    if "length m0 = 4" "i < 256" for i pt ms m0 s0
    using that
  proof (induction ms arbitrary: m0 s0)
    case (Cons t ms)
    show ?case
    proof (cases "pt = t")
      case True
      let ?m = "m0[i div 64 := m0 ! (i div 64) OR push_bit (i mod 64) 1]"
      have eq: "fold (?g i pt) (t # ms) (m0, s0) = fold (?g i pt) ms (?m, True)" using True by simp
      have bits: "mask_bit ?m j \<longleftrightarrow> j = i \<or> mask_bit m0 j" if "j < 256" for j using mask_bit_set Cons.prems that by blast
      show ?thesis unfolding eq using Cons.IH [of ?m True] Cons.prems bits True by (auto split: prod.splits)
    next
      case False
      then show ?thesis using Cons.IH [of m0 s0] Cons.prems by (auto split: prod.splits)
    qed
  qed simp
  let ?P = "\<lambda>k (m1, s1). length m1 = 4 \<and> (\<forall>j < 256. mask_bit m1 j \<longleftrightarrow> j < k \<and> palette ! j \<in> set many)
      \<and> (s1 \<longleftrightarrow> (\<exists>j < k. palette ! j \<in> set many))"
  have "?P (length (enumerate 0 palette)) (fold ?f (enumerate 0 palette) (replicate 4 0, False))"
  proof (rule fold_rule [where P = ?P])
    show "?P 0 (replicate 4 0, False)"
      by (auto simp: mask_bit_def)
    fix k st assume "k < length (enumerate 0 palette)" and P: "?P k st"
    then have k: "k < length palette" "k < 256" using assms(1) by auto
    obtain m0 s0 where st: "st = (m0, s0)" by force
    have "?f (enumerate 0 palette ! k) st = fold (?g k (palette ! k)) many (m0, s0)"
      using k(1) st by (simp add: nth_enumerate_eq)
    moreover note inner [of m0 k "palette ! k" many s0]
    ultimately show "?P (Suc k) (?f (enumerate 0 palette ! k) st)"
      using P st k by (auto simp: less_Suc_eq split: prod.splits)
  qed
  then have "?P (length palette) (msk, some)" using assms(2) by (simp add: many_mask_def)
  then show "length msk = 4" "j < 256 \<Longrightarrow> mask_bit msk j \<longleftrightarrow> j < length palette \<and> palette ! j \<in> set many"
    "some \<longleftrightarrow> (\<exists>pt \<in> set palette. pt \<in> set many)"
    by (auto simp: bex_nth)
qed

lemma byte_split: "unat (drop_bit 6 b) = unat b div 64" "unat (b AND 63) = unat b mod 64" for b :: u8
proof -
  show "unat (drop_bit 6 b) = unat b div 64" using unat_drop_bit_eq [of 6 b] by (simp add: drop_bit_eq_div [where ?'a = nat])
  have "(63 :: u8) = mask 6" by (simp add: mask_eq_exp_minus_1)
  then have "unat (b AND 63) = unat (take_bit 6 b)" by (simp only: take_bit_eq_mask)
  then show "unat (b AND 63) = unat b mod 64"
    using unsigned_take_bit_eq [of 6 b, where ?'a = nat] by (simp add: take_bit_eq_mod [where ?'a = nat])
qed

text \<open>Inside the vector, the specialised test is the matcher on the type at the position.\<close>

lemma typeTest_ok:
  assumes wf: "rt_wf r" and m: "match_ok m r out" and pos: "unat pos < relTypes_Len r"
  shows "typeTest m r out pos = Some (RelMatch_matches m (rt_list r ! unat pos))"
proof -
  have mem: "rt_list r ! unat pos \<in> set (rt_list r)" using pos by simp
  consider "rm_kind m = 0" | "rm_kind m = 1" | "rm_kind m \<noteq> 0" "rm_kind m \<noteq> 1" by blast
  then show ?thesis
  proof cases
    case 1
    then show ?thesis by (simp add: typeTest_def RelMatch_matches_def)
  next
    case 2
    show ?thesis
    proof (cases "rt_wide r")
      case (Some w)
      then show ?thesis using 2 pos by (auto simp: typeTest_def RelMatch_matches_def rt_list_def relTypes_Len_def)
    next
      case None
      have idx: "unat pos < length (rt_idx r)" using pos None by (simp add: relTypes_Len_def)
      show ?thesis
        using 2 None idx palette_test(1) [OF wf None m _ mem] palette_test(2) [OF wf None m _ pos]
        by (cases "palIndex m r out < 0") (auto simp: typeTest_def RelMatch_matches_def Let_def)
    qed
  next
    case 3
    show ?thesis
    proof (cases "rt_wide r")
      case (Some w)
      then show ?thesis using 3 pos by (auto simp: typeTest_def RelMatch_matches_def rt_list_def relTypes_Len_def)
    next
      case None
      obtain msk some where mm: "many_mask (rt_palette r) (rm_many m) = (msk, some)" by force
      have len: "length (rt_palette r) \<le> 256" using wf None by (simp add: rt_wf_def)
      note mk = many_mask_ok [OF len mm]
      have idx: "unat pos < length (rt_idx r)" using pos None by (simp add: relTypes_Len_def)
      let ?b = "rt_idx r ! unat pos"
      have b: "unat ?b < length (rt_palette r)" "unat ?b < 256" using idx wf None len unsigned_less [of ?b, where ?'a = nat] by (auto simp: rt_wf_def)
      have t: "rt_list r ! unat pos = rt_palette r ! unat ?b" using idx None by (simp add: rt_list_def)
      have bit: "msk ! unat (drop_bit 6 ?b) AND push_bit (unat (?b AND 63)) 1 \<noteq> 0 \<longleftrightarrow> rt_palette r ! unat ?b \<in> set (rm_many m)"
        using mk(2) [OF b(2)] b(1) by (simp add: byte_split mask_bit_def)
      show ?thesis
      proof (cases "rm_many m = [] \<or> \<not> some")
        case True
        then have "rt_palette r ! unat ?b \<notin> set (rm_many m)" using mk(3) b(1) nth_mem by fastforce
        then show ?thesis using 3 None mm True t by (auto simp: typeTest_def RelMatch_matches_def)
      next
        case False
        then show ?thesis using 3 None mm idx bit t by (simp add: typeTest_def RelMatch_matches_def del: push_bit_of_1)
      qed
    qed
  qed
qed

section \<open>The neighbour loops\<close>

text \<open>The positions of a run that a filter keeps.\<close>

definition kept :: "RelMatch \<Rightarrow> relTypes \<Rightarrow> nat \<Rightarrow> nat \<Rightarrow> nat list" where
  "kept m r lo hi = filter (\<lambda>k. RelMatch_matches m (rt_list r ! k)) [lo..<hi]"

lemma append_loop_ok:
  assumes "\<And>k. lo \<le> k \<Longrightarrow> k < hi \<Longrightarrow> test k = Some (P k)" "hi \<le> length nbrs"
  shows "append_loop test nbrs lo hi dst = Some (dst @ map ((!) nbrs) (filter P [lo..<hi]))"
proof -
  have "fold_opt (\<lambda>k dst. do { keep \<leftarrow> test k; if keep then map_option (\<lambda>n. dst @ [n]) (slice_at nbrs k) else Some dst }) ks dst
      = Some (dst @ map ((!) nbrs) (filter P ks))" if "\<forall>k \<in> set ks. test k = Some (P k) \<and> k < length nbrs" for ks dst
    using that by (induction ks arbitrary: dst) auto
  then show ?thesis using assms by (simp add: append_loop_def)
qed

lemma yield_loop_ok:
  assumes "\<forall>k \<in> set ks. test k = Some (P k) \<and> k < length nbrs"
  shows "yield_loop test nbrs yield ks s = Some (yield_all yield (map ((!) nbrs) (filter P ks)) s)"
  using assms by (induction ks arbitrary: s) (auto split: prod.split)

lemma slice_map_nth: "lo \<le> hi \<Longrightarrow> hi \<le> length xs \<Longrightarrow> take (hi - lo) (drop lo xs) = map ((!) xs) [lo..<hi]"
  by (intro nth_equalityI) auto

text \<open>The test that each variant of the loops runs.\<close>

lemma variant_tests:
  assumes wf: "rt_wf r" and m: "match_ok m r out" and k: "k < relTypes_Len r"
  shows "rm_kind m = 1 \<Longrightarrow> rt_wide r = Some w \<Longrightarrow> map_option (\<lambda>t. t = rm_one m) (slice_at w k) = Some (RelMatch_matches m (rt_list r ! k))"
    "rm_kind m = 1 \<Longrightarrow> rt_wide r = None \<Longrightarrow> \<not> palIndex m r out < 0 \<Longrightarrow>
      map_option (\<lambda>x. x = of_int (palIndex m r out)) (slice_at (rt_idx r) k) = Some (RelMatch_matches m (rt_list r ! k))"
    "rm_kind m = 1 \<Longrightarrow> rt_wide r = None \<Longrightarrow> palIndex m r out < 0 \<Longrightarrow> \<not> RelMatch_matches m (rt_list r ! k)"
proof -
  show "rm_kind m = 1 \<Longrightarrow> rt_wide r = Some w \<Longrightarrow> map_option (\<lambda>t. t = rm_one m) (slice_at w k) = Some (RelMatch_matches m (rt_list r ! k))"
    using k by (auto simp: RelMatch_matches_def rt_list_def relTypes_Len_def)
  assume kind: "rm_kind m = 1" and None: "rt_wide r = None"
  have "k < length (rt_idx r)" using k None by (simp add: relTypes_Len_def)
  then show "\<not> palIndex m r out < 0 \<Longrightarrow> map_option (\<lambda>x. x = of_int (palIndex m r out)) (slice_at (rt_idx r) k) = Some (RelMatch_matches m (rt_list r ! k))"
    using kind palette_test(2) [OF wf None m _ k] by (auto simp: RelMatch_matches_def)
  show "palIndex m r out < 0 \<Longrightarrow> \<not> RelMatch_matches m (rt_list r ! k)"
    using kind k palette_test(1) [OF wf None m, of "rt_list r ! k"] by (auto simp: RelMatch_matches_def)
qed

lemma nbrs_typed_ok:
  assumes wf: "rt_wf r" and m: "match_ok m r out" and run: "lo \<le> hi" "hi \<le> relTypes_Len r" "hi \<le> length nbrs" "hi \<le> 2 ^ 32"
  shows "appendNbrsTyped dst nbrs r m out lo hi = Some (dst @ map ((!) nbrs) (kept m r lo hi))"
    "yieldNbrsTyped nbrs r m out lo hi yield s = Some (yield_all yield (map ((!) nbrs) (kept m r lo hi)) s)"
proof -
  have "appendNbrsTyped dst nbrs r m out lo hi = Some (dst @ map ((!) nbrs) (kept m r lo hi))
    \<and> yieldNbrsTyped nbrs r m out lo hi yield s = Some (yield_all yield (map ((!) nbrs) (kept m r lo hi)) s)"
  proof -
    consider "rm_kind m = 0" | "rm_kind m = 1" | "rm_kind m \<noteq> 0" "rm_kind m \<noteq> 1" by blast
    then show ?thesis
    proof cases
      case 1
      then have "kept m r lo hi = [lo..<hi]" by (simp add: kept_def RelMatch_matches_def)
      moreover have "yield_loop (\<lambda>_. Some True) nbrs yield [lo..<hi] s = Some (yield_all yield (map ((!) nbrs) [lo..<hi]) s)"
        using run yield_loop_ok [of "[lo..<hi]" "\<lambda>_. Some True" "\<lambda>_. True" nbrs yield s] by simp
      ultimately show ?thesis using 1 run by (simp add: appendNbrsTyped_def yieldNbrsTyped_def slice_map_nth)
    next
      case 2
      show ?thesis
      proof (cases "rt_wide r = None \<and> palIndex m r out < 0")
        case True
        then have "kept m r lo hi = []" using variant_tests(3) [OF wf m _ 2] run by (auto simp: kept_def filter_empty_conv)
        then show ?thesis using 2 True by (simp add: appendNbrsTyped_def yieldNbrsTyped_def)
      next
        case False
        let ?t = "case rt_wide r of Some w \<Rightarrow> (\<lambda>k. map_option (\<lambda>t. t = rm_one m) (slice_at w k))
          | None \<Rightarrow> (\<lambda>k. map_option (\<lambda>x. x = of_int (palIndex m r out)) (slice_at (rt_idx r) k))"
        have t: "?t k = Some (RelMatch_matches m (rt_list r ! k))" if "k < hi" for k
          using variant_tests(1,2) [OF wf m _ 2] that run False by (auto split: option.splits)
        have "append_loop ?t nbrs lo hi dst = Some (dst @ map ((!) nbrs) (kept m r lo hi))"
          "yield_loop ?t nbrs yield [lo..<hi] s = Some (yield_all yield (map ((!) nbrs) (kept m r lo hi)) s)"
          unfolding kept_def using t run by (intro append_loop_ok yield_loop_ok; simp)+
        then show ?thesis using 2 False
          by (auto simp: appendNbrsTyped_def yieldNbrsTyped_def Let_def split: option.splits)
      qed
    next
      case 3
      have t: "typeTest m r out (of_nat k) = Some (RelMatch_matches m (rt_list r ! k))" if "k < hi" for k
      proof -
        have "unat (of_nat k :: u32) = k" using that run by (intro unat_of_nat_less) simp
        then show ?thesis using typeTest_ok [OF wf m, of "of_nat k"] that run by simp
      qed
      have "append_loop (\<lambda>k. typeTest m r out (of_nat k)) nbrs lo hi dst = Some (dst @ map ((!) nbrs) (kept m r lo hi))"
        "yield_loop (\<lambda>k. typeTest m r out (of_nat k)) nbrs yield [lo..<hi] s = Some (yield_all yield (map ((!) nbrs) (kept m r lo hi)) s)"
        unfolding kept_def using t run by (intro append_loop_ok yield_loop_ok; simp)+
      then show ?thesis using 3 by (simp add: appendNbrsTyped_def yieldNbrsTyped_def)
    qed
  qed
  then show "appendNbrsTyped dst nbrs r m out lo hi = Some (dst @ map ((!) nbrs) (kept m r lo hi))"
    "yieldNbrsTyped nbrs r m out lo hi yield s = Some (yield_all yield (map ((!) nbrs) (kept m r lo hi)) s)" by blast+
qed

section \<open>Properties\<close>

text \<open>
  C33: type compression is lossless. Whichever form \<open>compressRelTypes\<close> chooses, every position reads
  the type it was given and the length is kept; the loader's variant builds the same vector.
\<close>

theorem compressRelTypes_lossless:
  "relTypes_At (compressRelTypes ts) pos = slice_at ts (unat pos) \<and> relTypes_Len (compressRelTypes ts) = length ts
    \<and> compressRelTypesU32 ts = compressRelTypes ts"
  using compress_ok [of ts] relTypes_At_ok [of "compressRelTypes ts" pos] length_rt_list [of "compressRelTypes ts"]
  by (simp add: compressU32)

text \<open>
  C34: the hoisted filters equal the naive one. Over a compressed vector, for a matcher of any kind
  whose holder (if it has one) carries the palette index of its type, filling and yielding a
  node's run with the specialised loops gives the neighbours at exactly the positions whose type the
  matcher accepts, in CSR order, and an early stop ends the iteration there.
\<close>

theorem typed_loops_equiv:
  assumes "match_ok m (compressRelTypes ts) out" "lo \<le> hi" "hi \<le> length ts" "length nbrs = length ts" "length ts \<le> 2 ^ 32"
  shows "appendNbrsTyped dst nbrs (compressRelTypes ts) m out lo hi
      = Some (dst @ map ((!) nbrs) (filter (\<lambda>k. RelMatch_matches m (ts ! k)) [lo..<hi]))
    \<and> yieldNbrsTyped nbrs (compressRelTypes ts) m out lo hi yield s
      = Some (yield_all yield (map ((!) nbrs) (filter (\<lambda>k. RelMatch_matches m (ts ! k)) [lo..<hi])) s)"
  using nbrs_typed_ok [where r = "compressRelTypes ts" and m = m and out = out and lo = lo and hi = hi and nbrs = nbrs] assms compress_ok [of ts]
    length_rt_list [of "compressRelTypes ts"]
  by (simp add: kept_def)

theorem typed_loops_equiv_witness:
  "appendNbrsTyped [] [10, 20, 30] (compressRelTypes [4, 5, 4]) (MatchType 4) True 0 3
      = Some ([] @ map ((!) [10, 20, 30]) (filter (\<lambda>k. RelMatch_matches (MatchType 4) ([4, 5, 4] ! k)) [0..<3]))
    \<and> yieldNbrsTyped [10, 20, 30] (compressRelTypes [4, 5, 4]) (MatchType 4) True 0 3 (\<lambda>n c. (c < (1 :: nat), c + 1)) 0
      = Some (yield_all (\<lambda>n c. (c < 1, c + 1)) (map ((!) [10, 20, 30 :: NodeID]) (filter (\<lambda>k. RelMatch_matches (MatchType 4) ([4, 5, 4] ! k)) [0..<3])) 0)"
  by (rule typed_loops_equiv) (simp_all add: match_ok_def MatchType_def)

end
