(* ===== verification/Csr.thy ===== *)
theory Csr
  imports RelTypes
begin

text \<open>
  Compressed sparse row adjacency: the counting sort of \<open>buildCSRDirection\<close> (\<open>finalize.go\<close>), the
  range lookup \<open>relRange\<close> (\<open>traverse.go\<close>), and the single-type views of \<open>typedadj.go\<close>: the filtered
  CSR and the filtered runs with their bucket hint.
\<close>

section \<open>Building one direction\<close>

type_synonym rel = "NodeID \<times> NodeID"

text \<open>\<open>r[endpoint]\<close> and \<open>r[1-endpoint]\<close>; the endpoint is 0 (source) or 1 (target).\<close>

definition owner_of :: "nat \<Rightarrow> rel \<Rightarrow> NodeID" where
  "owner_of endpoint r = (if endpoint = 0 then fst r else snd r)"

definition other_of :: "nat \<Rightarrow> rel \<Rightarrow> NodeID" where
  "other_of endpoint r = (if endpoint = 0 then snd r else fst r)"

text \<open>\<open>offsets[i+1] = offsets[i] + deg[i]\<close> from an array of zeroes.\<close>

definition csr_offsets :: "nat \<Rightarrow> u32 list \<Rightarrow> u32 list option" where
  "csr_offsets n deg =
     fold_opt (\<lambda>i offsets. do {
         o1 \<leftarrow> slice_at offsets i;
         d \<leftarrow> slice_at deg i;
         slice_set offsets (i + 1) (o1 + d)
       }) [0..<n] (replicate (n + 1) 0)"

record csr_state =
  cs_nbrs :: "NodeID list"
  cs_types :: "RelType list"
  cs_relToCSR :: "u32 list"
  cs_next :: "u32 list"

text \<open>The placement of one relationship, \<open>(idx, r)\<close>.\<close>

definition csr_place :: "RelType list \<Rightarrow> nat \<Rightarrow> nat \<times> rel \<Rightarrow> csr_state \<Rightarrow> csr_state option" where
  "csr_place relTypes endpoint = (\<lambda>(i, r) st.
     (let own = unat (owner_of endpoint r); other = other_of endpoint r in
      do {
        pos \<leftarrow> slice_at (cs_next st) own;
        nbrs \<leftarrow> slice_set (cs_nbrs st) (unat pos) other;
        t \<leftarrow> slice_at relTypes i;
        types \<leftarrow> slice_set (cs_types st) (unat pos) t;
        r2c \<leftarrow> slice_set (cs_relToCSR st) i pos;
        nxt \<leftarrow> slice_set (cs_next st) own (pos + 1);
        Some \<lparr>cs_nbrs = nbrs, cs_types = types, cs_relToCSR = r2c, cs_next = nxt\<rparr>
      }))"

definition buildCSRDirection ::
  "nat \<Rightarrow> rel list \<Rightarrow> RelType list \<Rightarrow> u32 list \<Rightarrow> nat
    \<Rightarrow> (u32 list \<times> NodeID list \<times> RelType list \<times> u32 list) option" where
  "buildCSRDirection n rels relTypes deg endpoint =
     (let m = length rels in
      do {
        offsets \<leftarrow> csr_offsets n deg;
        st \<leftarrow> fold_opt (csr_place relTypes endpoint) (enumerate 0 rels)
               \<lparr>cs_nbrs = replicate m 0, cs_types = replicate m 0, cs_relToCSR = replicate m 0,
                cs_next = take n offsets\<rparr>;
        Some (offsets, cs_nbrs st, cs_types st, cs_relToCSR st)
      })"

text \<open>\<open>relRange\<close>: empty outside the id space.\<close>

definition relRange :: "u32 list \<Rightarrow> NodeID \<Rightarrow> nat \<times> nat" where
  "relRange offsets node =
     (let i = unat node in
      if i + 1 \<ge> length offsets then (0, 0) else (unat (offsets ! i), unat (offsets ! (i + 1))))"

section \<open>Single-type views\<close>

record typedCSR =
  tc_offsets :: "u32 list"
  tc_nbrs :: "NodeID list"
  tc_poss :: "u32 list"

record typedRuns =
  tr_nodes :: "u32 list"
  tr_nbrs :: "NodeID list"
  tr_poss :: "u32 list"
  tr_hint :: "u32 list"

definition runHintShift :: nat where
  "runHintShift = 6"

text \<open>The property-read position of CSR index \<open>k\<close>: mapped while the map covers it, else raw.\<close>

definition read_pos :: "u32 list \<Rightarrow> nat \<Rightarrow> u32" where
  "read_pos posMap k = (if k < length posMap then posMap ! k else of_nat k)"

text \<open>The inner loop of both builders over one node's range: the kept (neighbour, position) pairs.\<close>

definition typed_row :: "NodeID list \<Rightarrow> relTypes \<Rightarrow> u32 list \<Rightarrow> RelType \<Rightarrow> nat \<Rightarrow> nat \<Rightarrow> (NodeID \<times> u32) list option" where
  "typed_row nbrs types posMap t lo hi =
     fold_opt (\<lambda>k acc. do {
         x \<leftarrow> relTypes_At types (of_nat k);
         if x = t then map_option (\<lambda>nb. acc @ [(nb, read_pos posMap k)]) (slice_at nbrs k) else Some acc
       }) [lo..<hi] []"

text \<open>The counting pass before the loop only sizes the allocations.\<close>

definition buildTypedCSR ::
  "u32 list \<Rightarrow> NodeID list \<Rightarrow> relTypes \<Rightarrow> u32 list \<Rightarrow> RelType \<Rightarrow> typedCSR option" where
  "buildTypedCSR offsets nbrs types posMap t =
     (if length offsets = 0 then Some \<lparr>tc_offsets = [0], tc_nbrs = [], tc_poss = []\<rparr>
      else
        let n = length offsets - 1 in
        do {
          tc \<leftarrow> fold_opt (\<lambda>u tc. do {
              row \<leftarrow> typed_row nbrs types posMap t (unat (offsets ! u)) (unat (offsets ! (u + 1)));
              Some (tc\<lparr>tc_offsets := (tc_offsets tc)[u := of_nat (length (tc_nbrs tc))],
                       tc_nbrs := tc_nbrs tc @ map fst row, tc_poss := tc_poss tc @ map snd row\<rparr>)
            }) [0..<n] \<lparr>tc_offsets = replicate (n + 1) 0, tc_nbrs = [], tc_poss = []\<rparr>;
          Some (tc\<lparr>tc_offsets := (tc_offsets tc)[n := of_nat (length (tc_nbrs tc))]\<rparr>)
        })"

text \<open>\<open>for bi <= int(owner)>>runHintShift { r.hint[bi] = uint32(i); bi++ }\<close> for each entry.\<close>

definition hint_step :: "nat \<times> u32 \<Rightarrow> u32 list \<times> nat \<Rightarrow> (u32 list \<times> nat) option" where
  "hint_step = (\<lambda>(i, own) (hint, bi).
     (let top = unat own div 2 ^ runHintShift + 1 in
      map_option (\<lambda>h. (h, max bi top)) (fold_opt (\<lambda>b h. slice_set h b (of_nat i)) [bi..<top] hint)))"

definition buildTypedRuns ::
  "u32 list \<Rightarrow> NodeID list \<Rightarrow> relTypes \<Rightarrow> u32 list \<Rightarrow> RelType \<Rightarrow> typedRuns option" where
  "buildTypedRuns offsets nbrs types posMap t =
     (let n = length offsets - 1 in
      do {
        r \<leftarrow> fold_opt (\<lambda>u r. do {
            row \<leftarrow> typed_row nbrs types posMap t (unat (offsets ! u)) (unat (offsets ! (u + 1)));
            Some (r\<lparr>tr_nodes := tr_nodes r @ replicate (length row) (of_nat u),
                    tr_nbrs := tr_nbrs r @ map fst row, tr_poss := tr_poss r @ map snd row\<rparr>)
          }) [0..<n] \<lparr>tr_nodes = [], tr_nbrs = [], tr_poss = [], tr_hint = []\<rparr>;
        (hint, bi) \<leftarrow> fold_opt hint_step (enumerate 0 (tr_nodes r)) (replicate (n div 2 ^ runHintShift + 2) 0, 0);
        hint' \<leftarrow> fold_opt (\<lambda>b h. slice_set h b (of_nat (length (tr_nodes r)))) [bi..<length hint] hint;
        Some (r\<lparr>tr_hint := hint'\<rparr>)
      })"

text \<open>\<open>slices.BinarySearch\<close> returns the leftmost insertion point; the scan then runs to the end of the run.\<close>

definition runRange :: "typedRuns \<Rightarrow> NodeID \<Rightarrow> (nat \<times> nat) option" where
  "runRange r node =
     (let b = unat node div 2 ^ runHintShift in
      if b + 1 \<ge> length (tr_hint r) then Some (0, 0)
      else
        let lo0 = unat (tr_hint r ! b); hi0 = unat (tr_hint r ! (b + 1)) in
        if lo0 \<le> hi0 \<and> hi0 \<le> length (tr_nodes r) then
          let lo = lo0 + Search (hi0 - lo0) (\<lambda>i. \<not> tr_nodes r ! (lo0 + i) < node);
              run = takeWhile (\<lambda>k. tr_nodes r ! k = node) [lo..<hi0]
          in Some (lo, lo + length run)
        else None)"

section \<open>Specification: relationships grouped by owner\<close>

definition owned :: "nat list \<Rightarrow> nat \<Rightarrow> nat list" where
  "owned owners u = filter (\<lambda>i. owners ! i = u) [0..<length owners]"

definition csr_order :: "nat \<Rightarrow> nat list \<Rightarrow> nat list" where
  "csr_order n owners = concat (map (owned owners) [0..<n])"

text \<open>Where the CSR puts a relationship: the start of its owner's range plus its rank in it.\<close>

definition csr_start :: "nat list \<Rightarrow> nat \<Rightarrow> nat" where
  "csr_start owners u = (\<Sum>v < u. length (owned owners v))"

definition csr_pos :: "nat list \<Rightarrow> nat \<Rightarrow> nat" where
  "csr_pos owners i = csr_start owners (owners ! i) + count_in (\<lambda>j. owners ! j = owners ! i) 0 i"

lemma csr_start_Suc [simp]: "csr_start owners 0 = 0" "csr_start owners (Suc u) = csr_start owners u + length (owned owners u)"
  by (simp_all add: csr_start_def)

lemma csr_start_mono: "u \<le> v \<Longrightarrow> csr_start owners u \<le> csr_start owners v"
  unfolding csr_start_def by (intro sum_mono2) auto

lemma length_csr_order: "length (csr_order n owners) = csr_start owners n"
  by (induction n) (simp_all add: csr_order_def)

lemma concat_upt_nth:
  assumes "u < n" "r < length (f u)"
  shows "concat (map f [0..<n]) ! ((\<Sum>v < u. length (f v)) + r) = f u ! r"
proof -
  have len: "length (concat (map f [0..<u])) = (\<Sum>v < u. length (f v))" by (induction u) simp_all
  have "[0..<n] = [0..<u] @ u # [Suc u..<n]"
    using upt_add_eq_append [of 0 u "n - u"] assms(1) by (simp add: upt_conv_Cons)
  then have "concat (map f [0..<n]) = concat (map f [0..<u]) @ f u @ concat (map f [Suc u..<n])" by simp
  then show ?thesis using assms(2) len by (simp add: nth_append)
qed

lemma csr_order_pos:
  assumes "i < length owners" "owners ! i < n"
  shows "csr_order n owners ! csr_pos owners i = i"
    "csr_pos owners i < csr_start owners (Suc (owners ! i))"
proof -
  let ?u = "owners ! i"
  note f = filter_upt_index [of "\<lambda>j. owners ! j = ?u" i "length owners", OF refl assms(1)]
  show "csr_order n owners ! csr_pos owners i = i"
    unfolding csr_order_def csr_pos_def csr_start_def
    using f assms(2) by (subst concat_upt_nth) (auto simp: owned_def)
  show "csr_pos owners i < csr_start owners (Suc ?u)" using f(1) by (simp add: csr_pos_def owned_def)
qed

lemma owned_distinct: "distinct (owned owners u)"
  by (simp add: owned_def)

lemma csr_start_total:
  assumes "\<And>i. i < length owners \<Longrightarrow> owners ! i < n"
  shows "csr_start owners n = length owners"
proof -
  have "csr_start owners n = card (\<Union>v \<in> {..<n}. set (owned owners v))"
    unfolding csr_start_def
  proof (subst card_UN_disjoint)
    show "(\<Sum>v < n. length (owned owners v)) = (\<Sum>v < n. card (set (owned owners v)))"
      by (intro sum.cong refl) (simp add: distinct_card [OF owned_distinct])
  qed (auto simp: owned_def)
  also have "(\<Union>v \<in> {..<n}. set (owned owners v)) = {..<length owners}" using assms by (auto simp: owned_def)
  finally show ?thesis by simp
qed

lemma csr_pos_bij:
  assumes "\<And>i. i < length owners \<Longrightarrow> owners ! i < n"
  shows "bij_betw (csr_pos owners) {..<length owners} {..<length owners}"
    "bij_betw ((!) (csr_order n owners)) {..<length owners} {..<length owners}"
    "p < length owners \<Longrightarrow> csr_order n owners ! p < length owners \<and> csr_pos owners (csr_order n owners ! p) = p"
proof -
  let ?m = "length owners"
  have inj: "inj_on (csr_pos owners) {..<?m}"
    using csr_order_pos(1) assms by (intro inj_on_inverseI [where g = "(!) (csr_order n owners)"]) auto
  have "csr_pos owners i < ?m" if i: "i < ?m" for i
  proof -
    have "csr_pos owners i < csr_start owners (Suc (owners ! i))" using csr_order_pos(2) [OF i assms [OF i]] .
    also have "\<dots> \<le> csr_start owners n" using assms [OF i] by (intro csr_start_mono) simp
    finally show ?thesis by (simp only: csr_start_total [of owners n, OF assms])
  qed
  then have sub: "csr_pos owners ` {..<?m} \<subseteq> {..<?m}" by auto
  have surj: "csr_pos owners ` {..<?m} = {..<?m}" using inj sub by (intro endo_inj_surj) auto
  then show "bij_betw (csr_pos owners) {..<?m} {..<?m}" using inj by (simp add: bij_betw_def)
  have bk: "csr_order n owners ! p < ?m \<and> csr_pos owners (csr_order n owners ! p) = p" if "p < ?m" for p
  proof -
    have "p \<in> csr_pos owners ` {..<?m}" using that by (simp only: surj lessThan_iff)
    then obtain i where "i < ?m" "p = csr_pos owners i" by auto
    then show ?thesis using csr_order_pos(1) [of i owners n] assms by auto
  qed
  then show "p < ?m \<Longrightarrow> csr_order n owners ! p < ?m \<and> csr_pos owners (csr_order n owners ! p) = p" by blast
  show "bij_betw ((!) (csr_order n owners)) {..<?m} {..<?m}"
  proof (rule bij_betw_byWitness [where f' = "csr_pos owners"])
    show "\<forall>a \<in> {..<?m}. csr_pos owners (csr_order n owners ! a) = a" using bk by auto
    show "\<forall>a \<in> {..<?m}. csr_order n owners ! csr_pos owners a = a" using csr_order_pos(1) assms by auto
    show "(!) (csr_order n owners) ` {..<?m} \<subseteq> {..<?m}" using bk by auto
  qed (use sub in auto)
qed

section \<open>The counting sort implements the specification\<close>

lemma csr_offsets_ok:
  assumes "n \<le> length deg" "\<And>u. u < n \<Longrightarrow> unat (deg ! u) = length (owned owners u)" "csr_start owners n < 2 ^ 32"
  shows "\<exists>offs. csr_offsets n deg = Some offs \<and> length offs = n + 1 \<and> (\<forall>u \<le> n. unat (offs ! u) = csr_start owners u)"
proof -
  let ?P = "\<lambda>k offs. length offs = n + 1 \<and> (\<forall>u \<le> k. unat (offs ! u) = csr_start owners u)"
  let ?f = "\<lambda>i offsets. do { o1 \<leftarrow> slice_at offsets i; d \<leftarrow> slice_at deg i; slice_set offsets (i + 1) (o1 + d) }"
  have "\<exists>offs. fold_opt ?f [0..<n] (replicate (n + 1) 0) = Some offs \<and> ?P (length [0..<n]) offs"
  proof (rule fold_opt_rule [where P = ?P])
    show "?P 0 (replicate (n + 1) 0)" by simp
    fix k and offs :: "u32 list" assume k: "k < length [0..<n]" and P: "?P k offs"
    have kn: "k < n" using k by simp
    have "csr_start owners (Suc k) \<le> csr_start owners n" using kn by (intro csr_start_mono) simp
    then have "unat (offs ! k) + unat (deg ! k) < 2 ^ 32" using P assms(2) [OF kn] assms(3) by simp
    then have "unat (offs ! k + deg ! k) = csr_start owners (Suc k)"
      using P assms(2) [OF kn] by (simp add: unat_word_ariths)
    then have "?P (Suc k) (offs[Suc k := offs ! k + deg ! k])" using P kn by (auto simp: nth_list_update le_Suc_eq)
    moreover have "?f ([0..<n] ! k) offs = Some (offs[Suc k := offs ! k + deg ! k])" using P kn assms(1) by simp
    ultimately show "\<exists>offs'. ?f ([0..<n] ! k) offs = Some offs' \<and> ?P (Suc k) offs'" by blast
  qed
  then show ?thesis by (simp add: csr_offsets_def)
qed

definition owner_list :: "nat \<Rightarrow> rel list \<Rightarrow> nat list" where
  "owner_list endpoint rels = map (\<lambda>r. unat (owner_of endpoint r)) rels"

lemma csr_place_all:
  fixes rels :: "rel list" and endpoint :: nat
  defines "owners \<equiv> owner_list endpoint rels"
  assumes own: "\<And>i. i < length rels \<Longrightarrow> owners ! i < n" and m: "length rels < 2 ^ 32" "length relTypes = length rels"
    and nxt: "length nxt = n" "\<And>u. u < n \<Longrightarrow> unat (nxt ! u) = csr_start owners u"
  shows "\<exists>st. fold_opt (csr_place relTypes endpoint) (enumerate 0 rels)
       \<lparr>cs_nbrs = replicate (length rels) 0, cs_types = replicate (length rels) 0,
        cs_relToCSR = replicate (length rels) 0, cs_next = nxt\<rparr> = Some st
    \<and> length (cs_nbrs st) = length rels \<and> length (cs_types st) = length rels \<and> length (cs_relToCSR st) = length rels
    \<and> (\<forall>i < length rels. cs_nbrs st ! csr_pos owners i = other_of endpoint (rels ! i)
        \<and> cs_types st ! csr_pos owners i = relTypes ! i \<and> unat (cs_relToCSR st ! i) = csr_pos owners i)"
proof -
  let ?m = "length rels"
  have len: "length owners = ?m" by (simp add: owners_def owner_list_def)
  have own': "\<And>i. i < length owners \<Longrightarrow> owners ! i < n" using own len by simp
  have posm: "csr_pos owners i < ?m" if "i < ?m" for i using csr_pos_bij(1) [OF own'] that len by (auto simp: bij_betw_def)
  have posinj: "csr_pos owners i = csr_pos owners j \<longleftrightarrow> i = j" if "i < ?m" "j < ?m" for i j
    using csr_pos_bij(1) [OF own'] that len by (auto simp: bij_betw_def inj_on_def)
  let ?P = "\<lambda>k st. length (cs_nbrs st) = ?m \<and> length (cs_types st) = ?m \<and> length (cs_relToCSR st) = ?m
    \<and> length (cs_next st) = n \<and> (\<forall>u < n. unat (cs_next st ! u) = csr_start owners u + count_in (\<lambda>j. owners ! j = u) 0 k)
    \<and> (\<forall>i < k. cs_nbrs st ! csr_pos owners i = other_of endpoint (rels ! i)
        \<and> cs_types st ! csr_pos owners i = relTypes ! i \<and> unat (cs_relToCSR st ! i) = csr_pos owners i)"
  have "\<exists>st. fold_opt (csr_place relTypes endpoint) (enumerate 0 rels)
       \<lparr>cs_nbrs = replicate ?m 0, cs_types = replicate ?m 0, cs_relToCSR = replicate ?m 0, cs_next = nxt\<rparr> = Some st
     \<and> ?P (length (enumerate 0 rels)) st"
  proof (rule fold_opt_rule [where P = ?P])
    fix k and st :: csr_state assume "k < length (enumerate 0 rels)" and P: "?P k st"
    then have k: "k < ?m" by simp
    let ?u = "owners ! k" and ?pos = "cs_next st ! (owners ! k)"
    have u: "?u < n" "unat (owner_of endpoint (rels ! k)) = ?u" using own k by (simp_all add: owners_def owner_list_def)
    have pos: "unat ?pos = csr_pos owners k" using P u(1) by (simp add: csr_pos_def)
    have lt: "unat ?pos < ?m" using pos posm [OF k] by simp
    let ?st = "\<lparr>cs_nbrs = (cs_nbrs st)[unat ?pos := other_of endpoint (rels ! k)], cs_types = (cs_types st)[unat ?pos := relTypes ! k],
        cs_relToCSR = (cs_relToCSR st)[k := ?pos], cs_next = (cs_next st)[?u := ?pos + 1]\<rparr>"
    have "csr_place relTypes endpoint (enumerate 0 rels ! k) st = Some ?st"
      using P k u lt m(2) by (simp add: csr_place_def nth_enumerate_eq Let_def)
    moreover have "?P (Suc k) ?st"
    proof (intro conjI allI impI)
      fix v assume v: "v < n"
      have "unat (?pos + 1) = unat ?pos + 1" using lt m(1) by (simp add: unat_word_ariths)
      then show "unat (cs_next ?st ! v) = csr_start owners v + count_in (\<lambda>j. owners ! j = v) 0 (Suc k)"
        using P v u(1) by (cases "v = ?u") (auto simp: count_in_Suc)
    next
      fix i assume i: "i < Suc k"
      then have im: "i < ?m" using k by simp
      show "cs_nbrs ?st ! csr_pos owners i = other_of endpoint (rels ! i)" "cs_types ?st ! csr_pos owners i = relTypes ! i"
        "unat (cs_relToCSR ?st ! i) = csr_pos owners i"
        using P i k lt pos posinj [OF im k] by (cases "i = k"; simp add: nth_list_update)+
    qed (use P in auto)
    ultimately show "\<exists>st'. csr_place relTypes endpoint (enumerate 0 rels ! k) st = Some st' \<and> ?P (Suc k) st'" by blast
  qed (use nxt in auto)
  then show ?thesis by auto
qed

text \<open>
  The result: offsets are the owners' starts, and neighbours and types list the relationships grouped
  by owner, in insertion order within an owner; \<open>relToCSR\<close> inverts that order.
\<close>

lemma buildCSRDirection_ok:
  fixes rels :: "rel list" and endpoint :: nat
  defines "owners \<equiv> owner_list endpoint rels"
  assumes own: "\<And>i. i < length rels \<Longrightarrow> owners ! i < n" and m: "length rels < 2 ^ 32" "length relTypes = length rels"
    and deg: "n \<le> length deg" "\<And>u. u < n \<Longrightarrow> unat (deg ! u) = length (owned owners u)"
  shows "\<exists>offs nbrs types r2c. buildCSRDirection n rels relTypes deg endpoint = Some (offs, nbrs, types, r2c)
    \<and> length offs = n + 1 \<and> (\<forall>u \<le> n. unat (offs ! u) = csr_start owners u)
    \<and> nbrs = map (\<lambda>i. other_of endpoint (rels ! i)) (csr_order n owners)
    \<and> types = map ((!) relTypes) (csr_order n owners)
    \<and> length r2c = length rels \<and> (\<forall>i < length rels. unat (r2c ! i) = csr_pos owners i)"
proof -
  let ?m = "length rels"
  have len: "length owners = ?m" by (simp add: owners_def owner_list_def)
  have own': "\<And>i. i < length owners \<Longrightarrow> owners ! i < n" using own len by simp
  have tot: "csr_start owners n = ?m" using csr_start_total [of owners n, OF own'] len by simp
  obtain offs where offs: "csr_offsets n deg = Some offs" "length offs = n + 1" "\<And>u. u \<le> n \<Longrightarrow> unat (offs ! u) = csr_start owners u"
    using csr_offsets_ok [OF deg] tot m(1) by auto
  obtain st where st: "fold_opt (csr_place relTypes endpoint) (enumerate 0 rels)
       \<lparr>cs_nbrs = replicate ?m 0, cs_types = replicate ?m 0, cs_relToCSR = replicate ?m 0, cs_next = take n offs\<rparr> = Some st"
      "length (cs_nbrs st) = ?m" "length (cs_types st) = ?m" "length (cs_relToCSR st) = ?m"
      "\<And>i. i < ?m \<Longrightarrow> cs_nbrs st ! csr_pos owners i = other_of endpoint (rels ! i)
        \<and> cs_types st ! csr_pos owners i = relTypes ! i \<and> unat (cs_relToCSR st ! i) = csr_pos owners i"
    using csr_place_all [of rels endpoint n relTypes "take n offs"] own m offs(2,3) unfolding owners_def by auto
  have olen: "length (csr_order n owners) = ?m" using tot by (simp add: length_csr_order)
  have at: "csr_order n owners ! p < ?m" "csr_pos owners (csr_order n owners ! p) = p" if "p < ?m" for p
    using csr_pos_bij(3) [OF own'] that len by auto
  have "cs_nbrs st ! p = other_of endpoint (rels ! (csr_order n owners ! p))" "cs_types st ! p = relTypes ! (csr_order n owners ! p)"
    if "p < ?m" for p using st(5) [OF at(1) [OF that]] at(2) [OF that] by auto
  then have "cs_nbrs st = map (\<lambda>i. other_of endpoint (rels ! i)) (csr_order n owners)"
    "cs_types st = map ((!) relTypes) (csr_order n owners)"
    using st(2,3) olen by (auto intro: nth_equalityI)
  then show ?thesis using offs st by (auto simp: buildCSRDirection_def Let_def)
qed

text \<open>A node's range in the result is its relationships.\<close>

lemma csr_order_slice:
  "u < n \<Longrightarrow> take (csr_start owners (Suc u) - csr_start owners u) (drop (csr_start owners u) (csr_order n owners)) = owned owners u"
proof -
  assume "u < n"
  then have "[0..<n] = [0..<u] @ u # [Suc u..<n]"
    using upt_add_eq_append [of 0 u "n - u"] by (simp add: upt_conv_Cons)
  then have "csr_order n owners = csr_order u owners @ owned owners u @ concat (map (owned owners) [Suc u..<n])"
    by (simp add: csr_order_def)
  then show ?thesis using length_csr_order [of u owners] by simp
qed

section \<open>Rows laid out one after the other\<close>

definition starts :: "(nat \<Rightarrow> 'a list) \<Rightarrow> nat \<Rightarrow> nat" where
  "starts f u = (\<Sum>v < u. length (f v))"

lemma starts_Suc [simp]: "starts f 0 = 0" "starts f (Suc u) = starts f u + length (f u)"
  by (simp_all add: starts_def)

lemma starts_mono: "u \<le> v \<Longrightarrow> starts f u \<le> starts f v"
  unfolding starts_def by (intro sum_mono2) auto

lemma length_rows: "length (concat (map f [0..<n])) = starts f n"
  by (induction n) simp_all

lemma rows_slice:
  assumes "u < n"
  shows "take (starts f (Suc u) - starts f u) (drop (starts f u) (concat (map f [0..<n]))) = f u"
proof -
  have "[0..<n] = [0..<u] @ u # [Suc u..<n]"
    using upt_add_eq_append [of 0 u "n - u"] assms by (simp add: upt_conv_Cons)
  then have "concat (map f [0..<n]) = concat (map f [0..<u]) @ f u @ concat (map f [Suc u..<n])" by simp
  then show ?thesis using length_rows [of f u] by simp
qed

text \<open>A well-formed direction of a CSR.\<close>

definition csr_wf :: "u32 list \<Rightarrow> NodeID list \<Rightarrow> relTypes \<Rightarrow> bool" where
  "csr_wf offsets nbrs types \<longleftrightarrow> offsets \<noteq> [] \<and> sorted (map unat offsets) \<and> unat (last offsets) = length nbrs
    \<and> relTypes_Len types = length nbrs \<and> length nbrs < 2 ^ 32 \<and> length offsets \<le> 2 ^ 32 \<and> rt_wf types"

lemma csr_wf_range:
  assumes "csr_wf offsets nbrs types" "u + 1 < length offsets"
  shows "unat (offsets ! u) \<le> unat (offsets ! (u + 1))" "unat (offsets ! (u + 1)) \<le> length nbrs"
proof -
  let ?o = "map unat offsets"
  have s: "sorted ?o" using assms(1) by (simp add: csr_wf_def)
  show "unat (offsets ! u) \<le> unat (offsets ! (u + 1))" using sorted_nth_mono [OF s, of u "u + 1"] assms(2) by simp
  have "unat (offsets ! (u + 1)) \<le> unat (offsets ! (length offsets - 1))"
    using sorted_nth_mono [OF s, of "u + 1" "length offsets - 1"] assms(2) by simp
  also have "\<dots> = length nbrs" using assms by (auto simp: csr_wf_def last_conv_nth)
  finally show "unat (offsets ! (u + 1)) \<le> length nbrs" .
qed

text \<open>The positions of type \<open>t\<close> in a node's range, none outside the id space.\<close>

definition typed_ks :: "u32 list \<Rightarrow> relTypes \<Rightarrow> RelType \<Rightarrow> nat \<Rightarrow> nat list" where
  "typed_ks offsets types t u =
     (if u + 1 < length offsets then filter (\<lambda>k. rt_list types ! k = t) [unat (offsets ! u)..<unat (offsets ! (u + 1))] else [])"

definition typed_rows :: "u32 list \<Rightarrow> NodeID list \<Rightarrow> relTypes \<Rightarrow> u32 list \<Rightarrow> RelType \<Rightarrow> nat \<Rightarrow> (NodeID \<times> u32) list" where
  "typed_rows offsets nbrs types posMap t u = map (\<lambda>k. (nbrs ! k, read_pos posMap k)) (typed_ks offsets types t u)"

lemma typed_row_ok:
  assumes wf: "csr_wf offsets nbrs types" and u: "u + 1 < length offsets"
  shows "typed_row nbrs types posMap t (unat (offsets ! u)) (unat (offsets ! (u + 1)))
    = Some (typed_rows offsets nbrs types posMap t u)"
proof -
  let ?lo = "unat (offsets ! u)" and ?hi = "unat (offsets ! (u + 1))"
  let ?f = "\<lambda>k acc. do { x \<leftarrow> relTypes_At types (of_nat k);
         if x = t then map_option (\<lambda>nb. acc @ [(nb, read_pos posMap k)]) (slice_at nbrs k) else Some acc }"
  have fold: "fold_opt ?f ks acc = Some (acc @ map (\<lambda>k. (nbrs ! k, read_pos posMap k)) (filter (\<lambda>k. rt_list types ! k = t) ks))"
    if "\<forall>k \<in> set ks. k < length nbrs" for ks acc
    using that
  proof (induction ks arbitrary: acc)
    case (Cons k ks)
    have k: "k < length nbrs" "relTypes_Len types = length nbrs" "length nbrs < 2 ^ 32" "rt_wf types"
      using Cons.prems wf by (auto simp: csr_wf_def)
    then have "unat (of_nat k :: u32) = k" by (intro unat_of_nat_less) simp
    then have "relTypes_At types (of_nat k) = Some (rt_list types ! k)" using k by (simp add: relTypes_At_ok)
    then show ?case using Cons k(1) by simp
  qed simp
  show ?thesis unfolding typed_row_def typed_rows_def typed_ks_def
    using fold [of "[?lo..<?hi]" "[]"] csr_wf_range(2) [OF assms] u by simp
qed

lemma typed_ks_length: "length (typed_ks offsets types t u) \<le> (if u + 1 < length offsets then unat (offsets ! (u + 1)) - unat (offsets ! u) else 0)"
  using length_filter_le [of "\<lambda>k. rt_list types ! k = t" "[unat (offsets ! u)..<unat (offsets ! (u + 1))]"] by (simp add: typed_ks_def)

lemma typed_total:
  assumes wf: "csr_wf offsets nbrs types" and n: "n < length offsets"
  shows "starts (typed_rows offsets nbrs types posMap t) n \<le> unat (offsets ! n)"
  using n
proof (induction n)
  case (Suc n)
  have "length (typed_rows offsets nbrs types posMap t n) \<le> unat (offsets ! (n + 1)) - unat (offsets ! n)"
    using typed_ks_length [of offsets types t n] Suc.prems by (simp add: typed_rows_def)
  then show ?case using Suc csr_wf_range(1) [OF wf, of n] by simp
qed simp

text \<open>The typed CSR: its rows are the typed rows.\<close>

lemma buildTypedCSR_ok:
  assumes wf: "csr_wf offsets nbrs types"
  shows "\<exists>tc. buildTypedCSR offsets nbrs types posMap t = Some tc \<and> length (tc_offsets tc) = length offsets
    \<and> (\<forall>u < length offsets. unat (tc_offsets tc ! u) = starts (typed_rows offsets nbrs types posMap t) u)
    \<and> tc_nbrs tc = map fst (concat (map (typed_rows offsets nbrs types posMap t) [0..<length offsets - 1]))
    \<and> tc_poss tc = map snd (concat (map (typed_rows offsets nbrs types posMap t) [0..<length offsets - 1]))"
proof -
  let ?n = "length offsets - 1" and ?R = "typed_rows offsets nbrs types posMap t"
  have ne: "length offsets = ?n + 1" using wf by (auto simp: csr_wf_def)
  have small: "starts ?R u < 2 ^ 32" if "u \<le> ?n" for u
  proof -
    have "starts ?R u \<le> unat (offsets ! u)" using typed_total [OF wf] that ne by simp
    also have "\<dots> < 2 ^ 32" by (rule unat_u32)
    finally show ?thesis .
  qed
  let ?f = "\<lambda>u tc. do {
              row \<leftarrow> typed_row nbrs types posMap t (unat (offsets ! u)) (unat (offsets ! (u + 1)));
              Some (tc\<lparr>tc_offsets := (tc_offsets tc)[u := of_nat (length (tc_nbrs tc))],
                       tc_nbrs := tc_nbrs tc @ map fst row, tc_poss := tc_poss tc @ map snd row\<rparr>) }"
  let ?P = "\<lambda>k tc. length (tc_offsets tc) = ?n + 1 \<and> (\<forall>u < k. unat (tc_offsets tc ! u) = starts ?R u)
    \<and> tc_nbrs tc = map fst (concat (map ?R [0..<k])) \<and> tc_poss tc = map snd (concat (map ?R [0..<k]))"
  have "\<exists>tc. fold_opt ?f [0..<?n] \<lparr>tc_offsets = replicate (?n + 1) 0, tc_nbrs = [], tc_poss = []\<rparr> = Some tc
      \<and> ?P (length [0..<?n]) tc"
  proof (rule fold_opt_rule [where P = ?P])
    fix k and tc :: typedCSR assume "k < length [0..<?n]" and P: "?P k tc"
    then have k: "k < ?n" by simp
    have len: "length (tc_nbrs tc) = starts ?R k" using P by (simp add: length_rows)
    have un: "unat (of_nat (starts ?R k) :: u32) = starts ?R k" using small [of k] k by (intro unat_of_nat_less) simp
    have row: "typed_row nbrs types posMap t (unat (offsets ! k)) (unat (offsets ! (k + 1))) = Some (?R k)"
      using k ne by (intro typed_row_ok [OF wf]) simp
    show "\<exists>tc'. ?f ([0..<?n] ! k) tc = Some tc' \<and> ?P (Suc k) tc'"
      using P k row len un by (auto simp: nth_list_update less_Suc_eq)
  qed simp
  then obtain tc where tc: "fold_opt ?f [0..<?n] \<lparr>tc_offsets = replicate (?n + 1) 0, tc_nbrs = [], tc_poss = []\<rparr> = Some tc"
      "length (tc_offsets tc) = ?n + 1" "\<And>u. u < ?n \<Longrightarrow> unat (tc_offsets tc ! u) = starts ?R u"
      "tc_nbrs tc = map fst (concat (map ?R [0..<?n]))" "tc_poss tc = map snd (concat (map ?R [0..<?n]))" by auto
  have len: "length (tc_nbrs tc) = starts ?R ?n" using tc(4) by (simp add: length_rows)
  have un: "unat (of_nat (starts ?R ?n) :: u32) = starts ?R ?n" using small [of ?n] by (intro unat_of_nat_less) simp
  let ?tc = "tc\<lparr>tc_offsets := (tc_offsets tc)[?n := of_nat (length (tc_nbrs tc))]\<rparr>"
  have "buildTypedCSR offsets nbrs types posMap t = Some ?tc"
  proof -
    have "length offsets \<noteq> 0" using wf by (simp add: csr_wf_def)
    then show ?thesis unfolding buildTypedCSR_def Let_def by (subst tc(1)) simp
  qed
  moreover have "unat (tc_offsets ?tc ! u) = starts ?R u" if "u < length offsets" for u
    using tc(2,3) len un that ne by (cases "u = ?n") auto
  ultimately show ?thesis using tc(2,4,5) ne by (intro exI [of _ ?tc]) simp
qed

lemma slice_in_rows:
  assumes "length offs = n + 1" "\<And>u. u \<le> n \<Longrightarrow> unat (offs ! u) = starts f u" "relRange offs node = (lo, hi)"
    and "\<And>u. n \<le> u \<Longrightarrow> f u = []"
  shows "lo \<le> hi \<and> hi \<le> starts f n \<and> take (hi - lo) (drop lo (concat (map f [0..<n]))) = f (unat node)"
proof (cases "unat node < n")
  case True
  then have "lo = starts f (unat node)" "hi = starts f (Suc (unat node))"
    using assms(1,3) assms(2) [of "unat node"] assms(2) [of "Suc (unat node)"] by (auto simp: relRange_def Let_def)
  then show ?thesis using True rows_slice [of "unat node" n f] starts_mono [of "Suc (unat node)" n f] by simp
next
  case False
  then show ?thesis using assms(1,3,4) by (auto simp: relRange_def Let_def)
qed


section \<open>The run view\<close>

lemma fold_slice_set:
  fixes h :: "'a list"
  assumes "c \<le> length h"
  shows "\<exists>h'. fold_opt (\<lambda>b h. slice_set h b v) [a..<c] h = Some h' \<and> length h' = length h
    \<and> (\<forall>b < length h. h' ! b = (if a \<le> b \<and> b < c then v else h ! b))"
proof -
  let ?P = "\<lambda>k h'. length h' = length h \<and> (\<forall>b < length h. h' ! b = (if a \<le> b \<and> b < a + k then v else h ! b))"
  have "\<exists>h'. fold_opt (\<lambda>b h. slice_set h b v) [a..<c] h = Some h' \<and> ?P (length [a..<c]) h'"
  proof (rule fold_opt_rule [where P = ?P])
    fix k and h' :: "'a list" assume "k < length [a..<c]" and P: "?P k h'"
    then have k: "k < c - a" by simp
    have "slice_set h' ([a..<c] ! k) v = Some (h'[a + k := v])" using P k assms by simp
    moreover have "?P (Suc k) (h'[a + k := v])" using P by (auto simp: nth_list_update less_Suc_eq)
    ultimately show "\<exists>h''. slice_set h' ([a..<c] ! k) v = Some h'' \<and> ?P (Suc k) h''" by blast
  qed auto
  then show ?thesis by (cases "a \<le> c") auto
qed

text \<open>
  The owner array of rows laid out one after the other: the entry at \<open>i\<close> lies before node \<open>x\<close>
  exactly when \<open>i\<close> is below \<open>x\<close>'s start.
\<close>

definition owner_array :: "(nat \<Rightarrow> 'a list) \<Rightarrow> nat \<Rightarrow> u32 list" where
  "owner_array f n = concat (map (\<lambda>u. replicate (length (f u)) (of_nat u)) [0..<n])"

lemma length_owner_array: "length (owner_array f n) = starts f n"
  by (induction n) (simp_all add: owner_array_def)

lemma owner_array_less:
  assumes "n \<le> 2 ^ 32" "i < starts f n"
  shows "unat (owner_array f n ! i) < x \<longleftrightarrow> i < starts f x" "unat (owner_array f n ! i) < n"
proof -
  have "\<exists>u < n. starts f u \<le> i \<and> i < starts f (Suc u) \<and> unat (owner_array f n ! i) = u"
    using assms
  proof (induction n)
    case (Suc n)
    have sp: "owner_array f (Suc n) = owner_array f n @ replicate (length (f n)) (of_nat n)" by (simp add: owner_array_def)
    show ?case
    proof (cases "i < starts f n")
      case True
      then obtain u where "u < n" "starts f u \<le> i" "i < starts f (Suc u)" "unat (owner_array f n ! i) = u"
        using Suc by auto
      then show ?thesis using True by (intro exI [of _ u]) (simp add: sp nth_append length_owner_array)
    next
      case False
      moreover have "unat (of_nat n :: u32) = n" using Suc.prems by (intro unat_of_nat_less) simp
      ultimately show ?thesis using Suc.prems by (intro exI [of _ n]) (auto simp: sp nth_append length_owner_array)
    qed
  qed simp
  then obtain u where u: "u < n" "starts f u \<le> i" "i < starts f (Suc u)" "unat (owner_array f n ! i) = u" by blast
  have "i < starts f x" if "u < x" using starts_mono [of "Suc u" x f] that u(3) by simp
  moreover have "\<not> i < starts f x" if "\<not> u < x" using starts_mono [of x u f] that u(2) by simp
  ultimately show "unat (owner_array f n ! i) < x \<longleftrightarrow> i < starts f x" using u(4) by blast
  show "unat (owner_array f n ! i) < n" using u(1,4) by simp
qed

lemma owned_count: "length (owned (owner_list e rels) u) = length (filter (\<lambda>r. unat (owner_of e r) = u) rels)"
proof -
  have "filter (\<lambda>r. unat (owner_of e r) = u) rels = map ((!) rels) (owned (owner_list e rels) u)"
    using filter_map [of "\<lambda>r. unat (owner_of e r) = u" "(!) rels" "[0..<length rels]"] map_nth [of rels]
    by (auto simp: owned_def owner_list_def comp_def intro!: arg_cong [where f = "map _"] filter_cong)
  then show ?thesis by simp
qed

text \<open>The hint: one start per 64 nodes.\<close>

lemma hint_ok:
  fixes f :: "nat \<Rightarrow> 'a list" and n :: nat
  defines "nodes \<equiv> owner_array f n"
  assumes n: "n \<le> 2 ^ 32" and m: "starts f n < 2 ^ 32" and past: "\<And>x. starts f x \<le> starts f n"
  shows "\<exists>hint bi hint'. fold_opt hint_step (enumerate 0 nodes) (replicate (n div 64 + 2) 0, 0) = Some (hint, bi)
    \<and> fold_opt (\<lambda>b h. slice_set h b (of_nat (length nodes))) [bi..<length hint] hint = Some hint'
    \<and> length hint' = n div 64 + 2 \<and> (\<forall>b < n div 64 + 2. unat (hint' ! b) = starts f (64 * b))"
proof -
  let ?L = "n div 64 + 2"
  let ?P = "\<lambda>k (hint, bi). length hint = ?L \<and> bi \<le> ?L \<and> (\<forall>b < bi. unat (hint ! b) = starts f (64 * b)) \<and> (\<forall>b \<ge> bi. k \<le> starts f (64 * b))"
  have "\<exists>st. fold_opt hint_step (enumerate 0 nodes) (replicate ?L 0, 0) = Some st \<and> ?P (length (enumerate 0 nodes)) st"
  proof (rule fold_opt_rule [where P = ?P])
    fix k and st :: "u32 list \<times> nat" assume "k < length (enumerate 0 nodes)" and P: "?P k st"
    then have k: "k < starts f n" by (simp add: nodes_def length_owner_array)
    obtain hint bi where st: "st = (hint, bi)" by (cases st)
    obtain ow q where ow: "unat (nodes ! k) = ow" and q: "ow div 64 = q" by blast
    have own: "ow < x \<longleftrightarrow> k < starts f x" "ow < n" for x using owner_array_less [OF n k] ow by (simp_all add: nodes_def)
    have lt: "64 * b \<le> ow \<longleftrightarrow> b < q + 1" for b using q by auto
    have top: "q + 1 \<le> ?L" using own(2) q by (auto intro: div_le_mono)
    obtain h where h: "fold_opt (\<lambda>b h. slice_set h b (of_nat k)) [bi..<q + 1] hint = Some h" "length h = ?L"
        "\<And>b. b < ?L \<Longrightarrow> h ! b = (if bi \<le> b \<and> b < q + 1 then of_nat k else hint ! b)"
      using fold_slice_set [where h = hint and c = "q + 1" and a = bi and v = "of_nat k"] P st top by auto
    have step: "hint_step (enumerate 0 nodes ! k) st = Some (h, max bi (q + 1))"
      using h(1) k st ow q by (simp add: hint_step_def runHintShift_def nth_enumerate_eq nodes_def length_owner_array del: upt_Suc)
    have un: "unat (of_nat k :: u32) = k" using k m by (intro unat_of_nat_less) simp
    have "unat (h ! b) = starts f (64 * b)" if b: "b < max bi (q + 1)" for b
    proof (cases "b < bi")
      case False
      then have "k \<le> starts f (64 * b)" "b < q + 1" using P st b by auto
      then have "starts f (64 * b) = k" using own(1) [of "64 * b"] lt [of b] by auto
      then show ?thesis using h(3) [of b] False \<open>b < q + 1\<close> top un by simp
    qed (use P st h(3) top in auto)
    moreover have "Suc k \<le> starts f (64 * b)" if b: "b \<ge> max bi (q + 1)" for b
      using own(1) [of "64 * b"] lt [of b] b by auto
    ultimately have "?P (Suc k) (h, max bi (q + 1))" using h(2) top P st by auto
    then show "\<exists>st'. hint_step (enumerate 0 nodes ! k) st = Some st' \<and> ?P (Suc k) st'" using step by blast
  qed simp
  then obtain hint bi where hb: "fold_opt hint_step (enumerate 0 nodes) (replicate ?L 0, 0) = Some (hint, bi)"
      "length hint = ?L" "bi \<le> ?L" "\<And>b. b < bi \<Longrightarrow> unat (hint ! b) = starts f (64 * b)"
      "\<And>b. b \<ge> bi \<Longrightarrow> length nodes \<le> starts f (64 * b)" by auto
  obtain h where h: "fold_opt (\<lambda>b h. slice_set h b (of_nat (length nodes))) [bi..<length hint] hint = Some h" "length h = ?L"
      "\<And>b. b < ?L \<Longrightarrow> h ! b = (if bi \<le> b \<and> b < length hint then of_nat (length nodes) else hint ! b)"
    using fold_slice_set [where h = hint and c = "length hint" and a = bi and v = "of_nat (length nodes)"] hb(2) by auto
  have len: "length nodes = starts f n" by (simp add: nodes_def length_owner_array)
  have un: "unat (of_nat (length nodes) :: u32) = starts f n" using m len by (simp add: unat_of_nat_less)
  have "unat (h ! b) = starts f (64 * b)" if "b < ?L" for b
    using h(3) [OF that] hb(2,4) hb(5) [of b] past [of "64 * b"] un len that by (cases "b < bi") auto
  then show ?thesis using hb(1) h by blast
qed

lemma buildTypedRuns_ok:
  fixes posMap :: "u32 list" and t :: RelType
  assumes wf: "csr_wf offsets nbrs types"
  defines "f \<equiv> typed_rows offsets nbrs types posMap t" and "n \<equiv> length offsets - 1"
  shows "\<exists>r. buildTypedRuns offsets nbrs types posMap t = Some r
    \<and> tr_nodes r = owner_array f n \<and> tr_nbrs r = map fst (concat (map f [0..<n])) \<and> tr_poss r = map snd (concat (map f [0..<n]))
    \<and> length (tr_hint r) = n div 64 + 2 \<and> (\<forall>b < n div 64 + 2. unat (tr_hint r ! b) = starts f (64 * b))"
proof -
  have ne: "length offsets = n + 1" using wf by (auto simp: csr_wf_def n_def)
  let ?f = "\<lambda>u r. do {
            row \<leftarrow> typed_row nbrs types posMap t (unat (offsets ! u)) (unat (offsets ! (u + 1)));
            Some (r\<lparr>tr_nodes := tr_nodes r @ replicate (length row) (of_nat u),
                    tr_nbrs := tr_nbrs r @ map fst row, tr_poss := tr_poss r @ map snd row\<rparr>) }"
  let ?P = "\<lambda>k r. tr_nodes r = owner_array f k \<and> tr_nbrs r = map fst (concat (map f [0..<k])) \<and> tr_poss r = map snd (concat (map f [0..<k]))"
  have "\<exists>r. fold_opt ?f [0..<n] \<lparr>tr_nodes = [], tr_nbrs = [], tr_poss = [], tr_hint = []\<rparr> = Some r \<and> ?P (length [0..<n]) r"
  proof (rule fold_opt_rule [where P = ?P])
    fix k and r :: typedRuns assume "k < length [0..<n]" and P: "?P k r"
    then have k: "k < n" by simp
    have "typed_row nbrs types posMap t (unat (offsets ! k)) (unat (offsets ! (k + 1))) = Some (f k)"
      using k ne unfolding f_def by (intro typed_row_ok [OF wf]) simp
    then show "\<exists>r'. ?f ([0..<n] ! k) r = Some r' \<and> ?P (Suc k) r'" using P k by (simp add: owner_array_def)
  qed (simp add: owner_array_def)
  then obtain r where r: "fold_opt ?f [0..<n] \<lparr>tr_nodes = [], tr_nbrs = [], tr_poss = [], tr_hint = []\<rparr> = Some r" "?P n r" by auto
  have "starts f n \<le> unat (offsets ! n)" using typed_total [OF wf] ne by (simp add: f_def)
  then have m: "starts f n < 2 ^ 32" using unat_u32 [of "offsets ! n"] by simp
  have "starts f x \<le> starts f n" for x
  proof (cases "x \<le> n")
    case False
    have "starts f (n + d) = starts f n" for d by (induction d) (use ne in \<open>simp_all add: f_def typed_rows_def typed_ks_def\<close>)
    from this [of "x - n"] show ?thesis using False by simp
  qed (rule starts_mono)
  then obtain hint bi hint' where h: "fold_opt hint_step (enumerate 0 (owner_array f n)) (replicate (n div 64 + 2) 0, 0) = Some (hint, bi)"
      "fold_opt (\<lambda>b h. slice_set h b (of_nat (length (owner_array f n)))) [bi..<length hint] hint = Some hint'"
      "length hint' = n div 64 + 2" "\<forall>b < n div 64 + 2. unat (hint' ! b) = starts f (64 * b)"
    using hint_ok [of n f] m ne wf by (auto simp: csr_wf_def)
  have "buildTypedRuns offsets nbrs types posMap t = Some (r\<lparr>tr_hint := hint'\<rparr>)"
    unfolding buildTypedRuns_def Let_def n_def [symmetric] runHintShift_def
    using r h(1,2) by simp
  then show ?thesis using r(2) h(3,4) by simp
qed

lemma runRange_ok:
  fixes f :: "nat \<Rightarrow> 'a list" and node :: NodeID
  assumes n: "n \<le> 2 ^ 32" and past: "\<And>x. n \<le> x \<Longrightarrow> f x = []"
    and r: "tr_nodes r = owner_array f n" "length (tr_hint r) = n div 64 + 2" "\<And>b. b < n div 64 + 2 \<Longrightarrow> unat (tr_hint r ! b) = starts f (64 * b)"
  shows "\<exists>lo hi. runRange r node = Some (lo, hi) \<and> lo \<le> hi \<and> hi \<le> starts f n
    \<and> take (hi - lo) (drop lo (concat (map f [0..<n]))) = f (unat node)"
proof -
  obtain x b where x: "unat node = x" and b: "x div 64 = b" by blast
  have bx: "64 * b \<le> x" "x < 64 * (b + 1)" using b by auto
  have top: "starts f y \<le> starts f n" for y
  proof (cases "y \<le> n")
    case False
    have "starts f (n + d) = starts f n" for d by (induction d) (simp_all add: past)
    from this [of "y - n"] show ?thesis using False by simp
  qed (rule starts_mono)
  show ?thesis
  proof (cases "b + 1 \<ge> n div 64 + 2")
    case True
    obtain q where q: "n div 64 = q" "n < 64 * (q + 1)" by (simp add: dividend_less_times_div)
    then have "64 * (q + 1) \<le> 64 * b" using True by (intro mult_le_mono2) simp
    then have "n \<le> x" using q(2) bx(1) by linarith
    then show ?thesis using True r(2) x b past [of x] by (intro exI [of _ 0]) (simp add: runRange_def runHintShift_def)
  next
    case False
    let ?lo0 = "starts f (64 * b)" and ?hi0 = "starts f (64 * (b + 1))"
    have le: "?lo0 \<le> starts f x" "starts f x \<le> starts f (Suc x)" "starts f (Suc x) \<le> ?hi0" "?hi0 \<le> starts f n"
      using bx top by (auto intro!: starts_mono simp del: starts_Suc)
    have cmp: "owner_array f n ! i < node \<longleftrightarrow> i < starts f x" "owner_array f n ! i = node \<longleftrightarrow> starts f x \<le> i \<and> i < starts f (Suc x)"
      if "i < starts f n" for i
      using owner_array_less(1) [OF n that, of x] owner_array_less(1) [OF n that, of "Suc x"] x
      by (auto simp: word_less_nat_alt word_unat_eq_iff simp del: starts_Suc)
    have se: "Search (?hi0 - ?lo0) (\<lambda>i. \<not> owner_array f n ! (?lo0 + i) < node) = starts f x - ?lo0"
      by (rule Search_eqI) (use le cmp(1) in auto)
    have run: "takeWhile (\<lambda>k. owner_array f n ! k = node) [starts f x..<?hi0] = [starts f x..<starts f (Suc x)]"
    proof -
      have "[starts f x..<?hi0] = [starts f x..<starts f (Suc x)] @ [starts f (Suc x)..<?hi0]"
        using upt_add_eq_append [of "starts f x" "starts f (Suc x)" "?hi0 - starts f (Suc x)"] le by (simp del: starts_Suc)
      moreover have "takeWhile (\<lambda>k. owner_array f n ! k = node) [starts f (Suc x)..<?hi0] = []"
        using le cmp(2) [of "starts f (Suc x)"] by (cases "starts f (Suc x) < ?hi0") (simp_all add: upt_conv_Cons del: starts_Suc)
      moreover have "\<forall>k \<in> set [starts f x..<starts f (Suc x)]. owner_array f n ! k = node" using le cmp(2) by (auto simp del: starts_Suc)
      ultimately show ?thesis using takeWhile_append2 [of "[starts f x..<starts f (Suc x)]" "\<lambda>k. owner_array f n ! k = node"] by simp
    qed
    have hb: "unat (tr_hint r ! b) = ?lo0" "unat (tr_hint r ! Suc b) = ?hi0" using r(3) False by auto
    have "runRange r node = Some (starts f x, starts f (Suc x))"
      using False le se run by (simp add: runRange_def runHintShift_def x b r(1,2) hb Let_def length_owner_array del: starts_Suc mult_Suc_right)
    moreover have "take (starts f (Suc x) - starts f x) (drop (starts f x) (concat (map f [0..<n]))) = f x"
      using rows_slice [of x n f] past [of x] by (cases "x < n") auto
    ultimately show ?thesis using le x by (intro exI [of _ "starts f x"] exI [of _ "starts f (Suc x)"]) (simp del: starts_Suc)
  qed
qed

section \<open>What the adjacency guarantees\<close>

definition slice_of :: "'a list \<Rightarrow> nat \<times> nat \<Rightarrow> 'a list" where
  "slice_of xs = (\<lambda>(lo, hi). take (hi - lo) (drop lo xs))"

lemma owned_rels:
  assumes "length relTypes = length rels"
  shows "map (\<lambda>i. (other_of e (rels ! i), relTypes ! i)) (owned (owner_list e rels) (unat u))
    = map (\<lambda>(r, t). (other_of e r, t)) (filter (\<lambda>(r, t). owner_of e r = u) (zip rels relTypes))"
proof -
  have z: "zip rels relTypes = map (\<lambda>i. (rels ! i, relTypes ! i)) [0..<length rels]"
    using assms by (auto intro: nth_equalityI)
  have "owned (owner_list e rels) (unat u) = filter (\<lambda>i. owner_of e (rels ! i) = u) [0..<length rels]"
    unfolding owned_def by (intro filter_cong) (auto simp: owner_list_def word_unat_eq_iff)
  then show ?thesis unfolding z filter_map by (simp add: comp_def)
qed

text \<open>
  C19: the counting sort is correct. Given relationships inside the id space, fewer than \<open>2 ^ 32\<close> of
  them, one type each, and the degree array the builder keeps for the chosen endpoint,
  \<open>buildCSRDirection\<close> does not panic; each node's range lists exactly its relationships' other
  endpoints and types, in insertion order; \<open>relToCSR\<close> gives each relationship the position where its
  entry lies, and no two relationships share a position.
\<close>

theorem buildCSRDirection_correct:
  assumes "\<forall>r \<in> set rels. unat (owner_of endpoint r) < n" "length rels < 2 ^ 32" "length relTypes = length rels"
    "n \<le> length deg" "\<forall>u < n. unat (deg ! u) = length (filter (\<lambda>r. unat (owner_of endpoint r) = u) rels)"
  shows "case buildCSRDirection n rels relTypes deg endpoint of
      None \<Rightarrow> False
    | Some (offs, nbrs, types, relToCSR) \<Rightarrow>
        (\<forall>node. slice_of (zip nbrs types) (relRange offs node)
          = map (\<lambda>(r, t). (other_of endpoint r, t)) (filter (\<lambda>(r, t). owner_of endpoint r = node) (zip rels relTypes)))
        \<and> map (\<lambda>p. (nbrs ! unat p, types ! unat p)) relToCSR = map (\<lambda>(r, t). (other_of endpoint r, t)) (zip rels relTypes)
        \<and> distinct relToCSR \<and> length nbrs = length rels"
proof -
  let ?ow = "owner_list endpoint rels" and ?m = "length rels"
  have own: "\<And>i. i < ?m \<Longrightarrow> ?ow ! i < n" using assms(1) by (auto simp: owner_list_def)
  have own': "\<And>i. i < length ?ow \<Longrightarrow> ?ow ! i < n" using own by (simp add: owner_list_def)
  have deg: "unat (deg ! u) = length (owned ?ow u)" if "u < n" for u using assms(5) that by (simp add: owned_count)
  obtain offs nbrs types r2c where b: "buildCSRDirection n rels relTypes deg endpoint = Some (offs, nbrs, types, r2c)"
      "length offs = n + 1" "\<And>u. u \<le> n \<Longrightarrow> unat (offs ! u) = csr_start ?ow u"
      "nbrs = map (\<lambda>i. other_of endpoint (rels ! i)) (csr_order n ?ow)" "types = map ((!) relTypes) (csr_order n ?ow)"
      "length r2c = ?m" "\<And>i. i < ?m \<Longrightarrow> unat (r2c ! i) = csr_pos ?ow i"
    using buildCSRDirection_ok [of rels endpoint n relTypes deg, OF own assms(2,3,4) deg] by blast
  have z: "zip nbrs types = map (\<lambda>i. (other_of endpoint (rels ! i), relTypes ! i)) (csr_order n ?ow)"
    by (simp add: b(4,5) zip_map_map zip_same_conv_map)
  have slice: "slice_of (zip nbrs types) (relRange offs node)
      = map (\<lambda>(r, t). (other_of endpoint r, t)) (filter (\<lambda>(r, t). owner_of endpoint r = node) (zip rels relTypes))" for node
  proof (cases "unat node < n")
    case True
    then have "relRange offs node = (csr_start ?ow (unat node), csr_start ?ow (Suc (unat node)))"
      using b(2) b(3) [of "unat node"] b(3) [of "Suc (unat node)"] by (simp add: relRange_def Let_def del: csr_start_Suc)
    then show ?thesis using csr_order_slice [OF True, of ?ow] owned_rels [OF assms(3), of endpoint node]
      by (simp add: z slice_of_def flip: drop_map take_map del: csr_start_Suc) (simp add: drop_map take_map del: csr_start_Suc)
  next
    case False
    have "filter (\<lambda>(r, t). owner_of endpoint r = node) (zip rels relTypes) = []"
      using assms(1) False by (auto simp: filter_empty_conv dest: set_zip_leftD)
    then show ?thesis using False b(2) by (simp add: relRange_def slice_of_def)
  qed
  have olen: "length (csr_order n ?ow) = ?m"
    using csr_start_total [OF own'] by (simp add: length_csr_order owner_list_def)
  have pos: "csr_pos ?ow i < ?m" if "i < ?m" for i
    using csr_pos_bij(1) [OF own'] that by (auto simp: bij_betw_def owner_list_def)
  have "map (\<lambda>p. (nbrs ! unat p, types ! unat p)) r2c = map (\<lambda>(r, t). (other_of endpoint r, t)) (zip rels relTypes)"
    using b(4,5,6,7) olen pos csr_order_pos(1) [of _ ?ow n] own assms(3)
    by (intro nth_equalityI) (simp_all add: owner_list_def)
  moreover have "distinct r2c"
  proof -
    have "inj_on (csr_pos ?ow) {..<?m}" using csr_pos_bij(1) [OF own'] by (simp add: bij_betw_def owner_list_def)
    then have "i = j" if "i < ?m" "j < ?m" "r2c ! i = r2c ! j" for i j
      using that b(7) [of i] b(7) [of j] by (simp add: inj_on_def)
    then show ?thesis using b(6) by (auto simp: distinct_conv_nth)
  qed
  ultimately show ?thesis using b(1,4) olen slice by simp
qed

theorem buildCSRDirection_correct_witness:
  "case buildCSRDirection 3 [(0, 1), (2, 0), (0, 2)] [7, 8, 9] [2, 0, 1] 0 of
      None \<Rightarrow> False
    | Some (offs, nbrs, types, relToCSR) \<Rightarrow>
        (\<forall>node. slice_of (zip nbrs types) (relRange offs node)
          = map (\<lambda>(r, t). (other_of 0 r, t)) (filter (\<lambda>(r, t). owner_of 0 r = node) (zip [(0, 1), (2, 0), (0, 2)] [7, 8, 9])))
        \<and> map (\<lambda>p. (nbrs ! unat p, types ! unat p)) relToCSR = map (\<lambda>(r, t). (other_of 0 r, t)) (zip [(0, 1), (2, 0), (0, 2)] [7, 8, 9])
        \<and> distinct relToCSR \<and> length nbrs = length [(0 :: NodeID, 1 :: NodeID), (2, 0), (0, 2)]"
  by (rule buildCSRDirection_correct) (simp_all add: owner_of_def numeral_3_eq_3 less_Suc_eq all_conj_distrib)

lemma typed_csr_slice:
  assumes "csr_wf offsets nbrs types"
  shows "\<exists>tc. buildTypedCSR offsets nbrs types posMap t = Some tc \<and> length (tc_poss tc) = length (tc_nbrs tc)
    \<and> (\<forall>node. \<exists>lo hi. relRange (tc_offsets tc) node = (lo, hi) \<and> lo \<le> hi \<and> hi \<le> length (tc_nbrs tc)
        \<and> slice_of (zip (tc_nbrs tc) (tc_poss tc)) (lo, hi) = typed_rows offsets nbrs types posMap t (unat node))"
proof -
  let ?f = "typed_rows offsets nbrs types posMap t" and ?n = "length offsets - 1"
  have ne: "length offsets = ?n + 1" using assms by (auto simp: csr_wf_def)
  have past: "?n \<le> x \<Longrightarrow> ?f x = []" for x by (simp add: typed_rows_def typed_ks_def)
  obtain tc where tc: "buildTypedCSR offsets nbrs types posMap t = Some tc" "length (tc_offsets tc) = length offsets"
      "\<forall>u < length offsets. unat (tc_offsets tc ! u) = starts ?f u"
      "tc_nbrs tc = map fst (concat (map ?f [0..<?n]))" "tc_poss tc = map snd (concat (map ?f [0..<?n]))"
    using buildTypedCSR_ok [OF assms] by blast
  have z: "zip (tc_nbrs tc) (tc_poss tc) = concat (map ?f [0..<?n])" "length (tc_nbrs tc) = starts ?f ?n"
    using tc(4,5) by (simp_all add: zip_map_fst_snd length_rows)
  have "lo \<le> hi \<and> hi \<le> starts ?f ?n \<and> slice_of (concat (map ?f [0..<?n])) (lo, hi) = ?f (unat node)"
    if lh: "relRange (tc_offsets tc) node = (lo, hi)" for node lo hi
    using slice_in_rows [where n = ?n and offs = "tc_offsets tc", OF _ _ lh past] tc(2,3) ne by (simp add: slice_of_def)
  then have "\<exists>lo hi. relRange (tc_offsets tc) node = (lo, hi) \<and> lo \<le> hi \<and> hi \<le> length (tc_nbrs tc)
      \<and> slice_of (zip (tc_nbrs tc) (tc_poss tc)) (lo, hi) = ?f (unat node)" for node
    unfolding z by (cases "relRange (tc_offsets tc) node") blast
  then show ?thesis using tc(1,4,5) by auto
qed

lemma typed_runs_slice:
  assumes "csr_wf offsets nbrs types"
  shows "\<exists>tr. buildTypedRuns offsets nbrs types posMap t = Some tr \<and> length (tr_poss tr) = length (tr_nbrs tr)
    \<and> (\<forall>node. \<exists>lo hi. runRange tr node = Some (lo, hi) \<and> lo \<le> hi \<and> hi \<le> length (tr_nbrs tr)
        \<and> slice_of (zip (tr_nbrs tr) (tr_poss tr)) (lo, hi) = typed_rows offsets nbrs types posMap t (unat node))"
proof -
  let ?f = "typed_rows offsets nbrs types posMap t" and ?n = "length offsets - 1"
  have n: "?n \<le> 2 ^ 32" using assms by (auto simp: csr_wf_def)
  have past: "?n \<le> x \<Longrightarrow> ?f x = []" for x by (simp add: typed_rows_def typed_ks_def)
  obtain tr where tr: "buildTypedRuns offsets nbrs types posMap t = Some tr" "tr_nodes tr = owner_array ?f ?n"
      "length (tr_hint tr) = ?n div 64 + 2" "\<And>b. b < ?n div 64 + 2 \<Longrightarrow> unat (tr_hint tr ! b) = starts ?f (64 * b)"
      "tr_nbrs tr = map fst (concat (map ?f [0..<?n]))" "tr_poss tr = map snd (concat (map ?f [0..<?n]))"
    using buildTypedRuns_ok [OF assms] by blast
  have z: "zip (tr_nbrs tr) (tr_poss tr) = concat (map ?f [0..<?n])" "length (tr_nbrs tr) = starts ?f ?n"
    using tr(5,6) by (simp_all add: zip_map_fst_snd length_rows)
  have "\<exists>lo hi. runRange tr node = Some (lo, hi) \<and> lo \<le> hi \<and> hi \<le> length (tr_nbrs tr)
      \<and> slice_of (zip (tr_nbrs tr) (tr_poss tr)) (lo, hi) = ?f (unat node)" for node
    unfolding z slice_of_def using runRange_ok [OF n past tr(2,3,4), of node] by simp
  then show ?thesis using tr(1,5,6) by auto
qed

lemma scan_typed_rows:
  "(case relRange offsets node of (lo, hi) \<Rightarrow>
      map (\<lambda>k. (nbrs ! k, read_pos posMap k)) (filter (\<lambda>k. RelMatch_matches (MatchType t) (rt_list types ! k)) [lo..<hi]))
    = typed_rows offsets nbrs types posMap t (unat node)"
  by (auto simp: relRange_def typed_rows_def typed_ks_def RelMatch_matches_def MatchType_def Let_def eq_commute [of t])

text \<open>
  C20: the single-type views agree with the type-tested scan. Over a well-formed direction of a CSR,
  both views of a type build without a panic, and for every node the slice that the filtered CSR's
  offsets select and the slice that the run view's bucketed search selects are both the neighbours and
  read positions of that node's relationships of the type, in CSR order.
\<close>

theorem typed_views_equal_scan:
  assumes "csr_wf offsets nbrs types"
  shows "\<exists>tc tr. buildTypedCSR offsets nbrs types posMap t = Some tc \<and> buildTypedRuns offsets nbrs types posMap t = Some tr
    \<and> (\<forall>node. let scan = (case relRange offsets node of (lo, hi) \<Rightarrow>
                 map (\<lambda>k. (nbrs ! k, read_pos posMap k)) (filter (\<lambda>k. RelMatch_matches (MatchType t) (rt_list types ! k)) [lo..<hi]))
             in slice_of (zip (tc_nbrs tc) (tc_poss tc)) (relRange (tc_offsets tc) node) = scan
              \<and> map_option (slice_of (zip (tr_nbrs tr) (tr_poss tr))) (runRange tr node) = Some scan)"
proof -
  obtain tc where "buildTypedCSR offsets nbrs types posMap t = Some tc"
      "\<And>node. slice_of (zip (tc_nbrs tc) (tc_poss tc)) (relRange (tc_offsets tc) node) = typed_rows offsets nbrs types posMap t (unat node)"
    using typed_csr_slice [OF assms] by metis
  moreover obtain tr where "buildTypedRuns offsets nbrs types posMap t = Some tr"
      "\<And>node. map_option (slice_of (zip (tr_nbrs tr) (tr_poss tr))) (runRange tr node) = Some (typed_rows offsets nbrs types posMap t (unat node))"
    using typed_runs_slice [OF assms] by (metis option.simps(9))
  ultimately show ?thesis unfolding Let_def scan_typed_rows by blast
qed

theorem typed_views_equal_scan_witness:
  "\<exists>tc tr. buildTypedCSR [0, 2, 3] [1, 0, 1] (compressRelTypes [4, 5, 4]) [2, 1] 4 = Some tc
    \<and> buildTypedRuns [0, 2, 3] [1, 0, 1] (compressRelTypes [4, 5, 4]) [2, 1] 4 = Some tr
    \<and> (\<forall>node. let scan = (case relRange [0, 2, 3] node of (lo, hi) \<Rightarrow>
                 map (\<lambda>k. ([1, 0, 1] ! k, read_pos [2, 1] k)) (filter (\<lambda>k. RelMatch_matches (MatchType 4) (rt_list (compressRelTypes [4, 5, 4]) ! k)) [lo..<hi]))
             in slice_of (zip (tc_nbrs tc) (tc_poss tc)) (relRange (tc_offsets tc) node) = scan
              \<and> map_option (slice_of (zip (tr_nbrs tr) (tr_poss tr))) (runRange tr node) = Some scan)"
  by (rule typed_views_equal_scan) (use compress_ok [of "[4, 5, 4]"] length_rt_list [of "compressRelTypes [4, 5, 4]"] in \<open>simp add: csr_wf_def\<close>)

end
