(* ===== verification/InToOut.thy ===== *)
theory InToOut
  imports Csr "HOL-Library.Product_Lexorder"
begin

text \<open>
  The incoming to outgoing position map (\<open>serialize.go\<close>): \<open>computeInToOutFromCSR\<close> recomputes, from
  the two adjacency directions alone, where the properties of an incoming relationship are stored.
  Both position arrays are brought into (source, target, type) order by stable counting passes.
\<close>

section \<open>The code\<close>

definition ownersOf :: "u32 list \<Rightarrow> nat \<Rightarrow> u32 list option" where
  "ownersOf offsets m =
     fold_opt (\<lambda>u owners.
         fold_opt (\<lambda>p owners. slice_set owners p (of_nat u)) [unat (offsets ! u)..<unat (offsets ! (u + 1))] owners)
       [0..<length offsets - 1] (replicate m 0)"

definition ascending :: "nat \<Rightarrow> u32 list" where
  "ascending m = map of_nat [0..<m]"

definition count_keys :: "(u32 \<Rightarrow> u32 option) \<Rightarrow> u32 list \<Rightarrow> u32 list \<Rightarrow> u32 list option" where
  "count_keys key = fold_opt (\<lambda>p counts. do {
       k \<leftarrow> key p;
       c \<leftarrow> slice_at counts (unat (k + 1));
       slice_set counts (unat (k + 1)) (c + 1)
     })"

definition prefix_sums :: "nat \<Rightarrow> u32 list \<Rightarrow> u32 list option" where
  "prefix_sums nKeys = fold_opt (\<lambda>k counts. do {
       a \<leftarrow> slice_at counts k;
       b \<leftarrow> slice_at counts (k - 1);
       slice_set counts k (a + b)
     }) [1..<nKeys + 1]"

definition place_keys :: "(u32 \<Rightarrow> u32 option) \<Rightarrow> u32 list \<Rightarrow> u32 list \<times> u32 list \<Rightarrow> (u32 list \<times> u32 list) option" where
  "place_keys key = fold_opt (\<lambda>p (tmp, counts). do {
       k \<leftarrow> key p;
       c \<leftarrow> slice_at counts (unat k);
       tmp' \<leftarrow> slice_set tmp (unat c) p;
       counts' \<leftarrow> slice_set counts (unat k) (c + 1);
       Some (tmp', counts')
     })"

text \<open>The three arrays are shared between passes, so the pass returns all of them.\<close>

definition countingPass ::
  "nat \<Rightarrow> (u32 \<Rightarrow> u32 option) \<Rightarrow> u32 list \<Rightarrow> u32 list \<times> u32 list \<Rightarrow> (u32 list \<times> u32 list \<times> u32 list) option" where
  "countingPass nKeys key positions = (\<lambda>(tmp, counts).
     if nKeys + 1 > length counts then None
     else do {
       c1 \<leftarrow> count_keys key positions (replicate (nKeys + 1) 0 @ drop (nKeys + 1) counts);
       c2 \<leftarrow> prefix_sums nKeys c1;
       (tmp', c3) \<leftarrow> place_keys key positions (tmp, c2);
       Some (take (length positions) tmp' @ drop (length tmp') positions, tmp', c3)
     })"

definition max_type_at :: "relTypes \<Rightarrow> RelType option" where
  "max_type_at types =
     fold_opt (\<lambda>p mx. map_option (\<lambda>t. max mx t) (relTypes_At types (of_nat p))) [0..<relTypes_Len types] 0"

definition computeInToOutFromCSR ::
  "u32 list \<Rightarrow> NodeID list \<Rightarrow> relTypes \<Rightarrow> u32 list \<Rightarrow> NodeID list \<Rightarrow> relTypes \<Rightarrow> u32 list option" where
  "computeInToOutFromCSR outOffsets outNbrs outTypes inOffsets inNbrs inTypes =
     (let m = length outNbrs; n = length inOffsets - 1 in
      if m = 0 then Some []
      else do {
        outSrc \<leftarrow> ownersOf outOffsets m;
        inDst \<leftarrow> ownersOf inOffsets m;
        maxType \<leftarrow> max_type_at outTypes;
        let nTypes = unat maxType + 1;
        let outPos = ascending m;
        let inPos = ascending m;
        let st = (replicate m 0, replicate (max n nTypes + 1) 0);
        (outPos, st) \<leftarrow> countingPass nTypes (\<lambda>p. relTypes_At outTypes p) outPos st;
        (outPos, st) \<leftarrow> countingPass n (\<lambda>p. slice_at outNbrs (unat p)) outPos st;
        (outPos, st) \<leftarrow> countingPass n (\<lambda>p. slice_at outSrc (unat p)) outPos st;
        (inPos, st) \<leftarrow> countingPass nTypes (\<lambda>p. relTypes_At inTypes p) inPos st;
        (inPos, st) \<leftarrow> countingPass n (\<lambda>p. slice_at inDst (unat p)) inPos st;
        (inPos, st) \<leftarrow> countingPass n (\<lambda>p. slice_at inNbrs (unat p)) inPos st;
        fold_opt (\<lambda>i inToOut. do {
            ip \<leftarrow> slice_at inPos i;
            op \<leftarrow> slice_at outPos i;
            slice_set inToOut (unat ip) op
          }) [0..<m] (replicate m 0)
      })"

section \<open>One pass is a stable sort\<close>

lemma bucket_concat:
  fixes f :: "'a \<Rightarrow> nat"
  assumes "\<forall>x \<in> set xs. f x < n"
  shows "concat (map (\<lambda>k. filter (\<lambda>x. f x = k) xs) [0..<n]) = sort_key f xs"
proof (rule properties_for_sort_key [symmetric])
  let ?ys = "concat (map (\<lambda>k. filter (\<lambda>x. f x = k) xs) [0..<n])"
  have filt: "filter (\<lambda>x. f x = k) (concat (map (\<lambda>k. filter (\<lambda>x. f x = k) xs) [0..<n])) = (if k < n then filter (\<lambda>x. f x = k) xs else [])" for k n
  proof (induction n)
    case (Suc n)
    have "filter (\<lambda>x. f x = k) (filter (\<lambda>x. f x = n) xs) = (if k = n then filter (\<lambda>x. f x = k) xs else [])"
      by (auto simp: filter_empty_conv)
    then show ?case using Suc by simp
  qed simp
  show "filter (\<lambda>x. f k = f x) ?ys = filter (\<lambda>x. f k = f x) xs" if "k \<in> set ?ys" for k
  proof -
    have "f k < n" using that assms by auto
    moreover have e: "(\<lambda>x. f k = f x) = (\<lambda>x. f x = f k)" by auto
    ultimately show ?thesis using filt [of "f k" n] unfolding e by simp
  qed
  have "sorted (map f (filter (\<lambda>x. f x = k) xs))" for k by (induction xs) auto
  then show "sorted (map f ?ys)" by (induction n) (auto simp: sorted_append)
  show "mset ?ys = mset xs"
  proof (rule multiset_eqI)
    fix a
    show "count (mset ?ys) a = count (mset xs) a"
    proof (cases "a \<in> set xs")
      case True
      have "count (mset ?ys) a = count (mset (filter (\<lambda>x. f x = f a) ?ys)) a" by simp
      also have "\<dots> = count (mset (filter (\<lambda>x. f x = f a) xs)) a" using filt [of "f a" n] True assms by simp
      finally show ?thesis by simp
    next
      case False
      then have "a \<notin> set ?ys" by simp
      then show ?thesis using False by (metis count_mset_0_iff)
    qed
  qed
qed

lemma csr_order_sort:
  fixes f :: "'a \<Rightarrow> nat"
  assumes "\<forall>x \<in> set xs. f x < n"
  shows "map ((!) xs) (csr_order n (map f xs)) = sort_key f xs"
proof -
  have "map ((!) xs) (owned (map f xs) k) = filter (\<lambda>x. f x = k) xs" for k
  proof -
    have "filter (\<lambda>x. f x = k) (map ((!) xs) [0..<length xs]) = map ((!) xs) (filter ((\<lambda>x. f x = k) \<circ> (!) xs) [0..<length xs])"
      by (rule filter_map)
    moreover have "owned (map f xs) k = filter ((\<lambda>x. f x = k) \<circ> (!) xs) [0..<length xs]"
      unfolding owned_def by (intro filter_cong) auto
    ultimately show ?thesis by (simp add: map_nth)
  qed
  then have "map ((!) xs) (csr_order n (map f xs)) = concat (map (\<lambda>k. filter (\<lambda>x. f x = k) xs) [0..<n])"
    by (simp add: csr_order_def map_concat comp_def)
  then show ?thesis using bucket_concat [OF assms] by simp
qed

lemma count_keys_ok:
  fixes f :: "u32 \<Rightarrow> nat"
  assumes key: "\<And>p. p \<in> set ps \<Longrightarrow> \<exists>k. key p = Some k \<and> unat k = f p \<and> f p < nk"
    and nk: "nk < 2 ^ 32" "nk < length c0" "\<And>k. k \<le> nk \<Longrightarrow> c0 ! k = 0" and m: "length ps < 2 ^ 32"
  shows "\<exists>c. count_keys key ps c0 = Some c \<and> length c = length c0 \<and> c ! 0 = 0
    \<and> (\<forall>k < nk. unat (c ! Suc k) = length (owned (map f ps) k))"
proof -
  let ?P = "\<lambda>j c. length c = length c0 \<and> c ! 0 = 0 \<and> (\<forall>k < nk. unat (c ! Suc k) = count_in (\<lambda>i. map f ps ! i = k) 0 j)"
  have "\<exists>c. count_keys key ps c0 = Some c \<and> ?P (length ps) c"
    unfolding count_keys_def
  proof (rule fold_opt_rule [where P = ?P])
    show "?P 0 c0" using nk by simp
    fix j and c :: "u32 list" assume j: "j < length ps" and P: "?P j c"
    obtain k where k: "key (ps ! j) = Some k" "unat k = f (ps ! j)" "f (ps ! j) < nk" using key j by force
    have k1: "unat (k + 1) = Suc (f (ps ! j))" using k nk(1) by (simp add: unat_word_ariths)
    have len: "Suc (f (ps ! j)) < length c" using P k(3) nk(2) by simp
    let ?c = "c[Suc (f (ps ! j)) := c ! Suc (f (ps ! j)) + 1]"
    have "unat (c ! Suc (f (ps ! j))) \<le> j" using P k(3) count_in_le [of _ 0 j] by simp
    then have inc: "unat (c ! Suc (f (ps ! j)) + 1) = unat (c ! Suc (f (ps ! j))) + 1" using j m by (simp add: unat_word_ariths)
    have "?P (Suc j) ?c" using P j len inc by (auto simp: nth_list_update count_in_Suc)
    moreover have "do { k \<leftarrow> key (ps ! j); x \<leftarrow> slice_at c (unat (k + 1)); slice_set c (unat (k + 1)) (x + 1) } = Some ?c"
      using k k1 len by simp
    ultimately show "\<exists>c'. do { k \<leftarrow> key (ps ! j); x \<leftarrow> slice_at c (unat (k + 1)); slice_set c (unat (k + 1)) (x + 1) } = Some c' \<and> ?P (Suc j) c'"
      by blast
  qed
  then show ?thesis by (auto simp: owned_def count_in_def)
qed

lemma prefix_sums_ok:
  assumes "nk < length c" "c ! 0 = 0" "\<And>k. k < nk \<Longrightarrow> unat (c ! Suc k) = length (owned ow k)" "csr_start ow nk < 2 ^ 32"
  shows "\<exists>c'. prefix_sums nk c = Some c' \<and> length c' = length c \<and> (\<forall>k \<le> nk. unat (c' ! k) = csr_start ow k)"
proof -
  let ?P = "\<lambda>j c'. length c' = length c \<and> (\<forall>k \<le> j. unat (c' ! k) = csr_start ow k) \<and> (\<forall>k \<ge> j. k < nk \<longrightarrow> c' ! Suc k = c ! Suc k)"
  let ?f = "\<lambda>k counts. do { a \<leftarrow> slice_at counts k; b \<leftarrow> slice_at counts (k - 1); slice_set counts k (a + b) }"
  have "\<exists>c'. fold_opt ?f [1..<nk + 1] c = Some c' \<and> ?P (length [1..<nk + 1]) c'"
  proof (rule fold_opt_rule [where P = ?P])
    show "?P 0 c" using assms(2) by simp
    fix j and c' :: "u32 list" assume "j < length [1..<nk + 1]" and P: "?P j c'"
    then have j: "j < nk" by (simp del: upt_Suc)
    have "csr_start ow (Suc j) \<le> csr_start ow nk" using j by (intro csr_start_mono) simp
    then have "unat (c' ! Suc j) + unat (c' ! j) < 2 ^ 32" using P j assms(3) [OF j] assms(4) by simp
    then have "unat (c' ! Suc j + c' ! j) = csr_start ow (Suc j)" using P j assms(3) [OF j] by (simp add: unat_word_ariths)
    then have "?P (Suc j) (c'[Suc j := c' ! Suc j + c' ! j])" using P j assms(1) by (auto simp: nth_list_update le_Suc_eq)
    moreover have "[1..<nk + 1] ! j = Suc j" using j by (simp del: upt_Suc)
    then have "?f ([1..<nk + 1] ! j) c' = Some (c'[Suc j := c' ! Suc j + c' ! j])" using P j assms(1) by (simp del: upt_Suc)
    ultimately show "\<exists>c''. ?f ([1..<nk + 1] ! j) c' = Some c'' \<and> ?P (Suc j) c''" by blast
  qed
  then show ?thesis by (auto simp: prefix_sums_def simp del: upt_Suc)
qed

lemma place_keys_ok:
  fixes f :: "u32 \<Rightarrow> nat" and ps :: "u32 list"
  defines "ow \<equiv> map f ps"
  assumes key: "\<And>p. p \<in> set ps \<Longrightarrow> \<exists>k. key p = Some k \<and> unat k = f p \<and> f p < nk"
    and c: "nk < length c" "\<And>k. k \<le> nk \<Longrightarrow> unat (c ! k) = csr_start ow k" and m: "length ps < 2 ^ 32" "length tmp = length ps"
  shows "\<exists>tmp' c'. place_keys key ps (tmp, c) = Some (tmp', c') \<and> length c' = length c \<and> length tmp' = length tmp
    \<and> tmp' = sort_key f ps"
proof -
  let ?m = "length ps"
  have own: "ow ! i < nk" if "i < length ow" for i using key [of "ps ! i"] that by (auto simp: ow_def)
  have len: "length ow = ?m" by (simp add: ow_def)
  have posm: "csr_pos ow i < ?m" if "i < ?m" for i using csr_pos_bij(1) [OF own] that len by (auto simp: bij_betw_def)
  have posinj: "csr_pos ow i = csr_pos ow j \<longleftrightarrow> i = j" if "i < ?m" "j < ?m" for i j
    using csr_pos_bij(1) [OF own] that len by (auto simp: bij_betw_def inj_on_def)
  let ?P = "\<lambda>j (t, c'). length t = ?m \<and> length c' = length c \<and> (\<forall>k < nk. unat (c' ! k) = csr_start ow k + count_in (\<lambda>i. ow ! i = k) 0 j)
    \<and> (\<forall>i < j. t ! csr_pos ow i = ps ! i)"
  let ?f = "\<lambda>p (tmp, counts). do { k \<leftarrow> key p; c \<leftarrow> slice_at counts (unat k); tmp' \<leftarrow> slice_set tmp (unat c) p;
       counts' \<leftarrow> slice_set counts (unat k) (c + 1); Some (tmp', counts') }"
  have "\<exists>st. fold_opt ?f ps (tmp, c) = Some st \<and> ?P (length ps) st"
  proof (rule fold_opt_rule [where P = ?P])
    show "?P 0 (tmp, c)" using c m by simp
    fix j and st :: "u32 list \<times> u32 list" assume j: "j < ?m" and P0: "?P j st"
    obtain t c' where st: "st = (t, c')" by (cases st)
    have P: "?P j (t, c')" using P0 st by simp
    obtain k where k: "key (ps ! j) = Some k" "unat k = ow ! j" "ow ! j < nk" using key [of "ps ! j"] j by (auto simp: ow_def)
    let ?p = "c' ! (ow ! j)"
    have pos: "unat ?p = csr_pos ow j" using P k(3) by (simp add: csr_pos_def)
    have lt: "unat ?p < ?m" using pos posm [OF j] by simp
    let ?st = "(t[unat ?p := ps ! j], c'[ow ! j := ?p + 1])"
    have "?f (ps ! j) st = Some ?st" using P st k lt c(1) by simp
    moreover have "?P (Suc j) ?st"
    proof -
      have "unat (?p + 1) = unat ?p + 1" using lt m(1) by (simp add: unat_word_ariths)
      then have "unat (c'[ow ! j := ?p + 1] ! k) = csr_start ow k + count_in (\<lambda>i. ow ! i = k) 0 (Suc j)" if "k < nk" for k
        using P that c(1) by (cases "k = ow ! j") (auto simp: count_in_Suc)
      moreover have "t[unat ?p := ps ! j] ! csr_pos ow i = ps ! i" if i: "i < Suc j" for i
        using P lt pos posinj [of i j] j i by (cases "i = j") auto
      ultimately show ?thesis using P by simp
    qed
    ultimately show "\<exists>st'. ?f (ps ! j) st = Some st' \<and> ?P (Suc j) st'" by blast
  qed
  then obtain t c' where t: "place_keys key ps (tmp, c) = Some (t, c')" "length t = ?m" "length c' = length c"
      "\<And>i. i < ?m \<Longrightarrow> t ! csr_pos ow i = ps ! i" unfolding place_keys_def by auto
  have olen: "length (csr_order nk ow) = ?m" using csr_start_total [OF own] len by (simp add: length_csr_order)
  have "t = map ((!) ps) (csr_order nk ow)"
  proof (rule nth_equalityI)
    fix p assume "p < length t"
    then have p: "p < length ow" using t(2) len by simp
    show "t ! p = map ((!) ps) (csr_order nk ow) ! p"
      using csr_pos_bij(3) [of ow nk p, OF own p] t(4) [of "csr_order nk ow ! p"] len olen p by simp
  qed (use t(2) olen in simp)
  also have "\<dots> = sort_key f ps" unfolding ow_def using key by (intro csr_order_sort) blast
  finally show ?thesis using t m by auto
qed

lemma countingPass_ok:
  fixes f :: "u32 \<Rightarrow> nat"
  assumes key: "\<And>p. p \<in> set ps \<Longrightarrow> \<exists>k. key p = Some k \<and> unat k = f p \<and> f p < nk"
    and nk: "nk < 2 ^ 32" "nk < length c" and m: "length ps < 2 ^ 32" "length tmp = length ps"
  shows "\<exists>tmp' c'. countingPass nk key ps (tmp, c) = Some (sort_key f ps, tmp', c')
    \<and> length tmp' = length ps \<and> length c' = length c"
proof -
  let ?ow = "map f ps"
  have own: "?ow ! i < nk" if "i < length ?ow" for i using key [of "ps ! i"] that by auto
  let ?c0 = "replicate (nk + 1) 0 @ drop (nk + 1) c"
  have c0: "length ?c0 = length c" "nk < length ?c0" "\<And>k. k \<le> nk \<Longrightarrow> ?c0 ! k = 0"
    using nk(2) by (auto simp: nth_append simp del: replicate.simps replicate_Suc)
  obtain c1 where c1: "count_keys key ps ?c0 = Some c1" "length c1 = length c" "c1 ! 0 = 0"
      "\<And>k. k < nk \<Longrightarrow> unat (c1 ! Suc k) = length (owned ?ow k)"
  proof -
    have "\<exists>c1. count_keys key ps ?c0 = Some c1 \<and> length c1 = length ?c0 \<and> c1 ! 0 = 0 \<and> (\<forall>k < nk. unat (c1 ! Suc k) = length (owned ?ow k))"
      by (rule count_keys_ok) (use key nk(1) c0(2,3) m(1) in blast)+
    then show ?thesis using that c0(1) by metis
  qed
  have tot: "csr_start ?ow nk < 2 ^ 32" using csr_start_total [of ?ow nk, OF own] m(1) by simp
  obtain c2 where c2: "prefix_sums nk c1 = Some c2" "length c2 = length c" "\<And>k. k \<le> nk \<Longrightarrow> unat (c2 ! k) = csr_start ?ow k"
    using prefix_sums_ok [OF _ c1(3,4) tot] nk(2) c1(2) by auto
  obtain c3 where "place_keys key ps (tmp, c2) = Some (sort_key f ps, c3)" "length c3 = length c"
    using place_keys_ok [of ps key f nk c2 tmp, OF key _ c2(3) m] nk(2) c2(2) by auto
  then show ?thesis using c1 c2 nk(2) m by (simp add: countingPass_def)
qed

section \<open>Three stable passes sort by source, target and type\<close>

lemma sort_key_map: "sort_key f (map g xs) = map g (sort_key (f \<circ> g) xs)"
proof -
  have "insort_key f (g x) (map g ys) = map g (insort_key (f \<circ> g) x ys)" for x ys by (induction ys) auto
  then show ?thesis by (induction xs) simp_all
qed

lemma lsd_sorted:
  fixes f :: "'a \<Rightarrow> nat" and g :: "'a \<Rightarrow> 'b :: linorder"
  assumes "sorted (map g xs)"
  shows "sorted (map (\<lambda>x. (f x, g x)) (sort_key f xs))"
proof -
  have ins: "sorted (map (\<lambda>x. (f x, g x)) (insort_key f x ys))"
    if "sorted (map (\<lambda>x. (f x, g x)) ys)" "\<forall>y \<in> set ys. g x \<le> g y" for x ys
    using that
  proof (induction ys)
    case (Cons y ys)
    then show ?case by (auto simp: set_insort_key less_eq_prod_def intro: less_imp_le order_trans dest!: bspec)
  qed simp
  show ?thesis using assms by (induction xs) (auto intro!: ins)
qed

lemma filter_stable:
  assumes "\<And>x. P x \<Longrightarrow> f x = k"
  shows "filter P (sort_key f xs) = filter P xs"
proof -
  have "filter P ys = filter P (filter (\<lambda>y. f y = k) ys)" for ys using assms by (auto intro: filter_cong)
  then show ?thesis by (metis sort_key_stable)
qed

lemma lsd3:
  fixes a b c :: "'a \<Rightarrow> nat"
  assumes "mset xs = mset base" "\<And>k. filter (\<lambda>x. (a x, b x, c x) = k) xs = filter (\<lambda>x. (a x, b x, c x) = k) base"
  shows "sort_key a (sort_key b (sort_key c xs)) = sort_key (\<lambda>x. (a x, b x, c x)) base"
proof (rule properties_for_sort_key [symmetric])
  let ?ys = "sort_key a (sort_key b (sort_key c xs))"
  show "mset ?ys = mset base" using assms(1) by simp
  have "sorted (map (\<lambda>x. (b x, c x)) (sort_key b (sort_key c xs)))" by (intro lsd_sorted) simp
  then show "sorted (map (\<lambda>x. (a x, b x, c x)) ?ys)" by (rule lsd_sorted)
  fix z
  let ?P = "\<lambda>x. (a z, b z, c z) = (a x, b x, c x)"
  have e: "?P = (\<lambda>x. (a x, b x, c x) = (a z, b z, c z))" by auto
  have "filter ?P ?ys = filter ?P xs"
    using filter_stable [of ?P a "a z" "sort_key b (sort_key c xs)"] filter_stable [of ?P b "b z" "sort_key c xs"]
      filter_stable [of ?P c "c z" xs] by simp
  then show "filter ?P ?ys = filter ?P base" using assms(2) [of "(a z, b z, c z)"] unfolding e by simp
qed

section \<open>Owners of positions\<close>

lemma ownersOf_ok:
  assumes offs: "length offs = n + 1" "\<And>u. u \<le> n \<Longrightarrow> unat (offs ! u) = csr_start ow u"
    and ow: "\<And>i. i < length ow \<Longrightarrow> ow ! i < n"
  shows "\<exists>r. ownersOf offs (length ow) = Some r \<and> length r = length ow \<and> (\<forall>i < length ow. r ! csr_pos ow i = of_nat (ow ! i))"
proof -
  have tot: "csr_start ow n = length ow" by (rule csr_start_total) (rule ow)
  let ?P = "\<lambda>u (r :: u32 list). length r = length ow \<and> (\<forall>v < u. \<forall>p. csr_start ow v \<le> p \<and> p < csr_start ow (Suc v) \<longrightarrow> r ! p = of_nat v)"
  let ?f = "\<lambda>u (owners :: u32 list). fold_opt (\<lambda>p owners. slice_set owners p (of_nat u)) [unat (offs ! u)..<unat (offs ! (u + 1))] owners"
  have "\<exists>r. fold_opt ?f [0..<n] (replicate (length ow) 0) = Some r \<and> ?P (length [0..<n]) r"
  proof (rule fold_opt_rule [where P = ?P])
    fix u and r :: "u32 list" assume "u < length [0..<n]" and P: "?P u r"
    then have u: "u < n" by simp
    have r: "unat (offs ! u) = csr_start ow u" "unat (offs ! (u + 1)) = csr_start ow (Suc u)" using offs(2) u by auto
    have "csr_start ow (Suc u) \<le> length ow" using csr_start_mono [of "Suc u" n ow] u tot by simp
    then obtain r' where r': "?f u r = Some r'" "length r' = length r"
        "\<And>p. p < length r \<Longrightarrow> r' ! p = (if csr_start ow u \<le> p \<and> p < csr_start ow (Suc u) then of_nat u else r ! p)"
      using fold_slice_set [of "csr_start ow (Suc u)" r "of_nat u" "csr_start ow u"] P r by auto
    have "r' ! p = of_nat v" if v: "v < Suc u" and p: "csr_start ow v \<le> p" "p < csr_start ow (Suc v)" for v p
    proof (cases "v = u")
      case True
      then show ?thesis using r'(3) [of p] p P \<open>csr_start ow (Suc u) \<le> length ow\<close> by simp
    next
      case False
      then have "csr_start ow (Suc v) \<le> csr_start ow u" using v by (intro csr_start_mono) simp
      moreover have "csr_start ow u \<le> length ow" using csr_start_mono [of u n ow] u tot by simp
      ultimately show ?thesis using r'(3) [of p] P p v False by simp
    qed
    then have "?P (Suc u) r'" using r'(2) P by simp
    then show "\<exists>r'. ?f ([0..<n] ! u) r = Some r' \<and> ?P (Suc u) r'" using r'(1) u by auto
  qed simp
  then obtain r where r: "ownersOf offs (length ow) = Some r" "?P n r" unfolding ownersOf_def using offs(1) by auto
  have "r ! csr_pos ow i = of_nat (ow ! i)" if i: "i < length ow" for i
  proof -
    have "csr_start ow (ow ! i) \<le> csr_pos ow i" by (simp add: csr_pos_def)
    then show ?thesis using csr_order_pos(2) [OF i ow [OF i]] r(2) ow [OF i] by blast
  qed
  then show ?thesis using r by blast
qed

lemma max_type_at_ok:
  assumes "rt_wf r" "relTypes_Len r < 2 ^ 32"
  shows "\<exists>mx. max_type_at r = Some mx \<and> (\<forall>t \<in> set (rt_list r). t \<le> mx) \<and> (mx = 0 \<or> mx \<in> set (rt_list r))"
proof -
  let ?P = "\<lambda>k mx. (\<forall>i < k. rt_list r ! i \<le> mx) \<and> (mx = 0 \<or> mx \<in> set (rt_list r))"
  have "\<exists>mx. fold_opt (\<lambda>p mx. map_option (\<lambda>t. max mx t) (relTypes_At r (of_nat p))) [0..<relTypes_Len r] 0 = Some mx \<and> ?P (length [0..<relTypes_Len r]) mx"
  proof (rule fold_opt_rule [where P = ?P])
    fix k and mx :: u32 assume "k < length [0..<relTypes_Len r]" and P: "?P k mx"
    then have k: "k < relTypes_Len r" by simp
    have "unat (of_nat k :: u32) = k" using k assms(2) by (intro unat_of_nat_less) simp
    then have "relTypes_At r (of_nat k) = Some (rt_list r ! k)" using assms(1) k by (simp add: relTypes_At_ok)
    moreover have "?P (Suc k) (max mx (rt_list r ! k))" using P k by (auto simp: less_Suc_eq max_def)
    ultimately show "\<exists>mx'. map_option (\<lambda>t. max mx t) (relTypes_At r (of_nat ([0..<relTypes_Len r] ! k))) = Some mx' \<and> ?P (Suc k) mx'"
      using k by simp
  qed simp
  then show ?thesis unfolding max_type_at_def by (metis in_set_conv_nth length_rt_list length_upt minus_nat.diff_0)
qed

section \<open>The position map pairs the two entries of each relationship\<close>

text \<open>The final loop: a permutation is inverted into the result.\<close>

lemma scatter_ok:
  fixes ip op :: "u32 list"
  assumes "length ip = m" "length op = m" "distinct ip" "\<forall>p \<in> set ip. unat p < m"
  shows "\<exists>r. fold_opt (\<lambda>i r. do { a \<leftarrow> slice_at ip i; b \<leftarrow> slice_at op i; slice_set r (unat a) b }) [0..<m] (replicate m 0) = Some r
    \<and> length r = m \<and> (\<forall>i < m. r ! unat (ip ! i) = op ! i)"
proof -
  let ?P = "\<lambda>k (r :: u32 list). length r = m \<and> (\<forall>i < k. r ! unat (ip ! i) = op ! i)"
  let ?f = "\<lambda>i (r :: u32 list). do { a \<leftarrow> slice_at ip i; b \<leftarrow> slice_at op i; slice_set r (unat a) b }"
  have "\<exists>r. fold_opt ?f [0..<m] (replicate m 0) = Some r \<and> ?P (length [0..<m]) r"
  proof (rule fold_opt_rule [where P = ?P])
    fix k and r :: "u32 list" assume "k < length [0..<m]" and P: "?P k r"
    then have k: "k < m" by simp
    have lt: "unat (ip ! k) < m" using assms(1,4) k by simp
    have "?f k r = Some (r[unat (ip ! k) := op ! k])" using k lt assms(1,2) P by simp
    moreover have "r[unat (ip ! k) := op ! k] ! unat (ip ! i) = op ! i" if "i < Suc k" for i
    proof (cases "i = k")
      case False
      then have "ip ! k \<noteq> ip ! i" using that k assms(1,3) by (simp add: nth_eq_iff_index_eq)
      then show ?thesis using P that False by (simp add: nth_list_update word_unat_eq_iff)
    qed (use P lt in simp)
    ultimately show "\<exists>r'. ?f ([0..<m] ! k) r = Some r' \<and> ?P (Suc k) r'" using k P by auto
  qed simp
  then show ?thesis by simp
qed

text \<open>
  One side of the computation. \<open>order\<close> lists the relationship that each position holds; three passes over
  the position array, keyed by functions of that relationship, leave the positions sorted.
\<close>

lemma three_passes:
  fixes a b c :: "nat \<Rightarrow> nat" and order :: "nat list"
  assumes len: "length order = m" "m < 2 ^ 32"
    and c: "\<And>p. unat p < m \<Longrightarrow> \<exists>k. kc p = Some k \<and> unat k = c (order ! unat p) \<and> c (order ! unat p) < nc"
    and b: "\<And>p. unat p < m \<Longrightarrow> \<exists>k. kb p = Some k \<and> unat k = b (order ! unat p) \<and> b (order ! unat p) < nb"
    and a: "\<And>p. unat p < m \<Longrightarrow> \<exists>k. ka p = Some k \<and> unat k = a (order ! unat p) \<and> a (order ! unat p) < na"
    and sz: "nc < 2 ^ 32" "nb < 2 ^ 32" "na < 2 ^ 32" "nc < length counts" "nb < length counts" "na < length counts" "length tmp = m"
  shows "\<exists>p1 p2 p3 t1 t2 t3 c1 c2 c3. countingPass nc kc (ascending m) (tmp, counts) = Some (p1, t1, c1)
    \<and> countingPass nb kb p1 (t1, c1) = Some (p2, t2, c2) \<and> countingPass na ka p2 (t2, c2) = Some (p3, t3, c3)
    \<and> length t3 = m \<and> length c3 = length counts \<and> distinct p3 \<and> length p3 = m \<and> (\<forall>p \<in> set p3. unat p < m)
    \<and> map (\<lambda>p. order ! unat p) p3 = sort_key a (sort_key b (sort_key c order))"
proof -
  let ?g = "\<lambda>p :: u32. order ! unat p"
  have asc: "length (ascending m) = m" "set (ascending m) = {p. unat p < m}" "distinct (ascending m)"
  proof -
    show "length (ascending m) = m" by (simp add: ascending_def)
    have un: "unat (of_nat i :: u32) = i" if "i < m" for i using that len(2) by (intro unat_of_nat_less) simp
    show "set (ascending m) = {p. unat p < m}"
    proof (intro set_eqI iffI)
      fix p :: u32 assume "p \<in> {p. unat p < m}"
      then show "p \<in> set (ascending m)" unfolding ascending_def by (auto intro!: image_eqI [of _ _ "unat p"])
    qed (auto simp: ascending_def un)
    show "distinct (ascending m)" unfolding ascending_def distinct_map
      using un by (auto intro!: inj_onI) metis
  qed
  have key: "\<exists>k. kc p = Some k \<and> unat k = (c \<circ> ?g) p \<and> (c \<circ> ?g) p < nc" "\<exists>k. kb p = Some k \<and> unat k = (b \<circ> ?g) p \<and> (b \<circ> ?g) p < nb"
    "\<exists>k. ka p = Some k \<and> unat k = (a \<circ> ?g) p \<and> (a \<circ> ?g) p < na" if "p \<in> set (ascending m)" for p
    using a b c that asc(2) by auto
  have "\<exists>t' c'. countingPass nc kc (ascending m) (tmp, counts) = Some (sort_key (c \<circ> ?g) (ascending m), t', c')
      \<and> length t' = length (ascending m) \<and> length c' = length counts"
    by (rule countingPass_ok) (use key(1) sz len asc(1) in auto)
  then obtain t1 c1 where 1: "countingPass nc kc (ascending m) (tmp, counts) = Some (sort_key (c \<circ> ?g) (ascending m), t1, c1)"
      "length t1 = m" "length c1 = length counts" using asc(1) by auto
  let ?p1 = "sort_key (c \<circ> ?g) (ascending m)"
  have "\<exists>t' c'. countingPass nb kb ?p1 (t1, c1) = Some (sort_key (b \<circ> ?g) ?p1, t', c') \<and> length t' = length ?p1 \<and> length c' = length c1"
    by (rule countingPass_ok) (use key(2) sz len asc(1) 1(2,3) in auto)
  then obtain t2 c2 where 2: "countingPass nb kb ?p1 (t1, c1) = Some (sort_key (b \<circ> ?g) ?p1, t2, c2)"
      "length t2 = m" "length c2 = length counts" using asc(1) 1(3) by auto
  let ?p2 = "sort_key (b \<circ> ?g) ?p1"
  have "\<exists>t' c'. countingPass na ka ?p2 (t2, c2) = Some (sort_key (a \<circ> ?g) ?p2, t', c') \<and> length t' = length ?p2 \<and> length c' = length c2"
    by (rule countingPass_ok) (use key(3) sz len asc(1) 2(2,3) in auto)
  then obtain t3 c3 where 3: "countingPass na ka ?p2 (t2, c2) = Some (sort_key (a \<circ> ?g) ?p2, t3, c3)"
      "length t3 = m" "length c3 = length counts" using asc(1) 2(3) by auto
  have "map ?g (ascending m) = order"
    using len by (intro nth_equalityI) (auto simp: ascending_def unat_of_nat_less)
  then have "map ?g (sort_key (a \<circ> ?g) ?p2) = sort_key a (sort_key b (sort_key c order))" by (simp flip: sort_key_map)
  moreover have "distinct (sort_key (a \<circ> ?g) ?p2)" "length (sort_key (a \<circ> ?g) ?p2) = m" "\<forall>p \<in> set (sort_key (a \<circ> ?g) ?p2). unat p < m"
    using asc by simp_all
  ultimately show ?thesis using 1(1) 2(1) 3 by metis
qed

text \<open>The adjacency of one endpoint as the counting sort leaves it.\<close>

definition csr_repr :: "nat \<Rightarrow> rel list \<Rightarrow> RelType list \<Rightarrow> nat \<Rightarrow> u32 list \<Rightarrow> NodeID list \<Rightarrow> relTypes \<Rightarrow> bool" where
  "csr_repr n rels ts e offs nbrs types \<longleftrightarrow>
     (let ow = owner_list e rels in
      length offs = n + 1 \<and> (\<forall>u \<le> n. unat (offs ! u) = csr_start ow u)
      \<and> nbrs = map (\<lambda>i. other_of e (rels ! i)) (csr_order n ow)
      \<and> rt_wf types \<and> rt_list types = map ((!) ts) (csr_order n ow))"

definition rels_ok :: "nat \<Rightarrow> rel list \<Rightarrow> RelType list \<Rightarrow> bool" where
  "rels_ok n rels ts \<longleftrightarrow> length ts = length rels \<and> length rels < 2 ^ 32 \<and> n < 2 ^ 32
    \<and> (\<forall>r \<in> set rels. unat (fst r) < n \<and> unat (snd r) < n)"

lemma rels_ok_owner:
  assumes "rels_ok n rels ts"
  shows "\<And>i. i < length (owner_list e rels) \<Longrightarrow> owner_list e rels ! i < n"
  using assms nth_mem [of _ rels] by (fastforce simp: rels_ok_def owner_list_def owner_of_def)

lemma owner_list_simps [simp]: "length (owner_list e rels) = length rels"
  "i < length rels \<Longrightarrow> owner_list e rels ! i = unat (owner_of e (rels ! i))"
  by (simp_all add: owner_list_def)

lemma csr_repr_facts:
  assumes ok: "rels_ok n rels ts" and r: "csr_repr n rels ts e offs nbrs types"
  shows "length (csr_order n (owner_list e rels)) = length rels" "length nbrs = length rels" "relTypes_Len types = length rels"
    "p < length rels \<Longrightarrow> csr_order n (owner_list e rels) ! p < length rels \<and> csr_pos (owner_list e rels) (csr_order n (owner_list e rels) ! p) = p"
    "p < length rels \<Longrightarrow> nbrs ! p = other_of e (rels ! (csr_order n (owner_list e rels) ! p))"
    "p < length rels \<Longrightarrow> rt_list types ! p = ts ! (csr_order n (owner_list e rels) ! p)"
    "csr_order n (owner_list e rels) = sort_key (\<lambda>i. unat (owner_of e (rels ! i))) [0..<length rels]"
proof -
  let ?ow = "owner_list e rels" and ?m = "length rels"
  note ow = rels_ok_owner [OF ok, of _ e]
  show len: "length (csr_order n ?ow) = ?m" using csr_start_total [of ?ow n, OF ow] by (simp add: length_csr_order)
  show "length nbrs = ?m" using r len by (simp add: csr_repr_def Let_def)
  show "relTypes_Len types = ?m" using r len by (simp add: csr_repr_def Let_def flip: length_rt_list)
  show "p < ?m \<Longrightarrow> csr_order n ?ow ! p < ?m \<and> csr_pos ?ow (csr_order n ?ow ! p) = p"
    using csr_pos_bij(3) [of ?ow n p, OF ow] by simp
  show "p < ?m \<Longrightarrow> nbrs ! p = other_of e (rels ! (csr_order n ?ow ! p))" using r len by (simp add: csr_repr_def Let_def)
  show "p < ?m \<Longrightarrow> rt_list types ! p = ts ! (csr_order n ?ow ! p)" using r len by (simp add: csr_repr_def Let_def)
  have "map ((!) [0..<?m]) (csr_order n (map (\<lambda>i. unat (owner_of e (rels ! i))) [0..<?m]))
      = sort_key (\<lambda>i. unat (owner_of e (rels ! i))) [0..<?m]"
    by (rule csr_order_sort) (use ow in auto)
  moreover have "map (\<lambda>i. unat (owner_of e (rels ! i))) [0..<?m] = ?ow" by (auto intro: nth_equalityI)
  moreover have "map ((!) [0..<?m]) (csr_order n ?ow) = csr_order n ?ow"
    using csr_pos_bij(3) [of ?ow n, OF ow] len by (intro nth_equalityI) auto
  ultimately show "csr_order n ?ow = sort_key (\<lambda>i. unat (owner_of e (rels ! i))) [0..<?m]" by simp
qed

lemma computeInToOut_ok:
  assumes ok: "rels_ok n rels ts" and tt: "\<forall>t \<in> set ts. unat t + 1 < 2 ^ 32"
    and out: "csr_repr n rels ts 0 oo onb ot" and inn: "csr_repr n rels ts 1 io inb it"
  shows "\<exists>r. computeInToOutFromCSR oo onb ot io inb it = Some r \<and> length r = length rels
    \<and> (\<forall>i < length rels. unat (r ! csr_pos (owner_list 1 rels) i) = csr_pos (owner_list 0 rels) i)"
proof (cases "rels = []")
  case True
  then show ?thesis using csr_repr_facts(2) [OF ok out] by (simp add: computeInToOutFromCSR_def)
next
  case False
  let ?m = "length rels" and ?s = "owner_list 0 rels" and ?d = "owner_list 1 rels"
  let ?O = "csr_order n ?s" and ?I = "csr_order n ?d"
  define a b c where abc: "a = (\<lambda>i. unat (fst (rels ! i)))" "b = (\<lambda>i. unat (snd (rels ! i)))" "c = (\<lambda>i. unat (ts ! i))"
  note O = csr_repr_facts [OF ok out] and I = csr_repr_facts [OF ok inn]
  have m: "?m < 2 ^ 32" "length ts = ?m" "n < 2 ^ 32" using ok by (auto simp: rels_ok_def)
  have ab: "a i < n" "b i < n" if "i < ?m" for i using ok that nth_mem [OF that] by (auto simp: rels_ok_def abc)
  obtain os where os: "ownersOf oo ?m = Some os" "length os = ?m" "\<And>i. i < ?m \<Longrightarrow> os ! csr_pos ?s i = of_nat (?s ! i)"
    using ownersOf_ok [of oo n ?s] out rels_ok_owner [OF ok] by (auto simp: csr_repr_def Let_def)
  obtain ids where ids: "ownersOf io ?m = Some ids" "length ids = ?m" "\<And>i. i < ?m \<Longrightarrow> ids ! csr_pos ?d i = of_nat (?d ! i)"
    using ownersOf_ok [of io n ?d] inn rels_ok_owner [OF ok] by (auto simp: csr_repr_def Let_def)
  obtain mx where mx: "max_type_at ot = Some mx" "\<And>t. t \<in> set (rt_list ot) \<Longrightarrow> t \<le> mx" "mx = 0 \<or> mx \<in> set (rt_list ot)"
    using max_type_at_ok [of ot] out m(1) O(3) by (auto simp: csr_repr_def Let_def)
  have ctx: "c i \<le> unat mx" if i: "i < ?m" for i
  proof -
    have "csr_pos ?s i < ?m" using csr_pos_bij(1) [of ?s n, OF rels_ok_owner [OF ok]] i by (auto simp: bij_betw_def)
    moreover have "?O ! csr_pos ?s i = i" using csr_order_pos(1) [of i ?s n] rels_ok_owner [OF ok, of i 0] i by simp
    ultimately have "ts ! i \<in> set (rt_list ot)" using O(3) O(6) [of "csr_pos ?s i"] nth_mem [of "csr_pos ?s i" "rt_list ot"] by simp
    then show ?thesis using mx(2) by (auto simp: abc word_le_nat_alt)
  qed
  have "rt_list ot = map ((!) ts) ?O" "set ?O \<subseteq> {..<?m}" using out O(1,4) by (auto simp: csr_repr_def Let_def set_conv_nth)
  then have "set (rt_list ot) \<subseteq> set ts" using m(2) by auto
  then have nt: "unat mx + 1 < 2 ^ 32" using mx(3) tt by auto
  let ?nt = "unat mx + 1" and ?cn = "replicate (max n (unat mx + 1) + 1) (0 :: u32)"
  have cl: "?nt < length ?cn" "n < length ?cn" by auto
  have un: "unat (of_nat k :: u32) = k" if "k < n" for k using that m(3) by (intro unat_of_nat_less) simp
  have wf: "rt_wf ot" "rt_wf it" using out inn by (auto simp: csr_repr_def Let_def)
  have ko: "\<exists>k. relTypes_At ot p = Some k \<and> unat k = c (?O ! unat p) \<and> c (?O ! unat p) < ?nt"
    "\<exists>k. slice_at onb (unat p) = Some k \<and> unat k = b (?O ! unat p) \<and> b (?O ! unat p) < n"
    "\<exists>k. slice_at os (unat p) = Some k \<and> unat k = a (?O ! unat p) \<and> a (?O ! unat p) < n" if p: "unat p < ?m" for p
  proof -
    let ?i = "?O ! unat p"
    have i: "?i < ?m" "csr_pos ?s ?i = unat p" using O(4) [OF p] by auto
    show "\<exists>k. relTypes_At ot p = Some k \<and> unat k = c ?i \<and> c ?i < ?nt"
      using wf(1) p O(3) O(6) [OF p] ctx [OF i(1)] by (simp add: relTypes_At_ok abc)
    show "\<exists>k. slice_at onb (unat p) = Some k \<and> unat k = b ?i \<and> b ?i < n"
      using p O(2) O(5) [OF p] ab(2) [OF i(1)] by (simp add: other_of_def abc)
    show "\<exists>k. slice_at os (unat p) = Some k \<and> unat k = a ?i \<and> a ?i < n"
      using p os(2) os(3) [OF i(1)] i ab(1) [OF i(1)] un [of "a ?i"] by (simp add: owner_of_def abc)
  qed
  have ki: "\<exists>k. relTypes_At it p = Some k \<and> unat k = c (?I ! unat p) \<and> c (?I ! unat p) < ?nt"
    "\<exists>k. slice_at ids (unat p) = Some k \<and> unat k = b (?I ! unat p) \<and> b (?I ! unat p) < n"
    "\<exists>k. slice_at inb (unat p) = Some k \<and> unat k = a (?I ! unat p) \<and> a (?I ! unat p) < n" if p: "unat p < ?m" for p
  proof -
    let ?i = "?I ! unat p"
    have i: "?i < ?m" "csr_pos ?d ?i = unat p" using I(4) [OF p] by auto
    show "\<exists>k. relTypes_At it p = Some k \<and> unat k = c ?i \<and> c ?i < ?nt"
      using wf(2) p I(3) I(6) [OF p] ctx [OF i(1)] by (simp add: relTypes_At_ok abc)
    show "\<exists>k. slice_at inb (unat p) = Some k \<and> unat k = a ?i \<and> a ?i < n"
      using p I(2) I(5) [OF p] ab(1) [OF i(1)] by (simp add: other_of_def abc)
    show "\<exists>k. slice_at ids (unat p) = Some k \<and> unat k = b ?i \<and> b ?i < n"
      using p ids(2) ids(3) [OF i(1)] i ab(2) [OF i(1)] un [of "b ?i"] by (simp add: owner_of_def abc)
  qed
  obtain o1 o2 op t1 t2 t3 c1 c2 c3 where so: "countingPass ?nt (relTypes_At ot) (ascending ?m) (replicate ?m 0, ?cn) = Some (o1, t1, c1)"
      "countingPass n (\<lambda>p. slice_at onb (unat p)) o1 (t1, c1) = Some (o2, t2, c2)"
      "countingPass n (\<lambda>p. slice_at os (unat p)) o2 (t2, c2) = Some (op, t3, c3)"
      "length t3 = ?m" "length c3 = length ?cn" "length op = ?m" "\<forall>p \<in> set op. unat p < ?m"
      "map (\<lambda>p. ?O ! unat p) op = sort_key a (sort_key b (sort_key c ?O))"
    using three_passes [of ?O ?m "relTypes_At ot" c ?nt "\<lambda>p. slice_at onb (unat p)" b n "\<lambda>p. slice_at os (unat p)" a n ?cn "replicate ?m 0",
        OF O(1) m(1) ko(1) ko(2) ko(3) nt m(3) m(3) cl(1,2,2)] by auto
  obtain i1 i2 ip t4 t5 t6 c4 c5 c6 where si: "countingPass ?nt (relTypes_At it) (ascending ?m) (t3, c3) = Some (i1, t4, c4)"
      "countingPass n (\<lambda>p. slice_at ids (unat p)) i1 (t4, c4) = Some (i2, t5, c5)"
      "countingPass n (\<lambda>p. slice_at inb (unat p)) i2 (t5, c5) = Some (ip, t6, c6)"
      "distinct ip" "length ip = ?m" "\<forall>p \<in> set ip. unat p < ?m"
      "map (\<lambda>p. ?I ! unat p) ip = sort_key a (sort_key b (sort_key c ?I))"
    using three_passes [of ?I ?m "relTypes_At it" c ?nt "\<lambda>p. slice_at ids (unat p)" b n "\<lambda>p. slice_at inb (unat p)" a n c3 t3,
        OF I(1) m(1) ki(1) ki(2) ki(3) nt m(3) m(3)] cl so(4,5) by auto
  have ow: "(\<lambda>i. unat (owner_of 0 (rels ! i))) = a" "(\<lambda>i. unat (owner_of 1 (rels ! i))) = b" by (auto simp: owner_of_def abc)
  let ?K = "sort_key (\<lambda>x. (a x, b x, c x)) [0..<?m]"
  have eO: "?O = sort_key a [0..<?m]" and eI: "?I = sort_key b [0..<?m]" using O(7) I(7) unfolding ow by auto
  have "sort_key a (sort_key b (sort_key c (sort_key a [0..<?m]))) = ?K" by (rule lsd3) (auto intro!: filter_stable)
  moreover have "sort_key a (sort_key b (sort_key c (sort_key b [0..<?m]))) = ?K" by (rule lsd3) (auto intro!: filter_stable)
  ultimately have L: "map (\<lambda>p. ?O ! unat p) op = ?K" "map (\<lambda>p. ?I ! unat p) ip = ?K"
    using so(8) si(7) eO eI by metis+
  obtain r where r: "fold_opt (\<lambda>i r. do { a \<leftarrow> slice_at ip i; b \<leftarrow> slice_at op i; slice_set r (unat a) b }) [0..<?m] (replicate ?m 0) = Some r"
      "length r = ?m" "\<And>i. i < ?m \<Longrightarrow> r ! unat (ip ! i) = op ! i"
    using scatter_ok [OF si(5) so(6) si(4,6)] by auto
  have "computeInToOutFromCSR oo onb ot io inb it = Some r"
    using False O(2) inn os(1) ids(1) mx(1) so(1,2,3) si(1,2,3) r(1)
    by (simp add: computeInToOutFromCSR_def csr_repr_def Let_def)
  moreover have "unat (r ! csr_pos ?d x) = csr_pos ?s x" if x: "x < ?m" for x
  proof -
    have "x \<in> set ?K" using x by simp
    then obtain j where j: "j < length ?K" "?K ! j = x" unfolding in_set_conv_nth by blast
    then have jm: "j < ?m" by simp
    have "?O ! unat (op ! j) = x" using arg_cong [OF L(1), of "\<lambda>xs. xs ! j"] j(2) jm so(6) by simp
    moreover have "?I ! unat (ip ! j) = x" using arg_cong [OF L(2), of "\<lambda>xs. xs ! j"] j(2) jm si(5) by simp
    moreover have "unat (op ! j) < ?m" "unat (ip ! j) < ?m" using so(6,7) si(5,6) jm by auto
    ultimately have "csr_pos ?s x = unat (op ! j)" "csr_pos ?d x = unat (ip ! j)" using O(4) I(4) by metis+
    then show ?thesis using r(3) [OF jm] by simp
  qed
  ultimately show ?thesis using r(2) by blast
qed

text \<open>The degree array of an endpoint, and what the counting sort builds from it.\<close>

definition deg_ok :: "nat \<Rightarrow> rel list \<Rightarrow> nat \<Rightarrow> u32 list \<Rightarrow> bool" where
  "deg_ok n rels e deg \<longleftrightarrow> n \<le> length deg \<and> (\<forall>u < n. unat (deg ! u) = length (filter (\<lambda>r. unat (owner_of e r) = u) rels))"

lemma build_repr:
  assumes ok: "rels_ok n rels ts" and deg: "deg_ok n rels e deg"
  shows "\<exists>offs nbrs types r2c. buildCSRDirection n rels ts deg e = Some (offs, nbrs, types, r2c)
    \<and> csr_repr n rels ts e offs nbrs (compressRelTypes types) \<and> length r2c = length rels
    \<and> (\<forall>i < length rels. unat (r2c ! i) = csr_pos (owner_list e rels) i)"
proof -
  have own: "\<And>i. i < length rels \<Longrightarrow> owner_list e rels ! i < n" using rels_ok_owner [OF ok] by simp
  have m: "length rels < 2 ^ 32" "length ts = length rels" "n \<le> length deg" using ok deg by (auto simp: rels_ok_def deg_ok_def)
  have dg: "\<And>u. u < n \<Longrightarrow> unat (deg ! u) = length (owned (owner_list e rels) u)" using deg by (simp add: deg_ok_def owned_count)
  show ?thesis using buildCSRDirection_ok [of rels e n ts deg, OF own m dg] compress_ok by (auto simp: csr_repr_def Let_def)
qed

text \<open>
  C25: the incoming positions find their properties. For relationships inside the id space with their
  degree arrays, both adjacency directions build, and the position map recomputed from them alone, by six
  counting passes, sends the incoming position of every relationship to its own outgoing position,
  even among parallel relationships of one type. (Type atoms stay below the largest \<open>uint32\<close>, where
  the pass's key increment would wrap.)
\<close>

theorem in_to_out_correct:
  assumes "rels_ok n rels ts" "deg_ok n rels 0 degOut" "deg_ok n rels 1 degIn" "\<forall>t \<in> set ts. t \<noteq> 0xFFFFFFFF"
  shows "case (buildCSRDirection n rels ts degOut 0, buildCSRDirection n rels ts degIn 1) of
      (Some (oo, onb, ot, relToOut), Some (io, inb, it, relToIn)) \<Rightarrow>
        map_option (\<lambda>ito. map (\<lambda>p. ito ! unat p) relToIn)
          (computeInToOutFromCSR oo onb (compressRelTypes ot) io inb (compressRelTypes it)) = Some relToOut
    | _ \<Rightarrow> False"
proof -
  obtain oo onb ot r2o where o: "buildCSRDirection n rels ts degOut 0 = Some (oo, onb, ot, r2o)"
      "csr_repr n rels ts 0 oo onb (compressRelTypes ot)" "length r2o = length rels"
      "\<And>i. i < length rels \<Longrightarrow> unat (r2o ! i) = csr_pos (owner_list 0 rels) i"
    using build_repr [OF assms(1,2)] by auto
  obtain io inb it r2i where i: "buildCSRDirection n rels ts degIn 1 = Some (io, inb, it, r2i)"
      "csr_repr n rels ts 1 io inb (compressRelTypes it)" "length r2i = length rels"
      "\<And>i. i < length rels \<Longrightarrow> unat (r2i ! i) = csr_pos (owner_list 1 rels) i"
    using build_repr [OF assms(1,3)] by auto
  have "unat t + 1 < 2 ^ 32" if "t \<in> set ts" for t
  proof -
    have "unat t \<noteq> unat (0xFFFFFFFF :: u32)" using assms(4) that by (metis word_unat_eq_iff)
    then show ?thesis using unat_u32 [of t] by simp
  qed
  then obtain r where r: "computeInToOutFromCSR oo onb (compressRelTypes ot) io inb (compressRelTypes it) = Some r"
      "\<And>j. j < length rels \<Longrightarrow> unat (r ! csr_pos (owner_list 1 rels) j) = csr_pos (owner_list 0 rels) j"
    using computeInToOut_ok [OF assms(1) _ o(2) i(2)] by blast
  have "map (\<lambda>p. r ! unat p) r2i = r2o"
    using o(3,4) i(3,4) r(2) by (intro nth_equalityI) (simp_all flip: word_unat_eq_iff add: word_unat_eq_iff)
  then show ?thesis using o(1) i(1) r(1) by simp
qed

theorem in_to_out_correct_witness:
  "case (buildCSRDirection 2 [(0, 1), (1, 0), (0, 1)] [7, 7, 7] [2, 1] 0, buildCSRDirection 2 [(0, 1), (1, 0), (0, 1)] [7, 7, 7] [1, 2] 1) of
      (Some (oo, onb, ot, relToOut), Some (io, inb, it, relToIn)) \<Rightarrow>
        map_option (\<lambda>ito. map (\<lambda>p. ito ! unat p) relToIn)
          (computeInToOutFromCSR oo onb (compressRelTypes ot) io inb (compressRelTypes it)) = Some relToOut
    | _ \<Rightarrow> False"
  by (rule in_to_out_correct) (simp_all add: rels_ok_def deg_ok_def owner_of_def All_less_numeral)

end
