(* ===== verification/Nodeset.thy ===== *)
theory Nodeset
  imports GoPrelude
begin

text \<open>
  Node-id sets (\<open>nodeset/nodeset.go\<close>): a thin layer over the third-party package
  \<open>github.com/RoaringBitmap/roaring\<close>. The package is not part of the repository, so its operations are
  a record that every definition takes as an argument, and what its documentation promises is the
  predicate \<open>roaring_laws\<close>, a hypothesis of the results that need it. A list instance shows that the
  laws can hold.
\<close>

section \<open>The bitmap package as a parameter\<close>

text \<open>
  Mutating methods return the changed bitmap. \<open>rb_NextMany b k n\<close> is what the iterator of \<open>b\<close> puts into a
  buffer of length \<open>n\<close> when it has already delivered \<open>k\<close> ids.
\<close>

record 'bm roaring =
  rb_New :: 'bm
  rb_BitmapOf :: "u32 list \<Rightarrow> 'bm"
  rb_Clone :: "'bm \<Rightarrow> 'bm"
  rb_Add :: "'bm \<Rightarrow> u32 \<Rightarrow> 'bm"
  rb_AddMany :: "'bm \<Rightarrow> u32 list \<Rightarrow> 'bm"
  rb_CheckedAdd :: "'bm \<Rightarrow> u32 \<Rightarrow> 'bm \<times> bool"
  rb_Remove :: "'bm \<Rightarrow> u32 \<Rightarrow> 'bm"
  rb_CheckedRemove :: "'bm \<Rightarrow> u32 \<Rightarrow> 'bm \<times> bool"
  rb_Contains :: "'bm \<Rightarrow> u32 \<Rightarrow> bool"
  rb_IsEmpty :: "'bm \<Rightarrow> bool"
  rb_GetCardinality :: "'bm \<Rightarrow> u64"
  rb_Minimum :: "'bm \<Rightarrow> u32"
  rb_Maximum :: "'bm \<Rightarrow> u32"
  rb_ToArray :: "'bm \<Rightarrow> u32 list"
  rb_And :: "'bm \<Rightarrow> 'bm \<Rightarrow> 'bm"
  rb_Or :: "'bm \<Rightarrow> 'bm \<Rightarrow> 'bm"
  rb_AndNot :: "'bm \<Rightarrow> 'bm \<Rightarrow> 'bm"
  rb_Equals :: "'bm \<Rightarrow> 'bm \<Rightarrow> bool"
  rb_NextMany :: "'bm \<Rightarrow> nat \<Rightarrow> nat \<Rightarrow> u32 list"

definition rb_set :: "'bm roaring \<Rightarrow> 'bm \<Rightarrow> u32 set" where
  "rb_set R b = {x. rb_Contains R b x}"

definition roaring_laws :: "'bm roaring \<Rightarrow> bool" where
  "roaring_laws R \<longleftrightarrow>
     rb_set R (rb_New R) = {}
     \<and> (\<forall>xs. rb_set R (rb_BitmapOf R xs) = set xs)
     \<and> (\<forall>b. rb_set R (rb_Clone R b) = rb_set R b)
     \<and> (\<forall>b x. rb_set R (rb_Add R b x) = insert x (rb_set R b))
     \<and> (\<forall>b xs. rb_set R (rb_AddMany R b xs) = set xs \<union> rb_set R b)
     \<and> (\<forall>b x. rb_CheckedAdd R b x = (rb_Add R b x, \<not> rb_Contains R b x))
     \<and> (\<forall>b x. rb_set R (rb_Remove R b x) = rb_set R b - {x})
     \<and> (\<forall>b x. rb_CheckedRemove R b x = (rb_Remove R b x, rb_Contains R b x))
     \<and> (\<forall>b. rb_IsEmpty R b \<longleftrightarrow> rb_set R b = {})
     \<and> (\<forall>b. sorted_wrt (<) (rb_ToArray R b) \<and> set (rb_ToArray R b) = rb_set R b)
     \<and> (\<forall>b. unat (rb_GetCardinality R b) = length (rb_ToArray R b))
     \<and> (\<forall>b. rb_set R b \<noteq> {} \<longrightarrow> rb_Minimum R b = hd (rb_ToArray R b) \<and> rb_Maximum R b = last (rb_ToArray R b))
     \<and> (\<forall>b c. rb_set R (rb_And R b c) = rb_set R b \<inter> rb_set R c)
     \<and> (\<forall>b c. rb_set R (rb_Or R b c) = rb_set R b \<union> rb_set R c)
     \<and> (\<forall>b c. rb_set R (rb_AndNot R b c) = rb_set R b - rb_set R c)
     \<and> (\<forall>b c. rb_Equals R b c \<longleftrightarrow> rb_set R b = rb_set R c)
     \<and> (\<forall>b k n. rb_NextMany R b k n = take n (drop k (rb_ToArray R b)))"

lemma roaring_simps:
  assumes "roaring_laws R"
  shows "rb_set R (rb_New R) = {}" "rb_set R (rb_BitmapOf R xs) = set xs" "rb_set R (rb_Clone R b) = rb_set R b"
    "rb_set R (rb_Add R b x) = insert x (rb_set R b)" "rb_set R (rb_AddMany R b xs) = set xs \<union> rb_set R b"
    "rb_CheckedAdd R b x = (rb_Add R b x, x \<notin> rb_set R b)" "rb_set R (rb_Remove R b x) = rb_set R b - {x}"
    "rb_CheckedRemove R b x = (rb_Remove R b x, x \<in> rb_set R b)" "rb_IsEmpty R b \<longleftrightarrow> rb_set R b = {}"
    "sorted_wrt (<) (rb_ToArray R b)" "set (rb_ToArray R b) = rb_set R b" "unat (rb_GetCardinality R b) = card (rb_set R b)"
    "rb_set R (rb_And R b c) = rb_set R b \<inter> rb_set R c" "rb_set R (rb_Or R b c) = rb_set R b \<union> rb_set R c"
    "rb_set R (rb_AndNot R b c) = rb_set R b - rb_set R c" "rb_Equals R b c \<longleftrightarrow> rb_set R b = rb_set R c"
    "rb_NextMany R b k n = take n (drop k (rb_ToArray R b))" "rb_Contains R b x \<longleftrightarrow> x \<in> rb_set R b"
proof -
  have s: "sorted_wrt (<) (rb_ToArray R b)" "set (rb_ToArray R b) = rb_set R b" "unat (rb_GetCardinality R b) = length (rb_ToArray R b)"
    using assms by (auto simp: roaring_laws_def)
  then show "sorted_wrt (<) (rb_ToArray R b)" "set (rb_ToArray R b) = rb_set R b" "unat (rb_GetCardinality R b) = card (rb_set R b)"
    using distinct_card [OF sorted_wrt_less_distinct [OF s(1)]] by simp_all
qed (use assms in \<open>auto simp: roaring_laws_def rb_set_def\<close>)

lemma roaring_min_max:
  assumes "roaring_laws R" "rb_set R b \<noteq> {}"
  shows "rb_Minimum R b \<in> rb_set R b" "x \<in> rb_set R b \<Longrightarrow> rb_Minimum R b \<le> x"
    "rb_Maximum R b \<in> rb_set R b" "x \<in> rb_set R b \<Longrightarrow> x \<le> rb_Maximum R b"
proof -
  let ?a = "rb_ToArray R b"
  have a: "sorted ?a" "rb_set R b = set ?a" "?a \<noteq> []"
    using roaring_simps(10,11) [OF assms(1), of b] assms(2) by (auto simp: strict_sorted_imp_sorted)
  have mm: "rb_Minimum R b = hd ?a" "rb_Maximum R b = last ?a" using assms by (auto simp: roaring_laws_def)
  show "rb_Minimum R b \<in> rb_set R b" "rb_Maximum R b \<in> rb_set R b" using a mm by (metis hd_in_set last_in_set)+
  show "x \<in> rb_set R b \<Longrightarrow> rb_Minimum R b \<le> x" using a mm(1) by (cases ?a) auto
  show "x \<in> rb_set R b \<Longrightarrow> x \<le> rb_Maximum R b"
    using a mm(2) by (cases ?a rule: rev_cases) (auto simp: sorted_append)
qed

section \<open>Sets\<close>

record 'bm Set =
  set_bm :: 'bm

definition Set_New :: "'bm roaring \<Rightarrow> 'bm Set" where
  "Set_New R = \<lparr>set_bm = rb_New R\<rparr>"

definition Set_Of :: "'bm roaring \<Rightarrow> u32 list \<Rightarrow> 'bm Set" where
  "Set_Of R ids = \<lparr>set_bm = rb_BitmapOf R ids\<rparr>"

definition FromBitmap :: "'bm \<Rightarrow> 'bm Set" where
  "FromBitmap b = \<lparr>set_bm = b\<rparr>"

definition Set_Bitmap :: "'bm Set \<Rightarrow> 'bm" where
  "Set_Bitmap s = set_bm s"

definition Set_Clone :: "'bm roaring \<Rightarrow> 'bm Set \<Rightarrow> 'bm Set" where
  "Set_Clone R s = \<lparr>set_bm = rb_Clone R (set_bm s)\<rparr>"

definition Set_Len :: "'bm roaring \<Rightarrow> 'bm Set \<Rightarrow> nat" where
  "Set_Len R s = unat (rb_GetCardinality R (set_bm s))"

definition Set_IsEmpty :: "'bm roaring \<Rightarrow> 'bm Set \<Rightarrow> bool" where
  "Set_IsEmpty R s = rb_IsEmpty R (set_bm s)"

definition Set_Contains :: "'bm roaring \<Rightarrow> 'bm Set \<Rightarrow> u32 \<Rightarrow> bool" where
  "Set_Contains R s x = rb_Contains R (set_bm s) x"

definition Set_Insert :: "'bm roaring \<Rightarrow> 'bm Set \<Rightarrow> u32 \<Rightarrow> 'bm Set \<times> bool" where
  "Set_Insert R s x = (case rb_CheckedAdd R (set_bm s) x of (b, fresh) \<Rightarrow> (\<lparr>set_bm = b\<rparr>, fresh))"

definition Set_Remove :: "'bm roaring \<Rightarrow> 'bm Set \<Rightarrow> u32 \<Rightarrow> 'bm Set \<times> bool" where
  "Set_Remove R s x = (case rb_CheckedRemove R (set_bm s) x of (b, had) \<Rightarrow> (\<lparr>set_bm = b\<rparr>, had))"

definition Set_Min :: "'bm roaring \<Rightarrow> 'bm Set \<Rightarrow> u32 \<times> bool" where
  "Set_Min R s = (if rb_IsEmpty R (set_bm s) then (0, False) else (rb_Minimum R (set_bm s), True))"

definition Set_Max :: "'bm roaring \<Rightarrow> 'bm Set \<Rightarrow> u32 \<times> bool" where
  "Set_Max R s = (if rb_IsEmpty R (set_bm s) then (0, False) else (rb_Maximum R (set_bm s), True))"

definition AsRange :: "'bm roaring \<Rightarrow> 'bm Set \<Rightarrow> u32 \<times> u32 \<times> bool" where
  "AsRange R s =
     (case Set_Min R s of (mn, some) \<Rightarrow>
      if \<not> some then (0, 0, False)
      else
        let mx = fst (Set_Max R s);
            span = ucast mx - ucast mn + 1 :: u64
        in if span \<noteq> of_nat (Set_Len R s) \<or> mx = NOT 0 then (0, 0, False) else (mn, mx + 1, True))"

text \<open>
  The buffered walk: chunks of up to the buffer's length until the iterator delivers none. The consumer of
  \<open>IterChunks\<close> gets the chunk, that of \<open>iterYield\<close> each id of it.
\<close>

partial_function (option) chunk_walk :: "'bm roaring \<Rightarrow> 'bm \<Rightarrow> nat \<Rightarrow> (u32 list \<Rightarrow> 's \<Rightarrow> bool \<times> 's) \<Rightarrow> nat \<Rightarrow> 's \<Rightarrow> 's option" where
  "chunk_walk R b n yield k s =
     (let chunk = rb_NextMany R b k n in
      if chunk = [] then Some s
      else case yield chunk s of (go, s') \<Rightarrow>
        if \<not> go then Some s' else chunk_walk R b n yield (k + length chunk) s')"

definition IterChunks :: "'bm roaring \<Rightarrow> 'bm Set \<Rightarrow> nat \<Rightarrow> (u32 list \<Rightarrow> 's \<Rightarrow> bool \<times> 's) \<Rightarrow> 's \<Rightarrow> 's option" where
  "IterChunks R s n yield st = chunk_walk R (set_bm s) n yield 0 st"

definition iterYield :: "'bm roaring \<Rightarrow> 'bm Set \<Rightarrow> (u32 \<Rightarrow> 's \<Rightarrow> bool \<times> 's) \<Rightarrow> 's \<Rightarrow> 's option" where
  "iterYield R s yield st = chunk_walk R (set_bm s) 64 (yield_all yield) 0 st"

definition ToSlice :: "'bm roaring \<Rightarrow> 'bm Set \<Rightarrow> u32 list" where
  "ToSlice R s = rb_ToArray R (set_bm s)"

definition Set_And :: "'bm roaring \<Rightarrow> 'bm Set \<Rightarrow> 'bm Set \<Rightarrow> 'bm Set" where
  "Set_And R s t = \<lparr>set_bm = rb_And R (set_bm s) (set_bm t)\<rparr>"

definition Set_Or :: "'bm roaring \<Rightarrow> 'bm Set \<Rightarrow> 'bm Set \<Rightarrow> 'bm Set" where
  "Set_Or R s t = \<lparr>set_bm = rb_Or R (set_bm s) (set_bm t)\<rparr>"

definition Set_AndNot :: "'bm roaring \<Rightarrow> 'bm Set \<Rightarrow> 'bm Set \<Rightarrow> 'bm Set" where
  "Set_AndNot R s t = \<lparr>set_bm = rb_AndNot R (set_bm s) (set_bm t)\<rparr>"

definition Set_Equals :: "'bm roaring \<Rightarrow> 'bm Set \<Rightarrow> 'bm Set \<Rightarrow> bool" where
  "Set_Equals R s t = rb_Equals R (set_bm s) (set_bm t)"

definition ids :: "'bm roaring \<Rightarrow> 'bm Set \<Rightarrow> u32 set" where
  "ids R s = rb_set R (set_bm s)"

lemmas Set_defs = Set_New_def Set_Of_def FromBitmap_def Set_Bitmap_def Set_Clone_def Set_Len_def Set_IsEmpty_def Set_Contains_def
  Set_Insert_def Set_Remove_def Set_Min_def Set_Max_def ToSlice_def Set_And_def Set_Or_def Set_AndNot_def Set_Equals_def ids_def

lemma chunk_walk_ok:
  assumes "roaring_laws R" "0 < n"
  shows "chunk_walk R b n (yield_all yield) k s = Some (snd (yield_all yield (drop k (rb_ToArray R b)) s))"
proof (induction "length (rb_ToArray R b) - k" arbitrary: k s rule: less_induct)
  case less
  let ?xs = "rb_ToArray R b"
  note nm = roaring_simps(17) [OF assms(1)]
  show ?case
  proof (cases "k < length ?xs")
    case False
    then show ?thesis by (subst chunk_walk.simps) (simp add: nm Let_def)
  next
    case True
    then have ne: "take n (drop k ?xs) \<noteq> []" using assms(2) by simp
    have split: "drop k ?xs = take n (drop k ?xs) @ drop (k + min (length ?xs - k) n) ?xs"
    proof -
      have "drop (k + min (length ?xs - k) n) ?xs = drop n (drop k ?xs)" by (simp add: min_def add.commute)
      then show ?thesis using append_take_drop_id [of n "drop k ?xs"] by (simp only:)
    qed
    have "chunk_walk R b n (yield_all yield) (k + min (length ?xs - k) n) s'
        = Some (snd (yield_all yield (drop (k + min (length ?xs - k) n) ?xs) s'))" for s'
      using True assms(2) by (intro less.hyps diff_less_mono2) auto
    then show ?thesis
      using ne by (subst chunk_walk.simps, subst split) (auto simp: nm Let_def yield_all_append split: prod.split)
  qed
qed

section \<open>A list instance\<close>

definition arr :: "u32 list \<Rightarrow> u32 list" where
  "arr xs = sort (remdups xs)"

definition list_roaring :: "u32 list roaring" where
  "list_roaring = \<lparr>rb_New = [], rb_BitmapOf = (\<lambda>xs. xs), rb_Clone = (\<lambda>b. b), rb_Add = (\<lambda>b x. x # b), rb_AddMany = (\<lambda>b xs. xs @ b),
     rb_CheckedAdd = (\<lambda>b x. (x # b, x \<notin> set b)), rb_Remove = (\<lambda>b x. filter (\<lambda>y. y \<noteq> x) b),
     rb_CheckedRemove = (\<lambda>b x. (filter (\<lambda>y. y \<noteq> x) b, x \<in> set b)), rb_Contains = (\<lambda>b x. x \<in> set b),
     rb_IsEmpty = (\<lambda>b. b = []), rb_GetCardinality = (\<lambda>b. of_nat (length (arr b))), rb_Minimum = (\<lambda>b. hd (arr b)),
     rb_Maximum = (\<lambda>b. last (arr b)), rb_ToArray = arr, rb_And = (\<lambda>b c. filter (\<lambda>x. x \<in> set c) b), rb_Or = (@),
     rb_AndNot = (\<lambda>b c. filter (\<lambda>x. x \<notin> set c) b), rb_Equals = (\<lambda>b c. set b = set c),
     rb_NextMany = (\<lambda>b k n. take n (drop k (arr b)))\<rparr>"

lemma list_roaring_set [simp]: "rb_set list_roaring b = set b"
  by (simp add: rb_set_def list_roaring_def)

lemma list_roaring_laws: "roaring_laws list_roaring"
proof -
  have "sorted_wrt (<) (arr b)" for b by (simp add: arr_def strict_sorted_iff)
  moreover have "length (arr b) < 2 ^ 64" for b
  proof -
    have "length (arr b) = card (set b)" by (simp add: arr_def length_remdups_card_conv)
    also have "\<dots> \<le> card (UNIV :: u32 set)" by (intro card_mono) simp_all
    finally show ?thesis by (simp add: card_word)
  qed
  ultimately show ?thesis unfolding roaring_laws_def list_roaring_set
    by (auto simp: list_roaring_def arr_def unat_of_nat_less)
qed

section \<open>What the sets guarantee\<close>

lemma ids_finite [simp]: "finite (ids R s)"
  by simp

lemma AsRange_ok:
  assumes R: "roaring_laws R" and r: "AsRange R s = (lo, hi, True)"
  shows "ids R s = {x. lo \<le> x \<and> x < hi}" "lo < hi"
proof -
  let ?S = "rb_set R (set_bm s)" and ?b = "set_bm s"
  let ?mx = "rb_Maximum R ?b" and ?mn = "rb_Minimum R ?b"
  have ne: "?S \<noteq> {}" and lo: "lo = ?mn" and hi: "hi = ?mx + 1" and top: "?mx \<noteq> NOT 0"
    and span: "(ucast ?mx - ucast ?mn + 1 :: u64) = of_nat (card ?S)"
    using r by (auto simp: AsRange_def Set_defs roaring_simps [OF R] Let_def split: if_splits)
  note mm = roaring_min_max [OF R ne]
  have le: "unat ?mn \<le> unat ?mx" using mm(2) [OF mm(3)] by (simp add: word_le_nat_alt)
  have c32: "card ?S \<le> 2 ^ 32" using card_mono [of UNIV ?S] by (simp add: card_word)
  have "(of_nat (unat ?mx - unat ?mn + 1) :: u64) = of_nat (card ?S)" using span le by (simp add: of_nat_diff add.commute)
  moreover have "unat ?mx - unat ?mn + 1 < 2 ^ 64" "card ?S < 2 ^ 64" using unat_u32 [of ?mx] c32 by auto
  moreover have "unat (of_nat k :: u64) = k" if "k < 2 ^ 64" for k using that by (intro unat_of_nat_less) simp
  ultimately have card: "card ?S = unat ?mx - unat ?mn + 1" by metis
  have "unat ?mx \<noteq> unat (NOT 0 :: u32)" using top by (metis word_unat_eq_iff)
  then have "unat (?mx + 1) = unat ?mx + 1" using unat_u32 [of ?mx]
    by (simp add: unat_word_ariths unsigned_minus_1_eq_mask mask_eq_exp_minus_1)
  then have iv: "{x. lo \<le> x \<and> x < hi} = {x. unat ?mn \<le> unat x \<and> unat x \<le> unat ?mx}" "lo < hi"
    using lo hi le by (auto simp: word_le_nat_alt word_less_nat_alt)
  have "unat ` {x :: u32. unat ?mn \<le> unat x \<and> unat x \<le> unat ?mx} \<subseteq> {unat ?mn..unat ?mx}" by auto
  then have "card (unat ` {x :: u32. unat ?mn \<le> unat x \<and> unat x \<le> unat ?mx}) \<le> card {unat ?mn..unat ?mx}" by (intro card_mono) auto
  then have "card {x :: u32. unat ?mn \<le> unat x \<and> unat x \<le> unat ?mx} \<le> card ?S"
    using card le by (subst (asm) card_image) (auto intro!: inj_onI simp: word_unat_eq_iff)
  moreover have "?S \<subseteq> {x. unat ?mn \<le> unat x \<and> unat x \<le> unat ?mx}" using mm(2,4) by (auto simp: word_le_nat_alt)
  ultimately have "?S = {x. unat ?mn \<le> unat x \<and> unat x \<le> unat ?mx}" by (intro card_seteq) simp_all
  then show "ids R s = {x. lo \<le> x \<and> x < hi}" "lo < hi" using iv by (simp_all add: ids_def)
qed

lemma nodeset_ops:
  assumes "roaring_laws R"
  shows "ids R (Set_New R) = {}" "ids R (Set_Of R xs) = set xs" "ids R (Set_Clone R s) = ids R s"
    "Set_Len R s = card (ids R s)" "Set_IsEmpty R s \<longleftrightarrow> ids R s = {}" "Set_Contains R s x \<longleftrightarrow> x \<in> ids R s"
    "case Set_Insert R s x of (s', fresh) \<Rightarrow> ids R s' = insert x (ids R s) \<and> (fresh \<longleftrightarrow> x \<notin> ids R s)"
    "case Set_Remove R s x of (s', had) \<Rightarrow> ids R s' = ids R s - {x} \<and> (had \<longleftrightarrow> x \<in> ids R s)"
    "Set_Min R s = (if ids R s = {} then (0, False) else (Min (ids R s), True))"
    "Set_Max R s = (if ids R s = {} then (0, False) else (Max (ids R s), True))"
    "case AsRange R s of (lo, hi, ok) \<Rightarrow> \<not> ok \<or> ids R s = {x. lo \<le> x \<and> x < hi} \<and> lo < hi"
    "iterYield R s yield st = Some (snd (yield_all yield (sorted_list_of_set (ids R s)) st))"
    "IterChunks R s (Suc n) (yield_all yield) st = Some (snd (yield_all yield (sorted_list_of_set (ids R s)) st))"
    "ToSlice R s = sorted_list_of_set (ids R s)"
    "ids R (Set_And R s t) = ids R s \<inter> ids R t" "ids R (Set_Or R s t) = ids R s \<union> ids R t"
    "ids R (Set_AndNot R s t) = ids R s - ids R t" "Set_Equals R s t \<longleftrightarrow> ids R s = ids R t"
proof -
  note R = assms
  have arr: "rb_ToArray R (set_bm s) = sorted_list_of_set (ids R s)"
    using roaring_simps(10,11) [OF R, of "set_bm s"] sorted_list_of_set.idem_if_sorted_distinct [of "rb_ToArray R (set_bm s)"]
    by (simp add: ids_def strict_sorted_iff)
  show "iterYield R s yield st = Some (snd (yield_all yield (sorted_list_of_set (ids R s)) st))"
    by (simp add: iterYield_def chunk_walk_ok [OF R] arr)
  show "IterChunks R s (Suc n) (yield_all yield) st = Some (snd (yield_all yield (sorted_list_of_set (ids R s)) st))"
    by (simp add: IterChunks_def chunk_walk_ok [OF R] arr)
  show "ToSlice R s = sorted_list_of_set (ids R s)" by (simp add: ToSlice_def arr)
  show "case AsRange R s of (lo, hi, ok) \<Rightarrow> \<not> ok \<or> ids R s = {x. lo \<le> x \<and> x < hi} \<and> lo < hi"
    using AsRange_ok [OF R, of s] by (auto split: prod.split)
  show "Set_Min R s = (if ids R s = {} then (0, False) else (Min (ids R s), True))"
    "Set_Max R s = (if ids R s = {} then (0, False) else (Max (ids R s), True))"
    using roaring_min_max [OF R, of "set_bm s"] by (auto simp: Set_defs roaring_simps [OF R] intro!: Min_eqI [symmetric] Max_eqI [symmetric])
qed (simp_all add: Set_defs roaring_simps [OF assms])

text \<open>
  The chunks a buffer of \<open>n + 1\<close> ids cuts a list into.
\<close>

function chunks_of :: "nat \<Rightarrow> 'a list \<Rightarrow> 'a list list" where
  "chunks_of n xs = (if xs = [] then [] else take (Suc n) xs # chunks_of n (drop (Suc n) xs))"
  by pat_completeness auto
termination by (relation "measure (length \<circ> snd)") auto

declare chunks_of.simps [simp del]

lemma chunks_of_simps [simp]:
  "chunks_of n [] = []" "xs \<noteq> [] \<Longrightarrow> chunks_of n xs = take (Suc n) xs # chunks_of n (drop (Suc n) xs)"
  by (simp_all add: chunks_of.simps)

lemma concat_chunks_of: "concat (chunks_of n xs) = xs"
  by (induction n xs rule: chunks_of.induct) (subst chunks_of.simps, simp)

lemma chunks_of_size: "list_all (\<lambda>c. 0 < length c \<and> length c \<le> Suc n) (chunks_of n xs)"
  by (induction n xs rule: chunks_of.induct) (subst chunks_of.simps, simp)

lemma chunks_of_full: "list_all (\<lambda>c. length c = Suc n) (butlast (chunks_of n xs))"
proof (induction n xs rule: chunks_of.induct)
  case (1 n xs)
  show ?case
  proof (cases "drop (Suc n) xs = []")
    case True
    then have "chunks_of n (drop (Suc n) xs) = []" by (simp only: chunks_of_simps(1))
    then show ?thesis by (subst chunks_of.simps) simp
  next
    case False
    then have "Suc n < length xs" "xs \<noteq> []" by auto
    then show ?thesis using 1 by (subst chunks_of.simps) (simp add: min_def)
  qed
qed

lemma chunk_walk_chunks:
  assumes "roaring_laws R"
  shows "chunk_walk R b (Suc n) yield k s = Some (snd (yield_all yield (chunks_of n (drop k (rb_ToArray R b))) s))"
proof (induction "length (rb_ToArray R b) - k" arbitrary: k s rule: less_induct)
  case less
  let ?xs = "rb_ToArray R b"
  note nm = roaring_simps(17) [OF assms]
  show ?case
  proof (cases "k < length ?xs")
    case False
    then show ?thesis by (subst chunk_walk.simps) (simp add: nm Let_def)
  next
    case True
    let ?k = "k + min (length ?xs - k) (Suc n)"
    have rest: "drop (Suc n) (drop k ?xs) = drop ?k ?xs" by (simp add: min_def add.commute)
    have ch: "chunks_of n (drop k ?xs) = take (Suc n) (drop k ?xs) # chunks_of n (drop ?k ?xs)"
      using True rest by simp
    have ne: "take (Suc n) (drop k ?xs) \<noteq> []" using True by simp
    have "chunk_walk R b (Suc n) yield ?k s' = Some (snd (yield_all yield (chunks_of n (drop ?k ?xs)) s'))" for s'
      using True by (intro less.hyps diff_less_mono2) auto
    then show ?thesis unfolding ch
      using ne by (subst chunk_walk.simps) (auto simp: nm Let_def split: prod.split)
  qed
qed

lemma AsRange_complete:
  assumes R: "roaring_laws R" and i: "ids R s = {x. lo \<le> x \<and> x < hi}" and lt: "lo < hi"
  shows "AsRange R s = (lo, hi, True)"
proof -
  let ?b = "set_bm s"
  have S: "rb_set R ?b = {x. lo \<le> x \<and> x < hi}" using i by (simp add: ids_def)
  have h: "unat (hi - 1) = unat hi - 1" using lt by (intro unat_minus_one) auto
  have e: "rb_set R ?b = {x. unat lo \<le> unat x \<and> unat x < unat hi}"
    using S by (auto simp: word_le_nat_alt word_less_nat_alt)
  have lh: "unat lo < unat hi" using lt by (simp add: word_less_nat_alt)
  have ne: "rb_set R ?b \<noteq> {}" using lh unfolding e by blast
  note mm = roaring_min_max [OF R ne]
  have "unat (rb_Minimum R ?b) = unat lo"
    using mm(1) mm(2) [of lo] lh unfolding e by (simp add: word_le_nat_alt)
  then have mn: "rb_Minimum R ?b = lo" by (simp add: word_unat_eq_iff)
  have "unat (rb_Maximum R ?b) = unat (hi - 1)"
  proof (rule antisym)
    show "unat (rb_Maximum R ?b) \<le> unat (hi - 1)" using mm(3) h unfolding e by (simp, linarith)
    have "hi - 1 \<in> rb_set R ?b" using lh h unfolding e by simp
    from mm(4) [OF this] show "unat (hi - 1) \<le> unat (rb_Maximum R ?b)" by (simp add: word_le_nat_alt)
  qed
  then have mx: "rb_Maximum R ?b = hi - 1" by (simp add: word_unat_eq_iff)
  have "bij_betw unat (rb_set R ?b) {unat lo..<unat hi}" unfolding e
  proof (rule bij_betw_byWitness [where f' = of_nat])
    show "of_nat ` {unat lo..<unat hi} \<subseteq> {x :: u32. unat lo \<le> unat x \<and> unat x < unat hi}"
      "\<forall>y \<in> {unat lo..<unat hi}. unat (of_nat y :: u32) = y"
      using unat_u32 [of hi] by (auto simp: unat_of_nat_less)
  qed auto
  then have c: "card (rb_set R ?b) = unat hi - unat lo" using bij_betw_same_card by fastforce
  have "hi - 1 \<noteq> NOT 0" using h lh unat_u32 [of hi] by (auto simp: word_unat_eq_iff unsigned_minus_1_eq_mask mask_eq_exp_minus_1)
  moreover have "(ucast (hi - 1) - ucast lo + 1 :: u64) = of_nat (card (rb_set R ?b))"
  proof -
    have "(ucast (hi - 1) :: u64) = of_nat (unat hi - 1)" using h by (metis of_nat_unat)
    moreover have "(ucast lo :: u64) = of_nat (unat lo)" by simp
    ultimately show ?thesis using lh unfolding c by (simp add: of_nat_diff)
  qed
  ultimately show ?thesis by (simp add: AsRange_def Set_defs roaring_simps [OF R] ne mn mx Let_def)
qed

text \<open>
  C27: what the set layer adds to the bitmap package, given a package that keeps its documented promises. \<open>AsRange\<close> is exact in both directions: it
  reports a half-open range precisely when the set is that non-empty range, and \<open>(0, 0, false)\<close> otherwise (a gap-free set that holds the largest id
  has no half-open form in 32 bits and is not reported, which the comment of the function leaves out). \<open>IterChunks\<close> returns: it hands
  over the ids ascending, once each, in chunks that fill the buffer except for the last one, none of them empty, and stops when the consumer does; an
  empty buffer gives no chunk. The id iterator with its 64-slot buffer is the same walk id by id, stopping in the middle of a chunk.
\<close>

theorem range_and_chunks_exact:
  assumes "roaring_laws R"
  shows "(AsRange R s = (lo, hi, True) \<longleftrightarrow> lo < hi \<and> ids R s = {x. lo \<le> x \<and> x < hi})
    \<and> (AsRange R s = (0, 0, False) \<longleftrightarrow> (\<nexists>lo hi. lo < hi \<and> ids R s = {x. lo \<le> x \<and> x < hi}))
    \<and> (\<exists>cs. concat cs = sorted_list_of_set (ids R s)
        \<and> list_all (\<lambda>c. length c = Suc n) (butlast cs) \<and> list_all (\<lambda>c. 0 < length c \<and> length c \<le> Suc n) cs
        \<and> IterChunks R s (Suc n) yield st = Some (snd (yield_all yield cs st)))
    \<and> IterChunks R s 0 yield st = Some st
    \<and> iterYield R s yield' st' = Some (snd (yield_all yield' (sorted_list_of_set (ids R s)) st'))"
  (is "?range \<and> ?none \<and> ?chunks \<and> ?nobuf \<and> ?ids")
proof (intro conjI)
  have r: "AsRange R s = (lo, hi, True) \<longleftrightarrow> lo < hi \<and> ids R s = {x. lo \<le> x \<and> x < hi}" for lo hi
    using AsRange_ok [OF assms] AsRange_complete [OF assms] by blast
  show ?range by (rule r)
  have "snd (snd (AsRange R s)) \<or> AsRange R s = (0, 0, False)"
    by (auto simp: AsRange_def Let_def split: prod.split)
  then have "AsRange R s = (0, 0, False) \<longleftrightarrow> (\<nexists>lo hi. AsRange R s = (lo, hi, True))" by (cases "AsRange R s") auto
  then show ?none unfolding r .
  have "rb_ToArray R (set_bm s) = sorted_list_of_set (ids R s)" using nodeset_ops(14) [OF assms, of s] by (simp add: ToSlice_def)
  then have "IterChunks R s (Suc n) yield st = Some (snd (yield_all yield (chunks_of n (sorted_list_of_set (ids R s))) st))"
    by (simp add: IterChunks_def chunk_walk_chunks [OF assms])
  then show ?chunks using concat_chunks_of chunks_of_full chunks_of_size by blast
  show ?nobuf unfolding IterChunks_def by (subst chunk_walk.simps) (simp add: roaring_simps(17) [OF assms])
  show ?ids by (rule nodeset_ops(12) [OF assms])
qed

theorem range_and_chunks_exact_witness:
  "(AsRange list_roaring \<lparr>set_bm = [4, 3, 5, 3]\<rparr> = (3, 6, True) \<longleftrightarrow> 3 < (6 :: u32) \<and> ids list_roaring \<lparr>set_bm = [4, 3, 5, 3]\<rparr> = {x. 3 \<le> x \<and> x < 6})
    \<and> AsRange list_roaring \<lparr>set_bm = [4, 3, 5, 3]\<rparr> = (3, 6, True)
    \<and> (\<exists>cs. concat cs = sorted_list_of_set (ids list_roaring \<lparr>set_bm = [4, 3, 5, 3]\<rparr>)
        \<and> list_all (\<lambda>c. length c = 2) (butlast cs) \<and> list_all (\<lambda>c. 0 < length c \<and> length c \<le> 2) cs
        \<and> IterChunks list_roaring \<lparr>set_bm = [4, 3, 5, 3]\<rparr> 2 (\<lambda>c acc. (length acc < 4, acc @ [c])) [] = Some (snd (yield_all (\<lambda>c acc. (length acc < 4, acc @ [c])) cs [])))"
proof -
  let ?s = "\<lparr>set_bm = [4, 3, 5, 3]\<rparr>" and ?y = "\<lambda>c acc. (length acc < 4, acc @ [c :: u32 list])"
  have "AsRange list_roaring ?s = (3, 6, True)"
    by (simp add: AsRange_def Set_defs list_roaring_def arr_def Let_def)
  moreover note range_and_chunks_exact [OF list_roaring_laws, where s = ?s and lo = 3 and hi = 6 and n = 1 and yield = ?y and st = "[]", THEN conjunct1]
  moreover note range_and_chunks_exact [OF list_roaring_laws, where s = ?s and n = 1 and yield = ?y and st = "[]", THEN conjunct2, THEN conjunct2, THEN conjunct1,
      folded One_nat_def, unfolded Suc_1]
  ultimately show ?thesis by (intro conjI)
qed

end
