(* ===== verification/Bytes.thy ===== *)
theory Bytes
  imports GoPrelude
begin

text \<open>
  Byte buffers and \<open>encoding/binary.LittleEndian\<close>, as the narrow columns and the file codec use
  them: \<open>UintN(b[off:])\<close> and \<open>PutUintN(b[off:], v)\<close>, which panic when fewer than N bytes are left.
\<close>

fun le_nat :: "u8 list \<Rightarrow> nat" where
  "le_nat [] = 0"
| "le_nat (b # bs) = unat b + 256 * le_nat bs"

fun le_bytes :: "nat \<Rightarrow> nat \<Rightarrow> u8 list" where
  "le_bytes 0 d = []"
| "le_bytes (Suc k) d = of_nat d # le_bytes k (d div 256)"

text \<open>The \<open>k\<close> bytes at \<open>off\<close>, as in \<open>b[off:off+k]\<close>.\<close>

definition bytes_at :: "u8 list \<Rightarrow> nat \<Rightarrow> nat \<Rightarrow> u8 list option" where
  "bytes_at b off k = (if off + k \<le> length b then Some (take k (drop off b)) else None)"

definition le_load :: "nat \<Rightarrow> u8 list \<Rightarrow> nat \<Rightarrow> nat option" where
  "le_load k b off = map_option le_nat (bytes_at b off k)"

definition put_bytes :: "u8 list \<Rightarrow> nat \<Rightarrow> u8 list \<Rightarrow> u8 list option" where
  "put_bytes b off bs =
     (if off + length bs \<le> length b then Some (take off b @ bs @ drop (off + length bs) b) else None)"

definition le_store :: "nat \<Rightarrow> u8 list \<Rightarrow> nat \<Rightarrow> nat \<Rightarrow> u8 list option" where
  "le_store k b off d = put_bytes b off (le_bytes k d)"

lemma length_le_bytes [simp]: "length (le_bytes k d) = k"
  by (induction k arbitrary: d) simp_all

lemma le_nat_bound: "le_nat bs < 256 ^ length bs"
proof (induction bs)
  case (Cons b bs)
  have "unat b < 256" using unsigned_less [of b, where ?'a = nat] by simp
  then show ?case using Cons by simp
qed simp

lemma le_nat_bytes: "le_nat (le_bytes k d) = d mod 256 ^ k"
proof (induction k arbitrary: d)
  case (Suc k)
  have "unat (of_nat d :: u8) = d mod 256" by (simp add: unsigned_of_nat take_bit_eq_mod)
  then show ?case using Suc mod_mult2_eq [of d 256 "256 ^ k"] by simp
qed simp

lemma le_bytes_nat: "le_bytes (length bs) (le_nat bs) = bs"
proof (induction bs)
  case (Cons b bs)
  have b: "unat b < 256" using unsigned_less [of b, where ?'a = nat] by simp
  have z: "(256 :: u8) = 0" by simp
  have "of_nat (unat b + 256 * le_nat bs) = b" by (simp add: z)
  then show ?case using Cons b by simp
qed simp

lemma le_bytes_mod: "le_bytes k (d mod 256 ^ k) = le_bytes k d"
  using le_bytes_nat [of "le_bytes k d"] by (simp add: le_nat_bytes)

lemma le_nat_append: "le_nat (xs @ ys) = le_nat xs + 256 ^ length xs * le_nat ys"
  by (induction xs) (simp_all add: algebra_simps)

lemma le_bytes_append: "le_bytes (j + k) d = le_bytes j d @ le_bytes k (d div 256 ^ j)"
  by (induction j arbitrary: d) (simp_all add: div_mult2_eq)

lemma put_bytes_mid:
  "length xs = off \<Longrightarrow> length ys = length bs \<Longrightarrow> put_bytes (xs @ ys @ zs) off bs = Some (xs @ bs @ zs)"
  by (auto simp: put_bytes_def)

lemma bytes_at_mid: "length xs = off \<Longrightarrow> length ys = k \<Longrightarrow> bytes_at (xs @ ys @ zs) off k = Some ys"
  by (auto simp: bytes_at_def)

text \<open>Fixed-width records laid out one after the other.\<close>

lemma length_concat_same: "(\<And>x. x \<in> set xs \<Longrightarrow> length (f x) = w) \<Longrightarrow> length (concat (map f xs)) = length xs * w"
  by (induction xs) simp_all

lemma concat_split_nth:
  assumes "\<And>x. x \<in> set xs \<Longrightarrow> length (f x) = w" "i < length xs"
  obtains ys zs where "concat (map f xs) = ys @ f (xs ! i) @ zs" "length ys = i * w" "length zs = (length xs - Suc i) * w"
proof -
  have "concat (map f xs) = concat (map f (take i xs)) @ f (xs ! i) @ concat (map f (drop (Suc i) xs))"
    using id_take_nth_drop [OF assms(2)] by (metis concat.simps(2) concat_append list.simps(9) map_append)
  moreover have "length (concat (map f (take i xs))) = i * w"
    using assms by (subst length_concat_same [of _ _ w]) (auto dest: in_set_takeD)
  moreover have "length (concat (map f (drop (Suc i) xs))) = (length xs - Suc i) * w"
    using assms by (subst length_concat_same [of _ _ w]) (auto dest: in_set_dropD)
  ultimately show ?thesis by (rule that)
qed

end
