(* ===== verification/Narrow.thy ===== *)
theory Narrow
  imports Bytes Values
begin

text \<open>
  Narrow integer storage (\<open>column_narrow.go\<close>): values stored as little-endian offsets from the
  minimum in 1, 2, 4 or 6 bytes.
\<close>

record narrowI64Vec =
  nmin :: i64
  nw :: u8
  nb :: "u8 list"

definition narrow_n :: "narrowI64Vec \<Rightarrow> nat" where
  "narrow_n v = length (nb v) div unat (nw v)"

definition narrowU48Mask :: u64 where
  "narrowU48Mask = 0xFFFFFFFFFFFF"

definition narrow_at :: "narrowI64Vec \<Rightarrow> nat \<Rightarrow> i64 option" where
  "narrow_at v i =
     (if nw v = 1 then map_option (\<lambda>x. nmin v + ucast x) (slice_at (nb v) i)
      else if nw v = 2 then map_option (\<lambda>x. nmin v + of_nat x) (le_load 2 (nb v) (i * 2))
      else if nw v = 4 then map_option (\<lambda>x. nmin v + of_nat x) (le_load 4 (nb v) (i * 4))
      else map_option (\<lambda>x. nmin v + (of_nat x AND narrowU48Mask)) (le_load 8 (nb v) (i * 6)))"

definition narrowI64MinLen :: nat where
  "narrowI64MinLen = 1024"

text \<open>The loop that both \<open>narrowI64Vals\<close> and \<open>narrowI64Column\<close> start with.\<close>

definition min_max :: "i64 list \<Rightarrow> i64 \<times> i64" where
  "min_max vals =
     fold (\<lambda>v (mn, mx). (if sint v < sint mn then v else mn, if sint v > sint mx then v else mx))
       vals (vals ! 0, vals ! 0)"

definition narrow_put :: "u8 \<Rightarrow> u8 list \<Rightarrow> nat \<Rightarrow> u64 \<Rightarrow> u8 list option" where
  "narrow_put w b i d =
     (if w = 1 then slice_set b i (ucast d)
      else if w = 2 then le_store 2 b (i * 2) (unat (ucast d :: u16))
      else if w = 4 then le_store 4 b (i * 4) (unat (ucast d :: u32))
      else do {
        b1 \<leftarrow> le_store 4 b (i * 6) (unat (ucast d :: u32));
        le_store 2 b1 (i * 6 + 4) (unat (ucast (drop_bit 32 d) :: u16))
      })"

text \<open>The byte class a span needs; 0 where the Go code gives up.\<close>

definition narrow_width :: "u64 \<Rightarrow> u8" where
  "narrow_width span =
     (if span \<le> 0xFF then 1 else if span \<le> 0xFFFF then 2 else if span \<le> 0xFFFFFFFF then 4
      else if span \<le> 0xFFFFFFFFFFFF then 6 else 0)"

text \<open>\<^term>\<open>Some None\<close> is the not-ok result; the outer \<^term>\<open>None\<close> an index panic.\<close>

definition narrowI64Vals :: "i64 list \<Rightarrow> narrowI64Vec option option" where
  "narrowI64Vals vals =
     (if length vals < narrowI64MinLen then Some None
      else case min_max vals of (mn, mx) \<Rightarrow>
        let w = narrow_width (mx - mn) in
        if w = 0 then Some None
        else
          let pad = (if w = 6 then 2 else 0) in
          do {
            b \<leftarrow> fold_opt (\<lambda>(i, v) b. narrow_put w b i (v - mn)) (enumerate 0 vals)
                   (replicate (length vals * unat w + pad) 0);
            Some (Some \<lparr>nmin = mn, nw = w, nb = b\<rparr>)
          })"

section \<open>Correctness of the encoding\<close>

lemma min_max_bounds:
  assumes "vals \<noteq> []" "min_max vals = (mn, mx)"
  shows "mn \<in> set vals" "mx \<in> set vals" "\<And>v. v \<in> set vals \<Longrightarrow> sint mn \<le> sint v \<and> sint v \<le> sint mx"
proof -
  let ?f = "\<lambda>v (mn, mx). (if sint v < sint mn then v else mn, if sint v > sint mx then v else (mx::i64))"
  have "case fold ?f vs (a, b) of (mn, mx) \<Rightarrow> mn \<in> insert a (set vs) \<and> mx \<in> insert b (set vs)
      \<and> sint mn \<le> sint a \<and> sint b \<le> sint mx \<and> (\<forall>v \<in> set vs. sint mn \<le> sint v \<and> sint v \<le> sint mx)" for vs a b
  proof (induction vs arbitrary: a b)
    case (Cons v vs)
    show ?case using Cons [of "if sint v < sint a then v else a" "if sint v > sint b then v else b"]
      by (auto split: prod.splits if_splits)
  qed simp
  from this [where vs = vals and a = "vals ! 0" and b = "vals ! 0"] assms show "mn \<in> set vals" "mx \<in> set vals"
    "\<And>v. v \<in> set vals \<Longrightarrow> sint mn \<le> sint v \<and> sint v \<le> sint mx"
    unfolding min_max_def by (auto simp: insert_absorb)
qed

lemma delta_bound:
  "sint mn \<le> sint v \<Longrightarrow> sint v \<le> sint mx \<Longrightarrow> unat (v - mn) \<le> unat (mx - mn)" for v mn mx :: i64
  using uint_diff_sint [of mn v] uint_diff_sint [of mn mx] by (simp add: unat_eq_nat_uint)

lemma narrow_width_cases:
  assumes "narrow_width span \<noteq> 0"
  shows "narrow_width span \<in> {1, 2, 4, 6}" "unat span < 256 ^ unat (narrow_width span)"
  using assms by (auto simp: narrow_width_def word_le_nat_alt split: if_splits)

lemma narrow_width_zero: "narrow_width span = 0 \<longleftrightarrow> 2 ^ 48 \<le> unat span"
  by (auto simp: narrow_width_def word_le_nat_alt)

text \<open>Storing one offset writes its \<open>w\<close> little-endian bytes.\<close>

lemma narrow_put_ok:
  assumes w: "w \<in> {1, 2, 4, 6}" and len: "length xs = i * unat w" "length ys = unat w"
  shows "narrow_put w (xs @ ys @ zs) i d = Some (xs @ le_bytes (unat w) (unat d) @ zs)"
proof -
  have m: "le_bytes 2 (unat (ucast c :: u16)) = le_bytes 2 (unat c)" "le_bytes 4 (unat (ucast c :: u32)) = le_bytes 4 (unat c)" for c :: u64
    using le_bytes_mod [of 2 "unat c"] le_bytes_mod [of 4 "unat c"] by (simp_all add: unat_ucast_down)
  have m1: "le_bytes 1 (unat d) = [ucast d]" by simp
  consider "w = 1" | "w = 2" | "w = 4" | "w = 6" using w by auto
  then show ?thesis
  proof cases
    case 1
    then obtain y where "ys = [y]" using len by (auto simp: length_Suc_conv)
    with 1 len m1 show ?thesis by (simp add: narrow_put_def list_update_append)
  next
    case 4
    obtain y4 y2 where ys: "ys = y4 @ y2" "length y4 = 4" "length y2 = 2"
      using len 4 that [of "take 4 ys" "drop 4 ys"] by simp
    have "le_store 4 (xs @ ys @ zs) (i * 6) (unat (ucast d :: u32)) = Some (xs @ le_bytes 4 (unat d) @ y2 @ zs)"
      using put_bytes_mid [of xs "i * 6" y4 "le_bytes 4 (unat d)" "y2 @ zs"] len 4 ys by (simp add: le_store_def m)
    moreover have "le_store 2 (xs @ le_bytes 4 (unat d) @ y2 @ zs) (i * 6 + 4) (unat (ucast (drop_bit 32 d) :: u16))
        = Some (xs @ le_bytes 4 (unat d) @ le_bytes 2 (unat (drop_bit 32 d)) @ zs)"
      using put_bytes_mid [of "xs @ le_bytes 4 (unat d)" "i * 6 + 4" y2 "le_bytes 2 (unat (drop_bit 32 d))" zs] len 4 ys
      by (simp add: le_store_def m)
    moreover have "le_bytes 6 (unat d) = le_bytes 4 (unat d) @ le_bytes 2 (unat (drop_bit 32 d))"
      using le_bytes_append [of 4 2 "unat d"] unat_drop_bit_eq [of 32 d]
      by (simp add: drop_bit_eq_div [where ?'a = nat])
    ultimately show ?thesis using 4 by (simp add: narrow_put_def)
  qed (use len put_bytes_mid in \<open>auto simp: narrow_put_def le_store_def m\<close>)
qed

definition narrow_bytes :: "u8 \<Rightarrow> i64 \<Rightarrow> i64 list \<Rightarrow> u8 list" where
  "narrow_bytes w mn vals = concat (map (\<lambda>v. le_bytes (unat w) (unat (v - mn))) vals)"

lemma narrow_fill:
  assumes w: "w \<in> {1, 2, 4, 6}"
  shows "fold_opt (\<lambda>(i, v) b. narrow_put w b i (v - mn)) (enumerate 0 vals)
      (replicate (length vals * unat w + pad) 0) = Some (narrow_bytes w mn vals @ replicate pad 0)"
proof -
  let ?f = "\<lambda>(i, v) b. narrow_put w b i (v - mn)" and ?n = "length vals"
  let ?P = "\<lambda>k b. b = narrow_bytes w mn (take k vals) @ replicate ((?n - k) * unat w + pad) 0"
  have "\<exists>t. fold_opt ?f (enumerate 0 vals) (replicate (?n * unat w + pad) 0) = Some t
      \<and> ?P (length (enumerate 0 vals)) t"
  proof (rule fold_opt_rule [where P = ?P])
    fix k b assume "k < length (enumerate 0 vals)" and b: "?P k b"
    then have k: "k < ?n" by simp
    then have split: "(?n - k) * unat w + pad = unat w + ((?n - Suc k) * unat w + pad)"
      by (metis Suc_diff_Suc add.assoc mult_Suc)
    have len: "length (narrow_bytes w mn (take k vals)) = k * unat w"
      using k unfolding narrow_bytes_def by (subst length_concat_same) auto
    have b': "b = narrow_bytes w mn (take k vals) @ replicate (unat w) 0 @ replicate ((?n - Suc k) * unat w + pad) 0"
      unfolding b split by (simp add: replicate_add)
    have "narrow_put w b k (vals ! k - mn) = Some (narrow_bytes w mn (take k vals)
        @ le_bytes (unat w) (unat (vals ! k - mn)) @ replicate ((?n - Suc k) * unat w + pad) 0)"
      unfolding b' using len by (intro narrow_put_ok [OF w]) simp_all
    moreover have "narrow_bytes w mn (take (Suc k) vals) = narrow_bytes w mn (take k vals) @ le_bytes (unat w) (unat (vals ! k - mn))"
      using k by (simp add: narrow_bytes_def take_Suc_conv_app_nth)
    ultimately show "\<exists>b'. ?f (enumerate 0 vals ! k) b = Some b' \<and> ?P (Suc k) b'"
      using k by (simp add: nth_enumerate_eq)
  qed (simp add: narrow_bytes_def)
  then show ?thesis by simp
qed

text \<open>Reading slot \<open>i\<close> back.\<close>

lemma narrow_at_ok:
  assumes w: "w \<in> {1, 2, 4, 6}" and pad: "w = 6 \<longrightarrow> pad = 2" and i: "i < length vals"
    and fit: "unat (vals ! i - mn) < 256 ^ unat w"
  shows "narrow_at \<lparr>nmin = mn, nw = w, nb = narrow_bytes w mn vals @ replicate pad 0\<rparr> i = Some (vals ! i)"
proof -
  let ?d = "vals ! i - mn"
  obtain ys zs where b: "narrow_bytes w mn vals = ys @ le_bytes (unat w) (unat ?d) @ zs" "length ys = i * unat w"
      "length zs = (length vals - Suc i) * unat w"
    unfolding narrow_bytes_def
    using i by (elim concat_split_nth [where f = "\<lambda>v. le_bytes (unat w) (unat (v - mn))" and w = "unat w", rotated]) simp_all
  have dec: "le_nat (le_bytes (unat w) (unat ?d)) = unat ?d" using fit by (simp add: le_nat_bytes)
  have load: "le_load (unat w) (narrow_bytes w mn vals @ replicate pad 0) (i * unat w) = Some (unat ?d)"
    using bytes_at_mid [of ys "i * unat w" "le_bytes (unat w) (unat ?d)" "unat w" "zs @ replicate pad 0"]
    by (simp add: le_load_def b dec)
  consider "w = 1" | "w = 2" | "w = 4" | "w = 6" using w by auto
  then show ?thesis
  proof cases
    case 1
    then have "slice_at (narrow_bytes w mn vals @ replicate pad 0) i = Some (ucast ?d)"
      using b by (simp add: slice_at_def nth_append)
    moreover have "ucast (ucast ?d :: u8) = ?d" using fit 1 by (simp add: word_unat_eq_iff unat_ucast_down [where 'b = 8])
    ultimately show ?thesis using 1 by (simp add: narrow_at_def)
  next
    case 4
    define rest :: "u8 list" where "rest = zs @ replicate pad 0"
    have w6: "unat w = 6" using 4 by simp
    have r: "2 \<le> length rest" using pad 4 by (simp add: rest_def)
    have "narrow_bytes w mn vals @ replicate pad 0 = ys @ (le_bytes 6 (unat ?d) @ take 2 rest) @ drop 2 rest"
      unfolding b(1) w6 append.assoc append_take_drop_id by (simp add: rest_def)
    moreover have "length ys = i * 6" "length (le_bytes 6 (unat ?d) @ take 2 rest) = 8" using b(2) w6 r by simp_all
    ultimately have "bytes_at (narrow_bytes w mn vals @ replicate pad 0) (i * 6) 8 = Some (le_bytes 6 (unat ?d) @ take 2 rest)"
      using bytes_at_mid by metis
    then have "le_load 8 (narrow_bytes w mn vals @ replicate pad 0) (i * 6) = Some (unat ?d + 2 ^ 48 * le_nat (take 2 rest))"
      using dec w6 by (simp add: le_load_def le_nat_append)
    moreover have "(of_nat (unat ?d + 2 ^ 48 * x) :: u64) AND narrowU48Mask = ?d" for x
    proof -
      have m48: "narrowU48Mask = mask 48" by (simp add: narrowU48Mask_def mask_eq_exp_minus_1)
      have tb: "unat (take_bit 48 (of_nat m :: u64)) = take_bit 48 m" for m
        by (simp add: unsigned_take_bit_eq unsigned_of_nat del: take_bit_of_nat of_nat_add)
      have "take_bit 48 (unat ?d + 2 ^ 48 * x) = unat ?d" using fit w6 by (simp add: take_bit_eq_mod)
      then show ?thesis
        unfolding m48 take_bit_eq_mask [symmetric] word_unat_eq_iff tb .
    qed
    ultimately show ?thesis using 4 by (simp add: narrow_at_def)
  qed (use load in \<open>simp_all add: narrow_at_def\<close>)
qed

text \<open>A narrow vector that stands for a list of values.\<close>

definition narrow_repr :: "narrowI64Vec \<Rightarrow> i64 list \<Rightarrow> bool" where
  "narrow_repr nv vals \<longleftrightarrow> narrow_n nv = length vals \<and> (\<forall>i < length vals. narrow_at nv i = Some (vals ! i))"

lemma narrowI64Vals_ok:
  shows "\<exists>r. narrowI64Vals vals = Some r \<and> (\<forall>nv. r = Some nv \<longrightarrow> narrow_repr nv vals)
    \<and> (r = None \<longleftrightarrow> length vals < 1024 \<or> 2 ^ 48 \<le> unat (snd (min_max vals) - fst (min_max vals)))"
proof (cases "length vals < 1024")
  case True
  then show ?thesis by (simp add: narrowI64Vals_def narrowI64MinLen_def)
next
  case False
  obtain mn mx where mm: "min_max vals = (mn, mx)" by force
  have ne: "vals \<noteq> []" using False by auto
  let ?w = "narrow_width (mx - mn)"
  show ?thesis
  proof (cases "?w = 0")
    case True
    then show ?thesis using False mm narrow_width_zero [of "mx - mn"]
      by (simp add: narrowI64Vals_def narrowI64MinLen_def Let_def)
  next
    case w0: False
    note w = narrow_width_cases [OF w0]
    let ?pad = "if ?w = 6 then 2 else 0" and ?b = "narrow_bytes ?w mn vals @ replicate (if ?w = 6 then 2 else 0) 0"
    let ?nv = "\<lparr>nmin = mn, nw = ?w, nb = ?b\<rparr>"
    have "narrow_at ?nv i = Some (vals ! i)" if "i < length vals" for i
    proof (rule narrow_at_ok [OF w(1) _ that])
      have "unat (vals ! i - mn) \<le> unat (mx - mn)"
        using min_max_bounds(3) [OF ne mm, of "vals ! i"] that by (intro delta_bound) auto
      then show "unat (vals ! i - mn) < 256 ^ unat ?w" using w(2) by simp
    qed simp
    moreover have "narrow_n ?nv = length vals"
    proof -
      have "length (narrow_bytes ?w mn vals) = length vals * unat ?w"
        unfolding narrow_bytes_def by (subst length_concat_same) auto
      moreover have "?pad < unat ?w" using w(1) by auto
      ultimately show ?thesis by (simp add: narrow_n_def div_mult_self3)
    qed
    ultimately have "narrow_repr ?nv vals" by (simp add: narrow_repr_def)
    moreover have "narrowI64Vals vals = Some (Some ?nv)"
      using False mm w0 narrow_fill [OF w(1), of mn vals ?pad]
      by (simp add: narrowI64Vals_def narrowI64MinLen_def Let_def)
    ultimately show ?thesis using False mm w0 narrow_width_zero [of "mx - mn"] by simp
  qed
qed

section \<open>Properties\<close>

text \<open>
  Narrowing is lossless. The encoder never panics; it declines exactly when the column is shorter
  than 1024 values or the values span \<open>2^48\<close> or more; otherwise the vector it builds has as many
  slots as there were values and every slot decodes to its value.
\<close>

lemma narrow_roundtrip:
  "\<exists>r. narrowI64Vals vals = Some r \<and>
    (let declined = (length vals < 1024 \<or> 2 ^ 48 \<le> unat (snd (min_max vals) - fst (min_max vals))) in
     case r of None \<Rightarrow> declined
     | Some nv \<Rightarrow> \<not> declined \<and> narrow_n nv = length vals \<and> map (narrow_at nv) [0..<length vals] = map Some vals)"
proof -
  obtain r where r: "narrowI64Vals vals = Some r" "\<And>nv. r = Some nv \<Longrightarrow> narrow_repr nv vals"
      "r = None \<longleftrightarrow> length vals < 1024 \<or> 2 ^ 48 \<le> unat (snd (min_max vals) - fst (min_max vals))"
    using narrowI64Vals_ok [of vals] by auto
  have "map (narrow_at nv) [0..<length vals] = map Some vals" if "narrow_repr nv vals" for nv
    using that by (intro nth_equalityI) (auto simp: narrow_repr_def)
  then show ?thesis using r by (cases r) (auto simp: Let_def narrow_repr_def)
qed

end
