(* ===== verification/Columns.thy ===== *)
theory Columns
  imports Narrow Bitset
begin

text \<open>
  Property columns: the storage classes of \<open>column.go\<close>, \<open>column_narrow.go\<close> and \<open>column_rank.go\<close>
  behind the interface \<open>Column\<close>. Go's \<open>(Value, bool)\<close> results are options with \<^term>\<open>None\<close> for not-ok; an
  outer \<^term>\<open>None\<close> is an index panic. An iterator \<open>Entries\<close> is the list of pairs it yields.
\<close>

datatype Dtype = DtypeI64 | DtypeF64 | DtypeBool | DtypeStr

section \<open>Shared read paths\<close>

text \<open>The dense bounds check and index.\<close>

definition dense_get :: "('a \<Rightarrow> Value) \<Rightarrow> 'a list \<Rightarrow> u32 \<Rightarrow> Value option option" where
  "dense_get mk xs pos =
     (if unat pos \<ge> length xs then Some None else map_option (\<lambda>v. Some (mk v)) (slice_at xs (unat pos)))"

definition dense_entries :: "('a \<Rightarrow> Value) \<Rightarrow> 'a list \<Rightarrow> (u32 \<times> Value) list option" where
  "dense_entries mk xs = Some (map (\<lambda>(i, v). (of_nat i, mk v)) (enumerate 0 xs))"

definition sparseSlot :: "u32 list \<Rightarrow> u32 \<Rightarrow> nat option" where
  "sparseSlot ids pos =
     (let lo = search_loop (\<lambda>mid. \<not> ids ! mid < pos) 0 (length ids) in
      if lo < length ids \<and> ids ! lo = pos then Some lo else None)"

definition sparse_get :: "(nat \<Rightarrow> Value option) \<Rightarrow> u32 list \<Rightarrow> u32 \<Rightarrow> Value option option" where
  "sparse_get val ids pos =
     (case sparseSlot ids pos of None \<Rightarrow> Some None | Some slot \<Rightarrow> map_option Some (val slot))"

definition sparse_entries :: "(nat \<Rightarrow> Value option) \<Rightarrow> u32 list \<Rightarrow> (u32 \<times> Value) list option" where
  "sparse_entries val ids = map_opt (\<lambda>(i, p). map_option (Pair p) (val i)) (enumerate 0 ids)"

section \<open>Rank index\<close>

definition rankBlock :: nat where
  "rankBlock = 64"

record rankIndex =
  present :: bits
  blockRank :: "u32 list"

definition rank_slot :: "rankIndex \<Rightarrow> u32 \<Rightarrow> nat option option" where
  "rank_slot r pos =
     (let p = unat pos in
      if p \<ge> Len (present r) then Some None
      else do {
        g \<leftarrow> Get (present r) (int p);
        if \<not> g then Some None
        else do {
          base \<leftarrow> slice_at (blockRank r) (p div rankBlock);
          c \<leftarrow> CountRange (present r) (int (p div rankBlock * rankBlock)) (int p);
          Some (Some (unat base + c))
        }
      })"

definition rank_entries :: "(nat \<Rightarrow> Value option) \<Rightarrow> rankIndex \<Rightarrow> (u32 \<times> Value) list option" where
  "rank_entries val r =
     map_opt (\<lambda>(slot, pos). map_option (Pair (of_nat pos)) (val slot)) (enumerate 0 (Ones (present r)))"

text \<open>One round of the block loop: \<open>acc += ...; blockRank = append(blockRank, acc)\<close>.\<close>

definition rank_step :: "bits \<Rightarrow> nat \<Rightarrow> nat \<Rightarrow> u32 list \<times> u32 \<Rightarrow> (u32 list \<times> u32) option" where
  "rank_step pres span b = (\<lambda>(ranks, acc).
     map_option (\<lambda>c. (ranks @ [acc + of_nat c], acc + of_nat c))
       (CountRange pres (int (b * rankBlock)) (int (min ((b + 1) * rankBlock) span))))"

definition buildRankIndex :: "u32 list \<Rightarrow> nat \<Rightarrow> rankIndex option" where
  "buildRankIndex positions span =
     do {
       pres \<leftarrow> fold_opt (\<lambda>pos b. Set_bit b (unat pos) True) positions (New span);
       let nblocks = (span + rankBlock - 1) div rankBlock;
       (ranks, _) \<leftarrow> fold_opt (rank_step pres span) [0..<nblocks] ([0], 0);
       Some \<lparr>present = pres, blockRank = ranks\<rparr>
     }"

definition rank_get :: "(nat \<Rightarrow> Value option) \<Rightarrow> rankIndex \<Rightarrow> u32 \<Rightarrow> Value option option" where
  "rank_get val r pos =
     do {
       slot \<leftarrow> rank_slot r pos;
       (case slot of None \<Rightarrow> Some None | Some s \<Rightarrow> map_option Some (val s))
     }"

text \<open>Reading slot \<open>i\<close> of a slice, of a packed bool vector, and of a narrow vector.\<close>

definition slice_val :: "('a \<Rightarrow> Value) \<Rightarrow> 'a list \<Rightarrow> nat \<Rightarrow> Value option" where
  "slice_val mk xs i = map_option mk (slice_at xs i)"

definition bits_val :: "bits \<Rightarrow> nat \<Rightarrow> Value option" where
  "bits_val b i = map_option BoolValue (Get b (int i))"

definition narrow_val :: "narrowI64Vec \<Rightarrow> nat \<Rightarrow> Value option" where
  "narrow_val v i = map_option I64Value (narrow_at v i)"

section \<open>Storage classes\<close>

datatype Column =
    denseI64Col "i64 list"
  | denseF64Col "f64 list"
  | denseBoolCol bits
  | denseStrCol "u32 list"
  | sparseI64Col "u32 list" "i64 list"
  | sparseF64Col "u32 list" "f64 list"
  | sparseBoolCol "u32 list" "bool list"
  | sparseStrCol "u32 list" "u32 list"
  | denseI64NarrowCol narrowI64Vec
  | denseI64BitCol i64 bits
  | sparseI64NarrowCol "u32 list" narrowI64Vec
  | rankI64NarrowCol rankIndex narrowI64Vec
  | rankI64Col rankIndex "i64 list"
  | rankF64Col rankIndex "f64 list"
  | rankBoolCol rankIndex bits
  | rankStrCol rankIndex "u32 list"

definition denseI64Col_Get :: "i64 list \<Rightarrow> u32 \<Rightarrow> Value option option" where
  "denseI64Col_Get c pos = dense_get I64Value c pos"

definition denseI64Col_Entries :: "i64 list \<Rightarrow> (u32 \<times> Value) list option" where
  "denseI64Col_Entries c = dense_entries I64Value c"

definition denseF64Col_Get :: "f64 list \<Rightarrow> u32 \<Rightarrow> Value option option" where
  "denseF64Col_Get c pos = dense_get F64Value c pos"

definition denseF64Col_Entries :: "f64 list \<Rightarrow> (u32 \<times> Value) list option" where
  "denseF64Col_Entries c = dense_entries F64Value c"

definition denseStrCol_Get :: "u32 list \<Rightarrow> u32 \<Rightarrow> Value option option" where
  "denseStrCol_Get c pos = dense_get StrValue c pos"

definition denseStrCol_Entries :: "u32 list \<Rightarrow> (u32 \<times> Value) list option" where
  "denseStrCol_Entries c = dense_entries StrValue c"

definition denseBoolCol_Get :: "bits \<Rightarrow> u32 \<Rightarrow> Value option option" where
  "denseBoolCol_Get b pos = (if unat pos \<ge> Len b then Some None else map_option Some (bits_val b (unat pos)))"

definition denseBoolCol_Entries :: "bits \<Rightarrow> (u32 \<times> Value) list option" where
  "denseBoolCol_Entries b = map_opt (\<lambda>i. map_option (Pair (of_nat i)) (bits_val b i)) [0..<Len b]"

definition sparseI64Col_Get :: "u32 list \<Rightarrow> i64 list \<Rightarrow> u32 \<Rightarrow> Value option option" where
  "sparseI64Col_Get ids vals pos = sparse_get (slice_val I64Value vals) ids pos"

definition sparseI64Col_Entries :: "u32 list \<Rightarrow> i64 list \<Rightarrow> (u32 \<times> Value) list option" where
  "sparseI64Col_Entries ids vals = sparse_entries (slice_val I64Value vals) ids"

definition sparseF64Col_Get :: "u32 list \<Rightarrow> f64 list \<Rightarrow> u32 \<Rightarrow> Value option option" where
  "sparseF64Col_Get ids vals pos = sparse_get (slice_val F64Value vals) ids pos"

definition sparseF64Col_Entries :: "u32 list \<Rightarrow> f64 list \<Rightarrow> (u32 \<times> Value) list option" where
  "sparseF64Col_Entries ids vals = sparse_entries (slice_val F64Value vals) ids"

definition sparseStrCol_Get :: "u32 list \<Rightarrow> u32 list \<Rightarrow> u32 \<Rightarrow> Value option option" where
  "sparseStrCol_Get ids vals pos = sparse_get (slice_val StrValue vals) ids pos"

definition sparseStrCol_Entries :: "u32 list \<Rightarrow> u32 list \<Rightarrow> (u32 \<times> Value) list option" where
  "sparseStrCol_Entries ids vals = sparse_entries (slice_val StrValue vals) ids"

definition sparseBoolCol_Get :: "u32 list \<Rightarrow> bool list \<Rightarrow> u32 \<Rightarrow> Value option option" where
  "sparseBoolCol_Get ids vals pos = sparse_get (slice_val BoolValue vals) ids pos"

definition sparseBoolCol_Entries :: "u32 list \<Rightarrow> bool list \<Rightarrow> (u32 \<times> Value) list option" where
  "sparseBoolCol_Entries ids vals = sparse_entries (slice_val BoolValue vals) ids"

definition denseI64NarrowCol_Get :: "narrowI64Vec \<Rightarrow> u32 \<Rightarrow> Value option option" where
  "denseI64NarrowCol_Get v pos = (if unat pos \<ge> narrow_n v then Some None else map_option Some (narrow_val v (unat pos)))"

definition denseI64NarrowCol_Entries :: "narrowI64Vec \<Rightarrow> (u32 \<times> Value) list option" where
  "denseI64NarrowCol_Entries v = map_opt (\<lambda>i. map_option (Pair (of_nat i)) (narrow_val v i)) [0..<narrow_n v]"

definition denseI64BitCol_at :: "i64 \<Rightarrow> bits \<Rightarrow> u32 \<Rightarrow> i64 option" where
  "denseI64BitCol_at mn b pos = map_option (\<lambda>g. if g then mn + 1 else mn) (Get b (int (unat pos)))"

definition denseI64BitCol_Get :: "i64 \<Rightarrow> bits \<Rightarrow> u32 \<Rightarrow> Value option option" where
  "denseI64BitCol_Get mn b pos =
     (if unat pos \<ge> Len b then Some None else map_option (\<lambda>v. Some (I64Value v)) (denseI64BitCol_at mn b pos))"

definition denseI64BitCol_Entries :: "i64 \<Rightarrow> bits \<Rightarrow> (u32 \<times> Value) list option" where
  "denseI64BitCol_Entries mn b =
     map_opt (\<lambda>i. map_option (\<lambda>v. (of_nat i, I64Value v)) (denseI64BitCol_at mn b (of_nat i))) [0..<Len b]"

definition sparseI64NarrowCol_Get :: "u32 list \<Rightarrow> narrowI64Vec \<Rightarrow> u32 \<Rightarrow> Value option option" where
  "sparseI64NarrowCol_Get ids v pos = sparse_get (narrow_val v) ids pos"

definition sparseI64NarrowCol_Entries :: "u32 list \<Rightarrow> narrowI64Vec \<Rightarrow> (u32 \<times> Value) list option" where
  "sparseI64NarrowCol_Entries ids v = sparse_entries (narrow_val v) ids"

definition rankI64NarrowCol_Get :: "rankIndex \<Rightarrow> narrowI64Vec \<Rightarrow> u32 \<Rightarrow> Value option option" where
  "rankI64NarrowCol_Get r v pos = rank_get (narrow_val v) r pos"

definition rankI64NarrowCol_Entries :: "rankIndex \<Rightarrow> narrowI64Vec \<Rightarrow> (u32 \<times> Value) list option" where
  "rankI64NarrowCol_Entries r v = rank_entries (narrow_val v) r"

definition rankI64Col_Get :: "rankIndex \<Rightarrow> i64 list \<Rightarrow> u32 \<Rightarrow> Value option option" where
  "rankI64Col_Get r vals pos = rank_get (slice_val I64Value vals) r pos"

definition rankI64Col_Entries :: "rankIndex \<Rightarrow> i64 list \<Rightarrow> (u32 \<times> Value) list option" where
  "rankI64Col_Entries r vals = rank_entries (slice_val I64Value vals) r"

definition rankF64Col_Get :: "rankIndex \<Rightarrow> f64 list \<Rightarrow> u32 \<Rightarrow> Value option option" where
  "rankF64Col_Get r vals pos = rank_get (slice_val F64Value vals) r pos"

definition rankF64Col_Entries :: "rankIndex \<Rightarrow> f64 list \<Rightarrow> (u32 \<times> Value) list option" where
  "rankF64Col_Entries r vals = rank_entries (slice_val F64Value vals) r"

definition rankStrCol_Get :: "rankIndex \<Rightarrow> u32 list \<Rightarrow> u32 \<Rightarrow> Value option option" where
  "rankStrCol_Get r vals pos = rank_get (slice_val StrValue vals) r pos"

definition rankStrCol_Entries :: "rankIndex \<Rightarrow> u32 list \<Rightarrow> (u32 \<times> Value) list option" where
  "rankStrCol_Entries r vals = rank_entries (slice_val StrValue vals) r"

definition rankBoolCol_Get :: "rankIndex \<Rightarrow> bits \<Rightarrow> u32 \<Rightarrow> Value option option" where
  "rankBoolCol_Get r b pos = rank_get (bits_val b) r pos"

definition rankBoolCol_Entries :: "rankIndex \<Rightarrow> bits \<Rightarrow> (u32 \<times> Value) list option" where
  "rankBoolCol_Entries r b = rank_entries (bits_val b) r"

text \<open>Dynamic dispatch through the interface.\<close>

fun Column_Get :: "Column \<Rightarrow> u32 \<Rightarrow> Value option option" where
  "Column_Get (denseI64Col c) pos = denseI64Col_Get c pos"
| "Column_Get (denseF64Col c) pos = denseF64Col_Get c pos"
| "Column_Get (denseBoolCol c) pos = denseBoolCol_Get c pos"
| "Column_Get (denseStrCol c) pos = denseStrCol_Get c pos"
| "Column_Get (sparseI64Col ids v) pos = sparseI64Col_Get ids v pos"
| "Column_Get (sparseF64Col ids v) pos = sparseF64Col_Get ids v pos"
| "Column_Get (sparseBoolCol ids v) pos = sparseBoolCol_Get ids v pos"
| "Column_Get (sparseStrCol ids v) pos = sparseStrCol_Get ids v pos"
| "Column_Get (denseI64NarrowCol v) pos = denseI64NarrowCol_Get v pos"
| "Column_Get (denseI64BitCol m b) pos = denseI64BitCol_Get m b pos"
| "Column_Get (sparseI64NarrowCol ids v) pos = sparseI64NarrowCol_Get ids v pos"
| "Column_Get (rankI64NarrowCol r v) pos = rankI64NarrowCol_Get r v pos"
| "Column_Get (rankI64Col r v) pos = rankI64Col_Get r v pos"
| "Column_Get (rankF64Col r v) pos = rankF64Col_Get r v pos"
| "Column_Get (rankBoolCol r v) pos = rankBoolCol_Get r v pos"
| "Column_Get (rankStrCol r v) pos = rankStrCol_Get r v pos"

fun Column_Entries :: "Column \<Rightarrow> (u32 \<times> Value) list option" where
  "Column_Entries (denseI64Col c) = denseI64Col_Entries c"
| "Column_Entries (denseF64Col c) = denseF64Col_Entries c"
| "Column_Entries (denseBoolCol c) = denseBoolCol_Entries c"
| "Column_Entries (denseStrCol c) = denseStrCol_Entries c"
| "Column_Entries (sparseI64Col ids v) = sparseI64Col_Entries ids v"
| "Column_Entries (sparseF64Col ids v) = sparseF64Col_Entries ids v"
| "Column_Entries (sparseBoolCol ids v) = sparseBoolCol_Entries ids v"
| "Column_Entries (sparseStrCol ids v) = sparseStrCol_Entries ids v"
| "Column_Entries (denseI64NarrowCol v) = denseI64NarrowCol_Entries v"
| "Column_Entries (denseI64BitCol m b) = denseI64BitCol_Entries m b"
| "Column_Entries (sparseI64NarrowCol ids v) = sparseI64NarrowCol_Entries ids v"
| "Column_Entries (rankI64NarrowCol r v) = rankI64NarrowCol_Entries r v"
| "Column_Entries (rankI64Col r v) = rankI64Col_Entries r v"
| "Column_Entries (rankF64Col r v) = rankF64Col_Entries r v"
| "Column_Entries (rankBoolCol r v) = rankBoolCol_Entries r v"
| "Column_Entries (rankStrCol r v) = rankStrCol_Entries r v"

fun Column_Dtype :: "Column \<Rightarrow> Dtype" where
  "Column_Dtype (denseI64Col c) = DtypeI64"
| "Column_Dtype (denseF64Col c) = DtypeF64"
| "Column_Dtype (denseBoolCol c) = DtypeBool"
| "Column_Dtype (denseStrCol c) = DtypeStr"
| "Column_Dtype (sparseI64Col ids v) = DtypeI64"
| "Column_Dtype (sparseF64Col ids v) = DtypeF64"
| "Column_Dtype (sparseBoolCol ids v) = DtypeBool"
| "Column_Dtype (sparseStrCol ids v) = DtypeStr"
| "Column_Dtype (denseI64NarrowCol v) = DtypeI64"
| "Column_Dtype (denseI64BitCol m b) = DtypeI64"
| "Column_Dtype (sparseI64NarrowCol ids v) = DtypeI64"
| "Column_Dtype (rankI64NarrowCol r v) = DtypeI64"
| "Column_Dtype (rankI64Col r v) = DtypeI64"
| "Column_Dtype (rankF64Col r v) = DtypeF64"
| "Column_Dtype (rankBoolCol r v) = DtypeBool"
| "Column_Dtype (rankStrCol r v) = DtypeStr"

fun Column_Len :: "Column \<Rightarrow> nat" where
  "Column_Len (denseI64Col c) = length c"
| "Column_Len (denseF64Col c) = length c"
| "Column_Len (denseBoolCol c) = Len c"
| "Column_Len (denseStrCol c) = length c"
| "Column_Len (sparseI64Col ids v) = length ids"
| "Column_Len (sparseF64Col ids v) = length ids"
| "Column_Len (sparseBoolCol ids v) = length ids"
| "Column_Len (sparseStrCol ids v) = length ids"
| "Column_Len (denseI64NarrowCol v) = narrow_n v"
| "Column_Len (denseI64BitCol m b) = Len b"
| "Column_Len (sparseI64NarrowCol ids v) = length ids"
| "Column_Len (rankI64NarrowCol r v) = narrow_n v"
| "Column_Len (rankI64Col r v) = length v"
| "Column_Len (rankF64Col r v) = length v"
| "Column_Len (rankBoolCol r v) = Len v"
| "Column_Len (rankStrCol r v) = length v"

fun isSparse :: "Column \<Rightarrow> bool" where
  "isSparse (sparseI64Col ids v) = True"
| "isSparse (sparseF64Col ids v) = True"
| "isSparse (sparseBoolCol ids v) = True"
| "isSparse (sparseStrCol ids v) = True"
| "isSparse (sparseI64NarrowCol ids v) = True"
| "isSparse _ = False"

fun valueAtSlot :: "Column \<Rightarrow> u32 \<Rightarrow> Value option option" where
  "valueAtSlot (sparseI64Col ids v) slot = dense_get I64Value v slot"
| "valueAtSlot (sparseI64NarrowCol ids v) slot =
     (if unat slot < narrow_n v then map_option Some (narrow_val v (unat slot)) else Some None)"
| "valueAtSlot (sparseF64Col ids v) slot = dense_get F64Value v slot"
| "valueAtSlot (sparseBoolCol ids v) slot = dense_get BoolValue v slot"
| "valueAtSlot (sparseStrCol ids v) slot = dense_get StrValue v slot"
| "valueAtSlot _ slot = Some None"

definition narrowI64Column :: "i64 list \<Rightarrow> Column option" where
  "narrowI64Column vals =
     (case (if length vals \<ge> narrowI64MinLen then Some (min_max vals) else None) of
        Some (mn, mx) \<Rightarrow>
          if mx - mn \<le> 1
          then map_option (denseI64BitCol mn)
                 (fold_opt (\<lambda>(i, v) b. Set_bit b i (v \<noteq> mn)) (enumerate 0 vals) (New (length vals)))
          else map_option (\<lambda>r. case r of Some nv \<Rightarrow> denseI64NarrowCol nv | None \<Rightarrow> denseI64Col vals) (narrowI64Vals vals)
      | None \<Rightarrow>
          map_option (\<lambda>r. case r of Some nv \<Rightarrow> denseI64NarrowCol nv | None \<Rightarrow> denseI64Col vals) (narrowI64Vals vals))"

section \<open>The interface contract\<close>

text \<open>
  What \<open>Column\<close> promises its clients: a column stands for a list of (position, value) pairs with
  ascending positions; \<open>Entries\<close> yields that list, \<open>Get\<close> looks positions up in it and \<open>Len\<close> is its
  length.
\<close>

locale column_store =
  fixes get :: "'c \<Rightarrow> u32 \<Rightarrow> Value option option" and entries :: "'c \<Rightarrow> (u32 \<times> Value) list option"
    and len :: "'c \<Rightarrow> nat" and inv :: "'c \<Rightarrow> bool" and pairs :: "'c \<Rightarrow> (u32 \<times> Value) list"
  assumes entries_pairs: "inv c \<Longrightarrow> entries c = Some (pairs c)"
    and pairs_sorted: "inv c \<Longrightarrow> sorted_wrt (<) (map fst (pairs c))"
    and get_pairs: "inv c \<Longrightarrow> get c p = Some (map_of (pairs c) p)"
    and len_pairs: "inv c \<Longrightarrow> len c = length (pairs c)"
begin

lemma pairs_distinct: "inv c \<Longrightarrow> distinct (map fst (pairs c))"
  using pairs_sorted by (rule sorted_wrt_less_distinct)

lemma entries_get: "inv c \<Longrightarrow> (p, v) \<in> set (pairs c) \<longleftrightarrow> get c p = Some (Some v)"
  by (simp add: get_pairs map_of_eq_Some_iff pairs_distinct)

lemma len_card: "inv c \<Longrightarrow> len c = card {p. get c p \<noteq> Some None}"
proof -
  assume c: "inv c"
  then have "{p. get c p \<noteq> Some None} = set (map fst (pairs c))" by (auto simp: get_pairs map_of_eq_None_iff)
  then show ?thesis using distinct_card [OF pairs_distinct [OF c]] c by (simp add: len_pairs)
qed

text \<open>Two columns that read the same are iterated the same.\<close>

lemma get_determines_entries:
  assumes "inv c" "inv d" "\<And>p. get c p = get d p"
  shows "entries c = entries d" "len c = len d"
proof -
  have "map_of (pairs c) = map_of (pairs d)" using assms by (simp add: get_pairs fun_eq_iff)
  then have "pairs c = pairs d" using sorted_assoc_unique pairs_sorted assms(1,2) by metis
  then show "entries c = entries d" "len c = len d" using assms(1,2) by (simp_all add: entries_pairs len_pairs)
qed

end

section \<open>Positions, values and invariant of a column\<close>

definition bits_list :: "bits \<Rightarrow> bool list" where
  "bits_list b = map (bit_at b) [0..<nbits b]"

definition narrow_list :: "narrowI64Vec \<Rightarrow> i64 list" where
  "narrow_list v = map (\<lambda>i. the (narrow_at v i)) [0..<narrow_n v]"

definition narrow_ok :: "narrowI64Vec \<Rightarrow> bool" where
  "narrow_ok v \<longleftrightarrow> (\<forall>i < narrow_n v. narrow_at v i \<noteq> None)"

definition all_pos :: "nat \<Rightarrow> u32 list" where
  "all_pos n = map of_nat [0..<n]"

definition rank_pos :: "rankIndex \<Rightarrow> u32 list" where
  "rank_pos r = map of_nat (Ones (present r))"

definition rank_inv :: "rankIndex \<Rightarrow> bool" where
  "rank_inv r \<longleftrightarrow> wf_bits (present r) \<and> nbits (present r) < 2 ^ 32
    \<and> length (blockRank r) = (nbits (present r) + 63) div 64 + 1
    \<and> (\<forall>b < length (blockRank r). unat (blockRank r ! b) = count_in (bit_at (present r)) 0 (b * 64))"

text \<open>The Go values of the slots, in slot order.\<close>

fun col_vals :: "Column \<Rightarrow> Value list" where
  "col_vals (denseI64Col c) = map I64Value c"
| "col_vals (denseF64Col c) = map F64Value c"
| "col_vals (denseBoolCol b) = map BoolValue (bits_list b)"
| "col_vals (denseStrCol c) = map StrValue c"
| "col_vals (sparseI64Col ids v) = map I64Value v"
| "col_vals (sparseF64Col ids v) = map F64Value v"
| "col_vals (sparseBoolCol ids v) = map BoolValue v"
| "col_vals (sparseStrCol ids v) = map StrValue v"
| "col_vals (denseI64NarrowCol v) = map I64Value (narrow_list v)"
| "col_vals (denseI64BitCol mn b) = map (\<lambda>g. I64Value (if g then mn + 1 else mn)) (bits_list b)"
| "col_vals (sparseI64NarrowCol ids v) = map I64Value (narrow_list v)"
| "col_vals (rankI64NarrowCol r v) = map I64Value (narrow_list v)"
| "col_vals (rankI64Col r v) = map I64Value v"
| "col_vals (rankF64Col r v) = map F64Value v"
| "col_vals (rankBoolCol r b) = map BoolValue (bits_list b)"
| "col_vals (rankStrCol r v) = map StrValue v"

fun col_pos :: "Column \<Rightarrow> u32 list" where
  "col_pos (sparseI64Col ids v) = ids"
| "col_pos (sparseF64Col ids v) = ids"
| "col_pos (sparseBoolCol ids v) = ids"
| "col_pos (sparseStrCol ids v) = ids"
| "col_pos (sparseI64NarrowCol ids v) = ids"
| "col_pos (rankI64NarrowCol r v) = rank_pos r"
| "col_pos (rankI64Col r v) = rank_pos r"
| "col_pos (rankF64Col r v) = rank_pos r"
| "col_pos (rankBoolCol r v) = rank_pos r"
| "col_pos (rankStrCol r v) = rank_pos r"
| "col_pos c = all_pos (length (col_vals c))"

definition col_pairs :: "Column \<Rightarrow> (u32 \<times> Value) list" where
  "col_pairs c = zip (col_pos c) (col_vals c)"

fun col_parts_ok :: "Column \<Rightarrow> bool" where
  "col_parts_ok (denseBoolCol b) = wf_bits b"
| "col_parts_ok (denseI64NarrowCol v) = narrow_ok v"
| "col_parts_ok (denseI64BitCol mn b) = wf_bits b"
| "col_parts_ok (sparseI64NarrowCol ids v) = narrow_ok v"
| "col_parts_ok (rankI64NarrowCol r v) = (rank_inv r \<and> narrow_ok v)"
| "col_parts_ok (rankI64Col r v) = rank_inv r"
| "col_parts_ok (rankF64Col r v) = rank_inv r"
| "col_parts_ok (rankBoolCol r b) = (rank_inv r \<and> wf_bits b)"
| "col_parts_ok (rankStrCol r v) = rank_inv r"
| "col_parts_ok _ = True"

definition col_inv :: "Column \<Rightarrow> bool" where
  "col_inv c \<longleftrightarrow> col_parts_ok c \<and> length (col_vals c) < 2 ^ 32
    \<and> length (col_pos c) = length (col_vals c) \<and> sorted_wrt (<) (col_pos c)"

section \<open>Read paths against positions and values\<close>

lemma all_pos_props:
  assumes "n \<le> 2 ^ 32"
  shows "length (all_pos n) = n" "sorted_wrt (<) (all_pos n)" "p \<in> set (all_pos n) \<longleftrightarrow> unat p < n"
    "i < n \<Longrightarrow> all_pos n ! i = of_nat i"
proof -
  have lt: "x \<in> set [0..<n] \<Longrightarrow> x < 2 ^ 32" for x using assms by simp
  show "length (all_pos n) = n" "i < n \<Longrightarrow> all_pos n ! i = of_nat i" by (simp_all add: all_pos_def)
  show "sorted_wrt (<) (all_pos n)" unfolding all_pos_def using lt by (intro sorted_map_of_nat) auto
  show "p \<in> set (all_pos n) \<longleftrightarrow> unat p < n" unfolding all_pos_def using of_nat_unat_mem [of "[0..<n]" p] lt by simp
qed

lemma sparseSlot_Some:
  assumes "sorted_wrt (<) ids"
  shows "sparseSlot ids pos = Some k \<longleftrightarrow> k < length ids \<and> ids ! k = pos"
proof -
  let ?f = "\<lambda>mid. \<not> ids ! mid < pos" and ?n = "length ids"
  have mono: "ids ! a \<le> ids ! b" if "a \<le> b" "b < ?n" for a b
    using assms that by (cases "a = b") (auto simp: sorted_wrt_iff_nth_less intro: less_imp_le)
  have loop: "search_loop ?f 0 ?n = k" if k: "k < ?n" "ids ! k = pos" for k
  proof -
    have "Search ?n ?f = k"
    proof (rule Search_eqI)
      show "\<not> ?f a" if "a < k" for a using assms k that by (auto simp: sorted_wrt_iff_nth_less)
      show "?f b" if "a \<le> b" "b < ?n" "?f a" for a b using mono [OF that(1,2)] that(3) by simp
    qed (use k in auto)
    then show ?thesis by (simp add: Search_def)
  qed
  show ?thesis
  proof
    show "k < ?n \<and> ids ! k = pos" if "sparseSlot ids pos = Some k"
      using that by (auto simp: sparseSlot_def Let_def split: if_splits)
    show "sparseSlot ids pos = Some k" if "k < ?n \<and> ids ! k = pos"
      using that loop [of k] by (simp add: sparseSlot_def)
  qed
qed

lemma sparseSlot_None:
  "sorted_wrt (<) ids \<Longrightarrow> sparseSlot ids pos = None \<longleftrightarrow> pos \<notin> set ids"
  using sparseSlot_Some [of ids pos] by (cases "sparseSlot ids pos") (auto simp: in_set_conv_nth)

text \<open>Every read path is a slot lookup in the positions followed by a slot read.\<close>

lemma sparse_get_ok:
  assumes ids: "sorted_wrt (<) ids" "length vs = length ids" and val: "\<And>i. i < length ids \<Longrightarrow> val i = Some (vs ! i)"
  shows "sparse_get val ids pos = Some (map_of (zip ids vs) pos)" "sparse_entries val ids = Some (zip ids vs)"
proof -
  have d: "distinct ids" using ids(1) by (rule sorted_wrt_less_distinct)
  show "sparse_get val ids pos = Some (map_of (zip ids vs) pos)"
  proof (cases "sparseSlot ids pos")
    case None
    moreover have "map_of (zip ids vs) pos = None"
      using None ids by (simp add: sparseSlot_None map_of_zip_is_None)
    ultimately show ?thesis by (simp add: sparse_get_def)
  next
    case (Some k)
    then have "k < length ids" "ids ! k = pos" using sparseSlot_Some [OF ids(1)] by auto
    then show ?thesis using Some val d ids(2) map_of_zip_nth [of ids vs k] by (simp add: sparse_get_def)
  qed
  have "sparse_entries val ids = Some (map (\<lambda>(i, p). (p, vs ! i)) (enumerate 0 ids))"
    unfolding sparse_entries_def using val by (intro map_opt_Some) (auto simp: in_set_enumerate_eq)
  also have "map (\<lambda>(i, p). (p, vs ! i)) (enumerate 0 ids) = zip ids vs"
    using ids(2) by (intro nth_equalityI) (auto simp: nth_enumerate_eq)
  finally show "sparse_entries val ids = Some (zip ids vs)" .
qed

text \<open>The rank index computes the same slots as a binary search over the positions.\<close>

lemma rank_pos_props:
  assumes "rank_inv r"
  shows "sorted_wrt (<) (rank_pos r)" "p \<in> set (rank_pos r) \<longleftrightarrow> bit_at (present r) (unat p)"
    "length (rank_pos r) = Count (present r)" "length (rank_pos r) < 2 ^ 32"
proof -
  have wf: "wf_bits (present r)" and n: "nbits (present r) < 2 ^ 32" using assms by (auto simp: rank_inv_def)
  have ones: "Ones (present r) = filter (bit_at (present r)) [0..<nbits (present r)]" by (rule Ones_eq [OF wf])
  have lt: "x \<in> set (Ones (present r)) \<Longrightarrow> x < 2 ^ 32" for x using n by (auto simp: ones)
  show "sorted_wrt (<) (rank_pos r)" unfolding rank_pos_def using lt
    by (intro sorted_map_of_nat) (auto simp: ones sorted_wrt_filter)
  show "p \<in> set (rank_pos r) \<longleftrightarrow> bit_at (present r) (unat p)"
    unfolding rank_pos_def using of_nat_unat_mem [of "Ones (present r)" p] lt by (auto simp: ones bit_at_def)
  show "length (rank_pos r) = Count (present r)" by (simp add: rank_pos_def ones Count_eq [OF wf] count_in_def)
  have "length (Ones (present r)) \<le> nbits (present r)" unfolding ones using length_filter_le [of _ "[0..<nbits (present r)]"] by simp
  then show "length (rank_pos r) < 2 ^ 32" using n by (simp add: rank_pos_def)
qed

lemma Get_uint [simp]: "wf_bits b \<Longrightarrow> Get b (uint p) = Some (bit_at b (unat p))"
  using Get_ok [of b "uint p"] by simp

lemma rank_slot_ok:
  assumes "rank_inv r"
  shows "rank_slot r pos = Some (sparseSlot (rank_pos r) pos)"
proof (cases "bit_at (present r) (unat pos)")
  case False
  then have "sparseSlot (rank_pos r) pos = None" using assms by (simp add: sparseSlot_None rank_pos_props)
  moreover have "Get (present r) (int (unat pos)) = Some False" using assms False by (simp add: rank_inv_def)
  ultimately show ?thesis by (simp add: rank_slot_def Let_def)
next
  case True
  let ?p = "unat pos" and ?b = "unat pos div 64" and ?B = "bit_at (present r)"
  have wf: "wf_bits (present r)" and n: "nbits (present r) < 2 ^ 32" using assms by (auto simp: rank_inv_def)
  have lt: "?p < nbits (present r)" using True by (simp add: bit_at_def)
  have "?b < length (blockRank r)" using word_index [OF lt] assms by (simp add: rank_inv_def)
  then have base: "slice_at (blockRank r) ?b = Some (blockRank r ! ?b)" "unat (blockRank r ! ?b) = count_in ?B 0 (?b * 64)"
    using assms by (auto simp: rank_inv_def)
  have "CountRange (present r) (int (?b * 64)) (int ?p) = Some (count_in ?B (?b * 64) ?p)"
    using CountRange_ok [OF wf, of "int (?b * 64)" "int ?p"] by (simp only: nat_int)
  moreover have "count_in ?B 0 ?p = count_in ?B 0 (?b * 64) + count_in ?B (?b * 64) ?p"
    by (rule count_in_split) auto
  ultimately have slot: "rank_slot r pos = Some (Some (count_in ?B 0 ?p))"
    using True lt wf base by (simp add: rank_slot_def Len_def rankBlock_def Let_def)
  have "rank_pos r ! count_in ?B 0 ?p = pos" "count_in ?B 0 ?p < length (rank_pos r)"
    using filter_upt_index [of ?B ?p, OF True lt] by (simp_all add: rank_pos_def Ones_eq [OF wf])
  then have "sparseSlot (rank_pos r) pos = Some (count_in ?B 0 ?p)"
    using sparseSlot_Some [OF rank_pos_props(1) [OF assms]] by blast
  with slot show ?thesis by simp
qed

lemma rank_get_sparse: "rank_inv r \<Longrightarrow> rank_get val r = sparse_get val (rank_pos r)"
  by (simp add: fun_eq_iff rank_get_def sparse_get_def rank_slot_ok)

lemma map_opt_map: "map_opt f (map g xs) = map_opt (f \<circ> g) xs"
  by (induction xs) (simp_all split: option.split)

lemma enumerate_map: "enumerate n (map f xs) = map (apsnd f) (enumerate n xs)"
  by (induction xs arbitrary: n) simp_all

lemma rank_entries_sparse: "rank_entries val r = sparse_entries val (rank_pos r)"
  unfolding rank_entries_def sparse_entries_def rank_pos_def enumerate_map map_opt_map
  by (rule map_opt_cong) auto

text \<open>A dense layout reads as the sparse one over all positions.\<close>

lemma dense_slot:
  assumes "n \<le> 2 ^ 32"
  shows "sparseSlot (all_pos n) pos = (if unat pos < n then Some (unat pos) else None)"
proof (cases "unat pos < n")
  case True
  then have "unat pos < length (all_pos n)" "all_pos n ! unat pos = pos" using assms by (simp_all add: all_pos_props)
  then show ?thesis using True sparseSlot_Some [OF all_pos_props(2) [OF assms]] by simp
next
  case False
  then show ?thesis using assms by (simp add: sparseSlot_None all_pos_props)
qed

lemma dense_read_sparse:
  assumes "n \<le> 2 ^ 32"
  shows "(if unat pos \<ge> n then Some None else map_option Some (val (unat pos))) = sparse_get val (all_pos n) pos"
    "map_opt (\<lambda>i. map_option (Pair (of_nat i)) (val i)) [0..<n] = sparse_entries val (all_pos n)"
proof -
  show "(if unat pos \<ge> n then Some None else map_option Some (val (unat pos))) = sparse_get val (all_pos n) pos"
    by (simp add: sparse_get_def dense_slot [OF assms])
  have "enumerate 0 (all_pos n) = map (\<lambda>i. (i, of_nat i)) [0..<n]"
    by (intro nth_equalityI) (simp_all add: nth_enumerate_eq all_pos_def)
  then show "map_opt (\<lambda>i. map_option (Pair (of_nat i)) (val i)) [0..<n] = sparse_entries val (all_pos n)"
    unfolding sparse_entries_def by (simp add: map_opt_map o_def)
qed

lemma dense_get_sparse:
  assumes "length xs \<le> 2 ^ 32"
  shows "dense_get mk xs pos = sparse_get (slice_val mk xs) (all_pos (length xs)) pos"
    "dense_entries mk xs = sparse_entries (slice_val mk xs) (all_pos (length xs))"
proof -
  show "dense_get mk xs pos = sparse_get (slice_val mk xs) (all_pos (length xs)) pos"
    by (simp add: dense_get_def sparse_get_def dense_slot [OF assms] slice_val_def option.map_comp o_def)
  have "map_opt (\<lambda>i. map_option (Pair (of_nat i)) (slice_val mk xs i)) [0..<length xs]
      = Some (map (\<lambda>i. (of_nat i, mk (xs ! i))) [0..<length xs])"
    by (intro map_opt_Some) (auto simp: slice_val_def)
  also have "\<dots> = dense_entries mk xs"
    unfolding dense_entries_def by (simp, intro nth_equalityI) (simp_all add: nth_enumerate_eq)
  finally show "dense_entries mk xs = sparse_entries (slice_val mk xs) (all_pos (length xs))"
    using dense_read_sparse(2) [OF assms, of "slice_val mk xs"] by simp
qed

text \<open>Slot reads.\<close>

lemma slot_reads:
  "i < length xs \<Longrightarrow> slice_val mk xs i = Some (map mk xs ! i)"
  "wf_bits b \<Longrightarrow> i < nbits b \<Longrightarrow> bits_val b i = Some (map BoolValue (bits_list b) ! i)"
  "narrow_ok v \<Longrightarrow> i < narrow_n v \<Longrightarrow> narrow_val v i = Some (map I64Value (narrow_list v) ! i)"
  by (auto simp: slice_val_def bits_val_def bits_list_def narrow_val_def narrow_list_def narrow_ok_def)

lemma list_lengths [simp]: "length (bits_list b) = nbits b" "length (narrow_list v) = narrow_n v"
  by (simp_all add: bits_list_def narrow_list_def)

section \<open>Every storage class keeps the contract\<close>

lemma reads_via:
  assumes inv: "col_inv c" and get: "\<And>p. Column_Get c p = sparse_get val (col_pos c) p"
    and ent: "Column_Entries c = sparse_entries val (col_pos c)"
    and val: "\<And>i. i < length (col_vals c) \<Longrightarrow> val i = Some (col_vals c ! i)"
  shows "Column_Get c p = Some (map_of (col_pairs c) p) \<and> Column_Entries c = Some (col_pairs c)"
  using inv val sparse_get_ok [where ids = "col_pos c" and vs = "col_vals c" and val = val] unfolding get ent col_pairs_def
  by (simp add: col_inv_def)

definition bit_col_val :: "i64 \<Rightarrow> bits \<Rightarrow> nat \<Rightarrow> Value option" where
  "bit_col_val mn b i = map_option (\<lambda>g. I64Value (if g then mn + 1 else mn)) (Get b (int i))"

lemma bit_col_reads:
  assumes "nbits b < 2 ^ 32"
  shows "denseI64BitCol_Get mn b p = sparse_get (bit_col_val mn b) (all_pos (nbits b)) p"
    "denseI64BitCol_Entries mn b = sparse_entries (bit_col_val mn b) (all_pos (nbits b))"
proof -
  have n: "nbits b \<le> 2 ^ 32" using assms by simp
  show "denseI64BitCol_Get mn b p = sparse_get (bit_col_val mn b) (all_pos (nbits b)) p"
    unfolding dense_read_sparse(1) [OF n, symmetric]
    by (simp add: denseI64BitCol_Get_def denseI64BitCol_at_def bit_col_val_def Len_def option.map_comp o_def)
  have "unat (of_nat i :: u32) = i" if "i < nbits b" for i using that assms by (intro unat_of_nat_less) simp
  then have "int (unat (of_nat i :: u32)) = int i" if "i < nbits b" for i using that by simp
  then show "denseI64BitCol_Entries mn b = sparse_entries (bit_col_val mn b) (all_pos (nbits b))"
    unfolding dense_read_sparse(2) [OF n, symmetric] denseI64BitCol_Entries_def denseI64BitCol_at_def Len_def
    by (intro map_opt_cong) (simp_all only: bit_col_val_def option.map_comp o_def set_upt atLeastLessThan_iff)
qed

lemmas dense_col_defs = denseI64Col_Get_def denseI64Col_Entries_def denseF64Col_Get_def denseF64Col_Entries_def
  denseStrCol_Get_def denseStrCol_Entries_def denseBoolCol_Get_def denseBoolCol_Entries_def
  denseI64NarrowCol_Get_def denseI64NarrowCol_Entries_def

lemmas sparse_col_defs = sparseI64Col_Get_def sparseI64Col_Entries_def sparseF64Col_Get_def sparseF64Col_Entries_def
  sparseStrCol_Get_def sparseStrCol_Entries_def sparseBoolCol_Get_def sparseBoolCol_Entries_def
  sparseI64NarrowCol_Get_def sparseI64NarrowCol_Entries_def

lemmas rank_col_defs = rankI64Col_Get_def rankI64Col_Entries_def rankF64Col_Get_def rankF64Col_Entries_def
  rankStrCol_Get_def rankStrCol_Entries_def rankBoolCol_Get_def rankBoolCol_Entries_def
  rankI64NarrowCol_Get_def rankI64NarrowCol_Entries_def rank_get_sparse rank_entries_sparse

lemmas col_read_rules = dense_col_defs sparse_col_defs rank_col_defs col_inv_def Len_def
  dense_get_sparse dense_read_sparse slot_reads

lemma column_reads:
  assumes inv: "col_inv c"
  shows "Column_Get c p = Some (map_of (col_pairs c) p) \<and> Column_Entries c = Some (col_pairs c)"
proof (cases c)
  case (denseI64Col x)
  with inv show ?thesis by (intro reads_via [where val = "slice_val I64Value x"]) (auto simp: col_read_rules)
next
  case (denseF64Col x)
  with inv show ?thesis by (intro reads_via [where val = "slice_val F64Value x"]) (auto simp: col_read_rules)
next
  case (denseBoolCol x)
  with inv show ?thesis by (intro reads_via [where val = "bits_val x"]) (auto simp: col_read_rules)
next
  case (denseStrCol x)
  with inv show ?thesis by (intro reads_via [where val = "slice_val StrValue x"]) (auto simp: col_read_rules)
next
  case (sparseI64Col ids x)
  with inv show ?thesis by (intro reads_via [where val = "slice_val I64Value x"]) (auto simp: col_read_rules)
next
  case (sparseF64Col ids x)
  with inv show ?thesis by (intro reads_via [where val = "slice_val F64Value x"]) (auto simp: col_read_rules)
next
  case (sparseBoolCol ids x)
  with inv show ?thesis by (intro reads_via [where val = "slice_val BoolValue x"]) (auto simp: col_read_rules)
next
  case (sparseStrCol ids x)
  with inv show ?thesis by (intro reads_via [where val = "slice_val StrValue x"]) (auto simp: col_read_rules)
next
  case (denseI64NarrowCol x)
  with inv show ?thesis by (intro reads_via [where val = "narrow_val x"]) (auto simp: col_read_rules)
next
  case (denseI64BitCol mn x)
  with inv show ?thesis
    by (intro reads_via [where val = "bit_col_val mn x"]) (auto simp: col_inv_def bit_col_reads bit_col_val_def bits_list_def)
next
  case (sparseI64NarrowCol ids x)
  with inv show ?thesis by (intro reads_via [where val = "narrow_val x"]) (auto simp: col_read_rules)
next
  case (rankI64NarrowCol r x)
  with inv show ?thesis by (intro reads_via [where val = "narrow_val x"]) (auto simp: col_read_rules)
next
  case (rankI64Col r x)
  with inv show ?thesis by (intro reads_via [where val = "slice_val I64Value x"]) (auto simp: col_read_rules)
next
  case (rankF64Col r x)
  with inv show ?thesis by (intro reads_via [where val = "slice_val F64Value x"]) (auto simp: col_read_rules)
next
  case (rankBoolCol r x)
  with inv show ?thesis by (intro reads_via [where val = "bits_val x"]) (auto simp: col_read_rules)
next
  case (rankStrCol r x)
  with inv show ?thesis by (intro reads_via [where val = "slice_val StrValue x"]) (auto simp: col_read_rules)
qed

lemma Column_Len_ok: "col_inv c \<Longrightarrow> Column_Len c = length (col_pairs c)"
  by (cases c) (auto simp: col_inv_def col_pairs_def all_pos_def Len_def)

interpretation cols: column_store Column_Get Column_Entries Column_Len col_inv col_pairs
proof
  fix c p assume c: "col_inv c"
  show "Column_Entries c = Some (col_pairs c)" "Column_Get c p = Some (map_of (col_pairs c) p)"
    using column_reads [OF c] by auto
  show "Column_Len c = length (col_pairs c)" by (rule Column_Len_ok [OF c])
  show "sorted_wrt (<) (map fst (col_pairs c))" using c by (simp add: col_inv_def col_pairs_def)
qed

section \<open>Building a rank index\<close>

lemma present_fold:
  assumes "\<And>p. p \<in> set positions \<Longrightarrow> unat p < span"
  shows "\<exists>b. fold_opt (\<lambda>pos b. Set_bit b (unat pos) True) positions (New span) = Some b \<and> wf_bits b
    \<and> nbits b = span \<and> (\<forall>i. bit_at b i \<longleftrightarrow> i \<in> unat ` set positions)"
proof -
  let ?P = "\<lambda>k b. wf_bits b \<and> nbits b = span \<and> (\<forall>i. bit_at b i \<longleftrightarrow> i \<in> unat ` set (take k positions))"
  have "\<exists>b. fold_opt (\<lambda>pos b. Set_bit b (unat pos) True) positions (New span) = Some b \<and> ?P (length positions) b"
  proof (rule fold_opt_rule [where P = ?P])
    fix k b assume k: "k < length positions" and P: "?P k b"
    obtain b' where "Set_bit b (unat (positions ! k)) True = Some b'" "wf_bits b'" "nbits b' = nbits b"
        "\<And>j. bit_at b' j \<longleftrightarrow> (if j = unat (positions ! k) then True else bit_at b j)"
      using Set_bit_ok [of b "unat (positions ! k)" True] P assms k by auto
    then show "\<exists>b'. Set_bit b (unat (positions ! k)) True = Some b' \<and> ?P (Suc k) b'"
      using P k by (auto simp: take_Suc_conv_app_nth)
  qed simp
  then show ?thesis by simp
qed

lemma blocks_fold:
  assumes wf: "wf_bits pres" and span: "nbits pres = span" "span < 2 ^ 32" and n: "n \<le> (span + 63) div 64"
  shows "\<exists>ranks acc. fold_opt (rank_step pres span) [0..<n] ([0], 0) = Some (ranks, acc)
    \<and> length ranks = Suc n \<and> unat acc = count_in (bit_at pres) 0 (n * 64)
    \<and> (\<forall>b \<le> n. unat (ranks ! b) = count_in (bit_at pres) 0 (b * 64))"
  using n
proof (induction n)
  case 0
  then show ?case by simp
next
  case (Suc n)
  let ?B = "bit_at pres"
  obtain ranks acc where IH: "fold_opt (rank_step pres span) [0..<n] ([0], 0) = Some (ranks, acc)" "length ranks = Suc n"
      "unat acc = count_in ?B 0 (n * 64)" "\<And>b. b \<le> n \<Longrightarrow> unat (ranks ! b) = count_in ?B 0 (b * 64)"
    using Suc by auto
  have clip: "count_in ?B a (min m span) = count_in ?B a m" for a m
    unfolding count_in_card using span(1) by (intro arg_cong [where f = card]) (auto simp: bit_at_def)
  have "CountRange pres (int (n * 64)) (int (min ((n + 1) * 64) span)) = Some (count_in ?B (n * 64) (min ((n + 1) * 64) span))"
    using CountRange_ok [OF wf, of "int (n * 64)" "int (min ((n + 1) * 64) span)"] by (simp only: nat_int)
  then have cr: "CountRange pres (int (n * 64)) (int (min ((n + 1) * 64) span)) = Some (count_in ?B (n * 64) (Suc n * 64))"
    by (simp only: clip) simp
  let ?c = "count_in ?B (n * 64) (Suc n * 64)"
  have sum: "count_in ?B 0 (Suc n * 64) = count_in ?B 0 (n * 64) + ?c" by (rule count_in_split) auto
  have "count_in ?B 0 (Suc n * 64) \<le> span"
    using length_filter_le [of ?B "[0..<min (Suc n * 64) span]"] clip [of 0 "Suc n * 64"] by (simp add: count_in_def)
  then have acc: "unat (acc + of_nat ?c) = count_in ?B 0 (Suc n * 64)"
    using IH(3) sum span(2) by (simp add: unat_word_ariths unsigned_of_nat take_bit_eq_mod mod_simps)
  have "rank_step pres span n (ranks, acc) = Some (ranks @ [acc + of_nat ?c], acc + of_nat ?c)"
    unfolding rank_step_def rankBlock_def prod.case cr by simp
  then have "fold_opt (rank_step pres span) [0..<Suc n] ([0], 0) = Some (ranks @ [acc + of_nat ?c], acc + of_nat ?c)"
    using IH(1) by (simp add: go_loop)
  moreover have "unat ((ranks @ [acc + of_nat ?c]) ! b) = count_in ?B 0 (b * 64)" if "b \<le> Suc n" for b
    using that IH(2,4) acc by (cases "b = Suc n") (auto simp: nth_append)
  ultimately show ?case using IH(2) acc by auto
qed

lemma buildRankIndex_ok:
  assumes pos: "sorted_wrt (<) positions" "\<And>p. p \<in> set positions \<Longrightarrow> unat p < span" and span: "span < 2 ^ 32"
  shows "\<exists>r. buildRankIndex positions span = Some r \<and> rank_inv r \<and> rank_pos r = positions"
proof -
  obtain b where b: "fold_opt (\<lambda>pos b. Set_bit b (unat pos) True) positions (New span) = Some b" "wf_bits b"
      "nbits b = span" "\<And>i. bit_at b i \<longleftrightarrow> i \<in> unat ` set positions"
    using present_fold [OF pos(2)] by blast
  obtain ranks acc where r: "fold_opt (rank_step b span) [0..<(span + 63) div 64] ([0], 0) = Some (ranks, acc)"
      "length ranks = Suc ((span + 63) div 64)" "\<And>k. k \<le> (span + 63) div 64 \<Longrightarrow> unat (ranks ! k) = count_in (bit_at b) 0 (k * 64)"
    using blocks_fold [OF b(2,3) span order_refl] by blast
  let ?r = "\<lparr>present = b, blockRank = ranks\<rparr>"
  have "buildRankIndex positions span = Some ?r" using b(1) r(1) by (simp add: buildRankIndex_def rankBlock_def Let_def add.commute)
  moreover have inv: "rank_inv ?r" using b(2,3) r(2,3) span by (simp add: rank_inv_def less_Suc_eq_le)
  moreover have "rank_pos ?r = positions"
  proof -
    have "set (rank_pos ?r) = set positions" using rank_pos_props(2) [OF inv] b(4) by (auto simp flip: word_unat_eq_iff)
    then show ?thesis using strict_sorted_equal [OF rank_pos_props(1) [OF inv] pos(1)] by blast
  qed
  ultimately show ?thesis by blast
qed

section \<open>Choosing the dense integer class\<close>

lemma narrow_repr_list: "narrow_repr nv vals \<Longrightarrow> narrow_ok nv \<and> narrow_list nv = vals"
  by (auto simp: narrow_repr_def narrow_ok_def narrow_list_def intro!: nth_equalityI)

lemma bits_fill:
  "\<exists>b. fold_opt (\<lambda>(i, v) b. Set_bit b i (f v)) (enumerate 0 vals) (New (length vals)) = Some b \<and> wf_bits b
    \<and> bits_list b = map f vals"
proof -
  let ?P = "\<lambda>k b. wf_bits b \<and> nbits b = length vals \<and> (\<forall>i. bit_at b i \<longleftrightarrow> i < k \<and> f (vals ! i))"
  have "\<exists>b. fold_opt (\<lambda>(i, v) b. Set_bit b i (f v)) (enumerate 0 vals) (New (length vals)) = Some b
      \<and> ?P (length (enumerate 0 vals)) b"
  proof (rule fold_opt_rule [where P = ?P])
    fix k b assume "k < length (enumerate 0 vals)" and P: "?P k b"
    then have k: "k < length vals" by simp
    obtain b' where "Set_bit b k (f (vals ! k)) = Some b'" "wf_bits b'" "nbits b' = nbits b"
        "\<And>j. bit_at b' j \<longleftrightarrow> (if j = k then f (vals ! k) else bit_at b j)"
      using Set_bit_ok [of b k "f (vals ! k)"] P k by auto
    then show "\<exists>b'. (\<lambda>(i, v) b. Set_bit b i (f v)) (enumerate 0 vals ! k) b = Some b' \<and> ?P (Suc k) b'"
      using P k by (auto simp: nth_enumerate_eq less_Suc_eq)
  qed simp
  then show ?thesis by (auto simp: bits_list_def intro!: nth_equalityI)
qed

lemma two_valued:
  fixes v mn mx :: i64
  assumes "mx - mn \<le> 1" "sint mn \<le> sint v" "sint v \<le> sint mx"
  shows "v = mn \<or> v = mn + 1"
proof -
  have "unat (v - mn) \<le> unat (mx - mn)" using assms(2,3) by (rule delta_bound)
  moreover have "unat (mx - mn) \<le> 1" using assms(1) by (simp add: word_le_nat_alt)
  ultimately have "unat (v - mn) = 0 \<or> unat (v - mn) = 1" by linarith
  then have "v - mn = 0 \<or> v - mn = 1" by (metis unat_1 unsigned_0 word_unat_eq_iff)
  then show ?thesis by (auto simp: algebra_simps)
qed

lemma narrowI64Column_ok:
  assumes "length vals < 2 ^ 32"
  shows "\<exists>c. narrowI64Column vals = Some c \<and> col_inv c \<and> col_pairs c = zip (all_pos (length vals)) (map I64Value vals)"
proof -
  have ap: "length (all_pos (length vals)) = length vals" "sorted_wrt (<) (all_pos (length vals))"
    using assms by (simp_all add: all_pos_props)
  have fallback: "\<exists>c. map_option (\<lambda>r. case r of Some nv \<Rightarrow> denseI64NarrowCol nv | None \<Rightarrow> denseI64Col vals) (narrowI64Vals vals) = Some c
      \<and> col_inv c \<and> col_pairs c = zip (all_pos (length vals)) (map I64Value vals)"
  proof -
    obtain r where r: "narrowI64Vals vals = Some r" "\<And>nv. r = Some nv \<Longrightarrow> narrow_repr nv vals"
      using narrowI64Vals_ok [of vals] by auto
    show ?thesis
    proof (cases r)
      case None
      then show ?thesis using r ap assms by (simp add: col_inv_def col_pairs_def)
    next
      case (Some nv)
      then have "narrow_ok nv" "narrow_list nv = vals" using narrow_repr_list r(2) by auto
      then show ?thesis using Some r ap assms list_lengths(2) [of nv] by (simp add: col_inv_def col_pairs_def)
    qed
  qed
  show ?thesis
  proof (cases "length vals \<ge> narrowI64MinLen")
    case False
    then show ?thesis using fallback by (simp add: narrowI64Column_def)
  next
    case True
    obtain mn mx where mm: "min_max vals = (mn, mx)" by force
    show ?thesis
    proof (cases "mx - mn \<le> 1")
      case False
      then show ?thesis using True mm fallback by (simp add: narrowI64Column_def)
    next
      case two: True
      obtain b where b: "fold_opt (\<lambda>(i, v) b. Set_bit b i (v \<noteq> mn)) (enumerate 0 vals) (New (length vals)) = Some b"
          "wf_bits b" "bits_list b = map (\<lambda>v. v \<noteq> mn) vals"
        using bits_fill [of "\<lambda>v. v \<noteq> mn" vals] by blast
      have "vals \<noteq> []" using True by (auto simp: narrowI64MinLen_def)
      from min_max_bounds(3) [OF this mm] have "v = mn \<or> v = mn + 1" if "v \<in> set vals" for v
        using two_valued [OF two] that by blast
      then have v: "map (\<lambda>v. I64Value (if v \<noteq> mn then mn + 1 else mn)) vals = map I64Value vals"
        by (intro map_cong refl) auto
      have "nbits b = length vals" using b(3) list_lengths(1) [of b] by simp
      then have "col_inv (denseI64BitCol mn b)" "col_pairs (denseI64BitCol mn b) = zip (all_pos (length vals)) (map I64Value vals)"
        using b(2,3) ap assms by (simp_all add: col_inv_def col_pairs_def o_def v del: if_split cong: map_cong)
      moreover have "narrowI64Column vals = Some (denseI64BitCol mn b)"
        using True mm two b(1) by (simp add: narrowI64Column_def)
      ultimately show ?thesis by blast
    qed
  qed
qed

section \<open>Properties\<close>

text \<open>
  C31: all sixteen storage classes keep the \<open>Column\<close> contract. On a well-formed column neither \<open>Get\<close>
  nor \<open>Entries\<close> panics; \<open>Entries\<close> yields the present positions in ascending order, each once, with
  the value \<open>Get\<close> returns there, and \<open>Len\<close> counts the positions at which \<open>Get\<close> finds a value.
\<close>

theorem column_contract:
  assumes "col_inv c"
  shows "\<exists>es. Column_Entries c = Some es \<and> sorted_wrt (<) (map fst es)
    \<and> (\<forall>p. \<exists>r. Column_Get c p = Some r \<and> (\<forall>v. r = Some v \<longleftrightarrow> (p, v) \<in> set es))
    \<and> Column_Len c = length es \<and> Column_Len c = card {p. Column_Get c p \<noteq> Some None}"
  using assms cols.entries_pairs [OF assms] cols.pairs_sorted [OF assms] cols.get_pairs [OF assms]
    cols.len_pairs [OF assms] cols.len_card [OF assms] cols.pairs_distinct [OF assms]
  by (auto simp: map_of_eq_Some_iff)

theorem column_contract_witness:
  "\<exists>es. Column_Entries (sparseI64Col [3, 9] [10, 20]) = Some es \<and> sorted_wrt (<) (map fst es)
    \<and> (\<forall>p. \<exists>r. Column_Get (sparseI64Col [3, 9] [10, 20]) p = Some r \<and> (\<forall>v. r = Some v \<longleftrightarrow> (p, v) \<in> set es))
    \<and> Column_Len (sparseI64Col [3, 9] [10, 20]) = length es
    \<and> Column_Len (sparseI64Col [3, 9] [10, 20]) = card {p. Column_Get (sparseI64Col [3, 9] [10, 20]) p \<noteq> Some None}"
  by (rule column_contract) (simp add: col_inv_def)

text \<open>
  The rank index built from ascending positions answers every query as binary search over those
  positions does: the slot of a present position, and none for an absent one.
\<close>

lemma rank_index_correct:
  assumes "sorted_wrt (<) positions" "\<And>p. p \<in> set positions \<Longrightarrow> unat p < span" "span < 2 ^ 32"
  shows "\<exists>r. buildRankIndex positions span = Some r \<and> (\<forall>p. rank_slot r p = Some (sparseSlot positions p))
    \<and> (\<forall>p k. rank_slot r p = Some (Some k) \<longleftrightarrow> k < length positions \<and> positions ! k = p)"
proof -
  obtain r where r: "buildRankIndex positions span = Some r" "rank_inv r" "rank_pos r = positions"
    using buildRankIndex_ok [OF assms] by blast
  then show ?thesis using sparseSlot_Some [OF assms(1)] rank_slot_ok [OF r(2)] by auto
qed

text \<open>
  The dense integer class is a storage choice only. Whatever class \<open>narrowI64Column\<close> picks (one
  bit, one to six bytes, or plain), the column is well formed and reads back every value at its
  position.
\<close>

lemma narrowI64Column_lossless:
  assumes "length vals < 2 ^ 32"
  shows "\<exists>c. narrowI64Column vals = Some c \<and> col_inv c \<and> Column_Dtype c = DtypeI64 \<and>
    (\<forall>p. Column_Get c p = Some (if unat p < length vals then Some (I64Value (vals ! unat p)) else None))"
proof -
  obtain c where c: "narrowI64Column vals = Some c" "col_inv c" "col_pairs c = zip (all_pos (length vals)) (map I64Value vals)"
    using narrowI64Column_ok [OF assms] by blast
  have "Column_Dtype c = DtypeI64" using c(1) by (auto simp: narrowI64Column_def split: option.splits if_splits prod.splits)
  moreover have "Column_Get c p = Some (if unat p < length vals then Some (I64Value (vals ! unat p)) else None)" for p
  proof -
    have n: "length vals \<le> 2 ^ 32" using assms by simp
    have "Column_Get c p = sparse_get (slice_val I64Value vals) (all_pos (length vals)) p"
      using cols.get_pairs [OF c(2)] c(3) sparse_get_ok(1) [of "all_pos (length vals)" "map I64Value vals" "slice_val I64Value vals" p]
        all_pos_props [OF n] by (simp add: slot_reads)
    then show ?thesis by (simp add: sparse_get_def dense_slot [OF n] slice_val_def)
  qed
  ultimately show ?thesis using c by blast
qed

end
