(* ===== verification/ColumnBuild.thy ===== *)
theory ColumnBuild
  imports Columns
begin

text \<open>
  How \<open>Finalize\<close> turns the staged writes of a property key into a column (\<open>finalize.go\<close>): the
  last-write-wins sort, the coverage test, the choice between dense, rank/select and sparse storage,
  and the count of writes lost to a key staged under several types. The four Go pair structs
  (\<open>i64Pair\<close>, \<open>f64Pair\<close>, \<open>boolPair\<close>, \<open>strPair\<close> of \<open>builder.go\<close>) are one polymorphic record.
\<close>

section \<open>Staged pairs\<close>

record 'v pair =
  pid :: u32
  pval :: 'v

type_synonym i64Pair = "i64 pair"
type_synonym f64Pair = "f64 pair"
type_synonym boolPair = "bool pair"
type_synonym strPair = "u32 pair"

definition pairID :: "'v pair \<Rightarrow> u32" where
  "pairID p = pid p"

definition withPairID :: "'v pair \<Rightarrow> u32 \<Rightarrow> 'v pair" where
  "withPairID p i = p\<lparr>pid := i\<rparr>"

section \<open>Storage selection\<close>

definition rankSelectMinLen :: nat where
  "rankSelectMinLen = 1000000"

definition rankSelectWorth :: "nat \<Rightarrow> nat \<Rightarrow> nat \<Rightarrow> nat \<Rightarrow> bool" where
  "rankSelectWorth span pres valueBits sparsePairBytes =
     (if span < rankSelectMinLen then False
      else span + pres * valueBits \<le> pres * sparsePairBytes * 8)"

text \<open>
  \<open>sort.SliceStable\<close> by position, then one pass that drops a pair followed by one with the same
  position. The pass writes its output into the front of the same slice; it reads index \<open>i + 1\<close>
  and writes at most index \<open>i\<close>, so it sees the sorted input throughout.
\<close>

fun keep_last :: "'v pair list \<Rightarrow> 'v pair list" where
  "keep_last (p # q # r) = (if pid q = pid p then keep_last (q # r) else p # keep_last (q # r))"
| "keep_last ps = ps"

definition sortPairsLastWriteWins :: "'v pair list \<Rightarrow> 'v pair list" where
  "sortPairsLastWriteWins pairs = keep_last (sort_key pid pairs)"

definition denseThreshold :: "nat \<Rightarrow> nat \<Rightarrow> bool" where
  "denseThreshold pairCount span \<longleftrightarrow> pairCount \<ge> span"

text \<open>
  \<open>int(float64(span)*0.8)\<close>. The float product is within half a unit in the last place of
  \<open>4 span / 5\<close>, which is a whole number or at least \<open>1/5\<close> away from one, so below \<open>2^53\<close> the
  truncation is the integer quotient.
\<close>

definition denseStrThreshold :: "nat \<Rightarrow> nat \<Rightarrow> bool" where
  "denseStrThreshold fill span \<longleftrightarrow> fill \<ge> 4 * span div 5"

definition distinctPositions :: "'v pair list \<Rightarrow> nat \<Rightarrow> nat option" where
  "distinctPositions pairs span =
     map_option snd (fold_opt (\<lambda>p (seen, covered).
         do {
           g \<leftarrow> Get seen (int (unat (pairID p)));
           if \<not> g then map_option (\<lambda>s. (s, covered + 1)) (Set_bit seen (unat (pairID p)) True)
           else Some (seen, covered)
         }) pairs (New span, 0))"

definition coversAllPositions :: "'v pair list \<Rightarrow> nat \<Rightarrow> bool option" where
  "coversAllPositions pairs span = map_option (\<lambda>n. n = span) (distinctPositions pairs span)"

text \<open>\<open>denseThreshold(len(pairs), span) && coversAllPositions(pairs, span)\<close>, evaluated left to right.\<close>

definition dense_full :: "'v pair list \<Rightarrow> nat \<Rightarrow> bool option" where
  "dense_full pairs span =
     (if denseThreshold (length pairs) span then coversAllPositions pairs span else Some False)"

text \<open>The dense fill loop \<open>for _, p := range pairs { col[p.id] = p.val }\<close>.\<close>

definition dense_fill :: "'v pair list \<Rightarrow> 'v list \<Rightarrow> 'v list option" where
  "dense_fill pairs col = fold_opt (\<lambda>p col. slice_set col (unat (pid p)) (pval p)) pairs col"

definition columnFromPairsI64 :: "i64Pair list \<Rightarrow> nat \<Rightarrow> Column option" where
  "columnFromPairsI64 pairs0 span =
     do {
       full \<leftarrow> dense_full pairs0 span;
       if full then do { col \<leftarrow> dense_fill pairs0 (replicate span 0); narrowI64Column col }
       else
         let pairs = sortPairsLastWriteWins pairs0; ids = map pid pairs; vals = map pval pairs in
         if rankSelectWorth span (length pairs) 64 16
         then do {
           nv \<leftarrow> narrowI64Vals vals;
           r \<leftarrow> buildRankIndex ids span;
           Some (case nv of Some v \<Rightarrow> rankI64NarrowCol r v | None \<Rightarrow> rankI64Col r vals)
         }
         else do {
           nv \<leftarrow> narrowI64Vals vals;
           Some (case nv of Some v \<Rightarrow> sparseI64NarrowCol ids v | None \<Rightarrow> sparseI64Col ids vals)
         }
     }"

definition columnFromPairsF64 :: "f64Pair list \<Rightarrow> nat \<Rightarrow> Column option" where
  "columnFromPairsF64 pairs0 span =
     do {
       full \<leftarrow> dense_full pairs0 span;
       if full then map_option denseF64Col (dense_fill pairs0 (replicate span 0))
       else
         let pairs = sortPairsLastWriteWins pairs0; ids = map pid pairs; vals = map pval pairs in
         if rankSelectWorth span (length pairs) 64 16
         then map_option (\<lambda>r. rankF64Col r vals) (buildRankIndex ids span)
         else Some (sparseF64Col ids vals)
     }"

definition columnFromPairsBool :: "boolPair list \<Rightarrow> nat \<Rightarrow> Column option" where
  "columnFromPairsBool pairs0 span =
     do {
       full \<leftarrow> dense_full pairs0 span;
       if full
       then map_option denseBoolCol
              (fold_opt (\<lambda>p col. Set_bit col (unat (pid p)) (pval p)) pairs0 (New span))
       else
         let pairs = sortPairsLastWriteWins pairs0; ids = map pid pairs in
         if rankSelectWorth span (length pairs) 1 8
         then do {
           vals \<leftarrow> fold_opt (\<lambda>(i, p) b. Set_bit b i (pval p)) (enumerate 0 pairs) (New (length pairs));
           r \<leftarrow> buildRankIndex ids span;
           Some (rankBoolCol r vals)
         }
         else Some (sparseBoolCol ids (map pval pairs))
     }"

definition columnFromPairsStr :: "strPair list \<Rightarrow> nat \<Rightarrow> Column option" where
  "columnFromPairsStr pairs0 span =
     do {
       fill \<leftarrow> distinctPositions pairs0 span;
       if denseStrThreshold fill span then map_option denseStrCol (dense_fill pairs0 (replicate span 0))
       else
         let pairs = sortPairsLastWriteWins pairs0; ids = map pid pairs; vals = map pval pairs in
         if rankSelectWorth span (length pairs) 32 8
         then map_option (\<lambda>r. rankStrCol r vals) (buildRankIndex ids span)
         else Some (sparseStrCol ids vals)
     }"

section \<open>Cross-typed staging\<close>

text \<open>
  A Go map that is iterated is an association list with distinct keys; the iteration order of Go is
  unspecified, and the list's order is one of the possible ones. \<open>stagedLens\<close> reduces a staged column
  family to pair counts; \<open>crossTypedDropCount\<close> runs over the families in finalization order.
\<close>

type_synonym 'v staged = "(PropertyKey \<times> 'v pair list) list"

definition stagedLens :: "'v staged \<Rightarrow> (PropertyKey \<times> nat) list" where
  "stagedLens m = map (\<lambda>(k, pairs). (k, length pairs)) m"

definition drop_step ::
  "PropertyKey \<times> nat \<Rightarrow> (PropertyKey \<Rightarrow> nat option) \<times> (PropertyKey \<Rightarrow> nat option) \<times> PropertyKey list
    \<Rightarrow> (PropertyKey \<Rightarrow> nat option) \<times> (PropertyKey \<Rightarrow> nat option) \<times> PropertyKey list" where
  "drop_step = (\<lambda>(k, cnt) (tot, win, multi).
     (tot(k \<mapsto> (case tot k of None \<Rightarrow> 0 | Some t \<Rightarrow> t) + cnt), win(k \<mapsto> cnt),
      if tot k \<noteq> None then List.insert k multi else multi))"

definition crossTypedDropCount :: "(PropertyKey \<times> nat) list list \<Rightarrow> int" where
  "crossTypedDropCount families =
     (case fold (\<lambda>f st. fold drop_step f st) families (Map.empty, Map.empty, []) of (tot, win, multi) \<Rightarrow>
       fold (\<lambda>k dropped. dropped + (int (the (tot k)) - int (the (win k)))) multi 0)"

section \<open>Last write wins\<close>

text \<open>What a sequence of staged writes means: each position holds the value written last.\<close>

definition staged_map :: "'v pair list \<Rightarrow> u32 \<Rightarrow> 'v option" where
  "staged_map pairs = fold (\<lambda>p m. m(pid p \<mapsto> pval p)) pairs Map.empty"

lemma fold_staged: "fold (\<lambda>p m. m(pid p \<mapsto> pval p)) pairs m k
   = (case staged_map pairs k of None \<Rightarrow> m k | Some v \<Rightarrow> Some v)"
  unfolding staged_map_def by (induction pairs rule: rev_induct) (auto split: option.split)

lemma staged_map_Nil [simp]: "staged_map [] = Map.empty"
  by (simp add: staged_map_def)

lemma staged_map_snoc [simp]: "staged_map (ps @ [p]) = (staged_map ps)(pid p \<mapsto> pval p)"
  by (simp add: staged_map_def)

lemma staged_map_Cons: "staged_map (p # ps) k = (case staged_map ps k of None \<Rightarrow> if k = pid p then Some (pval p) else None | Some v \<Rightarrow> Some v)"
  using fold_staged [of ps "Map.empty(pid p \<mapsto> pval p)" k] by (auto simp: staged_map_def split: option.splits)

lemma staged_map_append: "staged_map (xs @ ys) k = (case staged_map ys k of None \<Rightarrow> staged_map xs k | Some v \<Rightarrow> Some v)"
  using fold_staged [of ys "staged_map xs" k] by (simp add: staged_map_def)

lemma staged_map_None: "staged_map ps k = None \<longleftrightarrow> k \<notin> pid ` set ps"
  by (induction ps rule: rev_induct) auto

lemma dom_staged_map: "dom (staged_map ps) = pid ` set ps"
  using staged_map_None [of ps] by (auto simp: dom_def)

text \<open>Only the writes to a position matter for it, so a stable sort changes nothing.\<close>

lemma staged_map_filter: "staged_map ps k = staged_map (filter (\<lambda>p. pid p = k) ps) k"
  by (induction ps rule: rev_induct) auto

lemma staged_map_sort: "staged_map (sort_key pid ps) = staged_map ps"
proof
  fix k
  show "staged_map (sort_key pid ps) k = staged_map ps k"
    using staged_map_filter [of "sort_key pid ps" k] staged_map_filter [of ps k] by (simp add: sort_key_stable)
qed

lemma keep_last_set: "set (keep_last ps) \<subseteq> set ps" "pid ` set (keep_last ps) = pid ` set ps"
  by (induction ps rule: keep_last.induct) auto

lemma keep_last_ok:
  "sorted (map pid ps) \<Longrightarrow> sorted_wrt (<) (map pid (keep_last ps)) \<and> staged_map (keep_last ps) = staged_map ps"
proof (induction ps rule: keep_last.induct)
  case (1 p q r)
  have IH: "sorted_wrt (<) (map pid (keep_last (q # r)))" "staged_map (keep_last (q # r)) = staged_map (q # r)"
    using 1 by auto
  show ?case
  proof (cases "pid q = pid p")
    case True
    have "staged_map (p # q # r) k = staged_map (q # r) k" for k
      using True by (auto simp: staged_map_Cons [of p] staged_map_Cons [of q] split: option.split)
    then show ?thesis using IH True by (auto simp: fun_eq_iff)
  next
    case False
    have "pid p < pid x" if "x \<in> set (keep_last (q # r))" for x
    proof -
      have "pid p \<le> pid q" "pid q \<le> pid x" using "1.prems" that keep_last_set(1) [of "q # r"] by auto
      with False show ?thesis by (simp add: order_less_le_trans order.not_eq_order_implies_strict)
    qed
    moreover have "staged_map (p # keep_last (q # r)) = staged_map (p # q # r)"
      unfolding fun_eq_iff staged_map_Cons [of p] IH(2) by blast
    ultimately show ?thesis using IH(1) False by simp
  qed
qed simp_all

lemma lww_ok:
  "sorted_wrt (<) (map pid (sortPairsLastWriteWins ps))"
  "staged_map (sortPairsLastWriteWins ps) = staged_map ps"
  "pid ` set (sortPairsLastWriteWins ps) = pid ` set ps"
  using keep_last_ok [of "sort_key pid ps"] keep_last_set(2) [of "sort_key pid ps"]
  by (simp_all add: sortPairsLastWriteWins_def staged_map_sort)

text \<open>Distinct positions: the staged map is the association list.\<close>

lemma staged_map_distinct:
  "distinct (map pid ps) \<Longrightarrow> map_of (zip (map pid ps) (map (\<lambda>p. mk (pval p)) ps)) k = map_option mk (staged_map ps k)"
proof (induction ps)
  case (Cons p ps)
  then have "staged_map ps (pid p) = None" by (simp add: staged_map_None)
  then show ?case using Cons by (auto simp: staged_map_Cons split: option.split)
qed simp

lemma lww_map_of:
  "map_of (zip (map pid (sortPairsLastWriteWins ps)) (map (\<lambda>p. mk (pval p)) (sortPairsLastWriteWins ps))) k
     = map_option mk (staged_map ps k)"
  using staged_map_distinct [of "sortPairsLastWriteWins ps" mk k] lww_ok [of ps]
  by (simp add: sorted_wrt_less_distinct)

lemma lww_length:
  assumes "\<And>p. p \<in> set ps \<Longrightarrow> unat (pid p) < span"
  shows "length (sortPairsLastWriteWins ps) \<le> span"
proof -
  have "length (sortPairsLastWriteWins ps) = card (set (map pid (sortPairsLastWriteWins ps)))"
    using distinct_card [OF sorted_wrt_less_distinct [OF lww_ok(1) [of ps]]] by simp
  also have "\<dots> = card (unat ` pid ` set ps)" using lww_ok(3) [of ps]
    by (simp add: card_image [of unat] inj_on_def word_unat_eq_iff [symmetric])
  also have "\<dots> \<le> card {..<span}" using assms by (intro card_mono) auto
  finally show ?thesis by simp
qed

section \<open>Coverage\<close>

definition in_span :: "'v pair list \<Rightarrow> nat \<Rightarrow> bool" where
  "in_span ps span \<longleftrightarrow> (\<forall>p \<in> set ps. unat (pid p) < span)"

lemma distinctPositions_ok:
  assumes "in_span ps span"
  shows "distinctPositions ps span = Some (card (pid ` set ps))"
proof -
  let ?f = "\<lambda>p (seen, covered). do {
           g \<leftarrow> Get seen (int (unat (pairID p)));
           if \<not> g then map_option (\<lambda>s. (s, covered + 1)) (Set_bit seen (unat (pairID p)) True)
           else Some (seen, covered) }"
  let ?P = "\<lambda>k (seen, covered). wf_bits seen \<and> nbits seen = span
      \<and> (\<forall>i. bit_at seen i \<longleftrightarrow> i \<in> unat ` pid ` set (take k ps)) \<and> covered = card (pid ` set (take k ps))"
  have "\<exists>t. fold_opt ?f ps (New span, 0) = Some t \<and> ?P (length ps) t"
  proof (rule fold_opt_rule [where P = ?P])
    fix k st assume k: "k < length ps" and P: "?P k st"
    obtain seen covered where st: "st = (seen, covered)" by force
    let ?p = "pid (ps ! k)"
    have tk: "pid ` set (take (Suc k) ps) = insert ?p (pid ` set (take k ps))"
      using k by (simp add: take_Suc_conv_app_nth)
    have mem: "bit_at seen (unat ?p) \<longleftrightarrow> ?p \<in> pid ` set (take k ps)"
      using P st by (auto simp flip: word_unat_eq_iff)
    show "\<exists>st'. ?f (ps ! k) st = Some st' \<and> ?P (Suc k) st'"
    proof (cases "bit_at seen (unat ?p)")
      case True
      then have "insert ?p (pid ` set (take k ps)) = pid ` set (take k ps)" using mem by (simp add: insert_absorb)
      then show ?thesis using True P st by (simp add: pairID_def tk)
    next
      case False
      obtain s' where s': "Set_bit seen (unat ?p) True = Some s'" "wf_bits s'" "nbits s' = nbits seen"
          "\<And>j. bit_at s' j \<longleftrightarrow> (if j = unat ?p then True else bit_at seen j)"
        using Set_bit_ok [of seen "unat ?p" True] P st assms k by (auto simp: in_span_def)
      have "card (insert ?p (pid ` set (take k ps))) = covered + 1" using mem False P st by simp
      then show ?thesis using False P st s' by (auto simp: pairID_def tk)
    qed
  qed simp
  then show ?thesis by (auto simp: distinctPositions_def)
qed

lemma covers_all:
  assumes "in_span ps span" "span < 2 ^ 32" "card (pid ` set ps) = span" "i < span"
  shows "of_nat i \<in> pid ` set ps"
proof -
  have "unat ` pid ` set ps \<subseteq> {..<span}" using assms(1) by (auto simp: in_span_def)
  moreover have "card (unat ` pid ` set ps) = card {..<span}"
    using assms(3) by (simp add: card_image [of unat] inj_on_def word_unat_eq_iff [symmetric])
  ultimately have "unat ` pid ` set ps = {..<span}" by (intro card_subset_eq) auto
  with assms(4) have "i \<in> unat ` pid ` set ps" by simp
  then obtain q where "q \<in> pid ` set ps" "unat q = i" by blast
  then show ?thesis by (metis of_nat_unat ucast_id)
qed

lemma dense_full_ok:
  assumes "in_span ps span" "span < 2 ^ 32"
  shows "\<exists>full. dense_full ps span = Some full \<and> (full \<longrightarrow> (\<forall>i < span. of_nat i \<in> pid ` set ps))"
  using distinctPositions_ok [OF assms(1)] covers_all [OF assms]
  by (auto simp: dense_full_def coversAllPositions_def)

text \<open>The dense fill stores the last write of every position over the initial content.\<close>

lemma dense_fill_ok:
  assumes "in_span ps span" "length col = span" "span \<le> 2 ^ 32"
  shows "\<exists>xs. dense_fill ps col = Some xs \<and> length xs = span
    \<and> (\<forall>i < span. xs ! i = (case staged_map ps (of_nat i) of Some v \<Rightarrow> v | None \<Rightarrow> col ! i))"
proof -
  let ?P = "\<lambda>k xs. length xs = span
    \<and> (\<forall>i < span. xs ! i = (case staged_map (take k ps) (of_nat i) of Some v \<Rightarrow> v | None \<Rightarrow> col ! i))"
  have "\<exists>xs. dense_fill ps col = Some xs \<and> ?P (length ps) xs"
    unfolding dense_fill_def
  proof (rule fold_opt_rule [where P = ?P])
    fix k xs assume k: "k < length ps" and P: "?P k xs"
    have lt: "unat (pid (ps ! k)) < span" using assms(1) k by (auto simp: in_span_def)
    have un: "i = unat (pid (ps ! k)) \<longleftrightarrow> of_nat i = pid (ps ! k)" if "i < span" for i
    proof -
      have "unat (of_nat i :: u32) = i" using that assms(3) by (intro unat_of_nat_less) simp
      then show ?thesis by (metis of_nat_unat ucast_id)
    qed
    have "(xs[unat (pid (ps ! k)) := pval (ps ! k)]) ! i
        = (case staged_map (take (Suc k) ps) (of_nat i) of Some v \<Rightarrow> v | None \<Rightarrow> col ! i)" if "i < span" for i
      using P k that lt un [OF that] by (cases "of_nat i = pid (ps ! k)") (auto simp: take_Suc_conv_app_nth)
    then show "\<exists>xs'. slice_set xs (unat (pid (ps ! k))) (pval (ps ! k)) = Some xs' \<and> ?P (Suc k) xs'"
      using P lt by simp
  qed (use assms(2) in simp)
  then show ?thesis by simp
qed

section \<open>The columns that finalization builds\<close>

text \<open>\<open>reads_as c mk m\<close>: the column is well formed and reads the map \<open>m\<close>, its values wrapped by \<open>mk\<close>.\<close>

definition reads_as :: "Column \<Rightarrow> ('v \<Rightarrow> Value) \<Rightarrow> (u32 \<Rightarrow> 'v option) \<Rightarrow> bool" where
  "reads_as c mk m \<longleftrightarrow> col_inv c \<and> (\<forall>k. Column_Get c k = Some (map_option mk (m k)))"

lemma reads_as_pairs:
  "col_inv c \<Longrightarrow> (\<And>k. map_of (col_pairs c) k = map_option mk (m k)) \<Longrightarrow> reads_as c mk m"
  by (simp add: reads_as_def cols.get_pairs)

lemma reads_as_dense:
  assumes "col_inv c" "col_pairs c = zip (all_pos (length xs)) (map mk xs)" "length xs = span" "span < 2 ^ 32"
    and "\<And>i. i < span \<Longrightarrow> m (of_nat i) = Some (xs ! i)" "\<And>k. \<not> unat k < span \<Longrightarrow> m k = None"
  shows "reads_as c mk m"
proof (rule reads_as_pairs [OF assms(1)])
  fix k
  have n: "length xs \<le> 2 ^ 32" using assms(3,4) by simp
  have "sparse_get (slice_val mk xs) (all_pos (length xs)) k = Some (map_of (col_pairs c) k)"
    unfolding assms(2) using all_pos_props [OF n] by (intro sparse_get_ok(1)) (auto simp: slot_reads)
  then have "map_of (col_pairs c) k = (if unat k < length xs then Some (mk (xs ! unat k)) else None)"
    by (simp add: sparse_get_def dense_slot [OF n] slice_val_def split: if_splits)
  moreover have "m k = Some (xs ! unat k)" if "unat k < span" using assms(5) [OF that] by simp
  ultimately show "map_of (col_pairs c) k = map_option mk (m k)" using assms(3,6) by auto
qed

lemma dense_reads:
  assumes span: "in_span ps span" "span < 2 ^ 32" and full: "\<forall>i < span. of_nat i \<in> pid ` set ps"
    and xs: "length xs = span" "\<And>i v. i < span \<Longrightarrow> staged_map ps (of_nat i) = Some v \<Longrightarrow> xs ! i = v"
    and c: "col_inv c" "col_pairs c = zip (all_pos (length xs)) (map mk xs)"
  shows "reads_as c mk (staged_map ps)"
proof (rule reads_as_dense [OF c xs(1) span(2)])
  show "staged_map ps (of_nat i) = Some (xs ! i)" if i: "i < span" for i
  proof -
    obtain v where "staged_map ps (of_nat i) = Some v" using full i staged_map_None [of ps "of_nat i"] by blast
    then show ?thesis using xs(2) [OF i] by simp
  qed
  show "staged_map ps k = None" if "\<not> unat k < span" for k
    using span(1) that by (auto simp: staged_map_None in_span_def)
qed

lemma lww_reads:
  assumes c: "col_inv c" "col_pos c = map pid (sortPairsLastWriteWins ps)"
    "col_vals c = map (\<lambda>p. mk (pval p)) (sortPairsLastWriteWins ps)"
  shows "reads_as c mk (staged_map ps)"
  by (rule reads_as_pairs [OF c(1)]) (simp add: col_pairs_def c(2,3) lww_map_of)

lemma lww_facts:
  assumes "in_span ps span" "span < 2 ^ 32"
  shows "length (sortPairsLastWriteWins ps) < 2 ^ 32"
    "\<exists>r. buildRankIndex (map pid (sortPairsLastWriteWins ps)) span = Some r \<and> rank_inv r
      \<and> rank_pos r = map pid (sortPairsLastWriteWins ps)"
proof -
  show "length (sortPairsLastWriteWins ps) < 2 ^ 32" using lww_length [of ps span] assms by (simp add: in_span_def)
  have "unat q < span" if "q \<in> set (map pid (sortPairsLastWriteWins ps))" for q
    using that lww_ok(3) [of ps] assms(1) by (auto simp: in_span_def)
  then show "\<exists>r. buildRankIndex (map pid (sortPairsLastWriteWins ps)) span = Some r \<and> rank_inv r
      \<and> rank_pos r = map pid (sortPairsLastWriteWins ps)"
    using lww_ok(1) assms(2) by (intro buildRankIndex_ok) auto
qed

lemma columnFromPairsF64_ok:
  assumes span: "in_span ps span" "span < 2 ^ 32"
  shows "\<exists>c. columnFromPairsF64 ps span = Some c \<and> reads_as c F64Value (staged_map ps)"
proof -
  obtain full where full: "dense_full ps span = Some full" "full \<longrightarrow> (\<forall>i < span. of_nat i \<in> pid ` set ps)"
    using dense_full_ok [OF span] by blast
  let ?ps = "sortPairsLastWriteWins ps"
  show ?thesis
  proof (cases full)
    case True
    obtain xs where xs: "dense_fill ps (replicate span 0) = Some xs" "length xs = span"
        "\<And>i. i < span \<Longrightarrow> xs ! i = (case staged_map ps (of_nat i) of Some v \<Rightarrow> v | None \<Rightarrow> replicate span 0 ! i)"
      using dense_fill_ok [OF span(1), of "replicate span 0"] span(2) by auto
    have "col_inv (denseF64Col xs)" using xs(2) span(2) all_pos_props [of span] by (simp add: col_inv_def)
    then have "reads_as (denseF64Col xs) F64Value (staged_map ps)"
      using full True xs(2,3) span by (intro dense_reads) (auto simp: col_pairs_def)
    then show ?thesis using full(1) True xs(1) by (simp add: columnFromPairsF64_def)
  next
    case False
    obtain r where r: "buildRankIndex (map pid ?ps) span = Some r" "rank_inv r" "rank_pos r = map pid ?ps"
      using lww_facts(2) [OF span] by blast
    have "reads_as (rankF64Col r (map pval ?ps)) F64Value (staged_map ps)"
      "reads_as (sparseF64Col (map pid ?ps) (map pval ?ps)) F64Value (staged_map ps)"
      using r lww_facts(1) [OF span] lww_ok(1) [of ps]
      by (auto intro!: lww_reads simp: col_inv_def)
    then show ?thesis using full(1) False r(1) by (simp add: columnFromPairsF64_def Let_def)
  qed
qed

lemma columnFromPairsI64_ok:
  assumes span: "in_span ps span" "span < 2 ^ 32"
  shows "\<exists>c. columnFromPairsI64 ps span = Some c \<and> reads_as c I64Value (staged_map ps)"
proof -
  obtain full where full: "dense_full ps span = Some full" "full \<longrightarrow> (\<forall>i < span. of_nat i \<in> pid ` set ps)"
    using dense_full_ok [OF span] by blast
  let ?ps = "sortPairsLastWriteWins ps"
  show ?thesis
  proof (cases full)
    case True
    obtain xs where xs: "dense_fill ps (replicate span 0) = Some xs" "length xs = span"
        "\<And>i. i < span \<Longrightarrow> xs ! i = (case staged_map ps (of_nat i) of Some v \<Rightarrow> v | None \<Rightarrow> replicate span 0 ! i)"
      using dense_fill_ok [OF span(1), of "replicate span 0"] span(2) by auto
    obtain c where c: "narrowI64Column xs = Some c" "col_inv c" "col_pairs c = zip (all_pos (length xs)) (map I64Value xs)"
      using narrowI64Column_ok [of xs] xs(2) span(2) by auto
    have "reads_as c I64Value (staged_map ps)"
      using full True xs(2,3) span c by (intro dense_reads [OF span]) auto
    then show ?thesis using full(1) True xs(1) c(1) by (simp add: columnFromPairsI64_def)
  next
    case False
    obtain r where r: "buildRankIndex (map pid ?ps) span = Some r" "rank_inv r" "rank_pos r = map pid ?ps"
      using lww_facts(2) [OF span] by blast
    obtain n where n: "narrowI64Vals (map pval ?ps) = Some n" "\<And>nv. n = Some nv \<Longrightarrow> narrow_repr nv (map pval ?ps)"
      using narrowI64Vals_ok [of "map pval ?ps"] by auto
    have plain: "reads_as (rankI64Col r (map pval ?ps)) I64Value (staged_map ps)"
      "reads_as (sparseI64Col (map pid ?ps) (map pval ?ps)) I64Value (staged_map ps)"
      using r lww_facts(1) [OF span] lww_ok(1) [of ps] by (auto intro!: lww_reads simp: col_inv_def)
    have narrow: "reads_as (rankI64NarrowCol r nv) I64Value (staged_map ps)"
      "reads_as (sparseI64NarrowCol (map pid ?ps) nv) I64Value (staged_map ps)" if "n = Some nv" for nv
    proof -
      have nv: "narrow_ok nv" "narrow_list nv = map pval ?ps" using narrow_repr_list n(2) [OF that] by auto
      have len: "narrow_n nv = length ?ps" using nv(2) list_lengths(2) [of nv] by simp
      show "reads_as (rankI64NarrowCol r nv) I64Value (staged_map ps)"
        "reads_as (sparseI64NarrowCol (map pid ?ps) nv) I64Value (staged_map ps)"
        using r lww_facts(1) [OF span] lww_ok(1) [of ps] nv len by (auto intro!: lww_reads simp: col_inv_def)
    qed
    show ?thesis using full(1) False r(1) n(1) plain narrow
      by (cases n) (auto simp: columnFromPairsI64_def Let_def)
  qed
qed

text \<open>Filling a bit vector by writes at positions.\<close>

lemma bits_writes:
  assumes "in_span ps span" "span \<le> 2 ^ 32"
  shows "\<exists>b. fold_opt (\<lambda>p col. Set_bit col (unat (pid p)) (pval p)) ps (New span) = Some b \<and> wf_bits b \<and> nbits b = span
    \<and> (\<forall>i < span. bit_at b i = (case staged_map ps (of_nat i) of Some v \<Rightarrow> v | None \<Rightarrow> False))"
proof -
  let ?P = "\<lambda>k b. wf_bits b \<and> nbits b = span
    \<and> (\<forall>i < span. bit_at b i = (case staged_map (take k ps) (of_nat i) of Some v \<Rightarrow> v | None \<Rightarrow> False))"
  have "\<exists>b. fold_opt (\<lambda>p col. Set_bit col (unat (pid p)) (pval p)) ps (New span) = Some b \<and> ?P (length ps) b"
  proof (rule fold_opt_rule [where P = ?P])
    fix k b assume k: "k < length ps" and P: "?P k b"
    let ?p = "ps ! k"
    have lt: "unat (pid ?p) < span" using assms(1) k by (auto simp: in_span_def)
    obtain b' where b': "Set_bit b (unat (pid ?p)) (pval ?p) = Some b'" "wf_bits b'" "nbits b' = nbits b"
        "\<And>j. bit_at b' j \<longleftrightarrow> (if j = unat (pid ?p) then pval ?p else bit_at b j)"
      using Set_bit_ok [of b "unat (pid ?p)" "pval ?p"] P lt by auto
    have un: "i = unat (pid ?p) \<longleftrightarrow> of_nat i = pid ?p" if "i < span" for i
    proof -
      have "unat (of_nat i :: u32) = i" using that assms(2) by (intro unat_of_nat_less) simp
      then show ?thesis by (metis of_nat_unat ucast_id)
    qed
    have "bit_at b' i = (case staged_map (take (Suc k) ps) (of_nat i) of Some v \<Rightarrow> v | None \<Rightarrow> False)" if "i < span" for i
      using P k that un [OF that] b'(4) by (cases "of_nat i = pid ?p") (auto simp: take_Suc_conv_app_nth)
    then show "\<exists>b'. Set_bit b (unat (pid ?p)) (pval ?p) = Some b' \<and> ?P (Suc k) b'"
      using b' P by auto
  qed simp
  then show ?thesis by simp
qed

lemma columnFromPairsBool_ok:
  assumes span: "in_span ps span" "span < 2 ^ 32"
  shows "\<exists>c. columnFromPairsBool ps span = Some c \<and> reads_as c BoolValue (staged_map ps)"
proof -
  obtain full where full: "dense_full ps span = Some full" "full \<longrightarrow> (\<forall>i < span. of_nat i \<in> pid ` set ps)"
    using dense_full_ok [OF span] by blast
  let ?ps = "sortPairsLastWriteWins ps"
  show ?thesis
  proof (cases full)
    case True
    obtain b where b: "fold_opt (\<lambda>p col. Set_bit col (unat (pid p)) (pval p)) ps (New span) = Some b" "wf_bits b"
        "nbits b = span" "\<And>i. i < span \<Longrightarrow> bit_at b i = (case staged_map ps (of_nat i) of Some v \<Rightarrow> v | None \<Rightarrow> False)"
      using bits_writes [OF span(1)] span(2) by auto
    have "col_inv (denseBoolCol b)" using b(2,3) span(2) all_pos_props [of span] by (simp add: col_inv_def)
    then have "reads_as (denseBoolCol b) BoolValue (staged_map ps)"
      using full True b(3,4) span by (intro dense_reads [where xs = "bits_list b"]) (auto simp: col_pairs_def bits_list_def)
    then show ?thesis using full(1) True b(1) by (simp add: columnFromPairsBool_def)
  next
    case False
    obtain r where r: "buildRankIndex (map pid ?ps) span = Some r" "rank_inv r" "rank_pos r = map pid ?ps"
      using lww_facts(2) [OF span] by blast
    obtain b where b: "fold_opt (\<lambda>(i, p) b. Set_bit b i (pval p)) (enumerate 0 ?ps) (New (length ?ps)) = Some b" "wf_bits b"
        "bits_list b = map pval ?ps"
      using bits_fill [of pval ?ps] by blast
    have "nbits b = length ?ps" using b(3) list_lengths(1) [of b] by simp
    then have "reads_as (rankBoolCol r b) BoolValue (staged_map ps)"
      "reads_as (sparseBoolCol (map pid ?ps) (map pval ?ps)) BoolValue (staged_map ps)"
      using r b lww_facts(1) [OF span] lww_ok(1) [of ps] by (auto intro!: lww_reads simp: col_inv_def)
    then show ?thesis using full(1) False r(1) b(1) by (simp add: columnFromPairsBool_def Let_def)
  qed
qed

text \<open>
  A string column filled to four fifths is dense, and its unwritten positions then read as atom 0,
  the empty string; otherwise absence is kept.
\<close>

lemma columnFromPairsStr_ok:
  assumes span: "in_span ps span" "span < 2 ^ 32"
  shows "\<exists>c. columnFromPairsStr ps span = Some c \<and> reads_as c StrValue
    (if denseStrThreshold (card (pid ` set ps)) span
     then (\<lambda>k. if unat k < span then Some (case staged_map ps k of Some v \<Rightarrow> v | None \<Rightarrow> 0) else None)
     else staged_map ps)"
proof -
  let ?ps = "sortPairsLastWriteWins ps"
  note dist = distinctPositions_ok [OF span(1)]
  show ?thesis
  proof (cases "denseStrThreshold (card (pid ` set ps)) span")
    case True
    obtain xs where xs: "dense_fill ps (replicate span 0) = Some xs" "length xs = span"
        "\<And>i. i < span \<Longrightarrow> xs ! i = (case staged_map ps (of_nat i) of Some v \<Rightarrow> v | None \<Rightarrow> replicate span 0 ! i)"
      using dense_fill_ok [OF span(1), of "replicate span 0"] span(2) by auto
    have un: "unat (of_nat i :: u32) = i" if "i < span" for i using that span(2) by (intro unat_of_nat_less) simp
    have "col_inv (denseStrCol xs)" using xs(2) span(2) all_pos_props [of span] by (simp add: col_inv_def)
    then have "reads_as (denseStrCol xs) StrValue
        (\<lambda>k. if unat k < span then Some (case staged_map ps k of Some v \<Rightarrow> v | None \<Rightarrow> 0) else None)"
      using xs(2,3) span(2) un by (intro reads_as_dense) (auto simp: col_pairs_def split: option.splits)
    then show ?thesis using True dist xs(1) by (simp add: columnFromPairsStr_def)
  next
    case False
    obtain r where r: "buildRankIndex (map pid ?ps) span = Some r" "rank_inv r" "rank_pos r = map pid ?ps"
      using lww_facts(2) [OF span] by blast
    have "reads_as (rankStrCol r (map pval ?ps)) StrValue (staged_map ps)"
      "reads_as (sparseStrCol (map pid ?ps) (map pval ?ps)) StrValue (staged_map ps)"
      using r lww_facts(1) [OF span] lww_ok(1) [of ps] by (auto intro!: lww_reads simp: col_inv_def)
    then show ?thesis using False dist r(1) by (simp add: columnFromPairsStr_def Let_def)
  qed
qed

section \<open>Cross-typed drops\<close>

text \<open>The nested loops run over the concatenated families.\<close>

definition occ :: "(PropertyKey \<times> nat) list \<Rightarrow> PropertyKey \<Rightarrow> nat list" where
  "occ L k = map snd (filter (\<lambda>e. fst e = k) L)"

lemma occ_simps [simp]: "occ [] k = []" "occ (L @ [e]) k = occ L k @ (if fst e = k then [snd e] else [])"
  by (simp_all add: occ_def)

lemma drop_steps:
  "fold drop_step L (Map.empty, Map.empty, []) = (tot, win, multi) \<Longrightarrow>
   (\<forall>k. tot k = (if occ L k = [] then None else Some (sum_list (occ L k)))
      \<and> win k = (if occ L k = [] then None else Some (last (occ L k))))
   \<and> distinct multi \<and> set multi = {k. length (occ L k) \<ge> 2}"
proof (induction L arbitrary: tot win multi rule: rev_induct)
  case Nil
  then show ?case by auto
next
  case (snoc e L)
  obtain t w m where st: "fold drop_step L (Map.empty, Map.empty, []) = (t, w, m)" by (metis prod_cases3)
  obtain k cnt where e: "e = (k, cnt)" by force
  note IH = snoc.IH [OF st]
  have new: "tot = t(k \<mapsto> (case t k of None \<Rightarrow> 0 | Some x \<Rightarrow> x) + cnt)" "win = w(k \<mapsto> cnt)"
      "multi = (if t k \<noteq> None then List.insert k m else m)"
    using snoc.prems st e by (simp_all add: drop_step_def)
  have two: "length (occ L k @ [cnt]) \<ge> 2 \<longleftrightarrow> occ L k \<noteq> []" by (cases "occ L k") auto
  have "{j. length (occ (L @ [e]) j) \<ge> 2} = (if occ L k \<noteq> [] then insert k else id) {j. length (occ L j) \<ge> 2}"
    using e two by (auto split: if_splits)
  then show ?case using IH new e by (auto simp: fun_eq_iff)
qed

lemma sum_occ:
  assumes "finite K" "fst ` set L \<subseteq> K"
  shows "(\<Sum>k \<in> K. sum_list (occ L k)) = sum_list (map snd L)"
  using assms(2)
proof (induction L rule: rev_induct)
  case (snoc e L)
  have "(\<Sum>k \<in> K. sum_list (occ (L @ [e]) k)) = (\<Sum>k \<in> K. sum_list (occ L k) + (if k = fst e then snd e else 0))"
    by (intro sum.cong refl) auto
  also have "\<dots> = (\<Sum>k \<in> K. sum_list (occ L k)) + snd e"
    using snoc.prems assms(1) by (simp add: sum.distrib)
  finally show ?case using snoc by simp
qed simp

lemma fold_sum: "fold (\<lambda>k d. d + f k) xs (a::int) = a + sum_list (map f xs)"
  by (induction xs arbitrary: a) simp_all

lemma crossTypedDropCount_ok:
  fixes fams :: "(PropertyKey \<times> nat) list list"
  defines "L \<equiv> concat fams"
  shows "crossTypedDropCount fams + int (\<Sum>k \<in> fst ` set L. last (occ L k)) = int (sum_list (map snd L))"
proof -
  obtain tot win multi where st: "fold drop_step L (Map.empty, Map.empty, []) = (tot, win, multi)" by (metis prod_cases3)
  note inv = drop_steps [OF st]
  let ?K = "fst ` set L" and ?d = "\<lambda>k. int (sum_list (occ L k)) - int (last (occ L k))"
  have occ: "occ L k \<noteq> [] \<longleftrightarrow> k \<in> ?K" for k by (auto simp: occ_def filter_empty_conv)
  have "fold (\<lambda>f st. fold drop_step f st) fams s = fold drop_step (concat fams) s" for s
    by (induction fams arbitrary: s) auto
  then have "crossTypedDropCount fams = sum_list (map (\<lambda>k. int (the (tot k)) - int (the (win k))) multi)"
    using st by (simp add: crossTypedDropCount_def L_def fold_sum)
  also have "\<dots> = sum_list (map ?d multi)"
    using inv by (intro arg_cong [where f = sum_list] map_cong refl) auto
  also have "\<dots> = (\<Sum>k \<in> {k. length (occ L k) \<ge> 2}. ?d k)" using inv by (simp add: sum_list_distinct_conv_sum_set)
  also have "\<dots> = (\<Sum>k \<in> ?K. ?d k)"
  proof (rule sum.mono_neutral_left)
    have "?d k = 0" if "length (occ L k) = 1" for k using that by (auto simp: length_Suc_conv)
    moreover have "length (occ L k) = 1" if "k \<in> ?K" "\<not> length (occ L k) \<ge> 2" for k
      using that occ [of k] by (cases "occ L k"; cases "tl (occ L k)") auto
    ultimately show "\<forall>k \<in> ?K - {k. length (occ L k) \<ge> 2}. ?d k = 0" by blast
    have "length (occ L k) \<ge> 2 \<Longrightarrow> occ L k \<noteq> []" for k by auto
    then show "{k. length (occ L k) \<ge> 2} \<subseteq> ?K" using occ by blast
  qed simp
  also have "\<dots> = int (\<Sum>k \<in> ?K. sum_list (occ L k)) - int (\<Sum>k \<in> ?K. last (occ L k))"
    by (simp add: sum_subtractf)
  also have "(\<Sum>k \<in> ?K. sum_list (occ L k)) = sum_list (map snd L)" by (rule sum_occ) auto
  finally show ?thesis by simp
qed

section \<open>Properties\<close>

text \<open>
  C30: numeric and boolean columns keep the staged writes exactly. For any list of writes inside the
  column's span, in any order and with any number of rewrites, building never panics and the column,
  whichever of the ten storage classes was selected, is well formed and reads at every position the
  value written last, and nothing where nothing was written.
\<close>

theorem column_last_write_wins:
  assumes "in_span is span" "in_span fs span" "in_span bs span" "span < 2 ^ 32"
  shows "(\<exists>c. columnFromPairsI64 is span = Some c \<and> col_inv c
      \<and> (\<forall>k. Column_Get c k = Some (map_option I64Value (staged_map is k))))
    \<and> (\<exists>c. columnFromPairsF64 fs span = Some c \<and> col_inv c
      \<and> (\<forall>k. Column_Get c k = Some (map_option F64Value (staged_map fs k))))
    \<and> (\<exists>c. columnFromPairsBool bs span = Some c \<and> col_inv c
      \<and> (\<forall>k. Column_Get c k = Some (map_option BoolValue (staged_map bs k))))"
  using columnFromPairsI64_ok [OF assms(1,4)] columnFromPairsF64_ok [OF assms(2,4)] columnFromPairsBool_ok [OF assms(3,4)]
  unfolding reads_as_def by blast

definition example_writes :: "'v \<Rightarrow> 'v \<Rightarrow> 'v pair list" where
  "example_writes x y = [\<lparr>pid = 4, pval = x\<rparr>, \<lparr>pid = 1, pval = x\<rparr>, \<lparr>pid = 4, pval = y\<rparr>]"

theorem column_last_write_wins_witness:
  "(\<exists>c. columnFromPairsI64 (example_writes 7 8) 6 = Some c \<and> col_inv c
      \<and> (\<forall>k. Column_Get c k = Some (map_option I64Value (staged_map (example_writes 7 8) k))))
    \<and> (\<exists>c. columnFromPairsF64 (example_writes 1 0) 6 = Some c \<and> col_inv c
      \<and> (\<forall>k. Column_Get c k = Some (map_option F64Value (staged_map (example_writes 1 0) k))))
    \<and> (\<exists>c. columnFromPairsBool (example_writes True False) 6 = Some c \<and> col_inv c
      \<and> (\<forall>k. Column_Get c k = Some (map_option BoolValue (staged_map (example_writes True False) k))))"
  by (rule column_last_write_wins) (simp_all add: in_span_def example_writes_def)

text \<open>
  C32: string columns. Building never panics; a column whose distinct written positions reach four
  fifths of the span is dense and reads the empty atom 0 at unwritten positions of the span, and any
  other string column reads exactly the last writes.
\<close>

theorem str_column_reads:
  assumes "in_span ps span" "span < 2 ^ 32"
  shows "\<exists>c. columnFromPairsStr ps span = Some c \<and> col_inv c \<and>
    (\<forall>k. Column_Get c k = Some (map_option StrValue
      (if card (pid ` set ps) \<ge> 4 * span div 5
       then if unat k < span then Some (case staged_map ps k of Some v \<Rightarrow> v | None \<Rightarrow> 0) else None
       else staged_map ps k)))"
  using columnFromPairsStr_ok [OF assms] unfolding reads_as_def denseStrThreshold_def by (auto split: if_splits)

theorem str_column_reads_witness:
  "\<exists>c. columnFromPairsStr (example_writes 3 9) 6 = Some c \<and> col_inv c \<and>
    (\<forall>k. Column_Get c k = Some (map_option StrValue
      (if card (pid ` set (example_writes 3 (9 :: u32))) \<ge> 4 * 6 div 5
       then if unat k < 6 then Some (case staged_map (example_writes 3 9) k of Some v \<Rightarrow> v | None \<Rightarrow> 0) else None
       else staged_map (example_writes 3 9) k)))"
  by (rule str_column_reads) (simp_all add: in_span_def example_writes_def)

text \<open>
  The cross-typed diagnostic loses no write. For any staged families, the reported number of
  dropped writes plus the writes of each key's last family (the column that survives) is the total
  number of staged writes.
\<close>

lemma cross_typed_conservation:
  "crossTypedDropCount fams
     + int (\<Sum>k \<in> fst ` set (concat fams). last (map snd (filter (\<lambda>e. fst e = k) (concat fams))))
   = int (sum_list (map snd (concat fams)))"
  using crossTypedDropCount_ok [of fams] by (simp add: occ_def)

end
