(* ===== verification/Atoms.thy ===== *)
theory Atoms
  imports Values "HOL-Library.Char_ord" "HOL-Library.List_Lexorder" "HOL-Library.Product_Lexorder"
begin

text \<open>
  Interned strings: the immutable atom table of a snapshot with its lazily sorted reverse index and
  the builder's interner (\<open>atoms.go\<close>), and the property read result \<open>Prop\<close> (\<open>prop.go\<close>), which
  resolves string values through the table. Strings are byte strings; Go compares them bytewise,
  that is lexicographically.
\<close>

section \<open>Atoms\<close>

text \<open>\<open>sorted\<close> is \<^term>\<open>None\<close> until \<open>sortedOnce\<close> has run.\<close>

record Atoms =
  atom_strings :: "string list"
  atom_sorted :: "u32 list option"

definition NewAtoms :: "string list \<Rightarrow> Atoms" where
  "NewAtoms strings = \<lparr>atom_strings = strings, atom_sorted = None\<rparr>"

text \<open>\<open>sort.Slice\<close> with the total order \<open>(string, id)\<close> on the distinct ids.\<close>

definition sort_index :: "string list \<Rightarrow> u32 list" where
  "sort_index strings = sort_key (\<lambda>i. (strings ! unat i, i)) (map of_nat [0..<length strings])"

definition sortedIndex :: "Atoms \<Rightarrow> u32 list \<times> Atoms" where
  "sortedIndex a =
     (case atom_sorted a of
        Some xs \<Rightarrow> (xs, a)
      | None \<Rightarrow> let xs = sort_index (atom_strings a) in (xs, a\<lparr>atom_sorted := Some xs\<rparr>))"

definition Atoms_Len :: "Atoms \<Rightarrow> nat" where
  "Atoms_Len a = length (atom_strings a)"

definition Atoms_Resolve :: "Atoms \<Rightarrow> u32 \<Rightarrow> string \<times> bool" where
  "Atoms_Resolve a i =
     (if unat i \<ge> length (atom_strings a) then ('''', False) else (atom_strings a ! unat i, True))"

definition Atoms_ID :: "Atoms \<Rightarrow> string \<Rightarrow> (u32 \<times> bool) \<times> Atoms" where
  "Atoms_ID a s =
     (case sortedIndex a of (idx, a') \<Rightarrow>
       let i = Search (length idx) (\<lambda>i. atom_strings a ! unat (idx ! i) \<ge> s) in
       (if i < length idx \<and> atom_strings a ! unat (idx ! i) = s then (idx ! i, True) else (0, False), a'))"

definition Atoms_Strings :: "Atoms \<Rightarrow> string list" where
  "Atoms_Strings a = atom_strings a"

section \<open>Interner\<close>

record Interner =
  int_strings :: "string list"
  int_index :: "string \<Rightarrow> u32 option"

definition NewInterner :: Interner where
  "NewInterner = \<lparr>int_strings = [''''], int_index = Map.empty('''' \<mapsto> 0)\<rparr>"

definition newInternerFromAtoms :: "Atoms \<Rightarrow> Interner" where
  "newInternerFromAtoms a =
     (let strings = (if length (atom_strings a) = 0 then [''''] else atom_strings a);
          index = fold (\<lambda>(i, s) m. if m s = None then m(s \<mapsto> of_nat i) else m)
                    (enumerate 0 strings) Map.empty
      in \<lparr>int_strings = strings, int_index = index\<rparr>)"

text \<open>
  \<open>GetOrIntern\<close> has two critical sections: a lookup under the read lock, and, after a miss, a second
  lookup and the insertion under the write lock.
\<close>

definition intern_read :: "Interner \<Rightarrow> string \<Rightarrow> u32 option" where
  "intern_read inr s = int_index inr s"

definition intern_write :: "Interner \<Rightarrow> string \<Rightarrow> u32 \<times> Interner" where
  "intern_write inr s =
     (case int_index inr s of
        Some i \<Rightarrow> (i, inr)
      | None \<Rightarrow>
          let i = of_nat (length (int_strings inr)) in
          (i, inr\<lparr>int_strings := int_strings inr @ [s], int_index := (int_index inr)(s \<mapsto> i)\<rparr>))"

definition GetOrIntern :: "Interner \<Rightarrow> string \<Rightarrow> u32 \<times> Interner" where
  "GetOrIntern inr s = (case intern_read inr s of Some i \<Rightarrow> (i, inr) | None \<Rightarrow> intern_write inr s)"

definition Interner_Get :: "Interner \<Rightarrow> string \<Rightarrow> u32 option" where
  "Interner_Get inr s = int_index inr s"

definition Interner_Resolve :: "Interner \<Rightarrow> u32 \<Rightarrow> string \<times> bool" where
  "Interner_Resolve inr i =
     (if unat i \<ge> length (int_strings inr) then ('''', False) else (int_strings inr ! unat i, True))"

definition Interner_Len :: "Interner \<Rightarrow> nat" where
  "Interner_Len inr = length (int_strings inr)"

definition Interner_Atoms :: "Interner \<Rightarrow> Atoms" where
  "Interner_Atoms inr = NewAtoms (int_strings inr)"

section \<open>Prop\<close>

text \<open>Of the snapshot a \<open>Prop\<close> points to, only the atom table is read; \<^term>\<open>None\<close> is the nil pointer
  of the zero value, and a nil dereference is the outer \<^term>\<open>None\<close> of the result.\<close>

record Prop =
  prop_g :: "Atoms option"
  prop_v :: Value
  prop_ok :: bool

definition zero_Prop :: Prop where
  "zero_Prop = \<lparr>prop_g = None, prop_v = zero_Value, prop_ok = False\<rparr>"

definition Prop_Value :: "Prop \<Rightarrow> Value \<times> bool" where
  "Prop_Value p = (prop_v p, prop_ok p)"

definition Prop_Str :: "Prop \<Rightarrow> (string \<times> bool) option" where
  "Prop_Str p =
     (if \<not> prop_ok p then Some ('''', False)
      else case Value_StrID (prop_v p) of (i, isStr) \<Rightarrow>
        if \<not> isStr then Some ('''', False)
        else do {
          a \<leftarrow> prop_g p;
          (case Atoms_Resolve a i of (s, found) \<Rightarrow>
            if \<not> found \<or> s = '''' then Some ('''', False) else Some (s, True))
        })"

definition Prop_I64 :: "Prop \<Rightarrow> i64 \<times> bool" where
  "Prop_I64 p = (if \<not> prop_ok p then (0, False) else Value_I64 (prop_v p))"

definition Prop_F64 :: "Prop \<Rightarrow> f64 \<times> bool" where
  "Prop_F64 p = (if \<not> prop_ok p then (0, False) else Value_F64 (prop_v p))"

definition Prop_Bool :: "Prop \<Rightarrow> bool \<times> bool" where
  "Prop_Bool p = (if \<not> prop_ok p then (False, False) else Value_Bool (prop_v p))"

definition StrOr :: "Prop \<Rightarrow> string \<Rightarrow> string option" where
  "StrOr p def = map_option (\<lambda>(s, found). if found then s else def) (Prop_Str p)"

definition I64Or :: "Prop \<Rightarrow> i64 \<Rightarrow> i64" where
  "I64Or p def = (case Prop_I64 p of (v, found) \<Rightarrow> if found then v else def)"

definition F64Or :: "Prop \<Rightarrow> f64 \<Rightarrow> f64" where
  "F64Or p def = (case Prop_F64 p of (v, found) \<Rightarrow> if found then v else def)"

definition BoolOr :: "Prop \<Rightarrow> bool \<Rightarrow> bool" where
  "BoolOr p def = (case Prop_Bool p of (v, found) \<Rightarrow> if found then v else def)"

section \<open>The first index of a string\<close>

definition first_idx :: "string list \<Rightarrow> string \<Rightarrow> nat option" where
  "first_idx xs s = (if s \<in> set xs then Some (length (takeWhile (\<lambda>x. x \<noteq> s) xs)) else None)"

lemma first_idx_Some:
  "first_idx xs s = Some i \<longleftrightarrow> i < length xs \<and> xs ! i = s \<and> (\<forall>j < i. xs ! j \<noteq> s)"
proof
  assume "first_idx xs s = Some i"
  then have m: "s \<in> set xs" and i: "i = length (takeWhile (\<lambda>x. x \<noteq> s) xs)"
    by (auto simp: first_idx_def split: if_splits)
  have "i < length xs" unfolding i using m
    by (metis (mono_tags, lifting) length_takeWhile_le order_neq_le_trans set_takeWhileD takeWhile_eq_take take_all_iff order_refl)
  moreover have "xs ! i = s" using nth_length_takeWhile [of "\<lambda>x. x \<noteq> s" xs] calculation i by simp
  moreover have "xs ! j \<noteq> s" if "j < i" for j
    using that i takeWhile_nth [of j "\<lambda>x. x \<noteq> s" xs] nth_mem [of j "takeWhile (\<lambda>x. x \<noteq> s) xs"] set_takeWhileD by metis
  ultimately show "i < length xs \<and> xs ! i = s \<and> (\<forall>j < i. xs ! j \<noteq> s)" by blast
next
  assume a: "i < length xs \<and> xs ! i = s \<and> (\<forall>j < i. xs ! j \<noteq> s)"
  then have "takeWhile (\<lambda>x. x \<noteq> s) xs = take i xs" by (intro takeWhile_eq_take_P_nth) auto
  with a show "first_idx xs s = Some i" by (auto simp: first_idx_def)
qed

lemma first_idx_snoc: "first_idx (xs @ [x]) s = (case first_idx xs s of Some i \<Rightarrow> Some i | None \<Rightarrow> if x = s then Some (length xs) else None)"
  by (auto simp: first_idx_def takeWhile_append)

lemma first_idx_inj: "first_idx xs s = Some i \<Longrightarrow> first_idx xs t = Some i \<Longrightarrow> s = t"
  by (auto simp: first_idx_Some)

lemma first_idx_bound: "first_idx xs s = Some i \<Longrightarrow> i < length xs"
  by (simp add: first_idx_Some)

section \<open>Reverse lookup\<close>

definition atoms_wf :: "Atoms \<Rightarrow> bool" where
  "atoms_wf a \<longleftrightarrow> length (atom_strings a) \<le> 2 ^ 32
    \<and> (case atom_sorted a of None \<Rightarrow> True | Some xs \<Rightarrow> xs = sort_index (atom_strings a))"

lemma NewAtoms_wf [wf_intro]: "length strings \<le> 2 ^ 32 \<Longrightarrow> atoms_wf (NewAtoms strings)"
  by (simp add: atoms_wf_def NewAtoms_def)

lemma sortedIndex_wf:
  "atoms_wf a \<Longrightarrow> sortedIndex a = (sort_index (atom_strings a), a\<lparr>atom_sorted := Some (sort_index (atom_strings a))\<rparr>)"
  by (auto simp: atoms_wf_def sortedIndex_def Let_def split: option.splits)

lemma sort_index_props:
  assumes "length xs \<le> 2 ^ 32"
  shows "length (sort_index xs) = length xs" "set (sort_index xs) = of_nat ` {0..<length xs}"
    "sorted (map (\<lambda>i. (xs ! unat i, i)) (sort_index xs))" "distinct (sort_index xs)"
    "i < length xs \<Longrightarrow> unat (sort_index xs ! i) < length xs"
proof -
  let ?n = "length xs"
  show len: "length (sort_index xs) = ?n" "sorted (map (\<lambda>i. (xs ! unat i, i)) (sort_index xs))"
    and st: "set (sort_index xs) = of_nat ` {0..<?n}"
    by (simp_all add: sort_index_def)
  have "inj_on (of_nat :: nat \<Rightarrow> u32) {0..<?n}"
  proof (rule inj_onI)
    fix a b :: nat assume "a \<in> {0..<?n}" "b \<in> {0..<?n}" and eq: "(of_nat a :: u32) = of_nat b"
    then have "a < 2 ^ LENGTH(32)" "b < 2 ^ LENGTH(32)" using assms by simp_all
    from unat_of_nat_less [OF this(1)] unat_of_nat_less [OF this(2)] show "a = b" unfolding eq by simp
  qed
  then show "distinct (sort_index xs)" by (simp add: sort_index_def distinct_map)
  assume "i < ?n"
  then have "sort_index xs ! i \<in> of_nat ` {0..<?n}" using len st nth_mem [of i "sort_index xs"] by simp
  then obtain j where "j < ?n" "sort_index xs ! i = of_nat j" by auto
  moreover have "unat (of_nat j :: u32) = j" using assms \<open>j < ?n\<close> by (intro unat_of_nat_less) simp
  ultimately show "unat (sort_index xs ! i) < ?n" by simp
qed

lemma sort_index_mono:
  assumes "length xs \<le> 2 ^ 32" "a \<le> b" "b < length xs"
  shows "(xs ! unat (sort_index xs ! a), sort_index xs ! a) \<le> (xs ! unat (sort_index xs ! b), sort_index xs ! b)"
  using sorted_nth_mono [OF sort_index_props(3) [OF assms(1)], of a b] assms by (simp add: sort_index_props)

text \<open>The leftmost hit of the binary search is the smallest id that carries the string.\<close>

lemma Atoms_ID_ok:
  assumes "atoms_wf a"
  shows "Atoms_ID a s = (case first_idx (atom_strings a) s of Some i \<Rightarrow> (of_nat i, True) | None \<Rightarrow> (0, False),
    a\<lparr>atom_sorted := Some (sort_index (atom_strings a))\<rparr>)"
proof -
  let ?xs = "atom_strings a" and ?idx = "sort_index (atom_strings a)"
  let ?f = "\<lambda>i. ?xs ! unat (?idx ! i) \<ge> s" and ?n = "length (atom_strings a)"
  have n: "?n \<le> 2 ^ 32" using assms by (simp add: atoms_wf_def)
  note p = sort_index_props [OF n]
  have mono: "?f x \<Longrightarrow> ?f y" if "x \<le> y" "y < ?n" for x y
    using sort_index_mono [OF n that] by (auto simp: less_eq_prod_def)
  have idx: "\<exists>k < ?n. ?idx ! k = of_nat j" if "j < ?n" for j
    using that p(1,2) by (metis atLeastLessThan_iff image_eqI in_set_conv_nth le0)
  have un: "unat (of_nat j :: u32) = j" if "j < ?n" for j using n that by (intro unat_of_nat_less) simp
  show ?thesis
  proof (cases "first_idx ?xs s")
    case None
    then have "?xs ! j \<noteq> s" if "j < ?n" for j using that by (auto simp: first_idx_def split: if_splits)
    then show ?thesis using None p(5) by (simp add: Atoms_ID_def sortedIndex_wf [OF assms] Let_def p(1))
  next
    case (Some j)
    then have j: "j < ?n" "?xs ! j = s" "\<And>l. l < j \<Longrightarrow> ?xs ! l \<noteq> s" by (auto simp: first_idx_Some)
    obtain k where k: "k < ?n" "?idx ! k = of_nat j" using idx [OF j(1)] by blast
    have "Search ?n ?f = k"
    proof (rule Search_eqI)
      show "?f k" using k j un by simp
      show "k \<le> ?n" using k by simp
      show "?f y" if "x \<le> y" "y < ?n" "?f x" for x y using mono that by blast
      fix x assume x: "x < k"
      show "\<not> ?f x"
      proof
        assume "?f x"
        have ord: "(?xs ! unat (?idx ! x), ?idx ! x) \<le> (s, of_nat j)"
          using sort_index_mono [OF n, of x k] x k j un by simp
        with \<open>?f x\<close> have eq: "?xs ! unat (?idx ! x) = s" "?idx ! x \<le> of_nat j" by (auto simp: less_eq_prod_def)
        then have "unat (?idx ! x) \<le> j" using un [OF j(1)] by (simp add: word_le_nat_alt)
        moreover have "unat (?idx ! x) \<noteq> j"
        proof
          assume "unat (?idx ! x) = j"
          then have "?idx ! x = ?idx ! k" using k un [OF j(1)] by (metis word_unat_eq_iff)
          moreover have "x < length ?idx" "k < length ?idx" using x k p(1) by simp_all
          ultimately have "x = k" using nth_eq_iff_index_eq [OF p(4)] by blast
          then show False using x by simp
        qed
        ultimately show False using j(3) [of "unat (?idx ! x)"] eq(1) by simp
      qed
    qed
    then show ?thesis using Some k j un by (simp add: Atoms_ID_def sortedIndex_wf [OF assms] Let_def p(1))
  qed
qed

section \<open>The interner's invariant\<close>

definition interner_wf :: "Interner \<Rightarrow> bool" where
  "interner_wf inr \<longleftrightarrow> length (int_strings inr) \<le> 2 ^ 32 \<and> int_strings inr \<noteq> []
    \<and> (\<forall>s. int_index inr s = map_option of_nat (first_idx (int_strings inr) s))"

lemma NewInterner_wf [wf_intro]: "interner_wf NewInterner"
  by (auto simp: interner_wf_def NewInterner_def first_idx_def)

lemma enumerate_snoc: "enumerate n (xs @ [x]) = enumerate n xs @ [(n + length xs, x)]"
  by (induction xs arbitrary: n) simp_all

lemma fold_first_index:
  "fold (\<lambda>(i, s) m. if m s = None then m(s \<mapsto> of_nat i) else m) (enumerate 0 xs) Map.empty
     = (\<lambda>s. map_option (of_nat :: nat \<Rightarrow> u32) (first_idx xs s))"
proof (induction xs rule: rev_induct)
  case Nil
  then show ?case by (simp add: first_idx_def)
next
  case (snoc x xs)
  then show ?case by (auto simp: enumerate_snoc first_idx_snoc fun_eq_iff split: option.split)
qed

lemma newInternerFromAtoms_wf [wf_intro]: "atoms_wf a \<Longrightarrow> interner_wf (newInternerFromAtoms a)"
  unfolding newInternerFromAtoms_def Let_def fold_first_index by (auto simp: interner_wf_def atoms_wf_def)

lemma interner_Some:
  assumes "interner_wf inr"
  shows "int_index inr s = Some i \<longleftrightarrow> first_idx (int_strings inr) s = Some (unat i)"
proof -
  have "unat (of_nat j :: u32) = j" if "first_idx (int_strings inr) s = Some j" for j
    using first_idx_bound [OF that] assms by (intro unat_of_nat_less) (simp add: interner_wf_def)
  then show ?thesis using assms by (auto simp: interner_wf_def)
qed

lemma intern_write_ok:
  assumes wf: "interner_wf inr" and w: "intern_write inr s = (i, inr')" and room: "length (int_strings inr') \<le> 2 ^ 32"
  shows "interner_wf inr'" "int_index inr' s = Some i" "\<exists>ys. int_strings inr' = int_strings inr @ ys"
    "\<And>t j. int_index inr t = Some j \<Longrightarrow> int_index inr' t = Some j"
proof -
  have "interner_wf inr' \<and> int_index inr' s = Some i \<and> (\<exists>ys. int_strings inr' = int_strings inr @ ys)
    \<and> (\<forall>t j. int_index inr t = Some j \<longrightarrow> int_index inr' t = Some j)"
  proof (cases "int_index inr s")
    case (Some j)
    then show ?thesis using w wf by (auto simp: intern_write_def)
  next
    case None
    then have n: "first_idx (int_strings inr) s = None" using wf by (auto simp: interner_wf_def)
    have "\<forall>t. int_index inr' t = map_option of_nat (first_idx (int_strings inr') t)"
      using w wf None n by (auto simp: intern_write_def interner_wf_def first_idx_snoc Let_def split: option.split)
    moreover have upd: "int_index inr' = (int_index inr)(s \<mapsto> i)" "int_strings inr' = int_strings inr @ [s]"
      using w None by (auto simp: intern_write_def Let_def)
    ultimately have "interner_wf inr'" using room by (simp add: interner_wf_def)
    moreover have "int_index inr' s = Some i" "\<forall>t j. int_index inr t = Some j \<longrightarrow> int_index inr' t = Some j"
      unfolding upd(1) using None by auto
    ultimately show ?thesis using upd(2) by blast
  qed
  then show "interner_wf inr'" "int_index inr' s = Some i" "\<exists>ys. int_strings inr' = int_strings inr @ ys"
    "\<And>t j. int_index inr t = Some j \<Longrightarrow> int_index inr' t = Some j" by blast+
qed

lemma GetOrIntern_ok:
  assumes "interner_wf inr" "GetOrIntern inr s = (i, inr')" "length (int_strings inr) < 2 ^ 32"
  shows "interner_wf inr'" "int_index inr' s = Some i" "\<exists>ys. int_strings inr' = int_strings inr @ ys"
    "\<And>t j. int_index inr t = Some j \<Longrightarrow> int_index inr' t = Some j" "length (int_strings inr') \<le> Suc (length (int_strings inr))"
proof -
  have le: "length (int_strings inr') \<le> Suc (length (int_strings inr))"
    using assms(2) by (auto simp: GetOrIntern_def intern_read_def intern_write_def Let_def split: option.splits)
  have w: "intern_write inr s = (i, inr')" using assms(2)
    by (auto simp: GetOrIntern_def intern_read_def intern_write_def split: option.splits)
  have room: "length (int_strings inr') \<le> 2 ^ 32" using le assms(3) by simp
  show "interner_wf inr'" "int_index inr' s = Some i" "\<exists>ys. int_strings inr' = int_strings inr @ ys"
    "\<And>t j. int_index inr t = Some j \<Longrightarrow> int_index inr' t = Some j" "length (int_strings inr') \<le> Suc (length (int_strings inr))"
    using intern_write_ok [OF assms(1) w room] le by blast+
qed

lemma Interner_Resolve_ok:
  "interner_wf inr \<Longrightarrow> int_index inr s = Some i \<Longrightarrow> Interner_Resolve inr i = (s, True)"
  by (auto simp: interner_Some first_idx_Some Interner_Resolve_def)

section \<open>Concurrent interning\<close>

text \<open>
  Goroutines calling \<open>GetOrIntern\<close> interleave at its two critical sections. Each thread is idle, has
  called but not yet looked up, has missed under the read lock and waits for the write lock, or has
  returned an id.
\<close>

datatype call = Idle | Called string | Missed string | Returned string u32

inductive intern_step :: "Interner \<times> (nat \<Rightarrow> call) \<Rightarrow> Interner \<times> (nat \<Rightarrow> call) \<Rightarrow> bool" where
  invoke: "th t = Idle \<or> th t = Returned s' i \<Longrightarrow> intern_step (inr, th) (inr, th(t := Called s))"
| read_hit: "th t = Called s \<Longrightarrow> intern_read inr s = Some i \<Longrightarrow> intern_step (inr, th) (inr, th(t := Returned s i))"
| read_miss: "th t = Called s \<Longrightarrow> intern_read inr s = None \<Longrightarrow> intern_step (inr, th) (inr, th(t := Missed s))"
| write_locked: "th t = Missed s \<Longrightarrow> intern_write inr s = (i, inr') \<Longrightarrow> intern_step (inr, th) (inr', th(t := Returned s i))"

inductive_cases intern_stepE: "intern_step st st'"

definition returns_ok :: "Interner \<Rightarrow> (nat \<Rightarrow> call) \<Rightarrow> bool" where
  "returns_ok inr th \<longleftrightarrow> (\<forall>t s i. th t = Returned s i \<longrightarrow> int_index inr s = Some i)"

lemma intern_step_grows:
  "intern_step (inr, th) (inr', th') \<Longrightarrow> length (int_strings inr) \<le> length (int_strings inr')"
  by (erule intern_stepE) (auto simp: intern_write_def Let_def split: option.splits)

lemma intern_step_inv:
  assumes "intern_step (inr, th) (inr', th')" "interner_wf inr" "returns_ok inr th" "length (int_strings inr') \<le> 2 ^ 32"
  shows "interner_wf inr' \<and> returns_ok inr' th'"
  using assms(1)
proof (cases rule: intern_step.cases)
  case (write_locked t s i)
  note w = intern_write_ok [OF assms(2) write_locked(3) assms(4)]
  show ?thesis using w assms(3) unfolding returns_ok_def write_locked(1) by auto
qed (use assms in \<open>auto simp: returns_ok_def intern_read_def\<close>)

lemma intern_steps_inv:
  assumes "intern_step\<^sup>*\<^sup>* (NewInterner, \<lambda>_. Idle) st" "length (int_strings (fst st)) \<le> 2 ^ 32"
  shows "interner_wf (fst st) \<and> returns_ok (fst st) (snd st)"
  using assms
proof (induction rule: rtranclp_induct)
  case base
  then show ?case by (simp add: NewInterner_wf returns_ok_def)
next
  case (step y z)
  obtain inr th inr' th' where yz: "y = (inr, th)" "z = (inr', th')" by (cases y; cases z)
  show ?case using step intern_step_grows [of inr th inr' th'] intern_step_inv [of inr th inr' th'] unfolding yz by simp
qed

section \<open>Properties\<close>

text \<open>
  C35: reverse lookup in the atom table. Whether or not the sorted index has been built before,
  \<open>ID\<close> returns the smallest id that carries the string and reports a miss exactly when no id does,
  and the id it returns resolves back to the string.
\<close>

theorem Atoms_ID_correct:
  assumes "atoms_wf a"
  shows "case Atoms_ID a s of ((i, found), a') \<Rightarrow>
    atoms_wf a' \<and> atom_strings a' = atom_strings a \<and> (found \<longleftrightarrow> s \<in> set (atom_strings a))
    \<and> (found \<longrightarrow> Atoms_Resolve a i = (s, True) \<and> (\<forall>j. Atoms_Resolve a j = (s, True) \<longrightarrow> i \<le> j))"
proof (cases "first_idx (atom_strings a) s")
  case None
  then show ?thesis using assms by (auto simp: Atoms_ID_ok atoms_wf_def first_idx_def split: if_splits)
next
  case (Some i)
  have "i < 2 ^ LENGTH(32)" using first_idx_bound [OF Some] assms by (simp add: atoms_wf_def)
  then have un: "unat (of_nat i :: u32) = i" by (rule unat_of_nat_less)
  have "of_nat i \<le> j" if "Atoms_Resolve a j = (s, True)" for j
  proof -
    have "atom_strings a ! unat j = s" using that by (auto simp: Atoms_Resolve_def split: if_splits)
    then have "\<not> unat j < i" using Some by (auto simp: first_idx_Some)
    then show ?thesis using un by (simp add: word_le_nat_alt)
  qed
  moreover have "Atoms_Resolve a (of_nat i) = (s, True)" "s \<in> set (atom_strings a)"
    using Some un by (auto simp: Atoms_Resolve_def first_idx_Some)
  moreover have "Atoms_ID a s = ((of_nat i, True), a\<lparr>atom_sorted := Some (sort_index (atom_strings a))\<rparr>)"
    using Atoms_ID_ok [OF assms] Some by simp
  moreover have "atoms_wf (a\<lparr>atom_sorted := Some (sort_index (atom_strings a))\<rparr>)" using assms by (simp add: atoms_wf_def)
  ultimately show ?thesis by simp
qed

theorem Atoms_ID_correct_witness:
  "case Atoms_ID (NewAtoms ['''', ''b'', ''a'', ''b'']) ''b'' of ((i, found), a') \<Rightarrow>
    atoms_wf a' \<and> atom_strings a' = atom_strings (NewAtoms ['''', ''b'', ''a'', ''b''])
    \<and> (found \<longleftrightarrow> ''b'' \<in> set (atom_strings (NewAtoms ['''', ''b'', ''a'', ''b''])))
    \<and> (found \<longrightarrow> Atoms_Resolve (NewAtoms ['''', ''b'', ''a'', ''b'']) i = (''b'', True)
        \<and> (\<forall>j. Atoms_Resolve (NewAtoms ['''', ''b'', ''a'', ''b'']) j = (''b'', True) \<longrightarrow> i \<le> j))"
  by (rule Atoms_ID_correct) (simp add: NewAtoms_wf)

text \<open>
  C36: interning is linearisable in effect. In every interleaving of \<open>GetOrIntern\<close> calls by any number
  of goroutines, starting from a new interner and interning at most \<open>2^32\<close> strings, two calls that
  have returned got the same id exactly when they interned the same string, and that id resolves to
  the string.
\<close>

theorem intern_concurrent:
  assumes "intern_step\<^sup>*\<^sup>* (NewInterner, \<lambda>_. Idle) (inr, th)" "length (int_strings inr) \<le> 2 ^ 32"
    and "th t = Returned s i" "th u = Returned s' j"
  shows "(i = j \<longleftrightarrow> s = s') \<and> Interner_Resolve inr i = (s, True) \<and> Interner_Get inr s = Some i"
proof -
  have wf: "interner_wf inr" and ret: "returns_ok inr th" using intern_steps_inv [OF assms(1)] assms(2) by auto
  then have s: "int_index inr s = Some i" "int_index inr s' = Some j" using assms(3,4) by (auto simp: returns_ok_def)
  then have "i = j \<Longrightarrow> s = s'" using first_idx_inj by (metis interner_Some [OF wf])
  then show ?thesis using s Interner_Resolve_ok [OF wf s(1)] by (auto simp: Interner_Get_def)
qed

text \<open>Two goroutines that both miss under the read lock and then take the write lock in turn.\<close>

lemma intern_race:
  "intern_step\<^sup>*\<^sup>* (NewInterner, \<lambda>_. Idle)
     (snd (intern_write NewInterner ''x''), (\<lambda>_. Idle)(0 := Returned ''x'' 1, 1 := Returned ''x'' 1))"
proof -
  let ?N = NewInterner and ?M = "snd (intern_write NewInterner ''x'')"
  have miss: "intern_read ?N ''x'' = None" by (simp add: intern_read_def NewInterner_def)
  have w: "intern_write ?N ''x'' = (1, ?M)" "intern_write ?M ''x'' = (1, ?M)"
    by (simp_all add: intern_write_def NewInterner_def Let_def)
  have "intern_step (?N, \<lambda>_. Idle) (?N, (\<lambda>_. Idle)(0 := Called ''x''))" by (rule invoke) simp
  moreover have "intern_step (?N, (\<lambda>_. Idle)(0 := Called ''x'')) (?N, (\<lambda>_. Idle)(0 := Called ''x'', 1 := Called ''x''))"
    by (rule invoke) simp
  moreover have "intern_step (?N, (\<lambda>_. Idle)(0 := Called ''x'', 1 := Called ''x'')) (?N, (\<lambda>_. Idle)(0 := Called ''x'', 1 := Missed ''x''))"
    using read_miss [of "(\<lambda>_. Idle)(0 := Called ''x'', 1 := Called ''x'')" 1 "''x''", OF _ miss] by simp
  moreover have "intern_step (?N, (\<lambda>_. Idle)(0 := Called ''x'', 1 := Missed ''x'')) (?N, (\<lambda>_. Idle)(0 := Missed ''x'', 1 := Missed ''x''))"
    using read_miss [of "(\<lambda>_. Idle)(0 := Called ''x'', 1 := Missed ''x'')" 0 "''x''", OF _ miss] by (simp add: fun_upd_twist)
  moreover have "intern_step (?N, (\<lambda>_. Idle)(0 := Missed ''x'', 1 := Missed ''x'')) (?M, (\<lambda>_. Idle)(0 := Returned ''x'' 1, 1 := Missed ''x''))"
    using write_locked [of "(\<lambda>_. Idle)(0 := Missed ''x'', 1 := Missed ''x'')" 0 "''x''", OF _ w(1)] by (simp add: fun_upd_twist)
  moreover have "intern_step (?M, (\<lambda>_. Idle)(0 := Returned ''x'' 1, 1 := Missed ''x'')) (?M, (\<lambda>_. Idle)(0 := Returned ''x'' 1, 1 := Returned ''x'' 1))"
    using write_locked [of "(\<lambda>_. Idle)(0 := Returned ''x'' 1, 1 := Missed ''x'')" 1 "''x''", OF _ w(2)] by simp
  ultimately show ?thesis by (meson converse_rtranclp_into_rtranclp rtranclp.rtrancl_refl)
qed

theorem intern_concurrent_witness:
  "((1::u32) = 1 \<longleftrightarrow> ''x'' = ''x'')
     \<and> Interner_Resolve (snd (intern_write NewInterner ''x'')) 1 = (''x'', True)
     \<and> Interner_Get (snd (intern_write NewInterner ''x'')) ''x'' = Some 1"
  by (rule intern_concurrent [OF intern_race, of 0 _ _ 1])
    (simp_all add: intern_write_def NewInterner_def Let_def)

text \<open>
  Thawing keeps every atom id. The interner seeded from a snapshot's table looks every string up
  to the id the table itself reports, and the table it snapshots again is the old one.
\<close>

lemma thaw_interner_roundtrip:
  assumes "atoms_wf a" "atom_strings a \<noteq> []"
  shows "(case Interner_Get (newInternerFromAtoms a) s of Some i \<Rightarrow> (i, True) | None \<Rightarrow> (0, False)) = fst (Atoms_ID a s)
    \<and> atom_strings (Interner_Atoms (newInternerFromAtoms a)) = atom_strings a
    \<and> Interner_Resolve (newInternerFromAtoms a) i = Atoms_Resolve a i"
  using assms(2)
  by (auto simp: Atoms_ID_ok [OF assms(1)] Interner_Get_def newInternerFromAtoms_def fold_first_index Let_def
      Interner_Atoms_def NewAtoms_def Interner_Resolve_def Atoms_Resolve_def split: option.split)

end
