(* ===== verification/Snapshot.thy ===== *)
theory Snapshot
  imports InToOut Nodeset ColumnBuild Atoms "HOL-Library.AList"
begin

text \<open>
  The immutable graph (\<open>snapshot.go\<close>) and its accessors by name (\<open>props.go\<close>, \<open>propindex.go\<close>).

  Go maps that are iterated are association lists with distinct keys. Caches that only memoise a
  function of the other fields (\<open>schemaIDs\<close>, \<open>relStats\<close>, the atom table's sorted index, \<open>typedSlots\<close>) are that
  function; \<open>inToOut\<close>, \<open>labelBits\<close> and \<open>propIndex\<close> are kept, since \<open>Finalize\<close> hands some of them on.
\<close>

section \<open>State\<close>

record RelStats =
  rs_Count :: u64
  rs_OutSources :: u64
  rs_InSources :: u64

type_synonym propIndexKey = "Label \<times> PropertyKey"
type_synonym 'bm valueIndex = "(Value \<times> 'bm Set) list"

record 'bm Snapshot =
  nNodes :: u32
  nRels :: u64
  outOffsets :: "u32 list"
  outNbrs :: "NodeID list"
  outTypes :: relTypes
  inOffsets :: "u32 list"
  inNbrs :: "NodeID list"
  inTypes :: relTypes
  inToOut :: "u32 list option"
  hasRelProps :: bool
  labelIndex :: "(Label \<times> 'bm Set) list"
  typeIndex :: "(RelType \<times> 'bm Set) list"
  sn_version :: "string option"
  columns :: "(PropertyKey \<times> Column) list"
  relColumns :: "(PropertyKey \<times> Column) list"
  droppedCrossTyped :: int
  existence :: "'bm Set option"
  sn_atoms :: Atoms
  propIndex :: "(propIndexKey \<times> 'bm valueIndex) list"
  labelBits :: "(Label \<times> u64 list) list"

definition zero_relTypes :: relTypes where
  "zero_relTypes = \<lparr>rt_wide = None, rt_palette = [], rt_idx = []\<rparr>"

definition newSnapshot :: "'bm Snapshot" where
  "newSnapshot = \<lparr>nNodes = 0, nRels = 0, outOffsets = [0], outNbrs = [], outTypes = zero_relTypes,
     inOffsets = [0], inNbrs = [], inTypes = zero_relTypes, inToOut = None, hasRelProps = False,
     labelIndex = [], typeIndex = [], sn_version = None, columns = [], relColumns = [],
     droppedCrossTyped = 0, existence = None, sn_atoms = NewAtoms [''''], propIndex = [], labelBits = []\<rparr>"

definition Snapshot_NodeCount :: "'bm Snapshot \<Rightarrow> u32" where
  "Snapshot_NodeCount g = nNodes g"

definition Snapshot_RelCount :: "'bm Snapshot \<Rightarrow> u64" where
  "Snapshot_RelCount g = nRels g"

definition CSRIDSpace :: "'bm Snapshot \<Rightarrow> u32" where
  "CSRIDSpace g = (if length (outOffsets g) = 0 then 0 else of_nat (length (outOffsets g) - 1))"

definition NodeExists :: "'bm roaring \<Rightarrow> 'bm Snapshot \<Rightarrow> NodeID \<Rightarrow> bool" where
  "NodeExists R g i =
     (case existence g of None \<Rightarrow> i < CSRIDSpace g | Some s \<Rightarrow> Set_Contains R s i)"

definition DroppedCrossTypedStagings :: "'bm Snapshot \<Rightarrow> int" where
  "DroppedCrossTypedStagings g = droppedCrossTyped g"

text \<open>The map is empty (nil) without relationship columns; the first use computes it.\<close>

definition getInToOut :: "'bm Snapshot \<Rightarrow> (u32 list \<times> 'bm Snapshot) option" where
  "getInToOut g =
     (if \<not> hasRelProps g then Some ([], g)
      else case inToOut g of
        Some ito \<Rightarrow> Some (ito, g)
      | None \<Rightarrow> do {
          ito \<leftarrow> computeInToOutFromCSR (outOffsets g) (outNbrs g) (outTypes g) (inOffsets g) (inNbrs g) (inTypes g);
          Some (ito, g\<lparr>inToOut := Some ito\<rparr>)
        })"

section \<open>Grouping\<close>

text \<open>\<open>m[k] = append(m[k], v)\<close> and the list found under a key, nil when absent.\<close>

definition list_at :: "('k \<times> 'v list) list \<Rightarrow> 'k \<Rightarrow> 'v list" where
  "list_at m k = (case map_of m k of None \<Rightarrow> [] | Some xs \<Rightarrow> xs)"

definition map_append :: "'k \<Rightarrow> 'v \<Rightarrow> ('k \<times> 'v list) list \<Rightarrow> ('k \<times> 'v list) list" where
  "map_append k v m = AList.update k (list_at m k @ [v]) m"

text \<open>Groups have distinct keys and no empty list.\<close>

definition groups_ok :: "('k \<times> 'v list) list \<Rightarrow> bool" where
  "groups_ok m \<longleftrightarrow> distinct (map fst m) \<and> (\<forall>k. map_of m k \<noteq> Some [])"

lemma groups_Nil [simp]: "groups_ok []" "list_at [] k = []"
  by (simp_all add: groups_ok_def list_at_def)

lemma list_at_append: "list_at (map_append k v m) k' = list_at m k' @ (if k' = k then [v] else [])"
  by (simp add: list_at_def map_append_def update_conv')

lemma groups_ok_append: "groups_ok m \<Longrightarrow> groups_ok (map_append k v m)"
  by (auto simp: groups_ok_def map_append_def update_conv' distinct_update)

lemma groups_fold:
  "groups_ok m \<Longrightarrow> groups_ok (fold (\<lambda>(k, v). map_append k v) kvs m)
    \<and> list_at (fold (\<lambda>(k, v). map_append k v) kvs m) k' = list_at m k' @ map snd (filter (\<lambda>e. fst e = k') kvs)"
  by (induction kvs arbitrary: m) (auto simp: list_at_append groups_ok_append)

lemma groups_lookup: "groups_ok m \<Longrightarrow> map_of m k = (if list_at m k = [] then None else Some (list_at m k))"
  by (auto simp: groups_ok_def list_at_def split: option.split)

text \<open>Copying a map with distinct keys into another, value by value.\<close>

lemma map_of_fold_update:
  "distinct (map fst kvs) \<Longrightarrow> map_of (fold (\<lambda>(k, x). AList.update k (f k x)) kvs acc) k
    = (case map_of kvs k of None \<Rightarrow> map_of acc k | Some x \<Rightarrow> Some (f k x))"
proof (induction kvs arbitrary: acc)
  case (Cons e kvs)
  obtain a x where e: "e = (a, x)" by (cases e)
  have "a \<notin> fst ` set kvs" using Cons.prems by (simp add: e)
  then have "map_of kvs a = None" by (simp add: map_of_eq_None_iff)
  then show ?case using Cons by (auto simp: e update_conv' split: option.split)
qed simp

lemma distinct_fold_update: "distinct (map fst acc) \<Longrightarrow> distinct (map fst (fold (\<lambda>(k, x). AList.update k (f k x)) kvs acc))"
  by (induction kvs arbitrary: acc) (auto simp: distinct_update)

section \<open>Names\<close>

definition schema_add :: "Atoms \<Rightarrow> u32 \<Rightarrow> (string \<Rightarrow> u32 option) \<Rightarrow> (string \<Rightarrow> u32 option)" where
  "schema_add a i m =
     (case Atoms_Resolve a i of (name, found) \<Rightarrow>
      if \<not> found then m
      else case fst (Atoms_ID a name) of (cid, known) \<Rightarrow> if known then m(name \<mapsto> cid) else m)"

definition buildSchemaIDs :: "'bm Snapshot \<Rightarrow> string \<Rightarrow> u32 option" where
  "buildSchemaIDs g =
     fold (schema_add (sn_atoms g))
       (map fst (labelIndex g) @ map fst (typeIndex g) @ map fst (columns g) @ map fst (relColumns g)) Map.empty"

definition schemaID :: "'bm Snapshot \<Rightarrow> string \<Rightarrow> u32 \<times> bool" where
  "schemaID g name = (case buildSchemaIDs g name of Some i \<Rightarrow> (i, True) | None \<Rightarrow> fst (Atoms_ID (sn_atoms g) name))"

definition Snapshot_PropertyKey :: "'bm Snapshot \<Rightarrow> string \<Rightarrow> PropertyKey \<times> bool" where
  "Snapshot_PropertyKey g key = schemaID g key"

definition Snapshot_Label :: "'bm Snapshot \<Rightarrow> string \<Rightarrow> Label \<times> bool" where
  "Snapshot_Label g name = schemaID g name"

definition Snapshot_RelType :: "'bm Snapshot \<Rightarrow> string \<Rightarrow> RelType \<times> bool" where
  "Snapshot_RelType g name = schemaID g name"

definition ValueFromString :: "'bm Snapshot \<Rightarrow> string \<Rightarrow> Value \<times> bool" where
  "ValueFromString g s = (case fst (Atoms_ID (sn_atoms g) s) of (i, found) \<Rightarrow> (StrValue i, found))"

text \<open>The dynamic types of an \<open>any\<close> argument that the code distinguishes; \<open>int\<close> and \<open>int32\<close> arrive sign-extended.\<close>

datatype AnyValue = AnyV Value | AnyStr string | AnyI64 i64 | AnyInt i64 | AnyI32 i64 | AnyF64 f64 | AnyBool bool | AnyOther

fun valueFromAny :: "'bm Snapshot \<Rightarrow> AnyValue \<Rightarrow> Value \<times> bool" where
  "valueFromAny g (AnyV v) = (v, True)"
| "valueFromAny g (AnyStr s) = ValueFromString g s"
| "valueFromAny g (AnyI64 v) = (I64Value v, True)"
| "valueFromAny g (AnyInt v) = (I64Value v, True)"
| "valueFromAny g (AnyI32 v) = (I64Value v, True)"
| "valueFromAny g (AnyF64 v) = (F64Value v, True)"
| "valueFromAny g (AnyBool v) = (BoolValue v, True)"
| "valueFromAny g AnyOther = (zero_Value, False)"

section \<open>Properties by name\<close>

definition col_prop :: "'bm Snapshot \<Rightarrow> (PropertyKey \<times> Column) list \<Rightarrow> u32 \<Rightarrow> string \<Rightarrow> Prop option" where
  "col_prop g cols pos key =
     (case Snapshot_PropertyKey g key of (k, known) \<Rightarrow>
      if \<not> known then Some zero_Prop
      else case map_of cols k of
        None \<Rightarrow> Some zero_Prop
      | Some column \<Rightarrow> map_option (\<lambda>r. case r of
            None \<Rightarrow> zero_Prop
          | Some v \<Rightarrow> \<lparr>prop_g = Some (sn_atoms g), prop_v = v, prop_ok = True\<rparr>) (Column_Get column pos))"

definition Snapshot_Prop :: "'bm Snapshot \<Rightarrow> NodeID \<Rightarrow> string \<Rightarrow> Prop option" where
  "Snapshot_Prop g node key = col_prop g (columns g) node key"

definition Snapshot_RelProp :: "'bm Snapshot \<Rightarrow> u32 \<Rightarrow> string \<Rightarrow> Prop option" where
  "Snapshot_RelProp g pos key = col_prop g (relColumns g) pos key"

definition RelEndpoints :: "'bm Snapshot \<Rightarrow> u32 \<Rightarrow> NodeID \<times> NodeID \<times> bool" where
  "RelEndpoints g pos =
     (let p = unat pos in
      if p \<ge> length (outNbrs g) then (0, 0, False)
      else
        let target = outNbrs g ! p;
            i = Search (length (outOffsets g)) (\<lambda>i. unat (outOffsets g ! i) > p)
        in if i = 0 then (0, 0, False) else (of_nat (i - 1), target, True))"

definition RelTypeAt :: "'bm Snapshot \<Rightarrow> u32 \<Rightarrow> (string \<times> bool) option" where
  "RelTypeAt g pos =
     (if unat pos \<ge> relTypes_Len (outTypes g) then Some ('''', False)
      else map_option (Atoms_Resolve (sn_atoms g)) (relTypes_At (outTypes g) pos))"

text \<open>The names of the keys whose column has a value at the node, sorted.\<close>

definition NodePropertyKeys :: "'bm Snapshot \<Rightarrow> NodeID \<Rightarrow> string list option" where
  "NodePropertyKeys g node =
     map_option sort (fold_opt (\<lambda>(key, column) keys. do {
         r \<leftarrow> Column_Get column node;
         Some (case (r, Atoms_Resolve (sn_atoms g) key) of (Some _, name, True) \<Rightarrow> keys @ [name] | _ \<Rightarrow> keys)
       }) (columns g) [])"

definition Snapshot_Version :: "'bm Snapshot \<Rightarrow> string \<times> bool" where
  "Snapshot_Version g = (case sn_version g of None \<Rightarrow> ('''', False) | Some v \<Rightarrow> (v, True))"

definition Snapshot_ResolveString :: "'bm Snapshot \<Rightarrow> u32 \<Rightarrow> string \<times> bool" where
  "Snapshot_ResolveString g i = Atoms_Resolve (sn_atoms g) i"

section \<open>Labels and types\<close>

definition resolved_names :: "Atoms \<Rightarrow> u32 list \<Rightarrow> string list" where
  "resolved_names a is = sort (concat (map (\<lambda>i. case Atoms_Resolve a i of (name, found) \<Rightarrow> if found then [name] else []) is))"

definition Snapshot_Labels :: "'bm Snapshot \<Rightarrow> string list" where
  "Snapshot_Labels g = resolved_names (sn_atoms g) (map fst (labelIndex g))"

definition Snapshot_RelTypes :: "'bm Snapshot \<Rightarrow> string list" where
  "Snapshot_RelTypes g = resolved_names (sn_atoms g) (map fst (typeIndex g))"

definition NodesWithLabel :: "'bm Snapshot \<Rightarrow> string \<Rightarrow> 'bm Set option" where
  "NodesWithLabel g label =
     (case Snapshot_Label g label of (l, known) \<Rightarrow> if \<not> known then None else map_of (labelIndex g) l)"

definition RelsWithType :: "'bm Snapshot \<Rightarrow> string \<Rightarrow> 'bm Set option" where
  "RelsWithType g relType =
     (case Snapshot_RelType g relType of (t, known) \<Rightarrow> if \<not> known then None else map_of (typeIndex g) t)"

definition HasLabel :: "'bm roaring \<Rightarrow> 'bm Snapshot \<Rightarrow> NodeID \<Rightarrow> string \<Rightarrow> bool" where
  "HasLabel R g node label = (case NodesWithLabel g label of None \<Rightarrow> False | Some s \<Rightarrow> Set_Contains R s node)"

text \<open>\<open>words[id>>6] |= 1 << (id & 63)\<close> for every member.\<close>

definition label_word :: "u32 \<Rightarrow> u64 list option \<Rightarrow> bool \<times> u64 list option" where
  "label_word i st =
     (True, do { ws \<leftarrow> st; w \<leftarrow> slice_at ws (unat i div 64); slice_set ws (unat i div 64) (w OR push_bit (unat i mod 64) 1) })"

definition labelDenseBuild :: "'bm roaring \<Rightarrow> 'bm Snapshot \<Rightarrow> Label \<Rightarrow> (u64 list \<times> 'bm Snapshot) option" where
  "labelDenseBuild R g l =
     (case map_of (labelBits g) l of
        Some w \<Rightarrow> Some (w, g)
      | None \<Rightarrow> do {
          s \<leftarrow> map_of (labelIndex g) l;
          r \<leftarrow> iterYield R s label_word (Some (replicate ((unat (CSRIDSpace g) + 63) div 64) 0));
          ws \<leftarrow> r;
          Some (ws, g\<lparr>labelBits := AList.update l ws (labelBits g)\<rparr>)
        })"

text \<open>The result is the bitmap or nil; a panic is the outer \<^term>\<open>None\<close>.\<close>

definition LabelDense :: "'bm roaring \<Rightarrow> 'bm Snapshot \<Rightarrow> string \<Rightarrow> (u64 list option \<times> 'bm Snapshot) option" where
  "LabelDense R g label =
     (case Snapshot_Label g label of (l, known) \<Rightarrow>
      if \<not> known then Some (None, g)
      else case map_of (labelBits g) l of
        Some w \<Rightarrow> Some (Some w, g)
      | None \<Rightarrow>
          (case map_of (labelIndex g) l of
             None \<Rightarrow> Some (None, g)
           | Some s \<Rightarrow>
               if Set_Len R s * 8 < unat (CSRIDSpace g) then Some (None, g)
               else map_option (\<lambda>(w, g'). (Some w, g')) (labelDenseBuild R g l)))"

definition LabelDenseForced :: "'bm roaring \<Rightarrow> 'bm Snapshot \<Rightarrow> string \<Rightarrow> (u64 list option \<times> 'bm Snapshot) option" where
  "LabelDenseForced R g label =
     (case Snapshot_Label g label of (l, known) \<Rightarrow>
      if \<not> known \<or> map_of (labelIndex g) l = None then Some (None, g)
      else map_option (\<lambda>(w, g'). (Some w, g')) (labelDenseBuild R g l))"

section \<open>Relationship statistics\<close>

type_synonym 'bm stat_acc = "u64 \<times> 'bm Set \<times> 'bm Set"

definition stat_step :: "'bm roaring \<Rightarrow> 'bm Snapshot \<Rightarrow> nat \<Rightarrow> nat \<Rightarrow> (RelType \<times> 'bm stat_acc) list \<Rightarrow> (RelType \<times> 'bm stat_acc) list option" where
  "stat_step R g u i byType = do {
     t \<leftarrow> relTypes_At (outTypes g) (of_nat i);
     nb \<leftarrow> slice_at (outNbrs g) i;
     (case (case map_of byType t of None \<Rightarrow> (0, Set_New R, Set_New R) | Some e \<Rightarrow> e) of (cnt, src, tgt) \<Rightarrow>
       Some (AList.update t (cnt + 1, fst (Set_Insert R src (of_nat u)), fst (Set_Insert R tgt nb)) byType))
   }"

definition stat_scan :: "'bm roaring \<Rightarrow> 'bm Snapshot \<Rightarrow> (RelType \<times> 'bm stat_acc) list option" where
  "stat_scan R g =
     fold_opt (\<lambda>u byType. do {
         lo \<leftarrow> slice_at (outOffsets g) u;
         hi \<leftarrow> slice_at (outOffsets g) (u + 1);
         fold_opt (stat_step R g u) [unat lo..<unat hi] byType
       }) [0..<unat (CSRIDSpace g)] []"

definition buildRelStats :: "'bm roaring \<Rightarrow> 'bm Snapshot \<Rightarrow> (string \<times> RelStats) list option" where
  "buildRelStats R g =
     map_option (\<lambda>byType. fold (\<lambda>(t, cnt, src, tgt) out.
         case Atoms_Resolve (sn_atoms g) t of (name, found) \<Rightarrow>
           if found then AList.update name \<lparr>rs_Count = cnt, rs_OutSources = of_nat (Set_Len R src), rs_InSources = of_nat (Set_Len R tgt)\<rparr> out
           else out) byType [])
       (stat_scan R g)"

definition RelTypeStats :: "'bm roaring \<Rightarrow> 'bm Snapshot \<Rightarrow> string \<Rightarrow> RelStats option option" where
  "RelTypeStats R g relType = map_option (\<lambda>stats. map_of stats relType) (buildRelStats R g)"

definition RelTypeCount :: "'bm roaring \<Rightarrow> 'bm Snapshot \<Rightarrow> string \<Rightarrow> u64 option" where
  "RelTypeCount R g relType =
     map_option (\<lambda>stats. case map_of stats relType of None \<Rightarrow> 0 | Some s \<Rightarrow> rs_Count s) (buildRelStats R g)"

definition RelCountByType :: "'bm roaring \<Rightarrow> 'bm Snapshot \<Rightarrow> (string \<times> u64) list option" where
  "RelCountByType R g = map_option (\<lambda>stats. sort_key fst (map (\<lambda>(name, s). (name, rs_Count s)) stats)) (buildRelStats R g)"

section \<open>Name resolution\<close>

text \<open>The schema index only shortens the search: every name resolves as in the atom table.\<close>

lemma schema_add_ok:
  assumes "atoms_wf a" "\<And>s i. m s = Some i \<Longrightarrow> fst (Atoms_ID a s) = (i, True)"
  shows "schema_add a k m s = Some i \<Longrightarrow> fst (Atoms_ID a s) = (i, True)"
  using assms(2) by (auto simp: schema_add_def split: prod.splits if_splits)

lemma schemaID_ok:
  assumes "atoms_wf (sn_atoms g)"
  shows "schemaID g s = (case first_idx (atom_strings (sn_atoms g)) s of Some i \<Rightarrow> (of_nat i, True) | None \<Rightarrow> (0, False))"
proof -
  have F: "fold (schema_add (sn_atoms g)) xs m s = Some i \<Longrightarrow> fst (Atoms_ID (sn_atoms g) s) = (i, True)"
    if "\<And>s i. m s = Some i \<Longrightarrow> fst (Atoms_ID (sn_atoms g) s) = (i, True)" for xs m s i
    using that
  proof (induction xs arbitrary: m)
    case (Cons x xs)
    have "\<And>s i. schema_add (sn_atoms g) x m s = Some i \<Longrightarrow> fst (Atoms_ID (sn_atoms g) s) = (i, True)"
      using schema_add_ok [OF assms] Cons.prems(2) by blast
    then show ?case using Cons.IH [of "schema_add (sn_atoms g) x m"] Cons.prems(1) by simp
  qed simp
  have "buildSchemaIDs g s = Some i \<Longrightarrow> fst (Atoms_ID (sn_atoms g) s) = (i, True)" for i
    unfolding buildSchemaIDs_def by (erule F [where m = Map.empty, rotated]) simp
  then have "schemaID g s = fst (Atoms_ID (sn_atoms g) s)" by (simp add: schemaID_def split: option.split)
  then show ?thesis by (simp add: Atoms_ID_ok [OF assms] split: option.split)
qed

section \<open>Endpoints\<close>

lemma RelEndpoints_ok:
  assumes wf: "csr_wf (outOffsets g) (outNbrs g) (outTypes g)" and z: "outOffsets g ! 0 = 0" and p: "unat pos < length (outNbrs g)"
  shows "\<exists>src. RelEndpoints g pos = (src, outNbrs g ! unat pos, True)
    \<and> (case relRange (outOffsets g) src of (lo, hi) \<Rightarrow> lo \<le> unat pos \<and> unat pos < hi)"
proof -
  let ?o = "outOffsets g" and ?p = "unat pos"
  let ?f = "\<lambda>i. unat (?o ! i) > ?p" and ?n = "length (outOffsets g)"
  have s: "sorted (map unat ?o)" and ne: "?o \<noteq> []" and last: "unat (last ?o) = length (outNbrs g)" and n32: "?n \<le> 2 ^ 32"
    using wf by (auto simp: csr_wf_def)
  have mono: "\<And>a b. a \<le> b \<Longrightarrow> b < ?n \<Longrightarrow> ?f a \<Longrightarrow> ?f b"
    using sorted_nth_mono [OF s] by fastforce
  have S: "Search ?n ?f \<le> ?n" "\<And>a. a < Search ?n ?f \<Longrightarrow> \<not> ?f a" "\<And>a. a < ?n \<Longrightarrow> Search ?n ?f \<le> a \<Longrightarrow> ?f a"
    using Search_least [of ?n ?f] mono by blast+
  let ?i = "Search ?n ?f"
  have "?f (?n - 1)" using last p ne by (simp add: last_conv_nth)
  moreover have "?n - 1 < ?n" using ne by simp
  ultimately have lt: "?i < ?n" using S(1) S(2) [of "?n - 1"] by (cases "?i = ?n") auto
  have fi: "?f ?i" using S(3) lt by blast
  have i0: "?i \<noteq> 0" using fi z by (metis not_less0 unsigned_0)
  then have below: "\<not> ?f (?i - 1)" using S(2) by simp
  have un: "unat (of_nat (?i - 1) :: u32) = ?i - 1" using lt n32 by (intro unat_of_nat_less) simp
  have "relRange ?o (of_nat (?i - 1)) = (unat (?o ! (?i - 1)), unat (?o ! ?i))"
    using un lt i0 by (simp add: relRange_def Let_def)
  then show ?thesis using p i0 fi below by (auto simp: RelEndpoints_def Let_def)
qed

section \<open>Dense label bitmaps\<close>

definition probe_bit :: "u64 list \<Rightarrow> u32 \<Rightarrow> bool" where
  "probe_bit ws i = bit (ws ! (unat i div 64)) (unat i mod 64)"

lemma label_word_ok:
  assumes "\<forall>i \<in> set xs. unat i div 64 < length ws"
  shows "\<exists>ws'. yield_all label_word xs (Some ws) = (True, Some ws') \<and> length ws' = length ws
    \<and> (\<forall>j. unat j div 64 < length ws \<longrightarrow> probe_bit ws' j = (probe_bit ws j \<or> j \<in> set xs))"
  using assms
proof (induction xs arbitrary: ws)
  case (Cons i xs)
  let ?q = "unat i div 64" and ?r = "unat i mod 64"
  let ?ws = "ws[?q := ws ! ?q OR push_bit ?r 1]"
  have bnd: "\<forall>i \<in> set xs. unat i div 64 < length ?ws" using Cons.prems by simp
  obtain ws' where ws': "yield_all label_word xs (Some ?ws) = (True, Some ws')" "length ws' = length ?ws"
      "\<And>j. unat j div 64 < length ?ws \<Longrightarrow> probe_bit ws' j = (probe_bit ?ws j \<or> j \<in> set xs)"
    using Cons.IH [OF bnd] by blast
  have "probe_bit ?ws j = (probe_bit ws j \<or> j = i)" if "unat j div 64 < length ws" for j
  proof -
    have "unat i = ?q * 64 + ?r" by simp
    moreover have "unat j = (unat j div 64) * 64 + unat j mod 64" by simp
    ultimately have "j = i \<longleftrightarrow> unat j div 64 = ?q \<and> unat j mod 64 = ?r" by (metis word_unat_eq_iff)
    moreover have "?r < 64" by simp
    moreover have "bit (w OR push_bit r 1 :: u64) k \<longleftrightarrow> bit w k \<or> k = r" if "r < 64" for w k r
      using that by (auto simp: bit_or_iff bit_exp_iff)
    ultimately show ?thesis using that unfolding probe_bit_def
      by (cases "unat j div 64 = ?q") (auto simp del: push_bit_of_1)
  qed
  moreover have "label_word i (Some ws) = (True, Some ?ws)" using Cons.prems by (simp add: label_word_def)
  ultimately show ?case using ws' by (intro exI [of _ ws']) (auto simp del: push_bit_of_1)
qed auto

lemma labelDenseBuild_ok:
  assumes R: "roaring_laws R" and l: "map_of (labelIndex g) l = Some s" and c: "map_of (labelBits g) l = None"
    and b: "\<forall>i \<in> ids R s. i < CSRIDSpace g"
  shows "\<exists>ws. labelDenseBuild R g l = Some (ws, g\<lparr>labelBits := AList.update l ws (labelBits g)\<rparr>)
    \<and> (\<forall>i < CSRIDSpace g. unat i div 64 < length ws \<and> probe_bit ws i = Set_Contains R s i)"
proof -
  let ?n = "unat (CSRIDSpace g)" and ?xs = "sorted_list_of_set (ids R s)"
  let ?ws = "replicate ((?n + 63) div 64) (0 :: u64)"
  have len: "unat i div 64 < length ?ws" if "i < CSRIDSpace g" for i
  proof -
    have "unat i div 64 < (unat i + 64) div 64" by simp
    also have "\<dots> \<le> (?n + 63) div 64" using that by (intro div_le_mono) (simp add: word_less_nat_alt)
    finally show ?thesis by simp
  qed
  have "\<forall>i \<in> set ?xs. unat i div 64 < length ?ws" using b len by simp
  from label_word_ok [OF this] obtain ws where ws: "yield_all label_word ?xs (Some ?ws) = (True, Some ws)" "length ws = length ?ws"
      "\<And>j. unat j div 64 < length ?ws \<Longrightarrow> probe_bit ws j = (probe_bit ?ws j \<or> j \<in> set ?xs)" by blast
  have z: "\<not> probe_bit ?ws j" if "j < CSRIDSpace g" for j using len [OF that] by (simp add: probe_bit_def)
  have "labelDenseBuild R g l = Some (ws, g\<lparr>labelBits := AList.update l ws (labelBits g)\<rparr>)"
    using l c ws(1) by (simp add: labelDenseBuild_def nodeset_ops [OF R])
  then show ?thesis using ws(2,3) len z by (auto simp: nodeset_ops [OF R])
qed

section \<open>Correctness of the accessors\<close>

text \<open>
  The small index over labels, types and keys resolves every name exactly as the search of the full atom table does, so
  that a name resolves to the smallest id with that string, or is unknown; the id resolves back to the name.
\<close>

lemma schemaID_correct:
  assumes "atoms_wf (sn_atoms g)"
  shows "schemaID g name = fst (Atoms_ID (sn_atoms g) name)
    \<and> (case schemaID g name of (i, known) \<Rightarrow> (known \<longleftrightarrow> name \<in> set (atom_strings (sn_atoms g))) \<and> (known \<longrightarrow> Snapshot_ResolveString g i = (name, True)))"
proof -
  have r: "unat (of_nat i :: u32) = i" if "first_idx (atom_strings (sn_atoms g)) name = Some i" for i
    using first_idx_bound [OF that] assms by (intro unat_of_nat_less) (simp add: atoms_wf_def)
  have "first_idx (atom_strings (sn_atoms g)) name = None \<longleftrightarrow> name \<notin> set (atom_strings (sn_atoms g))"
    by (auto simp: first_idx_def in_set_conv_nth split: if_splits)
  then show ?thesis using r
    by (auto simp: schemaID_ok [OF assms] Atoms_ID_ok [OF assms] first_idx_Some Snapshot_ResolveString_def Atoms_Resolve_def split: option.split)
qed

text \<open>
  \<open>RelEndpoints\<close> finds the source of a relationship position by binary search: the node whose offset range contains the
  position, with the stored target; positions outside the graph are refused.
\<close>

lemma RelEndpoints_correct:
  assumes "csr_wf (outOffsets g) (outNbrs g) (outTypes g)" "outOffsets g ! 0 = 0"
  shows "case RelEndpoints g pos of (src, tgt, ok) \<Rightarrow> (ok \<longleftrightarrow> unat pos < length (outNbrs g))
    \<and> (ok \<longrightarrow> tgt = outNbrs g ! unat pos \<and> (case relRange (outOffsets g) src of (lo, hi) \<Rightarrow> lo \<le> unat pos \<and> unat pos < hi))"
proof (cases "unat pos < length (outNbrs g)")
  case True
  then show ?thesis using RelEndpoints_ok [OF assms True] by auto
qed (simp add: RelEndpoints_def)

text \<open>
  The word bitmap of a label, forced or built on the density floor, has one word per 64 ids of the id space and its bit test
  agrees with the label's set for every id; the cached bitmap is the one returned.
\<close>

lemma labelDense_correct:
  assumes "roaring_laws R" "map_of (labelIndex g) l = Some s" "map_of (labelBits g) l = None" "\<forall>i \<in> ids R s. i < CSRIDSpace g"
  shows "\<exists>ws. labelDenseBuild R g l = Some (ws, g\<lparr>labelBits := AList.update l ws (labelBits g)\<rparr>)
    \<and> labelDenseBuild R (g\<lparr>labelBits := AList.update l ws (labelBits g)\<rparr>) l = Some (ws, g\<lparr>labelBits := AList.update l ws (labelBits g)\<rparr>)
    \<and> (\<forall>i < CSRIDSpace g. unat i div 64 < length ws \<and> bit (ws ! (unat i div 64)) (unat i mod 64) = Set_Contains R s i)"
  using labelDenseBuild_ok [OF assms] by (auto simp: probe_bit_def labelDenseBuild_def [of R "g\<lparr>labelBits := AList.update l w (labelBits g)\<rparr>" for w] update_conv')

end
