(* ===== verification/Traverse.thy ===== *)
theory Traverse
  imports Snapshot
begin

text \<open>
  Reading relationships (\<open>traverse.go\<close>, \<open>typedadj.go\<close>, \<open>typedadj_query.go\<close>): type matchers, neighbour and
  relationship iteration in three tiers (a type's filtered CSR, its filtered runs, the type-tested
  scan), and the bound-pair queries.

  A matcher made by \<open>Snapshot.Match\<close> carries a holder for the views of its type on that snapshot. The
  views are built at most once and are functions of the snapshot, so the holder's fields that the
  model keeps are its type and its palette indexes; the matcher is used on the snapshot that made it.
\<close>

section \<open>Matchers\<close>

definition newTypedPair :: "'bm Snapshot \<Rightarrow> RelType \<Rightarrow> typedPair" where
  "newTypedPair g t = \<lparr>tp_type = t, outPal = paletteIndexOf (outTypes g) t, inPal = paletteIndexOf (inTypes g) t\<rparr>"

text \<open>\<open>typedPairFor\<close> caches one holder per type; they are all equal to a new one.\<close>

definition typedPairFor :: "'bm Snapshot \<Rightarrow> RelType \<Rightarrow> typedPair" where
  "typedPairFor g t = newTypedPair g t"

definition matchMany :: "'bm Snapshot \<Rightarrow> string list \<Rightarrow> RelMatch" where
  "matchMany g names =
     (let resolved = concat (map (\<lambda>name. case Snapshot_RelType g name of (t, known) \<Rightarrow> if known then [t] else []) names) in
      case resolved of
        [] \<Rightarrow> MatchNone
      | [t] \<Rightarrow> MatchType t
      | _ \<Rightarrow> \<lparr>rm_kind = 2, rm_one = 0, rm_many = resolved, rm_tp = None\<rparr>)"

definition Match :: "'bm Snapshot \<Rightarrow> string list \<Rightarrow> RelMatch" where
  "Match g names =
     (case names of
        [] \<Rightarrow> MatchAll
      | [name] \<Rightarrow>
          (case Snapshot_RelType g name of (t, known) \<Rightarrow>
            if known then \<lparr>rm_kind = 1, rm_one = t, rm_many = [], rm_tp = Some (typedPairFor g t)\<rparr> else MatchNone)
      | _ \<Rightarrow> matchMany g names)"

section \<open>Views\<close>

definition typeCount :: "'bm roaring \<Rightarrow> 'bm Snapshot \<Rightarrow> RelType \<Rightarrow> nat" where
  "typeCount R g t = (case map_of (typeIndex g) t of None \<Rightarrow> 0 | Some s \<Rightarrow> Set_Len R s)"

definition typedAboveFloor :: "'bm roaring \<Rightarrow> 'bm Snapshot \<Rightarrow> RelType \<Rightarrow> bool" where
  "typedAboveFloor R g t =
     (case map_of (typeIndex g) t of None \<Rightarrow> False | Some s \<Rightarrow> Set_Len R s * 4 \<ge> unat (CSRIDSpace g))"

text \<open>The arrays of a direction; the incoming views bake the position map in.\<close>

definition offs_of :: "'bm Snapshot \<Rightarrow> bool \<Rightarrow> u32 list" where
  "offs_of g out = (if out then outOffsets g else inOffsets g)"

definition nbrs_of :: "'bm Snapshot \<Rightarrow> bool \<Rightarrow> NodeID list" where
  "nbrs_of g out = (if out then outNbrs g else inNbrs g)"

definition types_of :: "'bm Snapshot \<Rightarrow> bool \<Rightarrow> relTypes" where
  "types_of g out = (if out then outTypes g else inTypes g)"

definition pos_map :: "'bm Snapshot \<Rightarrow> bool \<Rightarrow> u32 list option" where
  "pos_map g out = (if out then Some [] else map_option fst (getInToOut g))"

text \<open>The inner option is the code's nil: no holder, or the type on the other side of the floor.\<close>

definition typed_view :: "'bm roaring \<Rightarrow> 'bm Snapshot \<Rightarrow> typedPair option \<Rightarrow> bool \<Rightarrow> typedCSR option option" where
  "typed_view R g tp out =
     (case tp of
        None \<Rightarrow> Some None
      | Some p \<Rightarrow>
          if typedAboveFloor R g (tp_type p) then do {
            pm \<leftarrow> pos_map g out;
            map_option Some (buildTypedCSR (offs_of g out) (nbrs_of g out) (types_of g out) pm (tp_type p))
          } else Some None)"

definition typed_runs :: "'bm roaring \<Rightarrow> 'bm Snapshot \<Rightarrow> typedPair option \<Rightarrow> bool \<Rightarrow> typedRuns option option" where
  "typed_runs R g tp out =
     (case tp of
        None \<Rightarrow> Some None
      | Some p \<Rightarrow>
          if \<not> typedAboveFloor R g (tp_type p) then do {
            pm \<leftarrow> pos_map g out;
            map_option Some (buildTypedRuns (offs_of g out) (nbrs_of g out) (types_of g out) pm (tp_type p))
          } else Some None)"

definition runScanFloor :: nat where
  "runScanFloor = 64"

section \<open>Neighbours\<close>

definition Degree :: "'bm Snapshot \<Rightarrow> NodeID \<Rightarrow> Direction \<Rightarrow> int" where
  "Degree g node dir =
     (let od = (if dir = Outgoing \<or> dir = Both then (case relRange (outOffsets g) node of (lo, hi) \<Rightarrow> int hi - int lo) else 0);
          idg = (if dir = Incoming \<or> dir = Both then (case relRange (inOffsets g) node of (lo, hi) \<Rightarrow> int hi - int lo) else 0)
      in od + idg)"

definition append_slice :: "'a list \<Rightarrow> 'a list \<Rightarrow> nat \<times> nat \<Rightarrow> 'a list option" where
  "append_slice dst xs = (\<lambda>(lo, hi). if lo \<le> hi \<and> hi \<le> length xs then Some (dst @ take (hi - lo) (drop lo xs)) else None)"

text \<open>The code of one direction, which \<open>AppendNeighborsEach\<close> has twice.\<close>

definition append_side :: "'bm roaring \<Rightarrow> 'bm Snapshot \<Rightarrow> bool \<Rightarrow> NodeID \<Rightarrow> RelMatch \<Rightarrow> NodeID list \<Rightarrow> NodeID list option" where
  "append_side R g out node m dst = do {
     v \<leftarrow> typed_view R g (rm_tp m) out;
     (case v of
        Some tc \<Rightarrow> append_slice dst (tc_nbrs tc) (relRange (tc_offsets tc) node)
      | None \<Rightarrow>
          (case relRange (offs_of g out) node of (lo, hi) \<Rightarrow> do {
            tr \<leftarrow> (if hi - lo > runScanFloor then typed_runs R g (rm_tp m) out else Some None);
            (case tr of
               Some tr \<Rightarrow> do { r \<leftarrow> runRange tr node; append_slice dst (tr_nbrs tr) r }
             | None \<Rightarrow> if hi > lo then appendNbrsTyped dst (nbrs_of g out) (types_of g out) m out lo hi else Some dst)
          }))
   }"

definition AppendNeighborsEach :: "'bm roaring \<Rightarrow> 'bm Snapshot \<Rightarrow> NodeID list \<Rightarrow> NodeID \<Rightarrow> Direction \<Rightarrow> RelMatch \<Rightarrow> NodeID list option" where
  "AppendNeighborsEach R g dst node dir m = do {
     dst \<leftarrow> (if dir = Outgoing \<or> dir = Both then append_side R g True node m dst else Some dst);
     (if dir = Incoming \<or> dir = Both then append_side R g False node m dst else Some dst)
   }"

definition AppendNeighborsMatch :: "'bm roaring \<Rightarrow> 'bm Snapshot \<Rightarrow> NodeID list \<Rightarrow> NodeID \<Rightarrow> Direction \<Rightarrow> RelMatch \<Rightarrow> NodeID list option" where
  "AppendNeighborsMatch R g dst node dir m =
     (let base = length dst in
      map_option (\<lambda>d. take base d @ remdups_adj (sort (drop base d))) (AppendNeighborsEach R g dst node dir m))"

definition yield_side :: "'bm roaring \<Rightarrow> 'bm Snapshot \<Rightarrow> bool \<Rightarrow> NodeID \<Rightarrow> RelMatch \<Rightarrow> (NodeID \<Rightarrow> 's \<Rightarrow> bool \<times> 's) \<Rightarrow> 's \<Rightarrow> (bool \<times> 's) option" where
  "yield_side R g out node m yield s = do {
     v \<leftarrow> typed_view R g (rm_tp m) out;
     (case v of
        Some tc \<Rightarrow> (case relRange (tc_offsets tc) node of (lo, hi) \<Rightarrow> yield_loop (\<lambda>_. Some True) (tc_nbrs tc) yield [lo..<hi] s)
      | None \<Rightarrow>
          (case relRange (offs_of g out) node of (lo, hi) \<Rightarrow> do {
            tr \<leftarrow> (if hi - lo > runScanFloor then typed_runs R g (rm_tp m) out else Some None);
            (case tr of
               Some tr \<Rightarrow> do { (rlo, rhi) \<leftarrow> runRange tr node; yield_loop (\<lambda>_. Some True) (tr_nbrs tr) yield [rlo..<rhi] s }
             | None \<Rightarrow> if hi > lo then yieldNbrsTyped (nbrs_of g out) (types_of g out) m out lo hi yield s else Some (True, s))
          }))
   }"

text \<open>A consumer that stops in the outgoing half ends the whole walk.\<close>

definition both_sides :: "Direction \<Rightarrow> (bool \<Rightarrow> 's \<Rightarrow> (bool \<times> 's) option) \<Rightarrow> 's \<Rightarrow> 's option" where
  "both_sides dir side s = do {
     (go, s) \<leftarrow> (if dir = Outgoing \<or> dir = Both then side True s else Some (True, s));
     (if go \<and> (dir = Incoming \<or> dir = Both) then map_option snd (side False s) else Some s)
   }"

definition neighborsYield :: "'bm roaring \<Rightarrow> 'bm Snapshot \<Rightarrow> NodeID \<Rightarrow> Direction \<Rightarrow> RelMatch \<Rightarrow> (NodeID \<Rightarrow> 's \<Rightarrow> bool \<times> 's) \<Rightarrow> 's \<Rightarrow> 's option" where
  "neighborsYield R g node dir m yield s = both_sides dir (\<lambda>out. yield_side R g out node m yield) s"

definition Neighbors :: "'bm roaring \<Rightarrow> 'bm Snapshot \<Rightarrow> NodeID \<Rightarrow> Direction \<Rightarrow> string list \<Rightarrow> (NodeID \<Rightarrow> 's \<Rightarrow> bool \<times> 's) \<Rightarrow> 's \<Rightarrow> 's option" where
  "Neighbors R g node dir names yield s = neighborsYield R g node dir (Match g names) yield s"

section \<open>Relationships\<close>

record RelRef =
  ref_Neighbor :: NodeID
  ref_Type :: RelType
  ref_Direction :: Direction
  ref_Pos :: u32

fun refs_loop :: "(nat \<Rightarrow> RelRef option option) \<Rightarrow> (RelRef \<Rightarrow> 's \<Rightarrow> bool \<times> 's) \<Rightarrow> nat list \<Rightarrow> 's \<Rightarrow> (bool \<times> 's) option" where
  "refs_loop ref yield [] s = Some (True, s)"
| "refs_loop ref yield (k # ks) s = do {
     r \<leftarrow> ref k;
     (case r of
        None \<Rightarrow> refs_loop ref yield ks s
      | Some x \<Rightarrow> (case yield x s of (go, s') \<Rightarrow> if \<not> go then Some (False, s') else refs_loop ref yield ks s'))
   }"

definition side_dir :: "bool \<Rightarrow> Direction" where
  "side_dir out = (if out then Outgoing else Incoming)"

text \<open>An entry of a view has the matcher's type and the stored position.\<close>

definition view_ref :: "NodeID list \<Rightarrow> u32 list \<Rightarrow> RelMatch \<Rightarrow> bool \<Rightarrow> nat \<Rightarrow> RelRef option option" where
  "view_ref nbrs poss m out k = do {
     nb \<leftarrow> slice_at nbrs k;
     p \<leftarrow> slice_at poss k;
     Some (Some \<lparr>ref_Neighbor = nb, ref_Type = rm_one m, ref_Direction = side_dir out, ref_Pos = p\<rparr>)
   }"

definition scan_ref :: "NodeID list \<Rightarrow> relTypes \<Rightarrow> u32 list \<Rightarrow> RelMatch \<Rightarrow> bool \<Rightarrow> nat \<Rightarrow> RelRef option option" where
  "scan_ref nbrs types pm m out k = do {
     t \<leftarrow> reader types (of_nat k);
     (if \<not> RelMatch_matches m t then Some None
      else do {
        nb \<leftarrow> slice_at nbrs k;
        Some (Some \<lparr>ref_Neighbor = nb, ref_Type = t, ref_Direction = side_dir out, ref_Pos = read_pos pm k\<rparr>)
      })
   }"

definition rels_side :: "'bm roaring \<Rightarrow> 'bm Snapshot \<Rightarrow> bool \<Rightarrow> NodeID \<Rightarrow> RelMatch \<Rightarrow> (RelRef \<Rightarrow> 's \<Rightarrow> bool \<times> 's) \<Rightarrow> 's \<Rightarrow> (bool \<times> 's) option" where
  "rels_side R g out node m yield s = do {
     v \<leftarrow> typed_view R g (rm_tp m) out;
     (case v of
        Some tc \<Rightarrow> (case relRange (tc_offsets tc) node of (lo, hi) \<Rightarrow> refs_loop (view_ref (tc_nbrs tc) (tc_poss tc) m out) yield [lo..<hi] s)
      | None \<Rightarrow>
          (case relRange (offs_of g out) node of (lo, hi) \<Rightarrow> do {
            tr \<leftarrow> (if hi - lo > runScanFloor then typed_runs R g (rm_tp m) out else Some None);
            (case tr of
               Some tr \<Rightarrow> do { (rlo, rhi) \<leftarrow> runRange tr node; refs_loop (view_ref (tr_nbrs tr) (tr_poss tr) m out) yield [rlo..<rhi] s }
             | None \<Rightarrow> do { pm \<leftarrow> pos_map g out; refs_loop (scan_ref (nbrs_of g out) (types_of g out) pm m out) yield [lo..<hi] s })
          }))
   }"

definition relsYield :: "'bm roaring \<Rightarrow> 'bm Snapshot \<Rightarrow> NodeID \<Rightarrow> Direction \<Rightarrow> RelMatch \<Rightarrow> (RelRef \<Rightarrow> 's \<Rightarrow> bool \<times> 's) \<Rightarrow> 's \<Rightarrow> 's option" where
  "relsYield R g node dir m yield s = both_sides dir (\<lambda>out. rels_side R g out node m yield) s"

definition Rels :: "'bm roaring \<Rightarrow> 'bm Snapshot \<Rightarrow> NodeID \<Rightarrow> Direction \<Rightarrow> string list \<Rightarrow> (RelRef \<Rightarrow> 's \<Rightarrow> bool \<times> 's) \<Rightarrow> 's \<Rightarrow> 's option" where
  "Rels R g node dir names yield s = relsYield R g node dir (Match g names) yield s"

section \<open>Derived lookups\<close>

definition FirstNeighbor :: "'bm roaring \<Rightarrow> 'bm Snapshot \<Rightarrow> NodeID \<Rightarrow> Direction \<Rightarrow> string list \<Rightarrow> NodeID option option" where
  "FirstNeighbor R g node dir names = Neighbors R g node dir names (\<lambda>n _. (False, Some n)) None"

fun Follow :: "'bm roaring \<Rightarrow> 'bm Snapshot \<Rightarrow> NodeID \<Rightarrow> (Direction \<times> string) list \<Rightarrow> NodeID option option" where
  "Follow R g cur [] = Some (Some cur)"
| "Follow R g cur ((dir, relType) # steps) = do {
     r \<leftarrow> FirstNeighbor R g cur dir [relType];
     (case r of None \<Rightarrow> Some None | Some nxt \<Rightarrow> Follow R g nxt steps)
   }"

definition HasRel :: "'bm roaring \<Rightarrow> 'bm Snapshot \<Rightarrow> NodeID \<Rightarrow> Direction \<Rightarrow> string list \<Rightarrow> bool option" where
  "HasRel R g node dir names = map_option (\<lambda>r. r \<noteq> None) (FirstNeighbor R g node dir names)"

definition neighborsInSetYield :: "'bm roaring \<Rightarrow> 'bm Snapshot \<Rightarrow> NodeID \<Rightarrow> Direction \<Rightarrow> 'bm Set \<Rightarrow> RelMatch \<Rightarrow> (NodeID \<Rightarrow> 's \<Rightarrow> bool \<times> 's) \<Rightarrow> 's \<Rightarrow> 's option" where
  "neighborsInSetYield R g node dir nset m yield s =
     neighborsYield R g node dir m (\<lambda>n s. if \<not> Set_Contains R nset n then (True, s) else yield n s) s"

text \<open>The loop body returns at the first neighbour whose value is the wanted one; its panic is the state \<^term>\<open>None\<close>.\<close>

definition HasNeighborWithProperty :: "'bm roaring \<Rightarrow> 'bm Snapshot \<Rightarrow> NodeID \<Rightarrow> Direction \<Rightarrow> string \<Rightarrow> AnyValue \<Rightarrow> string list \<Rightarrow> bool option" where
  "HasNeighborWithProperty R g node dir key value names =
     (case (Snapshot_PropertyKey g key, valueFromAny g value) of ((k, known), (want, ok)) \<Rightarrow>
      if \<not> known \<or> \<not> ok then Some False
      else case map_of (columns g) k of
        None \<Rightarrow> Some False
      | Some column \<Rightarrow> do {
          r \<leftarrow> Neighbors R g node dir names (\<lambda>n s.
                 case Column_Get column n of
                   None \<Rightarrow> (False, None)
                 | Some got \<Rightarrow> if got = Some want then (False, Some True) else (True, s)) (Some False);
          r
        })"

section \<open>Specification of a traversal\<close>

text \<open>The positions of a node's matching relationships in one direction, and what they denote.\<close>

definition side_ks :: "'bm Snapshot \<Rightarrow> bool \<Rightarrow> RelMatch \<Rightarrow> NodeID \<Rightarrow> nat list" where
  "side_ks g out m node = (case relRange (offs_of g out) node of (lo, hi) \<Rightarrow> kept m (types_of g out) lo hi)"

definition pm_of :: "'bm Snapshot \<Rightarrow> bool \<Rightarrow> u32 list" where
  "pm_of g out = (case pos_map g out of Some pm \<Rightarrow> pm | None \<Rightarrow> [])"

definition side_nbrs :: "'bm Snapshot \<Rightarrow> bool \<Rightarrow> RelMatch \<Rightarrow> NodeID \<Rightarrow> NodeID list" where
  "side_nbrs g out m node = map ((!) (nbrs_of g out)) (side_ks g out m node)"

definition side_refs :: "'bm Snapshot \<Rightarrow> bool \<Rightarrow> RelMatch \<Rightarrow> NodeID \<Rightarrow> RelRef list" where
  "side_refs g out m node =
     map (\<lambda>k. \<lparr>ref_Neighbor = nbrs_of g out ! k, ref_Type = rt_list (types_of g out) ! k,
               ref_Direction = side_dir out, ref_Pos = read_pos (pm_of g out) k\<rparr>) (side_ks g out m node)"

definition dir_list :: "Direction \<Rightarrow> (bool \<Rightarrow> 'a list) \<Rightarrow> 'a list" where
  "dir_list dir f = (if dir = Incoming then [] else f True) @ (if dir = Outgoing then [] else f False)"

definition snapshot_ok :: "'bm Snapshot \<Rightarrow> bool" where
  "snapshot_ok g \<longleftrightarrow> (\<forall>out. csr_wf (offs_of g out) (nbrs_of g out) (types_of g out)) \<and> getInToOut g \<noteq> None"

text \<open>Neighbours stay inside the id space.\<close>

definition nbrs_in_space :: "'bm Snapshot \<Rightarrow> bool" where
  "nbrs_in_space g \<longleftrightarrow> (\<forall>out. \<forall>x \<in> set (nbrs_of g out). unat x < unat (CSRIDSpace g))"

definition match_for :: "'bm Snapshot \<Rightarrow> RelMatch \<Rightarrow> bool" where
  "match_for g m \<longleftrightarrow> (case rm_tp m of None \<Rightarrow> True | Some p \<Rightarrow> rm_kind m = 1 \<and> p = newTypedPair g (rm_one m))"

lemma match_for_match_ok: "match_for g m \<Longrightarrow> match_ok m (types_of g out) out"
  by (auto simp: match_for_def match_ok_def newTypedPair_def types_of_def split: option.split)

lemma Match_ok: "match_for g (Match g names)"
  by (auto simp: Match_def match_for_def MatchAll_def MatchNone_def MatchType_def matchMany_def typedPairFor_def Let_def
      split: list.split prod.split option.split)

lemma snapshot_ok_pos_map: "snapshot_ok g \<Longrightarrow> pos_map g out = Some (pm_of g out)"
  by (auto simp: snapshot_ok_def pos_map_def pm_of_def split: option.splits)

lemma side_ks_typed:
  assumes "rm_kind m = 1"
  shows "map (\<lambda>k. (nbrs_of g out ! k, read_pos pm k)) (side_ks g out m node)
    = typed_rows (offs_of g out) (nbrs_of g out) (types_of g out) pm (rm_one m) (unat node)"
proof -
  have "RelMatch_matches m = RelMatch_matches (MatchType (rm_one m))" using assms by (auto simp: RelMatch_matches_def MatchType_def)
  then show ?thesis unfolding side_ks_def kept_def
    using scan_typed_rows [where offsets = "offs_of g out" and node = node and nbrs = "nbrs_of g out" and posMap = pm and t = "rm_one m" and types = "types_of g out"]
    by (cases "relRange (offs_of g out) node") simp
qed

text \<open>The tiers: either a view is absent, or the node's slice of it is the specified list.\<close>

lemma view_cases:
  assumes "snapshot_ok g" "match_for g m"
  obtains (absent) "typed_view R g (rm_tp m) out = Some None"
  | (view) tc lo hi where "typed_view R g (rm_tp m) out = Some (Some tc)" "relRange (tc_offsets tc) node = (lo, hi)" "lo \<le> hi"
      "hi \<le> length (tc_nbrs tc)" "length (tc_poss tc) = length (tc_nbrs tc)" "rm_kind m = 1"
      "slice_of (zip (tc_nbrs tc) (tc_poss tc)) (lo, hi) = map (\<lambda>k. (nbrs_of g out ! k, read_pos (pm_of g out) k)) (side_ks g out m node)"
proof (cases "rm_tp m")
  case (Some p)
  then have p: "tp_type p = rm_one m" "rm_kind m = 1" using assms(2) by (auto simp: match_for_def newTypedPair_def)
  show ?thesis
  proof (cases "typedAboveFloor R g (tp_type p)")
    case True
    have wf: "csr_wf (offs_of g out) (nbrs_of g out) (types_of g out)" using assms(1) by (simp add: snapshot_ok_def)
    obtain tc lo hi where tc: "buildTypedCSR (offs_of g out) (nbrs_of g out) (types_of g out) (pm_of g out) (rm_one m) = Some tc"
        "length (tc_poss tc) = length (tc_nbrs tc)" "relRange (tc_offsets tc) node = (lo, hi)" "lo \<le> hi" "hi \<le> length (tc_nbrs tc)"
        "slice_of (zip (tc_nbrs tc) (tc_poss tc)) (lo, hi) = typed_rows (offs_of g out) (nbrs_of g out) (types_of g out) (pm_of g out) (rm_one m) (unat node)"
      using typed_csr_slice [OF wf, of "pm_of g out" "rm_one m"] by blast
    have "typed_view R g (rm_tp m) out = Some (Some tc)"
      using tc(1) Some p True snapshot_ok_pos_map [OF assms(1), of out] by (simp add: typed_view_def)
    then show ?thesis by (rule view [OF _ tc(3,4,5,2) p(2)]) (simp add: tc(6) side_ks_typed [OF p(2)])
  qed (use Some absent in \<open>simp add: typed_view_def\<close>)
qed (use absent in \<open>simp add: typed_view_def\<close>)

lemma runs_cases:
  assumes "snapshot_ok g" "match_for g m"
  obtains (absent) "typed_runs R g (rm_tp m) out = Some None"
  | (runs) tr lo hi where "typed_runs R g (rm_tp m) out = Some (Some tr)" "runRange tr node = Some (lo, hi)" "lo \<le> hi"
      "hi \<le> length (tr_nbrs tr)" "length (tr_poss tr) = length (tr_nbrs tr)" "rm_kind m = 1"
      "slice_of (zip (tr_nbrs tr) (tr_poss tr)) (lo, hi) = map (\<lambda>k. (nbrs_of g out ! k, read_pos (pm_of g out) k)) (side_ks g out m node)"
proof (cases "rm_tp m")
  case (Some p)
  then have p: "tp_type p = rm_one m" "rm_kind m = 1" using assms(2) by (auto simp: match_for_def newTypedPair_def)
  show ?thesis
  proof (cases "typedAboveFloor R g (tp_type p)")
    case False
    have wf: "csr_wf (offs_of g out) (nbrs_of g out) (types_of g out)" using assms(1) by (simp add: snapshot_ok_def)
    obtain tr lo hi where tr: "buildTypedRuns (offs_of g out) (nbrs_of g out) (types_of g out) (pm_of g out) (rm_one m) = Some tr"
        "length (tr_poss tr) = length (tr_nbrs tr)" "runRange tr node = Some (lo, hi)" "lo \<le> hi" "hi \<le> length (tr_nbrs tr)"
        "slice_of (zip (tr_nbrs tr) (tr_poss tr)) (lo, hi) = typed_rows (offs_of g out) (nbrs_of g out) (types_of g out) (pm_of g out) (rm_one m) (unat node)"
      using typed_runs_slice [OF wf, of "pm_of g out" "rm_one m"] by blast
    have "typed_runs R g (rm_tp m) out = Some (Some tr)"
      using tr(1) Some p False snapshot_ok_pos_map [OF assms(1), of out] by (simp add: typed_runs_def)
    then show ?thesis by (rule runs [OF _ tr(3,4,5,2) p(2)]) (simp add: tr(6) side_ks_typed [OF p(2)])
  qed (use Some absent in \<open>simp add: typed_runs_def\<close>)
qed (use absent in \<open>simp add: typed_runs_def\<close>)

text \<open>A slice of a view, as a list of neighbours and as a loop over references.\<close>

lemma view_slice:
  assumes "lo \<le> hi" "hi \<le> length nbrs" "length poss = length nbrs" "slice_of (zip nbrs poss) (lo, hi) = map (\<lambda>k. (f k, h k)) ks"
  shows "append_slice dst nbrs (lo, hi) = Some (dst @ map f ks)"
    "yield_loop (\<lambda>_. Some True) nbrs yield [lo..<hi] s = Some (yield_all yield (map f ks) s)"
    "refs_loop (view_ref nbrs poss m out) yield' [lo..<hi] s'
      = Some (yield_all yield' (map (\<lambda>k. \<lparr>ref_Neighbor = f k, ref_Type = rm_one m, ref_Direction = side_dir out, ref_Pos = h k\<rparr>) ks) s')"
proof -
  have "map fst (slice_of (zip nbrs poss) (lo, hi)) = take (hi - lo) (drop lo nbrs)"
    using assms(3) by (simp add: slice_of_def flip: take_map drop_map)
  then have nb: "take (hi - lo) (drop lo nbrs) = map f ks" using assms(4) by (simp add: comp_def)
  then show "append_slice dst nbrs (lo, hi) = Some (dst @ map f ks)" using assms(1,2) by (simp add: append_slice_def)
  show "yield_loop (\<lambda>_. Some True) nbrs yield [lo..<hi] s = Some (yield_all yield (map f ks) s)"
    using yield_loop_ok [of "[lo..<hi]" "\<lambda>_. Some True" "\<lambda>_. True" nbrs yield s] slice_map_nth [OF assms(1,2)] nb assms(2) by simp
  let ?ref = "\<lambda>k. \<lparr>ref_Neighbor = nbrs ! k, ref_Type = rm_one m, ref_Direction = side_dir out, ref_Pos = poss ! k\<rparr>"
  have loop: "refs_loop (view_ref nbrs poss m out) yield' ks' s' = Some (yield_all yield' (map ?ref ks') s')"
    if "\<forall>k \<in> set ks'. k < length nbrs" for ks' s'
    using that assms(3) by (induction ks' arbitrary: s') (auto simp: view_ref_def split: prod.split)
  have "map (\<lambda>k. (nbrs ! k, poss ! k)) [lo..<hi] = map (\<lambda>k. (f k, h k)) ks"
  proof -
    have "map (\<lambda>k. (nbrs ! k, poss ! k)) [lo..<hi] = map ((!) (zip nbrs poss)) [lo..<hi]" using assms(2,3) by auto
    also have "\<dots> = take (hi - lo) (drop lo (zip nbrs poss))" using assms(1-3) by (intro slice_map_nth [symmetric]) auto
    finally show ?thesis using assms(4) by (simp add: slice_of_def)
  qed
  then have "map (\<lambda>(nb, p). \<lparr>ref_Neighbor = nb, ref_Type = rm_one m, ref_Direction = side_dir out, ref_Pos = p\<rparr>) (map (\<lambda>k. (nbrs ! k, poss ! k)) [lo..<hi])
    = map (\<lambda>(nb, p). \<lparr>ref_Neighbor = nb, ref_Type = rm_one m, ref_Direction = side_dir out, ref_Pos = p\<rparr>) (map (\<lambda>k. (f k, h k)) ks)" by (simp only:)
  then have "map ?ref [lo..<hi] = map (\<lambda>k. \<lparr>ref_Neighbor = f k, ref_Type = rm_one m, ref_Direction = side_dir out, ref_Pos = h k\<rparr>) ks"
    by (simp add: comp_def)
  then show "refs_loop (view_ref nbrs poss m out) yield' [lo..<hi] s'
      = Some (yield_all yield' (map (\<lambda>k. \<lparr>ref_Neighbor = f k, ref_Type = rm_one m, ref_Direction = side_dir out, ref_Pos = h k\<rparr>) ks) s')"
    using loop [of "[lo..<hi]"] assms(2) by simp
qed

lemma range_bounds:
  assumes "snapshot_ok g" "relRange (offs_of g out) node = (lo, hi)"
  shows "lo \<le> hi" "hi \<le> length (nbrs_of g out)" "relTypes_Len (types_of g out) = length (nbrs_of g out)"
    "length (nbrs_of g out) < 2 ^ 32" "rt_wf (types_of g out)"
proof -
  have wf: "csr_wf (offs_of g out) (nbrs_of g out) (types_of g out)" using assms(1) by (simp add: snapshot_ok_def)
  then show "lo \<le> hi" "hi \<le> length (nbrs_of g out)"
    using assms(2) csr_wf_range [OF wf, of "unat node"] by (auto simp: relRange_def Let_def split: if_splits)
qed (use assms(1) in \<open>auto simp: snapshot_ok_def csr_wf_def\<close>)

lemma scan_ok:
  assumes g: "snapshot_ok g" and m: "match_for g m" and r: "relRange (offs_of g out) node = (lo, hi)"
  shows "(if hi > lo then appendNbrsTyped dst (nbrs_of g out) (types_of g out) m out lo hi else Some dst) = Some (dst @ side_nbrs g out m node)"
    "(if hi > lo then yieldNbrsTyped (nbrs_of g out) (types_of g out) m out lo hi yield s else Some (True, s))
      = Some (yield_all yield (side_nbrs g out m node) s)"
    "refs_loop (scan_ref (nbrs_of g out) (types_of g out) (pm_of g out) m out) yield' [lo..<hi] s' = Some (yield_all yield' (side_refs g out m node) s')"
proof -
  note b = range_bounds [OF g r]
  have k: "kept m (types_of g out) lo hi = side_ks g out m node" using r by (simp add: side_ks_def)
  have e: "side_ks g out m node = []" if "\<not> hi > lo" using that r by (simp add: side_ks_def kept_def)
  note n = nbrs_typed_ok [where r = "types_of g out" and m = m and out = out and lo = lo and hi = hi and nbrs = "nbrs_of g out"]
  show "(if hi > lo then appendNbrsTyped dst (nbrs_of g out) (types_of g out) m out lo hi else Some dst) = Some (dst @ side_nbrs g out m node)"
    "(if hi > lo then yieldNbrsTyped (nbrs_of g out) (types_of g out) m out lo hi yield s else Some (True, s))
      = Some (yield_all yield (side_nbrs g out m node) s)"
    using n b match_for_match_ok [OF m, of out] e by (auto simp: side_nbrs_def k)
  let ?ref = "\<lambda>k. \<lparr>ref_Neighbor = nbrs_of g out ! k, ref_Type = rt_list (types_of g out) ! k, ref_Direction = side_dir out, ref_Pos = read_pos (pm_of g out) k\<rparr>"
  have "refs_loop (scan_ref (nbrs_of g out) (types_of g out) (pm_of g out) m out) yield' ks s'
      = Some (yield_all yield' (map ?ref (filter (\<lambda>k. RelMatch_matches m (rt_list (types_of g out) ! k)) ks)) s')"
    if "\<forall>k \<in> set ks. k < length (nbrs_of g out)" for ks s'
    using that
  proof (induction ks arbitrary: s')
    case (Cons k ks)
    have "unat (of_nat k :: u32) = k" using Cons.prems b(4) by (intro unat_of_nat_less) simp
    then have "reader (types_of g out) (of_nat k) = Some (rt_list (types_of g out) ! k)"
      using Cons.prems b(3,5) by (simp add: reader_At relTypes_At_ok)
    then show ?case using Cons by (auto simp: scan_ref_def split: prod.split)
  qed simp
  then show "refs_loop (scan_ref (nbrs_of g out) (types_of g out) (pm_of g out) m out) yield' [lo..<hi] s' = Some (yield_all yield' (side_refs g out m node) s')"
    using b(2) k by (simp add: side_refs_def kept_def)
qed

lemma refs_typed:
  assumes g: "snapshot_ok g" and k: "rm_kind m = 1"
  shows "map (\<lambda>k. \<lparr>ref_Neighbor = nbrs_of g out ! k, ref_Type = rm_one m, ref_Direction = side_dir out, ref_Pos = read_pos (pm_of g out) k\<rparr>)
      (side_ks g out m node) = side_refs g out m node"
  using k by (auto simp: side_refs_def side_ks_def kept_def RelMatch_matches_def split: prod.split)

lemma side_all:
  assumes g: "snapshot_ok g" and m: "match_for g m"
  shows "append_side R g out node m dst = Some (dst @ side_nbrs g out m node)
    \<and> yield_side R g out node m yield s = Some (yield_all yield (side_nbrs g out m node) s)
    \<and> rels_side R g out node m yield' s' = Some (yield_all yield' (side_refs g out m node) s')"
  using g m
proof (cases rule: view_cases [where R = R and out = out and node = node])
  case (view tc lo hi)
  show ?thesis
    using view(1,2)
    by (simp add: append_side_def yield_side_def rels_side_def side_nbrs_def view_slice [OF view(3,4,5,7)] refs_typed [OF g view(6)])
next
  case absent
  note v = absent
  obtain lo hi where lh: "relRange (offs_of g out) node = (lo, hi)" by fastforce
  note s = scan_ok [OF g m lh]
  show ?thesis
  proof (cases "hi - lo > runScanFloor")
    case False
    then show ?thesis using v lh snapshot_ok_pos_map [OF g, of out] by (simp add: append_side_def yield_side_def rels_side_def s)
  next
    case True
    show ?thesis
      using g m
    proof (cases rule: runs_cases [where R = R and out = out and node = node])
      case absent
      then show ?thesis using v lh True snapshot_ok_pos_map [OF g, of out] by (simp add: append_side_def yield_side_def rels_side_def s)
    next
      case (runs tr rlo rhi)
      show ?thesis using v lh True runs(1,2)
        by (simp add: append_side_def yield_side_def rels_side_def side_nbrs_def view_slice [OF runs(3,4,5,7)] refs_typed [OF g runs(6)])
    qed
  qed
qed

lemmas side_ok = side_all [THEN conjunct1] side_all [THEN conjunct2, THEN conjunct1] side_all [THEN conjunct2, THEN conjunct2]

lemma both_sides_ok:
  assumes "\<And>out s. side out s = Some (yield_all y (f out) s)"
  shows "both_sides dir side s = Some (snd (yield_all y (dir_list dir f) s))"
  using assms by (cases dir) (auto simp: both_sides_def dir_list_def yield_all_append split: prod.split)

lemma traversal_ok:
  assumes "snapshot_ok g" "match_for g m"
  shows "AppendNeighborsEach R g dst node dir m = Some (dst @ dir_list dir (\<lambda>out. side_nbrs g out m node))"
    "neighborsYield R g node dir m yield s = Some (snd (yield_all yield (dir_list dir (\<lambda>out. side_nbrs g out m node)) s))"
    "relsYield R g node dir m yield' s' = Some (snd (yield_all yield' (dir_list dir (\<lambda>out. side_refs g out m node)) s'))"
proof -
  show "AppendNeighborsEach R g dst node dir m = Some (dst @ dir_list dir (\<lambda>out. side_nbrs g out m node))"
    using side_ok(1) [OF assms] by (cases dir) (simp_all add: AppendNeighborsEach_def dir_list_def)
  show "neighborsYield R g node dir m yield s = Some (snd (yield_all yield (dir_list dir (\<lambda>out. side_nbrs g out m node)) s))"
    unfolding neighborsYield_def by (rule both_sides_ok) (rule side_ok(2) [OF assms])
  show "relsYield R g node dir m yield' s' = Some (snd (yield_all yield' (dir_list dir (\<lambda>out. side_refs g out m node)) s'))"
    unfolding relsYield_def by (rule both_sides_ok) (rule side_ok(3) [OF assms])
qed

lemma distinct_remdups_adj: "sorted xs \<Longrightarrow> distinct (remdups_adj xs)" for xs :: "'a::linorder list"
  by (induction xs rule: remdups_adj.induct) auto

lemma remdups_adj_sort: "remdups_adj (sort xs) = sorted_list_of_set (set xs)" for xs :: "'a::linorder list"
proof -
  have "sorted (remdups_adj (sort xs))" using sorted_remdups_adj [OF sorted_sort] .
  moreover have "distinct (remdups_adj (sort xs))" by (simp add: distinct_remdups_adj)
  ultimately show ?thesis by (intro sorted_distinct_set_unique) auto
qed

text \<open>
  C14: On a well-formed snapshot, whichever of the three tiers serves the node (the filtered CSR of a common type, its runs for a
  hub, the type-tested scan), every traversal delivers exactly the node's matching relationships in CSR order, outgoing before
  incoming: appended, yielded until the consumer stops, or yielded as references with the position where the
  relationship's properties are stored; \<open>AppendNeighborsMatch\<close> appends the ascending set of the neighbours.
\<close>

theorem traversal_correct:
  assumes "snapshot_ok g" "match_for g m"
  shows "AppendNeighborsEach R g dst node dir m = Some (dst @ dir_list dir (\<lambda>out. side_nbrs g out m node))
    \<and> neighborsYield R g node dir m yield s = Some (snd (yield_all yield (dir_list dir (\<lambda>out. side_nbrs g out m node)) s))
    \<and> relsYield R g node dir m yield' s' = Some (snd (yield_all yield' (dir_list dir (\<lambda>out. side_refs g out m node)) s'))
    \<and> AppendNeighborsMatch R g dst node dir m = Some (dst @ sorted_list_of_set (set (dir_list dir (\<lambda>out. side_nbrs g out m node))))"
  by (simp add: traversal_ok [OF assms] AppendNeighborsMatch_def Let_def remdups_adj_sort)

definition small_graph :: "u32 list Snapshot" where
  "small_graph = newSnapshot\<lparr>outOffsets := [0, 2, 2], outNbrs := [1, 1], outTypes := compressRelTypes [0, 6],
     inOffsets := [0, 0, 2], inNbrs := [0, 0], inTypes := compressRelTypes [0, 6], typeIndex := [(0, Set_Of list_roaring [0]), (6, Set_Of list_roaring [1])]\<rparr>"

lemma small_graph_ok: "snapshot_ok small_graph"
proof -
  have "csr_wf (offs_of small_graph out) (nbrs_of small_graph out) (types_of small_graph out)" for out
    using compress_ok [of "[0, 6]"] length_rt_list [of "compressRelTypes [0, 6]"]
    by (cases out) (simp_all add: csr_wf_def small_graph_def offs_of_def nbrs_of_def types_of_def del: length_rt_list)
  then show ?thesis by (simp add: snapshot_ok_def getInToOut_def small_graph_def newSnapshot_def)
qed

theorem traversal_correct_witness:
  "AppendNeighborsEach list_roaring small_graph [9] 0 Both (Match small_graph [''''])
      = Some ([9] @ dir_list Both (\<lambda>out. side_nbrs small_graph out (Match small_graph ['''']) 0))
    \<and> neighborsYield list_roaring small_graph 0 Both (Match small_graph ['''']) (\<lambda>n acc. (acc = [], n # acc)) []
      = Some (snd (yield_all (\<lambda>n acc. (acc = [], n # acc)) (dir_list Both (\<lambda>out. side_nbrs small_graph out (Match small_graph ['''']) 0)) []))
    \<and> relsYield list_roaring small_graph 0 Both (Match small_graph ['''']) (\<lambda>x acc. (True, ref_Pos x # acc)) []
      = Some (snd (yield_all (\<lambda>x acc. (True, ref_Pos x # acc)) (dir_list Both (\<lambda>out. side_refs small_graph out (Match small_graph ['''']) 0)) []))
    \<and> AppendNeighborsMatch list_roaring small_graph [9] 0 Both (Match small_graph [''''])
      = Some ([9] @ sorted_list_of_set (set (dir_list Both (\<lambda>out. side_nbrs small_graph out (Match small_graph ['''']) 0))))"
  by (rule traversal_correct [OF small_graph_ok Match_ok])

end
