(* ===== verification/HopBalls.thy ===== *)
theory HopBalls
  imports GoPrelude
begin

text \<open>
  Breadth-first search in the abstract: the balls of nodes within a number of hops, the queue discipline of a FIFO search with
  an optional depth bound, and the level-by-level discipline. The search theories instantiate the successor lists with the
  traversals of a snapshot.
\<close>

section \<open>Balls\<close>

primrec hop_ball :: "('a \<Rightarrow> 'a list) \<Rightarrow> 'a set \<Rightarrow> nat \<Rightarrow> 'a set" where
  "hop_ball succ S 0 = S"
| "hop_ball succ S (Suc k) = hop_ball succ S k \<union> (\<Union>x \<in> hop_ball succ S k. set (succ x))"

definition hop_rel :: "('a \<Rightarrow> 'a list) \<Rightarrow> ('a \<times> 'a) set" where
  "hop_rel succ = {(x, y). y \<in> set (succ x)}"

lemma hop_ball_mono: "j \<le> k \<Longrightarrow> hop_ball succ S j \<subseteq> hop_ball succ S k"
  by (rule lift_Suc_mono_le [where f = "hop_ball succ S"]) auto

lemma walk_in_ball: "(s, x) \<in> hop_rel succ ^^ j \<Longrightarrow> s \<in> S \<Longrightarrow> x \<in> hop_ball succ S j"
proof (induction j arbitrary: x)
  case (Suc j)
  then obtain y where "(s, y) \<in> hop_rel succ ^^ j" "(y, x) \<in> hop_rel succ" by (auto elim: relpow_Suc_E)
  then show ?case using Suc.IH [of y] Suc.prems(2) by (auto simp: hop_rel_def)
qed simp

lemma ball_has_walk: "x \<in> hop_ball succ S k \<Longrightarrow> \<exists>s \<in> S. \<exists>j \<le> k. (s, x) \<in> hop_rel succ ^^ j"
proof (induction k arbitrary: x)
  case (Suc k)
  show ?case
  proof (cases "x \<in> hop_ball succ S k")
    case True
    then show ?thesis using Suc.IH [of x] le_SucI by blast
  next
    case False
    then obtain y where y: "y \<in> hop_ball succ S k" "(y, x) \<in> hop_rel succ" using Suc.prems by (auto simp: hop_rel_def)
    then obtain s j where "s \<in> S" "j \<le> k" "(s, y) \<in> hop_rel succ ^^ j" using Suc.IH by blast
    then show ?thesis using relpow_Suc_I [OF _ y(2), of s j] by (intro bexI [of _ s] exI [of _ "Suc j"]) auto
  qed
qed auto

lemma hop_ball_walk: "x \<in> hop_ball succ S k \<longleftrightarrow> (\<exists>s \<in> S. \<exists>j \<le> k. (s, x) \<in> hop_rel succ ^^ j)"
proof
  assume "\<exists>s \<in> S. \<exists>j \<le> k. (s, x) \<in> hop_rel succ ^^ j"
  then obtain s j where "s \<in> S" "j \<le> k" "(s, x) \<in> hop_rel succ ^^ j" by blast
  then show "x \<in> hop_ball succ S k" using walk_in_ball [of s x j succ S] hop_ball_mono [of j k succ S] by auto
qed (rule ball_has_walk)

lemma hop_ball_stable:
  assumes "hop_ball succ S (Suc d) = hop_ball succ S d" "d \<le> k"
  shows "hop_ball succ S k = hop_ball succ S d"
  using assms(2)
proof (induction k rule: dec_induct)
  case (step k)
  then show ?case using assms(1) by (simp only: hop_ball.simps)
qed simp

definition below :: "nat option \<Rightarrow> nat \<Rightarrow> bool" where
  "below lim d = (case lim of None \<Rightarrow> True | Some D \<Rightarrow> d < D)"

definition hops_within :: "('a \<Rightarrow> 'a list) \<Rightarrow> 'a set \<Rightarrow> nat option \<Rightarrow> 'a set" where
  "hops_within succ S lim = (case lim of None \<Rightarrow> (\<Union>k. hop_ball succ S k) | Some D \<Rightarrow> hop_ball succ S D)"

text \<open>The nodes whose successors a search with bound \<open>lim\<close> looks at.\<close>

definition hops_inner :: "('a \<Rightarrow> 'a list) \<Rightarrow> 'a set \<Rightarrow> nat option \<Rightarrow> 'a set" where
  "hops_inner succ S lim = (case lim of None \<Rightarrow> (\<Union>k. hop_ball succ S k) | Some D \<Rightarrow> if D = 0 then {} else hop_ball succ S (D - 1))"

lemma hops_stable:
  assumes "hop_ball succ S (Suc d) = hop_ball succ S d" "below lim d"
  shows "hops_within succ S lim = hop_ball succ S d" "hops_inner succ S lim = hop_ball succ S d"
proof -
  have s: "d \<le> k \<Longrightarrow> hop_ball succ S k = hop_ball succ S d" for k using hop_ball_stable [OF assms(1)] .
  have "hop_ball succ S k \<subseteq> hop_ball succ S d" for k using s [of k] hop_ball_mono [of k d succ S] by (cases "d \<le> k") auto
  then have u: "(\<Union>k. hop_ball succ S k) = hop_ball succ S d" by blast
  show "hops_within succ S lim = hop_ball succ S d"
  proof (cases lim)
    case (Some D)
    then show ?thesis using s [of D] assms(2) by (simp add: hops_within_def below_def)
  qed (simp add: u hops_within_def)
  show "hops_inner succ S lim = hop_ball succ S d"
  proof (cases lim)
    case (Some D)
    then have "D \<noteq> 0" "d \<le> D - 1" using assms(2) by (auto simp: below_def)
    then show ?thesis using s [of "D - 1"] Some by (simp add: hops_inner_def)
  qed (simp add: u hops_inner_def)
qed

section \<open>Newly seen successors\<close>

fun fresh :: "'a set \<Rightarrow> 'a list \<Rightarrow> 'a list" where
  "fresh V [] = []"
| "fresh V (x # xs) = (if x \<in> V then fresh V xs else x # fresh (insert x V) xs)"

lemma fresh_set [simp]: "set (fresh V xs) = set xs - V"
  by (induction V xs rule: fresh.induct) auto

lemma fresh_distinct [simp]: "distinct (fresh V xs)"
  by (induction V xs rule: fresh.induct) auto

lemma fresh_append: "fresh V (xs @ ys) = fresh V xs @ fresh (V \<union> set xs) ys"
  by (induction V xs rule: fresh.induct) (auto simp: insert_absorb)

lemma fresh_card:
  fixes V :: "'a::finite set"
  shows "card (- (V \<union> set xs)) + length (fresh V xs) = card (- V)"
proof -
  have "card (set xs - V) = length (fresh V xs)" using distinct_card [OF fresh_distinct, of V xs] by simp
  moreover have "- V = - (V \<union> set xs) \<union> (set xs - V)" "- (V \<union> set xs) \<inter> (set xs - V) = {}" by auto
  ultimately show ?thesis by (metis card_Un_disjoint finite)
qed

section \<open>The FIFO queue\<close>

text \<open>
  The queue holds the rest \<open>xs\<close> of level \<open>d\<close>, then the part \<open>ys\<close> of level \<open>d + 1\<close> found so far; \<open>X\<close> is the set of nodes
  whose successors have been looked at.
\<close>

definition level_inv :: "('a \<Rightarrow> 'a list) \<Rightarrow> 'a set \<Rightarrow> nat option \<Rightarrow> nat \<Rightarrow> 'a list \<Rightarrow> 'a list \<Rightarrow> 'a set \<Rightarrow> 'a set \<Rightarrow> bool" where
  "level_inv succ S lim d xs ys V X \<longleftrightarrow>
     V = hop_ball succ S d \<union> set ys \<and> set xs \<subseteq> hop_ball succ S d \<and> distinct xs
     \<and> (below lim d \<longrightarrow> (\<forall>x \<in> hop_ball succ S d - set xs. set (succ x) \<subseteq> V) \<and> X = hop_ball succ S d - set xs)
     \<and> (\<not> below lim d \<longrightarrow> X = hops_inner succ S lim)
     \<and> set ys \<subseteq> (\<Union>x \<in> hop_ball succ S d. set (succ x)) - hop_ball succ S d \<and> distinct ys \<and> (ys \<noteq> [] \<longrightarrow> below lim d)
     \<and> (xs \<noteq> [] \<or> ys \<noteq> [] \<longrightarrow> d < card (hop_ball succ S d)) \<and> (\<forall>D. lim = Some D \<longrightarrow> d \<le> D)"

definition queue_inv :: "('a \<Rightarrow> 'a list) \<Rightarrow> 'a set \<Rightarrow> nat option \<Rightarrow> 'a set \<Rightarrow> 'a set \<Rightarrow> ('a \<times> nat) list \<Rightarrow> bool" where
  "queue_inv succ S lim V X queue \<longleftrightarrow> (\<exists>d xs ys. queue = map (\<lambda>x. (x, d)) xs @ map (\<lambda>x. (x, Suc d)) ys \<and> level_inv succ S lim d xs ys V X)"

lemma level_inv_next:
  fixes S :: "'a::finite set"
  assumes i: "level_inv succ S lim d [] ys V X" and b: "below lim d"
  shows "level_inv succ S lim (Suc d) ys [] V X"
proof -
  let ?B = "hop_ball succ S"
  have a: "V = ?B d \<union> set ys" "\<forall>x \<in> ?B d. set (succ x) \<subseteq> V" "X = ?B d" "set ys \<subseteq> (\<Union>x \<in> ?B d. set (succ x)) - ?B d" "distinct ys"
    "ys \<noteq> [] \<longrightarrow> d < card (?B d)"
    using i b by (auto simp: level_inv_def)
  have V: "?B (Suc d) = V" using a(1,2,4) by auto
  have "Suc d < card (?B (Suc d))" if "ys \<noteq> []"
  proof -
    have "?B d \<subset> ?B (Suc d)" using V a(1,4) that by (cases ys) auto
    then show ?thesis using psubset_card_mono [of "?B (Suc d)" "?B d"] a(6) that by simp
  qed
  moreover have X: "X = ?B (Suc d) - set ys" using V a(1,3,4) by auto
  moreover have "X = hops_inner succ S lim" if "\<not> below lim (Suc d)"
  proof (cases lim)
    case (Some D)
    then have "D - 1 = d" "D \<noteq> 0" using that b by (auto simp: below_def)
    then show ?thesis using Some a(3) by (simp add: hops_inner_def)
  qed (use that in \<open>simp add: below_def\<close>)
  moreover have "set (succ x) \<subseteq> V" if "x \<in> ?B (Suc d) - set ys" for x using that a(2,3) X by auto
  ultimately show ?thesis using a V b by (auto simp: level_inv_def below_def simp del: hop_ball.simps)
qed

lemma level_inv_step:
  assumes i: "level_inv succ S lim d (x # xs) ys V X" and b: "below lim d"
  shows "level_inv succ S lim d xs (ys @ fresh V (succ x)) (V \<union> set (succ x)) (insert x X)"
proof -
  have "x \<in> hop_ball succ S d" "x \<notin> set xs" using i by (auto simp: level_inv_def)
  then show ?thesis using i b unfolding level_inv_def by auto
qed

lemma queue_inv_pop:
  fixes S :: "'a::finite set"
  assumes "queue_inv succ S lim V X ((x, d) # q)"
  shows "\<exists>xs ys. q = map (\<lambda>x. (x, d)) xs @ map (\<lambda>x. (x, Suc d)) ys \<and> level_inv succ S lim d (x # xs) ys V X"
proof -
  obtain e xs ys where q: "(x, d) # q = map (\<lambda>x. (x, e)) xs @ map (\<lambda>x. (x, Suc e)) ys" and i: "level_inv succ S lim e xs ys V X"
    using assms by (auto simp: queue_inv_def)
  show ?thesis
  proof (cases xs)
    case Nil
    then obtain ys' where ys: "ys = x # ys'" "d = Suc e" "q = map (\<lambda>x. (x, Suc e)) ys'" using q by (cases ys) auto
    have "below lim e" using i ys(1) by (simp add: level_inv_def)
    then have "level_inv succ S lim (Suc e) ys [] V X" using i Nil level_inv_next by blast
    then show ?thesis using ys by auto
  next
    case (Cons y xs')
    then show ?thesis using q i by auto
  qed
qed

lemma queue_inv_step:
  fixes S :: "'a::finite set"
  assumes "queue_inv succ S lim V X ((x, d) # q)" "below lim d"
  shows "queue_inv succ S lim (V \<union> set (succ x)) (insert x X) (q @ map (\<lambda>y. (y, Suc d)) (fresh V (succ x)))"
proof -
  obtain xs ys where q: "q = map (\<lambda>x. (x, d)) xs @ map (\<lambda>x. (x, Suc d)) ys" and i: "level_inv succ S lim d (x # xs) ys V X"
    using queue_inv_pop [OF assms(1)] by blast
  note level_inv_step [OF i assms(2)]
  then show ?thesis unfolding queue_inv_def q by (intro exI [of _ d] exI [of _ xs] exI [of _ "ys @ fresh V (succ x)"]) simp
qed

lemma queue_inv_skip:
  fixes S :: "'a::finite set"
  assumes "queue_inv succ S lim V X ((x, d) # q)" "\<not> below lim d"
  shows "queue_inv succ S lim V X q"
proof -
  obtain xs ys where q: "q = map (\<lambda>x. (x, d)) xs @ map (\<lambda>x. (x, Suc d)) ys" and i: "level_inv succ S lim d (x # xs) ys V X"
    using queue_inv_pop [OF assms(1)] by blast
  have "level_inv succ S lim d xs ys V X" using i assms(2) unfolding level_inv_def by auto
  then show ?thesis unfolding queue_inv_def q by blast
qed

lemma queue_inv_done:
  fixes S :: "'a::finite set"
  assumes "queue_inv succ S lim V X []"
  shows "V = hops_within succ S lim" "X = hops_inner succ S lim"
proof -
  obtain d where i: "level_inv succ S lim d [] [] V X" using assms by (auto simp: queue_inv_def)
  have "V = hops_within succ S lim \<and> X = hops_inner succ S lim"
  proof (cases "below lim d")
    case True
    then have st: "hop_ball succ S (Suc d) = hop_ball succ S d" using i by (auto simp: level_inv_def)
    show ?thesis using i True by (simp add: hops_stable [OF st True] level_inv_def)
  next
    case False
    then have "lim = Some d" using i by (cases lim) (auto simp: level_inv_def below_def)
    then show ?thesis using i False by (simp add: level_inv_def hops_within_def)
  qed
  then show "V = hops_within succ S lim" "X = hops_inner succ S lim" by auto
qed

lemma queue_inv_seen:
  fixes S :: "'a::finite set"
  assumes "queue_inv succ S lim V X q"
  shows "V \<subseteq> hops_within succ S lim" "(x, d) \<in> set q \<Longrightarrow> d < CARD('a)"
proof -
  obtain e xs ys where q: "q = map (\<lambda>x. (x, e)) xs @ map (\<lambda>x. (x, Suc e)) ys" and i: "level_inv succ S lim e xs ys V X" using assms by (auto simp: queue_inv_def)
  let ?B = "hop_ball succ S"
  have le: "?B e \<subseteq> hops_within succ S lim" "below lim e \<Longrightarrow> ?B (Suc e) \<subseteq> hops_within succ S lim"
    using i hop_ball_mono [of e _ succ S] hop_ball_mono [of "Suc e" _ succ S] by (auto simp: hops_within_def level_inv_def below_def split: option.splits simp del: hop_ball.simps)
  have "set ys \<subseteq> ?B (Suc e)" using i by (auto simp: level_inv_def)
  then show "V \<subseteq> hops_within succ S lim" using i le by (cases "ys = []") (auto simp: level_inv_def simp del: hop_ball.simps)
  assume x: "(x, d) \<in> set q"
  have c: "card A \<le> CARD('a)" for A :: "'a set" by (simp add: card_mono)
  show "d < CARD('a)"
  proof (cases "d = e")
    case True
    have "xs \<noteq> [] \<or> ys \<noteq> []" using x q by auto
    then have "e < card (?B e)" using i by (simp add: level_inv_def)
    then show ?thesis using c [of "?B e"] True by simp
  next
    case False
    then have d: "d = Suc e" "ys \<noteq> []" using x q by auto
    have "?B e \<subset> ?B (Suc e)" using i d(2) by (cases ys) (auto simp: level_inv_def)
    then have "card (?B e) < card (?B (Suc e))" by (intro psubset_card_mono) auto
    then show ?thesis using i d c [of "?B (Suc e)"] by (simp add: level_inv_def)
  qed
qed

lemma queue_inv_init:
  fixes S :: "'a::finite set"
  assumes "distinct xs" "set xs = S"
  shows "queue_inv succ S lim S {} (map (\<lambda>x. (x, 0)) xs)"
proof -
  have "xs \<noteq> [] \<Longrightarrow> 0 < card S" using assms(2) by (auto simp: card_gt_0_iff)
  then have "level_inv succ S lim 0 xs [] S {}" using assms by (auto simp: level_inv_def below_def hops_inner_def split: option.splits)
  then show ?thesis unfolding queue_inv_def by (intro exI [of _ 0] exI [of _ xs] exI [of _ "[]"]) simp
qed

text \<open>Each iteration of the queue loop shrinks this.\<close>

definition queue_size :: "'a set \<Rightarrow> 'b list \<Rightarrow> nat" where
  "queue_size V q = 2 * card (- V) + length q"

lemma queue_size_step:
  fixes V :: "'a::finite set"
  shows "queue_size (V \<union> set xs) (q @ map f (fresh V xs)) < queue_size V (p # q)"
  using fresh_card [of V xs] by (simp add: queue_size_def)

end
