(* ===== verification/Search.thy ===== *)
theory Search
  imports Traverse HopBalls
begin

text \<open>
  Unweighted search over a snapshot (\<open>search_bfs.go\<close>): reachability, breadth-first search with filters, the bidirectional form, hop
  distances and bounded neighbourhoods. A filter is a pure function, \<^term>\<open>None\<close> for nil. The distance kernels get the
  scratch they took from the pool as an argument and hand it back.
\<close>

section \<open>Reachability\<close>

definition NoMaxDepth :: int where
  "NoMaxDepth = -1"

type_synonym 'bm NodeFilter = "NodeID \<Rightarrow> 'bm Snapshot \<Rightarrow> bool"
type_synonym 'bm RelFilter = "NodeID \<Rightarrow> NodeID \<Rightarrow> RelType \<Rightarrow> u32 \<Rightarrow> 'bm Snapshot \<Rightarrow> bool"

definition depth_done :: "int \<Rightarrow> u32 \<Rightarrow> bool" where
  "depth_done maxDepth depth = (maxDepth \<ge> 0 \<and> int (unat depth) \<ge> maxDepth)"

text \<open>The loop body over neighbours; the flag is the early \<open>return true\<close>.\<close>

definition reach_visit :: "'bm roaring \<Rightarrow> NodeID \<Rightarrow> u32 \<Rightarrow> NodeID \<Rightarrow> 'bm Set \<times> (NodeID \<times> u32) list \<times> bool \<Rightarrow> bool \<times> 'bm Set \<times> (NodeID \<times> u32) list \<times> bool" where
  "reach_visit R to depth neighbor = (\<lambda>(visited, queue, found).
     if neighbor = to then (False, visited, queue, True)
     else case Set_Insert R visited neighbor of (visited, isNew) \<Rightarrow>
       (True, visited, if isNew then queue @ [(neighbor, depth + 1)] else queue, found))"

partial_function (option) reach_loop ::
  "'bm roaring \<Rightarrow> 'bm Snapshot \<Rightarrow> NodeID \<Rightarrow> Direction \<Rightarrow> RelMatch \<Rightarrow> int \<Rightarrow> 'bm Set \<Rightarrow> (NodeID \<times> u32) list \<Rightarrow> bool option" where
  "reach_loop R g to dir m maxDepth visited queue =
     (case queue of
        [] \<Rightarrow> Some False
      | (current, depth) # queue \<Rightarrow>
          if depth_done maxDepth depth then reach_loop R g to dir m maxDepth visited queue
          else case neighborsYield R g current dir m (reach_visit R to depth) (visited, queue, False) of
            None \<Rightarrow> None
          | Some (visited, queue, found) \<Rightarrow> if found then Some True else reach_loop R g to dir m maxDepth visited queue)"

definition CanReach :: "'bm roaring \<Rightarrow> 'bm Snapshot \<Rightarrow> NodeID \<Rightarrow> NodeID \<Rightarrow> Direction \<Rightarrow> RelMatch \<Rightarrow> int \<Rightarrow> bool option" where
  "CanReach R g from to dir m maxDepth =
     (if from = to then Some True else reach_loop R g to dir m maxDepth (Set_Of R [from]) [(from, 0)])"

section \<open>Breadth-first search with filters\<close>

type_synonym 'bm bfs_state = "'bm Set \<times> 'bm Set \<times> (NodeID \<times> u32) list"

definition node_passes :: "'bm Snapshot \<Rightarrow> 'bm NodeFilter option \<Rightarrow> NodeID \<Rightarrow> bool" where
  "node_passes g nodeFilter node = (case nodeFilter of None \<Rightarrow> True | Some f \<Rightarrow> f node g)"

definition bfs_enqueue :: "'bm roaring \<Rightarrow> NodeID \<Rightarrow> u32 \<Rightarrow> 'bm Set \<Rightarrow> (NodeID \<times> u32) list \<Rightarrow> bool \<times> 'bm Set \<times> (NodeID \<times> u32) list" where
  "bfs_enqueue R node depth nodes queue =
     (case Set_Insert R nodes node of (nodes, isNew) \<Rightarrow> (isNew, nodes, if isNew then queue @ [(node, depth)] else queue))"

text \<open>The body of the loop over one node's relationships.\<close>

definition bfs_rel ::
  "'bm roaring \<Rightarrow> 'bm Snapshot \<Rightarrow> NodeID \<Rightarrow> u32 \<Rightarrow> 'bm NodeFilter option \<Rightarrow> 'bm RelFilter option \<Rightarrow> bool \<Rightarrow> 'bm Set option
   \<Rightarrow> RelRef \<Rightarrow> 'bm bfs_state \<Rightarrow> bool \<times> 'bm bfs_state" where
  "bfs_rel R g current depth nodeFilter relFilter backward otherVisited rel = (\<lambda>(nodes, rels, queue).
     let nb = ref_Neighbor rel;
         (from, to) = (if backward then (nb, current) else (current, nb))
     in (True,
       if \<not> (case relFilter of None \<Rightarrow> True | Some f \<Rightarrow> f from to (ref_Type rel) (ref_Pos rel) g) then (nodes, rels, queue)
       else if \<not> node_passes g nodeFilter nb then (nodes, rels, queue)
       else case otherVisited of
         Some other \<Rightarrow>
           if Set_Contains R other nb
           then case bfs_enqueue R nb (depth + 1) nodes queue of (_, nodes', queue') \<Rightarrow> (nodes', fst (Set_Insert R rels (ref_Pos rel)), queue')
           else case bfs_enqueue R nb (depth + 1) nodes queue of (isNew, nodes', queue') \<Rightarrow>
             (nodes', if isNew then fst (Set_Insert R rels (ref_Pos rel)) else rels, queue')
       | None \<Rightarrow> case bfs_enqueue R nb (depth + 1) nodes queue of (_, nodes', queue') \<Rightarrow> (nodes', fst (Set_Insert R rels (ref_Pos rel)), queue')))"

definition bfsStep ::
  "'bm roaring \<Rightarrow> 'bm Snapshot \<Rightarrow> NodeID \<Rightarrow> u32 \<Rightarrow> Direction \<Rightarrow> RelMatch \<Rightarrow> 'bm NodeFilter option \<Rightarrow> 'bm RelFilter option \<Rightarrow> bool
   \<Rightarrow> 'bm Set option \<Rightarrow> 'bm bfs_state \<Rightarrow> 'bm bfs_state option" where
  "bfsStep R g current depth dir m nodeFilter relFilter backward otherVisited st =
     relsYield R g current dir m (bfs_rel R g current depth nodeFilter relFilter backward otherVisited) st"

partial_function (option) bfs_loop ::
  "'bm roaring \<Rightarrow> 'bm Snapshot \<Rightarrow> Direction \<Rightarrow> RelMatch \<Rightarrow> 'bm NodeFilter option \<Rightarrow> 'bm RelFilter option \<Rightarrow> int
   \<Rightarrow> 'bm Set \<Rightarrow> 'bm Set \<Rightarrow> (NodeID \<times> u32) list \<Rightarrow> ('bm Set \<times> 'bm Set) option" where
  "bfs_loop R g dir m nodeFilter relFilter maxDepth nodes rels queue =
     (case queue of
        [] \<Rightarrow> Some (nodes, rels)
      | (current, depth) # queue \<Rightarrow>
          if depth_done maxDepth depth then bfs_loop R g dir m nodeFilter relFilter maxDepth nodes rels queue
          else case bfsStep R g current depth dir m nodeFilter relFilter False None (nodes, rels, queue) of
            None \<Rightarrow> None
          | Some (nodes, rels, queue) \<Rightarrow> bfs_loop R g dir m nodeFilter relFilter maxDepth nodes rels queue)"

definition bfs_seed :: "'bm roaring \<Rightarrow> 'bm Snapshot \<Rightarrow> 'bm NodeFilter option \<Rightarrow> NodeID \<Rightarrow> 'bm Set \<times> (NodeID \<times> u32) list \<Rightarrow> bool \<times> 'bm Set \<times> (NodeID \<times> u32) list" where
  "bfs_seed R g nodeFilter node = (\<lambda>(nodes, queue).
     (True, if node_passes g nodeFilter node then snd (bfs_enqueue R node 0 nodes queue) else (nodes, queue)))"

definition BFS ::
  "'bm roaring \<Rightarrow> 'bm Snapshot \<Rightarrow> 'bm Set \<Rightarrow> Direction \<Rightarrow> RelMatch \<Rightarrow> 'bm NodeFilter option \<Rightarrow> 'bm RelFilter option \<Rightarrow> int \<Rightarrow> ('bm Set \<times> 'bm Set) option" where
  "BFS R g start dir m nodeFilter relFilter maxDepth = do {
     (nodes, queue) \<leftarrow> iterYield R start (bfs_seed R g nodeFilter) (Set_New R, []);
     bfs_loop R g dir m nodeFilter relFilter maxDepth nodes (Set_New R) queue
   }"

section \<open>Bidirectional search\<close>

definition bidi_seed :: "'bm roaring \<Rightarrow> 'bm Snapshot \<Rightarrow> 'bm NodeFilter option \<Rightarrow> NodeID \<Rightarrow> 'bm Set \<times> (NodeID \<times> u32) list \<Rightarrow> bool \<times> 'bm Set \<times> (NodeID \<times> u32) list" where
  "bidi_seed R g nodeFilter node = (\<lambda>(nodes, queue).
     (True, if node_passes g nodeFilter node then (fst (Set_Insert R nodes node), queue @ [(node, 0)]) else (nodes, queue)))"

text \<open>One level: as many nodes as the queue held at its start.\<close>

primrec bidi_expand ::
  "nat \<Rightarrow> 'bm roaring \<Rightarrow> 'bm Snapshot \<Rightarrow> RelMatch \<Rightarrow> 'bm NodeFilter option \<Rightarrow> 'bm RelFilter option \<Rightarrow> int \<Rightarrow> Direction \<Rightarrow> bool \<Rightarrow> 'bm Set
   \<Rightarrow> 'bm bfs_state \<Rightarrow> 'bm bfs_state option" where
  "bidi_expand 0 R g m nodeFilter relFilter maxDepth d backward other st = Some st"
| "bidi_expand (Suc n) R g m nodeFilter relFilter maxDepth d backward other st =
     (case st of (nodes, rels, queue) \<Rightarrow>
      case queue of
        [] \<Rightarrow> None
      | (current, depth) # queue \<Rightarrow> do {
          st \<leftarrow> (if depth_done maxDepth depth then Some (nodes, rels, queue)
                 else bfsStep R g current depth d m nodeFilter relFilter backward (Some other) (nodes, rels, queue));
          bidi_expand n R g m nodeFilter relFilter maxDepth d backward other st
        })"

partial_function (option) bidi_loop ::
  "'bm roaring \<Rightarrow> 'bm Snapshot \<Rightarrow> Direction \<Rightarrow> RelMatch \<Rightarrow> 'bm NodeFilter option \<Rightarrow> 'bm RelFilter option \<Rightarrow> int
   \<Rightarrow> 'bm bfs_state \<Rightarrow> 'bm bfs_state \<Rightarrow> ('bm bfs_state \<times> 'bm bfs_state) option" where
  "bidi_loop R g dir m nodeFilter relFilter maxDepth f b =
     (if snd (snd f) = [] \<and> snd (snd b) = [] then Some (f, b)
      else do {
        f \<leftarrow> bidi_expand (length (snd (snd f))) R g m nodeFilter relFilter maxDepth dir False (fst b) f;
        b \<leftarrow> bidi_expand (length (snd (snd b))) R g m nodeFilter relFilter maxDepth (Reverse dir) True (fst f) b;
        bidi_loop R g dir m nodeFilter relFilter maxDepth f b
      })"

definition BidirectionalBFS ::
  "'bm roaring \<Rightarrow> 'bm Snapshot \<Rightarrow> 'bm Set \<Rightarrow> 'bm Set \<Rightarrow> Direction \<Rightarrow> RelMatch \<Rightarrow> 'bm NodeFilter option \<Rightarrow> 'bm RelFilter option \<Rightarrow> int
   \<Rightarrow> ('bm Set \<times> 'bm Set) option" where
  "BidirectionalBFS R g source target dir m nodeFilter relFilter maxDepth = do {
     (fNodes, fQueue) \<leftarrow> iterYield R source (bidi_seed R g nodeFilter) (Set_New R, []);
     (bNodes, bQueue) \<leftarrow> iterYield R target (bidi_seed R g nodeFilter) (Set_New R, []);
     let overlap = Set_And R fNodes bNodes;
     if \<not> Set_IsEmpty R overlap then Some (overlap, Set_New R)
     else do {
       ((fNodes, fRels, _), (bNodes, bRels, _)) \<leftarrow>
         bidi_loop R g dir m nodeFilter relFilter maxDepth (fNodes, Set_New R, fQueue) (bNodes, Set_New R, bQueue);
       let meeting = Set_And R fNodes bNodes;
       Some (if Set_IsEmpty R meeting then (Set_New R, Set_New R) else (meeting, Set_Or R fRels bRels))
     }
   }"

section \<open>Hop distances\<close>

record searchScratch =
  sc_gen :: "u32 list"
  sc_dist :: "u32 list"
  sc_cur :: u32

definition takeScratch :: "nat \<Rightarrow> searchScratch \<Rightarrow> searchScratch" where
  "takeScratch n s =
     (let s = (if length (sc_gen s) < n then \<lparr>sc_gen = replicate n 0, sc_dist = replicate n 0, sc_cur = 0\<rparr> else s);
          s = s\<lparr>sc_cur := sc_cur s + 1\<rparr>
      in if sc_cur s = 0 then s\<lparr>sc_gen := replicate (length (sc_gen s)) 0, sc_cur := 1\<rparr> else s)"

text \<open>The innermost body; an index out of range makes the state \<^term>\<open>None\<close>.\<close>

definition dist_visit :: "u32 \<Rightarrow> NodeID \<Rightarrow> (searchScratch \<times> NodeID list \<times> NodeID list) option \<Rightarrow> bool \<times> (searchScratch \<times> NodeID list \<times> NodeID list) option" where
  "dist_visit depth neighbor st =
     (True, do {
        (s, next, touched) \<leftarrow> st;
        stamp \<leftarrow> slice_at (sc_gen s) (unat neighbor);
        if stamp \<noteq> sc_cur s then do {
          gen \<leftarrow> slice_set (sc_gen s) (unat neighbor) (sc_cur s);
          dist \<leftarrow> slice_set (sc_dist s) (unat neighbor) depth;
          Some (s\<lparr>sc_gen := gen, sc_dist := dist\<rparr>, next @ [neighbor], touched @ [neighbor])
        } else Some (s, next, touched)
      })"

definition dist_level ::
  "'bm roaring \<Rightarrow> 'bm Snapshot \<Rightarrow> Direction \<Rightarrow> RelMatch \<Rightarrow> u32 \<Rightarrow> NodeID list \<Rightarrow> searchScratch \<times> NodeID list \<times> NodeID list
   \<Rightarrow> (searchScratch \<times> NodeID list \<times> NodeID list) option" where
  "dist_level R g dir m depth frontier st =
     fold_opt (\<lambda>node st. Option.bind (neighborsYield R g node dir m (dist_visit depth) (Some st)) id) frontier st"

partial_function (option) dist_loop ::
  "'bm roaring \<Rightarrow> 'bm Snapshot \<Rightarrow> Direction \<Rightarrow> RelMatch \<Rightarrow> int \<Rightarrow> u32 \<Rightarrow> searchScratch \<Rightarrow> NodeID list \<Rightarrow> NodeID list
   \<Rightarrow> (searchScratch \<times> NodeID list) option" where
  "dist_loop R g dir m maxDepth depth s touched frontier =
     (if frontier = [] then Some (s, touched)
      else if depth_done maxDepth depth then Some (s, touched)
      else case dist_level R g dir m (depth + 1) frontier (s, [], touched) of
        None \<Rightarrow> None
      | Some (s, next, touched) \<Rightarrow> dist_loop R g dir m maxDepth (depth + 1) s touched next)"

definition BFSDistances ::
  "'bm roaring \<Rightarrow> 'bm Snapshot \<Rightarrow> searchScratch \<Rightarrow> NodeID \<Rightarrow> Direction \<Rightarrow> RelMatch \<Rightarrow> int \<Rightarrow> ((NodeID \<rightharpoonup> u32) \<times> searchScratch) option" where
  "BFSDistances R g pooled start dir m maxDepth =
     (let n = unat (CSRIDSpace g) in
      if unat start \<ge> n then Some (Map.empty, pooled)
      else
        let s = takeScratch n pooled in
        do {
          gen \<leftarrow> slice_set (sc_gen s) (unat start) (sc_cur s);
          dist \<leftarrow> slice_set (sc_dist s) (unat start) 0;
          (s, touched) \<leftarrow> dist_loop R g dir m maxDepth 0 (s\<lparr>sc_gen := gen, sc_dist := dist\<rparr>) [start] [start];
          out \<leftarrow> fold_opt (\<lambda>node out. map_option (\<lambda>d. out(node \<mapsto> d)) (slice_at (sc_dist s) (unat node))) touched Map.empty;
          Some (out, s)
        })"

section \<open>Neighbourhoods\<close>

definition hood_visit ::
  "'bm roaring \<Rightarrow> u32 \<Rightarrow> u32 \<Rightarrow> NodeID \<Rightarrow> (searchScratch \<times> NodeID list \<times> 'bm Set) option \<Rightarrow> bool \<times> (searchScratch \<times> NodeID list \<times> 'bm Set) option" where
  "hood_visit R loHops depth neighbor st =
     (True, do {
        (s, next, result) \<leftarrow> st;
        stamp \<leftarrow> slice_at (sc_gen s) (unat neighbor);
        if stamp \<noteq> sc_cur s then do {
          gen \<leftarrow> slice_set (sc_gen s) (unat neighbor) (sc_cur s);
          Some (s\<lparr>sc_gen := gen\<rparr>, next @ [neighbor], if depth \<ge> loHops then fst (Set_Insert R result neighbor) else result)
        } else Some (s, next, result)
      })"

definition hood_level ::
  "'bm roaring \<Rightarrow> 'bm Snapshot \<Rightarrow> Direction \<Rightarrow> RelMatch \<Rightarrow> u32 \<Rightarrow> u32 \<Rightarrow> NodeID list \<Rightarrow> searchScratch \<times> NodeID list \<times> 'bm Set
   \<Rightarrow> (searchScratch \<times> NodeID list \<times> 'bm Set) option" where
  "hood_level R g dir m loHops depth frontier st =
     fold_opt (\<lambda>node st. Option.bind (neighborsYield R g node dir m (hood_visit R loHops depth) (Some st)) id) frontier st"

partial_function (option) hood_loop ::
  "'bm roaring \<Rightarrow> 'bm Snapshot \<Rightarrow> Direction \<Rightarrow> RelMatch \<Rightarrow> u32 \<Rightarrow> u32 \<Rightarrow> u32 \<Rightarrow> searchScratch \<Rightarrow> 'bm Set \<Rightarrow> NodeID list
   \<Rightarrow> (searchScratch \<times> 'bm Set) option" where
  "hood_loop R g dir m loHops hiHops depth s result frontier =
     (if \<not> (depth \<le> hiHops \<and> frontier \<noteq> []) then Some (s, result)
      else case hood_level R g dir m loHops depth frontier (s, [], result) of
        None \<Rightarrow> None
      | Some (s, next, result) \<Rightarrow> hood_loop R g dir m loHops hiHops (depth + 1) s result next)"

definition Neighborhood ::
  "'bm roaring \<Rightarrow> 'bm Snapshot \<Rightarrow> searchScratch \<Rightarrow> NodeID \<Rightarrow> Direction \<Rightarrow> RelMatch \<Rightarrow> u32 \<Rightarrow> u32 \<Rightarrow> ('bm Set \<times> searchScratch) option" where
  "Neighborhood R g pooled seed dir m loHops hiHops =
     (let result = Set_New R; n = unat (CSRIDSpace g) in
      if loHops > hiHops \<or> unat seed \<ge> n then Some (result, pooled)
      else
        let s = takeScratch n pooled in
        do {
          gen \<leftarrow> slice_set (sc_gen s) (unat seed) (sc_cur s);
          (s, result) \<leftarrow> hood_loop R g dir m loHops hiHops 1 (s\<lparr>sc_gen := gen\<rparr>)
             (if loHops = 0 then fst (Set_Insert R result seed) else result) [seed];
          Some (result, s)
        })"
end
