(* ===== verification/Builder.thy ===== *)
theory Builder
  imports Snapshot
begin

text \<open>
  The mutable staging area (\<open>builder.go\<close>), its removals (\<open>removal.go\<close>), the dirty marks of a thawed
  builder (\<open>cow.go\<close>) and the reads before finalization (\<open>builder_read.go\<close>).

  An operation takes the builder and returns its result, an error of \<open>error\<close> or a value, with the
  builder after it; the outer option is a panic.
\<close>

section \<open>State\<close>

datatype error = ErrCapacity | ErrRelNotFound | ErrBadValue

type_synonym relKey = "NodeID \<times> NodeID \<times> RelType"

record 'bm Builder =
  degOut :: "u32 list"
  degIn :: "u32 list"
  b_rels :: "rel list"
  nodeLabels :: "Label list list"
  b_relTypes :: "RelType list"
  b_version :: "string option"
  nodeColI64 :: "i64 staged"
  nodeColF64 :: "f64 staged"
  nodeColBool :: "bool staged"
  nodeColStr :: "u32 staged"
  relColI64 :: "i64 staged"
  relColF64 :: "f64 staged"
  relColBool :: "bool staged"
  relColStr :: "u32 staged"
  interner :: Interner
  nextNodeID :: NodeID
  knownNodes :: 'bm
  relIndex :: "(relKey \<Rightarrow> nat option) option"
  removedRels :: "'bm option"
  removedNodes :: "(NodeID \<times> nat) list"
  b_src :: "'bm Snapshot option"
  srcRelToOutCSR :: "u32 list"
  dirtyNodeCols :: "PropertyKey set"
  dirtyRelCols :: "PropertyKey set"
  dirtyLabels :: "Label set"
  relsDirty :: bool

type_synonym ('a, 'bm) bres = "((error + 'a) \<times> 'bm Builder) option"

text \<open>\<open>if err != nil { return err }\<close>.\<close>

definition bbind :: "('a, 'bm) bres \<Rightarrow> ('a \<Rightarrow> 'bm Builder \<Rightarrow> ('b, 'bm) bres) \<Rightarrow> ('b, 'bm) bres" where
  "bbind r f = (case r of None \<Rightarrow> None | Some (Inl e, b) \<Rightarrow> Some (Inl e, b) | Some (Inr x, b) \<Rightarrow> f x b)"

definition defaultCapacity :: nat where
  "defaultCapacity = 2 ^ 20"

definition NewBuilder :: "'bm roaring \<Rightarrow> int \<Rightarrow> int \<Rightarrow> 'bm Builder" where
  "NewBuilder R capNodes capRels =
     (let n = (if capNodes \<le> 0 then defaultCapacity else nat capNodes) in
      \<lparr>degOut = replicate n 0, degIn = replicate n 0, b_rels = [], nodeLabels = replicate n [], b_relTypes = [],
       b_version = None, nodeColI64 = [], nodeColF64 = [], nodeColBool = [], nodeColStr = [],
       relColI64 = [], relColF64 = [], relColBool = [], relColStr = [], interner = NewInterner, nextNodeID = 0,
       knownNodes = rb_New R, relIndex = None, removedRels = None, removedNodes = [], b_src = None,
       srcRelToOutCSR = [], dirtyNodeCols = {}, dirtyRelCols = {}, dirtyLabels = {}, relsDirty = False\<rparr>)"

definition SetVersion :: "string \<Rightarrow> 'bm Builder \<Rightarrow> 'bm Builder" where
  "SetVersion version b = b\<lparr>b_version := Some version\<rparr>"

section \<open>Dirty marks\<close>

definition markNodeColDirty :: "PropertyKey \<Rightarrow> 'bm Builder \<Rightarrow> 'bm Builder" where
  "markNodeColDirty key b = (if b_src b = None then b else b\<lparr>dirtyNodeCols := insert key (dirtyNodeCols b)\<rparr>)"

definition markRelColDirty :: "PropertyKey \<Rightarrow> 'bm Builder \<Rightarrow> 'bm Builder" where
  "markRelColDirty key b = (if b_src b = None then b else b\<lparr>dirtyRelCols := insert key (dirtyRelCols b)\<rparr>)"

definition markLabelDirty :: "Label \<Rightarrow> 'bm Builder \<Rightarrow> 'bm Builder" where
  "markLabelDirty label b = (if b_src b = None then b else b\<lparr>dirtyLabels := insert label (dirtyLabels b)\<rparr>)"

definition markRelsDirty :: "'bm Builder \<Rightarrow> 'bm Builder" where
  "markRelsDirty b = (if b_src b = None then b else b\<lparr>relsDirty := True, srcRelToOutCSR := []\<rparr>)"

section \<open>Nodes\<close>

text \<open>\<open>make\<close> and \<open>copy\<close>.\<close>

definition grow_to :: "nat \<Rightarrow> 'a \<Rightarrow> 'a list \<Rightarrow> 'a list" where
  "grow_to n z xs = take n xs @ replicate (n - length xs) z"

definition maxSize :: nat where
  "maxSize = 2 ^ 32 - 1"

definition ensureCapacity :: "NodeID \<Rightarrow> 'bm Builder \<Rightarrow> (unit, 'bm) bres" where
  "ensureCapacity i b =
     (if unat i < length (degOut b) then Some (Inr (), b)
      else
        let newSize = min ((unat i + 1) * 2) maxSize in
        if newSize \<le> unat i then Some (Inl ErrCapacity, b)
        else Some (Inr (), b\<lparr>degOut := grow_to newSize 0 (degOut b), degIn := grow_to newSize 0 (degIn b),
                             nodeLabels := grow_to newSize [] (nodeLabels b)\<rparr>))"

definition intern :: "string \<Rightarrow> 'bm Builder \<Rightarrow> u32 \<times> 'bm Builder" where
  "intern s b = (case GetOrIntern (interner b) s of (a, inr) \<Rightarrow> (a, b\<lparr>interner := inr\<rparr>))"

definition add_label :: "NodeID \<Rightarrow> string \<Rightarrow> 'bm Builder \<Rightarrow> 'bm Builder option" where
  "add_label i l b =
     (case intern l b of (label, b) \<Rightarrow> do {
        ls \<leftarrow> slice_at (nodeLabels b) (unat i);
        nl \<leftarrow> slice_set (nodeLabels b) (unat i) (ls @ [label]);
        Some (markLabelDirty label (b\<lparr>nodeLabels := nl\<rparr>))
      })"

definition known_add :: "'bm roaring \<Rightarrow> NodeID \<Rightarrow> 'bm Builder \<Rightarrow> 'bm Builder" where
  "known_add R i b = b\<lparr>knownNodes := rb_Add R (knownNodes b) i\<rparr>"

definition addNodeAt :: "'bm roaring \<Rightarrow> NodeID \<Rightarrow> string list \<Rightarrow> 'bm Builder \<Rightarrow> (NodeID, 'bm) bres" where
  "addNodeAt R i labels b =
     bbind (ensureCapacity i b) (\<lambda>_ b. do {
       b \<leftarrow> fold_opt (add_label i) labels b;
       Some (Inr i, known_add R i b)
     })"

definition AddNode :: "'bm roaring \<Rightarrow> string list \<Rightarrow> 'bm Builder \<Rightarrow> (NodeID, 'bm) bres" where
  "AddNode R labels b =
     (let i = nextNodeID b in
      if i = NOT 0 then Some (Inl ErrCapacity, b)
      else addNodeAt R i labels (b\<lparr>nextNodeID := i + 1\<rparr>))"

definition AddNodeWithID :: "'bm roaring \<Rightarrow> NodeID \<Rightarrow> string list \<Rightarrow> 'bm Builder \<Rightarrow> (NodeID, 'bm) bres" where
  "AddNodeWithID R i labels b =
     addNodeAt R i labels (if i \<ge> nextNodeID b then b\<lparr>nextNodeID := i + 1\<rparr> else b)"

section \<open>Relationships\<close>

definition rel_index_add :: "relKey \<Rightarrow> nat \<Rightarrow> (relKey \<Rightarrow> nat option) \<Rightarrow> (relKey \<Rightarrow> nat option)" where
  "rel_index_add key i m = (if m key = None then m(key \<mapsto> i) else m)"

definition inc_at :: "u32 list \<Rightarrow> NodeID \<Rightarrow> u32 list option" where
  "inc_at xs i = do { d \<leftarrow> slice_at xs (unat i); slice_set xs (unat i) (d + 1) }"

definition dec_at :: "u32 list \<Rightarrow> NodeID \<Rightarrow> u32 list option" where
  "dec_at xs i = do { d \<leftarrow> slice_at xs (unat i); slice_set xs (unat i) (d - 1) }"

definition addRelTyped :: "'bm roaring \<Rightarrow> NodeID \<Rightarrow> NodeID \<Rightarrow> RelType \<Rightarrow> 'bm Builder \<Rightarrow> (nat, 'bm) bres" where
  "addRelTyped R u v typeID b =
     bbind (ensureCapacity (max u v) b) (\<lambda>_ b.
       if length (b_rels b) \<ge> maxSize then Some (Inl ErrCapacity, b)
       else
         let b = markRelsDirty b; idx = length (b_rels b) in
         do {
           dOut \<leftarrow> inc_at (degOut b) u;
           dIn \<leftarrow> inc_at (degIn b) v;
           Some (Inr idx, known_add R v (known_add R u (b\<lparr>degOut := dOut, degIn := dIn,
             b_rels := b_rels b @ [(u, v)], b_relTypes := b_relTypes b @ [typeID],
             relIndex := map_option (rel_index_add (u, v, typeID) idx) (relIndex b)\<rparr>)))
         })"

definition AddRel :: "'bm roaring \<Rightarrow> NodeID \<Rightarrow> NodeID \<Rightarrow> string \<Rightarrow> 'bm Builder \<Rightarrow> (nat, 'bm) bres" where
  "AddRel R u v relType b = (case intern relType b of (t, b) \<Rightarrow> addRelTyped R u v t b)"

section \<open>Removed relationships\<close>

definition below_mark :: "'bm Builder \<Rightarrow> NodeID \<Rightarrow> nat \<Rightarrow> bool" where
  "below_mark b node idx = (case map_of (removedNodes b) node of None \<Rightarrow> False | Some wm \<Rightarrow> idx < wm)"

definition relRemoved :: "'bm roaring \<Rightarrow> 'bm Builder \<Rightarrow> nat \<Rightarrow> bool" where
  "relRemoved R b idx =
     ((case removedRels b of None \<Rightarrow> False | Some bm \<Rightarrow> rb_Contains R bm (of_nat idx))
      \<or> length (removedNodes b) > 0
        \<and> (below_mark b (fst (b_rels b ! idx)) idx \<or> below_mark b (snd (b_rels b ! idx)) idx))"

definition hasRemovals :: "'bm roaring \<Rightarrow> 'bm Builder \<Rightarrow> bool" where
  "hasRemovals R b =
     ((case removedRels b of None \<Rightarrow> False | Some bm \<Rightarrow> \<not> rb_IsEmpty R bm) \<or> length (removedNodes b) > 0)"

section \<open>Staged values\<close>

definition stageValue :: "AnyValue \<Rightarrow> 'bm Builder \<Rightarrow> (error + Value) \<times> 'bm Builder" where
  "stageValue value b =
     (case value of
        AnyV v \<Rightarrow> (Inr v, b)
      | AnyStr s \<Rightarrow> (case intern s b of (a, b) \<Rightarrow> (Inr (StrValue a), b))
      | AnyI64 v \<Rightarrow> (Inr (I64Value v), b)
      | AnyInt v \<Rightarrow> (Inr (I64Value v), b)
      | AnyI32 v \<Rightarrow> (Inr (I64Value v), b)
      | AnyF64 v \<Rightarrow> (Inr (F64Value v), b)
      | AnyBool v \<Rightarrow> (Inr (BoolValue v), b)
      | AnyOther \<Rightarrow> (Inl ErrBadValue, b))"

definition InternPropertyKey :: "string \<Rightarrow> 'bm Builder \<Rightarrow> PropertyKey \<times> 'bm Builder" where
  "InternPropertyKey name b = intern name b"

text \<open>\<open>cols[key] = append(cols[key], pair)\<close>.\<close>

definition staged_at :: "'v staged \<Rightarrow> PropertyKey \<Rightarrow> 'v pair list" where
  "staged_at cols key = (case map_of cols key of None \<Rightarrow> [] | Some ps \<Rightarrow> ps)"

definition stage :: "PropertyKey \<Rightarrow> u32 \<Rightarrow> 'v \<Rightarrow> 'v staged \<Rightarrow> 'v staged" where
  "stage key i v cols = AList.update key (staged_at cols key @ [\<lparr>pid = i, pval = v\<rparr>]) cols"

definition stage_node :: "NodeID \<Rightarrow> PropertyKey \<Rightarrow> Value \<Rightarrow> 'bm Builder \<Rightarrow> 'bm Builder" where
  "stage_node node key v b =
     (case Value_Kind v of
        KindStr \<Rightarrow> b\<lparr>nodeColStr := stage key node (fst (Value_StrID v)) (nodeColStr b)\<rparr>
      | KindI64 \<Rightarrow> b\<lparr>nodeColI64 := stage key node (fst (Value_I64 v)) (nodeColI64 b)\<rparr>
      | KindF64 \<Rightarrow> b\<lparr>nodeColF64 := stage key node (fst (Value_F64 v)) (nodeColF64 b)\<rparr>
      | KindBool \<Rightarrow> b\<lparr>nodeColBool := stage key node (fst (Value_Bool v)) (nodeColBool b)\<rparr>)"

definition SetPropByKey :: "'bm roaring \<Rightarrow> NodeID \<Rightarrow> PropertyKey \<Rightarrow> AnyValue \<Rightarrow> 'bm Builder \<Rightarrow> (unit, 'bm) bres" where
  "SetPropByKey R node key value b =
     bbind (Some (stageValue value b)) (\<lambda>v b.
     bbind (ensureCapacity node b) (\<lambda>_ b.
       Some (Inr (), known_add R node (stage_node node key v (markNodeColDirty key b)))))"

definition SetProp :: "'bm roaring \<Rightarrow> NodeID \<Rightarrow> string \<Rightarrow> AnyValue \<Rightarrow> 'bm Builder \<Rightarrow> (unit, 'bm) bres" where
  "SetProp R node key value b = (case intern key b of (k, b) \<Rightarrow> SetPropByKey R node k value b)"

section \<open>Removing properties\<close>

definition removeAllPairs :: "'v pair list \<Rightarrow> u32 \<Rightarrow> 'v pair list \<times> bool" where
  "removeAllPairs pairs i =
     (let out = filter (\<lambda>p. pairID p \<noteq> i) pairs in (out, length out \<noteq> length pairs))"

definition sweepPairs :: "PropertyKey \<Rightarrow> u32 \<Rightarrow> 'v staged \<Rightarrow> 'v staged \<times> bool" where
  "sweepPairs key i cols =
     (case map_of cols key of
        None \<Rightarrow> (cols, False)
      | Some pairs \<Rightarrow>
          (case removeAllPairs pairs i of (out, removed) \<Rightarrow>
            (if length out = 0 then AList.delete key cols else AList.update key out cols, removed)))"

definition removeNodePropPairsByKey :: "NodeID \<Rightarrow> PropertyKey \<Rightarrow> 'bm Builder \<Rightarrow> bool \<times> 'bm Builder" where
  "removeNodePropPairsByKey node key b =
     (case sweepPairs key node (nodeColI64 b) of (c1, r1) \<Rightarrow>
      case sweepPairs key node (nodeColF64 b) of (c2, r2) \<Rightarrow>
      case sweepPairs key node (nodeColBool b) of (c3, r3) \<Rightarrow>
      case sweepPairs key node (nodeColStr b) of (c4, r4) \<Rightarrow>
        let removed = r1 \<or> r2 \<or> r3 \<or> r4;
            b = b\<lparr>nodeColI64 := c1, nodeColF64 := c2, nodeColBool := c3, nodeColStr := c4\<rparr>
        in (removed, if removed then markNodeColDirty key b else b))"

definition UpdateProp :: "'bm roaring \<Rightarrow> NodeID \<Rightarrow> string \<Rightarrow> AnyValue \<Rightarrow> 'bm Builder \<Rightarrow> (unit, 'bm) bres" where
  "UpdateProp R node key value b =
     (case intern key b of (k, b) \<Rightarrow>
      bbind (Some (stageValue value b)) (\<lambda>v b.
        SetPropByKey R node k (AnyV v) (snd (removeNodePropPairsByKey node k b))))"

definition RemoveProp :: "NodeID \<Rightarrow> string \<Rightarrow> 'bm Builder \<Rightarrow> bool \<times> 'bm Builder" where
  "RemoveProp node key b =
     (case Interner_Get (interner b) key of None \<Rightarrow> (False, b) | Some k \<Rightarrow> removeNodePropPairsByKey node k b)"

text \<open>One column family of \<open>removeNodePropPairs\<close>: every key is swept, the ones that held a pair are returned.\<close>

definition sweep_family :: "u32 \<Rightarrow> 'v staged \<Rightarrow> 'v staged \<times> PropertyKey list" where
  "sweep_family i cols =
     fold (\<lambda>key (c, hit). case sweepPairs key i c of (c', removed) \<Rightarrow> (c', if removed then hit @ [key] else hit))
       (map fst cols) (cols, [])"

definition removeNodePropPairs :: "NodeID \<Rightarrow> 'bm Builder \<Rightarrow> 'bm Builder" where
  "removeNodePropPairs node b =
     (case sweep_family node (nodeColI64 b) of (c1, h1) \<Rightarrow>
      case sweep_family node (nodeColF64 b) of (c2, h2) \<Rightarrow>
      case sweep_family node (nodeColBool b) of (c3, h3) \<Rightarrow>
      case sweep_family node (nodeColStr b) of (c4, h4) \<Rightarrow>
        fold markNodeColDirty (h1 @ h2 @ h3 @ h4)
          (b\<lparr>nodeColI64 := c1, nodeColF64 := c2, nodeColBool := c3, nodeColStr := c4\<rparr>))"

section \<open>Relationship lookup and properties\<close>

definition rel_index_step :: "'bm roaring \<Rightarrow> 'bm Builder \<Rightarrow> nat \<Rightarrow> (relKey \<Rightarrow> nat option) \<Rightarrow> (relKey \<Rightarrow> nat option) option" where
  "rel_index_step R b idx m =
     (if relRemoved R b idx then Some m
      else do {
        t \<leftarrow> slice_at (b_relTypes b) idx;
        Some (rel_index_add (fst (b_rels b ! idx), snd (b_rels b ! idx), t) idx m)
      })"

definition build_rel_index :: "'bm roaring \<Rightarrow> 'bm Builder \<Rightarrow> 'bm Builder option" where
  "build_rel_index R b =
     (case relIndex b of
        Some m \<Rightarrow> Some b
      | None \<Rightarrow> map_option (\<lambda>m. b\<lparr>relIndex := Some m\<rparr>)
                  (fold_opt (rel_index_step R b) [0..<length (b_rels b)] Map.empty))"

definition findRelIndex :: "'bm roaring \<Rightarrow> NodeID \<Rightarrow> NodeID \<Rightarrow> string \<Rightarrow> 'bm Builder \<Rightarrow> (nat option \<times> 'bm Builder) option" where
  "findRelIndex R u v relType b =
     (case Interner_Get (interner b) relType of
        None \<Rightarrow> Some (None, b)
      | Some t \<Rightarrow> do {
          b \<leftarrow> build_rel_index R b;
          m \<leftarrow> relIndex b;
          Some (m (u, v, t), b)
        })"

definition stage_rel :: "u32 \<Rightarrow> PropertyKey \<Rightarrow> Value \<Rightarrow> 'bm Builder \<Rightarrow> 'bm Builder" where
  "stage_rel idx key v b =
     (case Value_Kind v of
        KindStr \<Rightarrow> b\<lparr>relColStr := stage key idx (fst (Value_StrID v)) (relColStr b)\<rparr>
      | KindI64 \<Rightarrow> b\<lparr>relColI64 := stage key idx (fst (Value_I64 v)) (relColI64 b)\<rparr>
      | KindF64 \<Rightarrow> b\<lparr>relColF64 := stage key idx (fst (Value_F64 v)) (relColF64 b)\<rparr>
      | KindBool \<Rightarrow> b\<lparr>relColBool := stage key idx (fst (Value_Bool v)) (relColBool b)\<rparr>)"

definition SetRelPropAt :: "'bm roaring \<Rightarrow> int \<Rightarrow> string \<Rightarrow> AnyValue \<Rightarrow> 'bm Builder \<Rightarrow> (unit, 'bm) bres" where
  "SetRelPropAt R relIdx key value b =
     (if relIdx < 0 \<or> relIdx \<ge> int (length (b_rels b)) then Some (Inl ErrRelNotFound, b)
      else if relRemoved R b (nat relIdx) then Some (Inl ErrRelNotFound, b)
      else case intern key b of (k, b) \<Rightarrow>
        bbind (Some (stageValue value b)) (\<lambda>v b.
          Some (Inr (), stage_rel (of_int relIdx) k v (markRelColDirty k b))))"

definition SetRelProp :: "'bm roaring \<Rightarrow> NodeID \<Rightarrow> NodeID \<Rightarrow> string \<Rightarrow> string \<Rightarrow> AnyValue \<Rightarrow> 'bm Builder \<Rightarrow> (unit, 'bm) bres" where
  "SetRelProp R u v relType key value b = do {
     (found, b) \<leftarrow> findRelIndex R u v relType b;
     (case found of
        None \<Rightarrow> Some (Inl ErrRelNotFound, b)
      | Some idx \<Rightarrow> SetRelPropAt R (int idx) key value b)
   }"

definition RemoveRelPropAt :: "'bm roaring \<Rightarrow> int \<Rightarrow> string \<Rightarrow> 'bm Builder \<Rightarrow> (bool, 'bm) bres" where
  "RemoveRelPropAt R relIdx key b =
     (if relIdx < 0 \<or> relIdx \<ge> int (length (b_rels b)) \<or> relRemoved R b (nat relIdx) then Some (Inl ErrRelNotFound, b)
      else case Interner_Get (interner b) key of
        None \<Rightarrow> Some (Inr False, b)
      | Some k \<Rightarrow>
          let i = of_int relIdx in
          (case sweepPairs k i (relColI64 b) of (c1, r1) \<Rightarrow>
           case sweepPairs k i (relColF64 b) of (c2, r2) \<Rightarrow>
           case sweepPairs k i (relColBool b) of (c3, r3) \<Rightarrow>
           case sweepPairs k i (relColStr b) of (c4, r4) \<Rightarrow>
             let removed = r1 \<or> r2 \<or> r3 \<or> r4;
                 b = b\<lparr>relColI64 := c1, relColF64 := c2, relColBool := c3, relColStr := c4\<rparr>
             in Some (Inr removed, if removed then markRelColDirty k b else b)))"

definition RemoveRelProp :: "'bm roaring \<Rightarrow> NodeID \<Rightarrow> NodeID \<Rightarrow> string \<Rightarrow> string \<Rightarrow> 'bm Builder \<Rightarrow> (bool, 'bm) bres" where
  "RemoveRelProp R u v relType key b = do {
     (found, b) \<leftarrow> findRelIndex R u v relType b;
     (case found of
        None \<Rightarrow> Some (Inl ErrRelNotFound, b)
      | Some idx \<Rightarrow> RemoveRelPropAt R (int idx) key b)
   }"

section \<open>Removing relationships and nodes\<close>

definition RemoveRel :: "'bm roaring \<Rightarrow> int \<Rightarrow> 'bm Builder \<Rightarrow> (unit, 'bm) bres" where
  "RemoveRel R relIdx b =
     (if relIdx < 0 \<or> relIdx \<ge> int (length (b_rels b)) \<or> relRemoved R b (nat relIdx) then Some (Inl ErrRelNotFound, b)
      else
        let bm = (case removedRels b of None \<Rightarrow> rb_New R | Some bm \<Rightarrow> bm);
            b = markRelsDirty b;
            r = b_rels b ! nat relIdx
        in do {
          dOut \<leftarrow> dec_at (degOut b) (fst r);
          dIn \<leftarrow> dec_at (degIn b) (snd r);
          Some (Inr (), b\<lparr>removedRels := Some (rb_Add R bm (of_int relIdx)), degOut := dOut, degIn := dIn, relIndex := None\<rparr>)
        })"

definition RemoveNode :: "'bm roaring \<Rightarrow> NodeID \<Rightarrow> 'bm Builder \<Rightarrow> bool \<times> 'bm Builder" where
  "RemoveNode R i b =
     (if \<not> rb_Contains R (knownNodes b) i then (False, b)
      else
        let b = b\<lparr>knownNodes := rb_Remove R (knownNodes b) i\<rparr>;
            b = (if unat i < length (nodeLabels b)
                 then (fold markLabelDirty (nodeLabels b ! unat i) b)\<lparr>nodeLabels := (nodeLabels b)[unat i := []]\<rparr> else b);
            b = removeNodePropPairs i (markRelsDirty b)
        in (True, b\<lparr>removedNodes := AList.update i (length (b_rels b)) (removedNodes b), relIndex := None\<rparr>))"

section \<open>Compaction\<close>

text \<open>
  Live relationships move down in place, and \<open>oldToNew\<close> (an \<open>int32\<close> slice) records where they went, \<open>-1\<close> for
  the dead. The state is the builder whose \<open>rels\<close> and \<open>relTypes\<close> are being overwritten, the map, and \<open>kept\<close>.
\<close>

definition compact_step :: "'bm roaring \<Rightarrow> nat \<Rightarrow> 'bm Builder \<times> 32 word list \<times> nat \<Rightarrow> ('bm Builder \<times> 32 word list \<times> nat) option" where
  "compact_step R idx = (\<lambda>(b, oldToNew, kept).
     if relRemoved R b idx then map_option (\<lambda>o2n. (b, o2n, kept)) (slice_set oldToNew idx (- 1))
     else do {
       o2n \<leftarrow> slice_set oldToNew idx (of_nat kept);
       r \<leftarrow> slice_at (b_rels b) idx;
       rs \<leftarrow> slice_set (b_rels b) kept r;
       t \<leftarrow> slice_at (b_relTypes b) idx;
       ts \<leftarrow> slice_set (b_relTypes b) kept t;
       Some (b\<lparr>b_rels := rs, b_relTypes := ts\<rparr>, o2n, kept + 1)
     })"

definition remap_pairs :: "32 word list \<Rightarrow> 'v pair list \<Rightarrow> 'v pair list option" where
  "remap_pairs oldToNew pairs =
     fold_opt (\<lambda>p out. do {
         ni \<leftarrow> slice_at oldToNew (unat (pairID p));
         Some (if sint ni < 0 then out else out @ [withPairID p ni])
       }) pairs []"

definition remapRelPairs :: "32 word list \<Rightarrow> 'v staged \<Rightarrow> 'v staged option" where
  "remapRelPairs oldToNew cols =
     fold_opt (\<lambda>(key, pairs) acc. do {
         out \<leftarrow> remap_pairs oldToNew pairs;
         Some (if length out = 0 then AList.delete key acc else AList.update key out acc)
       }) cols cols"

definition compactRemovals :: "'bm roaring \<Rightarrow> 'bm Builder \<Rightarrow> 'bm Builder option" where
  "compactRemovals R b =
     (if \<not> hasRemovals R b then Some b
      else
        let m = length (b_rels b) in
        do {
          (b, oldToNew, kept) \<leftarrow> fold_opt (compact_step R) [0..<m] (b, replicate m 0, 0);
          let b = b\<lparr>b_rels := take kept (b_rels b), b_relTypes := take kept (b_relTypes b)\<rparr>;
          dOut \<leftarrow> fold_opt (\<lambda>r d. inc_at d (fst r)) (b_rels b) (replicate (length (degOut b)) 0);
          dIn \<leftarrow> fold_opt (\<lambda>r d. inc_at d (snd r)) (b_rels b) (replicate (length (degIn b)) 0);
          c1 \<leftarrow> remapRelPairs oldToNew (relColI64 b);
          c2 \<leftarrow> remapRelPairs oldToNew (relColF64 b);
          c3 \<leftarrow> remapRelPairs oldToNew (relColBool b);
          c4 \<leftarrow> remapRelPairs oldToNew (relColStr b);
          Some (b\<lparr>degOut := dOut, degIn := dIn, relColI64 := c1, relColF64 := c2, relColBool := c3, relColStr := c4,
                  removedRels := None, removedNodes := [], relIndex := None\<rparr>)
        })"

section \<open>Reads before finalization\<close>

definition Builder_NodeCount :: "'bm roaring \<Rightarrow> 'bm Builder \<Rightarrow> nat" where
  "Builder_NodeCount R b = unat (rb_GetCardinality R (knownNodes b))"

definition Builder_RelCount :: "'bm roaring \<Rightarrow> 'bm Builder \<Rightarrow> nat" where
  "Builder_RelCount R b =
     (if \<not> hasRemovals R b then length (b_rels b)
      else fold (\<lambda>idx c. if relRemoved R b idx then c else c + 1) [0..<length (b_rels b)] 0)"

definition first_pair :: "'v pair list \<Rightarrow> u32 \<Rightarrow> 'v option" where
  "first_pair pairs i = map_option pval (List.find (\<lambda>p. pid p = i) pairs)"

definition Builder_Prop :: "NodeID \<Rightarrow> string \<Rightarrow> 'bm Builder \<Rightarrow> Value \<times> bool" where
  "Builder_Prop node key b =
     (case Interner_Get (interner b) key of
        None \<Rightarrow> (zero_Value, False)
      | Some k \<Rightarrow>
          (case first_pair (staged_at (nodeColStr b) k) node of Some x \<Rightarrow> (StrValue x, True)
           | None \<Rightarrow> (case first_pair (staged_at (nodeColI64 b) k) node of Some x \<Rightarrow> (I64Value x, True)
           | None \<Rightarrow> (case first_pair (staged_at (nodeColF64 b) k) node of Some x \<Rightarrow> (F64Value x, True)
           | None \<Rightarrow> (case first_pair (staged_at (nodeColBool b) k) node of Some x \<Rightarrow> (BoolValue x, True)
           | None \<Rightarrow> (zero_Value, False))))))"

definition Builder_ResolveString :: "u32 \<Rightarrow> 'bm Builder \<Rightarrow> string \<times> bool" where
  "Builder_ResolveString i b = Interner_Resolve (interner b) i"

definition has_label :: "'bm Builder \<Rightarrow> Label \<Rightarrow> NodeID \<Rightarrow> bool" where
  "has_label b label node = (unat node < length (nodeLabels b) \<and> label \<in> set (nodeLabels b ! unat node))"

text \<open>The probe value, without interning.\<close>

definition probe_value :: "AnyValue \<Rightarrow> 'bm Builder \<Rightarrow> Value option" where
  "probe_value value b =
     (case value of
        AnyV v \<Rightarrow> Some v
      | AnyStr s \<Rightarrow> map_option StrValue (Interner_Get (interner b) s)
      | _ \<Rightarrow> (case fst (stageValue value b) of Inl _ \<Rightarrow> None | Inr v \<Rightarrow> Some v))"

definition Builder_NodesWithProperty :: "string \<Rightarrow> string \<Rightarrow> AnyValue \<Rightarrow> 'bm Builder \<Rightarrow> NodeID list" where
  "Builder_NodesWithProperty label key value b =
     (case (Interner_Get (interner b) label, Interner_Get (interner b) key, probe_value value b) of
        (Some l, Some k, Some want) \<Rightarrow>
          (case Value_Kind want of
             KindI64 \<Rightarrow> map pid (filter (\<lambda>p. pval p = fst (Value_I64 want) \<and> has_label b l (pid p)) (staged_at (nodeColI64 b) k))
           | KindF64 \<Rightarrow> map pid (filter (\<lambda>p. F64Value (pval p) = want \<and> has_label b l (pid p)) (staged_at (nodeColF64 b) k))
           | KindBool \<Rightarrow> map pid (filter (\<lambda>p. pval p = fst (Value_Bool want) \<and> has_label b l (pid p)) (staged_at (nodeColBool b) k))
           | KindStr \<Rightarrow> map pid (filter (\<lambda>p. pval p = fst (Value_StrID want) \<and> has_label b l (pid p)) (staged_at (nodeColStr b) k)))
      | _ \<Rightarrow> [])"

definition Builder_NodeLabels :: "NodeID \<Rightarrow> 'bm Builder \<Rightarrow> string list" where
  "Builder_NodeLabels node b =
     (if unat node \<ge> length (nodeLabels b) then []
      else concat (map (\<lambda>l. case Interner_Resolve (interner b) l of (s, found) \<Rightarrow> if found then [s] else []) (nodeLabels b ! unat node)))"

definition NeighborIDs :: "'bm roaring \<Rightarrow> NodeID \<Rightarrow> Direction \<Rightarrow> 'bm Builder \<Rightarrow> NodeID list" where
  "NeighborIDs R node dir b =
     (if dir = Outgoing \<or> dir = Both
      then map (\<lambda>(idx, r). snd r) (filter (\<lambda>(idx, r). fst r = node \<and> \<not> relRemoved R b idx) (enumerate 0 (b_rels b))) else [])
     @ (if dir = Incoming \<or> dir = Both
        then map (\<lambda>(idx, r). fst r) (filter (\<lambda>(idx, r). snd r = node \<and> \<not> relRemoved R b idx) (enumerate 0 (b_rels b))) else [])"

end
