(* ===== verification/BuilderInv.thy ===== *)
theory BuilderInv
  imports Builder
begin

text \<open>
  The invariant of the builder and its preservation: the degree arrays count the relationships that are not
  tombstoned, live relationships and staged properties belong to known nodes, the lazy lookup map
  gives the first live relationship of a key.
\<close>

section \<open>Association lists of staged columns\<close>

lemma set_update:
  "distinct (map fst al) \<Longrightarrow> set (AList.update k v al) = insert (k, v) {x \<in> set al. fst x \<noteq> k}"
  by (induction al) (auto simp: image_iff rev_image_eqI)

lemma set_delete: "set (AList.delete k al) = {x \<in> set al. fst x \<noteq> k}"
  by (auto simp: AList.delete_eq)

definition cols_ok :: "(u32 \<Rightarrow> bool) \<Rightarrow> 'v staged \<Rightarrow> bool" where
  "cols_ok P cols \<longleftrightarrow> distinct (map fst cols) \<and> (\<forall>(k, ps) \<in> set cols. ps \<noteq> [] \<and> (\<forall>p \<in> set ps. P (pid p)))"

lemma cols_ok_Nil [simp]: "cols_ok P []"
  by (simp add: cols_ok_def)

lemma cols_ok_mono: "cols_ok P cols \<Longrightarrow> (\<And>x. P x \<Longrightarrow> Q x) \<Longrightarrow> cols_ok Q cols"
  by (fastforce simp: cols_ok_def)

lemma cols_ok_staged_at: "cols_ok P cols \<Longrightarrow> p \<in> set (staged_at cols k) \<Longrightarrow> P (pid p)"
  by (auto simp: cols_ok_def staged_at_def split: option.splits dest!: map_of_SomeD)

lemma cols_ok_update:
  assumes "cols_ok P cols" "ps \<noteq> []" "\<And>p. p \<in> set ps \<Longrightarrow> P (pid p)"
  shows "cols_ok P (AList.update k ps cols)"
  using assms by (auto simp: cols_ok_def set_update distinct_update)

lemma cols_ok_stage: "cols_ok P cols \<Longrightarrow> P i \<Longrightarrow> cols_ok P (stage k i v cols)"
  unfolding stage_def by (rule cols_ok_update) (auto dest: cols_ok_staged_at)

lemma cols_ok_delete: "cols_ok P cols \<Longrightarrow> cols_ok P (AList.delete k cols)"
  by (auto simp: cols_ok_def set_delete distinct_delete)

lemma sweepPairs_ok:
  assumes "cols_ok P cols" "sweepPairs k i cols = (cols', removed)"
  shows "cols_ok P cols'" "set (map fst cols') \<subseteq> set (map fst cols)" "(k, ps) \<in> set cols' \<Longrightarrow> p \<in> set ps \<Longrightarrow> pid p \<noteq> i"
    "(k', ps) \<in> set cols' \<Longrightarrow> k' \<noteq> k \<Longrightarrow> (k', ps) \<in> set cols"
proof -
  have d: "distinct (map fst cols)" using assms(1) by (simp add: cols_ok_def)
  show "cols_ok P cols'"
    using assms by (auto simp: sweepPairs_def removeAllPairs_def pairID_def Let_def split: option.splits if_splits
        intro!: cols_ok_update cols_ok_delete dest!: map_of_SomeD) (auto simp: cols_ok_def)
  show "set (map fst cols') \<subseteq> set (map fst cols)" "(k, ps) \<in> set cols' \<Longrightarrow> p \<in> set ps \<Longrightarrow> pid p \<noteq> i"
    "(k', ps) \<in> set cols' \<Longrightarrow> k' \<noteq> k \<Longrightarrow> (k', ps) \<in> set cols"
    using assms(2) d by (auto simp: sweepPairs_def removeAllPairs_def pairID_def set_update set_delete image_iff Let_def
        split: option.splits if_splits dest: map_of_SomeD weak_map_of_SomeI) (metis fst_conv map_of_SomeD weak_map_of_SomeI option.distinct(1))+
qed

lemma sweep_family_ok:
  assumes "cols_ok P cols"
  shows "cols_ok (\<lambda>x. P x \<and> x \<noteq> i) (fst (sweep_family i cols))"
proof -
  let ?f = "\<lambda>key (c, hit). case sweepPairs key i c of (c', removed) \<Rightarrow> (c', if removed then hit @ [key] else hit)"
  have "cols_ok P (fst (fold ?f ks (c, hit))) \<and> set (map fst (fst (fold ?f ks (c, hit)))) \<subseteq> set (map fst c)
      \<and> (\<forall>(k, ps) \<in> set (fst (fold ?f ks (c, hit))). k \<in> set ks \<union> done \<longrightarrow> (\<forall>p \<in> set ps. pid p \<noteq> i))"
    if "cols_ok P c" "\<forall>(k, ps) \<in> set c. k \<in> done \<longrightarrow> (\<forall>p \<in> set ps. pid p \<noteq> i)" for ks c hit "done"
    using that
  proof (induction ks arbitrary: c hit "done")
    case (Cons k ks)
    obtain c' r where s: "sweepPairs k i c = (c', r)" by fastforce
    note sw = sweepPairs_ok [OF Cons.prems(1) s]
    have "\<forall>(k', ps) \<in> set c'. k' \<in> insert k done \<longrightarrow> (\<forall>p \<in> set ps. pid p \<noteq> i)"
      using sw(3,4) Cons.prems(2) by fastforce
    note ih = Cons.IH [OF sw(1) this, of "if r then hit @ [k] else hit"]
    have step: "fold ?f (k # ks) (c, hit) = fold ?f ks (c', if r then hit @ [k] else hit)" using s by simp
    have "set (map fst (fst (fold ?f ks (c', if r then hit @ [k] else hit)))) \<subseteq> set (map fst c)"
      by (rule subset_trans [OF conjunct1 [OF conjunct2 [OF ih]] sw(2)])
    then show ?case unfolding step using ih by simp
  qed auto
  note all = this
  let ?c = "fst (sweep_family i cols)"
  have "\<forall>(k, ps) \<in> set cols. k \<in> {} \<longrightarrow> (\<forall>p \<in> set ps. pid p \<noteq> i)" by simp
  from all [OF assms this, of "map fst cols" "[]"]
  have ok: "cols_ok P ?c" and keys: "set (map fst ?c) \<subseteq> set (map fst cols)"
    and gone: "\<forall>(k, ps) \<in> set ?c. k \<in> set (map fst cols) \<union> {} \<longrightarrow> (\<forall>p \<in> set ps. pid p \<noteq> i)"
    unfolding sweep_family_def by blast+
  have "(\<forall>p \<in> set ps. pid p \<noteq> i)" if "(k, ps) \<in> set ?c" for k ps
  proof -
    have "k \<in> set (map fst cols)" using that keys by (force simp: subset_iff)
    then show ?thesis using gone that by blast
  qed
  then show ?thesis using ok by (fastforce simp: cols_ok_def)
qed

section \<open>The invariant\<close>

definition tomb :: "'bm roaring \<Rightarrow> 'bm Builder \<Rightarrow> nat \<Rightarrow> bool" where
  "tomb R b idx = (case removedRels b of None \<Rightarrow> False | Some bm \<Rightarrow> rb_Contains R bm (of_nat idx))"

definition deg_inv :: "'bm roaring \<Rightarrow> 'bm Builder \<Rightarrow> (rel \<Rightarrow> NodeID) \<Rightarrow> u32 list \<Rightarrow> bool" where
  "deg_inv R b f deg \<longleftrightarrow>
     (\<forall>u < length deg. unat (deg ! u) = count_in (\<lambda>i. \<not> tomb R b i \<and> unat (f (b_rels b ! i)) = u) 0 (length (b_rels b)))"

definition key_at :: "'bm Builder \<Rightarrow> nat \<Rightarrow> relKey" where
  "key_at b i = (fst (b_rels b ! i), snd (b_rels b ! i), b_relTypes b ! i)"

text \<open>The first live relationship with the given endpoints and type.\<close>

definition first_live :: "'bm roaring \<Rightarrow> 'bm Builder \<Rightarrow> relKey \<Rightarrow> nat option" where
  "first_live R b key = List.find (\<lambda>i. \<not> relRemoved R b i \<and> key_at b i = key) [0..<length (b_rels b)]"

definition caps_inv :: "'bm Builder \<Rightarrow> bool" where
  "caps_inv b \<longleftrightarrow> degOut b \<noteq> [] \<and> length (degIn b) = length (degOut b) \<and> length (nodeLabels b) = length (degOut b)
    \<and> (\<forall>r \<in> set (b_rels b). unat (fst r) < length (degOut b) \<and> unat (snd r) < length (degOut b))"

definition rels_inv :: "'bm roaring \<Rightarrow> 'bm Builder \<Rightarrow> bool" where
  "rels_inv R b \<longleftrightarrow> length (b_relTypes b) = length (b_rels b) \<and> length (b_rels b) \<le> maxSize
    \<and> deg_inv R b fst (degOut b) \<and> deg_inv R b snd (degIn b)
    \<and> (case removedRels b of None \<Rightarrow> True | Some bm \<Rightarrow> \<forall>x \<in> rb_set R bm. unat x < length (b_rels b))
    \<and> (\<forall>(n, wm) \<in> set (removedNodes b). wm \<le> length (b_rels b)) \<and> distinct (map fst (removedNodes b))"

definition known_inv :: "'bm roaring \<Rightarrow> 'bm Builder \<Rightarrow> bool" where
  "known_inv R b \<longleftrightarrow> (\<forall>i < length (b_rels b). relRemoved R b i \<or> fst (b_rels b ! i) \<in> rb_set R (knownNodes b) \<and> snd (b_rels b ! i) \<in> rb_set R (knownNodes b))
    \<and> (\<forall>x \<in> rb_set R (knownNodes b). unat x < length (degOut b))
    \<and> (\<forall>u < length (nodeLabels b). nodeLabels b ! u = [] \<or> (\<exists>x \<in> rb_set R (knownNodes b). unat x = u))"

definition cols_inv :: "'bm roaring \<Rightarrow> 'bm Builder \<Rightarrow> bool" where
  "cols_inv R b \<longleftrightarrow> (let K = (\<lambda>x. x \<in> rb_set R (knownNodes b)); L = (\<lambda>x. unat x < length (b_rels b)) in
     cols_ok K (nodeColI64 b) \<and> cols_ok K (nodeColF64 b) \<and> cols_ok K (nodeColBool b) \<and> cols_ok K (nodeColStr b)
     \<and> cols_ok L (relColI64 b) \<and> cols_ok L (relColF64 b) \<and> cols_ok L (relColBool b) \<and> cols_ok L (relColStr b))"

definition index_inv :: "'bm roaring \<Rightarrow> 'bm Builder \<Rightarrow> bool" where
  "index_inv R b \<longleftrightarrow> (case relIndex b of None \<Rightarrow> True | Some m \<Rightarrow> m = first_live R b)"

definition builder_inv :: "'bm roaring \<Rightarrow> 'bm Builder \<Rightarrow> bool" where
  "builder_inv R b \<longleftrightarrow> caps_inv b \<and> rels_inv R b \<and> known_inv R b \<and> cols_inv R b \<and> index_inv R b \<and> interner_wf (interner b)"

lemmas inv_defs = caps_inv_def rels_inv_def known_inv_def cols_inv_def index_inv_def

lemma inv_relRemoved: "relRemoved R b i \<longleftrightarrow> tomb R b i \<or> below_mark b (fst (b_rels b ! i)) i \<or> below_mark b (snd (b_rels b ! i)) i"
  by (auto simp: relRemoved_def tomb_def below_mark_def split: option.splits)

text \<open>Dirty marks touch nothing the invariant speaks of.\<close>

definition same_staging :: "'bm Builder \<Rightarrow> 'bm Builder \<Rightarrow> bool" where
  "same_staging b b' \<longleftrightarrow> degOut b' = degOut b \<and> degIn b' = degIn b \<and> b_rels b' = b_rels b \<and> nodeLabels b' = nodeLabels b
    \<and> b_relTypes b' = b_relTypes b \<and> nodeColI64 b' = nodeColI64 b \<and> nodeColF64 b' = nodeColF64 b \<and> nodeColBool b' = nodeColBool b
    \<and> nodeColStr b' = nodeColStr b \<and> relColI64 b' = relColI64 b \<and> relColF64 b' = relColF64 b \<and> relColBool b' = relColBool b
    \<and> relColStr b' = relColStr b \<and> knownNodes b' = knownNodes b \<and> relIndex b' = relIndex b \<and> removedRels b' = removedRels b
    \<and> removedNodes b' = removedNodes b"

definition same_rels :: "'bm Builder \<Rightarrow> 'bm Builder \<Rightarrow> bool" where
  "same_rels b b' \<longleftrightarrow> b_rels b' = b_rels b \<and> b_relTypes b' = b_relTypes b \<and> removedRels b' = removedRels b \<and> removedNodes b' = removedNodes b"

lemma same_rels_simps:
  assumes "same_rels b b'"
  shows "relRemoved R b' = relRemoved R b" "tomb R b' = tomb R b" "first_live R b' = first_live R b" "deg_inv R b' = deg_inv R b"
  using assms by (auto simp: same_rels_def relRemoved_def tomb_def below_mark_def first_live_def key_at_def deg_inv_def fun_eq_iff)

lemma same_staging_simps:
  assumes "same_staging b b'"
  shows "relRemoved R b' = relRemoved R b" "tomb R b' = tomb R b" "first_live R b' = first_live R b" "deg_inv R b' = deg_inv R b"
  using assms by (auto intro!: same_rels_simps simp: same_staging_def same_rels_def)

lemma same_staging_inv: "same_staging b b' \<Longrightarrow> interner_wf (interner b') \<Longrightarrow> builder_inv R b \<Longrightarrow> builder_inv R b'"
  using same_staging_simps [of b b' R] by (simp add: builder_inv_def inv_defs same_staging_def cong: option.case_cong)

lemma marks_same [simp]:
  "same_staging b (markNodeColDirty k b)" "same_staging b (markRelColDirty k b)" "same_staging b (markLabelDirty l b)" "same_staging b (markRelsDirty b)"
  "interner (markNodeColDirty k b) = interner b" "interner (markRelColDirty k b) = interner b" "interner (markLabelDirty l b) = interner b"
  "interner (markRelsDirty b) = interner b"
  by (simp_all add: same_staging_def markNodeColDirty_def markRelColDirty_def markLabelDirty_def markRelsDirty_def)

lemma builder_inv_marks [simp, intro]:
  assumes "builder_inv R b"
  shows "builder_inv R (markNodeColDirty k b)" "builder_inv R (markRelColDirty k b)" "builder_inv R (markLabelDirty l b)" "builder_inv R (markRelsDirty b)"
proof -
  have "interner_wf (interner b)" using assms by (simp add: builder_inv_def)
  then show "builder_inv R (markNodeColDirty k b)" "builder_inv R (markRelColDirty k b)" "builder_inv R (markLabelDirty l b)"
    "builder_inv R (markRelsDirty b)"
    using assms by (auto intro: marks_same(1-4) [THEN same_staging_inv] simp del: marks_same(1-4))
qed

text \<open>Updates that leave the relationships alone: nodes, labels, and staged columns.\<close>

lemma builder_inv_labels:
  assumes "builder_inv R b" "i \<in> rb_set R (knownNodes b) \<or> ls = []"
  shows "builder_inv R (b\<lparr>nodeLabels := (nodeLabels b)[unat i := ls]\<rparr>)"
proof -
  let ?b = "b\<lparr>nodeLabels := (nodeLabels b)[unat i := ls]\<rparr>"
  have "same_rels b ?b" by (simp add: same_rels_def)
  note [simp] = same_rels_simps [OF this]
  have "known_inv R ?b" using assms
    by (cases "unat i < length (nodeLabels b)") (auto simp: builder_inv_def known_inv_def nth_list_update)
  then show ?thesis using assms by (simp add: builder_inv_def caps_inv_def rels_inv_def cols_inv_def index_inv_def cong: option.case_cong)
qed

lemma builder_inv_known_add:
  assumes "roaring_laws R" "builder_inv R b" "unat i < length (degOut b)"
  shows "builder_inv R (known_add R i b)"
proof -
  let ?b = "known_add R i b"
  have [simp]: "rb_set R (knownNodes ?b) = insert i (rb_set R (knownNodes b))"
    by (simp add: known_add_def roaring_simps [OF assms(1)])
  have f: "degOut ?b = degOut b" "degIn ?b = degIn b" "b_rels ?b = b_rels b" "nodeLabels ?b = nodeLabels b" "b_relTypes ?b = b_relTypes b"
    "nodeColI64 ?b = nodeColI64 b" "nodeColF64 ?b = nodeColF64 b" "nodeColBool ?b = nodeColBool b" "nodeColStr ?b = nodeColStr b"
    "relColI64 ?b = relColI64 b" "relColF64 ?b = relColF64 b" "relColBool ?b = relColBool b" "relColStr ?b = relColStr b"
    "relIndex ?b = relIndex b" "removedRels ?b = removedRels b" "removedNodes ?b = removedNodes b" "interner ?b = interner b"
    by (simp_all add: known_add_def)
  then have "same_rels b ?b" by (simp add: same_rels_def)
  note [simp] = same_rels_simps [OF this]
  have "known_inv R ?b" using assms by (auto simp: builder_inv_def known_inv_def f)
  moreover have "cols_inv R ?b" using assms(2) unfolding builder_inv_def cols_inv_def Let_def f by (auto elim: cols_ok_mono)
  ultimately show ?thesis using assms(2) by (simp add: builder_inv_def caps_inv_def rels_inv_def index_inv_def f cong: option.case_cong)
qed

lemma builder_inv_stage_node:
  assumes "builder_inv R b" "i \<in> rb_set R (knownNodes b)"
  shows "builder_inv R (stage_node i key v b)"
proof -
  let ?b = "stage_node i key v b"
  have f: "degOut ?b = degOut b" "degIn ?b = degIn b" "b_rels ?b = b_rels b" "nodeLabels ?b = nodeLabels b" "b_relTypes ?b = b_relTypes b"
    "relColI64 ?b = relColI64 b" "relColF64 ?b = relColF64 b" "relColBool ?b = relColBool b" "relColStr ?b = relColStr b"
    "knownNodes ?b = knownNodes b" "relIndex ?b = relIndex b" "removedRels ?b = removedRels b" "removedNodes ?b = removedNodes b" "interner ?b = interner b"
    by (simp_all add: stage_node_def split: ValueKind.split)
  then have "same_rels b ?b" by (simp add: same_rels_def)
  note [simp] = same_rels_simps [OF this]
  have "cols_inv R ?b" using assms unfolding builder_inv_def cols_inv_def Let_def f
    by (auto simp: stage_node_def intro: cols_ok_stage split: ValueKind.split)
  then show ?thesis using assms(1) by (simp add: builder_inv_def caps_inv_def rels_inv_def known_inv_def index_inv_def f cong: option.case_cong)
qed

lemma builder_inv_stage_rel:
  assumes "builder_inv R b" "unat i < length (b_rels b)"
  shows "builder_inv R (stage_rel i key v b)"
proof -
  let ?b = "stage_rel i key v b"
  have f: "degOut ?b = degOut b" "degIn ?b = degIn b" "b_rels ?b = b_rels b" "nodeLabels ?b = nodeLabels b" "b_relTypes ?b = b_relTypes b"
    "nodeColI64 ?b = nodeColI64 b" "nodeColF64 ?b = nodeColF64 b" "nodeColBool ?b = nodeColBool b" "nodeColStr ?b = nodeColStr b"
    "knownNodes ?b = knownNodes b" "relIndex ?b = relIndex b" "removedRels ?b = removedRels b" "removedNodes ?b = removedNodes b" "interner ?b = interner b"
    by (simp_all add: stage_rel_def split: ValueKind.split)
  then have "same_rels b ?b" by (simp add: same_rels_def)
  note [simp] = same_rels_simps [OF this]
  have "cols_inv R ?b" using assms unfolding builder_inv_def cols_inv_def Let_def f
    by (auto simp: stage_rel_def intro: cols_ok_stage split: ValueKind.split)
  then show ?thesis using assms(1) by (simp add: builder_inv_def caps_inv_def rels_inv_def known_inv_def index_inv_def f cong: option.case_cong)
qed

lemma grow_to_append: "length xs \<le> n \<Longrightarrow> grow_to n z xs = xs @ replicate (n - length xs) z"
  by (simp add: grow_to_def)

lemma count_in_none: "(\<And>i. a \<le> i \<Longrightarrow> i < b \<Longrightarrow> \<not> P i) \<Longrightarrow> count_in P a b = 0"
  by (simp add: count_in_def filter_empty_conv)

lemma deg_inv_grow:
  assumes "deg_inv R b f deg" "\<And>r. r \<in> set (b_rels b) \<Longrightarrow> unat (f r) < length deg"
  shows "deg_inv R b f (deg @ replicate n 0)"
proof -
  have "count_in (\<lambda>i. \<not> tomb R b i \<and> unat (f (b_rels b ! i)) = u) 0 (length (b_rels b)) = 0" if "\<not> u < length deg" for u
    using assms(2) that by (intro count_in_none) (metis nth_mem)
  then show ?thesis using assms(1) by (auto simp: deg_inv_def nth_append)
qed

lemma ensureCapacity_ok:
  assumes inv: "builder_inv R b" and e: "ensureCapacity i b = r"
  shows "\<exists>res b'. r = Some (res, b') \<and> builder_inv R b' \<and> same_rels b b' \<and> interner b' = interner b \<and> knownNodes b' = knownNodes b
      \<and> (case res of Inl err \<Rightarrow> err = ErrCapacity \<and> unat i = maxSize \<and> b' = b | Inr _ \<Rightarrow> unat i < length (degOut b'))"
proof (cases "unat i < length (degOut b)")
  case True
  then show ?thesis using assms by (auto simp: ensureCapacity_def same_rels_def)
next
  case big: False
  define n where n: "n = min ((unat i + 1) * 2) maxSize"
  show ?thesis
  proof (cases "n \<le> unat i")
    case True
    then have "unat i = maxSize" unfolding n using unat_u32 [of i] by (auto simp: maxSize_def min_def split: if_splits)
    then show ?thesis using big True inv e by (auto simp: ensureCapacity_def same_rels_def Let_def n)
  next
    case False
    define b2 where b2: "b2 = b\<lparr>degOut := grow_to n 0 (degOut b), degIn := grow_to n 0 (degIn b), nodeLabels := grow_to n [] (nodeLabels b)\<rparr>"
    then have "same_rels b b2" by (simp add: same_rels_def)
    note [simp] = same_rels_simps [OF this]
    have caps: "caps_inv b" using inv by (simp add: builder_inv_def)
    then have le: "length (degOut b) \<le> n" "length (degIn b) \<le> n" "length (nodeLabels b) \<le> n"
      using big False by (auto simp: caps_inv_def)
    obtain m where f: "degOut b2 = degOut b @ replicate m 0" "degIn b2 = degIn b @ replicate m 0" "nodeLabels b2 = nodeLabels b @ replicate m []"
      using caps le by (simp add: b2 grow_to_append caps_inv_def)
    have rest: "b_rels b2 = b_rels b" "b_relTypes b2 = b_relTypes b" "removedRels b2 = removedRels b" "removedNodes b2 = removedNodes b"
      "relIndex b2 = relIndex b" "interner b2 = interner b" "knownNodes b2 = knownNodes b" by (simp_all add: b2)
    have "caps_inv b2" using caps by (auto simp: caps_inv_def f rest)
    moreover have "deg_inv R b fst (degOut b2)" "deg_inv R b snd (degIn b2)" using inv caps unfolding f
      by (auto intro!: deg_inv_grow simp: builder_inv_def rels_inv_def caps_inv_def)
    then have "rels_inv R b2" using inv by (simp add: builder_inv_def rels_inv_def rest cong: option.case_cong)
    moreover have "known_inv R b2" using inv by (fastforce simp: builder_inv_def known_inv_def f rest nth_append)
    moreover have "cols_inv R b2" using inv by (simp add: b2 builder_inv_def cols_inv_def)
    ultimately have "builder_inv R b2" using inv by (simp add: builder_inv_def index_inv_def rest cong: option.case_cong)
    moreover have "unat i < length (degOut b2)" using False le by (simp add: b2 grow_to_append)
    moreover have "r = Some (Inr (), b2)"
      using big False unfolding e [symmetric] ensureCapacity_def Let_def n [symmetric] b2 by simp
    ultimately show ?thesis by (simp add: same_rels_def rest)
  qed
qed

section \<open>Operations that return and keep the invariant\<close>

text \<open>\<open>interned b\<close> counts the strings of the interner; \<open>safe R n r\<close>: the operation returned, with the invariant and at most \<open>n\<close> strings.\<close>

definition interned :: "'bm Builder \<Rightarrow> nat" where
  "interned b = length (int_strings (interner b))"

definition good :: "'bm roaring \<Rightarrow> nat \<Rightarrow> 'bm Builder \<Rightarrow> bool" where
  "good R n b \<longleftrightarrow> builder_inv R b \<and> interned b \<le> n"

definition safe :: "'bm roaring \<Rightarrow> nat \<Rightarrow> ('a, 'bm) bres \<Rightarrow> bool" where
  "safe R n r \<longleftrightarrow> (\<exists>res b. r = Some (res, b) \<and> good R n b)"

lemma safe_Some [simp]: "safe R n (Some (res, b)) \<longleftrightarrow> good R n b"
  by (simp add: safe_def)

lemma good_mono: "good R n b \<Longrightarrow> n \<le> m \<Longrightarrow> good R m b"
  by (simp add: good_def)

lemma safe_bbind:
  assumes "safe R n r" "\<And>x b. r = Some (Inr x, b) \<Longrightarrow> good R n b \<Longrightarrow> safe R m (f x b)" "n \<le> m"
  shows "safe R m (bbind r f)"
  using assms by (auto simp: bbind_def safe_def split: sum.split elim: good_mono)

lemma good_ensureCapacity:
  assumes "good R n b"
  shows "safe R n (ensureCapacity i b)" "ensureCapacity i b = Some (Inr (), b') \<Longrightarrow> unat i < length (degOut b')"
  using ensureCapacity_ok [of R b i, OF _ refl] assms by (fastforce simp: good_def interned_def)+

lemma good_intern:
  assumes "good R n b" "n < 2 ^ 32" "intern s b = (a, b')"
  shows "good R (Suc n) b'" "int_index (interner b') s = Some a" "same_staging b b'" "\<exists>ys. int_strings (interner b') = int_strings (interner b) @ ys"
proof -
  obtain inr where g: "GetOrIntern (interner b) s = (a, inr)" and b': "b' = b\<lparr>interner := inr\<rparr>"
    using assms(3) by (auto simp: intern_def split: prod.splits)
  have wf: "interner_wf (interner b)" "length (int_strings (interner b)) < 2 ^ 32"
    using assms by (auto simp: good_def builder_inv_def interned_def)
  note ok = GetOrIntern_ok [OF wf(1) g wf(2)]
  show ss: "same_staging b b'" by (simp add: b' same_staging_def)
  show "int_index (interner b') s = Some a" "\<exists>ys. int_strings (interner b') = int_strings (interner b) @ ys" using ok by (simp_all add: b')
  show "good R (Suc n) b'" using same_staging_inv [OF ss, of R] ok(1,5) assms(1) by (auto simp: good_def b' interned_def)
qed

lemma good_marks [simp]:
  assumes "good R n b"
  shows "good R n (markNodeColDirty k b)" "good R n (markRelColDirty k b)" "good R n (markLabelDirty l b)" "good R n (markRelsDirty b)"
  using assms by (auto simp: good_def interned_def)

lemma good_known_add:
  assumes "roaring_laws R" "good R n b" "unat i < length (degOut b)"
  shows "good R n (known_add R i b)"
  using assms builder_inv_known_add [of R b i] by (simp add: good_def interned_def known_add_def)

lemma good_length: "good R n b \<Longrightarrow> length (nodeLabels b) = length (degOut b) \<and> length (degIn b) = length (degOut b)"
  by (simp add: good_def builder_inv_def caps_inv_def)

text \<open>Labels are added before the node is known, so the loop invariant is about the builder with the node added.\<close>

lemma known_add_marks: "known_add R i (b\<lparr>nodeLabels := ls\<rparr>) = (known_add R i b)\<lparr>nodeLabels := ls\<rparr>"
  "known_add R i (markLabelDirty l b) = markLabelDirty l (known_add R i b)"
  "known_add R i (markNodeColDirty l b) = markNodeColDirty l (known_add R i b)"
  by (simp_all add: known_add_def markLabelDirty_def markNodeColDirty_def)

lemma add_label_ok:
  assumes R: "roaring_laws R" and g: "good R n (known_add R i b)" and n: "n < 2 ^ 32" and i: "unat i < length (nodeLabels b)"
  shows "\<exists>b'. add_label i l b = Some b' \<and> good R (Suc n) (known_add R i b') \<and> unat i < length (nodeLabels b')"
proof -
  obtain a b1 where int: "intern l b = (a, b1)" by fastforce
  then have "intern l (known_add R i b) = (a, known_add R i b1)"
    by (auto simp: intern_def known_add_def split: prod.splits)
  note gi = good_intern [OF g n this]
  have k: "nodeLabels b1 = nodeLabels b" "i \<in> rb_set R (knownNodes (known_add R i b1))"
    using gi(3) by (auto simp: same_staging_def known_add_def roaring_simps [OF R])
  let ?ls = "(nodeLabels b)[unat i := nodeLabels b ! unat i @ [a]]"
  have "good R (Suc n) ((known_add R i b1)\<lparr>nodeLabels := ?ls\<rparr>)"
    using gi(1) k builder_inv_labels [of R "known_add R i b1" i] by (auto simp: good_def interned_def known_add_def)
  then have "good R (Suc n) (known_add R i (markLabelDirty a (b1\<lparr>nodeLabels := ?ls\<rparr>)))"
    by (simp add: known_add_marks)
  then show ?thesis using i k(1) int by (simp add: add_label_def) (simp add: markLabelDirty_def)
qed

lemma add_labels_ok:
  assumes "roaring_laws R" "good R n (known_add R i b)" "n + length ls \<le> 2 ^ 32" "unat i < length (nodeLabels b)"
  shows "\<exists>b'. fold_opt (add_label i) ls b = Some b' \<and> good R (n + length ls) (known_add R i b')"
  using assms(2-)
proof (induction ls arbitrary: n b)
  case (Cons l ls)
  from add_label_ok [OF assms(1) Cons.prems(1), of l] Cons.prems obtain b' where
    b': "add_label i l b = Some b'" "good R (Suc n) (known_add R i b')" "unat i < length (nodeLabels b')" by auto
  then show ?case using Cons.IH [OF b'(2)] Cons.prems by auto
qed simp

lemma safe_addNodeAt:
  assumes "roaring_laws R" "good R n b" "n + length ls \<le> 2 ^ 32"
  shows "safe R (n + length ls) (addNodeAt R i ls b)"
  unfolding addNodeAt_def
proof (rule safe_bbind [OF good_ensureCapacity(1) [OF assms(2)]])
  fix x b' assume e: "ensureCapacity i b = Some (Inr x, b')" and g: "good R n b'"
  then have "unat i < length (degOut b')" using good_ensureCapacity(2) [OF assms(2)] by simp
  then have k: "good R n (known_add R i b')" "unat i < length (nodeLabels b')"
    using good_known_add [OF assms(1) g] good_length [OF g] by auto
  from add_labels_ok [OF assms(1) k(1) assms(3) k(2)]
  show "safe R (n + length ls) (fold_opt (add_label i) ls b' \<bind> (\<lambda>b. Some (Inr i, known_add R i b)))" by auto
qed simp

lemma good_next [simp]: "good R n (b\<lparr>nextNodeID := k\<rparr>) \<longleftrightarrow> good R n b"
proof -
  have "same_staging b (b\<lparr>nextNodeID := k\<rparr>)" "same_staging (b\<lparr>nextNodeID := k\<rparr>) b" by (simp_all add: same_staging_def)
  from same_staging_inv [OF this(1), of R] same_staging_inv [OF this(2), of R] show ?thesis
    by (auto simp: good_def interned_def builder_inv_def)
qed

lemma safe_AddNode:
  assumes "roaring_laws R" "good R n b" "n + length ls \<le> 2 ^ 32"
  shows "safe R (n + length ls) (AddNode R ls b)" "safe R (n + length ls) (AddNodeWithID R i ls b)"
  using assms by (auto simp: AddNode_def AddNodeWithID_def Let_def elim: good_mono intro!: safe_addNodeAt)

section \<open>Adding relationships\<close>

lemma unat_inc: "unat w < 2 ^ 32 - 1 \<Longrightarrow> unat (w + 1) = Suc (unat w)" for w :: u32
  by (simp add: unat_word_ariths)

lemma below_mark_bound: "rels_inv R b \<Longrightarrow> below_mark b x i \<Longrightarrow> i < length (b_rels b)"
  by (fastforce simp: rels_inv_def below_mark_def split: option.splits dest!: map_of_SomeD)

lemma tomb_bound:
  assumes "rels_inv R b" "length (b_rels b) \<le> i" "i < 2 ^ 32"
  shows "\<not> tomb R b i"
  using assms by (fastforce simp: rels_inv_def tomb_def rb_set_def split: option.splits)

lemma deg_inv_snoc:
  assumes "deg_inv R b f deg" "rels_inv R b" "length (b_rels b) < maxSize" "unat (f r) < length deg"
    and b': "b_rels b' = b_rels b @ [r]" "removedRels b' = removedRels b"
  shows "deg_inv R b' f (deg[unat (f r) := deg ! unat (f r) + 1])"
proof -
  let ?P = "\<lambda>b u i. \<not> tomb R b i \<and> unat (f (b_rels b ! i)) = u"
  have "tomb R b' = tomb R b" by (simp add: tomb_def b' fun_eq_iff)
  moreover have "\<not> tomb R b (length (b_rels b))" using tomb_bound [OF assms(2)] assms(3) by (simp add: maxSize_def)
  ultimately have cnt: "count_in (?P b' u) 0 (length (b_rels b')) = count_in (?P b u) 0 (length (b_rels b)) + (if u = unat (f r) then 1 else 0)" for u
    unfolding b' by (auto simp: count_in_Suc nth_append intro!: count_in_cong)
  have "unat (deg ! unat (f r)) < 2 ^ 32 - 1"
    using assms(1,3,4) count_in_le [of "?P b (unat (f r))" 0 "length (b_rels b)"] by (simp add: deg_inv_def maxSize_def)
  then show ?thesis using assms(1,4) by (auto simp: deg_inv_def cnt nth_list_update unat_inc)
qed

text \<open>Everything that \<open>addRelTyped\<close> changes after the endpoints are known.\<close>

lemma builder_inv_add_rel:
  assumes inv: "builder_inv R b" and room: "length (b_rels b) < maxSize"
    and ends: "u \<in> rb_set R (knownNodes b)" "v \<in> rb_set R (knownNodes b)"
    and b': "b' = b\<lparr>degOut := (degOut b)[unat u := degOut b ! unat u + 1], degIn := (degIn b)[unat v := degIn b ! unat v + 1],
        b_rels := b_rels b @ [(u, v)], b_relTypes := b_relTypes b @ [t],
        relIndex := map_option (rel_index_add (u, v, t) (length (b_rels b))) (relIndex b)\<rparr>"
  shows "builder_inv R b'"
proof -
  have i: "caps_inv b" "rels_inv R b" "known_inv R b" "cols_inv R b" "index_inv R b" using inv by (auto simp: builder_inv_def)
  have lt: "unat u < length (degOut b)" "unat v < length (degIn b)" using i(1,3) ends by (auto simp: known_inv_def caps_inv_def)
  have f: "b_rels b' = b_rels b @ [(u, v)]" "removedRels b' = removedRels b" "removedNodes b' = removedNodes b" "b_relTypes b' = b_relTypes b @ [t]"
    "relIndex b' = map_option (rel_index_add (u, v, t) (length (b_rels b))) (relIndex b)" "knownNodes b' = knownNodes b" "nodeLabels b' = nodeLabels b"
    "length (degOut b') = length (degOut b)" by (simp_all add: b')
  have bm: "below_mark b' = below_mark b" by (simp add: below_mark_def f fun_eq_iff)
  have old: "relRemoved R b' j = relRemoved R b j" if "j < length (b_rels b)" for j
    using that by (simp add: relRemoved_def f bm nth_append)
  have new: "\<not> relRemoved R b' (length (b_rels b))"
    using below_mark_bound [OF i(2)] tomb_bound [OF i(2)] room unfolding inv_relRemoved by (auto simp: bm f tomb_def maxSize_def)
  have "caps_inv b'" using i(1) lt by (auto simp: caps_inv_def b')
  moreover have "rels_inv R b'"
    using i(2) room lt deg_inv_snoc [where f = fst and b = b and b' = b' and r = "(u, v)" and R = R and deg = "degOut b"]
      deg_inv_snoc [where f = snd and b = b and b' = b' and r = "(u, v)" and R = R and deg = "degIn b"]
    by (auto simp: rels_inv_def b' split: option.splits)
  moreover have "known_inv R b'" using i(3) ends new old by (auto simp: known_inv_def less_Suc_eq nth_append f)
  moreover have "cols_inv R b'" using i(4) unfolding cols_inv_def Let_def by (auto simp: b' elim: cols_ok_mono)
  moreover have "index_inv R b'"
  proof (cases "relIndex b")
    case (Some m)
    have k: "key_at b' j = key_at b j" if "j < length (b_rels b)" for j
      using that i(2) by (simp add: key_at_def f nth_append rels_inv_def)
    have kn: "key_at b' (length (b_rels b)) = (u, v, t)" using i(2) by (simp add: key_at_def f nth_append rels_inv_def)
    have "first_live R b' key = rel_index_add (u, v, t) (length (b_rels b)) (first_live R b) key" for key
    proof -
      have "find (\<lambda>i. \<not> relRemoved R b' i \<and> key_at b' i = key) [0..<length (b_rels b)] = first_live R b key"
        unfolding first_live_def by (rule find_cong) (auto simp: old k)
      then show ?thesis using new kn by (auto simp: first_live_def f find_append rel_index_add_def split: option.splits)
    qed
    then have "first_live R b' = rel_index_add (u, v, t) (length (b_rels b)) (first_live R b)" by (rule ext)
    then show ?thesis using i(5) Some by (simp add: index_inv_def f)
  qed (simp add: index_inv_def f)
  ultimately show ?thesis using inv by (simp add: builder_inv_def b')
qed

lemma known_add_rel:
  "known_add R i (b\<lparr>degOut := p, degIn := q, b_rels := rs, b_relTypes := ts, relIndex := x\<rparr>)
     = (known_add R i b)\<lparr>degOut := p, degIn := q, b_rels := rs, b_relTypes := ts, relIndex := x\<rparr>"
  by (simp add: known_add_def)

lemma safe_addRelTyped:
  assumes R: "roaring_laws R" and g: "good R n b"
  shows "safe R n (addRelTyped R u v t b)"
  unfolding addRelTyped_def
proof (rule safe_bbind [OF good_ensureCapacity(1) [OF g]])
  fix x b1 assume e: "ensureCapacity (max u v) b = Some (Inr x, b1)" and g1: "good R n b1"
  let ?b = "markRelsDirty b1"
  let ?k = "known_add R v (known_add R u ?b)"
  show "safe R n (if length (b_rels b1) \<ge> maxSize then Some (Inl ErrCapacity, b1)
     else let b = markRelsDirty b1; idx = length (b_rels b) in do {
           dOut \<leftarrow> inc_at (degOut b) u; dIn \<leftarrow> inc_at (degIn b) v;
           Some (Inr idx, known_add R v (known_add R u (b\<lparr>degOut := dOut, degIn := dIn, b_rels := b_rels b @ [(u, v)],
             b_relTypes := b_relTypes b @ [t], relIndex := map_option (rel_index_add (u, v, t) idx) (relIndex b)\<rparr>))) })"
  proof (cases "length (b_rels b1) \<ge> maxSize")
    case False
    have "unat (max u v) < length (degOut b1)" using good_ensureCapacity(2) [OF g] e by simp
    then have lt: "unat u < length (degOut b1)" "unat v < length (degOut b1)" by (auto simp: max_def word_le_nat_alt split: if_splits)
    have m: "degOut ?b = degOut b1" "degIn ?b = degIn b1" "b_rels ?b = b_rels b1" using marks_same(4) [of b1] by (simp_all add: same_staging_def)
    have "good R n ?k" using g1 lt by (auto intro!: good_known_add [OF R] simp: m) (simp add: known_add_def m)
    moreover have "u \<in> rb_set R (knownNodes ?k)" "v \<in> rb_set R (knownNodes ?k)" by (simp_all add: known_add_def roaring_simps [OF R])
    moreover have k: "degOut ?k = degOut ?b" "degIn ?k = degIn ?b" "b_rels ?k = b_rels ?b" "b_relTypes ?k = b_relTypes ?b" "relIndex ?k = relIndex ?b"
      by (simp_all add: known_add_def)
    ultimately have inv: "builder_inv R (?k\<lparr>degOut := (degOut ?b)[unat u := degOut ?b ! unat u + 1], degIn := (degIn ?b)[unat v := degIn ?b ! unat v + 1],
        b_rels := b_rels ?b @ [(u, v)], b_relTypes := b_relTypes ?b @ [t],
        relIndex := map_option (rel_index_add (u, v, t) (length (b_rels ?b))) (relIndex ?b)\<rparr>)"
      using False builder_inv_add_rel [where R = R and b = ?k and u = u and v = v, OF _ _ _ _ refl] unfolding k good_def m by simp
    have "interner ?k = interner b1" by (simp add: known_add_def)
    then show ?thesis using False lt good_length [OF g1] g1 inv
      by (simp add: inc_at_def Let_def good_def interned_def m known_add_rel)
  qed (use g1 in simp)
qed simp

lemma safe_AddRel:
  assumes "roaring_laws R" "good R n b" "n < 2 ^ 32"
  shows "safe R (Suc n) (AddRel R u v s b)"
proof -
  obtain a b' where "intern s b = (a, b')" by fastforce
  with good_intern(1) [OF assms(2,3) this] show ?thesis by (simp add: AddRel_def safe_addRelTyped [OF assms(1)])
qed

section \<open>Staging properties\<close>

lemma safe_stageValue:
  assumes "good R n b" "n < 2 ^ 32"
  shows "safe R (Suc n) (Some (stageValue v b))"
proof (cases v)
  case (AnyStr s)
  obtain a b' where "intern s b = (a, b')" by fastforce
  with good_intern(1) [OF assms this] AnyStr show ?thesis by (simp add: stageValue_def)
qed (use assms in \<open>auto simp: stageValue_def elim: good_mono\<close>)

lemma safe_SetPropByKey:
  assumes R: "roaring_laws R" and "good R n b" "n < 2 ^ 32"
  shows "safe R (Suc n) (SetPropByKey R node key value b)"
  unfolding SetPropByKey_def
proof (rule safe_bbind [OF safe_stageValue [OF assms(2,3)]])
  fix v b1 assume g: "good R (Suc n) b1"
  show "safe R (Suc n) (bbind (ensureCapacity node b1) (\<lambda>_ b. Some (Inr (), known_add R node (stage_node node key v (markNodeColDirty key b)))))"
  proof (rule safe_bbind [OF good_ensureCapacity(1) [OF g]])
    fix x b2 assume e: "ensureCapacity node b1 = Some (Inr x, b2)" and g2: "good R (Suc n) b2"
    let ?k = "known_add R node (markNodeColDirty key b2)"
    have "degOut (markNodeColDirty key b2) = degOut b2" using marks_same(1) [of b2 key] by (simp add: same_staging_def)
    then have "good R (Suc n) ?k" using good_ensureCapacity(2) [OF g, of node b2] e g2 by (auto intro: good_known_add [OF R])
    moreover have "node \<in> rb_set R (knownNodes ?k)" by (simp add: known_add_def roaring_simps [OF R])
    ultimately have "builder_inv R (stage_node node key v ?k) \<and> interned ?k \<le> Suc n"
      by (simp add: good_def builder_inv_stage_node)
    moreover have "known_add R node (stage_node node key v b) = stage_node node key v (known_add R node b)" for b :: "'a Builder"
      by (simp add: known_add_def stage_node_def split: ValueKind.split)
    moreover have "interned (stage_node node key v b) = interned b" for b :: "'a Builder"
      by (simp add: interned_def stage_node_def split: ValueKind.split)
    ultimately show "safe R (Suc n) (Some (Inr (), known_add R node (stage_node node key v (markNodeColDirty key b2))))"
      by (simp add: good_def)
  qed simp
qed simp

lemma safe_SetProp:
  assumes "roaring_laws R" "good R n b" "Suc n < 2 ^ 32"
  shows "safe R (n + 2) (SetProp R node key value b)"
proof -
  obtain a b' where i: "intern key b = (a, b')" by fastforce
  have "good R (Suc n) b'" using good_intern(1) [OF assms(2) _ i] assms(3) by simp
  from safe_SetPropByKey [OF assms(1) this assms(3)] show ?thesis by (simp add: SetProp_def i)
qed

lemma builder_inv_node_cols:
  assumes "builder_inv R b" "\<And>P. cols_ok P (nodeColI64 b) \<Longrightarrow> cols_ok P c1" "\<And>P. cols_ok P (nodeColF64 b) \<Longrightarrow> cols_ok P c2"
    "\<And>P. cols_ok P (nodeColBool b) \<Longrightarrow> cols_ok P c3" "\<And>P. cols_ok P (nodeColStr b) \<Longrightarrow> cols_ok P c4"
  shows "builder_inv R (b\<lparr>nodeColI64 := c1, nodeColF64 := c2, nodeColBool := c3, nodeColStr := c4\<rparr>)" (is "builder_inv R ?b")
proof -
  have "same_rels b ?b" by (simp add: same_rels_def)
  note [simp] = same_rels_simps [OF this]
  have "cols_inv R ?b" using assms by (simp add: builder_inv_def cols_inv_def Let_def)
  then show ?thesis using assms(1) by (simp add: builder_inv_def caps_inv_def rels_inv_def known_inv_def index_inv_def cong: option.case_cong)
qed

lemma builder_inv_rel_cols:
  assumes "builder_inv R b" "\<And>P. cols_ok P (relColI64 b) \<Longrightarrow> cols_ok P c1" "\<And>P. cols_ok P (relColF64 b) \<Longrightarrow> cols_ok P c2"
    "\<And>P. cols_ok P (relColBool b) \<Longrightarrow> cols_ok P c3" "\<And>P. cols_ok P (relColStr b) \<Longrightarrow> cols_ok P c4"
  shows "builder_inv R (b\<lparr>relColI64 := c1, relColF64 := c2, relColBool := c3, relColStr := c4\<rparr>)" (is "builder_inv R ?b")
proof -
  have "same_rels b ?b" by (simp add: same_rels_def)
  note [simp] = same_rels_simps [OF this]
  have "cols_inv R ?b" using assms by (simp add: builder_inv_def cols_inv_def Let_def)
  then show ?thesis using assms(1) by (simp add: builder_inv_def caps_inv_def rels_inv_def known_inv_def index_inv_def cong: option.case_cong)
qed

lemma good_removeNodePropPairsByKey:
  assumes "good R n b"
  shows "good R n (snd (removeNodePropPairsByKey node key b))"
proof -
  obtain c1 r1 c2 r2 c3 r3 c4 r4 where s: "sweepPairs key node (nodeColI64 b) = (c1, r1)" "sweepPairs key node (nodeColF64 b) = (c2, r2)"
    "sweepPairs key node (nodeColBool b) = (c3, r3)" "sweepPairs key node (nodeColStr b) = (c4, r4)" by (meson surj_pair)
  have "builder_inv R (b\<lparr>nodeColI64 := c1, nodeColF64 := c2, nodeColBool := c3, nodeColStr := c4\<rparr>)"
    using assms s by (auto simp: good_def intro!: builder_inv_node_cols dest: sweepPairs_ok(1))
  then have "good R n (b\<lparr>nodeColI64 := c1, nodeColF64 := c2, nodeColBool := c3, nodeColStr := c4\<rparr>)" using assms by (simp add: good_def interned_def)
  then show ?thesis by (simp add: removeNodePropPairsByKey_def s Let_def)
qed

lemma safe_UpdateProp:
  assumes R: "roaring_laws R" and g: "good R n b" and n: "n + 2 < 2 ^ 32"
  shows "safe R (n + 3) (UpdateProp R node key value b)"
proof -
  obtain k b1 where i: "intern key b = (k, b1)" by fastforce
  then have g1: "good R (Suc n) b1" using good_intern(1) [OF g _ i] n by simp
  have "safe R (n + 3) (bbind (Some (stageValue value b1)) (\<lambda>v b. SetPropByKey R node k (AnyV v) (snd (removeNodePropPairsByKey node k b))))"
  proof (rule safe_bbind [OF safe_stageValue [OF g1]])
    fix v b2 assume "good R (Suc (Suc n)) b2"
    then have "good R (Suc (Suc n)) (snd (removeNodePropPairsByKey node k b2))" by (rule good_removeNodePropPairsByKey)
    from safe_SetPropByKey [OF R this] n show "safe R (n + 3) (SetPropByKey R node k (AnyV v) (snd (removeNodePropPairsByKey node k b2)))"
      by (simp add: numeral_3_eq_3)
  qed (use n in auto)
  then show ?thesis by (simp add: UpdateProp_def i)
qed

lemma good_RemoveProp: "good R n b \<Longrightarrow> good R n (snd (RemoveProp node key b))"
  by (simp add: RemoveProp_def good_removeNodePropPairsByKey split: option.split)

section \<open>Looking up relationships\<close>

lemma fold_rel_index:
  assumes "length (b_relTypes b) = length (b_rels b)" "k \<le> length (b_rels b)"
  shows "fold_opt (rel_index_step R b) [0..<k] Map.empty = Some (\<lambda>key. find (\<lambda>i. \<not> relRemoved R b i \<and> key_at b i = key) [0..<k])"
  using assms(2)
proof (induction k)
  case (Suc k)
  then show ?case using assms(1)
    by (auto simp: fold_opt_append rel_index_step_def rel_index_add_def key_at_def find_append fun_eq_iff split: option.splits)
qed simp

lemma relIndex_update_self: "\<exists>x. b = b\<lparr>relIndex := x\<rparr>"
  by (rule exI [of _ "relIndex b"]) simp

lemma build_rel_index_ok:
  assumes "good R n b"
  shows "\<exists>b'. build_rel_index R b = Some b' \<and> good R n b' \<and> relIndex b' = Some (first_live R b) \<and> (\<exists>x. b' = b\<lparr>relIndex := x\<rparr>)"
proof (cases "relIndex b")
  case (Some m)
  then show ?thesis using assms relIndex_update_self [of b] by (auto simp: build_rel_index_def good_def builder_inv_def index_inv_def)
next
  case None
  let ?b = "b\<lparr>relIndex := Some (first_live R b)\<rparr>"
  have "same_rels b ?b" by (simp add: same_rels_def)
  note [simp] = same_rels_simps [OF this]
  have "length (b_relTypes b) = length (b_rels b)" using assms by (simp add: good_def builder_inv_def rels_inv_def)
  from fold_rel_index [OF this order_refl, where R = R] have "build_rel_index R b = Some ?b"
    by (simp add: build_rel_index_def None first_live_def [abs_def])
  moreover have "good R n ?b" using assms
    by (simp add: good_def interned_def builder_inv_def caps_inv_def rels_inv_def known_inv_def cols_inv_def index_inv_def cong: option.case_cong)
  ultimately show ?thesis by auto
qed

text \<open>The lookup returns the first live relationship of the key, and fills the lazy map at most.\<close>

lemma findRelIndex_ok:
  assumes "good R n b"
  shows "\<exists>b'. findRelIndex R u v s b = Some (case Interner_Get (interner b) s of None \<Rightarrow> None | Some t \<Rightarrow> first_live R b (u, v, t), b')
     \<and> good R n b' \<and> (\<exists>x. b' = b\<lparr>relIndex := x\<rparr>)"
proof (cases "Interner_Get (interner b) s")
  case None
  then show ?thesis using assms by (intro exI [of _ b]) (simp add: findRelIndex_def relIndex_update_self)
next
  case (Some t)
  obtain b' where b': "build_rel_index R b = Some b'" "good R n b'" "relIndex b' = Some (first_live R b)" "(\<exists>x. b' = b\<lparr>relIndex := x\<rparr>)"
    using build_rel_index_ok [OF assms] by blast
  have "findRelIndex R u v s b = Some (first_live R b (u, v, t), b')" using b'(1,3) by (simp add: findRelIndex_def Some)
  then show ?thesis unfolding Some option.case using b'(2,4) by blast
qed

lemma first_live_Some:
  assumes "first_live R b key = Some i"
  shows "i < length (b_rels b)" "\<not> relRemoved R b i" "key_at b i = key"
  using assms by (auto simp: first_live_def find_Some_iff)

lemma relIndex_update_removed: "b' = b\<lparr>relIndex := x\<rparr> \<Longrightarrow> b_rels b' = b_rels b \<and> relRemoved R b' = relRemoved R b"
  using same_rels_simps(1) [of b b' R] by (simp add: same_rels_def)

lemma safe_SetRelPropAt:
  assumes "good R n b" "Suc n < 2 ^ 32"
  shows "safe R (n + 2) (SetRelPropAt R i key value b)"
proof (cases "i < 0 \<or> i \<ge> int (length (b_rels b)) \<or> relRemoved R b (nat i)")
  case True
  then show ?thesis using assms(1) by (auto simp: SetRelPropAt_def elim: good_mono)
next
  case False
  obtain k b1 where int: "intern key b = (k, b1)" by fastforce
  then have g1: "good R (Suc n) b1" and r1: "b_rels b1 = b_rels b"
    using good_intern(1,3) [OF assms(1) _ int] assms(2) by (auto simp: same_staging_def)
  have "safe R (n + 2) (bbind (Some (stageValue value b1)) (\<lambda>v b. Some (Inr (), stage_rel (of_int i) k v (markRelColDirty k b))))"
  proof (rule safe_bbind [OF safe_stageValue [OF g1 assms(2)]])
    fix v b2 assume st: "Some (stageValue value b1) = Some (Inr v, b2)" and g2: "good R (Suc (Suc n)) b2"
    have "b_rels b2 = b_rels b1" using st by (auto simp: stageValue_def intern_def split: AnyValue.splits prod.splits)
    then have l: "b_rels (markRelColDirty k b2) = b_rels b" using marks_same(2) [of b2 k] r1 by (simp add: same_staging_def)
    have "length (b_rels b) \<le> maxSize" using assms(1) by (simp add: good_def builder_inv_def rels_inv_def)
    then have "nat i < 2 ^ 32" "nat i < length (b_rels b)" using False by (auto simp: maxSize_def)
    then have "unat (of_int i :: u32) < length (b_rels b)" using False unat_of_nat_less [where 'a = 32 and n = "nat i"]
      by (simp add: of_nat_nat not_less)
    then have "builder_inv R (stage_rel (of_int i) k v (markRelColDirty k b2))" using g2 l
      by (intro builder_inv_stage_rel) (auto simp: good_def)
    moreover have "interned (stage_rel j k v b) = interned b" for b :: "'a Builder" and j
      by (simp add: interned_def stage_rel_def split: ValueKind.split)
    ultimately show "safe R (n + 2) (Some (Inr (), stage_rel (of_int i) k v (markRelColDirty k b2)))"
      using g2 by (simp add: good_def) (simp add: interned_def)
  qed simp
  then show ?thesis using False int by (simp add: SetRelPropAt_def)
qed

lemma safe_SetRelProp:
  assumes "good R n b" "Suc n < 2 ^ 32"
  shows "safe R (n + 2) (SetRelProp R u v s key value b)"
proof -
  obtain found b' where "findRelIndex R u v s b = Some (found, b')" "good R n b'" using findRelIndex_ok [OF assms(1), of u v s] by auto
  then show ?thesis using safe_SetRelPropAt [of R n b'] assms(2)
    by (auto simp: SetRelProp_def elim: good_mono split: option.split)
qed

lemma safe_RemoveRelPropAt:
  assumes "good R n b"
  shows "safe R n (RemoveRelPropAt R i key b)"
proof (cases "i < 0 \<or> i \<ge> int (length (b_rels b)) \<or> relRemoved R b (nat i)")
  case False
  show ?thesis
  proof (cases "Interner_Get (interner b) key")
    case (Some k)
    let ?i = "of_int i :: u32"
    obtain c1 r1 c2 r2 c3 r3 c4 r4 where s: "sweepPairs k ?i (relColI64 b) = (c1, r1)" "sweepPairs k ?i (relColF64 b) = (c2, r2)"
      "sweepPairs k ?i (relColBool b) = (c3, r3)" "sweepPairs k ?i (relColStr b) = (c4, r4)" by (meson surj_pair)
    have "builder_inv R (b\<lparr>relColI64 := c1, relColF64 := c2, relColBool := c3, relColStr := c4\<rparr>)"
      using assms s by (auto simp: good_def intro!: builder_inv_rel_cols dest: sweepPairs_ok(1))
    then have "good R n (b\<lparr>relColI64 := c1, relColF64 := c2, relColBool := c3, relColStr := c4\<rparr>)" using assms by (simp add: good_def interned_def)
    then show ?thesis using False Some by (simp add: RemoveRelPropAt_def s Let_def)
  qed (use False assms in \<open>simp add: RemoveRelPropAt_def\<close>)
qed (use assms in \<open>simp add: RemoveRelPropAt_def\<close>)

lemma safe_RemoveRelProp:
  assumes "good R n b"
  shows "safe R n (RemoveRelProp R u v s key b)"
proof -
  obtain found b' where "findRelIndex R u v s b = Some (found, b')" "good R n b'" using findRelIndex_ok [OF assms(1), of u v s] by auto
  then show ?thesis using safe_RemoveRelPropAt [of R n b'] by (auto simp: RemoveRelProp_def split: option.split)
qed

section \<open>Removing relationships and nodes\<close>

lemma unat_dec: "0 < unat w \<Longrightarrow> unat (w - 1) = unat w - 1" for w :: u32
  by (rule unat_minus_one) (auto simp: unat_gt_0)

lemma of_nat_u32_eq:
  assumes "i < 2 ^ 32" "j < 2 ^ 32"
  shows "of_nat i = (of_nat j :: u32) \<longleftrightarrow> i = j"
proof
  assume "of_nat i = (of_nat j :: u32)"
  then have "unat (of_nat i :: u32) = unat (of_nat j :: u32)" by simp
  then show "i = j" using assms by simp
qed simp

lemma count_in_remove:
  assumes "P k" "k < n"
  shows "count_in (\<lambda>i. i \<noteq> k \<and> P i) 0 n = count_in P 0 n - 1" "0 < count_in P 0 n"
proof -
  have "{i. 0 \<le> i \<and> i < n \<and> i \<noteq> k \<and> P i} = {i. 0 \<le> i \<and> i < n \<and> P i} - {k}" by auto
  then show "count_in (\<lambda>i. i \<noteq> k \<and> P i) 0 n = count_in P 0 n - 1" using assms by (simp add: count_in_card)
  have "k \<in> {i. 0 \<le> i \<and> i < n \<and> P i}" using assms by simp
  then show "0 < count_in P 0 n" unfolding count_in_card by (intro card_gt_0_iff [THEN iffD2]) auto
qed

lemma deg_inv_dec:
  assumes d: "deg_inv R b f deg" and i: "i < length (b_rels b)" "\<not> tomb R b i" "unat (f (b_rels b ! i)) < length deg"
    and b': "b_rels b' = b_rels b" "\<And>j. j < length (b_rels b) \<Longrightarrow> tomb R b' j \<longleftrightarrow> tomb R b j \<or> j = i"
  shows "deg_inv R b' f (deg[unat (f (b_rels b ! i)) := deg ! unat (f (b_rels b ! i)) - 1])"
proof -
  let ?P = "\<lambda>b u j. \<not> tomb R b j \<and> unat (f (b_rels b ! j)) = u"
  let ?u = "unat (f (b_rels b ! i))"
  have "count_in (?P b' u) 0 (length (b_rels b')) = count_in (\<lambda>j. j \<noteq> i \<and> ?P b u j) 0 (length (b_rels b))" for u
    unfolding b'(1) by (rule count_in_cong) (auto simp: b')
  moreover have "count_in (\<lambda>j. j \<noteq> i \<and> ?P b u j) 0 (length (b_rels b)) = count_in (?P b u) 0 (length (b_rels b))" if "u \<noteq> ?u" for u
    using that by (intro count_in_cong) auto
  moreover note count_in_remove [where P = "?P b ?u" and k = i, OF _ i(1)]
  ultimately show ?thesis using d i(2,3) by (auto simp: deg_inv_def nth_list_update unat_dec)
qed

lemma builder_inv_remove_rel:
  assumes R: "roaring_laws R" and inv: "builder_inv R b" and i: "i < length (b_rels b)" "\<not> relRemoved R b i"
    and bm: "\<And>x. x \<in> rb_set R bm \<longleftrightarrow> x = of_nat i \<or> (\<exists>old. removedRels b = Some old \<and> x \<in> rb_set R old)"
    and b': "b' = b\<lparr>removedRels := Some bm, degOut := (degOut b)[unat (fst (b_rels b ! i)) := degOut b ! unat (fst (b_rels b ! i)) - 1],
       degIn := (degIn b)[unat (snd (b_rels b ! i)) := degIn b ! unat (snd (b_rels b ! i)) - 1], relIndex := None\<rparr>"
  shows "builder_inv R b'"
proof -
  have v: "caps_inv b" "rels_inv R b" "known_inv R b" "cols_inv R b" using inv by (auto simp: builder_inv_def)
  have lim: "length (b_rels b) < 2 ^ 32" using v(2) by (simp add: rels_inv_def maxSize_def)
  have tb: "tomb R b' j \<longleftrightarrow> tomb R b j \<or> j = i" if "j < length (b_rels b)" for j
  proof -
    have "of_nat j = (of_nat i :: u32) \<longleftrightarrow> j = i" using of_nat_u32_eq [of j i] that lim i(1) by simp
    then show ?thesis using bm [of "of_nat j"] by (auto simp: tomb_def b' rb_set_def split: option.splits)
  qed
  have mark: "below_mark b' = below_mark b" "b_rels b' = b_rels b" by (simp_all add: below_mark_def b' fun_eq_iff)
  have "\<not> tomb R b i" using i(2) by (simp add: inv_relRemoved)
  moreover have "b_rels b ! i \<in> set (b_rels b)" using i(1) by simp
  then have "unat (fst (b_rels b ! i)) < length (degOut b)" "unat (snd (b_rels b ! i)) < length (degIn b)" using v(1) by (auto simp: caps_inv_def)
  ultimately have d: "deg_inv R b' fst (degOut b')" "deg_inv R b' snd (degIn b')"
    using deg_inv_dec [where f = fst and b = b and b' = b' and R = R and i = i and deg = "degOut b"]
      deg_inv_dec [where f = snd and b = b and b' = b' and R = R and i = i and deg = "degIn b"] v(2) i(1) tb mark(2)
    by (simp_all add: rels_inv_def b')
  have "unat x < length (b_rels b)" if "x \<in> rb_set R bm" for x
    using that v(2) i(1) lim unfolding bm rels_inv_def by auto
  then have "rels_inv R b'" using v(2) d by (simp add: rels_inv_def b')
  moreover have "known_inv R b'"
  proof -
    have "relRemoved R b j \<Longrightarrow> relRemoved R b' j" if "j < length (b_rels b)" for j
      using that tb [OF that] by (auto simp: inv_relRemoved mark)
    then show ?thesis using v(3) by (auto simp: known_inv_def mark(2)) (auto simp: b')
  qed
  moreover have "caps_inv b'" using v(1) by (auto simp: caps_inv_def b')
  ultimately show ?thesis using v(4) inv by (simp add: builder_inv_def cols_inv_def index_inv_def b')
qed

lemma safe_RemoveRel:
  assumes R: "roaring_laws R" and g: "good R n b"
  shows "safe R n (RemoveRel R i b)"
proof (cases "i < 0 \<or> i \<ge> int (length (b_rels b)) \<or> relRemoved R b (nat i)")
  case False
  let ?b = "markRelsDirty b" and ?i = "nat i"
  let ?bm = "case removedRels b of None \<Rightarrow> rb_New R | Some bm \<Rightarrow> bm"
  have m: "degOut ?b = degOut b" "degIn ?b = degIn b" "b_rels ?b = b_rels b" "removedRels ?b = removedRels b" "relRemoved R ?b = relRemoved R b"
    using marks_same(4) [of b] same_staging_simps(1) [OF marks_same(4) [of b], where R = R] by (simp_all add: same_staging_def)
  have i: "?i < length (b_rels ?b)" "\<not> relRemoved R ?b ?i" "of_int i = (of_nat ?i :: u32)" using False by (auto simp: m of_nat_nat)
  have inv: "builder_inv R ?b" using g by (simp add: good_def)
  have bm: "x \<in> rb_set R (rb_Add R ?bm (of_nat ?i)) \<longleftrightarrow> x = of_nat ?i \<or> (\<exists>old. removedRels ?b = Some old \<and> x \<in> rb_set R old)" for x
    by (auto simp: roaring_simps [OF R] m split: option.split)
  note after = builder_inv_remove_rel [OF R inv i(1,2) bm refl]
  have "b_rels b ! ?i \<in> set (b_rels b)" using i(1) by (simp add: m)
  then have lt: "unat (fst (b_rels b ! ?i)) < length (degOut b)" "unat (snd (b_rels b ! ?i)) < length (degIn b)"
    using g by (auto simp: good_def builder_inv_def caps_inv_def)
  then show ?thesis using False g after unfolding RemoveRel_def i(3)
    by (simp add: Let_def dec_at_def m good_def interned_def)
qed (use g in \<open>auto simp: RemoveRel_def\<close>)

lemma fold_marks_same:
  "same_staging b (fold markLabelDirty ls b) \<and> interner (fold markLabelDirty ls b) = interner b"
  "same_staging b (fold markNodeColDirty ls b) \<and> interner (fold markNodeColDirty ls b) = interner b"
proof -
  have "same_staging b (fold markLabelDirty ls b) \<and> interner (fold markLabelDirty ls b) = interner b" for b :: "'a Builder"
    by (induction ls arbitrary: b) (simp_all add: same_staging_def markLabelDirty_def)
  moreover have "same_staging b (fold markNodeColDirty ls b) \<and> interner (fold markNodeColDirty ls b) = interner b" for b :: "'a Builder"
    by (induction ls arbitrary: b) (simp_all add: same_staging_def markNodeColDirty_def)
  ultimately show "same_staging b (fold markLabelDirty ls b) \<and> interner (fold markLabelDirty ls b) = interner b"
    "same_staging b (fold markNodeColDirty ls b) \<and> interner (fold markNodeColDirty ls b) = interner b" by auto
qed

text \<open>What \<open>RemoveNode\<close> leaves, up to dirty marks.\<close>

definition without_node :: "'bm roaring \<Rightarrow> NodeID \<Rightarrow> 'bm Builder \<Rightarrow> 'bm Builder" where
  "without_node R i b = b\<lparr>knownNodes := rb_Remove R (knownNodes b) i, nodeLabels := (nodeLabels b)[unat i := []],
     nodeColI64 := fst (sweep_family i (nodeColI64 b)), nodeColF64 := fst (sweep_family i (nodeColF64 b)),
     nodeColBool := fst (sweep_family i (nodeColBool b)), nodeColStr := fst (sweep_family i (nodeColStr b)),
     removedNodes := AList.update i (length (b_rels b)) (removedNodes b), relIndex := None\<rparr>"

lemma RemoveNode_same:
  assumes "rb_Contains R (knownNodes b) i"
  shows "fst (RemoveNode R i b)" "same_staging (without_node R i b) (snd (RemoveNode R i b))"
    "interner (snd (RemoveNode R i b)) = interner b"
proof -
  obtain c1 h1 c2 h2 c3 h3 c4 h4 where s: "sweep_family i (nodeColI64 b) = (c1, h1)" "sweep_family i (nodeColF64 b) = (c2, h2)"
    "sweep_family i (nodeColBool b) = (c3, h3)" "sweep_family i (nodeColStr b) = (c4, h4)" by (meson surj_pair)
  define b1 where "b1 = b\<lparr>knownNodes := rb_Remove R (knownNodes b) i\<rparr>"
  define b2 where "b2 = (if unat i < length (nodeLabels b1)
       then (fold markLabelDirty (nodeLabels b1 ! unat i) b1)\<lparr>nodeLabels := (nodeLabels b1)[unat i := []]\<rparr> else b1)"
  have b2: "same_staging (b1\<lparr>nodeLabels := (nodeLabels b1)[unat i := []]\<rparr>) b2" "interner b2 = interner b"
    using fold_marks_same(1) [of b1 "nodeLabels b1 ! unat i"] unfolding b2_def
    by (simp_all add: same_staging_def b1_def list_update_beyond not_less)
  define b3 where "b3 = markRelsDirty b2"
  have b3: "same_staging (b1\<lparr>nodeLabels := (nodeLabels b1)[unat i := []]\<rparr>) b3" "interner b3 = interner b"
    using b2 marks_same(4) [of b2] unfolding b3_def by (simp_all add: same_staging_def)
  have s3: "sweep_family i (nodeColI64 b3) = (c1, h1)" "sweep_family i (nodeColF64 b3) = (c2, h2)"
    "sweep_family i (nodeColBool b3) = (c3, h3)" "sweep_family i (nodeColStr b3) = (c4, h4)"
    using b3(1) s by (simp_all add: same_staging_def b1_def)
  have r: "RemoveNode R i b = (True, (removeNodePropPairs i b3)\<lparr>removedNodes := AList.update i (length (b_rels (removeNodePropPairs i b3)))
      (removedNodes (removeNodePropPairs i b3)), relIndex := None\<rparr>)"
    using assms unfolding RemoveNode_def Let_def b3_def b2_def b1_def by simp
  define b4 where "b4 = b3\<lparr>nodeColI64 := c1, nodeColF64 := c2, nodeColBool := c3, nodeColStr := c4\<rparr>"
  have "removeNodePropPairs i b3 = fold markNodeColDirty (h1 @ h2 @ h3 @ h4) b4"
    by (simp add: removeNodePropPairs_def s3 b4_def)
  then have same: "same_staging b4 (removeNodePropPairs i b3)" "interner (removeNodePropPairs i b3) = interner b4"
    using fold_marks_same(2) [of b4 "h1 @ h2 @ h3 @ h4"] by simp_all
  show "fst (RemoveNode R i b)" "interner (snd (RemoveNode R i b)) = interner b"
    "same_staging (without_node R i b) (snd (RemoveNode R i b))"
    using r same b3 s by (simp_all add: b4_def same_staging_def without_node_def b1_def)
qed

lemma below_mark_removed:
  assumes "removedNodes b' = AList.update i m (removedNodes b)"
  shows "below_mark b' x j \<longleftrightarrow> (if x = i then j < m else below_mark b x j)"
  by (simp add: below_mark_def assms update_conv')

lemma builder_inv_without_node:
  assumes R: "roaring_laws R" and inv: "builder_inv R b"
  shows "builder_inv R (without_node R i b)" (is "builder_inv R ?b")
proof -
  have v: "caps_inv b" "rels_inv R b" "known_inv R b" "cols_inv R b" using inv by (auto simp: builder_inv_def)
  have f: "b_rels ?b = b_rels b" "removedRels ?b = removedRels b" "removedNodes ?b = AList.update i (length (b_rels b)) (removedNodes b)"
    "rb_set R (knownNodes ?b) = rb_set R (knownNodes b) - {i}" "degOut ?b = degOut b" "degIn ?b = degIn b" "nodeLabels ?b = (nodeLabels b)[unat i := []]"
    by (simp_all add: without_node_def roaring_simps [OF R])
  have tb: "tomb R ?b = tomb R b" "deg_inv R ?b = deg_inv R b" by (simp_all add: tomb_def deg_inv_def f fun_eq_iff)
  have rem: "relRemoved R ?b j \<longleftrightarrow> relRemoved R b j \<or> fst (b_rels b ! j) = i \<or> snd (b_rels b ! j) = i" if "j < length (b_rels b)" for j
    using that by (auto simp: inv_relRemoved tb f below_mark_removed [OF f(3)])
  have "caps_inv ?b" using v(1) by (simp add: caps_inv_def f)
  moreover have "rels_inv R ?b" using v(2)
    by (auto simp: rels_inv_def tb f set_update distinct_update cong: option.case_cong) (simp_all add: without_node_def)
  moreover have "known_inv R ?b"
  proof -
    have "(nodeLabels b)[unat i := []] ! u = [] \<or> (\<exists>x \<in> rb_set R (knownNodes b) - {i}. unat x = u)" if "u < length (nodeLabels b)" for u
      using v(3) that by (cases "u = unat i") (auto simp: known_inv_def)
    then show ?thesis using v(3) rem by (auto simp: known_inv_def f)
  qed
  moreover have "cols_inv R ?b"
  proof -
    let ?K = "\<lambda>x. x \<in> rb_set R (knownNodes b)"
    show ?thesis using v(4) sweep_family_ok [of ?K "nodeColI64 b" i] sweep_family_ok [of ?K "nodeColF64 b" i]
        sweep_family_ok [of ?K "nodeColBool b" i] sweep_family_ok [of ?K "nodeColStr b" i]
      unfolding cols_inv_def Let_def f by (simp add: without_node_def)
  qed
  ultimately show ?thesis using inv by (simp add: builder_inv_def index_inv_def) (simp add: without_node_def)
qed

lemma good_RemoveNode:
  assumes R: "roaring_laws R" and g: "good R n b"
  shows "good R n (snd (RemoveNode R i b))"
proof (cases "rb_Contains R (knownNodes b) i")
  case True
  note s = RemoveNode_same [OF True]
  have "builder_inv R (without_node R i b)" using builder_inv_without_node [OF R] g by (simp add: good_def)
  moreover have "interner_wf (interner (snd (RemoveNode R i b)))" using g s(3) by (simp add: good_def builder_inv_def)
  ultimately have "builder_inv R (snd (RemoveNode R i b))" using same_staging_inv [OF s(2)] by blast
  then show ?thesis using g s(3) by (simp add: good_def interned_def)
qed (use g in \<open>simp add: RemoveNode_def\<close>)

end
