(* ===== verification/BuilderOps.thy ===== *)
theory BuilderOps
  imports BuilderInv
begin

text \<open>
  What a client of the builder can rely on: every sequence of staging calls returns (no slice index is ever out of
  range) and keeps the invariant of \<open>BuilderInv\<close>; removals are exact; lookups find the first live
  relationship; compaction keeps exactly the live relationships, in order, with their properties.
\<close>

section \<open>Sequences of staging calls\<close>

datatype bop =
    CallAddNode "string list" | CallAddNodeWithID NodeID "string list" | CallAddRel NodeID NodeID string
  | CallSetProp NodeID string AnyValue | CallSetPropByKey NodeID PropertyKey AnyValue | CallUpdateProp NodeID string AnyValue
  | CallRemoveProp NodeID string | CallSetRelPropAt int string AnyValue | CallSetRelProp NodeID NodeID string string AnyValue
  | CallRemoveRelPropAt int string | CallRemoveRelProp NodeID NodeID string string
  | CallRemoveRel int | CallRemoveNode NodeID | CallSetVersion string

text \<open>The builder after one call, whatever the call returned.\<close>

fun run_bop :: "'bm roaring \<Rightarrow> bop \<Rightarrow> 'bm Builder \<Rightarrow> 'bm Builder option" where
  "run_bop R (CallAddNode ls) b = map_option snd (AddNode R ls b)"
| "run_bop R (CallAddNodeWithID i ls) b = map_option snd (AddNodeWithID R i ls b)"
| "run_bop R (CallAddRel u v t) b = map_option snd (AddRel R u v t b)"
| "run_bop R (CallSetProp i k x) b = map_option snd (SetProp R i k x b)"
| "run_bop R (CallSetPropByKey i k x) b = map_option snd (SetPropByKey R i k x b)"
| "run_bop R (CallUpdateProp i k x) b = map_option snd (UpdateProp R i k x b)"
| "run_bop R (CallRemoveProp i k) b = Some (snd (RemoveProp i k b))"
| "run_bop R (CallSetRelPropAt r k x) b = map_option snd (SetRelPropAt R r k x b)"
| "run_bop R (CallSetRelProp u v t k x) b = map_option snd (SetRelProp R u v t k x b)"
| "run_bop R (CallRemoveRelPropAt r k) b = map_option snd (RemoveRelPropAt R r k b)"
| "run_bop R (CallRemoveRelProp u v t k) b = map_option snd (RemoveRelProp R u v t k b)"
| "run_bop R (CallRemoveRel r) b = map_option snd (RemoveRel R r b)"
| "run_bop R (CallRemoveNode i) b = Some (snd (RemoveNode R i b))"
| "run_bop R (CallSetVersion s) b = Some (SetVersion s b)"

text \<open>How many strings a call may intern.\<close>

fun op_strings :: "bop \<Rightarrow> nat" where
  "op_strings (CallAddNode ls) = length ls"
| "op_strings (CallAddNodeWithID i ls) = length ls"
| "op_strings (CallUpdateProp i k x) = 3"
| "op_strings _ = 2"

lemma good_SetVersion: "good R n b \<Longrightarrow> good R n (SetVersion s b)"
  using same_staging_inv [of b "SetVersion s b" R] by (auto simp: good_def interned_def SetVersion_def same_staging_def builder_inv_def)

lemma good_NewBuilder:
  assumes "roaring_laws R"
  shows "good R 1 (NewBuilder R cn cr)"
  by (simp add: good_def interned_def NewBuilder_def Let_def builder_inv_def caps_inv_def rels_inv_def known_inv_def cols_inv_def index_inv_def
      deg_inv_def roaring_simps [OF assms] NewInterner_wf) (simp add: NewInterner_def defaultCapacity_def)

lemma safe_snd: "safe R n r \<Longrightarrow> n \<le> m \<Longrightarrow> \<exists>b. map_option snd r = Some b \<and> good R m b"
  by (auto simp: safe_def elim: good_mono)

lemma run_bop_ok:
  assumes R: "roaring_laws R" and g: "good R n b" and n: "n + op_strings call < 2 ^ 32"
  shows "\<exists>b'. run_bop R call b = Some b' \<and> good R (n + op_strings call) b'"
proof (cases call)
  case (CallAddNode ls)
  then show ?thesis using safe_snd [OF safe_AddNode(1) [OF R g]] n by simp
next
  case (CallAddNodeWithID i ls)
  then show ?thesis using safe_snd [OF safe_AddNode(2) [OF R g]] n by simp
next
  case (CallAddRel u v t)
  then show ?thesis using safe_snd [OF safe_AddRel [OF R g]] n by simp
next
  case (CallSetProp i k x)
  then show ?thesis using safe_snd [OF safe_SetProp [OF R g]] n by simp
next
  case (CallSetPropByKey i k x)
  then show ?thesis using safe_snd [OF safe_SetPropByKey [OF R g]] n by simp
next
  case (CallUpdateProp i k x)
  then show ?thesis using safe_snd [OF safe_UpdateProp [OF R g]] n by simp
next
  case (CallSetRelPropAt r k x)
  then show ?thesis using safe_snd [OF safe_SetRelPropAt [OF g]] n by simp
next
  case (CallSetRelProp u v t k x)
  then show ?thesis using safe_snd [OF safe_SetRelProp [OF g]] n by simp
next
  case (CallRemoveRelPropAt r k)
  then show ?thesis using safe_snd [OF safe_RemoveRelPropAt [OF g]] by simp
next
  case (CallRemoveRelProp u v t k)
  then show ?thesis using safe_snd [OF safe_RemoveRelProp [OF g]] by simp
next
  case (CallRemoveRel r)
  then show ?thesis using safe_snd [OF safe_RemoveRel [OF R g]] by simp
qed (use g in \<open>auto intro: good_mono good_SetVersion good_RemoveProp good_RemoveNode [OF R]\<close>)

lemma run_bops_ok:
  assumes "roaring_laws R" "good R n b" "n + sum_list (map op_strings calls) < 2 ^ 32"
  shows "\<exists>b'. fold_opt (run_bop R) calls b = Some b' \<and> good R (n + sum_list (map op_strings calls)) b'"
  using assms(2,3)
proof (induction calls arbitrary: n b)
  case (Cons c cs)
  from run_bop_ok [OF assms(1) Cons.prems(1), of c] Cons.prems(2) obtain b' where
    b': "run_bop R c b = Some b'" "good R (n + op_strings c) b'" by auto
  from Cons.IH [OF b'(2)] Cons.prems(2) b'(1) show ?case by (simp add: add.assoc)
qed simp

text \<open>
  C21: Any sequence of staging calls on a fresh builder, removals, failing calls and unknown handles included, returns without an
  index panic as long as fewer than \<open>2^32\<close> strings are interned, and leaves a builder whose degree
  arrays, tombstones, known nodes, staged columns and lookup map agree.
\<close>

theorem builder_ops_safe:
  assumes "roaring_laws R" "sum_list (map op_strings calls) < 2 ^ 32 - 1"
  shows "\<exists>b. fold_opt (run_bop R) calls (NewBuilder R capNodes capRels) = Some b \<and> builder_inv R b"
  using run_bops_ok [OF assms(1) good_NewBuilder [OF assms(1)], of calls] assms(2) by (auto simp: good_def)

theorem builder_ops_safe_witness:
  "\<exists>b. fold_opt (run_bop list_roaring) [CallAddNode [''a''], CallAddRel 0 3 ''t'', CallRemoveRel 0, CallRemoveRel 0, CallRemoveNode 3]
      (NewBuilder list_roaring 2 2) = Some b \<and> builder_inv list_roaring b"
  by (rule builder_ops_safe) (simp_all add: list_roaring_laws)

section \<open>Removals are exact\<close>

lemma RelCount_count: "Builder_RelCount R b = count_in (\<lambda>i. \<not> relRemoved R b i) 0 (length (b_rels b))" if "roaring_laws R"
proof -
  have "fold (\<lambda>idx c. if relRemoved R b idx then c else c + 1) [0..<k] c = c + count_in (\<lambda>i. \<not> relRemoved R b i) 0 k" for k c
    by (induction k) (simp_all add: count_in_Suc)
  moreover have "\<not> relRemoved R b i" if "\<not> hasRemovals R b" for i
    using that \<open>roaring_laws R\<close> by (auto simp: hasRemovals_def relRemoved_def roaring_simps split: option.splits)
  then have "\<not> hasRemovals R b \<Longrightarrow> count_in (\<lambda>i. \<not> relRemoved R b i) 0 (length (b_rels b)) = length (b_rels b)" by (simp add: count_in_def)
  ultimately show ?thesis by (simp add: Builder_RelCount_def)
qed

definition live_rel :: "'bm roaring \<Rightarrow> 'bm Builder \<Rightarrow> int \<Rightarrow> bool" where
  "live_rel R b i \<longleftrightarrow> 0 \<le> i \<and> i < int (length (b_rels b)) \<and> \<not> relRemoved R b (nat i)"

lemma RemoveRel_dead: "\<not> live_rel R b i \<Longrightarrow> RemoveRel R i b = Some (Inl ErrRelNotFound, b)"
  unfolding RemoveRel_def by (rule if_P) (auto simp: live_rel_def)

lemma RemoveRel_live:
  assumes R: "roaring_laws R" and inv: "builder_inv R b" and live: "live_rel R b i"
  shows "\<exists>b'. RemoveRel R i b = Some (Inr (), b') \<and> b_rels b' = b_rels b \<and> knownNodes b' = knownNodes b
    \<and> (\<forall>j < length (b_rels b). relRemoved R b' j \<longleftrightarrow> relRemoved R b j \<or> int j = i)"
proof -
  have c: "\<not> (i < 0 \<or> i \<ge> int (length (b_rels b)) \<or> relRemoved R b (nat i))" using live by (auto simp: live_rel_def)
  let ?b = "markRelsDirty b" and ?i = "nat i"
  have m: "degOut ?b = degOut b" "degIn ?b = degIn b" "b_rels ?b = b_rels b" "removedRels ?b = removedRels b" "removedNodes ?b = removedNodes b" "knownNodes ?b = knownNodes b"
    using marks_same(4) [of b] by (simp_all add: same_staging_def)
  have ii: "of_int i = (of_nat ?i :: u32)" "?i < length (b_rels b)" using c by (auto simp: of_nat_nat)
  have lim: "length (b_rels b) < 2 ^ 32" using inv by (simp add: builder_inv_def rels_inv_def maxSize_def)
  have "b_rels b ! ?i \<in> set (b_rels b)" using ii(2) by simp
  then have lt: "unat (fst (b_rels b ! ?i)) < length (degOut b)" "unat (snd (b_rels b ! ?i)) < length (degIn b)"
    using inv by (auto simp: builder_inv_def caps_inv_def)
  define bm where "bm = rb_Add R (case removedRels b of None \<Rightarrow> rb_New R | Some bm \<Rightarrow> bm) (of_int i)"
  define b' where "b' = ?b\<lparr>removedRels := Some bm, degOut := (degOut b)[unat (fst (b_rels b ! ?i)) := degOut b ! unat (fst (b_rels b ! ?i)) - 1],
      degIn := (degIn b)[unat (snd (b_rels b ! ?i)) := degIn b ! unat (snd (b_rels b ! ?i)) - 1], relIndex := None\<rparr>"
  have "RemoveRel R i b = Some (Inr (), b')" using c lt by (simp add: RemoveRel_def Let_def dec_at_def m b'_def bm_def)
  moreover have "relRemoved R b' j \<longleftrightarrow> relRemoved R b j \<or> int j = i" if "j < length (b_rels b)" for j
  proof -
    have "of_nat j = (of_nat ?i :: u32) \<longleftrightarrow> int j = i" using of_nat_u32_eq [of j ?i] that ii(2) lim c by auto
    moreover have "rb_Contains R bm (of_nat j) \<longleftrightarrow> tomb R b j \<or> of_nat j = (of_nat ?i :: u32)"
      by (cases "removedRels b") (auto simp: bm_def ii(1) tomb_def roaring_simps [OF R])
    moreover have "removedRels b' = Some bm" by (simp add: b'_def)
    ultimately have "tomb R b' j \<longleftrightarrow> tomb R b j \<or> int j = i" by (simp add: tomb_def [of R b'])
    moreover have "below_mark b' = below_mark b" "b_rels b' = b_rels b" using m by (simp_all add: below_mark_def fun_eq_iff b'_def)
    ultimately show ?thesis unfolding inv_relRemoved by auto
  qed
  ultimately show ?thesis using m by (auto simp: b'_def)
qed

text \<open>
  C24: \<open>RemoveRel\<close> fails with \<open>ErrRelNotFound\<close>, leaving the builder as it is, exactly on a handle that is out of range or
  already removed; on a live handle it removes that relationship and no other, the live count drops by one, and removing
  the same handle again fails.
\<close>

theorem RemoveRel_exact:
  assumes "roaring_laws R" "builder_inv R b"
  shows "if live_rel R b i
    then \<exists>b'. RemoveRel R i b = Some (Inr (), b') \<and> builder_inv R b'
      \<and> (\<forall>j. live_rel R b' j \<longleftrightarrow> live_rel R b j \<and> j \<noteq> i) \<and> Builder_RelCount R b' + 1 = Builder_RelCount R b
      \<and> RemoveRel R i b' = Some (Inl ErrRelNotFound, b')
    else RemoveRel R i b = Some (Inl ErrRelNotFound, b)"
proof (cases "live_rel R b i")
  case True
  obtain b' where b': "RemoveRel R i b = Some (Inr (), b')" "b_rels b' = b_rels b"
    "\<forall>j < length (b_rels b). relRemoved R b' j \<longleftrightarrow> relRemoved R b j \<or> int j = i" using RemoveRel_live [OF assms True] by blast
  have "safe R (interned b) (RemoveRel R i b)" by (rule safe_RemoveRel) (use assms in \<open>simp_all add: good_def\<close>)
  then have inv: "builder_inv R b'" by (simp add: b'(1) good_def)
  have live: "live_rel R b' j \<longleftrightarrow> live_rel R b j \<and> j \<noteq> i" for j
    using b'(2,3) by (auto simp: live_rel_def)
  have "count_in (\<lambda>j. \<not> relRemoved R b' j) 0 (length (b_rels b)) = count_in (\<lambda>j. j \<noteq> nat i \<and> \<not> relRemoved R b j) 0 (length (b_rels b))"
    using b'(3) True by (intro count_in_cong) (auto simp: live_rel_def)
  moreover have "nat i < length (b_rels b)" "\<not> relRemoved R b (nat i)" using True by (auto simp: live_rel_def)
  ultimately
  have "Builder_RelCount R b' + 1 = Builder_RelCount R b" using count_in_remove [where P = "\<lambda>j. \<not> relRemoved R b j" and k = "nat i" and n = "length (b_rels b)"]
    by (simp add: RelCount_count [OF assms(1)] b'(2))
  moreover have "\<not> live_rel R b' i" using live by simp
  then have "RemoveRel R i b' = Some (Inl ErrRelNotFound, b')" by (rule RemoveRel_dead)
  ultimately show ?thesis using True b'(1) inv live by auto
qed (simp add: RemoveRel_dead)

lemmas builder_eval = NewBuilder_def AddRel_def addRelTyped_def bbind_def intern_def GetOrIntern_def intern_read_def intern_write_def NewInterner_def
  ensureCapacity_def Let_def maxSize_def inc_at_def known_add_def markRelsDirty_def markNodeColDirty_def SetProp_def SetPropByKey_def
  stageValue_def stage_node_def Value_Kind_def I64Value_def list_roaring_def

definition two_rels :: "u32 list Builder" where
  "two_rels = the (fold_opt (run_bop list_roaring) [CallAddRel 0 1 ''t'', CallAddRel 1 0 ''u'', CallSetProp 0 ''k'' (AnyI64 7)] (NewBuilder list_roaring 2 2))"

lemma two_rels_inv: "builder_inv list_roaring two_rels"
  using run_bops_ok [OF list_roaring_laws good_NewBuilder [OF list_roaring_laws],
      of "[CallAddRel 0 1 ''t'', CallAddRel 1 0 ''u'', CallSetProp 0 ''k'' (AnyI64 7)]" 2 2] by (auto simp: two_rels_def good_def)

theorem RemoveRel_exact_witness:
  "if live_rel list_roaring two_rels 1
    then \<exists>b'. RemoveRel list_roaring 1 two_rels = Some (Inr (), b') \<and> builder_inv list_roaring b'
      \<and> (\<forall>j. live_rel list_roaring b' j \<longleftrightarrow> live_rel list_roaring two_rels j \<and> j \<noteq> 1)
      \<and> Builder_RelCount list_roaring b' + 1 = Builder_RelCount list_roaring two_rels
      \<and> RemoveRel list_roaring 1 b' = Some (Inl ErrRelNotFound, b')
    else RemoveRel list_roaring 1 two_rels = Some (Inl ErrRelNotFound, two_rels)"
  by (rule RemoveRel_exact) (simp_all add: list_roaring_laws two_rels_inv)

lemma first_pair_None: "(\<And>p. p \<in> set ps \<Longrightarrow> pid p \<noteq> i) \<Longrightarrow> first_pair ps i = None"
  by (auto simp: first_pair_def find_None_iff)

lemma Builder_Prop_unknown:
  assumes "builder_inv R b" "i \<notin> rb_set R (knownNodes b)"
  shows "Builder_Prop i key b = (zero_Value, False)"
proof -
  have "first_pair (staged_at (nodeColI64 b) k) i = None" "first_pair (staged_at (nodeColF64 b) k) i = None"
    "first_pair (staged_at (nodeColBool b) k) i = None" "first_pair (staged_at (nodeColStr b) k) i = None" for k
    using assms by (auto intro!: first_pair_None simp: builder_inv_def cols_inv_def Let_def dest: cols_ok_staged_at)
  then show ?thesis by (simp add: Builder_Prop_def split: option.split)
qed

lemma NodeLabels_unknown:
  assumes "builder_inv R b" "i \<notin> rb_set R (knownNodes b)"
  shows "Builder_NodeLabels i b = []"
proof (cases "unat i < length (nodeLabels b)")
  case True
  moreover have "\<not> (\<exists>x \<in> rb_set R (knownNodes b). unat x = unat i)" using assms(2) by (metis unsigned_word_eqI)
  ultimately have "nodeLabels b ! unat i = []" using assms(1) by (auto simp: builder_inv_def known_inv_def)
  then show ?thesis using True by (simp add: Builder_NodeLabels_def)
qed (simp add: Builder_NodeLabels_def)

lemma enumerate_nth: "(j, r) \<in> set (enumerate 0 xs) \<longleftrightarrow> j < length xs \<and> r = xs ! j"
  by (auto simp: in_set_enumerate_eq)

text \<open>The relationships of a node in staging order, read at the indices that are not removed.\<close>

definition live_ends :: "'bm roaring \<Rightarrow> 'bm Builder \<Rightarrow> (rel \<Rightarrow> NodeID) \<Rightarrow> (rel \<Rightarrow> NodeID) \<Rightarrow> NodeID \<Rightarrow> NodeID list" where
  "live_ends R b own other node = map (\<lambda>j. other (b_rels b ! j)) (filter (\<lambda>j. own (b_rels b ! j) = node \<and> \<not> relRemoved R b j) [0..<length (b_rels b)])"

lemma enumerate_filter_map:
  "map (\<lambda>(j, r). g r) (filter (\<lambda>(j, r). P j r) (enumerate 0 xs)) = map (\<lambda>j. g (xs ! j)) (filter (\<lambda>j. P j (xs ! j)) [0..<length xs])"
proof -
  have e: "enumerate 0 xs = map (\<lambda>j. (j, xs ! j)) [0..<length xs]"
    by (rule nth_equalityI) (simp_all add: nth_enumerate_eq)
  show ?thesis unfolding e by (simp add: filter_map o_def)
qed

lemma NeighborIDs_live:
  "NeighborIDs R node dir b = (if dir = Outgoing \<or> dir = Both then live_ends R b fst snd node else [])
     @ (if dir = Incoming \<or> dir = Both then live_ends R b snd fst node else [])"
  by (simp add: NeighborIDs_def live_ends_def enumerate_filter_map)

text \<open>
  C23: \<open>RemoveNode\<close> on a known node removes it, every relationship staged so far that touches it, and its labels and
  properties; every other relationship keeps its state. On an unknown node, also one just removed, it changes nothing and
  returns false.
\<close>

theorem RemoveNode_exact:
  assumes R: "roaring_laws R" and inv: "builder_inv R b" and known: "i \<in> rb_set R (knownNodes b)"
  shows "case RemoveNode R i b of (removed, b') \<Rightarrow> removed \<and> builder_inv R b' \<and> rb_set R (knownNodes b') = rb_set R (knownNodes b) - {i}
    \<and> (\<forall>j < length (b_rels b). relRemoved R b' j \<longleftrightarrow> relRemoved R b j \<or> fst (b_rels b ! j) = i \<or> snd (b_rels b ! j) = i)
    \<and> Builder_Prop i key b' = (zero_Value, False) \<and> Builder_NodeLabels i b' = [] \<and> NeighborIDs R i dir b' = []
    \<and> RemoveNode R i b' = (False, b')"
proof -
  have c: "rb_Contains R (knownNodes b) i" using known by (simp add: rb_set_def)
  obtain rm b' where r: "RemoveNode R i b = (rm, b')" by fastforce
  note same = RemoveNode_same [OF c, unfolded r fst_conv snd_conv]
  have inv': "builder_inv R b'" using good_RemoveNode [OF R, of "interned b" b i] inv r by (simp add: good_def)
  let ?w = "without_node R i b"
  have f: "b_rels b' = b_rels b" "removedRels b' = removedRels b" "removedNodes b' = AList.update i (length (b_rels b)) (removedNodes b)"
    "knownNodes b' = rb_Remove R (knownNodes b) i"
    using same(2) by (simp_all add: same_staging_def without_node_def)
  have k: "rb_set R (knownNodes b') = rb_set R (knownNodes b) - {i}" by (simp add: f roaring_simps [OF R])
  have "tomb R b' = tomb R b" by (simp add: tomb_def f fun_eq_iff)
  then have rem: "relRemoved R b' j \<longleftrightarrow> relRemoved R b j \<or> fst (b_rels b ! j) = i \<or> snd (b_rels b ! j) = i" if "j < length (b_rels b)" for j
    using that by (auto simp: inv_relRemoved f(1) below_mark_removed [OF f(3)])
  have "live_ends R b' own other i = []" if "own = fst \<or> own = snd" for own other
    using rem that by (auto simp: live_ends_def filter_empty_conv f(1))
  then have "NeighborIDs R i dir b' = []" by (simp add: NeighborIDs_live)
  moreover have "RemoveNode R i b' = (False, b')" using k by (simp add: RemoveNode_def rb_set_def set_eq_iff)
  ultimately show ?thesis
    using same(1) inv' k rem Builder_Prop_unknown [OF inv', of i key] NodeLabels_unknown [OF inv', of i] by (simp add: r)
qed

theorem RemoveNode_exact_witness:
  "case RemoveNode list_roaring 0 two_rels of (removed, b') \<Rightarrow> removed \<and> builder_inv list_roaring b' \<and> rb_set list_roaring (knownNodes b') = rb_set list_roaring (knownNodes two_rels) - {0}
    \<and> (\<forall>j < length (b_rels two_rels). relRemoved list_roaring b' j \<longleftrightarrow> relRemoved list_roaring two_rels j \<or> fst (b_rels two_rels ! j) = 0 \<or> snd (b_rels two_rels ! j) = 0)
    \<and> Builder_Prop 0 ''k'' b' = (zero_Value, False) \<and> Builder_NodeLabels 0 b' = [] \<and> NeighborIDs list_roaring 0 Both b' = []
    \<and> RemoveNode list_roaring 0 b' = (False, b')"
proof (rule RemoveNode_exact [OF list_roaring_laws two_rels_inv])
  show "0 \<in> rb_set list_roaring (knownNodes two_rels)" 
    by (simp add: two_rels_def builder_eval rb_set_def)
qed

section \<open>Lookup by endpoints and type\<close>

text \<open>
  C26: \<open>findRelIndex\<close>, and so \<open>SetRelProp\<close> and \<open>RemoveRelProp\<close>, resolves endpoints and a type name to the first relationship in
  staging order that is live and matches, and to nothing when there is none; filling its lazy map changes nothing else, so
  repeated lookups agree.
\<close>

theorem findRelIndex_first_live:
  assumes "builder_inv R b"
  shows "\<exists>b'. findRelIndex R u v name b
      = Some (case Interner_Get (interner b) name of None \<Rightarrow> None
              | Some t \<Rightarrow> find (\<lambda>i. \<not> relRemoved R b i \<and> (fst (b_rels b ! i), snd (b_rels b ! i), b_relTypes b ! i) = (u, v, t)) [0..<length (b_rels b)], b')
    \<and> builder_inv R b' \<and> (\<exists>x. b' = b\<lparr>relIndex := x\<rparr>)"
proof -
  have g: "good R (interned b) b" using assms by (simp add: good_def)
  from findRelIndex_ok [OF g, of u v name, unfolded first_live_def key_at_def good_def]
  show ?thesis by (elim exE conjE) (intro exI conjI)
qed

theorem findRelIndex_first_live_witness:
  "\<exists>b'. findRelIndex list_roaring 1 0 ''u'' two_rels
      = Some (case Interner_Get (interner two_rels) ''u'' of None \<Rightarrow> None
              | Some t \<Rightarrow> find (\<lambda>i. \<not> relRemoved list_roaring two_rels i
                  \<and> (fst (b_rels two_rels ! i), snd (b_rels two_rels ! i), b_relTypes two_rels ! i) = (1, 0, t)) [0..<length (b_rels two_rels)], b')
    \<and> builder_inv list_roaring b' \<and> (\<exists>x. b' = two_rels\<lparr>relIndex := x\<rparr>)"
  by (rule findRelIndex_first_live [OF two_rels_inv])

section \<open>Node ids\<close>

text \<open>
  C29: \<open>AddNodeWithID\<close> with the largest id fails, but only after it has advanced the id counter, which wraps to zero; the
  next \<open>AddNode\<close> then returns id 0, even when node 0 exists.
\<close>

theorem AddNodeWithID_rewinds:
  assumes "0 < length (degOut b)" "length (degOut b) < 2 ^ 32"
  shows "AddNodeWithID R (NOT 0) ls b = Some (Inl ErrCapacity, b\<lparr>nextNodeID := 0\<rparr>)
    \<and> (\<exists>b'. AddNode R [] (b\<lparr>nextNodeID := 0\<rparr>) = Some (Inr 0, b'))"
proof -
  have u: "unat (- 1 :: u32) = 2 ^ 32 - 1" by (simp add: unsigned_minus_1_eq_mask mask_eq_exp_minus_1)
  have "\<not> (2 ^ 32 - 1 :: nat) < length (degOut b)" using assms(2) by simp
  then show ?thesis using assms(1)
    by (simp add: AddNodeWithID_def addNodeAt_def ensureCapacity_def AddNode_def bbind_def Let_def maxSize_def u)
qed

theorem AddNodeWithID_rewinds_witness:
  "AddNodeWithID list_roaring (NOT 0) [''l''] two_rels = Some (Inl ErrCapacity, two_rels\<lparr>nextNodeID := 0\<rparr>)
    \<and> (\<exists>b'. AddNode list_roaring [] (two_rels\<lparr>nextNodeID := 0\<rparr>) = Some (Inr 0, b'))"
  by (rule AddNodeWithID_rewinds) (simp_all add: two_rels_def builder_eval)

end
