(* ===== verification/Compaction.thy ===== *)
theory Compaction
  imports BuilderOps
begin

text \<open>
  Compaction before finalization (\<open>compactRemovals\<close> of \<open>removal.go\<close>): the in-place move of the live
  relationships, the remapping of staged relationship properties, the recomputed degrees.
\<close>

section \<open>The in-place move\<close>

definition live_at :: "'bm roaring \<Rightarrow> 'bm Builder \<Rightarrow> nat \<Rightarrow> bool" where
  "live_at R b j \<longleftrightarrow> \<not> relRemoved R b j"

definition live_list :: "'bm roaring \<Rightarrow> 'bm Builder \<Rightarrow> nat \<Rightarrow> nat list" where
  "live_list R b k = filter (live_at R b) [0..<k]"

definition rank_of :: "'bm roaring \<Rightarrow> 'bm Builder \<Rightarrow> nat \<Rightarrow> nat" where
  "rank_of R b j = count_in (live_at R b) 0 j"

lemma live_list_Suc: "live_list R b (Suc k) = live_list R b k @ (if live_at R b k then [k] else [])"
  by (simp add: live_list_def)

lemma length_live_list: "length (live_list R b k) = rank_of R b k"
  by (simp add: live_list_def rank_of_def count_in_def)

lemma rank_of_le: "rank_of R b k \<le> k"
  using count_in_le [of "live_at R b" 0 k] by (simp add: rank_of_def)

definition compact_inv :: "'bm roaring \<Rightarrow> 'bm Builder \<Rightarrow> nat \<Rightarrow> 'bm Builder \<times> 32 word list \<times> nat \<Rightarrow> bool" where
  "compact_inv R b0 k = (\<lambda>(b, o2n, kept).
     (\<exists>rs ts. b = b0\<lparr>b_rels := rs, b_relTypes := ts\<rparr> \<and> length rs = length (b_rels b0) \<and> length ts = length (b_rels b0)
       \<and> kept = rank_of R b0 k \<and> length o2n = length (b_rels b0)
       \<and> take kept rs = map ((!) (b_rels b0)) (live_list R b0 k) \<and> take kept ts = map ((!) (b_relTypes b0)) (live_list R b0 k)
       \<and> (\<forall>j. k \<le> j \<longrightarrow> j < length rs \<longrightarrow> rs ! j = b_rels b0 ! j \<and> ts ! j = b_relTypes b0 ! j)
       \<and> (\<forall>j < k. o2n ! j = (if live_at R b0 j then of_nat (rank_of R b0 j) else - 1))))"

lemma take_Suc_update: "k < length xs \<Longrightarrow> take (Suc k) (xs[k := x]) = take k xs @ [x]"
  by (simp add: take_Suc_conv_app_nth)

lemma compact_step_ok:
  assumes "compact_inv R b0 k s" "k < length (b_rels b0)"
  shows "\<exists>s'. compact_step R k s = Some s' \<and> compact_inv R b0 (Suc k) s'"
proof -
  obtain rs ts o2n where s: "s = (b0\<lparr>b_rels := rs, b_relTypes := ts\<rparr>, o2n, rank_of R b0 k)"
    and l: "length rs = length (b_rels b0)" "length ts = length (b_rels b0)" "length o2n = length (b_rels b0)"
    and tk: "take (rank_of R b0 k) rs = map ((!) (b_rels b0)) (live_list R b0 k)" "take (rank_of R b0 k) ts = map ((!) (b_relTypes b0)) (live_list R b0 k)"
    and rest: "\<And>j. k \<le> j \<Longrightarrow> j < length rs \<Longrightarrow> rs ! j = b_rels b0 ! j \<and> ts ! j = b_relTypes b0 ! j"
    and map: "\<And>j. j < k \<Longrightarrow> o2n ! j = (if live_at R b0 j then of_nat (rank_of R b0 j) else - 1)"
    using assms(1) by (auto simp: compact_inv_def split: prod.splits)
  have k: "rs ! k = b_rels b0 ! k" "ts ! k = b_relTypes b0 ! k" using rest [of k] assms(2) l by auto
  have live: "relRemoved R (b0\<lparr>b_rels := rs, b_relTypes := ts\<rparr>) k \<longleftrightarrow> \<not> live_at R b0 k"
    using k(1) by (simp add: relRemoved_def below_mark_def live_at_def)
  have r: "rank_of R b0 (Suc k) = rank_of R b0 k + (if live_at R b0 k then 1 else 0)" by (simp add: rank_of_def count_in_Suc)
  have rk: "rank_of R b0 k < length (b_rels b0)" using rank_of_le [of R b0 k] assms(2) by simp
  show ?thesis
  proof (cases "live_at R b0 k")
    case False
    then show ?thesis using l assms(2) tk rest map r
      by (auto simp: s compact_step_def live compact_inv_def live_list_Suc less_Suc_eq nth_list_update intro!: exI [of _ rs] exI [of _ ts])
  next
    case True
    have "compact_step R k s = Some (b0\<lparr>b_rels := rs[rank_of R b0 k := b_rels b0 ! k], b_relTypes := ts[rank_of R b0 k := b_relTypes b0 ! k]\<rparr>,
        o2n[k := of_nat (rank_of R b0 k)], Suc (rank_of R b0 k))"
      using True l assms(2) rk k by (simp add: s compact_step_def live)
    moreover have "compact_inv R b0 (Suc k) (b0\<lparr>b_rels := rs[rank_of R b0 k := b_rels b0 ! k], b_relTypes := ts[rank_of R b0 k := b_relTypes b0 ! k]\<rparr>,
        o2n[k := of_nat (rank_of R b0 k)], Suc (rank_of R b0 k))"
      unfolding compact_inv_def prod.case
    proof (intro exI conjI, rule refl)
      show "take (Suc (rank_of R b0 k)) (rs[rank_of R b0 k := b_rels b0 ! k]) = map ((!) (b_rels b0)) (live_list R b0 (Suc k))"
        "take (Suc (rank_of R b0 k)) (ts[rank_of R b0 k := b_relTypes b0 ! k]) = map ((!) (b_relTypes b0)) (live_list R b0 (Suc k))"
        using rk l tk True by (simp_all add: take_Suc_update live_list_Suc)
    qed (use True l assms(2) rest map r rank_of_le [of R b0 k] in \<open>auto simp: less_Suc_eq nth_list_update\<close>)
    ultimately show ?thesis by blast
  qed
qed

lemma compact_loop:
  assumes "length (b_relTypes b) = length (b_rels b)"
  shows "\<exists>s. fold_opt (compact_step R) [0..<length (b_rels b)] (b, replicate (length (b_rels b)) 0, 0) = Some s
    \<and> compact_inv R b (length (b_rels b)) s"
proof -
  have "compact_inv R b 0 (b, replicate (length (b_rels b)) 0, 0)"
    using assms by (auto simp: compact_inv_def rank_of_def live_list_def intro!: exI [of _ "b_rels b"] exI [of _ "b_relTypes b"])
  from fold_opt_rule [where P = "compact_inv R b" and xs = "[0..<length (b_rels b)]" and f = "compact_step R", OF this] compact_step_ok [of R b]
  show ?thesis by simp
qed
section \<open>Remapped properties\<close>

definition moved_pairs :: "'bm roaring \<Rightarrow> 'bm Builder \<Rightarrow> 'v pair list \<Rightarrow> 'v pair list" where
  "moved_pairs R b ps = map (\<lambda>p. p\<lparr>pid := of_nat (rank_of R b (unat (pid p)))\<rparr>) (filter (\<lambda>p. live_at R b (unat (pid p))) ps)"

definition moved_cols :: "'bm roaring \<Rightarrow> 'bm Builder \<Rightarrow> 'v staged \<Rightarrow> 'v staged" where
  "moved_cols R b cols = filter (\<lambda>(k, ps). ps \<noteq> []) (map (\<lambda>(k, ps). (k, moved_pairs R b ps)) cols)"

text \<open>The \<open>int32\<close> map tells live from dead while the ranks stay below \<open>2^31\<close>.\<close>

lemma sint_rank: "n < 2 ^ 31 \<Longrightarrow> \<not> sint (of_nat n :: u32) < 0"
  using int_word_sint [of "int n", where 'a = 32] by (simp add: mod_pos_pos_trivial)

lemma remap_pairs_ok:
  assumes o2n: "length o2n = m" "\<And>j. j < m \<Longrightarrow> o2n ! j = (if live_at R b j then of_nat (rank_of R b j) else - 1)" and m: "m \<le> 2 ^ 31"
    and ps: "\<And>p. p \<in> set ps \<Longrightarrow> unat (pid p) < m"
  shows "remap_pairs o2n ps = Some (moved_pairs R b ps)"
proof -
  have "fold_opt (\<lambda>p out. do { ni \<leftarrow> slice_at o2n (unat (pairID p)); Some (if sint ni < 0 then out else out @ [withPairID p ni]) }) ps acc
      = Some (acc @ moved_pairs R b ps)" for acc
    using ps
  proof (induction ps arbitrary: acc)
    case (Cons p ps)
    have p: "unat (pid p) < m" using Cons.prems by simp
    have neg: "sint (- 1 :: u32) < 0" by simp
    have "rank_of R b (unat (pid p)) < 2 ^ 31" using rank_of_le [of R b "unat (pid p)"] p m by simp
    note pos = sint_rank [OF this]
    show ?case using Cons p o2n pos neg by (simp add: pairID_def withPairID_def moved_pairs_def)
  qed (simp add: moved_pairs_def)
  then show ?thesis by (simp add: remap_pairs_def)
qed

lemma update_at: "k \<notin> fst ` set xs \<Longrightarrow> AList.update k v (xs @ (k, w) # ys) = xs @ (k, v) # ys"
  by (induction xs) auto

lemma delete_at: "k \<notin> fst ` set xs \<Longrightarrow> k \<notin> fst ` set ys \<Longrightarrow> AList.delete k (xs @ (k, w) # ys) = xs @ ys"
  by (induction xs) (auto simp: delete_idem)

lemma remapRelPairs_ok:
  assumes o2n: "length o2n = m" "\<And>j. j < m \<Longrightarrow> o2n ! j = (if live_at R b j then of_nat (rank_of R b j) else - 1)" and m: "m \<le> 2 ^ 31"
    and cols: "cols_ok (\<lambda>x. unat x < m) cols"
  shows "remapRelPairs o2n cols = Some (moved_cols R b cols)"
proof -
  let ?f = "\<lambda>(key, pairs) acc. do { out \<leftarrow> remap_pairs o2n pairs; Some (if length out = 0 then AList.delete key acc else AList.update key out acc) }"
  have "fold_opt ?f rest (xs @ rest) = Some (xs @ moved_cols R b rest)"
    if "distinct (map fst (xs @ rest))" "\<forall>(k, ps) \<in> set rest. \<forall>p \<in> set ps. unat (pid p) < m" for xs rest
    using that
  proof (induction rest arbitrary: xs)
    case (Cons kp rest)
    obtain k ps where kp: "kp = (k, ps)" by (cases kp)
    have r: "remap_pairs o2n ps = Some (moved_pairs R b ps)" using Cons.prems(2) kp by (intro remap_pairs_ok [OF o2n m]) auto
    have fresh: "k \<notin> fst ` set xs" "k \<notin> fst ` set rest" using Cons.prems(1) kp by (auto simp: rev_image_eqI)
    show ?case
    proof (cases "moved_pairs R b ps = []")
      case True
      then show ?thesis using Cons.IH [of xs] Cons.prems r kp by (simp add: delete_at [OF fresh] moved_cols_def)
    next
      case False
      then show ?thesis using Cons.IH [of "xs @ [(k, moved_pairs R b ps)]"] Cons.prems r kp
        by (simp add: update_at [OF fresh(1)] moved_cols_def)
    qed
  qed (simp add: moved_cols_def)
  from this [of "[]" cols] cols show ?thesis by (auto simp: remapRelPairs_def cols_ok_def)
qed

lemma cols_ok_moved:
  assumes "cols_ok (\<lambda>x. unat x < m) cols" "m \<le> 2 ^ 31"
  shows "cols_ok (\<lambda>x. unat x < rank_of R b m) (moved_cols R b cols)"
proof -
  have "rank_of R b j < rank_of R b m \<and> unat (of_nat (rank_of R b j) :: u32) = rank_of R b j" if "j < m" "live_at R b j" for j
    using filter_upt_index(1) [where P = "live_at R b", OF that(2,1)] rank_of_le [of R b j] that(1) assms(2)
    by (simp add: rank_of_def count_in_def unat_of_nat_less)
  note rk = this
  have "unat (pid p) < rank_of R b m" if mem: "(k, ps) \<in> set (moved_cols R b cols)" "p \<in> set ps" for k ps p
  proof -
    obtain qs where qs: "(k, qs) \<in> set cols" "ps = moved_pairs R b qs" using mem(1) by (auto simp: moved_cols_def)
    obtain q where q: "q \<in> set qs" "live_at R b (unat (pid q))" "p = q\<lparr>pid := of_nat (rank_of R b (unat (pid q)))\<rparr>"
      using mem(2) unfolding qs(2) moved_pairs_def by auto
    have "unat (pid q) < m" using assms(1) qs(1) q(1) by (auto simp: cols_ok_def)
    then show ?thesis using rk [OF _ q(2)] by (simp add: q(3))
  qed
  moreover have "distinct (map fst (moved_cols R b cols))" "\<And>k ps. (k, ps) \<in> set (moved_cols R b cols) \<Longrightarrow> ps \<noteq> []"
    using assms(1) unfolding moved_cols_def cols_ok_def
    by (auto intro!: distinct_map_filter simp: o_def case_prod_beta)
  ultimately show ?thesis unfolding cols_ok_def by blast
qed

section \<open>Recomputed degrees\<close>

lemma fold_inc_ok:
  assumes "\<And>r. r \<in> set rs \<Longrightarrow> unat (f r) < n" "length rs < 2 ^ 32"
  shows "\<exists>d. fold_opt (\<lambda>r d. inc_at d (f r)) rs (replicate n 0) = Some d \<and> length d = n
    \<and> (\<forall>u < n. unat (d ! u) = count_in (\<lambda>i. unat (f (rs ! i)) = u) 0 (length rs))"
proof -
  have "\<exists>d. fold_opt (\<lambda>r d. inc_at d (f r)) rs (replicate n 0) = Some d \<and> (\<lambda>k d. length d = n
      \<and> (\<forall>u < n. unat (d ! u) = count_in (\<lambda>i. unat (f (rs ! i)) = u) 0 k)) (length rs) d"
  proof (rule fold_opt_rule)
    fix k and d :: "u32 list" assume k: "k < length rs" and d: "length d = n \<and> (\<forall>u < n. unat (d ! u) = count_in (\<lambda>i. unat (f (rs ! i)) = u) 0 k)"
    have o: "unat (f (rs ! k)) < n" using assms(1) k by simp
    then have "unat (d ! unat (f (rs ! k))) \<le> k" using d count_in_le [of _ 0 k] by simp
    then have "unat (d ! unat (f (rs ! k)) + 1) = Suc (unat (d ! unat (f (rs ! k))))" using k assms(2) by (intro unat_inc) simp
    then show "\<exists>u'. inc_at d (f (rs ! k)) = Some u' \<and> length u' = n \<and> (\<forall>u < n. unat (u' ! u) = count_in (\<lambda>i. unat (f (rs ! i)) = u) 0 (Suc k))"
      using d o by (auto simp: inc_at_def nth_list_update count_in_Suc)
  qed simp
  then show ?thesis by simp
qed

section \<open>Correctness\<close>

lemma compact_live:
  assumes R: "roaring_laws R" and inv: "builder_inv R b" and rem: "hasRemovals R b" and m: "length (b_rels b) \<le> 2 ^ 31"
  shows "\<exists>dO dI. compactRemovals R b = Some (b\<lparr>b_rels := map ((!) (b_rels b)) (live_list R b (length (b_rels b))),
      b_relTypes := map ((!) (b_relTypes b)) (live_list R b (length (b_rels b))), degOut := dO, degIn := dI,
      relColI64 := moved_cols R b (relColI64 b), relColF64 := moved_cols R b (relColF64 b), relColBool := moved_cols R b (relColBool b),
      relColStr := moved_cols R b (relColStr b), removedRels := None, removedNodes := [], relIndex := None\<rparr>)
    \<and> length dO = length (degOut b) \<and> length dI = length (degIn b)
    \<and> (let rs = map ((!) (b_rels b)) (live_list R b (length (b_rels b))) in
       (\<forall>u < length dO. unat (dO ! u) = count_in (\<lambda>i. unat (fst (rs ! i)) = u) 0 (length rs))
       \<and> (\<forall>u < length dI. unat (dI ! u) = count_in (\<lambda>i. unat (snd (rs ! i)) = u) 0 (length rs)))"
proof -
  let ?m = "length (b_rels b)"
  let ?rs = "map ((!) (b_rels b)) (live_list R b ?m)" and ?ts = "map ((!) (b_relTypes b)) (live_list R b ?m)"
  have v: "caps_inv b" "rels_inv R b" "cols_inv R b" using inv by (auto simp: builder_inv_def)
  have "length (b_relTypes b) = ?m" using v(2) by (simp add: rels_inv_def)
  from compact_loop [OF this, where R = R] obtain rs ts o2n where
    loop: "fold_opt (compact_step R) [0..<?m] (b, replicate ?m 0, 0) = Some (b\<lparr>b_rels := rs, b_relTypes := ts\<rparr>, o2n, rank_of R b ?m)"
    and tk: "take (rank_of R b ?m) rs = ?rs" "take (rank_of R b ?m) ts = ?ts"
    and o2n: "length o2n = ?m" "\<And>j. j < ?m \<Longrightarrow> o2n ! j = (if live_at R b j then of_nat (rank_of R b j) else - 1)"
    by (fastforce simp: compact_inv_def)
  have mem: "r \<in> set ?rs \<Longrightarrow> r \<in> set (b_rels b)" for r by (auto simp: live_list_def)
  have len: "length ?rs < 2 ^ 32" using rank_of_le [of R b ?m] m by (simp add: length_live_list)
  have "\<And>r. r \<in> set ?rs \<Longrightarrow> unat (fst r) < length (degOut b)" "\<And>r. r \<in> set ?rs \<Longrightarrow> unat (snd r) < length (degIn b)"
    using v(1) mem unfolding caps_inv_def by metis+
  from fold_inc_ok [where f = fst, OF this(1) len] fold_inc_ok [where f = snd, OF this(2) len] obtain dO dI where
    d: "fold_opt (\<lambda>r d. inc_at d (fst r)) ?rs (replicate (length (degOut b)) 0) = Some dO" "length dO = length (degOut b)"
      "\<forall>u < length (degOut b). unat (dO ! u) = count_in (\<lambda>i. unat (fst (?rs ! i)) = u) 0 (length ?rs)"
      "fold_opt (\<lambda>r d. inc_at d (snd r)) ?rs (replicate (length (degIn b)) 0) = Some dI" "length dI = length (degIn b)"
      "\<forall>u < length (degIn b). unat (dI ! u) = count_in (\<lambda>i. unat (snd (?rs ! i)) = u) 0 (length ?rs)" by blast
  have c: "remapRelPairs o2n (relColI64 b) = Some (moved_cols R b (relColI64 b))" "remapRelPairs o2n (relColF64 b) = Some (moved_cols R b (relColF64 b))"
    "remapRelPairs o2n (relColBool b) = Some (moved_cols R b (relColBool b))" "remapRelPairs o2n (relColStr b) = Some (moved_cols R b (relColStr b))"
    using v(3) by (auto simp: cols_inv_def Let_def intro!: remapRelPairs_ok [OF o2n m])
  have "compactRemovals R b = Some (b\<lparr>b_rels := ?rs, b_relTypes := ?ts, degOut := dO, degIn := dI,
      relColI64 := moved_cols R b (relColI64 b), relColF64 := moved_cols R b (relColF64 b), relColBool := moved_cols R b (relColBool b),
      relColStr := moved_cols R b (relColStr b), removedRels := None, removedNodes := [], relIndex := None\<rparr>)"
    using rem by (simp add: compactRemovals_def Let_def loop tk d(1,4) c)
  then show ?thesis using d by (intro exI [of _ dO] exI [of _ dI]) (simp add: Let_def)
qed

lemma live_list_nth:
  assumes "i < length (live_list R b m)"
  shows "live_list R b m ! i < m" "live_at R b (live_list R b m ! i)"
  using nth_mem [OF assms] by (auto simp: live_list_def)

lemma compact_builder_inv:
  assumes R: "roaring_laws R" and inv: "builder_inv R b" and m: "length (b_rels b) \<le> 2 ^ 31"
    and b': "b' = b\<lparr>b_rels := map ((!) (b_rels b)) (live_list R b (length (b_rels b))),
      b_relTypes := map ((!) (b_relTypes b)) (live_list R b (length (b_rels b))), degOut := dO, degIn := dI,
      relColI64 := moved_cols R b (relColI64 b), relColF64 := moved_cols R b (relColF64 b), relColBool := moved_cols R b (relColBool b),
      relColStr := moved_cols R b (relColStr b), removedRels := None, removedNodes := [], relIndex := None\<rparr>"
    and l: "length dO = length (degOut b)" "length dI = length (degIn b)"
    and d: "\<forall>u < length dO. unat (dO ! u) = count_in (\<lambda>i. unat (fst (b_rels b' ! i)) = u) 0 (length (b_rels b'))"
      "\<forall>u < length dI. unat (dI ! u) = count_in (\<lambda>i. unat (snd (b_rels b' ! i)) = u) 0 (length (b_rels b'))"
  shows "builder_inv R b'"
proof -
  let ?m = "length (b_rels b)" and ?L = "live_list R b (length (b_rels b))"
  have v: "caps_inv b" "rels_inv R b" "known_inv R b" "cols_inv R b" using inv by (auto simp: builder_inv_def)
  have f: "b_rels b' = map ((!) (b_rels b)) ?L" "b_relTypes b' = map ((!) (b_relTypes b)) ?L" "degOut b' = dO" "degIn b' = dI"
    "knownNodes b' = knownNodes b" "nodeLabels b' = nodeLabels b" "removedRels b' = None" "removedNodes b' = []" "relIndex b' = None" "interner b' = interner b"
    by (simp_all add: b')
  have len: "length ?L = rank_of R b ?m" "rank_of R b ?m \<le> ?m" by (simp_all add: length_live_list rank_of_le)
  have mem: "b_rels b ! j \<in> set (b_rels b)" if "j \<in> set ?L" for j using that by (simp add: live_list_def)
  have "caps_inv b'" using v(1) l mem by (auto simp: caps_inv_def f)
  moreover have "tomb R b' = (\<lambda>_. False)" by (simp add: tomb_def f fun_eq_iff)
  then have "deg_inv R b' fst (degOut b')" "deg_inv R b' snd (degIn b')" using d by (simp_all add: deg_inv_def f(3,4))
  then have "rels_inv R b'" using len m by (simp add: rels_inv_def maxSize_def f(1,2,7,8))
  moreover have "known_inv R b'"
    using v(3) l live_list_nth [where R = R and b = b and m = ?m] by (auto simp: known_inv_def f live_at_def)
  moreover have "cols_inv R b'"
  proof -
    have K: "nodeColI64 b' = nodeColI64 b" "nodeColF64 b' = nodeColF64 b" "nodeColBool b' = nodeColBool b" "nodeColStr b' = nodeColStr b"
      "relColI64 b' = moved_cols R b (relColI64 b)" "relColF64 b' = moved_cols R b (relColF64 b)"
      "relColBool b' = moved_cols R b (relColBool b)" "relColStr b' = moved_cols R b (relColStr b)" by (simp_all add: b')
    show ?thesis using v(4) m unfolding cols_inv_def Let_def K f(1,5) by (simp add: len(1) cols_ok_moved)
  qed
  ultimately show ?thesis using inv by (simp add: builder_inv_def index_inv_def f(9,10))
qed

lemma live_all:
  assumes "roaring_laws R" "\<not> hasRemovals R b"
  shows "live_at R b j" "live_list R b k = [0..<k]" "rank_of R b j = j"
proof -
  have a: "live_at R b j" for j using assms by (auto simp: live_at_def hasRemovals_def relRemoved_def roaring_simps split: option.splits)
  then show "live_at R b j" "live_list R b k = [0..<k]" "rank_of R b j = j" by (simp_all add: live_list_def rank_of_def count_in_def)
qed

lemma moved_cols_id:
  fixes cols :: "'v staged"
  assumes "roaring_laws R" "\<not> hasRemovals R b" "cols_ok P cols"
  shows "moved_cols R b cols = cols"
proof -
  have "moved_pairs R b ps = ps" for ps :: "'v pair list" by (simp add: moved_pairs_def live_all [OF assms(1,2)] map_idI)
  then show ?thesis using assms(3) by (auto simp: moved_cols_def cols_ok_def filter_id_conv case_prod_beta)
qed

lemma map_filter_nth: "map (\<lambda>j. g (xs ! j)) (filter (\<lambda>j. P (xs ! j)) [0..<length xs]) = map g (filter P xs)"
proof -
  have "filter P xs = filter P (map ((!) xs) [0..<length xs])" by (simp add: map_nth)
  then show ?thesis by (simp add: filter_map o_def)
qed

text \<open>What compaction leaves alone.\<close>

definition same_nodes :: "'bm Builder \<Rightarrow> 'bm Builder \<Rightarrow> bool" where
  "same_nodes b b' \<longleftrightarrow> nodeLabels b' = nodeLabels b \<and> knownNodes b' = knownNodes b \<and> interner b' = interner b \<and> b_src b' = b_src b
    \<and> b_version b' = b_version b \<and> length (degOut b') = length (degOut b) \<and> nodeColI64 b' = nodeColI64 b \<and> nodeColF64 b' = nodeColF64 b
    \<and> nodeColBool b' = nodeColBool b \<and> nodeColStr b' = nodeColStr b
    \<and> dirtyNodeCols b' = dirtyNodeCols b \<and> dirtyRelCols b' = dirtyRelCols b \<and> dirtyLabels b' = dirtyLabels b \<and> relsDirty b' = relsDirty b"

lemma compact_ok:
  assumes R: "roaring_laws R" and inv: "builder_inv R b" and m: "length (b_rels b) \<le> 2 ^ 31"
  shows "\<exists>b'. compactRemovals R b = Some b' \<and> builder_inv R b' \<and> \<not> hasRemovals R b'
    \<and> b_rels b' = map ((!) (b_rels b)) (live_list R b (length (b_rels b)))
    \<and> b_relTypes b' = map ((!) (b_relTypes b)) (live_list R b (length (b_rels b)))
    \<and> relColI64 b' = moved_cols R b (relColI64 b) \<and> relColF64 b' = moved_cols R b (relColF64 b)
    \<and> relColBool b' = moved_cols R b (relColBool b) \<and> relColStr b' = moved_cols R b (relColStr b)
    \<and> NeighborIDs R node dir b' = NeighborIDs R node dir b \<and> same_nodes b b'"
proof (cases "hasRemovals R b")
  case False
  have "cols_inv R b" "length (b_relTypes b) = length (b_rels b)" using inv by (auto simp: builder_inv_def rels_inv_def)
  then have "b_relTypes b = map ((!) (b_relTypes b)) [0..<length (b_rels b)]" "relColI64 b = moved_cols R b (relColI64 b)"
    "relColF64 b = moved_cols R b (relColF64 b)" "relColBool b = moved_cols R b (relColBool b)" "relColStr b = moved_cols R b (relColStr b)"
    using map_nth [of "b_relTypes b"] by (auto simp: cols_inv_def Let_def moved_cols_id [OF R False])
  then show ?thesis using inv False
    by (intro exI [of _ b] conjI) (simp_all add: compactRemovals_def live_all [OF R False] map_nth same_nodes_def)
next
  case True
  let ?L = "live_list R b (length (b_rels b))"
  obtain dO dI where
    c0: "compactRemovals R b = Some (b\<lparr>b_rels := map ((!) (b_rels b)) ?L, b_relTypes := map ((!) (b_relTypes b)) ?L, degOut := dO, degIn := dI,
      relColI64 := moved_cols R b (relColI64 b), relColF64 := moved_cols R b (relColF64 b), relColBool := moved_cols R b (relColBool b),
      relColStr := moved_cols R b (relColStr b), removedRels := None, removedNodes := [], relIndex := None\<rparr>)"
    and l: "length dO = length (degOut b)" "length dI = length (degIn b)"
    and d: "\<forall>u < length dO. unat (dO ! u) = count_in (\<lambda>i. unat (fst (map ((!) (b_rels b)) ?L ! i)) = u) 0 (length (map ((!) (b_rels b)) ?L))"
      "\<forall>u < length dI. unat (dI ! u) = count_in (\<lambda>i. unat (snd (map ((!) (b_rels b)) ?L ! i)) = u) 0 (length (map ((!) (b_rels b)) ?L))"
    using compact_live [OF R inv True m, unfolded Let_def] by (elim exE conjE)
  obtain b' where b': "b' = b\<lparr>b_rels := map ((!) (b_rels b)) ?L, b_relTypes := map ((!) (b_relTypes b)) ?L, degOut := dO, degIn := dI,
      relColI64 := moved_cols R b (relColI64 b), relColF64 := moved_cols R b (relColF64 b), relColBool := moved_cols R b (relColBool b),
      relColStr := moved_cols R b (relColStr b), removedRels := None, removedNodes := [], relIndex := None\<rparr>"
    and c: "compactRemovals R b = Some b'" using c0 by blast
  have rels: "b_rels b' = map ((!) (b_rels b)) ?L" by (simp add: b')
  have inv': "builder_inv R b'" using compact_builder_inv [OF R inv m b' l] d unfolding rels by blast
  have no: "\<not> hasRemovals R b'" by (simp add: hasRemovals_def b')
  have "live_ends R b' own other node = live_ends R b own other node" for own other
  proof -
    have nr: "\<not> relRemoved R b' j" for j using live_all(1) [OF R no] by (simp add: live_at_def)
    have "live_ends R b' own other node = map other (filter (\<lambda>r. own r = node) (b_rels b'))"
      unfolding live_ends_def using map_filter_nth [of other "b_rels b'" "\<lambda>r. own r = node"] by (simp add: nr)
    also have "\<dots> = live_ends R b own other node"
      unfolding rels live_ends_def live_list_def by (simp add: filter_map o_def live_at_def conj_commute)
    finally show ?thesis .
  qed
  then have "NeighborIDs R node dir b' = NeighborIDs R node dir b" by (simp add: NeighborIDs_live)
  then show ?thesis using c inv' no l by (simp add: b' same_nodes_def)
qed


text \<open>
  C22: Compaction returns, leaves the invariant and no removals; the relationships are exactly the live ones in staging
  order, each staged relationship property stays with its relationship under the new number, and neighbours read as
  before. The bound is the range of the \<open>int32\<close> map of the code.
\<close>

theorem compactRemovals_correct:
  assumes R: "roaring_laws R" and inv: "builder_inv R b" and m: "length (b_rels b) \<le> 2 ^ 31"
  shows "\<exists>b'. compactRemovals R b = Some b' \<and> builder_inv R b' \<and> \<not> hasRemovals R b'
    \<and> b_rels b' = map ((!) (b_rels b)) (live_list R b (length (b_rels b)))
    \<and> b_relTypes b' = map ((!) (b_relTypes b)) (live_list R b (length (b_rels b)))
    \<and> relColI64 b' = moved_cols R b (relColI64 b) \<and> relColF64 b' = moved_cols R b (relColF64 b)
    \<and> relColBool b' = moved_cols R b (relColBool b) \<and> relColStr b' = moved_cols R b (relColStr b)
    \<and> NeighborIDs R node dir b' = NeighborIDs R node dir b"
  using compact_ok [OF assms, of node dir] by blast

definition one_removed :: "u32 list Builder" where
  "one_removed = the (fold_opt (run_bop list_roaring) [CallAddRel 0 1 ''t'', CallAddRel 1 0 ''u'', CallRemoveRel 0] (NewBuilder list_roaring 2 2))"

lemma one_removed_inv: "builder_inv list_roaring one_removed"
  using run_bops_ok [OF list_roaring_laws good_NewBuilder [OF list_roaring_laws],
      of "[CallAddRel 0 1 ''t'', CallAddRel 1 0 ''u'', CallRemoveRel 0]" 2 2] by (auto simp: one_removed_def good_def)

theorem compactRemovals_correct_witness:
  "\<exists>b'. compactRemovals list_roaring one_removed = Some b' \<and> builder_inv list_roaring b' \<and> \<not> hasRemovals list_roaring b'
    \<and> b_rels b' = map ((!) (b_rels one_removed)) (live_list list_roaring one_removed (length (b_rels one_removed)))
    \<and> b_relTypes b' = map ((!) (b_relTypes one_removed)) (live_list list_roaring one_removed (length (b_rels one_removed)))
    \<and> relColI64 b' = moved_cols list_roaring one_removed (relColI64 one_removed) \<and> relColF64 b' = moved_cols list_roaring one_removed (relColF64 one_removed)
    \<and> relColBool b' = moved_cols list_roaring one_removed (relColBool one_removed) \<and> relColStr b' = moved_cols list_roaring one_removed (relColStr one_removed)
    \<and> NeighborIDs list_roaring 0 Both b' = NeighborIDs list_roaring 0 Both one_removed"
  by (rule compactRemovals_correct [OF list_roaring_laws one_removed_inv]) (simp add: one_removed_def builder_eval RemoveRel_def relRemoved_def dec_at_def)

end
