(* ===== verification/PropIndex.thy ===== *)
theory PropIndex
  imports Snapshot
begin

text \<open>
  Equality lookups (\<open>propindex.go\<close>): the per-value index of a column, restricted to a label or over all nodes,
  built on the first lookup and kept. The build runs outside the lock; another goroutine that
  stores the same index meanwhile is the case in which the index is found on the second look.
\<close>

section \<open>The index\<close>

definition anyLabel :: Label where
  "anyLabel = NOT 0"

definition group_entry :: "'bm roaring \<Rightarrow> 'bm Set option \<Rightarrow> u32 \<times> Value \<Rightarrow> (Value \<times> u32 list) list \<Rightarrow> (Value \<times> u32 list) list" where
  "group_entry R labelNodes = (\<lambda>(pos, v) grouped.
     if (case labelNodes of None \<Rightarrow> True | Some s \<Rightarrow> Set_Contains R s pos)
     then map_append v pos grouped else grouped)"

definition buildPropValueIndex :: "'bm roaring \<Rightarrow> Column \<Rightarrow> 'bm Set option \<Rightarrow> 'bm valueIndex option" where
  "buildPropValueIndex R column labelNodes =
     map_option (\<lambda>es. map (\<lambda>(v, ids). (v, FromBitmap (rb_AddMany R (rb_New R) ids))) (fold (group_entry R labelNodes) es []))
       (Column_Entries column)"

text \<open>\<open>build\<close> may panic (outer option) or return nil (inner option).\<close>

definition withPropValueIndex ::
  "propIndexKey \<Rightarrow> 'bm valueIndex option option \<Rightarrow> ('bm valueIndex \<Rightarrow> 'bm Set option) \<Rightarrow> 'bm Snapshot \<Rightarrow> ('bm Set option \<times> 'bm Snapshot) option" where
  "withPropValueIndex indexKey build query g =
     (case map_of (propIndex g) indexKey of
        Some cached \<Rightarrow> Some (query cached, g)
      | None \<Rightarrow> do {
          b \<leftarrow> build;
          (case b of
             None \<Rightarrow> Some (None, g)
           | Some built \<Rightarrow>
               (case map_of (propIndex g) indexKey of
                  Some existing \<Rightarrow> Some (query existing, g)
                | None \<Rightarrow> Some (query built, g\<lparr>propIndex := AList.update indexKey built (propIndex g)\<rparr>)))
        })"

definition label_build :: "'bm roaring \<Rightarrow> 'bm Snapshot \<Rightarrow> Label \<Rightarrow> PropertyKey \<Rightarrow> 'bm valueIndex option option" where
  "label_build R g labelID keyID =
     (case map_of (labelIndex g) labelID of
        None \<Rightarrow> Some None
      | Some labelNodes \<Rightarrow>
          (case map_of (columns g) keyID of
             None \<Rightarrow> Some None
           | Some column \<Rightarrow> map_option Some (buildPropValueIndex R column (Some labelNodes))))"

definition NodesWithValue :: "'bm roaring \<Rightarrow> string \<Rightarrow> string \<Rightarrow> Value \<Rightarrow> 'bm Snapshot \<Rightarrow> ('bm Set option \<times> 'bm Snapshot) option" where
  "NodesWithValue R label key v g =
     (case (Snapshot_Label g label, Snapshot_PropertyKey g key) of ((labelID, lok), (keyID, kok)) \<Rightarrow>
      if \<not> lok \<or> \<not> kok then Some (None, g)
      else withPropValueIndex (labelID, keyID) (label_build R g labelID keyID) (\<lambda>index. map_of index v) g)"

definition NodesWithProperty :: "'bm roaring \<Rightarrow> string \<Rightarrow> string \<Rightarrow> AnyValue \<Rightarrow> 'bm Snapshot \<Rightarrow> ('bm Set option \<times> 'bm Snapshot) option" where
  "NodesWithProperty R label key value g =
     (case valueFromAny g value of (v, ok) \<Rightarrow> if \<not> ok then Some (None, g) else NodesWithValue R label key v g)"

definition any_build :: "'bm roaring \<Rightarrow> 'bm Snapshot \<Rightarrow> PropertyKey \<Rightarrow> 'bm valueIndex option option" where
  "any_build R g keyID =
     (case map_of (columns g) keyID of None \<Rightarrow> Some None | Some column \<Rightarrow> map_option Some (buildPropValueIndex R column None))"

definition NodeWithProperty :: "'bm roaring \<Rightarrow> string \<Rightarrow> AnyValue \<Rightarrow> 'bm Snapshot \<Rightarrow> ((NodeID \<times> bool) \<times> 'bm Snapshot) option" where
  "NodeWithProperty R key value g =
     (case (Snapshot_PropertyKey g key, valueFromAny g value) of ((keyID, kok), (v, vok)) \<Rightarrow>
      if \<not> kok \<or> \<not> vok then Some ((0, False), g)
      else map_option (\<lambda>(r, g). ((case r of None \<Rightarrow> (0, False) | Some s \<Rightarrow> Set_Min R s), g))
             (withPropValueIndex (anyLabel, keyID) (any_build R g keyID) (\<lambda>index. map_of index v) g))"

definition NodeWithLabelProperty :: "'bm roaring \<Rightarrow> string \<Rightarrow> string \<Rightarrow> AnyValue \<Rightarrow> 'bm Snapshot \<Rightarrow> ((NodeID \<times> bool) \<times> 'bm Snapshot) option" where
  "NodeWithLabelProperty R label key value g =
     map_option (\<lambda>(r, g). ((case r of None \<Rightarrow> (0, False) | Some s \<Rightarrow> Set_Min R s), g)) (NodesWithProperty R label key value g)"

section \<open>What an index holds\<close>

definition scope :: "'bm roaring \<Rightarrow> 'bm Set option \<Rightarrow> u32 \<Rightarrow> bool" where
  "scope R labelNodes pos = (case labelNodes of None \<Rightarrow> True | Some s \<Rightarrow> Set_Contains R s pos)"

text \<open>The index of a column gives each value the nodes of the scope that read it, and has no entry for other values.\<close>

definition index_ok :: "'bm roaring \<Rightarrow> Column \<Rightarrow> 'bm Set option \<Rightarrow> 'bm valueIndex \<Rightarrow> bool" where
  "index_ok R column labelNodes index \<longleftrightarrow>
     (\<forall>v. case map_of index v of
         None \<Rightarrow> {p. scope R labelNodes p \<and> Column_Get column p = Some (Some v)} = {}
       | Some s \<Rightarrow> ids R s = {p. scope R labelNodes p \<and> Column_Get column p = Some (Some v)} \<and> ids R s \<noteq> {})"

lemma grouped_ok:
  "groups_ok acc \<Longrightarrow> groups_ok (fold (group_entry R ln) es acc)
    \<and> list_at (fold (group_entry R ln) es acc) v = list_at acc v @ map fst (filter (\<lambda>(p, w). w = v \<and> scope R ln p) es)"
  by (induction es arbitrary: acc) (auto simp: group_entry_def scope_def list_at_append groups_ok_append)

lemma map_of_map_snd: "map_of (map (\<lambda>(k, x). (k, f x)) xs) k = map_option f (map_of xs k)"
  by (induction xs) auto

lemma buildPropValueIndex_ok:
  assumes R: "roaring_laws R" and c: "col_inv column"
  shows "\<exists>index. buildPropValueIndex R column ln = Some index \<and> index_ok R column ln index"
proof -
  obtain es where es: "Column_Entries column = Some es" "\<And>p v. (p, v) \<in> set es \<longleftrightarrow> Column_Get column p = Some (Some v)"
    using cols.entries_pairs [OF c] cols.entries_get [OF c] by blast
  let ?g = "fold (group_entry R ln) es []"
  let ?m = "\<lambda>ids. FromBitmap (rb_AddMany R (rb_New R) ids)"
  let ?ps = "\<lambda>v. map fst (filter (\<lambda>(p, w). w = v \<and> scope R ln p) es)"
  have lk: "map_of ?g v = (if ?ps v = [] then None else Some (?ps v))" for v
    using groups_lookup [of ?g v] grouped_ok [of "[]" R ln es v] by simp
  have set: "set (?ps v) = {p. scope R ln p \<and> Column_Get column p = Some (Some v)}" for v
    using es(2) by (force simp: image_iff)
  have "ids R (?m xs) = set xs" for xs by (simp add: ids_def FromBitmap_def roaring_simps [OF R])
  then have "index_ok R column ln (map (\<lambda>(v, ids). (v, ?m ids)) ?g)"
    unfolding index_ok_def map_of_map_snd lk set [symmetric]
    by (simp del: set_filter set_map)
  then show ?thesis using es(1) by (simp add: buildPropValueIndex_def)
qed
section \<open>Lookups against reads\<close>

definition scope_of :: "'bm Snapshot \<Rightarrow> Label \<Rightarrow> 'bm Set option option" where
  "scope_of g l = (if l = anyLabel then Some None else map_option Some (map_of (labelIndex g) l))"

definition cache_ok :: "'bm roaring \<Rightarrow> 'bm Snapshot \<Rightarrow> bool" where
  "cache_ok R g \<longleftrightarrow> distinct (map fst (propIndex g)) \<and> (\<forall>l k index. map_of (propIndex g) (l, k) = Some index \<longrightarrow>
     (\<exists>ln column. scope_of g l = Some ln \<and> map_of (columns g) k = Some column \<and> index_ok R column ln index))"

definition columns_ok :: "'bm Snapshot \<Rightarrow> bool" where
  "columns_ok g \<longleftrightarrow> atoms_wf (sn_atoms g) \<and> (\<forall>k c. map_of (columns g) k = Some c \<longrightarrow> col_inv c) \<and> length (atom_strings (sn_atoms g)) < 2 ^ 32"

text \<open>The nodes that read \<open>v\<close> at \<open>key\<close>.\<close>

definition readers :: "'bm Snapshot \<Rightarrow> string \<Rightarrow> Value \<Rightarrow> NodeID set" where
  "readers g key v = {n. \<exists>p. Snapshot_Prop g n key = Some p \<and> prop_ok p \<and> prop_v p = v}"

lemma readers_column:
  assumes "Snapshot_PropertyKey g key = (k, True)"
  shows "readers g key v = (case map_of (columns g) k of None \<Rightarrow> {} | Some c \<Rightarrow> {n. Column_Get c n = Some (Some v)})"
  using assms by (auto simp: readers_def Snapshot_Prop_def col_prop_def zero_Prop_def split: option.splits)

lemma readers_unknown: "Snapshot_PropertyKey g key = (k, False) \<Longrightarrow> readers g key v = {}"
  by (simp add: readers_def Snapshot_Prop_def col_prop_def zero_Prop_def)

lemma with_index_ok:
  assumes R: "roaring_laws R" and ok: "columns_ok g" "cache_ok R g"
    and build: "build = (case scope_of g l of None \<Rightarrow> Some None | Some ln \<Rightarrow> (case map_of (columns g) k of None \<Rightarrow> Some None
        | Some column \<Rightarrow> map_option Some (buildPropValueIndex R column ln)))"
  shows "\<exists>r g'. withPropValueIndex (l, k) build (\<lambda>index. map_of index v) g = Some (r, g') \<and> cache_ok R g' \<and> g' = g\<lparr>propIndex := propIndex g'\<rparr>
    \<and> (case r of None \<Rightarrow> {} | Some s \<Rightarrow> ids R s)
      = (case scope_of g l of None \<Rightarrow> {} | Some ln \<Rightarrow> (case map_of (columns g) k of None \<Rightarrow> {} | Some c \<Rightarrow> {n. scope R ln n \<and> Column_Get c n = Some (Some v)}))
    \<and> (\<forall>s. r = Some s \<longrightarrow> ids R s \<noteq> {})"
proof (cases "map_of (propIndex g) (l, k)")
  case (Some index)
  obtain ln column where "scope_of g l = Some ln" "map_of (columns g) k = Some column" "index_ok R column ln index"
    using ok(2) Some unfolding cache_ok_def by blast
  then show ?thesis using ok(2)
    by (cases "map_of index v") (auto simp: withPropValueIndex_def Some index_ok_def split: option.splits dest!: spec [of _ v])
next
  case None
  show ?thesis
  proof (cases "\<exists>ln column. scope_of g l = Some ln \<and> map_of (columns g) k = Some column")
    case False
    then have "build = Some None" unfolding build by (auto split: option.splits)
    then show ?thesis using False ok(2) by (auto simp: withPropValueIndex_def None split: option.splits)
  next
    case True
    then obtain ln column where lc: "scope_of g l = Some ln" "map_of (columns g) k = Some column" by blast
    then have "col_inv column" using ok(1) by (auto simp: columns_ok_def)
    from buildPropValueIndex_ok [OF R this, of ln] obtain index where
      i: "buildPropValueIndex R column ln = Some index" "index_ok R column ln index" by blast
    let ?g = "g\<lparr>propIndex := AList.update (l, k) index (propIndex g)\<rparr>"
    have w: "withPropValueIndex (l, k) build (\<lambda>index. map_of index v) g = Some (map_of index v, ?g)"
      using lc i(1) by (simp add: withPropValueIndex_def None build)
    have "cache_ok R ?g" unfolding cache_ok_def
    proof (intro conjI allI impI)
      show "distinct (map fst (propIndex ?g))" using ok(2) by (simp add: cache_ok_def distinct_update)
    next
      fix l' k' index' assume m: "map_of (propIndex ?g) (l', k') = Some index'"
      have "scope_of ?g l' = scope_of g l'" "columns ?g = columns g" by (simp_all add: scope_of_def)
      then show "\<exists>ln column. scope_of ?g l' = Some ln \<and> map_of (columns ?g) k' = Some column \<and> index_ok R column ln index'"
        using m lc i(2) ok(2) by (cases "(l', k') = (l, k)") (auto simp: update_conv' cache_ok_def)
    qed
    then show ?thesis using w lc i(2) by (cases "map_of index v") (auto simp: index_ok_def split: option.splits dest!: spec [of _ v])
  qed
qed

lemma schemaID_not_any:
  assumes "columns_ok g" "schemaID g s = (l, True)"
  shows "l \<noteq> anyLabel"
proof -
  have wf: "atoms_wf (sn_atoms g)" and len: "length (atom_strings (sn_atoms g)) < 2 ^ 32" using assms(1) by (auto simp: columns_ok_def)
  obtain i where i: "first_idx (atom_strings (sn_atoms g)) s = Some i" "l = of_nat i"
    using assms(2) by (auto simp: schemaID_ok [OF wf] split: option.splits)
  then have "i < 2 ^ 32 - 1" using first_idx_bound [OF i(1)] len by simp
  moreover from this have "unat l = i" unfolding i(2) by (intro unat_of_nat_less) simp
  moreover have "unat anyLabel = 2 ^ 32 - 1" by (simp add: anyLabel_def unsigned_minus_1_eq_mask mask_eq_exp_minus_1)
  ultimately show ?thesis by auto
qed

lemma NodesWithValue_ok:
  assumes R: "roaring_laws R" and ok: "columns_ok g" "cache_ok R g"
  shows "\<exists>r g'. NodesWithValue R label key v g = Some (r, g') \<and> cache_ok R g' \<and> g' = g\<lparr>propIndex := propIndex g'\<rparr>
    \<and> (case r of None \<Rightarrow> {} | Some s \<Rightarrow> ids R s) = {n \<in> readers g key v. HasLabel R g n label} \<and> (\<forall>s. r = Some s \<longrightarrow> ids R s \<noteq> {})"
proof -
  obtain l lk k kk where lk: "Snapshot_Label g label = (l, lk)" "Snapshot_PropertyKey g key = (k, kk)" by fastforce
  show ?thesis
  proof (cases "lk \<and> kk")
    case False
    then have "{n \<in> readers g key v. HasLabel R g n label} = {}"
      using lk readers_unknown [of g key k v] by (auto simp: HasLabel_def NodesWithLabel_def)
    then show ?thesis using False lk ok(2) by (auto simp: NodesWithValue_def)
  next
    case True
    then have "l \<noteq> anyLabel" using schemaID_not_any [OF ok(1), of label l] lk(1) by (simp add: Snapshot_Label_def)
    then have sc: "scope_of g l = map_option Some (map_of (labelIndex g) l)" by (simp add: scope_of_def)
    have b: "label_build R g l k = (case scope_of g l of None \<Rightarrow> Some None | Some ln \<Rightarrow> (case map_of (columns g) k of None \<Rightarrow> Some None
        | Some column \<Rightarrow> map_option Some (buildPropValueIndex R column ln)))" by (simp add: label_build_def sc split: option.split)
    have "(case scope_of g l of None \<Rightarrow> {} | Some ln \<Rightarrow> (case map_of (columns g) k of None \<Rightarrow> {} | Some c \<Rightarrow> {n. scope R ln n \<and> Column_Get c n = Some (Some v)}))
        = {n \<in> readers g key v. HasLabel R g n label}"
      using readers_column [of g key k v] lk True by (auto simp: sc HasLabel_def NodesWithLabel_def scope_def split: option.splits)
    then show ?thesis using with_index_ok [OF R ok b, of v] True lk by (simp add: NodesWithValue_def)
  qed
qed

lemma NodeWithProperty_ok:
  assumes R: "roaring_laws R" and ok: "columns_ok g" "cache_ok R g"
  shows "\<exists>g'. NodeWithProperty R key (AnyV v) g = Some (if readers g key v = {} then (0, False) else (Min (readers g key v), True), g')
    \<and> cache_ok R g' \<and> g' = g\<lparr>propIndex := propIndex g'\<rparr>"
proof -
  obtain k kk where k: "Snapshot_PropertyKey g key = (k, kk)" by fastforce
  show ?thesis
  proof (cases kk)
    case False
    then show ?thesis using k readers_unknown [of g key k v] ok(2) by (auto simp: NodeWithProperty_def)
  next
    case True
    have b: "any_build R g k = (case scope_of g anyLabel of None \<Rightarrow> Some None | Some ln \<Rightarrow> (case map_of (columns g) k of None \<Rightarrow> Some None
        | Some column \<Rightarrow> map_option Some (buildPropValueIndex R column ln)))" by (simp add: any_build_def scope_of_def)
    obtain r g' where w: "withPropValueIndex (anyLabel, k) (any_build R g k) (\<lambda>index. map_of index v) g = Some (r, g')"
      and c: "cache_ok R g'" "g' = g\<lparr>propIndex := propIndex g'\<rparr>" and i: "(case r of None \<Rightarrow> {} | Some s \<Rightarrow> ids R s) = readers g key v"
      using with_index_ok [OF R ok b, of v] readers_column [of g key k v] k True by (auto simp: scope_of_def scope_def cong: option.case_cong)
    have "NodeWithProperty R key (AnyV v) g = Some (case r of None \<Rightarrow> (0, False) | Some s \<Rightarrow> Set_Min R s, g')"
      using k True w by (simp add: NodeWithProperty_def)
    moreover have "(case r of None \<Rightarrow> (0, False) | Some s \<Rightarrow> Set_Min R s) = (if readers g key v = {} then (0, False) else (Min (readers g key v), True))"
      using i by (auto simp: nodeset_ops [OF R] split: option.splits)
    ultimately show ?thesis using c by (intro exI [of _ g']) (simp only: refl simp_thms)
  qed
qed

text \<open>
  C15: The equality lookups agree with reading every node: \<open>NodesWithValue\<close> gives exactly the label's nodes whose property reads
  the value, none meaning no node, and \<open>NodeWithProperty\<close> the smallest node of any label that reads it. The first lookup builds
  the index and later ones find it; the cache stays correct and nothing else of the snapshot changes.
\<close>

theorem property_lookups_correct:
  assumes "roaring_laws R" "columns_ok g" "cache_ok R g"
  shows "(\<exists>r g'. NodesWithValue R label key v g = Some (r, g') \<and> cache_ok R g' \<and> g' = g\<lparr>propIndex := propIndex g'\<rparr>
      \<and> (case r of None \<Rightarrow> {} | Some s \<Rightarrow> ids R s) = {n \<in> readers g key v. HasLabel R g n label} \<and> (\<forall>s. r = Some s \<longrightarrow> ids R s \<noteq> {}))
    \<and> (\<exists>g'. NodeWithProperty R key (AnyV v) g = Some (if readers g key v = {} then (0, False) else (Min (readers g key v), True), g')
      \<and> cache_ok R g' \<and> g' = g\<lparr>propIndex := propIndex g'\<rparr>)"
  by (rule conjI [OF NodesWithValue_ok [OF assms] NodeWithProperty_ok [OF assms]])

definition aged_graph :: "u32 list Snapshot" where
  "aged_graph = newSnapshot\<lparr>outOffsets := [0, 0, 0, 0], sn_atoms := NewAtoms ['''', ''L'', ''age''], labelIndex := [(1, Set_Of list_roaring [0, 2])],
     columns := [(2, sparseI64Col [0, 1, 2] [7, 7, 8])]\<rparr>"

theorem property_lookups_correct_witness:
  "(\<exists>r g'. NodesWithValue list_roaring ''L'' ''age'' (I64Value 7) aged_graph = Some (r, g') \<and> cache_ok list_roaring g' \<and> g' = aged_graph\<lparr>propIndex := propIndex g'\<rparr>
      \<and> (case r of None \<Rightarrow> {} | Some s \<Rightarrow> ids list_roaring s) = {n \<in> readers aged_graph ''age'' (I64Value 7). HasLabel list_roaring aged_graph n ''L''}
      \<and> (\<forall>s. r = Some s \<longrightarrow> ids list_roaring s \<noteq> {}))
    \<and> (\<exists>g'. NodeWithProperty list_roaring ''age'' (AnyV (I64Value 7)) aged_graph
        = Some (if readers aged_graph ''age'' (I64Value 7) = {} then (0, False) else (Min (readers aged_graph ''age'' (I64Value 7)), True), g')
      \<and> cache_ok list_roaring g' \<and> g' = aged_graph\<lparr>propIndex := propIndex g'\<rparr>)"
proof (rule property_lookups_correct [OF list_roaring_laws])
  show "columns_ok aged_graph" by (simp add: columns_ok_def aged_graph_def NewAtoms_wf col_inv_def) (simp add: NewAtoms_def)
  show "cache_ok list_roaring aged_graph" by (simp add: cache_ok_def aged_graph_def newSnapshot_def)
qed

end
