(* ===== verification/Finalize.thy ===== *)
theory Finalize
  imports Traverse Compaction PropIndex
begin

text \<open>
  From the staging builder to the immutable snapshot (\<open>finalize.go\<close>, the sharing plan of \<open>cow.go\<close>).

  The three build phases that the code joins in parallel read only the builder and write disjoint fields, so
  they are one after the other here. Of the lazy caches a thawed builder hands on, the snapshot record
  has the equality indexes; the search, position and forest caches are not part of the model.
\<close>

section \<open>The sharing plan\<close>

record 'bm aliasPlan =
  ap_b :: "'bm Builder"
  ap_src :: "'bm Snapshot option"
  ap_csr :: bool
  ap_idSpace :: bool
  ap_labels :: bool
  aliasedNodeCols :: "PropertyKey set"
  aliasedRelCols :: "PropertyKey set"
  aliasedLabels :: "Label set"
  allLabels :: bool

definition newAliasPlan :: "'bm Builder \<Rightarrow> nat \<Rightarrow> nat \<Rightarrow> 'bm aliasPlan" where
  "newAliasPlan b n m =
     (let p = \<lparr>ap_b = b, ap_src = b_src b, ap_csr = False, ap_idSpace = False, ap_labels = False,
               aliasedNodeCols = {}, aliasedRelCols = {}, aliasedLabels = {}, allLabels = False\<rparr> in
      case b_src b of
        None \<Rightarrow> p
      | Some src \<Rightarrow>
          let ids = (n = unat (CSRIDSpace src)) in
          p\<lparr>ap_idSpace := ids,
            ap_csr := \<not> relsDirty b \<and> ids \<and> m = length (outNbrs src) \<and> length (srcRelToOutCSR b) = m,
            ap_labels := (dirtyLabels b = {})\<rparr>)"

definition nodeColumn :: "PropertyKey \<Rightarrow> 'bm aliasPlan \<Rightarrow> Column option \<times> 'bm aliasPlan" where
  "nodeColumn key p =
     (case ap_src p of
        None \<Rightarrow> (None, p)
      | Some src \<Rightarrow>
          if \<not> ap_idSpace p \<or> key \<in> dirtyNodeCols (ap_b p) then (None, p)
          else case map_of (columns src) key of
            None \<Rightarrow> (None, p)
          | Some col \<Rightarrow> (Some col, p\<lparr>aliasedNodeCols := insert key (aliasedNodeCols p)\<rparr>))"

definition relColumn :: "PropertyKey \<Rightarrow> 'bm aliasPlan \<Rightarrow> Column option \<times> 'bm aliasPlan" where
  "relColumn key p =
     (case ap_src p of
        None \<Rightarrow> (None, p)
      | Some src \<Rightarrow>
          if \<not> ap_csr p \<or> key \<in> dirtyRelCols (ap_b p) then (None, p)
          else case map_of (relColumns src) key of
            None \<Rightarrow> (None, p)
          | Some col \<Rightarrow> (Some col, p\<lparr>aliasedRelCols := insert key (aliasedRelCols p)\<rparr>))"

definition labelClean :: "Label \<Rightarrow> 'bm aliasPlan \<Rightarrow> bool" where
  "labelClean label p =
     (case ap_src p of
        None \<Rightarrow> False
      | Some src \<Rightarrow> label \<notin> dirtyLabels (ap_b p) \<and> map_of (labelIndex src) label \<noteq> None)"

definition maps_copy :: "('k \<times> 'v) list \<Rightarrow> ('k \<times> 'v) list \<Rightarrow> ('k \<times> 'v) list" where
  "maps_copy dst src = fold (\<lambda>(k, v). AList.update k v) src dst"

text \<open>Sharing the CSR forces the source's position map when the successor has relationship properties.\<close>

definition aliasCSR :: "'bm Snapshot \<Rightarrow> bool \<Rightarrow> 'bm Snapshot \<Rightarrow> 'bm Snapshot option" where
  "aliasCSR src hasProps g =
     (let g = g\<lparr>outOffsets := outOffsets src, outNbrs := outNbrs src, outTypes := outTypes src,
                inOffsets := inOffsets src, inNbrs := inNbrs src, inTypes := inTypes src,
                typeIndex := maps_copy (typeIndex g) (typeIndex src), hasRelProps := hasProps\<rparr> in
      if \<not> hasProps then Some g
      else map_option (\<lambda>(shared, _). g\<lparr>inToOut := Some shared\<rparr>) (getInToOut src))"

definition aliasAtoms :: "'bm aliasPlan \<Rightarrow> 'bm Builder \<Rightarrow> Atoms" where
  "aliasAtoms p b =
     (case ap_src p of
        Some src \<Rightarrow> if Interner_Len (interner b) = Atoms_Len (sn_atoms src) then sn_atoms src else Interner_Atoms (interner b)
      | None \<Rightarrow> Interner_Atoms (interner b))"

definition carryLazyCaches :: "'bm aliasPlan \<Rightarrow> 'bm Snapshot \<Rightarrow> 'bm Snapshot" where
  "carryLazyCaches p g =
     (case ap_src p of
        None \<Rightarrow> g
      | Some src \<Rightarrow>
          let labelAliased = (\<lambda>l. if allLabels p then map_of (labelIndex src) l \<noteq> None else l \<in> aliasedLabels p) in
          g\<lparr>propIndex := fold (\<lambda>((l, k), index) pi.
              if k \<in> aliasedNodeCols p \<and> (l = anyLabel \<or> labelAliased l) then AList.update (l, k) index pi else pi)
            (propIndex src) (propIndex g)\<rparr>)"

section \<open>Indexes and columns\<close>

definition type_position :: "relTypes \<Rightarrow> nat \<Rightarrow> (RelType \<times> u32 list) list \<Rightarrow> (RelType \<times> u32 list) list option" where
  "type_position types pos byType = do {
     t \<leftarrow> relTypes_At types (of_nat pos);
     Some (map_append t (of_nat pos) byType)
   }"

definition buildTypeIndex :: "'bm roaring \<Rightarrow> 'bm Snapshot \<Rightarrow> 'bm Snapshot option" where
  "buildTypeIndex R g = do {
     byType \<leftarrow> fold_opt (type_position (outTypes g)) [0..<relTypes_Len (outTypes g)] [];
     Some (g\<lparr>typeIndex := fold (\<lambda>(t, positions). AList.update t (FromBitmap (rb_AddMany R (rb_New R) positions))) byType (typeIndex g)\<rparr>)
   }"

definition label_entry :: "'bm aliasPlan \<Rightarrow> nat \<Rightarrow> Label \<Rightarrow> (Label \<times> u32 list) list \<Rightarrow> (Label \<times> u32 list) list" where
  "label_entry p i l byLabel =
     (if labelClean l p then byLabel else map_append l (of_nat i) byLabel)"

definition finalizeLabels :: "'bm roaring \<Rightarrow> nat \<Rightarrow> 'bm Builder \<Rightarrow> 'bm aliasPlan \<Rightarrow> 'bm Snapshot \<Rightarrow> 'bm aliasPlan \<times> 'bm Snapshot" where
  "finalizeLabels R n b p g =
     (case (ap_src p, ap_labels p) of
        (Some src, True) \<Rightarrow> (p\<lparr>allLabels := True\<rparr>, g\<lparr>labelIndex := maps_copy (labelIndex g) (labelIndex src)\<rparr>)
      | _ \<Rightarrow>
          let byLabel = fold (\<lambda>(i, labels). fold (label_entry p i) labels) (enumerate 0 (take (min n (length (nodeLabels b))) (nodeLabels b))) [];
              (p, g) = (case ap_src p of
                 None \<Rightarrow> (p, g)
               | Some src \<Rightarrow> fold (\<lambda>(l, s) (p, g). if labelClean l p
                     then (p\<lparr>aliasedLabels := insert l (aliasedLabels p)\<rparr>, g\<lparr>labelIndex := AList.update l s (labelIndex g)\<rparr>)
                     else (p, g)) (labelIndex src) (p, g))
          in (p, g\<lparr>labelIndex := fold (\<lambda>(l, ids). AList.update l (FromBitmap (rb_AddMany R (rb_New R) ids))) byLabel (labelIndex g)\<rparr>))"

definition finalizeNodeColumns ::
  "('v pair list \<Rightarrow> nat \<Rightarrow> Column option) \<Rightarrow> 'v staged \<Rightarrow> nat \<Rightarrow> 'bm aliasPlan \<times> 'bm Snapshot \<Rightarrow> ('bm aliasPlan \<times> 'bm Snapshot) option" where
  "finalizeNodeColumns build staged span =
     fold_opt (\<lambda>(key, pairs) (p, g).
       case nodeColumn key p of
         (Some col, p) \<Rightarrow> Some (p, g\<lparr>columns := AList.update key col (columns g)\<rparr>)
       | (None, p) \<Rightarrow> map_option (\<lambda>col. (p, g\<lparr>columns := AList.update key col (columns g)\<rparr>)) (build pairs span)) staged"

definition remap_to_csr :: "u32 list \<Rightarrow> 'v pair list \<Rightarrow> 'v pair list option" where
  "remap_to_csr relToOutCSR pairs = map_opt (\<lambda>pair. map_option (withPairID pair) (slice_at relToOutCSR (unat (pairID pair)))) pairs"

definition finalizeRelColumns ::
  "('v pair list \<Rightarrow> nat \<Rightarrow> Column option) \<Rightarrow> 'v staged \<Rightarrow> nat \<Rightarrow> u32 list \<Rightarrow> 'bm aliasPlan \<times> 'bm Snapshot \<Rightarrow> ('bm aliasPlan \<times> 'bm Snapshot) option" where
  "finalizeRelColumns build staged span relToOutCSR =
     fold_opt (\<lambda>(key, pairs) (p, g).
       case relColumn key p of
         (Some col, p) \<Rightarrow> Some (p, g\<lparr>relColumns := AList.update key col (relColumns g)\<rparr>)
       | (None, p) \<Rightarrow> do {
           out \<leftarrow> remap_to_csr relToOutCSR pairs;
           col \<leftarrow> build out span;
           Some (p, g\<lparr>relColumns := AList.update key col (relColumns g)\<rparr>)
         }) staged"

section \<open>Finalize\<close>

text \<open>The equality indexes asked for upfront: one per label, unless carried.\<close>

definition index_upfront :: "'bm roaring \<Rightarrow> string \<Rightarrow> 'bm Snapshot \<Rightarrow> 'bm Snapshot option" where
  "index_upfront R keyName g =
     (case fst (Atoms_ID (sn_atoms g) keyName) of (keyID, known) \<Rightarrow>
      if \<not> known then Some g
      else case map_of (columns g) keyID of
        None \<Rightarrow> Some g
      | Some column \<Rightarrow>
          fold_opt (\<lambda>(l, labelNodes) g.
            if map_of (propIndex g) (l, keyID) \<noteq> None then Some g
            else map_option (\<lambda>index. g\<lparr>propIndex := AList.update (l, keyID) index (propIndex g)\<rparr>)
                   (buildPropValueIndex R column (Some labelNodes))) (labelIndex g) g)"

definition id_space :: "'bm roaring \<Rightarrow> 'bm Builder \<Rightarrow> nat" where
  "id_space R b = (if \<not> rb_IsEmpty R (knownNodes b) then unat (rb_Maximum R (knownNodes b)) + 1 else 1)"

definition build_csr :: "'bm roaring \<Rightarrow> nat \<Rightarrow> 'bm Builder \<Rightarrow> bool \<Rightarrow> 'bm aliasPlan \<Rightarrow> 'bm Snapshot \<Rightarrow> (u32 list \<times> 'bm aliasPlan \<times> 'bm Snapshot) option" where
  "build_csr R n b hasProps p g = do {
     (oo, onb, ot, relToOut) \<leftarrow> buildCSRDirection n (b_rels b) (b_relTypes b) (degOut b) 0;
     (io, inb, it, _) \<leftarrow> buildCSRDirection n (b_rels b) (b_relTypes b) (degIn b) 1;
     let (p, g) = finalizeLabels R n b p (g\<lparr>outOffsets := oo, outNbrs := onb, outTypes := compressRelTypes ot,
                    inOffsets := io, inNbrs := inb, inTypes := compressRelTypes it\<rparr>);
     g \<leftarrow> buildTypeIndex R g;
     Some (relToOut, p, g\<lparr>hasRelProps := hasProps\<rparr>)
   }"

definition share_csr :: "'bm roaring \<Rightarrow> nat \<Rightarrow> 'bm Builder \<Rightarrow> bool \<Rightarrow> 'bm aliasPlan \<Rightarrow> 'bm Snapshot \<Rightarrow> (u32 list \<times> 'bm aliasPlan \<times> 'bm Snapshot) option" where
  "share_csr R n b hasProps p g = do {
     src \<leftarrow> ap_src p;
     g \<leftarrow> aliasCSR src hasProps g;
     let (p, g) = finalizeLabels R n b p g;
     Some (srcRelToOutCSR b, p, g)
   }"

definition all_columns :: "'bm Builder \<Rightarrow> nat \<Rightarrow> nat \<Rightarrow> u32 list \<Rightarrow> 'bm aliasPlan \<times> 'bm Snapshot \<Rightarrow> ('bm aliasPlan \<times> 'bm Snapshot) option" where
  "all_columns b n m relToOut pg = do {
     pg \<leftarrow> finalizeNodeColumns columnFromPairsI64 (nodeColI64 b) n pg;
     pg \<leftarrow> finalizeNodeColumns columnFromPairsF64 (nodeColF64 b) n pg;
     pg \<leftarrow> finalizeNodeColumns columnFromPairsBool (nodeColBool b) n pg;
     pg \<leftarrow> finalizeNodeColumns columnFromPairsStr (nodeColStr b) n pg;
     pg \<leftarrow> finalizeRelColumns columnFromPairsI64 (relColI64 b) m relToOut pg;
     pg \<leftarrow> finalizeRelColumns columnFromPairsF64 (relColF64 b) m relToOut pg;
     pg \<leftarrow> finalizeRelColumns columnFromPairsBool (relColBool b) m relToOut pg;
     finalizeRelColumns columnFromPairsStr (relColStr b) m relToOut pg
   }"

definition drop_count :: "'bm Builder \<Rightarrow> int" where
  "drop_count b =
     crossTypedDropCount [stagedLens (nodeColI64 b), stagedLens (nodeColF64 b), stagedLens (nodeColBool b), stagedLens (nodeColStr b)]
     + crossTypedDropCount [stagedLens (relColI64 b), stagedLens (relColF64 b), stagedLens (relColBool b), stagedLens (relColStr b)]"

definition Finalize :: "'bm roaring \<Rightarrow> string list \<Rightarrow> 'bm Builder \<Rightarrow> 'bm Snapshot option" where
  "Finalize R indexProperties b = do {
     b \<leftarrow> compactRemovals R b;
     let n = id_space R b;
     let m = length (b_rels b);
     let g = newSnapshot\<lparr>nNodes := ucast (rb_GetCardinality R (knownNodes b)), nRels := of_nat m, sn_version := b_version b,
               existence := Some (FromBitmap (rb_Clone R (knownNodes b)))\<rparr>;
     let plan = newAliasPlan b n m;
     let hasProps = length (relColI64 b) + length (relColF64 b) + length (relColBool b) + length (relColStr b) > 0;
     (relToOut, plan, g) \<leftarrow> (if ap_csr plan then share_csr R n b hasProps plan g else build_csr R n b hasProps plan g);
     (plan, g) \<leftarrow> all_columns b n m relToOut (plan, g);
     let g = carryLazyCaches plan (g\<lparr>droppedCrossTyped := drop_count b, sn_atoms := aliasAtoms plan b\<rparr>);
     fold_opt (index_upfront R) indexProperties g
   }"
end
