(* ===== verification/FinalizeCorrect.thy ===== *)
theory FinalizeCorrect
  imports Finalize
begin

text \<open>
  What each group of definitions of \<open>Finalize\<close> leaves: label and type indexes, columns, the CSR. The plan of a thawed builder may
  share labels and columns with its source; they are right when the source is in step with the builder (\<open>labels_in_step\<close>,
  \<open>columns_in_step\<close>), and a builder without a source shares nothing.
\<close>

section \<open>The adjacency as lists of relationships\<close>

lemma csr_repr_wf:
  assumes ok: "rels_ok n rels ts" and r: "csr_repr n rels ts e offs nbrs types"
  shows "csr_wf offs nbrs types"
proof -
  let ?ow = "owner_list e rels"
  have o: "length offs = n + 1" "\<And>u. u \<le> n \<Longrightarrow> unat (offs ! u) = csr_start ?ow u" "rt_wf types"
    using r by (auto simp: csr_repr_def Let_def)
  have "sorted (map unat offs)" using o csr_start_mono [of _ _ ?ow] by (auto simp: sorted_iff_nth_mono)
  moreover have "unat (last offs) = length rels"
    using o csr_start_total [of ?ow n] rels_ok_owner [OF ok, of _ e] by (simp add: last_conv_nth flip: length_0_conv)
  moreover have "offs \<noteq> []" using o(1) by auto
  ultimately show ?thesis using ok o csr_repr_facts(2,3) [OF ok r] by (simp add: csr_wf_def rels_ok_def)
qed

text \<open>The positions of a node's range hold the relationships it owns, in staging order.\<close>

lemma csr_repr_range:
  assumes ok: "rels_ok n rels ts" and r: "csr_repr n rels ts e offs nbrs types" and lh: "relRange offs node = (lo, hi)"
  shows "map ((!) (csr_order n (owner_list e rels))) [lo..<hi] = owned (owner_list e rels) (unat node)" "hi \<le> length rels"
proof -
  let ?ow = "owner_list e rels"
  have o: "length offs = n + 1" "\<And>u. u \<le> n \<Longrightarrow> unat (offs ! u) = csr_start ?ow u"
    using r by (auto simp: csr_repr_def Let_def)
  have len: "length (csr_order n ?ow) = length rels" by (rule csr_repr_facts(1) [OF ok r])
  have "map ((!) (csr_order n ?ow)) [lo..<hi] = owned ?ow (unat node) \<and> hi \<le> length rels"
  proof (cases "unat node < n")
    case True
    then have lo: "lo = csr_start ?ow (unat node)" "hi = csr_start ?ow (Suc (unat node))"
      using lh o(1) o(2) [of "unat node"] o(2) [of "Suc (unat node)"] by (auto simp: relRange_def Let_def simp del: csr_start_Suc)
    have h: "lo \<le> hi" "hi \<le> length (csr_order n ?ow)"
      using True csr_start_mono [of "Suc (unat node)" n ?ow] csr_start_mono [of "unat node" "Suc (unat node)" ?ow] by (simp_all add: lo length_csr_order del: csr_start_Suc)
    then show ?thesis using slice_map_nth [OF h] csr_order_slice [OF True, of ?ow] len by (simp add: lo del: csr_start_Suc)
  next
    case False
    then have "(lo, hi) = (0, 0)" using lh o(1) by (simp add: relRange_def)
    moreover have "owned ?ow (unat node) = []"
      using False rels_ok_owner [OF ok, of _ e] by (force simp: owned_def filter_empty_conv)
    ultimately show ?thesis by simp
  qed
  then show "map ((!) (csr_order n ?ow)) [lo..<hi] = owned ?ow (unat node)" "hi \<le> length rels" by auto
qed

text \<open>The matching relationships of a node, as staging indexes.\<close>

definition staged_rels :: "nat \<Rightarrow> rel list \<Rightarrow> RelType list \<Rightarrow> RelMatch \<Rightarrow> NodeID \<Rightarrow> nat list" where
  "staged_rels e rels ts m node = filter (\<lambda>i. owner_of e (rels ! i) = node \<and> RelMatch_matches m (ts ! i)) [0..<length rels]"

lemma kept_staged:
  assumes ok: "rels_ok n rels ts" and r: "csr_repr n rels ts e offs nbrs types" and lh: "relRange offs node = (lo, hi)"
  shows "map ((!) (csr_order n (owner_list e rels))) (kept m types lo hi) = staged_rels e rels ts m node"
    "map (\<lambda>i. csr_pos (owner_list e rels) i) (staged_rels e rels ts m node) = kept m types lo hi"
    "\<And>k. k \<in> set (kept m types lo hi) \<Longrightarrow> k < length rels"
proof -
  let ?ow = "owner_list e rels" and ?ord = "csr_order n (owner_list e rels)"
  note rg = csr_repr_range [OF ok r lh]
  have kt: "kept m types lo hi = filter (\<lambda>k. RelMatch_matches m (ts ! (?ord ! k))) [lo..<hi]"
    unfolding kept_def using rg(2) csr_repr_facts(6) [OF ok r] by (intro filter_cong) auto
  have "map ((!) ?ord) (kept m types lo hi) = filter (\<lambda>i. RelMatch_matches m (ts ! i)) (map ((!) ?ord) [lo..<hi])"
    unfolding kt by (simp add: filter_map comp_def)
  also have "\<dots> = staged_rels e rels ts m node"
    unfolding rg(1) owned_def staged_rels_def
    by (simp add: conj_commute) (auto intro!: filter_cong simp: word_unat_eq_iff)
  finally show 1: "map ((!) ?ord) (kept m types lo hi) = staged_rels e rels ts m node" .
  show lt: "\<And>k. k \<in> set (kept m types lo hi) \<Longrightarrow> k < length rels" using rg(2) by (auto simp: kept_def)
  show "map (csr_pos ?ow) (staged_rels e rels ts m node) = kept m types lo hi"
    unfolding 1 [symmetric] using lt csr_repr_facts(4) [OF ok r] by (auto simp: map_idI)
qed
section \<open>The type and label indexes\<close>

text \<open>Each group becomes a bitmap under its key.\<close>

definition bitmaps :: "'bm roaring \<Rightarrow> ('k \<times> u32 list) list \<Rightarrow> ('k \<times> 'bm Set) list \<Rightarrow> ('k \<times> 'bm Set) list" where
  "bitmaps R groups acc = fold (\<lambda>(k, xs). AList.update k (FromBitmap (rb_AddMany R (rb_New R) xs))) groups acc"

definition members :: "'bm roaring \<Rightarrow> ('k \<times> 'bm Set) list \<Rightarrow> 'k \<Rightarrow> u32 set" where
  "members R index k = (case map_of index k of None \<Rightarrow> {} | Some s \<Rightarrow> ids R s)"

lemma bitmaps_ok:
  assumes R: "roaring_laws R" and g: "groups_ok groups"
  shows "members R (bitmaps R groups []) k = set (list_at groups k)" "distinct (map fst (bitmaps R groups []))"
    "map_of (bitmaps R groups []) k = Some s \<Longrightarrow> ids R s \<noteq> {}"
proof -
  have d: "distinct (map fst groups)" using g by (simp add: groups_ok_def)
  have "map_of (bitmaps R groups []) k = map_option (\<lambda>xs. FromBitmap (rb_AddMany R (rb_New R) xs)) (map_of groups k)"
    unfolding bitmaps_def map_of_fold_update [OF d] by (simp split: option.split)
  moreover have "ids R (FromBitmap (rb_AddMany R (rb_New R) xs)) = set xs" for xs by (simp add: ids_def FromBitmap_def roaring_simps [OF R])
  moreover note groups_lookup [OF g, of k]
  ultimately have "map_of (bitmaps R groups []) k = (if list_at groups k = [] then None else Some (FromBitmap (rb_AddMany R (rb_New R) (list_at groups k))))"
    and i: "\<And>xs. ids R (FromBitmap (rb_AddMany R (rb_New R) xs)) = set xs" by simp_all
  then show "members R (bitmaps R groups []) k = set (list_at groups k)" "map_of (bitmaps R groups []) k = Some s \<Longrightarrow> ids R s \<noteq> {}"
    by (auto simp: members_def i split: if_splits)
  show "distinct (map fst (bitmaps R groups []))" unfolding bitmaps_def by (rule distinct_fold_update) simp
qed

lemma bitmaps_keys:
  assumes R: "roaring_laws R" and g: "groups_ok groups" and k: "k \<in> fst ` set (bitmaps R groups [])"
  shows "members R (bitmaps R groups []) k \<noteq> {}"
proof -
  obtain s where "map_of (bitmaps R groups []) k = Some s" using k map_of_eq_None_iff [of "bitmaps R groups []" k] by fastforce
  then show ?thesis using bitmaps_ok(3) [OF R g] by (auto simp: members_def)
qed

lemma type_positions:
  assumes "rt_wf types" "relTypes_Len types \<le> 2 ^ 32"
  shows "k \<le> relTypes_Len types \<Longrightarrow> fold_opt (type_position types) [0..<k] []
    = Some (fold (\<lambda>(t, p). map_append t p) (map (\<lambda>p. (rt_list types ! p, of_nat p)) [0..<k]) [])"
proof (induction k)
  case (Suc k)
  have "unat (of_nat k :: u32) = k" using Suc.prems assms(2) by (intro unat_of_nat_less) simp
  then have "relTypes_At types (of_nat k) = Some (rt_list types ! k)" using Suc.prems by (simp add: relTypes_At_ok [OF assms(1)])
  then show ?case using Suc by (simp add: fold_opt_append type_position_def)
qed simp

lemma buildTypeIndex_ok:
  assumes R: "roaring_laws R" and t: "rt_wf (outTypes g)" "relTypes_Len (outTypes g) < 2 ^ 32" and e: "typeIndex g = []"
  shows "\<exists>ti. buildTypeIndex R g = Some (g\<lparr>typeIndex := ti\<rparr>)
    \<and> (\<forall>t. members R ti t = {p. unat p < relTypes_Len (outTypes g) \<and> rt_list (outTypes g) ! unat p = t}) \<and> distinct (map fst ti)"
proof -
  let ?n = "relTypes_Len (outTypes g)"
  let ?gs = "fold (\<lambda>(t, p). map_append t p) (map (\<lambda>p. (rt_list (outTypes g) ! p, of_nat p :: u32)) [0..<?n]) []"
  have b: "buildTypeIndex R g = Some (g\<lparr>typeIndex := bitmaps R ?gs []\<rparr>)"
    using type_positions [OF t(1), of ?n] t(2) e by (simp add: buildTypeIndex_def bitmaps_def)
  have gs: "groups_ok ?gs" "\<And>t. list_at ?gs t = map snd (filter (\<lambda>e. fst e = t) (map (\<lambda>p. (rt_list (outTypes g) ! p, of_nat p)) [0..<?n]))"
    using groups_fold [of "[]" "map (\<lambda>p. (rt_list (outTypes g) ! p, of_nat p :: u32)) [0..<?n]"] by auto
  have "set (list_at ?gs t) = {p. unat p < ?n \<and> rt_list (outTypes g) ! unat p = t}" for t
  proof -
    have "set (list_at ?gs t) = of_nat ` {p. p < ?n \<and> rt_list (outTypes g) ! p = t}" unfolding gs(2) by (auto simp: filter_map comp_def)
    also have "\<dots> = {p. unat p < ?n \<and> rt_list (outTypes g) ! unat p = t}"
      using t(2) by (auto simp: unat_of_nat_less image_iff) (metis of_nat_unat ucast_id)
    finally show ?thesis .
  qed
  then show ?thesis using b bitmaps_ok(1,2) [OF R gs(1)] by blast
qed

text \<open>The labels a plan does not share, grouped by label.\<close>

lemma label_entries:
  "fold (\<lambda>(i, labels). fold (label_entry p i) labels) es acc
    = fold (\<lambda>(l, i). map_append l i) (filter (\<lambda>(l, i). \<not> labelClean l p) (concat (map (\<lambda>(i, labels). map (\<lambda>l. (l, of_nat i)) labels) es))) acc"
proof -
  have "fold (label_entry p i) labels acc = fold (\<lambda>(l, i). map_append l i) (filter (\<lambda>(l, i). \<not> labelClean l p) (map (\<lambda>l. (l, of_nat i)) labels)) acc" for i labels acc
    by (induction labels arbitrary: acc) (simp_all add: label_entry_def)
  then show ?thesis by (induction es arbitrary: acc) (auto simp: case_prod_beta)
qed

lemma label_groups:
  assumes n: "n \<le> length (nodeLabels b)" "n \<le> 2 ^ 32"
    and gs: "gs = fold (\<lambda>(i, labels). fold (label_entry p i) labels) (enumerate 0 (take (min n (length (nodeLabels b))) (nodeLabels b))) []"
  shows "groups_ok gs" "set (list_at gs l) = (if labelClean l p then {} else {x. unat x < n \<and> l \<in> set (nodeLabels b ! unat x)})"
proof -
  let ?es = "enumerate 0 (take n (nodeLabels b))"
  let ?kvs = "filter (\<lambda>(l, i). \<not> labelClean l p) (concat (map (\<lambda>(i, labels). map (\<lambda>l. (l, of_nat i :: u32)) labels) ?es))"
  have g: "gs = fold (\<lambda>(l, i). map_append l i) ?kvs []" unfolding gs label_entries using n(1) by (simp add: min_absorb1)
  have gf: "groups_ok gs" "\<And>l. list_at gs l = map snd (filter (\<lambda>e. fst e = l) ?kvs)"
    unfolding g using groups_fold [of "[]" ?kvs] by auto
  show "groups_ok gs" by (rule gf(1))
  have "set (list_at gs l) = (if labelClean l p then {} else of_nat ` {i. i < n \<and> l \<in> set (nodeLabels b ! i)})"
    unfolding gf(2) using n(1) by (force simp: in_set_enumerate_eq)
  also have "of_nat ` {i. i < n \<and> l \<in> set (nodeLabels b ! i)} = {x :: u32. unat x < n \<and> l \<in> set (nodeLabels b ! unat x)}"
    using n(2) by (auto simp: unat_of_nat_less image_iff) (metis of_nat_unat ucast_id)
  finally show "set (list_at gs l) = (if labelClean l p then {} else {x. unat x < n \<and> l \<in> set (nodeLabels b ! unat x)})" .
qed

lemma shared_labels:
  "fold (\<lambda>(l, s) (p, g). if labelClean l p then (p\<lparr>aliasedLabels := insert l (aliasedLabels p)\<rparr>, g\<lparr>labelIndex := AList.update l s (labelIndex g)\<rparr>) else (p, g)) L (p, g)
    = (p\<lparr>aliasedLabels := {l \<in> fst ` set L. labelClean l p} \<union> aliasedLabels p\<rparr>,
       g\<lparr>labelIndex := fold (\<lambda>(l, s). AList.update l s) (filter (\<lambda>(l, s). labelClean l p) L) (labelIndex g)\<rparr>)"
proof (induction L arbitrary: p g)
  case (Cons e L)
  obtain l s where e: "e = (l, s)" by (cases e)
  have c: "labelClean k (p\<lparr>aliasedLabels := A\<rparr>) = labelClean k p" for k A by (simp add: labelClean_def split: option.split)
  have s: "{k \<in> fst ` set (e # L). labelClean k p} \<union> aliasedLabels p
      = {k \<in> fst ` set L. labelClean k p} \<union> (if labelClean l p then insert l (aliasedLabels p) else aliasedLabels p)" by (auto simp: e)
  show ?case unfolding s by (cases "labelClean l p") (simp_all add: e Cons.IH c)
qed simp

lemma map_of_filter_key: "map_of (filter (\<lambda>(k, v). P k) xs) k = (if P k then map_of xs k else None)"
  by (induction xs) auto

text \<open>What the plan may share of the source's label index.\<close>

definition labels_in_step :: "'bm roaring \<Rightarrow> nat \<Rightarrow> 'bm Builder \<Rightarrow> 'bm aliasPlan \<Rightarrow> bool" where
  "labels_in_step R n b p \<longleftrightarrow> aliasedLabels p = {} \<and> \<not> allLabels p \<and> (\<forall>src. ap_src p = Some src \<longrightarrow> distinct (map fst (labelIndex src))
     \<and> (\<forall>l \<in> fst ` set (labelIndex src). members R (labelIndex src) l \<noteq> {})
     \<and> (\<forall>l. ap_labels p \<or> labelClean l p \<longrightarrow> members R (labelIndex src) l = {x. unat x < n \<and> l \<in> set (nodeLabels b ! unat x)}))"

definition label_shared :: "'bm aliasPlan \<Rightarrow> Label \<Rightarrow> bool" where
  "label_shared p l = (case ap_src p of None \<Rightarrow> False | Some src \<Rightarrow> if allLabels p then map_of (labelIndex src) l \<noteq> None else l \<in> aliasedLabels p)"

lemma finalizeLabels_ok:
  assumes R: "roaring_laws R" and s: "labels_in_step R n b p" and e: "labelIndex g = []" and n: "n \<le> length (nodeLabels b)" "n \<le> 2 ^ 32"
  shows "\<exists>li A al. finalizeLabels R n b p g = (p\<lparr>aliasedLabels := A, allLabels := al\<rparr>, g\<lparr>labelIndex := li\<rparr>)
    \<and> (\<forall>l. members R li l = {x. unat x < n \<and> l \<in> set (nodeLabels b ! unat x)}) \<and> distinct (map fst li)
    \<and> (\<forall>l \<in> fst ` set li. members R li l \<noteq> {})
    \<and> (\<forall>l src. label_shared (p\<lparr>aliasedLabels := A, allLabels := al\<rparr>) l \<and> ap_src p = Some src \<longrightarrow> map_of li l = map_of (labelIndex src) l)"
proof (cases "\<exists>src. ap_src p = Some src \<and> ap_labels p")
  case True
  then obtain src where src: "ap_src p = Some src" "ap_labels p" by blast
  let ?L = "labelIndex src" and ?li = "maps_copy [] (labelIndex src)"
  have d: "distinct (map fst ?L)" "\<forall>l \<in> fst ` set ?L. members R ?L l \<noteq> {}"
    "\<forall>l. members R ?L l = {x. unat x < n \<and> l \<in> set (nodeLabels b ! unat x)}" using s src unfolding labels_in_step_def by blast+
  have m: "map_of ?li l = map_of ?L l" for l
    using map_of_fold_update [OF d(1), where f = "\<lambda>_ x. x" and acc = "[]" and k = l] by (auto simp: maps_copy_def split: option.split)
  have mem: "members R ?li l = members R ?L l" for l by (simp add: members_def m)
  have k: "l \<in> fst ` set ?li \<Longrightarrow> l \<in> fst ` set ?L" for l using m [of l] by (metis map_of_eq_None_iff)
  have f: "finalizeLabels R n b p g = (p\<lparr>aliasedLabels := aliasedLabels p, allLabels := True\<rparr>, g\<lparr>labelIndex := ?li\<rparr>)" using src e by (simp add: finalizeLabels_def)
  have dist: "distinct (map fst ?li)" unfolding maps_copy_def by (rule distinct_fold_update) simp
  have ne: "members R ?li l \<noteq> {}" if "l \<in> fst ` set ?li" for l using d(2) k [OF that] unfolding mem by blast
  show ?thesis
    by (rule exI [of _ ?li], rule exI [of _ "aliasedLabels p"], rule exI [of _ True], intro conjI allI ballI impI)
      (fact f, simp only: mem d(3), fact dist, rule ne, assumption, use m src(1) in simp)
next
  case False
  let ?gs = "fold (\<lambda>(i, labels). fold (label_entry p i) labels) (enumerate 0 (take (min n (length (nodeLabels b))) (nodeLabels b))) []"
  note gs = label_groups [OF n refl, of p]
  define L where "L = (case ap_src p of None \<Rightarrow> [] | Some src \<Rightarrow> labelIndex src)"
  define A where "A = {l \<in> fst ` set L. labelClean l p}"
  let ?acc = "fold (\<lambda>(l, s). AList.update l s) (filter (\<lambda>(l, s). labelClean l p) L) []"
  let ?li = "bitmaps R ?gs ?acc"
  have st: "aliasedLabels p = {}" "\<not> allLabels p" using s by (simp_all add: labels_in_step_def)
  have f: "finalizeLabels R n b p g = (p\<lparr>aliasedLabels := A, allLabels := False\<rparr>, g\<lparr>labelIndex := ?li\<rparr>)"
  proof (cases "ap_src p")
    case None
    then have "p = p\<lparr>aliasedLabels := A, allLabels := False\<rparr>" using st by (simp add: A_def L_def)
    then show ?thesis using None e by (simp add: finalizeLabels_def Let_def bitmaps_def L_def)
  next
    case (Some src)
    have al: "p\<lparr>aliasedLabels := A\<rparr> = p\<lparr>aliasedLabels := A, allLabels := False\<rparr>" using st by simp
    have "\<not> ap_labels p" using False Some by simp
    then show ?thesis using Some e st unfolding finalizeLabels_def Let_def shared_labels
      by (simp add: bitmaps_def L_def A_def flip: al)
  qed
  have d: "distinct (map fst L)" using s by (simp add: L_def labels_in_step_def split: option.splits)
  have dg: "distinct (map fst ?gs)" using gs(1) by (simp add: groups_ok_def)
  have "distinct (map fst (filter (\<lambda>(l, s). labelClean l p) L))" using d by (rule distinct_map_filter)
  note ma = map_of_fold_update [OF this, where f = "\<lambda>_ x. x" and acc = "[]"]
  have acc: "map_of ?acc l = (if labelClean l p then map_of L l else None)" for l
    unfolding ma map_of_filter_key [of "\<lambda>l. labelClean l p"] by (simp split: option.split)
  have li: "map_of ?li l = (if list_at ?gs l = [] then map_of ?acc l else Some (FromBitmap (rb_AddMany R (rb_New R) (list_at ?gs l))))" for l
    unfolding bitmaps_def map_of_fold_update [OF dg] using groups_lookup [OF gs(1), of l] by simp
  have cl: "members R L l = {x. unat x < n \<and> l \<in> set (nodeLabels b ! unat x)}" "map_of L l \<noteq> None" if "labelClean l p" for l
    using s that by (auto simp: labels_in_step_def L_def labelClean_def split: option.splits)
  have shared: "map_of ?li l = map_of L l" if "labelClean l p" for l using gs(2) [of l] that by (simp add: li acc)
  have mem: "members R ?li l = {x. unat x < n \<and> l \<in> set (nodeLabels b ! unat x)}" for l
  proof (cases "labelClean l p")
    case True
    then show ?thesis using cl(1) [OF True] by (simp add: members_def shared)
  next
    case False
    have "ids R (FromBitmap (rb_AddMany R (rb_New R) xs)) = set xs" for xs by (simp add: ids_def FromBitmap_def roaring_simps [OF R])
    then show ?thesis using gs(2) [of l] False by (auto simp: members_def li acc)
  qed
  have ne: "members R ?li l \<noteq> {}" if "l \<in> fst ` set ?li" for l
  proof (cases "labelClean l p")
    case True
    then have "l \<in> fst ` set L" using cl(2) [OF True] by (metis map_of_eq_None_iff)
    then have "members R L l \<noteq> {}" using s unfolding labels_in_step_def L_def by (cases "ap_src p") auto
    then show ?thesis by (simp add: members_def shared True)
  next
    case False
    have "map_of ?li l \<noteq> None" using that by (simp add: map_of_eq_None_iff)
    then have "set (list_at ?gs l) \<noteq> {}" using False by (simp add: li acc split: if_splits)
    then show ?thesis unfolding mem gs(2) [of l] if_not_P [OF False] .
  qed
  have "distinct (map fst ?li)" unfolding bitmaps_def by (intro distinct_fold_update distinct_fold_update [where f = "\<lambda>_ x. x"]) simp
  then show ?thesis using f mem ne shared
    by (intro exI [of _ ?li] exI [of _ A] exI [of _ False]) (auto simp: label_shared_def A_def L_def)
qed

section \<open>Columns\<close>

text \<open>A column is shared, or built from its pairs.\<close>

definition or_shared :: "(PropertyKey \<Rightarrow> Column option) \<Rightarrow> ('v pair list \<Rightarrow> Column option) \<Rightarrow> PropertyKey \<Rightarrow> 'v pair list \<Rightarrow> Column option" where
  "or_shared sh f k ps = (case sh k of Some c \<Rightarrow> Some c | None \<Rightarrow> f ps)"

definition put_columns :: "(PropertyKey \<Rightarrow> 'v pair list \<Rightarrow> Column option) \<Rightarrow> 'v staged \<Rightarrow> (PropertyKey \<times> Column) list \<Rightarrow> (PropertyKey \<times> Column) list option" where
  "put_columns f staged cs = fold_opt (\<lambda>(k, ps) cs. map_option (\<lambda>c. AList.update k c cs) (f k ps)) staged cs"

lemma put_columns_ok:
  assumes "distinct (map fst staged)" "\<forall>(k, ps) \<in> set staged. f k ps \<noteq> None"
  shows "\<exists>cs'. put_columns f staged cs = Some cs' \<and> (\<forall>k. map_of cs' k = (case map_of staged k of None \<Rightarrow> map_of cs k | Some ps \<Rightarrow> f k ps))
    \<and> (distinct (map fst cs) \<longrightarrow> distinct (map fst cs'))"
  using assms
proof (induction staged arbitrary: cs)
  case Nil
  then show ?case by (simp add: put_columns_def)
next
  case (Cons e staged)
  obtain k ps where e: "e = (k, ps)" by (cases e)
  obtain c where c: "f k ps = Some c" using Cons.prems(2) e by auto
  have "map_of staged k = None" using Cons.prems(1) e by (simp add: map_of_eq_None_iff)
  moreover obtain cs' where "put_columns f staged (AList.update k c cs) = Some cs'"
    "\<forall>k'. map_of cs' k' = (case map_of staged k' of None \<Rightarrow> map_of (AList.update k c cs) k' | Some ps \<Rightarrow> f k' ps)"
    "distinct (map fst (AList.update k c cs)) \<longrightarrow> distinct (map fst cs')"
    using Cons.IH [of "AList.update k c cs"] Cons.prems by auto
  ultimately show ?case using c by (auto simp: e put_columns_def update_conv' distinct_update split: option.splits)
qed

definition shared_node :: "'bm aliasPlan \<Rightarrow> PropertyKey \<Rightarrow> Column option" where
  "shared_node p k = fst (nodeColumn k p)"

definition shared_rel :: "'bm aliasPlan \<Rightarrow> PropertyKey \<Rightarrow> Column option" where
  "shared_rel p k = fst (relColumn k p)"

text \<open>The plan after a family of columns: what was shared is recorded.\<close>

definition record_nodes :: "PropertyKey set \<Rightarrow> 'bm aliasPlan \<Rightarrow> 'bm aliasPlan" where
  "record_nodes K p = p\<lparr>aliasedNodeCols := {k \<in> K. shared_node p k \<noteq> None} \<union> aliasedNodeCols p\<rparr>"

definition record_rels :: "PropertyKey set \<Rightarrow> 'bm aliasPlan \<Rightarrow> 'bm aliasPlan" where
  "record_rels K p = p\<lparr>aliasedRelCols := {k \<in> K. shared_rel p k \<noteq> None} \<union> aliasedRelCols p\<rparr>"

lemma shared_record [simp]:
  "shared_node (p\<lparr>aliasedNodeCols := A\<rparr>) = shared_node p" "shared_rel (p\<lparr>aliasedNodeCols := A\<rparr>) = shared_rel p"
  "shared_node (p\<lparr>aliasedRelCols := A\<rparr>) = shared_node p" "shared_rel (p\<lparr>aliasedRelCols := A\<rparr>) = shared_rel p"
  "shared_node (record_nodes K p) = shared_node p" "shared_rel (record_nodes K p) = shared_rel p"
  "shared_node (record_rels K p) = shared_node p" "shared_rel (record_rels K p) = shared_rel p"
  by (simp_all add: fun_eq_iff record_nodes_def record_rels_def shared_node_def shared_rel_def nodeColumn_def relColumn_def split: option.split)

lemma record_empty [simp]: "record_nodes {} p = p" "record_rels {} p = p"
  by (simp_all add: record_nodes_def record_rels_def)

lemma record_insert:
  "record_nodes (insert k K) p = record_nodes K (if shared_node p k = None then p else p\<lparr>aliasedNodeCols := insert k (aliasedNodeCols p)\<rparr>)"
  "record_rels (insert k K) p = record_rels K (if shared_rel p k = None then p else p\<lparr>aliasedRelCols := insert k (aliasedRelCols p)\<rparr>)"
proof -
  have e: "{x \<in> insert k K. sh x \<noteq> None} \<union> A = (if sh k = None then {x \<in> K. sh x \<noteq> None} \<union> A else {x \<in> K. sh x \<noteq> None} \<union> insert k A)"
    for sh :: "PropertyKey \<Rightarrow> Column option" and A by auto
  show "record_nodes (insert k K) p = record_nodes K (if shared_node p k = None then p else p\<lparr>aliasedNodeCols := insert k (aliasedNodeCols p)\<rparr>)"
    unfolding record_nodes_def e by simp
  show "record_rels (insert k K) p = record_rels K (if shared_rel p k = None then p else p\<lparr>aliasedRelCols := insert k (aliasedRelCols p)\<rparr>)"
    unfolding record_rels_def e by simp
qed

lemma column_lookup:
  "nodeColumn k p = (shared_node p k, if shared_node p k = None then p else p\<lparr>aliasedNodeCols := insert k (aliasedNodeCols p)\<rparr>)"
  "relColumn k p = (shared_rel p k, if shared_rel p k = None then p else p\<lparr>aliasedRelCols := insert k (aliasedRelCols p)\<rparr>)"
  by (auto simp: shared_node_def shared_rel_def nodeColumn_def relColumn_def split: option.split)

lemma finalizeNodeColumns_put:
  "finalizeNodeColumns build staged span (p, g)
    = map_option (\<lambda>cs. (record_nodes (fst ` set staged) p, g\<lparr>columns := cs\<rparr>)) (put_columns (or_shared (shared_node p) (\<lambda>ps. build ps span)) staged (columns g))"
proof (induction staged arbitrary: p g)
  case (Cons e staged)
  obtain k ps where e: "e = (k, ps)" by (cases e)
  show ?case
  proof (cases "or_shared (shared_node p) (\<lambda>ps. build ps span) k ps")
    case (Some c)
    let ?p = "if shared_node p k = None then p else p\<lparr>aliasedNodeCols := insert k (aliasedNodeCols p)\<rparr>"
    have "finalizeNodeColumns build (e # staged) span (p, g) = finalizeNodeColumns build staged span (?p, g\<lparr>columns := AList.update k c (columns g)\<rparr>)"
      using Some by (auto simp: e finalizeNodeColumns_def column_lookup or_shared_def split: option.splits)
    moreover have "shared_node ?p = shared_node p" by simp
    ultimately show ?thesis using Some Cons [of ?p "g\<lparr>columns := AList.update k c (columns g)\<rparr>"] by (simp add: e put_columns_def record_insert comp_def)
  next
    case None
    then show ?thesis by (auto simp: e finalizeNodeColumns_def put_columns_def column_lookup or_shared_def split: option.splits)
  qed
qed (simp add: finalizeNodeColumns_def put_columns_def)

definition at_csr :: "u32 list \<Rightarrow> 'v pair list \<Rightarrow> 'v pair list" where
  "at_csr r2c ps = map (\<lambda>p. p\<lparr>pid := r2c ! unat (pid p)\<rparr>) ps"

definition cols_at_csr :: "u32 list \<Rightarrow> 'v staged \<Rightarrow> 'v staged" where
  "cols_at_csr r2c cols = map (\<lambda>(k, ps). (k, at_csr r2c ps)) cols"

lemma remap_to_csr_ok:
  "(\<And>p. p \<in> set ps \<Longrightarrow> unat (pid p) < length r2c) \<Longrightarrow> remap_to_csr r2c ps = Some (at_csr r2c ps)"
  unfolding remap_to_csr_def at_csr_def by (rule map_opt_Some) (simp add: pairID_def withPairID_def)

lemma finalizeRelColumns_put:
  assumes "\<And>k ps x. (k, ps) \<in> set staged \<Longrightarrow> x \<in> set ps \<Longrightarrow> unat (pid x) < length r2c"
  shows "finalizeRelColumns build staged span r2c (p, g)
    = map_option (\<lambda>cs. (record_rels (fst ` set staged) p, g\<lparr>relColumns := cs\<rparr>))
        (put_columns (or_shared (shared_rel p) (\<lambda>ps. build ps span)) (cols_at_csr r2c staged) (relColumns g))"
  using assms
proof (induction staged arbitrary: p g)
  case (Cons e staged)
  obtain k ps where e: "e = (k, ps)" by (cases e)
  have r: "remap_to_csr r2c ps = Some (at_csr r2c ps)" using Cons.prems [of k ps] e by (intro remap_to_csr_ok) auto
  have pr: "\<And>k ps x. (k, ps) \<in> set staged \<Longrightarrow> x \<in> set ps \<Longrightarrow> unat (pid x) < length r2c" using Cons.prems by auto
  show ?case
  proof (cases "or_shared (shared_rel p) (\<lambda>ps. build ps span) k (at_csr r2c ps)")
    case (Some c)
    let ?p = "if shared_rel p k = None then p else p\<lparr>aliasedRelCols := insert k (aliasedRelCols p)\<rparr>" and ?g = "g\<lparr>relColumns := AList.update k c (relColumns g)\<rparr>"
    have "finalizeRelColumns build (e # staged) span r2c (p, g) = finalizeRelColumns build staged span r2c (?p, ?g)"
      using Some r by (auto simp: e finalizeRelColumns_def column_lookup or_shared_def split: option.splits)
    moreover have "finalizeRelColumns build staged span r2c (?p, ?g)
      = map_option (\<lambda>cs. (record_rels (fst ` set staged) ?p, ?g\<lparr>relColumns := cs\<rparr>))
          (put_columns (or_shared (shared_rel ?p) (\<lambda>ps. build ps span)) (cols_at_csr r2c staged) (relColumns ?g))"
      by (rule Cons.IH) (rule pr)
    moreover have "shared_rel ?p = shared_rel p" by simp
    ultimately show ?thesis using Some by (simp add: e put_columns_def record_insert cols_at_csr_def comp_def)
  next
    case None
    then show ?thesis using r by (auto simp: e finalizeRelColumns_def put_columns_def column_lookup or_shared_def cols_at_csr_def split: option.splits)
  qed
qed (simp add: finalizeRelColumns_def put_columns_def cols_at_csr_def)

text \<open>The families of staged columns of one side, and the column a key gets: the last family that has it.\<close>

type_synonym families = "i64 staged \<times> f64 staged \<times> bool staged \<times> u32 staged"

fun family_col :: "nat \<Rightarrow> families \<Rightarrow> PropertyKey \<Rightarrow> Column option" where
  "family_col span (is, fs, bs, ss) k =
     (case map_of ss k of Some ps \<Rightarrow> columnFromPairsStr ps span
      | None \<Rightarrow> (case map_of bs k of Some ps \<Rightarrow> columnFromPairsBool ps span
      | None \<Rightarrow> (case map_of fs k of Some ps \<Rightarrow> columnFromPairsF64 ps span
      | None \<Rightarrow> (case map_of is k of Some ps \<Rightarrow> columnFromPairsI64 ps span | None \<Rightarrow> None))))"

text \<open>What a key reads at a position: the last write of that family; a dense string column reads unset positions as atom 0.\<close>

definition str_reads :: "nat \<Rightarrow> strPair list \<Rightarrow> u32 \<Rightarrow> u32 option" where
  "str_reads span ps i =
     (if denseStrThreshold (card (pid ` set ps)) span
      then if unat i < span then Some (case staged_map ps i of Some v \<Rightarrow> v | None \<Rightarrow> 0) else None
      else staged_map ps i)"

fun family_reads :: "nat \<Rightarrow> families \<Rightarrow> PropertyKey \<Rightarrow> u32 \<Rightarrow> Value option" where
  "family_reads span (is, fs, bs, ss) k i =
     (case map_of ss k of Some ps \<Rightarrow> map_option StrValue (str_reads span ps i)
      | None \<Rightarrow> (case map_of bs k of Some ps \<Rightarrow> map_option BoolValue (staged_map ps i)
      | None \<Rightarrow> (case map_of fs k of Some ps \<Rightarrow> map_option F64Value (staged_map ps i)
      | None \<Rightarrow> (case map_of is k of Some ps \<Rightarrow> map_option I64Value (staged_map ps i) | None \<Rightarrow> None))))"

fun families_ok :: "nat \<Rightarrow> families \<Rightarrow> bool" where
  "families_ok span (is, fs, bs, ss) \<longleftrightarrow> cols_ok (\<lambda>x. unat x < span) is \<and> cols_ok (\<lambda>x. unat x < span) fs
     \<and> cols_ok (\<lambda>x. unat x < span) bs \<and> cols_ok (\<lambda>x. unat x < span) ss"

lemma cols_ok_span: "cols_ok (\<lambda>x. unat x < span) cols \<Longrightarrow> map_of cols k = Some ps \<Longrightarrow> in_span ps span"
  by (auto simp: cols_ok_def in_span_def dest!: map_of_SomeD)

lemma family_reads_ok:
  assumes "families_ok span fam" "span < 2 ^ 32"
  shows "case family_col span fam k of
      None \<Rightarrow> (\<forall>i. family_reads span fam k i = None)
    | Some c \<Rightarrow> col_inv c \<and> (\<forall>i. Column_Get c i = Some (family_reads span fam k i))"
proof -
  obtain "is" fs bs ss where f: "fam = (is, fs, bs, ss)" by (cases fam)
  have ok: "cols_ok (\<lambda>x. unat x < span) is" "cols_ok (\<lambda>x. unat x < span) fs" "cols_ok (\<lambda>x. unat x < span) bs" "cols_ok (\<lambda>x. unat x < span) ss"
    using assms(1) by (auto simp: f)
  show ?thesis
  proof (cases "map_of ss k")
    case (Some ps)
    from columnFromPairsStr_ok [OF cols_ok_span [OF ok(4) Some] assms(2)] show ?thesis using Some
      by (auto simp: f reads_as_def str_reads_def)
  next
    case s: None
    show ?thesis
    proof (cases "map_of bs k")
      case (Some ps)
      from columnFromPairsBool_ok [OF cols_ok_span [OF ok(3) Some] assms(2)] show ?thesis using Some s by (auto simp: f reads_as_def)
    next
      case b: None
      show ?thesis
      proof (cases "map_of fs k")
        case (Some ps)
        from columnFromPairsF64_ok [OF cols_ok_span [OF ok(2) Some] assms(2)] show ?thesis using Some s b by (auto simp: f reads_as_def)
      next
        case fl: None
        show ?thesis
        proof (cases "map_of is k")
          case (Some ps)
          from columnFromPairsI64_ok [OF cols_ok_span [OF ok(1) Some] assms(2)] show ?thesis using Some s b fl by (auto simp: f reads_as_def)
        qed (simp add: f s b fl)
      qed
    qed
  qed
qed

lemma cols_ok_mem_span: "cols_ok (\<lambda>x. unat x < span) cols \<Longrightarrow> (k, ps) \<in> set cols \<Longrightarrow> in_span ps span"
  by (auto simp: cols_ok_def in_span_def)

lemma family_builds:
  assumes "families_ok span (is, fs, bs, ss)" "span < 2 ^ 32"
  shows "\<forall>e \<in> set is. columnFromPairsI64 (snd e) span \<noteq> None" "\<forall>e \<in> set fs. columnFromPairsF64 (snd e) span \<noteq> None"
    "\<forall>e \<in> set bs. columnFromPairsBool (snd e) span \<noteq> None" "\<forall>e \<in> set ss. columnFromPairsStr (snd e) span \<noteq> None"
proof -
  have ok: "cols_ok (\<lambda>x. unat x < span) is" "cols_ok (\<lambda>x. unat x < span) fs" "cols_ok (\<lambda>x. unat x < span) bs" "cols_ok (\<lambda>x. unat x < span) ss"
    using assms(1) by auto
  show "\<forall>e \<in> set is. columnFromPairsI64 (snd e) span \<noteq> None"
    using columnFromPairsI64_ok [OF cols_ok_mem_span [OF ok(1)] assms(2)] by fastforce
  show "\<forall>e \<in> set fs. columnFromPairsF64 (snd e) span \<noteq> None"
    using columnFromPairsF64_ok [OF cols_ok_mem_span [OF ok(2)] assms(2)] by fastforce
  show "\<forall>e \<in> set bs. columnFromPairsBool (snd e) span \<noteq> None"
    using columnFromPairsBool_ok [OF cols_ok_mem_span [OF ok(3)] assms(2)] by fastforce
  show "\<forall>e \<in> set ss. columnFromPairsStr (snd e) span \<noteq> None"
    using columnFromPairsStr_ok [OF cols_ok_mem_span [OF ok(4)] assms(2)] by fastforce
qed

lemma put_shared:
  assumes "distinct (map fst staged)" "\<forall>e \<in> set staged. f (snd e) \<noteq> None" "distinct (map fst c)"
  shows "\<exists>c'. put_columns (or_shared sh f) staged c = Some c' \<and> (\<forall>k. map_of c' k = (case map_of staged k of None \<Rightarrow> map_of c k | Some ps \<Rightarrow> or_shared sh f k ps))
    \<and> distinct (map fst c')"
proof -
  have "\<forall>(k, ps) \<in> set staged. or_shared sh f k ps \<noteq> None" using assms(2) by (auto simp: or_shared_def split: option.split)
  from put_columns_ok [OF assms(1) this, of c] assms(3) show ?thesis by auto
qed

lemma four_puts:
  assumes "families_ok span (is, fs, bs, ss)" "span < 2 ^ 32" and sh: "\<forall>k c. sh k = Some c \<longrightarrow> family_col span (is, fs, bs, ss) k = Some c"
  shows "\<exists>c1 c2 c3 c4. put_columns (or_shared sh (\<lambda>ps. columnFromPairsI64 ps span)) is [] = Some c1 \<and> put_columns (or_shared sh (\<lambda>ps. columnFromPairsF64 ps span)) fs c1 = Some c2
    \<and> put_columns (or_shared sh (\<lambda>ps. columnFromPairsBool ps span)) bs c2 = Some c3 \<and> put_columns (or_shared sh (\<lambda>ps. columnFromPairsStr ps span)) ss c3 = Some c4
    \<and> (\<forall>k. map_of c4 k = family_col span (is, fs, bs, ss) k) \<and> distinct (map fst c4)"
proof -
  have d: "distinct (map fst is)" "distinct (map fst fs)" "distinct (map fst bs)" "distinct (map fst ss)"
    using assms(1) by (auto simp: cols_ok_def)
  note b = family_builds [OF assms(1,2)]
  obtain c1 where c1: "put_columns (or_shared sh (\<lambda>ps. columnFromPairsI64 ps span)) is [] = Some c1"
    "\<forall>k. map_of c1 k = (case map_of is k of None \<Rightarrow> map_of [] k | Some ps \<Rightarrow> or_shared sh (\<lambda>ps. columnFromPairsI64 ps span) k ps)" "distinct (map fst c1)"
    using put_shared [where f = "\<lambda>ps. columnFromPairsI64 ps span", OF d(1) b(1), of "[]"] by auto
  obtain c2 where c2: "put_columns (or_shared sh (\<lambda>ps. columnFromPairsF64 ps span)) fs c1 = Some c2"
    "\<forall>k. map_of c2 k = (case map_of fs k of None \<Rightarrow> map_of c1 k | Some ps \<Rightarrow> or_shared sh (\<lambda>ps. columnFromPairsF64 ps span) k ps)" "distinct (map fst c2)"
    using put_shared [where f = "\<lambda>ps. columnFromPairsF64 ps span", OF d(2) b(2) c1(3)] by blast
  obtain c3 where c3: "put_columns (or_shared sh (\<lambda>ps. columnFromPairsBool ps span)) bs c2 = Some c3"
    "\<forall>k. map_of c3 k = (case map_of bs k of None \<Rightarrow> map_of c2 k | Some ps \<Rightarrow> or_shared sh (\<lambda>ps. columnFromPairsBool ps span) k ps)" "distinct (map fst c3)"
    using put_shared [where f = "\<lambda>ps. columnFromPairsBool ps span", OF d(3) b(3) c2(3)] by blast
  obtain c4 where c4: "put_columns (or_shared sh (\<lambda>ps. columnFromPairsStr ps span)) ss c3 = Some c4"
    "\<forall>k. map_of c4 k = (case map_of ss k of None \<Rightarrow> map_of c3 k | Some ps \<Rightarrow> or_shared sh (\<lambda>ps. columnFromPairsStr ps span) k ps)" "distinct (map fst c4)"
    using put_shared [where f = "\<lambda>ps. columnFromPairsStr ps span", OF d(4) b(4) c3(3)] by blast
  have "map_of c4 k = family_col span (is, fs, bs, ss) k" for k
  proof (cases "sh k")
    case None
    then show ?thesis using c1(2) c2(2) c3(2) c4(2) by (simp add: or_shared_def split: option.split)
  next
    case (Some c)
    have f: "family_col span (is, fs, bs, ss) k = Some c" using sh Some by blast
    have "map_of c4 k = Some c" using c1(2) c2(2) c3(2) c4(2) f Some by (auto simp: or_shared_def split: option.splits)
    then show ?thesis using f by simp
  qed
  then show ?thesis using c1(1) c2(1) c3(1) c4(1,3) by blast
qed

definition node_fams :: "'bm Builder \<Rightarrow> families" where
  "node_fams b = (nodeColI64 b, nodeColF64 b, nodeColBool b, nodeColStr b)"

definition rel_fams :: "u32 list \<Rightarrow> 'bm Builder \<Rightarrow> families" where
  "rel_fams r2c b = (cols_at_csr r2c (relColI64 b), cols_at_csr r2c (relColF64 b), cols_at_csr r2c (relColBool b), cols_at_csr r2c (relColStr b))"

definition columns_in_step :: "nat \<Rightarrow> nat \<Rightarrow> u32 list \<Rightarrow> 'bm Builder \<Rightarrow> 'bm aliasPlan \<Rightarrow> bool" where
  "columns_in_step n m r2c b p \<longleftrightarrow> (\<forall>k c. shared_node p k = Some c \<longrightarrow> family_col n (node_fams b) k = Some c)
    \<and> (\<forall>k c. shared_rel p k = Some c \<longrightarrow> family_col m (rel_fams r2c b) k = Some c)"

lemma all_columns_ok:
  assumes p: "columns_in_step n m r2c b p" and e: "columns g = []" "relColumns g = []" and nf: "families_ok n (node_fams b)" "n < 2 ^ 32"
    and rf: "families_ok m (rel_fams r2c b)" "m < 2 ^ 32" and r2c: "cols_inv R b" "length r2c = length (b_rels b)"
  shows "\<exists>cs rcs K L. all_columns b n m r2c (p, g) = Some (record_rels L (record_nodes K p), g\<lparr>columns := cs, relColumns := rcs\<rparr>)
    \<and> (\<forall>k. map_of cs k = family_col n (node_fams b) k) \<and> (\<forall>k. map_of rcs k = family_col m (rel_fams r2c b) k)
    \<and> distinct (map fst cs) \<and> distinct (map fst rcs)"
proof -
  let ?S = "shared_node p" and ?T = "shared_rel p"
  have sh: "\<forall>k c. ?S k = Some c \<longrightarrow> family_col n (node_fams b) k = Some c" "\<forall>k c. ?T k = Some c \<longrightarrow> family_col m (rel_fams r2c b) k = Some c"
    using p by (simp_all add: columns_in_step_def)
  obtain c1 c2 c3 cs where c: "put_columns (or_shared ?S (\<lambda>ps. columnFromPairsI64 ps n)) (nodeColI64 b) [] = Some c1"
    "put_columns (or_shared ?S (\<lambda>ps. columnFromPairsF64 ps n)) (nodeColF64 b) c1 = Some c2"
    "put_columns (or_shared ?S (\<lambda>ps. columnFromPairsBool ps n)) (nodeColBool b) c2 = Some c3" "put_columns (or_shared ?S (\<lambda>ps. columnFromPairsStr ps n)) (nodeColStr b) c3 = Some cs"
    "\<forall>k. map_of cs k = family_col n (node_fams b) k" "distinct (map fst cs)"
    using four_puts [OF nf [unfolded node_fams_def] sh(1) [unfolded node_fams_def]] by (elim exE conjE) (rule that; simp add: node_fams_def)
  obtain r1 r2 r3 rcs where r: "put_columns (or_shared ?T (\<lambda>ps. columnFromPairsI64 ps m)) (cols_at_csr r2c (relColI64 b)) [] = Some r1"
    "put_columns (or_shared ?T (\<lambda>ps. columnFromPairsF64 ps m)) (cols_at_csr r2c (relColF64 b)) r1 = Some r2"
    "put_columns (or_shared ?T (\<lambda>ps. columnFromPairsBool ps m)) (cols_at_csr r2c (relColBool b)) r2 = Some r3"
    "put_columns (or_shared ?T (\<lambda>ps. columnFromPairsStr ps m)) (cols_at_csr r2c (relColStr b)) r3 = Some rcs" "\<forall>k. map_of rcs k = family_col m (rel_fams r2c b) k" "distinct (map fst rcs)"
    using four_puts [OF rf [unfolded rel_fams_def] sh(2) [unfolded rel_fams_def]] by (elim exE conjE) (rule that; simp add: rel_fams_def)
  have lt: "\<And>k ps x. (k, ps) \<in> set (relColI64 b) \<Longrightarrow> x \<in> set ps \<Longrightarrow> unat (pid x) < length r2c"
    "\<And>k ps x. (k, ps) \<in> set (relColF64 b) \<Longrightarrow> x \<in> set ps \<Longrightarrow> unat (pid x) < length r2c"
    "\<And>k ps x. (k, ps) \<in> set (relColBool b) \<Longrightarrow> x \<in> set ps \<Longrightarrow> unat (pid x) < length r2c"
    "\<And>k ps x. (k, ps) \<in> set (relColStr b) \<Longrightarrow> x \<in> set ps \<Longrightarrow> unat (pid x) < length r2c"
    using r2c by (auto simp: cols_inv_def Let_def cols_ok_def)
  note rp = finalizeRelColumns_put [of "relColI64 b" r2c columnFromPairsI64 m, OF lt(1)] finalizeRelColumns_put [of "relColF64 b" r2c columnFromPairsF64 m, OF lt(2)]
    finalizeRelColumns_put [of "relColBool b" r2c columnFromPairsBool m, OF lt(3)] finalizeRelColumns_put [of "relColStr b" r2c columnFromPairsStr m, OF lt(4)]
  have nn: "record_nodes K (record_nodes L q) = record_nodes (K \<union> L) q" and rr: "record_rels K (record_rels L q) = record_rels (K \<union> L) q" for K L and q :: "'a aliasPlan"
  proof -
    have u: "{k \<in> K \<union> L. P k} \<union> A = {k \<in> K. P k} \<union> ({k \<in> L. P k} \<union> A)" for P A by auto
    show "record_nodes K (record_nodes L q) = record_nodes (K \<union> L) q" unfolding record_nodes_def u by simp
    show "record_rels K (record_rels L q) = record_rels (K \<union> L) q" unfolding record_rels_def u by simp
  qed
  let ?K = "fst ` set (nodeColStr b) \<union> (fst ` set (nodeColBool b) \<union> (fst ` set (nodeColF64 b) \<union> fst ` set (nodeColI64 b)))"
  let ?L = "fst ` set (relColStr b) \<union> (fst ` set (relColBool b) \<union> (fst ` set (relColF64 b) \<union> fst ` set (relColI64 b)))"
  have "all_columns b n m r2c (p, g) = Some (record_rels ?L (record_nodes ?K p), g\<lparr>columns := cs, relColumns := rcs\<rparr>)"
    using c(1-4) r(1-4) e by (simp add: all_columns_def finalizeNodeColumns_put rp nn rr)
  then show ?thesis using c(5,6) r(5,6) by blast
qed

section \<open>The builder's state and the id space\<close>

lemma no_removals:
  assumes "roaring_laws R" "\<not> hasRemovals R b"
  shows "\<not> tomb R b i" "\<not> relRemoved R b i"
  using live_all(1) [OF assms, of i] by (auto simp: live_at_def inv_relRemoved)

lemma count_in_nth: "count_in (\<lambda>i. P (xs ! i)) 0 (length xs) = length (filter P xs)"
  using map_filter_nth [of id xs P] by (metis count_in_def id_apply length_map)

lemma id_space_bounds:
  assumes R: "roaring_laws R" and inv: "builder_inv R b"
  shows "1 \<le> id_space R b" "id_space R b \<le> length (degOut b)" "x \<in> rb_set R (knownNodes b) \<Longrightarrow> unat x < id_space R b"
proof -
  have known: "unat x < length (degOut b)" if "x \<in> rb_set R (knownNodes b)" for x using inv that by (simp add: builder_inv_def known_inv_def)
  have cap: "degOut b \<noteq> []" using inv by (simp add: builder_inv_def caps_inv_def)
  show "1 \<le> id_space R b" by (simp add: id_space_def)
  show "id_space R b \<le> length (degOut b)"
    using known roaring_min_max(3) [OF R, of "knownNodes b"] cap by (auto simp: id_space_def roaring_simps [OF R] Suc_le_eq)
  assume x: "x \<in> rb_set R (knownNodes b)"
  then have "x \<le> rb_Maximum R (knownNodes b)" by (intro roaring_min_max(4) [OF R]) auto
  then show "unat x < id_space R b" using x by (auto simp: id_space_def roaring_simps [OF R] word_le_nat_alt)
qed

lemma builder_csr_input:
  assumes R: "roaring_laws R" and inv: "builder_inv R b" and no: "\<not> hasRemovals R b" and len: "length (degOut b) < 2 ^ 32"
  shows "rels_ok (id_space R b) (b_rels b) (b_relTypes b)" "deg_ok (id_space R b) (b_rels b) 0 (degOut b)" "deg_ok (id_space R b) (b_rels b) 1 (degIn b)"
    "families_ok (id_space R b) (node_fams b)"
proof -
  note sp = id_space_bounds [OF R inv]
  have v: "caps_inv b" "rels_inv R b" "known_inv R b" "cols_inv R b" using inv by (auto simp: builder_inv_def)
  have ends: "unat (fst r) < id_space R b \<and> unat (snd r) < id_space R b" if "r \<in> set (b_rels b)" for r
    using that v(3) no_removals(2) [OF R no] sp(3) by (fastforce simp: known_inv_def in_set_conv_nth)
  show "rels_ok (id_space R b) (b_rels b) (b_relTypes b)"
    using v(2) ends sp(2) len by (simp add: rels_ok_def rels_inv_def maxSize_def)
  have "unat (degOut b ! u) = length (filter (\<lambda>r. unat (fst r) = u) (b_rels b))" "unat (degIn b ! u) = length (filter (\<lambda>r. unat (snd r) = u) (b_rels b))"
    if "u < length (degOut b)" for u
    using v(1,2) that no_removals(1) [OF R no] count_in_nth [of "\<lambda>r. unat (fst r) = u" "b_rels b"] count_in_nth [of "\<lambda>r. unat (snd r) = u" "b_rels b"]
    by (simp_all add: rels_inv_def deg_inv_def caps_inv_def)
  then show "deg_ok (id_space R b) (b_rels b) 0 (degOut b)" "deg_ok (id_space R b) (b_rels b) 1 (degIn b)"
    using sp(2) v(1) by (simp_all add: deg_ok_def owner_of_def caps_inv_def)
  show "families_ok (id_space R b) (node_fams b)"
    using v(4) sp(3) by (auto simp: node_fams_def cols_inv_def Let_def elim: cols_ok_mono)
qed

lemma rel_fams_ok:
  assumes c: "cols_inv R b" and r: "length r2c = length (b_rels b)" "\<And>i. i < length (b_rels b) \<Longrightarrow> unat (r2c ! i) < length (b_rels b)"
  shows "families_ok (length (b_rels b)) (rel_fams r2c b)"
proof -
  have "cols_ok (\<lambda>x. unat x < length (b_rels b)) (cols_at_csr r2c (relColI64 b))" "cols_ok (\<lambda>x. unat x < length (b_rels b)) (cols_at_csr r2c (relColF64 b))"
    "cols_ok (\<lambda>x. unat x < length (b_rels b)) (cols_at_csr r2c (relColBool b))" "cols_ok (\<lambda>x. unat x < length (b_rels b)) (cols_at_csr r2c (relColStr b))"
    using c r(2) by (auto simp: cols_inv_def Let_def cols_ok_def cols_at_csr_def at_csr_def comp_def case_prod_beta)
  then show ?thesis by (simp add: rel_fams_def)
qed

end
