(* ===== verification/BuilderIds.thy ===== *)
theory BuilderIds
  imports BuilderOps
begin

text \<open>
  The typing of the staged ids: every label and relationship type a builder holds is an id of its own interner. Most calls only
  \<open>keep\<close> labels and types while the interner grows; \<open>AddNode\<close> and \<open>AddRel\<close> add ids they have just interned.
\<close>

definition ids_interned :: "'bm Builder \<Rightarrow> bool" where
  "ids_interned b \<longleftrightarrow> (\<forall>ls \<in> set (nodeLabels b). \<forall>l \<in> set ls. unat l < interned b) \<and> (\<forall>t \<in> set (b_relTypes b). unat t < interned b)"

definition keeps :: "'bm Builder \<Rightarrow> 'bm Builder \<Rightarrow> bool" where
  "keeps b b' \<longleftrightarrow> (\<forall>ls \<in> set (nodeLabels b'). ls = [] \<or> ls \<in> set (nodeLabels b)) \<and> set (b_relTypes b') \<subseteq> set (b_relTypes b)
    \<and> interned b \<le> interned b' \<and> b_src b' = b_src b"

lemma keeps_refl [simp]: "keeps b b"
  by (simp add: keeps_def)

lemma keeps_trans [trans]: "keeps a b \<Longrightarrow> keeps b c \<Longrightarrow> keeps a c"
  by (auto simp: keeps_def)

lemma keeps_ids: "keeps b b' \<Longrightarrow> ids_interned b \<Longrightarrow> ids_interned b'"
  unfolding keeps_def ids_interned_def by (fastforce dest: order_less_le_trans)

text \<open>Updates of other fields.\<close>

lemma keeps_same: "nodeLabels b' = nodeLabels b \<Longrightarrow> b_relTypes b' = b_relTypes b \<Longrightarrow> interner b' = interner b \<Longrightarrow> b_src b' = b_src b \<Longrightarrow> keeps b b'"
  by (simp add: keeps_def interned_def)

lemma keeps_marks [simp]:
  "keeps b (markNodeColDirty k b)" "keeps b (markRelColDirty k b)" "keeps b (markLabelDirty l b)" "keeps b (markRelsDirty b)" "keeps b (known_add R i b)"
  "keeps b (stage_node i k v b)" "keeps b (stage_rel j k v b)"
  by (auto intro!: keeps_same simp: markNodeColDirty_def markRelColDirty_def markLabelDirty_def markRelsDirty_def known_add_def stage_node_def stage_rel_def
      split: ValueKind.split)

lemma keeps_fold: "(\<And>x b. keeps b (f x b)) \<Longrightarrow> keeps b (fold f xs b)"
  by (induction xs arbitrary: b) (auto intro: keeps_trans)

lemma keeps_intern [simp]: "keeps b (snd (intern s b))"
  by (auto simp: keeps_def intern_def interned_def GetOrIntern_def intern_read_def intern_write_def Let_def split: prod.split option.split)

lemma keeps_intern': "intern s b = (i, b') \<Longrightarrow> keeps b b'"
  using keeps_intern [of b s] by simp

lemma keeps_stageValue [simp]: "keeps b (snd (stageValue v b))"
  by (auto simp: stageValue_def split: AnyValue.split prod.split dest: keeps_intern')

lemma keeps_ensure: "ensureCapacity i b = Some (r, b') \<Longrightarrow> keeps b b'"
  by (auto simp: ensureCapacity_def Let_def keeps_def interned_def grow_to_def split: if_splits dest: in_set_takeD)

lemma keeps_sweeps [simp]: "keeps b (snd (removeNodePropPairsByKey i k b))" "keeps b (removeNodePropPairs i b)"
proof -
  have c: "keeps b (b\<lparr>nodeColI64 := c1, nodeColF64 := c2, nodeColBool := c3, nodeColStr := c4\<rparr>)" for c1 c2 c3 c4 by (rule keeps_same) simp_all
  show "keeps b (snd (removeNodePropPairsByKey i k b))"
    by (auto simp: removeNodePropPairsByKey_def Let_def c keeps_trans [OF c keeps_marks(1)] split: prod.split)
  show "keeps b (removeNodePropPairs i b)"
    by (auto simp: removeNodePropPairs_def simp del: fold_append intro!: keeps_trans [OF c keeps_fold] split: prod.split)
qed

lemma keeps_bbind:
  assumes "bbind r f = Some (x, b')" "\<And>y b1. r = Some (y, b1) \<Longrightarrow> keeps b b1" "\<And>y b1. r = Some (Inr y, b1) \<Longrightarrow> f y b1 = Some (x, b') \<Longrightarrow> keeps b1 b'"
  shows "keeps b b'"
  using assms by (auto simp: bbind_def split: option.splits sum.splits intro: keeps_trans)

lemma keeps_SetPropByKey: "SetPropByKey R i k v b = Some (x, b') \<Longrightarrow> keeps b b'"
  unfolding SetPropByKey_def
  apply (erule keeps_bbind)
   apply (metis keeps_stageValue option.inject snd_conv)
  apply (erule keeps_bbind)
   apply (erule keeps_ensure)
  apply (auto intro: keeps_trans [OF keeps_marks(1) keeps_trans [OF keeps_marks(6) keeps_marks(5)]])
  done

lemma keeps_SetProp: "SetProp R i k v b = Some (x, b') \<Longrightarrow> keeps b b'"
  by (auto simp: SetProp_def split: prod.splits dest!: keeps_SetPropByKey keeps_intern' intro: keeps_trans)

lemma keeps_UpdateProp: "UpdateProp R i k v b = Some (x, b') \<Longrightarrow> keeps b b'"
proof -
  assume u: "UpdateProp R i k v b = Some (x, b')"
  obtain key b1 where i1: "intern k b = (key, b1)" by fastforce
  have "keeps b1 b'"
    using u unfolding UpdateProp_def i1 prod.case
    apply (rule keeps_bbind)
     apply (metis keeps_stageValue option.inject snd_conv)
    apply (rule keeps_trans [OF keeps_sweeps(1) keeps_SetPropByKey])
    apply simp
    done
  then show ?thesis using keeps_intern [of b k] i1 by (auto intro: keeps_trans)
qed

lemma keeps_RemoveProp: "keeps b (snd (RemoveProp i k b))"
  by (simp add: RemoveProp_def split: option.split)

lemma keeps_SetRelPropAt: "SetRelPropAt R r k v b = Some (x, b') \<Longrightarrow> keeps b b'"
proof -
  assume u: "SetRelPropAt R r k v b = Some (x, b')"
  obtain key b1 where i1: "intern k b = (key, b1)" by fastforce
  have k1: "keeps b b1" using keeps_intern [of b k] i1 by simp
  have "keeps b1 b'" if "bbind (Some (stageValue v b1)) (\<lambda>v b. Some (Inr (), stage_rel (of_int r) key v (markRelColDirty key b))) = Some (x, b')"
    using that
    apply (rule keeps_bbind)
     apply (metis keeps_stageValue option.inject snd_conv)
    apply (auto intro: keeps_trans [OF keeps_marks(2) keeps_marks(7)])
    done
  then show ?thesis using u i1 k1 by (auto simp: SetRelPropAt_def split: if_splits intro: keeps_trans)
qed

lemma keeps_find: "findRelIndex R u v t b = Some (r, b') \<Longrightarrow> keeps b b'"
  by (auto simp: findRelIndex_def build_rel_index_def split: option.splits bind_splits intro!: keeps_same)

lemma keeps_SetRelProp: "SetRelProp R u v t k x b = Some (y, b') \<Longrightarrow> keeps b b'"
  by (auto simp: SetRelProp_def split: bind_splits option.splits dest!: keeps_find keeps_SetRelPropAt intro: keeps_trans)

lemma keeps_RemoveRelPropAt: "RemoveRelPropAt R r k b = Some (y, b') \<Longrightarrow> keeps b b'"
  by (auto simp: RemoveRelPropAt_def Let_def markRelColDirty_def split: if_splits option.splits prod.splits intro!: keeps_same)

lemma keeps_RemoveRelProp: "RemoveRelProp R u v t k b = Some (y, b') \<Longrightarrow> keeps b b'"
  by (auto simp: RemoveRelProp_def split: bind_splits option.splits dest!: keeps_find keeps_RemoveRelPropAt intro: keeps_trans)

lemma keeps_RemoveRel: "RemoveRel R r b = Some (y, b') \<Longrightarrow> keeps b b'"
  by (auto simp: RemoveRel_def Let_def markRelsDirty_def split: if_splits option.splits bind_splits intro!: keeps_same)

lemma keeps_RemoveNode: "keeps b (snd (RemoveNode R i b))"
proof -
  have 1: "keeps b (b\<lparr>knownNodes := x\<rparr>)" "keeps b (b\<lparr>removedNodes := y, relIndex := z\<rparr>)" for b :: "'a Builder" and x y z by (rule keeps_same; simp)+
  have 2: "keeps b (b\<lparr>nodeLabels := (nodeLabels b)[j := []]\<rparr>)" for b :: "'a Builder" and j
    by (auto simp: keeps_def interned_def dest: set_update_subset_insert [THEN subsetD])
  have 3: "nodeLabels (fold markLabelDirty ls b) = nodeLabels b" for ls and b :: "'a Builder"
    by (induction ls arbitrary: b) (simp_all add: markLabelDirty_def)
  have 4: "keeps b ((fold markLabelDirty ls b)\<lparr>nodeLabels := (nodeLabels b)[j := []]\<rparr>)" for ls j and b :: "'a Builder"
  proof -
    have "keeps b (fold markLabelDirty ls b)" by (rule keeps_fold) (rule keeps_marks(3))
    from keeps_trans [OF this 2, of j] show ?thesis by (simp add: 3)
  qed
  let ?b1 = "b\<lparr>knownNodes := rb_Remove R (knownNodes b) i\<rparr>"
  let ?b2 = "if unat i < length (nodeLabels ?b1) then (fold markLabelDirty (nodeLabels ?b1 ! unat i) ?b1)\<lparr>nodeLabels := (nodeLabels ?b1)[unat i := []]\<rparr> else ?b1"
  have "keeps ?b1 ?b2" using 4 [of ?b1 "unat i" "nodeLabels b ! unat i"] by simp
  from keeps_trans [OF keeps_trans [OF 1(1) keeps_trans [OF this keeps_trans [OF keeps_marks(4) keeps_sweeps(2)]]] 1(2)]
  show ?thesis unfolding RemoveNode_def Let_def by (simp only: snd_conv keeps_refl simp_thms split: if_split)
qed

section \<open>Calls that add ids\<close>

definition ids_typed :: "'bm Snapshot option \<Rightarrow> nat \<Rightarrow> 'bm Builder \<Rightarrow> bool" where
  "ids_typed src n b \<longleftrightarrow> interner_wf (interner b) \<and> interned b \<le> n \<and> ids_interned b \<and> b_src b = src"

lemma typed_intern:
  assumes "ids_typed src n b" "n < 2 ^ 32" "intern s b = (i, b')"
  shows "ids_typed src (n + 1) b'" "unat i < interned b'"
proof -
  obtain inr where inr: "GetOrIntern (interner b) s = (i, inr)" "b' = b\<lparr>interner := inr\<rparr>" using assms(3) by (auto simp: intern_def split: prod.splits)
  have r: "length (int_strings (interner b)) < 2 ^ 32" and wf: "interner_wf (interner b)" using assms(1,2) by (auto simp: ids_typed_def interned_def)
  note g = GetOrIntern_ok [OF wf inr(1) r]
  obtain j where "first_idx (int_strings inr) s = Some j" "i = of_nat j" using g(1,2) by (auto simp: interner_wf_def)
  then show "unat i < interned b'" using first_idx_bound [of "int_strings inr" s j] g(1) inr(2) by (simp add: interned_def interner_wf_def unat_of_nat_less)
  have "interned b' \<le> interned b + 1" using inr by (auto simp: interned_def GetOrIntern_def intern_read_def intern_write_def Let_def split: option.splits)
  then show "ids_typed src (n + 1) b'" using g(1) inr(2) keeps_ids [OF keeps_intern' [OF assms(3)]] assms(1) by (auto simp: ids_typed_def)
qed

lemma typed_keeps: "keeps b b' \<Longrightarrow> interner b' = interner b \<Longrightarrow> ids_typed src n b \<Longrightarrow> ids_typed src n b'"
  using keeps_ids [of b b'] by (auto simp: ids_typed_def keeps_def interned_def)

lemma typed_ensure: "ensureCapacity i b = Some (r, b') \<Longrightarrow> ids_typed src n b \<Longrightarrow> ids_typed src n b'"
  by (rule typed_keeps [OF keeps_ensure]) (auto simp: ensureCapacity_def Let_def split: if_splits)

lemma typed_add_label:
  assumes "ids_typed src n b" "n < 2 ^ 32" "add_label i l b = Some b'"
  shows "ids_typed src (n + 1) b'"
proof -
  obtain lab b1 where i1: "intern l b = (lab, b1)" by fastforce
  note t = typed_intern [OF assms(1,2) i1]
  obtain nl where b': "b' = markLabelDirty lab (b1\<lparr>nodeLabels := nl\<rparr>)" and nl: "nl = (nodeLabels b1)[unat i := nodeLabels b1 ! unat i @ [lab]]" "unat i < length (nodeLabels b1)"
    using assms(3) by (auto simp: add_label_def i1 slice_at_def slice_set_def split: if_splits bind_splits)
  have "\<forall>l \<in> set ls. unat l < interned b1" if "ls \<in> set nl" for ls
  proof -
    have "ls = nodeLabels b1 ! unat i @ [lab] \<or> ls \<in> set (nodeLabels b1)" using that nl(1) set_update_subset_insert by fast
    then show ?thesis using t nth_mem [OF nl(2)] by (auto simp: ids_typed_def ids_interned_def)
  qed
  then have "ids_typed src (n + 1) (b1\<lparr>nodeLabels := nl\<rparr>)" using t(1) by (simp add: ids_typed_def ids_interned_def interned_def)
  then show ?thesis unfolding b' by (rule typed_keeps [OF keeps_marks(3), rotated]) (simp add: markLabelDirty_def)
qed

lemma typed_add_labels:
  "fold_opt (add_label i) ls b = Some b' \<Longrightarrow> ids_typed src n b \<Longrightarrow> n + length ls < 2 ^ 32 \<Longrightarrow> ids_typed src (n + length ls) b'"
proof (induction ls arbitrary: b n)
  case (Cons l ls)
  obtain b1 where b1: "add_label i l b = Some b1" "fold_opt (add_label i) ls b1 = Some b'" using Cons.prems(1) by (auto split: option.splits bind_splits)
  have "n < 2 ^ 32" using Cons.prems(3) by simp
  from Cons.IH [OF b1(2) typed_add_label [OF Cons.prems(2) this b1(1)]] Cons.prems(3) show ?case by simp
qed simp

lemma typed_addNodeAt:
  assumes "addNodeAt R i ls b = Some (x, b')" "ids_typed src n b" "n + length ls < 2 ^ 32"
  shows "ids_typed src (n + length ls) b'"
proof -
  obtain r b1 where e: "ensureCapacity i b = Some (r, b1)" using assms(1) by (auto simp: addNodeAt_def bbind_def split: option.splits)
  note t = typed_ensure [OF e assms(2)]
  show ?thesis
  proof (cases r)
    case (Inl err)
    then show ?thesis using assms(1) e t by (auto simp: addNodeAt_def bbind_def ids_typed_def)
  next
    case (Inr u)
    then obtain b2 where b2: "fold_opt (add_label i) ls b1 = Some b2" "b' = known_add R i b2"
      using assms(1) e by (auto simp: addNodeAt_def bbind_def split: bind_splits)
    from typed_keeps [OF keeps_marks(5) _ typed_add_labels [OF b2(1) t assms(3)]] show ?thesis by (simp add: b2(2) known_add_def)
  qed
qed

lemma typed_AddRel:
  assumes "AddRel R u v s b = Some (x, b')" "ids_typed src n b" "n < 2 ^ 32"
  shows "ids_typed src (n + 1) b'"
proof -
  obtain t b1 where i1: "intern s b = (t, b1)" by fastforce
  note ty = typed_intern [OF assms(2,3) i1]
  obtain r b2 where e: "ensureCapacity (max u v) b1 = Some (r, b2)" using assms(1) by (auto simp: AddRel_def i1 addRelTyped_def bbind_def split: option.splits)
  note t2 = typed_ensure [OF e ty(1)]
  have t: "unat t < interned b2" using ty(2) keeps_ensure [OF e] by (simp add: keeps_def)
  have t3: "ids_typed src (n + 1) (markRelsDirty b2)" using t2 by (rule typed_keeps [OF keeps_marks(4), rotated]) (simp add: markRelsDirty_def)
  have f: "interned (markRelsDirty b2) = interned b2" by (simp add: markRelsDirty_def interned_def)
  show ?thesis
    using assms(1) t2 t3 t f
    by (auto simp: AddRel_def i1 addRelTyped_def bbind_def e Let_def known_add_def ids_typed_def ids_interned_def interned_def split: sum.splits if_splits bind_splits)
qed

lemma run_bop_typed:
  assumes R: "roaring_laws R" and g: "good R n b" and t: "ids_interned b" "b_src b = src" and n: "n + op_strings call < 2 ^ 32" and r: "run_bop R call b = Some b'"
  shows "ids_interned b' \<and> b_src b' = src"
proof -
  have ty: "ids_typed src n b" using g t by (simp add: good_def ids_typed_def builder_inv_def)
  have k: "keeps b b' \<Longrightarrow> ?thesis" using keeps_ids [OF _ t(1)] t(2) by (simp add: keeps_def)
  have i: "ids_typed src m b' \<Longrightarrow> ?thesis" for m by (simp add: ids_typed_def)
  have nx: "ids_typed src n (b\<lparr>nextNodeID := j\<rparr>)" for j by (rule typed_keeps [OF keeps_same _ ty]) simp_all
  show ?thesis
  proof (cases call)
    case (CallAddNode ls)
    then obtain x where "AddNode R ls b = Some (x, b')" using r by auto
    then show ?thesis using i [OF typed_addNodeAt [OF _ nx, where ls = ls]] n CallAddNode t by (auto simp: AddNode_def Let_def split: if_splits)
  next
    case (CallAddNodeWithID j ls)
    then obtain x where "AddNodeWithID R j ls b = Some (x, b')" using r by auto
    then show ?thesis using i [OF typed_addNodeAt [OF _ nx, where ls = ls]] i [OF typed_addNodeAt [OF _ ty, where ls = ls]] n CallAddNodeWithID
      by (auto simp: AddNodeWithID_def split: if_splits)
  next
    case (CallAddRel u v s)
    then obtain x where "AddRel R u v s b = Some (x, b')" using r by auto
    from typed_AddRel [OF this ty] show ?thesis using n CallAddRel i by simp
  qed (rule k; use r in \<open>auto intro: keeps_SetProp keeps_SetPropByKey keeps_UpdateProp keeps_RemoveProp keeps_SetRelPropAt keeps_SetRelProp
        keeps_RemoveRelPropAt keeps_RemoveRelProp keeps_RemoveRel keeps_RemoveNode keeps_same simp: SetVersion_def\<close>)+
qed

lemma run_bops_typed:
  assumes "roaring_laws R" "good R n b" "ids_interned b" "b_src b = src" "n + sum_list (map op_strings calls) < 2 ^ 32"
  shows "\<exists>b'. fold_opt (run_bop R) calls b = Some b' \<and> good R (n + sum_list (map op_strings calls)) b' \<and> ids_interned b' \<and> b_src b' = src"
  using assms(2-5)
proof (induction calls arbitrary: n b)
  case (Cons c cs)
  from run_bop_ok [OF assms(1) Cons.prems(1), of c] Cons.prems(4) obtain b' where
    b': "run_bop R c b = Some b'" "good R (n + op_strings c) b'" by auto
  have "ids_interned b' \<and> b_src b' = src" using run_bop_typed [OF assms(1) Cons.prems(1-3) _ b'(1)] Cons.prems(4) by simp
  with Cons.IH [OF b'(2)] Cons.prems(4) b'(1) show ?case by (simp add: add.assoc)
qed simp

lemma NewBuilder_ids: "ids_interned (NewBuilder R n m)" "b_src (NewBuilder R n m) = None"
  by (simp_all add: NewBuilder_def Let_def ids_interned_def)
end
