(* ===== verification/SnapshotOf.thy ===== *)
theory SnapshotOf
  imports FinalizeCorrect BuilderIds
begin

text \<open>
  The staged graph and the snapshot built from it. \<open>snapshot_of\<close> relates a builder without removals to a snapshot; \<open>Finalize\<close>
  establishes it from scratch, and also for a builder with a source that shares what is not marked dirty (\<open>in_step\<close>).
\<close>

section \<open>The relation\<close>

definition out_positions :: "rel list \<Rightarrow> u32 list" where
  "out_positions rels = map (\<lambda>i. of_nat (csr_pos (owner_list 0 rels) i)) [0..<length rels]"

definition snapshot_of :: "'bm roaring \<Rightarrow> 'bm Builder \<Rightarrow> 'bm Snapshot \<Rightarrow> bool" where
  "snapshot_of R b g \<longleftrightarrow> (let n = id_space R b; rels = b_rels b; ts = b_relTypes b in
     csr_repr n rels ts 0 (outOffsets g) (outNbrs g) (outTypes g) \<and> csr_repr n rels ts 1 (inOffsets g) (inNbrs g) (inTypes g)
     \<and> (\<forall>m. inToOut g = Some m \<longrightarrow> computeInToOutFromCSR (outOffsets g) (outNbrs g) (outTypes g) (inOffsets g) (inNbrs g) (inTypes g) = Some m)
     \<and> hasRelProps g = (relColI64 b \<noteq> [] \<or> relColF64 b \<noteq> [] \<or> relColBool b \<noteq> [] \<or> relColStr b \<noteq> [])
     \<and> (\<forall>l. members R (labelIndex g) l = {x. unat x < n \<and> l \<in> set (nodeLabels b ! unat x)})
     \<and> (\<forall>t. members R (typeIndex g) t = {p. unat p < length rels \<and> ts ! (csr_order n (owner_list 0 rels) ! unat p) = t})
     \<and> (\<forall>k. map_of (columns g) k = family_col n (node_fams b) k)
     \<and> (\<forall>k. map_of (relColumns g) k = family_col (length rels) (rel_fams (out_positions rels) b) k)
     \<and> sn_atoms g = Interner_Atoms (interner b) \<and> nNodes g = ucast (rb_GetCardinality R (knownNodes b))
     \<and> nRels g = of_nat (length rels) \<and> sn_version g = b_version b \<and> existence g = Some (FromBitmap (rb_Clone R (knownNodes b)))
     \<and> droppedCrossTyped g = drop_count b \<and> distinct (map fst (labelIndex g)) \<and> (\<forall>l \<in> fst ` set (labelIndex g). members R (labelIndex g) l \<noteq> {})
     \<and> distinct (map fst (columns g)) \<and> distinct (map fst (relColumns g)) \<and> distinct (map fst (typeIndex g)))"

text \<open>Sizes inside the id widths.\<close>

definition sizes_ok :: "'bm Builder \<Rightarrow> bool" where
  "sizes_ok b \<longleftrightarrow> length (b_rels b) \<le> 2 ^ 31 \<and> length (degOut b) < 2 ^ 32 \<and> length (int_strings (interner b)) < 2 ^ 32"

lemma out_positions_eq:
  assumes "rels_ok n rels ts" "length r2c = length rels" "\<forall>i < length rels. unat (r2c ! i) = csr_pos (owner_list 0 rels) i"
  shows "r2c = out_positions rels"
proof (rule nth_equalityI)
  fix i assume i: "i < length r2c"
  have "of_nat (unat (r2c ! i)) = (of_nat (csr_pos (owner_list 0 rels) i) :: u32)" using assms i by simp
  then show "r2c ! i = out_positions rels ! i" using assms(2) i by (simp add: out_positions_def)
qed (simp add: assms out_positions_def)

lemma label_extent:
  assumes R: "roaring_laws R" and b: "builder_inv R b"
  shows "has_label b l x \<longleftrightarrow> unat x < id_space R b \<and> l \<in> set (nodeLabels b ! unat x)"
proof -
  have "unat x < id_space R b" if l: "has_label b l x"
  proof -
    have "nodeLabels b ! unat x \<noteq> []" "unat x < length (nodeLabels b)" using l by (auto simp: has_label_def)
    then obtain y where "y \<in> rb_set R (knownNodes b)" "unat y = unat x" using b unfolding builder_inv_def known_inv_def by blast
    then show ?thesis using id_space_bounds(3) [OF R b] by fastforce
  qed
  moreover have "id_space R b \<le> length (nodeLabels b)" using id_space_bounds(2) [OF R b] b by (simp add: builder_inv_def caps_inv_def)
  ultimately show ?thesis by (auto simp: has_label_def)
qed

section \<open>Builders with a source\<close>

text \<open>
  What makes sharing with the source sound: every component that is not marked dirty is, in the builder, what the source
  snapshot was built from. The source's id space is \<open>N\<close>; columns and CSR are shared only when the builder's is the same.
\<close>

definition rels_in_step :: "'bm roaring \<Rightarrow> 'bm Snapshot \<Rightarrow> 'bm Builder \<Rightarrow> bool" where
  "rels_in_step R src b \<longleftrightarrow> (let N = unat (CSRIDSpace src); rels = b_rels b; ts = b_relTypes b in
     removedRels b = None \<and> removedNodes b = [] \<and> srcRelToOutCSR b = out_positions rels
     \<and> csr_repr N rels ts 0 (outOffsets src) (outNbrs src) (outTypes src) \<and> csr_repr N rels ts 1 (inOffsets src) (inNbrs src) (inTypes src)
     \<and> (\<forall>t. members R (typeIndex src) t = {p. unat p < length rels \<and> ts ! (csr_order N (owner_list 0 rels) ! unat p) = t})
     \<and> (\<forall>m. inToOut src = Some m \<longrightarrow> computeInToOutFromCSR (outOffsets src) (outNbrs src) (outTypes src) (inOffsets src) (inNbrs src) (inTypes src) = Some m)
     \<and> (\<forall>k. k \<notin> dirtyRelCols b \<longrightarrow> family_col (length rels) (rel_fams (out_positions rels) b) k = map_of (relColumns src) k))"

definition in_step :: "'bm roaring \<Rightarrow> 'bm Snapshot \<Rightarrow> 'bm Builder \<Rightarrow> bool" where
  "in_step R src b \<longleftrightarrow> cache_ok R src \<and> distinct (map fst (labelIndex src)) \<and> (\<forall>l \<in> fst ` set (labelIndex src). members R (labelIndex src) l \<noteq> {})
     \<and> distinct (map fst (typeIndex src)) \<and> sn_atoms src = NewAtoms (atom_strings (sn_atoms src))
     \<and> (\<exists>ys. int_strings (interner b) = atom_strings (sn_atoms src) @ ys)
     \<and> (\<forall>k. k \<notin> dirtyNodeCols b \<longrightarrow> family_col (unat (CSRIDSpace src)) (node_fams b) k = map_of (columns src) k)
     \<and> (\<forall>l. l \<notin> dirtyLabels b \<longrightarrow> members R (labelIndex src) l = {x. has_label b l x})
     \<and> (\<not> relsDirty b \<longrightarrow> rels_in_step R src b)"

lemma in_step_facts:
  assumes "in_step R src b"
  shows "cache_ok R src" "distinct (map fst (labelIndex src))" "\<forall>l \<in> fst ` set (labelIndex src). members R (labelIndex src) l \<noteq> {}" "distinct (map fst (typeIndex src))"
    "sn_atoms src = NewAtoms (atom_strings (sn_atoms src))" "\<exists>ys. int_strings (interner b) = atom_strings (sn_atoms src) @ ys"
    "k \<notin> dirtyNodeCols b \<Longrightarrow> family_col (unat (CSRIDSpace src)) (node_fams b) k = map_of (columns src) k"
    "l \<notin> dirtyLabels b \<Longrightarrow> members R (labelIndex src) l = {x. has_label b l x}"
  using assms unfolding in_step_def by blast+

lemma in_step_rels:
  assumes "in_step R src b" "\<not> relsDirty b"
  shows "removedRels b = None" "removedNodes b = []" "srcRelToOutCSR b = out_positions (b_rels b)"
    "csr_repr (unat (CSRIDSpace src)) (b_rels b) (b_relTypes b) 0 (outOffsets src) (outNbrs src) (outTypes src)"
    "csr_repr (unat (CSRIDSpace src)) (b_rels b) (b_relTypes b) 1 (inOffsets src) (inNbrs src) (inTypes src)"
    "members R (typeIndex src) t = {p. unat p < length (b_rels b) \<and> b_relTypes b ! (csr_order (unat (CSRIDSpace src)) (owner_list 0 (b_rels b)) ! unat p) = t}"
    "inToOut src = Some m \<Longrightarrow> computeInToOutFromCSR (outOffsets src) (outNbrs src) (outTypes src) (inOffsets src) (inNbrs src) (inTypes src) = Some m"
    "k \<notin> dirtyRelCols b \<Longrightarrow> family_col (length (b_rels b)) (rel_fams (out_positions (b_rels b)) b) k = map_of (relColumns src) k"
  using assms unfolding in_step_def rels_in_step_def Let_def by blast+

text \<open>
  The successor of a source without relationship properties takes over its position map, which is then the empty one; so sharing
  the CSR is right only when the source has relationship properties or the builder has none.
\<close>

definition map_shared :: "'bm roaring \<Rightarrow> 'bm Snapshot \<Rightarrow> 'bm Builder \<Rightarrow> bool" where
  "map_shared R src b \<longleftrightarrow> hasRelProps src \<or> relsDirty b \<or> id_space R b \<noteq> unat (CSRIDSpace src)
    \<or> (relColI64 b = [] \<and> relColF64 b = [] \<and> relColBool b = [] \<and> relColStr b = [])"

definition sourced :: "'bm roaring \<Rightarrow> 'bm Builder \<Rightarrow> bool" where
  "sourced R b \<longleftrightarrow> (\<forall>src. b_src b = Some src \<longrightarrow> in_step R src b)"

definition shares :: "'bm roaring \<Rightarrow> 'bm Builder \<Rightarrow> bool" where
  "shares R b \<longleftrightarrow> (\<forall>src. b_src b = Some src \<longrightarrow> map_shared R src b)"

lemma plan_fields:
  "ap_src (newAliasPlan b n m) = b_src b" "ap_b (newAliasPlan b n m) = b" "aliasedLabels (newAliasPlan b n m) = {}" "\<not> allLabels (newAliasPlan b n m)"
  "aliasedNodeCols (newAliasPlan b n m) = {}"
  "ap_idSpace (newAliasPlan b n m) \<longleftrightarrow> (\<exists>src. b_src b = Some src \<and> n = unat (CSRIDSpace src))"
  "ap_labels (newAliasPlan b n m) \<longleftrightarrow> (\<exists>src. b_src b = Some src \<and> dirtyLabels b = {})"
  "ap_csr (newAliasPlan b n m) \<longleftrightarrow> (\<exists>src. b_src b = Some src \<and> \<not> relsDirty b \<and> n = unat (CSRIDSpace src) \<and> m = length (outNbrs src) \<and> length (srcRelToOutCSR b) = m)"
  by (simp_all add: newAliasPlan_def Let_def split: option.split)

lemma plan_labels:
  assumes R: "roaring_laws R" and b: "builder_inv R b" and s: "sourced R b"
  shows "labels_in_step R (id_space R b) b (newAliasPlan b (id_space R b) m)"
  unfolding labels_in_step_def plan_fields
proof (intro conjI allI impI)
  fix src assume src: "b_src b = Some src"
  then have st: "in_step R src b" using s by (simp add: sourced_def)
  show "distinct (map fst (labelIndex src))" "\<forall>l \<in> fst ` set (labelIndex src). members R (labelIndex src) l \<noteq> {}"
    by (rule in_step_facts(2,3) [OF st])+
  fix l assume "(\<exists>src. b_src b = Some src \<and> dirtyLabels b = {}) \<or> labelClean l (newAliasPlan b (id_space R b) m)"
  then have "l \<notin> dirtyLabels b" using src by (auto simp: labelClean_def plan_fields split: option.splits)
  then show "members R (labelIndex src) l = {x. unat x < id_space R b \<and> l \<in> set (nodeLabels b ! unat x)}"
    using in_step_facts(8) [OF st] label_extent [OF R b] by auto
qed (simp_all add: plan_fields)

lemma plan_columns:
  assumes s: "sourced R b" and m: "m = length (b_rels b)"
  shows "columns_in_step (id_space R b) m (out_positions (b_rels b)) b (newAliasPlan b (id_space R b) m)"
proof -
  have n: "\<exists>src. b_src b = Some src \<and> id_space R b = unat (CSRIDSpace src) \<and> k \<notin> dirtyNodeCols b \<and> map_of (columns src) k = Some c"
    if "shared_node (newAliasPlan b (id_space R b) m) k = Some c" for k c
    using that by (auto simp: shared_node_def nodeColumn_def plan_fields split: option.splits if_splits)
  have r: "\<exists>src. b_src b = Some src \<and> \<not> relsDirty b \<and> k \<notin> dirtyRelCols b \<and> map_of (relColumns src) k = Some c"
    if "shared_rel (newAliasPlan b (id_space R b) m) k = Some c" for k c
    using that by (auto simp: shared_rel_def relColumn_def plan_fields split: option.splits if_splits)
  show ?thesis unfolding columns_in_step_def
  proof (intro conjI allI impI)
    fix k c assume "shared_node (newAliasPlan b (id_space R b) m) k = Some c"
    from n [OF this] show "family_col (id_space R b) (node_fams b) k = Some c" using s in_step_facts(7) by (fastforce simp: sourced_def)
  next
    fix k c assume "shared_rel (newAliasPlan b (id_space R b) m) k = Some c"
    from r [OF this] show "family_col m (rel_fams (out_positions (b_rels b)) b) k = Some c" using s in_step_rels(8) by (fastforce simp: sourced_def m)
  qed
qed

lemma build_csr_ok:
  assumes R: "roaring_laws R" and inv: "builder_inv R b" and no: "\<not> hasRemovals R b" and len: "length (degOut b) < 2 ^ 32"
    and p: "labels_in_step R (id_space R b) b p" and g: "labelIndex g = []" "typeIndex g = []"
  shows "\<exists>oo onb ot io inb it li ti A al. build_csr R (id_space R b) b hp p g
      = Some (out_positions (b_rels b), p\<lparr>aliasedLabels := A, allLabels := al\<rparr>, g\<lparr>outOffsets := oo, outNbrs := onb, outTypes := ot, inOffsets := io, inNbrs := inb, inTypes := it,
          labelIndex := li, typeIndex := ti, hasRelProps := hp\<rparr>)
    \<and> csr_repr (id_space R b) (b_rels b) (b_relTypes b) 0 oo onb ot \<and> csr_repr (id_space R b) (b_rels b) (b_relTypes b) 1 io inb it
    \<and> (\<forall>l. members R li l = {x. unat x < id_space R b \<and> l \<in> set (nodeLabels b ! unat x)}) \<and> distinct (map fst li) \<and> (\<forall>l \<in> fst ` set li. members R li l \<noteq> {})
    \<and> (\<forall>t. members R ti t = {p. unat p < length (b_rels b) \<and> b_relTypes b ! (csr_order (id_space R b) (owner_list 0 (b_rels b)) ! unat p) = t}) \<and> distinct (map fst ti)
    \<and> (\<forall>l src. label_shared (p\<lparr>aliasedLabels := A, allLabels := al\<rparr>) l \<and> ap_src p = Some src \<longrightarrow> map_of li l = map_of (labelIndex src) l)"
proof -
  let ?n = "id_space R b" and ?rels = "b_rels b" and ?ts = "b_relTypes b"
  note ci = builder_csr_input [OF R inv no len] and sp = id_space_bounds [OF R inv]
  obtain oo onb ot r2o where o: "buildCSRDirection ?n ?rels ?ts (degOut b) 0 = Some (oo, onb, ot, r2o)"
      "csr_repr ?n ?rels ?ts 0 oo onb (compressRelTypes ot)" "length r2o = length ?rels" "\<forall>i < length ?rels. unat (r2o ! i) = csr_pos (owner_list 0 ?rels) i"
    using build_repr [OF ci(1,2)] by blast
  obtain io inb it r2i where i: "buildCSRDirection ?n ?rels ?ts (degIn b) 1 = Some (io, inb, it, r2i)" "csr_repr ?n ?rels ?ts 1 io inb (compressRelTypes it)"
    using build_repr [OF ci(1,3)] by blast
  note r2o = out_positions_eq [OF ci(1) o(3,4)]
  let ?g = "g\<lparr>outOffsets := oo, outNbrs := onb, outTypes := compressRelTypes ot, inOffsets := io, inNbrs := inb, inTypes := compressRelTypes it\<rparr>"
  have nl: "?n \<le> length (nodeLabels b)" "?n \<le> 2 ^ 32" using sp(2) inv len by (simp_all add: builder_inv_def caps_inv_def)
  have e: "labelIndex ?g = []" using g(1) by simp
  obtain li A al where li: "finalizeLabels R ?n b p ?g = (p\<lparr>aliasedLabels := A, allLabels := al\<rparr>, ?g\<lparr>labelIndex := li\<rparr>)"
      "\<forall>l. members R li l = {x. unat x < ?n \<and> l \<in> set (nodeLabels b ! unat x)}" "distinct (map fst li)" "\<forall>l \<in> fst ` set li. members R li l \<noteq> {}"
      "\<forall>l src. label_shared (p\<lparr>aliasedLabels := A, allLabels := al\<rparr>) l \<and> ap_src p = Some src \<longrightarrow> map_of li l = map_of (labelIndex src) l"
    using finalizeLabels_ok [OF R p e nl] by (elim exE conjE) (rule that)
  note f = csr_repr_facts [OF ci(1) o(2)]
  have "relTypes_Len (compressRelTypes ot) < 2 ^ 32" "rt_wf (compressRelTypes ot)" using f(3) ci(1) o(2) by (simp_all add: rels_ok_def csr_repr_def Let_def)
  then obtain ti where ti: "buildTypeIndex R (?g\<lparr>labelIndex := li\<rparr>) = Some (?g\<lparr>labelIndex := li, typeIndex := ti\<rparr>)"
      "\<forall>t. members R ti t = {p. unat p < length ?rels \<and> rt_list (compressRelTypes ot) ! unat p = t}" "distinct (map fst ti)"
    using buildTypeIndex_ok [OF R, of "?g\<lparr>labelIndex := li\<rparr>"] g(2) f(3) by auto
  have t: "members R ti t = {p. unat p < length ?rels \<and> ?ts ! (csr_order ?n (owner_list 0 ?rels) ! unat p) = t}" for t
    using ti(2) f(6) by auto
  have "build_csr R ?n b hp p g = Some (out_positions ?rels, p\<lparr>aliasedLabels := A, allLabels := al\<rparr>, ?g\<lparr>labelIndex := li, typeIndex := ti, hasRelProps := hp\<rparr>)"
    using o(1) i(1) li(1) ti(1) r2o by (simp add: build_csr_def)
  then show ?thesis using o(2) i(2) li(2-5) t ti(3)
    by - (rule exI [of _ oo], rule exI [of _ onb], rule exI [of _ "compressRelTypes ot"], rule exI [of _ io], rule exI [of _ inb], rule exI [of _ "compressRelTypes it"],
        rule exI [of _ li], rule exI [of _ ti], rule exI [of _ A], rule exI [of _ al], intro conjI allI; assumption?; simp)
qed


lemma share_csr_ok:
  assumes R: "roaring_laws R" and inv: "builder_inv R b" and no: "\<not> hasRemovals R b" and sz: "sizes_ok b" "ids_interned b" and s: "sourced R b"
    and p: "p = newAliasPlan b (id_space R b) (length (b_rels b))" "ap_csr p" and g: "labelIndex g = []" "typeIndex g = []" "inToOut g = None"
    and hp: "hp \<longleftrightarrow> relColI64 b \<noteq> [] \<or> relColF64 b \<noteq> [] \<or> relColBool b \<noteq> [] \<or> relColStr b \<noteq> []"
  shows "\<exists>oo onb ot io inb it ito li ti A al. share_csr R (id_space R b) b hp p g
      = Some (out_positions (b_rels b), p\<lparr>aliasedLabels := A, allLabels := al\<rparr>, g\<lparr>outOffsets := oo, outNbrs := onb, outTypes := ot, inOffsets := io, inNbrs := inb, inTypes := it,
          labelIndex := li, typeIndex := ti, hasRelProps := hp, inToOut := ito\<rparr>)
    \<and> csr_repr (id_space R b) (b_rels b) (b_relTypes b) 0 oo onb ot \<and> csr_repr (id_space R b) (b_rels b) (b_relTypes b) 1 io inb it
    \<and> (\<forall>l. members R li l = {x. unat x < id_space R b \<and> l \<in> set (nodeLabels b ! unat x)}) \<and> distinct (map fst li) \<and> (\<forall>l \<in> fst ` set li. members R li l \<noteq> {})
    \<and> (\<forall>t. members R ti t = {p. unat p < length (b_rels b) \<and> b_relTypes b ! (csr_order (id_space R b) (owner_list 0 (b_rels b)) ! unat p) = t}) \<and> distinct (map fst ti)
    \<and> (\<forall>l src. label_shared (p\<lparr>aliasedLabels := A, allLabels := al\<rparr>) l \<and> ap_src p = Some src \<longrightarrow> map_of li l = map_of (labelIndex src) l)
    \<and> (if shares R b then \<forall>m. ito = Some m \<longrightarrow> computeInToOutFromCSR oo onb ot io inb it = Some m else ito = Some [] \<and> hp)"
proof -
  let ?n = "id_space R b" and ?rels = "b_rels b" and ?ts = "b_relTypes b"
  obtain src where src: "b_src b = Some src" "\<not> relsDirty b" "?n = unat (CSRIDSpace src)" using p(2) unfolding p(1) plan_fields by blast
  have st: "in_step R src b" using s src(1) by (simp add: sourced_def)
  have sh: "shares R b \<longleftrightarrow> map_shared R src b" using src(1) by (simp add: shares_def)
  note sr = in_step_rels [OF st src(2), folded src(3)]
  have len: "length (degOut b) < 2 ^ 32" using sz(1) by (simp add: sizes_ok_def)
  note ci = builder_csr_input [OF R inv no len] and sp = id_space_bounds [OF R inv]
  have tt: "\<forall>t \<in> set ?ts. unat t + 1 < 2 ^ 32" using sz by (fastforce simp: sizes_ok_def ids_interned_def interned_def)
  obtain pm where pm: "computeInToOutFromCSR (outOffsets src) (outNbrs src) (outTypes src) (inOffsets src) (inNbrs src) (inTypes src) = Some pm"
    using computeInToOut_ok [OF ci(1) tt sr(4,5)] by blast
  define ti where "ti = maps_copy [] (typeIndex src)"
  have ti: "map_of ti t = map_of (typeIndex src) t" "distinct (map fst ti)" for t
    using map_of_fold_update [OF in_step_facts(4) [OF st], where f = "\<lambda>_ x. x" and acc = "[]" and k = t]
    by (auto simp: ti_def maps_copy_def split: option.split intro: distinct_fold_update [where f = "\<lambda>_ x. x"])
  define g1 where "g1 = g\<lparr>outOffsets := outOffsets src, outNbrs := outNbrs src, outTypes := outTypes src, inOffsets := inOffsets src, inNbrs := inNbrs src, inTypes := inTypes src,
      typeIndex := ti, hasRelProps := hp\<rparr>"
  obtain ito where ito: "aliasCSR src hp g = Some (g1\<lparr>inToOut := ito\<rparr>)"
      "if shares R b then \<forall>m. ito = Some m \<longrightarrow> computeInToOutFromCSR (outOffsets src) (outNbrs src) (outTypes src) (inOffsets src) (inNbrs src) (inTypes src) = Some m
       else ito = Some [] \<and> hp"
  proof (cases hp)
    case True
    show ?thesis
    proof (cases "hasRelProps src")
      case hs: True
      then have "\<exists>m g'. getInToOut src = Some (m, g') \<and> m = pm" using pm sr(7) by (auto simp: getInToOut_def split: option.split)
      then have "aliasCSR src hp g = Some (g1\<lparr>inToOut := Some pm\<rparr>)" using True g(2) by (auto simp: aliasCSR_def Let_def g1_def ti_def)
      moreover have "shares R b" using hs by (simp add: sh map_shared_def)
      ultimately show ?thesis using that pm by auto
    next
      case False
      then have "aliasCSR src hp g = Some (g1\<lparr>inToOut := Some []\<rparr>)" using True g(2) by (simp add: aliasCSR_def Let_def g1_def ti_def getInToOut_def)
      moreover have "\<not> shares R b" using False src hp True unfolding sh map_shared_def by blast
      ultimately show ?thesis using that True by auto
    qed
  next
    case False
    then have "aliasCSR src hp g = Some (g1\<lparr>inToOut := None\<rparr>)" using g(2,3) by (simp add: aliasCSR_def Let_def g1_def ti_def)
    moreover have "shares R b" using False hp unfolding sh map_shared_def by blast
    ultimately show ?thesis using that by auto
  qed
  have nl: "?n \<le> length (nodeLabels b)" "?n \<le> 2 ^ 32" using sp(2) inv len by (simp_all add: builder_inv_def caps_inv_def)
  have e: "labelIndex (g1\<lparr>inToOut := ito\<rparr>) = []" using g(1) by (simp add: g1_def)
  have lp: "labels_in_step R ?n b p" unfolding p(1) by (rule plan_labels [OF R inv s])
  obtain li A al where li: "finalizeLabels R ?n b p (g1\<lparr>inToOut := ito\<rparr>) = (p\<lparr>aliasedLabels := A, allLabels := al\<rparr>, g1\<lparr>inToOut := ito, labelIndex := li\<rparr>)"
      "\<forall>l. members R li l = {x. unat x < ?n \<and> l \<in> set (nodeLabels b ! unat x)}" "distinct (map fst li)" "\<forall>l \<in> fst ` set li. members R li l \<noteq> {}"
      "\<forall>l src. label_shared (p\<lparr>aliasedLabels := A, allLabels := al\<rparr>) l \<and> ap_src p = Some src \<longrightarrow> map_of li l = map_of (labelIndex src) l"
    using finalizeLabels_ok [OF R lp e nl] by (elim exE conjE) (rule that)
  have ts: "\<forall>t. members R ti t = {p. unat p < length ?rels \<and> ?ts ! (csr_order ?n (owner_list 0 ?rels) ! unat p) = t}"
    using sr(6) by (simp add: members_def ti(1))
  have ps: "ap_src p = Some src" using src(1) by (simp add: p(1) plan_fields)
  have "share_csr R ?n b hp p g = Some (out_positions ?rels, p\<lparr>aliasedLabels := A, allLabels := al\<rparr>, g1\<lparr>inToOut := ito, labelIndex := li\<rparr>)"
    using ito(1) li(1) sr(3) by (simp add: share_csr_def ps)
  then have "share_csr R ?n b hp p g = Some (out_positions ?rels, p\<lparr>aliasedLabels := A, allLabels := al\<rparr>,
      g\<lparr>outOffsets := outOffsets src, outNbrs := outNbrs src, outTypes := outTypes src, inOffsets := inOffsets src, inNbrs := inNbrs src, inTypes := inTypes src,
          labelIndex := li, typeIndex := ti, hasRelProps := hp, inToOut := ito\<rparr>)" by (simp add: g1_def)
  then show ?thesis using sr(4,5) li(2-5) ts ti(2) ito(2)
    by - (rule exI [of _ "outOffsets src"], rule exI [of _ "outNbrs src"], rule exI [of _ "outTypes src"], rule exI [of _ "inOffsets src"], rule exI [of _ "inNbrs src"],
        rule exI [of _ "inTypes src"], rule exI [of _ ito], rule exI [of _ li], rule exI [of _ ti], rule exI [of _ A], rule exI [of _ al], intro conjI; assumption)
qed

section \<open>The equality indexes\<close>

text \<open>Carried indexes are over a shared column and a shared label.\<close>

lemma carried:
  assumes "distinct (map fst L)"
  shows "map_of (fold (\<lambda>((l, k), index) pi. if P l k then AList.update (l, k) index pi else pi) L []) (l, k) = (if P l k then map_of L (l, k) else None)"
    "distinct (map fst (fold (\<lambda>((l, k), index) pi. if P l k then AList.update (l, k) index pi else pi) L []))"
proof -
  have f: "fold (\<lambda>((l, k), index) pi. if P l k then AList.update (l, k) index pi else pi) L acc
      = fold (\<lambda>(lk, index). AList.update lk index) (filter (\<lambda>(lk, index). P (fst lk) (snd lk)) L) acc" for acc
    by (induction L arbitrary: acc) auto
  have "distinct (map fst (filter (\<lambda>(lk, index). P (fst lk) (snd lk)) L))" using assms by (rule distinct_map_filter)
  from map_of_fold_update [OF this, where f = "\<lambda>_ x. x" and acc = "[]" and k = "(l, k)"]
  show "map_of (fold (\<lambda>((l, k), index) pi. if P l k then AList.update (l, k) index pi else pi) L []) (l, k) = (if P l k then map_of L (l, k) else None)"
    unfolding f by (auto simp: map_of_filter_key [of "\<lambda>lk. P (fst lk) (snd lk)"] split: option.split)
  show "distinct (map fst (fold (\<lambda>((l, k), index) pi. if P l k then AList.update (l, k) index pi else pi) L []))"
    unfolding f by (rule distinct_fold_update [where f = "\<lambda>_ x. x"]) simp
qed

lemma carryLazyCaches_ok:
  assumes e: "propIndex g = []" and s: "\<And>src. ap_src p = Some src \<Longrightarrow> cache_ok R src"
    and l: "\<And>l src. label_shared p l \<Longrightarrow> ap_src p = Some src \<Longrightarrow> map_of (labelIndex g) l = map_of (labelIndex src) l"
    and c: "\<And>k src. k \<in> aliasedNodeCols p \<Longrightarrow> ap_src p = Some src \<Longrightarrow> map_of (columns g) k = map_of (columns src) k"
  shows "\<exists>pi. carryLazyCaches p g = g\<lparr>propIndex := pi\<rparr> \<and> cache_ok R (g\<lparr>propIndex := pi\<rparr>)"
proof (cases "ap_src p")
  case None
  then have "carryLazyCaches p g = g\<lparr>propIndex := []\<rparr>" using e by (simp add: carryLazyCaches_def)
  then show ?thesis by (intro exI [of _ "[]"]) (simp add: cache_ok_def)
next
  case (Some src)
  let ?P = "\<lambda>l k. k \<in> aliasedNodeCols p \<and> (l = anyLabel \<or> label_shared p l)"
  let ?pi = "fold (\<lambda>((l, k), index) pi. if ?P l k then AList.update (l, k) index pi else pi) (propIndex src) []"
  have sc: "cache_ok R src" using s Some by blast
  then have d: "distinct (map fst (propIndex src))" by (simp add: cache_ok_def)
  have "carryLazyCaches p g = g\<lparr>propIndex := ?pi\<rparr>" using Some e by (simp add: carryLazyCaches_def label_shared_def)
  moreover have "cache_ok R (g\<lparr>propIndex := ?pi\<rparr>)" unfolding cache_ok_def
  proof (intro conjI allI impI)
    show "distinct (map fst (propIndex (g\<lparr>propIndex := ?pi\<rparr>)))" using carried(2) [OF d] by simp
    fix l' k' ix assume "map_of (propIndex (g\<lparr>propIndex := ?pi\<rparr>)) (l', k') = Some ix"
    then have ix: "?P l' k'" "map_of (propIndex src) (l', k') = Some ix" using carried(1) [OF d, of ?P l' k'] by (simp_all split: if_splits)
    obtain ln column where lc: "scope_of src l' = Some ln" "map_of (columns src) k' = Some column" "index_ok R column ln ix"
      using sc ix(2) unfolding cache_ok_def by blast
    have "scope_of g l' = Some ln" using lc(1) ix(1) l [OF _ Some] by (auto simp: scope_of_def)
    moreover have "map_of (columns g) k' = Some column" using lc(2) ix(1) c [OF _ Some] by simp
    ultimately show "\<exists>ln column. scope_of (g\<lparr>propIndex := ?pi\<rparr>) l' = Some ln \<and> map_of (columns (g\<lparr>propIndex := ?pi\<rparr>)) k' = Some column \<and> index_ok R column ln ix"
      using lc(3) by (auto simp: scope_of_def)
  qed
  ultimately show ?thesis by blast
qed

text \<open>The upfront indexes only add correct entries to the cache.\<close>

lemma scope_of_index: "scope_of (g\<lparr>propIndex := pi\<rparr>) l = scope_of g l"
  by (simp add: scope_of_def)

lemma cache_ok_update:
  assumes "cache_ok R (g\<lparr>propIndex := pi\<rparr>)" "scope_of g l = Some ln" "map_of (columns g) k = Some c" "index_ok R c ln index"
  shows "cache_ok R (g\<lparr>propIndex := AList.update (l, k) index pi\<rparr>)"
  unfolding cache_ok_def
proof (intro conjI allI impI)
  show "distinct (map fst (propIndex (g\<lparr>propIndex := AList.update (l, k) index pi\<rparr>)))" using assms(1) by (simp add: cache_ok_def distinct_update)
next
  fix l' k' ix assume ix: "map_of (propIndex (g\<lparr>propIndex := AList.update (l, k) index pi\<rparr>)) (l', k') = Some ix"
  show "\<exists>ln column. scope_of (g\<lparr>propIndex := AList.update (l, k) index pi\<rparr>) l' = Some ln
    \<and> map_of (columns (g\<lparr>propIndex := AList.update (l, k) index pi\<rparr>)) k' = Some column \<and> index_ok R column ln ix"
  proof (cases "(l', k') = (l, k)")
    case True
    then have "ix = index" using ix by (simp add: update_conv')
    then show ?thesis using True assms(2-4) by (intro exI [of _ ln] exI [of _ c]) (simp add: scope_of_index)
  next
    case False
    then have "map_of pi (l', k') = Some ix" using ix by (auto simp: update_conv' split: if_splits)
    then have "\<exists>ln column. scope_of (g\<lparr>propIndex := pi\<rparr>) l' = Some ln \<and> map_of (columns (g\<lparr>propIndex := pi\<rparr>)) k' = Some column \<and> index_ok R column ln ix"
      using assms(1) unfolding cache_ok_def by (auto dest: spec)
    then show ?thesis by (simp add: scope_of_index)
  qed
qed

lemma index_upfront_ok:
  assumes R: "roaring_laws R" and ok: "columns_ok g" "cache_ok R g" and d: "distinct (map fst (labelIndex g))" and a: "anyLabel \<notin> fst ` set (labelIndex g)"
  shows "\<exists>pi. index_upfront R key g = Some (g\<lparr>propIndex := pi\<rparr>) \<and> cache_ok R (g\<lparr>propIndex := pi\<rparr>)"
proof -
  obtain k known where k: "fst (Atoms_ID (sn_atoms g) key) = (k, known)" by fastforce
  show ?thesis
  proof (cases "known \<and> map_of (columns g) k \<noteq> None")
    case False
    then show ?thesis using k ok(2) by (intro exI [of _ "propIndex g"]) (auto simp: index_upfront_def split: option.split)
  next
    case True
    then obtain c where c: "map_of (columns g) k = Some c" and kn: known by auto
    have ci: "col_inv c" using ok(1) c by (auto simp: columns_ok_def)
    let ?f = "\<lambda>(l, labelNodes) g. if map_of (propIndex g) (l, k) \<noteq> None then Some g
        else map_option (\<lambda>index. g\<lparr>propIndex := AList.update (l, k) index (propIndex g)\<rparr>) (buildPropValueIndex R c (Some labelNodes))"
    have "\<exists>pi'. fold_opt ?f ls (g\<lparr>propIndex := pi\<rparr>) = Some (g\<lparr>propIndex := pi'\<rparr>) \<and> cache_ok R (g\<lparr>propIndex := pi'\<rparr>)"
      if "set ls \<subseteq> set (labelIndex g)" "cache_ok R (g\<lparr>propIndex := pi\<rparr>)" for ls pi
      using that
    proof (induction ls arbitrary: pi)
      case Nil
      then show ?case by (intro exI [of _ pi]) simp
    next
      case (Cons e ls)
      obtain l s where e: "e = (l, s)" by (cases e)
      obtain index where ix: "buildPropValueIndex R c (Some s) = Some index" "index_ok R c (Some s) index" using buildPropValueIndex_ok [OF R ci] by blast
      have mem: "(l, s) \<in> set (labelIndex g)" using Cons.prems(1) e by simp
      have ls: "map_of (labelIndex g) l = Some s" "l \<noteq> anyLabel" using map_of_is_SomeI [OF d mem] a mem by force+
      have "cache_ok R (g\<lparr>propIndex := AList.update (l, k) index pi\<rparr>)" using Cons.prems(2) ix(2) ls c by (intro cache_ok_update) (simp_all add: scope_of_def)
      then show ?case using Cons.IH [of pi] Cons.IH [of "AList.update (l, k) index pi"] Cons.prems ix(1) by (cases "map_of pi (l, k)") (simp_all add: e)
    qed
    from this [of "labelIndex g" "propIndex g"] ok(2) show ?thesis using k c kn by (simp add: index_upfront_def)
  qed
qed

lemma index_all_ok:
  assumes R: "roaring_laws R" and ok: "columns_ok g" "cache_ok R g" and d: "distinct (map fst (labelIndex g))" and a: "anyLabel \<notin> fst ` set (labelIndex g)"
  shows "\<exists>pi. fold_opt (index_upfront R) keys g = Some (g\<lparr>propIndex := pi\<rparr>) \<and> cache_ok R (g\<lparr>propIndex := pi\<rparr>)"
  using ok d a
proof (induction keys arbitrary: g)
  case Nil
  then show ?case by (intro exI [of _ "propIndex g"]) simp
next
  case (Cons key keys)
  obtain pi where pi: "index_upfront R key g = Some (g\<lparr>propIndex := pi\<rparr>)" "cache_ok R (g\<lparr>propIndex := pi\<rparr>)"
    using index_upfront_ok [OF R Cons.prems] by blast
  have "columns_ok (g\<lparr>propIndex := pi\<rparr>)" using Cons.prems(1) by (simp add: columns_ok_def)
  with Cons.IH [of "g\<lparr>propIndex := pi\<rparr>"] pi Cons.prems(3,4) show ?case by simp
qed

section \<open>Finalize\<close>

lemma snapshot_of_index: "snapshot_of R b (g\<lparr>propIndex := pi\<rparr>) = snapshot_of R b g"
  "snapshot_of R b (g\<lparr>propIndex := pi, inToOut := x\<rparr>) = snapshot_of R b (g\<lparr>inToOut := x\<rparr>)"
  by (simp_all add: snapshot_of_def)

lemma snapshot_of_space:
  assumes ok: "rels_ok (id_space R b) (b_rels b) (b_relTypes b)" and s: "snapshot_of R b g"
  shows "nbrs_in_space g"
proof -
  let ?n = "id_space R b"
  have "length (outOffsets g) = ?n + 1" "?n < 2 ^ 32" using s ok by (auto simp: snapshot_of_def Let_def csr_repr_def rels_ok_def)
  then have n: "unat (CSRIDSpace g) = ?n" by (simp add: CSRIDSpace_def unat_of_nat_less)
  have "unat x < ?n" if x: "x \<in> set (nbrs_of g out)" for x out
  proof -
    have r: "csr_repr ?n (b_rels b) (b_relTypes b) (if out then 0 else 1) (offs_of g out) (nbrs_of g out) (types_of g out)"
      using s by (simp add: snapshot_of_def Let_def offs_of_def nbrs_of_def types_of_def)
    note f = csr_repr_facts [OF ok r]
    obtain k where k: "k < length (nbrs_of g out)" "nbrs_of g out ! k = x" using x by (auto simp: in_set_conv_nth)
    let ?i = "csr_order ?n (owner_list (if out then 0 else 1) (b_rels b)) ! k"
    have "?i < length (b_rels b)" "x = other_of (if out then 0 else 1) (b_rels b ! ?i)" using f(2,4,5) k by auto
    then show ?thesis using ok nth_mem [of ?i "b_rels b"] by (auto simp: rels_ok_def other_of_def)
  qed
  then show ?thesis by (simp add: nbrs_in_space_def n)
qed

lemma snapshot_of_ok:
  assumes R: "roaring_laws R" and inv: "builder_inv R b" and no: "\<not> hasRemovals R b" and sz: "sizes_ok b" "ids_interned b" and s: "snapshot_of R b g"
  shows "snapshot_ok g" "columns_ok g" "anyLabel \<notin> fst ` set (labelIndex g)"
proof -
  let ?n = "id_space R b" and ?rels = "b_rels b" and ?ts = "b_relTypes b"
  have len: "length (degOut b) < 2 ^ 32" "length (int_strings (interner b)) < 2 ^ 32" using sz(1) by (auto simp: sizes_ok_def)
  note ci = builder_csr_input [OF R inv no len(1)]
  have o: "csr_repr ?n ?rels ?ts 0 (outOffsets g) (outNbrs g) (outTypes g)" and i: "csr_repr ?n ?rels ?ts 1 (inOffsets g) (inNbrs g) (inTypes g)"
    using s by (auto simp: snapshot_of_def Let_def)
  have tt: "\<forall>t \<in> set ?ts. unat t + 1 < 2 ^ 32" using sz by (fastforce simp: sizes_ok_def ids_interned_def interned_def)
  obtain r where "computeInToOutFromCSR (outOffsets g) (outNbrs g) (outTypes g) (inOffsets g) (inNbrs g) (inTypes g) = Some r"
    using computeInToOut_ok [OF ci(1) tt o i] by blast
  moreover have "csr_wf (offs_of g out) (nbrs_of g out) (types_of g out)" for out
    using csr_repr_wf [OF ci(1) o] csr_repr_wf [OF ci(1) i] by (cases out) (simp_all add: offs_of_def nbrs_of_def types_of_def)
  ultimately show "snapshot_ok g" by (simp add: snapshot_ok_def getInToOut_def split: option.split)
  have c: "map_of (columns g) k = family_col ?n (node_fams b) k" for k using s by (simp add: snapshot_of_def Let_def)
  have "?n < 2 ^ 32" using id_space_bounds(2) [OF R inv] len(1) by simp
  then have "col_inv c" if "map_of (columns g) k = Some c" for k c using family_reads_ok [OF ci(4), of k] that by (simp add: c)
  moreover have "sn_atoms g = NewAtoms (int_strings (interner b))" using s by (simp add: snapshot_of_def Let_def Interner_Atoms_def)
  ultimately show "columns_ok g" using len(2) by (simp add: columns_ok_def NewAtoms_wf) (simp add: NewAtoms_def)
  show "anyLabel \<notin> fst ` set (labelIndex g)"
  proof
    assume a: "anyLabel \<in> fst ` set (labelIndex g)"
    have "members R (labelIndex g) anyLabel \<noteq> {}" using s a unfolding snapshot_of_def Let_def by blast
    moreover have "members R (labelIndex g) anyLabel = {x. unat x < ?n \<and> anyLabel \<in> set (nodeLabels b ! unat x)}" using s by (simp add: snapshot_of_def Let_def)
    ultimately obtain x :: u32 where x: "unat x < ?n" "anyLabel \<in> set (nodeLabels b ! unat x)" by blast
    have "?n \<le> length (nodeLabels b)" using id_space_bounds(2) [OF R inv] inv by (simp add: builder_inv_def caps_inv_def)
    then have "nodeLabels b ! unat x \<in> set (nodeLabels b)" using x(1) by simp
    then have "unat anyLabel < length (int_strings (interner b))" using x(2) sz(2) by (auto simp: ids_interned_def interned_def)
    then show False using len(2) by (simp add: anyLabel_def unsigned_minus_1_eq_mask mask_eq_exp_minus_1)
  qed
qed


section \<open>Both ways to the CSR\<close>

lemma csr_step_ok:
  assumes R: "roaring_laws R" and inv: "builder_inv R b" and no: "\<not> hasRemovals R b" and sz: "sizes_ok b" "ids_interned b" and s: "sourced R b"
    and p: "p = newAliasPlan b (id_space R b) (length (b_rels b))" and g: "labelIndex g = []" "typeIndex g = []" "inToOut g = None"
    and hp: "hp \<longleftrightarrow> relColI64 b \<noteq> [] \<or> relColF64 b \<noteq> [] \<or> relColBool b \<noteq> [] \<or> relColStr b \<noteq> []"
  shows "\<exists>oo onb ot io inb it ito li ti A al. (if ap_csr p then share_csr R (id_space R b) b hp p g else build_csr R (id_space R b) b hp p g)
      = Some (out_positions (b_rels b), p\<lparr>aliasedLabels := A, allLabels := al\<rparr>, g\<lparr>outOffsets := oo, outNbrs := onb, outTypes := ot, inOffsets := io, inNbrs := inb, inTypes := it,
          labelIndex := li, typeIndex := ti, hasRelProps := hp, inToOut := ito\<rparr>)
    \<and> csr_repr (id_space R b) (b_rels b) (b_relTypes b) 0 oo onb ot \<and> csr_repr (id_space R b) (b_rels b) (b_relTypes b) 1 io inb it
    \<and> (\<forall>l. members R li l = {x. unat x < id_space R b \<and> l \<in> set (nodeLabels b ! unat x)}) \<and> distinct (map fst li) \<and> (\<forall>l \<in> fst ` set li. members R li l \<noteq> {})
    \<and> (\<forall>t. members R ti t = {p. unat p < length (b_rels b) \<and> b_relTypes b ! (csr_order (id_space R b) (owner_list 0 (b_rels b)) ! unat p) = t}) \<and> distinct (map fst ti)
    \<and> (\<forall>l src. label_shared (p\<lparr>aliasedLabels := A, allLabels := al\<rparr>) l \<and> ap_src p = Some src \<longrightarrow> map_of li l = map_of (labelIndex src) l)
    \<and> (if shares R b then \<forall>m. ito = Some m \<longrightarrow> computeInToOutFromCSR oo onb ot io inb it = Some m else ito = Some [] \<and> hp)"
proof (cases "ap_csr p")
  case True
  show ?thesis unfolding if_P [OF True] by (rule share_csr_ok [OF R inv no sz s p True g hp])
next
  case False
  have len: "length (degOut b) < 2 ^ 32" using sz(1) by (simp add: sizes_ok_def)
  have "labels_in_step R (id_space R b) b p" unfolding p by (rule plan_labels [OF R inv s])
  from build_csr_ok [OF R inv no len this g(1,2), of hp] obtain oo onb ot io inb it li ti A al where
    f: "build_csr R (id_space R b) b hp p g = Some (out_positions (b_rels b), p\<lparr>aliasedLabels := A, allLabels := al\<rparr>, g\<lparr>outOffsets := oo, outNbrs := onb, outTypes := ot,
          inOffsets := io, inNbrs := inb, inTypes := it, labelIndex := li, typeIndex := ti, hasRelProps := hp\<rparr>)"
    and r: "csr_repr (id_space R b) (b_rels b) (b_relTypes b) 0 oo onb ot" "csr_repr (id_space R b) (b_rels b) (b_relTypes b) 1 io inb it"
      "\<forall>l. members R li l = {x. unat x < id_space R b \<and> l \<in> set (nodeLabels b ! unat x)}" "distinct (map fst li)" "\<forall>l \<in> fst ` set li. members R li l \<noteq> {}"
      "\<forall>t. members R ti t = {p. unat p < length (b_rels b) \<and> b_relTypes b ! (csr_order (id_space R b) (owner_list 0 (b_rels b)) ! unat p) = t}" "distinct (map fst ti)"
      "\<forall>l src. label_shared (p\<lparr>aliasedLabels := A, allLabels := al\<rparr>) l \<and> ap_src p = Some src \<longrightarrow> map_of li l = map_of (labelIndex src) l"
    by (elim exE conjE) (rule that)
  have eq: "g\<lparr>outOffsets := oo, outNbrs := onb, outTypes := ot, inOffsets := io, inNbrs := inb, inTypes := it, labelIndex := li, typeIndex := ti, hasRelProps := hp\<rparr>
      = g\<lparr>outOffsets := oo, outNbrs := onb, outTypes := ot, inOffsets := io, inNbrs := inb, inTypes := it, labelIndex := li, typeIndex := ti, hasRelProps := hp, inToOut := None\<rparr>"
    using g(3) by (cases g) simp
  have f': "build_csr R (id_space R b) b hp p g = Some (out_positions (b_rels b), p\<lparr>aliasedLabels := A, allLabels := al\<rparr>, g\<lparr>outOffsets := oo, outNbrs := onb, outTypes := ot,
          inOffsets := io, inNbrs := inb, inTypes := it, labelIndex := li, typeIndex := ti, hasRelProps := hp, inToOut := None\<rparr>)"
    by (subst eq [symmetric]) (rule f)
  have "shares R b" unfolding shares_def
  proof (intro allI impI)
    fix src assume src: "b_src b = Some src"
    then have st: "in_step R src b" using s by (simp add: sourced_def)
    have "rels_ok (id_space R b) (b_rels b) (b_relTypes b)" by (rule builder_csr_input(1) [OF R inv no len])
    then have "length (outNbrs src) = length (b_rels b)" if "\<not> relsDirty b" "id_space R b = unat (CSRIDSpace src)"
      using csr_repr_facts(2) in_step_rels(4) [OF st that(1)] that(2) by metis
    then show "map_shared R src b" using False src in_step_rels(3) [OF st] unfolding p plan_fields map_shared_def by (auto simp: out_positions_def)
  qed
  then have ito: "if shares R b then \<forall>m. None = Some m \<longrightarrow> computeInToOutFromCSR oo onb ot io inb it = Some m else None = Some [] \<and> hp" by simp
  show ?thesis unfolding if_not_P [OF False] using f' r ito
    by - (rule exI [of _ oo], rule exI [of _ onb], rule exI [of _ ot], rule exI [of _ io], rule exI [of _ inb], rule exI [of _ it], rule exI [of _ None],
        rule exI [of _ li], rule exI [of _ ti], rule exI [of _ A], rule exI [of _ al], intro conjI; assumption)
qed

lemma aliasAtoms_ok:
  assumes "\<And>src. ap_src p = Some src \<Longrightarrow> in_step R src b"
  shows "aliasAtoms p b = Interner_Atoms (interner b)"
proof (cases "ap_src p")
  case (Some src)
  note st = in_step_facts(5,6) [OF assms [OF Some]]
  show ?thesis
  proof (cases "Interner_Len (interner b) = Atoms_Len (sn_atoms src)")
    case True
    then have "int_strings (interner b) = atom_strings (sn_atoms src)" using st(2) by (auto simp: Interner_Len_def Atoms_Len_def)
    then show ?thesis using True Some st(1) by (simp add: aliasAtoms_def Interner_Atoms_def)
  qed (simp add: aliasAtoms_def Some)
qed (simp add: aliasAtoms_def)

lemma shared_marks [simp]:
  "shared_node (p\<lparr>aliasedLabels := A, allLabels := al\<rparr>) = shared_node p" "shared_rel (p\<lparr>aliasedLabels := A, allLabels := al\<rparr>) = shared_rel p"
  by (simp_all add: fun_eq_iff shared_node_def shared_rel_def nodeColumn_def relColumn_def split: option.split)

lemma out_positions_lt:
  assumes "rels_ok n rels ts" "i < length rels"
  shows "unat (out_positions rels ! i) < length rels"
proof -
  have "csr_pos (owner_list 0 rels) i < length rels" "length rels < 2 ^ 32"
    using csr_pos_bij(1) [of "owner_list 0 rels" n] rels_ok_owner [OF assms(1), of _ 0] assms by (auto simp: bij_betw_def rels_ok_def)
  then show ?thesis using assms(2) by (simp add: out_positions_def unat_of_nat_less)
qed

text \<open>Everything but the position map is right; it is right too, unless the builder has the first relationship properties.\<close>

lemma finalize_ok:
  assumes R: "roaring_laws R" and inv: "builder_inv R b" and no: "\<not> hasRemovals R b" and sz: "sizes_ok b" "ids_interned b" and src: "sourced R b"
    and c: "compactRemovals R b0 = Some b"
  shows "\<exists>g. Finalize R keys b0 = Some g \<and> snapshot_of R b (g\<lparr>inToOut := None\<rparr>) \<and> cache_ok R g \<and> (if shares R b then snapshot_of R b g else inToOut g = Some [] \<and> hasRelProps g)"
proof -
  let ?n = "id_space R b" and ?m = "length (b_rels b)" and ?r2c = "out_positions (b_rels b)"
  define p where "p = newAliasPlan b ?n ?m"
  define hp where "hp \<longleftrightarrow> length (relColI64 b) + length (relColF64 b) + length (relColBool b) + length (relColStr b) > 0"
  have len: "length (degOut b) < 2 ^ 32" "?m < 2 ^ 32" using sz(1) by (auto simp: sizes_ok_def)
  note ci = builder_csr_input [OF R inv no len(1)]
  have n: "?n < 2 ^ 32" using id_space_bounds(2) [OF R inv] len(1) by simp
  define g0 where "g0 = newSnapshot\<lparr>nNodes := ucast (rb_GetCardinality R (knownNodes b)), nRels := of_nat ?m, sn_version := b_version b,
               existence := Some (FromBitmap (rb_Clone R (knownNodes b)))\<rparr>"
  have g0: "labelIndex g0 = []" "typeIndex g0 = []" "columns g0 = []" "relColumns g0 = []" "propIndex g0 = []" "inToOut g0 = None"
    "nNodes g0 = ucast (rb_GetCardinality R (knownNodes b))" "nRels g0 = of_nat ?m" "sn_version g0 = b_version b" "existence g0 = Some (FromBitmap (rb_Clone R (knownNodes b)))"
    by (simp_all add: g0_def newSnapshot_def)
  have hpe: "hp \<longleftrightarrow> relColI64 b \<noteq> [] \<or> relColF64 b \<noteq> [] \<or> relColBool b \<noteq> [] \<or> relColStr b \<noteq> []" by (auto simp: hp_def)
  obtain oo onb ot io inb it ito li ti A al where b1: "(if ap_csr p then share_csr R ?n b hp p g0 else build_csr R ?n b hp p g0)
      = Some (?r2c, p\<lparr>aliasedLabels := A, allLabels := al\<rparr>, g0\<lparr>outOffsets := oo, outNbrs := onb, outTypes := ot, inOffsets := io, inNbrs := inb, inTypes := it,
          labelIndex := li, typeIndex := ti, hasRelProps := hp, inToOut := ito\<rparr>)"
    and r: "csr_repr ?n (b_rels b) (b_relTypes b) 0 oo onb ot" "csr_repr ?n (b_rels b) (b_relTypes b) 1 io inb it"
      "\<forall>l. members R li l = {x. unat x < ?n \<and> l \<in> set (nodeLabels b ! unat x)}" "distinct (map fst li)" "\<forall>l \<in> fst ` set li. members R li l \<noteq> {}"
      "\<forall>t. members R ti t = {p. unat p < ?m \<and> b_relTypes b ! (csr_order ?n (owner_list 0 (b_rels b)) ! unat p) = t}" "distinct (map fst ti)"
      "\<forall>l src. label_shared (p\<lparr>aliasedLabels := A, allLabels := al\<rparr>) l \<and> ap_src p = Some src \<longrightarrow> map_of li l = map_of (labelIndex src) l"
      "if shares R b then \<forall>m. ito = Some m \<longrightarrow> computeInToOutFromCSR oo onb ot io inb it = Some m else ito = Some [] \<and> hp"
    using csr_step_ok [OF R inv no sz src p_def g0(1,2,6) hpe] by (elim exE conjE) (rule that)
  define q where "q = p\<lparr>aliasedLabels := A, allLabels := al\<rparr>"
  define g1 where "g1 = g0\<lparr>outOffsets := oo, outNbrs := onb, outTypes := ot, inOffsets := io, inNbrs := inb, inTypes := it, labelIndex := li, typeIndex := ti, hasRelProps := hp, inToOut := ito\<rparr>"
  have g1: "columns g1 = []" "relColumns g1 = []" by (simp_all add: g1_def g0)
  have lp: "length ?r2c = ?m" by (simp add: out_positions_def)
  have ic: "cols_inv R b" using inv by (simp add: builder_inv_def)
  have rf: "families_ok ?m (rel_fams ?r2c b)" by (rule rel_fams_ok [OF ic lp out_positions_lt [OF ci(1)]])
  have qs: "columns_in_step ?n ?m ?r2c b q" using plan_columns [OF src refl] by (simp add: columns_in_step_def q_def p_def)
  obtain cs rcs K L where c2: "all_columns b ?n ?m ?r2c (q, g1) = Some (record_rels L (record_nodes K q), g1\<lparr>columns := cs, relColumns := rcs\<rparr>)"
      "\<forall>k. map_of cs k = family_col ?n (node_fams b) k" "\<forall>k. map_of rcs k = family_col ?m (rel_fams ?r2c b) k" "distinct (map fst cs)" "distinct (map fst rcs)"
    using all_columns_ok [OF qs g1 ci(4) n rf len(2) ic lp] by (elim exE conjE) (rule that)
  define q' where "q' = record_rels L (record_nodes K q)"
  define g2 where "g2 = g1\<lparr>columns := cs, relColumns := rcs, droppedCrossTyped := drop_count b, sn_atoms := Interner_Atoms (interner b)\<rparr>"
  have q': "ap_src q' = b_src b" "label_shared q' l = label_shared q l" "aliasedNodeCols q' = {k \<in> K. shared_node p k \<noteq> None}" for l
    by (simp_all add: q'_def record_rels_def record_nodes_def q_def p_def plan_fields label_shared_def split: option.split)
  have s: "snapshot_of R b (g2\<lparr>inToOut := None\<rparr>)" using r(1-7) c2(2-5) g0 hpe by (simp add: snapshot_of_def Let_def g2_def g1_def)
  have sm: "if shares R b then snapshot_of R b g2 else inToOut g2 = Some [] \<and> hasRelProps g2"
  proof (cases "shares R b")
    case True
    then show ?thesis using r(1-7,9) c2(2-5) g0 hpe by (simp add: snapshot_of_def Let_def g2_def g1_def)
  qed (use r(9) in \<open>simp add: g2_def g1_def\<close>)
  have "\<exists>pi. carryLazyCaches q' g2 = g2\<lparr>propIndex := pi\<rparr> \<and> cache_ok R (g2\<lparr>propIndex := pi\<rparr>)"
  proof (rule carryLazyCaches_ok)
    show "propIndex g2 = []" by (simp add: g2_def g1_def g0)
    show "cache_ok R src0" if "ap_src q' = Some src0" for src0 using src that q'(1) in_step_facts(1) by (auto simp: sourced_def)
    show "map_of (labelIndex g2) l = map_of (labelIndex src0) l" if "label_shared q' l" "ap_src q' = Some src0" for l src0
      using r(8) that q'(1,2) by (simp add: g2_def g1_def q_def p_def plan_fields)
    show "map_of (columns g2) k = map_of (columns src0) k" if k: "k \<in> aliasedNodeCols q'" "ap_src q' = Some src0" for k src0
    proof -
      obtain col where "shared_node p k = Some col" using k(1) q'(3) by auto
      then have "map_of (columns src0) k = Some col" "family_col ?n (node_fams b) k = Some col"
        using k(2) q'(1) qs by (auto simp: shared_node_def nodeColumn_def p_def plan_fields columns_in_step_def q_def split: option.splits if_splits)
      then show ?thesis using c2(2) by (simp add: g2_def)
    qed
  qed
  then obtain pi0 where pi0: "carryLazyCaches q' g2 = g2\<lparr>propIndex := pi0\<rparr>" "cache_ok R (g2\<lparr>propIndex := pi0\<rparr>)" by blast
  let ?g3 = "g2\<lparr>propIndex := pi0\<rparr>"
  have at: "aliasAtoms q' b = Interner_Atoms (interner b)" by (rule aliasAtoms_ok) (use src q'(1) in \<open>auto simp: sourced_def\<close>)
  have "Finalize R keys b0 = Option.bind (if ap_csr p then share_csr R ?n b hp p g0 else build_csr R ?n b hp p g0) (\<lambda>(relToOut, plan, g).
      Option.bind (all_columns b ?n ?m relToOut (plan, g)) (\<lambda>(plan, g).
        fold_opt (index_upfront R) keys (carryLazyCaches plan (g\<lparr>droppedCrossTyped := drop_count b, sn_atoms := aliasAtoms plan b\<rparr>))))"
    unfolding Finalize_def c Option.bind.simps Let_def p_def hp_def g0_def by (rule refl)
  also have "\<dots> = fold_opt (index_upfront R) keys (carryLazyCaches q' (g1\<lparr>columns := cs, relColumns := rcs, droppedCrossTyped := drop_count b, sn_atoms := aliasAtoms q' b\<rparr>))"
    unfolding b1 Option.bind.simps prod.case by (simp only: c2(1) Option.bind.simps prod.case flip: q_def g1_def q'_def)
  finally have F: "Finalize R keys b0 = fold_opt (index_upfront R) keys ?g3" unfolding at by (simp only: pi0(1) flip: g2_def)
  have s3: "snapshot_of R b (?g3\<lparr>inToOut := None\<rparr>)" using s by (simp add: snapshot_of_index)
  note k = snapshot_of_ok(2,3) [OF R inv no sz s3]
  have k': "columns_ok ?g3" "anyLabel \<notin> fst ` set (labelIndex ?g3)" using k by (simp_all add: columns_ok_def)
  have d: "distinct (map fst (labelIndex ?g3))" using r(4) by (simp add: g2_def g1_def)
  obtain pi where pi: "fold_opt (index_upfront R) keys ?g3 = Some (?g3\<lparr>propIndex := pi\<rparr>)" "cache_ok R (?g3\<lparr>propIndex := pi\<rparr>)"
    using index_all_ok [OF R k'(1) pi0(2) d k'(2), of keys] by blast
  have "snapshot_of R b (g2\<lparr>propIndex := pi, inToOut := None\<rparr>)" using s by (simp add: snapshot_of_index)
  moreover have "if shares R b then snapshot_of R b (g2\<lparr>propIndex := pi\<rparr>) else inToOut (g2\<lparr>propIndex := pi\<rparr>) = Some [] \<and> hasRelProps (g2\<lparr>propIndex := pi\<rparr>)"
    using sm by (simp add: snapshot_of_index split: if_splits)
  ultimately show ?thesis using F pi by (intro exI [of _ "g2\<lparr>propIndex := pi\<rparr>"]) (simp split: if_splits)
qed

section \<open>From the staged builder\<close>

text \<open>Compaction moves relationships only when the relationships are marked dirty, so a source stays in step.\<close>

lemma compact_source:
  assumes s: "sourced R b" and c: "compactRemovals R b = Some b'" "same_nodes b b'"
  shows "sourced R b' \<and> (shares R b' \<longleftrightarrow> shares R b)"
proof (cases "b_src b")
  case None
  then show ?thesis using c(2) by (simp add: sourced_def shares_def same_nodes_def)
next
  case (Some src)
  have src': "b_src b' = Some src" using Some c(2) by (simp add: same_nodes_def)
  have st: "in_step R src b" using s Some by (simp add: sourced_def)
  show ?thesis
  proof (cases "relsDirty b")
    case False
    then have "b' = b" using c(1) in_step_rels(1,2) [OF st False] by (simp add: compactRemovals_def hasRemovals_def)
    then show ?thesis using s by simp
  next
    case True
    then have d: "relsDirty b'" using c(2) by (simp add: same_nodes_def)
    have e: "node_fams b' = node_fams b" "has_label b' = has_label b" "interner b' = interner b" "dirtyNodeCols b' = dirtyNodeCols b" "dirtyLabels b' = dirtyLabels b"
      using c(2) by (simp_all add: same_nodes_def node_fams_def has_label_def fun_eq_iff)
    have "in_step R src b'" unfolding in_step_def e
      by (intro conjI; (fact in_step_facts [OF st] | intro allI impI, erule in_step_facts(7,8) [OF st] | use d in blast))
    then show ?thesis using d True Some src' by (simp add: sourced_def shares_def map_shared_def)
  qed
qed

text \<open>Every staging area the properties below speak of: a fresh builder, or a thawed one whose source is in step with it.\<close>

definition finalizable :: "'bm roaring \<Rightarrow> 'bm Builder \<Rightarrow> bool" where
  "finalizable R b \<longleftrightarrow> builder_inv R b \<and> sizes_ok b \<and> ids_interned b \<and> sourced R b \<and> shares R b"

lemma finalize_compact:
  assumes R: "roaring_laws R" and f: "finalizable R b"
  shows "\<exists>b' g. compactRemovals R b = Some b' \<and> Finalize R keys b = Some g \<and> snapshot_of R b' g \<and> snapshot_ok g \<and> columns_ok g \<and> cache_ok R g \<and> nbrs_in_space g
    \<and> builder_inv R b' \<and> \<not> hasRemovals R b' \<and> sizes_ok b' \<and> ids_interned b' \<and> same_nodes b b'
    \<and> b_rels b' = map ((!) (b_rels b)) (live_list R b (length (b_rels b)))
    \<and> b_relTypes b' = map ((!) (b_relTypes b)) (live_list R b (length (b_rels b)))"
proof -
  have b: "builder_inv R b" "sourced R b" "sizes_ok b" "ids_interned b" "shares R b" using f by (auto simp: finalizable_def)
  let ?L = "live_list R b (length (b_rels b))"
  obtain b' where b': "compactRemovals R b = Some b'" "builder_inv R b'" "\<not> hasRemovals R b'" "same_nodes b b'"
      "b_rels b' = map ((!) (b_rels b)) ?L" "b_relTypes b' = map ((!) (b_relTypes b)) ?L"
    using compact_ok [OF R b(1)] b(3) unfolding sizes_ok_def by blast
  have "length (b_rels b') \<le> length (b_rels b)" using b'(5) rank_of_le by (simp add: length_live_list)
  then have sz: "sizes_ok b'" using b(3) b'(4) by (simp add: sizes_ok_def same_nodes_def)
  have "length (b_relTypes b) = length (b_rels b)" using b(1) by (simp add: builder_inv_def rels_inv_def)
  then have "set (b_relTypes b') \<subseteq> set (b_relTypes b)" using b'(6) by (auto simp: live_list_def)
  then have it: "ids_interned b'" using b(4) b'(4) by (auto simp: ids_interned_def interned_def same_nodes_def)
  have so: "sourced R b'" "shares R b'" using compact_source [OF b(2) b'(1,4)] b(5) by simp_all
  obtain g where g: "Finalize R keys b = Some g" "snapshot_of R b' g" "cache_ok R g"
    using finalize_ok [OF R b'(2,3) sz it so(1) b'(1), of keys] so(2) by auto
  have ok: "rels_ok (id_space R b') (b_rels b') (b_relTypes b')" using builder_csr_input(1) [OF R b'(2,3)] sz by (simp add: sizes_ok_def)
  show ?thesis using b' sz it g snapshot_of_ok(1,2) [OF R b'(2,3) sz it g(2)] snapshot_of_space [OF ok g(2)] by blast
qed

end
