(* ===== verification/EndToEnd.thy ===== *)
theory EndToEnd
  imports SnapshotOf
begin

text \<open>
  The snapshot's answers are the staged graph: the relation \<open>snapshot_of\<close> that \<open>Finalize\<close> establishes, read through the snapshot's
  own operations.
\<close>

section \<open>Names, labels and node properties\<close>

lemma snapshot_of_name:
  assumes "interner_wf (interner b)" "snapshot_of R b g"
  shows "schemaID g s = (case Interner_Get (interner b) s of Some i \<Rightarrow> (i, True) | None \<Rightarrow> (0, False))"
proof -
  have a: "sn_atoms g = NewAtoms (int_strings (interner b))" using assms(2) by (simp add: snapshot_of_def Let_def Interner_Atoms_def)
  have "atoms_wf (sn_atoms g)" using assms(1) a by (simp add: interner_wf_def NewAtoms_wf)
  then show ?thesis using assms(1) a by (simp add: schemaID_ok interner_wf_def Interner_Get_def NewAtoms_def split: option.split)
qed

lemma snapshot_of_label:
  assumes R: "roaring_laws R" and b: "builder_inv R b" and s: "snapshot_of R b g"
  shows "HasLabel R g node name \<longleftrightarrow> (\<exists>l. Interner_Get (interner b) name = Some l \<and> has_label b l node)"
proof -
  have wf: "interner_wf (interner b)" using b by (simp add: builder_inv_def)
  have m: "members R (labelIndex g) l = {x. unat x < id_space R b \<and> l \<in> set (nodeLabels b ! unat x)}" for l
    using s by (simp add: snapshot_of_def Let_def)
  have "HasLabel R g node name \<longleftrightarrow> (\<exists>l. Interner_Get (interner b) name = Some l \<and> node \<in> members R (labelIndex g) l)"
    by (simp add: HasLabel_def NodesWithLabel_def Snapshot_Label_def snapshot_of_name [OF wf s] members_def nodeset_ops(6) [OF R] split: option.split)
  moreover have "node \<in> members R (labelIndex g) l \<longleftrightarrow> has_label b l node" for l by (simp add: m label_extent [OF R b])
  ultimately show ?thesis by simp
qed

definition prop_of :: "Atoms \<Rightarrow> Value option \<Rightarrow> Prop" where
  "prop_of a v = (case v of None \<Rightarrow> zero_Prop | Some v \<Rightarrow> \<lparr>prop_g = Some a, prop_v = v, prop_ok = True\<rparr>)"

lemma snapshot_of_prop:
  assumes R: "roaring_laws R" and b: "builder_inv R b" "\<not> hasRemovals R b" "length (degOut b) < 2 ^ 32" and s: "snapshot_of R b g"
  shows "Snapshot_Prop g node key = Some (prop_of (Interner_Atoms (interner b))
      (case Interner_Get (interner b) key of None \<Rightarrow> None | Some k \<Rightarrow> family_reads (id_space R b) (node_fams b) k node))"
proof -
  have wf: "interner_wf (interner b)" using b by (simp add: builder_inv_def)
  have c: "map_of (columns g) k = family_col (id_space R b) (node_fams b) k" "sn_atoms g = Interner_Atoms (interner b)" for k
    using s by (simp_all add: snapshot_of_def Let_def)
  have n: "id_space R b < 2 ^ 32" using id_space_bounds(2) [OF R b(1)] b(3) by simp
  note fr = family_reads_ok [OF builder_csr_input(4) [OF R b] n]
  show ?thesis
  proof (cases "Interner_Get (interner b) key")
    case None
    then show ?thesis by (simp add: Snapshot_Prop_def col_prop_def Snapshot_PropertyKey_def snapshot_of_name [OF wf s] prop_of_def)
  next
    case (Some k)
    then show ?thesis using fr [of k] by (cases "family_reads (id_space R b) (node_fams b) k node"; cases "family_col (id_space R b) (node_fams b) k")
      (simp_all add: Snapshot_Prop_def col_prop_def Snapshot_PropertyKey_def snapshot_of_name [OF wf s] c prop_of_def)
  qed
qed

section \<open>Traversal\<close>

abbreviation end_of :: "bool \<Rightarrow> nat" where
  "end_of out \<equiv> if out then 0 else 1"

lemma snapshot_of_side:
  assumes ok: "rels_ok (id_space R b) (b_rels b) (b_relTypes b)" and s: "snapshot_of R b g"
  shows "csr_repr (id_space R b) (b_rels b) (b_relTypes b) (end_of out) (offs_of g out) (nbrs_of g out) (types_of g out)"
    "map ((!) (csr_order (id_space R b) (owner_list (end_of out) (b_rels b)))) (side_ks g out m node) = staged_rels (end_of out) (b_rels b) (b_relTypes b) m node"
    "\<And>k. k \<in> set (side_ks g out m node) \<Longrightarrow> k < length (b_rels b)"
proof -
  show r: "csr_repr (id_space R b) (b_rels b) (b_relTypes b) (end_of out) (offs_of g out) (nbrs_of g out) (types_of g out)"
    using s by (simp add: snapshot_of_def Let_def offs_of_def nbrs_of_def types_of_def)
  obtain lo hi where lh: "relRange (offs_of g out) node = (lo, hi)" by fastforce
  show "map ((!) (csr_order (id_space R b) (owner_list (end_of out) (b_rels b)))) (side_ks g out m node) = staged_rels (end_of out) (b_rels b) (b_relTypes b) m node"
    using kept_staged(1) [OF ok r lh] by (simp add: side_ks_def lh)
  show "\<And>k. k \<in> set (side_ks g out m node) \<Longrightarrow> k < length (b_rels b)" using kept_staged(3) [OF ok r lh] by (simp add: side_ks_def lh)
qed

lemma snapshot_of_nbrs:
  assumes ok: "rels_ok (id_space R b) (b_rels b) (b_relTypes b)" and s: "snapshot_of R b g"
  shows "side_nbrs g out m node = map (\<lambda>i. other_of (end_of out) (b_rels b ! i)) (staged_rels (end_of out) (b_rels b) (b_relTypes b) m node)"
proof -
  note r = snapshot_of_side [OF ok s, where out = out]
  have "side_nbrs g out m node = map (\<lambda>k. other_of (end_of out) (b_rels b ! (csr_order (id_space R b) (owner_list (end_of out) (b_rels b)) ! k))) (side_ks g out m node)"
    unfolding side_nbrs_def using csr_repr_facts(5) [OF ok r(1)] r(3) [where m = m and node = node] by (intro map_cong) auto
  then show ?thesis unfolding r(2) [where m = m and node = node, symmetric] by simp
qed

text \<open>A reference's position is where the relationship's own properties are stored, from either end.\<close>

lemma out_positions_nth:
  assumes ok: "rels_ok n rels ts" and p: "p < length rels"
  shows "out_positions rels ! (csr_order n (owner_list 0 rels) ! p) = of_nat p" "csr_order n (owner_list 0 rels) ! p < length rels"
  using csr_pos_bij(3) [of "owner_list 0 rels" n p] rels_ok_owner [OF ok, of _ 0] p by (auto simp: out_positions_def)

lemma snapshot_of_refs:
  assumes ok: "rels_ok (id_space R b) (b_rels b) (b_relTypes b)" and tt: "\<forall>t \<in> set (b_relTypes b). unat t + 1 < 2 ^ 32"
    and s: "snapshot_of R b g" and hp: "out \<or> hasRelProps g"
  shows "side_refs g out m node = map (\<lambda>i. \<lparr>ref_Neighbor = other_of (end_of out) (b_rels b ! i), ref_Type = b_relTypes b ! i, ref_Direction = side_dir out,
      ref_Pos = out_positions (b_rels b) ! i\<rparr>) (staged_rels (end_of out) (b_rels b) (b_relTypes b) m node)"
proof -
  let ?n = "id_space R b" and ?rels = "b_rels b" and ?ts = "b_relTypes b"
  let ?ord = "csr_order ?n (owner_list (end_of out) ?rels)"
  note r = snapshot_of_side [OF ok s, where out = out]
  note f = csr_repr_facts [OF ok r(1)]
  have pos: "read_pos (pm_of g out) k = out_positions ?rels ! (?ord ! k)" if k: "k < length ?rels" for k
  proof (cases out)
    case True
    then show ?thesis using out_positions_nth(1) [OF ok k] by (simp add: pm_of_def pos_map_def read_pos_def)
  next
    case False
    note ri = snapshot_of_side(1) [OF ok s, where out = True] r(1)
    obtain ito where ito: "computeInToOutFromCSR (outOffsets g) (outNbrs g) (outTypes g) (inOffsets g) (inNbrs g) (inTypes g) = Some ito" "length ito = length ?rels"
        "\<forall>i < length ?rels. unat (ito ! csr_pos (owner_list 1 ?rels) i) = csr_pos (owner_list 0 ?rels) i"
      using computeInToOut_ok [OF ok tt, of "outOffsets g" "outNbrs g" "outTypes g" "inOffsets g" "inNbrs g" "inTypes g"] ri False
      by (auto simp: offs_of_def nbrs_of_def types_of_def)
    have "inToOut g = Some m \<Longrightarrow> m = ito" for m using s ito(1) by (simp add: snapshot_of_def Let_def)
    then have pm: "pm_of g out = ito" using False hp ito(1) by (cases "inToOut g") (simp_all add: pm_of_def pos_map_def getInToOut_def)
    have "?ord ! k < length ?rels" "csr_pos (owner_list 1 ?rels) (?ord ! k) = k" using f(4) [OF k] False by simp_all
    then have "unat (ito ! k) = csr_pos (owner_list 0 ?rels) (?ord ! k)" using ito(3) by metis
    then have "ito ! k = of_nat (csr_pos (owner_list 0 ?rels) (?ord ! k))" by (metis of_nat_unat ucast_id)
    then show ?thesis using k ito(2) \<open>?ord ! k < length ?rels\<close> by (simp add: pm read_pos_def out_positions_def)
  qed
  show ?thesis unfolding side_refs_def r(2) [where m = m and node = node, symmetric] map_map comp_def
    using f(5,6) pos r(3) [where m = m and node = node] by (intro map_cong) auto
qed

section \<open>Relationship properties\<close>

definition staged_fams :: "'bm Builder \<Rightarrow> families" where
  "staged_fams b = (relColI64 b, relColF64 b, relColBool b, relColStr b)"

lemma staged_map_at_csr:
  assumes inj: "\<And>i j. i < m \<Longrightarrow> j < m \<Longrightarrow> r2c ! i = r2c ! j \<longleftrightarrow> i = j" and ps: "\<forall>p \<in> set ps. unat (pid p) < m" and i: "i < m" "m < 2 ^ 32"
  shows "staged_map (at_csr r2c ps) (r2c ! i) = staged_map ps (of_nat i)" "card (pid ` set (at_csr r2c ps)) = card (pid ` set ps)"
proof -
  have "r2c ! unat (pid p) = r2c ! i \<longleftrightarrow> pid p = of_nat i" if "p \<in> set ps" for p
    using inj [of "unat (pid p)" i] ps i that by (auto simp: unat_of_nat_less)
  then show "staged_map (at_csr r2c ps) (r2c ! i) = staged_map ps (of_nat i)"
  proof (induction ps rule: rev_induct)
    case (snoc p ps)
    have "at_csr r2c (ps @ [p]) = at_csr r2c ps @ [p\<lparr>pid := r2c ! unat (pid p)\<rparr>]" by (simp add: at_csr_def)
    moreover have "r2c ! unat (pid p) = r2c ! i \<longleftrightarrow> pid p = of_nat i" by (rule snoc.prems) simp
    then have "r2c ! i = r2c ! unat (pid p) \<longleftrightarrow> of_nat i = pid p" by (simp only: eq_commute)
    moreover have "staged_map (at_csr r2c ps) (r2c ! i) = staged_map ps (of_nat i)" by (rule snoc.IH, rule snoc.prems) simp
    ultimately show ?case by simp
  qed (simp add: at_csr_def staged_map_def)
  have "pid ` set (at_csr r2c ps) = (\<lambda>x. r2c ! unat x) ` pid ` set ps" by (simp add: at_csr_def image_image)
  moreover have "inj_on (\<lambda>x. r2c ! unat x) (pid ` set ps)" using inj ps by (auto simp: inj_on_def word_unat_eq_iff)
  ultimately show "card (pid ` set (at_csr r2c ps)) = card (pid ` set ps)" by (simp add: card_image)
qed

lemma map_of_cols_at_csr: "map_of (cols_at_csr r2c cols) k = map_option (at_csr r2c) (map_of cols k)"
  by (induction cols) (auto simp: cols_at_csr_def)

lemma reads_at_csr:
  assumes inj: "\<And>i j. i < m \<Longrightarrow> j < m \<Longrightarrow> r2c ! i = r2c ! j \<longleftrightarrow> i = j" and c: "cols_ok (\<lambda>x. unat x < m) cs" "map_of cs k = Some ps" and i: "i < m" "m < 2 ^ 32"
  shows "staged_map (at_csr r2c ps) (r2c ! i) = staged_map ps (of_nat i)" "card (pid ` set (at_csr r2c ps)) = card (pid ` set ps)"
  using staged_map_at_csr [OF inj _ i, of ps] cols_ok_span [OF c] by (simp_all add: in_span_def)

lemma family_reads_at_csr:
  assumes inj: "\<And>i j. i < m \<Longrightarrow> j < m \<Longrightarrow> r2c ! i = r2c ! j \<longleftrightarrow> i = j" and f: "families_ok m (staged_fams b)" and i: "i < m" "m < 2 ^ 32" "unat (r2c ! i) < m"
  shows "family_reads m (rel_fams r2c b) k (r2c ! i) = family_reads m (staged_fams b) k (of_nat i)"
proof -
  have ok: "cols_ok (\<lambda>x. unat x < m) (relColI64 b)" "cols_ok (\<lambda>x. unat x < m) (relColF64 b)" "cols_ok (\<lambda>x. unat x < m) (relColBool b)" "cols_ok (\<lambda>x. unat x < m) (relColStr b)"
    using f by (auto simp: staged_fams_def)
  note I = reads_at_csr(1) [OF inj ok(1) _ i(1,2)] and F = reads_at_csr(1) [OF inj ok(2) _ i(1,2)] and B = reads_at_csr(1) [OF inj ok(3) _ i(1,2)]
    and S = reads_at_csr [OF inj ok(4) _ i(1,2)]
  have u: "unat (of_nat i :: u32) = i" using i by (intro unat_of_nat_less) simp
  show ?thesis unfolding rel_fams_def staged_fams_def
    by (simp add: map_of_cols_at_csr str_reads_def I F B S i u split: option.split)
qed

text \<open>What \<open>RelProp\<close> reads at the position of staged relationship \<open>i\<close>.\<close>

lemma snapshot_of_relprop:
  assumes R: "roaring_laws R" and b: "builder_inv R b" "\<not> hasRemovals R b" "sizes_ok b" and s: "snapshot_of R b g" and i: "i < length (b_rels b)"
  shows "Snapshot_RelProp g (out_positions (b_rels b) ! i) key = Some (prop_of (Interner_Atoms (interner b))
      (case Interner_Get (interner b) key of None \<Rightarrow> None | Some k \<Rightarrow> family_reads (length (b_rels b)) (staged_fams b) k (of_nat i)))"
proof -
  let ?m = "length (b_rels b)" and ?pos = "out_positions (b_rels b)"
  have len: "length (degOut b) < 2 ^ 32" "?m < 2 ^ 32" using b(3) by (auto simp: sizes_ok_def)
  have wf: "interner_wf (interner b)" and ci: "cols_inv R b" using b(1) by (auto simp: builder_inv_def)
  have c: "map_of (relColumns g) k = family_col ?m (rel_fams ?pos b) k" "sn_atoms g = Interner_Atoms (interner b)" for k
    using s by (simp_all add: snapshot_of_def Let_def)
  note ok = builder_csr_input(1) [OF R b(1,2) len(1)]
  have bij: "bij_betw (csr_pos (owner_list 0 (b_rels b))) {..<?m} {..<?m}" using csr_pos_bij(1) [of "owner_list 0 (b_rels b)" "id_space R b"] rels_ok_owner [OF ok, of _ 0] by simp
  then have lt: "csr_pos (owner_list 0 (b_rels b)) j < ?m" if "j < ?m" for j using that by (auto simp: bij_betw_def)
  have u: "unat (?pos ! j) = csr_pos (owner_list 0 (b_rels b)) j" if "j < ?m" for j
    using lt [OF that] len(2) that by (simp add: out_positions_def unat_of_nat_less)
  have inj: "?pos ! j = ?pos ! k \<longleftrightarrow> j = k" if "j < ?m" "k < ?m" for j k
    using bij u [OF that(1)] u [OF that(2)] that by (auto simp: bij_betw_def inj_on_def)
  have lp: "length ?pos = ?m" by (simp add: out_positions_def)
  have rf: "families_ok ?m (rel_fams ?pos b)" using rel_fams_ok [OF ci lp] u lt by simp
  have sf: "families_ok ?m (staged_fams b)" using ci by (simp add: cols_inv_def Let_def staged_fams_def)
  have eq: "family_reads ?m (rel_fams ?pos b) k (?pos ! i) = family_reads ?m (staged_fams b) k (of_nat i)" for k
    using family_reads_at_csr [OF inj sf i len(2)] u [OF i] lt [OF i] by simp
  note fr = family_reads_ok [OF rf len(2)]
  show ?thesis
  proof (cases "Interner_Get (interner b) key")
    case None
    then show ?thesis by (simp add: Snapshot_RelProp_def col_prop_def Snapshot_PropertyKey_def snapshot_of_name [OF wf s] prop_of_def)
  next
    case (Some k)
    then show ?thesis using fr [of k]
      by (cases "family_reads ?m (staged_fams b) k (of_nat i)"; cases "family_col ?m (rel_fams ?pos b) k")
        (auto simp: Snapshot_RelProp_def col_prop_def Snapshot_PropertyKey_def snapshot_of_name [OF wf s] c prop_of_def eq dest!: spec [of _ "?pos ! i"])
  qed
qed

lemma no_relprops:
  assumes "interner_wf (interner b)" "snapshot_of R b g" "\<not> hasRelProps g"
  shows "Snapshot_RelProp g pos key = Some zero_Prop" "family_reads m (staged_fams b) k j = None"
proof -
  have e: "relColI64 b = []" "relColF64 b = []" "relColBool b = []" "relColStr b = []" and c: "\<And>k. map_of (relColumns g) k = family_col (length (b_rels b)) (rel_fams (out_positions (b_rels b)) b) k"
    using assms(2,3) by (auto simp: snapshot_of_def Let_def)
  show "family_reads m (staged_fams b) k j = None" by (simp add: staged_fams_def e)
  show "Snapshot_RelProp g pos key = Some zero_Prop"
    by (simp add: Snapshot_RelProp_def col_prop_def c rel_fams_def e cols_at_csr_def split: prod.split)
qed

lemma yield_collect: "yield_all (\<lambda>x acc. (True, acc @ [f x])) xs acc = (True, acc @ map f xs)"
  by (induction xs arbitrary: acc) simp_all

lemma staged_rels_lt: "i \<in> set (staged_rels e rels ts m node) \<Longrightarrow> i < length rels"
  by (simp add: staged_rels_def)

lemma snapshot_of_ref_props:
  assumes R: "roaring_laws R" and b: "builder_inv R b" "\<not> hasRemovals R b" "sizes_ok b" "ids_interned b" and s: "snapshot_of R b g"
  shows "map (\<lambda>x. (ref_Neighbor x, ref_Type x, Snapshot_RelProp g (ref_Pos x) key)) (side_refs g out m node)
    = map (\<lambda>i. (other_of (end_of out) (b_rels b ! i), b_relTypes b ! i, Some (prop_of (Interner_Atoms (interner b))
        (case Interner_Get (interner b) key of None \<Rightarrow> None | Some k \<Rightarrow> family_reads (length (b_rels b)) (staged_fams b) k (of_nat i)))))
      (staged_rels (end_of out) (b_rels b) (b_relTypes b) m node)"
proof -
  have len: "length (degOut b) < 2 ^ 32" "length (int_strings (interner b)) < 2 ^ 32" using b(3) by (auto simp: sizes_ok_def)
  note ok = builder_csr_input(1) [OF R b(1,2) len(1)]
  have tt: "\<forall>t \<in> set (b_relTypes b). unat t + 1 < 2 ^ 32" using b(4) len(2) by (fastforce simp: ids_interned_def interned_def)
  show ?thesis
  proof (cases "out \<or> hasRelProps g")
    case True
    then show ?thesis unfolding snapshot_of_refs [OF ok tt s True] map_map comp_def
      using snapshot_of_relprop [OF R b(1-3) s] by (intro map_cong) (simp_all add: staged_rels_lt)
  next
    case False
    have wf: "interner_wf (interner b)" using b(1) by (simp add: builder_inv_def)
    have hp: "\<not> hasRelProps g" using False by simp
    note np = no_relprops [OF wf s hp] and r = snapshot_of_side [OF ok s, where out = out]
    note f = csr_repr_facts [OF ok r(1)]
    have z: "prop_of a (case x of None \<Rightarrow> None | Some k \<Rightarrow> None) = zero_Prop" for a and x :: "u32 option" by (simp add: prop_of_def split: option.split)
    show ?thesis unfolding side_refs_def r(2) [where m = m and node = node, symmetric] map_map comp_def np z
      using f(5,6) r(3) [where m = m and node = node] by (intro map_cong) simp_all
  qed
qed

section \<open>Matching by name, and the live relationships of the builder\<close>

lemma Match_matches:
  assumes n: "\<And>s. schemaID g s = (case f s of Some i \<Rightarrow> (i, True) | None \<Rightarrow> (0, False))"
  shows "RelMatch_matches (Match g names) t \<longleftrightarrow> names = [] \<or> (\<exists>name \<in> set names. f name = Some t)"
proof -
  have one: "RelMatch_matches (Match g [name]) t \<longleftrightarrow> f name = Some t" for name
    by (simp add: Match_def Snapshot_RelType_def n RelMatch_matches_def MatchNone_def split: option.split)
  have r: "concat (map (\<lambda>name. case Snapshot_RelType g name of (t, known) \<Rightarrow> if known then [t] else []) names)
      = concat (map (\<lambda>name. case f name of Some t \<Rightarrow> [t] | None \<Rightarrow> []) names)" for names
    by (intro arg_cong [where f = concat] map_cong) (simp_all add: Snapshot_RelType_def n split: option.split)
  have many: "RelMatch_matches (matchMany g names) t \<longleftrightarrow> (\<exists>name \<in> set names. f name = Some t)" for names
  proof -
    let ?r = "concat (map (\<lambda>name. case f name of Some t \<Rightarrow> [t] | None \<Rightarrow> []) names)"
    have "t \<in> set ?r \<longleftrightarrow> (\<exists>name \<in> set names. f name = Some t)" by (force split: option.splits)
    moreover have "RelMatch_matches (case rs of [] \<Rightarrow> MatchNone | [t] \<Rightarrow> MatchType t | _ \<Rightarrow> \<lparr>rm_kind = 2, rm_one = 0, rm_many = rs, rm_tp = None\<rparr>) t \<longleftrightarrow> t \<in> set rs" for rs
      by (cases rs rule: remdups_adj.cases) (auto simp: RelMatch_matches_def MatchNone_def MatchType_def)
    then have "RelMatch_matches (matchMany g names) t \<longleftrightarrow> t \<in> set ?r" by (simp only: matchMany_def r Let_def)
    ultimately show ?thesis by simp
  qed
  show ?thesis using one many by (cases names rule: remdups_adj.cases) (auto simp: Match_def RelMatch_matches_def MatchAll_def)
qed

definition live_staged :: "'bm roaring \<Rightarrow> 'bm Builder \<Rightarrow> string list \<Rightarrow> bool \<Rightarrow> NodeID \<Rightarrow> nat list" where
  "live_staged R b names out node = filter (\<lambda>i. \<not> relRemoved R b i \<and> owner_of (end_of out) (b_rels b ! i) = node
     \<and> (names = [] \<or> (\<exists>name \<in> set names. Interner_Get (interner b) name = Some (b_relTypes b ! i)))) [0..<length (b_rels b)]"

lemma compacted_staged:
  assumes r: "b_rels b' = map ((!) (b_rels b)) (live_list R b (length (b_rels b)))" "b_relTypes b' = map ((!) (b_relTypes b)) (live_list R b (length (b_rels b)))"
    and m: "\<And>t. RelMatch_matches m t \<longleftrightarrow> names = [] \<or> (\<exists>name \<in> set names. Interner_Get (interner b) name = Some t)"
  shows "map (\<lambda>i. h (b_rels b' ! i)) (staged_rels (end_of out) (b_rels b') (b_relTypes b') m node) = map (\<lambda>i. h (b_rels b ! i)) (live_staged R b names out node)"
proof -
  let ?L = "live_list R b (length (b_rels b))"
  have "map (\<lambda>i. h (b_rels b' ! i)) (staged_rels (end_of out) (b_rels b') (b_relTypes b') m node)
    = map (\<lambda>i. h (b_rels b ! (?L ! i))) (filter (\<lambda>i. owner_of (end_of out) (b_rels b ! (?L ! i)) = node \<and> RelMatch_matches m (b_relTypes b ! (?L ! i))) [0..<length ?L])"
    unfolding staged_rels_def r by (intro map_cong filter_cong) (auto cong: conj_cong)
  also have "\<dots> = map (\<lambda>i. h (b_rels b ! i)) (filter (\<lambda>i. owner_of (end_of out) (b_rels b ! i) = node \<and> RelMatch_matches m (b_relTypes b ! i)) ?L)"
    using map_filter_nth [of "\<lambda>i. h (b_rels b ! i)" ?L "\<lambda>i. owner_of (end_of out) (b_rels b ! i) = node \<and> RelMatch_matches m (b_relTypes b ! i)"] by simp
  also have "\<dots> = map (\<lambda>i. h (b_rels b ! i)) (live_staged R b names out node)"
    unfolding live_list_def live_staged_def live_at_def m filter_filter by (simp add: conj_ac)
  finally show ?thesis .
qed

lemma preview_staged: "NeighborIDs R node dir b = dir_list dir (\<lambda>out. map (\<lambda>i. other_of (end_of out) (b_rels b ! i)) (live_staged R b [] out node))"
proof -
  have e: "map (\<lambda>(i, r). h r) (filter (\<lambda>(i, r). P i r) (enumerate 0 xs)) = map (\<lambda>i. h (xs ! i)) (filter (\<lambda>i. P i (xs ! i)) [0..<length xs])" for h P and xs :: "rel list"
  proof -
    have "enumerate 0 xs = map (\<lambda>i. (i, xs ! i)) [0..<length xs]" by (rule nth_equalityI) (simp_all add: nth_enumerate_eq)
    then show ?thesis by (simp add: filter_map comp_def)
  qed
  show ?thesis by (cases dir) (simp_all add: NeighborIDs_def dir_list_def live_staged_def e owner_of_def other_of_def conj_commute)
qed

section \<open>Properties of Finalize\<close>

lemma finalize_counts:
  assumes "roaring_laws R" "finalizable R b"
  shows "\<exists>g. Finalize R keys b = Some g \<and> snapshot_ok g \<and> columns_ok g \<and> cache_ok R g \<and> nbrs_in_space g
    \<and> unat (Snapshot_NodeCount g) = Builder_NodeCount R b \<and> unat (Snapshot_RelCount g) = Builder_RelCount R b
    \<and> (\<forall>x. NodeExists R g x \<longleftrightarrow> x \<in> rb_set R (knownNodes b))"
proof -
  obtain b' g where g: "Finalize R keys b = Some g" "snapshot_of R b' g" "snapshot_ok g" "columns_ok g" "cache_ok R g" "same_nodes b b'"
      "nbrs_in_space g" "b_rels b' = map ((!) (b_rels b)) (live_list R b (length (b_rels b)))"
    using finalize_compact [OF assms] by blast
  have s: "nNodes g = ucast (rb_GetCardinality R (knownNodes b))" "nRels g = of_nat (length (b_rels b'))" "existence g = Some (FromBitmap (rb_Clone R (knownNodes b)))"
    using g(2,6) by (auto simp: snapshot_of_def Let_def same_nodes_def)
  have f: "length (b_rels b) \<le> 2 ^ 31" "length (degOut b) < 2 ^ 32" "known_inv R b" using assms(2) by (auto simp: finalizable_def sizes_ok_def builder_inv_def)
  have "length (b_rels b') = Builder_RelCount R b"
    using g(8) RelCount_count [OF assms(1)] by (simp add: length_live_list rank_of_def live_at_def [abs_def])
  moreover have "Builder_RelCount R b \<le> length (b_rels b)" using g(8) calculation rank_of_le [of R b "length (b_rels b)"] by (simp add: length_live_list)
  ultimately have "unat (Snapshot_RelCount g) = Builder_RelCount R b" using f(1) s(2) by (simp add: Snapshot_RelCount_def unat_of_nat_less)
  moreover have "unat (Snapshot_NodeCount g) = Builder_NodeCount R b"
  proof -
    have "unat ` rb_set R (knownNodes b) \<subseteq> {..<length (degOut b)}" using f(3) by (auto simp: known_inv_def)
    then have "card (rb_set R (knownNodes b)) \<le> length (degOut b)"
      using card_mono [of "{..<length (degOut b)}" "unat ` rb_set R (knownNodes b)"] by (simp add: card_image inj_on_def word_unat_eq_iff)
    then have "unat (rb_GetCardinality R (knownNodes b)) < 2 ^ 32" using f(2) roaring_simps(12) [OF assms(1), of "knownNodes b"] by simp
    then show ?thesis by (simp add: Snapshot_NodeCount_def Builder_NodeCount_def s unsigned_ucast_eq take_bit_nat_eq_self)
  qed
  moreover have "NodeExists R g x \<longleftrightarrow> x \<in> rb_set R (knownNodes b)" for x
    by (simp add: NodeExists_def s nodeset_ops(6) [OF assms(1)] ids_def FromBitmap_def roaring_simps [OF assms(1)])
  ultimately show ?thesis using g(1,3-5,7) by blast
qed

lemma staged_finalizable:
  assumes "roaring_laws R" "sum_list (map op_strings calls) < 2 ^ 32 - 1" "fold_opt (run_bop R) calls (NewBuilder R capNodes capRels) = Some b"
    "length (b_rels b) \<le> 2 ^ 31" "length (degOut b) < 2 ^ 32"
  shows "finalizable R b"
proof -
  have "good R (1 + sum_list (map op_strings calls)) b \<and> ids_interned b \<and> b_src b = None"
    using run_bops_typed [OF assms(1) good_NewBuilder [OF assms(1)] NewBuilder_ids, of calls capNodes capRels] assms(2,3) by auto
  then show ?thesis using assms(2,4,5) by (auto simp: finalizable_def sizes_ok_def good_def interned_def sourced_def shares_def)
qed

text \<open>
  \<open>Finalize\<close> after any sequence of staging calls on a fresh builder, removals and failed calls included, returns, and what it returns
  is well typed: both CSR directions with their type vectors and neighbours inside the id space, a computable incoming position map, canonical columns, and
  equality indexes that agree with their columns. Its counts are the builder's live counts, and exactly the known nodes exist.
\<close>

lemma finalize_well_formed:
  assumes "roaring_laws R" "sum_list (map op_strings calls) < 2 ^ 32 - 1" "fold_opt (run_bop R) calls (NewBuilder R capNodes capRels) = Some b"
    "length (b_rels b) \<le> 2 ^ 31" "length (degOut b) < 2 ^ 32"
  shows "\<exists>g. Finalize R keys b = Some g \<and> snapshot_ok g \<and> columns_ok g \<and> cache_ok R g \<and> nbrs_in_space g
    \<and> unat (Snapshot_NodeCount g) = Builder_NodeCount R b \<and> unat (Snapshot_RelCount g) = Builder_RelCount R b
    \<and> (\<forall>x. NodeExists R g x \<longleftrightarrow> x \<in> rb_set R (knownNodes b))"
  by (rule finalize_counts [OF assms(1) staged_finalizable [OF assms]])

lemmas staged_eval = builder_eval RemoveRel_def relRemoved_def dec_at_def SetRelPropAt_def stage_rel_def markRelColDirty_def AddNode_def addNodeAt_def
  add_label_def markLabelDirty_def grow_to_def defaultCapacity_def

definition staged_calls :: "bop list" where
  "staged_calls = [CallAddNode [''L''], CallAddRel 0 1 ''t'', CallAddRel 1 0 ''u'', CallSetRelPropAt 1 ''w'' (AnyI64 9), CallRemoveRel 0]"

definition staged_builder :: "u32 list Builder" where
  "staged_builder = the (fold_opt (run_bop list_roaring) staged_calls (NewBuilder list_roaring 2 2))"

lemma staged_builder_eq: "fold_opt (run_bop list_roaring) staged_calls (NewBuilder list_roaring 2 2) = Some staged_builder"
  using run_bops_ok [OF list_roaring_laws good_NewBuilder [OF list_roaring_laws], of staged_calls 2 2] by (auto simp: staged_builder_def staged_calls_def)

lemma staged_builder_sizes: "length (b_rels staged_builder) = 2" "length (degOut staged_builder) = 2"
  by (simp_all add: staged_builder_def staged_calls_def staged_eval)

lemma staged_builder_finalizable: "finalizable list_roaring staged_builder"
  by (rule staged_finalizable [OF list_roaring_laws _ staged_builder_eq]) (simp_all add: staged_calls_def staged_builder_sizes)

text \<open>
  C1: traversing the finalized snapshot gives back the graph that was staged. For every node, direction and list of type names,
  the neighbours are the other ends of the live staged relationships at that node with one of those types, in
  staging order; without a type filter this is exactly the builder's own preview \<open>NeighborIDs\<close>.
\<close>

theorem finalize_neighbors:
  assumes "roaring_laws R" "finalizable R b"
  shows "\<exists>g. Finalize R keys b = Some g
    \<and> (\<forall>node dir names. AppendNeighborsEach R g [] node dir (Match g names)
        = Some (dir_list dir (\<lambda>out. map (\<lambda>i. other_of (end_of out) (b_rels b ! i)) (live_staged R b names out node))))
    \<and> (\<forall>node dir. AppendNeighborsEach R g [] node dir (Match g []) = Some (NeighborIDs R node dir b))"
proof -
  obtain b' g where g: "Finalize R keys b = Some g" "snapshot_of R b' g" "snapshot_ok g" "builder_inv R b'" "\<not> hasRemovals R b'" "sizes_ok b'" "same_nodes b b'"
      "b_rels b' = map ((!) (b_rels b)) (live_list R b (length (b_rels b)))" "b_relTypes b' = map ((!) (b_relTypes b)) (live_list R b (length (b_rels b)))"
    using finalize_compact [OF assms] by blast
  have ok: "rels_ok (id_space R b') (b_rels b') (b_relTypes b')" using builder_csr_input(1) [OF assms(1) g(4,5)] g(6) by (simp add: sizes_ok_def)
  have i: "interner_wf (interner b')" "interner b' = interner b" using g(4,7) by (simp_all add: builder_inv_def same_nodes_def)
  have m: "RelMatch_matches (Match g names) t \<longleftrightarrow> names = [] \<or> (\<exists>name \<in> set names. Interner_Get (interner b) name = Some t)" for names t
    using Match_matches [OF snapshot_of_name [OF i(1) g(2)]] by (simp add: i(2))
  have sn: "side_nbrs g out (Match g names) node = map (\<lambda>i. other_of (end_of out) (b_rels b ! i)) (live_staged R b names out node)" for out names node
    unfolding snapshot_of_nbrs [OF ok g(2)] by (rule compacted_staged [OF g(8,9) m])
  have "AppendNeighborsEach R g [] node dir (Match g names)
        = Some (dir_list dir (\<lambda>out. map (\<lambda>i. other_of (end_of out) (b_rels b ! i)) (live_staged R b names out node)))" for node dir names
    unfolding traversal_ok(1) [OF g(3) Match_ok] sn by simp
  then show ?thesis using g(1) by (simp only: preview_staged) blast
qed

theorem finalize_neighbors_witness:
  "\<exists>g. Finalize list_roaring [''w''] staged_builder = Some g
    \<and> (\<forall>node dir names. AppendNeighborsEach list_roaring g [] node dir (Match g names)
        = Some (dir_list dir (\<lambda>out. map (\<lambda>i. other_of (end_of out) (b_rels staged_builder ! i)) (live_staged list_roaring staged_builder names out node))))
    \<and> (\<forall>node dir. AppendNeighborsEach list_roaring g [] node dir (Match g []) = Some (NeighborIDs list_roaring node dir staged_builder))"
  by (rule finalize_neighbors [OF list_roaring_laws staged_builder_finalizable])

text \<open>
  C6: the finalized snapshot's labels and node properties are the staged ones. A node has a label exactly when it was
  staged with it, and a property reads the last value staged for that node in the family that owns the key (string, then bool,
  float, integer), unset positions of a dense string column reading as the empty atom; unknown names read as absent.
\<close>

theorem finalize_node_reads:
  assumes "roaring_laws R" "finalizable R b"
  shows "\<exists>g. Finalize R keys b = Some g
    \<and> (\<forall>node name. HasLabel R g node name \<longleftrightarrow> (\<exists>l. Interner_Get (interner b) name = Some l \<and> has_label b l node))
    \<and> (\<forall>node key. Snapshot_Prop g node key = Some (prop_of (Interner_Atoms (interner b))
        (case Interner_Get (interner b) key of None \<Rightarrow> None | Some k \<Rightarrow> family_reads (id_space R b) (node_fams b) k node)))"
proof -
  obtain b' g where g: "Finalize R keys b = Some g" "snapshot_of R b' g" "builder_inv R b'" "\<not> hasRemovals R b'" "sizes_ok b'" "same_nodes b b'"
    using finalize_compact [OF assms] by blast
  have e: "interner b' = interner b" "has_label b' = has_label b" "id_space R b' = id_space R b" "node_fams b' = node_fams b"
    using g(6) by (auto simp: same_nodes_def has_label_def id_space_def node_fams_def fun_eq_iff)
  have len: "length (degOut b') < 2 ^ 32" using g(5) by (simp add: sizes_ok_def)
  show ?thesis using g(1) snapshot_of_label [OF assms(1) g(3,2)] snapshot_of_prop [OF assms(1) g(3,4) len g(2)] unfolding e by blast
qed

theorem finalize_node_reads_witness:
  "\<exists>g. Finalize list_roaring [''w''] staged_builder = Some g
    \<and> (\<forall>node name. HasLabel list_roaring g node name \<longleftrightarrow> (\<exists>l. Interner_Get (interner staged_builder) name = Some l \<and> has_label staged_builder l node))
    \<and> (\<forall>node key. Snapshot_Prop g node key = Some (prop_of (Interner_Atoms (interner staged_builder))
        (case Interner_Get (interner staged_builder) key of None \<Rightarrow> None | Some k \<Rightarrow> family_reads (id_space list_roaring staged_builder) (node_fams staged_builder) k node)))"
  by (rule finalize_node_reads [OF list_roaring_laws staged_builder_finalizable])

text \<open>
  C2: relationship properties survive the reordering. After \<open>Finalize\<close> packs the relationships by source node and moves their
  properties along, every reference a traversal yields, outgoing or incoming, with any type filter, reads through its
  position the last value staged for that very relationship, parallel relationships included.
\<close>

theorem finalize_rel_reads:
  assumes "roaring_laws R" "finalizable R b" "compactRemovals R b = Some b'"
  shows "\<exists>g. Finalize R keys b = Some g
    \<and> (\<forall>node dir names key. relsYield R g node dir (Match g names) (\<lambda>x acc. (True, acc @ [(ref_Neighbor x, ref_Type x, Snapshot_RelProp g (ref_Pos x) key)])) []
      = Some (dir_list dir (\<lambda>out. map (\<lambda>i. (other_of (end_of out) (b_rels b' ! i), b_relTypes b' ! i, Some (prop_of (Interner_Atoms (interner b'))
          (case Interner_Get (interner b') key of None \<Rightarrow> None | Some k \<Rightarrow> family_reads (length (b_rels b')) (staged_fams b') k (of_nat i)))))
        (staged_rels (end_of out) (b_rels b') (b_relTypes b') (Match g names) node))))"
proof -
  obtain g where g: "Finalize R keys b = Some g" "snapshot_of R b' g" "snapshot_ok g" "builder_inv R b'" "\<not> hasRemovals R b'" "sizes_ok b'" "ids_interned b'"
    using finalize_compact [OF assms(1,2)] assms(3) by auto
  note r = snapshot_of_ref_props [OF assms(1) g(4-7,2)]
  have "relsYield R g node dir (Match g names) (\<lambda>x acc. (True, acc @ [(ref_Neighbor x, ref_Type x, Snapshot_RelProp g (ref_Pos x) key)])) []
    = Some (dir_list dir (\<lambda>out. map (\<lambda>x. (ref_Neighbor x, ref_Type x, Snapshot_RelProp g (ref_Pos x) key)) (side_refs g out (Match g names) node)))" for node dir names key
    by (simp add: traversal_ok(3) [OF g(3) Match_ok] yield_collect dir_list_def)
  then show ?thesis using g(1) unfolding r by blast
qed

definition compacted_builder :: "u32 list Builder" where
  "compacted_builder = the (compactRemovals list_roaring staged_builder)"

lemma compacted_builder_eq: "compactRemovals list_roaring staged_builder = Some compacted_builder"
  using finalize_compact [OF list_roaring_laws staged_builder_finalizable, of "[]"] by (auto simp: compacted_builder_def)

theorem finalize_rel_reads_witness:
  "\<exists>g. Finalize list_roaring [''w''] staged_builder = Some g
    \<and> (\<forall>node dir names key. relsYield list_roaring g node dir (Match g names) (\<lambda>x acc. (True, acc @ [(ref_Neighbor x, ref_Type x, Snapshot_RelProp g (ref_Pos x) key)])) []
      = Some (dir_list dir (\<lambda>out. map (\<lambda>i. (other_of (end_of out) (b_rels compacted_builder ! i), b_relTypes compacted_builder ! i, Some (prop_of (Interner_Atoms (interner compacted_builder))
          (case Interner_Get (interner compacted_builder) key of None \<Rightarrow> None | Some k \<Rightarrow> family_reads (length (b_rels compacted_builder)) (staged_fams compacted_builder) k (of_nat i)))))
        (staged_rels (end_of out) (b_rels compacted_builder) (b_relTypes compacted_builder) (Match g names) node))))"
  by (rule finalize_rel_reads [OF list_roaring_laws staged_builder_finalizable compacted_builder_eq])
end
