(* ===== verification/SearchCorrect.thy ===== *)
theory SearchCorrect
  imports Search EndToEnd
begin

text \<open>
  The searches visit exactly the balls of the traversal graph: every queue loop ends, and depth counters never wrap because a
  level is only entered when it holds a new node.
\<close>

section \<open>The traversal graph\<close>

definition nbr_list :: "'bm Snapshot \<Rightarrow> Direction \<Rightarrow> RelMatch \<Rightarrow> NodeID \<Rightarrow> NodeID list" where
  "nbr_list g dir m x = dir_list dir (\<lambda>out. side_nbrs g out m x)"

definition depth_lim :: "int \<Rightarrow> nat option" where
  "depth_lim maxDepth = (if maxDepth < 0 then None else Some (nat maxDepth))"

lemma depth_done_below: "d < 2 ^ 32 \<Longrightarrow> depth_done maxDepth (of_nat d) \<longleftrightarrow> \<not> below (depth_lim maxDepth) d"
  by (auto simp: depth_done_def below_def depth_lim_def unat_of_nat_less)

lemma hops_within_walk:
  "x \<in> hops_within succ S (depth_lim maxDepth) \<longleftrightarrow> (\<exists>s \<in> S. \<exists>j. (maxDepth \<ge> 0 \<longrightarrow> int j \<le> maxDepth) \<and> (s, x) \<in> hop_rel succ ^^ j)"
proof (cases "maxDepth < 0")
  case True
  then show ?thesis using hop_ball_walk [of x succ S] by (auto simp: hops_within_def depth_lim_def)
next
  case False
  have "j \<le> nat maxDepth \<longleftrightarrow> int j \<le> maxDepth" for j using False by linarith
  then show ?thesis using False hop_ball_walk [of x succ S "nat maxDepth"] by (simp add: hops_within_def depth_lim_def)
qed

definition stamped :: "('a \<times> nat) list \<Rightarrow> ('a \<times> u32) list" where
  "stamped q = map (\<lambda>(x, d). (x, of_nat d)) q"

lemma stamped_simps [simp]: "stamped [] = []" "stamped ((x, d) # q) = (x, of_nat d) # stamped q" "stamped (q @ q') = stamped q @ stamped q'" "length (stamped q) = length q" "stamped q = [] \<longleftrightarrow> q = []"
  by (simp_all add: stamped_def)

lemma stamped_map: "stamped (map (\<lambda>y. (y, Suc d)) ys) = map (\<lambda>y. (y, of_nat d + 1)) ys"
  by (simp add: stamped_def add.commute)

lemma CARD_u32: "CARD(u32) = 2 ^ 32"
  by (simp add: card_word)

lemma Set_Insert_ids:
  assumes "roaring_laws R" "Set_Insert R v x = (v', new)"
  shows "ids R v' = insert x (ids R v)" "new \<longleftrightarrow> x \<notin> ids R v"
  using nodeset_ops(7) [OF assms(1), where s = v and x = x] assms(2) by auto

section \<open>Reachability\<close>

lemma reach_visit_all:
  assumes R: "roaring_laws R"
  shows "\<exists>v' q'. snd (yield_all (reach_visit R to depth) xs (v, q, False)) = (v', q', to \<in> set xs)
    \<and> (to \<notin> set xs \<longrightarrow> ids R v' = ids R v \<union> set xs \<and> q' = q @ map (\<lambda>y. (y, depth + 1)) (fresh (ids R v) xs))"
proof (induction xs arbitrary: v q)
  case (Cons x xs)
  show ?case
  proof (cases "x = to")
    case False
    obtain v1 new where i: "Set_Insert R v x = (v1, new)" by fastforce
    note v1 = Set_Insert_ids [OF R i]
    show ?thesis using Cons [of v1 "if new then q @ [(x, depth + 1)] else q"] False by (auto simp: reach_visit_def i v1 insert_absorb)
  qed (simp add: reach_visit_def)
qed simp

lemma reach_loop_ok:
  assumes R: "roaring_laws R" and g: "snapshot_ok g" "match_for g m"
  shows "queue_inv (nbr_list g dir m) S (depth_lim maxDepth) (ids R v) X q \<Longrightarrow> to \<notin> ids R v
    \<Longrightarrow> reach_loop R g to dir m maxDepth v (stamped q) = Some (to \<in> hops_within (nbr_list g dir m) S (depth_lim maxDepth))"
proof (induction "queue_size (ids R v) q" arbitrary: v X q rule: less_induct)
  case less
  let ?succ = "nbr_list g dir m" and ?lim = "depth_lim maxDepth"
  show ?case
  proof (cases q)
    case Nil
    have "ids R v = hops_within ?succ S ?lim" using queue_inv_done(1) less.prems(1) unfolding Nil .
    then show ?thesis using Nil less.prems(2) by (subst reach_loop.simps) simp
  next
    case (Cons e q')
    obtain x d where e: "e = (x, d)" by (cases e)
    have d: "d < 2 ^ 32" using queue_inv_seen(2) [OF less.prems(1), of x d] Cons e by (simp add: CARD_u32)
    have i: "queue_inv ?succ S ?lim (ids R v) X ((x, d) # q')" using less.prems(1) Cons e by simp
    show ?thesis
    proof (cases "below ?lim d")
      case False
      have "queue_size (ids R v) q' < queue_size (ids R v) q" using Cons by (simp add: queue_size_def)
      from less.hyps [OF this queue_inv_skip [OF i False] less.prems(2)] show ?thesis
        using False d by (subst reach_loop.simps) (simp add: Cons e depth_done_below)
    next
      case True
      obtain v' q2 where s: "snd (yield_all (reach_visit R to (of_nat d)) (?succ x) (v, stamped q', False)) = (v', q2, to \<in> set (?succ x))"
        and n: "to \<notin> set (?succ x) \<Longrightarrow> ids R v' = ids R v \<union> set (?succ x) \<and> q2 = stamped (q' @ map (\<lambda>y. (y, Suc d)) (fresh (ids R v) (?succ x)))"
        using reach_visit_all [OF R, of to "of_nat d" "?succ x" v "stamped q'"] by (auto simp: stamped_map)
      have y: "neighborsYield R g x dir m (reach_visit R to (of_nat d)) (v, stamped q', False) = Some (v', q2, to \<in> set (?succ x))"
        using traversal_ok(2) [OF g, where R = R and node = x and dir = dir and s = "(v, stamped q', False)"] s by (simp add: nbr_list_def)
      have dd: "\<not> depth_done maxDepth (of_nat d)" using True d by (simp add: depth_done_below)
      note st = queue_inv_step [OF i True]
      show ?thesis
      proof (cases "to \<in> set (?succ x)")
        case True
        then have "to \<in> hops_within ?succ S ?lim" using queue_inv_seen(1) [OF st] by auto
        then show ?thesis using True y dd by (subst reach_loop.simps) (simp add: Cons e)
      next
        case False
        let ?q = "q' @ map (\<lambda>y. (y, Suc d)) (fresh (ids R v) (?succ x))"
        have "queue_size (ids R v') ?q < queue_size (ids R v) q" using n [OF False] Cons queue_size_step by simp
        from less.hyps [OF this] st less.prems(2) False n [OF False] have "reach_loop R g to dir m maxDepth v' (stamped ?q) = Some (to \<in> hops_within ?succ S ?lim)" by auto
        then show ?thesis using False y dd n [OF False] by (subst reach_loop.simps) (simp add: Cons e)
      qed
    qed
  qed
qed

lemma CanReach_ok:
  assumes R: "roaring_laws R" and g: "snapshot_ok g" "match_for g m"
  shows "CanReach R g from to dir m maxDepth = Some (to \<in> hops_within (nbr_list g dir m) {from} (depth_lim maxDepth))"
proof (cases "from = to")
  case True
  have "from \<in> hop_ball (nbr_list g dir m) {from} k" for k using hop_ball_mono [of 0 k "nbr_list g dir m" "{from}"] by auto
  then show ?thesis using True by (auto simp: CanReach_def hops_within_def split: option.split)
next
  case False
  have i: "ids R (Set_Of R [from]) = {from}" using nodeset_ops(2) [OF R, of "[from]"] by simp
  have "queue_inv (nbr_list g dir m) {from} (depth_lim maxDepth) (ids R (Set_Of R [from])) {} (map (\<lambda>x. (x, 0)) [from])"
    unfolding i by (rule queue_inv_init) simp_all
  from reach_loop_ok [OF R g this, of to] show ?thesis using False i by (simp add: CanReach_def)
qed

section \<open>Filtered search\<close>

definition ref_list :: "'bm Snapshot \<Rightarrow> Direction \<Rightarrow> RelMatch \<Rightarrow> NodeID \<Rightarrow> RelRef list" where
  "ref_list g dir m x = dir_list dir (\<lambda>out. side_refs g out m x)"

definition ref_passes :: "'bm Snapshot \<Rightarrow> 'bm NodeFilter option \<Rightarrow> 'bm RelFilter option \<Rightarrow> bool \<Rightarrow> NodeID \<Rightarrow> RelRef \<Rightarrow> bool" where
  "ref_passes g nf rf backward x rel \<longleftrightarrow> node_passes g nf (ref_Neighbor rel)
     \<and> (case rf of None \<Rightarrow> True | Some f \<Rightarrow> if backward then f (ref_Neighbor rel) x (ref_Type rel) (ref_Pos rel) g else f x (ref_Neighbor rel) (ref_Type rel) (ref_Pos rel) g)"

text \<open>The relationships a search follows out of a node.\<close>

definition followed :: "'bm Snapshot \<Rightarrow> Direction \<Rightarrow> RelMatch \<Rightarrow> 'bm NodeFilter option \<Rightarrow> 'bm RelFilter option \<Rightarrow> bool \<Rightarrow> NodeID \<Rightarrow> RelRef list" where
  "followed g dir m nf rf backward x = filter (ref_passes g nf rf backward x) (ref_list g dir m x)"

definition follow_nbrs :: "'bm Snapshot \<Rightarrow> Direction \<Rightarrow> RelMatch \<Rightarrow> 'bm NodeFilter option \<Rightarrow> 'bm RelFilter option \<Rightarrow> bool \<Rightarrow> NodeID \<Rightarrow> NodeID list" where
  "follow_nbrs g dir m nf rf backward x = map ref_Neighbor (followed g dir m nf rf backward x)"

lemma bfs_enqueue_ids:
  assumes R: "roaring_laws R" and e: "bfs_enqueue R y d nodes q = (new, nodes', q')"
  shows "ids R nodes' = insert y (ids R nodes)" "new \<longleftrightarrow> y \<notin> ids R nodes" "q' = q @ map (\<lambda>y. (y, d)) (fresh (ids R nodes) [y])"
proof -
  obtain v new' where i: "Set_Insert R nodes y = (v, new')" by fastforce
  have "nodes' = v" "new = new'" "q' = (if new' then q @ [(y, d)] else q)" using e by (auto simp: bfs_enqueue_def i)
  then show "ids R nodes' = insert y (ids R nodes)" "new \<longleftrightarrow> y \<notin> ids R nodes" "q' = q @ map (\<lambda>y. (y, d)) (fresh (ids R nodes) [y])"
    using Set_Insert_ids [OF R i] by simp_all
qed

lemma bfs_rel_one:
  assumes R: "roaring_laws R" and e: "bfs_rel R g x d nf rf backward other rel (nodes, rels, q) = (go, nodes', rels', q')"
  shows "go" "ids R nodes' = ids R nodes \<union> set (map ref_Neighbor (filter (ref_passes g nf rf backward x) [rel]))"
    "q' = q @ map (\<lambda>y. (y, d + 1)) (fresh (ids R nodes) (map ref_Neighbor (filter (ref_passes g nf rf backward x) [rel])))"
    "ids R rels' \<subseteq> ids R rels \<union> ref_Pos ` set (filter (ref_passes g nf rf backward x) [rel])"
    "other = None \<Longrightarrow> ids R rels' = ids R rels \<union> ref_Pos ` set (filter (ref_passes g nf rf backward x) [rel])"
proof -
  obtain new v q1 where q: "bfs_enqueue R (ref_Neighbor rel) (d + 1) nodes q = (new, v, q1)" by (metis prod_cases3)
  obtain r fr where r: "Set_Insert R rels (ref_Pos rel) = (r, fr)" by fastforce
  note f = bfs_enqueue_ids [OF R q] Set_Insert_ids(1) [OF R r]
  let ?p = "ref_passes g nf rf backward x rel"
  have "go \<and> (if ?p then nodes' = v \<and> q' = q1 \<and> (rels' = r \<or> rels' = rels \<and> other \<noteq> None) else nodes' = nodes \<and> q' = q \<and> rels' = rels)"
    using e by (auto simp: bfs_rel_def Let_def q r ref_passes_def split: if_splits option.splits)
  then have c: "go" "?p \<Longrightarrow> nodes' = v \<and> q' = q1 \<and> (rels' = r \<or> rels' = rels \<and> other \<noteq> None)" "\<not> ?p \<Longrightarrow> nodes' = nodes \<and> q' = q \<and> rels' = rels"
    by (auto split: if_splits)
  show "go" by (rule c(1))
  show "ids R nodes' = ids R nodes \<union> set (map ref_Neighbor (filter (ref_passes g nf rf backward x) [rel]))"
    "q' = q @ map (\<lambda>y. (y, d + 1)) (fresh (ids R nodes) (map ref_Neighbor (filter (ref_passes g nf rf backward x) [rel])))"
    "ids R rels' \<subseteq> ids R rels \<union> ref_Pos ` set (filter (ref_passes g nf rf backward x) [rel])"
    "other = None \<Longrightarrow> ids R rels' = ids R rels \<union> ref_Pos ` set (filter (ref_passes g nf rf backward x) [rel])"
    using c(2,3) f by (cases ?p; auto)+
qed

lemma bfs_rel_all:
  assumes R: "roaring_laws R"
  shows "\<exists>nodes' rels' q'. snd (yield_all (bfs_rel R g x d nf rf backward other) xs (nodes, rels, q)) = (nodes', rels', q')
    \<and> ids R nodes' = ids R nodes \<union> set (map ref_Neighbor (filter (ref_passes g nf rf backward x) xs))
    \<and> q' = q @ map (\<lambda>y. (y, d + 1)) (fresh (ids R nodes) (map ref_Neighbor (filter (ref_passes g nf rf backward x) xs)))
    \<and> ids R rels' \<subseteq> ids R rels \<union> ref_Pos ` set (filter (ref_passes g nf rf backward x) xs)
    \<and> (other = None \<longrightarrow> ids R rels' = ids R rels \<union> ref_Pos ` set (filter (ref_passes g nf rf backward x) xs))"
proof (induction xs arbitrary: nodes rels q)
  case (Cons rel xs)
  let ?f = "filter (ref_passes g nf rf backward x)"
  obtain go n1 r1 q1 where e: "bfs_rel R g x d nf rf backward other rel (nodes, rels, q) = (go, n1, r1, q1)" by (metis prod_cases4)
  note one = bfs_rel_one [OF R e]
  obtain n2 r2 q2 where i: "snd (yield_all (bfs_rel R g x d nf rf backward other) xs (n1, r1, q1)) = (n2, r2, q2)"
      "ids R n2 = ids R n1 \<union> set (map ref_Neighbor (?f xs))" "q2 = q1 @ map (\<lambda>y. (y, d + 1)) (fresh (ids R n1) (map ref_Neighbor (?f xs)))"
      "ids R r2 \<subseteq> ids R r1 \<union> ref_Pos ` set (?f xs)" "other = None \<longrightarrow> ids R r2 = ids R r1 \<union> ref_Pos ` set (?f xs)"
    using Cons [of n1 r1 q1] by blast
  have split: "?f (rel # xs) = ?f [rel] @ ?f xs" by simp
  have "snd (yield_all (bfs_rel R g x d nf rf backward other) (rel # xs) (nodes, rels, q)) = (n2, r2, q2)" using e one(1) i(1) by simp
  moreover have "ids R n2 = ids R nodes \<union> set (map ref_Neighbor (?f (rel # xs)))" unfolding split using i(2) one(2) by (simp add: Un_assoc)
  moreover have "q2 = q @ map (\<lambda>y. (y, d + 1)) (fresh (ids R nodes) (map ref_Neighbor (?f (rel # xs))))"
    unfolding split map_append fresh_append using i(3) one(2,3) by simp
  moreover have "ids R r2 \<subseteq> ids R rels \<union> ref_Pos ` set (?f (rel # xs))" unfolding split using i(4) one(4) by auto
  moreover have "other = None \<longrightarrow> ids R r2 = ids R rels \<union> ref_Pos ` set (?f (rel # xs))" unfolding split using i(5) one(5) by auto
  ultimately show ?case by blast
qed simp

lemma bfsStep_ok:
  assumes R: "roaring_laws R" and g: "snapshot_ok g" "match_for g m"
  shows "\<exists>nodes' rels'. bfsStep R g x (of_nat d) dir m nf rf backward other (nodes, rels, stamped q)
      = Some (nodes', rels', stamped (q @ map (\<lambda>y. (y, Suc d)) (fresh (ids R nodes) (follow_nbrs g dir m nf rf backward x))))
    \<and> ids R nodes' = ids R nodes \<union> set (follow_nbrs g dir m nf rf backward x)
    \<and> ids R rels' \<subseteq> ids R rels \<union> ref_Pos ` set (followed g dir m nf rf backward x)
    \<and> (other = None \<longrightarrow> ids R rels' = ids R rels \<union> ref_Pos ` set (followed g dir m nf rf backward x))"
proof -
  have y: "bfsStep R g x (of_nat d) dir m nf rf backward other (nodes, rels, stamped q)
    = Some (snd (yield_all (bfs_rel R g x (of_nat d) nf rf backward other) (ref_list g dir m x) (nodes, rels, stamped q)))"
    unfolding bfsStep_def ref_list_def by (rule traversal_ok(3) [OF g])
  show ?thesis using bfs_rel_all [OF R, of g x "of_nat d" nf rf backward other "ref_list g dir m x" nodes rels "stamped q"]
    by (auto simp: y followed_def follow_nbrs_def stamped_map)
qed

lemma bfs_loop_ok:
  assumes R: "roaring_laws R" and g: "snapshot_ok g" "match_for g m"
  shows "queue_inv (follow_nbrs g dir m nf rf False) S (depth_lim maxDepth) (ids R nodes) X q
    \<Longrightarrow> ids R rels = (\<Union>x \<in> X. ref_Pos ` set (followed g dir m nf rf False x))
    \<Longrightarrow> \<exists>N E. bfs_loop R g dir m nf rf maxDepth nodes rels (stamped q) = Some (N, E)
      \<and> ids R N = hops_within (follow_nbrs g dir m nf rf False) S (depth_lim maxDepth)
      \<and> ids R E = (\<Union>x \<in> hops_inner (follow_nbrs g dir m nf rf False) S (depth_lim maxDepth). ref_Pos ` set (followed g dir m nf rf False x))"
proof (induction "queue_size (ids R nodes) q" arbitrary: nodes rels X q rule: less_induct)
  case less
  let ?succ = "follow_nbrs g dir m nf rf False" and ?lim = "depth_lim maxDepth"
  show ?case
  proof (cases q)
    case Nil
    have "ids R nodes = hops_within ?succ S ?lim" "X = hops_inner ?succ S ?lim" using queue_inv_done [of ?succ S ?lim "ids R nodes" X] less.prems(1) unfolding Nil by simp_all
    then show ?thesis using Nil less.prems(2) by (subst bfs_loop.simps) simp
  next
    case (Cons e q')
    obtain x d where e: "e = (x, d)" by (cases e)
    have d: "d < 2 ^ 32" using queue_inv_seen(2) [OF less.prems(1), of x d] Cons e by (simp add: CARD_u32)
    have i: "queue_inv ?succ S ?lim (ids R nodes) X ((x, d) # q')" using less.prems(1) Cons e by simp
    show ?thesis
    proof (cases "below ?lim d")
      case False
      have "queue_size (ids R nodes) q' < queue_size (ids R nodes) q" using Cons by (simp add: queue_size_def)
      from less.hyps [OF this queue_inv_skip [OF i False] less.prems(2)] show ?thesis
        using False d by (subst bfs_loop.simps) (simp add: Cons e depth_done_below)
    next
      case True
      let ?q = "q' @ map (\<lambda>y. (y, Suc d)) (fresh (ids R nodes) (?succ x))"
      obtain n1 r1 where s: "bfsStep R g x (of_nat d) dir m nf rf False None (nodes, rels, stamped q') = Some (n1, r1, stamped ?q)"
          "ids R n1 = ids R nodes \<union> set (?succ x)" "ids R r1 = ids R rels \<union> ref_Pos ` set (followed g dir m nf rf False x)"
        using bfsStep_ok [OF R g, of x d dir nf rf False None nodes rels q'] by blast
      have sz: "queue_size (ids R n1) ?q < queue_size (ids R nodes) q" using s(2) Cons queue_size_step by simp
      have r: "ids R r1 = (\<Union>x \<in> insert x X. ref_Pos ` set (followed g dir m nf rf False x))" using s(3) less.prems(2) by auto
      have qi: "queue_inv ?succ S ?lim (ids R n1) (insert x X) ?q" using queue_inv_step [OF i True] s(2) by simp
      have dd: "\<not> depth_done maxDepth (of_nat d)" using True d by (simp add: depth_done_below)
      from less.hyps [OF sz qi r] show ?thesis using dd s(1) by (subst bfs_loop.simps) (simp add: Cons e)
    qed
  qed
qed

definition seeds :: "'bm roaring \<Rightarrow> 'bm Snapshot \<Rightarrow> 'bm NodeFilter option \<Rightarrow> 'bm Set \<Rightarrow> NodeID set" where
  "seeds R g nf start = {x \<in> ids R start. node_passes g nf x}"

lemma bfs_seed_all:
  assumes R: "roaring_laws R"
  shows "\<exists>nodes'. snd (yield_all (bfs_seed R g nf) xs (nodes, q)) = (nodes', q @ map (\<lambda>y. (y, 0)) (fresh (ids R nodes) (filter (node_passes g nf) xs)))
    \<and> ids R nodes' = ids R nodes \<union> set (filter (node_passes g nf) xs)"
proof (induction xs arbitrary: nodes q)
  case (Cons x xs)
  show ?case
  proof (cases "node_passes g nf x")
    case True
    obtain new n1 q1 where e: "bfs_enqueue R x 0 nodes q = (new, n1, q1)" by (metis prod_cases3)
    note f = bfs_enqueue_ids [OF R e]
    show ?thesis using Cons [of n1 q1] True f(1,3) by (auto simp: bfs_seed_def e insert_absorb)
  qed (use Cons [of nodes q] in \<open>simp add: bfs_seed_def\<close>)
qed simp

lemma bidi_seed_all:
  assumes R: "roaring_laws R"
  shows "\<exists>nodes'. snd (yield_all (bidi_seed R g nf) xs (nodes, q)) = (nodes', q @ map (\<lambda>y. (y, 0)) (filter (node_passes g nf) xs))
    \<and> ids R nodes' = ids R nodes \<union> set (filter (node_passes g nf) xs)"
proof (induction xs arbitrary: nodes q)
  case (Cons x xs)
  obtain v new where i: "Set_Insert R nodes x = (v, new)" by fastforce
  show ?case using Cons [of v "q @ [(x, 0)]"] Cons [of nodes q] Set_Insert_ids(1) [OF R i] by (cases "node_passes g nf x") (auto simp: bidi_seed_def i)
qed simp

lemma stamped_zero: "stamped (map (\<lambda>x. (x, 0)) xs) = map (\<lambda>x. (x, 0)) xs"
  by (simp add: stamped_def)

lemma ids_New: "roaring_laws R \<Longrightarrow> ids R (Set_New R) = {}"
  by (rule nodeset_ops(1))

lemma seeds_sorted: "set (filter (node_passes g nf) (sorted_list_of_set (ids R start))) = seeds R g nf start" "distinct (filter (node_passes g nf) (sorted_list_of_set (ids R start)))"
  by (auto simp: seeds_def)

lemma fresh_id: "distinct xs \<Longrightarrow> set xs \<inter> V = {} \<Longrightarrow> fresh V xs = xs"
  by (induction V xs rule: fresh.induct) auto

lemma BFS_ok:
  assumes R: "roaring_laws R" and g: "snapshot_ok g" "match_for g m"
  shows "\<exists>N E. BFS R g start dir m nf rf maxDepth = Some (N, E)
    \<and> ids R N = hops_within (follow_nbrs g dir m nf rf False) (seeds R g nf start) (depth_lim maxDepth)
    \<and> ids R E = (\<Union>x \<in> hops_inner (follow_nbrs g dir m nf rf False) (seeds R g nf start) (depth_lim maxDepth). ref_Pos ` set (followed g dir m nf rf False x))"
proof -
  let ?xs = "filter (node_passes g nf) (sorted_list_of_set (ids R start))" and ?S = "seeds R g nf start"
  obtain n1 where n: "iterYield R start (bfs_seed R g nf) (Set_New R, []) = Some (n1, map (\<lambda>y. (y, 0)) ?xs)" "ids R n1 = ?S"
    using bfs_seed_all [OF R, of g nf "sorted_list_of_set (ids R start)" "Set_New R" "[]"] nodeset_ops(12) [OF R, where s = start and yield = "bfs_seed R g nf" and st = "(Set_New R, [])"]
      seeds_sorted [of g nf R start] by (auto simp: ids_New [OF R] fresh_id)
  have q: "queue_inv (follow_nbrs g dir m nf rf False) ?S (depth_lim maxDepth) (ids R n1) {} (map (\<lambda>x. (x, 0)) ?xs)"
    unfolding n(2) by (rule queue_inv_init) (simp_all add: seeds_def)
  show ?thesis using bfs_loop_ok [OF R g q, of "Set_New R"] n(1) by (simp add: BFS_def ids_New [OF R] stamped_zero)
qed

section \<open>Bidirectional search\<close>

lemma bidi_expand_ok:
  assumes R: "roaring_laws R" and g: "snapshot_ok g" "match_for g m"
  shows "queue_inv (follow_nbrs g dir m nf rf bw) S (depth_lim maxDepth) (ids R nodes) X q \<Longrightarrow> k \<le> length q
    \<Longrightarrow> ids R rels \<subseteq> (\<Union>x. ref_Pos ` set (followed g dir m nf rf bw x))
    \<Longrightarrow> \<exists>nodes' rels' q' X'. bidi_expand k R g m nf rf maxDepth dir bw other (nodes, rels, stamped q) = Some (nodes', rels', stamped q')
      \<and> queue_inv (follow_nbrs g dir m nf rf bw) S (depth_lim maxDepth) (ids R nodes') X' q' \<and> queue_size (ids R nodes') q' + k \<le> queue_size (ids R nodes) q
      \<and> ids R rels' \<subseteq> (\<Union>x. ref_Pos ` set (followed g dir m nf rf bw x))"
proof (induction k arbitrary: nodes rels X q)
  case (Suc k)
  let ?succ = "follow_nbrs g dir m nf rf bw" and ?lim = "depth_lim maxDepth"
  obtain x d q' where q: "q = (x, d) # q'" using Suc.prems(2) by (cases q) auto
  have d: "d < 2 ^ 32" using queue_inv_seen(2) [OF Suc.prems(1), of x d] q by (simp add: CARD_u32)
  note i = Suc.prems(1) [unfolded q]
  have k: "k \<le> length q'" using Suc.prems(2) q by simp
  show ?case
  proof (cases "below ?lim d")
    case False
    from Suc.IH [OF queue_inv_skip [OF i False] k Suc.prems(3)] obtain nodes' rels' q2 X' where
      r: "bidi_expand k R g m nf rf maxDepth dir bw other (nodes, rels, stamped q') = Some (nodes', rels', stamped q2)" "queue_inv ?succ S ?lim (ids R nodes') X' q2"
        "queue_size (ids R nodes') q2 + k \<le> queue_size (ids R nodes) q'" "ids R rels' \<subseteq> (\<Union>x. ref_Pos ` set (followed g dir m nf rf bw x))" by blast
    have "queue_size (ids R nodes') q2 + Suc k \<le> queue_size (ids R nodes) q" using r(3) q by (simp add: queue_size_def)
    then show ?thesis using r False d by (intro exI [of _ nodes'] exI [of _ rels'] exI [of _ q2] exI [of _ X']) (simp add: q depth_done_below)
  next
    case True
    let ?q = "q' @ map (\<lambda>y. (y, Suc d)) (fresh (ids R nodes) (?succ x))"
    obtain n1 r1 where s: "bfsStep R g x (of_nat d) dir m nf rf bw (Some other) (nodes, rels, stamped q') = Some (n1, r1, stamped ?q)"
        "ids R n1 = ids R nodes \<union> set (?succ x)" "ids R r1 \<subseteq> ids R rels \<union> ref_Pos ` set (followed g dir m nf rf bw x)"
      using bfsStep_ok [OF R g, of x d dir nf rf bw "Some other" nodes rels q'] by blast
    have qi: "queue_inv ?succ S ?lim (ids R n1) (insert x X) ?q" using queue_inv_step [OF i True] s(2) by simp
    have r1: "ids R r1 \<subseteq> (\<Union>x. ref_Pos ` set (followed g dir m nf rf bw x))" using s(3) Suc.prems(3) by blast
    have "k \<le> length ?q" using k by simp
    from Suc.IH [OF qi this r1] obtain nodes' rels' q2 X' where
      r: "bidi_expand k R g m nf rf maxDepth dir bw other (n1, r1, stamped ?q) = Some (nodes', rels', stamped q2)" "queue_inv ?succ S ?lim (ids R nodes') X' q2"
        "queue_size (ids R nodes') q2 + k \<le> queue_size (ids R n1) ?q" "ids R rels' \<subseteq> (\<Union>x. ref_Pos ` set (followed g dir m nf rf bw x))" by blast
    have "queue_size (ids R n1) ?q < queue_size (ids R nodes) q" using s(2) q queue_size_step by simp
    then have "queue_size (ids R nodes') q2 + Suc k \<le> queue_size (ids R nodes) q" using r(3) by simp
    then show ?thesis using r True d s(1) by (intro exI [of _ nodes'] exI [of _ rels'] exI [of _ q2] exI [of _ X']) (simp add: q depth_done_below)
  qed
qed auto

lemma bidi_loop_ok:
  assumes R: "roaring_laws R" and g: "snapshot_ok g" "match_for g m"
  shows "queue_inv (follow_nbrs g dir m nf rf False) S (depth_lim maxDepth) (ids R fn) X fq \<Longrightarrow> queue_inv (follow_nbrs g (Reverse dir) m nf rf True) T (depth_lim maxDepth) (ids R bn) Y bq
    \<Longrightarrow> ids R fr \<subseteq> (\<Union>x. ref_Pos ` set (followed g dir m nf rf False x)) \<Longrightarrow> ids R br \<subseteq> (\<Union>x. ref_Pos ` set (followed g (Reverse dir) m nf rf True x))
    \<Longrightarrow> \<exists>fn' fr' fq' bn' br' bq'. bidi_loop R g dir m nf rf maxDepth (fn, fr, stamped fq) (bn, br, stamped bq) = Some ((fn', fr', fq'), (bn', br', bq'))
      \<and> ids R fn' = hops_within (follow_nbrs g dir m nf rf False) S (depth_lim maxDepth) \<and> ids R bn' = hops_within (follow_nbrs g (Reverse dir) m nf rf True) T (depth_lim maxDepth)
      \<and> ids R fr' \<subseteq> (\<Union>x. ref_Pos ` set (followed g dir m nf rf False x)) \<and> ids R br' \<subseteq> (\<Union>x. ref_Pos ` set (followed g (Reverse dir) m nf rf True x))"
proof (induction "queue_size (ids R fn) fq + queue_size (ids R bn) bq" arbitrary: fn fr fq X bn br bq Y rule: less_induct)
  case less
  show ?case
  proof (cases "fq = [] \<and> bq = []")
    case True
    then show ?thesis using queue_inv_done(1) less.prems by (subst bidi_loop.simps) fastforce
  next
    case False
    obtain f1 fr1 fq1 X1 where f: "bidi_expand (length fq) R g m nf rf maxDepth dir False bn (fn, fr, stamped fq) = Some (f1, fr1, stamped fq1)"
        "queue_inv (follow_nbrs g dir m nf rf False) S (depth_lim maxDepth) (ids R f1) X1 fq1" "queue_size (ids R f1) fq1 + length fq \<le> queue_size (ids R fn) fq"
        "ids R fr1 \<subseteq> (\<Union>x. ref_Pos ` set (followed g dir m nf rf False x))"
      using bidi_expand_ok [OF R g less.prems(1) order_refl less.prems(3), of bn] by blast
    obtain b1 br1 bq1 Y1 where b: "bidi_expand (length bq) R g m nf rf maxDepth (Reverse dir) True f1 (bn, br, stamped bq) = Some (b1, br1, stamped bq1)"
        "queue_inv (follow_nbrs g (Reverse dir) m nf rf True) T (depth_lim maxDepth) (ids R b1) Y1 bq1" "queue_size (ids R b1) bq1 + length bq \<le> queue_size (ids R bn) bq"
        "ids R br1 \<subseteq> (\<Union>x. ref_Pos ` set (followed g (Reverse dir) m nf rf True x))"
      using bidi_expand_ok [OF R g less.prems(2) order_refl less.prems(4), of f1] by blast
    have "length fq + length bq > 0" using False by auto
    then have "queue_size (ids R f1) fq1 + queue_size (ids R b1) bq1 < queue_size (ids R fn) fq + queue_size (ids R bn) bq" using f(3) b(3) by linarith
    note ih = less.hyps [OF this f(2) b(2) f(4) b(4)]
    have "bidi_loop R g dir m nf rf maxDepth (fn, fr, stamped fq) (bn, br, stamped bq) = bidi_loop R g dir m nf rf maxDepth (f1, fr1, stamped fq1) (b1, br1, stamped bq1)"
      using False f(1) b(1) by (subst bidi_loop.simps) auto
    then show ?thesis using ih by simp
  qed
qed

lemma bidi_seeded:
  assumes R: "roaring_laws R"
  shows "\<exists>n. iterYield R start (bidi_seed R g nf) (Set_New R, []) = Some (n, stamped (map (\<lambda>y. (y, 0)) (filter (node_passes g nf) (sorted_list_of_set (ids R start)))))
    \<and> ids R n = seeds R g nf start \<and> queue_inv succ (seeds R g nf start) lim (ids R n) {} (map (\<lambda>y. (y, 0)) (filter (node_passes g nf) (sorted_list_of_set (ids R start))))"
proof -
  let ?xs = "filter (node_passes g nf) (sorted_list_of_set (ids R start))"
  obtain n where n: "iterYield R start (bidi_seed R g nf) (Set_New R, []) = Some (n, map (\<lambda>y. (y, 0)) ?xs)" "ids R n = seeds R g nf start"
    using bidi_seed_all [OF R, of g nf "sorted_list_of_set (ids R start)" "Set_New R" "[]"] nodeset_ops(12) [OF R, where s = start and yield = "bidi_seed R g nf" and st = "(Set_New R, [])"]
      seeds_sorted(1) [of g nf R start] by (auto simp: ids_New [OF R])
  have "queue_inv succ (seeds R g nf start) lim (ids R n) {} (map (\<lambda>y. (y, 0)) ?xs)" unfolding n(2) by (rule queue_inv_init) (simp_all add: seeds_def)
  then show ?thesis using n by (auto simp: stamped_zero)
qed

lemma BidirectionalBFS_ok:
  fixes R :: "'bm roaring" and source target :: "'bm Set" and nf rf dir maxDepth
  assumes R: "roaring_laws R" and g: "snapshot_ok g" "match_for g m"
  defines "S \<equiv> seeds R g nf source" and "T \<equiv> seeds R g nf target"
  defines "F \<equiv> hops_within (follow_nbrs g dir m nf rf False) S (depth_lim maxDepth)" and "B \<equiv> hops_within (follow_nbrs g (Reverse dir) m nf rf True) T (depth_lim maxDepth)"
  shows "\<exists>N E. BidirectionalBFS R g source target dir m nf rf maxDepth = Some (N, E)
    \<and> ids R N = (if S \<inter> T \<noteq> {} then S \<inter> T else F \<inter> B) \<and> (S \<inter> T \<noteq> {} \<or> F \<inter> B = {} \<longrightarrow> ids R E = {})
    \<and> ids R E \<subseteq> (\<Union>x. ref_Pos ` set (followed g dir m nf rf False x)) \<union> (\<Union>x. ref_Pos ` set (followed g (Reverse dir) m nf rf True x))"
proof -
  obtain fn fq where f: "iterYield R source (bidi_seed R g nf) (Set_New R, []) = Some (fn, stamped fq)" "ids R fn = S"
      "queue_inv (follow_nbrs g dir m nf rf False) S (depth_lim maxDepth) (ids R fn) {} fq"
    using bidi_seeded [OF R, where start = source and g = g and nf = nf and succ = "follow_nbrs g dir m nf rf False" and lim = "depth_lim maxDepth"] unfolding S_def by blast
  obtain bn bq where b: "iterYield R target (bidi_seed R g nf) (Set_New R, []) = Some (bn, stamped bq)" "ids R bn = T"
      "queue_inv (follow_nbrs g (Reverse dir) m nf rf True) T (depth_lim maxDepth) (ids R bn) {} bq"
    using bidi_seeded [OF R, where start = target and g = g and nf = nf and succ = "follow_nbrs g (Reverse dir) m nf rf True" and lim = "depth_lim maxDepth"] unfolding T_def by blast
  note op = nodeset_ops [OF R]
  show ?thesis
  proof (cases "S \<inter> T = {}")
    case False
    then show ?thesis using f(1,2) b(1,2) by (auto simp: BidirectionalBFS_def op)
  next
    case True
    have e: "ids R (Set_New R) \<subseteq> A" for A by (simp add: op)
    obtain fn' fr' fq' bn' br' bq' where l: "bidi_loop R g dir m nf rf maxDepth (fn, Set_New R, stamped fq) (bn, Set_New R, stamped bq) = Some ((fn', fr', fq'), (bn', br', bq'))"
      "ids R fn' = F" "ids R bn' = B" "ids R fr' \<subseteq> (\<Union>x. ref_Pos ` set (followed g dir m nf rf False x))" "ids R br' \<subseteq> (\<Union>x. ref_Pos ` set (followed g (Reverse dir) m nf rf True x))"
      using bidi_loop_ok [OF R g f(3) b(3) e e] unfolding F_def B_def by blast
    show ?thesis
    proof (cases "F \<inter> B = {}")
      case no: True
      then show ?thesis using True f(1,2) b(1,2) l(1-3) by (simp add: BidirectionalBFS_def op)
    next
      case yes: False
      then have "BidirectionalBFS R g source target dir m nf rf maxDepth = Some (Set_And R fn' bn', Set_Or R fr' br')"
        using True f(1,2) b(1,2) l(1-3) by (simp add: BidirectionalBFS_def op)
      then show ?thesis using True yes l(2-5) by (auto simp: op)
    qed
  qed
qed

section \<open>Hop distances\<close>

definition hop_dist :: "('a \<Rightarrow> 'a list) \<Rightarrow> 'a set \<Rightarrow> 'a \<Rightarrow> nat" where
  "hop_dist succ S x = (LEAST k. x \<in> hop_ball succ S k)"

lemma hop_dist_new: "x \<in> hop_ball succ S (Suc d) \<Longrightarrow> x \<notin> hop_ball succ S d \<Longrightarrow> hop_dist succ S x = Suc d"
  unfolding hop_dist_def using hop_ball_mono [of _ d succ S]
  by (intro Least_equality) (auto simp: not_less_eq_eq [symmetric] simp del: hop_ball.simps)

lemma hop_dist_zero: "x \<in> S \<Longrightarrow> hop_dist succ S x = 0"
  unfolding hop_dist_def by (rule Least_equality) simp_all

lemma hop_dist_ball: "x \<in> hop_ball succ S j \<Longrightarrow> x \<in> hop_ball succ S k \<longleftrightarrow> hop_dist succ S x \<le> k"
  unfolding hop_dist_def by (metis (lifting) LeastI Least_le hop_ball_mono subsetD)

text \<open>The scratch: stamps never exceed the current generation, so a fresh generation has no marks.\<close>

definition scratch_ok :: "searchScratch \<Rightarrow> bool" where
  "scratch_ok s \<longleftrightarrow> length (sc_dist s) = length (sc_gen s) \<and> (\<forall>i < length (sc_gen s). sc_gen s ! i \<le> sc_cur s)"

definition marks :: "nat \<Rightarrow> searchScratch \<Rightarrow> NodeID set \<Rightarrow> bool" where
  "marks n s V \<longleftrightarrow> scratch_ok s \<and> n \<le> length (sc_gen s) \<and> (\<forall>x. unat x < n \<longrightarrow> (sc_gen s ! unat x = sc_cur s \<longleftrightarrow> x \<in> V)) \<and> (\<forall>x \<in> V. unat x < n)"

lemma takeScratch_ok:
  assumes "scratch_ok s"
  shows "marks n (takeScratch n s) {}"
proof -
  define s1 where "s1 = (if length (sc_gen s) < n then \<lparr>sc_gen = replicate n 0, sc_dist = replicate n 0, sc_cur = 0\<rparr> else s)"
  have s1: "scratch_ok s1" "n \<le> length (sc_gen s1)" using assms by (auto simp: s1_def scratch_ok_def)
  show ?thesis
  proof (cases "sc_cur s1 + 1 = 0")
    case True
    then have "takeScratch n s = s1\<lparr>sc_gen := replicate (length (sc_gen s1)) 0, sc_cur := 1\<rparr>" by (simp add: takeScratch_def Let_def flip: s1_def)
    then show ?thesis using s1 by (simp add: marks_def scratch_ok_def)
  next
    case False
    then have t: "takeScratch n s = s1\<lparr>sc_cur := sc_cur s1 + 1\<rparr>" by (simp add: takeScratch_def Let_def flip: s1_def)
    have "sc_gen s1 ! i < sc_cur s1 + 1" if "i < length (sc_gen s1)" for i
      using s1(1) that unatSuc [of "sc_cur s1"] False by (auto simp: scratch_ok_def word_less_nat_alt word_le_nat_alt less_Suc_eq_le add.commute)
    note lt = this
    have "sc_gen s1 ! i \<le> sc_cur s1 + 1" "sc_gen s1 ! i \<noteq> sc_cur s1 + 1" if "i < length (sc_gen s1)" for i using lt [OF that] by (simp_all add: less_le)
    then show ?thesis using s1 by (simp add: t marks_def scratch_ok_def)
  qed
qed

lemma marks_put:
  assumes "marks n s V" "unat x < n"
  shows "marks n (s\<lparr>sc_gen := (sc_gen s)[unat x := sc_cur s]\<rparr>) (insert x V)" "marks n (s\<lparr>sc_gen := (sc_gen s)[unat x := sc_cur s], sc_dist := (sc_dist s)[unat x := d]\<rparr>) (insert x V)"
  using assms by (auto simp: marks_def scratch_ok_def nth_list_update word_unat_eq_iff)

lemma dist_visit_all:
  assumes "marks n s V" "\<forall>x \<in> set xs. unat x < n"
  shows "\<exists>s'. snd (yield_all (dist_visit depth) xs (Some (s, next, touched))) = Some (s', next @ fresh V xs, touched @ fresh V xs)
    \<and> marks n s' (V \<union> set xs) \<and> (\<forall>x. unat x < n \<longrightarrow> sc_dist s' ! unat x = (if x \<in> set xs - V then depth else sc_dist s ! unat x))"
  using assms
proof (induction xs arbitrary: s V "next" touched)
  case (Cons x xs)
  have x: "unat x < length (sc_gen s)" "unat x < length (sc_dist s)" "unat x < n" using Cons.prems by (auto simp: marks_def scratch_ok_def)
  show ?case
  proof (cases "x \<in> V")
    case True
    then have "sc_gen s ! unat x = sc_cur s" using Cons.prems(1) x(3) by (simp add: marks_def)
    then have "dist_visit depth x (Some (s, next, touched)) = (True, Some (s, next, touched))" using x by (simp add: dist_visit_def)
    moreover have "V \<union> set (x # xs) = V \<union> set xs" using True by auto
    ultimately show ?thesis using Cons.IH [OF Cons.prems(1), of "next" touched] Cons.prems(2) True by auto
  next
    case False
    let ?s = "s\<lparr>sc_gen := (sc_gen s)[unat x := sc_cur s], sc_dist := (sc_dist s)[unat x := depth]\<rparr>"
    have "sc_gen s ! unat x \<noteq> sc_cur s" using False Cons.prems(1) x(3) by (simp add: marks_def)
    then have v: "dist_visit depth x (Some (s, next, touched)) = (True, Some (?s, next @ [x], touched @ [x]))" using x by (simp add: dist_visit_def)
    have pr: "\<forall>x \<in> set xs. unat x < n" using Cons.prems(2) by simp
    obtain s' where s': "snd (yield_all (dist_visit depth) xs (Some (?s, next @ [x], touched @ [x]))) = Some (s', (next @ [x]) @ fresh (insert x V) xs, (touched @ [x]) @ fresh (insert x V) xs)"
        "marks n s' (insert x V \<union> set xs)" "\<forall>y. unat y < n \<longrightarrow> sc_dist s' ! unat y = (if y \<in> set xs - insert x V then depth else sc_dist ?s ! unat y)"
      using Cons.IH [OF marks_put(2) [OF Cons.prems(1) x(3), of depth] pr, of "next @ [x]" "touched @ [x]"] by blast
    have "sc_dist s' ! unat y = (if y \<in> set (x # xs) - V then depth else sc_dist s ! unat y)" if "unat y < n" for y
    proof (cases "y = x")
      case True
      then show ?thesis using s'(3) [rule_format, OF that] x(2) False by simp
    next
      case neq: False
      then have "unat x \<noteq> unat y" by (simp add: word_unat_eq_iff)
      then show ?thesis using s'(3) [rule_format, OF that] neq by auto
    qed
    then show ?thesis using s'(1,2) v False by (intro exI [of _ s']) (auto simp: insert_commute)
  qed
qed simp

definition closed_below :: "nat \<Rightarrow> ('a \<Rightarrow> NodeID list) \<Rightarrow> bool" where
  "closed_below n succ \<longleftrightarrow> (\<forall>x. \<forall>y \<in> set (succ x). unat y < n)"

lemma dist_level_ok:
  assumes g: "snapshot_ok g" "match_for g m" and c: "closed_below n (nbr_list g dir m)" and b: "below lim d"
  shows "level_inv (nbr_list g dir m) S lim d F ys V X \<Longrightarrow> marks n s V
    \<Longrightarrow> \<exists>s' zs X'. dist_level R g dir m depth F (s, ys, touched) = Some (s', ys @ zs, touched @ zs)
      \<and> level_inv (nbr_list g dir m) S lim d [] (ys @ zs) (V \<union> set zs) X' \<and> marks n s' (V \<union> set zs) \<and> set zs \<inter> V = {} \<and> distinct zs
      \<and> (\<forall>x. unat x < n \<longrightarrow> sc_dist s' ! unat x = (if x \<in> set zs then depth else sc_dist s ! unat x))"
proof (induction F arbitrary: ys V X s touched)
  case Nil
  then show ?case by (intro exI [of _ s] exI [of _ "[]"] exI [of _ X]) (simp add: dist_level_def)
next
  case (Cons x F)
  let ?succ = "nbr_list g dir m"
  let ?f = "fresh V (?succ x)"
  have "\<forall>y \<in> set (?succ x). unat y < n" using c by (simp add: closed_below_def)
  then obtain s1 where s1: "snd (yield_all (dist_visit depth) (?succ x) (Some (s, ys, touched))) = Some (s1, ys @ ?f, touched @ ?f)"
      "marks n s1 (V \<union> set (?succ x))" "\<forall>y. unat y < n \<longrightarrow> sc_dist s1 ! unat y = (if y \<in> set (?succ x) - V then depth else sc_dist s ! unat y)"
    using dist_visit_all [OF Cons.prems(2)] by blast
  have ny: "neighborsYield R g x dir m (dist_visit depth) (Some (s, ys, touched)) = Some (Some (s1, ys @ ?f, touched @ ?f))"
    using traversal_ok(2) [OF g, where R = R and node = x and dir = dir and yield = "dist_visit depth" and s = "Some (s, ys, touched)"] s1(1) by (simp add: nbr_list_def)
  obtain s' zs X' where r: "dist_level R g dir m depth F (s1, ys @ ?f, touched @ ?f) = Some (s', (ys @ ?f) @ zs, (touched @ ?f) @ zs)"
      "level_inv ?succ S lim d [] ((ys @ ?f) @ zs) ((V \<union> set (?succ x)) \<union> set zs) X'" "marks n s' ((V \<union> set (?succ x)) \<union> set zs)" "set zs \<inter> (V \<union> set (?succ x)) = {}" "distinct zs"
      "\<forall>x. unat x < n \<longrightarrow> sc_dist s' ! unat x = (if x \<in> set zs then depth else sc_dist s1 ! unat x)"
    using Cons.IH [OF level_inv_step [OF Cons.prems(1) b] s1(2)] by blast
  have V: "(V \<union> set (?succ x)) \<union> set zs = V \<union> set (?f @ zs)" by auto
  have "dist_level R g dir m depth (x # F) (s, ys, touched) = Some (s', ys @ (?f @ zs), touched @ (?f @ zs))"
    using r(1) ny by (simp add: dist_level_def)
  moreover have "\<forall>y. unat y < n \<longrightarrow> sc_dist s' ! unat y = (if y \<in> set (?f @ zs) then depth else sc_dist s ! unat y)"
    using s1(3) r(6) by auto
  moreover have "set (?f @ zs) \<inter> V = {}" "distinct (?f @ zs)" using r(4,5) by auto
  ultimately show ?case using r(2,3) unfolding V by (intro exI [of _ s'] exI [of _ "?f @ zs"] exI [of _ X']) simp
qed

definition dists :: "(NodeID \<Rightarrow> NodeID list) \<Rightarrow> NodeID set \<Rightarrow> NodeID set \<Rightarrow> searchScratch \<Rightarrow> bool" where
  "dists succ S V s \<longleftrightarrow> (\<forall>x \<in> V. unat (sc_dist s ! unat x) = hop_dist succ S x)"

lemma level_inv_new:
  assumes "level_inv succ S lim d [] ys V X" "x \<in> set ys"
  shows "hop_dist succ S x = Suc d"
  using assms by (intro hop_dist_new) (auto simp: level_inv_def)

lemma level_bound:
  fixes succ :: "NodeID \<Rightarrow> NodeID list"
  assumes "level_inv succ S lim d xs ys V X" "xs \<noteq> []"
  shows "d < 2 ^ 32"
proof -
  have "d < card (hop_ball succ S d)" using assms by (simp add: level_inv_def)
  also have "\<dots> \<le> CARD(u32)" by (rule card_mono) simp_all
  finally show ?thesis by (simp add: CARD_u32)
qed

lemma level_done:
  fixes succ :: "'a::finite \<Rightarrow> 'a list"
  assumes "level_inv succ S lim d [] [] V X \<or> (\<exists>F. level_inv succ S lim d F [] V X \<and> \<not> below lim d)"
  shows "V = hops_within succ S lim"
  using assms
proof
  assume "level_inv succ S lim d [] [] V X"
  then have "queue_inv succ S lim V X []" unfolding queue_inv_def by (intro exI [of _ d] exI [of _ "[]"]) simp
  then show ?thesis by (rule queue_inv_done(1))
next
  assume "\<exists>F. level_inv succ S lim d F [] V X \<and> \<not> below lim d"
  then show ?thesis by (cases lim) (auto simp: level_inv_def below_def hops_within_def)
qed

lemma dist_loop_ok:
  assumes g: "snapshot_ok g" "match_for g m" and c: "closed_below n (nbr_list g dir m)"
  shows "level_inv (nbr_list g dir m) S (depth_lim maxDepth) d F [] V X \<Longrightarrow> marks n s V \<Longrightarrow> dists (nbr_list g dir m) S V s \<Longrightarrow> set touched = V
    \<Longrightarrow> \<exists>s' touched'. dist_loop R g dir m maxDepth (of_nat d) s touched F = Some (s', touched')
      \<and> set touched' = hops_within (nbr_list g dir m) S (depth_lim maxDepth) \<and> marks n s' (set touched') \<and> dists (nbr_list g dir m) S (set touched') s'"
proof (induction "queue_size V F" arbitrary: V F X s touched d rule: less_induct)
  case less
  let ?succ = "nbr_list g dir m" and ?lim = "depth_lim maxDepth"
  show ?case
  proof (cases "F = [] \<or> \<not> below ?lim d")
    case True
    have V: "V = hops_within ?succ S ?lim" using level_done [of ?succ S ?lim d V X] less.prems(1) True by auto
    have "dist_loop R g dir m maxDepth (of_nat d) s touched F = Some (s, touched)"
      using True level_bound [OF less.prems(1)] by (subst dist_loop.simps) (auto simp: depth_done_below)
    then show ?thesis using less.prems V by auto
  next
    case False
    then have F: "F \<noteq> []" "below ?lim d" by auto
    have d: "d < 2 ^ 32" using level_bound [OF less.prems(1) F(1)] .
    obtain s1 zs X' where l: "dist_level R g dir m (of_nat d + 1) F (s, [], touched) = Some (s1, zs, touched @ zs)"
        "level_inv ?succ S ?lim d [] zs (V \<union> set zs) X'" "marks n s1 (V \<union> set zs)" "set zs \<inter> V = {}" "distinct zs"
        "\<forall>x. unat x < n \<longrightarrow> sc_dist s1 ! unat x = (if x \<in> set zs then of_nat d + 1 else sc_dist s ! unat x)"
      using dist_level_ok [OF g c F(2) less.prems(1,2), where R = R and touched = touched and depth = "of_nat d + 1"] by auto
    note nx = level_inv_next [OF l(2) F(2)]
    have in_n: "unat x < n" if "x \<in> V \<union> set zs" for x using l(3) that by (auto simp: marks_def)
    have ds: "dists ?succ S (V \<union> set zs) s1" unfolding dists_def
    proof
      fix x assume x: "x \<in> V \<union> set zs"
      show "unat (sc_dist s1 ! unat x) = hop_dist ?succ S x"
      proof (cases "x \<in> set zs")
        case True
        then have "zs \<noteq> []" by auto
        then have "Suc d < 2 ^ 32" using level_bound [OF nx] by simp
        then have "unat (of_nat (Suc d) :: u32) = Suc d" by (intro unat_of_nat_less) simp
        then have "unat (of_nat d + 1 :: u32) = Suc d" by (simp add: add.commute)
        then show ?thesis using l(6) in_n [OF x] True level_inv_new [OF l(2) True] by simp
      next
        case nz: False
        then show ?thesis using l(6) in_n [OF x] less.prems(3) x by (simp add: dists_def)
      qed
    qed
    have "card (- (V \<union> set zs)) + length zs = card (- V)"
      using fresh_card [of V zs] l(4,5) fresh_id [of zs V] by simp
    moreover have "length F > 0" using F(1) by simp
    ultimately have "queue_size (V \<union> set zs) zs < queue_size V F" unfolding queue_size_def by linarith
    from less.hyps [OF this nx l(3) ds, of "touched @ zs"] less.prems(4) obtain s' t' where
      "dist_loop R g dir m maxDepth (of_nat (Suc d)) s1 (touched @ zs) zs = Some (s', t')" "set t' = hops_within ?succ S ?lim" "marks n s' (set t')" "dists ?succ S (set t') s'" by auto
    moreover have "dist_loop R g dir m maxDepth (of_nat d) s touched F = dist_loop R g dir m maxDepth (of_nat (Suc d)) s1 (touched @ zs) zs"
      using F l(1) d by (subst dist_loop.simps) (simp add: depth_done_below add.commute)
    ultimately show ?thesis by auto
  qed
qed

lemma nbr_list_closed:
  assumes g: "snapshot_ok g" and n: "nbrs_in_space g"
  shows "closed_below (unat (CSRIDSpace g)) (nbr_list g dir m)"
proof -
  have "unat y < unat (CSRIDSpace g)" if "y \<in> set (side_nbrs g out m x)" for y out x
  proof -
    obtain lo hi where lh: "relRange (offs_of g out) x = (lo, hi)" by fastforce
    have "hi \<le> length (nbrs_of g out)" by (rule range_bounds(2) [OF g lh])
    then have "y \<in> set (nbrs_of g out)" using that by (auto simp: side_nbrs_def side_ks_def lh kept_def)
    then show ?thesis using n by (simp add: nbrs_in_space_def)
  qed
  then show ?thesis by (auto simp: closed_below_def nbr_list_def dir_list_def split: if_splits)
qed

lemma level_inv_start:
  "level_inv succ {x} lim 0 [x] [] {x} {}"
  by (auto simp: level_inv_def below_def hops_inner_def split: option.splits)

lemma start_marks:
  assumes "scratch_ok p" "unat x < n"
  shows "unat x < length (sc_gen (takeScratch n p))" "unat x < length (sc_dist (takeScratch n p))"
    "marks n ((takeScratch n p)\<lparr>sc_gen := (sc_gen (takeScratch n p))[unat x := sc_cur (takeScratch n p)]\<rparr>) {x}"
    "marks n ((takeScratch n p)\<lparr>sc_gen := (sc_gen (takeScratch n p))[unat x := sc_cur (takeScratch n p)], sc_dist := (sc_dist (takeScratch n p))[unat x := d]\<rparr>) {x}"
  using takeScratch_ok [OF assms(1), of n] assms(2) marks_put [of n "takeScratch n p" "{}" x] by (auto simp: marks_def scratch_ok_def)

lemma read_out:
  assumes "\<forall>x \<in> set xs. unat x < length ds"
  shows "fold_opt (\<lambda>node out. map_option (\<lambda>d. out(node \<mapsto> d)) (slice_at ds (unat node))) xs out = Some (\<lambda>x. if x \<in> set xs then Some (ds ! unat x) else out x)"
  using assms by (induction xs arbitrary: out) (auto simp: fun_eq_iff)

lemma BFSDistances_ok:
  assumes g: "snapshot_ok g" "match_for g m" and n: "nbrs_in_space g" and p: "scratch_ok p" and x: "unat start < unat (CSRIDSpace g)"
  shows "\<exists>out s. BFSDistances R g p start dir m maxDepth = Some (out, s) \<and> scratch_ok s
    \<and> dom out = hops_within (nbr_list g dir m) {start} (depth_lim maxDepth)
    \<and> (\<forall>x d. out x = Some d \<longrightarrow> unat d = hop_dist (nbr_list g dir m) {start} x)"
proof -
  let ?n = "unat (CSRIDSpace g)" and ?succ = "nbr_list g dir m"
  let ?t = "takeScratch ?n p"
  let ?s = "?t\<lparr>sc_gen := (sc_gen ?t)[unat start := sc_cur ?t], sc_dist := (sc_dist ?t)[unat start := 0]\<rparr>"
  note sm = start_marks [OF p x]
  have ds: "dists ?succ {start} {start} ?s" using sm(2) by (simp add: dists_def hop_dist_zero)
  obtain s touched where l: "dist_loop R g dir m maxDepth 0 ?s [start] [start] = Some (s, touched)"
      "set touched = hops_within ?succ {start} (depth_lim maxDepth)" "marks ?n s (set touched)" "dists ?succ {start} (set touched) s"
    using dist_loop_ok [OF g nbr_list_closed [OF g(1) n] level_inv_start sm(4) ds, where touched = "[start]" and R = R and maxDepth = maxDepth] by auto
  have len: "\<forall>x \<in> set touched. unat x < length (sc_dist s)" using l(3) by (force simp: marks_def scratch_ok_def)
  have "BFSDistances R g p start dir m maxDepth = Some (\<lambda>x. if x \<in> set touched then Some (sc_dist s ! unat x) else None, s)"
    using x sm(1,2) l(1) read_out [OF len, of Map.empty] by (simp add: BFSDistances_def Let_def)
  moreover have "scratch_ok s" using l(3) by (simp add: marks_def)
  ultimately show ?thesis using l(2,4) by (auto simp: dists_def dom_def split: if_splits)
qed

section \<open>Neighbourhoods\<close>

lemma hood_visit_all:
  assumes R: "roaring_laws R" and "marks n s V" "\<forall>x \<in> set xs. unat x < n"
  shows "\<exists>s' result'. snd (yield_all (hood_visit R lo depth) xs (Some (s, next, result))) = Some (s', next @ fresh V xs, result')
    \<and> marks n s' (V \<union> set xs) \<and> ids R result' = ids R result \<union> (if lo \<le> depth then set xs - V else {})"
  using assms(2,3)
proof (induction xs arbitrary: s V "next" result)
  case (Cons x xs)
  have x: "unat x < length (sc_gen s)" "unat x < n" using Cons.prems by (auto simp: marks_def)
  show ?case
  proof (cases "x \<in> V")
    case True
    then have "sc_gen s ! unat x = sc_cur s" using Cons.prems(1) x(2) by (simp add: marks_def)
    then have "hood_visit R lo depth x (Some (s, next, result)) = (True, Some (s, next, result))" using x by (simp add: hood_visit_def)
    moreover have "V \<union> set (x # xs) = V \<union> set xs" using True by auto
    ultimately show ?thesis using Cons.IH [OF Cons.prems(1), of "next" result] Cons.prems(2) True by auto
  next
    case False
    let ?s = "s\<lparr>sc_gen := (sc_gen s)[unat x := sc_cur s]\<rparr>"
    let ?r = "if lo \<le> depth then fst (Set_Insert R result x) else result"
    have "sc_gen s ! unat x \<noteq> sc_cur s" using False Cons.prems(1) x(2) by (simp add: marks_def)
    then have v: "hood_visit R lo depth x (Some (s, next, result)) = (True, Some (?s, next @ [x], ?r))" using x by (simp add: hood_visit_def)
    have pr: "\<forall>x \<in> set xs. unat x < n" using Cons.prems(2) by simp
    obtain v' new where si: "Set_Insert R result x = (v', new)" by fastforce
    have "ids R ?r = ids R result \<union> (if lo \<le> depth then {x} else {})" using Set_Insert_ids(1) [OF R si] by (simp add: si)
    moreover obtain s' r' where s': "snd (yield_all (hood_visit R lo depth) xs (Some (?s, next @ [x], ?r))) = Some (s', (next @ [x]) @ fresh (insert x V) xs, r')"
        "marks n s' (insert x V \<union> set xs)" "ids R r' = ids R ?r \<union> (if lo \<le> depth then set xs - insert x V else {})"
      using Cons.IH [OF marks_put(1) [OF Cons.prems(1) x(2)] pr, of "next @ [x]" ?r] by blast
    ultimately have "ids R r' = ids R result \<union> (if lo \<le> depth then set (x # xs) - V else {})" using False by auto
    then show ?thesis using s'(1,2) v False by (intro exI [of _ s'] exI [of _ r']) simp
  qed
qed simp

lemma hood_level_ok:
  assumes R: "roaring_laws R" and g: "snapshot_ok g" "match_for g m" and c: "closed_below n (nbr_list g dir m)" and b: "below lim d"
  shows "level_inv (nbr_list g dir m) S lim d F ys V X \<Longrightarrow> marks n s V
    \<Longrightarrow> \<exists>s' zs r' X'. hood_level R g dir m lo depth F (s, ys, result) = Some (s', ys @ zs, r')
      \<and> level_inv (nbr_list g dir m) S lim d [] (ys @ zs) (V \<union> set zs) X' \<and> marks n s' (V \<union> set zs) \<and> set zs \<inter> V = {} \<and> distinct zs
      \<and> ids R r' = ids R result \<union> (if lo \<le> depth then set zs else {})"
proof (induction F arbitrary: ys V X s result)
  case Nil
  then show ?case by (intro exI [of _ s] exI [of _ "[]"] exI [of _ result] exI [of _ X]) (simp add: hood_level_def)
next
  case (Cons x F)
  let ?succ = "nbr_list g dir m"
  let ?f = "fresh V (?succ x)"
  have "\<forall>y \<in> set (?succ x). unat y < n" using c by (simp add: closed_below_def)
  then obtain s1 r1 where s1: "snd (yield_all (hood_visit R lo depth) (?succ x) (Some (s, ys, result))) = Some (s1, ys @ ?f, r1)"
      "marks n s1 (V \<union> set (?succ x))" "ids R r1 = ids R result \<union> (if lo \<le> depth then set (?succ x) - V else {})"
    using hood_visit_all [OF R Cons.prems(2)] by blast
  have ny: "neighborsYield R g x dir m (hood_visit R lo depth) (Some (s, ys, result)) = Some (Some (s1, ys @ ?f, r1))"
    using traversal_ok(2) [OF g, where R = R and node = x and dir = dir and yield = "hood_visit R lo depth" and s = "Some (s, ys, result)"] s1(1) by (simp add: nbr_list_def)
  obtain s' zs r' X' where r: "hood_level R g dir m lo depth F (s1, ys @ ?f, r1) = Some (s', (ys @ ?f) @ zs, r')"
      "level_inv ?succ S lim d [] ((ys @ ?f) @ zs) ((V \<union> set (?succ x)) \<union> set zs) X'" "marks n s' ((V \<union> set (?succ x)) \<union> set zs)" "set zs \<inter> (V \<union> set (?succ x)) = {}" "distinct zs"
      "ids R r' = ids R r1 \<union> (if lo \<le> depth then set zs else {})"
    using Cons.IH [OF level_inv_step [OF Cons.prems(1) b] s1(2)] by blast
  have V: "(V \<union> set (?succ x)) \<union> set zs = V \<union> set (?f @ zs)" by auto
  have "ids R r' = ids R result \<union> (if lo \<le> depth then set (?f @ zs) else {})" using s1(3) r(6) by auto
  moreover have "set (?f @ zs) \<inter> V = {}" "distinct (?f @ zs)" using r(4,5) by auto
  moreover have "hood_level R g dir m lo depth (x # F) (s, ys, result) = hood_level R g dir m lo depth F (s1, ys @ ?f, r1)" using ny by (simp add: hood_level_def)
  ultimately show ?case using r(1-3) unfolding V by (intro exI [of _ s'] exI [of _ "?f @ zs"] exI [of _ r'] exI [of _ X']) simp
qed

lemma level_bound_space:
  fixes succ :: "NodeID \<Rightarrow> NodeID list"
  assumes "level_inv succ S lim d xs ys V X" "xs \<noteq> []" "\<forall>x \<in> V. unat x < n"
  shows "d < n"
proof -
  have d: "d < card (hop_ball succ S d)" "hop_ball succ S d \<subseteq> V" using assms(1,2) by (auto simp: level_inv_def)
  have "unat ` hop_ball succ S d \<subseteq> {..<n}" using d(2) assms(3) by auto
  then have "card (unat ` hop_ball succ S d) \<le> n" using card_mono [of "{..<n}" "unat ` hop_ball succ S d"] by simp
  moreover have "card (unat ` hop_ball succ S d) = card (hop_ball succ S d)" by (rule card_image) (simp add: inj_on_def word_unat_eq_iff)
  ultimately show ?thesis using d(1) by simp
qed

lemma hood_loop_ok:
  assumes R: "roaring_laws R" and g: "snapshot_ok g" "match_for g m" and c: "closed_below n (nbr_list g dir m)" and n: "n < 2 ^ 32"
  shows "level_inv (nbr_list g dir m) S (Some (unat hi)) d F [] V X \<Longrightarrow> marks n s V \<Longrightarrow> ids R result = {x \<in> V. unat lo \<le> hop_dist (nbr_list g dir m) S x}
    \<Longrightarrow> \<exists>s' r'. hood_loop R g dir m lo hi (of_nat (Suc d)) s result F = Some (s', r') \<and> scratch_ok s'
      \<and> ids R r' = {x \<in> hop_ball (nbr_list g dir m) S (unat hi). unat lo \<le> hop_dist (nbr_list g dir m) S x}"
proof (induction "queue_size V F" arbitrary: V F X s result d rule: less_induct)
  case less
  let ?succ = "nbr_list g dir m" and ?lim = "Some (unat hi)"
  have sp: "\<forall>x \<in> V. unat x < n" using less.prems(2) by (auto simp: marks_def)
  have dn: "unat (of_nat (Suc d) :: u32) = Suc d" if "F \<noteq> []"
    using level_bound_space [OF less.prems(1) that sp] n by (intro unat_of_nat_less) simp
  show ?case
  proof (cases "F = [] \<or> \<not> below ?lim d")
    case True
    have V: "V = hops_within ?succ S ?lim" using level_done [of ?succ S ?lim d V X] less.prems(1) True by auto
    have "hood_loop R g dir m lo hi (of_nat (Suc d)) s result F = Some (s, result)"
    proof (cases "F = []")
      case True
      then show ?thesis by (subst hood_loop.simps) simp
    next
      case False
      then have "\<not> of_nat (Suc d) \<le> hi" using True dn by (simp add: below_def word_le_nat_alt del: of_nat_Suc)
      then show ?thesis by (subst hood_loop.simps) simp
    qed
    then show ?thesis using less.prems(2,3) V by (simp add: marks_def hops_within_def)
  next
    case False
    then have F: "F \<noteq> []" "below ?lim d" by auto
    obtain s1 zs r1 X' where l: "hood_level R g dir m lo (of_nat (Suc d)) F (s, [], result) = Some (s1, zs, r1)"
        "level_inv ?succ S ?lim d [] zs (V \<union> set zs) X'" "marks n s1 (V \<union> set zs)" "set zs \<inter> V = {}" "distinct zs"
        "ids R r1 = ids R result \<union> (if lo \<le> of_nat (Suc d) then set zs else {})"
      using hood_level_ok [OF R g c F(2) less.prems(1,2), where result = result and lo = lo and depth = "of_nat (Suc d)"] by (auto simp del: of_nat_Suc)
    have "lo \<le> of_nat (Suc d) \<longleftrightarrow> unat lo \<le> Suc d" using dn [OF F(1)] by (simp add: word_le_nat_alt del: of_nat_Suc)
    then have r1: "ids R r1 = {x \<in> V \<union> set zs. unat lo \<le> hop_dist ?succ S x}"
      using l(6) less.prems(3) level_inv_new [OF l(2)] by (auto simp del: of_nat_Suc)
    have "card (- (V \<union> set zs)) + length zs = card (- V)" using fresh_card [of V zs] l(4,5) fresh_id [of zs V] by simp
    moreover have "length F > 0" using F(1) by simp
    ultimately have "queue_size (V \<union> set zs) zs < queue_size V F" unfolding queue_size_def by linarith
    from less.hyps [OF this level_inv_next [OF l(2) F(2)] l(3) r1] obtain s' r' where ih:
      "hood_loop R g dir m lo hi (of_nat (Suc (Suc d))) s1 r1 zs = Some (s', r')" "scratch_ok s'" "ids R r' = {x \<in> hop_ball ?succ S (unat hi). unat lo \<le> hop_dist ?succ S x}" by blast
    have "of_nat (Suc d) \<le> hi" using F(2) dn [OF F(1)] by (simp add: below_def word_le_nat_alt del: of_nat_Suc)
    moreover have "(of_nat (Suc d) + 1 :: u32) = of_nat (Suc (Suc d))" by simp
    ultimately have "hood_loop R g dir m lo hi (of_nat (Suc d)) s result F = hood_loop R g dir m lo hi (of_nat (Suc (Suc d))) s1 r1 zs"
      using F(1) l(1) by (subst hood_loop.simps) (simp del: of_nat_Suc)
    then show ?thesis using ih by (simp only: ex_simps) blast
  qed
qed

lemma Neighborhood_ok:
  assumes R: "roaring_laws R" and g: "snapshot_ok g" "match_for g m" and n: "nbrs_in_space g" and p: "scratch_ok p"
    and x: "unat seed < unat (CSRIDSpace g)" and h: "lo \<le> hi"
  shows "\<exists>N s. Neighborhood R g p seed dir m lo hi = Some (N, s) \<and> scratch_ok s
    \<and> ids R N = {x \<in> hop_ball (nbr_list g dir m) {seed} (unat hi). unat lo \<le> hop_dist (nbr_list g dir m) {seed} x}"
proof -
  let ?n = "unat (CSRIDSpace g)" and ?succ = "nbr_list g dir m"
  let ?t = "takeScratch ?n p"
  let ?s = "?t\<lparr>sc_gen := (sc_gen ?t)[unat seed := sc_cur ?t]\<rparr>" and ?r = "if lo = 0 then fst (Set_Insert R (Set_New R) seed) else Set_New R"
  note sm = start_marks [OF p x]
  obtain v new where si: "Set_Insert R (Set_New R) seed = (v, new)" by fastforce
  have r: "ids R ?r = {x \<in> {seed}. unat lo \<le> hop_dist ?succ {seed} x}"
    using Set_Insert_ids(1) [OF R si] by (auto simp: si ids_New [OF R] hop_dist_zero unat_eq_zero)
  have nb: "?n < 2 ^ 32" using unat_u32 [of "CSRIDSpace g"] by simp
  obtain s N where "hood_loop R g dir m lo hi (of_nat (Suc 0)) ?s ?r [seed] = Some (s, N)" "scratch_ok s"
      "ids R N = {x \<in> hop_ball ?succ {seed} (unat hi). unat lo \<le> hop_dist ?succ {seed} x}"
    using hood_loop_ok [OF R g nbr_list_closed [OF g(1) n] nb level_inv_start sm(3) r] by blast
  then show ?thesis using x h sm(1) by (simp add: Neighborhood_def Let_def leD)
qed

section \<open>Properties of the searches\<close>

lemma hops_inner_walk:
  "x \<in> hops_inner succ S (depth_lim maxDepth) \<longleftrightarrow> (\<exists>s \<in> S. \<exists>j. (maxDepth \<ge> 0 \<longrightarrow> int j < maxDepth) \<and> (s, x) \<in> hop_rel succ ^^ j)"
proof (cases "maxDepth \<le> 0")
  case True
  then show ?thesis using hop_ball_walk [of x succ S] by (auto simp: hops_inner_def depth_lim_def)
next
  case False
  have "j \<le> nat maxDepth - 1 \<longleftrightarrow> int j < maxDepth" for j using False by linarith
  then show ?thesis using False hop_ball_walk [of x succ S "nat maxDepth - 1"] by (simp add: hops_inner_def depth_lim_def)
qed

lemma hop_dist_walk:
  assumes x: "x \<in> hop_ball succ {s} k"
  shows "hop_dist succ {s} x = (LEAST j. (s, x) \<in> hop_rel succ ^^ j)"
proof -
  obtain i where i: "(s, x) \<in> hop_rel succ ^^ i" using ball_has_walk [OF x] by blast
  let ?j = "LEAST j. (s, x) \<in> hop_rel succ ^^ j"
  have "(s, x) \<in> hop_rel succ ^^ ?j" using i by (rule LeastI)
  moreover have "?j \<le> j" if "(s, x) \<in> hop_rel succ ^^ j" for j using that by (rule Least_le)
  ultimately show ?thesis unfolding hop_dist_def hop_ball_walk by (intro Least_equality) (auto intro: order_trans)
qed

text \<open>
  C16: \<open>CanReach\<close> always returns, and returns true exactly when some walk over the matching relationships, of at most
  \<open>maxDepth\<close> hops when that is not negative, leads from one node to the other. The hop counter cannot wrap.
\<close>

theorem CanReach_correct:
  assumes "roaring_laws R" "snapshot_ok g" "match_for g m"
  shows "CanReach R g from to dir m maxDepth = Some (\<exists>j. (maxDepth \<ge> 0 \<longrightarrow> int j \<le> maxDepth) \<and> (from, to) \<in> hop_rel (nbr_list g dir m) ^^ j)"
  using CanReach_ok [OF assms, of "from" to dir maxDepth] hops_within_walk [of to "nbr_list g dir m" "{from}" maxDepth] by simp

theorem CanReach_correct_witness:
  "CanReach list_roaring small_graph 0 1 Outgoing (Match small_graph ['''']) 1
    = Some (\<exists>j. (1 \<ge> (0 :: int) \<longrightarrow> int j \<le> 1) \<and> (0, 1) \<in> hop_rel (nbr_list small_graph Outgoing (Match small_graph [''''])) ^^ j)"
  by (rule CanReach_correct [OF list_roaring_laws small_graph_ok Match_ok])

text \<open>
  C18: the filtered searches return. \<open>BFS\<close> visits exactly the nodes joined by a walk of accepted relationships and nodes
  to a start node that passes the filter, within the depth bound, and traverses exactly the accepted relationships that
  leave nodes strictly inside it. \<open>BidirectionalBFS\<close> returns the overlap of the two start sets, if any, and otherwise the nodes
  that both searches reach, with relationships only that one side followed, and none when the sides do not meet. The relationship
  filter is asked in the orientation of the walk, (current, neighbour), flipped on the backward search, as the comment inside
  \<open>bfsStep\<close> says and the code does; the comment on the type \<open>RelFilter\<close> promises the stored (source, target), which differs for the directions
  \<open>Incoming\<close> and \<open>Both\<close>.
\<close>

theorem filtered_search_correct:
  assumes "roaring_laws R" "snapshot_ok g" "match_for g m"
  shows "(\<exists>N E. BFS R g start dir m nf rf maxDepth = Some (N, E)
      \<and> (\<forall>x. x \<in> ids R N \<longleftrightarrow> (\<exists>s \<in> seeds R g nf start. \<exists>j. (maxDepth \<ge> 0 \<longrightarrow> int j \<le> maxDepth) \<and> (s, x) \<in> hop_rel (follow_nbrs g dir m nf rf False) ^^ j))
      \<and> (\<forall>p. p \<in> ids R E \<longleftrightarrow> (\<exists>s \<in> seeds R g nf start. \<exists>j x. (maxDepth \<ge> 0 \<longrightarrow> int j < maxDepth) \<and> (s, x) \<in> hop_rel (follow_nbrs g dir m nf rf False) ^^ j
          \<and> p \<in> ref_Pos ` set (followed g dir m nf rf False x))))
    \<and> (\<exists>N E. BidirectionalBFS R g start target dir m nf rf maxDepth = Some (N, E)
      \<and> ids R N = (if seeds R g nf start \<inter> seeds R g nf target \<noteq> {} then seeds R g nf start \<inter> seeds R g nf target
          else hops_within (follow_nbrs g dir m nf rf False) (seeds R g nf start) (depth_lim maxDepth)
            \<inter> hops_within (follow_nbrs g (Reverse dir) m nf rf True) (seeds R g nf target) (depth_lim maxDepth))
      \<and> (ids R N = {} \<longrightarrow> ids R E = {})
      \<and> ids R E \<subseteq> (\<Union>x. ref_Pos ` set (followed g dir m nf rf False x)) \<union> (\<Union>x. ref_Pos ` set (followed g (Reverse dir) m nf rf True x)))"
  (is "?bfs \<and> ?bidi")
proof
  obtain N E where b: "BFS R g start dir m nf rf maxDepth = Some (N, E)"
      "ids R N = hops_within (follow_nbrs g dir m nf rf False) (seeds R g nf start) (depth_lim maxDepth)"
      "ids R E = (\<Union>x \<in> hops_inner (follow_nbrs g dir m nf rf False) (seeds R g nf start) (depth_lim maxDepth). ref_Pos ` set (followed g dir m nf rf False x))"
    using BFS_ok [OF assms, where start = start and dir = dir and nf = nf and rf = rf and maxDepth = maxDepth] by (elim exE conjE) (rule that)
  have "p \<in> ids R E \<longleftrightarrow> (\<exists>s \<in> seeds R g nf start. \<exists>j x. (maxDepth \<ge> 0 \<longrightarrow> int j < maxDepth) \<and> (s, x) \<in> hop_rel (follow_nbrs g dir m nf rf False) ^^ j
      \<and> p \<in> ref_Pos ` set (followed g dir m nf rf False x))" for p
  proof -
    define Q where "Q x \<longleftrightarrow> p \<in> ref_Pos ` set (followed g dir m nf rf False x)" for x
    have "p \<in> ids R E \<longleftrightarrow> (\<exists>x. x \<in> hops_inner (follow_nbrs g dir m nf rf False) (seeds R g nf start) (depth_lim maxDepth) \<and> Q x)" unfolding b(3) Q_def by blast
    also have "\<dots> \<longleftrightarrow> (\<exists>s \<in> seeds R g nf start. \<exists>j x. (maxDepth \<ge> 0 \<longrightarrow> int j < maxDepth) \<and> (s, x) \<in> hop_rel (follow_nbrs g dir m nf rf False) ^^ j \<and> Q x)"
      unfolding hops_inner_walk by blast
    finally show ?thesis unfolding Q_def .
  qed
  moreover have "x \<in> ids R N \<longleftrightarrow> (\<exists>s \<in> seeds R g nf start. \<exists>j. (maxDepth \<ge> 0 \<longrightarrow> int j \<le> maxDepth) \<and> (s, x) \<in> hop_rel (follow_nbrs g dir m nf rf False) ^^ j)" for x
    unfolding b(2) by (rule hops_within_walk)
  ultimately show ?bfs using b(1) by (intro exI [of _ N] exI [of _ E] conjI allI)
next
  obtain N E where b: "BidirectionalBFS R g start target dir m nf rf maxDepth = Some (N, E)"
      "ids R N = (if seeds R g nf start \<inter> seeds R g nf target \<noteq> {} then seeds R g nf start \<inter> seeds R g nf target
          else hops_within (follow_nbrs g dir m nf rf False) (seeds R g nf start) (depth_lim maxDepth)
            \<inter> hops_within (follow_nbrs g (Reverse dir) m nf rf True) (seeds R g nf target) (depth_lim maxDepth))"
      "seeds R g nf start \<inter> seeds R g nf target \<noteq> {} \<or> hops_within (follow_nbrs g dir m nf rf False) (seeds R g nf start) (depth_lim maxDepth)
            \<inter> hops_within (follow_nbrs g (Reverse dir) m nf rf True) (seeds R g nf target) (depth_lim maxDepth) = {} \<longrightarrow> ids R E = {}"
      "ids R E \<subseteq> (\<Union>x. ref_Pos ` set (followed g dir m nf rf False x)) \<union> (\<Union>x. ref_Pos ` set (followed g (Reverse dir) m nf rf True x))"
    using BidirectionalBFS_ok [OF assms, where source = start and target = target and nf = nf and rf = rf and dir = dir and maxDepth = maxDepth] by (elim exE conjE) (rule that)
  have "ids R N = {} \<longrightarrow> ids R E = {}" using b(2,3) by (simp split: if_splits)
  then show ?bidi using b(1,2,4) by (intro exI [of _ N] exI [of _ E] conjI)
qed

theorem filtered_search_correct_witness:
  "(\<exists>N E. BFS list_roaring small_graph (Set_Of list_roaring [0]) Outgoing MatchAll (Some (\<lambda>x g. x \<noteq> 5)) None NoMaxDepth = Some (N, E)
      \<and> (\<forall>x. x \<in> ids list_roaring N \<longleftrightarrow> (\<exists>s \<in> seeds list_roaring small_graph (Some (\<lambda>x g. x \<noteq> 5)) (Set_Of list_roaring [0]).
          \<exists>j. (NoMaxDepth \<ge> 0 \<longrightarrow> int j \<le> NoMaxDepth) \<and> (s, x) \<in> hop_rel (follow_nbrs small_graph Outgoing MatchAll (Some (\<lambda>x g. x \<noteq> 5)) None False) ^^ j)))
    \<and> (\<exists>N E. BidirectionalBFS list_roaring small_graph (Set_Of list_roaring [0]) (Set_Of list_roaring [1]) Outgoing MatchAll (Some (\<lambda>x g. x \<noteq> 5)) None NoMaxDepth = Some (N, E)
      \<and> (ids list_roaring N = {} \<longrightarrow> ids list_roaring E = {}))"
proof -
  have "match_for small_graph MatchAll" by (simp add: match_for_def MatchAll_def)
  from filtered_search_correct [OF list_roaring_laws small_graph_ok this, where start = "Set_Of list_roaring [0]" and target = "Set_Of list_roaring [1]"
      and dir = Outgoing and nf = "Some (\<lambda>x g. x \<noteq> 5)" and rf = None and maxDepth = NoMaxDepth]
  show ?thesis by (elim conjE exE) (intro conjI exI, assumption+)
qed

text \<open>
  C17: hop counts are exact and in range. With any scratch from the pool whose stamps do not exceed its generation, even at the point where the
  generation counter wraps, \<open>BFSDistances\<close> returns exactly the nodes within the depth bound with the length of a
  shortest walk, \<open>Neighborhood\<close> returns exactly the nodes whose shortest walk length lies in the range, no array index
  leaves the id space, and the scratch goes back in the state the next search needs.
\<close>

theorem hop_search_correct:
  assumes "roaring_laws R" "snapshot_ok g" "match_for g m" "nbrs_in_space g" "scratch_ok p" "unat start < unat (CSRIDSpace g)" "lo \<le> hi"
  shows "(\<exists>out s. BFSDistances R g p start dir m maxDepth = Some (out, s) \<and> scratch_ok s
      \<and> (\<forall>x. (\<exists>d. out x = Some d) \<longleftrightarrow> (\<exists>j. (maxDepth \<ge> 0 \<longrightarrow> int j \<le> maxDepth) \<and> (start, x) \<in> hop_rel (nbr_list g dir m) ^^ j))
      \<and> (\<forall>x d. out x = Some d \<longrightarrow> unat d = (LEAST j. (start, x) \<in> hop_rel (nbr_list g dir m) ^^ j)))
    \<and> (\<exists>N s. Neighborhood R g p start dir m lo hi = Some (N, s) \<and> scratch_ok s
      \<and> ids R N = {x. \<exists>j. (start, x) \<in> hop_rel (nbr_list g dir m) ^^ j
          \<and> unat lo \<le> (LEAST j. (start, x) \<in> hop_rel (nbr_list g dir m) ^^ j) \<and> (LEAST j. (start, x) \<in> hop_rel (nbr_list g dir m) ^^ j) \<le> unat hi})"
  (is "?dist \<and> ?hood")
proof
  let ?succ = "nbr_list g dir m"
  obtain out s where d: "BFSDistances R g p start dir m maxDepth = Some (out, s)" "scratch_ok s"
      "dom out = hops_within ?succ {start} (depth_lim maxDepth)" "\<forall>x d. out x = Some d \<longrightarrow> unat d = hop_dist ?succ {start} x"
    using BFSDistances_ok [OF assms(2-6)] by blast
  have r: "(\<exists>d. out x = Some d) \<longleftrightarrow> (\<exists>j. (maxDepth \<ge> 0 \<longrightarrow> int j \<le> maxDepth) \<and> (start, x) \<in> hop_rel ?succ ^^ j)" for x
    using d(3) hops_within_walk [of x ?succ "{start}" maxDepth] by auto
  have "unat e = (LEAST j. (start, x) \<in> hop_rel ?succ ^^ j)" if o: "out x = Some e" for x e
  proof -
    obtain j where "(start, x) \<in> hop_rel ?succ ^^ j" using r [of x] unfolding o by blast
    then have "x \<in> hop_ball ?succ {start} j" by (rule walk_in_ball) simp
    from hop_dist_walk [OF this] show ?thesis using d(4) o by simp
  qed
  then show ?dist using d(1,2) r by (intro exI [of _ out] exI [of _ s] conjI allI impI)
next
  let ?succ = "nbr_list g dir m"
  obtain N s where n: "Neighborhood R g p start dir m lo hi = Some (N, s)" "scratch_ok s"
      "ids R N = {x \<in> hop_ball ?succ {start} (unat hi). unat lo \<le> hop_dist ?succ {start} x}"
    using Neighborhood_ok [OF assms] by blast
  have "x \<in> ids R N \<longleftrightarrow> (\<exists>j. (start, x) \<in> hop_rel ?succ ^^ j) \<and> unat lo \<le> (LEAST j. (start, x) \<in> hop_rel ?succ ^^ j)
      \<and> (LEAST j. (start, x) \<in> hop_rel ?succ ^^ j) \<le> unat hi" for x
  proof (cases "\<exists>j. (start, x) \<in> hop_rel ?succ ^^ j")
    case True
    then obtain j where "(start, x) \<in> hop_rel ?succ ^^ j" by blast
    then have b: "x \<in> hop_ball ?succ {start} j" by (rule walk_in_ball) simp
    show ?thesis using True hop_dist_ball [OF b, of "unat hi"] by (auto simp: n(3) hop_dist_walk [OF b])
  next
    case False
    then show ?thesis using hop_ball_walk [of x ?succ "{start}" "unat hi"] by (auto simp: n(3))
  qed
  then have "ids R N = {x. (\<exists>j. (start, x) \<in> hop_rel ?succ ^^ j) \<and> unat lo \<le> (LEAST j. (start, x) \<in> hop_rel ?succ ^^ j)
      \<and> (LEAST j. (start, x) \<in> hop_rel ?succ ^^ j) \<le> unat hi}" by blast
  then show ?hood using n(1,2) by (intro exI [of _ N] exI [of _ s]) simp
qed

theorem hop_search_correct_witness:
  "(\<exists>out s. BFSDistances list_roaring small_graph \<lparr>sc_gen = [4294967295, 7], sc_dist = [3, 3], sc_cur = 4294967295\<rparr> 0 Outgoing (Match small_graph ['''']) 3 = Some (out, s) \<and> scratch_ok s
      \<and> (\<forall>x. (\<exists>d. out x = Some d) \<longleftrightarrow> (\<exists>j. ((3 :: int) \<ge> 0 \<longrightarrow> int j \<le> 3) \<and> (0, x) \<in> hop_rel (nbr_list small_graph Outgoing (Match small_graph [''''])) ^^ j))
      \<and> (\<forall>x d. out x = Some d \<longrightarrow> unat d = (LEAST j. (0, x) \<in> hop_rel (nbr_list small_graph Outgoing (Match small_graph [''''])) ^^ j)))
    \<and> (\<exists>N s. Neighborhood list_roaring small_graph \<lparr>sc_gen = [4294967295, 7], sc_dist = [3, 3], sc_cur = 4294967295\<rparr> 0 Outgoing (Match small_graph ['''']) 1 2 = Some (N, s) \<and> scratch_ok s
      \<and> ids list_roaring N = {x. \<exists>j. (0, x) \<in> hop_rel (nbr_list small_graph Outgoing (Match small_graph [''''])) ^^ j
          \<and> unat (1 :: u32) \<le> (LEAST j. (0, x) \<in> hop_rel (nbr_list small_graph Outgoing (Match small_graph [''''])) ^^ j)
          \<and> (LEAST j. (0, x) \<in> hop_rel (nbr_list small_graph Outgoing (Match small_graph [''''])) ^^ j) \<le> unat (2 :: u32)})"
  by (rule hop_search_correct [OF list_roaring_laws small_graph_ok Match_ok])
    (auto simp: nbrs_in_space_def nbrs_of_def CSRIDSpace_def small_graph_def scratch_ok_def All_less_Suc)

end
