(* ===== verification/Thaw.thy ===== *)
theory Thaw
  imports SearchCorrect
begin

text \<open>
  Thawing (\<open>thaw.go\<close>): a mutable builder reconstructed from an immutable snapshot, with the bulk staging entries of
  \<open>builder.go\<close>. The relationships are restaged in an order that extends the per-node orders of both CSR
  directions, found by a Kahn walk over their chains.
\<close>

section \<open>Bulk staging\<close>

text \<open>The column map is one field of the builder, given by its update function.\<close>

definition pair_node :: "'bm roaring \<Rightarrow> 'v pair \<Rightarrow> 'bm Builder \<Rightarrow> (unit, 'bm) bres" where
  "pair_node R p b = bbind (ensureCapacity (pairID p) b) (\<lambda>_ b. Some (Inr (), known_add R (pairID p) b))"

primrec pair_nodes :: "'bm roaring \<Rightarrow> 'v pair list \<Rightarrow> 'bm Builder \<Rightarrow> (unit, 'bm) bres" where
  "pair_nodes R [] b = Some (Inr (), b)"
| "pair_nodes R (p # ps) b = bbind (pair_node R p b) (\<lambda>_ b. pair_nodes R ps b)"

definition setNodeColumnPairs ::
  "'bm roaring \<Rightarrow> (('v staged \<Rightarrow> 'v staged) \<Rightarrow> 'bm Builder \<Rightarrow> 'bm Builder) \<Rightarrow> PropertyKey \<Rightarrow> 'v pair list \<Rightarrow> 'bm Builder \<Rightarrow> (unit, 'bm) bres" where
  "setNodeColumnPairs R cols key pairs b =
     (if length pairs = 0 then Some (Inr (), b)
      else bbind (pair_nodes R pairs b) (\<lambda>_ b. Some (Inr (), cols (AList.update key pairs) b)))"

definition setRelColumnPairs ::
  "'bm roaring \<Rightarrow> (('v staged \<Rightarrow> 'v staged) \<Rightarrow> 'bm Builder \<Rightarrow> 'bm Builder) \<Rightarrow> PropertyKey \<Rightarrow> 'v pair list \<Rightarrow> 'bm Builder \<Rightarrow> (unit, 'bm) bres" where
  "setRelColumnPairs R cols key pairs b =
     (if length pairs = 0 then Some (Inr (), b)
      else if list_ex (\<lambda>p. unat (pairID p) \<ge> length (b_rels b) \<or> relRemoved R b (unat (pairID p))) pairs then Some (Inl ErrRelNotFound, b)
      else Some (Inr (), cols (AList.update key pairs) b))"

text \<open>A staging call that fails during a thaw panics.\<close>

definition thawMust :: "('a, 'bm) bres \<Rightarrow> ('a \<times> 'bm Builder) option" where
  "thawMust r = (case r of Some (Inr x, b) \<Rightarrow> Some (x, b) | _ \<Rightarrow> None)"

section \<open>The restaging order\<close>

definition ownersFromOffsets :: "u32 list \<Rightarrow> NodeID list option" where
  "ownersFromOffsets offsets =
     (if length offsets = 0 then Some []
      else let n = length offsets - 1 in
        fold_opt (\<lambda>u owners.
            fold_opt (\<lambda>p owners. slice_set owners p (of_nat u)) [unat (offsets ! u)..<unat (offsets ! (u + 1))] owners)
          [0..<n] (replicate (unat (offsets ! n)) 0))"

definition invertPositions :: "u32 list \<Rightarrow> u32 list option" where
  "invertPositions outToStaging =
     fold_opt (\<lambda>(outPos, idx) relToOut. slice_set relToOut (unat idx) (of_nat outPos)) (enumerate 0 outToStaging) (replicate (length outToStaging) 0)"

text \<open>The arrays of the walk: the owners of the positions of both CSRs, and the position maps between them.\<close>

record thaw_maps =
  tm_src :: "NodeID list"
  tm_dst :: "NodeID list"
  tm_ito :: "u32 list"
  tm_oti :: "u32 list"

definition inc8_at :: "8 word list \<Rightarrow> nat \<Rightarrow> 8 word list option" where
  "inc8_at xs i = do { d \<leftarrow> slice_at xs i; slice_set xs i (d + 1) }"

text \<open>One predecessor per chain the position is not the head of.\<close>

definition thaw_indeg :: "'bm Snapshot \<Rightarrow> thaw_maps \<Rightarrow> nat \<Rightarrow> 8 word list \<Rightarrow> 8 word list option" where
  "thaw_indeg g tm p indeg = do {
     s \<leftarrow> slice_at (tm_src tm) p;
     first \<leftarrow> slice_at (outOffsets g) (unat s);
     indeg \<leftarrow> (if of_nat p \<noteq> first then inc8_at indeg p else Some indeg);
     q \<leftarrow> slice_at (tm_oti tm) p;
     d \<leftarrow> slice_at (tm_dst tm) (unat q);
     first \<leftarrow> slice_at (inOffsets g) (unat d);
     if q \<noteq> first then inc8_at indeg p else Some indeg
   }"

definition release :: "u32 \<Rightarrow> 8 word list \<times> u32 list \<Rightarrow> (8 word list \<times> u32 list) option" where
  "release p = (\<lambda>(indeg, queue). do {
     d \<leftarrow> slice_at indeg (unat p);
     indeg \<leftarrow> slice_set indeg (unat p) (d - 1);
     Some (indeg, if d - 1 = 0 then queue @ [p] else queue)
   })"

definition kahn_visit :: "'bm Snapshot \<Rightarrow> thaw_maps \<Rightarrow> u32 \<Rightarrow> 8 word list \<times> u32 list \<Rightarrow> (8 word list \<times> u32 list) option" where
  "kahn_visit g tm p st = do {
     s \<leftarrow> slice_at (tm_src tm) (unat p);
     bound \<leftarrow> slice_at (outOffsets g) (unat (s + 1));
     st \<leftarrow> (if p + 1 < bound then release (p + 1) st else Some st);
     q \<leftarrow> slice_at (tm_oti tm) (unat p);
     d \<leftarrow> slice_at (tm_dst tm) (unat q);
     bound \<leftarrow> slice_at (inOffsets g) (unat (d + 1));
     if q + 1 < bound then do { p' \<leftarrow> slice_at (tm_ito tm) (unat (q + 1)); release p' st } else Some st
   }"

partial_function (option) kahn_loop ::
  "'bm Snapshot \<Rightarrow> thaw_maps \<Rightarrow> nat \<Rightarrow> 8 word list \<Rightarrow> u32 list \<Rightarrow> u32 list \<Rightarrow> u32 list option" where
  "kahn_loop g tm head indeg queue order =
     (if head < length queue
      then case kahn_visit g tm (queue ! head) (indeg, queue) of
             None \<Rightarrow> None
           | Some (indeg, queue') \<Rightarrow> kahn_loop g tm (head + 1) indeg queue' (order @ [queue ! head])
      else Some order)"

definition thaw_maps_of :: "'bm Snapshot \<Rightarrow> thaw_maps option" where
  "thaw_maps_of g = do {
     let ito = (case inToOut g of None \<Rightarrow> [] | Some m \<Rightarrow> m);
     ito \<leftarrow> (if ito = [] then computeInToOutFromCSR (outOffsets g) (outNbrs g) (outTypes g) (inOffsets g) (inNbrs g) (inTypes g) else Some ito);
     oti \<leftarrow> fold_opt (\<lambda>(inPos, outPos) oti. slice_set oti (unat outPos) (of_nat inPos)) (enumerate 0 ito) (replicate (length (outNbrs g)) 0);
     src \<leftarrow> ownersFromOffsets (outOffsets g);
     dst \<leftarrow> ownersFromOffsets (inOffsets g);
     Some \<lparr>tm_src = src, tm_dst = dst, tm_ito = ito, tm_oti = oti\<rparr>
   }"

text \<open>The fallback for CSRs whose directions disagree: what the walk missed, in outgoing order.\<close>

definition complete_order :: "nat \<Rightarrow> u32 list \<Rightarrow> u32 list option" where
  "complete_order m order =
     (if length order < m then do {
        seen \<leftarrow> fold_opt (\<lambda>p seen. slice_set seen (unat p) True) order (replicate m False);
        Some (order @ map of_nat (filter (\<lambda>p. \<not> seen ! p) [0..<m]))
      } else Some order)"

definition thawRelOrder :: "'bm Snapshot \<Rightarrow> u32 list option" where
  "thawRelOrder g =
     (let m = length (outNbrs g) in
      if m = 0 then Some []
      else do {
        tm \<leftarrow> thaw_maps_of g;
        indeg \<leftarrow> fold_opt (thaw_indeg g tm) [0..<m] (replicate m 0);
        order \<leftarrow> kahn_loop g tm 0 indeg (map of_nat (filter (\<lambda>p. indeg ! p = 0) [0..<m])) [];
        complete_order m order
      })"

section \<open>Thaw\<close>

definition thaw_rel :: "'bm roaring \<Rightarrow> 'bm Snapshot \<Rightarrow> NodeID list \<Rightarrow> u32 \<Rightarrow> 'bm Builder \<times> u32 list \<Rightarrow> ('bm Builder \<times> u32 list) option" where
  "thaw_rel R g srcOf outPos = (\<lambda>(b, outToStaging). do {
     u \<leftarrow> slice_at srcOf (unat outPos);
     v \<leftarrow> slice_at (outNbrs g) (unat outPos);
     t \<leftarrow> relTypes_At (outTypes g) outPos;
     (idx, b) \<leftarrow> thawMust (addRelTyped R u v t b);
     outToStaging \<leftarrow> slice_set outToStaging (unat outPos) (of_nat idx);
     Some (b, outToStaging)
   })"

definition thawRels :: "'bm roaring \<Rightarrow> 'bm Snapshot \<Rightarrow> 'bm Builder \<Rightarrow> ('bm Builder \<times> u32 list) option" where
  "thawRels R g b = do {
     order \<leftarrow> thawRelOrder g;
     srcOf \<leftarrow> ownersFromOffsets (outOffsets g);
     fold_opt (thaw_rel R g srcOf) order (b, replicate (length order) 0)
   }"

definition thaw_pairs :: "(Value \<Rightarrow> 'v \<times> bool) \<Rightarrow> (u32 \<times> Value) list \<Rightarrow> 'v pair list" where
  "thaw_pairs get entries = map (\<lambda>(pos, v). \<lparr>pid = pos, pval = fst (get v)\<rparr>) entries"

definition thawNodeColumn :: "'bm roaring \<Rightarrow> PropertyKey \<times> Column \<Rightarrow> 'bm Builder \<Rightarrow> 'bm Builder option" where
  "thawNodeColumn R = (\<lambda>(key, col) b. do {
     entries \<leftarrow> Column_Entries col;
     map_option snd (thawMust (case Column_Dtype col of
         DtypeI64 \<Rightarrow> setNodeColumnPairs R nodeColI64_update key (thaw_pairs Value_I64 entries) b
       | DtypeF64 \<Rightarrow> setNodeColumnPairs R nodeColF64_update key (thaw_pairs Value_F64 entries) b
       | DtypeBool \<Rightarrow> setNodeColumnPairs R nodeColBool_update key (thaw_pairs Value_Bool entries) b
       | DtypeStr \<Rightarrow> setNodeColumnPairs R nodeColStr_update key (thaw_pairs Value_StrID entries) b))
   })"

text \<open>Outgoing positions become staged relationship indexes.\<close>

definition thaw_entries :: "u32 list \<Rightarrow> (u32 \<times> Value) list \<Rightarrow> (u32 \<times> Value) list option" where
  "thaw_entries outToStaging entries = map_opt (\<lambda>(pos, v). map_option (\<lambda>idx. (idx, v)) (slice_at outToStaging (unat pos))) entries"

definition thawRelColumn :: "'bm roaring \<Rightarrow> u32 list \<Rightarrow> PropertyKey \<times> Column \<Rightarrow> 'bm Builder \<Rightarrow> 'bm Builder option" where
  "thawRelColumn R outToStaging = (\<lambda>(key, col) b. do {
     entries \<leftarrow> Column_Entries col;
     entries \<leftarrow> thaw_entries outToStaging entries;
     map_option snd (thawMust (case Column_Dtype col of
         DtypeI64 \<Rightarrow> setRelColumnPairs R relColI64_update key (thaw_pairs Value_I64 entries) b
       | DtypeF64 \<Rightarrow> setRelColumnPairs R relColF64_update key (thaw_pairs Value_F64 entries) b
       | DtypeBool \<Rightarrow> setRelColumnPairs R relColBool_update key (thaw_pairs Value_Bool entries) b
       | DtypeStr \<Rightarrow> setRelColumnPairs R relColStr_update key (thaw_pairs Value_StrID entries) b))
   })"

text \<open>The bodies of the iterations over a bitmap; a panic stops them.\<close>

definition thaw_label :: "'bm roaring \<Rightarrow> Label \<Rightarrow> NodeID \<Rightarrow> 'bm Builder option \<Rightarrow> bool \<times> 'bm Builder option" where
  "thaw_label R l i ob =
     (case do { b \<leftarrow> ob; ls \<leftarrow> slice_at (nodeLabels b) (unat i); nl \<leftarrow> slice_set (nodeLabels b) (unat i) (ls @ [l]); Some (known_add R i (b\<lparr>nodeLabels := nl\<rparr>)) } of
        None \<Rightarrow> (False, None) | Some b \<Rightarrow> (True, Some b))"

definition thaw_labels :: "'bm roaring \<Rightarrow> 'bm Snapshot \<Rightarrow> Label \<Rightarrow> 'bm Builder \<Rightarrow> 'bm Builder option" where
  "thaw_labels R g l b = do {
     s \<leftarrow> map_of (labelIndex g) l;
     ob \<leftarrow> iterYield R s (thaw_label R l) (Some b);
     ob
   }"

definition NewBuilderFromSnapshot :: "'bm roaring \<Rightarrow> 'bm Snapshot \<Rightarrow> 'bm Builder option" where
  "NewBuilderFromSnapshot R g = (
     let n = unat (CSRIDSpace g);
         m = length (outNbrs g);
         b = (NewBuilder R (max (int n) 1) (max (int m) 1))\<lparr>interner := newInternerFromAtoms (sn_atoms g), b_version := sn_version g\<rparr>
     in do {
       b \<leftarrow> fold_opt (thaw_labels R g) (sort (map fst (labelIndex g))) b;
       (b, outToStaging) \<leftarrow> thawRels R g b;
       b \<leftarrow> fold_opt (thawNodeColumn R) (columns g) b;
       b \<leftarrow> fold_opt (thawRelColumn R outToStaging) (relColumns g) b;
       b \<leftarrow> (case existence g of None \<Rightarrow> Some b | Some s \<Rightarrow> iterYield R s (\<lambda>i b. (True, known_add R i b)) b);
       let b = (if \<not> rb_IsEmpty R (knownNodes b) then b\<lparr>nextNodeID := rb_Maximum R (knownNodes b) + 1\<rparr> else b);
       relToOut \<leftarrow> invertPositions outToStaging;
       Some (b\<lparr>b_src := Some g, srcRelToOutCSR := relToOut\<rparr>)
     })"

end
