(* ===== verification/KahnWalk.thy ===== *)
theory KahnWalk
  imports Thaw
begin

text \<open>
  The Kahn walk of the thaw, seen as a walk over two successor functions. Along each of them every position has at most one
  predecessor, and some ranking rises; the walk then visits every position, each one after its predecessors.
\<close>

section \<open>Chains\<close>

definition chain_ok :: "nat \<Rightarrow> (nat \<Rightarrow> nat) \<Rightarrow> (nat \<Rightarrow> nat option) \<Rightarrow> bool" where
  "chain_ok m rk s \<longleftrightarrow> (\<forall>p q. s p = Some q \<longrightarrow> p < m \<and> q < m \<and> rk p < rk q) \<and> (\<forall>p p' q. s p = Some q \<and> s p' = Some q \<longrightarrow> p = p')"

text \<open>Whether the predecessor of a position is still to come, as a count.\<close>

definition pending :: "(nat \<Rightarrow> nat option) \<Rightarrow> nat set \<Rightarrow> nat \<Rightarrow> nat" where
  "pending s D q = (if \<exists>p. s p = Some q \<and> p \<notin> D then 1 else 0)"

definition kahn_inv :: "nat \<Rightarrow> (nat \<Rightarrow> nat option) \<Rightarrow> (nat \<Rightarrow> nat option) \<Rightarrow> nat set \<Rightarrow> nat set \<Rightarrow> 8 word list \<Rightarrow> u32 list \<Rightarrow> bool" where
  "kahn_inv m s1 s2 D1 D2 indeg queue \<longleftrightarrow> length indeg = m \<and> distinct queue \<and> (\<forall>x \<in> set queue. unat x < m)
    \<and> D1 \<subseteq> unat ` set queue \<and> D2 \<subseteq> unat ` set queue
    \<and> (\<forall>q < m. unat (indeg ! q) = pending s1 D1 q + pending s2 D2 q \<and> (indeg ! q = 0 \<longleftrightarrow> q \<in> unat ` set queue))
    \<and> (\<forall>i < length queue. \<forall>p. s1 p = Some (unat (queue ! i)) \<or> s2 p = Some (unat (queue ! i)) \<longrightarrow> (\<exists>j < i. unat (queue ! j) = p))"

lemma kahn_inv_swap: "kahn_inv m s1 s2 D1 D2 indeg queue \<Longrightarrow> kahn_inv m s2 s1 D2 D1 indeg queue"
  by (auto simp: kahn_inv_def add.commute)

lemma pending_insert:
  assumes "chain_ok m rk s"
  shows "pending s (insert p D) q = (if s p = Some q then 0 else pending s D q)"
  using assms by (auto simp: pending_def chain_ok_def)

text \<open>Following one chain from a visited position.\<close>

lemma release_ok:
  assumes c: "chain_ok m rk s1" and m: "m \<le> 2 ^ 32" and inv: "kahn_inv m s1 s2 D1 D2 indeg queue" and p: "p \<in> unat ` set queue" "p \<notin> D1" and s: "s1 p = Some q"
  shows "\<exists>indeg' ext. release (of_nat q) (indeg, queue) = Some (indeg', queue @ ext) \<and> kahn_inv m s1 s2 (insert p D1) D2 indeg' (queue @ ext)"
proof -
  let ?r = "of_nat q :: u32"
  have q: "q < m" using c s by (auto simp: chain_ok_def)
  have r: "unat ?r = q" using q m by (simp add: unat_of_nat_less)
  have pend: "pending s1 D1 q = 1" using s p(2) by (auto simp: pending_def)
  have d: "unat (indeg ! q) = 1 + pending s2 D2 q" using inv q pend by (simp add: kahn_inv_def)
  have d': "unat (indeg ! q - 1) = pending s2 D2 q" using d unat_minus_one [of "indeg ! q"] by (cases "indeg ! q = 0") simp_all
  have nq: "?r \<notin> set queue" using inv q d r unfolding kahn_inv_def by (metis image_eqI unat_0 add_is_0 zero_neq_one)
  define ext where "ext = (if indeg ! q - 1 = 0 then [?r] else [])"
  have rel: "release ?r (indeg, queue) = Some (indeg[q := indeg ! q - 1], queue @ ext)"
    using inv q by (simp add: release_def r ext_def kahn_inv_def)
  have len: "length indeg = m" using inv by (simp add: kahn_inv_def)
  have others: "pending s1 (insert p D1) q' = pending s1 D1 q'" if "q' \<noteq> q" for q' using s that by (simp add: pending_insert [OF c])
  have here: "pending s1 (insert p D1) q = 0" using s by (simp add: pending_insert [OF c])
  have cnt: "unat (indeg[q := indeg ! q - 1] ! q') = pending s1 (insert p D1) q' + pending s2 D2 q'
      \<and> (indeg[q := indeg ! q - 1] ! q' = 0 \<longleftrightarrow> q' \<in> unat ` set (queue @ ext))" if q': "q' < m" for q'
  proof (cases "q' = q")
    case True
    have "(indeg ! q - 1 = 0) = (q \<in> unat ` set (queue @ ext))"
      using nq r by (auto simp: ext_def)
    then show ?thesis using True len q d' here by simp
  next
    case False
    have "q' \<in> unat ` set (queue @ ext) \<longleftrightarrow> q' \<in> unat ` set queue" using False r by (auto simp: ext_def)
    then show ?thesis using False inv q' others [OF False] by (simp add: kahn_inv_def)
  qed
  have ord: "\<exists>j < i. unat ((queue @ ext) ! j) = x"
    if i: "i < length (queue @ ext)" and x: "s1 x = Some (unat ((queue @ ext) ! i)) \<or> s2 x = Some (unat ((queue @ ext) ! i))" for i x
  proof (cases "i < length queue")
    case True
    then obtain j where "j < i" "unat (queue ! j) = x" using inv x unfolding kahn_inv_def by (metis nth_append)
    then show ?thesis using True by (intro exI [of _ j]) (simp add: nth_append)
  next
    case False
    then have e: "ext = [?r]" "i = length queue" "indeg ! q - 1 = 0" using i by (auto simp: ext_def split: if_splits)
    then have "unat ((queue @ ext) ! i) = q" "pending s2 D2 q = 0" using r d' by (simp_all add: nth_append)
    then have "x \<in> insert p D1 \<or> x \<in> D2" using x here by (auto simp: pending_def split: if_splits)
    then have "x \<in> unat ` set queue" using inv p(1) by (auto simp: kahn_inv_def)
    then obtain j where "j < length queue" "unat (queue ! j) = x" by (auto simp: in_set_conv_nth)
    then show ?thesis using e(2) by (intro exI [of _ j]) (simp add: nth_append)
  qed
  have "kahn_inv m s1 s2 (insert p D1) D2 (indeg[q := indeg ! q - 1]) (queue @ ext)"
    unfolding kahn_inv_def
  proof (intro conjI allI impI)
    show "distinct (queue @ ext)" "\<forall>x \<in> set (queue @ ext). unat x < m"
      using inv nq q r by (auto simp: kahn_inv_def ext_def)
    show "insert p D1 \<subseteq> unat ` set (queue @ ext)" "D2 \<subseteq> unat ` set (queue @ ext)" using inv p(1) by (auto simp: kahn_inv_def)
  qed (use cnt ord len in auto)
  then show ?thesis using rel by blast
qed

lemma skip_ok:
  assumes c: "chain_ok m rk s1" and inv: "kahn_inv m s1 s2 D1 D2 indeg queue" and p: "p \<in> unat ` set queue" and s: "s1 p = None"
  shows "kahn_inv m s1 s2 (insert p D1) D2 indeg queue"
proof -
  have "pending s1 (insert p D1) q = pending s1 D1 q" for q using s by (simp add: pending_insert [OF c])
  then show ?thesis using inv p by (simp add: kahn_inv_def)
qed

section \<open>The walk\<close>

definition follow :: "nat option \<Rightarrow> 8 word list \<times> u32 list \<Rightarrow> (8 word list \<times> u32 list) option" where
  "follow s st = (case s of None \<Rightarrow> Some st | Some q \<Rightarrow> release (of_nat q) st)"

lemma follow_ok:
  assumes "chain_ok m rk s1" "m \<le> 2 ^ 32" "kahn_inv m s1 s2 D1 D2 indeg queue" "p \<in> unat ` set queue" "p \<notin> D1"
  shows "\<exists>indeg' ext. follow (s1 p) (indeg, queue) = Some (indeg', queue @ ext) \<and> kahn_inv m s1 s2 (insert p D1) D2 indeg' (queue @ ext)"
proof (cases "s1 p")
  case None
  then show ?thesis using skip_ok [OF assms(1,3,4)] by (intro exI [of _ indeg] exI [of _ "[]"]) (simp add: follow_def)
next
  case (Some q)
  then show ?thesis using release_ok [OF assms(1-5)] by (simp add: follow_def)
qed

text \<open>When nothing is queued any more, nothing is missing.\<close>

lemma kahn_complete:
  assumes c: "chain_ok m rk s1" "chain_ok m rk s2" and inv: "kahn_inv m s1 s2 (unat ` set queue) (unat ` set queue) indeg queue"
  shows "q < m \<Longrightarrow> q \<in> unat ` set queue"
proof (induction "rk q" arbitrary: q rule: less_induct)
  case less
  have "pending s1 (unat ` set queue) q = 0" "pending s2 (unat ` set queue) q = 0"
    using c less.hyps by (auto simp: pending_def chain_ok_def)
  then have "unat (indeg ! q) = 0" using inv less.prems unfolding kahn_inv_def by auto
  then have "indeg ! q = 0" by (simp only: unat_eq_zero)
  then show ?case using inv less.prems by (simp add: kahn_inv_def)
qed

definition linear_order :: "nat \<Rightarrow> (nat \<Rightarrow> nat option) \<Rightarrow> (nat \<Rightarrow> nat option) \<Rightarrow> u32 list \<Rightarrow> bool" where
  "linear_order m s1 s2 order \<longleftrightarrow> distinct order \<and> unat ` set order = {..<m}
    \<and> (\<forall>i < length order. \<forall>p. s1 p = Some (unat (order ! i)) \<or> s2 p = Some (unat (order ! i)) \<longrightarrow> (\<exists>j < i. unat (order ! j) = p))"

lemma kahn_loop_ok:
  assumes c: "chain_ok m rk s1" "chain_ok m rk s2" and m: "m \<le> 2 ^ 32"
    and visit: "\<And>x st. unat x < m \<Longrightarrow> kahn_visit g tm x st = do { st \<leftarrow> follow (s1 (unat x)) st; follow (s2 (unat x)) st }"
    and inv: "kahn_inv m s1 s2 (unat ` set (take head queue)) (unat ` set (take head queue)) indeg queue" "head \<le> length queue"
  shows "\<exists>order. kahn_loop g tm head indeg queue (take head queue) = Some order \<and> linear_order m s1 s2 order"
  using inv
proof (induction "m - head" arbitrary: head indeg queue rule: less_induct)
  case less
  have q: "distinct queue" "\<forall>x \<in> set queue. unat x < m" using less.prems(1) by (auto simp: kahn_inv_def)
  have len: "length queue \<le> m"
  proof -
    have "length queue = card (unat ` set queue)" using q(1) by (simp add: distinct_card card_image inj_on_def word_unat_eq_iff)
    also have "\<dots> \<le> card {..<m}" using q(2) by (intro card_mono) auto
    finally show ?thesis by simp
  qed
  show ?case
  proof (cases "head < length queue")
    case True
    let ?x = "queue ! head" and ?D = "unat ` set (take head queue)"
    have x: "unat ?x < m" "unat ?x \<in> unat ` set queue" using q(2) True by auto
    have nx: "unat ?x \<notin> ?D"
      using q(1) True by (auto simp: in_set_conv_nth nth_eq_iff_index_eq simp flip: word_unat_eq_iff)
    obtain i1 e1 where 1: "follow (s1 (unat ?x)) (indeg, queue) = Some (i1, queue @ e1)" "kahn_inv m s1 s2 (insert (unat ?x) ?D) ?D i1 (queue @ e1)"
      using follow_ok [OF c(1) m less.prems(1) x(2) nx] by blast
    have "unat ?x \<in> unat ` set (queue @ e1)" using x(2) by auto
    then obtain i2 e2 where 2: "follow (s2 (unat ?x)) (i1, queue @ e1) = Some (i2, (queue @ e1) @ e2)"
        "kahn_inv m s2 s1 (insert (unat ?x) ?D) (insert (unat ?x) ?D) i2 ((queue @ e1) @ e2)"
      using follow_ok [OF c(2) m kahn_inv_swap [OF 1(2)] _ nx] by blast
    have t: "take (head + 1) ((queue @ e1) @ e2) = take head queue @ [?x]" using True by (simp add: take_Suc_conv_app_nth)
    have "kahn_inv m s1 s2 (unat ` set (take (head + 1) ((queue @ e1) @ e2))) (unat ` set (take (head + 1) ((queue @ e1) @ e2))) i2 ((queue @ e1) @ e2)"
      using kahn_inv_swap [OF 2(2)] unfolding t by simp
    moreover have "m - (head + 1) < m - head" using True len by simp
    ultimately have "\<exists>order. kahn_loop g tm (head + 1) i2 ((queue @ e1) @ e2) (take (head + 1) ((queue @ e1) @ e2)) = Some order \<and> linear_order m s1 s2 order"
      using True by (intro less.hyps) auto
    moreover have "kahn_visit g tm ?x (indeg, queue) = Some (i2, (queue @ e1) @ e2)" using visit [OF x(1)] 1(1) 2(1) by simp
    ultimately show ?thesis using True unfolding t by (subst kahn_loop.simps) simp
  next
    case False
    then have e: "take head queue = queue" by simp
    have "kahn_inv m s1 s2 (unat ` set queue) (unat ` set queue) indeg queue" using less.prems(1) e by simp
    then have "unat ` set queue = {..<m}" using kahn_complete [OF c] q(2) by auto
    then have "linear_order m s1 s2 queue" using less.prems(1) by (simp add: linear_order_def kahn_inv_def)
    then show ?thesis using False e by (subst kahn_loop.simps) simp
  qed
qed

end
