(* ===== verification/ThawOrder.thy ===== *)
theory ThawOrder
  imports KahnWalk
begin

text \<open>
  The restaging order: the Kahn walk returns the outgoing positions in an order that keeps, for every node, the order of its outgoing and
  of its incoming range, so that the counting sort on the restaged relationships gives both adjacency directions back.
\<close>

section \<open>The next relationship of a node\<close>

definition next_rel :: "nat \<Rightarrow> nat list \<Rightarrow> nat \<Rightarrow> nat option" where
  "next_rel n ow i = (if i < length ow \<and> Suc (csr_pos ow i) < csr_start ow (Suc (ow ! i)) then Some (csr_order n ow ! Suc (csr_pos ow i)) else None)"

text \<open>Owners inside the id space.\<close>

definition below_n :: "nat \<Rightarrow> nat list \<Rightarrow> bool" where
  "below_n n ow \<longleftrightarrow> (\<forall>i < length ow. ow ! i < n)"

lemma below_n_facts:
  assumes "below_n n ow"
  shows "i < length ow \<Longrightarrow> ow ! i < n" "csr_start ow n = length ow" "bij_betw (csr_pos ow) {..<length ow} {..<length ow}"
    "p < length ow \<Longrightarrow> csr_order n ow ! p < length ow \<and> csr_pos ow (csr_order n ow ! p) = p" "i < length ow \<Longrightarrow> csr_order n ow ! csr_pos ow i = i"
    "i < length ow \<Longrightarrow> csr_pos ow i < length ow" "length (csr_order n ow) = length ow"
proof -
  have ow: "\<And>i. i < length ow \<Longrightarrow> ow ! i < n" using assms by (simp add: below_n_def)
  show "i < length ow \<Longrightarrow> ow ! i < n" by (rule ow)
  show t: "csr_start ow n = length ow" by (rule csr_start_total) (rule ow)
  show b: "bij_betw (csr_pos ow) {..<length ow} {..<length ow}" by (rule csr_pos_bij(1)) (rule ow)
  show "p < length ow \<Longrightarrow> csr_order n ow ! p < length ow \<and> csr_pos ow (csr_order n ow ! p) = p" by (rule csr_pos_bij(3) [OF ow])
  show "i < length ow \<Longrightarrow> csr_order n ow ! csr_pos ow i = i" using csr_order_pos(1) ow by blast
  show "i < length ow \<Longrightarrow> csr_pos ow i < length ow" using b by (auto simp: bij_betw_def)
  show "length (csr_order n ow) = length ow" using t by (simp add: length_csr_order)
qed

lemma csr_row_nth:
  assumes "u < n" "k < length (owned ow u)"
  shows "csr_order n ow ! (csr_start ow u + k) = owned ow u ! k"
  unfolding csr_order_def csr_start_def by (rule concat_upt_nth [where f = "owned ow", OF assms])

lemma owned_sorted: "sorted_wrt (<) (owned ow u)"
  unfolding owned_def by (intro sorted_wrt_filter sorted_wrt_upt)

lemma csr_pos_row:
  assumes "below_n n ow" "k < length (owned ow u)"
  shows "csr_pos ow (owned ow u ! k) = csr_start ow u + k" "owned ow u ! k < length ow" "ow ! (owned ow u ! k) = u"
proof -
  have m: "owned ow u ! k \<in> set (owned ow u)" using assms(2) by simp
  then show lt: "owned ow u ! k < length ow" "ow ! (owned ow u ! k) = u" by (auto simp: owned_def)
  have u: "u < n" using below_n_facts(1) [OF assms(1)] lt by metis
  have "csr_start ow u + k < length ow"
    using csr_start_mono [of "Suc u" n ow] u assms(2) below_n_facts(2) [OF assms(1)] by simp
  then show "csr_pos ow (owned ow u ! k) = csr_start ow u + k"
    using below_n_facts(4) [OF assms(1)] csr_row_nth [OF u assms(2)] by fastforce
qed

lemma owned_index:
  assumes "below_n n ow" "i < length ow"
  shows "\<exists>k < length (owned ow (ow ! i)). owned ow (ow ! i) ! k = i \<and> csr_pos ow i = csr_start ow (ow ! i) + k"
proof -
  have "i \<in> set (owned ow (ow ! i))" using assms(2) by (simp add: owned_def)
  then obtain k where "k < length (owned ow (ow ! i))" "owned ow (ow ! i) ! k = i" by (auto simp: in_set_conv_nth)
  then show ?thesis using csr_pos_row(1) [OF assms(1), of k "ow ! i"] by auto
qed

lemma next_rel_owned:
  assumes "below_n n ow" "Suc k < length (owned ow u)"
  shows "next_rel n ow (owned ow u ! k) = Some (owned ow u ! Suc k)"
proof -
  have k: "k < length (owned ow u)" using assms(2) by simp
  note r = csr_pos_row [OF assms(1) k]
  have u: "u < n" using r below_n_facts(1) [OF assms(1)] by metis
  show ?thesis using r assms(2) csr_row_nth [OF u assms(2)] by (simp add: next_rel_def)
qed

lemma next_rel_facts:
  assumes ow: "below_n n ow" and s: "next_rel n ow i = Some j"
  shows "i < length ow" "j < length ow" "i < j" "csr_pos ow j = Suc (csr_pos ow i)" "ow ! j = ow ! i"
proof -
  show i: "i < length ow" using s by (simp add: next_rel_def split: if_splits)
  obtain k where k: "k < length (owned ow (ow ! i))" "owned ow (ow ! i) ! k = i" "csr_pos ow i = csr_start ow (ow ! i) + k"
    using owned_index [OF ow i] by blast
  have sk: "Suc k < length (owned ow (ow ! i))" using s k(3) by (simp add: next_rel_def split: if_splits)
  have j: "j = owned ow (ow ! i) ! Suc k" using next_rel_owned [OF ow sk] k(2) s by simp
  show "j < length ow" "ow ! j = ow ! i" using csr_pos_row(2,3) [OF ow sk] j by simp_all
  show "i < j" using sorted_wrt_nth_less [OF owned_sorted, of k "Suc k" ow "ow ! i"] sk k(2) j by simp
  show "csr_pos ow j = Suc (csr_pos ow i)" using csr_pos_row(1) [OF ow sk] j k(3) by simp
qed

text \<open>Only the first relationship of a node's range has no predecessor.\<close>

lemma next_rel_head:
  assumes ow: "below_n n ow" and i: "i < length ow"
  shows "(\<exists>j. next_rel n ow j = Some i) \<longleftrightarrow> csr_pos ow i \<noteq> csr_start ow (ow ! i)"
proof
  assume "\<exists>j. next_rel n ow j = Some i"
  then obtain j where j: "next_rel n ow j = Some i" ..
  note f = next_rel_facts [OF ow j]
  have "csr_start ow (ow ! j) \<le> csr_pos ow j" by (simp add: csr_pos_def)
  then show "csr_pos ow i \<noteq> csr_start ow (ow ! i)" using f(4,5) by simp
next
  assume "csr_pos ow i \<noteq> csr_start ow (ow ! i)"
  moreover obtain k where k: "k < length (owned ow (ow ! i))" "owned ow (ow ! i) ! k = i" "csr_pos ow i = csr_start ow (ow ! i) + k"
    using owned_index [OF ow i] by blast
  ultimately obtain k' where "k = Suc k'" by (cases k) auto
  then show "\<exists>j. next_rel n ow j = Some i" using next_rel_owned [OF ow, of k' "ow ! i"] k(1,2) by auto
qed

text \<open>The chain of one direction, on the positions of the outgoing CSR.\<close>

definition pos_chain :: "nat \<Rightarrow> nat list \<Rightarrow> nat list \<Rightarrow> nat \<Rightarrow> nat option" where
  "pos_chain n src ow p = (if p < length src then map_option (csr_pos src) (next_rel n ow (csr_order n src ! p)) else None)"

lemma pos_chain_ok:
  assumes src: "below_n n src" and ow: "below_n n ow" and len: "length ow = length src"
  shows "chain_ok (length src) ((!) (csr_order n src)) (pos_chain n src ow)"
proof -
  note b = below_n_facts [OF src]
  have inj: "csr_pos ow i = csr_pos ow j \<Longrightarrow> i = j" if "i < length src" "j < length src" for i j
    using below_n_facts(3) [OF ow] that len by (auto simp: bij_betw_def inj_on_def)
  have "p < length src \<and> q < length src \<and> csr_order n src ! p < csr_order n src ! q" if c: "pos_chain n src ow p = Some q" for p q
  proof -
    obtain j where p: "p < length src" and j: "next_rel n ow (csr_order n src ! p) = Some j" "q = csr_pos src j"
      using c by (auto simp: pos_chain_def split: if_splits)
    note f = next_rel_facts [OF ow j(1)]
    have "q < length src" using b(6) f(2) j(2) len by simp
    then show ?thesis using p f(2,3) j(2) len b(5) by simp
  qed
  moreover have "p = p'" if c: "pos_chain n src ow p = Some q" "pos_chain n src ow p' = Some q" for p q p'
  proof -
    obtain j j' where p: "p < length src" "p' < length src" and j: "next_rel n ow (csr_order n src ! p) = Some j" "q = csr_pos src j"
        "next_rel n ow (csr_order n src ! p') = Some j'" "q = csr_pos src j'"
      using c by (auto simp: pos_chain_def split: if_splits)
    note f = next_rel_facts [OF ow j(1)] next_rel_facts [OF ow j(3)]
    have "j = j'" using f(2,7) j(2,4) b(5) len by metis
    then have "csr_order n src ! p = csr_order n src ! p'" using f(1,4,6,9) inj len by simp
    then show ?thesis using b(4) p by metis
  qed
  ultimately show ?thesis unfolding chain_ok_def by blast
qed

section \<open>Restaging keeps the adjacency\<close>

text \<open>A permutation that keeps the order along each node's relationships.\<close>

definition keeps_order :: "nat \<Rightarrow> nat list \<Rightarrow> nat list \<Rightarrow> bool" where
  "keeps_order n ow perm \<longleftrightarrow> distinct perm \<and> set perm = {..<length ow}
    \<and> (\<forall>i j. next_rel n ow i = Some j \<longrightarrow> (\<exists>k l. k < l \<and> l < length perm \<and> perm ! k = i \<and> perm ! l = j))"

lemma keeps_order_filter:
  assumes ow: "below_n n ow" and k: "keeps_order n ow perm"
  shows "filter (\<lambda>i. ow ! i = u) perm = owned ow u"
proof -
  define pos where "pos x = inv_into {..<length perm} ((!) perm) x" for x
  have d: "distinct perm" "set perm = {..<length ow}" using k by (auto simp: keeps_order_def)
  have inj: "inj_on ((!) perm) {..<length perm}" using d(1) by (simp add: inj_on_def nth_eq_iff_index_eq)
  have pos: "pos (perm ! i) = i" if "i < length perm" for i unfolding pos_def by (rule inv_into_f_f [OF inj]) (simp add: that)
  let ?R = "\<lambda>x y. pos x < pos y"
  have "sorted_wrt ?R perm" unfolding sorted_wrt_iff_nth_less using pos by simp
  then have 1: "sorted_wrt ?R (filter (\<lambda>i. ow ! i = u) perm)" by (rule sorted_wrt_filter)
  have "?R (owned ow u ! j) (owned ow u ! Suc j)" if "Suc j < length (owned ow u)" for j
    using k next_rel_owned [OF ow that] pos unfolding keeps_order_def by (metis order.strict_trans)
  moreover have "transp ?R" by (auto intro: transpI)
  ultimately have 2: "sorted_wrt ?R (owned ow u)" by (simp add: sorted_wrt_iff_nth_Suc_transp)
  have s: "set (filter (\<lambda>i. ow ! i = u) perm) = set (owned ow u)" using d(2) by (auto simp: owned_def)
  have ip: "inj_on pos (set (owned ow u))"
  proof (rule inj_onI)
    fix x y assume "x \<in> set (owned ow u)" "y \<in> set (owned ow u)" "pos x = pos y"
    then show "x = y" using pos d(2) by (metis (no_types, lifting) filter_is_subset in_set_conv_nth s subsetD)
  qed
  have "map pos (filter (\<lambda>i. ow ! i = u) perm) = map pos (owned ow u)"
    by (rule strict_sorted_equal) (use 1 2 s in \<open>auto simp: sorted_wrt_map simp del: set_filter\<close>)
  then show ?thesis by (rule map_inj_on) (use ip s in \<open>simp add: \<close>)
qed

lemma keeps_order_owned:
  assumes ow: "below_n n ow" and k: "keeps_order n ow perm"
  shows "map ((!) perm) (owned (map ((!) ow) perm) u) = owned ow u"
proof -
  have "map ((!) perm) (owned (map ((!) ow) perm) u) = map ((!) perm) (filter (\<lambda>j. ow ! (perm ! j) = u) [0..<length perm])"
    unfolding owned_def by (intro arg_cong [of _ _ "map ((!) perm)"] filter_cong) auto
  also have "\<dots> = filter (\<lambda>i. ow ! i = u) (map ((!) perm) [0..<length perm])" by (simp add: filter_map comp_def)
  also have "\<dots> = owned ow u" using keeps_order_filter [OF ow k] by (simp add: map_nth)
  finally show ?thesis .
qed

lemma keeps_order_csr:
  assumes ow: "below_n n ow" and k: "keeps_order n ow perm"
  shows "csr_start (map ((!) ow) perm) u = csr_start ow u" "map ((!) perm) (csr_order n (map ((!) ow) perm)) = csr_order n ow"
    "i < length perm \<Longrightarrow> csr_pos (map ((!) ow) perm) i = csr_pos ow (perm ! i)"
proof -
  note o = keeps_order_owned [OF ow k]
  have "length (owned (map ((!) ow) perm) v) = length (owned ow v)" for v using arg_cong [OF o [of v], of length] by simp
  then show s: "csr_start (map ((!) ow) perm) u = csr_start ow u" for u by (simp add: csr_start_def)
  show e: "map ((!) perm) (csr_order n (map ((!) ow) perm)) = csr_order n ow"
    by (simp add: csr_order_def map_concat o comp_def)
  assume i: "i < length perm"
  have d: "distinct perm" "set perm = {..<length ow}" using k by (auto simp: keeps_order_def)
  then have len: "length perm = length ow" using distinct_card [OF d(1)] by simp
  have "below_n n (map ((!) ow) perm)" using below_n_facts(1) [OF ow] d(2) nth_mem [of _ perm] by (auto simp: below_n_def)
  note f' = below_n_facts [OF this]
  let ?p = "csr_pos (map ((!) ow) perm) i"
  have p: "?p < length ow" using f'(6) [of i] i len by simp
  have "csr_order n ow ! ?p = perm ! (csr_order n (map ((!) ow) perm) ! ?p)" using arg_cong [OF e, of "\<lambda>xs. xs ! ?p"] p f'(7) len by simp
  also have "\<dots> = perm ! i" using f'(5) [of i] i by simp
  finally show "?p = csr_pos ow (perm ! i)" using below_n_facts(4) [OF ow p] by simp
qed

lemma restage_csr:
  assumes ok: "rels_ok n rels ts" and r: "csr_repr n rels ts e offs nbrs types" and k: "keeps_order n (owner_list e rels) perm"
  shows "csr_repr n (map ((!) rels) perm) (map ((!) ts) perm) e offs nbrs types"
proof -
  let ?ow = "owner_list e rels"
  have d: "set perm = {..<length rels}" using k by (simp add: keeps_order_def)
  have own: "below_n n ?ow" using rels_ok_owner [OF ok, of _ e] by (simp add: below_n_def)
  have ow': "owner_list e (map ((!) rels) perm) = map ((!) ?ow) perm" using d by (auto simp: owner_list_def)
  note c = keeps_order_csr [OF own k]
  have sub: "set (csr_order n (map ((!) ?ow) perm)) \<subseteq> {..<length perm}" by (auto simp: csr_order_def owned_def)
  have "map (\<lambda>i. other_of e (map ((!) rels) perm ! i)) (csr_order n (map ((!) ?ow) perm)) = map (\<lambda>i. other_of e (rels ! i)) (csr_order n ?ow)"
    unfolding c(2) [symmetric] map_map comp_def using sub by (intro map_cong) auto
  moreover have "map ((!) (map ((!) ts) perm)) (csr_order n (map ((!) ?ow) perm)) = map ((!) ts) (csr_order n ?ow)"
    unfolding c(2) [symmetric] map_map comp_def using sub by (intro map_cong) auto
  ultimately show ?thesis using r c(1) by (simp add: csr_repr_def Let_def ow')
qed


section \<open>The walk on the arrays\<close>

lemma scatter_enumerate:
  fixes ip :: "u32 list"
  assumes "distinct ip" "\<forall>p \<in> set ip. unat p < m"
  shows "\<exists>r. fold_opt (\<lambda>(k, p) r. slice_set r (unat p) (of_nat k)) (enumerate 0 ip) (replicate m (0 :: u32)) = Some r
    \<and> length r = m \<and> (\<forall>k < length ip. r ! unat (ip ! k) = of_nat k)"
proof -
  let ?P = "\<lambda>k (r :: u32 list). length r = m \<and> (\<forall>i < k. r ! unat (ip ! i) = of_nat i)"
  let ?f = "\<lambda>(k, p :: u32) (r :: u32 list). slice_set r (unat p) (of_nat k)"
  have "\<exists>r. fold_opt ?f (enumerate 0 ip) (replicate m 0) = Some r \<and> ?P (length (enumerate 0 ip)) r"
  proof (rule fold_opt_rule [where P = ?P])
    fix k and r :: "u32 list" assume "k < length (enumerate 0 ip)" and P: "?P k r"
    then have k: "k < length ip" by simp
    have lt: "unat (ip ! k) < m" using assms(2) k by simp
    have "?f (enumerate 0 ip ! k) r = Some (r[unat (ip ! k) := of_nat k])" using k lt P by (simp add: nth_enumerate_eq)
    moreover have "r[unat (ip ! k) := of_nat k] ! unat (ip ! i) = of_nat i" if "i < Suc k" for i
    proof (cases "i = k")
      case False
      then have "ip ! k \<noteq> ip ! i" using that k assms(1) by (simp add: nth_eq_iff_index_eq)
      then show ?thesis using P that False by (simp add: nth_list_update word_unat_eq_iff)
    qed (use P lt in simp)
    ultimately show "\<exists>r'. ?f (enumerate 0 ip ! k) r = Some r' \<and> ?P (Suc k) r'" using P by (intro exI [of _ "r[unat (ip ! k) := of_nat k]"]) simp
  qed simp
  then show ?thesis by simp
qed

lemma ownersFromOffsets_ok:
  assumes offs: "length offs = n + 1" "\<And>u. u \<le> n \<Longrightarrow> unat (offs ! u) = csr_start ow u" and ow: "below_n n ow"
  shows "\<exists>r. ownersFromOffsets offs = Some r \<and> length r = length ow \<and> (\<forall>p < length ow. r ! p = of_nat (ow ! (csr_order n ow ! p)))"
proof -
  note f = below_n_facts [OF ow]
  have "unat (offs ! n) = length ow" using offs(2) [of n] f(2) by simp
  then have e: "ownersFromOffsets offs = ownersOf offs (length ow)" using offs(1) by (simp add: ownersFromOffsets_def ownersOf_def flip: length_greater_0_conv)
  have "\<And>i. i < length ow \<Longrightarrow> ow ! i < n" using f(1) .
  then obtain r where r: "ownersOf offs (length ow) = Some r" "length r = length ow" "\<forall>i < length ow. r ! csr_pos ow i = of_nat (ow ! i)"
    using ownersOf_ok [of offs n ow, OF offs] by blast
  moreover have "r ! p = of_nat (ow ! (csr_order n ow ! p))" if "p < length ow" for p using r(3) f(4) [OF that] by metis
  ultimately show ?thesis using e by auto
qed

text \<open>A snapshot whose two directions come from one list of relationships.\<close>

definition csr_of :: "nat \<Rightarrow> rel list \<Rightarrow> RelType list \<Rightarrow> 'bm Snapshot \<Rightarrow> bool" where
  "csr_of n rels ts g \<longleftrightarrow> rels_ok n rels ts \<and> (\<forall>t \<in> set ts. unat t + 1 < 2 ^ 32)
    \<and> csr_repr n rels ts 0 (outOffsets g) (outNbrs g) (outTypes g) \<and> csr_repr n rels ts 1 (inOffsets g) (inNbrs g) (inTypes g)
    \<and> (\<forall>m. inToOut g = Some m \<longrightarrow> m = [] \<or> computeInToOutFromCSR (outOffsets g) (outNbrs g) (outTypes g) (inOffsets g) (inNbrs g) (inTypes g) = Some m)"

definition maps_ok :: "nat \<Rightarrow> nat list \<Rightarrow> nat list \<Rightarrow> thaw_maps \<Rightarrow> bool" where
  "maps_ok n src dst tm \<longleftrightarrow> length (tm_src tm) = length src \<and> length (tm_dst tm) = length src \<and> length (tm_ito tm) = length src \<and> length (tm_oti tm) = length src
    \<and> (\<forall>p < length src. unat (tm_src tm ! p) = src ! (csr_order n src ! p) \<and> unat (tm_dst tm ! p) = dst ! (csr_order n dst ! p)
      \<and> unat (tm_ito tm ! p) = csr_pos src (csr_order n dst ! p) \<and> unat (tm_oti tm ! p) = csr_pos dst (csr_order n src ! p))"

lemma csr_of_facts:
  assumes "csr_of n rels ts g"
  shows "below_n n (owner_list e rels)" "length (owner_list e rels) = length rels" "length (outNbrs g) = length rels" "length rels < 2 ^ 32" "n < 2 ^ 32"
    "length (outOffsets g) = n + 1" "length (inOffsets g) = n + 1"
    "u \<le> n \<Longrightarrow> unat (outOffsets g ! u) = csr_start (owner_list 0 rels) u" "u \<le> n \<Longrightarrow> unat (inOffsets g ! u) = csr_start (owner_list 1 rels) u"
proof -
  have ok: "rels_ok n rels ts" and o: "csr_repr n rels ts 0 (outOffsets g) (outNbrs g) (outTypes g)" and i: "csr_repr n rels ts 1 (inOffsets g) (inNbrs g) (inTypes g)"
    using assms by (auto simp: csr_of_def)
  show "below_n n (owner_list e rels)" using rels_ok_owner [OF ok, of _ e] by (simp add: below_n_def)
  show "length (outNbrs g) = length rels" by (rule csr_repr_facts(2) [OF ok o])
  show "length rels < 2 ^ 32" "n < 2 ^ 32" using ok by (simp_all add: rels_ok_def)
  show "length (outOffsets g) = n + 1" "u \<le> n \<Longrightarrow> unat (outOffsets g ! u) = csr_start (owner_list 0 rels) u" using o by (auto simp: csr_repr_def Let_def)
  show "length (inOffsets g) = n + 1" "u \<le> n \<Longrightarrow> unat (inOffsets g ! u) = csr_start (owner_list 1 rels) u" using i by (auto simp: csr_repr_def Let_def)
qed simp

lemma thaw_maps_ok:
  assumes c: "csr_of n rels ts g" and ne: "rels \<noteq> []"
  shows "\<exists>tm. thaw_maps_of g = Some tm \<and> maps_ok n (owner_list 0 rels) (owner_list 1 rels) tm"
proof -
  let ?s = "owner_list 0 rels" and ?d = "owner_list 1 rels" and ?m = "length rels"
  note f = csr_of_facts [OF c]
  note s = below_n_facts [OF f(1) [of 0]] and d = below_n_facts [OF f(1) [of 1]]
  obtain ito where ito: "computeInToOutFromCSR (outOffsets g) (outNbrs g) (outTypes g) (inOffsets g) (inNbrs g) (inTypes g) = Some ito"
      "length ito = ?m" "\<forall>i < ?m. unat (ito ! csr_pos ?d i) = csr_pos ?s i"
    using computeInToOut_ok [of n rels ts "outOffsets g" "outNbrs g" "outTypes g" "inOffsets g" "inNbrs g" "inTypes g"] c by (auto simp: csr_of_def)
  have itop: "unat (ito ! q) = csr_pos ?s (csr_order n ?d ! q)" if "q < ?m" for q using ito(3) d(4) [of q] that by (metis f(2))
  have lt: "unat (ito ! q) < ?m" if "q < ?m" for q using itop [OF that] s(6) [of "csr_order n ?d ! q"] d(4) [of q] that by simp
  have "inToOut g = Some m \<Longrightarrow> m = [] \<or> m = ito" for m using c ito(1) by (auto simp: csr_of_def)
  then have i0: "(let ito = (case inToOut g of None \<Rightarrow> [] | Some m \<Rightarrow> m) in
      if ito = [] then computeInToOutFromCSR (outOffsets g) (outNbrs g) (outTypes g) (inOffsets g) (inNbrs g) (inTypes g) else Some ito) = Some ito"
    using ito(1) by (auto split: option.split)
  have dist: "distinct ito"
  proof (rule distinct_conv_nth [THEN iffD2], intro allI impI)
    fix i j assume ij: "i < length ito" "j < length ito" "i \<noteq> j"
    then have "csr_order n ?d ! i \<noteq> csr_order n ?d ! j" using d(4) [of i] d(4) [of j] ito(2) by (metis f(2))
    then have "csr_pos ?s (csr_order n ?d ! i) \<noteq> csr_pos ?s (csr_order n ?d ! j)"
      using s(3) d(4) [of i] d(4) [of j] ij ito(2) by (auto simp: bij_betw_def inj_on_def)
    then show "ito ! i \<noteq> ito ! j" using itop ij ito(2) by metis
  qed
  have lti: "\<forall>p \<in> set ito. unat p < ?m" using lt ito(2) by (auto simp: in_set_conv_nth)
  obtain oti where oti: "fold_opt (\<lambda>(k, p) r. slice_set r (unat p) (of_nat k)) (enumerate 0 ito) (replicate ?m (0 :: u32)) = Some oti"
      "length oti = ?m" "\<forall>k < ?m. oti ! unat (ito ! k) = of_nat k"
    using scatter_enumerate [OF dist lti] ito(2) by auto
  have otip: "unat (oti ! p) = csr_pos ?d (csr_order n ?s ! p)" if p: "p < ?m" for p
  proof -
    let ?i = "csr_order n ?s ! p" and ?q = "csr_pos ?d (csr_order n ?s ! p)"
    have i: "?i < ?m" "csr_pos ?s ?i = p" using s(4) [of p] p by simp_all
    have q: "?q < ?m" using d(6) [of ?i] i(1) by simp
    have "unat (ito ! ?q) = p" using ito(3) i by simp
    then have "oti ! p = of_nat ?q" using oti(3) q by metis
    then show ?thesis using q f(4) by (simp add: unat_of_nat_less)
  qed
  obtain sr where sr: "ownersFromOffsets (outOffsets g) = Some sr" "length sr = ?m" "\<forall>p < ?m. sr ! p = of_nat (?s ! (csr_order n ?s ! p))"
    using ownersFromOffsets_ok [OF f(6) f(8) f(1) [of 0]] by auto
  obtain dr where dr: "ownersFromOffsets (inOffsets g) = Some dr" "length dr = ?m" "\<forall>p < ?m. dr ! p = of_nat (?d ! (csr_order n ?d ! p))"
    using ownersFromOffsets_ok [OF f(7) f(9) f(1) [of 1]] by auto
  have "?s ! (csr_order n ?s ! p) < 2 ^ 32" "?d ! (csr_order n ?d ! p) < 2 ^ 32" if "p < ?m" for p
    using s(1) [of "csr_order n ?s ! p"] s(4) [of p] d(1) [of "csr_order n ?d ! p"] d(4) [of p] that f(5) by simp_all
  then have "maps_ok n ?s ?d \<lparr>tm_src = sr, tm_dst = dr, tm_ito = ito, tm_oti = oti\<rparr>"
    using sr(2,3) dr(2,3) ito(2) oti(2) itop otip by (simp add: maps_ok_def unat_of_nat_less)
  moreover have "thaw_maps_of g = Some \<lparr>tm_src = sr, tm_dst = dr, tm_ito = ito, tm_oti = oti\<rparr>"
    using i0 oti(1) sr(1) dr(1) f(3) by (simp add: thaw_maps_of_def Let_def)
  ultimately show ?thesis by blast
qed


lemma kahn_visit_eq:
  assumes c: "csr_of n rels ts g" and tm: "maps_ok n (owner_list 0 rels) (owner_list 1 rels) tm" and x: "unat x < length rels"
  shows "kahn_visit g tm x st = do {
      st \<leftarrow> follow (pos_chain n (owner_list 0 rels) (owner_list 0 rels) (unat x)) st;
      follow (pos_chain n (owner_list 0 rels) (owner_list 1 rels) (unat x)) st }"
proof -
  let ?s = "owner_list 0 rels" and ?d = "owner_list 1 rels" and ?m = "length rels"
  let ?i = "csr_order n ?s ! unat x"
  note f = csr_of_facts [OF c]
  note s = below_n_facts [OF f(1) [of 0]] and d = below_n_facts [OF f(1) [of 1]]
  note M = tm [unfolded maps_ok_def]
  have i: "?i < ?m" "csr_pos ?s ?i = unat x" using s(4) [of "unat x"] x by simp_all
  let ?q = "csr_pos ?d ?i"
  have q: "?q < ?m" "csr_order n ?d ! ?q = ?i" using d(6) [of ?i] d(5) [of ?i] i(1) by simp_all
  let ?u = "tm_src tm ! unat x" and ?v = "tm_dst tm ! ?q"
  have u: "unat ?u = ?s ! ?i" "?s ! ?i < n" using M x s(1) [of ?i] i(1) by auto
  have v: "unat ?v = ?d ! ?i" "?d ! ?i < n" using M q d(1) [of ?i] i(1) by auto
  have u1: "unat (?u + 1) = Suc (?s ! ?i)" "unat (?v + 1) = Suc (?d ! ?i)" using u v f(5) by (simp_all add: unat_inc)
  have x1: "unat (x + 1) = Suc (unat x)" using x f(4) by (simp add: unat_inc)
  let ?y = "tm_oti tm ! unat x"
  have y: "unat ?y = ?q" "unat (?y + 1) = Suc ?q" using M x q(1) f(4) by (simp_all add: unat_inc)
  have b: "unat (outOffsets g ! Suc (?s ! ?i)) = csr_start ?s (Suc (?s ! ?i))" "unat (inOffsets g ! Suc (?d ! ?i)) = csr_start ?d (Suc (?d ! ?i))"
    using f(8) [of "Suc (?s ! ?i)"] f(9) [of "Suc (?d ! ?i)"] u(2) v(2) by simp_all
  have c1: "x + 1 < outOffsets g ! Suc (?s ! ?i) \<longleftrightarrow> Suc (unat x) < csr_start ?s (Suc (?s ! ?i))" unfolding word_less_nat_alt x1 b ..
  have c2: "?y + 1 < inOffsets g ! Suc (?d ! ?i) \<longleftrightarrow> Suc ?q < csr_start ?d (Suc (?d ! ?i))" unfolding word_less_nat_alt y b ..
  have F1: "follow (pos_chain n ?s ?s (unat x)) st = (if x + 1 < outOffsets g ! Suc (?s ! ?i) then release (x + 1) st else Some st)" for st
  proof (cases "Suc (unat x) < csr_start ?s (Suc (?s ! ?i))")
    case True
    have "Suc (unat x) < ?m" using True csr_start_mono [of "Suc (?s ! ?i)" n ?s] u(2) s(2) by simp
    then have "csr_pos ?s (csr_order n ?s ! Suc (unat x)) = Suc (unat x)" using s(4) by simp
    moreover have "of_nat (Suc (unat x)) = x + 1" by (metis x1 of_nat_unat ucast_id)
    ultimately show ?thesis using True i x unfolding c1 by (simp add: follow_def pos_chain_def next_rel_def add.commute)
  qed (use i x c1 in \<open>simp add: follow_def pos_chain_def next_rel_def\<close>)
  have F2: "follow (pos_chain n ?s ?d (unat x)) st = (if ?y + 1 < inOffsets g ! Suc (?d ! ?i) then release (tm_ito tm ! Suc ?q) st else Some st)
      \<and> (?y + 1 < inOffsets g ! Suc (?d ! ?i) \<longrightarrow> Suc ?q < ?m)" for st
  proof (cases "Suc ?q < csr_start ?d (Suc (?d ! ?i))")
    case True
    have sq: "Suc ?q < ?m" using True csr_start_mono [of "Suc (?d ! ?i)" n ?d] v(2) d(2) by simp
    then have "unat (tm_ito tm ! Suc ?q) = csr_pos ?s (csr_order n ?d ! Suc ?q)" using M by simp
    then have "of_nat (csr_pos ?s (csr_order n ?d ! Suc ?q)) = tm_ito tm ! Suc ?q" by (metis of_nat_unat ucast_id)
    then show ?thesis using True i x sq unfolding c2 by (simp add: follow_def pos_chain_def next_rel_def)
  qed (use i x c2 in \<open>simp add: follow_def pos_chain_def next_rel_def\<close>)
  have len: "unat x < length (tm_src tm)" "unat x < length (tm_oti tm)" "?q < length (tm_dst tm)" "Suc (?s ! ?i) < length (outOffsets g)" "Suc (?d ! ?i) < length (inOffsets g)"
      "length (tm_ito tm) = ?m"
    using M x q(1) f(6,7) u(2) v(2) by simp_all
  have "kahn_visit g tm x st = do {
      st \<leftarrow> (if x + 1 < outOffsets g ! Suc (?s ! ?i) then release (x + 1) st else Some st);
      if ?y + 1 < inOffsets g ! Suc (?d ! ?i) then do { p' \<leftarrow> slice_at (tm_ito tm) (Suc ?q); release p' st } else Some st }"
    unfolding kahn_visit_def using len by (simp only: slice_at_simps Option.bind.simps u1 y(2)) (simp only: slice_at_simps Option.bind.simps y(1) u1 len)
  also have "\<dots> = do { st \<leftarrow> follow (pos_chain n ?s ?s (unat x)) st; follow (pos_chain n ?s ?d (unat x)) st }"
    unfolding F1 using F2 len(6) by (intro arg_cong2 [of _ _ _ _ Option.bind] ext refl) simp
  finally show ?thesis .
qed

lemma pending_empty:
  assumes s: "below_n n src" and o: "below_n n ow" "length ow = length src" and p: "p < length src"
  shows "pending (pos_chain n src ow) {} p = (if csr_pos ow (csr_order n src ! p) \<noteq> csr_start ow (ow ! (csr_order n src ! p)) then 1 else 0)"
proof -
  note f = below_n_facts [OF s]
  let ?i = "csr_order n src ! p"
  have i: "?i < length src" "csr_pos src ?i = p" using f(4) [OF p] by auto
  have "(\<exists>p'. pos_chain n src ow p' = Some p) \<longleftrightarrow> (\<exists>j. next_rel n ow j = Some ?i)"
  proof
    assume "\<exists>p'. pos_chain n src ow p' = Some p"
    then obtain p' j where "p' < length src" and j: "next_rel n ow (csr_order n src ! p') = Some j" "p = csr_pos src j"
      by (auto simp: pos_chain_def split: if_splits)
    then show "\<exists>j. next_rel n ow j = Some ?i" using f(5) [of j] next_rel_facts(2) [OF o(1) j(1)] o(2) by auto
  next
    assume "\<exists>j. next_rel n ow j = Some ?i"
    then obtain j where j: "next_rel n ow j = Some ?i" ..
    then have "j < length src" using next_rel_facts(1) [OF o(1) j] o(2) by simp
    then have "pos_chain n src ow (csr_pos src j) = Some p" using f(5,6) j i(2) by (simp add: pos_chain_def)
    then show "\<exists>p'. pos_chain n src ow p' = Some p" ..
  qed
  then show ?thesis using next_rel_head [OF o(1), of ?i] i(1) o(2) by (simp add: pending_def)
qed

lemma thaw_indeg_ok:
  assumes c: "csr_of n rels ts g" and tm: "maps_ok n (owner_list 0 rels) (owner_list 1 rels) tm"
  shows "\<exists>indeg. fold_opt (thaw_indeg g tm) [0..<length rels] (replicate (length rels) 0) = Some indeg \<and> length indeg = length rels
    \<and> (\<forall>p < length rels. unat (indeg ! p) = pending (pos_chain n (owner_list 0 rels) (owner_list 0 rels)) {} p + pending (pos_chain n (owner_list 0 rels) (owner_list 1 rels)) {} p)"
proof -
  let ?s = "owner_list 0 rels" and ?d = "owner_list 1 rels" and ?m = "length rels"
  define w where "w p = pending (pos_chain n ?s ?s) {} p + pending (pos_chain n ?s ?d) {} p" for p
  note f = csr_of_facts [OF c]
  note s = below_n_facts [OF f(1) [of 0]] and d = below_n_facts [OF f(1) [of 1]]
  note M = tm [unfolded maps_ok_def]
  let ?P = "\<lambda>k (indeg :: 8 word list). length indeg = ?m \<and> (\<forall>p < ?m. unat (indeg ! p) = (if p < k then w p else 0))"
  have "\<exists>indeg. fold_opt (thaw_indeg g tm) [0..<?m] (replicate ?m 0) = Some indeg \<and> ?P (length [0..<?m]) indeg"
  proof (rule fold_opt_rule [where P = ?P])
    fix p and indeg :: "8 word list" assume "p < length [0..<?m]" and P: "?P p indeg"
    then have p: "p < ?m" by simp
    let ?i = "csr_order n ?s ! p"
    have i: "?i < ?m" "csr_pos ?s ?i = p" using s(4) [of p] p by simp_all
    let ?q = "csr_pos ?d ?i"
    have q: "?q < ?m" "csr_order n ?d ! ?q = ?i" using d(6) [of ?i] d(5) [of ?i] i(1) by simp_all
    have u: "unat (tm_src tm ! p) = ?s ! ?i" "?s ! ?i < n" using M p s(1) [of ?i] i(1) by auto
    have v: "unat (tm_dst tm ! ?q) = ?d ! ?i" "?d ! ?i < n" using M q d(1) [of ?i] i(1) by auto
    have y: "unat (tm_oti tm ! p) = ?q" using M p by simp
    have b: "unat (outOffsets g ! (?s ! ?i)) = csr_start ?s (?s ! ?i)" "unat (inOffsets g ! (?d ! ?i)) = csr_start ?d (?d ! ?i)"
      using f(8) [of "?s ! ?i"] f(9) [of "?d ! ?i"] u(2) v(2) by simp_all
    have c1: "of_nat p \<noteq> outOffsets g ! (?s ! ?i) \<longleftrightarrow> pending (pos_chain n ?s ?s) {} p = 1"
      using pending_empty [OF f(1) f(1), of 0 0 p] p i(2) b(1) f(4) by (simp add: word_unat_eq_iff unat_of_nat_less)
    have c2: "tm_oti tm ! p \<noteq> inOffsets g ! (?d ! ?i) \<longleftrightarrow> pending (pos_chain n ?s ?d) {} p = 1"
      using pending_empty [OF f(1) f(1), of 1 0 p] p b(2) y by (simp add: word_unat_eq_iff)
    have z: "indeg ! p = 0" using P p by (simp flip: unat_eq_zero)
    have w: "w p = (if of_nat p \<noteq> outOffsets g ! (?s ! ?i) then 1 else 0) + (if tm_oti tm ! p \<noteq> inOffsets g ! (?d ! ?i) then 1 else 0)"
      unfolding w_def c1 c2 by (auto simp: pending_def)
    have len: "p < length (tm_src tm)" "p < length (tm_oti tm)" "?q < length (tm_dst tm)" "?s ! ?i < length (outOffsets g)" "?d ! ?i < length (inOffsets g)"
      using M p q(1) f(6,7) u(2) v(2) by simp_all
    have t: "thaw_indeg g tm p indeg = Some (indeg[p := of_nat (w p)])"
      unfolding thaw_indeg_def using len p P z list_update_id [of indeg p] by (simp add: inc8_at_def u(1) v(1) y w del: One_nat_def)
    have "unat (of_nat (w p) :: 8 word) = w p" by (rule unat_of_nat_less) (auto simp: w)
    then have "?P (Suc p) (indeg[p := of_nat (w p)])" using P by (auto simp: nth_list_update less_Suc_eq)
    then show "\<exists>u'. thaw_indeg g tm ([0..<?m] ! p) indeg = Some u' \<and> ?P (Suc p) u'" using t p by auto
  qed simp
  then show ?thesis by (auto simp: w_def)
qed


text \<open>The walk ends with every position, in an order that both directions keep.\<close>

definition thaw_perm :: "nat \<Rightarrow> rel list \<Rightarrow> u32 list \<Rightarrow> nat list" where
  "thaw_perm n rels order = map (\<lambda>p. csr_order n (owner_list 0 rels) ! unat p) order"

lemma linear_keeps_order:
  assumes s: "below_n n src" and o: "below_n n ow" "length ow = length src" and d: "distinct order" "unat ` set order = {..<length src}"
    and lin: "\<And>i p. i < length order \<Longrightarrow> pos_chain n src ow p = Some (unat (order ! i)) \<Longrightarrow> \<exists>j < i. unat (order ! j) = p"
  shows "keeps_order n ow (map (\<lambda>p. csr_order n src ! unat p) order)"
proof -
  note f = below_n_facts [OF s]
  let ?perm = "map (\<lambda>p. csr_order n src ! unat p) order"
  have sub: "unat p < length src" if "p \<in> set order" for p using imageI [OF that, of unat] d(2) by simp
  have "inj_on (\<lambda>p. csr_order n src ! unat p) (set order)"
  proof (rule inj_onI)
    fix p q assume pq: "p \<in> set order" "q \<in> set order" and e: "csr_order n src ! unat p = csr_order n src ! unat q"
    have "csr_pos src (csr_order n src ! unat p) = csr_pos src (csr_order n src ! unat q)" by (simp only: e)
    then have "unat p = unat q" using conjunct2 [OF f(4) [OF sub [OF pq(1)]]] conjunct2 [OF f(4) [OF sub [OF pq(2)]]] by (simp only:)
    then show "p = q" by (simp add: word_unat_eq_iff)
  qed
  then have "distinct ?perm" using d(1) by (simp add: distinct_map)
  moreover have "set ?perm = {..<length ow}"
  proof -
    have "set ?perm = (!) (csr_order n src) ` unat ` set order" by auto
    also have "\<dots> = {..<length src}" unfolding d(2)
    proof
      show "(!) (csr_order n src) ` {..<length src} \<subseteq> {..<length src}" using f(4) by auto
      show "{..<length src} \<subseteq> (!) (csr_order n src) ` {..<length src}" using f(5,6) by (metis image_eqI lessThan_iff subsetI)
    qed
    finally show ?thesis using o(2) by simp
  qed
  moreover have "\<exists>k l. k < l \<and> l < length ?perm \<and> ?perm ! k = i \<and> ?perm ! l = j" if "next_rel n ow i = Some j" for i j
  proof -
    note x = next_rel_facts(1,2) [OF o(1) that]
    have "csr_pos src j \<in> unat ` set order" unfolding d(2) using f(6) x(2) o(2) by simp
    then obtain l where l: "l < length order" "unat (order ! l) = csr_pos src j" by (auto simp: in_set_conv_nth)
    have "pos_chain n src ow (csr_pos src i) = Some (unat (order ! l))" using that l(2) f(5,6) x o(2) by (simp add: pos_chain_def)
    then obtain k where k: "k < l" "unat (order ! k) = csr_pos src i" using lin [OF l(1)] by blast
    show ?thesis using k l f(5) x o(2) by (intro exI [of _ k] exI [of _ l]) simp
  qed
  ultimately show ?thesis unfolding keeps_order_def by blast
qed

lemma thawRelOrder_ok:
  assumes c: "csr_of n rels ts g"
  shows "\<exists>order. thawRelOrder g = Some order \<and> distinct order \<and> unat ` set order = {..<length rels}
    \<and> keeps_order n (owner_list 0 rels) (thaw_perm n rels order) \<and> keeps_order n (owner_list 1 rels) (thaw_perm n rels order)"
proof (cases "rels = []")
  case True
  note f = csr_of_facts [OF c]
  have "keeps_order n (owner_list e rels) (thaw_perm n rels [])" for e using True by (simp add: keeps_order_def next_rel_def thaw_perm_def owner_list_def)
  then show ?thesis using True f(3) by (intro exI [of _ "[]"]) (simp add: thawRelOrder_def)
next
  case False
  let ?s = "owner_list 0 rels" and ?d = "owner_list 1 rels" and ?m = "length rels"
  let ?s1 = "pos_chain n ?s ?s" and ?s2 = "pos_chain n ?s ?d"
  note f = csr_of_facts [OF c]
  obtain tm where tm: "thaw_maps_of g = Some tm" "maps_ok n ?s ?d tm" using thaw_maps_ok [OF c False] by blast
  obtain indeg where ind: "fold_opt (thaw_indeg g tm) [0..<?m] (replicate ?m 0) = Some indeg" "length indeg = ?m"
      "\<And>p. p < ?m \<Longrightarrow> unat (indeg ! p) = pending ?s1 {} p + pending ?s2 {} p"
    using thaw_indeg_ok [OF c tm(2)] by blast
  define queue where "queue = map (of_nat :: nat \<Rightarrow> u32) (filter (\<lambda>p. indeg ! p = 0) [0..<?m])"
  have un: "unat (of_nat p :: u32) = p" if "p < ?m" for p using that f(4) by (simp add: unat_of_nat_less)
  have uq: "map unat queue = filter (\<lambda>p. indeg ! p = 0) [0..<?m]" unfolding queue_def map_map using un by (intro map_idI) simp
  have us: "unat ` set queue = {p. p < ?m \<and> indeg ! p = 0}" using arg_cong [OF uq, of set] by auto
  have nopred: "?s1 p \<noteq> Some q \<and> ?s2 p \<noteq> Some q" if "q \<in> unat ` set queue" for p q
  proof -
    have "pending ?s1 {} q + pending ?s2 {} q = 0" using that ind(3) [of q] by (simp add: us)
    then show ?thesis by (auto simp: pending_def split: if_splits)
  qed
  have "distinct queue" using arg_cong [OF uq, of distinct] by (simp add: distinct_map)
  moreover have "indeg ! q = 0 \<longleftrightarrow> q \<in> unat ` set queue" if "q < ?m" for q using that by (simp add: us)
  moreover have "\<forall>x \<in> set queue. unat x < ?m" using us by blast
  moreover have "unat (queue ! i) \<in> unat ` set queue" if "i < length queue" for i using that by simp
  ultimately have "kahn_inv ?m ?s1 ?s2 {} {} indeg queue" using ind(2,3) nopred unfolding kahn_inv_def by blast
  then have inv: "kahn_inv ?m ?s1 ?s2 (unat ` set (take 0 queue)) (unat ` set (take 0 queue)) indeg queue" by simp
  have ch: "chain_ok ?m ((!) (csr_order n ?s)) ?s1" "chain_ok ?m ((!) (csr_order n ?s)) ?s2"
    using pos_chain_ok [OF f(1) [of 0] f(1) [of 0]] pos_chain_ok [OF f(1) [of 0] f(1) [of 1]] by simp_all
  have m: "?m \<le> 2 ^ 32" using f(4) by simp
  obtain order where ord: "kahn_loop g tm 0 indeg queue [] = Some order" "linear_order ?m ?s1 ?s2 order"
    using kahn_loop_ok [OF ch m kahn_visit_eq [OF c tm(2)] inv] by auto
  have d: "distinct order" "unat ` set order = {..<?m}"
    and lin: "\<And>i p. i < length order \<Longrightarrow> ?s1 p = Some (unat (order ! i)) \<or> ?s2 p = Some (unat (order ! i)) \<Longrightarrow> \<exists>j < i. unat (order ! j) = p"
    using ord(2) unfolding linear_order_def by blast+
  have "length order = ?m" using d by (metis card_image card_lessThan distinct_card inj_on_def word_unat_eq_iff)
  then have "thawRelOrder g = Some order"
    using False tm(1) ind(1) ord(1) f(3) by (simp add: thawRelOrder_def complete_order_def queue_def)
  moreover have "keeps_order n ?s (thaw_perm n rels order)"
    unfolding thaw_perm_def by (rule linear_keeps_order [OF f(1) f(1)]) (use d lin in auto)
  moreover have "keeps_order n ?d (thaw_perm n rels order)"
    unfolding thaw_perm_def by (rule linear_keeps_order [OF f(1) f(1)]) (use d lin in auto)
  ultimately show ?thesis using d by blast
qed

end
