(* ===== verification/Restage.thy ===== *)
theory Restage
  imports ColumnBuild
begin

text \<open>
  Columns rebuilt from their own entries. What a column builder makes depends only on the last write of each position, so restaging the
  entries of a finished column builds the same column, storage layout included.
\<close>

lemma staged_map_nth: "distinct (map pid ps) \<Longrightarrow> i < length ps \<Longrightarrow> staged_map ps (pid (ps ! i)) = Some (pval (ps ! i))"
proof (induction ps arbitrary: i)
  case (Cons p ps)
  then show ?case using staged_map_None [of ps "pid p"] by (cases i) (auto simp: staged_map_Cons)
qed simp

lemma lww_ext:
  assumes "staged_map ps = staged_map ps'"
  shows "sortPairsLastWriteWins ps = sortPairsLastWriteWins ps'"
proof -
  let ?a = "sortPairsLastWriteWins ps" and ?b = "sortPairsLastWriteWins ps'"
  have "set (map pid ?a) = set (map pid ?b)" using lww_ok(3) [of ps] lww_ok(3) [of ps'] dom_staged_map [of ps] dom_staged_map [of ps'] assms by simp
  then have ids: "map pid ?a = map pid ?b" using lww_ok(1) by (intro strict_sorted_equal) auto
  have d: "distinct (map pid ?a)" "distinct (map pid ?b)" using lww_ok(1) sorted_wrt_less_distinct by blast+
  have vals: "pval (?a ! i) = pval (?b ! i)" if i: "i < length ?a" for i
  proof -
    have len: "length ?b = length ?a" using arg_cong [OF ids, of length] by simp
    have id: "pid (?a ! i) = pid (?b ! i)" using arg_cong [OF ids, of "\<lambda>xs. xs ! i"] i len by simp
    have "staged_map ?a (pid (?a ! i)) = Some (pval (?a ! i))" "staged_map ?b (pid (?b ! i)) = Some (pval (?b ! i))"
      using staged_map_nth [OF d(1) i] staged_map_nth [OF d(2), of i] i len by simp_all
    then show ?thesis using lww_ok(2) [of ps] lww_ok(2) [of ps'] assms id by simp
  qed
  show ?thesis
  proof (rule nth_equalityI)
    show len: "length ?a = length ?b" using arg_cong [OF ids, of length] by simp
    fix i assume i: "i < length ?a"
    have "pid (?a ! i) = pid (?b ! i)" using arg_cong [OF ids, of "\<lambda>xs. xs ! i"] i len by simp
    then show "?a ! i = ?b ! i" using vals [OF i] by (cases "?a ! i"; cases "?b ! i") simp
  qed
qed

lemma dense_full_card:
  assumes "in_span ps span" "span < 2 ^ 32"
  shows "dense_full ps span = Some (card (pid ` set ps) = span)"
proof -
  have "card (pid ` set ps) \<le> length ps" by (metis card_image_le card_length le_trans List.finite_set)
  then show ?thesis using distinctPositions_ok [OF assms(1)]
    by (auto simp: dense_full_def coversAllPositions_def denseThreshold_def)
qed

lemma in_span_dom: "in_span ps span \<longleftrightarrow> (\<forall>i \<in> dom (staged_map ps). unat i < span)"
  by (auto simp: in_span_def dom_staged_map)

lemma dense_fill_ext:
  assumes "in_span ps span" "span < 2 ^ 32" "\<And>i. i < span \<Longrightarrow> (case staged_map ps (of_nat i) of Some v \<Rightarrow> v | None \<Rightarrow> z) = (case staged_map ps' (of_nat i) of Some v \<Rightarrow> v | None \<Rightarrow> z)"
    "in_span ps' span"
  shows "dense_fill ps (replicate span z) = dense_fill ps' (replicate span z)"
proof -
  obtain xs where xs: "dense_fill ps (replicate span z) = Some xs" "length xs = span"
      "\<And>i. i < span \<Longrightarrow> xs ! i = (case staged_map ps (of_nat i) of Some v \<Rightarrow> v | None \<Rightarrow> z)"
    using dense_fill_ok [OF assms(1), of "replicate span z"] assms(2) by (auto cong: option.case_cong)
  obtain ys where ys: "dense_fill ps' (replicate span z) = Some ys" "length ys = span"
      "\<And>i. i < span \<Longrightarrow> ys ! i = (case staged_map ps' (of_nat i) of Some v \<Rightarrow> v | None \<Rightarrow> z)"
    using dense_fill_ok [OF assms(4), of "replicate span z"] assms(2) by (auto cong: option.case_cong)
  have "xs = ys" using xs ys assms(3) by (intro nth_equalityI) auto
  then show ?thesis using xs(1) ys(1) by simp
qed

lemma bits_writes_ext:
  assumes "in_span ps span" "span < 2 ^ 32" "staged_map ps = staged_map ps'"
  shows "fold_opt (\<lambda>p col. Set_bit col (unat (pid p)) (pval p)) ps (New span) = fold_opt (\<lambda>p col. Set_bit col (unat (pid p)) (pval p)) ps' (New span)"
proof -
  have s': "in_span ps' span" using assms(1,3) by (simp add: in_span_dom)
  show ?thesis using bits_writes [OF assms(1)] bits_writes [OF s'] assms(2,3) bits_eqI by fastforce
qed

lemma column_ext:
  assumes "in_span ps span" "span < 2 ^ 32" "staged_map ps = staged_map ps'"
  shows "columnFromPairsI64 ps span = columnFromPairsI64 ps' span" "columnFromPairsF64 ps span = columnFromPairsF64 ps' span"
  using assms
proof -
  have s': "in_span ps' span" using assms(1,3) by (simp add: in_span_dom)
  have d: "dense_full ps span = dense_full ps' span"
    using dense_full_card [OF assms(1,2)] dense_full_card [OF s' assms(2)] dom_staged_map [of ps] dom_staged_map [of ps'] assms(3) by simp
  have f: "dense_fill ps (replicate span 0) = dense_fill ps' (replicate span 0)" using assms s' by (intro dense_fill_ext) simp_all
  show "columnFromPairsI64 ps span = columnFromPairsI64 ps' span" "columnFromPairsF64 ps span = columnFromPairsF64 ps' span"
    unfolding columnFromPairsI64_def columnFromPairsF64_def d f lww_ext [OF assms(3)] by (rule refl)+
qed


lemma column_ext_bool:
  assumes "in_span ps span" "span < 2 ^ 32" "staged_map ps = staged_map ps'"
  shows "columnFromPairsBool ps span = columnFromPairsBool ps' span"
proof -
  have s': "in_span ps' span" using assms(1,3) by (simp add: in_span_dom)
  have d: "dense_full ps span = dense_full ps' span"
    using dense_full_card [OF assms(1,2)] dense_full_card [OF s' assms(2)] dom_staged_map [of ps] dom_staged_map [of ps'] assms(3) by simp
  show ?thesis unfolding columnFromPairsBool_def d lww_ext [OF assms(3)] bits_writes_ext [OF assms] by (rule refl)
qed

text \<open>For strings the dense fill also makes the unwritten positions present.\<close>

definition str_map :: "nat \<Rightarrow> strPair list \<Rightarrow> u32 \<Rightarrow> u32 option" where
  "str_map span ps i = (if denseStrThreshold (card (pid ` set ps)) span \<and> unat i < span
     then Some (case staged_map ps i of Some v \<Rightarrow> v | None \<Rightarrow> 0) else staged_map ps i)"

lemma column_ext_str:
  assumes s: "in_span ps span" "span < 2 ^ 32" and m: "staged_map ps' = str_map span ps"
  shows "columnFromPairsStr ps' span = columnFromPairsStr ps span"
proof -
  have s': "in_span ps' span" using s(1) m by (auto simp: in_span_dom dom_def str_map_def split: if_splits)
  note p = distinctPositions_ok [OF s(1)] distinctPositions_ok [OF s']
  show ?thesis
  proof (cases "denseStrThreshold (card (pid ` set ps)) span")
    case True
    have "pid ` set ps' = {i. unat i < span}"
      unfolding dom_staged_map [symmetric] m using True s(1) by (auto simp: str_map_def dom_def in_span_dom split: if_splits)
    moreover have "card {i :: u32. unat i < span} = span"
    proof -
      have "bij_betw unat {i :: u32. unat i < span} {..<span}"
      proof (rule bij_betw_byWitness [where f' = of_nat])
        show "\<forall>a \<in> {..<span}. unat (of_nat a :: u32) = a" using s(2) by (auto simp: unat_of_nat_less)
      qed (use s(2) in \<open>auto simp: unat_of_nat_less\<close>)
      then show ?thesis using bij_betw_same_card by fastforce
    qed
    ultimately have "card (pid ` set ps') = span" by simp
    then have T: "denseStrThreshold (card (pid ` set ps')) span" by (simp add: denseStrThreshold_def)
    have "unat (of_nat i :: u32) < span" if "i < span" for i using that s(2) by (simp add: unat_of_nat_less)
    then have "dense_fill ps' (replicate span 0) = dense_fill ps (replicate span 0)"
      using s s' True by (intro dense_fill_ext) (simp_all add: m str_map_def)
    then show ?thesis unfolding columnFromPairsStr_def p using T True by simp
  next
    case False
    then have e: "staged_map ps' = staged_map ps" unfolding m by (simp add: str_map_def fun_eq_iff)
    then have "card (pid ` set ps') = card (pid ` set ps)" by (simp flip: dom_staged_map)
    then show ?thesis using False unfolding columnFromPairsStr_def p lww_ext [OF e] by simp
  qed
qed

end
