(* ===== verification/ThawStages.thy ===== *)
theory ThawStages
  imports ThawOrder Restage
begin

text \<open>The stages of a thaw, each with what it leaves in the builder: labels, relationships, node and relationship columns.\<close>

section \<open>Labels\<close>

definition relabelled :: "'bm roaring \<Rightarrow> (nat \<Rightarrow> Label set) \<Rightarrow> u32 set \<Rightarrow> 'bm Builder \<Rightarrow> 'bm Builder \<Rightarrow> bool" where
  "relabelled R L K b b' \<longleftrightarrow> builder_inv R b' \<and> (\<exists>nl kn. b' = b\<lparr>nodeLabels := nl, knownNodes := kn\<rparr> \<and> length nl = length (nodeLabels b)
    \<and> (\<forall>u < length nl. set (nl ! u) = set (nodeLabels b ! u) \<union> L u) \<and> rb_set R kn = rb_set R (knownNodes b) \<union> K)"

lemma relabelled_refl: "builder_inv R b \<Longrightarrow> relabelled R (\<lambda>_. {}) {} b b"
  unfolding relabelled_def by (intro conjI exI [of _ "nodeLabels b"] exI [of _ "knownNodes b"]) simp_all

lemma relabelled_trans:
  assumes "relabelled R L1 K1 b b1" "relabelled R L2 K2 b1 b2"
  shows "relabelled R (\<lambda>u. L1 u \<union> L2 u) (K1 \<union> K2) b b2"
proof -
  obtain nl1 kn1 where 1: "b1 = b\<lparr>nodeLabels := nl1, knownNodes := kn1\<rparr>" "length nl1 = length (nodeLabels b)"
      "\<forall>u < length nl1. set (nl1 ! u) = set (nodeLabels b ! u) \<union> L1 u" "rb_set R kn1 = rb_set R (knownNodes b) \<union> K1"
    using assms(1) by (auto simp: relabelled_def)
  obtain nl2 kn2 where 2: "b2 = b1\<lparr>nodeLabels := nl2, knownNodes := kn2\<rparr>" "length nl2 = length (nodeLabels b1)"
      "\<forall>u < length nl2. set (nl2 ! u) = set (nodeLabels b1 ! u) \<union> L2 u" "rb_set R kn2 = rb_set R (knownNodes b1) \<union> K2"
    using assms(2) by (auto simp: relabelled_def)
  have "b2 = b\<lparr>nodeLabels := nl2, knownNodes := kn2\<rparr>" using 1(1) 2(1) by simp
  moreover have "length nl2 = length (nodeLabels b)" using 1 2 by simp
  moreover have "\<forall>u < length nl2. set (nl2 ! u) = set (nodeLabels b ! u) \<union> (L1 u \<union> L2 u)" using 1 2 by auto
  moreover have "rb_set R kn2 = rb_set R (knownNodes b) \<union> (K1 \<union> K2)" using 1 2 by auto
  ultimately show ?thesis using assms(2) unfolding relabelled_def by blast
qed

lemma thaw_label_ok:
  assumes R: "roaring_laws R" and inv: "builder_inv R b" and i: "unat i < length (nodeLabels b)"
  shows "\<exists>b'. thaw_label R l i (Some b) = (True, Some b') \<and> relabelled R (\<lambda>u. if u = unat i then {l} else {}) {i} b b'"
proof -
  let ?nl = "(nodeLabels b)[unat i := nodeLabels b ! unat i @ [l]]"
  let ?b = "known_add R i (b\<lparr>nodeLabels := ?nl\<rparr>)"
  have deg: "unat i < length (degOut b)" using inv i by (simp add: builder_inv_def caps_inv_def)
  have k: "builder_inv R (known_add R i b)" by (rule builder_inv_known_add [OF R inv deg])
  have "builder_inv R ((known_add R i b)\<lparr>nodeLabels := (nodeLabels (known_add R i b))[unat i := nodeLabels b ! unat i @ [l]]\<rparr>)"
    by (rule builder_inv_labels [OF k]) (simp add: known_add_def roaring_simps [OF R])
  moreover have "nodeLabels (known_add R i b) = nodeLabels b" by (simp add: known_add_def)
  ultimately have "builder_inv R ?b" unfolding known_add_marks by (simp only:)
  moreover have "?b = b\<lparr>nodeLabels := ?nl, knownNodes := rb_Add R (knownNodes b) i\<rparr>" by (simp add: known_add_def)
  ultimately have "relabelled R (\<lambda>u. if u = unat i then {l} else {}) {i} b ?b"
    unfolding relabelled_def by (intro conjI exI [of _ ?nl] exI [of _ "rb_Add R (knownNodes b) i"]) (auto simp: nth_list_update roaring_simps [OF R])
  moreover have "thaw_label R l i (Some b) = (True, Some ?b)" using i by (simp add: thaw_label_def)
  ultimately show ?thesis by blast
qed

lemma relabelled_length: "relabelled R L K b b' \<Longrightarrow> length (nodeLabels b') = length (nodeLabels b) \<and> builder_inv R b'"
  by (auto simp: relabelled_def)

lemma thaw_label_all:
  assumes R: "roaring_laws R" and inv: "builder_inv R b" and i: "\<forall>i \<in> set xs. unat i < length (nodeLabels b)"
  shows "\<exists>b'. yield_all (thaw_label R l) xs (Some b) = (True, Some b') \<and> relabelled R (\<lambda>u. if u \<in> unat ` set xs then {l} else {}) (set xs) b b'"
  using inv i
proof (induction xs arbitrary: b)
  case Nil
  then show ?case using relabelled_refl by auto
next
  case (Cons x xs)
  obtain b1 where 1: "thaw_label R l x (Some b) = (True, Some b1)" "relabelled R (\<lambda>u. if u = unat x then {l} else {}) {x} b b1"
    using thaw_label_ok [OF R Cons.prems(1), of x l] Cons.prems(2) by auto
  obtain b2 where 2: "yield_all (thaw_label R l) xs (Some b1) = (True, Some b2)" "relabelled R (\<lambda>u. if u \<in> unat ` set xs then {l} else {}) (set xs) b1 b2"
    using Cons.IH [of b1] Cons.prems(2) relabelled_length [OF 1(2)] by auto
  have "(\<lambda>u. (if u = unat x then {l} else {}) \<union> (if u \<in> unat ` set xs then {l} else {})) = (\<lambda>u. if u \<in> unat ` set (x # xs) then {l} else {})" by (auto simp: fun_eq_iff)
  then show ?case using relabelled_trans [OF 1(2) 2(2)] 1(1) 2(1) by auto
qed

lemma thaw_labels_all:
  assumes R: "roaring_laws R" and inv: "builder_inv R b" and ls: "set ls \<subseteq> fst ` set (labelIndex g)"
    and i: "\<And>l x. x \<in> members R (labelIndex g) l \<Longrightarrow> unat x < length (nodeLabels b)"
  shows "\<exists>b'. fold_opt (thaw_labels R g) ls b = Some b'
    \<and> relabelled R (\<lambda>u. {l \<in> set ls. u \<in> unat ` members R (labelIndex g) l}) (\<Union>l \<in> set ls. members R (labelIndex g) l) b b'"
  using inv ls i
proof (induction ls arbitrary: b)
  case Nil
  then show ?case using relabelled_refl by auto
next
  case (Cons l ls)
  obtain s where s: "map_of (labelIndex g) l = Some s" using Cons.prems(2) map_of_eq_None_iff [of "labelIndex g" l] by auto
  have m: "members R (labelIndex g) l = ids R s" by (simp add: members_def s)
  let ?xs = "sorted_list_of_set (ids R s)"
  have fin: "set ?xs = ids R s" by (simp add: ids_def rb_set_def)
  obtain b1 where 1: "yield_all (thaw_label R l) ?xs (Some b) = (True, Some b1)" "relabelled R (\<lambda>u. if u \<in> unat ` ids R s then {l} else {}) (ids R s) b b1"
    using thaw_label_all [OF R Cons.prems(1), of ?xs l] Cons.prems(3) [of _ l] unfolding fin m by blast
  have "thaw_labels R g l b = Some b1" using s 1(1) by (simp add: thaw_labels_def nodeset_ops(12) [OF R])
  moreover obtain b2 where 2: "fold_opt (thaw_labels R g) ls b1 = Some b2"
      "relabelled R (\<lambda>u. {l \<in> set ls. u \<in> unat ` members R (labelIndex g) l}) (\<Union>l \<in> set ls. members R (labelIndex g) l) b1 b2"
    using Cons.IH [of b1] Cons.prems(2,3) relabelled_length [OF 1(2)] by auto
  moreover have "(\<lambda>u. (if u \<in> unat ` ids R s then {l} else {}) \<union> {l \<in> set ls. u \<in> unat ` members R (labelIndex g) l})
      = (\<lambda>u. {l' \<in> set (l # ls). u \<in> unat ` members R (labelIndex g) l'})"
    by (auto simp: m fun_eq_iff)
  moreover have "ids R s \<union> (\<Union>l \<in> set ls. members R (labelIndex g) l) = (\<Union>l \<in> set (l # ls). members R (labelIndex g) l)" by (simp add: m)
  ultimately show ?case using relabelled_trans [OF 1(2) 2(2)] by (intro exI [of _ b2]) simp
qed

section \<open>Relationships\<close>

definition related :: "'bm roaring \<Rightarrow> rel list \<Rightarrow> RelType list \<Rightarrow> 'bm Builder \<Rightarrow> 'bm Builder \<Rightarrow> bool" where
  "related R rels ts b b' \<longleftrightarrow> builder_inv R b' \<and> (\<exists>dO dI kn. b' = b\<lparr>degOut := dO, degIn := dI, b_rels := rels, b_relTypes := ts, knownNodes := kn\<rparr>
    \<and> length dO = length (degOut b) \<and> rb_set R kn = rb_set R (knownNodes b) \<union> fst ` set rels \<union> snd ` set rels)"

lemma related_intro:
  assumes "builder_inv R b'" "b' = b\<lparr>degOut := dO, degIn := dI, b_rels := rels, b_relTypes := ts, knownNodes := kn\<rparr>"
    "length dO = length (degOut b)" "rb_set R kn = rb_set R (knownNodes b) \<union> fst ` set rels \<union> snd ` set rels"
  shows "related R rels ts b b'"
  using assms unfolding related_def by blast

lemma thaw_addRel:
  assumes R: "roaring_laws R" and inv: "builder_inv R b" and src: "b_src b = None" "relIndex b = None"
    and u: "unat u < length (degOut b)" "unat v < length (degOut b)" and room: "length (b_rels b) < maxSize"
  shows "\<exists>b' dO dI. thawMust (addRelTyped R u v t b) = Some (length (b_rels b), b') \<and> builder_inv R b' \<and> length dO = length (degOut b)
    \<and> b' = b\<lparr>degOut := dO, degIn := dI, b_rels := b_rels b @ [(u, v)], b_relTypes := b_relTypes b @ [t], knownNodes := rb_Add R (rb_Add R (knownNodes b) u) v\<rparr>"
proof -
  let ?dO = "(degOut b)[unat u := degOut b ! unat u + 1]" and ?dI = "(degIn b)[unat v := degIn b ! unat v + 1]"
  let ?b = "b\<lparr>degOut := ?dO, degIn := ?dI, b_rels := b_rels b @ [(u, v)], b_relTypes := b_relTypes b @ [t], knownNodes := rb_Add R (rb_Add R (knownNodes b) u) v\<rparr>"
  have len: "length (degIn b) = length (degOut b)" using inv by (simp add: builder_inv_def caps_inv_def)
  have cap: "ensureCapacity (max u v) b = Some (Inr (), b)" using u by (simp add: ensureCapacity_def max_def)
  have a: "addRelTyped R u v t b = Some (Inr (length (b_rels b)), ?b)"
    using u room src len by (simp add: addRelTyped_def cap bbind_def markRelsDirty_def inc_at_def known_add_def Let_def)
  have "good R (interned b) b" using inv by (simp add: good_def)
  from safe_addRelTyped [OF R this, of u v t] have "builder_inv R ?b" unfolding a by (simp add: good_def)
  then show ?thesis using a by (intro exI [of _ ?b] exI [of _ ?dO] exI [of _ ?dI]) (simp add: thawMust_def)
qed

text \<open>What \<open>thawRels\<close> restages, for the order the walk found.\<close>

lemma thaw_rel_all:
  assumes R: "roaring_laws R" and inv: "builder_inv R b" and src: "b_src b = None" "relIndex b = None" "b_rels b = []" "b_relTypes b = []"
    and cap: "\<And>p. p < m \<Longrightarrow> unat (srcOf ! p) < length (degOut b) \<and> unat (outNbrs g ! p) < length (degOut b)"
    and len: "length srcOf = m" "length (outNbrs g) = m" "rt_wf (outTypes g)" "relTypes_Len (outTypes g) = m" "m \<le> maxSize"
    and ord: "distinct order" "\<forall>p \<in> set order. unat p < m" "length order = m"
  shows "\<exists>b' ots. fold_opt (thaw_rel R g srcOf) order (b, replicate m 0) = Some (b', ots)
    \<and> related R (map (\<lambda>p. (srcOf ! unat p, outNbrs g ! unat p)) order) (map (\<lambda>p. rt_list (outTypes g) ! unat p) order) b b'
    \<and> length ots = m \<and> (\<forall>k < m. ots ! unat (order ! k) = of_nat k)"
proof -
  let ?rel = "\<lambda>p :: u32. (srcOf ! unat p, outNbrs g ! unat p)" and ?ty = "\<lambda>p :: u32. rt_list (outTypes g) ! unat p"
  let ?P = "\<lambda>k (b', ots :: u32 list). related R (map ?rel (take k order)) (map ?ty (take k order)) b b' \<and> length ots = m \<and> (\<forall>i < k. ots ! unat (order ! i) = of_nat i)"
  have "\<exists>st. fold_opt (thaw_rel R g srcOf) order (b, replicate m 0) = Some st \<and> ?P (length order) st"
  proof (rule fold_opt_rule [where P = ?P])
    have "related R [] [] b b" using src by (intro related_intro [OF inv, where dO = "degOut b" and dI = "degIn b" and kn = "knownNodes b"]) simp_all
    then show "?P 0 (b, replicate m 0)" by simp
    fix k and st :: "'a Builder \<times> u32 list" assume k: "k < length order" and P: "?P k st"
    obtain b1 ots where st: "st = (b1, ots)" by (cases st)
    let ?p = "order ! k"
    have p: "unat ?p < m" using ord(2) k by simp
    obtain dO dI kn where b1: "b1 = b\<lparr>degOut := dO, degIn := dI, b_rels := map ?rel (take k order), b_relTypes := map ?ty (take k order), knownNodes := kn\<rparr>"
        "length dO = length (degOut b)" "rb_set R kn = rb_set R (knownNodes b) \<union> fst ` set (map ?rel (take k order)) \<union> snd ` set (map ?rel (take k order))"
      using P st by (auto simp: related_def)
    have i1: "builder_inv R b1" using P st by (simp add: related_def)
    have lk: "length (b_rels b1) = k" using k by (simp add: b1)
    have "\<exists>b' dO dI. thawMust (addRelTyped R (srcOf ! unat ?p) (outNbrs g ! unat ?p) (?ty ?p) b1) = Some (length (b_rels b1), b') \<and> builder_inv R b' \<and> length dO = length (degOut b1)
      \<and> b' = b1\<lparr>degOut := dO, degIn := dI, b_rels := b_rels b1 @ [?rel ?p], b_relTypes := b_relTypes b1 @ [?ty ?p], knownNodes := rb_Add R (rb_Add R (knownNodes b1) (srcOf ! unat ?p)) (outNbrs g ! unat ?p)\<rparr>"
      using src cap [OF p] len(5) ord(3) k lk by (intro thaw_addRel [OF R i1]) (simp_all add: b1)
    then obtain b' dO' dI' where b': "thawMust (addRelTyped R (srcOf ! unat ?p) (outNbrs g ! unat ?p) (?ty ?p) b1) = Some (k, b')" "builder_inv R b'" "length dO' = length (degOut b1)"
        "b' = b1\<lparr>degOut := dO', degIn := dI', b_rels := b_rels b1 @ [?rel ?p], b_relTypes := b_relTypes b1 @ [?ty ?p], knownNodes := rb_Add R (rb_Add R (knownNodes b1) (srcOf ! unat ?p)) (outNbrs g ! unat ?p)\<rparr>"
      unfolding lk by (elim exE conjE) (rule that)
    have t: "thaw_rel R g srcOf ?p st = Some (b', ots[unat ?p := of_nat k])"
      using p len P st b'(1) by (simp add: thaw_rel_def relTypes_At_ok)
    have "related R (map ?rel (take (Suc k) order)) (map ?ty (take (Suc k) order)) b b'"
    proof (rule related_intro [OF b'(2)])
      show "b' = b\<lparr>degOut := dO', degIn := dI', b_rels := map ?rel (take (Suc k) order), b_relTypes := map ?ty (take (Suc k) order),
          knownNodes := rb_Add R (rb_Add R kn (srcOf ! unat ?p)) (outNbrs g ! unat ?p)\<rparr>"
        using k by (simp add: b'(4) b1(1) take_Suc_conv_app_nth)
      show "length dO' = length (degOut b)" using b'(3) b1 by simp
    qed (use b1(3) k in \<open>auto simp: roaring_simps [OF R] take_Suc_conv_app_nth\<close>)
    moreover have "ots[unat ?p := of_nat k] ! unat (order ! i) = of_nat i" if "i < Suc k" for i
    proof (cases "i = k")
      case False
      then have "order ! k \<noteq> order ! i" using that k ord(1) by (simp add: nth_eq_iff_index_eq)
      then show ?thesis using P st that False by (simp add: nth_list_update word_unat_eq_iff)
    qed (use P st p in simp)
    ultimately show "\<exists>u'. thaw_rel R g srcOf ?p st = Some u' \<and> ?P (Suc k) u'" using t P st by auto
  qed
  then show ?thesis using ord(3) by auto
qed


section \<open>Columns\<close>

lemma pair_nodes_ok:
  "\<forall>p \<in> set ps. unat (pid p) < length (degOut b) \<Longrightarrow> pair_nodes R ps b = Some (Inr (), b\<lparr>knownNodes := fold (\<lambda>p kn. rb_Add R kn (pid p)) ps (knownNodes b)\<rparr>)"
proof (induction ps arbitrary: b)
  case (Cons p ps)
  have "pair_node R p b = Some (Inr (), b\<lparr>knownNodes := rb_Add R (knownNodes b) (pid p)\<rparr>)"
    using Cons.prems by (simp add: pair_node_def ensureCapacity_def bbind_def known_add_def pairID_def)
  then show ?case using Cons.IH [of "b\<lparr>knownNodes := rb_Add R (knownNodes b) (pid p)\<rparr>"] Cons.prems by (simp add: bbind_def)
qed simp

lemma fold_rb_Add: "roaring_laws R \<Longrightarrow> rb_set R (fold (\<lambda>p kn. rb_Add R kn (pid p)) ps kn) = rb_set R kn \<union> pid ` set ps"
  by (induction ps arbitrary: kn) (auto simp: roaring_simps)

text \<open>One staged family that holds exactly the restaged columns of its type.\<close>

definition family_of :: "Dtype \<Rightarrow> (Value \<Rightarrow> 'v \<times> bool) \<Rightarrow> (Column \<Rightarrow> (u32 \<times> Value) list) \<Rightarrow> (PropertyKey \<times> Column) list \<Rightarrow> 'v staged \<Rightarrow> bool" where
  "family_of dt get ent cs cols \<longleftrightarrow> distinct (map fst cols)
    \<and> (\<forall>k. map_of cols k = (case map_of cs k of None \<Rightarrow> None | Some c \<Rightarrow> if Column_Dtype c = dt then Some (thaw_pairs get (ent c)) else None))"

lemma family_of_Nil: "family_of dt get ent [] []"
  by (simp add: family_of_def)

lemma family_of_snoc:
  assumes "family_of dt get ent cs cols" "k \<notin> fst ` set cs"
  shows "Column_Dtype c = dt \<Longrightarrow> family_of dt get ent (cs @ [(k, c)]) (AList.update k (thaw_pairs get (ent c)) cols)"
    "Column_Dtype c \<noteq> dt \<Longrightarrow> family_of dt get ent (cs @ [(k, c)]) cols"
proof -
  have "map_of cs k = None" using assms(2) by (simp add: map_of_eq_None_iff)
  then have m: "map_of (cs @ [(k, c)]) x = (if x = k then Some c else map_of cs x)" for x by (auto simp: map_add_def split: option.split)
  show "Column_Dtype c = dt \<Longrightarrow> family_of dt get ent (cs @ [(k, c)]) (AList.update k (thaw_pairs get (ent c)) cols)"
    "Column_Dtype c \<noteq> dt \<Longrightarrow> family_of dt get ent (cs @ [(k, c)]) cols"
    using assms(1) \<open>map_of cs k = None\<close> unfolding family_of_def m by (auto simp: update_conv' distinct_update)
qed

definition restaged :: "(Column \<Rightarrow> (u32 \<times> Value) list) \<Rightarrow> (PropertyKey \<times> Column) list \<Rightarrow> families \<Rightarrow> bool" where
  "restaged ent cs fam \<longleftrightarrow> (case fam of (is, fs, bs, ss) \<Rightarrow> family_of DtypeI64 Value_I64 ent cs is \<and> family_of DtypeF64 Value_F64 ent cs fs
    \<and> family_of DtypeBool Value_Bool ent cs bs \<and> family_of DtypeStr Value_StrID ent cs ss)"

lemma restaged_snoc:
  assumes "restaged ent cs (is, fs, bs, ss)" "k \<notin> fst ` set cs"
  shows "Column_Dtype c = DtypeI64 \<Longrightarrow> restaged ent (cs @ [(k, c)]) (AList.update k (thaw_pairs Value_I64 (ent c)) is, fs, bs, ss)"
    "Column_Dtype c = DtypeF64 \<Longrightarrow> restaged ent (cs @ [(k, c)]) (is, AList.update k (thaw_pairs Value_F64 (ent c)) fs, bs, ss)"
    "Column_Dtype c = DtypeBool \<Longrightarrow> restaged ent (cs @ [(k, c)]) (is, fs, AList.update k (thaw_pairs Value_Bool (ent c)) bs, ss)"
    "Column_Dtype c = DtypeStr \<Longrightarrow> restaged ent (cs @ [(k, c)]) (is, fs, bs, AList.update k (thaw_pairs Value_StrID (ent c)) ss)"
  using assms by (simp_all add: restaged_def family_of_snoc)

definition thaw_col_ok :: "nat \<Rightarrow> Column \<Rightarrow> bool" where
  "thaw_col_ok n c \<longleftrightarrow> col_inv c \<and> col_pairs c \<noteq> [] \<and> (\<forall>p \<in> fst ` set (col_pairs c). unat p < n)"

lemma thaw_pairs_pid: "pid ` set (thaw_pairs get es) = fst ` set es" "thaw_pairs get es = [] \<longleftrightarrow> es = []"
  by (force simp: thaw_pairs_def)+

definition recolumned :: "'bm roaring \<Rightarrow> (PropertyKey \<times> Column) list \<Rightarrow> 'bm Builder \<Rightarrow> 'bm Builder \<Rightarrow> bool" where
  "recolumned R cs b b' \<longleftrightarrow> (\<exists>is fs bs ss kn. b' = b\<lparr>nodeColI64 := is, nodeColF64 := fs, nodeColBool := bs, nodeColStr := ss, knownNodes := kn\<rparr>
    \<and> restaged col_pairs cs (is, fs, bs, ss) \<and> rb_set R kn = rb_set R (knownNodes b) \<union> (\<Union>c \<in> snd ` set cs. fst ` set (col_pairs c)))"

lemma set_node_pairs:
  assumes "\<forall>p \<in> set ps. unat (pid p) < length (degOut b)" "ps \<noteq> []"
  shows "setNodeColumnPairs R upd key ps b = Some (Inr (), upd (AList.update key ps) (b\<lparr>knownNodes := fold (\<lambda>p kn. rb_Add R kn (pid p)) ps (knownNodes b)\<rparr>))"
  using assms by (simp add: setNodeColumnPairs_def pair_nodes_ok bbind_def)

lemma thawNodeColumn_ok:
  assumes R: "roaring_laws R" and b: "recolumned R cs b0 b" and k: "k \<notin> fst ` set cs" and c: "thaw_col_ok (length (degOut b)) c"
  shows "\<exists>b'. thawNodeColumn R (k, c) b = Some b' \<and> recolumned R (cs @ [(k, c)]) b0 b'"
proof -
  obtain "is" fs bs ss kn where 1: "b = b0\<lparr>nodeColI64 := is, nodeColF64 := fs, nodeColBool := bs, nodeColStr := ss, knownNodes := kn\<rparr>"
      "restaged col_pairs cs (is, fs, bs, ss)" "rb_set R kn = rb_set R (knownNodes b0) \<union> (\<Union>c \<in> snd ` set cs. fst ` set (col_pairs c))"
    using b unfolding recolumned_def by (elim exE conjE) (rule that)
  note s = restaged_snoc [OF 1(2) k, of c]
  have e: "Column_Entries c = Some (col_pairs c)" using c by (simp add: thaw_col_ok_def cols.entries_pairs)
  have lt: "\<forall>p \<in> set (thaw_pairs get (col_pairs c)). unat (pid p) < length (degOut b)" for get :: "Value \<Rightarrow> 'v \<times> bool"
  proof
    fix p assume "p \<in> set (thaw_pairs get (col_pairs c))"
    then have "pid p \<in> fst ` set (col_pairs c)" unfolding thaw_pairs_pid(1) [of get, symmetric] by (rule imageI)
    then show "unat (pid p) < length (degOut b)" using c unfolding thaw_col_ok_def by blast
  qed
  have ne: "thaw_pairs get (col_pairs c) \<noteq> []" for get :: "Value \<Rightarrow> 'v \<times> bool" using c by (simp add: thaw_col_ok_def thaw_pairs_pid)
  have kn: "rb_set R (fold (\<lambda>p kn. rb_Add R kn (pid p)) (thaw_pairs get (col_pairs c)) kn)
      = rb_set R (knownNodes b0) \<union> (\<Union>c \<in> snd ` set (cs @ [(k, c)]). fst ` set (col_pairs c))" for get :: "Value \<Rightarrow> 'v \<times> bool"
    by (auto simp: fold_rb_Add [OF R] 1(3) thaw_pairs_pid)
  show ?thesis
  proof (cases "Column_Dtype c")
    case DtypeI64
    let ?kn = "fold (\<lambda>p kn. rb_Add R kn (pid p)) (thaw_pairs Value_I64 (col_pairs c)) kn" and ?is = "AList.update k (thaw_pairs Value_I64 (col_pairs c)) is"
    have "thawNodeColumn R (k, c) b = Some (b0\<lparr>nodeColI64 := ?is, nodeColF64 := fs, nodeColBool := bs, nodeColStr := ss, knownNodes := ?kn\<rparr>)"
      using e DtypeI64 set_node_pairs [OF lt ne, of R nodeColI64_update k] by (simp add: thawNodeColumn_def thawMust_def 1(1))
    moreover have "restaged col_pairs (cs @ [(k, c)]) (?is, fs, bs, ss)" by (rule s(1) [OF DtypeI64])
    ultimately show ?thesis using kn [of Value_I64] unfolding recolumned_def by blast
  next
    case DtypeF64
    let ?kn = "fold (\<lambda>p kn. rb_Add R kn (pid p)) (thaw_pairs Value_F64 (col_pairs c)) kn" and ?fs = "AList.update k (thaw_pairs Value_F64 (col_pairs c)) fs"
    have "thawNodeColumn R (k, c) b = Some (b0\<lparr>nodeColI64 := is, nodeColF64 := ?fs, nodeColBool := bs, nodeColStr := ss, knownNodes := ?kn\<rparr>)"
      using e DtypeF64 set_node_pairs [OF lt ne, of R nodeColF64_update k] by (simp add: thawNodeColumn_def thawMust_def 1(1))
    moreover have "restaged col_pairs (cs @ [(k, c)]) (is, ?fs, bs, ss)" by (rule s(2) [OF DtypeF64])
    ultimately show ?thesis using kn [of Value_F64] unfolding recolumned_def by blast
  next
    case DtypeBool
    let ?kn = "fold (\<lambda>p kn. rb_Add R kn (pid p)) (thaw_pairs Value_Bool (col_pairs c)) kn" and ?bs = "AList.update k (thaw_pairs Value_Bool (col_pairs c)) bs"
    have "thawNodeColumn R (k, c) b = Some (b0\<lparr>nodeColI64 := is, nodeColF64 := fs, nodeColBool := ?bs, nodeColStr := ss, knownNodes := ?kn\<rparr>)"
      using e DtypeBool set_node_pairs [OF lt ne, of R nodeColBool_update k] by (simp add: thawNodeColumn_def thawMust_def 1(1))
    moreover have "restaged col_pairs (cs @ [(k, c)]) (is, fs, ?bs, ss)" by (rule s(3) [OF DtypeBool])
    ultimately show ?thesis using kn [of Value_Bool] unfolding recolumned_def by blast
  next
    case DtypeStr
    let ?kn = "fold (\<lambda>p kn. rb_Add R kn (pid p)) (thaw_pairs Value_StrID (col_pairs c)) kn" and ?ss = "AList.update k (thaw_pairs Value_StrID (col_pairs c)) ss"
    have "thawNodeColumn R (k, c) b = Some (b0\<lparr>nodeColI64 := is, nodeColF64 := fs, nodeColBool := bs, nodeColStr := ?ss, knownNodes := ?kn\<rparr>)"
      using e DtypeStr set_node_pairs [OF lt ne, of R nodeColStr_update k] by (simp add: thawNodeColumn_def thawMust_def 1(1))
    moreover have "restaged col_pairs (cs @ [(k, c)]) (is, fs, bs, ?ss)" by (rule s(4) [OF DtypeStr])
    ultimately show ?thesis using kn [of Value_StrID] unfolding recolumned_def by blast
  qed
qed

lemma thaw_node_columns:
  assumes R: "roaring_laws R" and d: "distinct (map fst cs)" and c: "\<forall>c \<in> snd ` set cs. thaw_col_ok (length (degOut b)) c"
    and e: "nodeColI64 b = []" "nodeColF64 b = []" "nodeColBool b = []" "nodeColStr b = []"
  shows "\<exists>b'. fold_opt (thawNodeColumn R) cs b = Some b' \<and> recolumned R cs b b'"
proof -
  have "\<exists>b'. fold_opt (thawNodeColumn R) cs b = Some b' \<and> recolumned R (take (length cs) cs) b b'"
  proof (rule fold_opt_rule [where P = "\<lambda>i b'. recolumned R (take i cs) b b'"])
    show "recolumned R (take 0 cs) b b" unfolding recolumned_def using e
      by (intro exI [of _ "nodeColI64 b"] exI [of _ "nodeColF64 b"] exI [of _ "nodeColBool b"] exI [of _ "nodeColStr b"] exI [of _ "knownNodes b"]) (simp add: restaged_def family_of_Nil)
    fix i b' assume i: "i < length cs" and P: "recolumned R (take i cs) b b'"
    obtain k c' where kc: "cs ! i = (k, c')" by fastforce
    have "k \<notin> fst ` set (take i cs)" using d kc arg_cong [OF id_take_nth_drop [OF i], of "map fst"] by (auto simp: in_set_conv_nth)
    moreover have "length (degOut b') = length (degOut b)" using P by (auto simp: recolumned_def)
    moreover have "c' \<in> snd ` set cs" using i kc by (metis image_eqI nth_mem snd_conv)
    ultimately show "\<exists>u'. thawNodeColumn R (cs ! i) b' = Some u' \<and> recolumned R (take (Suc i) cs) b u'"
      using thawNodeColumn_ok [OF R P, of k c'] c i kc by (simp add: take_Suc_conv_app_nth)
  qed
  then show ?thesis by simp
qed


text \<open>Relationship columns, their positions sent to the staged indexes.\<close>

definition at_staging :: "u32 list \<Rightarrow> Column \<Rightarrow> (u32 \<times> Value) list" where
  "at_staging ots c = map (\<lambda>(p, v). (ots ! unat p, v)) (col_pairs c)"

definition rel_recolumned :: "u32 list \<Rightarrow> (PropertyKey \<times> Column) list \<Rightarrow> 'bm Builder \<Rightarrow> 'bm Builder \<Rightarrow> bool" where
  "rel_recolumned ots cs b b' \<longleftrightarrow> (\<exists>is fs bs ss. b' = b\<lparr>relColI64 := is, relColF64 := fs, relColBool := bs, relColStr := ss\<rparr>
    \<and> restaged (at_staging ots) cs (is, fs, bs, ss))"

lemma set_rel_pairs:
  assumes "\<forall>p \<in> set ps. unat (pid p) < length (b_rels b)" "\<And>i. \<not> relRemoved R b i" "ps \<noteq> []"
  shows "setRelColumnPairs R upd key ps b = Some (Inr (), upd (AList.update key ps) b)"
proof -
  have "\<not> list_ex (\<lambda>p. unat (pairID p) \<ge> length (b_rels b) \<or> relRemoved R b (unat (pairID p))) ps"
    using assms(1,2) by (auto simp: list_ex_iff pairID_def not_le)
  then show ?thesis using assms(3) by (simp add: setRelColumnPairs_def)
qed

lemma thawRelColumn_ok:
  assumes b: "rel_recolumned ots cs b0 b" and no: "removedRels b0 = None" "removedNodes b0 = []" and k: "k \<notin> fst ` set cs" and c: "thaw_col_ok (length (b_rels b0)) c"
    and ots: "length ots = length (b_rels b0)" "\<forall>i \<in> set ots. unat i < length (b_rels b0)"
  shows "\<exists>b'. thawRelColumn R ots (k, c) b = Some b' \<and> rel_recolumned ots (cs @ [(k, c)]) b0 b'"
proof -
  obtain "is" fs bs ss where 1: "b = b0\<lparr>relColI64 := is, relColF64 := fs, relColBool := bs, relColStr := ss\<rparr>" "restaged (at_staging ots) cs (is, fs, bs, ss)"
    using b unfolding rel_recolumned_def by (elim exE conjE) (rule that)
  note s = restaged_snoc [OF 1(2) k, of c]
  have e: "Column_Entries c = Some (col_pairs c)" using c by (simp add: thaw_col_ok_def cols.entries_pairs)
  have pos: "unat p < length ots" if "(p, v) \<in> set (col_pairs c)" for p v using c ots(1) that by (force simp: thaw_col_ok_def)
  have t: "thaw_entries ots (col_pairs c) = Some (at_staging ots c)"
    unfolding thaw_entries_def at_staging_def by (rule map_opt_Some) (use pos in auto)
  have rm: "\<not> relRemoved R b i" for i using no by (simp add: relRemoved_def 1(1))
  have lt: "\<forall>p \<in> set (thaw_pairs get (at_staging ots c)). unat (pid p) < length (b_rels b)" for get :: "Value \<Rightarrow> 'v \<times> bool"
    using pos ots(2) by (auto simp: thaw_pairs_def at_staging_def 1(1))
  have ne: "thaw_pairs get (at_staging ots c) \<noteq> []" for get :: "Value \<Rightarrow> 'v \<times> bool" using c by (simp add: thaw_col_ok_def thaw_pairs_pid at_staging_def)
  show ?thesis
  proof (cases "Column_Dtype c")
    case DtypeI64
    have "thawRelColumn R ots (k, c) b = Some (b0\<lparr>relColI64 := AList.update k (thaw_pairs Value_I64 (at_staging ots c)) is, relColF64 := fs, relColBool := bs, relColStr := ss\<rparr>)"
      using e t DtypeI64 set_rel_pairs [OF lt rm ne, of relColI64_update k] by (simp add: thawRelColumn_def thawMust_def 1(1))
    then show ?thesis using s(1) [OF DtypeI64] unfolding rel_recolumned_def by blast
  next
    case DtypeF64
    have "thawRelColumn R ots (k, c) b = Some (b0\<lparr>relColI64 := is, relColF64 := AList.update k (thaw_pairs Value_F64 (at_staging ots c)) fs, relColBool := bs, relColStr := ss\<rparr>)"
      using e t DtypeF64 set_rel_pairs [OF lt rm ne, of relColF64_update k] by (simp add: thawRelColumn_def thawMust_def 1(1))
    then show ?thesis using s(2) [OF DtypeF64] unfolding rel_recolumned_def by blast
  next
    case DtypeBool
    have "thawRelColumn R ots (k, c) b = Some (b0\<lparr>relColI64 := is, relColF64 := fs, relColBool := AList.update k (thaw_pairs Value_Bool (at_staging ots c)) bs, relColStr := ss\<rparr>)"
      using e t DtypeBool set_rel_pairs [OF lt rm ne, of relColBool_update k] by (simp add: thawRelColumn_def thawMust_def 1(1))
    then show ?thesis using s(3) [OF DtypeBool] unfolding rel_recolumned_def by blast
  next
    case DtypeStr
    have "thawRelColumn R ots (k, c) b = Some (b0\<lparr>relColI64 := is, relColF64 := fs, relColBool := bs, relColStr := AList.update k (thaw_pairs Value_StrID (at_staging ots c)) ss\<rparr>)"
      using e t DtypeStr set_rel_pairs [OF lt rm ne, of relColStr_update k] by (simp add: thawRelColumn_def thawMust_def 1(1))
    then show ?thesis using s(4) [OF DtypeStr] unfolding rel_recolumned_def by blast
  qed
qed

lemma thaw_rel_columns:
  assumes d: "distinct (map fst cs)" and c: "\<forall>c \<in> snd ` set cs. thaw_col_ok (length (b_rels b)) c" and no: "removedRels b = None" "removedNodes b = []"
    and e: "relColI64 b = []" "relColF64 b = []" "relColBool b = []" "relColStr b = []"
    and ots: "length ots = length (b_rels b)" "\<forall>i \<in> set ots. unat i < length (b_rels b)"
  shows "\<exists>b'. fold_opt (thawRelColumn R ots) cs b = Some b' \<and> rel_recolumned ots cs b b'"
proof -
  have "\<exists>b'. fold_opt (thawRelColumn R ots) cs b = Some b' \<and> rel_recolumned ots (take (length cs) cs) b b'"
  proof (rule fold_opt_rule [where P = "\<lambda>i b'. rel_recolumned ots (take i cs) b b'"])
    show "rel_recolumned ots (take 0 cs) b b" unfolding rel_recolumned_def using e
      by (intro exI [of _ "relColI64 b"] exI [of _ "relColF64 b"] exI [of _ "relColBool b"] exI [of _ "relColStr b"]) (simp add: restaged_def family_of_Nil)
    fix i b' assume i: "i < length cs" and P: "rel_recolumned ots (take i cs) b b'"
    obtain k c' where kc: "cs ! i = (k, c')" by fastforce
    have "k \<notin> fst ` set (take i cs)" using d kc arg_cong [OF id_take_nth_drop [OF i], of "map fst"] by (auto simp: in_set_conv_nth)
    moreover have "c' \<in> snd ` set cs" using i kc by (metis image_eqI nth_mem snd_conv)
    ultimately show "\<exists>u'. thawRelColumn R ots (cs ! i) b' = Some u' \<and> rel_recolumned ots (take (Suc i) cs) b u'"
      using thawRelColumn_ok [OF P no, of k c'] c i kc ots by (simp add: take_Suc_conv_app_nth)
  qed
  then show ?thesis by simp
qed

section \<open>The columns that a rebuild makes of the restaged pairs\<close>

lemma staged_thaw_pairs: "distinct (map fst es) \<Longrightarrow> staged_map (thaw_pairs get es) k = map_option (\<lambda>v. fst (get v)) (map_of es k)"
proof (induction es)
  case (Cons e es)
  obtain p v where e: "e = (p, v)" by (cases e)
  have "map_of es p = None" using Cons.prems e by (simp add: map_of_eq_None_iff)
  then show ?case using Cons e by (auto simp: thaw_pairs_def staged_map_Cons split: option.split)
qed (simp add: thaw_pairs_def)

lemma narrow_dtype: "narrowI64Column xs = Some c \<Longrightarrow> Column_Dtype c = DtypeI64"
  by (auto simp: narrowI64Column_def Let_def split: if_splits option.splits bind_splits prod.splits)

lemma column_dtypes:
  "columnFromPairsI64 ps1 span = Some c \<Longrightarrow> Column_Dtype c = DtypeI64" "columnFromPairsF64 ps2 span = Some c \<Longrightarrow> Column_Dtype c = DtypeF64"
  "columnFromPairsBool ps3 span = Some c \<Longrightarrow> Column_Dtype c = DtypeBool" "columnFromPairsStr ps4 span = Some c \<Longrightarrow> Column_Dtype c = DtypeStr"
  by (auto simp: columnFromPairsI64_def columnFromPairsF64_def columnFromPairsBool_def columnFromPairsStr_def Let_def narrow_dtype
      split: if_splits option.splits bind_splits)

lemma reads_as_thaw:
  assumes "reads_as c mk m" "\<And>v. fst (get (mk v)) = v"
  shows "staged_map (thaw_pairs get (col_pairs c)) = m"
proof
  fix k
  have "map_of (col_pairs c) k = map_option mk (m k)" "distinct (map fst (col_pairs c))"
    using assms(1) by (auto simp: reads_as_def cols.get_pairs cols.pairs_distinct)
  then show "staged_map (thaw_pairs get (col_pairs c)) k = m k" using assms(2) by (simp add: staged_thaw_pairs option.map_comp comp_def option.map_ident)
qed

end
