(* ===== verification/ThawCorrect.thy ===== *)
theory ThawCorrect
  imports ThawStages
begin

text \<open>
  Thawing a finalized snapshot gives a builder that describes the same graph, and finalizing it again, by sharing or from scratch, gives
  the same adjacency, columns and indexes back.
\<close>

section \<open>Restaged families\<close>

lemma family_column:
  assumes ok: "families_ok span fam0" "span < 2 ^ 32" and c: "family_col span fam0 k = Some c"
  shows "thaw_col_ok span c \<and> (case Column_Dtype c of
      DtypeI64 \<Rightarrow> columnFromPairsI64 (thaw_pairs Value_I64 (col_pairs c)) span = Some c
    | DtypeF64 \<Rightarrow> columnFromPairsF64 (thaw_pairs Value_F64 (col_pairs c)) span = Some c
    | DtypeBool \<Rightarrow> columnFromPairsBool (thaw_pairs Value_Bool (col_pairs c)) span = Some c
    | DtypeStr \<Rightarrow> columnFromPairsStr (thaw_pairs Value_StrID (col_pairs c)) span = Some c)"
proof -
  obtain "is" fs bs ss where f: "fam0 = (is, fs, bs, ss)" by (cases fam0)
  have fo: "cols_ok (\<lambda>x. unat x < span) is" "cols_ok (\<lambda>x. unat x < span) fs" "cols_ok (\<lambda>x. unat x < span) bs" "cols_ok (\<lambda>x. unat x < span) ss"
    using ok(1) f by simp_all
  have ne: "ps \<noteq> []" if "cols_ok P cols" "map_of cols k = Some ps" for P and cols :: "'v staged" and ps
    using that by (auto simp: cols_ok_def dest!: map_of_SomeD)
  have col: "thaw_col_ok span c" if r: "reads_as c mk m" "\<And>i. \<not> unat i < span \<Longrightarrow> m i = None" "m i0 \<noteq> None" for mk m i0
  proof -
    have p: "map_of (col_pairs c) i = map_option mk (m i)" "col_inv c" for i using r(1) by (auto simp: reads_as_def cols.get_pairs)
    have "col_pairs c \<noteq> []" using p(1) [of i0] r(3) by auto
    moreover have "unat i < span" if "i \<in> fst ` set (col_pairs c)" for i
    proof -
      have "map_of (col_pairs c) i \<noteq> None" using that by (simp add: map_of_eq_None_iff)
      then show ?thesis using p(1) [of i] r(2) [of i] by fastforce
    qed
    ultimately show ?thesis using p(2) by (simp add: thaw_col_ok_def)
  qed
  have none: "\<not> unat i < span \<Longrightarrow> staged_map ps i = None" if "in_span ps span" for i and ps :: "'v pair list"
    using that by (auto simp: in_span_dom)
  have some: "\<exists>i. staged_map ps i \<noteq> None" if "ps \<noteq> []" for ps :: "'v pair list"
    using that by (cases ps) (auto simp: staged_map_None)
  consider (Str) ps where "map_of ss k = Some ps" "columnFromPairsStr ps span = Some c"
    | (Bool) ps where "map_of bs k = Some ps" "columnFromPairsBool ps span = Some c"
    | (F64) ps where "map_of fs k = Some ps" "columnFromPairsF64 ps span = Some c"
    | (I64) ps where "map_of is k = Some ps" "columnFromPairsI64 ps span = Some c"
    using c by (auto simp: f split: option.splits)
  then show ?thesis
  proof cases
    case Str
    have sp: "in_span ps span" by (rule cols_ok_span [OF fo(4) Str(1)])
    have r: "reads_as c StrValue (str_map span ps)"
    proof -
      have "(if denseStrThreshold (card (pid ` set ps)) span then (\<lambda>k. if unat k < span then Some (case staged_map ps k of Some v \<Rightarrow> v | None \<Rightarrow> 0) else None)
          else staged_map ps) = str_map span ps"
        using none [OF sp] by (auto simp: str_map_def fun_eq_iff)
      then show ?thesis using columnFromPairsStr_ok [OF sp ok(2)] Str(2) by auto
    qed
    have e: "staged_map (thaw_pairs Value_StrID (col_pairs c)) = str_map span ps" by (rule reads_as_thaw [OF r]) simp
    obtain i where "staged_map ps i \<noteq> None" using some ne [OF fo(4) Str(1)] by blast
    then have "str_map span ps i \<noteq> None" by (auto simp: str_map_def)
    moreover have "\<not> unat i < span \<Longrightarrow> str_map span ps i = None" for i using none [OF sp] by (simp add: str_map_def)
    ultimately have "thaw_col_ok span c" using col [OF r] by blast
    then show ?thesis using column_dtypes(4) [OF Str(2)] column_ext_str [OF sp ok(2) e] Str(2) by simp
  next
    case Bool
    have sp: "in_span ps span" by (rule cols_ok_span [OF fo(3) Bool(1)])
    have r: "reads_as c BoolValue (staged_map ps)" using columnFromPairsBool_ok [OF sp ok(2)] Bool(2) by auto
    have e: "staged_map ps = staged_map (thaw_pairs Value_Bool (col_pairs c))" by (rule reads_as_thaw [OF r, symmetric]) simp
    have "thaw_col_ok span c" using col [OF r none [OF sp]] some ne [OF fo(3) Bool(1)] by blast
    then show ?thesis using column_dtypes(3) [OF Bool(2)] column_ext_bool [OF sp ok(2) e] Bool(2) by simp
  next
    case F64
    have sp: "in_span ps span" by (rule cols_ok_span [OF fo(2) F64(1)])
    have r: "reads_as c F64Value (staged_map ps)" using columnFromPairsF64_ok [OF sp ok(2)] F64(2) by auto
    have e: "staged_map ps = staged_map (thaw_pairs Value_F64 (col_pairs c))" by (rule reads_as_thaw [OF r, symmetric]) simp
    have "thaw_col_ok span c" using col [OF r none [OF sp]] some ne [OF fo(2) F64(1)] by blast
    then show ?thesis using column_dtypes(2) [OF F64(2)] column_ext(2) [OF sp ok(2) e] F64(2) by simp
  next
    case I64
    have sp: "in_span ps span" by (rule cols_ok_span [OF fo(1) I64(1)])
    have r: "reads_as c I64Value (staged_map ps)" using columnFromPairsI64_ok [OF sp ok(2)] I64(2) by auto
    have e: "staged_map ps = staged_map (thaw_pairs Value_I64 (col_pairs c))" by (rule reads_as_thaw [OF r, symmetric]) simp
    have "thaw_col_ok span c" using col [OF r none [OF sp]] some ne [OF fo(1) I64(1)] by blast
    then show ?thesis using column_dtypes(1) [OF I64(2)] column_ext(1) [OF sp ok(2) e] I64(2) by simp
  qed
qed

lemma restaged_family_col:
  assumes "families_ok span fam0" "span < 2 ^ 32" "\<And>k. map_of cs k = family_col span fam0 k" "restaged col_pairs cs fam"
  shows "family_col span fam k = map_of cs k"
proof -
  obtain "is" fs bs ss where f: "fam = (is, fs, bs, ss)" by (cases fam)
  have m: "map_of is k = (case map_of cs k of None \<Rightarrow> None | Some c \<Rightarrow> if Column_Dtype c = DtypeI64 then Some (thaw_pairs Value_I64 (col_pairs c)) else None)"
    "map_of fs k = (case map_of cs k of None \<Rightarrow> None | Some c \<Rightarrow> if Column_Dtype c = DtypeF64 then Some (thaw_pairs Value_F64 (col_pairs c)) else None)"
    "map_of bs k = (case map_of cs k of None \<Rightarrow> None | Some c \<Rightarrow> if Column_Dtype c = DtypeBool then Some (thaw_pairs Value_Bool (col_pairs c)) else None)"
    "map_of ss k = (case map_of cs k of None \<Rightarrow> None | Some c \<Rightarrow> if Column_Dtype c = DtypeStr then Some (thaw_pairs Value_StrID (col_pairs c)) else None)"
    using assms(4) by (simp_all add: restaged_def family_of_def f)
  show ?thesis
  proof (cases "map_of cs k")
    case None
    then show ?thesis by (simp add: f m)
  next
    case (Some c)
    then have "family_col span fam0 k = Some c" using assms(3) by simp
    from family_column [OF assms(1,2) this] show ?thesis using Some by (cases "Column_Dtype c") (simp_all add: f m)
  qed
qed

text \<open>Through the relationship positions: restaged indexes moved back to the outgoing CSR.\<close>

lemma restaged_at_csr:
  assumes r: "restaged (at_staging ots) cs (is, fs, bs, ss)" and c: "\<forall>c \<in> snd ` set cs. \<forall>p \<in> fst ` set (col_pairs c). r2c ! unat (ots ! unat p) = p"
  shows "restaged col_pairs cs (cols_at_csr r2c is, cols_at_csr r2c fs, cols_at_csr r2c bs, cols_at_csr r2c ss)"
proof -
  have bk: "at_csr r2c (thaw_pairs get (at_staging ots d)) = thaw_pairs get (col_pairs d)" if "map_of cs k = Some d" for k d and get :: "Value \<Rightarrow> 'v \<times> bool"
  proof -
    have "d \<in> snd ` set cs" using that map_of_SomeD by force
    then show ?thesis using c by (force simp: at_csr_def thaw_pairs_def at_staging_def)
  qed
  have fam: "family_of dt get col_pairs cs (cols_at_csr r2c cols)" if f: "family_of dt get (at_staging ots) cs cols" for dt and get :: "Value \<Rightarrow> 'v \<times> bool" and cols
  proof -
    have "map fst (cols_at_csr r2c cols) = map fst cols" by (simp add: cols_at_csr_def comp_def case_prod_beta)
    then show ?thesis using f bk by (auto simp: family_of_def map_of_cols_at_csr split: option.split)
  qed
  show ?thesis using r by (simp add: restaged_def fam)
qed

lemma restaged_keys:
  assumes "restaged ent cs (is, fs, bs, ss)"
  shows "distinct (map fst is @ map fst fs @ map fst bs @ map fst ss)" "is \<noteq> [] \<or> fs \<noteq> [] \<or> bs \<noteq> [] \<or> ss \<noteq> [] \<longleftrightarrow> cs \<noteq> []"
proof -
  have dm: "fst ` set cols = {k. \<exists>c. map_of cs k = Some c \<and> Column_Dtype c = dt}" if "family_of dt get ent cs cols" for dt and get :: "Value \<Rightarrow> 'v \<times> bool" and cols
  proof -
    have "fst ` set cols = dom (map_of cols)" by (simp add: dom_map_of_conv_image_fst)
    then show ?thesis using that by (auto simp: family_of_def dom_def split: option.splits if_splits)
  qed
  have f: "family_of DtypeI64 Value_I64 ent cs is" "family_of DtypeF64 Value_F64 ent cs fs" "family_of DtypeBool Value_Bool ent cs bs" "family_of DtypeStr Value_StrID ent cs ss"
    using assms by (simp_all add: restaged_def)
  note d = dm [OF f(1)] dm [OF f(2)] dm [OF f(3)] dm [OF f(4)]
  show "distinct (map fst is @ map fst fs @ map fst bs @ map fst ss)"
    using f by (auto simp: d family_of_def)
  have "is \<noteq> [] \<or> fs \<noteq> [] \<or> bs \<noteq> [] \<or> ss \<noteq> [] \<longleftrightarrow> fst ` set is \<union> fst ` set fs \<union> fst ` set bs \<union> fst ` set ss \<noteq> {}" by auto
  also have "fst ` set is \<union> fst ` set fs \<union> fst ` set bs \<union> fst ` set ss = dom (map_of cs)"
  proof -
    have "dt = DtypeI64 \<or> dt = DtypeF64 \<or> dt = DtypeBool \<or> dt = DtypeStr" for dt by (cases dt) simp_all
    then show ?thesis unfolding d dom_def by blast
  qed
  also have "dom (map_of cs) \<noteq> {} \<longleftrightarrow> cs \<noteq> []" by (simp add: dom_map_of_conv_image_fst)
  finally show "is \<noteq> [] \<or> fs \<noteq> [] \<or> bs \<noteq> [] \<or> ss \<noteq> [] \<longleftrightarrow> cs \<noteq> []" .
qed

text \<open>Keys staged under one type lose nothing.\<close>

lemma drop_none:
  assumes "distinct (map fst (concat fams))"
  shows "crossTypedDropCount fams = 0"
proof -
  have c: "fold (\<lambda>f st. fold drop_step f st) fs st = fold drop_step (concat fs) st" for fs st by (induction fs arbitrary: st) simp_all
  have "\<exists>tot win. fold drop_step xs (t, w, []) = (tot, win, [])" if "distinct (map fst xs)" "fst ` set xs \<inter> dom t = {}" for xs t w
    using that
  proof (induction xs arbitrary: t w)
    case (Cons x xs)
    obtain k n where x: "x = (k, n)" by (cases x)
    have "t k = None" using Cons.prems(2) x by auto
    then have s: "drop_step x (t, w, []) = (t(k \<mapsto> n), w(k \<mapsto> n), [])" by (simp add: drop_step_def x)
    have "fst ` set xs \<inter> dom (t(k \<mapsto> n)) = {}" "distinct (map fst xs)" using Cons.prems x by auto
    from Cons.IH [OF this(2,1)] show ?case by (simp only: fold_simps s)
  qed simp
  from this [of "concat fams" Map.empty Map.empty] obtain tot win where "fold drop_step (concat fams) (Map.empty, Map.empty, []) = (tot, win, [])"
    using assms by auto
  then show ?thesis by (simp add: crossTypedDropCount_def c)
qed


section \<open>The thawed builder\<close>

text \<open>The positions at which some node column has a value.\<close>

definition column_positions :: "'bm Snapshot \<Rightarrow> u32 set" where
  "column_positions g = (\<Union>c \<in> snd ` set (columns g). fst ` set (col_pairs c))"

text \<open>What a snapshot says of its builder, without the counts of known nodes and dropped pairs.\<close>

definition recounted :: "'bm roaring \<Rightarrow> 'bm Builder \<Rightarrow> 'bm Snapshot \<Rightarrow> 'bm Snapshot" where
  "recounted R b g = g\<lparr>nNodes := ucast (rb_GetCardinality R (knownNodes b)), existence := Some (FromBitmap (rb_Clone R (knownNodes b))), droppedCrossTyped := 0\<rparr>"

definition thawed :: "'bm roaring \<Rightarrow> 'bm Snapshot \<Rightarrow> 'bm Builder \<Rightarrow> bool" where
  "thawed R g b \<longleftrightarrow> builder_inv R b \<and> removedRels b = None \<and> removedNodes b = [] \<and> sizes_ok b \<and> ids_interned b \<and> b_src b = Some g
    \<and> srcRelToOutCSR b = out_positions (b_rels b) \<and> \<not> relsDirty b \<and> dirtyNodeCols b = {} \<and> dirtyRelCols b = {} \<and> dirtyLabels b = {}
    \<and> snapshot_of R b (recounted R b g)"

lemma builder_inv_columns:
  assumes inv: "builder_inv R b" and kn: "rb_set R (knownNodes b) \<subseteq> rb_set R kn" "\<forall>x \<in> rb_set R kn. unat x < length (degOut b)"
    and n: "cols_ok (\<lambda>x. x \<in> rb_set R kn) c1" "cols_ok (\<lambda>x. x \<in> rb_set R kn) c2" "cols_ok (\<lambda>x. x \<in> rb_set R kn) c3" "cols_ok (\<lambda>x. x \<in> rb_set R kn) c4"
    and r: "cols_ok (\<lambda>x. unat x < length (b_rels b)) r1" "cols_ok (\<lambda>x. unat x < length (b_rels b)) r2"
      "cols_ok (\<lambda>x. unat x < length (b_rels b)) r3" "cols_ok (\<lambda>x. unat x < length (b_rels b)) r4"
    and b': "b' = b\<lparr>nodeColI64 := c1, nodeColF64 := c2, nodeColBool := c3, nodeColStr := c4, relColI64 := r1, relColF64 := r2, relColBool := r3, relColStr := r4, knownNodes := kn\<rparr>"
  shows "builder_inv R b'"
proof -
  have sr: "same_rels b b'" by (simp add: same_rels_def b')
  note e = same_rels_simps [OF sr, of R]
  have "caps_inv b'" using inv by (simp add: builder_inv_def caps_inv_def b')
  moreover have "rels_inv R b'" using inv e by (simp add: builder_inv_def rels_inv_def b' cong: option.case_cong)
  moreover have "known_inv R b'" 
  proof -
    have k: "known_inv R b" using inv by (simp add: builder_inv_def)
    have f: "b_rels b' = b_rels b" "knownNodes b' = kn" "degOut b' = degOut b" "nodeLabels b' = nodeLabels b" by (simp_all add: b')
    show ?thesis using k kn unfolding known_inv_def e f by blast
  qed
  moreover have "cols_inv R b'" using n r by (simp add: cols_inv_def b')
  moreover have "index_inv R b'" using inv e by (simp add: builder_inv_def index_inv_def b' cong: option.case_cong)
  ultimately show ?thesis using inv by (simp add: builder_inv_def b')
qed

lemma restaged_cols_ok:
  assumes r: "restaged ent cs (is, fs, bs, ss)" and c: "\<forall>c \<in> snd ` set cs. ent c \<noteq> [] \<and> (\<forall>x \<in> fst ` set (ent c). P x)"
  shows "cols_ok P is" "cols_ok P fs" "cols_ok P bs" "cols_ok P ss"
proof -
  have fam: "cols_ok P cols" if f: "family_of dt get ent cs cols" for dt and get :: "Value \<Rightarrow> 'v \<times> bool" and cols
    unfolding cols_ok_def
  proof (intro conjI ballI)
    show d: "distinct (map fst cols)" using f by (simp add: family_of_def)
    fix e assume e: "e \<in> set cols"
    obtain k ps where kp: "e = (k, ps)" by (cases e)
    have "map_of cols k = Some ps" using d e kp by (simp add: map_of_eq_Some_iff)
    then obtain c' where c': "map_of cs k = Some c'" "ps = thaw_pairs get (ent c')" using f by (auto simp: family_of_def split: option.splits if_splits)
    have "c' \<in> snd ` set cs" using c'(1) map_of_SomeD by force
    then have "ent c' \<noteq> []" "\<forall>x \<in> pid ` set ps. P x" unfolding c'(2) thaw_pairs_pid(1) using c by blast+
    moreover have "ps \<noteq> []" using calculation(1) c'(2) by (simp add: thaw_pairs_pid(2))
    ultimately show "case e of (k, ps) \<Rightarrow> ps \<noteq> [] \<and> (\<forall>p \<in> set ps. P (pid p))" by (simp add: kp)
  qed
  show "cols_ok P is" "cols_ok P fs" "cols_ok P bs" "cols_ok P ss" using r by (auto simp: restaged_def intro: fam)
qed


lemma invertPositions_ok:
  fixes order :: "u32 list"
  assumes m: "m < 2 ^ 32" and ord: "distinct order" "unat ` set order = {..<m}" "length order = m" and ots: "length ots = m" "\<forall>k < m. ots ! unat (order ! k) = of_nat k"
  shows "invertPositions ots = Some order" "\<forall>i \<in> set ots. unat i < m" "\<And>p. unat p < m \<Longrightarrow> order ! unat (ots ! unat p) = p"
proof -
  have pre: "\<exists>k < m. order ! k = of_nat p \<and> unat (order ! k) = p \<and> ots ! p = of_nat k \<and> unat (ots ! p) = k" if "p < m" for p
  proof -
    have "p \<in> unat ` set order" unfolding ord(2) using that by simp
    then obtain k where k: "k < m" "unat (order ! k) = p" using ord(3) by (auto simp: in_set_conv_nth)
    moreover have "order ! k = of_nat p" using k(2) by (metis of_nat_unat ucast_id)
    ultimately show ?thesis using ots(2) m by (intro exI [of _ k]) (auto simp: unat_of_nat_less)
  qed
  show lt: "\<forall>i \<in> set ots. unat i < m"
  proof
    fix i assume "i \<in> set ots"
    then obtain p where "p < m" "ots ! p = i" using ots(1) by (auto simp: in_set_conv_nth)
    then show "unat i < m" using pre [of p] by auto
  qed
  show bk: "order ! unat (ots ! unat p) = p" if "unat p < m" for p using pre [OF that] by auto
  have "distinct ots"
  proof (rule distinct_conv_nth [THEN iffD2], intro allI impI)
    fix i j assume ij: "i < length ots" "j < length ots" "i \<noteq> j"
    then have "unat (order ! unat (ots ! i)) = i" "unat (order ! unat (ots ! j)) = j" using pre [of i] pre [of j] ots(1) by auto
    then show "ots ! i \<noteq> ots ! j" using ij(3) by auto
  qed
  from scatter_enumerate [OF this lt, unfolded ots(1)]
  obtain r where r: "fold_opt (\<lambda>(k, p) r. slice_set r (unat p) (of_nat k)) (enumerate 0 ots) (replicate m (0 :: u32)) = Some r" "length r = m"
      "\<forall>k < m. r ! unat (ots ! k) = of_nat k"
    by (elim exE conjE) (rule that)
  have "r = order"
  proof (rule nth_equalityI)
    fix k assume "k < length r"
    then have k: "k < m" using r(2) by simp
    have "unat (order ! k) \<in> {..<m}" unfolding ord(2) [symmetric] using k ord(3) by simp
    moreover have "unat (ots ! unat (order ! k)) = k" using ots(2) k m by (simp add: unat_of_nat_less)
    ultimately have "r ! k = of_nat (unat (order ! k))" using r(3) by (metis lessThan_iff)
    then show "r ! k = order ! k" by simp
  qed (simp add: r(2) ord(3))
  then show "invertPositions ots = Some order" using r(1) ots(1) by (simp add: invertPositions_def)
qed

definition blank :: "'bm roaring \<Rightarrow> 'bm Snapshot \<Rightarrow> 'bm Builder" where
  "blank R g = (NewBuilder R (max (int (unat (CSRIDSpace g))) 1) (max (int (length (outNbrs g))) 1))\<lparr>interner := newInternerFromAtoms (sn_atoms g), b_version := sn_version g\<rparr>"

lemma blank_builder_ok:
  assumes R: "roaring_laws R" and i: "interner_wf (newInternerFromAtoms (sn_atoms g))" and n: "1 \<le> unat (CSRIDSpace g)"
  shows "builder_inv R (blank R g)" "length (degOut (blank R g)) = unat (CSRIDSpace g)" "nodeLabels (blank R g) = replicate (unat (CSRIDSpace g)) []"
    "b_src (blank R g) = None" "relIndex (blank R g) = None" "b_rels (blank R g) = []" "b_relTypes (blank R g) = []" "rb_set R (knownNodes (blank R g)) = {}"
    "removedRels (blank R g) = None" "removedNodes (blank R g) = []"
proof -
  let ?nb = "NewBuilder R (max (int (unat (CSRIDSpace g))) 1) (max (int (length (outNbrs g))) 1)"
  have "builder_inv R ?nb" using good_NewBuilder [OF R] by (simp add: good_def)
  then have "builder_inv R (?nb\<lparr>interner := newInternerFromAtoms (sn_atoms g), b_version := sn_version g\<rparr>)"
    by (rule same_staging_inv [rotated 2]) (simp_all add: same_staging_def i)
  then show "builder_inv R (blank R g)" by (simp add: blank_def)
  have "nat (max (int (unat (CSRIDSpace g))) 1) = unat (CSRIDSpace g)" "\<not> max (int (unat (CSRIDSpace g))) 1 \<le> 0" using n by linarith+
  then show "length (degOut (blank R g)) = unat (CSRIDSpace g)" "nodeLabels (blank R g) = replicate (unat (CSRIDSpace g)) []"
    unfolding blank_def NewBuilder_def Let_def by (simp_all del: of_nat_unat)
qed (simp_all add: blank_def NewBuilder_def Let_def roaring_simps [OF R])

lemma thaw_adjacency:
  assumes R: "roaring_laws R" and c: "csr_of n rels ts g" and n: "unat (CSRIDSpace g) = n" "1 \<le> n" and i: "interner_wf (newInternerFromAtoms (sn_atoms g))"
    and l: "\<forall>l. \<forall>x \<in> members R (labelIndex g) l. unat x < n" and room: "length rels \<le> maxSize"
  shows "\<exists>b2 b3 ots order dO dI nl kn. fold_opt (thaw_labels R g) (sort (map fst (labelIndex g))) (blank R g) = Some b2 \<and> thawRels R g b2 = Some (b3, ots)
    \<and> builder_inv R b3 \<and> b3 = (blank R g)\<lparr>degOut := dO, degIn := dI, b_rels := map ((!) rels) (thaw_perm n rels order), nodeLabels := nl,
        b_relTypes := map ((!) ts) (thaw_perm n rels order), knownNodes := kn\<rparr>
    \<and> length dO = n \<and> length nl = n \<and> (\<forall>u < n. set (nl ! u) = {l. u \<in> unat ` members R (labelIndex g) l})
    \<and> rb_set R kn = (\<Union>l. members R (labelIndex g) l) \<union> fst ` set rels \<union> snd ` set rels
    \<and> keeps_order n (owner_list 0 rels) (thaw_perm n rels order) \<and> keeps_order n (owner_list 1 rels) (thaw_perm n rels order)
    \<and> distinct order \<and> unat ` set order = {..<length rels} \<and> length order = length rels
    \<and> length ots = length rels \<and> (\<forall>k < length rels. ots ! unat (order ! k) = of_nat k)"
proof -
  let ?m = "length rels" and ?s = "owner_list 0 rels" and ?L = "labelIndex g"
  let ?O = "csr_order n ?s"
  note f = csr_of_facts [OF c] and bl = blank_builder_ok [OF R i]
  note s = below_n_facts [OF f(1) [of 0]]
  note bl = bl [unfolded n(1), OF n(2)]
  have lb: "\<And>l x. x \<in> members R ?L l \<Longrightarrow> unat x < length (nodeLabels (blank R g))" using l bl(3) by simp
  obtain b2 where b2: "fold_opt (thaw_labels R g) (sort (map fst ?L)) (blank R g) = Some b2"
      "relabelled R (\<lambda>u. {l \<in> set (sort (map fst ?L)). u \<in> unat ` members R ?L l}) (\<Union>l \<in> set (sort (map fst ?L)). members R ?L l) (blank R g) b2"
  proof -
    have "set (sort (map fst ?L)) \<subseteq> fst ` set ?L" by simp
    then have "\<exists>b'. fold_opt (thaw_labels R g) (sort (map fst ?L)) (blank R g) = Some b'
      \<and> relabelled R (\<lambda>u. {l \<in> set (sort (map fst ?L)). u \<in> unat ` members R ?L l}) (\<Union>l \<in> set (sort (map fst ?L)). members R ?L l) (blank R g) b'"
      by (rule thaw_labels_all [OF R bl(1)]) (rule lb)
    then show ?thesis using that by blast
  qed
  have keys: "l \<in> fst ` set ?L" if "x \<in> members R ?L l" for l x using that map_of_eq_None_iff [of ?L l] by (auto simp: members_def split: option.splits)
  obtain nl k2 where r2: "builder_inv R b2" "b2 = (blank R g)\<lparr>nodeLabels := nl, knownNodes := k2\<rparr>" "length nl = n"
      "\<forall>u < n. set (nl ! u) = {l. u \<in> unat ` members R ?L l}" "rb_set R k2 = (\<Union>l. members R ?L l)"
  proof -
    obtain nl k2 where x: "b2 = (blank R g)\<lparr>nodeLabels := nl, knownNodes := k2\<rparr>" "length nl = length (nodeLabels (blank R g))"
      "\<forall>u < length nl. set (nl ! u) = set (nodeLabels (blank R g) ! u) \<union> {l \<in> set (sort (map fst ?L)). u \<in> unat ` members R ?L l}"
      "rb_set R k2 = rb_set R (knownNodes (blank R g)) \<union> (\<Union>l \<in> set (sort (map fst ?L)). members R ?L l)"
      using b2(2) unfolding relabelled_def by (elim exE conjE) (rule that)
    have "(\<Union>l \<in> set (sort (map fst ?L)). members R ?L l) = (\<Union>l. members R ?L l)" using keys by auto
    moreover have "{l \<in> set (sort (map fst ?L)). u \<in> unat ` members R ?L l} = {l. u \<in> unat ` members R ?L l}" for u using keys by auto
    ultimately have y: "length nl = n" "\<forall>u < n. set (nl ! u) = {l. u \<in> unat ` members R ?L l}" "rb_set R k2 = (\<Union>l. members R ?L l)" using x(2-4) bl(3,8) by simp_all
    have "builder_inv R b2" using b2(2) by (simp add: relabelled_def)
    then show ?thesis by (rule that [OF _ x(1) y])
  qed
  obtain order where ord: "thawRelOrder g = Some order" "distinct order" "unat ` set order = {..<?m}"
      "keeps_order n ?s (thaw_perm n rels order)" "keeps_order n (owner_list 1 rels) (thaw_perm n rels order)"
    using thawRelOrder_ok [OF c] by blast
  have olen: "length order = ?m" using ord(2,3) by (metis card_image card_lessThan distinct_card inj_on_def word_unat_eq_iff)
  have olt: "\<forall>p \<in> set order. unat p < ?m" using ord(3) by blast
  obtain sr where sr: "ownersFromOffsets (outOffsets g) = Some sr" "length sr = ?m" "\<forall>p < ?m. sr ! p = of_nat (?s ! (?O ! p))"
    using ownersFromOffsets_ok [OF f(6) f(8) f(1) [of 0]] by auto
  have ok: "rels_ok n rels ts" and out: "csr_repr n rels ts 0 (outOffsets g) (outNbrs g) (outTypes g)" using c by (auto simp: csr_of_def)
  note cr = csr_repr_facts [OF ok out]
  have wf: "rt_wf (outTypes g)" using out by (simp add: csr_repr_def Let_def)
  have pair: "(sr ! p, outNbrs g ! p) = rels ! (?O ! p)" "?O ! p < ?m" if "p < ?m" for p
    using sr(3) cr(4,5) [OF that] that by (simp_all add: owner_of_def other_of_def prod_eq_iff)
  have ends: "unat (fst r) < n \<and> unat (snd r) < n" if "r \<in> set rels" for r using ok that by (simp add: rels_ok_def)
  have cap: "unat (sr ! p) < length (degOut b2) \<and> unat (outNbrs g ! p) < length (degOut b2)" if "p < ?m" for p
  proof -
    have "rels ! (?O ! p) \<in> set rels" using pair(2) [OF that] by simp
    then show ?thesis using ends pair(1) [OF that] bl(2) by (auto simp: r2(2) dest: sym)
  qed
  have fields: "b_src b2 = None" "relIndex b2 = None" "b_rels b2 = []" "b_relTypes b2 = []" by (simp_all add: r2(2) bl)
  obtain b3 ots where b3: "fold_opt (thaw_rel R g sr) order (b2, replicate ?m 0) = Some (b3, ots)"
      "related R (map (\<lambda>p. (sr ! unat p, outNbrs g ! unat p)) order) (map (\<lambda>p. rt_list (outTypes g) ! unat p) order) b2 b3"
      "length ots = ?m" "\<forall>k < ?m. ots ! unat (order ! k) = of_nat k"
    using thaw_rel_all [OF R r2(1) fields cap sr(2) f(3) wf cr(3) room ord(2) olt olen] by blast
  have rl: "map (\<lambda>p. (sr ! unat p, outNbrs g ! unat p)) order = map ((!) rels) (thaw_perm n rels order)"
    "map (\<lambda>p. rt_list (outTypes g) ! unat p) order = map ((!) ts) (thaw_perm n rels order)"
    using pair(1) cr(6) olt by (simp_all add: thaw_perm_def)
  obtain dO dI kn where d: "b3 = b2\<lparr>degOut := dO, degIn := dI, b_rels := map ((!) rels) (thaw_perm n rels order), b_relTypes := map ((!) ts) (thaw_perm n rels order), knownNodes := kn\<rparr>"
      "length dO = length (degOut b2)" "rb_set R kn = rb_set R (knownNodes b2) \<union> fst ` set (map ((!) rels) (thaw_perm n rels order)) \<union> snd ` set (map ((!) rels) (thaw_perm n rels order))"
    using b3(2) unfolding rl related_def by (elim exE conjE) (rule that)
  have "set (thaw_perm n rels order) = {0..<?m}" using ord(4) by (auto simp: keeps_order_def)
  then have "set (map ((!) rels) (thaw_perm n rels order)) = set rels" using nth_image [of ?m rels] by simp
  then have "rb_set R kn = (\<Union>l. members R ?L l) \<union> fst ` set rels \<union> snd ` set rels" using d(3) r2(5) by (simp add: r2(2))
  moreover have "thawRels R g b2 = Some (b3, ots)" using ord(1) sr(1) b3(1) olen by (simp add: thawRels_def)
  moreover have "b3 = (blank R g)\<lparr>degOut := dO, degIn := dI, b_rels := map ((!) rels) (thaw_perm n rels order), nodeLabels := nl,
        b_relTypes := map ((!) ts) (thaw_perm n rels order), knownNodes := kn\<rparr>" by (simp add: d(1) r2(2))
  moreover have "length dO = n" "builder_inv R b3" using d(2) bl(2) b3(2) by (simp_all add: r2(2) related_def)
  ultimately show ?thesis using b2(1) r2(3,4) ord(2-5) olen b3(3,4)
    by - (rule exI [of _ b2], rule exI [of _ b3], rule exI [of _ ots], rule exI [of _ order], rule exI [of _ dO], rule exI [of _ dI], rule exI [of _ nl], rule exI [of _ kn], simp)
qed


lemma snapshot_of_columns:
  assumes R: "roaring_laws R" and inv: "builder_inv R b0" and no: "\<not> hasRemovals R b0" and sz: "sizes_ok b0" and s: "snapshot_of R b0 g"
  shows "families_ok (id_space R b0) (node_fams b0)" "families_ok (length (b_rels b0)) (rel_fams (out_positions (b_rels b0)) b0)"
    "id_space R b0 < 2 ^ 32" "length (b_rels b0) < 2 ^ 32"
    "\<forall>c \<in> snd ` set (columns g). thaw_col_ok (id_space R b0) c" "\<forall>c \<in> snd ` set (relColumns g). thaw_col_ok (length (b_rels b0)) c"
proof -
  let ?n = "id_space R b0" and ?m = "length (b_rels b0)"
  have len: "length (degOut b0) < 2 ^ 32" "?m < 2 ^ 32" using sz by (auto simp: sizes_ok_def)
  note ci = builder_csr_input [OF R inv no len(1)]
  show nf: "families_ok ?n (node_fams b0)" by (rule ci(4))
  show n: "?n < 2 ^ 32" using id_space_bounds(2) [OF R inv] len(1) by simp
  show "?m < 2 ^ 32" by (rule len(2))
  have ow: "below_n ?n (owner_list 0 (b_rels b0))" using rels_ok_owner [OF ci(1), of _ 0] by (simp add: below_n_def)
  show rf: "families_ok ?m (rel_fams (out_positions (b_rels b0)) b0)"
  proof (rule rel_fams_ok)
    show "cols_inv R b0" using inv by (simp add: builder_inv_def)
    show "length (out_positions (b_rels b0)) = ?m" by (simp add: out_positions_def)
    show "unat (out_positions (b_rels b0) ! i) < ?m" if "i < ?m" for i
    proof -
      have "csr_pos (owner_list 0 (b_rels b0)) i < ?m" using below_n_facts(6) [OF ow] that by simp
      then show ?thesis using that len(2) by (simp add: out_positions_def unat_of_nat_less)
    qed
  qed
  have c: "map_of (columns g) k = family_col ?n (node_fams b0) k" "map_of (relColumns g) k = family_col ?m (rel_fams (out_positions (b_rels b0)) b0) k"
    "distinct (map fst (columns g))" "distinct (map fst (relColumns g))" for k using s by (simp_all add: snapshot_of_def Let_def)
  have "thaw_col_ok ?n x" if "(k, x) \<in> set (columns g)" for k x
    using conjunct1 [OF family_column [OF nf n, of k x]] c(1) [of k] map_of_is_SomeI [OF c(3) that] by simp
  then show "\<forall>c \<in> snd ` set (columns g). thaw_col_ok ?n c" by auto
  have "thaw_col_ok ?m x" if "(k, x) \<in> set (relColumns g)" for k x
    using conjunct1 [OF family_column [OF rf len(2), of k x]] c(2) [of k] map_of_is_SomeI [OF c(4) that] by simp
  then show "\<forall>c \<in> snd ` set (relColumns g). thaw_col_ok ?m c" by auto
qed

lemma snapshot_of_csr:
  assumes R: "roaring_laws R" and inv: "builder_inv R b0" and no: "\<not> hasRemovals R b0" and sz: "sizes_ok b0" "ids_interned b0" and s: "snapshot_of R b0 g"
  shows "csr_of (id_space R b0) (b_rels b0) (b_relTypes b0) g" "unat (CSRIDSpace g) = id_space R b0"
proof -
  have len: "length (degOut b0) < 2 ^ 32" using sz by (auto simp: sizes_ok_def)
  note ci = builder_csr_input [OF R inv no len]
  have "\<forall>t \<in> set (b_relTypes b0). unat t + 1 < 2 ^ 32" using sz by (fastforce simp: sizes_ok_def ids_interned_def interned_def)
  then show "csr_of (id_space R b0) (b_rels b0) (b_relTypes b0) g" using ci(1) s by (simp add: csr_of_def snapshot_of_def Let_def)
  have "length (outOffsets g) = id_space R b0 + 1" "id_space R b0 < 2 ^ 32" using s ci(1) by (auto simp: snapshot_of_def Let_def csr_repr_def rels_ok_def)
  then show "unat (CSRIDSpace g) = id_space R b0" by (simp add: CSRIDSpace_def unat_of_nat_less)
qed

lemma fold_known_add: "yield_all (\<lambda>i b. (True, known_add R i b)) xs b = (True, b\<lparr>knownNodes := fold (\<lambda>i kn. rb_Add R kn i) xs (knownNodes b)\<rparr>)"
  by (induction xs arbitrary: b) (simp_all add: known_add_def)

lemma fold_rb_Add_ids: "roaring_laws R \<Longrightarrow> rb_set R (fold (\<lambda>i kn. rb_Add R kn i) xs kn) = rb_set R kn \<union> set xs"
  by (induction xs arbitrary: kn) (auto simp: roaring_simps)


lemma thaw_order_facts:
  assumes c: "csr_of n rels ts g" and k: "keeps_order n (owner_list 0 rels) (thaw_perm n rels order)" "keeps_order n (owner_list 1 rels) (thaw_perm n rels order)"
    and ord: "unat ` set order = {..<length rels}" "length order = length rels"
  shows "csr_of n (map ((!) rels) (thaw_perm n rels order)) (map ((!) ts) (thaw_perm n rels order)) g"
    "out_positions (map ((!) rels) (thaw_perm n rels order)) = order"
proof -
  let ?p = "thaw_perm n rels order" and ?s = "owner_list 0 rels"
  have ok: "rels_ok n rels ts" and tt: "\<forall>t \<in> set ts. unat t + 1 < 2 ^ 32" and r: "csr_repr n rels ts 0 (outOffsets g) (outNbrs g) (outTypes g)" "csr_repr n rels ts 1 (inOffsets g) (inNbrs g) (inTypes g)"
    using c by (auto simp: csr_of_def)
  have sp: "set ?p = {0..<length rels}" using k(1) by (auto simp: keeps_order_def)
  have len: "length ts = length rels" using ok by (simp add: rels_ok_def)
  have st: "set (map ((!) rels) ?p) = set rels" "set (map ((!) ts) ?p) = set ts" using nth_image [of "length rels" rels] nth_image [of "length ts" ts] sp len by simp_all
  have "rels_ok n (map ((!) rels) ?p) (map ((!) ts) ?p)" using ok ord(2) st(1) unfolding rels_ok_def by (simp add: thaw_perm_def)
  moreover have "\<forall>t \<in> set (map ((!) ts) ?p). unat t + 1 < 2 ^ 32" unfolding st using tt .
  ultimately show "csr_of n (map ((!) rels) ?p) (map ((!) ts) ?p) g"
    using restage_csr [OF ok r(1) k(1)] restage_csr [OF ok r(2) k(2)] c by (simp add: csr_of_def)
  note f = csr_of_facts [OF c]
  have ow: "owner_list 0 (map ((!) rels) ?p) = map ((!) ?s) ?p" using sp by (auto simp: owner_list_def)
  show "out_positions (map ((!) rels) ?p) = order"
  proof (rule nth_equalityI)
    show l: "length (out_positions (map ((!) rels) ?p)) = length order" by (simp add: out_positions_def thaw_perm_def)
    fix i assume "i < length (out_positions (map ((!) rels) ?p))"
    then have i: "i < length order" using l by simp
    have lt: "unat (order ! i) < length rels" using i ord(1) by (metis image_eqI lessThan_iff nth_mem)
    have "csr_pos (map ((!) ?s) ?p) i = csr_pos ?s (?p ! i)" using keeps_order_csr(3) [OF f(1) [of 0] k(1), of i] i by (simp add: thaw_perm_def)
    also have "\<dots> = unat (order ! i)" using below_n_facts(4) [OF f(1) [of 0]] lt i by (simp add: thaw_perm_def)
    finally have e: "csr_pos (map ((!) ?s) ?p) i = unat (order ! i)" .
    have "i < length ?p" using i by (simp add: thaw_perm_def)
    then have "out_positions (map ((!) rels) ?p) ! i = of_nat (csr_pos (map ((!) ?s) ?p) i)" by (simp add: out_positions_def ow)
    then show "out_positions (map ((!) rels) ?p) ! i = order ! i" by (simp add: e)
  qed
qed

lemma family_col_None:
  assumes "families_ok span (is, fs, bs, ss)" "span < 2 ^ 32"
  shows "family_col span (is, fs, bs, ss) k = None \<longleftrightarrow> map_of is k = None \<and> map_of fs k = None \<and> map_of bs k = None \<and> map_of ss k = None"
  using family_builds [OF assms] by (auto split: option.splits dest!: map_of_SomeD)

lemma family_nonempty:
  assumes "families_ok span (is, fs, bs, ss)" "span < 2 ^ 32" "\<And>k. map_of cs k = family_col span (is, fs, bs, ss) k"
  shows "cs \<noteq> [] \<longleftrightarrow> is \<noteq> [] \<or> fs \<noteq> [] \<or> bs \<noteq> [] \<or> ss \<noteq> []"
proof -
  have e: "xs = [] \<longleftrightarrow> (\<forall>k. map_of xs k = None)" for xs :: "('k \<times> 'w) list" by (auto simp: map_of_eq_None_iff)
  have "(\<forall>k. map_of cs k = None) \<longleftrightarrow> (\<forall>k. map_of is k = None) \<and> (\<forall>k. map_of fs k = None) \<and> (\<forall>k. map_of bs k = None) \<and> (\<forall>k. map_of ss k = None)"
    unfolding assms(3) family_col_None [OF assms(1,2)] by auto
  then show ?thesis unfolding e [of cs] e [of "is"] e [of fs] e [of bs] e [of ss] by blast
qed

lemma id_space_eq:
  assumes R: "roaring_laws R" and k: "\<forall>x \<in> rb_set R (knownNodes b). unat x < n" "n = 1 \<or> (\<exists>x \<in> rb_set R (knownNodes b). unat x + 1 = n)"
  shows "id_space R b = n"
proof (cases "rb_set R (knownNodes b) = {}")
  case True
  then show ?thesis using k(2) by (simp add: id_space_def roaring_simps [OF R])
next
  case False
  have m: "rb_Maximum R (knownNodes b) \<in> rb_set R (knownNodes b)" using roaring_min_max(3) [OF R False] .
  have "x \<le> rb_Maximum R (knownNodes b)" if "x \<in> rb_set R (knownNodes b)" for x using roaring_min_max(4) [OF R False that] .
  then have "unat (rb_Maximum R (knownNodes b)) + 1 = n" using k m by (fastforce simp: word_le_nat_alt)
  then show ?thesis using False by (simp add: id_space_def roaring_simps [OF R])
qed

lemma thaw_ok:
  assumes R: "roaring_laws R" and inv: "builder_inv R b0" and no: "\<not> hasRemovals R b0" and sz: "sizes_ok b0" "ids_interned b0" and s: "snapshot_of R b0 g"
  shows "\<exists>b. NewBuilderFromSnapshot R g = Some b \<and> thawed R g b \<and> rb_set R (knownNodes b) = rb_set R (knownNodes b0) \<union> column_positions g
    \<and> interner b = newInternerFromAtoms (sn_atoms g) \<and> id_space R b = id_space R b0"
proof -
  let ?n = "id_space R b0" and ?rels = "b_rels b0" and ?ts = "b_relTypes b0" and ?m = "length (b_rels b0)" and ?L = "labelIndex g"
  note cf = snapshot_of_columns [OF R inv no sz(1) s] and cs = snapshot_of_csr [OF R inv no sz s]
  have n1: "1 \<le> ?n" by (rule id_space_bounds(1) [OF R inv])
  have S: "\<And>l. members R ?L l = {x. unat x < ?n \<and> l \<in> set (nodeLabels b0 ! unat x)}" "sn_atoms g = Interner_Atoms (interner b0)"
      "distinct (map fst (columns g))" "distinct (map fst (relColumns g))" "existence g = Some (FromBitmap (rb_Clone R (knownNodes b0)))"
      "\<And>k. map_of (columns g) k = family_col ?n (node_fams b0) k" "\<And>k. map_of (relColumns g) k = family_col ?m (rel_fams (out_positions ?rels) b0) k"
      "hasRelProps g = (relColI64 b0 \<noteq> [] \<or> relColF64 b0 \<noteq> [] \<or> relColBool b0 \<noteq> [] \<or> relColStr b0 \<noteq> [])" "distinct (map fst ?L)"
      "\<forall>l \<in> fst ` set ?L. members R ?L l \<noteq> {}" "nRels g = of_nat ?m"
      "\<And>t. members R (typeIndex g) t = {p. unat p < ?m \<and> ?ts ! (csr_order ?n (owner_list 0 ?rels) ! unat p) = t}"
    using s unfolding snapshot_of_def Let_def by blast+
  have iw: "interner_wf (interner b0)" using inv by (simp add: builder_inv_def)
  have str: "int_strings (newInternerFromAtoms (sn_atoms g)) = int_strings (interner b0)"
    using iw by (simp add: S(2) newInternerFromAtoms_def Interner_Atoms_def NewAtoms_def interner_wf_def Let_def)
  have "atoms_wf (sn_atoms g)" using iw sz(1) unfolding S(2) Interner_Atoms_def by (intro NewAtoms_wf) (simp add: sizes_ok_def)
  then have i: "interner_wf (newInternerFromAtoms (sn_atoms g))" by (rule newInternerFromAtoms_wf)
  have room: "?m \<le> maxSize" using inv by (simp add: builder_inv_def rels_inv_def)
  have lb: "\<forall>l. \<forall>x \<in> members R ?L l. unat x < ?n" by (simp add: S(1))
  obtain b2 b3 ots order dO dI nl kn where A: "fold_opt (thaw_labels R g) (sort (map fst ?L)) (blank R g) = Some b2" "thawRels R g b2 = Some (b3, ots)"
    "builder_inv R b3" "b3 = (blank R g)\<lparr>degOut := dO, degIn := dI, b_rels := map ((!) ?rels) (thaw_perm ?n ?rels order), nodeLabels := nl,
        b_relTypes := map ((!) ?ts) (thaw_perm ?n ?rels order), knownNodes := kn\<rparr>" "length dO = ?n" "length nl = ?n"
    "\<forall>u < ?n. set (nl ! u) = {l. u \<in> unat ` members R ?L l}" "rb_set R kn = (\<Union>l. members R ?L l) \<union> fst ` set ?rels \<union> snd ` set ?rels"
    "keeps_order ?n (owner_list 0 ?rels) (thaw_perm ?n ?rels order)" "keeps_order ?n (owner_list 1 ?rels) (thaw_perm ?n ?rels order)"
    "distinct order" "unat ` set order = {..<?m}" "length order = ?m" "length ots = ?m" "\<forall>k < ?m. ots ! unat (order ! k) = of_nat k"
    using thaw_adjacency [OF R cs n1 i lb room] by (elim exE conjE) (rule that)
  define rels' where "rels' = map ((!) ?rels) (thaw_perm ?n ?rels order)"
  define ts' where "ts' = map ((!) ?ts) (thaw_perm ?n ?rels order)"
  note of = thaw_order_facts [OF cs(1) A(9,10,12,13), folded rels'_def ts'_def]
  note ip = invertPositions_ok [OF cf(4) A(11-15)]
  note bl = blank_builder_ok [OF R i, unfolded cs(2), OF n1]
  have m': "length rels' = ?m" using A(13) by (simp add: rels'_def thaw_perm_def)
  have col0: "nodeColI64 b3 = []" "nodeColF64 b3 = []" "nodeColBool b3 = []" "nodeColStr b3 = []" "relColI64 b3 = []" "relColF64 b3 = []" "relColBool b3 = []" "relColStr b3 = []"
    by (simp_all add: A(4) blank_def NewBuilder_def Let_def)
  have deg3: "length (degOut b3) = ?n" using A(5) by (simp add: A(4))
  obtain b4 where b4: "fold_opt (thawNodeColumn R) (columns g) b3 = Some b4" "recolumned R (columns g) b3 b4"
    using thaw_node_columns [OF R S(3), of b3] cf(5) col0(1-4) deg3 by auto
  obtain c1 c2 c3 c4 k4 where r4: "b4 = b3\<lparr>nodeColI64 := c1, nodeColF64 := c2, nodeColBool := c3, nodeColStr := c4, knownNodes := k4\<rparr>"
      "restaged col_pairs (columns g) (c1, c2, c3, c4)" "rb_set R k4 = rb_set R (knownNodes b3) \<union> (\<Union>c \<in> snd ` set (columns g). fst ` set (col_pairs c))"
    using b4(2) unfolding recolumned_def by (elim exE conjE) (rule that)
  have b4f: "b_rels b4 = rels'" "removedRels b4 = None" "removedNodes b4 = []" "relColI64 b4 = []" "relColF64 b4 = []" "relColBool b4 = []" "relColStr b4 = []"
    by (simp_all add: r4(1) col0) (simp_all add: A(4) bl rels'_def)
  obtain b5 where b5: "fold_opt (thawRelColumn R ots) (relColumns g) b4 = Some b5" "rel_recolumned ots (relColumns g) b4 b5"
    using thaw_rel_columns [OF S(4), of b4 ots R] cf(6) b4f A(14) ip(2) m' by auto
  obtain r1 r2 r3 r5 where r5: "b5 = b4\<lparr>relColI64 := r1, relColF64 := r2, relColBool := r3, relColStr := r5\<rparr>" "restaged (at_staging ots) (relColumns g) (r1, r2, r3, r5)"
    using b5(2) unfolding rel_recolumned_def by (elim exE conjE) (rule that)
  let ?ex = "sorted_list_of_set (ids R (FromBitmap (rb_Clone R (knownNodes b0))))"
  define k6 where "k6 = fold (\<lambda>i kn. rb_Add R kn i) ?ex k4"
  have known0: "(\<Union>l. members R ?L l) \<union> fst ` set ?rels \<union> snd ` set ?rels \<subseteq> rb_set R (knownNodes b0)"
  proof -
    have k: "known_inv R b0" "caps_inv b0" using inv by (simp_all add: builder_inv_def)
    have "x \<in> rb_set R (knownNodes b0)" if "x \<in> members R ?L l" for x l
    proof -
      have x: "unat x < ?n" "l \<in> set (nodeLabels b0 ! unat x)" using that by (simp_all add: S(1))
      have "unat x < length (nodeLabels b0)" using x(1) id_space_bounds(2) [OF R inv] k(2) by (simp add: caps_inv_def)
      then have "nodeLabels b0 ! unat x = [] \<or> (\<exists>y \<in> rb_set R (knownNodes b0). unat y = unat x)" using k(1) unfolding known_inv_def by blast
      then obtain y where y: "y \<in> rb_set R (knownNodes b0)" "unat y = unat x" using x(2) by auto
      have "y = x" using y(2) by (simp only: word_unat_eq_iff)
      then show ?thesis using y(1) by simp
    qed
    moreover have "fst r \<in> rb_set R (knownNodes b0)" "snd r \<in> rb_set R (knownNodes b0)" if "r \<in> set ?rels" for r
      using that k(1) no_removals(2) [OF R no] by (auto simp: known_inv_def in_set_conv_nth)
    ultimately show ?thesis by blast
  qed
  have k6: "rb_set R k6 = rb_set R (knownNodes b0) \<union> column_positions g"
  proof -
    have "set ?ex = rb_set R (knownNodes b0)" by (simp add: ids_def FromBitmap_def roaring_simps [OF R])
    moreover have "rb_set R (knownNodes b3) = rb_set R kn" by (simp add: A(4))
    ultimately show ?thesis using known0 r4(3) A(8) by (auto simp: k6_def fold_rb_Add_ids [OF R] column_positions_def)
  qed
  have k6n: "\<forall>x \<in> rb_set R k6. unat x < ?n"
    using cf(5) id_space_bounds(3) [OF R inv] by (auto simp: k6 column_positions_def thaw_col_ok_def)
  define b6 where "b6 = b3\<lparr>nodeColI64 := c1, nodeColF64 := c2, nodeColBool := c3, nodeColStr := c4, relColI64 := r1, relColF64 := r2, relColBool := r3, relColStr := r5, knownNodes := k6\<rparr>"
  have inv6: "builder_inv R b6"
  proof (rule builder_inv_columns [OF A(3) _ _ _ _ _ _ _ _ _ _ b6_def])
    show "rb_set R (knownNodes b3) \<subseteq> rb_set R k6" using known0 A(8) k6 by (auto simp: A(4))
    show "\<forall>x \<in> rb_set R k6. unat x < length (degOut b3)" using k6n deg3 by simp
    have "\<forall>c \<in> snd ` set (columns g). col_pairs c \<noteq> [] \<and> (\<forall>x \<in> fst ` set (col_pairs c). x \<in> rb_set R k6)"
      using cf(5) by (auto simp: k6 column_positions_def thaw_col_ok_def)
    from restaged_cols_ok [OF r4(2) this] show "cols_ok (\<lambda>x. x \<in> rb_set R k6) c1" "cols_ok (\<lambda>x. x \<in> rb_set R k6) c2" "cols_ok (\<lambda>x. x \<in> rb_set R k6) c3" "cols_ok (\<lambda>x. x \<in> rb_set R k6) c4" .
    have "unat (ots ! unat p) < ?m" if "(p, v) \<in> set (col_pairs c)" "c \<in> snd ` set (relColumns g)" for p v c
    proof -
      have "unat p < ?m" using cf(6) that by (force simp: thaw_col_ok_def)
      then show ?thesis using ip(2) A(14) by simp
    qed
    then have lt: "\<forall>x \<in> fst ` set (at_staging ots c). unat x < length (b_rels b3)" if "c \<in> snd ` set (relColumns g)" for c
      using that m' by (force simp: at_staging_def A(4) rels'_def)
    have "\<forall>c \<in> snd ` set (relColumns g). at_staging ots c \<noteq> [] \<and> (\<forall>x \<in> fst ` set (at_staging ots c). unat x < length (b_rels b3))"
    proof (intro ballI conjI)
      fix c assume c: "c \<in> snd ` set (relColumns g)"
      then have "thaw_col_ok ?m c" using cf(6) by blast
      then show "at_staging ots c \<noteq> []" by (simp add: at_staging_def thaw_col_ok_def)
    next
      fix c x assume "c \<in> snd ` set (relColumns g)" "x \<in> fst ` set (at_staging ots c)"
      then show "unat x < length (b_rels b3)" using lt by blast
    qed
    from restaged_cols_ok [OF r5(2) this] show "cols_ok (\<lambda>x. unat x < length (b_rels b3)) r1" "cols_ok (\<lambda>x. unat x < length (b_rels b3)) r2"
      "cols_ok (\<lambda>x. unat x < length (b_rels b3)) r3" "cols_ok (\<lambda>x. unat x < length (b_rels b3)) r5" .
  qed
  have ex: "(case existence g of None \<Rightarrow> Some b5 | Some s \<Rightarrow> iterYield R s (\<lambda>i b. (True, known_add R i b)) b5) = Some b6"
    by (simp add: S(5) nodeset_ops(12) [OF R] fold_known_add b6_def r5(1) r4(1) k6_def)
  define nid where "nid = (if \<not> rb_IsEmpty R (knownNodes b6) then rb_Maximum R (knownNodes b6) + 1 else nextNodeID b6)"
  define b where "b = b6\<lparr>nextNodeID := nid, b_src := Some g, srcRelToOutCSR := order\<rparr>"
  have N: "NewBuilderFromSnapshot R g = Some b"
    using A(1,2) b4(1) b5(1) ex ip(1) by (simp add: NewBuilderFromSnapshot_def Let_def blank_def b_def nid_def)
  have inv': "builder_inv R b" by (rule same_staging_inv [OF _ _ inv6]) (use inv6 in \<open>simp_all add: b_def same_staging_def builder_inv_def\<close>)
  have F: "b_rels b = rels'" "b_relTypes b = ts'" "nodeLabels b = nl" "knownNodes b = k6" "interner b = newInternerFromAtoms (sn_atoms g)" "b_version b = sn_version g"
      "degOut b = dO" "removedRels b = None" "removedNodes b = []" "node_fams b = (c1, c2, c3, c4)" "staged_fams b = (r1, r2, r3, r5)" "b_src b = Some g"
      "srcRelToOutCSR b = order" "\<not> relsDirty b" "dirtyNodeCols b = {}" "dirtyRelCols b = {}" "dirtyLabels b = {}"
    by (simp_all add: b_def b6_def A(4) rels'_def ts'_def node_fams_def staged_fams_def blank_def NewBuilder_def Let_def)
  have ds: "drop_count b = 0"
  proof -
    have "distinct (map fst (concat [stagedLens c1, stagedLens c2, stagedLens c3, stagedLens c4]))" "distinct (map fst (concat [stagedLens r1, stagedLens r2, stagedLens r3, stagedLens r5]))"
      using restaged_keys(1) [OF r4(2)] restaged_keys(1) [OF r5(2)] by (simp_all add: stagedLens_def comp_def case_prod_beta image_image)
    then show ?thesis using F(10,11) drop_none by (simp add: drop_count_def node_fams_def staged_fams_def)
  qed
  have sp: "id_space R b = ?n"
  proof (rule id_space_eq [OF R])
    show "\<forall>x \<in> rb_set R (knownNodes b). unat x < ?n" using k6n by (simp add: F)
    have "rb_set R (knownNodes b0) \<noteq> {} \<Longrightarrow> rb_Maximum R (knownNodes b0) \<in> rb_set R (knownNodes b0)" by (rule roaring_min_max(3) [OF R])
    then show "?n = 1 \<or> (\<exists>x \<in> rb_set R (knownNodes b). unat x + 1 = ?n)"
      by (cases "rb_set R (knownNodes b0) = {}") (auto simp: F k6 id_space_def roaring_simps [OF R])
  qed
  have sizes: "sizes_ok b" using sz(1) m' A(5) cf(3) str by (simp add: sizes_ok_def F)
  have tsub: "set ts' \<subseteq> set ?ts"
  proof -
    have "set (thaw_perm ?n ?rels order) \<subseteq> {..<length ?ts}" using A(9) inv by (simp add: keeps_order_def builder_inv_def rels_inv_def)
    then show ?thesis by (auto simp: ts'_def)
  qed
  have ids': "ids_interned b"
  proof -
    have "unat l < interned b" if ls: "ls \<in> set nl" "l \<in> set ls" for ls l
    proof -
      obtain u where u: "u < ?n" "nl ! u = ls" using ls(1) A(6) by (auto simp: in_set_conv_nth)
      then obtain x :: u32 where x: "unat x < ?n" "l \<in> set (nodeLabels b0 ! unat x)" using A(7) ls(2) by (auto simp: S(1))
      have "nodeLabels b0 ! unat x \<in> set (nodeLabels b0)"
        using x(1) id_space_bounds(2) [OF R inv] inv by (intro nth_mem) (simp add: builder_inv_def caps_inv_def)
      then show ?thesis using sz(2) x(2) str by (auto simp: ids_interned_def interned_def F)
    qed
    moreover have "unat t < interned b" if "t \<in> set ts'" for t using sz(2) that tsub str by (auto simp: ids_interned_def interned_def F)
    ultimately show ?thesis by (simp add: ids_interned_def F)
  qed
  have cr: "csr_repr ?n rels' ts' 0 (outOffsets g) (outNbrs g) (outTypes g)" "csr_repr ?n rels' ts' 1 (inOffsets g) (inNbrs g) (inTypes g)" "rels_ok ?n rels' ts'"
    using of(1) by (simp_all add: csr_of_def)
  have cr0: "csr_repr ?n ?rels ?ts 0 (outOffsets g) (outNbrs g) (outTypes g)" "rels_ok ?n ?rels ?ts" using cs(1) by (simp_all add: csr_of_def)
  have lab: "members R ?L l = {x. unat x < ?n \<and> l \<in> set (nl ! unat x)}" for l
    using A(7) by (auto simp: S(1))
  have ty: "members R (typeIndex g) t = {p. unat p < length rels' \<and> ts' ! (csr_order ?n (owner_list 0 rels') ! unat p) = t}" for t
    using csr_repr_facts(6) [OF cr(3,1)] csr_repr_facts(6) [OF cr0(2,1)] m' by (auto simp: S(12))
  have nc: "map_of (columns g) k = family_col ?n (node_fams b) k" for k
    using restaged_family_col [OF cf(1,3) S(6) r4(2)] by (simp add: F)
  have rc: "map_of (relColumns g) k = family_col ?m (rel_fams order b) k" for k
  proof -
    have "\<forall>c \<in> snd ` set (relColumns g). \<forall>p \<in> fst ` set (col_pairs c). order ! unat (ots ! unat p) = p"
      using cf(6) ip(3) by (auto simp: thaw_col_ok_def)
    from restaged_family_col [OF cf(2,4) S(7) restaged_at_csr [OF r5(2) this]] show ?thesis using F(11) by (simp add: rel_fams_def staged_fams_def)
  qed
  have hp: "hasRelProps g = (relColI64 b \<noteq> [] \<or> relColF64 b \<noteq> [] \<or> relColBool b \<noteq> [] \<or> relColStr b \<noteq> [])"
  proof -
    have "relColumns g \<noteq> [] \<longleftrightarrow> hasRelProps g"
      using family_nonempty [OF cf(2) [unfolded rel_fams_def] cf(4), of "relColumns g"] S(7,8) by (simp add: rel_fams_def cols_at_csr_def)
    then show ?thesis using restaged_keys(2) [OF r5(2)] F(11) by (simp add: staged_fams_def)
  qed
  have at: "Interner_Atoms (interner b) = sn_atoms g" using str by (simp add: F S(2) Interner_Atoms_def)
  have ito: "\<forall>m. inToOut g = Some m \<longrightarrow> computeInToOutFromCSR (outOffsets g) (outNbrs g) (outTypes g) (inOffsets g) (inNbrs g) (inTypes g) = Some m"
    using s unfolding snapshot_of_def Let_def by (elim conjE)
  have dt: "distinct (map fst (typeIndex g))" using s unfolding snapshot_of_def Let_def by (elim conjE)
  have sel: "outOffsets (recounted R b g) = outOffsets g" "outNbrs (recounted R b g) = outNbrs g" "outTypes (recounted R b g) = outTypes g"
      "inOffsets (recounted R b g) = inOffsets g" "inNbrs (recounted R b g) = inNbrs g" "inTypes (recounted R b g) = inTypes g" "inToOut (recounted R b g) = inToOut g"
      "hasRelProps (recounted R b g) = hasRelProps g" "labelIndex (recounted R b g) = ?L" "typeIndex (recounted R b g) = typeIndex g" "columns (recounted R b g) = columns g"
      "relColumns (recounted R b g) = relColumns g" "sn_atoms (recounted R b g) = sn_atoms g" "nRels (recounted R b g) = nRels g" "sn_version (recounted R b g) = sn_version g"
    by (simp_all add: recounted_def)
  have cnt: "nNodes (recounted R b g) = ucast (rb_GetCardinality R (knownNodes b))" "existence (recounted R b g) = Some (FromBitmap (rb_Clone R (knownNodes b)))"
      "droppedCrossTyped (recounted R b g) = drop_count b"
    by (simp_all add: recounted_def ds)
  have "snapshot_of R b (recounted R b g)"
    unfolding snapshot_of_def Let_def sel sp F(1,2,3) of(2) m'
    by (intro conjI; fact cr ito dt hp allI [OF lab] allI [OF ty [unfolded m']] allI [OF nc] allI [OF rc] at [symmetric] cnt S F(6) [symmetric])
  then have "thawed R g b" unfolding thawed_def using inv' sizes ids' F of(2) by simp
  then show ?thesis using N k6 F(4,5) sp by blast
qed

end
