(* ===== verification/Edited.thy ===== *)
theory Edited
  imports ThawStages
begin

text \<open>
  What the dirty marks of a thawed builder (\<open>cow.go\<close>) promise: after any staging calls, a component that is not marked is the component
  the builder had when it was thawed. The relation \<open>edited\<close> is reflexive and transitive, and every operation of the
  builder is an edit, failed calls included.
\<close>

fun same_at :: "PropertyKey \<Rightarrow> families \<Rightarrow> families \<Rightarrow> bool" where
  "same_at k (is, fs, bs, ss) (is', fs', bs', ss') \<longleftrightarrow> map_of is' k = map_of is k \<and> map_of fs' k = map_of fs k \<and> map_of bs' k = map_of bs k \<and> map_of ss' k = map_of ss k"

lemma same_at_refl [simp]: "same_at k fam fam"
  by (cases fam) simp

lemma same_at_trans: "same_at k a b \<Longrightarrow> same_at k b c \<Longrightarrow> same_at k a c"
  by (cases a; cases b; cases c) simp

definition edited :: "'bm Builder \<Rightarrow> 'bm Builder \<Rightarrow> bool" where
  "edited b b' \<longleftrightarrow> b_src b' = b_src b \<and> dirtyNodeCols b \<subseteq> dirtyNodeCols b' \<and> dirtyRelCols b \<subseteq> dirtyRelCols b' \<and> dirtyLabels b \<subseteq> dirtyLabels b'
    \<and> (relsDirty b \<longrightarrow> relsDirty b') \<and> (\<exists>ys. int_strings (interner b') = int_strings (interner b) @ ys)
    \<and> (\<forall>k. k \<notin> dirtyNodeCols b' \<longrightarrow> same_at k (node_fams b) (node_fams b')) \<and> (\<forall>k. k \<notin> dirtyRelCols b' \<longrightarrow> same_at k (staged_fams b) (staged_fams b'))
    \<and> (\<forall>l x. l \<notin> dirtyLabels b' \<longrightarrow> has_label b' l x = has_label b l x)
    \<and> (\<not> relsDirty b' \<longrightarrow> b_rels b' = b_rels b \<and> b_relTypes b' = b_relTypes b \<and> srcRelToOutCSR b' = srcRelToOutCSR b
         \<and> removedRels b' = removedRels b \<and> removedNodes b' = removedNodes b)"

lemma edited_refl [simp]: "edited b b"
  by (simp add: edited_def)

lemma edited_trans [trans]:
  assumes "edited a b" "edited b c"
  shows "edited a c"
proof -
  have sub: "dirtyNodeCols b \<subseteq> dirtyNodeCols c" "dirtyRelCols b \<subseteq> dirtyRelCols c" "dirtyLabels b \<subseteq> dirtyLabels c" "relsDirty b \<longrightarrow> relsDirty c"
    using assms(2) by (simp_all add: edited_def)
  have "same_at k (node_fams a) (node_fams c)" if "k \<notin> dirtyNodeCols c" for k
    using same_at_trans [of k "node_fams a" "node_fams b" "node_fams c"] assms that sub(1) by (auto simp: edited_def)
  moreover have "same_at k (staged_fams a) (staged_fams c)" if "k \<notin> dirtyRelCols c" for k
    using same_at_trans [of k "staged_fams a" "staged_fams b" "staged_fams c"] assms that sub(2) by (auto simp: edited_def)
  moreover have "\<exists>ys. int_strings (interner c) = int_strings (interner a) @ ys" using assms by (auto simp: edited_def)
  moreover have "has_label c l x = has_label a l x" if "l \<notin> dirtyLabels c" for l x using assms that sub(3) by (auto simp: edited_def)
  moreover have "\<not> relsDirty c \<longrightarrow> b_rels c = b_rels a \<and> b_relTypes c = b_relTypes a \<and> srcRelToOutCSR c = srcRelToOutCSR a
      \<and> removedRels c = removedRels a \<and> removedNodes c = removedNodes a"
    using assms sub(4) by (intro impI) (simp add: edited_def)
  moreover have "b_src c = b_src a" "dirtyNodeCols a \<subseteq> dirtyNodeCols b" "dirtyRelCols a \<subseteq> dirtyRelCols b" "dirtyLabels a \<subseteq> dirtyLabels b" "relsDirty a \<longrightarrow> relsDirty b"
    using assms by (simp_all add: edited_def)
  ultimately show ?thesis using sub unfolding edited_def by (intro conjI) (simp, blast+)
qed

text \<open>Updates of the other fields.\<close>

lemma edited_same:
  assumes "b_src b' = b_src b" "dirtyNodeCols b' = dirtyNodeCols b" "dirtyRelCols b' = dirtyRelCols b" "dirtyLabels b' = dirtyLabels b" "relsDirty b' = relsDirty b"
    "interner b' = interner b" "node_fams b' = node_fams b" "staged_fams b' = staged_fams b" "nodeLabels b' = nodeLabels b" "b_rels b' = b_rels b"
    "b_relTypes b' = b_relTypes b" "srcRelToOutCSR b' = srcRelToOutCSR b" "removedRels b' = removedRels b" "removedNodes b' = removedNodes b"
  shows "edited b b'"
  using assms by (simp add: edited_def has_label_def)

lemma edited_marks [simp]:
  "edited b (markNodeColDirty k b)" "edited b (markRelColDirty k b)" "edited b (markLabelDirty l b)" "edited b (markRelsDirty b)" "edited b (known_add R i b)"
  "edited b (b\<lparr>nextNodeID := j\<rparr>)" "edited b (SetVersion s b)"
  by (auto simp: edited_def markNodeColDirty_def markRelColDirty_def markLabelDirty_def markRelsDirty_def known_add_def SetVersion_def node_fams_def staged_fams_def has_label_def)

lemma edited_intern [simp]: "edited b (snd (intern s b))"
  by (auto simp: edited_def intern_def node_fams_def staged_fams_def has_label_def GetOrIntern_def intern_read_def intern_write_def Let_def split: prod.split option.split)

lemma edited_intern': "intern s b = (i, b') \<Longrightarrow> edited b b'"
  using edited_intern [of b s] by simp

lemma edited_stageValue [simp]: "edited b (snd (stageValue v b))"
  by (auto simp: stageValue_def split: AnyValue.split prod.split dest: edited_intern')

lemma edited_ensure:
  assumes "length (nodeLabels b) = length (degOut b)" "ensureCapacity i b = Some (r, b')"
  shows "edited b b'"
proof (cases "b' = b")
  case False
  then obtain n where n: "\<not> unat i < length (degOut b)" "\<not> n \<le> unat i" "b' = b\<lparr>degOut := grow_to n 0 (degOut b), degIn := grow_to n 0 (degIn b), nodeLabels := grow_to n [] (nodeLabels b)\<rparr>"
    using assms(2) by (auto simp: ensureCapacity_def Let_def split: if_splits)
  then have "has_label b' l x = has_label b l x" for l x
    using assms(1) by (auto simp: has_label_def grow_to_def nth_append split: if_splits)
  then show ?thesis by (simp add: edited_def n(3) node_fams_def staged_fams_def)
qed simp

section \<open>Columns\<close>

text \<open>An update of the columns of one key, marked.\<close>

lemma edited_node_cols:
  assumes "b' = b\<lparr>nodeColI64 := c1, nodeColF64 := c2, nodeColBool := c3, nodeColStr := c4\<rparr>" "b_src b \<noteq> None"
    "\<forall>k. k \<notin> K \<longrightarrow> same_at k (node_fams b) (c1, c2, c3, c4)" "K \<subseteq> dirtyNodeCols b"
  shows "edited b b'"
  using assms by (auto simp: edited_def node_fams_def staged_fams_def has_label_def)

lemma edited_rel_cols:
  assumes "b' = b\<lparr>relColI64 := c1, relColF64 := c2, relColBool := c3, relColStr := c4\<rparr>" "b_src b \<noteq> None"
    "\<forall>k. k \<notin> K \<longrightarrow> same_at k (staged_fams b) (c1, c2, c3, c4)" "K \<subseteq> dirtyRelCols b"
  shows "edited b b'"
  using assms by (auto simp: edited_def node_fams_def staged_fams_def has_label_def)

lemma stage_other: "k \<noteq> key \<Longrightarrow> map_of (stage key i v cols) k = map_of cols k"
  by (simp add: stage_def update_conv')

lemma sweep_other: "k \<noteq> key \<Longrightarrow> map_of (fst (sweepPairs key i cols)) k = map_of cols k"
  by (auto simp: sweepPairs_def removeAllPairs_def Let_def update_conv' delete_conv' split: option.split)

lemma marked: "b_src b \<noteq> None \<Longrightarrow> key \<in> dirtyNodeCols (markNodeColDirty key b)" "b_src b \<noteq> None \<Longrightarrow> key \<in> dirtyRelCols (markRelColDirty key b)"
  by (auto simp: markNodeColDirty_def markRelColDirty_def)

lemma edited_stage_node:
  assumes "b_src b \<noteq> None"
  shows "edited b (stage_node i key v (markNodeColDirty key b))"
  using assms by (cases "Value_Kind v") (auto simp: edited_def stage_node_def markNodeColDirty_def node_fams_def staged_fams_def has_label_def stage_other)

lemma edited_stage_rel:
  assumes "b_src b \<noteq> None"
  shows "edited b (stage_rel i key v (markRelColDirty key b))"
  using assms by (cases "Value_Kind v") (auto simp: edited_def stage_rel_def markRelColDirty_def node_fams_def staged_fams_def has_label_def stage_other)


text \<open>A sweep that removes nothing leaves the columns as they are.\<close>

lemma sweep_none:
  assumes "cols_ok P cols" "sweepPairs key i cols = (c, False)"
  shows "map_of c k = map_of cols k"
proof (cases "map_of cols key")
  case (Some ps)
  then have ne: "ps \<noteq> []" using assms(1) by (auto simp: cols_ok_def dest!: map_of_SomeD)
  have "length (filter (\<lambda>p. pairID p \<noteq> i) ps) = length ps" using assms(2) Some by (simp add: sweepPairs_def removeAllPairs_def Let_def)
  then have "\<forall>p \<in> set ps. pairID p \<noteq> i" using length_filter_less [of _ ps "\<lambda>p. pairID p \<noteq> i"] by (metis nat_neq_iff)
  then have "filter (\<lambda>p. pairID p \<noteq> i) ps = ps" by simp
  then show ?thesis using assms(2) Some ne by (auto simp: sweepPairs_def removeAllPairs_def Let_def update_conv')
qed (use assms(2) in \<open>simp add: sweepPairs_def\<close>)

lemma edited_removeByKey:
  assumes g: "good R n b" and s: "b_src b \<noteq> None"
  shows "edited b (snd (removeNodePropPairsByKey i key b))"
proof -
  obtain c1 r1 c2 r2 c3 r3 c4 r4 where w: "sweepPairs key i (nodeColI64 b) = (c1, r1)" "sweepPairs key i (nodeColF64 b) = (c2, r2)"
    "sweepPairs key i (nodeColBool b) = (c3, r3)" "sweepPairs key i (nodeColStr b) = (c4, r4)" by (meson surj_pair)
  have oth: "same_at k (node_fams b) (c1, c2, c3, c4)" if "k \<noteq> key" for k
    using sweep_other [OF that, of i "nodeColI64 b"] sweep_other [OF that, of i "nodeColF64 b"] sweep_other [OF that, of i "nodeColBool b"]
      sweep_other [OF that, of i "nodeColStr b"] w by (simp add: node_fams_def)
  let ?b = "b\<lparr>nodeColI64 := c1, nodeColF64 := c2, nodeColBool := c3, nodeColStr := c4\<rparr>"
  show ?thesis
  proof (cases "r1 \<or> r2 \<or> r3 \<or> r4")
    case True
    then have e: "snd (removeNodePropPairsByKey i key b) = markNodeColDirty key ?b" by (auto simp: removeNodePropPairsByKey_def w Let_def)
    show ?thesis unfolding e using oth s by (auto simp: edited_def markNodeColDirty_def node_fams_def staged_fams_def has_label_def)
  next
    case False
    have "cols_inv R b" using g by (simp add: good_def builder_inv_def)
    then have "same_at k (node_fams b) (c1, c2, c3, c4)" for k
      using w False by (auto simp: node_fams_def cols_inv_def Let_def sweep_none)
    then show ?thesis using False by (auto simp: edited_def removeNodePropPairsByKey_def w Let_def node_fams_def staged_fams_def has_label_def)
  qed
qed


lemma sweep_family_other:
  assumes "cols_ok P cols" "sweep_family i cols = (c, hit)" "k \<notin> set hit"
  shows "map_of c k = map_of cols k"
proof -
  have "map_of c k = map_of c0 k" if "fold (\<lambda>key (c, hit). case sweepPairs key i c of (c', removed) \<Rightarrow> (c', if removed then hit @ [key] else hit)) keys (c0, h0) = (c, hit)"
      "cols_ok P c0" for keys c0 h0
    using that
  proof (induction keys arbitrary: c0 h0)
    case (Cons key keys)
    obtain c1 r where w: "sweepPairs key i c0 = (c1, r)" by fastforce
    have ok: "cols_ok P c1" using sweepPairs_ok(1) [OF Cons.prems(2) w] .
    have "set h0 \<subseteq> set hit'" if "fold (\<lambda>key (c, hit). case sweepPairs key i c of (c', removed) \<Rightarrow> (c', if removed then hit @ [key] else hit)) keys (c0, h0) = (c', hit')" for keys c0 h0 c' hit'
      using that by (induction keys arbitrary: c0 h0) (fastforce split: prod.splits)+
    from this [of keys c1] have "r \<Longrightarrow> k \<noteq> key" using Cons.prems(1) w assms(3) by fastforce
    then have "map_of c1 k = map_of c0 k" using sweep_none [OF Cons.prems(2)] sweep_other [of k key i c0] w by (cases r) auto
    then show ?case using Cons.IH [of c1] Cons.prems(1) w ok by auto
  qed simp
  from this [of "map fst cols" cols "[]"] assms show ?thesis by (simp add: sweep_family_def)
qed


section \<open>Every operation is an edit\<close>

definition edits :: "'bm Builder \<Rightarrow> ('a, 'bm) bres \<Rightarrow> bool" where
  "edits b r \<longleftrightarrow> (\<forall>x b'. r = Some (x, b') \<longrightarrow> edited b b')"

lemma edits_Some [simp]: "edits b (Some (x, b')) \<longleftrightarrow> edited b b'"
  by (simp add: edits_def)

lemma edits_trans: "edited a b \<Longrightarrow> edits b r \<Longrightarrow> edits a r"
  by (auto simp: edits_def intro: edited_trans)

lemma edits_bbind:
  assumes "edits b r" "\<And>x b'. r = Some (Inr x, b') \<Longrightarrow> edited b b' \<Longrightarrow> edits b' (f x b')"
  shows "edits b (bbind r f)"
  using assms by (auto simp: edits_def bbind_def split: option.splits sum.splits intro: edited_trans)

lemma edited_src: "edited b b' \<Longrightarrow> b_src b' = b_src b"
  by (simp add: edited_def)

lemma edited_add_label:
  assumes "b_src b \<noteq> None" "add_label i l b = Some b'"
  shows "edited b b' \<and> length (nodeLabels b') = length (nodeLabels b) \<and> degOut b' = degOut b"
proof -
  obtain lab b1 where i1: "intern l b = (lab, b1)" by fastforce
  have e1: "edited b b1" "nodeLabels b1 = nodeLabels b" "degOut b1 = degOut b" using edited_intern' [OF i1] i1 by (auto simp: intern_def split: prod.splits)
  have b': "b' = markLabelDirty lab (b1\<lparr>nodeLabels := (nodeLabels b1)[unat i := nodeLabels b1 ! unat i @ [lab]]\<rparr>)" "unat i < length (nodeLabels b1)"
    using assms(2) by (auto simp: add_label_def i1 slice_at_def slice_set_def split: if_splits bind_splits)
  have s: "b_src b1 \<noteq> None" using edited_src [OF e1(1)] assms(1) by simp
  have "edited b1 b'" using s b'(2) by (auto simp: edited_def b'(1) markLabelDirty_def has_label_def node_fams_def staged_fams_def nth_list_update split: if_splits)
  then show ?thesis using e1 by (auto simp: b'(1) markLabelDirty_def intro: edited_trans)
qed

lemma edited_add_labels:
  "fold_opt (add_label i) ls b = Some b' \<Longrightarrow> b_src b \<noteq> None \<Longrightarrow> edited b b'"
proof (induction ls arbitrary: b)
  case (Cons l ls)
  obtain b1 where b1: "add_label i l b = Some b1" "fold_opt (add_label i) ls b1 = Some b'" using Cons.prems(1) by (auto split: option.splits bind_splits)
  have e: "edited b b1" using edited_add_label [OF Cons.prems(2) b1(1)] by simp
  from edited_trans [OF e Cons.IH [OF b1(2)]] edited_src [OF e] Cons.prems(2) show ?case by simp
qed simp

lemma edits_ensure: "good R n b \<Longrightarrow> edits b (ensureCapacity i b)"
  using edited_ensure [of b i] good_length [of R n b] by (auto simp: edits_def)

lemma edits_addNodeAt:
  assumes g: "good R n b" and s: "b_src b \<noteq> None"
  shows "edits b (addNodeAt R i ls b)"
  unfolding addNodeAt_def
proof (rule edits_bbind [OF edits_ensure [OF g]])
  fix x b1 assume "edited b b1"
  then have s1: "b_src b1 \<noteq> None" using s edited_src by metis
  show "edits b1 (do { b \<leftarrow> fold_opt (add_label i) ls b1; Some (Inr i, known_add R i b) })"
    by (auto simp: edits_def split: bind_splits dest!: edited_add_labels [OF _ s1] intro: edited_trans [OF _ edited_marks(5)])
qed

lemma edits_AddNode:
  assumes "good R n b" "b_src b \<noteq> None"
  shows "edits b (AddNode R ls b)" "edits b (AddNodeWithID R i ls b)"
proof -
  have nx: "edits b (addNodeAt R i ls (b\<lparr>nextNodeID := j\<rparr>))" for i j
    by (rule edits_trans [OF edited_marks(6) edits_addNodeAt [where n = n]]) (use assms in simp_all)
  show "edits b (AddNode R ls b)" using nx by (simp add: AddNode_def Let_def)
  show "edits b (AddNodeWithID R i ls b)" using nx edits_addNodeAt [OF assms] by (simp add: AddNodeWithID_def)
qed

lemma edits_addRelTyped:
  assumes g: "good R n b" and s: "b_src b \<noteq> None"
  shows "edits b (addRelTyped R u v t b)"
  unfolding addRelTyped_def
proof (rule edits_bbind [OF edits_ensure [OF g]])
  fix x b1 assume "edited b b1"
  then have s1: "b_src b1 \<noteq> None" using s edited_src by metis
  show "edits b1 (if length (b_rels b1) \<ge> maxSize then Some (Inl ErrCapacity, b1)
       else let b = markRelsDirty b1; idx = length (b_rels b) in
         do { dOut \<leftarrow> inc_at (degOut b) u; dIn \<leftarrow> inc_at (degIn b) v;
           Some (Inr idx, known_add R v (known_add R u (b\<lparr>degOut := dOut, degIn := dIn, b_rels := b_rels b @ [(u, v)], b_relTypes := b_relTypes b @ [t],
             relIndex := map_option (rel_index_add (u, v, t) idx) (relIndex b)\<rparr>))) })"
    using s1 by (auto simp: edits_def Let_def markRelsDirty_def known_add_def edited_def node_fams_def staged_fams_def has_label_def split: if_splits bind_splits)
qed

lemma edits_AddRel:
  assumes "good R n b" "n < 2 ^ 32" "b_src b \<noteq> None"
  shows "edits b (AddRel R u v s b)"
proof -
  obtain t b1 where i: "intern s b = (t, b1)" by fastforce
  have e: "edited b b1" by (rule edited_intern' [OF i])
  from edits_trans [OF e edits_addRelTyped [OF good_intern(1) [OF assms(1,2) i]]] edited_src [OF e] assms(3) show ?thesis by (simp add: AddRel_def i)
qed

lemma edits_stageValue: "edits b (Some (stageValue v b))"
  by (cases "stageValue v b") (use edited_stageValue [of b v] in simp)

lemma edits_SetPropByKey:
  assumes g: "good R n b" "n < 2 ^ 32" and s: "b_src b \<noteq> None"
  shows "edits b (SetPropByKey R i key v b)"
  unfolding SetPropByKey_def
proof (rule edits_bbind [OF edits_stageValue])
  fix x b1 assume r: "Some (stageValue v b) = Some (Inr x, b1)" and e: "edited b b1"
  have g1: "good R (Suc n) b1" using safe_stageValue [OF g, of v] r by simp
  show "edits b1 (bbind (ensureCapacity i b1) (\<lambda>_ b. Some (Inr (), known_add R i (stage_node i key x (markNodeColDirty key b)))))"
  proof (rule edits_bbind [OF edits_ensure [OF g1]])
    fix y b2 assume "edited b1 b2"
    then have "b_src b2 \<noteq> None" using s e edited_src by metis
    then show "edits b2 (Some (Inr (), known_add R i (stage_node i key x (markNodeColDirty key b2))))"
      by (simp add: edited_trans [OF edited_stage_node edited_marks(5)])
  qed
qed

lemma edits_SetProp:
  assumes "good R n b" "Suc n < 2 ^ 32" "b_src b \<noteq> None"
  shows "edits b (SetProp R i key v b)"
proof -
  obtain k b1 where i: "intern key b = (k, b1)" by fastforce
  have e: "edited b b1" by (rule edited_intern' [OF i])
  have "n < 2 ^ 32" using assms(2) by simp
  from edits_trans [OF e edits_SetPropByKey [OF good_intern(1) [OF assms(1) this i] assms(2)]] edited_src [OF e] assms(3) show ?thesis by (simp add: SetProp_def i)
qed

lemma edits_UpdateProp:
  assumes g: "good R n b" and n: "n + 2 < 2 ^ 32" and s: "b_src b \<noteq> None"
  shows "edits b (UpdateProp R i key v b)"
proof -
  obtain k b1 where i: "intern key b = (k, b1)" by fastforce
  have e: "edited b b1" by (rule edited_intern' [OF i])
  have g1: "good R (Suc n) b1" using good_intern(1) [OF g _ i] n by simp
  have "edits b1 (bbind (Some (stageValue v b1)) (\<lambda>v b. SetPropByKey R i k (AnyV v) (snd (removeNodePropPairsByKey i k b))))"
  proof (rule edits_bbind [OF edits_stageValue])
    fix x b2 assume r: "Some (stageValue v b1) = Some (Inr x, b2)" and e2: "edited b1 b2"
    have s2: "b_src b2 \<noteq> None" using edited_src [OF e] edited_src [OF e2] s by simp
    have g2: "good R (Suc (Suc n)) b2" using safe_stageValue [OF g1, of v] r n by simp
    note e3 = edited_removeByKey [OF g2 s2, of i k]
    show "edits b2 (SetPropByKey R i k (AnyV x) (snd (removeNodePropPairsByKey i k b2)))"
      by (rule edits_trans [OF e3 edits_SetPropByKey [OF good_removeNodePropPairsByKey [OF g2]]]) (use n s2 edited_src [OF e3] in simp_all)
  qed
  from edits_trans [OF e this] show ?thesis by (simp add: UpdateProp_def i)
qed


lemma edits_SetRelPropAt:
  assumes s: "b_src b \<noteq> None"
  shows "edits b (SetRelPropAt R r key v b)"
proof -
  obtain k b1 where i: "intern key b = (k, b1)" by fastforce
  have e: "edited b b1" by (rule edited_intern' [OF i])
  have "edits b1 (bbind (Some (stageValue v b1)) (\<lambda>v b. Some (Inr (), stage_rel (of_int r) k v (markRelColDirty k b))))"
  proof (rule edits_bbind [OF edits_stageValue])
    fix x b2 assume "edited b1 b2"
    then have "b_src b2 \<noteq> None" using s e edited_src by metis
    then show "edits b2 (Some (Inr (), stage_rel (of_int r) k x (markRelColDirty k b2)))" by (simp add: edited_stage_rel)
  qed
  from edits_trans [OF e this] show ?thesis by (simp add: SetRelPropAt_def i)
qed

lemma edited_find: "findRelIndex R u v t b = Some (r, b') \<Longrightarrow> edited b b'"
  by (auto simp: findRelIndex_def build_rel_index_def node_fams_def staged_fams_def split: option.splits bind_splits intro!: edited_same)

lemma edits_find:
  assumes "\<And>idx b'. b_src b' = b_src b \<Longrightarrow> findRelIndex R u v t b = Some (Some idx, b') \<Longrightarrow> edits b' (f idx b')"
  shows "edits b (do { (found, b) \<leftarrow> findRelIndex R u v t b; (case found of None \<Rightarrow> Some (Inl e, b) | Some idx \<Rightarrow> f idx b) })"
proof (cases "findRelIndex R u v t b")
  case (Some rb)
  obtain r b1 where rb: "rb = (r, b1)" by (cases rb)
  have e: "edited b b1" using edited_find Some rb by blast
  show ?thesis using edits_trans [OF e assms [OF edited_src [OF e]]] e by (cases r) (simp_all add: Some rb)
qed (simp add: edits_def)

lemma edits_SetRelProp: "b_src b \<noteq> None \<Longrightarrow> edits b (SetRelProp R u v t key x b)"
  unfolding SetRelProp_def by (rule edits_find) (simp add: edits_SetRelPropAt)

lemma edits_RemoveRelPropAt:
  assumes g: "good R n b" and s: "b_src b \<noteq> None"
  shows "edits b (RemoveRelPropAt R r key b)"
proof (cases "Interner_Get (interner b) key")
  case (Some k)
  let ?i = "of_int r :: u32"
  obtain c1 r1 c2 r2 c3 r3 c4 r4 where w: "sweepPairs k ?i (relColI64 b) = (c1, r1)" "sweepPairs k ?i (relColF64 b) = (c2, r2)"
    "sweepPairs k ?i (relColBool b) = (c3, r3)" "sweepPairs k ?i (relColStr b) = (c4, r4)" by (meson surj_pair)
  have oth: "same_at j (staged_fams b) (c1, c2, c3, c4)" if "j \<noteq> k" for j
    using sweep_other [OF that, of ?i "relColI64 b"] sweep_other [OF that, of ?i "relColF64 b"] sweep_other [OF that, of ?i "relColBool b"]
      sweep_other [OF that, of ?i "relColStr b"] w by (simp add: staged_fams_def)
  let ?b = "b\<lparr>relColI64 := c1, relColF64 := c2, relColBool := c3, relColStr := c4\<rparr>"
  have "edited b (if r1 \<or> r2 \<or> r3 \<or> r4 then markRelColDirty k ?b else ?b)"
  proof (cases "r1 \<or> r2 \<or> r3 \<or> r4")
    case True
    show ?thesis unfolding if_P [OF True] using oth s by (auto simp: edited_def markRelColDirty_def node_fams_def staged_fams_def has_label_def)
  next
    case False
    have "cols_inv R b" using g by (simp add: good_def builder_inv_def)
    then have "same_at k (staged_fams b) (c1, c2, c3, c4)" for k
      using w False by (auto simp: staged_fams_def cols_inv_def Let_def sweep_none)
    then show ?thesis unfolding if_not_P [OF False] by (auto simp: edited_def node_fams_def staged_fams_def has_label_def)
  qed
  then show ?thesis by (simp add: RemoveRelPropAt_def Some w Let_def)
qed (simp add: RemoveRelPropAt_def)

lemma edits_RemoveRelProp:
  assumes "good R n b" "b_src b \<noteq> None"
  shows "edits b (RemoveRelProp R u v t key b)"
  unfolding RemoveRelProp_def
proof (rule edits_find)
  fix idx b' assume b': "b_src b' = b_src b" "findRelIndex R u v t b = Some (Some idx, b')"
  have "good R n b'" using findRelIndex_ok [OF assms(1), of u v t] b'(2) by auto
  then show "edits b' (RemoveRelPropAt R (int idx) key b')" using edits_RemoveRelPropAt assms(2) b'(1) by metis
qed

lemma edits_RemoveRel: "b_src b \<noteq> None \<Longrightarrow> edits b (RemoveRel R r b)"
  by (auto simp: edits_def RemoveRel_def Let_def markRelsDirty_def edited_def node_fams_def staged_fams_def has_label_def split: if_splits bind_splits)


lemma fold_marks:
  "b_src b \<noteq> None \<Longrightarrow> fold markNodeColDirty ks b = b\<lparr>dirtyNodeCols := set ks \<union> dirtyNodeCols b\<rparr>"
  "b_src b \<noteq> None \<Longrightarrow> fold markLabelDirty ls b = b\<lparr>dirtyLabels := set ls \<union> dirtyLabels b\<rparr>"
proof -
  show "b_src b \<noteq> None \<Longrightarrow> fold markNodeColDirty ks b = b\<lparr>dirtyNodeCols := set ks \<union> dirtyNodeCols b\<rparr>"
    by (induction ks arbitrary: b) (auto simp: markNodeColDirty_def)
  show "b_src b \<noteq> None \<Longrightarrow> fold markLabelDirty ls b = b\<lparr>dirtyLabels := set ls \<union> dirtyLabels b\<rparr>"
    by (induction ls arbitrary: b) (auto simp: markLabelDirty_def)
qed

lemma removePairs_eq:
  assumes "b_src b \<noteq> None"
  shows "removeNodePropPairs i b = b\<lparr>nodeColI64 := fst (sweep_family i (nodeColI64 b)), nodeColF64 := fst (sweep_family i (nodeColF64 b)),
      nodeColBool := fst (sweep_family i (nodeColBool b)), nodeColStr := fst (sweep_family i (nodeColStr b)),
      dirtyNodeCols := set (snd (sweep_family i (nodeColI64 b)) @ snd (sweep_family i (nodeColF64 b)) @ snd (sweep_family i (nodeColBool b)) @ snd (sweep_family i (nodeColStr b)))
        \<union> dirtyNodeCols b\<rparr>"
  unfolding removeNodePropPairs_def case_prod_beta by (subst fold_marks(1)) (use assms in simp_all)

lemma edited_removePairs:
  assumes c: "cols_inv R b" and s: "b_src b \<noteq> None"
  shows "edited b (removeNodePropPairs i b)"
proof -
  obtain c1 h1 c2 h2 c3 h3 c4 h4 where w: "sweep_family i (nodeColI64 b) = (c1, h1)" "sweep_family i (nodeColF64 b) = (c2, h2)"
    "sweep_family i (nodeColBool b) = (c3, h3)" "sweep_family i (nodeColStr b) = (c4, h4)" by (meson surj_pair)
  note r = removePairs_eq [OF s, of i, unfolded w fst_conv snd_conv]
  let ?K = "\<lambda>x. x \<in> rb_set R (knownNodes b)"
  have "cols_ok ?K (nodeColI64 b)" "cols_ok ?K (nodeColF64 b)" "cols_ok ?K (nodeColBool b)" "cols_ok ?K (nodeColStr b)" using c by (simp_all add: cols_inv_def Let_def)
  then have "same_at k (node_fams b) (c1, c2, c3, c4)" if "k \<notin> set (h1 @ h2 @ h3 @ h4)" for k
    using that w by (simp add: node_fams_def sweep_family_other)
  then show ?thesis by (simp add: edited_def r node_fams_def staged_fams_def has_label_def)
qed

lemma edited_RemoveNode:
  assumes g: "good R n b" and s: "b_src b \<noteq> None"
  shows "edited b (snd (RemoveNode R i b))"
proof (cases "rb_Contains R (knownNodes b) i")
  case True
  define b1 where "b1 = b\<lparr>knownNodes := rb_Remove R (knownNodes b) i\<rparr>"
  define b2 where "b2 = (if unat i < length (nodeLabels b1)
       then (fold markLabelDirty (nodeLabels b1 ! unat i) b1)\<lparr>nodeLabels := (nodeLabels b1)[unat i := []]\<rparr> else b1)"
  define b3 where "b3 = b2\<lparr>knownNodes := knownNodes b, relsDirty := True, srcRelToOutCSR := []\<rparr>"
  have s1: "b_src b1 \<noteq> None" using s by (simp add: b1_def)
  have b2: "b2 = (if unat i < length (nodeLabels b) then b1\<lparr>dirtyLabels := set (nodeLabels b ! unat i) \<union> dirtyLabels b, nodeLabels := (nodeLabels b)[unat i := []]\<rparr> else b1)"
    unfolding b2_def fold_marks(2) [OF s1] by (simp add: b1_def)
  have f: "node_fams b2 = node_fams b" "staged_fams b2 = staged_fams b" "b_src b2 = b_src b" "b_rels b2 = b_rels b"
    by (simp_all add: b2 b1_def node_fams_def staged_fams_def)
  have e2: "edited b b3" using s by (auto simp: b3_def b2 b1_def edited_def node_fams_def staged_fams_def has_label_def nth_list_update)
  have "cols_inv R b" using g by (simp add: good_def builder_inv_def)
  then have c3: "cols_inv R b3" using f by (simp add: cols_inv_def Let_def b3_def node_fams_def staged_fams_def)
  have s3: "b_src b3 \<noteq> None" using s f by (simp add: b3_def)
  note e3 = edited_removePairs [OF c3 s3, of i]
  let ?b4 = "removeNodePropPairs i (markRelsDirty b2)"
  have k: "removeNodePropPairs i (b\<lparr>knownNodes := x\<rparr>) = (removeNodePropPairs i b)\<lparr>knownNodes := x\<rparr>" if "b_src b \<noteq> None" for b :: "'a Builder" and x
    using that by (simp add: removePairs_eq)
  have m: "markRelsDirty b2 = b3\<lparr>knownNodes := knownNodes b2\<rparr>" using s f by (auto simp: b3_def markRelsDirty_def)
  have b4: "?b4 = (removeNodePropPairs i b3)\<lparr>knownNodes := knownNodes b2\<rparr>" unfolding m by (rule k [OF s3])
  have d: "relsDirty (removeNodePropPairs i b3)" using e3 by (simp add: edited_def b3_def)
  have e: "snd (RemoveNode R i b) = ?b4\<lparr>removedNodes := AList.update i (length (b_rels ?b4)) (removedNodes ?b4), relIndex := None\<rparr>"
    using True unfolding RemoveNode_def Let_def b2_def b1_def by simp
  have "edited (removeNodePropPairs i b3) (snd (RemoveNode R i b))"
    unfolding e b4 using d by (simp add: edited_def node_fams_def staged_fams_def has_label_def)
  from edited_trans [OF edited_trans [OF e2 e3] this] show ?thesis .
qed (simp add: RemoveNode_def)

lemma edited_snd: "edits b r \<Longrightarrow> map_option snd r = Some b' \<Longrightarrow> edited b b'"
  by (auto simp: edits_def)

lemma run_bop_edited:
  assumes g: "good R n b" and s: "b_src b \<noteq> None" and n: "n + op_strings call < 2 ^ 32" and r: "run_bop R call b = Some b'"
  shows "edited b b'"
proof (cases call)
  case (CallAddNode ls)
  then show ?thesis using edited_snd [OF edits_AddNode(1) [OF g s]] r by simp
next
  case (CallAddNodeWithID i ls)
  then show ?thesis using edited_snd [OF edits_AddNode(2) [OF g s]] r by simp
next
  case (CallAddRel u v t)
  then show ?thesis using edited_snd [OF edits_AddRel [OF g _ s]] r n by simp
next
  case (CallSetProp i k x)
  then show ?thesis using edited_snd [OF edits_SetProp [OF g _ s]] r n by simp
next
  case (CallSetPropByKey i k x)
  then show ?thesis using edited_snd [OF edits_SetPropByKey [OF g _ s]] r n by simp
next
  case (CallUpdateProp i k x)
  then show ?thesis using edited_snd [OF edits_UpdateProp [OF g _ s]] r n by simp
next
  case (CallRemoveProp i k)
  then show ?thesis using edited_removeByKey [OF g s] r by (auto simp: RemoveProp_def split: option.splits)
next
  case (CallSetRelPropAt j k x)
  then show ?thesis using edited_snd [OF edits_SetRelPropAt [OF s]] r by simp
next
  case (CallSetRelProp u v t k x)
  then show ?thesis using edited_snd [OF edits_SetRelProp [OF s]] r by simp
next
  case (CallRemoveRelPropAt j k)
  then show ?thesis using edited_snd [OF edits_RemoveRelPropAt [OF g s]] r by simp
next
  case (CallRemoveRelProp u v t k)
  then show ?thesis using edited_snd [OF edits_RemoveRelProp [OF g s]] r by simp
next
  case (CallRemoveRel j)
  then show ?thesis using edited_snd [OF edits_RemoveRel [OF s]] r by simp
next
  case (CallRemoveNode i)
  then show ?thesis using edited_RemoveNode [OF g s] r by auto
next
  case (CallSetVersion x)
  then show ?thesis using r by auto
qed

lemma run_bops_edited:
  assumes "roaring_laws R" "good R n b" "b_src b \<noteq> None" "n + sum_list (map op_strings calls) < 2 ^ 32" "fold_opt (run_bop R) calls b = Some b'"
  shows "edited b b'"
  using assms(2-5)
proof (induction calls arbitrary: n b)
  case (Cons c cs)
  from run_bop_ok [OF assms(1) Cons.prems(1), of c] Cons.prems(3) obtain b1 where
    b1: "run_bop R c b = Some b1" "good R (n + op_strings c) b1" by auto
  have e: "edited b b1" using run_bop_edited [OF Cons.prems(1,2) _ b1(1)] Cons.prems(3) by simp
  have "edited b1 b'" by (rule Cons.IH [OF b1(2)]) (use Cons.prems b1(1) edited_src [OF e] in \<open>simp_all add: add.assoc\<close>)
  then show ?case using e by (rule edited_trans [rotated])
qed simp

end
