(* ===== verification/Lifecycle.thy ===== *)
theory Lifecycle
  imports ThawCorrect Edited
begin

text \<open>
  The life of a graph: a fresh builder is staged, finalized, thawed, edited and finalized again, any number of times. A finalization that
  shares the clean components of its source gives the graph that a rebuild from the staged data gives.
\<close>

section \<open>A thawed builder is in step with its source\<close>

lemma thawed_space:
  assumes "roaring_laws R" "thawed R g b"
  shows "unat (CSRIDSpace g) = id_space R b"
proof -
  have b: "builder_inv R b" "sizes_ok b" "snapshot_of R b (recounted R b g)" using assms(2) by (auto simp: thawed_def)
  have "length (outOffsets g) = id_space R b + 1" using b(3) by (simp add: snapshot_of_def Let_def csr_repr_def recounted_def)
  moreover have "id_space R b < 2 ^ 32" using id_space_bounds(2) [OF assms(1) b(1)] b(2) by (simp add: sizes_ok_def)
  ultimately show ?thesis by (simp add: CSRIDSpace_def unat_of_nat_less)
qed

lemma recounted_fields [simp]:
  "outOffsets (recounted R b g) = outOffsets g" "outNbrs (recounted R b g) = outNbrs g" "outTypes (recounted R b g) = outTypes g"
  "inOffsets (recounted R b g) = inOffsets g" "inNbrs (recounted R b g) = inNbrs g" "inTypes (recounted R b g) = inTypes g" "inToOut (recounted R b g) = inToOut g"
  "hasRelProps (recounted R b g) = hasRelProps g" "labelIndex (recounted R b g) = labelIndex g" "typeIndex (recounted R b g) = typeIndex g" "columns (recounted R b g) = columns g"
  "relColumns (recounted R b g) = relColumns g" "sn_atoms (recounted R b g) = sn_atoms g" "nRels (recounted R b g) = nRels g" "sn_version (recounted R b g) = sn_version g"
  by (simp_all add: recounted_def)

lemma thawed_in_step:
  assumes R: "roaring_laws R" and t: "thawed R g b" and c: "cache_ok R g"
  shows "in_step R g b"
proof -
  note n = thawed_space [OF R t]
  have b: "builder_inv R b" "srcRelToOutCSR b = out_positions (b_rels b)" "removedRels b = None" "removedNodes b = []" using t by (auto simp: thawed_def)
  have sn: "snapshot_of R b (recounted R b g)" using t by (simp add: thawed_def)
  have s: "csr_repr (id_space R b) (b_rels b) (b_relTypes b) 0 (outOffsets g) (outNbrs g) (outTypes g)"
    "csr_repr (id_space R b) (b_rels b) (b_relTypes b) 1 (inOffsets g) (inNbrs g) (inTypes g)"
    "\<forall>l. members R (labelIndex g) l = {x. unat x < id_space R b \<and> l \<in> set (nodeLabels b ! unat x)}"
    "\<forall>t. members R (typeIndex g) t = {p. unat p < length (b_rels b) \<and> b_relTypes b ! (csr_order (id_space R b) (owner_list 0 (b_rels b)) ! unat p) = t}"
    "\<forall>k. map_of (columns g) k = family_col (id_space R b) (node_fams b) k"
    "\<forall>k. map_of (relColumns g) k = family_col (length (b_rels b)) (rel_fams (out_positions (b_rels b)) b) k"
    "sn_atoms g = Interner_Atoms (interner b)" "distinct (map fst (labelIndex g))" "\<forall>l \<in> fst ` set (labelIndex g). members R (labelIndex g) l \<noteq> {}"
    "distinct (map fst (typeIndex g))"
    using sn unfolding snapshot_of_def Let_def recounted_fields by blast+
  have ito: "\<forall>m. inToOut g = Some m \<longrightarrow> computeInToOutFromCSR (outOffsets g) (outNbrs g) (outTypes g) (inOffsets g) (inNbrs g) (inTypes g) = Some m"
    using sn unfolding snapshot_of_def Let_def recounted_fields by (elim conjE)
  have a: "sn_atoms g = NewAtoms (atom_strings (sn_atoms g))" "int_strings (interner b) = atom_strings (sn_atoms g) @ []"
    by (simp_all add: s(7) Interner_Atoms_def NewAtoms_def)
  have l: "\<forall>l. l \<notin> dirtyLabels b \<longrightarrow> members R (labelIndex g) l = {x. has_label b l x}" using s(3) label_extent [OF R b(1)] by simp
  have f: "\<forall>k. k \<notin> dirtyNodeCols b \<longrightarrow> family_col (id_space R b) (node_fams b) k = map_of (columns g) k"
    "\<forall>k. k \<notin> dirtyRelCols b \<longrightarrow> family_col (length (b_rels b)) (rel_fams (out_positions (b_rels b)) b) k = map_of (relColumns g) k"
    using s(5,6) by simp_all
  have rs: "rels_in_step R g b" unfolding rels_in_step_def Let_def n using b(2-4) s(1,2,4) ito f(2) by (intro conjI)
  show ?thesis unfolding in_step_def n using c s(8-10) a l f(1) rs by (intro conjI) blast+
qed

text \<open>An edit keeps the source in step.\<close>

lemma same_at_family: "same_at k a b \<Longrightarrow> family_col n b k = family_col n a k"
  by (cases a; cases b) (auto split: option.split)

lemma same_at_rel_fams: "same_at k (staged_fams a) (staged_fams b) \<Longrightarrow> same_at k (rel_fams r2c a) (rel_fams r2c b)"
  by (simp add: staged_fams_def rel_fams_def map_of_cols_at_csr)

lemma edited_in_step:
  assumes st: "in_step R src a" and e: "edited a b"
  shows "in_step R src b"
proof -
  note F = in_step_facts [OF st]
  have i: "\<exists>ys. int_strings (interner b) = atom_strings (sn_atoms src) @ ys" using F(6) e by (auto simp: edited_def)
  have c: "\<forall>k. k \<notin> dirtyNodeCols b \<longrightarrow> family_col (unat (CSRIDSpace src)) (node_fams b) k = map_of (columns src) k"
  proof (intro allI impI)
    fix k assume k: "k \<notin> dirtyNodeCols b"
    then have "k \<notin> dirtyNodeCols a" "same_at k (node_fams a) (node_fams b)" using e by (auto simp: edited_def)
    then show "family_col (unat (CSRIDSpace src)) (node_fams b) k = map_of (columns src) k" using F(7) same_at_family by metis
  qed
  have l: "\<forall>l. l \<notin> dirtyLabels b \<longrightarrow> members R (labelIndex src) l = {x. has_label b l x}"
    using F(8) e by (auto simp: edited_def)
  show ?thesis
  proof (cases "relsDirty b")
    case True
    show ?thesis unfolding in_step_def using F(1-5) i c l True by (intro conjI) blast+
  next
    case False
    then have na: "\<not> relsDirty a" and r: "b_rels b = b_rels a" "b_relTypes b = b_relTypes a" "srcRelToOutCSR b = srcRelToOutCSR a" "removedRels b = removedRels a" "removedNodes b = removedNodes a"
      using e by (auto simp: edited_def)
    note S = in_step_rels [OF st na]
    have rc: "family_col (length (b_rels a)) (rel_fams (out_positions (b_rels a)) b) k = map_of (relColumns src) k" if "k \<notin> dirtyRelCols b" for k
    proof -
      have "k \<notin> dirtyRelCols a" "same_at k (staged_fams a) (staged_fams b)" using e that by (auto simp: edited_def)
      then show ?thesis using S(8) same_at_family [OF same_at_rel_fams] by metis
    qed
    have "rels_in_step R src b" unfolding rels_in_step_def Let_def r using S(1-7) rc by (intro conjI allI impI)
    then show ?thesis unfolding in_step_def using F(1-5) i c l by (intro conjI) blast+
  qed
qed

section \<open>The same graph\<close>

text \<open>Two snapshots that answer every read alike: adjacency, types, labels, columns, names and the map of incoming positions.\<close>

definition same_graph :: "'bm roaring \<Rightarrow> 'bm Snapshot \<Rightarrow> 'bm Snapshot \<Rightarrow> bool" where
  "same_graph R g g' \<longleftrightarrow> outOffsets g' = outOffsets g \<and> outNbrs g' = outNbrs g \<and> rt_list (outTypes g') = rt_list (outTypes g)
    \<and> inOffsets g' = inOffsets g \<and> inNbrs g' = inNbrs g \<and> rt_list (inTypes g') = rt_list (inTypes g)
    \<and> (\<forall>l. members R (labelIndex g') l = members R (labelIndex g) l) \<and> (\<forall>t. members R (typeIndex g') t = members R (typeIndex g) t)
    \<and> map_of (columns g') = map_of (columns g) \<and> map_of (relColumns g') = map_of (relColumns g) \<and> sn_atoms g' = sn_atoms g
    \<and> hasRelProps g' = hasRelProps g \<and> map_option fst (getInToOut g') = map_option fst (getInToOut g) \<and> nRels g' = nRels g \<and> sn_version g' = sn_version g"

lemma csr_repr_offsets:
  assumes "csr_repr n rels ts e o1 n1 t1" "csr_repr n rels ts e o2 n2 t2"
  shows "o1 = o2" "n1 = n2" "rt_list t1 = rt_list t2"
proof -
  show "o1 = o2"
  proof (rule nth_equalityI)
    show "length o1 = length o2" using assms by (simp add: csr_repr_def Let_def)
    fix i assume "i < length o1"
    then have "unat (o1 ! i) = unat (o2 ! i)" using assms by (simp add: csr_repr_def Let_def)
    then show "o1 ! i = o2 ! i" by (simp only: word_unat_eq_iff)
  qed
  show "n1 = n2" "rt_list t1 = rt_list t2" using assms by (simp_all add: csr_repr_def Let_def)
qed

lemma position_map_unique:
  assumes ok: "rels_ok n rels ts" and r: "length r = length rels" "\<forall>i < length rels. unat (r ! csr_pos (owner_list 1 rels) i) = csr_pos (owner_list 0 rels) i"
    and r': "length r' = length rels" "\<forall>i < length rels. unat (r' ! csr_pos (owner_list 1 rels) i) = csr_pos (owner_list 0 rels) i"
  shows "r = r'"
proof (rule nth_equalityI)
  fix p assume p: "p < length r"
  have "csr_pos (owner_list 1 rels) ` {..<length rels} = {..<length rels}"
    using csr_pos_bij(1) [of "owner_list 1 rels" n] rels_ok_owner [OF ok, of _ 1] by (auto simp: bij_betw_def simp del: One_nat_def)
  then obtain i where "i < length rels" "p = csr_pos (owner_list 1 rels) i" using p r(1) by (metis imageE lessThan_iff)
  then have "unat (r ! p) = unat (r' ! p)" using r(2) r'(2) by simp
  then show "r ! p = r' ! p" by (simp only: word_unat_eq_iff)
qed (simp add: r r')

lemma snapshot_of_map:
  assumes R: "roaring_laws R" and inv: "builder_inv R b" and no: "\<not> hasRemovals R b" and sz: "sizes_ok b" "ids_interned b" and s: "snapshot_of R b g" "hasRelProps g"
  shows "\<exists>r. map_option fst (getInToOut g) = Some r \<and> length r = length (b_rels b)
    \<and> (\<forall>i < length (b_rels b). unat (r ! csr_pos (owner_list 1 (b_rels b)) i) = csr_pos (owner_list 0 (b_rels b)) i)"
proof -
  note cs = snapshot_of_csr [OF R inv no sz s(1)]
  have c: "rels_ok (id_space R b) (b_rels b) (b_relTypes b)" "\<forall>t \<in> set (b_relTypes b). unat t + 1 < 2 ^ 32"
    "csr_repr (id_space R b) (b_rels b) (b_relTypes b) 0 (outOffsets g) (outNbrs g) (outTypes g)" "csr_repr (id_space R b) (b_rels b) (b_relTypes b) 1 (inOffsets g) (inNbrs g) (inTypes g)"
    using cs(1) by (auto simp: csr_of_def)
  obtain r where r: "computeInToOutFromCSR (outOffsets g) (outNbrs g) (outTypes g) (inOffsets g) (inNbrs g) (inTypes g) = Some r" "length r = length (b_rels b)"
    "\<forall>i < length (b_rels b). unat (r ! csr_pos (owner_list 1 (b_rels b)) i) = csr_pos (owner_list 0 (b_rels b)) i"
    using computeInToOut_ok [OF c] by blast
  have "\<forall>m. inToOut g = Some m \<longrightarrow> computeInToOutFromCSR (outOffsets g) (outNbrs g) (outTypes g) (inOffsets g) (inNbrs g) (inTypes g) = Some m"
    using s(1) unfolding snapshot_of_def Let_def by (elim conjE)
  then have "map_option fst (getInToOut g) = Some r" using r(1) s(2) by (auto simp: getInToOut_def split: option.split)
  then show ?thesis using r(2,3) by blast
qed

lemma snapshot_of_same:
  assumes R: "roaring_laws R" and inv: "builder_inv R b" and no: "\<not> hasRemovals R b" and sz: "sizes_ok b" "ids_interned b"
    and s: "snapshot_of R b g" "snapshot_of R b g'"
  shows "same_graph R g g'"
proof -
  have c: "csr_repr (id_space R b) (b_rels b) (b_relTypes b) 0 (outOffsets h) (outNbrs h) (outTypes h)"
    "csr_repr (id_space R b) (b_rels b) (b_relTypes b) 1 (inOffsets h) (inNbrs h) (inTypes h)" if "snapshot_of R b h" for h
    using that by (simp_all add: snapshot_of_def Let_def)
  note o = csr_repr_offsets [OF c(1) [OF s(2)] c(1) [OF s(1)]] and i = csr_repr_offsets [OF c(2) [OF s(2)] c(2) [OF s(1)]]
  have rest: "members R (labelIndex g') l = members R (labelIndex g) l" "members R (typeIndex g') t = members R (typeIndex g) t"
    "map_of (columns g') k = map_of (columns g) k" "map_of (relColumns g') k = map_of (relColumns g) k" "sn_atoms g' = sn_atoms g"
    "hasRelProps g' = hasRelProps g" "nRels g' = nRels g" "sn_version g' = sn_version g" for l t k
    using s unfolding snapshot_of_def Let_def by (elim conjE; simp)+
  have "map_option fst (getInToOut g') = map_option fst (getInToOut g)"
  proof (cases "hasRelProps g")
    case True
    have ok: "rels_ok (id_space R b) (b_rels b) (b_relTypes b)" using builder_csr_input(1) [OF R inv no] sz by (simp add: sizes_ok_def)
    show ?thesis using snapshot_of_map [OF R inv no sz s(1) True] snapshot_of_map [OF R inv no sz s(2)] rest(6) True position_map_unique [OF ok] by metis
  next
    case False
    then show ?thesis using rest(6) by (simp add: getInToOut_def)
  qed
  then show ?thesis unfolding same_graph_def using o i rest by (simp add: fun_eq_iff)
qed

section \<open>Forgetting the source\<close>

text \<open>The builder that rebuilds everything.\<close>

definition detached :: "'bm Builder \<Rightarrow> 'bm Builder" where
  "detached b = b\<lparr>b_src := None\<rparr>"

lemma detached_fields [simp]:
  "degOut (detached b) = degOut b" "degIn (detached b) = degIn b" "b_rels (detached b) = b_rels b" "nodeLabels (detached b) = nodeLabels b" "b_relTypes (detached b) = b_relTypes b"
  "b_version (detached b) = b_version b" "interner (detached b) = interner b" "knownNodes (detached b) = knownNodes b" "removedRels (detached b) = removedRels b"
  "removedNodes (detached b) = removedNodes b" "b_src (detached b) = None" "node_fams (detached b) = node_fams b" "rel_fams r2c (detached b) = rel_fams r2c b"
  "relColI64 (detached b) = relColI64 b" "relColF64 (detached b) = relColF64 b" "relColBool (detached b) = relColBool b" "relColStr (detached b) = relColStr b"
  "id_space R (detached b) = id_space R b" "drop_count (detached b) = drop_count b" "hasRemovals R (detached b) = hasRemovals R b" "relRemoved R (detached b) i = relRemoved R b i"
  by (simp_all add: detached_def node_fams_def rel_fams_def id_space_def drop_count_def hasRemovals_def relRemoved_def below_mark_def)

lemma snapshot_of_detached: "snapshot_of R (detached b) g = snapshot_of R b g"
  by (simp add: snapshot_of_def)

lemma compact_steps_detached:
  "fold_opt (compact_step R) xs (detached b, o2n, k) = map_option (\<lambda>(b, o2n, k). (detached b, o2n, k)) (fold_opt (compact_step R) xs (b, o2n, k))"
proof (induction xs arbitrary: b o2n k)
  case (Cons i xs)
  have d: "(detached b)\<lparr>b_rels := rs, b_relTypes := ts\<rparr> = detached (b\<lparr>b_rels := rs, b_relTypes := ts\<rparr>)" for rs ts by (simp add: detached_def)
  have "compact_step R i (detached b, o2n, k) = map_option (\<lambda>(b, o2n, k). (detached b, o2n, k)) (compact_step R i (b, o2n, k))"
    by (simp add: compact_step_def slice_at_def slice_set_def d comp_def)
  then show ?case using Cons.IH by (cases "compact_step R i (b, o2n, k)") (auto simp: case_prod_beta)
qed simp

lemma compact_detached: "compactRemovals R (detached b) = map_option detached (compactRemovals R b)"
proof (cases "hasRemovals R b")
  case True
  show ?thesis
  proof (cases "fold_opt (compact_step R) [0..<length (b_rels b)] (b, replicate (length (b_rels b)) 0, 0)")
    case None
    then show ?thesis using True by (simp add: compactRemovals_def Let_def compact_steps_detached)
  next
    case (Some r)
    then obtain b1 o2n k where r: "fold_opt (compact_step R) [0..<length (b_rels b)] (b, replicate (length (b_rels b)) 0, 0) = Some (b1, o2n, k)" by (cases r) auto
    have "(detached b1)\<lparr>b_rels := rs, b_relTypes := ts\<rparr> = detached (b1\<lparr>b_rels := rs, b_relTypes := ts\<rparr>)" for rs ts by (simp add: detached_def)
    then show ?thesis using True r by (simp add: compactRemovals_def Let_def compact_steps_detached) (auto simp: detached_def split: bind_split)
  qed
qed (simp add: compactRemovals_def)

lemma detached_finalizable:
  assumes "finalizable R b"
  shows "finalizable R (detached b)"
proof -
  have "same_staging b (detached b)" by (simp add: same_staging_def detached_def)
  then have "builder_inv R (detached b)" using assms same_staging_inv [of b "detached b" R] by (auto simp: finalizable_def builder_inv_def)
  then show ?thesis using assms by (simp add: finalizable_def sizes_ok_def ids_interned_def interned_def sourced_def shares_def)
qed

lemma refinalize_same:
  assumes R: "roaring_laws R" and f: "finalizable R b"
  shows "\<exists>h h'. Finalize R keys b = Some h \<and> Finalize R keys (detached b) = Some h' \<and> same_graph R h h'
    \<and> nNodes h' = nNodes h \<and> existence h' = existence h \<and> droppedCrossTyped h' = droppedCrossTyped h"
proof -
  obtain b' h where b': "compactRemovals R b = Some b'" "Finalize R keys b = Some h" "snapshot_of R b' h" "builder_inv R b'" "\<not> hasRemovals R b'" "sizes_ok b'" "ids_interned b'"
    using finalize_compact [OF R f] by blast
  obtain b'' h' where b'': "compactRemovals R (detached b) = Some b''" "Finalize R keys (detached b) = Some h'" "snapshot_of R b'' h'"
    using finalize_compact [OF R detached_finalizable [OF f]] by blast
  have "b'' = detached b'" using b'(1) b''(1) by (simp add: compact_detached)
  then have s: "snapshot_of R b' h'" using b''(3) by (simp add: snapshot_of_detached)
  have "nNodes h' = nNodes h" "existence h' = existence h" "droppedCrossTyped h' = droppedCrossTyped h"
    using b'(3) s unfolding snapshot_of_def Let_def by (elim conjE; simp)+
  then show ?thesis using b'(2) b''(2) snapshot_of_same [OF R b'(4-7,3) s] by blast
qed

section \<open>Lookups on the finished snapshot\<close>

text \<open>Equality lookups between a finalization and the thaw fill the index cache, which the thawed builder's successor carries on.\<close>

definition run_lookups :: "'bm roaring \<Rightarrow> (string \<times> string \<times> Value) list \<Rightarrow> 'bm Snapshot \<Rightarrow> 'bm Snapshot option" where
  "run_lookups R = fold_opt (\<lambda>(label, key, v) g. map_option snd (NodesWithValue R label key v g))"

lemma run_lookups_ok:
  assumes R: "roaring_laws R"
  shows "columns_ok g \<Longrightarrow> cache_ok R g \<Longrightarrow> \<exists>pi. run_lookups R qs g = Some (g\<lparr>propIndex := pi\<rparr>) \<and> cache_ok R (g\<lparr>propIndex := pi\<rparr>)"
proof (induction qs arbitrary: g)
  case Nil
  then show ?case by (intro exI [of _ "propIndex g"]) (simp add: run_lookups_def)
next
  case (Cons q qs)
  obtain l k v where q: "q = (l, k, v)" by (cases q)
  obtain r g' where g': "NodesWithValue R l k v g = Some (r, g')" "cache_ok R g'" "g' = g\<lparr>propIndex := propIndex g'\<rparr>"
    using NodesWithValue_ok [OF R Cons.prems, of l k v] by blast
  have "columns_ok g'" using Cons.prems(1) by (subst g'(3)) (simp add: columns_ok_def)
  from Cons.IH [OF this g'(2)] obtain pi where pi: "run_lookups R qs g' = Some (g'\<lparr>propIndex := pi\<rparr>)" "cache_ok R (g'\<lparr>propIndex := pi\<rparr>)" by blast
  have e: "g'\<lparr>propIndex := pi\<rparr> = g\<lparr>propIndex := pi\<rparr>" by (subst g'(3)) simp
  show ?case using pi g'(1) unfolding e by (auto simp: run_lookups_def q)
qed

section \<open>The lifecycle\<close>

inductive lifecycle :: "'bm roaring \<Rightarrow> 'bm Builder \<Rightarrow> bool" for R where
  fresh: "lifecycle R (NewBuilder R capNodes capRels)"
| call: "lifecycle R b \<Longrightarrow> interned b + op_strings c < 2 ^ 32 \<Longrightarrow> run_bop R c b = Some b' \<Longrightarrow> lifecycle R b'"
| thaw: "lifecycle R b \<Longrightarrow> sizes_ok b \<Longrightarrow> shares R b \<Longrightarrow> Finalize R keys b = Some g \<Longrightarrow> run_lookups R qs g = Some g'
    \<Longrightarrow> NewBuilderFromSnapshot R g' = Some b' \<Longrightarrow> lifecycle R b'"

definition lifecycle_inv :: "'bm roaring \<Rightarrow> 'bm Builder \<Rightarrow> bool" where
  "lifecycle_inv R b \<longleftrightarrow> builder_inv R b \<and> ids_interned b \<and> sourced R b"

lemma lifecycle_inv_finalizable: "lifecycle_inv R b \<Longrightarrow> sizes_ok b \<Longrightarrow> shares R b \<Longrightarrow> finalizable R b"
  by (simp add: lifecycle_inv_def finalizable_def)

lemma lifecycle_call:
  assumes R: "roaring_laws R" and i: "lifecycle_inv R b" and n: "interned b + op_strings c < 2 ^ 32" and r: "run_bop R c b = Some b'"
  shows "lifecycle_inv R b'"
proof -
  have g: "good R (interned b) b" using i by (simp add: lifecycle_inv_def good_def)
  have t: "ids_interned b' \<and> b_src b' = b_src b" using run_bop_typed [OF R g _ refl n r] i by (simp add: lifecycle_inv_def)
  have "builder_inv R b'" using run_bop_ok [OF R g n] r by (auto simp: good_def)
  moreover have "in_step R src b'" if s: "b_src b' = Some src" for src
  proof -
    have "b_src b = Some src" using s t by simp
    then show ?thesis using edited_in_step [of R src b b'] run_bop_edited [OF g _ n r] i by (simp add: lifecycle_inv_def sourced_def)
  qed
  ultimately show ?thesis using t by (simp add: lifecycle_inv_def sourced_def)
qed

text \<open>Thawing what a finalization returned, with any lookups in between.\<close>

lemma thaw_finalized:
  assumes R: "roaring_laws R" and f: "finalizable R b" and g: "Finalize R keys b = Some g" "run_lookups R qs g = Some g'"
  shows "\<exists>b'. NewBuilderFromSnapshot R g' = Some b' \<and> finalizable R b' \<and> in_step R g' b' \<and> b_src b' = Some g' \<and> snapshot_of R b' (recounted R b' g')
    \<and> rb_set R (knownNodes b') = rb_set R (knownNodes b) \<union> column_positions g \<and> g' = g\<lparr>propIndex := propIndex g'\<rparr> \<and> \<not> hasRemovals R b' \<and> thawed R g' b'"
proof -
  obtain c where c: "snapshot_of R c g" "columns_ok g" "cache_ok R g" "builder_inv R c" "\<not> hasRemovals R c" "sizes_ok c" "ids_interned c" "same_nodes b c"
    using finalize_compact [OF R f, of keys] g(1) by auto
  obtain pi where pi: "g' = g\<lparr>propIndex := pi\<rparr>" "cache_ok R g'" using run_lookups_ok [OF R c(2,3), of qs] g(2) by auto
  have s: "snapshot_of R c g'" using c(1) by (simp add: pi(1) snapshot_of_index)
  obtain b' where b': "NewBuilderFromSnapshot R g' = Some b'" "thawed R g' b'" "rb_set R (knownNodes b') = rb_set R (knownNodes c) \<union> column_positions g'"
    using thaw_ok [OF R c(4-7) s] by blast
  have st: "in_step R g' b'" by (rule thawed_in_step [OF R b'(2) pi(2)])
  have t: "builder_inv R b'" "sizes_ok b'" "ids_interned b'" "b_src b' = Some g'" "snapshot_of R b' (recounted R b' g')" "removedRels b' = None" "removedNodes b' = []"
    using b'(2) by (auto simp: thawed_def)
  have "map_shared R g' b'" using t(5) by (auto simp: map_shared_def snapshot_of_def Let_def)
  then have "finalizable R b'" using t st by (simp add: finalizable_def sourced_def shares_def)
  moreover have "column_positions g' = column_positions g" "knownNodes c = knownNodes b" using c(8) by (simp_all add: column_positions_def pi(1) same_nodes_def)
  moreover have "g' = g\<lparr>propIndex := propIndex g'\<rparr>" by (simp add: pi(1))
  moreover have "\<not> hasRemovals R b'" using t(6,7) by (simp add: hasRemovals_def)
  ultimately show ?thesis using b'(1-3) st t(4,5) by auto
qed

lemma lifecycle_invariant:
  assumes R: "roaring_laws R" and l: "lifecycle R b"
  shows "lifecycle_inv R b"
  using l
proof (induction rule: lifecycle.induct)
  case (fresh capNodes capRels)
  then show ?case using good_NewBuilder [OF R, of capNodes capRels] NewBuilder_ids [of R capNodes capRels] by (simp add: lifecycle_inv_def good_def sourced_def)
next
  case (call b c b')
  then show ?case using lifecycle_call [OF R] by blast
next
  case (thaw b keys g qs g' b')
  note f = lifecycle_inv_finalizable [OF thaw.IH thaw.hyps(2,3)]
  from thaw_finalized [OF R f thaw.hyps(4,5)] thaw.hyps(6) show ?case by (auto simp: lifecycle_inv_def finalizable_def)
qed

section \<open>Properties\<close>

text \<open>
  C3: over the whole life of a graph, from a fresh builder through any staging calls, finalizations, lookups, thaws and further edits, a finalization
  returns a well-formed snapshot with the builder's live counts in which exactly the known nodes exist, and that snapshot thaws to a builder of
  the same life. The first relationship properties on a shared CSR are excluded (\<open>shares\<close>).
\<close>

theorem lifecycle_sound:
  assumes R: "roaring_laws R" and l: "lifecycle R b" and sz: "sizes_ok b" "shares R b"
  shows "\<exists>g b'. Finalize R keys b = Some g \<and> snapshot_ok g \<and> columns_ok g \<and> cache_ok R g \<and> nbrs_in_space g
    \<and> unat (Snapshot_NodeCount g) = Builder_NodeCount R b \<and> unat (Snapshot_RelCount g) = Builder_RelCount R b
    \<and> (\<forall>x. NodeExists R g x \<longleftrightarrow> x \<in> rb_set R (knownNodes b)) \<and> NewBuilderFromSnapshot R g = Some b' \<and> lifecycle R b'"
proof -
  have f: "finalizable R b" by (rule lifecycle_inv_finalizable [OF lifecycle_invariant [OF R l] sz])
  obtain g where g: "Finalize R keys b = Some g" "snapshot_ok g \<and> columns_ok g \<and> cache_ok R g \<and> nbrs_in_space g
    \<and> unat (Snapshot_NodeCount g) = Builder_NodeCount R b \<and> unat (Snapshot_RelCount g) = Builder_RelCount R b
    \<and> (\<forall>x. NodeExists R g x \<longleftrightarrow> x \<in> rb_set R (knownNodes b))"
    using finalize_counts [OF R f] by blast
  have q: "run_lookups R [] g = Some g" by (simp add: run_lookups_def)
  obtain b' where b': "NewBuilderFromSnapshot R g = Some b'" using thaw_finalized [OF R f g(1) q] by blast
  have "lifecycle R b'" by (rule lifecycle.thaw [OF l sz g(1) q b'])
  then show ?thesis using g b' by blast
qed

lemma lifecycle_calls:
  assumes R: "roaring_laws R"
  shows "lifecycle R b \<Longrightarrow> good R n b \<Longrightarrow> n + sum_list (map op_strings calls) < 2 ^ 32 \<Longrightarrow> fold_opt (run_bop R) calls b = Some b' \<Longrightarrow> lifecycle R b'"
proof (induction calls arbitrary: b n)
  case (Cons c cs)
  obtain b1 where b1: "run_bop R c b = Some b1" "good R (n + op_strings c) b1" using run_bop_ok [OF R Cons.prems(2), of c] Cons.prems(3) by auto
  have "interned b + op_strings c < 2 ^ 32" using Cons.prems(2,3) by (simp add: good_def)
  then have "lifecycle R b1" using lifecycle.call [OF Cons.prems(1) _ b1(1)] by blast
  from Cons.IH [OF this b1(2)] show ?case using Cons.prems(3,4) b1(1) by (simp add: add.assoc)
qed simp

lemma staged_lifecycle: "lifecycle list_roaring staged_builder"
  by (rule lifecycle_calls [OF list_roaring_laws lifecycle.fresh good_NewBuilder [OF list_roaring_laws] _ staged_builder_eq]) (simp add: staged_calls_def)

lemma staged_sizes: "sizes_ok staged_builder" "shares list_roaring staged_builder"
  using staged_builder_finalizable by (simp_all add: finalizable_def)

theorem lifecycle_sound_witness:
  "\<exists>g b'. Finalize list_roaring [''w''] staged_builder = Some g \<and> snapshot_ok g \<and> columns_ok g \<and> cache_ok list_roaring g \<and> nbrs_in_space g
    \<and> unat (Snapshot_NodeCount g) = Builder_NodeCount list_roaring staged_builder \<and> unat (Snapshot_RelCount g) = Builder_RelCount list_roaring staged_builder
    \<and> (\<forall>x. NodeExists list_roaring g x \<longleftrightarrow> x \<in> rb_set list_roaring (knownNodes staged_builder)) \<and> NewBuilderFromSnapshot list_roaring g = Some b' \<and> lifecycle list_roaring b'"
  by (rule lifecycle_sound [OF list_roaring_laws staged_lifecycle staged_sizes])

text \<open>
  C4: finalizing a builder that shares the clean components of the snapshot it was thawed from gives the same graph as rebuilding
  everything from the staged data: adjacency, types, labels, columns, names, incoming positions, counts and existing nodes.
\<close>

theorem refinalize_equals_rebuild:
  assumes R: "roaring_laws R" and l: "lifecycle R b" and sz: "sizes_ok b" "shares R b"
  shows "\<exists>h h'. Finalize R keys b = Some h \<and> Finalize R keys (b\<lparr>b_src := None\<rparr>) = Some h' \<and> same_graph R h h'
    \<and> nNodes h' = nNodes h \<and> existence h' = existence h \<and> droppedCrossTyped h' = droppedCrossTyped h"
  using refinalize_same [OF R lifecycle_inv_finalizable [OF lifecycle_invariant [OF R l] sz], of keys] by (simp add: detached_def)

text \<open>A thawed builder, for the witnesses: the staged graph after one finalization.\<close>

lemma thawed_once:
  "\<exists>g b. Finalize list_roaring [] staged_builder = Some g \<and> NewBuilderFromSnapshot list_roaring g = Some b \<and> b_src b = Some g \<and> lifecycle list_roaring b
    \<and> sizes_ok b \<and> shares list_roaring b"
proof -
  obtain g where g: "Finalize list_roaring [] staged_builder = Some g" using finalize_compact [OF list_roaring_laws staged_builder_finalizable] by blast
  have q: "run_lookups list_roaring [] g = Some g" by (simp add: run_lookups_def)
  obtain b where b: "NewBuilderFromSnapshot list_roaring g = Some b" "b_src b = Some g" "finalizable list_roaring b"
    using thaw_finalized [OF list_roaring_laws staged_builder_finalizable g q] by blast
  have "lifecycle list_roaring b" by (rule lifecycle.thaw [OF staged_lifecycle staged_sizes g q b(1)])
  then show ?thesis using g b by (auto simp: finalizable_def)
qed

theorem refinalize_equals_rebuild_witness:
  "\<exists>b h h'. b_src b \<noteq> None \<and> Finalize list_roaring [] b = Some h \<and> Finalize list_roaring [] (b\<lparr>b_src := None\<rparr>) = Some h' \<and> same_graph list_roaring h h'
    \<and> nNodes h' = nNodes h \<and> existence h' = existence h \<and> droppedCrossTyped h' = droppedCrossTyped h"
proof -
  obtain b where b: "b_src b \<noteq> None" "lifecycle list_roaring b" "sizes_ok b" "shares list_roaring b" using thawed_once by auto
  show ?thesis by (rule exI [of _ b]) (use b(1) refinalize_equals_rebuild [OF list_roaring_laws b(2-4), of "[]"] in blast)
qed

text \<open>
  C5: thawing a finalized snapshot and finalizing it again, without an edit in between, gives the graph back: adjacency in the same
  order, types, labels, columns, names and incoming positions. The nodes that exist are the old ones and every position at which a node column has
  a value, so a dense string column makes the ids it spans exist. A node without label, relationship and property stays too: the code seeds the
  known nodes from the existence set of the snapshot (\<open>thaw.go:69-77\<close>). The comment above the function (\<open>thaw.go:27-31\<close>) and the model of the
  removal fuzz test (\<open>thawModel\<close>) still describe such nodes as lost; the theorem states what the code does.
\<close>

theorem thaw_finalize_roundtrip:
  assumes R: "roaring_laws R" and f: "finalizable R b" and g: "Finalize R keys b = Some g"
  shows "\<exists>b' h. NewBuilderFromSnapshot R g = Some b' \<and> Finalize R keys' b' = Some h \<and> same_graph R g h \<and> droppedCrossTyped h = 0
    \<and> (\<forall>x. NodeExists R h x \<longleftrightarrow> NodeExists R g x \<or> x \<in> column_positions g)"
proof -
  have q: "run_lookups R [] g = Some g" by (simp add: run_lookups_def)
  obtain b' where b': "NewBuilderFromSnapshot R g = Some b'" "finalizable R b'" "snapshot_of R b' (recounted R b' g)"
      "rb_set R (knownNodes b') = rb_set R (knownNodes b) \<union> column_positions g" "\<not> hasRemovals R b'"
    using thaw_finalized [OF R f g q] by blast
  have c: "compactRemovals R b' = Some b'" using b'(5) by (simp add: compactRemovals_def)
  obtain h where h: "Finalize R keys' b' = Some h" "snapshot_of R b' h" using finalize_compact [OF R b'(2), of keys'] c by auto
  have i: "builder_inv R b'" "sizes_ok b'" "ids_interned b'" using b'(2) by (auto simp: finalizable_def)
  have "same_graph R (recounted R b' g) h" by (rule snapshot_of_same [OF R i(1) b'(5) i(2,3) b'(3) h(2)])
  moreover have "map_option fst (getInToOut (recounted R b' g)) = map_option fst (getInToOut g)"
    by (simp add: getInToOut_def option.map_comp comp_def split: option.split bind_split)
  ultimately have sg: "same_graph R g h" by (simp add: same_graph_def)
  have d: "drop_count b' = 0" using b'(3) by (simp add: snapshot_of_def Let_def recounted_def)
  have e: "existence h = Some (FromBitmap (rb_Clone R (knownNodes b')))" "droppedCrossTyped h = drop_count b'" using h(2) by (simp_all add: snapshot_of_def Let_def)
  have "NodeExists R h x \<longleftrightarrow> x \<in> rb_set R (knownNodes b')" for x
    by (simp add: NodeExists_def e nodeset_ops(6) [OF R] ids_def FromBitmap_def roaring_simps [OF R])
  moreover have "NodeExists R g x \<longleftrightarrow> x \<in> rb_set R (knownNodes b)" for x using finalize_counts [OF R f, of keys] g by auto
  ultimately show ?thesis using b'(1,4) h(1) sg e(2) d by auto
qed

theorem thaw_finalize_roundtrip_witness:
  "\<exists>g b' h. Finalize list_roaring [] staged_builder = Some g \<and> NewBuilderFromSnapshot list_roaring g = Some b' \<and> Finalize list_roaring [''w''] b' = Some h
    \<and> same_graph list_roaring g h \<and> droppedCrossTyped h = 0 \<and> (\<forall>x. NodeExists list_roaring h x \<longleftrightarrow> NodeExists list_roaring g x \<or> x \<in> column_positions g)"
proof -
  obtain g where g: "Finalize list_roaring [] staged_builder = Some g" using thawed_once by blast
  from thaw_finalize_roundtrip [OF list_roaring_laws staged_builder_finalizable g, of "[''w'']"] g show ?thesis by blast
qed

section \<open>The first relationship properties on a shared CSR\<close>

text \<open>
  C28: when a snapshot without relationship properties is thawed and the first relationship property is staged with the relationships left as they are, the
  finalization takes over the source's position map, which is nil there, and marks it as computed: the new snapshot has relationship
  properties, but its incoming-to-outgoing map stays nil for good. All else of it is right.
\<close>

theorem first_rel_props_lose_map:
  assumes R: "roaring_laws R" and l: "lifecycle R b" and sz: "sizes_ok b" and s: "\<not> shares R b"
  shows "\<exists>g b'. Finalize R keys b = Some g \<and> hasRelProps g \<and> getInToOut g = Some ([], g) \<and> compactRemovals R b = Some b' \<and> snapshot_of R b' (g\<lparr>inToOut := None\<rparr>)"
proof -
  have i: "builder_inv R b" "ids_interned b" "sourced R b" using lifecycle_invariant [OF R l] by (auto simp: lifecycle_inv_def)
  obtain src where src: "b_src b = Some src" "\<not> relsDirty b" using s by (auto simp: shares_def map_shared_def)
  have st: "in_step R src b" using i(3) src(1) by (simp add: sourced_def)
  have no: "\<not> hasRemovals R b" using in_step_rels(1,2) [OF st src(2)] by (simp add: hasRemovals_def)
  then have c: "compactRemovals R b = Some b" by (simp add: compactRemovals_def)
  obtain g where g: "Finalize R keys b = Some g" "snapshot_of R b (g\<lparr>inToOut := None\<rparr>)" "inToOut g = Some []" "hasRelProps g"
    using finalize_ok [OF R i(1) no sz i(2,3) c, of keys] s by auto
  have "getInToOut g = Some ([], g)" using g(3,4) by (simp add: getInToOut_def)
  then show ?thesis using g c by blast
qed

definition plain_builder :: "u32 list Builder" where
  "plain_builder = the (fold_opt (run_bop list_roaring) [CallAddRel 0 1 ''t'', CallAddRel 1 0 ''t''] (NewBuilder list_roaring 2 2))"

lemma plain_builder_eq: "fold_opt (run_bop list_roaring) [CallAddRel 0 1 ''t'', CallAddRel 1 0 ''t''] (NewBuilder list_roaring 2 2) = Some plain_builder"
  using run_bops_ok [OF list_roaring_laws good_NewBuilder [OF list_roaring_laws], of "[CallAddRel 0 1 ''t'', CallAddRel 1 0 ''t'']" 2 2] by (auto simp: plain_builder_def)

lemma plain_builder_fields: "length (b_rels plain_builder) = 2" "length (degOut plain_builder) = 2" "relColI64 plain_builder = []" "relColF64 plain_builder = []"
    "relColBool plain_builder = []" "relColStr plain_builder = []" "removedRels plain_builder = None" "removedNodes plain_builder = []"
  by (simp_all add: plain_builder_def staged_eval)

lemma plain_builder_ok: "lifecycle list_roaring plain_builder" "finalizable list_roaring plain_builder" "interned plain_builder \<le> 3"
proof -
  let ?calls = "[CallAddRel 0 1 ''t'', CallAddRel 1 0 ''t'']"
  show l: "lifecycle list_roaring plain_builder"
    by (rule lifecycle_calls [OF list_roaring_laws lifecycle.fresh good_NewBuilder [OF list_roaring_laws] _ plain_builder_eq]) simp
  show "finalizable list_roaring plain_builder"
    by (rule staged_finalizable [OF list_roaring_laws _ plain_builder_eq]) (simp_all add: plain_builder_fields)
  show "interned plain_builder \<le> 3" by (simp add: plain_builder_def staged_eval interned_def)
qed

text \<open>The plain graph, finalized and thawed.\<close>

lemma plain_thawed:
  "\<exists>g b. Finalize list_roaring [] plain_builder = Some g \<and> NewBuilderFromSnapshot list_roaring g = Some b \<and> lifecycle list_roaring b \<and> thawed list_roaring g b
    \<and> \<not> hasRelProps g \<and> length (b_rels b) = 2 \<and> interned b \<le> 3"
proof -
  let ?R = "list_roaring :: u32 list roaring"
  note R = list_roaring_laws
  have no: "compactRemovals ?R plain_builder = Some plain_builder" by (simp add: compactRemovals_def hasRemovals_def plain_builder_fields)
  obtain g where g: "Finalize ?R [] plain_builder = Some g" "snapshot_of ?R plain_builder g"
    using finalize_compact [OF R plain_builder_ok(2), of "[]"] no by auto
  have q: "run_lookups ?R [] g = Some g" by (simp add: run_lookups_def)
  obtain b where b: "NewBuilderFromSnapshot ?R g = Some b" "thawed ?R g b" using thaw_finalized [OF R plain_builder_ok(2) g(1) q] by blast
  have sz: "sizes_ok plain_builder" "shares ?R plain_builder" using plain_builder_ok(2) by (simp_all add: finalizable_def)
  have l: "lifecycle ?R b" by (rule lifecycle.thaw [OF plain_builder_ok(1) sz g(1) q b(1)])
  have hp: "\<not> hasRelProps g" "nRels g = 2" "sn_atoms g = Interner_Atoms (interner plain_builder)"
    using g(2) by (simp_all add: snapshot_of_def Let_def plain_builder_fields)
  have s: "nRels g = of_nat (length (b_rels b))" "sn_atoms g = Interner_Atoms (interner b)" "length (b_rels b) \<le> 2 ^ 31"
    using b(2) by (simp_all add: thawed_def snapshot_of_def Let_def sizes_ok_def)
  have "unat (nRels g) = length (b_rels b)" using s(1,3) by (simp add: unat_of_nat_less)
  then have "length (b_rels b) = 2" using hp(2) by simp
  moreover have "interned b \<le> 3" using plain_builder_ok(3) hp(3) s(2) by (simp add: interned_def Interner_Atoms_def NewAtoms_def)
  ultimately show ?thesis using g(1) b l hp(1) by blast
qed

lemma first_prop:
  assumes "0 < length (b_rels b)" "removedRels b = None" "removedNodes b = []"
  shows "\<exists>b'. SetRelPropAt R 0 key (AnyI64 x) b = Some (Inr (), b') \<and> relColI64 b' \<noteq> [] \<and> relsDirty b' = relsDirty b \<and> b_src b' = b_src b \<and> knownNodes b' = knownNodes b
    \<and> b_rels b' = b_rels b \<and> degOut b' = degOut b"
proof -
  obtain k b1 where i: "intern key b = (k, b1)" by fastforce
  have f: "relsDirty b1 = relsDirty b" "b_src b1 = b_src b" "knownNodes b1 = knownNodes b" "b_rels b1 = b_rels b" "degOut b1 = degOut b"
    using i by (auto simp: intern_def split: prod.splits)
  have nr: "\<not> relRemoved R b 0" using assms(2,3) by (simp add: relRemoved_def)
  show ?thesis using assms(1) f nr
    by (simp add: SetRelPropAt_def i bbind_def stageValue_def stage_rel_def Value_Kind_def I64Value_def markRelColDirty_def stage_def update_nonempty)
qed

theorem first_rel_props_lose_map_witness:
  "\<exists>b g b'. lifecycle list_roaring b \<and> Finalize list_roaring [] b = Some g \<and> hasRelProps g \<and> getInToOut g = Some ([], g) \<and> compactRemovals list_roaring b = Some b'
    \<and> snapshot_of list_roaring b' (g\<lparr>inToOut := None\<rparr>) \<and> length (b_rels b') = 2"
proof -
  let ?R = "list_roaring :: u32 list roaring"
  note R = list_roaring_laws
  obtain g b where g: "lifecycle ?R b" "thawed ?R g b" "\<not> hasRelProps g" "length (b_rels b) = 2" "interned b \<le> 3" using plain_thawed by blast
  have t: "removedRels b = None" "removedNodes b = []" "b_src b = Some g" "\<not> relsDirty b" "builder_inv ?R b" "sizes_ok b" using g(2) by (auto simp: thawed_def)
  obtain b2 where b2: "SetRelPropAt ?R 0 ''w'' (AnyI64 9) b = Some (Inr (), b2)" "relColI64 b2 \<noteq> []" "relsDirty b2 = relsDirty b" "b_src b2 = b_src b" "knownNodes b2 = knownNodes b"
      "b_rels b2 = b_rels b" "degOut b2 = degOut b"
    using first_prop [of b ?R "''w''" 9] g(4) t(1,2) by auto
  have gd: "good ?R 3 b" using t(5) g(5) by (simp add: good_def)
  have r: "run_bop ?R (CallSetRelPropAt 0 ''w'' (AnyI64 9)) b = Some b2" using b2(1) by simp
  have l2: "lifecycle ?R b2" by (rule lifecycle.call [OF g(1) _ r]) (use g(5) in simp)
  have "good ?R 5 b2" using run_bop_ok [OF R gd, of "CallSetRelPropAt 0 ''w'' (AnyI64 9)"] r by auto
  then have sz: "sizes_ok b2" using t(6) b2(6,7) by (simp add: sizes_ok_def good_def interned_def)
  have "id_space ?R b2 = unat (CSRIDSpace g)" using thawed_space [OF R g(2)] b2(5) by (simp add: id_space_def)
  then have ns: "\<not> shares ?R b2" using b2 t(3,4) g(3) by (simp add: shares_def map_shared_def)
  obtain h b' where h: "Finalize ?R [] b2 = Some h" "hasRelProps h" "getInToOut h = Some ([], h)" "compactRemovals ?R b2 = Some b'" "snapshot_of ?R b' (h\<lparr>inToOut := None\<rparr>)"
    using first_rel_props_lose_map [OF R l2 sz ns, of "[]"] by blast
  have st: "in_step ?R g b2" using lifecycle_invariant [OF R l2] b2(4) t(3) by (simp add: lifecycle_inv_def sourced_def)
  have nd: "\<not> relsDirty b2" using b2(3) t(4) by simp
  have "compactRemovals ?R b2 = Some b2" using in_step_rels(1,2) [OF st nd] by (simp add: compactRemovals_def hasRemovals_def)
  then have "length (b_rels b') = 2" using h(4) b2(6) g(4) by simp
  then show ?thesis using l2 h by blast
qed

end
