(* ===== verification/RcpgCursor.thy ===== *)
theory RcpgCursor
  imports Bytes
begin

text \<open>
  The byte reader and writer of the file codec (\<open>rcpg/cursor.go\<close>, \<open>rcpg/errors.go\<close>). A reader step returns an error or a value with
  the advanced cursor; \<^term>\<open>None\<close> is a panic. Error values keep the sentinel that \<open>errors.Is\<close> tests, not the message.

  A value and its bytes are related by \<open>decodes\<close>; \<open>no_panic\<close> says that a step returns on every cursor. The locale \<open>codec\<close> is the
  contract of one encoded element, from which counted sequences of elements follow.
\<close>

section \<open>Results\<close>

text \<open>\<open>ErrWriteTo\<close> stands for an error of the bitmap package's writer, which is passed on as it is.\<close>

datatype rcpg_error = ErrCorrupt | ErrUnsupportedVersion | ErrWriteTo

type_synonym 'a res = "(rcpg_error + 'a) option"

text \<open>\<open>if err != nil { return err }\<close>.\<close>

definition rthen :: "'a res \<Rightarrow> ('a \<Rightarrow> 'b res) \<Rightarrow> 'b res" where
  "rthen r f = (case r of None \<Rightarrow> None | Some (Inl e) \<Rightarrow> Some (Inl e) | Some (Inr x) \<Rightarrow> f x)"

lemma rthen_simps [simp]: "rthen (Some (Inr x)) f = f x" "rthen (Some (Inl e)) f = Some (Inl e)" "rthen None f = None"
  by (simp_all add: rthen_def)

lemma rthen_assoc: "rthen (rthen r f) g = rthen r (\<lambda>x. rthen (f x) g)"
  by (auto simp: rthen_def split: option.split sum.split)

lemma rthen_cong [fundef_cong]: "r = r' \<Longrightarrow> (\<And>x. r' = Some (Inr x) \<Longrightarrow> f x = f' x) \<Longrightarrow> rthen r f = rthen r' f'"
  by (auto simp: rthen_def split: option.split sum.split)

lemma rthen_Some: "rthen r f = Some v \<longleftrightarrow> (\<exists>e. r = Some (Inl e) \<and> v = Inl e) \<or> (\<exists>x. r = Some (Inr x) \<and> f x = Some v)"
  by (auto simp: rthen_def split: option.split sum.split)

text \<open>No panic, and no error but those of the format.\<close>

definition settles :: "'a res \<Rightarrow> bool" where
  "settles r \<longleftrightarrow> r \<noteq> None \<and> r \<noteq> Some (Inl ErrWriteTo)"

lemma settles_simps [simp]: "settles (Some (Inr x))" "settles (Some (Inl ErrCorrupt))" "settles (Some (Inl ErrUnsupportedVersion))" "\<not> settles None"
  by (simp_all add: settles_def)

lemma settles_cases: "settles r \<Longrightarrow> r \<in> {Some (Inl ErrCorrupt), Some (Inl ErrUnsupportedVersion)} \<union> range (\<lambda>x. Some (Inr x))"
proof (cases r)
  case (Some v)
  moreover assume "settles r"
  ultimately show ?thesis using rcpg_error.exhaust by (cases v) (auto simp: settles_def)
qed simp

lemma rthen_settles: "settles r \<Longrightarrow> (\<And>x. r = Some (Inr x) \<Longrightarrow> settles (f x)) \<Longrightarrow> settles (rthen r f)"
  by (auto simp: settles_def rthen_def split: option.split sum.split)

section \<open>Strings\<close>

text \<open>A Go string is its bytes.\<close>

definition str_bytes :: "string \<Rightarrow> u8 list" where
  "str_bytes s = map (\<lambda>c. of_nat (of_char c)) s"

definition bytes_str :: "u8 list \<Rightarrow> string" where
  "bytes_str bs = map (\<lambda>b. char_of (unat b)) bs"

text \<open>
  \<open>utf8.Valid\<close> of the standard library: the length of a sequence and the range of its second byte by its first byte.
\<close>

definition utf8_first :: "u8 \<Rightarrow> (nat \<times> u8 \<times> u8) option" where
  "utf8_first b =
     (if 0xC2 \<le> b \<and> b \<le> 0xDF then Some (2, 0x80, 0xBF)
      else if b = 0xE0 then Some (3, 0xA0, 0xBF)
      else if b = 0xED then Some (3, 0x80, 0x9F)
      else if 0xE1 \<le> b \<and> b \<le> 0xEF then Some (3, 0x80, 0xBF)
      else if b = 0xF0 then Some (4, 0x90, 0xBF)
      else if 0xF1 \<le> b \<and> b \<le> 0xF3 then Some (4, 0x80, 0xBF)
      else if b = 0xF4 then Some (4, 0x80, 0x8F)
      else None)"

function utf8_Valid :: "u8 list \<Rightarrow> bool" where
  "utf8_Valid [] = True"
| "utf8_Valid (b # bs) =
     (if b < 0x80 then utf8_Valid bs
      else case utf8_first b of
        None \<Rightarrow> False
      | Some (n, lo, hi) \<Rightarrow>
          if length bs < n - 1 \<or> hd bs < lo \<or> hi < hd bs then False
          else if \<exists>c \<in> set (take (n - 2) (tl bs)). c < 0x80 \<or> 0xBF < c then False
          else utf8_Valid (drop (n - 1) bs))"
  by pat_completeness auto
termination
  by (relation "measure length") auto

lemma length_str_bytes [simp]: "length (str_bytes s) = length s" "length (bytes_str bs) = length bs"
  by (simp_all add: str_bytes_def bytes_str_def)

lemma bytes_str_bytes [simp]: "bytes_str (str_bytes s) = s"
  by (induction s) (simp_all add: str_bytes_def bytes_str_def unsigned_of_nat take_bit_nat_eq_self)

lemma str_bytes_str [simp]: "str_bytes (bytes_str bs) = bs"
proof -
  have "(of_nat (unat b mod 256) :: u8) = b" for b :: u8 using unsigned_less [of b, where ?'a = nat] by simp
  then show ?thesis by (simp add: str_bytes_def bytes_str_def o_def take_bit_eq_mod)
qed

section \<open>The cursor\<close>

record cursor =
  cur_b :: "u8 list"
  cur_pos :: nat

type_synonym 'a rd = "cursor \<Rightarrow> ('a \<times> cursor) res"

definition rret :: "'a \<Rightarrow> 'a rd" where
  "rret x c = Some (Inr (x, c))"

definition rfail :: "rcpg_error \<Rightarrow> 'a rd" where
  "rfail e c = Some (Inl e)"

text \<open>An expression that may panic.\<close>

definition rtry :: "'a option \<Rightarrow> 'a rd" where
  "rtry v c = map_option (\<lambda>x. Inr (x, c)) v"

definition rbind :: "'a rd \<Rightarrow> ('a \<Rightarrow> 'b rd) \<Rightarrow> 'b rd" where
  "rbind d f c = rthen (d c) (\<lambda>(x, c). f x c)"

text \<open>\<open>for range n { x, err := d(); ...; xs = append(xs, x) }\<close>.\<close>

primrec rtimes :: "nat \<Rightarrow> 'a rd \<Rightarrow> 'a list rd" where
  "rtimes 0 d = rret []"
| "rtimes (Suc n) d = rbind d (\<lambda>x. rbind (rtimes n d) (\<lambda>xs. rret (x # xs)))"

definition newCursor :: "u8 list \<Rightarrow> cursor" where
  "newCursor b = \<lparr>cur_b = b, cur_pos = 0\<rparr>"

definition remaining :: "cursor \<Rightarrow> int" where
  "remaining c = int (length (cur_b c)) - int (cur_pos c)"

definition cur_take :: "int \<Rightarrow> u8 list rd" where
  "cur_take n c =
     (if n < 0 \<or> remaining c < n then Some (Inl ErrCorrupt)
      else map_option (\<lambda>s. Inr (s, c\<lparr>cur_pos := cur_pos c + nat n\<rparr>)) (bytes_at (cur_b c) (cur_pos c) (nat n)))"

definition cur_u8 :: "u8 rd" where
  "cur_u8 = rbind (cur_take 1) (\<lambda>s. rtry (slice_at s 0))"

definition cur_u16 :: "u16 rd" where
  "cur_u16 = rbind (cur_take 2) (\<lambda>s. rtry (map_option of_nat (le_load 2 s 0)))"

definition cur_u32 :: "u32 rd" where
  "cur_u32 = rbind (cur_take 4) (\<lambda>s. rtry (map_option of_nat (le_load 4 s 0)))"

definition cur_u64 :: "u64 rd" where
  "cur_u64 = rbind (cur_take 8) (\<lambda>s. rtry (map_option of_nat (le_load 8 s 0)))"

definition cur_i64 :: "i64 rd" where
  "cur_i64 = cur_u64"

definition cur_f64 :: "f64 rd" where
  "cur_f64 = cur_u64"

text \<open>\<open>n * elemSize\<close> is 64-bit and cannot wrap for the element sizes in use, which the division test confirms.\<close>

definition lenPrefix :: "nat \<Rightarrow> nat rd" where
  "lenPrefix elemSize = rbind cur_u32 (\<lambda>v c.
     let n = unat v; need = n * elemSize in
     if need div elemSize \<noteq> n \<or> int need > remaining c then Some (Inl ErrCorrupt) else Some (Inr (n, c)))"

definition u32Vec :: "u32 list rd" where
  "u32Vec = rbind (lenPrefix 4) (\<lambda>n. rbind (cur_take (int (n * 4))) (\<lambda>s.
     rtry (map_opt (\<lambda>i. map_option of_nat (le_load 4 s (i * 4))) [0..<n])))"

definition i64Vec :: "i64 list rd" where
  "i64Vec = rbind (lenPrefix 8) (\<lambda>n. rbind (cur_take (int (n * 8))) (\<lambda>s.
     rtry (map_opt (\<lambda>i. map_option of_nat (le_load 8 s (i * 8))) [0..<n])))"

definition f64Vec :: "f64 list rd" where
  "f64Vec = rbind (lenPrefix 8) (\<lambda>n. rbind (cur_take (int (n * 8))) (\<lambda>s.
     rtry (map_opt (\<lambda>i. map_option of_nat (le_load 8 s (i * 8))) [0..<n])))"

definition cur_str :: "string rd" where
  "cur_str = rbind (lenPrefix 1) (\<lambda>n. rbind (cur_take (int n)) (\<lambda>s.
     if \<not> utf8_Valid s then rfail ErrCorrupt else rret (bytes_str s)))"

section \<open>Writers\<close>

text \<open>A \<open>bytes.Buffer\<close> is the bytes written so far.\<close>

type_synonym buffer = "u8 list"

definition wU8 :: "buffer \<Rightarrow> u8 \<Rightarrow> buffer" where
  "wU8 w v = w @ [v]"

definition wU16 :: "buffer \<Rightarrow> u16 \<Rightarrow> buffer" where
  "wU16 w v = w @ le_bytes 2 (unat v)"

definition wU32 :: "buffer \<Rightarrow> u32 \<Rightarrow> buffer" where
  "wU32 w v = w @ le_bytes 4 (unat v)"

definition wU64 :: "buffer \<Rightarrow> u64 \<Rightarrow> buffer" where
  "wU64 w v = w @ le_bytes 8 (unat v)"

definition wI64 :: "buffer \<Rightarrow> i64 \<Rightarrow> buffer" where
  "wI64 w v = wU64 w v"

definition wF64 :: "buffer \<Rightarrow> f64 \<Rightarrow> buffer" where
  "wF64 w v = wU64 w v"

definition wLenPrefix :: "buffer \<Rightarrow> nat \<Rightarrow> buffer res" where
  "wLenPrefix w n = (if n > 2 ^ 32 - 1 then Some (Inl ErrCorrupt) else Some (Inr (wU32 w (of_nat n))))"

definition wU32Vec :: "buffer \<Rightarrow> u32 list \<Rightarrow> buffer res" where
  "wU32Vec w v = rthen (wLenPrefix w (length v)) (\<lambda>w. Some (Inr (fold (\<lambda>x w. wU32 w x) v w)))"

definition wString :: "buffer \<Rightarrow> string \<Rightarrow> buffer res" where
  "wString w s = rthen (wLenPrefix w (length s)) (\<lambda>w. Some (Inr (w @ str_bytes s)))"

section \<open>Reading back what was written\<close>

definition decodes :: "'a rd \<Rightarrow> u8 list \<Rightarrow> 'a \<Rightarrow> bool" where
  "decodes d bs x \<longleftrightarrow> (\<forall>pre post. d \<lparr>cur_b = pre @ bs @ post, cur_pos = length pre\<rparr>
     = Some (Inr (x, \<lparr>cur_b = pre @ bs @ post, cur_pos = length pre + length bs\<rparr>)))"

lemma decodesI:
  assumes "\<And>pre post. d \<lparr>cur_b = pre @ bs @ post, cur_pos = length pre\<rparr> = Some (Inr (x, \<lparr>cur_b = pre @ bs @ post, cur_pos = length pre + length bs\<rparr>))"
  shows "decodes d bs x"
  using assms by (simp add: decodes_def)

lemma decodesD:
  "decodes d bs x \<Longrightarrow> d \<lparr>cur_b = pre @ bs @ post, cur_pos = length pre\<rparr> = Some (Inr (x, \<lparr>cur_b = pre @ bs @ post, cur_pos = length pre + length bs\<rparr>))"
  by (simp add: decodes_def)

named_theorems codec_intro "how values and reader steps combine"

lemma decodes_ret [codec_intro]: "bs = [] \<Longrightarrow> y = x \<Longrightarrow> decodes (rret x) bs y"
  by (simp add: decodes_def rret_def)

lemma decodes_bind:
  assumes "decodes d bs x" "decodes (f x) bs' y"
  shows "decodes (rbind d f) (bs @ bs') y"
proof (rule decodesI)
  fix pre post
  have "d \<lparr>cur_b = pre @ (bs @ bs') @ post, cur_pos = length pre\<rparr> = Some (Inr (x, \<lparr>cur_b = (pre @ bs) @ bs' @ post, cur_pos = length (pre @ bs)\<rparr>))"
    using decodesD [OF assms(1), of pre "bs' @ post"] by simp
  then show "rbind d f \<lparr>cur_b = pre @ (bs @ bs') @ post, cur_pos = length pre\<rparr>
      = Some (Inr (y, \<lparr>cur_b = pre @ (bs @ bs') @ post, cur_pos = length pre + length (bs @ bs')\<rparr>))"
    using decodesD [OF assms(2), of "pre @ bs" post] by (simp add: rbind_def)
qed

lemma decodes_times:
  assumes "\<And>x. x \<in> set xs \<Longrightarrow> decodes d (enc x) (f x)"
  shows "decodes (rtimes (length xs) d) (concat (map enc xs)) (map f xs)"
  using assms
proof (induction xs)
  case Nil
  then show ?case by (simp add: decodes_ret)
next
  case (Cons x xs)
  have "decodes (rbind (rtimes (length xs) d) (\<lambda>ys. rret (f x # ys))) (concat (map enc xs) @ []) (f x # map f xs)"
    using Cons by (intro decodes_bind decodes_ret) auto
  then show ?case using decodes_bind [OF Cons.prems [of x]] by simp
qed

lemma decodes_take: "length bs = nat n \<Longrightarrow> 0 \<le> n \<Longrightarrow> decodes (cur_take n) bs bs"
  by (auto simp: decodes_def cur_take_def remaining_def bytes_at_def)

lemma decodes_try: "v = Some x \<Longrightarrow> decodes (rtry v) [] x"
  by (simp add: decodes_def rtry_def)

lemma decodes_take_bind: "length bs = nat n \<Longrightarrow> 0 \<le> n \<Longrightarrow> decodes (f bs) [] y \<Longrightarrow> decodes (rbind (cur_take n) f) bs y"
  using decodes_bind [OF decodes_take [of bs n], of f "[]" y] by simp

lemma le_load_bytes: "le_load k (le_bytes k v) 0 = Some (v mod 256 ^ k)"
  by (simp add: le_load_def bytes_at_def le_nat_bytes)

lemma decodes_ints:
  "decodes cur_u8 [b] b" "decodes cur_u16 (le_bytes 2 (unat s)) s" "decodes cur_u32 (le_bytes 4 (unat w)) w"
  "decodes cur_u64 (le_bytes 8 (unat d)) d" "decodes cur_i64 (le_bytes 8 (unat d)) d" "decodes cur_f64 (le_bytes 8 (unat d)) d"
proof -
  have m: "unat s mod 256 ^ 2 = unat s" "unat w mod 256 ^ 4 = unat w" "unat d mod 256 ^ 8 = unat d"
    using unsigned_less [of s, where ?'a = nat] unsigned_less [of w, where ?'a = nat] unsigned_less [of d, where ?'a = nat] by simp_all
  show "decodes cur_u8 [b] b" unfolding cur_u8_def by (intro decodes_take_bind decodes_try) simp_all
  show "decodes cur_u16 (le_bytes 2 (unat s)) s" unfolding cur_u16_def
    by (intro decodes_take_bind decodes_try) (simp_all only: le_load_bytes m option.map length_le_bytes, simp_all)
  show "decodes cur_u32 (le_bytes 4 (unat w)) w" unfolding cur_u32_def
    by (intro decodes_take_bind decodes_try) (simp_all only: le_load_bytes m option.map length_le_bytes, simp_all)
  show u: "decodes cur_u64 (le_bytes 8 (unat d)) d" unfolding cur_u64_def
    by (intro decodes_take_bind decodes_try) (simp_all only: le_load_bytes m option.map length_le_bytes, simp_all)
  show "decodes cur_i64 (le_bytes 8 (unat d)) d" "decodes cur_f64 (le_bytes 8 (unat d)) d"
    using u by (simp_all add: cur_i64_def cur_f64_def)
qed

text \<open>A length prefix is accepted when the bytes of its elements follow.\<close>

definition len_bytes :: "nat \<Rightarrow> u8 list" where
  "len_bytes n = le_bytes 4 (unat (of_nat n :: u32))"

lemma length_len_bytes [simp]: "length (len_bytes n) = 4"
  by (simp add: len_bytes_def)

lemma decodes_lenPrefix:
  assumes n: "n < 2 ^ 32" and w: "0 < w" "n * w \<le> length bs" and f: "decodes (f n) bs y"
  shows "decodes (rbind (lenPrefix w) f) (len_bytes n @ bs) y"
proof (rule decodesI)
  fix pre post
  have l: "lenPrefix w \<lparr>cur_b = pre @ (len_bytes n @ bs) @ post, cur_pos = length pre\<rparr>
      = Some (Inr (n, \<lparr>cur_b = (pre @ len_bytes n) @ bs @ post, cur_pos = length (pre @ len_bytes n)\<rparr>))"
  proof -
    have m: "unat (of_nat n :: u32) = n" using n by simp
    have "cur_u32 \<lparr>cur_b = pre @ (len_bytes n @ bs) @ post, cur_pos = length pre\<rparr>
        = Some (Inr (of_nat n, \<lparr>cur_b = (pre @ len_bytes n) @ bs @ post, cur_pos = length (pre @ len_bytes n)\<rparr>))"
      using decodesD [OF decodes_ints(3) [of "of_nat n"], of pre "bs @ post"] by (simp add: len_bytes_def)
    moreover have "\<not> int (n * w) > remaining \<lparr>cur_b = (pre @ len_bytes n) @ bs @ post, cur_pos = length (pre @ len_bytes n)\<rparr>"
      using w(2) unfolding remaining_def by (simp del: of_nat_mult)
    ultimately show ?thesis using w(1) by (simp only: lenPrefix_def rbind_def rthen_simps prod.case Let_def m) simp
  qed
  show "rbind (lenPrefix w) f \<lparr>cur_b = pre @ (len_bytes n @ bs) @ post, cur_pos = length pre\<rparr>
      = Some (Inr (y, \<lparr>cur_b = pre @ (len_bytes n @ bs) @ post, cur_pos = length pre + length (len_bytes n @ bs)\<rparr>))"
    using decodesD [OF f, of "pre @ len_bytes n" post] unfolding rbind_def [of "lenPrefix w"] l rthen_simps prod.case by (simp add: add.assoc)
qed

lemma decodes_str: "length s < 2 ^ 32 \<Longrightarrow> utf8_Valid (str_bytes s) \<Longrightarrow> decodes cur_str (len_bytes (length s) @ str_bytes s) s"
  unfolding cur_str_def by (intro decodes_lenPrefix decodes_take_bind) (simp_all add: decodes_ret)

text \<open>The vectors of fixed-width integers.\<close>

lemma le_load_concat:
  assumes "i < length xs" and b: "\<And>x. x \<in> set xs \<Longrightarrow> v x < 256 ^ k"
  shows "le_load k (concat (map (\<lambda>x. le_bytes k (v x)) xs)) (i * k) = Some (v (xs ! i))"
proof -
  obtain ys zs where c: "concat (map (\<lambda>x. le_bytes k (v x)) xs) = ys @ le_bytes k (v (xs ! i)) @ zs" "length ys = i * k"
    by (rule concat_split_nth [of xs "\<lambda>x. le_bytes k (v x)" k i]) (simp, rule assms(1), rule that)
  show ?thesis unfolding le_load_def c(1) bytes_at_mid [OF c(2) length_le_bytes] using b [of "xs ! i"] assms(1) by (simp add: le_nat_bytes)
qed

lemma decodes_vec:
  assumes k: "0 < k" and n: "length xs < 2 ^ 32" and b: "\<And>x. x \<in> set xs \<Longrightarrow> v x < 256 ^ k \<and> of_nat (v x) = x"
  shows "decodes (rbind (lenPrefix k) (\<lambda>n. rbind (cur_take (int (n * k))) (\<lambda>s. rtry (map_opt (\<lambda>i. map_option of_nat (le_load k s (i * k))) [0..<n]))))
    (len_bytes (length xs) @ concat (map (\<lambda>x. le_bytes k (v x)) xs)) xs"
proof -
  let ?bs = "concat (map (\<lambda>x. le_bytes k (v x)) xs)"
  have l: "length ?bs = length xs * k" by (rule length_concat_same) simp
  have "map_opt (\<lambda>i. map_option of_nat (le_load k ?bs (i * k))) [0..<length xs] = Some (map (\<lambda>i. xs ! i) [0..<length xs])"
    using b by (intro map_opt_Some) (auto simp: le_load_concat)
  then show ?thesis using k n l by (intro decodes_lenPrefix decodes_take_bind decodes_try) (simp_all add: map_nth del: of_nat_mult)
qed

lemma decodes_u32Vec: "length xs < 2 ^ 32 \<Longrightarrow> decodes u32Vec (len_bytes (length xs) @ concat (map (\<lambda>x. le_bytes 4 (unat x)) xs)) xs"
  unfolding u32Vec_def using unsigned_less [where ?'a = nat and ?'b = 32] by (intro decodes_vec) simp_all

lemma decodes_i64Vec: "length xs < 2 ^ 32 \<Longrightarrow> decodes i64Vec (len_bytes (length xs) @ concat (map (\<lambda>x. le_bytes 8 (unat x)) xs)) xs"
  unfolding i64Vec_def using unsigned_less [where ?'a = nat and ?'b = 64] by (intro decodes_vec) simp_all

lemma decodes_f64Vec: "length xs < 2 ^ 32 \<Longrightarrow> decodes f64Vec (len_bytes (length xs) @ concat (map (\<lambda>x. le_bytes 8 (unat x)) xs)) xs"
  using decodes_i64Vec unfolding i64Vec_def f64Vec_def .

section \<open>Writers and their bytes\<close>

lemma fold_wU32 [simp]: "fold (\<lambda>x w. wU32 w x) xs w = w @ concat (map (\<lambda>x. le_bytes 4 (unat x)) xs)"
  by (induction xs arbitrary: w) (simp_all add: wU32_def)

lemma wLenPrefix_ok: "n < 2 ^ 32 \<Longrightarrow> wLenPrefix w n = Some (Inr (w @ len_bytes n))"
  by (simp add: wLenPrefix_def wU32_def len_bytes_def)

lemma wU32Vec_ok: "length v < 2 ^ 32 \<Longrightarrow> wU32Vec w v = Some (Inr (w @ len_bytes (length v) @ concat (map (\<lambda>x. le_bytes 4 (unat x)) v)))"
  by (simp add: wU32Vec_def wLenPrefix_ok)

lemma wString_ok: "length s < 2 ^ 32 \<Longrightarrow> wString w s = Some (Inr (w @ len_bytes (length s) @ str_bytes s))"
  by (simp add: wString_def wLenPrefix_ok)

section \<open>No panic\<close>

definition cur_ok :: "cursor \<Rightarrow> bool" where
  "cur_ok c \<longleftrightarrow> cur_pos c \<le> length (cur_b c)"

text \<open>A step returns, with an error of the format if any, and leaves a good cursor on the same bytes, not before where it was.\<close>

definition no_panic :: "'a rd \<Rightarrow> bool" where
  "no_panic d \<longleftrightarrow> (\<forall>c. cur_ok c \<longrightarrow> settles (d c) \<and> (\<forall>x c'. d c = Some (Inr (x, c')) \<longrightarrow> cur_ok c' \<and> cur_b c' = cur_b c \<and> cur_pos c \<le> cur_pos c'))"

lemma no_panic_facts:
  assumes "no_panic d" "cur_ok c"
  shows "settles (d c)" "d c = Some (Inr (x, c')) \<Longrightarrow> cur_ok c' \<and> cur_b c' = cur_b c \<and> cur_pos c \<le> cur_pos c'"
  using assms unfolding no_panic_def by blast+

lemma no_panicD:
  assumes "no_panic d" "cur_ok c"
  obtains e where "d c = Some (Inl e)" "e \<noteq> ErrWriteTo" | x c' where "d c = Some (Inr (x, c'))" "cur_ok c'" "cur_b c' = cur_b c" "cur_pos c \<le> cur_pos c'"
proof -
  obtain r where r: "d c = Some r" "r \<noteq> Inl ErrWriteTo" using no_panic_facts(1) [OF assms] by (auto simp: settles_def)
  show thesis
  proof (cases r)
    case (Inl e)
    then show ?thesis using r by (intro that(1)) simp_all
  next
    case (Inr p)
    obtain x c' where p: "p = (x, c')" by (cases p)
    have d: "d c = Some (Inr (x, c'))" using r(1) Inr p by simp
    show ?thesis using no_panic_facts(2) [OF assms d] by (intro that(2) [OF d]) simp_all
  qed
qed

lemma newCursor_ok [simp]: "cur_ok (newCursor b)"
  by (simp add: cur_ok_def newCursor_def)

named_theorems panic_free "reader steps that return on every input"

lemma no_panic_ret [panic_free]: "no_panic (rret x)" "e \<noteq> ErrWriteTo \<Longrightarrow> no_panic (rfail e)" "v \<noteq> None \<Longrightarrow> no_panic (rtry v)"
  by (auto simp: no_panic_def rret_def rfail_def rtry_def settles_def)

lemma no_panic_fail [panic_free]: "no_panic (rfail ErrCorrupt)" "no_panic (rfail ErrUnsupportedVersion)"
  by (simp_all add: no_panic_ret)

lemma no_panic_if [panic_free]: "(b \<Longrightarrow> no_panic d) \<Longrightarrow> (\<not> b \<Longrightarrow> no_panic e) \<Longrightarrow> no_panic (if b then d else e)"
  by simp

text \<open>The continuation of a step may use what every result of it satisfies.\<close>

lemma no_panic_bind_post:
  assumes d: "no_panic d" and p: "\<And>c x c'. cur_ok c \<Longrightarrow> d c = Some (Inr (x, c')) \<Longrightarrow> P x" and f: "\<And>x. P x \<Longrightarrow> no_panic (f x)"
  shows "no_panic (rbind d f)"
  unfolding no_panic_def
proof (intro allI impI)
  fix c assume c: "cur_ok c"
  show "settles (rbind d f c) \<and> (\<forall>x c'. rbind d f c = Some (Inr (x, c')) \<longrightarrow> cur_ok c' \<and> cur_b c' = cur_b c \<and> cur_pos c \<le> cur_pos c')"
  proof (rule no_panicD [OF d c])
    fix x c1 assume r: "d c = Some (Inr (x, c1))" "cur_ok c1" "cur_b c1 = cur_b c" "cur_pos c \<le> cur_pos c1"
    have n: "no_panic (f x)" by (rule f [OF p [OF c r(1)]])
    have e: "rbind d f c = f x c1" by (simp add: rbind_def r(1))
    show ?thesis unfolding e using no_panic_facts [OF n r(2)] r(3,4) by (intro conjI allI impI) (simp, metis order_trans)+
  qed (auto simp: rbind_def settles_def)
qed

lemma no_panic_bind [panic_free]: "no_panic d \<Longrightarrow> (\<And>x. no_panic (f x)) \<Longrightarrow> no_panic (rbind d f)"
  by (rule no_panic_bind_post [where P = "\<lambda>_. True"]) simp_all

lemma no_panic_times [panic_free]: "no_panic d \<Longrightarrow> no_panic (rtimes n d)"
  by (induction n) (simp_all add: panic_free)

lemma no_panic_take [panic_free]: "no_panic (cur_take n)"
  by (auto simp: no_panic_def cur_take_def cur_ok_def remaining_def bytes_at_def)

lemma take_length: "cur_take n c = Some (Inr (s, c')) \<Longrightarrow> length s = nat n"
  by (auto simp: cur_take_def bytes_at_def split: if_splits)

lemma no_panic_take_bind [panic_free]: "(\<And>s. length s = nat n \<Longrightarrow> no_panic (f s)) \<Longrightarrow> no_panic (rbind (cur_take n) f)"
  by (rule no_panic_bind_post [where P = "\<lambda>s. length s = nat n"]) (auto simp: panic_free take_length)

lemma le_load_Some: "off + k \<le> length s \<Longrightarrow> le_load k s off \<noteq> None"
  by (simp add: le_load_def bytes_at_def)

lemma no_panic_ints [panic_free]: "no_panic cur_u8" "no_panic cur_u16" "no_panic cur_u32" "no_panic cur_u64" "no_panic cur_i64" "no_panic cur_f64"
  unfolding cur_i64_def cur_f64_def cur_u8_def cur_u16_def cur_u32_def cur_u64_def
  by (intro no_panic_take_bind no_panic_ret; simp add: slice_at_def le_load_Some)+

lemma no_panic_lenPrefix [panic_free]: "no_panic (lenPrefix w)"
  unfolding lenPrefix_def by (rule no_panic_bind [OF no_panic_ints(3)]) (auto simp: no_panic_def Let_def)

lemma map_opt_None: "map_opt f xs \<noteq> None" if "\<And>x. x \<in> set xs \<Longrightarrow> f x \<noteq> None"
  using that by (induction xs) (auto split: option.splits)

lemma no_panic_vec:
  "no_panic (rbind (lenPrefix k) (\<lambda>n. rbind (cur_take (int (n * k))) (\<lambda>s. rtry (map_opt (\<lambda>i. map_option of_nat (le_load k s (i * k))) [0..<n]))))"
proof (rule no_panic_bind [OF no_panic_lenPrefix], rule no_panic_take_bind, rule no_panic_ret(3), rule map_opt_None)
  fix n i and s :: "u8 list" assume s: "length s = nat (int (n * k))" "i \<in> set [0..<n]"
  have "i * k + k \<le> n * k" using s(2) mult_le_mono1 [of "Suc i" n k] by simp
  then show "map_option of_nat (le_load k s (i * k)) \<noteq> None" using s(1) le_load_Some [of "i * k" k s] by (simp del: of_nat_mult)
qed

lemma no_panic_vecs [panic_free]: "no_panic u32Vec" "no_panic i64Vec" "no_panic f64Vec"
  unfolding u32Vec_def i64Vec_def f64Vec_def by (rule no_panic_vec)+

lemma no_panic_str [panic_free]: "no_panic cur_str"
  unfolding cur_str_def by (intro panic_free)

section \<open>The contract of an element\<close>

text \<open>
  \<open>enc\<close> gives the bytes of an element, \<open>dec\<close> reads one, \<open>width\<close> is the least number of bytes the length prefix accounts for. Reading
  gives \<open>reload x\<close>: bitmaps come back with the same members, everything else unchanged.
\<close>

locale codec =
  fixes enc :: "'a \<Rightarrow> u8 list" and dec :: "'a rd" and ok :: "'a \<Rightarrow> bool" and width :: nat and reload :: "'a \<Rightarrow> 'a"
  assumes dec_enc: "ok x \<Longrightarrow> decodes dec (enc x) (reload x)"
    and enc_width: "ok x \<Longrightarrow> width \<le> length (enc x)"
    and width_pos: "0 < width"
    and dec_returns: "no_panic dec"
begin

lemma counted_width: "\<forall>x \<in> set xs. ok x \<Longrightarrow> length xs * width \<le> length (concat (map enc xs))"
  by (induction xs) (auto dest: enc_width)

lemma counted_ok:
  assumes "\<forall>x \<in> set xs. ok x" "length xs < 2 ^ 32"
  shows "decodes (rbind (lenPrefix width) (\<lambda>n. rtimes n dec)) (len_bytes (length xs) @ concat (map enc xs)) (map reload xs)"
  using assms counted_width [OF assms(1)] by (intro decodes_lenPrefix width_pos decodes_times dec_enc) auto

lemma counted_returns: "no_panic (rbind (lenPrefix width) (\<lambda>n. rtimes n dec))"
  by (intro panic_free dec_returns)

end

end
