(* ===== verification/RcpgColumn.thy ===== *)
theory RcpgColumn
  imports RcpgCursor
begin

text \<open>
  Property columns on disk (\<open>rcpg/column.go\<close>): the eight storage tags with their encoders and decoders. An entry struct
  (\<open>I64Entry\<close> and its siblings) is the pair of its \<open>ID\<close> and \<open>Val\<close>.
\<close>

section \<open>Loops over a result\<close>

fun fold_res :: "('a \<Rightarrow> 's \<Rightarrow> 's res) \<Rightarrow> 'a list \<Rightarrow> 's \<Rightarrow> 's res" where
  "fold_res f [] s = Some (Inr s)"
| "fold_res f (x # xs) s = rthen (f x s) (fold_res f xs)"

lemma fold_res_append_bytes:
  assumes "\<And>x w. x \<in> set xs \<Longrightarrow> f x w = Some (Inr (w @ enc x))"
  shows "fold_res f xs w = Some (Inr (w @ concat (map enc xs)))"
  using assms by (induction xs arbitrary: w) simp_all

section \<open>Data\<close>

datatype ColumnData =
    DenseI64 "i64 list"
  | DenseF64 "f64 list"
  | DenseBool "u8 list" u32
  | DenseStr "u32 list"
  | SparseI64 "(u32 \<times> i64) list"
  | SparseF64 "(u32 \<times> f64) list"
  | SparseBool "(u32 \<times> bool) list"
  | SparseStr "(u32 \<times> u32) list"

record rcpg_Column =
  rc_Key :: u32
  rc_Data :: ColumnData

definition DenseBool_Get :: "u8 list \<Rightarrow> u32 \<Rightarrow> u32 \<Rightarrow> bool option" where
  "DenseBool_Get bits len i =
     (if i \<ge> len then Some False else map_option (\<lambda>b. b AND 2 ^ (unat i mod 8) \<noteq> 0) (slice_at bits (unat i div 8)))"

definition DenseBool_Set :: "u8 list \<Rightarrow> u32 \<Rightarrow> bool \<Rightarrow> u8 list option" where
  "DenseBool_Set bits i v = do {
     b \<leftarrow> slice_at bits (unat i div 8);
     slice_set bits (unat i div 8) (if v then b OR 2 ^ (unat i mod 8) else b AND NOT (2 ^ (unat i mod 8)))
   }"

text \<open>\<open>(n+7)/8\<close> in 32 bits.\<close>

definition packed_len32 :: "u32 \<Rightarrow> nat" where
  "packed_len32 n = unat (n + 7) div 8"

definition NewDenseBool :: "u32 \<Rightarrow> ColumnData" where
  "NewDenseBool n = DenseBool (replicate (packed_len32 n) 0) n"

fun col_tag :: "ColumnData \<Rightarrow> u8" where
  "col_tag (DenseI64 _) = 0"
| "col_tag (DenseF64 _) = 1"
| "col_tag (DenseBool _ _) = 2"
| "col_tag (DenseStr _) = 3"
| "col_tag (SparseI64 _) = 4"
| "col_tag (SparseF64 _) = 5"
| "col_tag (SparseBool _) = 6"
| "col_tag (SparseStr _) = 7"

section \<open>Encoding\<close>

text \<open>\<open>d.Bits[:k]\<close> panics when \<open>k\<close> exceeds the capacity, here the length.\<close>

fun encode_data :: "ColumnData \<Rightarrow> buffer \<Rightarrow> buffer res" where
  "encode_data (DenseI64 d) w = rthen (wLenPrefix w (length d)) (\<lambda>w. Some (Inr (fold (\<lambda>x w. wI64 w x) d w)))"
| "encode_data (DenseF64 d) w = rthen (wLenPrefix w (length d)) (\<lambda>w. Some (Inr (fold (\<lambda>x w. wF64 w x) d w)))"
| "encode_data (DenseBool bits len) w =
     (let w = wU32 w len in map_option (\<lambda>s. Inr (w @ s)) (bytes_at bits 0 (packed_len32 len)))"
| "encode_data (DenseStr d) w = wU32Vec w d"
| "encode_data (SparseI64 d) w =
     rthen (wLenPrefix w (length d)) (\<lambda>w. Some (Inr (fold (\<lambda>(i, v) w. wI64 (wU32 w i) v) d w)))"
| "encode_data (SparseF64 d) w =
     rthen (wLenPrefix w (length d)) (\<lambda>w. Some (Inr (fold (\<lambda>(i, v) w. wF64 (wU32 w i) v) d w)))"
| "encode_data (SparseBool d) w =
     rthen (wLenPrefix w (length d)) (\<lambda>w. Some (Inr (fold (\<lambda>(i, v) w. wU8 (wU32 w i) (if v then 1 else 0)) d w)))"
| "encode_data (SparseStr d) w =
     rthen (wLenPrefix w (length d)) (\<lambda>w. Some (Inr (fold (\<lambda>(i, v) w. wU32 (wU32 w i) v) d w)))"

definition encodeColumns :: "rcpg_Column list \<Rightarrow> u8 list res" where
  "encodeColumns columns =
     rthen (wLenPrefix [] (length columns))
       (fold_res (\<lambda>col w. encode_data (rc_Data col) (wU8 (wU32 w (rc_Key col)) (col_tag (rc_Data col)))) columns)"

section \<open>Decoding\<close>

definition read_i64_entry :: "(u32 \<times> i64) rd" where
  "read_i64_entry = rbind cur_u32 (\<lambda>i. rbind cur_i64 (\<lambda>x. rret (i, x)))"

definition read_f64_entry :: "(u32 \<times> f64) rd" where
  "read_f64_entry = rbind cur_u32 (\<lambda>i. rbind cur_u64 (\<lambda>bits. rret (i, bits)))"

definition read_bool_entry :: "(u32 \<times> bool) rd" where
  "read_bool_entry = rbind cur_u32 (\<lambda>i. rbind cur_u8 (\<lambda>b. rret (i, b \<noteq> 0)))"

definition read_str_entry :: "(u32 \<times> u32) rd" where
  "read_str_entry = rbind cur_u32 (\<lambda>i. rbind cur_u32 (\<lambda>x. rret (i, x)))"

definition decodeColumnData :: "u8 \<Rightarrow> ColumnData rd" where
  "decodeColumnData tag =
     (if tag = 0 then rbind i64Vec (\<lambda>v. rret (DenseI64 v))
      else if tag = 1 then rbind f64Vec (\<lambda>v. rret (DenseF64 v))
      else if tag = 2 then rbind cur_u32 (\<lambda>bitLen. rbind (cur_take (int (unat ((ucast bitLen + 7 :: u64) div 8)))) (\<lambda>packed. rret (DenseBool packed bitLen)))
      else if tag = 3 then rbind u32Vec (\<lambda>v. rret (DenseStr v))
      else if tag = 4 then rbind (rbind (lenPrefix 12) (\<lambda>n. rtimes n read_i64_entry)) (\<lambda>v. rret (SparseI64 v))
      else if tag = 5 then rbind (rbind (lenPrefix 12) (\<lambda>n. rtimes n read_f64_entry)) (\<lambda>v. rret (SparseF64 v))
      else if tag = 6 then rbind (rbind (lenPrefix 5) (\<lambda>n. rtimes n read_bool_entry)) (\<lambda>v. rret (SparseBool v))
      else if tag = 7 then rbind (rbind (lenPrefix 8) (\<lambda>n. rtimes n read_str_entry)) (\<lambda>v. rret (SparseStr v))
      else rfail ErrCorrupt)"

definition read_column :: "rcpg_Column rd" where
  "read_column = rbind cur_u32 (\<lambda>key. rbind cur_u8 (\<lambda>tag. rbind (decodeColumnData tag) (\<lambda>data. rret \<lparr>rc_Key = key, rc_Data = data\<rparr>)))"

definition decodeColumns :: "u8 list \<Rightarrow> rcpg_Column list res" where
  "decodeColumns body = rthen (rbind (lenPrefix 5) (\<lambda>n. rtimes n read_column) (newCursor body)) (\<lambda>(columns, _). Some (Inr columns))"

section \<open>Elements\<close>

text \<open>The bytes of the entries, and the contract of each.\<close>

interpretation i64_entry: codec "\<lambda>(i, v). le_bytes 4 (unat i) @ le_bytes 8 (unat v)" read_i64_entry "\<lambda>_. True" 12 "\<lambda>e. e"
proof
  fix e :: "u32 \<times> i64"
  obtain i v where e: "e = (i, v)" by (cases e)
  have "decodes read_i64_entry (le_bytes 4 (unat i) @ le_bytes 8 (unat v) @ []) (i, v)"
    unfolding read_i64_entry_def by (rule decodes_bind decodes_ints decodes_ret refl)+
  then show "decodes read_i64_entry (case e of (i, v) \<Rightarrow> le_bytes 4 (unat i) @ le_bytes 8 (unat v)) e" by (simp add: e)
  show "no_panic read_i64_entry" unfolding read_i64_entry_def by (intro panic_free)
qed auto

interpretation f64_entry: codec "\<lambda>(i, v). le_bytes 4 (unat i) @ le_bytes 8 (unat v)" read_f64_entry "\<lambda>_. True" 12 "\<lambda>e. e"
proof
  fix e :: "u32 \<times> f64"
  obtain i v where e: "e = (i, v)" by (cases e)
  have "decodes read_f64_entry (le_bytes 4 (unat i) @ le_bytes 8 (unat v) @ []) (i, v)"
    unfolding read_f64_entry_def by (rule decodes_bind decodes_ints decodes_ret refl)+
  then show "decodes read_f64_entry (case e of (i, v) \<Rightarrow> le_bytes 4 (unat i) @ le_bytes 8 (unat v)) e" by (simp add: e)
  show "no_panic read_f64_entry" unfolding read_f64_entry_def by (intro panic_free)
qed auto

interpretation bool_entry: codec "\<lambda>(i, v). le_bytes 4 (unat i) @ [if v then 1 else 0]" read_bool_entry "\<lambda>_. True" 5 "\<lambda>e. e"
proof
  fix e :: "u32 \<times> bool"
  obtain i v where e: "e = (i, v)" by (cases e)
  have "decodes read_bool_entry (le_bytes 4 (unat i) @ [if v then 1 else 0] @ []) (i, v)"
    unfolding read_bool_entry_def by (rule decodes_bind decodes_ints decodes_ret refl)+ simp
  then show "decodes read_bool_entry (case e of (i, v) \<Rightarrow> le_bytes 4 (unat i) @ [if v then 1 else 0]) e" by (simp add: e)
  show "no_panic read_bool_entry" unfolding read_bool_entry_def by (intro panic_free)
qed auto

interpretation str_entry: codec "\<lambda>(i, v). le_bytes 4 (unat i) @ le_bytes 4 (unat v)" read_str_entry "\<lambda>_. True" 8 "\<lambda>e. e"
proof
  fix e :: "u32 \<times> u32"
  obtain i v where e: "e = (i, v)" by (cases e)
  have "decodes read_str_entry (le_bytes 4 (unat i) @ le_bytes 4 (unat v) @ []) (i, v)"
    unfolding read_str_entry_def by (rule decodes_bind decodes_ints decodes_ret refl)+
  then show "decodes read_str_entry (case e of (i, v) \<Rightarrow> le_bytes 4 (unat i) @ le_bytes 4 (unat v)) e" by (simp add: e)
  show "no_panic read_str_entry" unfolding read_str_entry_def by (intro panic_free)
qed auto

section \<open>Columns\<close>

fun data_bytes :: "ColumnData \<Rightarrow> u8 list" where
  "data_bytes (DenseI64 d) = len_bytes (length d) @ concat (map (\<lambda>x. le_bytes 8 (unat x)) d)"
| "data_bytes (DenseF64 d) = len_bytes (length d) @ concat (map (\<lambda>x. le_bytes 8 (unat x)) d)"
| "data_bytes (DenseBool bits len) = le_bytes 4 (unat len) @ bits"
| "data_bytes (DenseStr d) = len_bytes (length d) @ concat (map (\<lambda>x. le_bytes 4 (unat x)) d)"
| "data_bytes (SparseI64 d) = len_bytes (length d) @ concat (map (\<lambda>(i, v). le_bytes 4 (unat i) @ le_bytes 8 (unat v)) d)"
| "data_bytes (SparseF64 d) = len_bytes (length d) @ concat (map (\<lambda>(i, v). le_bytes 4 (unat i) @ le_bytes 8 (unat v)) d)"
| "data_bytes (SparseBool d) = len_bytes (length d) @ concat (map (\<lambda>(i, v). le_bytes 4 (unat i) @ [if v then 1 else 0]) d)"
| "data_bytes (SparseStr d) = len_bytes (length d) @ concat (map (\<lambda>(i, v). le_bytes 4 (unat i) @ le_bytes 4 (unat v)) d)"

text \<open>A packed column has exactly its bytes, and its length stays clear of the 32-bit wrap of \<open>(Len+7)/8\<close>.\<close>

fun data_ok :: "ColumnData \<Rightarrow> bool" where
  "data_ok (DenseBool bits len) \<longleftrightarrow> length bits = (unat len + 7) div 8 \<and> unat len + 7 < 2 ^ 32"
| "data_ok (DenseI64 d) \<longleftrightarrow> length d < 2 ^ 32"
| "data_ok (DenseF64 d) \<longleftrightarrow> length d < 2 ^ 32"
| "data_ok (DenseStr d) \<longleftrightarrow> length d < 2 ^ 32"
| "data_ok (SparseI64 d) \<longleftrightarrow> length d < 2 ^ 32"
| "data_ok (SparseF64 d) \<longleftrightarrow> length d < 2 ^ 32"
| "data_ok (SparseBool d) \<longleftrightarrow> length d < 2 ^ 32"
| "data_ok (SparseStr d) \<longleftrightarrow> length d < 2 ^ 32"

lemma fold_bytes:
  assumes "\<And>x w. f x w = w @ enc x"
  shows "fold f xs w = w @ concat (map enc xs)"
  using assms by (induction xs arbitrary: w) simp_all

lemma fold_writers:
  "fold (\<lambda>x w. wI64 w x) is w = w @ concat (map (\<lambda>x. le_bytes 8 (unat x)) is)"
  "fold (\<lambda>x w. wF64 w x) is w = w @ concat (map (\<lambda>x. le_bytes 8 (unat x)) is)"
  "fold (\<lambda>(i, v) w. wI64 (wU32 w i) v) ps w = w @ concat (map (\<lambda>(i, v). le_bytes 4 (unat i) @ le_bytes 8 (unat v)) ps)"
  "fold (\<lambda>(i, v) w. wF64 (wU32 w i) v) ps w = w @ concat (map (\<lambda>(i, v). le_bytes 4 (unat i) @ le_bytes 8 (unat v)) ps)"
  "fold (\<lambda>(i, v) w. wU8 (wU32 w i) (if v then 1 else 0)) bs w = w @ concat (map (\<lambda>(i, v). le_bytes 4 (unat i) @ [if v then 1 else 0]) bs)"
  "fold (\<lambda>(i, v) w. wU32 (wU32 w i) v) ss w = w @ concat (map (\<lambda>(i, v). le_bytes 4 (unat i) @ le_bytes 4 (unat v)) ss)"
  by (rule fold_bytes; auto simp: wI64_def wF64_def wU64_def wU32_def wU8_def)+

lemma packed_len: "unat len + 7 < 2 ^ 32 \<Longrightarrow> packed_len32 len = (unat len + 7) div 8"
  by (simp add: packed_len32_def unat_word_ariths)

lemma encode_data_ok: "data_ok d \<Longrightarrow> encode_data d w = Some (Inr (w @ data_bytes d))"
  by (cases d) (simp_all add: wLenPrefix_ok fold_writers wU32Vec_ok Let_def packed_len bytes_at_def, simp_all add: wU32_def)

lemma decodes_map: "decodes d bs x \<Longrightarrow> y = f x \<Longrightarrow> decodes (rbind d (\<lambda>v. rret (f v))) bs y"
  using decodes_bind [of d bs x "\<lambda>v. rret (f v)" "[]" "f x"] by (simp add: decodes_ret)

lemma decodeColumnData_ok: "data_ok d \<Longrightarrow> decodes (decodeColumnData (col_tag d)) (data_bytes d) d"
proof (cases d)
  case (DenseBool bits len)
  assume ok: "data_ok d"
  have "unat (ucast len + 7 :: u64) = unat len + 7" using unat_u32 [of len] by (simp add: unat_word_ariths)
  then have n: "unat ((ucast len + 7 :: u64) div 8) = length bits" using ok DenseBool by (simp add: unat_div)
  have "decodes (rbind cur_u32 (\<lambda>bitLen. rbind (cur_take (int (unat ((ucast bitLen + 7 :: u64) div 8)))) (\<lambda>packed. rret (DenseBool packed bitLen))))
      (le_bytes 4 (unat len) @ bits) (DenseBool bits len)"
    by (rule decodes_bind, rule decodes_ints, rule decodes_map [OF decodes_take]) (simp_all add: n)
  then show ?thesis using DenseBool by (simp add: decodeColumnData_def)
qed (auto simp: decodeColumnData_def intro!: decodes_map decodes_i64Vec decodes_f64Vec decodes_u32Vec i64_entry.counted_ok [where xs = x for x, simplified]
    f64_entry.counted_ok [where xs = x for x, simplified] bool_entry.counted_ok [where xs = x for x, simplified] str_entry.counted_ok [where xs = x for x, simplified])

lemma no_panic_data [panic_free]: "no_panic (decodeColumnData tag)"
  unfolding decodeColumnData_def
  by (intro panic_free i64_entry.counted_returns f64_entry.counted_returns bool_entry.counted_returns str_entry.counted_returns)

definition column_bytes :: "rcpg_Column \<Rightarrow> u8 list" where
  "column_bytes c = le_bytes 4 (unat (rc_Key c)) @ [col_tag (rc_Data c)] @ data_bytes (rc_Data c)"

interpretation column: codec column_bytes read_column "\<lambda>c. data_ok (rc_Data c)" 5 "\<lambda>c. c"
proof
  fix c :: rcpg_Column assume ok: "data_ok (rc_Data c)"
  show "decodes read_column (column_bytes c) c" unfolding read_column_def column_bytes_def
    by (rule decodes_bind, rule decodes_ints)+ (rule decodes_map [OF decodeColumnData_ok [OF ok]], simp)
next
  show "no_panic read_column" unfolding read_column_def by (intro panic_free)
qed (simp_all add: column_bytes_def)

lemma encodeColumns_ok:
  assumes "\<forall>c \<in> set cs. data_ok (rc_Data c)" "length cs < 2 ^ 32"
  shows "encodeColumns cs = Some (Inr (len_bytes (length cs) @ concat (map column_bytes cs)))"
  unfolding encodeColumns_def wLenPrefix_ok [OF assms(2)] rthen_simps
  by (subst fold_res_append_bytes [where enc = column_bytes]) (use assms(1) in \<open>simp_all add: encode_data_ok column_bytes_def wU8_def wU32_def\<close>)

lemma decodeColumns_ok:
  assumes "\<forall>c \<in> set cs. data_ok (rc_Data c)" "length cs < 2 ^ 32"
  shows "decodeColumns (len_bytes (length cs) @ concat (map column_bytes cs)) = Some (Inr cs)"
  using decodesD [OF column.counted_ok [OF assms], of "[]" "[]"] by (simp add: decodeColumns_def newCursor_def)

lemma read_all_returns: "no_panic d \<Longrightarrow> settles (rthen (d (newCursor body)) (\<lambda>(x, _). Some (Inr x)))"
  by (rule rthen_settles) (auto simp: no_panic_def split: prod.split)

lemma decodeColumns_returns: "settles (decodeColumns body)"
  unfolding decodeColumns_def by (rule read_all_returns [OF column.counted_returns])

end
