(* ===== verification/RcpgSection.thy ===== *)
theory RcpgSection
  imports RcpgColumn Nodeset
begin

text \<open>
  The plain data model of a serialized graph and the codecs of its sections (\<open>rcpg/section.go\<close>): atoms, the optional atom block index,
  meta, nodes, relationships, existence. The serialization of a roaring bitmap belongs to the third-party package and is a
  parameter, with its documented round trip as the hypothesis \<open>io_laws\<close>. The capacity hints of \<open>preallocCap\<close> have no effect on
  results.
\<close>

section \<open>The bitmap serialization as a parameter\<close>

text \<open>\<^term>\<open>None\<close> is an error of \<open>WriteTo\<close> or \<open>ReadFrom\<close>.\<close>

record 'bm roaring_io =
  rb_WriteTo :: "'bm \<Rightarrow> u8 list option"
  rb_ReadFrom :: "u8 list \<Rightarrow> 'bm option"
  rb_GetSerializedSizeInBytes :: "'bm \<Rightarrow> u64"

definition io_laws :: "'bm roaring \<Rightarrow> 'bm roaring_io \<Rightarrow> bool" where
  "io_laws R IO \<longleftrightarrow> (\<forall>b. \<exists>bs b'. rb_WriteTo IO b = Some bs \<and> unat (rb_GetSerializedSizeInBytes IO b) = length bs
     \<and> rb_ReadFrom IO bs = Some b' \<and> rb_set R b' = rb_set R b)"

text \<open>The written form, and the bitmap that reading it gives.\<close>

definition bm_bytes :: "'bm roaring_io \<Rightarrow> 'bm \<Rightarrow> u8 list" where
  "bm_bytes IO b = (case rb_WriteTo IO b of Some bs \<Rightarrow> bs | None \<Rightarrow> [])"

definition bm_reload :: "'bm roaring_io \<Rightarrow> 'bm \<Rightarrow> 'bm" where
  "bm_reload IO b = (case rb_ReadFrom IO (bm_bytes IO b) of Some b' \<Rightarrow> b' | None \<Rightarrow> b)"

lemma io_facts:
  assumes "io_laws R IO"
  shows "rb_WriteTo IO b = Some (bm_bytes IO b)" "rb_ReadFrom IO (bm_bytes IO b) = Some (bm_reload IO b)"
    "unat (rb_GetSerializedSizeInBytes IO b) = length (bm_bytes IO b)" "rb_set R (bm_reload IO b) = rb_set R b"
proof -
  obtain bs b' where b: "rb_WriteTo IO b = Some bs" "unat (rb_GetSerializedSizeInBytes IO b) = length bs" "rb_ReadFrom IO bs = Some b'" "rb_set R b' = rb_set R b"
    using assms unfolding io_laws_def by blast
  have m: "bm_bytes IO b = bs" "bm_reload IO b = b'" using b(1,3) by (simp_all add: bm_bytes_def bm_reload_def)
  show "rb_WriteTo IO b = Some (bm_bytes IO b)" "rb_ReadFrom IO (bm_bytes IO b) = Some (bm_reload IO b)"
    "unat (rb_GetSerializedSizeInBytes IO b) = length (bm_bytes IO b)" "rb_set R (bm_reload IO b) = rb_set R b"
    unfolding m by (rule b)+
qed

section \<open>Data\<close>

record 'bm BitmapEntry =
  be_Atom :: u32
  be_Bitmap :: 'bm

record AtomBlockIndex =
  ai_BlockLen :: u32
  ai_Offsets :: "u64 list"

record 'bm GraphSection =
  gs_NNodes :: u32
  gs_NRels :: u64
  gs_OutOffsets :: "u32 list"
  gs_OutNbrs :: "u32 list"
  gs_OutTypes :: "u32 list"
  gs_InOffsets :: "u32 list"
  gs_InNbrs :: "u32 list"
  gs_InTypes :: "u32 list"
  gs_LabelIndex :: "'bm BitmapEntry list"
  gs_TypeIndex :: "'bm BitmapEntry list"
  gs_NodeColumns :: "rcpg_Column list"
  gs_RelColumns :: "rcpg_Column list"
  gs_Version :: "string option"
  gs_Atoms :: "string list"
  gs_Existence :: "'bm option"
  gs_AtomIndex :: "AtomBlockIndex option"

definition zero_GraphSection :: "'bm GraphSection" where
  "zero_GraphSection = \<lparr>gs_NNodes = 0, gs_NRels = 0, gs_OutOffsets = [], gs_OutNbrs = [], gs_OutTypes = [], gs_InOffsets = [], gs_InNbrs = [],
     gs_InTypes = [], gs_LabelIndex = [], gs_TypeIndex = [], gs_NodeColumns = [], gs_RelColumns = [], gs_Version = None, gs_Atoms = [],
     gs_Existence = None, gs_AtomIndex = None\<rparr>"

definition gs_CSRIDSpace :: "'bm GraphSection \<Rightarrow> u32" where
  "gs_CSRIDSpace g = (if length (gs_OutOffsets g) = 0 then 0 else of_nat (length (gs_OutOffsets g) - 1))"

text \<open>The guards make the two index expressions and the slice safe.\<close>

definition gs_neighbors :: "u32 list \<Rightarrow> u32 list \<Rightarrow> u32 \<Rightarrow> u32 list option" where
  "gs_neighbors offsets nbrs node =
     (let i = unat node in
      if i + 1 \<ge> length offsets then Some []
      else do {
        start \<leftarrow> slice_at offsets i;
        fin \<leftarrow> slice_at offsets (i + 1);
        (if unat start > unat fin \<or> unat fin > length nbrs then Some [] else Some (take (unat fin - unat start) (drop (unat start) nbrs)))
      })"

definition OutNeighbors :: "'bm GraphSection \<Rightarrow> u32 \<Rightarrow> u32 list option" where
  "OutNeighbors g node = gs_neighbors (gs_OutOffsets g) (gs_OutNbrs g) node"

definition InNeighbors :: "'bm GraphSection \<Rightarrow> u32 \<Rightarrow> u32 list option" where
  "InNeighbors g node = gs_neighbors (gs_InOffsets g) (gs_InNbrs g) node"

section \<open>Atoms\<close>

definition encodeAtoms :: "string list \<Rightarrow> u8 list res" where
  "encodeAtoms atoms = rthen (wLenPrefix [] (length atoms)) (fold_res (\<lambda>s w. wString w s) atoms)"

text \<open>The atoms are substrings of one backing string, which starts where the cursor stood after the count.\<close>

definition read_atom :: "nat \<Rightarrow> string \<Rightarrow> string rd" where
  "read_atom base blob = rbind (lenPrefix 1) (\<lambda>n. rbind (cur_take (int n)) (\<lambda>s c.
     if \<not> utf8_Valid s then rfail ErrCorrupt c
     else if cur_pos c < n + base \<or> length blob < cur_pos c - base then None
     else rret (take n (drop (cur_pos c - n - base) blob)) c))"

definition read_atoms :: "string list rd" where
  "read_atoms = rbind (lenPrefix 1) (\<lambda>count c.
     let base = cur_pos c in
     if length (cur_b c) < base then None else rtimes count (read_atom base (bytes_str (drop base (cur_b c)))) c)"

definition decodeAtoms :: "u8 list \<Rightarrow> string list res" where
  "decodeAtoms body = rthen (read_atoms (newCursor body)) (\<lambda>(atoms, _). Some (Inr atoms))"

section \<open>Atom index\<close>

text \<open>The running offset past the length prefix and the bytes of one atom.\<close>

definition atom_end :: "u64 \<Rightarrow> string \<Rightarrow> u64" where
  "atom_end running s = running + (4 + of_nat (length s))"

text \<open>One turn of the writer's loop: \<open>(i, running, buf)\<close>.\<close>

definition index_step :: "u32 \<Rightarrow> string \<Rightarrow> nat \<times> u64 \<times> buffer \<Rightarrow> nat \<times> u64 \<times> buffer" where
  "index_step blockLen s = (\<lambda>(i, running, w).
     (i + 1, atom_end running s, if i mod unat blockLen = 0 then wU64 w running else w))"

definition encodeAtomIndex :: "string list \<Rightarrow> u32 \<Rightarrow> u8 list res" where
  "encodeAtomIndex atoms blockLen =
     (let w = wU32 (wU32 [] blockLen) 0 in
      if blockLen = 0 then None
      else
        let count = (length atoms + unat blockLen - 1) div unat blockLen in
        case fold (index_step blockLen) atoms (0, 4, wU32 w (of_nat count)) of (_, _, w) \<Rightarrow> Some (Inr w))"

text \<open>The loop over the offsets; \<open>prev\<close> is \<^term>\<open>None\<close> until \<open>havePrev\<close>.\<close>

primrec read_offsets :: "nat \<Rightarrow> u64 option \<Rightarrow> u64 list rd" where
  "read_offsets 0 prev = rret []"
| "read_offsets (Suc n) prev = rbind cur_u64 (\<lambda>off.
     if (case prev of None \<Rightarrow> False | Some p \<Rightarrow> off \<le> p) then rfail ErrCorrupt
     else rbind (read_offsets n (Some off)) (\<lambda>offs. rret (off # offs)))"

definition read_atom_index :: "AtomBlockIndex rd" where
  "read_atom_index = rbind cur_u32 (\<lambda>blockLen. rbind cur_u32 (\<lambda>_. rbind (lenPrefix 8) (\<lambda>count.
     rbind (read_offsets count None) (\<lambda>offsets. rret \<lparr>ai_BlockLen = blockLen, ai_Offsets = offsets\<rparr>))))"

definition decodeAtomIndex :: "u8 list \<Rightarrow> AtomBlockIndex res" where
  "decodeAtomIndex body = rthen (read_atom_index (newCursor body)) (\<lambda>(idx, _). Some (Inr idx))"

text \<open>One turn of the check: \<open>(i, running, block)\<close>.\<close>

definition validate_step :: "AtomBlockIndex \<Rightarrow> string \<Rightarrow> nat \<times> u64 \<times> nat \<Rightarrow> (nat \<times> u64 \<times> nat) res" where
  "validate_step index s = (\<lambda>(i, running, block).
     if i mod unat (ai_BlockLen index) = 0 then
       (case slice_at (ai_Offsets index) block of
          None \<Rightarrow> None
        | Some off \<Rightarrow> if off \<noteq> running then Some (Inl ErrCorrupt) else Some (Inr (i + 1, atom_end running s, block + 1)))
     else Some (Inr (i + 1, atom_end running s, block)))"

definition validateAtomIndex :: "AtomBlockIndex \<Rightarrow> string list \<Rightarrow> unit res" where
  "validateAtomIndex index atoms =
     (if ai_BlockLen index = 0 then Some (Inl ErrCorrupt)
      else
        let expected = (length atoms + unat (ai_BlockLen index) - 1) div unat (ai_BlockLen index) in
        if length (ai_Offsets index) \<noteq> expected then Some (Inl ErrCorrupt)
        else rthen (fold_res (validate_step index) atoms (0, 4, 0)) (\<lambda>_. Some (Inr ())))"

section \<open>Meta\<close>

definition encodeMeta :: "'bm GraphSection \<Rightarrow> u8 list res" where
  "encodeMeta g = (case gs_Version g of Some v \<Rightarrow> wString (wU8 [] 1) v | None \<Rightarrow> Some (Inr (wU8 [] 0)))"

definition read_meta :: "'bm GraphSection \<Rightarrow> 'bm GraphSection rd" where
  "read_meta g = rbind cur_u8 (\<lambda>present. if present = 1 then rbind cur_str (\<lambda>v. rret (g\<lparr>gs_Version := Some v\<rparr>)) else rret g)"

definition decodeMeta :: "u8 list \<Rightarrow> 'bm GraphSection \<Rightarrow> 'bm GraphSection res" where
  "decodeMeta body g = rthen (read_meta g (newCursor body)) (\<lambda>(g, _). Some (Inr g))"

section \<open>Bitmap indexes\<close>

definition encode_entry :: "'bm roaring_io \<Rightarrow> 'bm BitmapEntry \<Rightarrow> buffer \<Rightarrow> buffer res" where
  "encode_entry IO e w =
     rthen (wLenPrefix (wU32 w (be_Atom e)) (unat (rb_GetSerializedSizeInBytes IO (be_Bitmap e))))
       (\<lambda>w. case rb_WriteTo IO (be_Bitmap e) of None \<Rightarrow> Some (Inl ErrWriteTo) | Some bs \<Rightarrow> Some (Inr (w @ bs)))"

definition encodeBitmapIndex :: "'bm roaring_io \<Rightarrow> buffer \<Rightarrow> 'bm BitmapEntry list \<Rightarrow> buffer res" where
  "encodeBitmapIndex IO buf index = rthen (wLenPrefix buf (length index)) (fold_res (encode_entry IO) index)"

definition read_entry :: "'bm roaring_io \<Rightarrow> 'bm BitmapEntry rd" where
  "read_entry IO = rbind cur_u32 (\<lambda>atom. rbind (lenPrefix 1) (\<lambda>n. rbind (cur_take (int n)) (\<lambda>raw.
     case rb_ReadFrom IO raw of None \<Rightarrow> rfail ErrCorrupt | Some bm \<Rightarrow> rret \<lparr>be_Atom = atom, be_Bitmap = bm\<rparr>)))"

definition decodeBitmapIndex :: "'bm roaring_io \<Rightarrow> 'bm BitmapEntry list rd" where
  "decodeBitmapIndex IO = rbind (lenPrefix 8) (\<lambda>count. rtimes count (read_entry IO))"

section \<open>Nodes, relationships, existence\<close>

definition encodeNodes :: "'bm roaring_io \<Rightarrow> 'bm GraphSection \<Rightarrow> u8 list res" where
  "encodeNodes IO g = encodeBitmapIndex IO (wU32 [] (gs_NNodes g)) (gs_LabelIndex g)"

definition read_nodes :: "'bm roaring_io \<Rightarrow> 'bm GraphSection \<Rightarrow> 'bm GraphSection rd" where
  "read_nodes IO g = rbind cur_u32 (\<lambda>n. rbind (decodeBitmapIndex IO) (\<lambda>index. rret (g\<lparr>gs_NNodes := n, gs_LabelIndex := index\<rparr>)))"

definition decodeNodes :: "'bm roaring_io \<Rightarrow> u8 list \<Rightarrow> 'bm GraphSection \<Rightarrow> 'bm GraphSection res" where
  "decodeNodes IO body g = rthen (read_nodes IO g (newCursor body)) (\<lambda>(g, _). Some (Inr g))"

definition encodeRels :: "'bm roaring_io \<Rightarrow> 'bm GraphSection \<Rightarrow> u8 list res" where
  "encodeRels IO g =
     rthen (fold_res (\<lambda>v w. wU32Vec w v)
         [gs_OutOffsets g, gs_OutNbrs g, gs_OutTypes g, gs_InOffsets g, gs_InNbrs g, gs_InTypes g] (wU64 [] (gs_NRels g)))
       (\<lambda>w. encodeBitmapIndex IO w (gs_TypeIndex g))"

definition read_rels :: "'bm roaring_io \<Rightarrow> 'bm GraphSection \<Rightarrow> 'bm GraphSection rd" where
  "read_rels IO g = rbind cur_u64 (\<lambda>n. rbind u32Vec (\<lambda>oo. rbind u32Vec (\<lambda>on. rbind u32Vec (\<lambda>ot.
     rbind u32Vec (\<lambda>io. rbind u32Vec (\<lambda>inb. rbind u32Vec (\<lambda>it. rbind (decodeBitmapIndex IO) (\<lambda>index.
       rret (g\<lparr>gs_NRels := n, gs_OutOffsets := oo, gs_OutNbrs := on, gs_OutTypes := ot, gs_InOffsets := io, gs_InNbrs := inb,
         gs_InTypes := it, gs_TypeIndex := index\<rparr>)))))))))"

definition decodeRels :: "'bm roaring_io \<Rightarrow> u8 list \<Rightarrow> 'bm GraphSection \<Rightarrow> 'bm GraphSection res" where
  "decodeRels IO body g = rthen (read_rels IO g (newCursor body)) (\<lambda>(g, _). Some (Inr g))"

definition encodeExistence :: "'bm roaring_io \<Rightarrow> 'bm \<Rightarrow> u8 list res" where
  "encodeExistence IO bm = (case rb_WriteTo IO bm of None \<Rightarrow> Some (Inl ErrWriteTo) | Some bs \<Rightarrow> Some (Inr bs))"

definition decodeExistence :: "'bm roaring_io \<Rightarrow> u8 list \<Rightarrow> 'bm res" where
  "decodeExistence IO body = (case rb_ReadFrom IO body of None \<Rightarrow> Some (Inl ErrCorrupt) | Some bm \<Rightarrow> Some (Inr bm))"

section \<open>Atoms read back\<close>

definition atom_bytes :: "string \<Rightarrow> u8 list" where
  "atom_bytes s = len_bytes (length s) @ str_bytes s"

definition atom_ok :: "string \<Rightarrow> bool" where
  "atom_ok s \<longleftrightarrow> length s < 2 ^ 32 \<and> utf8_Valid (str_bytes s)"

interpretation atom: codec atom_bytes cur_str atom_ok 1 "\<lambda>s. s"
  by unfold_locales (auto simp: atom_bytes_def atom_ok_def decodes_str panic_free)

text \<open>Slicing the backing string gives what decoding the bytes in place would.\<close>

lemma read_atom_str:
  assumes "cur_ok c" "base \<le> cur_pos c" "blob = bytes_str (drop base (cur_b c))"
  shows "read_atom base blob c = cur_str c"
proof (rule no_panicD [OF no_panic_lenPrefix [of 1] assms(1)])
  fix n c1 assume c1: "lenPrefix 1 c = Some (Inr (n, c1))" "cur_ok c1" "cur_b c1 = cur_b c" "cur_pos c \<le> cur_pos c1"
  show ?thesis
  proof (rule no_panicD [OF no_panic_take [of "int n"] c1(2)])
    fix s c2 assume c2: "cur_take (int n) c1 = Some (Inr (s, c2))" "cur_ok c2" "cur_b c2 = cur_b c1" "cur_pos c1 \<le> cur_pos c2"
    have s: "s = take n (drop (cur_pos c1) (cur_b c))" "cur_pos c2 = cur_pos c1 + n" "cur_pos c1 + n \<le> length (cur_b c)"
      using c2(1) c1(3) by (auto simp: cur_take_def bytes_at_def split: if_splits)
    have "take n (drop (cur_pos c2 - n - base) blob) = bytes_str s"
      using s(2) c1(4) assms(2) unfolding assms(3) s(1) by (simp add: bytes_str_def take_map drop_map)
    moreover have "\<not> (cur_pos c2 < n + base \<or> length blob < cur_pos c2 - base)" using s c1(4) assms(2,3) by auto
    ultimately show ?thesis by (simp add: read_atom_def cur_str_def rbind_def c1(1) c2(1) rret_def rfail_def del: One_nat_def)
  qed (simp add: read_atom_def cur_str_def rbind_def c1(1) del: One_nat_def)
qed (simp add: read_atom_def cur_str_def rbind_def del: One_nat_def)

lemma read_atom_times:
  assumes "cur_ok c" "base \<le> cur_pos c" "blob = bytes_str (drop base (cur_b c))"
  shows "rtimes n (read_atom base blob) c = rtimes n cur_str c"
  using assms
proof (induction n arbitrary: c)
  case (Suc n)
  show ?case
  proof (rule no_panicD [OF no_panic_str Suc.prems(1)])
    fix s c' assume c': "cur_str c = Some (Inr (s, c'))" "cur_ok c'" "cur_b c' = cur_b c" "cur_pos c \<le> cur_pos c'"
    have "rtimes n (read_atom base blob) c' = rtimes n cur_str c'" using c' Suc.prems by (intro Suc.IH) auto
    then show ?thesis by (simp add: rbind_def read_atom_str [OF Suc.prems] c'(1))
  qed (simp add: rbind_def read_atom_str [OF Suc.prems])
qed simp

lemma read_atoms_str: "cur_ok c \<Longrightarrow> read_atoms c = rbind (lenPrefix 1) (\<lambda>n. rtimes n cur_str) c"
proof -
  assume c: "cur_ok c"
  show ?thesis
  proof (rule no_panicD [OF no_panic_lenPrefix [of 1] c])
    fix n c1 assume c1: "lenPrefix 1 c = Some (Inr (n, c1))" "cur_ok c1"
    have "rtimes n (read_atom (cur_pos c1) (bytes_str (drop (cur_pos c1) (cur_b c1)))) c1 = rtimes n cur_str c1"
      by (rule read_atom_times [OF c1(2) order.refl refl])
    then show ?thesis using c1(2) by (simp add: read_atoms_def rbind_def c1(1) Let_def cur_ok_def del: One_nat_def)
  qed (simp add: read_atoms_def rbind_def del: One_nat_def)
qed

lemma decodeAtoms_str: "decodeAtoms body = rthen (rbind (lenPrefix 1) (\<lambda>n. rtimes n cur_str) (newCursor body)) (\<lambda>(atoms, _). Some (Inr atoms))"
  by (simp add: decodeAtoms_def read_atoms_str)

lemma decodeAtoms_returns: "settles (decodeAtoms body)"
  unfolding decodeAtoms_str by (rule read_all_returns [OF atom.counted_returns])

definition atoms_bytes :: "string list \<Rightarrow> u8 list" where
  "atoms_bytes atoms = len_bytes (length atoms) @ concat (map atom_bytes atoms)"

lemma encodeAtoms_ok:
  assumes "\<forall>s \<in> set atoms. length s < 2 ^ 32" "length atoms < 2 ^ 32"
  shows "encodeAtoms atoms = Some (Inr (atoms_bytes atoms))"
  unfolding encodeAtoms_def wLenPrefix_ok [OF assms(2)] rthen_simps
  by (subst fold_res_append_bytes [where enc = atom_bytes]) (use assms(1) in \<open>simp_all add: wString_ok atom_bytes_def atoms_bytes_def\<close>)

lemma decodeAtoms_ok:
  assumes "\<forall>s \<in> set atoms. atom_ok s" "length atoms < 2 ^ 32"
  shows "decodeAtoms (atoms_bytes atoms) = Some (Inr atoms)"
  using decodesD [OF atom.counted_ok [OF assms], of "[]" "[]"] by (simp add: decodeAtoms_str newCursor_def atoms_bytes_def)

section \<open>The atom index read back\<close>

fun block_starts :: "nat \<Rightarrow> nat \<Rightarrow> u64 \<Rightarrow> string list \<Rightarrow> u64 list" where
  "block_starts bl i r [] = []"
| "block_starts bl i r (s # ss) = (if i mod bl = 0 then [r] else []) @ block_starts bl (i + 1) (atom_end r s) ss"

lemma fold_index_step:
  "fold (index_step bl) ss (i, r, w) = (i + length ss, foldl atom_end r ss, w @ concat (map (\<lambda>x. le_bytes 8 (unat x)) (block_starts (unat bl) i r ss)))"
  by (induction ss arbitrary: i r w) (simp_all add: index_step_def wU64_def)

lemma length_block_starts:
  assumes "0 < bl"
  shows "length (block_starts bl i r ss) + (i + bl - 1) div bl = (i + length ss + bl - 1) div bl"
proof (induction ss arbitrary: i r)
  case (Cons s ss)
  have "(i + 1 + bl - 1) div bl = (i + bl - 1) div bl + (if i mod bl = 0 then 1 else 0)"
  proof -
    obtain q m where q: "i = q * bl + m" "m < bl" using div_mult_mod_eq [of i bl] mod_less_divisor [OF assms, of i] by metis
    have d: "(q * bl + x) div bl = q + x div bl" for x using assms by simp
    have s: "i + bl - 1 = q * bl + (m + bl - 1)" "i + 1 + bl - 1 = q * bl + (m + bl)" using q assms by auto
    have "(m + bl - 1) div bl = (if m = 0 then 0 else 1)" "(m + bl) div bl = 1" "i mod bl = m" using q assms by (auto simp: div_if)
    then show ?thesis unfolding s d by simp
  qed
  then show ?case using Cons [of "i + 1" "atom_end r s"] by (simp split: if_splits)
qed simp

lemma atom_end_val:
  assumes "unat r + 4 + length s < 2 ^ 64"
  shows "unat (atom_end r s) = unat r + 4 + length s"
proof -
  have "unat (of_nat (unat r + (4 + length s)) :: u64) = unat r + (4 + length s)" using assms by (intro unat_of_nat_less) simp
  then show ?thesis by (simp add: atom_end_def add.assoc)
qed

definition atoms_size :: "string list \<Rightarrow> nat" where
  "atoms_size ss = sum_list (map (\<lambda>s. 4 + length s) ss)"

lemma length_atoms_bytes: "length (concat (map atom_bytes ss)) = atoms_size ss" "length (atoms_bytes ss) = 4 + atoms_size ss"
  by (induction ss) (simp_all add: atom_bytes_def atoms_size_def atoms_bytes_def)

lemma block_starts_ge: "unat r + atoms_size ss < 2 ^ 64 \<Longrightarrow> x \<in> set (block_starts bl i r ss) \<Longrightarrow> r \<le> x"
proof (induction ss arbitrary: i r)
  case (Cons s ss)
  have v: "unat (atom_end r s) = unat r + 4 + length s" using Cons.prems(1) by (intro atom_end_val) (simp add: atoms_size_def)
  then have "r \<le> atom_end r s" by (simp add: word_le_nat_alt)
  moreover have "x \<in> set (block_starts bl (i + 1) (atom_end r s) ss) \<Longrightarrow> atom_end r s \<le> x"
    using Cons.prems(1) v by (intro Cons.IH) (simp_all add: atoms_size_def)
  ultimately show ?case using Cons.prems(2) by (auto split: if_splits)
qed simp

lemma block_starts_sorted: "unat r + atoms_size ss < 2 ^ 64 \<Longrightarrow> sorted_wrt (<) (block_starts bl i r ss)"
proof (induction ss arbitrary: i r)
  case (Cons s ss)
  have v: "unat (atom_end r s) = unat r + 4 + length s" using Cons.prems by (intro atom_end_val) (simp add: atoms_size_def)
  have b: "unat (atom_end r s) + atoms_size ss < 2 ^ 64" using Cons.prems v by (simp add: atoms_size_def)
  have "r < atom_end r s" using v by (simp add: word_less_nat_alt)
  then show ?case using Cons.IH [OF b] block_starts_ge [OF b] by (auto intro: less_le_trans)
qed simp

lemma decodes_offsets:
  assumes "sorted_wrt (<) xs" "\<And>p x. prev = Some p \<Longrightarrow> x \<in> set xs \<Longrightarrow> p < x"
  shows "decodes (read_offsets (length xs) prev) (concat (map (\<lambda>x. le_bytes 8 (unat x)) xs)) xs"
  using assms
proof (induction xs arbitrary: prev)
  case Nil
  then show ?case by (simp add: decodes_ret)
next
  case (Cons x xs)
  have "\<not> (case prev of None \<Rightarrow> False | Some p \<Rightarrow> x \<le> p)" using Cons.prems(2) by (auto split: option.splits simp: not_le)
  moreover have "decodes (read_offsets (length xs) (Some x)) (concat (map (\<lambda>x. le_bytes 8 (unat x)) xs)) xs" using Cons.prems by (intro Cons.IH) auto
  ultimately have "decodes (rbind cur_u64 (\<lambda>off. if (case prev of None \<Rightarrow> False | Some p \<Rightarrow> off \<le> p) then rfail ErrCorrupt
      else rbind (read_offsets (length xs) (Some off)) (\<lambda>offs. rret (off # offs)))) (le_bytes 8 (unat x) @ concat (map (\<lambda>x. le_bytes 8 (unat x)) xs)) (x # xs)"
    by (intro decodes_bind [OF decodes_ints(4)]) (simp add: decodes_map)
  then show ?case by simp
qed

lemma no_panic_offsets [panic_free]: "no_panic (read_offsets n prev)"
  by (induction n arbitrary: prev) (auto intro!: panic_free)

definition index_of_atoms :: "u32 \<Rightarrow> string list \<Rightarrow> AtomBlockIndex" where
  "index_of_atoms bl atoms = \<lparr>ai_BlockLen = bl, ai_Offsets = block_starts (unat bl) 0 4 atoms\<rparr>"

definition index_bytes :: "AtomBlockIndex \<Rightarrow> u8 list" where
  "index_bytes idx = le_bytes 4 (unat (ai_BlockLen idx)) @ le_bytes 4 0 @ len_bytes (length (ai_Offsets idx)) @ concat (map (\<lambda>x. le_bytes 8 (unat x)) (ai_Offsets idx))"

lemma index_blocks:
  assumes "bl \<noteq> 0"
  shows "length (ai_Offsets (index_of_atoms bl atoms)) = (length atoms + unat bl - 1) div unat bl" "length (ai_Offsets (index_of_atoms bl atoms)) \<le> length atoms"
proof -
  have b: "0 < unat bl" using assms by (simp add: unat_gt_0)
  then have "(0 + unat bl - 1) div unat bl = 0" by simp
  then show "length (ai_Offsets (index_of_atoms bl atoms)) = (length atoms + unat bl - 1) div unat bl"
    using length_block_starts [OF b, of 0 4 atoms] by (simp add: index_of_atoms_def)
  have "length (block_starts n i r ss) \<le> length ss" for n i r ss by (induction ss arbitrary: i r) (auto simp: le_SucI)
  then show "length (ai_Offsets (index_of_atoms bl atoms)) \<le> length atoms" by (simp add: index_of_atoms_def)
qed

lemma encodeAtomIndex_ok:
  assumes "bl \<noteq> 0" "length atoms < 2 ^ 32"
  shows "encodeAtomIndex atoms bl = Some (Inr (index_bytes (index_of_atoms bl atoms)))"
  using assms index_blocks(1) [OF assms(1), of atoms]
  by (simp add: encodeAtomIndex_def Let_def fold_index_step index_bytes_def wU32_def len_bytes_def index_of_atoms_def)

lemma decodeAtomIndex_ok:
  assumes bl: "bl \<noteq> 0" and n: "length atoms < 2 ^ 32" "4 + atoms_size atoms < 2 ^ 64"
  shows "decodeAtomIndex (index_bytes (index_of_atoms bl atoms)) = Some (Inr (index_of_atoms bl atoms))"
proof -
  let ?xs = "block_starts (unat bl) 0 4 atoms"
  have l: "length ?xs < 2 ^ 32" using index_blocks(2) [OF bl, of atoms] n(1) by (simp add: index_of_atoms_def)
  have "decodes read_atom_index (index_bytes (index_of_atoms bl atoms)) (index_of_atoms bl atoms)"
    unfolding read_atom_index_def index_bytes_def index_of_atoms_def AtomBlockIndex.simps
    by (rule decodes_bind, rule decodes_ints(3), rule decodes_bind, rule decodes_ints(3) [of 0, simplified])
      (use l n(2) in \<open>auto intro!: decodes_lenPrefix decodes_map decodes_offsets block_starts_sorted simp: length_concat_same [of _ _ 8]\<close>)
  then show ?thesis using decodesD [of read_atom_index _ _ "[]" "[]"] by (simp add: decodeAtomIndex_def newCursor_def)
qed

lemma decodeAtomIndex_returns: "settles (decodeAtomIndex body)"
  unfolding decodeAtomIndex_def read_atom_index_def by (intro read_all_returns panic_free)

lemma validate_steps:
  assumes "drop block (ai_Offsets idx) = block_starts (unat (ai_BlockLen idx)) i r ss"
  shows "\<exists>s. fold_res (validate_step idx) ss (i, r, block) = Some (Inr s)"
  using assms
proof (induction ss arbitrary: i r block)
  case (Cons s ss)
  show ?case
  proof (cases "i mod unat (ai_BlockLen idx) = 0")
    case True
    then have d: "drop block (ai_Offsets idx) = r # block_starts (unat (ai_BlockLen idx)) (i + 1) (atom_end r s) ss" using Cons.prems by simp
    then have b: "block < length (ai_Offsets idx)" by (metis drop_eq_Nil2 list.distinct(1) not_le)
    have "ai_Offsets idx ! block = r" using d nth_drop [of block "ai_Offsets idx" 0] b by simp
    moreover have "drop (block + 1) (ai_Offsets idx) = block_starts (unat (ai_BlockLen idx)) (i + 1) (atom_end r s) ss"
      using d Cons_nth_drop_Suc [OF b] by simp
    moreover have "validate_step idx s (i, r, block) = Some (Inr (i + 1, atom_end r s, block + 1))" if "ai_Offsets idx ! block = r"
      using True b that by (simp add: validate_step_def)
    ultimately show ?thesis using Cons.IH [of "block + 1"] by simp
  next
    case False
    then have "validate_step idx s (i, r, block) = Some (Inr (i + 1, atom_end r s, block))" by (simp add: validate_step_def)
    then show ?thesis using Cons False by simp
  qed
qed simp

lemma validateAtomIndex_ok: "bl \<noteq> 0 \<Longrightarrow> validateAtomIndex (index_of_atoms bl atoms) atoms = Some (Inr ())"
  using validate_steps [of 0 "index_of_atoms bl atoms" 0 4 atoms] index_blocks(1) [of bl atoms]
  by (auto simp: validateAtomIndex_def index_of_atoms_def)

text \<open>The check stays inside the offsets, whatever the file holds.\<close>

lemma validate_steps_return:
  assumes bl: "0 < unat (ai_BlockLen idx)" and n: "block = (i + unat (ai_BlockLen idx) - 1) div unat (ai_BlockLen idx)"
    and l: "length (ai_Offsets idx) = (i + length ss + unat (ai_BlockLen idx) - 1) div unat (ai_BlockLen idx)"
  shows "settles (fold_res (validate_step idx) ss (i, r, block))"
  using n l
proof (induction ss arbitrary: i r block)
  case (Cons s ss)
  let ?b = "unat (ai_BlockLen idx)"
  have k: "(i + 1 + ?b - 1) div ?b = block + (if i mod ?b = 0 then 1 else 0)"
    using length_block_starts [OF bl, of i r "[s]"] Cons.prems(1) by (simp split: if_splits)
  have m: "(i + 1 + ?b - 1) div ?b \<le> (i + length (s # ss) + ?b - 1) div ?b" by (rule div_le_mono) simp
  have IH: "settles (fold_res (validate_step idx) ss (i + 1, r', block + (if i mod ?b = 0 then 1 else 0)))" for r'
    using Cons.prems(2) k by (intro Cons.IH) simp_all
  show ?case
  proof (cases "i mod ?b = 0")
    case True
    then have "block < length (ai_Offsets idx)" using k m Cons.prems(2) by simp
    then have "validate_step idx s (i, r, block) = (if ai_Offsets idx ! block \<noteq> r then Some (Inl ErrCorrupt) else Some (Inr (i + 1, atom_end r s, block + 1)))"
      using True by (simp add: validate_step_def)
    then show ?thesis using True IH by simp
  next
    case False
    then have "validate_step idx s (i, r, block) = Some (Inr (i + 1, atom_end r s, block))" by (simp add: validate_step_def)
    then show ?thesis using IH False by simp
  qed
qed simp

lemma validateAtomIndex_returns: "settles (validateAtomIndex idx atoms)"
proof (cases "ai_BlockLen idx = 0")
  case False
  then have b: "0 < unat (ai_BlockLen idx)" by (simp add: unat_gt_0)
  then have "settles (fold_res (validate_step idx) atoms (0, 4, 0))" if "length (ai_Offsets idx) = (length atoms + unat (ai_BlockLen idx) - 1) div unat (ai_BlockLen idx)"
    using that by (intro validate_steps_return) simp_all
  then show ?thesis unfolding validateAtomIndex_def Let_def by (auto intro!: rthen_settles)
qed (simp add: validateAtomIndex_def)

section \<open>Bitmap indexes read back\<close>

definition entry_bytes :: "'bm roaring_io \<Rightarrow> 'bm BitmapEntry \<Rightarrow> u8 list" where
  "entry_bytes IO e = le_bytes 4 (unat (be_Atom e)) @ len_bytes (length (bm_bytes IO (be_Bitmap e))) @ bm_bytes IO (be_Bitmap e)"

definition entry_ok :: "'bm roaring_io \<Rightarrow> 'bm BitmapEntry \<Rightarrow> bool" where
  "entry_ok IO e \<longleftrightarrow> rb_WriteTo IO (be_Bitmap e) = Some (bm_bytes IO (be_Bitmap e)) \<and> length (bm_bytes IO (be_Bitmap e)) < 2 ^ 32
     \<and> unat (rb_GetSerializedSizeInBytes IO (be_Bitmap e)) = length (bm_bytes IO (be_Bitmap e))
     \<and> rb_ReadFrom IO (bm_bytes IO (be_Bitmap e)) = Some (bm_reload IO (be_Bitmap e))"

definition entry_reload :: "'bm roaring_io \<Rightarrow> 'bm BitmapEntry \<Rightarrow> 'bm BitmapEntry" where
  "entry_reload IO e = e\<lparr>be_Bitmap := bm_reload IO (be_Bitmap e)\<rparr>"

lemma no_panic_option [panic_free]: "(\<And>x. v = Some x \<Longrightarrow> no_panic (f x)) \<Longrightarrow> no_panic d \<Longrightarrow> no_panic (case v of None \<Rightarrow> d | Some x \<Rightarrow> f x)"
  by (cases v) simp_all

interpretation entry: codec "entry_bytes IO" "read_entry IO" "entry_ok IO" 8 "entry_reload IO" for IO
proof
  fix e assume ok: "entry_ok IO e"
  have "decodes (rbind (cur_take (int (length (bm_bytes IO (be_Bitmap e)))))
      (\<lambda>raw. case rb_ReadFrom IO raw of None \<Rightarrow> rfail ErrCorrupt | Some bm \<Rightarrow> rret \<lparr>be_Atom = be_Atom e, be_Bitmap = bm\<rparr>))
      (bm_bytes IO (be_Bitmap e)) (entry_reload IO e)"
    by (rule decodes_take_bind) (use ok in \<open>simp_all add: entry_ok_def decodes_ret entry_reload_def\<close>)
  then show "decodes (read_entry IO) (entry_bytes IO e) (entry_reload IO e)"
    unfolding read_entry_def entry_bytes_def using ok
    by (intro decodes_bind [OF decodes_ints(3)] decodes_lenPrefix) (simp_all add: entry_ok_def)
  show "8 \<le> length (entry_bytes IO e)" by (simp add: entry_bytes_def)
next
  show "no_panic (read_entry IO)" unfolding read_entry_def by (intro panic_free)
qed simp

definition bitmap_index_bytes :: "'bm roaring_io \<Rightarrow> 'bm BitmapEntry list \<Rightarrow> u8 list" where
  "bitmap_index_bytes IO es = len_bytes (length es) @ concat (map (entry_bytes IO) es)"

definition bitmap_index_ok :: "'bm roaring_io \<Rightarrow> 'bm BitmapEntry list \<Rightarrow> bool" where
  "bitmap_index_ok IO es \<longleftrightarrow> (\<forall>e \<in> set es. entry_ok IO e) \<and> length es < 2 ^ 32"

lemma encodeBitmapIndex_ok: "bitmap_index_ok IO es \<Longrightarrow> encodeBitmapIndex IO w es = Some (Inr (w @ bitmap_index_bytes IO es))"
  unfolding encodeBitmapIndex_def bitmap_index_ok_def
  by (simp add: wLenPrefix_ok)
    (subst fold_res_append_bytes [where enc = "entry_bytes IO"], auto simp: encode_entry_def entry_ok_def wLenPrefix_ok wU32_def entry_bytes_def bitmap_index_bytes_def)

lemma decodeBitmapIndex_ok: "bitmap_index_ok IO es \<Longrightarrow> decodes (decodeBitmapIndex IO) (bitmap_index_bytes IO es) (map (entry_reload IO) es)"
  unfolding decodeBitmapIndex_def bitmap_index_bytes_def bitmap_index_ok_def by (rule entry.counted_ok) auto

lemma no_panic_bitmap_index [panic_free]: "no_panic (decodeBitmapIndex IO)"
  unfolding decodeBitmapIndex_def by (rule entry.counted_returns)

section \<open>The other sections read back\<close>

lemma read_whole: "decodes d bs x \<Longrightarrow> rthen (d (newCursor bs)) (\<lambda>(x, _). Some (Inr x)) = Some (Inr x)"
  using decodesD [of d bs x "[]" "[]"] by (simp add: newCursor_def)

definition meta_bytes :: "string option \<Rightarrow> u8 list" where
  "meta_bytes v = (case v of Some v \<Rightarrow> [1] @ atom_bytes v | None \<Rightarrow> [0])"

lemma encodeMeta_ok: "(\<And>v. gs_Version g = Some v \<Longrightarrow> length v < 2 ^ 32) \<Longrightarrow> encodeMeta g = Some (Inr (meta_bytes (gs_Version g)))"
  by (auto simp: encodeMeta_def meta_bytes_def wU8_def wString_ok atom_bytes_def split: option.split)

lemma decodeMeta_ok:
  assumes "\<And>v. ver = Some v \<Longrightarrow> atom_ok v" "gs_Version g = None"
  shows "decodeMeta (meta_bytes ver) g = Some (Inr (g\<lparr>gs_Version := ver\<rparr>))"
proof (cases ver)
  case None
  have "decodes (read_meta g) ([0] @ []) g" unfolding read_meta_def by (rule decodes_bind, rule decodes_ints(1)) (simp add: decodes_ret)
  moreover have "g\<lparr>gs_Version := None\<rparr> = g" using assms(2) by simp
  ultimately show ?thesis using read_whole [of "read_meta g"] None by (simp add: decodeMeta_def meta_bytes_def)
next
  case (Some v)
  have "decodes cur_str (atom_bytes v) v" using atom.dec_enc [OF assms(1) [OF Some]] .
  then have "decodes (read_meta g) ([1] @ atom_bytes v) (g\<lparr>gs_Version := Some v\<rparr>)"
    unfolding read_meta_def by (intro decodes_bind [OF decodes_ints(1)]) (simp add: decodes_map)
  then show ?thesis using read_whole [of "read_meta g"] Some by (simp add: decodeMeta_def meta_bytes_def)
qed

definition nodes_bytes :: "'bm roaring_io \<Rightarrow> 'bm GraphSection \<Rightarrow> u8 list" where
  "nodes_bytes IO g = le_bytes 4 (unat (gs_NNodes g)) @ bitmap_index_bytes IO (gs_LabelIndex g)"

lemma encodeNodes_ok: "bitmap_index_ok IO (gs_LabelIndex g) \<Longrightarrow> encodeNodes IO g = Some (Inr (nodes_bytes IO g))"
  by (simp add: encodeNodes_def encodeBitmapIndex_ok nodes_bytes_def wU32_def)

lemma decodeNodes_ok:
  assumes "bitmap_index_ok IO (gs_LabelIndex g)"
  shows "decodeNodes IO (nodes_bytes IO g) h = Some (Inr (h\<lparr>gs_NNodes := gs_NNodes g, gs_LabelIndex := map (entry_reload IO) (gs_LabelIndex g)\<rparr>))"
  unfolding decodeNodes_def read_nodes_def nodes_bytes_def
  by (rule read_whole) (rule decodes_bind, rule decodes_ints(3), rule decodes_map, rule decodeBitmapIndex_ok [OF assms], rule refl)

definition vec_bytes :: "u32 list \<Rightarrow> u8 list" where
  "vec_bytes v = len_bytes (length v) @ concat (map (\<lambda>x. le_bytes 4 (unat x)) v)"

definition rels_bytes :: "'bm roaring_io \<Rightarrow> 'bm GraphSection \<Rightarrow> u8 list" where
  "rels_bytes IO g = le_bytes 8 (unat (gs_NRels g)) @ vec_bytes (gs_OutOffsets g) @ vec_bytes (gs_OutNbrs g) @ vec_bytes (gs_OutTypes g)
     @ vec_bytes (gs_InOffsets g) @ vec_bytes (gs_InNbrs g) @ vec_bytes (gs_InTypes g) @ bitmap_index_bytes IO (gs_TypeIndex g)"

definition rels_ok_section :: "'bm roaring_io \<Rightarrow> 'bm GraphSection \<Rightarrow> bool" where
  "rels_ok_section IO g \<longleftrightarrow> length (gs_OutOffsets g) < 2 ^ 32 \<and> length (gs_OutNbrs g) < 2 ^ 32 \<and> length (gs_OutTypes g) < 2 ^ 32
     \<and> length (gs_InOffsets g) < 2 ^ 32 \<and> length (gs_InNbrs g) < 2 ^ 32 \<and> length (gs_InTypes g) < 2 ^ 32 \<and> bitmap_index_ok IO (gs_TypeIndex g)"

lemma encodeRels_ok: "rels_ok_section IO g \<Longrightarrow> encodeRels IO g = Some (Inr (rels_bytes IO g))"
  by (simp add: encodeRels_def rels_ok_section_def wU32Vec_ok encodeBitmapIndex_ok rels_bytes_def vec_bytes_def wU64_def)

lemma decodeRels_ok:
  assumes "rels_ok_section IO g"
  shows "decodeRels IO (rels_bytes IO g) h = Some (Inr (h\<lparr>gs_NRels := gs_NRels g, gs_OutOffsets := gs_OutOffsets g, gs_OutNbrs := gs_OutNbrs g,
    gs_OutTypes := gs_OutTypes g, gs_InOffsets := gs_InOffsets g, gs_InNbrs := gs_InNbrs g, gs_InTypes := gs_InTypes g,
    gs_TypeIndex := map (entry_reload IO) (gs_TypeIndex g)\<rparr>))"
proof -
  have v: "decodes u32Vec (vec_bytes (gs_OutOffsets g)) (gs_OutOffsets g)" "decodes u32Vec (vec_bytes (gs_OutNbrs g)) (gs_OutNbrs g)"
    "decodes u32Vec (vec_bytes (gs_OutTypes g)) (gs_OutTypes g)" "decodes u32Vec (vec_bytes (gs_InOffsets g)) (gs_InOffsets g)"
    "decodes u32Vec (vec_bytes (gs_InNbrs g)) (gs_InNbrs g)" "decodes u32Vec (vec_bytes (gs_InTypes g)) (gs_InTypes g)"
    and b: "bitmap_index_ok IO (gs_TypeIndex g)"
    using assms by (simp_all add: rels_ok_section_def vec_bytes_def decodes_u32Vec)
  show ?thesis unfolding decodeRels_def read_rels_def rels_bytes_def
    by (rule read_whole) (rule decodes_bind, rule decodes_ints(4), (rule decodes_bind, rule v)+, rule decodes_map, rule decodeBitmapIndex_ok [OF b], rule refl)
qed

lemma sections_return: "settles (decodeMeta body g)" "settles (decodeNodes IO body h)" "settles (decodeRels IO body h)" "settles (decodeExistence IO body)"
  unfolding decodeMeta_def decodeNodes_def decodeRels_def decodeExistence_def read_meta_def read_nodes_def read_rels_def
  by (intro read_all_returns panic_free)+ (simp split: option.split)

end
