(* ===== verification/RcpgFile.thy ===== *)
theory RcpgFile
  imports RcpgSection
begin

text \<open>
  The graph file (\<open>rcpg/rcpg.go\<close>) and its range-fetched form (\<open>rcpg/lazy.go\<close>): header, section directory, sections. The destination of
  a write is the bytes it receives; errors of the operating system are not modelled.
\<close>

section \<open>Layout\<close>

definition Magic :: "u8 list" where
  "Magic = str_bytes ''RCPG''"

definition Version :: u16 where
  "Version = 1"

definition headerLen :: nat where
  "headerLen = 16"

definition dirEntryLen :: nat where
  "dirEntryLen = 24"

definition atomIndexBlockLen :: u32 where
  "atomIndexBlockLen = 1024"

abbreviation "sectionAtoms \<equiv> 1 :: u32"
abbreviation "sectionMeta \<equiv> 2 :: u32"
abbreviation "sectionNodes \<equiv> 3 :: u32"
abbreviation "sectionRels \<equiv> 4 :: u32"
abbreviation "sectionNodeCols \<equiv> 5 :: u32"
abbreviation "sectionRelCols \<equiv> 6 :: u32"
abbreviation "sectionAtomIndex \<equiv> 7 :: u32"
abbreviation "sectionExistence \<equiv> 8 :: u32"

record WriteOptions =
  wo_NodeColumns :: bool
  wo_RelColumns :: bool
  wo_AtomIndex :: bool
  wo_Existence :: bool

definition DefaultWriteOptions :: WriteOptions where
  "DefaultWriteOptions = \<lparr>wo_NodeColumns = True, wo_RelColumns = True, wo_AtomIndex = False, wo_Existence = False\<rparr>"

definition TopologyOnlyWriteOptions :: WriteOptions where
  "TopologyOnlyWriteOptions = \<lparr>wo_NodeColumns = False, wo_RelColumns = False, wo_AtomIndex = False, wo_Existence = False\<rparr>"

record ParseOptions =
  po_NodeColumns :: bool
  po_RelColumns :: bool
  po_SkipAtoms :: bool

definition DefaultParseOptions :: ParseOptions where
  "DefaultParseOptions = \<lparr>po_NodeColumns = True, po_RelColumns = True, po_SkipAtoms = False\<rparr>"

definition TopologyOnlyParseOptions :: ParseOptions where
  "TopologyOnlyParseOptions = \<lparr>po_NodeColumns = False, po_RelColumns = False, po_SkipAtoms = False\<rparr>"

definition SkeletonParseOptions :: ParseOptions where
  "SkeletonParseOptions = \<lparr>po_NodeColumns = False, po_RelColumns = False, po_SkipAtoms = True\<rparr>"

section \<open>Writing\<close>

text \<open>The table of encoders: identifier, encoder, enabled. A nil bitmap is never encoded.\<close>

definition encoders :: "'bm roaring_io \<Rightarrow> 'bm GraphSection \<Rightarrow> WriteOptions \<Rightarrow> (u32 \<times> u8 list res \<times> bool) list" where
  "encoders IO g opts =
     [(sectionAtoms, encodeAtoms (gs_Atoms g), True),
      (sectionMeta, encodeMeta g, True),
      (sectionNodes, encodeNodes IO g, True),
      (sectionRels, encodeRels IO g, True),
      (sectionNodeCols, encodeColumns (gs_NodeColumns g), wo_NodeColumns opts),
      (sectionRelCols, encodeColumns (gs_RelColumns g), wo_RelColumns opts),
      (sectionAtomIndex, encodeAtomIndex (gs_Atoms g) atomIndexBlockLen, wo_AtomIndex opts),
      (sectionExistence, (case gs_Existence g of None \<Rightarrow> None | Some bm \<Rightarrow> encodeExistence IO bm), wo_Existence opts \<and> gs_Existence g \<noteq> None)]"

definition add_section :: "u32 \<times> u8 list res \<times> bool \<Rightarrow> (u32 \<times> u8 list) list \<Rightarrow> (u32 \<times> u8 list) list res" where
  "add_section = (\<lambda>(i, f, enabled) sections.
     if \<not> enabled then Some (Inr sections) else rthen f (\<lambda>body. Some (Inr (sections @ [(i, body)]))))"

text \<open>One directory entry; the state is the offset of the next body and the header bytes.\<close>

definition dir_step :: "u32 \<times> u8 list \<Rightarrow> u64 \<times> buffer \<Rightarrow> u64 \<times> buffer" where
  "dir_step = (\<lambda>(i, body) (offset, w).
     (offset + of_nat (length body), wU64 (wU64 (wU32 (wU32 w i) 0) offset) (of_nat (length body))))"

definition file_bytes :: "(u32 \<times> u8 list) list \<Rightarrow> u8 list" where
  "file_bytes sections =
     (let w = wU32 (wU32 (wU16 (wU16 Magic Version) 0) (of_nat (length sections))) 0;
          offset = of_nat (headerLen + length sections * dirEntryLen) in
      case fold dir_step sections (offset, w) of (_, w) \<Rightarrow> w @ concat (map snd sections))"

definition WriteWith :: "'bm roaring_io \<Rightarrow> 'bm GraphSection \<Rightarrow> WriteOptions \<Rightarrow> u8 list res" where
  "WriteWith IO g opts = rthen (fold_res add_section (encoders IO g opts) []) (\<lambda>sections. Some (Inr (file_bytes sections)))"

definition Write :: "'bm roaring_io \<Rightarrow> 'bm GraphSection \<Rightarrow> u8 list res" where
  "Write IO g = WriteWith IO g DefaultWriteOptions"

section \<open>The directory\<close>

record DirEntry =
  de_ID :: u32
  de_Offset :: u64
  de_Length :: u64

definition FrontMatterLen :: "u32 \<Rightarrow> u64" where
  "FrontMatterLen sectionCount = of_nat headerLen + ucast sectionCount * of_nat dirEntryLen"

definition read_header :: "u32 rd" where
  "read_header = rbind (cur_take 4) (\<lambda>magic.
     if magic \<noteq> Magic then rfail ErrCorrupt
     else rbind cur_u16 (\<lambda>version.
       if version \<noteq> Version then rfail ErrUnsupportedVersion
       else rbind cur_u16 (\<lambda>_. rbind cur_u32 (\<lambda>count. if count > 1024 then rfail ErrCorrupt else rret count))))"

definition SectionCount :: "u8 list \<Rightarrow> u32 res" where
  "SectionCount header = rthen (read_header (newCursor header)) (\<lambda>(count, _). Some (Inr count))"

definition read_dir_entry :: "DirEntry rd" where
  "read_dir_entry = rbind cur_u32 (\<lambda>i. rbind cur_u32 (\<lambda>_. rbind cur_u64 (\<lambda>offset. rbind cur_u64 (\<lambda>len.
     rret \<lparr>de_ID = i, de_Offset = offset, de_Length = len\<rparr>))))"

definition ParseDirectory :: "u8 list \<Rightarrow> DirEntry list res" where
  "ParseDirectory front = rthen (SectionCount front) (\<lambda>count.
     rthen (rbind (cur_take (int headerLen)) (\<lambda>_. rtimes (unat count) read_dir_entry) (newCursor front)) (\<lambda>(entries, _). Some (Inr entries)))"

section \<open>Parsing\<close>

definition decodeSection :: "'bm roaring_io \<Rightarrow> u32 \<Rightarrow> u8 list \<Rightarrow> ParseOptions \<Rightarrow> 'bm GraphSection \<Rightarrow> 'bm GraphSection res" where
  "decodeSection IO i body opts g =
     (if i = sectionAtoms \<and> \<not> po_SkipAtoms opts then rthen (decodeAtoms body) (\<lambda>a. Some (Inr (g\<lparr>gs_Atoms := a\<rparr>)))
      else if i = sectionMeta then decodeMeta body g
      else if i = sectionNodes then decodeNodes IO body g
      else if i = sectionRels then decodeRels IO body g
      else if i = sectionNodeCols \<and> po_NodeColumns opts then rthen (decodeColumns body) (\<lambda>c. Some (Inr (g\<lparr>gs_NodeColumns := c\<rparr>)))
      else if i = sectionRelCols \<and> po_RelColumns opts then rthen (decodeColumns body) (\<lambda>c. Some (Inr (g\<lparr>gs_RelColumns := c\<rparr>)))
      else if i = sectionAtomIndex then rthen (decodeAtomIndex body) (\<lambda>x. Some (Inr (g\<lparr>gs_AtomIndex := Some x\<rparr>)))
      else if i = sectionExistence then rthen (decodeExistence IO body) (\<lambda>bm. Some (Inr (g\<lparr>gs_Existence := Some bm\<rparr>)))
      else Some (Inr g))"

definition parse_entry :: "'bm roaring_io \<Rightarrow> u8 list \<Rightarrow> ParseOptions \<Rightarrow> DirEntry \<Rightarrow> 'bm GraphSection \<Rightarrow> 'bm GraphSection res" where
  "parse_entry IO b opts e g =
     (let fin = de_Offset e + de_Length e in
      if fin < de_Offset e then Some (Inl ErrCorrupt)
      else if unat fin > length b then Some (Inl ErrCorrupt)
      else case bytes_at b (unat (de_Offset e)) (unat fin - unat (de_Offset e)) of
        None \<Rightarrow> None
      | Some body \<Rightarrow> decodeSection IO (de_ID e) body opts g)"

definition ParseWith :: "'bm roaring_io \<Rightarrow> u8 list \<Rightarrow> ParseOptions \<Rightarrow> 'bm GraphSection res" where
  "ParseWith IO b opts = rthen (ParseDirectory b) (\<lambda>dir. rthen (fold_res (parse_entry IO b opts) dir zero_GraphSection) (\<lambda>g.
     case gs_AtomIndex g of
       None \<Rightarrow> Some (Inr g)
     | Some idx \<Rightarrow> if po_SkipAtoms opts then Some (Inr g) else rthen (validateAtomIndex idx (gs_Atoms g)) (\<lambda>_. Some (Inr g))))"

definition Parse :: "'bm roaring_io \<Rightarrow> u8 list \<Rightarrow> 'bm GraphSection res" where
  "Parse IO b = ParseWith IO b DefaultParseOptions"

section \<open>Lazy loading\<close>

text \<open>A byte-range provider: the interface \<open>SectionFetch\<close>.\<close>

type_synonym fetch = "u64 \<Rightarrow> u64 \<Rightarrow> u8 list res"

definition MemoryFetch :: "u8 list \<Rightarrow> fetch" where
  "MemoryFetch m offset len =
     (let fin = offset + len in
      if fin < offset \<or> unat fin > length m then Some (Inl ErrCorrupt)
      else map_option Inr (bytes_at m (unat offset) (unat fin - unat offset)))"

definition sectionWanted :: "u32 \<Rightarrow> ParseOptions \<Rightarrow> bool" where
  "sectionWanted i opts =
     (if i = sectionAtoms then \<not> po_SkipAtoms opts
      else if i = sectionMeta \<or> i = sectionNodes \<or> i = sectionRels \<or> i = sectionAtomIndex then True
      else if i = sectionNodeCols then po_NodeColumns opts
      else if i = sectionRelCols then po_RelColumns opts
      else False)"

record ByteRange =
  br_Start :: u64
  br_End :: u64

definition PlanSections :: "DirEntry list \<Rightarrow> ParseOptions \<Rightarrow> ByteRange list" where
  "PlanSections entries opts =
     map (\<lambda>e. \<lparr>br_Start = de_Offset e, br_End = de_Offset e + de_Length e\<rparr>) (filter (\<lambda>e. sectionWanted (de_ID e) opts) entries)"

definition LoadPrefixLen :: "DirEntry list \<Rightarrow> ParseOptions \<Rightarrow> u64" where
  "LoadPrefixLen entries opts =
     (let (mx, found) = fold (\<lambda>e (mx, found). if \<not> sectionWanted (de_ID e) opts then (mx, found)
          else let fin = de_Offset e + de_Length e in (if fin > mx then fin else mx, True)) entries (0, False) in
      if \<not> found then FrontMatterLen (of_nat (length entries)) else mx)"

definition lazy_entry :: "'bm roaring_io \<Rightarrow> fetch \<Rightarrow> ParseOptions \<Rightarrow> DirEntry \<Rightarrow> 'bm GraphSection \<Rightarrow> 'bm GraphSection res" where
  "lazy_entry IO f opts e g =
     (if \<not> sectionWanted (de_ID e) opts then Some (Inr g)
      else rthen (f (de_Offset e) (de_Length e)) (\<lambda>body.
        if length body \<noteq> unat (de_Length e) then Some (Inl ErrCorrupt) else decodeSection IO (de_ID e) body opts g))"

definition ParseLazy :: "'bm roaring_io \<Rightarrow> fetch \<Rightarrow> ParseOptions \<Rightarrow> 'bm GraphSection res" where
  "ParseLazy IO f opts = rthen (f 0 (of_nat headerLen)) (\<lambda>header. rthen (SectionCount header) (\<lambda>count.
     rthen (f 0 (FrontMatterLen count)) (\<lambda>front. rthen (ParseDirectory front) (\<lambda>dir.
       fold_res (lazy_entry IO f opts) dir zero_GraphSection))))"

end
