(* ===== verification/RcpgCorrect.thy ===== *)
theory RcpgCorrect
  imports RcpgFile
begin

text \<open>
  The graph file read back: what \<open>WriteWith\<close> writes, \<open>ParseWith\<close> reads; parsing returns on every input; the range-fetched form agrees
  with the eager one.
\<close>

section \<open>Files as sequences of sections\<close>

lemma fold_res_append: "fold_res f (xs @ ys) s = rthen (fold_res f xs s) (fold_res f ys)"
  by (induction xs arbitrary: s) (auto simp: rthen_assoc intro!: rthen_cong)

lemma fold_res_cong: "(\<And>x s. x \<in> set xs \<Longrightarrow> f x s = g x s) \<Longrightarrow> fold_res f xs s = fold_res g xs s"
  by (induction xs arbitrary: s) (auto intro!: rthen_cong)

lemma fold_res_returns: "(\<And>x s. x \<in> set xs \<Longrightarrow> settles (f x s)) \<Longrightarrow> settles (fold_res f xs s)"
  by (induction xs arbitrary: s) (simp_all add: rthen_settles)

fun entry_list :: "nat \<Rightarrow> (u32 \<times> u8 list) list \<Rightarrow> DirEntry list" where
  "entry_list off [] = []"
| "entry_list off ((i, body) # secs) = \<lparr>de_ID = i, de_Offset = of_nat off, de_Length = of_nat (length body)\<rparr> # entry_list (off + length body) secs"

definition de_bytes :: "DirEntry \<Rightarrow> u8 list" where
  "de_bytes e = le_bytes 4 (unat (de_ID e)) @ le_bytes 4 0 @ le_bytes 8 (unat (de_Offset e)) @ le_bytes 8 (unat (de_Length e))"

definition header_bytes :: "u32 \<Rightarrow> u8 list" where
  "header_bytes n = Magic @ le_bytes 2 1 @ le_bytes 2 0 @ le_bytes 4 (unat n)"

definition front_bytes :: "(u32 \<times> u8 list) list \<Rightarrow> u8 list" where
  "front_bytes secs = header_bytes (of_nat (length secs)) @ le_bytes 4 0
     @ concat (map de_bytes (entry_list (headerLen + length secs * dirEntryLen) secs))"

lemma fold_dir_step: "fold dir_step secs (of_nat off, w) = (of_nat (off + length (concat (map snd secs))), w @ concat (map de_bytes (entry_list off secs)))"
proof (induction secs arbitrary: off w)
  case (Cons s secs)
  obtain i body where s: "s = (i, body)" by (cases s)
  have "dir_step s (of_nat off, w) = (of_nat (off + length body), w @ de_bytes \<lparr>de_ID = i, de_Offset = of_nat off, de_Length = of_nat (length body)\<rparr>)"
    by (simp add: s dir_step_def wU64_def wU32_def de_bytes_def)
  then show ?case using Cons [of "off + length body"] by (simp add: s add.assoc)
qed simp

lemma length_entry_list [simp]: "length (entry_list off secs) = length secs"
  by (induction off secs rule: entry_list.induct) simp_all

lemma file_bytes_eq: "file_bytes secs = front_bytes secs @ concat (map snd secs)"
  by (simp add: file_bytes_def Let_def fold_dir_step front_bytes_def header_bytes_def wU32_def wU16_def Version_def del: of_nat_add of_nat_mult)

lemma length_front: "length (header_bytes n) = 12" "length (front_bytes secs) = headerLen + length secs * dirEntryLen"
proof -
  show h: "length (header_bytes n) = 12" for n by (simp add: header_bytes_def Magic_def)
  have "length (concat (map de_bytes (entry_list off secs))) = length secs * 24" for off
    by (subst length_concat_same [of _ _ 24]) (simp_all add: de_bytes_def)
  then show "length (front_bytes secs) = headerLen + length secs * dirEntryLen" by (simp add: front_bytes_def h headerLen_def dirEntryLen_def)
qed

interpretation dir_entry: codec de_bytes read_dir_entry "\<lambda>_. True" 24 "\<lambda>e. e"
proof
  fix e :: DirEntry
  have "decodes read_dir_entry (le_bytes 4 (unat (de_ID e)) @ le_bytes 4 0 @ le_bytes 8 (unat (de_Offset e)) @ le_bytes 8 (unat (de_Length e)) @ []) e"
    unfolding read_dir_entry_def
    by (rule decodes_bind, rule decodes_ints(3), rule decodes_bind, rule decodes_ints(3) [of 0, simplified], rule decodes_bind, rule decodes_ints(4),
        rule decodes_bind, rule decodes_ints(4), rule decodes_ret) simp_all
  then show "decodes read_dir_entry (de_bytes e) e" by (simp add: de_bytes_def)
  show "24 \<le> length (de_bytes e)" by (simp add: de_bytes_def)
  show "no_panic read_dir_entry" unfolding read_dir_entry_def by (intro panic_free)
qed simp

lemma read_header_ok:
  assumes "n \<le> 1024"
  shows "decodes read_header (header_bytes n) n"
proof -
  have v: "decodes cur_u16 (le_bytes 2 1) Version" using decodes_ints(2) [of 1] by (simp add: Version_def)
  have z: "decodes cur_u16 (le_bytes 2 0) 0" using decodes_ints(2) [of 0] by simp
  have m: "decodes (cur_take 4) Magic Magic" by (rule decodes_take) (simp_all add: Magic_def)
  have c: "decodes (if n > 1024 then rfail ErrCorrupt else rret n) [] n" using assms by (simp add: decodes_ret leD)
  have a: "decodes (rbind cur_u16 (\<lambda>_. rbind cur_u32 (\<lambda>count. if count > 1024 then rfail ErrCorrupt else rret count))) (le_bytes 2 0 @ le_bytes 4 (unat n) @ []) n"
    by (rule decodes_bind [OF z], rule decodes_bind [OF decodes_ints(3)], rule c)
  have "decodes (rbind cur_u16 (\<lambda>version. if version \<noteq> Version then rfail ErrUnsupportedVersion
      else rbind cur_u16 (\<lambda>_. rbind cur_u32 (\<lambda>count. if count > 1024 then rfail ErrCorrupt else rret count)))) (le_bytes 2 1 @ le_bytes 2 0 @ le_bytes 4 (unat n) @ []) n"
    by (rule decodes_bind [OF v]) (use a in simp)
  then have "decodes read_header (Magic @ le_bytes 2 1 @ le_bytes 2 0 @ le_bytes 4 (unat n) @ []) n"
    unfolding read_header_def by (intro decodes_bind [OF m]) simp
  then show ?thesis by (simp add: header_bytes_def)
qed

lemma SectionCount_ok: "n \<le> 1024 \<Longrightarrow> SectionCount (header_bytes n @ rest) = Some (Inr n)"
  using decodesD [OF read_header_ok, of n "[]" rest] by (simp add: SectionCount_def newCursor_def)

lemma ParseDirectory_ok:
  assumes "length secs \<le> 1024"
  shows "ParseDirectory (front_bytes secs @ rest) = Some (Inr (entry_list (headerLen + length secs * dirEntryLen) secs))"
proof -
  let ?n = "of_nat (length secs) :: u32" and ?d = "entry_list (headerLen + length secs * dirEntryLen) secs"
  have n: "unat ?n = length secs" "?n \<le> 1024" using assms by (simp_all add: word_le_nat_alt)
  have "decodes (rbind (cur_take (int headerLen)) (\<lambda>_. rtimes (unat ?n) read_dir_entry))
      ((header_bytes ?n @ le_bytes 4 0) @ concat (map de_bytes ?d)) (map (\<lambda>e. e) ?d)"
  proof (rule decodes_bind [OF decodes_take])
    show "decodes (rtimes (unat ?n) read_dir_entry) (concat (map de_bytes ?d)) (map (\<lambda>e. e) ?d)"
      using decodes_times [of ?d read_dir_entry de_bytes "\<lambda>e. e"] dir_entry.dec_enc n by simp
  qed (simp_all add: length_front headerLen_def)
  from decodesD [OF this, of "[]" rest]
  have "rbind (cur_take (int headerLen)) (\<lambda>_. rtimes (unat ?n) read_dir_entry) (newCursor (front_bytes secs @ rest))
      = Some (Inr (?d, \<lparr>cur_b = front_bytes secs @ rest, cur_pos = length (front_bytes secs)\<rparr>))"
    by (simp add: newCursor_def front_bytes_def)
  moreover have "SectionCount (front_bytes secs @ rest) = Some (Inr ?n)" using SectionCount_ok [OF n(2)] by (simp add: front_bytes_def)
  ultimately show ?thesis by (simp add: ParseDirectory_def)
qed

lemma of_nat64_add: "off + n < 2 ^ 64 \<Longrightarrow> unat (of_nat off + of_nat n :: u64) = off + n"
  using unat_of_nat_less [of "off + n", where 'a = 64] by simp

lemma entry_body:
  assumes "off + length body + length rest < 2 ^ 64" "length pre = off"
  shows "bytes_at (pre @ body @ rest) off (length body) = Some body" "\<not> (of_nat off + of_nat (length body) < (of_nat off :: u64))"
    "\<not> unat (of_nat off + of_nat (length body) :: u64) > length (pre @ body @ rest)"
    "unat (of_nat off + of_nat (length body) :: u64) - unat (of_nat off :: u64) = length body"
proof -
  have u: "unat (of_nat off + of_nat (length body) :: u64) = off + length body" "unat (of_nat off :: u64) = off"
    using assms of_nat64_add by simp_all
  show "bytes_at (pre @ body @ rest) off (length body) = Some body" using assms(2) by (intro bytes_at_mid) simp_all
  show "\<not> (of_nat off + of_nat (length body) < (of_nat off :: u64))" unfolding word_less_nat_alt u by simp
  show "\<not> unat (of_nat off + of_nat (length body) :: u64) > length (pre @ body @ rest)" unfolding u using assms(2) by simp
  show "unat (of_nat off + of_nat (length body) :: u64) - unat (of_nat off :: u64) = length body" unfolding u by simp
qed

lemma parse_entries:
  assumes "b = pre @ concat (map snd secs)" "length pre = off" "length b < 2 ^ 64"
  shows "fold_res (parse_entry IO b opts) (entry_list off secs) g = fold_res (\<lambda>(i, body). decodeSection IO i body opts) secs g"
  using assms
proof (induction secs arbitrary: pre off g)
  case (Cons s secs)
  obtain i body where s: "s = (i, body)" by (cases s)
  have b: "b = pre @ body @ concat (map snd secs)" and bd: "off + length body + length (concat (map snd secs)) < 2 ^ 64" "unat (of_nat off :: u64) = off"
    using Cons.prems by (simp_all add: s)
  have "parse_entry IO b opts \<lparr>de_ID = i, de_Offset = of_nat off, de_Length = of_nat (length body)\<rparr> g = decodeSection IO i body opts g" for g :: "'a GraphSection"
    using entry_body [OF bd(1) Cons.prems(2)] unfolding parse_entry_def b Let_def DirEntry.simps by (simp add: bd(2))
  moreover have "fold_res (parse_entry IO b opts) (entry_list (off + length body) secs) h = fold_res (\<lambda>(i, body). decodeSection IO i body opts) secs h" for h :: "'a GraphSection"
    by (rule Cons.IH [of "pre @ body"]) (use Cons.prems(2,3) in \<open>simp_all add: b\<close>)
  ultimately show ?case by (auto simp: s intro!: rthen_cong)
qed simp

lemma parse_file:
  assumes "length secs \<le> 1024" "length (file_bytes secs) < 2 ^ 64"
  shows "ParseWith IO (file_bytes secs) opts = rthen (fold_res (\<lambda>(i, body). decodeSection IO i body opts) secs zero_GraphSection) (\<lambda>g.
     case gs_AtomIndex g of
       None \<Rightarrow> Some (Inr g)
     | Some idx \<Rightarrow> if po_SkipAtoms opts then Some (Inr g) else rthen (validateAtomIndex idx (gs_Atoms g)) (\<lambda>_. Some (Inr g)))"
proof -
  have "ParseDirectory (file_bytes secs) = Some (Inr (entry_list (headerLen + length secs * dirEntryLen) secs))"
    using ParseDirectory_ok [OF assms(1)] by (simp add: file_bytes_eq)
  moreover have "fold_res (parse_entry IO (file_bytes secs) opts) (entry_list (headerLen + length secs * dirEntryLen) secs) g
      = fold_res (\<lambda>(i, body). decodeSection IO i body opts) secs g" for g :: "'a GraphSection"
    by (rule parse_entries [OF file_bytes_eq length_front(2) assms(2)])
  ultimately show ?thesis by (simp add: ParseWith_def)
qed

section \<open>What is written is read\<close>

text \<open>A graph that fits the format: 32-bit counts, valid UTF-8, packed bool columns of their exact length.\<close>

definition section_ok :: "'bm roaring_io \<Rightarrow> 'bm GraphSection \<Rightarrow> bool" where
  "section_ok IO g \<longleftrightarrow> (\<forall>s \<in> set (gs_Atoms g). atom_ok s) \<and> length (gs_Atoms g) < 2 ^ 32 \<and> (\<forall>v. gs_Version g = Some v \<longrightarrow> atom_ok v)
     \<and> bitmap_index_ok IO (gs_LabelIndex g) \<and> rels_ok_section IO g
     \<and> (\<forall>c \<in> set (gs_NodeColumns g). data_ok (rc_Data c)) \<and> length (gs_NodeColumns g) < 2 ^ 32
     \<and> (\<forall>c \<in> set (gs_RelColumns g). data_ok (rc_Data c)) \<and> length (gs_RelColumns g) < 2 ^ 32
     \<and> (\<forall>bm. gs_Existence g = Some bm \<longrightarrow> rb_WriteTo IO bm = Some (bm_bytes IO bm) \<and> rb_ReadFrom IO (bm_bytes IO bm) = Some (bm_reload IO bm))"

definition columns_bytes :: "rcpg_Column list \<Rightarrow> u8 list" where
  "columns_bytes cs = len_bytes (length cs) @ concat (map column_bytes cs)"

definition written_sections :: "'bm roaring_io \<Rightarrow> 'bm GraphSection \<Rightarrow> WriteOptions \<Rightarrow> (u32 \<times> u8 list) list" where
  "written_sections IO g wo =
     [(sectionAtoms, atoms_bytes (gs_Atoms g)), (sectionMeta, meta_bytes (gs_Version g)), (sectionNodes, nodes_bytes IO g), (sectionRels, rels_bytes IO g)]
     @ (if wo_NodeColumns wo then [(sectionNodeCols, columns_bytes (gs_NodeColumns g))] else [])
     @ (if wo_RelColumns wo then [(sectionRelCols, columns_bytes (gs_RelColumns g))] else [])
     @ (if wo_AtomIndex wo then [(sectionAtomIndex, index_bytes (index_of_atoms atomIndexBlockLen (gs_Atoms g)))] else [])
     @ (case gs_Existence g of Some bm \<Rightarrow> if wo_Existence wo then [(sectionExistence, bm_bytes IO bm)] else [] | None \<Rightarrow> [])"

definition written_bytes :: "'bm roaring_io \<Rightarrow> 'bm GraphSection \<Rightarrow> WriteOptions \<Rightarrow> u8 list" where
  "written_bytes IO g wo = file_bytes (written_sections IO g wo)"

lemma atom_index_block [simp]: "atomIndexBlockLen \<noteq> 0"
  by (simp add: atomIndexBlockLen_def)

lemma WriteWith_ok:
  assumes "section_ok IO g"
  shows "WriteWith IO g wo = Some (Inr (written_bytes IO g wo))"
proof -
  have "encodeAtoms (gs_Atoms g) = Some (Inr (atoms_bytes (gs_Atoms g)))" "encodeMeta g = Some (Inr (meta_bytes (gs_Version g)))"
    "encodeNodes IO g = Some (Inr (nodes_bytes IO g))" "encodeRels IO g = Some (Inr (rels_bytes IO g))"
    "encodeColumns (gs_NodeColumns g) = Some (Inr (columns_bytes (gs_NodeColumns g)))" "encodeColumns (gs_RelColumns g) = Some (Inr (columns_bytes (gs_RelColumns g)))"
    "encodeAtomIndex (gs_Atoms g) atomIndexBlockLen = Some (Inr (index_bytes (index_of_atoms atomIndexBlockLen (gs_Atoms g))))"
    using assms by (auto simp: section_ok_def atom_ok_def encodeAtoms_ok encodeMeta_ok encodeNodes_ok encodeRels_ok encodeColumns_ok columns_bytes_def
        intro!: encodeAtomIndex_ok)
  moreover have "encodeExistence IO bm = Some (Inr (bm_bytes IO bm))" if "gs_Existence g = Some bm" for bm
    using assms that by (simp add: section_ok_def encodeExistence_def)
  ultimately have "fold_res add_section (encoders IO g wo) [] = Some (Inr (written_sections IO g wo))"
    by (auto simp: encoders_def add_section_def written_sections_def split: option.split)
  then show ?thesis by (simp add: WriteWith_def written_bytes_def)
qed

text \<open>The graph that comes back: the parts that were written and asked for, with reloaded bitmaps.\<close>

definition read_back :: "'bm roaring_io \<Rightarrow> WriteOptions \<Rightarrow> ParseOptions \<Rightarrow> 'bm GraphSection \<Rightarrow> 'bm GraphSection" where
  "read_back IO wo po g = g\<lparr>gs_LabelIndex := map (entry_reload IO) (gs_LabelIndex g), gs_TypeIndex := map (entry_reload IO) (gs_TypeIndex g),
     gs_NodeColumns := if wo_NodeColumns wo \<and> po_NodeColumns po then gs_NodeColumns g else [],
     gs_RelColumns := if wo_RelColumns wo \<and> po_RelColumns po then gs_RelColumns g else [],
     gs_Atoms := if po_SkipAtoms po then [] else gs_Atoms g,
     gs_Existence := if wo_Existence wo then map_option (bm_reload IO) (gs_Existence g) else None,
     gs_AtomIndex := if wo_AtomIndex wo then Some (index_of_atoms atomIndexBlockLen (gs_Atoms g)) else None\<rparr>"

lemma written_size: "4 + atoms_size (gs_Atoms g) \<le> length (written_bytes IO g wo)"
proof -
  have "length (atoms_bytes (gs_Atoms g)) \<le> length (concat (map snd (written_sections IO g wo)))" by (simp add: written_sections_def)
  then show ?thesis by (simp add: written_bytes_def file_bytes_eq length_atoms_bytes)
qed

lemma decode_topology:
  assumes ok: "section_ok IO g"
  shows "fold_res (\<lambda>(i, body). decodeSection IO i body po)
      [(sectionAtoms, atoms_bytes (gs_Atoms g)), (sectionMeta, meta_bytes (gs_Version g)), (sectionNodes, nodes_bytes IO g), (sectionRels, rels_bytes IO g)] zero_GraphSection
    = Some (Inr (read_back IO TopologyOnlyWriteOptions po g))"
proof -
  let ?a = "if po_SkipAtoms po then zero_GraphSection else zero_GraphSection\<lparr>gs_Atoms := gs_Atoms g\<rparr>"
  have a: "decodeSection IO sectionAtoms (atoms_bytes (gs_Atoms g)) po zero_GraphSection = Some (Inr ?a)"
    using ok by (simp add: decodeSection_def decodeAtoms_ok section_ok_def)
  have m: "decodeSection IO sectionMeta (meta_bytes (gs_Version g)) po ?a = Some (Inr (?a\<lparr>gs_Version := gs_Version g\<rparr>))"
    using ok by (simp add: decodeSection_def section_ok_def decodeMeta_ok zero_GraphSection_def)
  have n: "decodeSection IO sectionNodes (nodes_bytes IO g) po h = Some (Inr (h\<lparr>gs_NNodes := gs_NNodes g, gs_LabelIndex := map (entry_reload IO) (gs_LabelIndex g)\<rparr>))" for h
    using ok by (simp add: decodeSection_def section_ok_def decodeNodes_ok)
  have r: "decodeSection IO sectionRels (rels_bytes IO g) po h = Some (Inr (h\<lparr>gs_NRels := gs_NRels g, gs_OutOffsets := gs_OutOffsets g, gs_OutNbrs := gs_OutNbrs g,
    gs_OutTypes := gs_OutTypes g, gs_InOffsets := gs_InOffsets g, gs_InNbrs := gs_InNbrs g, gs_InTypes := gs_InTypes g,
    gs_TypeIndex := map (entry_reload IO) (gs_TypeIndex g)\<rparr>))" for h
    using ok by (simp add: decodeSection_def section_ok_def decodeRels_ok)
  show ?thesis by (simp add: a m n r) (simp add: read_back_def TopologyOnlyWriteOptions_def zero_GraphSection_def)
qed

lemma decode_optional:
  assumes ok: "section_ok IO g" and n: "4 + atoms_size (gs_Atoms g) < 2 ^ 64"
  shows "decodeSection IO sectionNodeCols (columns_bytes (gs_NodeColumns g)) po h = Some (Inr (if po_NodeColumns po then h\<lparr>gs_NodeColumns := gs_NodeColumns g\<rparr> else h))"
    "decodeSection IO sectionRelCols (columns_bytes (gs_RelColumns g)) po h = Some (Inr (if po_RelColumns po then h\<lparr>gs_RelColumns := gs_RelColumns g\<rparr> else h))"
    "decodeSection IO sectionAtomIndex (index_bytes (index_of_atoms atomIndexBlockLen (gs_Atoms g))) po h
      = Some (Inr (h\<lparr>gs_AtomIndex := Some (index_of_atoms atomIndexBlockLen (gs_Atoms g))\<rparr>))"
    "gs_Existence g = Some bm \<Longrightarrow> decodeSection IO sectionExistence (bm_bytes IO bm) po h = Some (Inr (h\<lparr>gs_Existence := Some (bm_reload IO bm)\<rparr>))"
  using ok n unfolding section_ok_def
  by (simp_all add: decodeSection_def decodeColumns_ok columns_bytes_def decodeAtomIndex_ok decodeExistence_def)

lemma ParseWith_ok:
  assumes ok: "section_ok IO g" and n: "length (written_bytes IO g wo) < 2 ^ 63"
  shows "ParseWith IO (written_bytes IO g wo) po = Some (Inr (read_back IO wo po g))"
proof -
  have sz: "4 + atoms_size (gs_Atoms g) < 2 ^ 64" using written_size [of g IO wo] n by simp
  have "fold_res (\<lambda>(i, body). decodeSection IO i body po) (written_sections IO g wo) zero_GraphSection = Some (Inr (read_back IO wo po g))"
    unfolding written_sections_def fold_res_append decode_topology [OF ok] rthen_simps
    by (cases "wo_NodeColumns wo"; cases "wo_RelColumns wo"; cases "wo_AtomIndex wo"; cases "gs_Existence g"; cases "wo_Existence wo")
      (simp_all add: decode_optional [OF ok sz], simp_all add: read_back_def TopologyOnlyWriteOptions_def)
  moreover have "length (written_sections IO g wo) \<le> 8" by (simp add: written_sections_def split: option.split)
  moreover have "validateAtomIndex (index_of_atoms atomIndexBlockLen (gs_Atoms g)) (gs_Atoms g) = Some (Inr ())" by (simp add: validateAtomIndex_ok)
  ultimately show ?thesis using n unfolding written_bytes_def
    by (subst parse_file) (auto simp: read_back_def split: option.splits)
qed

section \<open>Parsing returns\<close>

lemma decodeSection_returns: "settles (decodeSection IO i body opts g)"
  unfolding decodeSection_def
  by (simp only: split: if_splits)
    (intro conjI impI rthen_settles decodeAtoms_returns decodeColumns_returns decodeAtomIndex_returns sections_return settles_simps)

lemma SectionCount_returns: "settles (SectionCount b)"
  unfolding SectionCount_def read_header_def by (intro read_all_returns panic_free)

lemma ParseDirectory_returns: "settles (ParseDirectory b)"
  unfolding ParseDirectory_def by (intro rthen_settles [OF SectionCount_returns] read_all_returns panic_free dir_entry.dec_returns)

lemma parse_entry_returns: "settles (parse_entry IO b opts e g)"
proof -
  let ?o = "de_Offset e" and ?f = "de_Offset e + de_Length e"
  have "bytes_at b (unat ?o) (unat ?f - unat ?o) \<noteq> None" if "\<not> ?f < ?o" "\<not> unat ?f > length b"
    using that by (simp add: bytes_at_def word_less_nat_alt)
  then show ?thesis using decodeSection_returns [of IO "de_ID e" _ opts g] unfolding parse_entry_def Let_def
    by (cases "?f < ?o"; cases "unat ?f > length b"; cases "bytes_at b (unat ?o) (unat ?f - unat ?o)") simp_all
qed

lemma ParseWith_returns: "settles (ParseWith IO b opts)"
  unfolding ParseWith_def
proof (rule rthen_settles [OF ParseDirectory_returns], rule rthen_settles)
  fix dir show "settles (fold_res (parse_entry IO b opts) dir zero_GraphSection)" by (rule fold_res_returns) (rule parse_entry_returns)
next
  fix g :: "'a GraphSection"
  show "settles (case gs_AtomIndex g of None \<Rightarrow> Some (Inr g) | Some idx \<Rightarrow> if po_SkipAtoms opts then Some (Inr g)
      else rthen (validateAtomIndex idx (gs_Atoms g)) (\<lambda>_. Some (Inr g)))"
    by (cases "gs_AtomIndex g") (simp_all add: rthen_settles [OF validateAtomIndex_returns])
qed

section \<open>Range-fetched parsing\<close>

text \<open>Steps that look only at the bytes they consume, and how far they go.\<close>

definition reads_prefix :: "nat \<Rightarrow> 'a rd \<Rightarrow> bool" where
  "reads_prefix w d \<longleftrightarrow> (\<forall>c x c'. cur_ok c \<longrightarrow> d c = Some (Inr (x, c')) \<longrightarrow> cur_ok c' \<and> cur_b c' = cur_b c \<and> cur_pos c' = cur_pos c + w
     \<and> (\<forall>k. cur_pos c' \<le> k \<longrightarrow> d (c\<lparr>cur_b := take k (cur_b c)\<rparr>) = Some (Inr (x, c'\<lparr>cur_b := take k (cur_b c)\<rparr>)))
     \<and> (\<forall>k. cur_pos c \<le> k \<longrightarrow> k < cur_pos c' \<longrightarrow> d (c\<lparr>cur_b := take k (cur_b c)\<rparr>) = Some (Inl ErrCorrupt)))"

lemma reads_prefixD:
  assumes "reads_prefix w d" "cur_ok c" "d c = Some (Inr (x, c'))"
  shows "cur_ok c'" "cur_b c' = cur_b c" "cur_pos c' = cur_pos c + w"
    "cur_pos c' \<le> k \<Longrightarrow> d (c\<lparr>cur_b := take k (cur_b c)\<rparr>) = Some (Inr (x, c'\<lparr>cur_b := take k (cur_b c)\<rparr>))"
    "cur_pos c \<le> k \<Longrightarrow> k < cur_pos c' \<Longrightarrow> d (c\<lparr>cur_b := take k (cur_b c)\<rparr>) = Some (Inl ErrCorrupt)"
  using assms unfolding reads_prefix_def by blast+

lemma reads_prefix_take: "0 \<le> n \<Longrightarrow> reads_prefix (nat n) (cur_take n)"
  by (auto simp: reads_prefix_def cur_take_def cur_ok_def remaining_def bytes_at_def min_def take_drop split: if_splits)

lemma reads_prefix_ret: "reads_prefix 0 (rret x)" "reads_prefix 0 (rtry v)" "reads_prefix w (rfail e)"
  by (auto simp: reads_prefix_def rret_def rtry_def rfail_def)

lemma reads_prefix_if: "reads_prefix w d \<Longrightarrow> reads_prefix w d' \<Longrightarrow> reads_prefix w (if b then d else d')"
  by simp

lemma reads_prefix_bind:
  assumes d: "reads_prefix w d" and f: "\<And>x. reads_prefix w' (f x)" and w: "v = w + w'"
  shows "reads_prefix v (rbind d f)"
  unfolding reads_prefix_def
proof (intro allI impI)
  fix c y c2 assume c: "cur_ok c" and r: "rbind d f c = Some (Inr (y, c2))"
  from r obtain x c1 where 1: "d c = Some (Inr (x, c1))" "f x c1 = Some (Inr (y, c2))"
    by (auto simp: rbind_def rthen_def split: option.splits sum.splits)
  note a = reads_prefixD [OF d c 1(1)]
  note b = reads_prefixD [OF f a(1) 1(2)]
  show "cur_ok c2 \<and> cur_b c2 = cur_b c \<and> cur_pos c2 = cur_pos c + v \<and> (\<forall>k. cur_pos c2 \<le> k \<longrightarrow>
      rbind d f (c\<lparr>cur_b := take k (cur_b c)\<rparr>) = Some (Inr (y, c2\<lparr>cur_b := take k (cur_b c)\<rparr>)))
    \<and> (\<forall>k. cur_pos c \<le> k \<longrightarrow> k < cur_pos c2 \<longrightarrow> rbind d f (c\<lparr>cur_b := take k (cur_b c)\<rparr>) = Some (Inl ErrCorrupt))"
  proof (intro conjI allI impI)
    show "cur_ok c2" "cur_b c2 = cur_b c" "cur_pos c2 = cur_pos c + v" using a(2,3) b(1,2,3) w by simp_all
    fix k
    show "rbind d f (c\<lparr>cur_b := take k (cur_b c)\<rparr>) = Some (Inr (y, c2\<lparr>cur_b := take k (cur_b c)\<rparr>))" if "cur_pos c2 \<le> k"
      using a(2,4) b(3,4) that by (simp add: rbind_def)
    show "rbind d f (c\<lparr>cur_b := take k (cur_b c)\<rparr>) = Some (Inl ErrCorrupt)" if k: "cur_pos c \<le> k" "k < cur_pos c2"
    proof (cases "cur_pos c1 \<le> k")
      case True
      then show ?thesis using a(2) a(4) [OF True] b(5) [OF True k(2)] by (simp add: rbind_def)
    next
      case False
      then show ?thesis using a(5) k(1) by (simp add: rbind_def)
    qed
  qed
qed

lemma reads_prefix_times:
  assumes "reads_prefix w d"
  shows "reads_prefix (n * w) (rtimes n d)"
proof (induction n)
  case (Suc n)
  show ?case unfolding rtimes.simps
    by (rule reads_prefix_bind [OF assms], rule reads_prefix_bind [OF Suc reads_prefix_ret(1) refl]) simp
qed (simp add: reads_prefix_ret)

lemma reads_prefix_ints: "reads_prefix 1 cur_u8" "reads_prefix 2 cur_u16" "reads_prefix 4 cur_u32" "reads_prefix 8 cur_u64"
  unfolding cur_u8_def cur_u16_def cur_u32_def cur_u64_def
  by (rule reads_prefix_bind [OF reads_prefix_take reads_prefix_ret(2)]; simp)+

lemma reads_prefix_header: "reads_prefix 12 read_header" "reads_prefix 24 read_dir_entry"
proof -
  show "reads_prefix 12 read_header" unfolding read_header_def
    by (rule reads_prefix_bind [OF reads_prefix_take [of 4]], simp, rule reads_prefix_if [OF reads_prefix_ret(3)],
        rule reads_prefix_bind [OF reads_prefix_ints(2)], rule reads_prefix_if [OF reads_prefix_ret(3)],
        rule reads_prefix_bind [OF reads_prefix_ints(2)], rule reads_prefix_bind [OF reads_prefix_ints(3)], rule reads_prefix_if [OF reads_prefix_ret(3)],
        rule reads_prefix_ret(1), rule refl, rule refl, rule refl, simp)
  show "reads_prefix 24 read_dir_entry" unfolding read_dir_entry_def
    by (rule reads_prefix_bind [OF reads_prefix_ints(3)], rule reads_prefix_bind [OF reads_prefix_ints(3)], rule reads_prefix_bind [OF reads_prefix_ints(4)],
        rule reads_prefix_bind [OF reads_prefix_ints(4)], rule reads_prefix_ret(1), rule refl, rule refl, rule refl, simp)
qed

lemma read_whole_prefix:
  assumes d: "reads_prefix w d" and r: "rthen (d (newCursor b)) (\<lambda>(x, _). Some (Inr x)) = Some (Inr x)"
  shows "w \<le> length b" "w \<le> k \<Longrightarrow> rthen (d (newCursor (take k b))) (\<lambda>(x, _). Some (Inr x)) = Some (Inr x)"
    "k < w \<Longrightarrow> rthen (d (newCursor (take k b))) (\<lambda>(x, _). Some (Inr x)) = Some (Inl ErrCorrupt)"
proof -
  obtain c' where c': "d (newCursor b) = Some (Inr (x, c'))" using r by (auto simp: rthen_Some)
  have n: "(newCursor b)\<lparr>cur_b := take k (cur_b (newCursor b))\<rparr> = newCursor (take k b)" by (simp add: newCursor_def)
  note p = reads_prefixD [OF d newCursor_ok c']
  show "w \<le> length b" using p(1,2,3) by (simp add: newCursor_def cur_ok_def)
  show "w \<le> k \<Longrightarrow> rthen (d (newCursor (take k b))) (\<lambda>(x, _). Some (Inr x)) = Some (Inr x)"
    "k < w \<Longrightarrow> rthen (d (newCursor (take k b))) (\<lambda>(x, _). Some (Inr x)) = Some (Inl ErrCorrupt)"
    using p(3) p(4,5) [of k, unfolded n] by (simp_all add: newCursor_def [of b])
qed

lemma header_prefix: "SectionCount b = Some (Inr n) \<Longrightarrow> 12 \<le> k \<Longrightarrow> SectionCount (take k b) = Some (Inr n)"
  using read_whole_prefix(2) [OF reads_prefix_header(1)] unfolding SectionCount_def by blast

lemma ParseDirectory_prefix:
  assumes "ParseDirectory b = Some (Inr dir)"
  obtains n where "SectionCount b = Some (Inr n)" "n \<le> 1024" "16 + unat n * 24 \<le> length b" "\<And>k. 16 + unat n * 24 \<le> k \<Longrightarrow> ParseDirectory (take k b) = Some (Inr dir)"
    "\<And>k. k < 16 + unat n * 24 \<Longrightarrow> ParseDirectory (take k b) = Some (Inl ErrCorrupt)"
proof -
  obtain n where n: "SectionCount b = Some (Inr n)" and
    r: "rthen (rbind (cur_take (int headerLen)) (\<lambda>_. rtimes (unat n) read_dir_entry) (newCursor b)) (\<lambda>(entries, _). Some (Inr entries)) = Some (Inr dir)"
    using assms by (auto simp: ParseDirectory_def rthen_Some)
  have p: "reads_prefix (16 + unat n * 24) (rbind (cur_take (int headerLen)) (\<lambda>_. rtimes (unat n) read_dir_entry))"
    by (rule reads_prefix_bind [OF reads_prefix_take reads_prefix_times [OF reads_prefix_header(2)]]) (simp_all add: headerLen_def)
  have le: "n \<le> 1024" using n
    by (auto simp: SectionCount_def read_header_def rbind_def rthen_Some rfail_def rret_def split: if_splits)
  have t: "ParseDirectory (take k b) = Some (Inr dir)" if "16 + unat n * 24 \<le> k" for k
    using header_prefix [OF n, of k] read_whole_prefix(2) [OF p r that] that by (simp add: ParseDirectory_def)
  have u: "ParseDirectory (take k b) = Some (Inl ErrCorrupt)" if k: "k < 16 + unat n * 24" for k
  proof (cases "12 \<le> k")
    case True
    then show ?thesis using header_prefix [OF n True] read_whole_prefix(3) [OF p r k] by (simp add: ParseDirectory_def)
  next
    case False
    then have "SectionCount (take k b) = Some (Inl ErrCorrupt)" using read_whole_prefix(3) [OF reads_prefix_header(1) n [unfolded SectionCount_def]] by (simp add: SectionCount_def)
    then show ?thesis by (simp add: ParseDirectory_def)
  qed
  show thesis by (rule that [OF n le read_whole_prefix(1) [OF p r] t u])
qed

text \<open>Decoding never looks at the existence bitmap read before.\<close>

lemma rbind_rules: "rbind (rbind d f) k = rbind d (\<lambda>x. rbind (f x) k)" "rbind (rret x) k = k x"
  by (auto simp: rbind_def rret_def rthen_assoc fun_eq_iff intro!: rthen_cong)

definition with_existence :: "'bm option \<Rightarrow> 'bm GraphSection \<Rightarrow> 'bm GraphSection" where
  "with_existence x g = g\<lparr>gs_Existence := x\<rparr>"

lemma with_existence_update:
  "(with_existence x g)\<lparr>gs_Version := v\<rparr> = with_existence x (g\<lparr>gs_Version := v\<rparr>)" "(with_existence x g)\<lparr>gs_Atoms := a\<rparr> = with_existence x (g\<lparr>gs_Atoms := a\<rparr>)"
  "(with_existence x g)\<lparr>gs_NodeColumns := c\<rparr> = with_existence x (g\<lparr>gs_NodeColumns := c\<rparr>)"
  "(with_existence x g)\<lparr>gs_RelColumns := c\<rparr> = with_existence x (g\<lparr>gs_RelColumns := c\<rparr>)"
  "(with_existence x g)\<lparr>gs_AtomIndex := i\<rparr> = with_existence x (g\<lparr>gs_AtomIndex := i\<rparr>)"
  "(with_existence x g)\<lparr>gs_NNodes := n, gs_LabelIndex := l\<rparr> = with_existence x (g\<lparr>gs_NNodes := n, gs_LabelIndex := l\<rparr>)"
  "(with_existence x g)\<lparr>gs_NRels := n', gs_OutOffsets := v1, gs_OutNbrs := v2, gs_OutTypes := v3, gs_InOffsets := v4, gs_InNbrs := v5, gs_InTypes := v6, gs_TypeIndex := l\<rparr>
    = with_existence x (g\<lparr>gs_NRels := n', gs_OutOffsets := v1, gs_OutNbrs := v2, gs_OutTypes := v3, gs_InOffsets := v4, gs_InNbrs := v5, gs_InTypes := v6, gs_TypeIndex := l\<rparr>)"
  "with_existence x (with_existence y g) = with_existence x g" "gs_Existence (with_existence x g) = x"
  by (cases g, simp add: with_existence_def)+

lemma existence_readers:
  "read_meta (with_existence x g) = rbind (read_meta g) (\<lambda>h. rret (with_existence x h))"
  "read_nodes IO (with_existence x g) = rbind (read_nodes IO g) (\<lambda>h. rret (with_existence x h))"
  "read_rels IO (with_existence x g) = rbind (read_rels IO g) (\<lambda>h. rret (with_existence x h))"
proof -
  show "read_meta (with_existence x g) = rbind (read_meta g) (\<lambda>h. rret (with_existence x h))"
    unfolding read_meta_def rbind_rules
    by (rule arg_cong [where f = "rbind cur_u8"]) (auto simp: rbind_rules with_existence_update)
  show "read_nodes IO (with_existence x g) = rbind (read_nodes IO g) (\<lambda>h. rret (with_existence x h))"
    "read_rels IO (with_existence x g) = rbind (read_rels IO g) (\<lambda>h. rret (with_existence x h))"
    unfolding read_nodes_def read_rels_def rbind_rules with_existence_update by (rule refl)+
qed

lemma rthen_rbind_ret: "rthen (rbind d (\<lambda>h. rret (f h)) c) (\<lambda>(g, _). Some (Inr g)) = rthen (rthen (d c) (\<lambda>(g, _). Some (Inr g))) (\<lambda>g. Some (Inr (f g)))"
  by (auto simp: rbind_def rret_def rthen_assoc intro!: rthen_cong)

lemma decodeSection_existence:
  assumes "i \<noteq> sectionExistence"
  shows "decodeSection IO i body opts (with_existence x g) = rthen (decodeSection IO i body opts g) (\<lambda>h. Some (Inr (with_existence x h)))"
proof -
  have "decodeMeta body (with_existence x g) = rthen (decodeMeta body g) (\<lambda>h. Some (Inr (with_existence x h)))"
    "decodeNodes IO body (with_existence x g) = rthen (decodeNodes IO body g) (\<lambda>h. Some (Inr (with_existence x h)))"
    "decodeRels IO body (with_existence x g) = rthen (decodeRels IO body g) (\<lambda>h. Some (Inr (with_existence x h)))"
    unfolding decodeMeta_def decodeNodes_def decodeRels_def existence_readers rthen_rbind_ret by (rule refl)+
  then show ?thesis using assms by (simp add: decodeSection_def rthen_assoc with_existence_update)
qed

lemma decodeSection_unwanted:
  "\<not> sectionWanted i opts \<Longrightarrow> decodeSection IO i body opts g
    = (if i = sectionExistence then rthen (decodeExistence IO body) (\<lambda>bm. Some (Inr (with_existence (Some bm) g))) else Some (Inr g))"
  by (auto simp: sectionWanted_def decodeSection_def with_existence_def split: if_splits)

lemma decodeSection_keeps: "i \<noteq> sectionExistence \<Longrightarrow> decodeSection IO i body opts g = Some (Inr h) \<Longrightarrow> gs_Existence h = gs_Existence g"
proof -
  assume i: "i \<noteq> sectionExistence" and r: "decodeSection IO i body opts g = Some (Inr h)"
  have "with_existence (gs_Existence g) g = g" by (simp add: with_existence_def)
  then have "decodeSection IO i body opts g = Some (Inr (with_existence (gs_Existence g) h))"
    using decodeSection_existence [OF i, of IO body opts "gs_Existence g" g] r by simp
  then have "h = with_existence (gs_Existence g) h" using r by simp
  then show ?thesis by (metis GraphSection.select_convs(15) GraphSection.surjective GraphSection.update_convs(15) with_existence_def)
qed

text \<open>
  The contract of \<open>SectionFetch\<close> on a file: a range inside the file is delivered exactly. What an implementation returns for other
  ranges is left open.
\<close>

locale section_fetch =
  fixes fetch :: fetch and bytes :: "u8 list"
  assumes in_range: "unat off + unat len \<le> length bytes \<Longrightarrow> unat off + unat len < 2 ^ 64 \<Longrightarrow> fetch off len = Some (Inr (take (unat len) (drop (unat off) bytes)))"
begin

lemma lazy_entry_eager:
  assumes r: "parse_entry IO bytes opts e (with_existence x h) = Some (Inr g)"
  shows "\<exists>h' y. lazy_entry IO fetch opts e h = Some (Inr h') \<and> g = with_existence y h' \<and> gs_Existence h' = gs_Existence h"
proof -
  let ?o = "de_Offset e" and ?l = "de_Length e"
  have f: "\<not> ?o + ?l < ?o" "unat (?o + ?l) \<le> length bytes" using r by (auto simp: parse_entry_def Let_def split: if_splits)
  have u: "unat (?o + ?l) = unat ?o + unat ?l" using f(1) by (simp add: no_olen_add_nat not_less unat_plus_simple [THEN iffD1])
  obtain body where b: "body = take (unat ?l) (drop (unat ?o) bytes)" "length body = unat ?l" using f(2) u by simp
  have d: "decodeSection IO (de_ID e) body opts (with_existence x h) = Some (Inr g)"
    using r f u b by (auto simp: parse_entry_def Let_def bytes_at_def split: if_splits)
  have "unat ?o + unat ?l < 2 ^ 64" using unsigned_less [of "?o + ?l", where ?'a = nat] unfolding u by simp
  then have ft: "fetch ?o ?l = Some (Inr body)" using in_range f(2) u b(1) by simp
  show ?thesis
  proof (cases "sectionWanted (de_ID e) opts")
    case True
    then have i: "de_ID e \<noteq> sectionExistence" by (auto simp: sectionWanted_def)
    obtain h' where h': "decodeSection IO (de_ID e) body opts h = Some (Inr h')" "g = with_existence x h'"
      using d unfolding decodeSection_existence [OF i] by (auto simp: rthen_Some)
    show ?thesis using True ft b(2) h' decodeSection_keeps [OF i h'(1)] by (auto simp: lazy_entry_def)
  next
    case False
    have "\<exists>y. g = with_existence y h"
      using d unfolding decodeSection_unwanted [OF False] by (auto simp: rthen_Some with_existence_update split: if_splits)
    then show ?thesis using False by (auto simp: lazy_entry_def)
  qed
qed

lemma lazy_entries_eager:
  "fold_res (parse_entry IO bytes opts) dir (with_existence x h) = Some (Inr g)
    \<Longrightarrow> \<exists>h' y. fold_res (lazy_entry IO fetch opts) dir h = Some (Inr h') \<and> g = with_existence y h' \<and> gs_Existence h' = gs_Existence h"
proof (induction dir arbitrary: x h)
  case (Cons e dir)
  obtain g1 where g1: "parse_entry IO bytes opts e (with_existence x h) = Some (Inr g1)" "fold_res (parse_entry IO bytes opts) dir g1 = Some (Inr g)"
    using Cons.prems by (auto simp: rthen_Some)
  obtain h1 y where h1: "lazy_entry IO fetch opts e h = Some (Inr h1)" "g1 = with_existence y h1" "gs_Existence h1 = gs_Existence h"
    using lazy_entry_eager [OF g1(1)] by blast
  show ?case using Cons.IH [of y h1] g1(2) h1 by simp
qed auto

text \<open>Whenever the eager parse of the file succeeds, the lazy one returns the same graph without its existence bitmap.\<close>

lemma ParseLazy_eager:
  assumes r: "ParseWith IO bytes opts = Some (Inr g)"
  shows "ParseLazy IO fetch opts = Some (Inr (with_existence None g))"
proof -
  obtain dir where dir: "ParseDirectory bytes = Some (Inr dir)" and g: "fold_res (parse_entry IO bytes opts) dir zero_GraphSection = Some (Inr g)"
    using r by (auto simp: ParseWith_def rthen_Some split: option.splits if_splits)
  obtain n where n: "SectionCount bytes = Some (Inr n)" "n \<le> 1024" "16 + unat n * 24 \<le> length bytes"
    "\<And>k. 16 + unat n * 24 \<le> k \<Longrightarrow> ParseDirectory (take k bytes) = Some (Inr dir)"
    by (rule ParseDirectory_prefix [OF dir]) (rule that)
  have z: "with_existence None zero_GraphSection = zero_GraphSection" by (simp add: with_existence_def zero_GraphSection_def)
  have e0: "gs_Existence (zero_GraphSection :: 'a GraphSection) = None" by (simp add: zero_GraphSection_def)
  obtain h y where h: "fold_res (lazy_entry IO fetch opts) dir zero_GraphSection = Some (Inr h)" "g = with_existence y h" "gs_Existence h = None"
    using lazy_entries_eager [of IO opts dir None zero_GraphSection g] g e0 unfolding z by auto
  have "unat n \<le> 1024" using n(2) by (simp add: word_le_nat_alt)
  then have "unat (of_nat (16 + unat n * 24) :: u64) = 16 + unat n * 24" by (intro unat_of_nat_less) simp
  then have fm: "unat (FrontMatterLen n) = 16 + unat n * 24" by (simp add: FrontMatterLen_def headerLen_def dirEntryLen_def)
  have "fetch 0 (of_nat headerLen) = Some (Inr (take 16 bytes))" using in_range [of 0 "of_nat headerLen"] n(3) by (simp add: headerLen_def)
  moreover have "SectionCount (take 16 bytes) = Some (Inr n)" by (rule header_prefix [OF n(1)]) simp
  moreover have "fetch 0 (FrontMatterLen n) = Some (Inr (take (16 + unat n * 24) bytes))" using in_range [of 0 "FrontMatterLen n"] n(3) fm unsigned_less [of "FrontMatterLen n", where ?'a = nat] by simp
  moreover have "with_existence None g = h" using h(2,3) by (simp add: with_existence_def)
  ultimately show ?thesis using n(4) h(1) by (simp add: ParseLazy_def)
qed

end

interpretation memory: section_fetch "MemoryFetch b" b for b
proof
  fix off len :: u64 assume le: "unat off + unat len \<le> length b" "unat off + unat len < 2 ^ 64"
  have "unat (off + len) = unat off + unat len" using le(2) by (simp add: unat_word_ariths)
  then show "MemoryFetch b off len = Some (Inr (take (unat len) (drop (unat off) b)))"
    using le(1) by (simp add: MemoryFetch_def Let_def bytes_at_def word_less_nat_alt)
qed

section \<open>Truncated files\<close>

lemma parse_entry_truncated:
  assumes r: "parse_entry IO b opts e g = Some (Inr g')"
  shows "parse_entry IO (take k b) opts e g = (if unat (de_Offset e + de_Length e) \<le> k then Some (Inr g') else Some (Inl ErrCorrupt))"
proof -
  let ?o = "de_Offset e" and ?f = "de_Offset e + de_Length e"
  have f: "\<not> ?f < ?o" "unat ?f \<le> length b" using r by (auto simp: parse_entry_def Let_def split: if_splits)
  have "bytes_at (take k b) (unat ?o) (unat ?f - unat ?o) = bytes_at b (unat ?o) (unat ?f - unat ?o)" if "unat ?f \<le> k"
    using f that by (simp add: bytes_at_def word_less_nat_alt take_drop)
  then show ?thesis using r f by (auto simp: parse_entry_def Let_def)
qed

lemma parse_entries_truncated:
  assumes "fold_res (parse_entry IO b opts) dir g = Some (Inr g')" "\<exists>e \<in> set dir. k < unat (de_Offset e + de_Length e)"
  shows "fold_res (parse_entry IO (take k b) opts) dir g = Some (Inl ErrCorrupt)"
  using assms
proof (induction dir arbitrary: g)
  case (Cons e dir)
  obtain g1 where g1: "parse_entry IO b opts e g = Some (Inr g1)" "fold_res (parse_entry IO b opts) dir g1 = Some (Inr g')"
    using Cons.prems(1) by (auto simp: rthen_Some)
  show ?case
  proof (cases "k < unat (de_Offset e + de_Length e)")
    case False
    then show ?thesis using parse_entry_truncated [OF g1(1), of k] Cons.IH [OF g1(2)] Cons.prems(2) by auto
  qed (simp add: parse_entry_truncated [OF g1(1)])
qed simp

lemma last_dir_entry:
  assumes "secs \<noteq> []" "off + length (concat (map snd secs)) < 2 ^ 64"
  shows "\<exists>e \<in> set (entry_list off secs). unat (de_Offset e + de_Length e) = off + length (concat (map snd secs))"
  using assms
proof (induction off secs rule: entry_list.induct)
  case (2 off i body secs)
  show ?case
  proof (cases "secs = []")
    case True
    then show ?thesis using 2(3) of_nat64_add [of off "length body"] by simp
  next
    case False
    then show ?thesis using 2(1) [OF False] 2(3) by (auto simp: add.assoc)
  qed
qed simp

lemma truncated_file:
  assumes ok: "section_ok IO g" and n: "length (written_bytes IO g wo) < 2 ^ 63" and k: "k < length (written_bytes IO g wo)"
  shows "ParseWith IO (take k (written_bytes IO g wo)) po = Some (Inl ErrCorrupt)"
proof -
  let ?s = "written_sections IO g wo" and ?b = "written_bytes IO g wo"
  let ?d = "entry_list (headerLen + length ?s * dirEntryLen) ?s"
  have l: "length ?s \<le> 1024" "?s \<noteq> []" by (simp_all add: written_sections_def split: option.split)
  have d: "ParseDirectory ?b = Some (Inr ?d)" using ParseDirectory_ok [OF l(1)] by (simp add: written_bytes_def file_bytes_eq)
  obtain h where h: "fold_res (parse_entry IO ?b po) ?d zero_GraphSection = Some (Inr h)"
    using ParseWith_ok [OF ok n, of po] d by (auto simp: ParseWith_def rthen_Some)
  have sz: "headerLen + length ?s * dirEntryLen + length (concat (map snd ?s)) = length ?b"
    by (simp add: written_bytes_def file_bytes_eq length_front)
  have "\<exists>e \<in> set ?d. unat (de_Offset e + de_Length e) = length ?b" unfolding sz [symmetric] by (rule last_dir_entry [OF l(2)]) (use sz n in simp)
  then have c: "\<exists>e \<in> set ?d. k < unat (de_Offset e + de_Length e)" using k by (metis (lifting))
  show ?thesis
  proof (rule ParseDirectory_prefix [OF d])
    fix m assume m: "\<And>k. 16 + unat m * 24 \<le> k \<Longrightarrow> ParseDirectory (take k ?b) = Some (Inr ?d)"
      "\<And>k. k < 16 + unat m * 24 \<Longrightarrow> ParseDirectory (take k ?b) = Some (Inl ErrCorrupt)"
    show ?thesis using m [of k] parse_entries_truncated [OF h c] by (cases "16 + unat m * 24 \<le> k") (simp_all add: ParseWith_def)
  qed
qed

section \<open>An instance of the bitmap serialization\<close>

definition list_io :: "u32 list roaring_io" where
  "list_io = \<lparr>rb_WriteTo = (\<lambda>b. Some (concat (map (\<lambda>x. le_bytes 4 (unat x)) (remdups b)))),
     rb_ReadFrom = (\<lambda>bs. Some (map (\<lambda>i. of_nat (le_nat (take 4 (drop (i * 4) bs)))) [0..<length bs div 4])),
     rb_GetSerializedSizeInBytes = (\<lambda>b. of_nat (length (remdups b) * 4))\<rparr>"

lemma list_io_laws: "io_laws list_roaring list_io"
  unfolding io_laws_def
proof
  fix b :: "u32 list"
  let ?r = "remdups b"
  let ?bs = "concat (map (\<lambda>x. le_bytes 4 (unat x)) ?r)"
  have l: "length ?bs = length ?r * 4" by (rule length_concat_same) simp
  have "length ?r = card (set b)" by (rule length_remdups_card_conv)
  also have "\<dots> \<le> CARD(32 word)" by (rule card_mono) simp_all
  also have "\<dots> = 2 ^ 32" by (simp add: card_word)
  finally have n: "length ?r * 4 < 2 ^ 64" by simp
  have "of_nat (le_nat (take 4 (drop (i * 4) ?bs))) = ?r ! i" if i: "i < length ?r" for i
  proof -
    have "le_load 4 ?bs (i * 4) = Some (unat (?r ! i))" using i unat_u32 by (intro le_load_concat) simp_all
    then show ?thesis by (auto simp: le_load_def bytes_at_def split: if_splits)
  qed
  then have "map (\<lambda>i. of_nat (le_nat (take 4 (drop (i * 4) ?bs)))) [0..<length ?bs div 4] = ?r"
    unfolding l by (intro nth_equalityI) simp_all
  moreover have "unat (of_nat (length ?r * 4) :: u64) = length ?r * 4" using n by (intro unat_of_nat_less) simp
  ultimately show "\<exists>bs b'. rb_WriteTo list_io b = Some bs \<and> unat (rb_GetSerializedSizeInBytes list_io b) = length bs
      \<and> rb_ReadFrom list_io bs = Some b' \<and> rb_set list_roaring b' = rb_set list_roaring b"
    unfolding list_io_def roaring_io.simps l by (intro exI [of _ ?bs] exI [of _ ?r]) (simp only: l refl simp_thms list_roaring_set set_remdups)
qed

section \<open>Properties\<close>

text \<open>A graph inside the bounds of the format; bitmaps are whatever the package serializes below the 32-bit length.\<close>

definition graph_fits :: "'bm roaring_io \<Rightarrow> 'bm GraphSection \<Rightarrow> bool" where
  "graph_fits IO g \<longleftrightarrow> (\<forall>s \<in> set (gs_Atoms g). atom_ok s) \<and> length (gs_Atoms g) < 2 ^ 32 \<and> (\<forall>v. gs_Version g = Some v \<longrightarrow> atom_ok v)
     \<and> (\<forall>e \<in> set (gs_LabelIndex g) \<union> set (gs_TypeIndex g). unat (rb_GetSerializedSizeInBytes IO (be_Bitmap e)) < 2 ^ 32)
     \<and> length (gs_LabelIndex g) < 2 ^ 32 \<and> length (gs_TypeIndex g) < 2 ^ 32
     \<and> (\<forall>v \<in> {gs_OutOffsets g, gs_OutNbrs g, gs_OutTypes g, gs_InOffsets g, gs_InNbrs g, gs_InTypes g}. length v < 2 ^ 32)
     \<and> (\<forall>c \<in> set (gs_NodeColumns g) \<union> set (gs_RelColumns g). data_ok (rc_Data c)) \<and> length (gs_NodeColumns g) < 2 ^ 32 \<and> length (gs_RelColumns g) < 2 ^ 32"

lemma graph_fits_ok:
  assumes "io_laws R IO" "graph_fits IO g"
  shows "section_ok IO g"
proof -
  have e: "entry_ok IO e" if "e \<in> set (gs_LabelIndex g) \<union> set (gs_TypeIndex g)" for e
  proof -
    have "unat (rb_GetSerializedSizeInBytes IO (be_Bitmap e)) < 2 ^ 32" using assms(2) that unfolding graph_fits_def by blast
    then show ?thesis using io_facts [OF assms(1), of "be_Bitmap e"] unfolding entry_ok_def by metis
  qed
  show ?thesis using assms(2) e io_facts(1,2) [OF assms(1)] unfolding section_ok_def graph_fits_def bitmap_index_ok_def rels_ok_section_def by auto
qed

text \<open>
  C8: the graph file round trip. With a bitmap package that keeps its serialization contract, a graph inside the bounds of the format
  is always written, and the written bytes parse, under any choice of written and wanted sections, to the same graph: every array,
  column, string and the version unchanged, bitmaps with the same members, the sections not written or not wanted empty, the atom
  index recomputed and accepted.
\<close>

theorem file_roundtrip:
  assumes io: "io_laws R IO" and g: "graph_fits IO g"
  shows "\<exists>bytes. WriteWith IO g wo = Some (Inr bytes)
    \<and> (length bytes < 2 ^ 63 \<longrightarrow> ParseWith IO bytes po = Some (Inr (read_back IO wo po g)))
    \<and> (\<forall>b. rb_set R (bm_reload IO b) = rb_set R b)"
  using WriteWith_ok [OF graph_fits_ok [OF io g]] ParseWith_ok [OF graph_fits_ok [OF io g]] io_facts(4) [OF io] by blast

definition example_section :: "u32 list GraphSection" where
  "example_section = zero_GraphSection\<lparr>gs_NNodes := 2, gs_NRels := 1, gs_OutOffsets := [0, 1, 1], gs_OutNbrs := [1], gs_OutTypes := [1],
     gs_InOffsets := [0, 0, 1], gs_InNbrs := [0], gs_InTypes := [1], gs_LabelIndex := [\<lparr>be_Atom = 1, be_Bitmap = [0, 1]\<rparr>],
     gs_NodeColumns := [\<lparr>rc_Key = 1, rc_Data = SparseI64 [(0, 7)]\<rparr>], gs_Version := Some ''v1'', gs_Atoms := ['''', ''A''], gs_Existence := Some [0, 1]\<rparr>"

lemma ascii_valid: "\<forall>b \<in> set bs. b < 0x80 \<Longrightarrow> utf8_Valid bs"
  by (induction bs) simp_all

lemma example_section_fits: "graph_fits list_io example_section"
  by (simp add: graph_fits_def example_section_def zero_GraphSection_def atom_ok_def ascii_valid str_bytes_def list_io_def)

lemma example_size: "length (written_bytes list_io example_section DefaultWriteOptions) = 309"
  by (simp add: written_bytes_def file_bytes_eq length_front written_sections_def DefaultWriteOptions_def example_section_def zero_GraphSection_def
      length_atoms_bytes atoms_size_def meta_bytes_def atom_bytes_def nodes_bytes_def bitmap_index_bytes_def entry_bytes_def bm_bytes_def list_io_def rels_bytes_def vec_bytes_def
      columns_bytes_def column_bytes_def headerLen_def dirEntryLen_def)

theorem file_roundtrip_witness:
  "\<exists>bytes. WriteWith list_io example_section DefaultWriteOptions = Some (Inr bytes) \<and> length bytes = 309
    \<and> ParseWith list_io bytes DefaultParseOptions = Some (Inr (read_back list_io DefaultWriteOptions DefaultParseOptions example_section))"
  using file_roundtrip [OF list_io_laws example_section_fits, of DefaultWriteOptions DefaultParseOptions]
    WriteWith_ok [OF graph_fits_ok [OF list_io_laws example_section_fits], of DefaultWriteOptions] example_size by auto

text \<open>
  C9: parsing any bytes at all returns: no index, slice or conversion of the parser panics, and an error is one of the two the
  format declares. This covers the directory, the eager parse under every option, and the lazy parse over an in-memory file.
\<close>

theorem parse_never_panics:
  "ParseWith IO b opts \<in> {Some (Inl ErrCorrupt), Some (Inl ErrUnsupportedVersion)} \<union> range (\<lambda>g. Some (Inr g))
    \<and> ParseDirectory b \<in> {Some (Inl ErrCorrupt), Some (Inl ErrUnsupportedVersion)} \<union> range (\<lambda>d. Some (Inr d))
    \<and> ParseLazy IO (MemoryFetch b) opts \<in> {Some (Inl ErrCorrupt), Some (Inl ErrUnsupportedVersion)} \<union> range (\<lambda>g. Some (Inr g))"
proof -
  have m: "settles (MemoryFetch b off len)" for off len
    by (auto simp: MemoryFetch_def Let_def bytes_at_def word_less_nat_alt)
  have e: "settles (lazy_entry IO (MemoryFetch b) opts e g)" for e and g :: "'a GraphSection"
    unfolding lazy_entry_def by (auto intro!: rthen_settles m decodeSection_returns)
  have l: "settles (ParseLazy IO (MemoryFetch b) opts)"
    unfolding ParseLazy_def by (intro rthen_settles m SectionCount_returns ParseDirectory_returns fold_res_returns e)
  show ?thesis by (intro conjI settles_cases ParseWith_returns ParseDirectory_returns l)
qed

text \<open>
  C10: a file cut short anywhere, in the header, the directory or a section, is refused as corrupt under every parse option.
\<close>

theorem truncated_rejected:
  assumes io: "io_laws R IO" and g: "graph_fits IO g" and w: "WriteWith IO g wo = Some (Inr bytes)" "length bytes < 2 ^ 63" and k: "k < length bytes"
  shows "ParseWith IO (take k bytes) po = Some (Inl ErrCorrupt)"
  using truncated_file [OF graph_fits_ok [OF io g]] WriteWith_ok [OF graph_fits_ok [OF io g], of wo] w k by auto

theorem truncated_rejected_witness:
  "ParseWith list_io (take 100 (written_bytes list_io example_section DefaultWriteOptions)) TopologyOnlyParseOptions = Some (Inl ErrCorrupt)"
  by (rule truncated_rejected [OF list_io_laws example_section_fits WriteWith_ok [OF graph_fits_ok [OF list_io_laws example_section_fits]]])
    (simp_all add: example_size)

text \<open>
  C12: over any provider that delivers the ranges of a file exactly, the lazy parse accepts every file that the eager parse accepts,
  under every option, and returns the same graph, except that it never returns an existence bitmap: the section is not among those it
  fetches, although the code promises an identical result.
\<close>

theorem lazy_equals_eager:
  assumes fetch: "\<And>off len. unat off + unat len \<le> length bytes \<Longrightarrow> unat off + unat len < 2 ^ 64 \<Longrightarrow> f off len = Some (Inr (take (unat len) (drop (unat off) bytes)))"
    and eager: "ParseWith IO bytes opts = Some (Inr g)"
  shows "ParseLazy IO f opts = Some (Inr (g\<lparr>gs_Existence := None\<rparr>))"
  using section_fetch.ParseLazy_eager [OF section_fetch.intro eager, of f] fetch by (simp add: with_existence_def)

theorem lazy_equals_eager_witness:
  "\<exists>g. ParseLazy list_io (MemoryFetch (written_bytes list_io example_section (DefaultWriteOptions\<lparr>wo_Existence := True\<rparr>))) DefaultParseOptions = Some (Inr (g\<lparr>gs_Existence := None\<rparr>))
    \<and> ParseWith list_io (written_bytes list_io example_section (DefaultWriteOptions\<lparr>wo_Existence := True\<rparr>)) DefaultParseOptions = Some (Inr g) \<and> gs_Existence g \<noteq> None"
proof -
  let ?wo = "DefaultWriteOptions\<lparr>wo_Existence := True\<rparr>"
  have "length (written_bytes list_io example_section ?wo) < 2 ^ 63"
    by (simp add: written_bytes_def file_bytes_eq length_front written_sections_def DefaultWriteOptions_def example_section_def zero_GraphSection_def
      length_atoms_bytes atoms_size_def meta_bytes_def atom_bytes_def nodes_bytes_def bitmap_index_bytes_def entry_bytes_def bm_bytes_def list_io_def rels_bytes_def vec_bytes_def
      columns_bytes_def column_bytes_def headerLen_def dirEntryLen_def)
  then have p: "ParseWith list_io (written_bytes list_io example_section ?wo) DefaultParseOptions = Some (Inr (read_back list_io ?wo DefaultParseOptions example_section))"
    by (rule ParseWith_ok [OF graph_fits_ok [OF list_io_laws example_section_fits]])
  show ?thesis
    using lazy_equals_eager [OF memory.in_range p] p by (auto simp: read_back_def example_section_def DefaultWriteOptions_def)
qed

end
