(* ===== verification/AtomReader.thy ===== *)
theory AtomReader
  imports RcpgCorrect "HOL-Library.AList"
begin

text \<open>
  Block-lazy atom resolution (\<open>rcpg/atoms_lazy.go\<close>): a reader that range-fetches blocks of atoms on demand, finding block boundaries by
  an incremental scan of the length prefixes or from the file's own index, with a bounded FIFO cache. The mutex makes each call one
  step; a call returns its result with the reader's new state, also when it fails.
\<close>

section \<open>Model\<close>

record AtomReader =
  ar_off :: u64
  ar_size :: u64
  ar_n :: u32
  ar_blockLen :: u32
  ar_scanChunk :: u64
  ar_cacheCap :: nat
  ar_starts :: "u64 list"
  ar_frontier :: u64
  ar_scanned :: u32
  ar_cache :: "(u32 \<times> string list) list"
  ar_fifo :: "u32 list"

type_synonym 'a arres = "((rcpg_error + 'a) \<times> AtomReader) option"

definition atomBlockLen :: u32 where
  "atomBlockLen = 1024"

definition atomScanChunk :: u64 where
  "atomScanChunk = 524288"

definition atomCacheBlocks :: nat where
  "atomCacheBlocks = 32"

definition adoptIndex :: "fetch \<Rightarrow> DirEntry \<Rightarrow> u32 \<Rightarrow> AtomReader \<Rightarrow> AtomReader res" where
  "adoptIndex f entry cnt r = rthen (f (de_Offset entry) (de_Length entry)) (\<lambda>body. rthen (decodeAtomIndex body) (\<lambda>idx.
     if ai_BlockLen idx = 0 then Some (Inl ErrCorrupt)
     else
       let expected = (unat cnt + unat (ai_BlockLen idx) - 1) div unat (ai_BlockLen idx);
           offs = ai_Offsets idx;
           r' = r\<lparr>ar_blockLen := ai_BlockLen idx, ar_starts := offs, ar_scanned := cnt, ar_frontier := ar_size r\<rparr> in
       if length offs \<noteq> expected then Some (Inl ErrCorrupt)
       else if expected > 0 then
         (case (slice_at offs 0, slice_at offs (length offs - 1)) of
            (Some o0, Some ol) \<Rightarrow> if o0 \<noteq> 4 then Some (Inl ErrCorrupt) else if ol \<ge> ar_size r then Some (Inl ErrCorrupt) else Some (Inr r')
          | _ \<Rightarrow> None)
       else Some (Inr r')))"

text \<open>The last entry of an identifier wins.\<close>

definition last_entry :: "u32 \<Rightarrow> DirEntry list \<Rightarrow> DirEntry option" where
  "last_entry i entries = fold (\<lambda>e found. if de_ID e = i then Some e else found) entries None"

definition newAtomReader :: "fetch \<Rightarrow> DirEntry list \<Rightarrow> u32 \<Rightarrow> u64 \<Rightarrow> nat \<Rightarrow> AtomReader res" where
  "newAtomReader f dir blockLen scanChunk cacheCap =
     (case last_entry sectionAtoms dir of
        None \<Rightarrow> Some (Inl ErrCorrupt)
      | Some entry \<Rightarrow>
          if de_Length entry < 4 then Some (Inl ErrCorrupt)
          else rthen (f (de_Offset entry) 4) (\<lambda>head.
            case le_load 4 head 0 of
              None \<Rightarrow> None
            | Some cnt \<Rightarrow>
                let count = of_nat cnt :: u32 in
                if ucast count > de_Length entry - 4 then Some (Inl ErrCorrupt)
                else
                  let r = \<lparr>ar_off = de_Offset entry, ar_size = de_Length entry, ar_n = count, ar_blockLen = max blockLen 1,
                           ar_scanChunk = max scanChunk 16, ar_cacheCap = max cacheCap 1, ar_starts = [4], ar_frontier = 4, ar_scanned = 0,
                           ar_cache = [], ar_fifo = []\<rparr> in
                  (case last_entry sectionAtomIndex dir of
                     None \<Rightarrow> Some (Inr r)
                   | Some idxEntry \<Rightarrow> adoptIndex f idxEntry count r)))"

definition NewAtomReader :: "fetch \<Rightarrow> DirEntry list \<Rightarrow> AtomReader res" where
  "NewAtomReader f dir = newAtomReader f dir atomBlockLen atomScanChunk atomCacheBlocks"

definition AtomReader_Count :: "AtomReader \<Rightarrow> u32" where
  "AtomReader_Count r = ar_n r"

text \<open>The inner loop over the length prefixes of a fetched chunk; the result is the position reached and the size of the next fetch.\<close>

partial_function (option) scan_buf :: "u32 \<Rightarrow> u8 list \<Rightarrow> u64 \<Rightarrow> u64 \<Rightarrow> AtomReader \<Rightarrow> (u64 \<times> u64) arres" where
  "scan_buf target buf pos need r =
     (if \<not> (ar_scanned r < target \<and> pos + 4 \<le> of_nat (length buf)) then Some (Inr (pos, need), r)
      else case le_load 4 buf (unat pos) of
        None \<Rightarrow> None
      | Some sl \<Rightarrow>
          let slen = of_nat sl :: u64 in
          if ar_frontier r + pos + 4 + slen > ar_size r then Some (Inl ErrCorrupt, r)
          else if pos + 4 + slen > of_nat (length buf) then Some (Inr (pos, 4 + slen), r)
          else
            let pos' = pos + (4 + slen);
                s = ar_scanned r + 1 in
            if ar_blockLen r = 0 then None
            else scan_buf target buf pos' need
              (r\<lparr>ar_scanned := s, ar_starts := if s mod ar_blockLen r = 0 then ar_starts r @ [ar_frontier r + pos'] else ar_starts r\<rparr>))"

partial_function (option) scan_loop :: "fetch \<Rightarrow> u32 \<Rightarrow> u64 \<Rightarrow> AtomReader \<Rightarrow> unit arres" where
  "scan_loop f target need r =
     (if \<not> ar_scanned r < target then Some (Inr (), r)
      else
        let remain = ar_size r - ar_frontier r in
        if remain = 0 then Some (Inl ErrCorrupt, r)
        else case f (ar_off r + ar_frontier r) (min need remain) of
          None \<Rightarrow> None
        | Some (Inl e) \<Rightarrow> Some (Inl e, r)
        | Some (Inr buf) \<Rightarrow> (case scan_buf target buf 0 (ar_scanChunk r) r of
              None \<Rightarrow> None
            | Some (Inl e, r) \<Rightarrow> Some (Inl e, r)
            | Some (Inr (pos, need), r) \<Rightarrow>
                if pos = 0 \<and> need = ar_scanChunk r then Some (Inl ErrCorrupt, r)
                else scan_loop f target need (r\<lparr>ar_frontier := ar_frontier r + pos\<rparr>)))"

declare scan_buf.simps [code] scan_loop.simps [code]

definition ensureScanned :: "fetch \<Rightarrow> u32 \<Rightarrow> AtomReader \<Rightarrow> unit arres" where
  "ensureScanned f target r = scan_loop f target (ar_scanChunk r) r"

text \<open>The FIFO eviction and the insertion of a decoded block.\<close>

definition cache_block :: "u32 \<Rightarrow> string list \<Rightarrow> AtomReader \<Rightarrow> AtomReader option" where
  "cache_block b blk r = do {
     r \<leftarrow> (if length (ar_cache r) \<ge> ar_cacheCap r then
             map_option (\<lambda>k. r\<lparr>ar_cache := AList.delete k (ar_cache r), ar_fifo := tl (ar_fifo r)\<rparr>) (slice_at (ar_fifo r) 0)
           else Some r);
     Some (r\<lparr>ar_cache := AList.update b blk (ar_cache r), ar_fifo := ar_fifo r @ [b]\<rparr>)
   }"

definition block_last :: "u32 \<Rightarrow> AtomReader \<Rightarrow> u32" where
  "block_last b r = ucast (min (ucast (b + 1) * ucast (ar_blockLen r) :: u64) (ucast (ar_n r)))"

definition loadBlock :: "fetch \<Rightarrow> u32 \<Rightarrow> AtomReader \<Rightarrow> string list arres" where
  "loadBlock f b r =
     (let last = block_last b r in
      case ensureScanned f last r of
        None \<Rightarrow> None
      | Some (Inl e, r) \<Rightarrow> Some (Inl e, r)
      | Some (Inr _, r) \<Rightarrow> (case slice_at (ar_starts r) (unat b) of
            None \<Rightarrow> None
          | Some start \<Rightarrow>
              let fin = (if unat b + 1 < length (ar_starts r) then ar_starts r ! (unat b + 1) else ar_frontier r) in
              (case f (ar_off r + start) (fin - start) of
                 None \<Rightarrow> None
               | Some (Inl e) \<Rightarrow> Some (Inl e, r)
               | Some (Inr body) \<Rightarrow> (case rtimes (unat (last - b * ar_blockLen r)) cur_str (newCursor body) of
                     None \<Rightarrow> None
                   | Some (Inl e) \<Rightarrow> Some (Inl e, r)
                   | Some (Inr (blk, c)) \<Rightarrow>
                       if remaining c \<noteq> 0 then Some (Inl ErrCorrupt, r)
                       else map_option (\<lambda>r. (Inr blk, r)) (cache_block b blk r)))))"

definition Atom :: "fetch \<Rightarrow> u32 \<Rightarrow> AtomReader \<Rightarrow> string arres" where
  "Atom f i r =
     (if i \<ge> ar_n r then Some (Inl ErrCorrupt, r)
      else if ar_blockLen r = 0 then None
      else
        let b = i div ar_blockLen r;
            pick = (\<lambda>(blk, r). map_option (\<lambda>s. (Inr s, r)) (slice_at blk (unat (i mod ar_blockLen r)))) in
        case map_of (ar_cache r) b of
          Some blk \<Rightarrow> pick (blk, r)
        | None \<Rightarrow> (case loadBlock f b r of
              None \<Rightarrow> None
            | Some (Inl e, r) \<Rightarrow> Some (Inl e, r)
            | Some (Inr blk, r) \<Rightarrow> pick (blk, r)))"

section \<open>Offsets of atoms\<close>

text \<open>Where atom \<open>k\<close> starts in the section, and the blocks.\<close>

definition atom_off :: "string list \<Rightarrow> nat \<Rightarrow> nat" where
  "atom_off atoms k = 4 + atoms_size (take k atoms)"

definition atom_block :: "string list \<Rightarrow> nat \<Rightarrow> nat \<Rightarrow> string list" where
  "atom_block atoms bl b = take bl (drop (b * bl) atoms)"

lemma atom_off_Suc: "k < length atoms \<Longrightarrow> atom_off atoms (Suc k) = atom_off atoms k + 4 + length (atoms ! k)"
  by (simp add: atom_off_def atoms_size_def take_Suc_conv_app_nth)

lemma atom_off_0 [simp]: "atom_off atoms 0 = 4"
  by (simp add: atom_off_def atoms_size_def)

lemma atom_off_mono: "j \<le> k \<Longrightarrow> atom_off atoms j \<le> atom_off atoms k"
proof -
  assume "j \<le> k"
  then have "take k atoms = take j atoms @ take (k - j) (drop j atoms)" using take_add [of j "k - j" atoms] by simp
  then show ?thesis by (simp add: atom_off_def atoms_size_def)
qed

lemma atom_off_end: "atom_off atoms (length atoms) = length (atoms_bytes atoms)"
  by (simp add: atom_off_def length_atoms_bytes)

lemma atoms_bytes_split:
  "j \<le> k \<Longrightarrow> k \<le> length atoms \<Longrightarrow> take (atom_off atoms k - atom_off atoms j) (drop (atom_off atoms j) (atoms_bytes atoms)) = concat (map atom_bytes (take (k - j) (drop j atoms)))"
proof -
  assume jk: "j \<le> k" "k \<le> length atoms"
  let ?m = "take (k - j) (drop j atoms)"
  have t: "take k atoms = take j atoms @ ?m" using jk take_add [of j "k - j" atoms] by simp
  have s: "atoms = take j atoms @ ?m @ drop k atoms" using append_take_drop_id [of k atoms] unfolding t by simp
  have b: "atoms_bytes atoms = (len_bytes (length atoms) @ concat (map atom_bytes (take j atoms))) @ concat (map atom_bytes ?m) @ concat (map atom_bytes (drop k atoms))"
    unfolding atoms_bytes_def using arg_cong [OF s, of "\<lambda>x. concat (map atom_bytes x)"] by simp
  have l: "length (len_bytes (length atoms) @ concat (map atom_bytes (take j atoms))) = atom_off atoms j" by (simp add: atom_off_def length_atoms_bytes)
  have "atom_off atoms k - atom_off atoms j = length (concat (map atom_bytes ?m))" unfolding length_atoms_bytes atom_off_def t by (simp add: atoms_size_def)
  then show ?thesis unfolding b using l by simp
qed

lemma atom_prefix:
  assumes "k < length atoms" "length (atoms ! k) < 2 ^ 32" "4 \<le> m"
  shows "le_nat (take 4 (take m (drop (atom_off atoms k) (atoms_bytes atoms)))) = length (atoms ! k)"
proof -
  have "take (atom_off atoms (Suc k) - atom_off atoms k) (drop (atom_off atoms k) (atoms_bytes atoms)) = atom_bytes (atoms ! k)"
    using atoms_bytes_split [of k "Suc k" atoms] assms(1) by (simp add: take_Suc hd_drop_conv_nth)
  then have "take 4 (drop (atom_off atoms k) (atoms_bytes atoms)) = take 4 (atom_bytes (atoms ! k))"
    using atom_off_Suc [OF assms(1)] by (metis add.assoc add_diff_cancel_left' le_add1 min.absorb1 take_take)
  moreover have "le_nat (take 4 (atom_bytes (atoms ! k))) = length (atoms ! k)" using assms(2) by (simp add: atom_bytes_def len_bytes_def le_nat_bytes)
  ultimately show ?thesis using assms(3) by (simp add: min_def)
qed

section \<open>Readers of a well-formed section\<close>

definition reader_inv :: "u64 \<Rightarrow> string list \<Rightarrow> AtomReader \<Rightarrow> bool" where
  "reader_inv off atoms r \<longleftrightarrow> ar_off r = off \<and> ar_size r = of_nat (length (atoms_bytes atoms)) \<and> ar_n r = of_nat (length atoms) \<and> ar_blockLen r \<noteq> 0
     \<and> 16 \<le> ar_scanChunk r \<and> 0 < ar_cacheCap r \<and> unat (ar_scanned r) \<le> length atoms \<and> ar_frontier r = of_nat (atom_off atoms (unat (ar_scanned r)))
     \<and> (\<exists>m. ar_starts r = map (\<lambda>k. of_nat (atom_off atoms (k * unat (ar_blockLen r)))) [0..<m]
         \<and> (m = unat (ar_scanned r) div unat (ar_blockLen r) + 1
            \<or> unat (ar_scanned r) = length atoms \<and> m = (length atoms + unat (ar_blockLen r) - 1) div unat (ar_blockLen r)))
     \<and> distinct (map fst (ar_cache r)) \<and> (\<forall>(b, blk) \<in> set (ar_cache r). blk = atom_block atoms (unat (ar_blockLen r)) (unat b))
     \<and> distinct (ar_fifo r) \<and> set (ar_fifo r) = fst ` set (ar_cache r) \<and> length (ar_cache r) \<le> ar_cacheCap r"

lemma ucast_nat: "n < 2 ^ LENGTH('a) \<Longrightarrow> ucast (of_nat n :: 'a::len word) = (of_nat n :: 'b::len word)"
  by (metis of_nat_unat unat_of_nat_less)

lemma min_nat: "m < 2 ^ LENGTH('a) \<Longrightarrow> n < 2 ^ LENGTH('a) \<Longrightarrow> min (of_nat m) (of_nat n :: 'a::len word) = of_nat (min m n)"
  by (auto simp: min_def word_le_nat_alt)

lemma reader_inv_facts:
  assumes "reader_inv off atoms r"
  shows "ar_off r = off" "ar_size r = of_nat (length (atoms_bytes atoms))" "ar_n r = of_nat (length atoms)" "ar_blockLen r \<noteq> 0" "0 < unat (ar_blockLen r)"
    "unat (ar_scanned r) \<le> length atoms" "ar_frontier r = of_nat (atom_off atoms (unat (ar_scanned r)))"
  using assms unfolding reader_inv_def by (elim conjE, simp add: unat_gt_0)+

text \<open>One turn of the inner loop.\<close>

lemma scan_buf_stop: "\<not> (ar_scanned r < t \<and> pos + 4 \<le> of_nat (length buf)) \<Longrightarrow> scan_buf t buf pos need r = Some (Inr (pos, need), r)"
  by (subst scan_buf.simps) (simp only: if_True not_False_eq_True simp_thms)

lemma scan_buf_turn:
  assumes "ar_scanned r < t" "pos + 4 \<le> of_nat (length buf)" "le_load 4 buf (unat pos) = Some sl" "\<not> ar_frontier r + pos + 4 + of_nat sl > ar_size r"
  shows "pos + 4 + of_nat sl > of_nat (length buf) \<Longrightarrow> scan_buf t buf pos need r = Some (Inr (pos, 4 + of_nat sl), r)"
    "\<not> pos + 4 + of_nat sl > of_nat (length buf) \<Longrightarrow> ar_blockLen r \<noteq> 0 \<Longrightarrow> scan_buf t buf pos need r = scan_buf t buf (pos + (4 + of_nat sl)) need
      (r\<lparr>ar_scanned := ar_scanned r + 1, ar_starts := if (ar_scanned r + 1) mod ar_blockLen r = 0 then ar_starts r @ [ar_frontier r + (pos + (4 + of_nat sl))] else ar_starts r\<rparr>)"
proof -
  note c = assms(1,2) assms(3) assms(4)
  show "pos + 4 + of_nat sl > of_nat (length buf) \<Longrightarrow> scan_buf t buf pos need r = Some (Inr (pos, 4 + of_nat sl), r)"
    by (subst scan_buf.simps) (simp only: c Let_def option.case if_True if_False simp_thms not_True_eq_False)
  show "scan_buf t buf pos need r = scan_buf t buf (pos + (4 + of_nat sl)) need
      (r\<lparr>ar_scanned := ar_scanned r + 1, ar_starts := if (ar_scanned r + 1) mod ar_blockLen r = 0 then ar_starts r @ [ar_frontier r + (pos + (4 + of_nat sl))] else ar_starts r\<rparr>)"
    if "\<not> pos + 4 + of_nat sl > of_nat (length buf)" "ar_blockLen r \<noteq> 0"
    by (subst scan_buf.simps) (simp only: c that Let_def option.case if_True if_False simp_thms not_True_eq_False)
qed

text \<open>The reader after scanning \<open>s\<close> atoms.\<close>

definition scan_state :: "string list \<Rightarrow> AtomReader \<Rightarrow> nat \<Rightarrow> AtomReader" where
  "scan_state atoms r s = r\<lparr>ar_scanned := of_nat s, ar_starts := map (\<lambda>k. of_nat (atom_off atoms (k * unat (ar_blockLen r)))) [0..<s div unat (ar_blockLen r) + 1]\<rparr>"

lemma scan_state_fields [simp]:
  "ar_scanned (scan_state atoms r s) = of_nat s" "ar_blockLen (scan_state atoms r s) = ar_blockLen r" "ar_size (scan_state atoms r s) = ar_size r"
  "ar_frontier (scan_state atoms r s) = ar_frontier r" "ar_scanChunk (scan_state atoms r s) = ar_scanChunk r" "ar_off (scan_state atoms r s) = ar_off r"
  by (simp_all add: scan_state_def)

text \<open>Passing one more atom records a block boundary exactly at the multiples of the block length.\<close>

lemma scan_state_next:
  assumes "ar_blockLen r \<noteq> 0" "Suc s < 2 ^ 32" "v = of_nat (atom_off atoms (Suc s))"
  shows "(scan_state atoms r s)\<lparr>ar_scanned := of_nat s + 1, ar_starts := if (of_nat s + 1) mod ar_blockLen r = 0 then ar_starts (scan_state atoms r s) @ [v]
      else ar_starts (scan_state atoms r s)\<rparr> = scan_state atoms r (Suc s)"
proof -
  let ?b = "unat (ar_blockLen r)"
  have b: "0 < ?b" using assms(1) by (simp add: unat_gt_0)
  have u: "unat (of_nat (Suc s) :: u32) = Suc s" using assms(2) by (intro unat_of_nat_less) simp
  have "((of_nat s + 1 :: u32) mod ar_blockLen r = 0) = (unat ((of_nat (Suc s) :: u32) mod ar_blockLen r) = 0)"
    by (simp add: add.commute unsigned_eq_0_iff)
  then have m: "((of_nat s + 1 :: u32) mod ar_blockLen r = 0) = (Suc s mod ?b = 0)" unfolding unat_mod_distrib u .
  have "Suc s div ?b = (if Suc s mod ?b = 0 then s div ?b + 1 else s div ?b)" using div_Suc [of s ?b] by simp
  moreover have "Suc s div ?b * ?b = Suc s" if "Suc s mod ?b = 0" using that div_mult_mod_eq [of "Suc s" ?b] by simp
  ultimately show ?thesis unfolding m using assms(3) by (auto simp: scan_state_def add.commute)
qed

definition at_atom :: "string list \<Rightarrow> AtomReader \<Rightarrow> nat \<Rightarrow> AtomReader" where
  "at_atom atoms r s = scan_state atoms (r\<lparr>ar_frontier := of_nat (atom_off atoms s)\<rparr>) s"

lemma at_atom_fields [simp]:
  "ar_scanned (at_atom atoms r s) = of_nat s" "ar_blockLen (at_atom atoms r s) = ar_blockLen r" "ar_size (at_atom atoms r s) = ar_size r"
  "ar_frontier (at_atom atoms r s) = of_nat (atom_off atoms s)" "ar_scanChunk (at_atom atoms r s) = ar_scanChunk r" "ar_off (at_atom atoms r s) = ar_off r"
  by (simp_all add: at_atom_def)

text \<open>One turn of the outer loop.\<close>

lemma scan_loop_turn:
  assumes "ar_scanned r < t" "ar_size r - ar_frontier r \<noteq> 0" "f (ar_off r + ar_frontier r) (min need (ar_size r - ar_frontier r)) = Some (Inr buf)"
    "scan_buf t buf 0 (ar_scanChunk r) r = Some (Inr (pos, need'), r')" "\<not> (pos = 0 \<and> need' = ar_scanChunk r')"
  shows "scan_loop f t need r = scan_loop f t need' (r'\<lparr>ar_frontier := ar_frontier r' + pos\<rparr>)"
  by (subst scan_loop.simps) (simp only: assms Let_def option.case sum.case prod.case if_True if_False simp_thms not_True_eq_False)

text \<open>Which boundary ends a block: the next recorded one, or the frontier when the block is the last.\<close>

lemma ceil_div_less:
  fixes k n bl :: nat
  assumes "0 < bl"
  shows "k < (n + bl - 1) div bl \<longleftrightarrow> k * bl < n"
proof -
  have "k < (n + bl - 1) div bl \<longleftrightarrow> Suc k * bl \<le> n + bl - 1" using assms by (simp add: less_eq_div_iff_mult_less_eq flip: Suc_le_eq)
  then show ?thesis using assms by auto
qed

lemma block_position:
  fixes b bl m n s t :: nat
  assumes bl: "0 < bl" and m: "m = s div bl + 1 \<or> s = n \<and> m = (n + bl - 1) div bl" and t: "t = min ((b + 1) * bl) n" and s: "s \<le> n" "t \<le> s" and b: "b * bl < n"
  shows "b < m \<and> (b + 1 < m \<longrightarrow> t = (b + 1) * bl) \<and> (\<not> b + 1 < m \<longrightarrow> t = s)"
  using m
proof
  assume m: "m = s div bl + 1"
  have "b * bl \<le> (b + 1) * bl" by simp
  then have "b * bl \<le> s" using b t s by (cases "(b + 1) * bl \<le> n") (simp_all add: min_def)
  then have "b \<le> s div bl" using bl by (simp add: less_eq_div_iff_mult_less_eq)
  then have "b < m" using m by simp
  moreover have "t = (b + 1) * bl" if "b + 1 < m"
  proof -
    have "(b + 1) * bl \<le> s" using that m less_eq_div_iff_mult_less_eq [OF bl, of "b + 1" s] by simp
    then show ?thesis using t s(1) by (simp add: min_def)
  qed
  moreover have "t = s" if "\<not> b + 1 < m"
  proof -
    have "s < (b + 1) * bl" using that m div_less_iff_less_mult [OF bl, of s "b + 1"] by simp
    then show ?thesis using t s by (auto simp: min_def split: if_splits)
  qed
  ultimately show ?thesis by blast
next
  assume m: "s = n \<and> m = (n + bl - 1) div bl"
  have c: "k < m \<longleftrightarrow> k * bl < n" for k using m ceil_div_less [OF bl] by simp
  show ?thesis using c [of b] c [of "b + 1"] b t m by (auto simp: min_def)
qed

text \<open>The cache keeps its bound and its order of arrival.\<close>

lemma update_new: "k \<notin> fst ` set al \<Longrightarrow> AList.update k v al = al @ [(k, v)]"
  by (induction al) auto

lemma cache_block_ok:
  assumes inv: "reader_inv off atoms r" and new: "b \<notin> fst ` set (ar_cache r)"
  shows "\<exists>r'. cache_block b (atom_block atoms (unat (ar_blockLen r)) (unat b)) r = Some r' \<and> reader_inv off atoms r' \<and> ar_blockLen r' = ar_blockLen r \<and> ar_cacheCap r' = ar_cacheCap r"
proof -
  let ?blk = "atom_block atoms (unat (ar_blockLen r)) (unat b)"
  have c: "distinct (map fst (ar_cache r))" "\<forall>(k, blk) \<in> set (ar_cache r). blk = atom_block atoms (unat (ar_blockLen r)) (unat k)"
    "distinct (ar_fifo r)" "set (ar_fifo r) = fst ` set (ar_cache r)" "length (ar_cache r) \<le> ar_cacheCap r" "0 < ar_cacheCap r"
    using inv by (simp_all add: reader_inv_def)
  have put: "reader_inv off atoms (r\<lparr>ar_cache := AList.update b ?blk cs, ar_fifo := fs @ [b]\<rparr>)"
    if "distinct (map fst cs)" "set cs \<subseteq> set (ar_cache r)" "distinct fs" "set fs = fst ` set cs" "length cs < ar_cacheCap r" for cs fs
  proof -
    have "b \<notin> fst ` set cs" using new that(2) by auto
    then show ?thesis using inv that unfolding reader_inv_def by (auto simp: update_new)
  qed
  show ?thesis
  proof (cases "length (ar_cache r) \<ge> ar_cacheCap r")
    case True
    then have "ar_cache r \<noteq> []" using c(6) by auto
    then obtain k fs where f: "ar_fifo r = k # fs" using c(4) by (cases "ar_fifo r") auto
    have k: "k \<in> fst ` set (ar_cache r)" "k \<notin> set fs" using f c(3,4) by auto
    have ks: "fst ` set (AList.delete k (ar_cache r)) = fst ` set (ar_cache r) - {k}" using delete_keys [of k "ar_cache r"] by (metis list.set_map set_removeAll)
    have "card (fst ` set (AList.delete k (ar_cache r))) < card (fst ` set (ar_cache r))" unfolding ks using k(1) by (intro psubset_card_mono) auto
    moreover have "distinct (map fst (AList.delete k (ar_cache r)))" using c(1) by (rule distinct_delete)
    ultimately have l: "length (AList.delete k (ar_cache r)) < ar_cacheCap r"
      using distinct_card [of "map fst (AList.delete k (ar_cache r))"] distinct_card [OF c(1)] c(5) by simp
    have "cache_block b ?blk r = Some (r\<lparr>ar_cache := AList.update b ?blk (AList.delete k (ar_cache r)), ar_fifo := fs @ [b]\<rparr>)"
      using True f by (simp add: cache_block_def)
    moreover have "set (AList.delete k (ar_cache r)) \<subseteq> set (ar_cache r)" by (auto simp: AList.delete_eq)
    then have "reader_inv off atoms (r\<lparr>ar_cache := AList.update b ?blk (AList.delete k (ar_cache r)), ar_fifo := fs @ [b]\<rparr>)"
      using c(1,3,4) f k ks l by (intro put) (auto simp: distinct_delete)
    ultimately show ?thesis by auto
  next
    case False
    then have "reader_inv off atoms (r\<lparr>ar_cache := AList.update b ?blk (ar_cache r), ar_fifo := ar_fifo r @ [b]\<rparr>)" using c by (intro put) auto
    then show ?thesis using False by (simp add: cache_block_def)
  qed
qed

text \<open>A file with an atoms section at \<open>off\<close>, and a provider of its ranges.\<close>

definition atom_section :: "u8 list \<Rightarrow> u64 \<Rightarrow> string list \<Rightarrow> bool" where
  "atom_section bytes off atoms \<longleftrightarrow> take (length (atoms_bytes atoms)) (drop (unat off) bytes) = atoms_bytes atoms
     \<and> unat off + length (atoms_bytes atoms) \<le> length bytes \<and> length bytes < 2 ^ 64 \<and> (\<forall>s \<in> set atoms. atom_ok s) \<and> length atoms < 2 ^ 32"

lemma atom_section_facts:
  assumes "atom_section bytes off atoms"
  shows "take (length (atoms_bytes atoms)) (drop (unat off) bytes) = atoms_bytes atoms"
    "unat off + length (atoms_bytes atoms) \<le> length bytes" "length bytes < 2 ^ 64" "\<forall>s \<in> set atoms. atom_ok s" "length atoms < 2 ^ 32"
  using assms by (simp_all add: atom_section_def)

lemmas section_at = atom_section_facts(1) and in_file = atom_section_facts(2,3) and atoms_fit = atom_section_facts(4,5)

context section_fetch
begin

lemma size_bound:
  assumes at: "atom_section bytes off atoms"
  shows "length (atoms_bytes atoms) < 2 ^ 64" "k \<le> length atoms \<Longrightarrow> atom_off atoms k < 2 ^ 64" "k \<le> length atoms \<Longrightarrow> atom_off atoms k \<le> length (atoms_bytes atoms)"
proof -
  show s: "length (atoms_bytes atoms) < 2 ^ 64" using in_file [OF at] by simp
  show "k \<le> length atoms \<Longrightarrow> atom_off atoms k \<le> length (atoms_bytes atoms)" using atom_off_mono [of k "length atoms" atoms] atom_off_end by simp
  then show "k \<le> length atoms \<Longrightarrow> atom_off atoms k < 2 ^ 64" using s by simp
qed

lemma atom_length:
  assumes at: "atom_section bytes off atoms"
  shows "k < length atoms \<Longrightarrow> length (atoms ! k) < 2 ^ 32"
  using atoms_fit(1) [OF at] by (simp add: atom_ok_def)

text \<open>A range of the section.\<close>

lemma fetch_section:
  assumes at: "atom_section bytes off atoms" and "a + l \<le> length (atoms_bytes atoms)"
  shows "fetch (off + of_nat a) (of_nat l) = Some (Inr (take l (drop a (atoms_bytes atoms))))"
proof -
  have s: "a + l < 2 ^ 64" "unat off + a < 2 ^ 64" using assms in_file [OF at] by simp_all
  have u: "unat (off + of_nat a) = unat off + a" "unat (of_nat l :: u64) = l" using s of_nat64_add [of "unat off" a] by simp_all
  have "fetch (off + of_nat a) (of_nat l) = Some (Inr (take l (drop (unat off + a) bytes)))"
    using in_range [of "off + of_nat a" "of_nat l"] assms in_file [OF at] unfolding u by simp
  moreover have "take l (drop a (take (length (atoms_bytes atoms)) (drop (unat off) bytes))) = take l (drop (unat off + a) bytes)"
    using assms by (simp add: drop_take add.commute min_def)
  ultimately show ?thesis unfolding section_at [OF at] by simp
qed

text \<open>
  The inner loop, from atom \<open>s\<close> on, in a chunk of \<open>l\<close> bytes that starts at atom \<open>s0\<close>: it stops at the target or at the first atom that the
  chunk does not hold whole.
\<close>

lemma scan_buf_ok:
  assumes at: "atom_section bytes off atoms" and r: "ar_blockLen r \<noteq> 0" "ar_size r = of_nat (length (atoms_bytes atoms))" "ar_frontier r = of_nat (atom_off atoms s0)"
    and l: "atom_off atoms s0 + l \<le> length (atoms_bytes atoms)" and t: "t \<le> length atoms"
    and s: "s0 \<le> s" "s \<le> t" "atom_off atoms s - atom_off atoms s0 \<le> l"
  shows "\<exists>s' need'. scan_buf (of_nat t) (take l (drop (atom_off atoms s0) (atoms_bytes atoms))) (of_nat (atom_off atoms s - atom_off atoms s0)) need (scan_state atoms r s)
      = Some (Inr (of_nat (atom_off atoms s' - atom_off atoms s0), need'), scan_state atoms r s')
    \<and> s \<le> s' \<and> s' \<le> t \<and> atom_off atoms s' - atom_off atoms s0 \<le> l
    \<and> (s' = t \<or> need' = need \<and> l < atom_off atoms s' - atom_off atoms s0 + 4
        \<or> need' = of_nat (4 + length (atoms ! s')) \<and> l < atom_off atoms (Suc s') - atom_off atoms s0)"
  using s
proof (induction "t - s" arbitrary: s)
  case 0
  let ?buf = "take l (drop (atom_off atoms s0) (atoms_bytes atoms))"
  have "s = t" using 0 by simp
  then have "scan_buf (of_nat t) ?buf (of_nat (atom_off atoms s - atom_off atoms s0)) need (scan_state atoms r s)
      = Some (Inr (of_nat (atom_off atoms s - atom_off atoms s0), need), scan_state atoms r s)"
    by (intro scan_buf_stop) simp
  then show ?case using 0 \<open>s = t\<close> by blast
next
  case (Suc d)
  let ?buf = "take l (drop (atom_off atoms s0) (atoms_bytes atoms))" and ?p = "atom_off atoms s - atom_off atoms s0"
  have st: "s < t" "s < length atoms" "s < 2 ^ 32" "t < 2 ^ 32" using Suc.hyps(2) t atoms_fit(2) [OF at] by simp_all
  have lb: "length ?buf = l" using l by simp
  have off: "atom_off atoms s0 \<le> atom_off atoms s" "atom_off atoms s + 4 + length (atoms ! s) \<le> length (atoms_bytes atoms)"
    using atom_off_mono [OF Suc.prems(1)] atom_off_Suc [OF st(2)] size_bound(3) [OF at, of "Suc s"] st(2) by simp_all
  have N: "length (atoms_bytes atoms) < 2 ^ 64" by (rule size_bound(1) [OF at])
  have sc: "ar_scanned (scan_state atoms r s) < of_nat t" using st by (simp add: scan_state_def word_less_nat_alt)
  have p4: "of_nat ?p + 4 \<le> (of_nat l :: u64) \<longleftrightarrow> ?p + 4 \<le> l"
  proof -
    have "unat (of_nat (?p + 4) :: u64) = ?p + 4" "unat (of_nat l :: u64) = l" using Suc.prems(3) l N off by (intro unat_of_nat_less; simp)+
    then show ?thesis by (simp add: word_le_nat_alt)
  qed
  show ?case
  proof (cases "?p + 4 \<le> l")
    case False
    then have "scan_buf (of_nat t) ?buf (of_nat ?p) need (scan_state atoms r s) = Some (Inr (of_nat ?p, need), scan_state atoms r s)"
      by (intro scan_buf_stop) (simp only: lb p4 simp_thms not_False_eq_True)
    then show ?thesis using False Suc.prems by (intro exI [of _ s] exI [of _ need]) auto
  next
    case True
    have dp: "drop ?p ?buf = take (l - ?p) (drop (atom_off atoms s) (atoms_bytes atoms))" using off(1) by (simp add: drop_take)
    have ld: "le_load 4 ?buf (unat (of_nat ?p :: u64)) = Some (length (atoms ! s))"
    proof -
      have "unat (of_nat ?p :: u64) = ?p" using off N by (intro unat_of_nat_less) simp
      moreover have "le_nat (take 4 (drop ?p ?buf)) = length (atoms ! s)" unfolding dp using True by (intro atom_prefix [OF st(2) atom_length [OF at, OF st(2)]]) simp
      ultimately show ?thesis using True lb by (simp add: le_load_def bytes_at_def)
    qed
    have fr: "\<not> ar_frontier r + of_nat ?p + 4 + of_nat (length (atoms ! s)) > ar_size r"
    proof -
      have "ar_frontier r + of_nat ?p + 4 + of_nat (length (atoms ! s)) = (of_nat (atom_off atoms s0 + ?p + 4 + length (atoms ! s)) :: u64)" by (simp add: r(3))
      moreover have "unat (of_nat (atom_off atoms s0 + ?p + 4 + length (atoms ! s)) :: u64) = atom_off atoms s0 + ?p + 4 + length (atoms ! s)"
        using off N by (intro unat_of_nat_less) simp
      ultimately show ?thesis unfolding r(2) word_less_nat_alt using off N by simp
    qed
    have sp: "of_nat ?p + 4 + of_nat (length (atoms ! s)) > (of_nat l :: u64) \<longleftrightarrow> l < ?p + 4 + length (atoms ! s)"
    proof -
      have "of_nat ?p + 4 + of_nat (length (atoms ! s)) = (of_nat (?p + 4 + length (atoms ! s)) :: u64)" by simp
      moreover have "unat (of_nat (?p + 4 + length (atoms ! s)) :: u64) = ?p + 4 + length (atoms ! s)" "unat (of_nat l :: u64) = l"
        using off N l by (intro unat_of_nat_less; simp)+
      ultimately show ?thesis by (simp only: word_less_nat_alt)
    qed
    have nx: "atom_off atoms (Suc s) - atom_off atoms s0 = ?p + 4 + length (atoms ! s)" using atom_off_Suc [OF st(2)] off(1) by simp
    show ?thesis
    proof (cases "l < ?p + 4 + length (atoms ! s)")
      case sp1: True
      have "scan_buf (of_nat t) ?buf (of_nat ?p) need (scan_state atoms r s) = Some (Inr (of_nat ?p, of_nat (4 + length (atoms ! s))), scan_state atoms r s)"
        using scan_buf_turn(1) [OF sc _ ld, of need, unfolded lb p4 sp] fr sp1 True by simp
      then show ?thesis using sp1 nx Suc.prems by (intro exI [of _ s] exI [of _ "of_nat (4 + length (atoms ! s))"]) auto
    next
      case sp0: False
      have "of_nat (atom_off atoms s0) + (of_nat ?p + (4 + of_nat (length (atoms ! s)))) = (of_nat (atom_off atoms s0 + (?p + (4 + length (atoms ! s)))) :: u64)"
        "of_nat ?p + (4 + of_nat (length (atoms ! s))) = (of_nat (atom_off atoms (Suc s) - atom_off atoms s0) :: u64)" by (simp_all add: nx)
      moreover have "atom_off atoms s0 + (?p + (4 + length (atoms ! s))) = atom_off atoms (Suc s)" using atom_off_Suc [OF st(2)] off(1) by simp
      ultimately have v: "of_nat (atom_off atoms s0) + (of_nat ?p + (4 + of_nat (length (atoms ! s)))) = (of_nat (atom_off atoms (Suc s)) :: u64)"
        "of_nat ?p + (4 + of_nat (length (atoms ! s))) = (of_nat (atom_off atoms (Suc s) - atom_off atoms s0) :: u64)" by simp_all
      have "scan_buf (of_nat t) ?buf (of_nat ?p) need (scan_state atoms r s)
          = scan_buf (of_nat t) ?buf (of_nat (atom_off atoms (Suc s) - atom_off atoms s0)) need (scan_state atoms r (Suc s))"
        using scan_buf_turn(2) [OF sc _ ld, of need, unfolded lb p4 sp] fr sp0 True r(1) scan_state_next [OF r(1), of s _ atoms] st v r(3) by simp
      moreover have "\<exists>s' need'. scan_buf (of_nat t) ?buf (of_nat (atom_off atoms (Suc s) - atom_off atoms s0)) need (scan_state atoms r (Suc s))
            = Some (Inr (of_nat (atom_off atoms s' - atom_off atoms s0), need'), scan_state atoms r s')
          \<and> Suc s \<le> s' \<and> s' \<le> t \<and> atom_off atoms s' - atom_off atoms s0 \<le> l
          \<and> (s' = t \<or> need' = need \<and> l < atom_off atoms s' - atom_off atoms s0 + 4
            \<or> need' = of_nat (4 + length (atoms ! s')) \<and> l < atom_off atoms (Suc s') - atom_off atoms s0)"
        using Suc.hyps(2) Suc.prems(1) st sp0 nx by (intro Suc.hyps(1)) auto
      ultimately show ?thesis by (metis Suc_leD)
    qed
  qed
qed

lemma scan_loop_ok:
  assumes at: "atom_section bytes off atoms" and r: "ar_blockLen r \<noteq> 0" "ar_size r = of_nat (length (atoms_bytes atoms))" "ar_off r = off" "16 \<le> ar_scanChunk r"
    and t: "t \<le> length atoms" and s: "s \<le> t" and need: "need = ar_scanChunk r \<or> s < t \<and> need = of_nat (4 + length (atoms ! s))"
  shows "scan_loop fetch (of_nat t) need (at_atom atoms r s) = Some (Inr (), at_atom atoms r t)"
  using s need
proof (induction "2 * (t - s) + (if s < t \<and> unat need < 4 + length (atoms ! s) then 1 else 0)" arbitrary: s need rule: less_induct)
  case less
  show ?case
  proof (cases "s = t")
    case True
    then show ?thesis by (subst scan_loop.simps) simp
  next
    case False
    have st: "s < t" "s < length atoms" "t < 2 ^ 32" using False less.prems(1) t atoms_fit(2) [OF at] by simp_all
    have N: "length (atoms_bytes atoms) < 2 ^ 64" by (rule size_bound(1) [OF at])
    have al: "length (atoms ! s) < 2 ^ 32" by (rule atom_length [OF at, OF st(2)])
    have off: "atom_off atoms s + 4 + length (atoms ! s) \<le> length (atoms_bytes atoms)" using atom_off_Suc [OF st(2)] size_bound(3) [OF at, of "Suc s"] st(2) by simp
    let ?rem = "length (atoms_bytes atoms) - atom_off atoms s" and ?r = "r\<lparr>ar_frontier := of_nat (atom_off atoms s)\<rparr>"
    obtain nd where nd: "need = of_nat nd" "nd < 2 ^ 64" "4 \<le> nd"
    proof (rule that [of "unat need"])
      show "unat need < 2 ^ 64" using unsigned_less [of need, where ?'a = nat] by simp
      have "16 \<le> unat (ar_scanChunk r)" using r(4) by (simp add: word_le_nat_alt)
      moreover have "unat (of_nat (4 + length (atoms ! s)) :: u64) = 4 + length (atoms ! s)" using al by (intro unat_of_nat_less) simp
      ultimately show "4 \<le> unat need" using less.prems(2) by auto
    qed simp
    let ?l = "min nd ?rem" and ?buf = "take (min nd ?rem) (drop (atom_off atoms s) (atoms_bytes atoms))"
    have rem: "ar_size (at_atom atoms r s) - ar_frontier (at_atom atoms r s) = of_nat ?rem" using off by (simp add: at_atom_def r(2) of_nat_diff)
    have rem0: "(of_nat ?rem :: u64) \<noteq> 0"
    proof -
      have "unat (of_nat ?rem :: u64) = ?rem" using N by (intro unat_of_nat_less) simp
      then show ?thesis using off by (metis add_diff_cancel_left' diff_is_0_eq le_trans le_add1 not_numeral_le_zero trans_le_add1 unat_0 add_leD1 nat_le_iff_add)
    qed
    have mn: "min need (of_nat ?rem :: u64) = of_nat ?l"
    proof -
      have "unat (of_nat nd :: u64) = nd" "unat (of_nat ?rem :: u64) = ?rem" using N nd(2) by (intro unat_of_nat_less; simp)+
      then show ?thesis unfolding nd(1) by (auto simp: min_def word_le_nat_alt)
    qed
    have ft: "fetch (ar_off (at_atom atoms r s) + ar_frontier (at_atom atoms r s)) (min need (of_nat ?rem)) = Some (Inr ?buf)"
      unfolding mn using fetch_section [OF at, of "atom_off atoms s" ?l] off by (simp add: at_atom_def r(3))
    have ll: "atom_off atoms s + ?l \<le> length (atoms_bytes atoms)" using off by linarith
    have "\<exists>s' need'. scan_buf (of_nat t) ?buf (of_nat (atom_off atoms s - atom_off atoms s)) (ar_scanChunk r) (scan_state atoms ?r s)
        = Some (Inr (of_nat (atom_off atoms s' - atom_off atoms s), need'), scan_state atoms ?r s')
      \<and> s \<le> s' \<and> s' \<le> t \<and> atom_off atoms s' - atom_off atoms s \<le> ?l
      \<and> (s' = t \<or> need' = ar_scanChunk r \<and> ?l < atom_off atoms s' - atom_off atoms s + 4
        \<or> need' = of_nat (4 + length (atoms ! s')) \<and> ?l < atom_off atoms (Suc s') - atom_off atoms s)"
      by (rule scan_buf_ok [OF at, OF _ _ _ ll t order.refl less.prems(1)]) (simp_all add: r(1,2))
    then obtain s' need' where b0: "scan_buf (of_nat t) ?buf (of_nat (atom_off atoms s - atom_off atoms s)) (ar_scanChunk r) (scan_state atoms ?r s) = Some (Inr (of_nat (atom_off atoms s' - atom_off atoms s), need'), scan_state atoms ?r s')"
      and b': "s \<le> s'" "s' \<le> t" "atom_off atoms s' - atom_off atoms s \<le> ?l"
      "s' = t \<or> need' = ar_scanChunk r \<and> ?l < atom_off atoms s' - atom_off atoms s + 4 \<or> need' = of_nat (4 + length (atoms ! s')) \<and> ?l < atom_off atoms (Suc s') - atom_off atoms s"
      by (elim exE conjE) (rule that)
    have b: "scan_buf (of_nat t) ?buf 0 (ar_scanChunk r) (at_atom atoms r s) = Some (Inr (of_nat (atom_off atoms s' - atom_off atoms s), need'), scan_state atoms ?r s')"
      "s \<le> s'" "s' \<le> t" "atom_off atoms s' - atom_off atoms s \<le> ?l"
      "s' = t \<or> need' = ar_scanChunk r \<and> ?l < atom_off atoms s' - atom_off atoms s + 4 \<or> need' = of_nat (4 + length (atoms ! s')) \<and> ?l < atom_off atoms (Suc s') - atom_off atoms s"
      using b0 b' unfolding at_atom_def by simp_all
    have u4: "unat (of_nat (4 + length (atoms ! s)) :: u64) = 4 + length (atoms ! s)" using al by (intro unat_of_nat_less) simp
    have und: "unat need = nd" using nd by simp
    have stay: "need' = of_nat (4 + length (atoms ! s)) \<and> nd < 4 + length (atoms ! s) \<and> need = ar_scanChunk r" if "s' = s"
    proof -
      have "\<not> ?l < 4" using nd(3) off by simp
      then have c: "need' = of_nat (4 + length (atoms ! s))" "?l < atom_off atoms (Suc s) - atom_off atoms s" using b(5) st(1) that by auto
      then have "nd < 4 + length (atoms ! s)" using off atom_off_Suc [OF st(2)] by simp
      then show ?thesis using c(1) less.prems(2) und u4 by auto
    qed
    have moved: "atom_off atoms s + 4 \<le> atom_off atoms s'" if "s' \<noteq> s"
      using that b(2) atom_off_Suc [OF st(2)] atom_off_mono [of "Suc s" s' atoms] by simp
    have prog: "\<not> (of_nat (atom_off atoms s' - atom_off atoms s) = (0 :: u64) \<and> need' = ar_scanChunk (scan_state atoms ?r s'))"
    proof (cases "s' = s")
      case True
      then show ?thesis using stay und u4 by auto
    next
      case moved': False
      have "atom_off atoms s' < 2 ^ 64" using size_bound(2) [OF at] b(3) t by simp
      then have "unat (of_nat (atom_off atoms s' - atom_off atoms s) :: u64) = atom_off atoms s' - atom_off atoms s" by (intro unat_of_nat_less) simp
      then show ?thesis using moved [OF moved'] by (metis add_diff_cancel_left' diff_le_mono not_numeral_le_zero unat_0)
    qed
    have nx: "(scan_state atoms ?r s')\<lparr>ar_frontier := ar_frontier (scan_state atoms ?r s') + of_nat (atom_off atoms s' - atom_off atoms s)\<rparr> = at_atom atoms r s'"
      using atom_off_mono [OF b(2), of atoms] by (cases r) (simp add: at_atom_def scan_state_def of_nat_diff)
    have step: "scan_loop fetch (of_nat t) need (at_atom atoms r s) = scan_loop fetch (of_nat t) need' (at_atom atoms r s')"
      unfolding nx [symmetric]
    proof (rule scan_loop_turn [OF _ _ _ _ prog])
      show "ar_scanned (at_atom atoms r s) < of_nat t" using st by (simp add: word_less_nat_alt)
    qed (use rem rem0 ft b(1) in simp_all)
    show ?thesis
    proof (cases "s' = t")
      case True
      then show ?thesis unfolding step by (subst scan_loop.simps) simp
    next
      case nt: False
      have pre: "need' = ar_scanChunk r \<or> s' < t \<and> need' = of_nat (4 + length (atoms ! s'))" using b(3,5) nt by auto
      have "2 * (t - s') + (if s' < t \<and> unat need' < 4 + length (atoms ! s') then 1 else 0) < 2 * (t - s) + (if s < t \<and> unat need < 4 + length (atoms ! s) then 1 else 0)"
      proof (cases "s' = s")
        case True
        then show ?thesis using stay und u4 st(1) by simp
      next
        case False
        then show ?thesis using b(2,3) by auto
      qed
      then show ?thesis unfolding step by (rule less.hyps [OF _ b(3) pre])
    qed
  qed
qed

text \<open>The extent of a block is known after \<open>ensureScanned\<close>.\<close>

lemma ensureScanned_ok:
  assumes at: "atom_section bytes off atoms" and inv: "reader_inv off atoms r" and t: "t \<le> length atoms"
  shows "\<exists>r'. ensureScanned fetch (of_nat t) r = Some (Inr (), r') \<and> reader_inv off atoms r' \<and> t \<le> unat (ar_scanned r')
    \<and> ar_cache r' = ar_cache r \<and> ar_fifo r' = ar_fifo r \<and> ar_blockLen r' = ar_blockLen r \<and> ar_cacheCap r' = ar_cacheCap r"
proof -
  let ?s = "unat (ar_scanned r)"
  have ut: "unat (of_nat t :: u32) = t" using t atoms_fit(2) [OF at] by (intro unat_of_nat_less) simp
  show ?thesis
  proof (cases "?s < t")
    case False
    then have "ensureScanned fetch (of_nat t) r = Some (Inr (), r)" unfolding ensureScanned_def by (subst scan_loop.simps) (simp add: word_less_nat_alt ut)
    then show ?thesis using inv False by (intro exI [of _ r]) simp
  next
    case True
    have "ar_starts r = map (\<lambda>k. of_nat (atom_off atoms (k * unat (ar_blockLen r)))) [0..<?s div unat (ar_blockLen r) + 1]"
      using inv True t unfolding reader_inv_def by auto
    moreover have "ar_frontier r = of_nat (atom_off atoms ?s)" using inv by (simp add: reader_inv_def)
    ultimately have r: "at_atom atoms r ?s = r" by (simp add: at_atom_def scan_state_def)
    have "scan_loop fetch (of_nat t) (ar_scanChunk r) (at_atom atoms r ?s) = Some (Inr (), at_atom atoms r t)"
      using inv True t by (intro scan_loop_ok [OF at]) (simp_all add: reader_inv_def)
    then have "ensureScanned fetch (of_nat t) r = Some (Inr (), at_atom atoms r t)" unfolding r ensureScanned_def .
    moreover have "reader_inv off atoms (at_atom atoms r t)"
      unfolding reader_inv_def
    proof (intro conjI exI [of _ "t div unat (ar_blockLen r) + 1"])
      show "ar_starts (at_atom atoms r t) = map (\<lambda>k. of_nat (atom_off atoms (k * unat (ar_blockLen (at_atom atoms r t))))) [0..<t div unat (ar_blockLen r) + 1]"
        by (simp add: at_atom_def scan_state_def)
      show "t div unat (ar_blockLen r) + 1 = unat (ar_scanned (at_atom atoms r t)) div unat (ar_blockLen (at_atom atoms r t)) + 1
          \<or> unat (ar_scanned (at_atom atoms r t)) = length atoms \<and> t div unat (ar_blockLen r) + 1 = (length atoms + unat (ar_blockLen (at_atom atoms r t)) - 1) div unat (ar_blockLen (at_atom atoms r t))"
        by (simp add: ut)
    qed (use inv t ut in \<open>simp_all add: reader_inv_def at_atom_def scan_state_def\<close>)
    ultimately show ?thesis using ut by (intro exI [of _ "at_atom atoms r t"]) (simp add: at_atom_def scan_state_def)
  qed
qed

lemma block_last_ok:
  assumes at: "atom_section bytes off atoms" and inv: "reader_inv off atoms r" and b: "unat b * unat (ar_blockLen r) < length atoms"
  shows "block_last b r = of_nat (min ((unat b + 1) * unat (ar_blockLen r)) (length atoms))"
    "unat (block_last b r - b * ar_blockLen r) = length (atom_block atoms (unat (ar_blockLen r)) (unat b))"
proof -
  let ?bl = "unat (ar_blockLen r)"
  have bl: "0 < ?bl" using inv by (simp add: reader_inv_def unat_gt_0)
  have bb: "unat b < length atoms" using b bl by (metis le_less_trans le_add1 mult.right_neutral mult_le_mono2 nat_mult_le_cancel_disj Suc_leI One_nat_def mult_1_right)
  have b1: "unat (b + 1) = unat b + 1" using bb atoms_fit(2) [OF at] by (simp add: unat_word_ariths)
  have blb: "?bl < 2 ^ 32" by (rule unat_u32)
  have m: "(unat b + 1) * ?bl < 2 ^ 64"
  proof -
    have "(unat b + 1) * ?bl \<le> 2 ^ 32 * ?bl" using bb atoms_fit(2) [OF at] by (intro mult_right_mono) simp_all
    also have "\<dots> < 2 ^ 32 * 2 ^ 32" using blb by simp
    finally show ?thesis by simp
  qed
  have p: "(ucast (b + 1) * ucast (ar_blockLen r) :: u64) = of_nat ((unat b + 1) * ?bl)"
    using b1 by (metis of_nat_mult of_nat_unat)
  have n: "(ucast (ar_n r) :: u64) = of_nat (length atoms)" "length atoms < 2 ^ 64" using reader_inv_facts(3) [OF inv] ucast_nat [where 'a = 32, of "length atoms"] atoms_fit(2) [OF at] by simp_all
  have mn: "min (of_nat ((unat b + 1) * ?bl)) (of_nat (length atoms) :: u64) = of_nat (min ((unat b + 1) * ?bl) (length atoms))"
    using m n(2) by (intro min_nat) simp_all
  have "min ((unat b + 1) * ?bl) (length atoms) < 2 ^ 32" using atoms_fit(2) [OF at] by simp
  then show l: "block_last b r = of_nat (min ((unat b + 1) * ?bl) (length atoms))"
    unfolding block_last_def p n(1) mn by (intro ucast_nat) simp
  have le: "unat b * ?bl \<le> min ((unat b + 1) * ?bl) (length atoms)" using b by simp
  have "b * ar_blockLen r = of_nat (unat b * ?bl)" by simp
  then have "block_last b r - b * ar_blockLen r = of_nat (min ((unat b + 1) * ?bl) (length atoms) - unat b * ?bl)" unfolding l using le by (simp add: of_nat_diff)
  moreover have "min ((unat b + 1) * ?bl) (length atoms) - unat b * ?bl < 2 ^ 32" using atoms_fit(2) [OF at] by simp
  moreover have "length (atom_block atoms ?bl (unat b)) = min ((unat b + 1) * ?bl) (length atoms) - unat b * ?bl" by (auto simp: atom_block_def min_def)
  ultimately show "unat (block_last b r - b * ar_blockLen r) = length (atom_block atoms ?bl (unat b))" by simp
qed

lemma loadBlock_ok:
  assumes at: "atom_section bytes off atoms" and inv: "reader_inv off atoms r" and b: "unat b * unat (ar_blockLen r) < length atoms" and new: "b \<notin> fst ` set (ar_cache r)"
  shows "\<exists>r'. loadBlock fetch b r = Some (Inr (atom_block atoms (unat (ar_blockLen r)) (unat b)), r') \<and> reader_inv off atoms r' \<and> ar_blockLen r' = ar_blockLen r \<and> ar_cacheCap r' = ar_cacheCap r"
proof -
  let ?bl = "unat (ar_blockLen r)" and ?blk = "atom_block atoms (unat (ar_blockLen r)) (unat b)"
  define t where "t = min ((unat b + 1) * ?bl) (length atoms)"
  have bl: "0 < ?bl" by (rule reader_inv_facts(5) [OF inv])
  have t: "t \<le> length atoms" "unat b * ?bl \<le> t" "unat b * ?bl < t" using b bl by (simp_all add: t_def)
  have lst: "block_last b r = of_nat t" "unat (of_nat t - b * ar_blockLen r) = length ?blk" using block_last_ok [OF at, OF inv b] by (simp_all only: t_def)
  obtain r1 where r1: "ensureScanned fetch (of_nat t) r = Some (Inr (), r1)" "reader_inv off atoms r1" "t \<le> unat (ar_scanned r1)" "ar_cache r1 = ar_cache r"
    "ar_fifo r1 = ar_fifo r" "ar_blockLen r1 = ar_blockLen r" "ar_cacheCap r1 = ar_cacheCap r"
    using ensureScanned_ok [OF at, OF inv t(1)] by (elim exE conjE) (rule that)
  let ?s = "unat (ar_scanned r1)"
  obtain m where m: "ar_starts r1 = map (\<lambda>k. of_nat (atom_off atoms (k * ?bl))) [0..<m]"
    "m = ?s div ?bl + 1 \<or> ?s = length atoms \<and> m = (length atoms + ?bl - 1) div ?bl"
    using r1(2) unfolding reader_inv_def r1(6) by (elim conjE exE) (rule that)
  have bm: "unat b < m" "unat b + 1 < m \<Longrightarrow> t = (unat b + 1) * ?bl" "\<not> unat b + 1 < m \<Longrightarrow> t = ?s"
    using block_position [OF bl m(2) t_def reader_inv_facts(6) [OF r1(2)] r1(3) b] by blast+
  have st: "slice_at (ar_starts r1) (unat b) = Some (of_nat (atom_off atoms (unat b * ?bl)))" using bm(1) m(1) by simp
  have fin: "(if unat b + 1 < length (ar_starts r1) then ar_starts r1 ! (unat b + 1) else ar_frontier r1) = of_nat (atom_off atoms t)"
    using bm(2,3) m(1) reader_inv_facts(7) [OF r1(2)] by simp
  have mono: "atom_off atoms (unat b * ?bl) \<le> atom_off atoms t" "atom_off atoms t \<le> length (atoms_bytes atoms)"
    using atom_off_mono [OF t(2)] size_bound(3) [OF at, OF t(1)] by simp_all
  have ft: "fetch (ar_off r1 + of_nat (atom_off atoms (unat b * ?bl))) (of_nat (atom_off atoms t) - of_nat (atom_off atoms (unat b * ?bl))) = Some (Inr (concat (map atom_bytes ?blk)))"
  proof -
    have "(of_nat (atom_off atoms t) - of_nat (atom_off atoms (unat b * ?bl)) :: u64) = of_nat (atom_off atoms t - atom_off atoms (unat b * ?bl))" using mono(1) by (simp add: of_nat_diff)
    moreover have "take (t - unat b * ?bl) (drop (unat b * ?bl) atoms) = ?blk" by (auto simp: atom_block_def t_def min_def)
    ultimately show ?thesis
      using fetch_section [OF at, of "atom_off atoms (unat b * ?bl)" "atom_off atoms t - atom_off atoms (unat b * ?bl)"] mono atoms_bytes_split [OF t(2,1)] reader_inv_facts(1) [OF r1(2)] by simp
  qed
  have "\<forall>s \<in> set ?blk. atom_ok s" using atoms_fit(1) [OF at] by (auto simp: atom_block_def dest: in_set_takeD in_set_dropD)
  then have "decodes (rtimes (length ?blk) cur_str) (concat (map atom_bytes ?blk)) (map (\<lambda>s. s) ?blk)" by (intro decodes_times atom.dec_enc) simp
  from decodesD [OF this, of "[]" "[]"]
  have rd: "rtimes (length ?blk) cur_str (newCursor (concat (map atom_bytes ?blk))) = Some (Inr (?blk, \<lparr>cur_b = concat (map atom_bytes ?blk), cur_pos = length (concat (map atom_bytes ?blk))\<rparr>))"
    by (simp add: newCursor_def)
  obtain r2 where r2: "cache_block b ?blk r1 = Some r2" "reader_inv off atoms r2" "ar_blockLen r2 = ar_blockLen r1" "ar_cacheCap r2 = ar_cacheCap r1"
    using cache_block_ok [OF r1(2), of b] new r1(4,6) by auto
  have "loadBlock fetch b r = Some (Inr ?blk, r2)"
    unfolding loadBlock_def Let_def lst(1) r1(1) option.case prod.case sum.case st fin ft r1(6) lst(2) rd
    by (simp add: r2(1) remaining_def)
  then show ?thesis using r2(2-4) r1(6,7) by (intro exI [of _ r2]) simp
qed

lemma Atom_ok:
  assumes at: "atom_section bytes off atoms" and inv: "reader_inv off atoms r"
  shows "\<exists>r'. Atom fetch i r = Some (if unat i < length atoms then Inr (atoms ! unat i) else Inl ErrCorrupt, r') \<and> reader_inv off atoms r' \<and> ar_cacheCap r' = ar_cacheCap r"
proof (cases "unat i < length atoms")
  case False
  have "unat (of_nat (length atoms) :: u32) = length atoms" using atoms_fit(2) [OF at] by (intro unat_of_nat_less) simp
  then have "i \<ge> ar_n r" using False reader_inv_facts(3) [OF inv] by (simp add: word_le_nat_alt)
  then show ?thesis using False inv by (simp add: Atom_def)
next
  case True
  let ?bl = "unat (ar_blockLen r)" and ?b = "i div ar_blockLen r"
  have bl: "0 < ?bl" "ar_blockLen r \<noteq> 0" using reader_inv_facts(4,5) [OF inv] by simp_all
  have "unat (of_nat (length atoms) :: u32) = length atoms" using atoms_fit(2) [OF at] by (intro unat_of_nat_less) simp
  then have n: "\<not> i \<ge> ar_n r" using True reader_inv_facts(3) [OF inv] by (simp add: word_le_nat_alt)
  have b: "unat ?b = unat i div ?bl" "unat (i mod ar_blockLen r) = unat i mod ?bl" by (simp_all add: unat_div unat_mod_distrib)
  have bb: "unat ?b * ?bl < length atoms" unfolding b(1) using True div_times_less_eq_dividend [of "unat i" ?bl] by linarith
  have pick: "slice_at (atom_block atoms ?bl (unat ?b)) (unat (i mod ar_blockLen r)) = Some (atoms ! unat i)"
  proof -
    have "unat ?b * ?bl + unat (i mod ar_blockLen r) = unat i" using b by simp
    moreover have "unat (i mod ar_blockLen r) < ?bl" using b(2) bl(1) by simp
    ultimately show ?thesis using True by (simp add: atom_block_def slice_at_def add.commute)
  qed
  show ?thesis
  proof (cases "map_of (ar_cache r) ?b")
    case (Some blk)
    have "blk = atom_block atoms ?bl (unat ?b)" using inv map_of_SomeD [OF Some] by (auto simp: reader_inv_def)
    then show ?thesis using n bl(2) Some pick True inv by (simp add: Atom_def Let_def)
  next
    case None
    then have "?b \<notin> fst ` set (ar_cache r)" by (simp add: map_of_eq_None_iff)
    then obtain r' where r': "loadBlock fetch ?b r = Some (Inr (atom_block atoms ?bl (unat ?b)), r')" "reader_inv off atoms r'" "ar_blockLen r' = ar_blockLen r" "ar_cacheCap r' = ar_cacheCap r"
      using loadBlock_ok [OF at, OF inv bb] by blast
    have "Atom fetch i r = Some (Inr (atoms ! unat i), r')" using n bl(2) None pick r'(1,3) by (simp add: Atom_def Let_def)
    then show ?thesis using True r'(2,4) by auto
  qed
qed

end

section \<open>Opening a reader\<close>

lemma block_starts_snoc: "block_starts bl i r (ss @ [s]) = block_starts bl i r ss @ (if (i + length ss) mod bl = 0 then [foldl atom_end r ss] else [])"
  by (induction ss arbitrary: i r) simp_all

lemma foldl_atom_end: "foldl atom_end 4 ss = of_nat (atom_off ss (length ss))"
  by (induction ss rule: rev_induct) (simp_all add: atom_end_def atom_off_def atoms_size_def algebra_simps)

lemma block_starts_offsets:
  assumes bl: "0 < bl"
  shows "block_starts bl 0 4 atoms = map (\<lambda>k. of_nat (atom_off atoms (k * bl))) [0..<(length atoms + bl - 1) div bl]"
proof (induction atoms rule: rev_induct)
  case (snoc s ss)
  let ?n = "length ss" and ?m = "(length ss + bl - 1) div bl"
  have lt: "k * bl < ?n \<longleftrightarrow> k < ?m" for k using ceil_div_less [OF bl] by simp
  have old: "atom_off (ss @ [s]) (k * bl) = atom_off ss (k * bl)" if "k < ?m" for k using lt [of k] that by (simp add: atom_off_def)
  have step: "(length (ss @ [s]) + bl - 1) div bl = ?m + (if ?n mod bl = 0 then 1 else 0)"
    using length_block_starts [OF bl, of ?n 0 "[s]"] by (simp add: add.commute split: if_splits)
  have eq: "?m * bl = ?n" if "?n mod bl = 0"
  proof -
    define q where "q = ?n div bl"
    have q: "?n = q * bl" using that div_mult_mod_eq [of ?n bl] by (simp add: q_def)
    have "(x + q * bl) div bl = q" if "x < bl" for x using that bl by simp
    from this [of "bl - 1"] have "(q * bl + (bl - 1)) div bl = q" using bl by (simp only: add.commute diff_less zero_less_one)
    moreover have "q * bl + bl - 1 = q * bl + (bl - 1)" using bl by simp
    ultimately have "(q * bl + bl - 1) div bl = q" by (simp only:)
    then show ?thesis using q by simp
  qed
  have "map (\<lambda>k. of_nat (atom_off (ss @ [s]) (k * bl))) [0..<?m] = (map (\<lambda>k. of_nat (atom_off ss (k * bl))) [0..<?m] :: u64 list)" using old by simp
  moreover have "atom_off (ss @ [s]) (?m * bl) = atom_off ss ?n" if "?n mod bl = 0" using eq [OF that] by (simp add: atom_off_def)
  ultimately show ?case unfolding block_starts_snoc snoc step by (simp add: foldl_atom_end)
qed (use bl in simp)

lemma last_entry_split:
  assumes "secs = xs @ (i, body) # ys" "i \<notin> fst ` set ys"
  shows "last_entry i (entry_list off secs) = Some \<lparr>de_ID = i, de_Offset = of_nat (off + length (concat (map snd xs))), de_Length = of_nat (length body)\<rparr>"
proof -
  have skip: "fold (\<lambda>e found. if de_ID e = i then Some e else found) (entry_list o' ys) x = x" if "i \<notin> fst ` set ys" for o' x
    using that by (induction o' ys rule: entry_list.induct) auto
  have app: "entry_list o' (xs @ zs) = entry_list o' xs @ entry_list (o' + length (concat (map snd xs))) zs" for o' zs
    by (induction o' xs rule: entry_list.induct) (simp_all add: add.assoc)
  show ?thesis unfolding assms(1) app last_entry_def using skip [OF assms(2)] by simp
qed

lemma last_entry_none: "i \<notin> fst ` set secs \<Longrightarrow> last_entry i (entry_list off secs) = None"
proof -
  have "fold (\<lambda>e found. if de_ID e = i then Some e else found) (entry_list off secs) x = x" if "i \<notin> fst ` set secs" for x
    using that by (induction off secs rule: entry_list.induct) auto
  then show "i \<notin> fst ` set secs \<Longrightarrow> last_entry i (entry_list off secs) = None" by (simp add: last_entry_def)
qed

lemma open_inv:
  assumes "length atoms < 2 ^ 32" "16 \<le> chunk" "0 < cap" "bl \<noteq> 0"
  shows "reader_inv off atoms \<lparr>ar_off = off, ar_size = of_nat (length (atoms_bytes atoms)), ar_n = of_nat (length atoms), ar_blockLen = bl,
      ar_scanChunk = chunk, ar_cacheCap = cap, ar_starts = [4], ar_frontier = 4, ar_scanned = 0, ar_cache = [], ar_fifo = []\<rparr>"
    "reader_inv off atoms \<lparr>ar_off = off, ar_size = of_nat (length (atoms_bytes atoms)), ar_n = of_nat (length atoms), ar_blockLen = bl,
      ar_scanChunk = chunk, ar_cacheCap = cap, ar_starts = ai_Offsets (index_of_atoms bl atoms), ar_frontier = of_nat (length (atoms_bytes atoms)),
      ar_scanned = of_nat (length atoms), ar_cache = [], ar_fifo = []\<rparr>"
proof -
  have b: "0 < unat bl" using assms(4) by (simp add: unat_gt_0)
  show "reader_inv off atoms \<lparr>ar_off = off, ar_size = of_nat (length (atoms_bytes atoms)), ar_n = of_nat (length atoms), ar_blockLen = bl,
      ar_scanChunk = chunk, ar_cacheCap = cap, ar_starts = [4], ar_frontier = 4, ar_scanned = 0, ar_cache = [], ar_fifo = []\<rparr>"
    using assms unfolding reader_inv_def by (auto intro: exI [of _ 1])
  show "reader_inv off atoms \<lparr>ar_off = off, ar_size = of_nat (length (atoms_bytes atoms)), ar_n = of_nat (length atoms), ar_blockLen = bl,
      ar_scanChunk = chunk, ar_cacheCap = cap, ar_starts = ai_Offsets (index_of_atoms bl atoms), ar_frontier = of_nat (length (atoms_bytes atoms)),
      ar_scanned = of_nat (length atoms), ar_cache = [], ar_fifo = []\<rparr>"
    using assms block_starts_offsets [OF b, of atoms] unfolding reader_inv_def
    by (auto simp: index_of_atoms_def atom_off_end intro: exI [of _ "(length atoms + unat bl - 1) div unat bl"])
qed

text \<open>The bytes of a section inside the file.\<close>

lemma section_range:
  assumes "secs = xs @ (i, body) # ys"
  shows "take (length body) (drop (headerLen + length secs * dirEntryLen + length (concat (map snd xs))) (file_bytes secs)) = body"
    "headerLen + length secs * dirEntryLen + length (concat (map snd xs)) + length body \<le> length (file_bytes secs)"
proof -
  have f: "file_bytes secs = (front_bytes secs @ concat (map snd xs)) @ body @ concat (map snd ys)"
    using assms by (simp add: file_bytes_eq)
  have l: "headerLen + length secs * dirEntryLen + length (concat (map snd xs)) = length (front_bytes secs @ concat (map snd xs))"
    by (simp only: length_append length_front)
  show "take (length body) (drop (headerLen + length secs * dirEntryLen + length (concat (map snd xs))) (file_bytes secs)) = body"
    unfolding l f by simp
  show "headerLen + length secs * dirEntryLen + length (concat (map snd xs)) + length body \<le> length (file_bytes secs)" unfolding l f by simp
qed

context section_fetch
begin

text \<open>The index of a written file routes like the scan would.\<close>

lemma adoptIndex_ok:
  assumes at: "atom_section bytes off atoms" and bl: "bl \<noteq> 0" and r: "ar_size r = of_nat (length (atoms_bytes atoms))"
    and f: "fetch (de_Offset e) (de_Length e) = Some (Inr (index_bytes (index_of_atoms bl atoms)))"
  shows "adoptIndex fetch e (of_nat (length atoms)) r
    = Some (Inr (r\<lparr>ar_blockLen := bl, ar_starts := ai_Offsets (index_of_atoms bl atoms), ar_scanned := of_nat (length atoms), ar_frontier := ar_size r\<rparr>))"
proof -
  let ?x = "index_of_atoms bl atoms" and ?b = "unat bl"
  define m where "m = (length atoms + ?b - 1) div ?b"
  have b: "0 < ?b" using bl by (simp add: unat_gt_0)
  have n: "length atoms < 2 ^ 32" "unat (of_nat (length atoms) :: u32) = length atoms"
    using atoms_fit(2) [OF at] by (auto intro!: unat_of_nat_less)
  have d: "decodeAtomIndex (index_bytes ?x) = Some (Inr ?x)"
    using size_bound(1) [OF at] by (intro decodeAtomIndex_ok [OF bl n(1)]) (simp add: length_atoms_bytes)
  have x: "ai_BlockLen ?x = bl" "ai_Offsets ?x = map (\<lambda>k. of_nat (atom_off atoms (k * ?b))) [0..<m]" "length (ai_Offsets ?x) = m"
    using block_starts_offsets [OF b, of atoms] by (simp_all add: index_of_atoms_def m_def)
  have "\<not> of_nat (atom_off atoms ((m - 1) * ?b)) \<ge> (of_nat (length (atoms_bytes atoms)) :: u64)" if "0 < m"
  proof -
    have k: "(m - 1) * ?b < length atoms" using ceil_div_less [OF b, of "m - 1" "length atoms"] that by (simp only: m_def diff_less zero_less_one)
    then have "atom_off atoms ((m - 1) * ?b) < atom_off atoms (Suc ((m - 1) * ?b))" using atom_off_Suc [OF k] by simp
    also have "\<dots> \<le> length (atoms_bytes atoms)" using size_bound(3) [OF at, of "Suc ((m - 1) * ?b)"] k by simp
    finally have lt: "atom_off atoms ((m - 1) * ?b) < length (atoms_bytes atoms)" .
    then show ?thesis using size_bound(1) [OF at] by (simp add: word_le_nat_alt)
  qed
  then show ?thesis
    unfolding adoptIndex_def f d rthen_simps n(2) x(1) m_def [symmetric] Let_def x(3)
    using bl by (cases "0 < m") (simp_all add: x(2) r)
qed

lemma newAtomReader_ok:
  assumes at: "atom_section bytes off atoms"
    and e: "last_entry sectionAtoms dir = Some \<lparr>de_ID = sectionAtoms, de_Offset = off, de_Length = of_nat (length (atoms_bytes atoms))\<rparr>"
    and x: "last_entry sectionAtomIndex dir = None \<or> (\<exists>e ibl. last_entry sectionAtomIndex dir = Some e \<and> ibl \<noteq> 0
      \<and> fetch (de_Offset e) (de_Length e) = Some (Inr (index_bytes (index_of_atoms ibl atoms))))"
  shows "\<exists>r. newAtomReader fetch dir bl chunk cap = Some (Inr r) \<and> reader_inv off atoms r \<and> ar_cacheCap r = max cap 1 \<and> AtomReader_Count r = of_nat (length atoms)"
proof -
  let ?N = "length (atoms_bytes atoms)" and ?n = "length atoms"
  have n: "?n < 2 ^ 32" "unat (of_nat ?n :: u32) = ?n" using atoms_fit(2) [OF at] by (auto intro!: unat_of_nat_less)
  have N: "unat (of_nat ?N :: u64) = ?N" using size_bound(1) [OF at] by (intro unat_of_nat_less) simp
  have ge: "4 + ?n \<le> ?N"
  proof -
    have "length xs \<le> atoms_size xs" for xs by (induction xs) (simp_all add: atoms_size_def)
    then show ?thesis by (simp add: length_atoms_bytes)
  qed
  have l4: "\<not> of_nat ?N < (4 :: u64)" using ge N by (simp add: word_less_nat_alt)
  have cnt: "\<not> ucast (of_nat ?n :: u32) > (of_nat ?N - 4 :: u64)"
  proof -
    have "(of_nat ?N - 4 :: u64) = of_nat (?N - 4)" using ge by (simp add: of_nat_diff)
    moreover have "unat (of_nat (?N - 4) :: u64) = ?N - 4" using size_bound(1) [OF at] by (intro unat_of_nat_less) simp
    moreover have "unat (of_nat ?n :: u64) = ?n" using n(1) by (intro unat_of_nat_less) simp
    ultimately show ?thesis using ge n(1) ucast_nat [of ?n, where 'a = 32 and 'b = 64] by (simp add: word_less_nat_alt)
  qed
  have h: "fetch off 4 = Some (Inr (len_bytes ?n))"
    using fetch_section [OF at, of 0 4] ge by (simp add: atoms_bytes_def)
  have ld: "le_load 4 (len_bytes ?n) 0 = Some ?n" using n(1) by (simp add: le_load_def bytes_at_def len_bytes_def le_nat_bytes)
  let ?r = "\<lparr>ar_off = off, ar_size = of_nat ?N, ar_n = of_nat ?n, ar_blockLen = max bl 1, ar_scanChunk = max chunk 16, ar_cacheCap = max cap 1,
    ar_starts = [4], ar_frontier = 4, ar_scanned = 0, ar_cache = [], ar_fifo = []\<rparr>"
  have op: "newAtomReader fetch dir bl chunk cap = (case last_entry sectionAtomIndex dir of None \<Rightarrow> Some (Inr ?r) | Some e \<Rightarrow> adoptIndex fetch e (of_nat ?n) ?r)"
    unfolding newAtomReader_def e option.case DirEntry.simps h rthen_simps ld Let_def using l4 cnt by simp
  have m1: "max bl 1 \<noteq> 0" "16 \<le> max chunk 16" "0 < max cap 1" by (auto simp: max_def word_le_nat_alt)
  show ?thesis using x
  proof (elim disjE exE conjE)
    assume "last_entry sectionAtomIndex dir = None"
    then show ?thesis using open_inv(1) [OF n(1) m1(2,3,1), of off] by (simp add: op AtomReader_Count_def)
  next
    fix ie ibl
    assume i: "last_entry sectionAtomIndex dir = Some ie" "ibl \<noteq> 0" "fetch (de_Offset ie) (de_Length ie) = Some (Inr (index_bytes (index_of_atoms ibl atoms)))"
    then show ?thesis using open_inv(2) [OF n(1) m1(2,3) i(2), of off] adoptIndex_ok [OF at i(2) _ i(3), of ?r]
      by (simp add: op AtomReader_Count_def)
  qed
qed

end

section \<open>Lookups over a written file\<close>

text \<open>A sequence of calls; a failed one leaves the reader in use.\<close>

fun Atom_calls :: "fetch \<Rightarrow> u32 list \<Rightarrow> AtomReader \<Rightarrow> ((rcpg_error + string) list \<times> AtomReader) option" where
  "Atom_calls f [] r = Some ([], r)"
| "Atom_calls f (i # qs) r = (case Atom f i r of None \<Rightarrow> None | Some (x, r') \<Rightarrow> map_option (\<lambda>(xs, r). (x # xs, r)) (Atom_calls f qs r'))"

context section_fetch
begin

lemma Atom_calls_ok:
  assumes at: "atom_section bytes off atoms" and inv: "reader_inv off atoms r"
  shows "\<exists>r'. Atom_calls fetch qs r = Some (map (\<lambda>i. if unat i < length atoms then Inr (atoms ! unat i) else Inl ErrCorrupt) qs, r')
    \<and> reader_inv off atoms r' \<and> ar_cacheCap r' = ar_cacheCap r"
  using inv
proof (induction qs arbitrary: r)
  case (Cons i qs)
  obtain r1 where r1: "Atom fetch i r = Some (if unat i < length atoms then Inr (atoms ! unat i) else Inl ErrCorrupt, r1)"
      "reader_inv off atoms r1" "ar_cacheCap r1 = ar_cacheCap r"
    using Atom_ok [OF at Cons.prems, of i] by blast
  from Cons.IH [OF r1(2)] show ?case using r1(1,3) by auto
qed auto

lemma written_reader_ok:
  assumes ok: "section_ok IO g" and b: "bytes = written_bytes IO g wo" "length bytes < 2 ^ 63"
  shows "\<exists>dir r off. ParseDirectory bytes = Some (Inr dir) \<and> newAtomReader fetch dir bl chunk cap = Some (Inr r) \<and> atom_section bytes off (gs_Atoms g)
    \<and> reader_inv off (gs_Atoms g) r \<and> ar_cacheCap r = max cap 1 \<and> AtomReader_Count r = of_nat (length (gs_Atoms g))"
proof -
  let ?s = "written_sections IO g wo" and ?a = "gs_Atoms g"
  define base where "base = headerLen + length ?s * dirEntryLen"
  have n: "length ?s \<le> 1024" by (simp add: written_sections_def split: option.split)
  have dir: "ParseDirectory bytes = Some (Inr (entry_list base ?s))" using ParseDirectory_ok [OF n] by (simp add: b(1) written_bytes_def file_bytes_eq base_def)
  obtain rest where rest: "?s = [] @ (sectionAtoms, atoms_bytes ?a) # rest" "sectionAtoms \<notin> fst ` set rest"
    by (rule that [of "tl ?s"]) (auto simp: written_sections_def split: option.splits if_splits)
  have rg: "take (length (atoms_bytes ?a)) (drop base bytes) = atoms_bytes ?a" "base + length (atoms_bytes ?a) \<le> length bytes"
    using section_range [OF rest(1)] by (simp_all add: b(1) written_bytes_def base_def)
  have ub: "unat (of_nat base :: u64) = base" using rg(2) b(2) by (intro unat_of_nat_less) simp
  have at: "atom_section bytes (of_nat base) ?a" using rg ub b(2) ok by (simp add: atom_section_def section_ok_def)
  have e: "last_entry sectionAtoms (entry_list base ?s) = Some \<lparr>de_ID = sectionAtoms, de_Offset = of_nat base, de_Length = of_nat (length (atoms_bytes ?a))\<rparr>"
    using last_entry_split [OF rest, of base] by simp
  have x: "last_entry sectionAtomIndex (entry_list base ?s) = None \<or> (\<exists>e ibl. last_entry sectionAtomIndex (entry_list base ?s) = Some e \<and> ibl \<noteq> 0
      \<and> fetch (de_Offset e) (de_Length e) = Some (Inr (index_bytes (index_of_atoms ibl ?a))))"
  proof (cases "wo_AtomIndex wo")
    case False
    then have "sectionAtomIndex \<notin> fst ` set ?s" by (auto simp: written_sections_def split: option.splits if_splits)
    then show ?thesis by (simp add: last_entry_none)
  next
    case True
    let ?i = "index_bytes (index_of_atoms atomIndexBlockLen ?a)"
    obtain xs ys where xy: "?s = xs @ (sectionAtomIndex, ?i) # ys" "sectionAtomIndex \<notin> fst ` set ys"
    proof
      let ?xs = "[(sectionAtoms, atoms_bytes ?a), (sectionMeta, meta_bytes (gs_Version g)), (sectionNodes, nodes_bytes IO g), (sectionRels, rels_bytes IO g)]
        @ (if wo_NodeColumns wo then [(sectionNodeCols, columns_bytes (gs_NodeColumns g))] else [])
        @ (if wo_RelColumns wo then [(sectionRelCols, columns_bytes (gs_RelColumns g))] else [])"
      let ?ys = "case gs_Existence g of Some bm \<Rightarrow> if wo_Existence wo then [(sectionExistence, bm_bytes IO bm)] else [] | None \<Rightarrow> []"
      show "?s = ?xs @ (sectionAtomIndex, ?i) # ?ys" using True by (simp add: written_sections_def)
      show "sectionAtomIndex \<notin> fst ` set ?ys" by (cases "gs_Existence g"; cases "wo_Existence wo") simp_all
    qed
    let ?o = "base + length (concat (map snd xs))"
    have irg: "take (length ?i) (drop ?o bytes) = ?i" "?o + length ?i \<le> length bytes"
      using section_range [OF xy(1)] by (simp_all add: b(1) written_bytes_def base_def)
    have u: "unat (of_nat ?o :: u64) = ?o" "unat (of_nat (length ?i) :: u64) = length ?i" using irg(2) b(2) by (intro unat_of_nat_less; simp)+
    have "fetch (of_nat ?o) (of_nat (length ?i)) = Some (Inr ?i)"
      using in_range [of "of_nat ?o" "of_nat (length ?i)", unfolded u] irg b(2) by simp
    moreover from last_entry_split [OF xy, of base]
    have "last_entry sectionAtomIndex (entry_list base ?s) = Some \<lparr>de_ID = sectionAtomIndex, de_Offset = of_nat ?o, de_Length = of_nat (length ?i)\<rparr>" .
    ultimately show ?thesis
      by (intro disjI2 exI [of _ "\<lparr>de_ID = sectionAtomIndex, de_Offset = of_nat ?o, de_Length = of_nat (length ?i)\<rparr>"] exI [of _ atomIndexBlockLen] conjI)
        (simp_all only: DirEntry.simps atom_index_block not_False_eq_True)
  qed
  from newAtomReader_ok [OF at e x, of bl chunk cap] show ?thesis using dir at by blast
qed

end

text \<open>
  C11: block-lazy atom resolution over a written file. Whatever the block length, the chunk size and the cache capacity, and with or without an atom
  index in the file, over a provider that delivers the ranges of the file exactly, the reader opens, reports the atom count, and
  every sequence of lookups returns: each known id gives the atom the eager parse has at that id, each other id the corruption error,
  and the decoded blocks kept never exceed the capacity.
\<close>

theorem atom_reader_correct:
  assumes io: "io_laws R IO" and g: "graph_fits IO g" and w: "WriteWith IO g wo = Some (Inr bytes)" "length bytes < 2 ^ 63"
    and fetch: "\<And>off len. unat off + unat len \<le> length bytes \<Longrightarrow> unat off + unat len < 2 ^ 64 \<Longrightarrow> f off len = Some (Inr (take (unat len) (drop (unat off) bytes)))"
  shows "\<exists>dir r r'. ParseDirectory bytes = Some (Inr dir) \<and> newAtomReader f dir bl chunk cap = Some (Inr r) \<and> unat (AtomReader_Count r) = length (gs_Atoms g)
    \<and> Atom_calls f qs r = Some (map (\<lambda>i. if unat i < length (gs_Atoms g) then Inr (gs_Atoms g ! unat i) else Inl ErrCorrupt) qs, r')
    \<and> length (ar_cache r') \<le> max cap 1"
proof -
  note ok = graph_fits_ok [OF io g]
  have F: "section_fetch f bytes" by (rule section_fetch.intro) (rule fetch)
  have b: "bytes = written_bytes IO g wo" using WriteWith_ok [OF ok, of wo] w(1) by simp
  obtain dir r off where r: "ParseDirectory bytes = Some (Inr dir)" "newAtomReader f dir bl chunk cap = Some (Inr r)" "atom_section bytes off (gs_Atoms g)"
      "reader_inv off (gs_Atoms g) r" "ar_cacheCap r = max cap 1" "AtomReader_Count r = of_nat (length (gs_Atoms g))"
    using section_fetch.written_reader_ok [OF F ok b w(2), of bl chunk cap] by (elim exE conjE) (rule that)
  obtain r' where r': "Atom_calls f qs r = Some (map (\<lambda>i. if unat i < length (gs_Atoms g) then Inr (gs_Atoms g ! unat i) else Inl ErrCorrupt) qs, r')"
      "reader_inv off (gs_Atoms g) r'" "ar_cacheCap r' = ar_cacheCap r"
    using section_fetch.Atom_calls_ok [OF F r(3,4), of qs] by (elim exE conjE) (rule that)
  have "unat (AtomReader_Count r) = length (gs_Atoms g)" using r(6) atoms_fit(2) [OF r(3)] by (simp add: unat_of_nat_less)
  moreover have "length (ar_cache r') \<le> max cap 1" using r'(2,3) r(5) by (simp add: reader_inv_def)
  ultimately show ?thesis using r(1,2) r'(1) by blast
qed

theorem atom_reader_correct_witness:
  "\<exists>dir r r'. ParseDirectory (written_bytes list_io example_section DefaultWriteOptions) = Some (Inr dir)
    \<and> newAtomReader (MemoryFetch (written_bytes list_io example_section DefaultWriteOptions)) dir 1 16 1 = Some (Inr r) \<and> unat (AtomReader_Count r) = length (gs_Atoms example_section)
    \<and> Atom_calls (MemoryFetch (written_bytes list_io example_section DefaultWriteOptions)) [1, 0, 2, 1] r = Some ([Inr ''A'', Inr '''', Inl ErrCorrupt, Inr ''A''], r')
    \<and> length (ar_cache r') \<le> max 1 1"
proof -
  have a: "gs_Atoms example_section = ['''', ''A'']" by (simp add: example_section_def)
  have l: "length (written_bytes list_io example_section DefaultWriteOptions) < 2 ^ 63" by (simp add: example_size)
  show ?thesis
    using atom_reader_correct [OF list_io_laws example_section_fits WriteWith_ok [OF graph_fits_ok [OF list_io_laws example_section_fits]] l memory.in_range,
        where bl = 1 and chunk = 16 and cap = 1 and qs = "[1, 0, 2, 1]"]
    by (simp add: a del: Atom_calls.simps)
qed

section \<open>After a failed scan\<close>

text \<open>
  A corrupt section of four declared atoms, of which the third claims 200 bytes. The scan fails at the third atom with the first two
  counted but the frontier still in front of them, so the next call scans them again as the atoms that follow: the fourth id then
  resolves to the second atom instead of failing.
\<close>

definition corrupt_atoms :: "u8 list" where
  "corrupt_atoms = len_bytes 4 @ atom_bytes ''a'' @ atom_bytes ''b'' @ len_bytes 200 @ [0, 0]"

lemma rescan_after_error:
  "(case newAtomReader (MemoryFetch corrupt_atoms) [\<lparr>de_ID = sectionAtoms, de_Offset = 0, de_Length = 20\<rparr>] 1 16 1 of
      Some (Inr r) \<Rightarrow> map_option fst (Atom_calls (MemoryFetch corrupt_atoms) [2, 2, 3] r) | _ \<Rightarrow> None)
    = Some [Inl ErrCorrupt, Inl ErrCorrupt, Inr ''b'']"
  by code_simp

end
