(* ===== verification/Serialize.thy ===== *)
theory Serialize
  imports RcpgCorrect Snapshot
begin

text \<open>
  Saving and loading snapshots (\<open>serialize.go\<close>): the conversion between snapshots and the plain data model of the file, and the
  round trip through the bytes. The file system is not modelled: a written file is its bytes.
\<close>

section \<open>Columns\<close>

text \<open>\<open>for i, id := range col.ids\<close> with the value of slot \<open>i\<close>.\<close>

definition slot_entries :: "(nat \<Rightarrow> 'a option) \<Rightarrow> u32 list \<Rightarrow> (u32 \<times> 'a) list option" where
  "slot_entries val ns = map_opt (\<lambda>(i, p). map_option (Pair p) (val i)) (enumerate 0 ns)"

fun columnToData :: "Column \<Rightarrow> ColumnData option" where
  "columnToData (denseI64Col v) = Some (DenseI64 v)"
| "columnToData (denseI64NarrowCol v) = map_option DenseI64 (map_opt (narrow_at v) [0..<narrow_n v])"
| "columnToData (denseI64BitCol mn b) = map_option DenseI64 (map_opt (\<lambda>i. denseI64BitCol_at mn b (of_nat i)) [0..<Len b])"
| "columnToData (denseF64Col v) = Some (DenseF64 v)"
| "columnToData (denseBoolCol b) = map_option (\<lambda>packed. DenseBool packed (of_nat (Len b))) (ToPackedLSB b)"
| "columnToData (denseStrCol v) = Some (DenseStr v)"
| "columnToData (sparseI64Col ns v) = map_option SparseI64 (slot_entries (slice_at v) ns)"
| "columnToData (sparseI64NarrowCol ns v) = map_option SparseI64 (slot_entries (narrow_at v) ns)"
| "columnToData (rankI64NarrowCol r v) = map_option (\<lambda>es. SparseI64 (map (\<lambda>(p, x). (p, fst (Value_I64 x))) es)) (Column_Entries (rankI64NarrowCol r v))"
| "columnToData (sparseF64Col ns v) = map_option SparseF64 (slot_entries (slice_at v) ns)"
| "columnToData (sparseBoolCol ns v) = map_option SparseBool (slot_entries (slice_at v) ns)"
| "columnToData (sparseStrCol ns v) = map_option SparseStr (slot_entries (slice_at v) ns)"
| "columnToData (rankI64Col r v) = map_option (\<lambda>es. SparseI64 (map (\<lambda>(p, x). (p, fst (Value_I64 x))) es)) (Column_Entries (rankI64Col r v))"
| "columnToData (rankF64Col r v) = map_option (\<lambda>es. SparseF64 (map (\<lambda>(p, x). (p, fst (Value_F64 x))) es)) (Column_Entries (rankF64Col r v))"
| "columnToData (rankBoolCol r b) = map_option (\<lambda>es. SparseBool (map (\<lambda>(p, x). (p, fst (Value_Bool x))) es)) (Column_Entries (rankBoolCol r b))"
| "columnToData (rankStrCol r v) = map_option (\<lambda>es. SparseStr (map (\<lambda>(p, x). (p, fst (Value_StrID x))) es)) (Column_Entries (rankStrCol r v))"

fun dataToColumn :: "ColumnData \<Rightarrow> Column option" where
  "dataToColumn (DenseI64 d) = narrowI64Column d"
| "dataToColumn (DenseF64 d) = Some (denseF64Col d)"
| "dataToColumn (DenseBool packed len) = map_option denseBoolCol (FromPackedLSB packed (unat len))"
| "dataToColumn (DenseStr d) = Some (denseStrCol d)"
| "dataToColumn (SparseI64 d) = map_option (\<lambda>r. case r of Some nv \<Rightarrow> sparseI64NarrowCol (map fst d) nv | None \<Rightarrow> sparseI64Col (map fst d) (map snd d))
     (narrowI64Vals (map snd d))"
| "dataToColumn (SparseF64 d) = Some (sparseF64Col (map fst d) (map snd d))"
| "dataToColumn (SparseBool d) = Some (sparseBoolCol (map fst d) (map snd d))"
| "dataToColumn (SparseStr d) = Some (sparseStrCol (map fst d) (map snd d))"

text \<open>The pairs a stored column stands for, its type, and when it is well formed.\<close>

definition packed_bools :: "u8 list \<Rightarrow> nat \<Rightarrow> bool list" where
  "packed_bools packed n = map (\<lambda>i. bit (packed ! (i div 8)) (i mod 8)) [0..<n]"

definition dense_pairs :: "('a \<Rightarrow> Value) \<Rightarrow> 'a list \<Rightarrow> (u32 \<times> Value) list" where
  "dense_pairs mk xs = zip (all_pos (length xs)) (map mk xs)"

fun data_pairs :: "ColumnData \<Rightarrow> (u32 \<times> Value) list" where
  "data_pairs (DenseI64 d) = dense_pairs I64Value d"
| "data_pairs (DenseF64 d) = dense_pairs F64Value d"
| "data_pairs (DenseBool packed len) = dense_pairs BoolValue (packed_bools packed (unat len))"
| "data_pairs (DenseStr d) = dense_pairs StrValue d"
| "data_pairs (SparseI64 d) = map (apsnd I64Value) d"
| "data_pairs (SparseF64 d) = map (apsnd F64Value) d"
| "data_pairs (SparseBool d) = map (apsnd BoolValue) d"
| "data_pairs (SparseStr d) = map (apsnd StrValue) d"

fun data_type :: "ColumnData \<Rightarrow> Dtype" where
  "data_type (DenseI64 d) = DtypeI64"
| "data_type (DenseF64 d) = DtypeF64"
| "data_type (DenseBool packed len) = DtypeBool"
| "data_type (DenseStr d) = DtypeStr"
| "data_type (SparseI64 d) = DtypeI64"
| "data_type (SparseF64 d) = DtypeF64"
| "data_type (SparseBool d) = DtypeBool"
| "data_type (SparseStr d) = DtypeStr"

lemma length_packed_bools [simp]: "length (packed_bools packed n) = n"
  by (simp add: packed_bools_def)

lemma narrow_type: "narrowI64Column vals = Some c \<Longrightarrow> Column_Dtype c = DtypeI64"
  by (auto simp: narrowI64Column_def split: option.splits if_splits prod.splits)

lemma zip_pairs: "zip (map fst d) (map f (map snd d)) = map (apsnd f) d"
  by (induction d) (auto simp: apsnd_def)

text \<open>Any stored column with ascending positions loads, in whichever class, as the pairs it stands for.\<close>

lemma dataToColumn_ok:
  assumes ok: "data_ok d" and s: "sorted_wrt (<) (map fst (data_pairs d))"
  shows "\<exists>c. dataToColumn d = Some c \<and> col_inv c \<and> col_pairs c = data_pairs d \<and> Column_Dtype c = data_type d"
proof (cases d)
  case (DenseI64 x)
  then obtain c where "narrowI64Column x = Some c" "col_inv c" "col_pairs c = zip (all_pos (length x)) (map I64Value x)"
    using narrowI64Column_ok [of x] ok by auto
  then show ?thesis using DenseI64 narrow_type by (auto simp: dense_pairs_def)
next
  case (DenseBool packed len)
  then have n: "unat len \<le> 8 * length packed" "unat len < 2 ^ 32" using ok by auto
  obtain b where b: "FromPackedLSB packed (unat len) = Some b" "wf_bits b" "nbits b = unat len" "\<forall>i < unat len. bit_at b i = bit (packed ! (i div 8)) (i mod 8)"
    using FromPackedLSB_ok [OF n(1)] by blast
  have "bits_list b = packed_bools packed (unat len)" using b(3,4) by (simp add: bits_list_def packed_bools_def)
  then show ?thesis using DenseBool b n(2) by (simp add: col_inv_def col_pairs_def dense_pairs_def all_pos_props)
next
  case (SparseI64 x)
  have sx: "sorted_wrt (<) (map fst x)" using s SparseI64 by (simp add: comp_def)
  obtain r where r: "narrowI64Vals (map snd x) = Some r" "\<And>nv. r = Some nv \<Longrightarrow> narrow_repr nv (map snd x)"
    using narrowI64Vals_ok [of "map snd x"] by auto
  show ?thesis
  proof (cases r)
    case None
    then show ?thesis using SparseI64 r(1) sx ok by (simp add: col_inv_def col_pairs_def zip_pairs [unfolded map_map])
  next
    case (Some nv)
    have nv: "narrow_ok nv" "narrow_list nv = map snd x" using narrow_repr_list r(2) [OF Some] by auto
    then have "narrow_n nv = length x" using list_lengths(2) [of nv] by simp
    then show ?thesis using Some SparseI64 r(1) sx ok nv by (simp add: col_inv_def col_pairs_def zip_pairs [unfolded map_map])
  qed
qed (use ok s in \<open>simp_all add: col_inv_def col_pairs_def dense_pairs_def all_pos_props comp_def zip_pairs [unfolded map_map comp_def]\<close>)

lemma slot_entries_ok:
  assumes "length vs = length ns" "\<And>i. i < length ns \<Longrightarrow> val i = Some (vs ! i)"
  shows "slot_entries val ns = Some (zip ns vs)"
proof -
  have "slot_entries val ns = Some (map (\<lambda>(i, p). (p, vs ! i)) (enumerate 0 ns))"
    unfolding slot_entries_def using assms(2) by (intro map_opt_Some) (auto simp: in_set_enumerate_eq)
  also have "map (\<lambda>(i, p). (p, vs ! i)) (enumerate 0 ns) = zip ns vs"
    using assms(1) by (intro nth_equalityI) (auto simp: nth_enumerate_eq)
  finally show ?thesis .
qed

lemma slot_reads_back:
  "length v = length ns \<Longrightarrow> slot_entries (slice_at v) ns = Some (zip ns v)"
  "narrow_ok x \<Longrightarrow> narrow_n x = length ns \<Longrightarrow> slot_entries (narrow_at x) ns = Some (zip ns (narrow_list x))"
  by (auto intro!: slot_entries_ok simp: narrow_ok_def narrow_list_def)

lemma dense_reads_back:
  "narrow_ok x \<Longrightarrow> map_opt (narrow_at x) [0..<narrow_n x] = Some (narrow_list x)"
  "wf_bits b \<Longrightarrow> nbits b < 2 ^ 32 \<Longrightarrow> map_opt (\<lambda>i. denseI64BitCol_at mn b (of_nat i)) [0..<Len b] = Some (map (\<lambda>g. if g then mn + 1 else mn) (bits_list b))"
proof -
  show "narrow_ok x \<Longrightarrow> map_opt (narrow_at x) [0..<narrow_n x] = Some (narrow_list x)"
    unfolding narrow_list_def by (intro map_opt_Some) (auto simp: narrow_ok_def)
  assume b: "wf_bits b" "nbits b < 2 ^ 32"
  have "unat (of_nat i :: u32) = i" if "i < nbits b" for i using that b(2) by (intro unat_of_nat_less) simp
  then show "map_opt (\<lambda>i. denseI64BitCol_at mn b (of_nat i)) [0..<Len b] = Some (map (\<lambda>g. if g then mn + 1 else mn) (bits_list b))"
    unfolding bits_list_def Len_def map_map comp_def by (intro map_opt_Some) (auto simp: denseI64BitCol_at_def b(1))
qed

lemma map_zip_read: "(\<And>x. f (mk x) = x) \<Longrightarrow> map (\<lambda>(p, x). (p, f x)) (zip ps (map mk vs)) = zip ps vs"
  by (induction ps vs rule: list_induct2') simp_all

lemma map_apsnd_zip: "map (apsnd f) (zip ps vs) = zip ps (map f vs)"
  by (induction ps vs rule: list_induct2') simp_all

text \<open>The room that the packed length of a boolean column needs in 32 bits.\<close>

definition col_storable :: "Column \<Rightarrow> bool" where
  "col_storable c \<longleftrightarrow> col_inv c \<and> Column_Len c + 7 < 2 ^ 32"

lemma columnToData_ok:
  assumes c: "col_storable c"
  shows "\<exists>d. columnToData c = Some d \<and> data_ok d \<and> data_pairs d = col_pairs c \<and> data_type d = Column_Dtype c"
proof -
  have inv: "col_inv c" and room: "Column_Len c + 7 < 2 ^ 32" using c by (simp_all add: col_storable_def)
  have es: "Column_Entries c = Some (zip (col_pos c) (col_vals c))" using cols.entries_pairs [OF inv] by (simp add: col_pairs_def)
  note i = inv [unfolded col_inv_def]
  show ?thesis
  proof (cases c)
    case (denseBoolCol b)
    then have w: "wf_bits b" "nbits b + 7 < 2 ^ 32" using i room by (simp_all add: Len_def)
    obtain packed where p: "ToPackedLSB b = Some packed" "length packed = (nbits b + 7) div 8" "\<forall>i < 8 * length packed. bit (packed ! (i div 8)) (i mod 8) \<longleftrightarrow> bit_at b i"
      using ToPackedLSB_ok [OF w(1)] by blast
    have u: "unat (of_nat (nbits b) :: u32) = nbits b" using w(2) by (intro unat_of_nat_less) simp
    have "packed_bools packed (nbits b) = bits_list b" using p(2,3) by (auto simp: packed_bools_def bits_list_def)
    then show ?thesis using denseBoolCol p(1,2) u w(2) by (simp add: Len_def dense_pairs_def col_pairs_def)
  next
    case (denseI64BitCol mn b)
    then have w: "wf_bits b" "nbits b < 2 ^ 32" using i by simp_all
    show ?thesis using denseI64BitCol dense_reads_back(2) [OF w, of mn] w(2) by (simp add: dense_pairs_def col_pairs_def comp_def)
  qed (use i es room in \<open>simp_all add: slot_reads_back dense_reads_back dense_pairs_def col_pairs_def map_zip_read map_apsnd_zip comp_def Len_def\<close>)
qed

text \<open>The positions ascend, so the column that comes back reads as the one that went out.\<close>

lemma column_saved:
  assumes "col_storable c"
  shows "\<exists>d c'. columnToData c = Some d \<and> data_ok d \<and> dataToColumn d = Some c' \<and> col_inv c' \<and> col_pairs c' = col_pairs c \<and> Column_Dtype c' = Column_Dtype c"
proof -
  obtain d where d: "columnToData c = Some d" "data_ok d" "data_pairs d = col_pairs c" "data_type d = Column_Dtype c" using columnToData_ok [OF assms] by blast
  have "sorted_wrt (<) (map fst (data_pairs d))" unfolding d(3) using assms by (intro cols.pairs_sorted) (simp add: col_storable_def)
  from dataToColumn_ok [OF d(2) this] d show ?thesis by auto
qed

text \<open>
  C13: a property column of any of the sixteen storage classes survives the file. It is converted to the plain form without a panic, and
  the plain form loads, in the class the loader chooses for it, as a column of the same type that keeps the column contract,
  reads the same value or absence at every position, iterates the same entries and has the same length.
\<close>

theorem column_file_roundtrip:
  assumes "col_storable c"
  shows "\<exists>d c'. columnToData c = Some d \<and> dataToColumn d = Some c' \<and> col_inv c' \<and> Column_Dtype c' = Column_Dtype c
    \<and> (\<forall>p. Column_Get c' p = Column_Get c p) \<and> Column_Entries c' = Column_Entries c \<and> Column_Len c' = Column_Len c"
proof -
  have inv: "col_inv c" using assms by (simp add: col_storable_def)
  obtain d c' where d: "columnToData c = Some d" "dataToColumn d = Some c'" "col_inv c'" "col_pairs c' = col_pairs c" "Column_Dtype c' = Column_Dtype c"
    using column_saved [OF assms] by blast
  then show ?thesis
    using cols.get_pairs [OF inv] cols.get_pairs [OF d(3)] cols.entries_pairs [OF inv] cols.entries_pairs [OF d(3)] cols.len_pairs [OF inv] cols.len_pairs [OF d(3)]
    by auto
qed

theorem column_file_roundtrip_witness:
  "\<exists>d c'. columnToData (denseBoolCol (New 9)) = Some d \<and> dataToColumn d = Some c' \<and> col_inv c' \<and> Column_Dtype c' = Column_Dtype (denseBoolCol (New 9))
    \<and> (\<forall>p. Column_Get c' p = Column_Get (denseBoolCol (New 9)) p) \<and> Column_Entries c' = Column_Entries (denseBoolCol (New 9))
    \<and> Column_Len c' = Column_Len (denseBoolCol (New 9))"
  by (rule column_file_roundtrip) (simp add: col_storable_def col_inv_def Len_def all_pos_props)

section \<open>Snapshots\<close>

text \<open>
  The bitmap index of a Go map: the order of its entries is that of the atoms. \<open>sort.Slice\<close> is not stable, but the keys of a map are distinct, so
  the sorted order is unique.
\<close>

definition index_entries :: "(u32 \<times> 'bm Set) list \<Rightarrow> 'bm BitmapEntry list" where
  "index_entries index = sort_key be_Atom (map (\<lambda>(l, s). \<lparr>be_Atom = l, be_Bitmap = Set_Bitmap s\<rparr>) index)"

definition convert_columns :: "(PropertyKey \<times> Column) list \<Rightarrow> bool \<Rightarrow> rcpg_Column list option" where
  "convert_columns cs enabled =
     (if \<not> enabled then Some []
      else map_option (sort_key rc_Key) (map_opt (\<lambda>(key, col). map_option (\<lambda>d. \<lparr>rc_Key = key, rc_Data = d\<rparr>) (columnToData col)) cs))"

definition type_ids :: "relTypes \<Rightarrow> u32 list option" where
  "type_ids ts = map_opt (\<lambda>i. relTypes_At ts (of_nat i)) [0..<relTypes_Len ts]"

definition graphSectionWith :: "'bm roaring \<Rightarrow> 'bm Snapshot \<Rightarrow> bool \<Rightarrow> bool \<Rightarrow> 'bm GraphSection option" where
  "graphSectionWith R g nodeCols relCols = do {
     outT \<leftarrow> type_ids (outTypes g);
     inT \<leftarrow> type_ids (inTypes g);
     nodeC \<leftarrow> convert_columns (columns g) nodeCols;
     relC \<leftarrow> convert_columns (relColumns g) relCols;
     Some \<lparr>gs_NNodes = nNodes g, gs_NRels = nRels g, gs_OutOffsets = outOffsets g, gs_OutNbrs = outNbrs g, gs_OutTypes = outT,
       gs_InOffsets = inOffsets g, gs_InNbrs = inNbrs g, gs_InTypes = inT, gs_LabelIndex = index_entries (labelIndex g),
       gs_TypeIndex = index_entries (typeIndex g), gs_NodeColumns = nodeC, gs_RelColumns = relC, gs_Version = sn_version g,
       gs_Atoms = Atoms_Strings (sn_atoms g),
       gs_Existence = (case existence g of None \<Rightarrow> None | Some s \<Rightarrow> if (of_nat (Set_Len R s) :: u32) < CSRIDSpace g then Some (Set_Bitmap s) else None),
       gs_AtomIndex = None\<rparr>
   }"

definition ToGraphSection :: "'bm roaring \<Rightarrow> 'bm Snapshot \<Rightarrow> 'bm GraphSection option" where
  "ToGraphSection R g = graphSectionWith R g True True"

definition load_index :: "'bm BitmapEntry list \<Rightarrow> (u32 \<times> 'bm Set) list" where
  "load_index es = fold (\<lambda>e m. AList.update (be_Atom e) (FromBitmap (be_Bitmap e)) m) es []"

definition load_columns :: "rcpg_Column list \<Rightarrow> (PropertyKey \<times> Column) list option" where
  "load_columns cs = fold_opt (\<lambda>c m. map_option (\<lambda>col. AList.update (rc_Key c) col m) (dataToColumn (rc_Data c))) cs []"

definition FromGraphSection :: "'bm GraphSection \<Rightarrow> 'bm Snapshot option" where
  "FromGraphSection sec = do {
     cs \<leftarrow> load_columns (gs_NodeColumns sec);
     rs \<leftarrow> load_columns (gs_RelColumns sec);
     Some (newSnapshot\<lparr>nNodes := gs_NNodes sec, nRels := gs_NRels sec, outOffsets := gs_OutOffsets sec, outNbrs := gs_OutNbrs sec,
       outTypes := compressRelTypesU32 (gs_OutTypes sec), inOffsets := gs_InOffsets sec, inNbrs := gs_InNbrs sec,
       inTypes := compressRelTypesU32 (gs_InTypes sec), existence := map_option FromBitmap (gs_Existence sec),
       labelIndex := load_index (gs_LabelIndex sec), typeIndex := load_index (gs_TypeIndex sec), columns := cs, relColumns := rs,
       sn_version := gs_Version sec, sn_atoms := NewAtoms (gs_Atoms sec), hasRelProps := rs \<noteq> []\<rparr>)
   }"

definition WriteRCPGWith :: "'bm roaring \<Rightarrow> 'bm roaring_io \<Rightarrow> 'bm Snapshot \<Rightarrow> WriteOptions \<Rightarrow> u8 list res" where
  "WriteRCPGWith R IO g opts =
     (case graphSectionWith R g (wo_NodeColumns opts) (wo_RelColumns opts) of None \<Rightarrow> None | Some sec \<Rightarrow> WriteWith IO sec opts)"

definition WriteRCPG :: "'bm roaring \<Rightarrow> 'bm roaring_io \<Rightarrow> 'bm Snapshot \<Rightarrow> u8 list res" where
  "WriteRCPG R IO g = WriteRCPGWith R IO g DefaultWriteOptions"

definition ReadRCPG :: "'bm roaring_io \<Rightarrow> u8 list \<Rightarrow> 'bm Snapshot res" where
  "ReadRCPG IO b = rthen (Parse IO b) (\<lambda>sec. map_option Inr (FromGraphSection sec))"

section \<open>What is saved is loaded\<close>

text \<open>The bounds of the format on a snapshot.\<close>

definition storable :: "'bm roaring \<Rightarrow> 'bm roaring_io \<Rightarrow> 'bm Snapshot \<Rightarrow> bool" where
  "storable R IO g \<longleftrightarrow> (\<forall>s \<in> set (atom_strings (sn_atoms g)). atom_ok s) \<and> length (atom_strings (sn_atoms g)) < 2 ^ 32 \<and> atoms_wf (sn_atoms g)
     \<and> (\<forall>v. sn_version g = Some v \<longrightarrow> atom_ok v)
     \<and> rt_wf (outTypes g) \<and> rt_wf (inTypes g) \<and> relTypes_Len (outTypes g) < 2 ^ 32 \<and> relTypes_Len (inTypes g) < 2 ^ 32
     \<and> (\<forall>v \<in> {outOffsets g, outNbrs g, inOffsets g, inNbrs g}. length v < 2 ^ 32)
     \<and> distinct (map fst (labelIndex g)) \<and> length (labelIndex g) < 2 ^ 32 \<and> distinct (map fst (typeIndex g)) \<and> length (typeIndex g) < 2 ^ 32
     \<and> (\<forall>(l, s) \<in> set (labelIndex g) \<union> set (typeIndex g). unat (rb_GetSerializedSizeInBytes IO (Set_Bitmap s)) < 2 ^ 32)
     \<and> distinct (map fst (columns g)) \<and> length (columns g) < 2 ^ 32 \<and> distinct (map fst (relColumns g)) \<and> length (relColumns g) < 2 ^ 32
     \<and> (\<forall>(k, c) \<in> set (columns g) \<union> set (relColumns g). col_storable c)
     \<and> (\<forall>s. existence g = Some s \<longrightarrow> (\<forall>x \<in> ids R s. x < CSRIDSpace g))"

definition stored :: "Column \<Rightarrow> ColumnData" where
  "stored c = the (columnToData c)"

definition reloaded :: "Column \<Rightarrow> Column" where
  "reloaded c = the (dataToColumn (stored c))"

lemma stored_ok:
  assumes "col_storable c"
  shows "columnToData c = Some (stored c)" "data_ok (stored c)" "dataToColumn (stored c) = Some (reloaded c)" "col_inv (reloaded c)"
    "Column_Get (reloaded c) p = Column_Get c p"
proof -
  obtain d c' where d: "columnToData c = Some d" "data_ok d" "dataToColumn d = Some c'" "col_inv c'" "col_pairs c' = col_pairs c" using column_saved [OF assms] by blast
  then have e: "stored c = d" "reloaded c = c'" by (simp_all add: stored_def reloaded_def)
  show "columnToData c = Some (stored c)" "data_ok (stored c)" "dataToColumn (stored c) = Some (reloaded c)" "col_inv (reloaded c)" using d e by simp_all
  have "col_inv c" using assms by (simp add: col_storable_def)
  then show "Column_Get (reloaded c) p = Column_Get c p" using cols.get_pairs d(4,5) e by simp
qed

lemma type_ids_ok: "rt_wf ts \<Longrightarrow> relTypes_Len ts < 2 ^ 32 \<Longrightarrow> type_ids ts = Some (rt_list ts)"
proof -
  assume ts: "rt_wf ts" "relTypes_Len ts < 2 ^ 32"
  have "type_ids ts = Some (map ((!) (rt_list ts)) [0..<relTypes_Len ts])"
    unfolding type_ids_def using ts by (intro map_opt_Some) (simp add: relTypes_At_ok unat_of_nat_less)
  moreover have "map ((!) (rt_list ts)) [0..<relTypes_Len ts] = rt_list ts" using map_nth [of "rt_list ts"] by simp
  ultimately show ?thesis by simp
qed

lemma convert_ok:
  assumes "\<forall>(k, c) \<in> set cs. col_storable c"
  shows "convert_columns cs enabled = Some (if enabled then sort_key rc_Key (map (\<lambda>(k, c). \<lparr>rc_Key = k, rc_Data = stored c\<rparr>) cs) else [])"
proof -
  have "map_opt (\<lambda>(k, c). map_option (\<lambda>d. \<lparr>rc_Key = k, rc_Data = d\<rparr>) (columnToData c)) cs = Some (map (\<lambda>(k, c). \<lparr>rc_Key = k, rc_Data = stored c\<rparr>) cs)"
    using assms by (intro map_opt_Some) (auto simp: stored_ok(1))
  then show ?thesis by (simp add: convert_columns_def)
qed

text \<open>Go maps are rebuilt from entries in any order.\<close>

lemma map_of_reordered:
  assumes "set ys = set xs" "distinct (map fst xs)" "distinct (map fst ys)"
  shows "map_of ys = map_of xs"
  using assms map_of_inject_set [of ys xs] by simp

lemma load_index_ok:
  assumes "distinct (map fst index)"
  shows "map_of (load_index (map (entry_reload IO) (index_entries index))) l = map_option (\<lambda>s. FromBitmap (bm_reload IO (set_bm s))) (map_of index l)"
proof -
  let ?f = "\<lambda>(l, s). \<lparr>be_Atom = l, be_Bitmap = Set_Bitmap s\<rparr>" and ?p = "\<lambda>e. (be_Atom e, be_Bitmap e)"
  define ys where "ys = map ?p (index_entries index)"
  have st: "set ys = (\<lambda>(l, s). (l, set_bm s)) ` set index" by (force simp: ys_def index_entries_def Set_Bitmap_def)
  have "mset (map fst ys) = mset (map fst index)"
    by (simp add: ys_def index_entries_def multiset.map_comp comp_def case_prod_beta)
  then have d: "distinct (map fst ys)" using assms by (metis mset_eq_imp_distinct_iff)
  have "map_of ys = map_of (map (\<lambda>(l, s). (l, set_bm s)) index)"
    using d st assms by (intro map_of_reordered) (auto simp: comp_def case_prod_beta)
  then have m: "map_of ys l = map_option set_bm (map_of index l)" by (simp add: map_of_map)
  have "load_index (map (entry_reload IO) (index_entries index)) = fold (\<lambda>(k, x). AList.update k (FromBitmap (bm_reload IO x))) ys []"
    by (simp add: load_index_def ys_def fold_map comp_def entry_reload_def)
  then show ?thesis using map_of_fold_update [OF d, of "\<lambda>_ x. FromBitmap (bm_reload IO x)" "[]" l] by (simp add: m split: option.split)
qed

lemma load_columns_ok:
  assumes ok: "\<forall>(k, c) \<in> set cs. col_storable c" and "distinct (map fst cs)"
  shows "\<exists>cs'. load_columns (sort_key rc_Key (map (\<lambda>(k, c). \<lparr>rc_Key = k, rc_Data = stored c\<rparr>) cs)) = Some cs'
    \<and> (\<forall>k. map_of cs' k = map_option reloaded (map_of cs k)) \<and> (cs' = [] \<longleftrightarrow> cs = [])"
proof -
  let ?f = "\<lambda>(k, c). \<lparr>rc_Key = k, rc_Data = stored c\<rparr>"
  define es where "es = sort_key rc_Key (map ?f cs)"
  define load where "load c = the (dataToColumn (rc_Data c))" for c :: rcpg_Column
  define ys where "ys = map (\<lambda>c. (rc_Key c, load c)) es"
  have st: "set es = ?f ` set cs" by (simp add: es_def)
  have sy: "set ys = (\<lambda>(k, c). (k, reloaded c)) ` set cs" by (force simp: ys_def st load_def reloaded_def)
  have ld: "dataToColumn (rc_Data c) = Some (load c)" if "c \<in> set es" for c
    using that ok by (auto simp: st load_def stored_ok(3))
  have "mset (map fst ys) = mset (map fst cs)"
    by (simp add: ys_def es_def multiset.map_comp comp_def case_prod_beta)
  then have d: "distinct (map fst ys)" using assms(2) by (metis mset_eq_imp_distinct_iff)
  have m: "map_of ys k = map_option reloaded (map_of cs k)" for k
    using map_of_reordered [OF _ _ d, of "map (\<lambda>(k, c). (k, reloaded c)) cs"] sy assms(2) by (simp add: map_of_map comp_def case_prod_beta)
  have "load_columns es = fold_opt (\<lambda>c m. Some (AList.update (rc_Key c) (load c) m)) es []"
    unfolding load_columns_def by (intro fold_opt_cong refl) (simp add: ld)
  also have "\<dots> = Some (fold (\<lambda>(k, x). AList.update k x) ys [])" by (simp add: fold_opt_Some ys_def fold_map comp_def)
  finally have l: "load_columns es = Some (fold (\<lambda>(k, x). AList.update k x) ys [])" .
  have mo: "map_of (fold (\<lambda>(k, x). AList.update k x) ys []) k = map_option reloaded (map_of cs k)" for k
    using map_of_fold_update [OF d, of "\<lambda>_ x. x" "[]" k] by (simp add: m split: option.split)
  have "fold (\<lambda>(k, x). AList.update k x) ys [] = [] \<longleftrightarrow> cs = []"
  proof
    assume e: "fold (\<lambda>(k, x). AList.update k x) ys [] = []"
    have "map_of cs = Map.empty" using mo unfolding e by (simp add: fun_eq_iff)
    then show "cs = []" by simp
  next
    assume "cs = []"
    then show "fold (\<lambda>(k, x). AList.update k x) ys [] = []" using sy by simp
  qed
  then show ?thesis using l mo unfolding es_def by blast
qed

end
