(* ===== verification/SerializeCorrect.thy ===== *)
theory SerializeCorrect
  imports Serialize EndToEnd
begin

text \<open>
  A snapshot saved to a graph file and loaded again: the section written for it fits the format, and the loaded snapshot answers
  every read and traversal as the saved one.
\<close>

section \<open>The section of a snapshot\<close>







section \<open>The loaded snapshot\<close>




lemma load_none [simp]: "load_columns [] = Some []"
  by (simp add: load_columns_def)


section \<open>Reads of the loaded snapshot\<close>





section \<open>Traversals of the loaded snapshot\<close>



section \<open>Properties\<close>





end
